(* ===== verification/Path64_Prelude.thy ===== *)
theory Path64_Prelude
  imports Main "HOL-Library.Word" "HOL-Library.Signed_Division"
begin

unbundle bit_operations_syntax

text \<open>
  Shared vocabulary of the development: the error values of the modelled C code and their
  sequencing, the 32-bit signed conversion, the two shapes of C \<^verbatim>\<open>for\<close> loops the sources
  use (a counting loop that updates a state, a counting loop with an early \<^verbatim>\<open>return\<close>) with
  their proof rules, and generic facts on lists, integers and bits.
\<close>

section \<open>Collections of rewrite rules\<close>

named_theorems access_simps \<open>reads and writes of a bit set or a heap vector that are in range\<close>
named_theorems elt_simps \<open>32-bit element arithmetic that does not overflow\<close>

section \<open>Errors of the modelled code\<close>

text \<open>
  \<open>Is_True_Failed\<close> is a failed \<^verbatim>\<open>Is_True\<close> assertion (the checking build of the compiler),
  \<open>FmtAssert_Failed\<close> a failed \<^verbatim>\<open>FmtAssert\<close> (checked in every build), \<open>Out_Of_Bounds\<close> an
  access outside the storage of an object, which is undefined behaviour in C,
  \<open>Signed_Overflow\<close> a signed computation that leaves the range of its type, undefined too,
  \<open>Division_By_Zero\<close> an integer division by zero, \<open>Diverges\<close> a loop that does not end,
  \<open>Assert_Failed\<close> a failed \<^verbatim>\<open>assert\<close>, \<open>Pmp_Fatal\<close> a call of \<^verbatim>\<open>__pmp_fatal\<close>, which ends the
  program, \<open>No_Memory\<close> the fatal error of an allocation that fails and \<open>Bad_Free\<close> a call of
  \<^verbatim>\<open>free\<close> or \<^verbatim>\<open>realloc\<close> on an address that \<^verbatim>\<open>malloc\<close> has not returned or that has been freed.
\<close>

datatype c_error = Is_True_Failed | FmtAssert_Failed | Out_Of_Bounds | Signed_Overflow
  | Division_By_Zero | Diverges | Assert_Failed | Pmp_Fatal | No_Memory | Bad_Free

type_synonym 'a res = "c_error + 'a"

definition bindE :: "'e + 'a \<Rightarrow> ('a \<Rightarrow> 'e + 'b) \<Rightarrow> 'e + 'b" where
  "bindE m f = (case m of Inl e \<Rightarrow> Inl e | Inr x \<Rightarrow> f x)"

definition Is_True :: "bool \<Rightarrow> unit res" where
  "Is_True c = (if c then Inr () else Inl Is_True_Failed)"

definition FmtAssert :: "bool \<Rightarrow> unit res" where
  "FmtAssert c = (if c then Inr () else Inl FmtAssert_Failed)"

lemma bindE_Inr [simp]: "bindE (Inr x) f = f x"
  by (simp add: bindE_def)

lemma bindE_Inl [simp]: "bindE (Inl e) f = Inl e"
  by (simp add: bindE_def)

lemma bindE_eq_Inr_iff: "bindE m f = Inr y \<longleftrightarrow> (\<exists>x. m = Inr x \<and> f x = Inr y)"
  by (simp add: bindE_def split: sum.splits)

lemma bindE_cong [fundef_cong]:
  "m = m' \<Longrightarrow> (\<And>x. m' = Inr x \<Longrightarrow> f x = g x) \<Longrightarrow> bindE m f = bindE m' g"
  by (cases m') auto

lemma bindE_assoc: "bindE (bindE m f) g = bindE m (\<lambda>x. bindE (f x) g)"
  by (simp add: bindE_def split: sum.splits)

lemma Is_True_simps [simp]:
  "Is_True True = Inr ()" "Is_True False = Inl Is_True_Failed"
  by (simp_all add: Is_True_def)

lemma FmtAssert_simps [simp]:
  "FmtAssert True = Inr ()" "FmtAssert False = Inl FmtAssert_Failed"
  by (simp_all add: FmtAssert_def)

section \<open>32-bit signed conversion\<close>

text \<open>
  \<open>s32 x\<close> is the value of \<open>x\<close> after a conversion to a 32-bit signed integer
  (\<^verbatim>\<open>INT32\<close>, the type \<^verbatim>\<open>BS_ELT\<close> of bit-set elements).
\<close>

definition s32 :: "int \<Rightarrow> int" where
  "s32 x = (x + 2147483648) mod 4294967296 - 2147483648"

lemma s32_id [elt_simps]: "- 2147483648 \<le> x \<Longrightarrow> x < 2147483648 \<Longrightarrow> s32 x = x"
  by (simp add: s32_def)

lemma s32_range: "- 2147483648 \<le> s32 x \<and> s32 x < 2147483648"
proof -
  have "0 \<le> (x + 2147483648) mod 4294967296" "(x + 2147483648) mod 4294967296 < 4294967296"
    by simp_all
  then show ?thesis by (simp add: s32_def)
qed

text \<open>\<open>int32 x\<close> is an \<^verbatim>\<open>INT32\<close> computation whose mathematical result is \<open>x\<close>.\<close>

definition int32 :: "int \<Rightarrow> int res" where
  "int32 x = (if - 2147483648 \<le> x \<and> x < 2147483648 then Inr x else Inl Signed_Overflow)"

lemma int32_in [elt_simps]: "- 2147483648 \<le> x \<Longrightarrow> x < 2147483648 \<Longrightarrow> int32 x = Inr x"
  by (simp add: int32_def)

lemma int32_Inr: "int32 x = Inr y \<Longrightarrow> y = x"
  by (simp add: int32_def split: if_splits)

text \<open>\<open>int64 x\<close> is the same for a 64-bit signed type, and \<open>div64\<close> the division that truncates.\<close>

definition int64 :: "int \<Rightarrow> int res" where
  "int64 x = (if - 9223372036854775808 \<le> x \<and> x < 9223372036854775808 then Inr x else Inl Signed_Overflow)"

definition div64 :: "int \<Rightarrow> int \<Rightarrow> int res" where
  "div64 a b = (if b = 0 then Inl Division_By_Zero else int64 (a sdiv b))"

lemma int64_Inr: "int64 x = Inr y \<Longrightarrow> y = x"
  by (simp add: int64_def split: if_splits)

text \<open>\<open>s64 x\<close> is \<open>x\<close> reduced to a 64-bit signed integer, as the atomic instructions compute.\<close>

definition s64 :: "int \<Rightarrow> int" where
  "s64 x = (x + 9223372036854775808) mod 18446744073709551616 - 9223372036854775808"

lemma s64_id: "- 9223372036854775808 \<le> x \<Longrightarrow> x < 9223372036854775808 \<Longrightarrow> s64 x = x"
  by (simp add: s64_def)

definition assertC :: "bool \<Rightarrow> unit res" where
  "assertC c = (if c then Inr () else Inl Assert_Failed)"

lemma assertC_simps [simp]:
  "assertC True = Inr ()" "assertC False = Inl Assert_Failed"
  by (simp_all add: assertC_def)

lemma int64_in: "- 9223372036854775808 \<le> x \<Longrightarrow> x < 9223372036854775808 \<Longrightarrow> int64 x = Inr x"
  by (simp add: int64_def)

section \<open>Counting loops\<close>

text \<open>
  \<open>for_loop i n body s\<close> is \<^verbatim>\<open>for (; i < n; ++i) s = body(i, s)\<close>;
  \<open>for_find i n body\<close> is the same loop with a body that may \<^verbatim>\<open>return\<close> a value
  (\<open>Some\<close>) or go on (\<open>None\<close>). An error in the body ends both.
\<close>

function for_loop :: "int \<Rightarrow> int \<Rightarrow> (int \<Rightarrow> 's \<Rightarrow> 'e + 's) \<Rightarrow> 's \<Rightarrow> 'e + 's" where
  "for_loop i n body s =
     (if i < n then bindE (body i s) (\<lambda>s'. for_loop (i + 1) n body s') else Inr s)"
  by pat_completeness auto
termination
  by (relation "measure (\<lambda>(i, n, body, s). nat (n - i))") auto

function for_find :: "int \<Rightarrow> int \<Rightarrow> (int \<Rightarrow> 'e + 'r option) \<Rightarrow> 'e + 'r option" where
  "for_find i n body =
     (if i < n
      then bindE (body i) (\<lambda>r. case r of Some x \<Rightarrow> Inr (Some x) | None \<Rightarrow> for_find (i + 1) n body)
      else Inr None)"
  by pat_completeness auto
termination
  by (relation "measure (\<lambda>(i, n, body). nat (n - i))") auto

declare for_loop.simps [simp del] for_find.simps [simp del]

lemma for_loop_done [simp]: "n \<le> i \<Longrightarrow> for_loop i n body s = Inr s"
  by (simp add: for_loop.simps)

lemma for_loop_step: "i < n \<Longrightarrow> for_loop i n body s = bindE (body i s) (for_loop (i + 1) n body)"
  by (subst for_loop.simps) simp

lemma for_find_done [simp]: "n \<le> i \<Longrightarrow> for_find i n body = Inr None"
  by (simp add: for_find.simps)

text \<open>
  The proof rule of a state loop: an invariant indexed by the loop counter that the body
  keeps and that rules out an error.
\<close>

lemma for_loop_rule:
  assumes "i \<le> n" and "I i s"
    and "\<And>k t. i \<le> k \<Longrightarrow> k < n \<Longrightarrow> I k t \<Longrightarrow> \<exists>t'. body k t = Inr t' \<and> I (k + 1) t'"
  shows "\<exists>t. for_loop i n body s = Inr t \<and> I n t"
  using assms
proof (induction "nat (n - i)" arbitrary: i s)
  case 0
  then show ?case by simp
next
  case (Suc m)
  then have "i < n" by simp
  with Suc.prems obtain t where t: "body i s = Inr t" "I (i + 1) t" by blast
  have "\<exists>u. for_loop (i + 1) n body t = Inr u \<and> I n u"
    by (rule Suc.hyps(1)) (use Suc.hyps(2) Suc.prems t in auto)
  with t \<open>i < n\<close> show ?case by (simp add: for_loop_step)
qed

text \<open>
  The proof rule of a search loop: \<open>Q k\<close> says that nothing was found below \<open>k\<close>, and a
  body that finds something establishes \<open>P\<close>.
\<close>

lemma for_find_rule:
  assumes "i \<le> n" and "Q i"
    and "\<And>k. i \<le> k \<Longrightarrow> k < n \<Longrightarrow> Q k \<Longrightarrow>
      \<exists>r. body k = Inr r \<and> (case r of None \<Rightarrow> Q (k + 1) | Some x \<Rightarrow> P x)"
  shows "\<exists>r. for_find i n body = Inr r \<and> (case r of None \<Rightarrow> Q n | Some x \<Rightarrow> P x)"
  using assms
proof (induction "nat (n - i)" arbitrary: i)
  case 0
  then show ?case by simp
next
  case (Suc m)
  then have "i < n" by simp
  with Suc.prems obtain r where r: "body i = Inr r" "case r of None \<Rightarrow> Q (i + 1) | Some x \<Rightarrow> P x"
    by blast
  show ?case
  proof (cases r)
    case None
    have "\<exists>r. for_find (i + 1) n body = Inr r \<and> (case r of None \<Rightarrow> Q n | Some x \<Rightarrow> P x)"
      by (rule Suc.hyps(1)) (use Suc.hyps(2) Suc.prems r None in auto)
    with r None \<open>i < n\<close> show ?thesis by (subst for_find.simps) simp
  next
    case (Some x)
    with r \<open>i < n\<close> show ?thesis by (subst for_find.simps) simp
  qed
qed

text \<open>
  \<open>returnE m k\<close> runs code \<open>m\<close> that may \<^verbatim>\<open>return\<close> a value, and the code \<open>k\<close> that follows it
  if it does not. A loop whose body tests a condition and returns one value ends with that
  value exactly if the condition holds somewhere in its range.
\<close>

definition returnE :: "'e + 'r option \<Rightarrow> 'e + 'r \<Rightarrow> 'e + 'r" where
  "returnE m k = bindE m (\<lambda>r. case r of Some x \<Rightarrow> Inr x | None \<Rightarrow> k)"

lemma returnE_simps [simp]:
  "returnE (Inr (Some x)) k = Inr x" "returnE (Inr None) k = k" "returnE (Inl e) k = Inl e"
  by (simp_all add: returnE_def)

lemma returnE_if: "returnE (Inr (if c then Some x else None)) k = (if c then Inr x else k)"
  by simp

lemma decide_simps:
  "(if c then Inr False else Inr d) = Inr (\<not> c \<and> d)"
  "(if c then Inr False else Inr True) = Inr (\<not> c)"
  "(if c then Inr True else Inr False) = Inr c"
  by simp_all

lemma for_find_test:
  assumes "\<And>k. i \<le> k \<Longrightarrow> k < n \<Longrightarrow> body k = Inr (if c k then Some x else None)"
  shows "for_find i n body = Inr (if \<exists>k. i \<le> k \<and> k < n \<and> c k then Some x else None)"
proof (cases "i \<le> n")
  case True
  let ?Q = "\<lambda>m. \<forall>k. i \<le> k \<and> k < m \<longrightarrow> \<not> c k"
  have "\<exists>r. for_find i n body = Inr r \<and>
      (case r of None \<Rightarrow> ?Q n | Some y \<Rightarrow> y = x \<and> (\<exists>k. i \<le> k \<and> k < n \<and> c k))"
  proof (rule for_find_rule [where Q = ?Q])
    fix k assume k: "i \<le> k" "k < n" "?Q k"
    have "?Q (k + 1)" if "\<not> c k"
    proof (intro allI impI)
      fix j assume "i \<le> j \<and> j < k + 1"
      then show "\<not> c j" using k(3) that by (cases "j = k") auto
    qed
    with k assms [of k] show "\<exists>r. body k = Inr r \<and>
        (case r of None \<Rightarrow> ?Q (k + 1) | Some y \<Rightarrow> y = x \<and> (\<exists>k. i \<le> k \<and> k < n \<and> c k))"
      by (cases "c k") auto
  qed (use True in auto)
  then obtain r where "for_find i n body = Inr r"
      "case r of None \<Rightarrow> ?Q n | Some y \<Rightarrow> y = x \<and> (\<exists>k. i \<le> k \<and> k < n \<and> c k)" by blast
  then show ?thesis by (cases r) auto
qed auto

lemma for_find_cong:
  "(\<And>k. i \<le> k \<Longrightarrow> k < n \<Longrightarrow> f k = g k) \<Longrightarrow> for_find i n f = for_find i n g"
proof (induction "nat (n - i)" arbitrary: i)
  case (Suc m)
  then have "i < n" by simp
  moreover have "for_find (i + 1) n f = for_find (i + 1) n g"
    using Suc.hyps(2) Suc.prems by (intro Suc.hyps(1)) auto
  ultimately show ?case using Suc.prems [of i] by (subst (1 2) for_find.simps) simp
qed simp

text \<open>The loop rule for a body that fails at step \<open>m\<close>.\<close>

lemma for_loop_fails:
  assumes "i \<le> m" and "m < n" and "I s"
    and "\<And>k t. i \<le> k \<Longrightarrow> k < m \<Longrightarrow> I t \<Longrightarrow> \<exists>t'. body k t = Inr t' \<and> I t'"
    and "\<And>t. I t \<Longrightarrow> body m t = Inl err"
  shows "for_loop i n body s = Inl err"
  using assms(1,3,4)
proof (induction "nat (m - i)" arbitrary: i s)
  case 0
  then have "i = m" by simp
  then show ?case using 0 assms(2,5) by (simp add: for_loop_step)
next
  case (Suc k)
  then have "i < m" by simp
  then obtain t where t: "body i s = Inr t" "I t" using Suc.prems by blast
  have "for_loop (i + 1) n body t = Inl err"
    by (rule Suc.hyps(1)) (use Suc.hyps(2) Suc.prems t in auto)
  then show ?case using t \<open>i < m\<close> assms(2) by (simp add: for_loop_step)
qed

section \<open>Step relations\<close>

text \<open>
  A state machine with an invariant, and one whose steps use up a weight: the invariant holds in every
  state a run can reach, and the weight of the start bounds the length of every run.
\<close>

locale step_invariant =
  fixes step :: "'s \<Rightarrow> 's \<Rightarrow> bool" and start :: "'s \<Rightarrow> bool" and inv :: "'s \<Rightarrow> bool"
  assumes inv_start: "start s \<Longrightarrow> inv s"
    and inv_step: "inv s \<Longrightarrow> step s s' \<Longrightarrow> inv s'"
begin

lemma inv_run: "step\<^sup>*\<^sup>* s s' \<Longrightarrow> inv s \<Longrightarrow> inv s'"
  by (induction rule: rtranclp_induct) (auto intro: inv_step)

lemma inv_reachable: "start s \<Longrightarrow> step\<^sup>*\<^sup>* s s' \<Longrightarrow> inv s'"
  using inv_run inv_start by blast

end

locale bounded_steps = step_invariant +
  fixes weight :: "'a \<Rightarrow> nat"
  assumes weight_step: "inv s \<Longrightarrow> step s s' \<Longrightarrow> weight s' < weight s"
begin

lemma weight_run: "(step ^^ k) s s' \<Longrightarrow> inv s \<Longrightarrow> inv s' \<and> k + weight s' \<le> weight s"
proof (induction k arbitrary: s')
  case (Suc k)
  then obtain s1 where "(step ^^ k) s s1" "step s1 s'" by auto
  with Suc show ?case using inv_step weight_step by fastforce
qed simp

lemma run_bound: "start s \<Longrightarrow> (step ^^ k) s s' \<Longrightarrow> k \<le> weight s"
  using weight_run inv_start by fastforce

end

end
