(* ===== verification/Bitset_Base.thy ===== *)
theory Bitset_Base
  imports Path64_Prelude
begin

text \<open>
  The representation of bit sets (\<^verbatim>\<open>common/util/bitset.h\<close>): the macros for words, bytes and
  elements, the lookup tables, checked access to words and bytes in both byte orders, the
  memory pool interface the package allocates from, and \<open>BS_members\<close>, the set of integers a
  representation stands for. A \<^verbatim>\<open>BS\<close> is the list of its member words; the header word that
  holds their number is the length of the list. Elements (\<^verbatim>\<open>BS_ELT\<close>, a 32-bit signed integer)
  are integers, with the conversion \<open>s32\<close> where a macro casts.
\<close>

section \<open>Types and macros\<close>

type_synonym BS_WORD = "32 word"
type_synonym BS_BYTE = "8 word"
type_synonym BS_ELT = int
type_synonym BS = "BS_WORD list"

text \<open>The byte order of the host, which \<^verbatim>\<open>BS_byte\<close> exposes and the package must not depend on.\<close>

datatype endian = Little_Endian | Big_Endian

definition LOG2_BITS_PER_BS_WORD :: nat where
  "LOG2_BITS_PER_BS_WORD = 5"

definition BYTES_PER_BS_WORD :: int where
  "BYTES_PER_BS_WORD = 4"

definition BITS_PER_BS_WORD :: int where
  "BITS_PER_BS_WORD = BYTES_PER_BS_WORD * 8"

definition bs_PBPW :: "int \<Rightarrow> BS_ELT" where
  "bs_PBPW x = s32 (push_bit LOG2_BITS_PER_BS_WORD x)"

definition bs_QBPW :: "int \<Rightarrow> BS_ELT" where
  "bs_QBPW x = s32 (drop_bit LOG2_BITS_PER_BS_WORD x)"

definition bs_PBPB :: "int \<Rightarrow> BS_ELT" where
  "bs_PBPB x = s32 (push_bit 3 x)"

definition bs_QBPB :: "int \<Rightarrow> BS_ELT" where
  "bs_QBPB x = s32 (drop_bit 3 x)"

definition bs_RBPB :: "int \<Rightarrow> BS_ELT" where
  "bs_RBPB x = s32 (x AND 7)"

definition bs_PBytesPW :: "int \<Rightarrow> BS_ELT" where
  "bs_PBytesPW x = s32 (x * BYTES_PER_BS_WORD)"

definition bs_ZEROS :: BS_WORD where
  "bs_ZEROS = 0"

definition bs_ONES :: BS_WORD where
  "bs_ONES = NOT 0"

definition bs_ONE :: BS_WORD where
  "bs_ONE = 1"

definition BS_CHOOSE_FAILURE :: BS_ELT where
  "BS_CHOOSE_FAILURE = -1"

section \<open>Lookup tables\<close>

text \<open>
  Index of the first one bit, and number of one bits, of every byte value; the entries
  0 to 127 and 128 to 255 of the source's tables.
\<close>

definition first_one_low :: "nat list" where
  "first_one_low =
     [0, 0, 1, 0, 2, 0, 1, 0, 3, 0, 1, 0, 2, 0, 1, 0, 4, 0, 1, 0, 2, 0, 1, 0, 3, 0, 1, 0, 2, 0, 1, 0,
      5, 0, 1, 0, 2, 0, 1, 0, 3, 0, 1, 0, 2, 0, 1, 0, 4, 0, 1, 0, 2, 0, 1, 0, 3, 0, 1, 0, 2, 0, 1, 0,
      6, 0, 1, 0, 2, 0, 1, 0, 3, 0, 1, 0, 2, 0, 1, 0, 4, 0, 1, 0, 2, 0, 1, 0, 3, 0, 1, 0, 2, 0, 1, 0,
      5, 0, 1, 0, 2, 0, 1, 0, 3, 0, 1, 0, 2, 0, 1, 0, 4, 0, 1, 0, 2, 0, 1, 0, 3, 0, 1, 0, 2, 0, 1, 0]"

definition first_one_high :: "nat list" where
  "first_one_high =
     [7, 0, 1, 0, 2, 0, 1, 0, 3, 0, 1, 0, 2, 0, 1, 0, 4, 0, 1, 0, 2, 0, 1, 0, 3, 0, 1, 0, 2, 0, 1, 0,
      5, 0, 1, 0, 2, 0, 1, 0, 3, 0, 1, 0, 2, 0, 1, 0, 4, 0, 1, 0, 2, 0, 1, 0, 3, 0, 1, 0, 2, 0, 1, 0,
      6, 0, 1, 0, 2, 0, 1, 0, 3, 0, 1, 0, 2, 0, 1, 0, 4, 0, 1, 0, 2, 0, 1, 0, 3, 0, 1, 0, 2, 0, 1, 0,
      5, 0, 1, 0, 2, 0, 1, 0, 3, 0, 1, 0, 2, 0, 1, 0, 4, 0, 1, 0, 2, 0, 1, 0, 3, 0, 1, 0, 2, 0, 1, 0]"

definition first_one :: "BS_BYTE \<Rightarrow> int" where
  "first_one b = int ((first_one_low @ first_one_high) ! unat b)"

definition bit_count_low :: "nat list" where
  "bit_count_low =
     [0, 1, 1, 2, 1, 2, 2, 3, 1, 2, 2, 3, 2, 3, 3, 4, 1, 2, 2, 3, 2, 3, 3, 4, 2, 3, 3, 4, 3, 4, 4, 5,
      1, 2, 2, 3, 2, 3, 3, 4, 2, 3, 3, 4, 3, 4, 4, 5, 2, 3, 3, 4, 3, 4, 4, 5, 3, 4, 4, 5, 4, 5, 5, 6,
      1, 2, 2, 3, 2, 3, 3, 4, 2, 3, 3, 4, 3, 4, 4, 5, 2, 3, 3, 4, 3, 4, 4, 5, 3, 4, 4, 5, 4, 5, 5, 6,
      2, 3, 3, 4, 3, 4, 4, 5, 3, 4, 4, 5, 4, 5, 5, 6, 3, 4, 4, 5, 4, 5, 5, 6, 4, 5, 5, 6, 5, 6, 6, 7]"

definition bit_count_high :: "nat list" where
  "bit_count_high =
     [1, 2, 2, 3, 2, 3, 3, 4, 2, 3, 3, 4, 3, 4, 4, 5, 2, 3, 3, 4, 3, 4, 4, 5, 3, 4, 4, 5, 4, 5, 5, 6,
      2, 3, 3, 4, 3, 4, 4, 5, 3, 4, 4, 5, 4, 5, 5, 6, 3, 4, 4, 5, 4, 5, 5, 6, 4, 5, 5, 6, 5, 6, 6, 7,
      2, 3, 3, 4, 3, 4, 4, 5, 3, 4, 4, 5, 4, 5, 5, 6, 3, 4, 4, 5, 4, 5, 5, 6, 4, 5, 5, 6, 5, 6, 6, 7,
      3, 4, 4, 5, 4, 5, 5, 6, 4, 5, 5, 6, 5, 6, 6, 7, 4, 5, 5, 6, 5, 6, 6, 7, 5, 6, 6, 7, 6, 7, 7, 8]"

definition bit_count :: "BS_BYTE \<Rightarrow> int" where
  "bit_count b = int ((bit_count_low @ bit_count_high) ! unat b)"

section \<open>Access to words and bytes\<close>

definition BS_word_count :: "BS \<Rightarrow> int" where
  "BS_word_count s = int (length s)"

definition BS_word :: "BS \<Rightarrow> int \<Rightarrow> BS_WORD res" where
  "BS_word s i =
     (if 0 \<le> i \<and> i < BS_word_count s then Inr (s ! nat i) else Inl Out_Of_Bounds)"

definition BS_set_word :: "BS \<Rightarrow> int \<Rightarrow> BS_WORD \<Rightarrow> BS res" where
  "BS_set_word s i w =
     (if 0 \<le> i \<and> i < BS_word_count s then Inr (s[nat i := w]) else Inl Out_Of_Bounds)"

text \<open>
  Byte \<open>j\<close> (in address order) of a word is its bits \<open>8 * byte_lane e j\<close> and up.
\<close>

fun byte_lane :: "endian \<Rightarrow> nat \<Rightarrow> nat" where
  "byte_lane Little_Endian j = j"
| "byte_lane Big_Endian j = 3 - j"

definition get_byte :: "endian \<Rightarrow> BS_WORD \<Rightarrow> nat \<Rightarrow> BS_BYTE" where
  "get_byte e w j = ucast (drop_bit (8 * byte_lane e j) w)"

definition put_byte :: "endian \<Rightarrow> BS_WORD \<Rightarrow> nat \<Rightarrow> BS_BYTE \<Rightarrow> BS_WORD" where
  "put_byte e w j b =
     (w AND NOT (push_bit (8 * byte_lane e j) 255)) OR push_bit (8 * byte_lane e j) (ucast b)"

definition BS_byte :: "endian \<Rightarrow> BS \<Rightarrow> int \<Rightarrow> BS_BYTE res" where
  "BS_byte e s i =
     (if 0 \<le> i \<and> i < BS_word_count s * BYTES_PER_BS_WORD
      then Inr (get_byte e (s ! (nat i div 4)) (nat i mod 4)) else Inl Out_Of_Bounds)"

definition BS_set_byte :: "endian \<Rightarrow> BS \<Rightarrow> int \<Rightarrow> BS_BYTE \<Rightarrow> BS res" where
  "BS_set_byte e s i b =
     (if 0 \<le> i \<and> i < BS_word_count s * BYTES_PER_BS_WORD
      then Inr (s[nat i div 4 := put_byte e (s ! (nat i div 4)) (nat i mod 4) b])
      else Inl Out_Of_Bounds)"

section \<open>Memory pools\<close>

text \<open>
  What the package uses of a \<^verbatim>\<open>MEM_POOL\<close>: whether it is the designated \<^verbatim>\<open>bad_pool\<close>, whether
  it hands out zeroed memory, the contents of freshly allocated words, and the contents after
  a reallocation of a block to a larger number of words.
\<close>

record MEM_POOL =
  is_bad_pool :: bool
  MEM_POOL_Zeroed :: bool
  MEM_POOL_Alloc :: "nat \<Rightarrow> BS_WORD list"
  MEM_POOL_Realloc :: "BS_WORD list \<Rightarrow> nat \<Rightarrow> BS_WORD list"

definition bad_pool :: MEM_POOL where
  "bad_pool = \<lparr>is_bad_pool = True, MEM_POOL_Zeroed = False,
     MEM_POOL_Alloc = (\<lambda>_. []), MEM_POOL_Realloc = (\<lambda>s _. s)\<rparr>"

definition bs_Malloc :: "int \<Rightarrow> MEM_POOL \<Rightarrow> BS res" where
  "bs_Malloc len pool =
     bindE (Is_True (\<not> is_bad_pool pool)) (\<lambda>_.
     Inr (MEM_POOL_Alloc pool (nat len)))"

text \<open>
  The loop of \<^verbatim>\<open>bs_Realloc\<close> that doubles \<^verbatim>\<open>new_length\<close> until it is at least \<^verbatim>\<open>length\<close>.
  Both are 64-bit unsigned: above \<open>2 ^ 63\<close> the only one bit of \<^verbatim>\<open>new_length\<close> is shifted out
  and the loop does not end, which \<open>bs_Realloc\<close> states as \<open>Diverges\<close>.
\<close>

function realloc_length :: "int \<Rightarrow> int \<Rightarrow> int" where
  "realloc_length new_length len =
     (if 0 < new_length \<and> new_length < len
      then realloc_length (push_bit 1 new_length) len else new_length)"
  by pat_completeness auto
termination
  by (relation "measure (\<lambda>(n, l). nat (l - n))") (auto simp: push_bit_eq_mult)

declare realloc_length.simps [simp del]

definition bs_Realloc :: "BS \<Rightarrow> int \<Rightarrow> MEM_POOL \<Rightarrow> BS res" where
  "bs_Realloc bs length_arg pool =
     (let old_length = BS_word_count bs;
          len = length_arg mod 2 ^ 64 in
      bindE (Is_True (\<not> is_bad_pool pool)) (\<lambda>_.
      if len \<le> old_length then Inr bs
      else if 2 ^ 63 < len then Inl Diverges
      else let len' = realloc_length 2 len;
               new_set = MEM_POOL_Realloc pool bs (nat len')
           in if \<not> MEM_POOL_Zeroed pool
              then for_loop old_length len' (\<lambda>i s. BS_set_word s i bs_ZEROS) new_set
              else Inr new_set))"

section \<open>The set a representation stands for\<close>

text \<open>
  The interface comment: \<open>x\<close> is an element if \<open>x\<close> is below the number of bits held and bit
  \<open>x mod 8\<close> of byte \<open>x div 8\<close> is set.
\<close>

definition BS_members :: "endian \<Rightarrow> BS \<Rightarrow> BS_ELT set" where
  "BS_members e s =
     {x. 0 \<le> x \<and> x < BITS_PER_BS_WORD * BS_word_count s \<and>
         (case BS_byte e s (x div 8) of Inl _ \<Rightarrow> False | Inr b \<Rightarrow> bit b (nat x mod 8))}"

text \<open>
  Sets small enough for the element arithmetic: fewer than \<open>2 ^ 26\<close> words, so that every
  element and the number of bits held are 32-bit signed integers.
\<close>

definition bs_ok :: "BS \<Rightarrow> bool" where
  "bs_ok s \<longleftrightarrow> BS_word_count s < 67108864"

section \<open>Element arithmetic within range\<close>

lemma bs_arith:
  "0 \<le> x \<Longrightarrow> x < 67108864 \<Longrightarrow> bs_PBPW x = 32 * x"
  "0 \<le> x \<Longrightarrow> x < 4294967296 \<Longrightarrow> bs_QBPW x = x div 32"
  "0 \<le> x \<Longrightarrow> x < 268435456 \<Longrightarrow> bs_PBPB x = 8 * x"
  "0 \<le> x \<Longrightarrow> x < 4294967296 \<Longrightarrow> bs_QBPB x = x div 8"
  "bs_RBPB x = x mod 8"
  "0 \<le> x \<Longrightarrow> x < 536870912 \<Longrightarrow> bs_PBytesPW x = 4 * x"
proof -
  show "0 \<le> x \<Longrightarrow> x < 67108864 \<Longrightarrow> bs_PBPW x = 32 * x"
    by (simp add: bs_PBPW_def LOG2_BITS_PER_BS_WORD_def push_bit_eq_mult s32_id)
  show "0 \<le> x \<Longrightarrow> x < 4294967296 \<Longrightarrow> bs_QBPW x = x div 32"
    by (simp add: bs_QBPW_def LOG2_BITS_PER_BS_WORD_def drop_bit_eq_div s32_id)
  show "0 \<le> x \<Longrightarrow> x < 268435456 \<Longrightarrow> bs_PBPB x = 8 * x"
    by (simp add: bs_PBPB_def push_bit_eq_mult s32_id)
  show "0 \<le> x \<Longrightarrow> x < 4294967296 \<Longrightarrow> bs_QBPB x = x div 8"
    by (simp add: bs_QBPB_def drop_bit_eq_div s32_id)
  have "x AND 7 = x mod 8"
    using take_bit_eq_mask [of 3 x] by (simp add: mask_eq_exp_minus_1 take_bit_eq_mod)
  moreover have "0 \<le> x mod 8" "x mod 8 < 8" by simp_all
  ultimately show "bs_RBPB x = x mod 8"
    unfolding bs_RBPB_def by (simp add: s32_id)
  show "0 \<le> x \<Longrightarrow> x < 536870912 \<Longrightarrow> bs_PBytesPW x = 4 * x"
    by (simp add: bs_PBytesPW_def BYTES_PER_BS_WORD_def s32_id)
qed

lemmas bs_consts = bs_ZEROS_def bs_ONE_def BITS_PER_BS_WORD_def BYTES_PER_BS_WORD_def
  BS_CHOOSE_FAILURE_def

section \<open>The lookup tables are right\<close>

fun table_ok :: "(int \<Rightarrow> nat \<Rightarrow> bool) \<Rightarrow> int \<Rightarrow> nat list \<Rightarrow> bool" where
  "table_ok P i [] = True"
| "table_ok P i (v # vs) = (P i v \<and> table_ok P (i + 1) vs)"

lemma table_ok_nth: "table_ok P i vs \<Longrightarrow> k < length vs \<Longrightarrow> P (i + int k) (vs ! k)"
proof (induction vs arbitrary: i k)
  case (Cons v vs)
  then show ?case by (cases k) (force simp: add.assoc)+
qed simp

lemma first_one_table:
  "table_ok (\<lambda>n v. n = 0 \<or> v < 8 \<and> odd (n div 2 ^ v) \<and> n mod 2 ^ v = 0) 0 (first_one_low @ first_one_high)"
  by (simp add: first_one_low_def first_one_high_def)

lemma bit_count_table:
  "table_ok (\<lambda>n v. n mod 2 + n div 2 mod 2 + n div 4 mod 2 + n div 8 mod 2 + n div 16 mod 2
      + n div 32 mod 2 + n div 64 mod 2 + n div 128 mod 2 = int v) 0 (bit_count_low @ bit_count_high)"
  by (simp add: bit_count_low_def bit_count_high_def)


lemma byte_index: "unat (b :: BS_BYTE) < 256"
proof -
  have "unat b < 2 ^ LENGTH(8)" by (rule unsigned_less)
  then show ?thesis by simp
qed

lemma bit_byte_div: "of_bool (bit (b :: BS_BYTE) k) = uint b div 2 ^ k mod 2" if "k < 8"
proof -
  have "bit b k = bit (uint b) k" using that by (simp add: bit_uint_iff)
  then show ?thesis by (simp add: bit_iff_odd mod_2_eq_odd)
qed

lemma first_one_least:
  assumes "b \<noteq> 0"
  shows "0 \<le> first_one b" "first_one b < 8" "bit b (nat (first_one b))"
    "\<And>k. k < nat (first_one b) \<Longrightarrow> \<not> bit b k"
proof -
  let ?f = "(first_one_low @ first_one_high) ! unat b"
  have "uint b \<noteq> 0" using assms by (simp add: unsigned_eq_0_iff)
  moreover have "length (first_one_low @ first_one_high) = 256"
    by (simp add: first_one_low_def first_one_high_def)
  ultimately have f: "?f < 8" "odd (uint b div 2 ^ ?f)" "uint b mod 2 ^ ?f = 0"
    using table_ok_nth [OF first_one_table, of "unat b"] byte_index [of b]
    by auto
  show "0 \<le> first_one b" "first_one b < 8"
    using f(1) by (simp_all add: first_one_def)
  have "bit (uint b) ?f" using f(2) by (simp add: bit_iff_odd)
  then show "bit b (nat (first_one b))"
    by (simp add: first_one_def bit_uint_iff)
  show "\<not> bit b k" if "k < nat (first_one b)" for k
  proof -
    have "\<not> bit (take_bit ?f (uint b)) k" using f(3) by (simp add: take_bit_eq_mod)
    then show ?thesis
      using that f(1) by (simp add: first_one_def bit_take_bit_iff bit_uint_iff)
  qed
qed

lemma bit_count_card: "bit_count b = int (card {k. bit b k})"
proof -
  have len: "length (bit_count_low @ bit_count_high) = 256"
    by (simp add: bit_count_low_def bit_count_high_def)
  have "{k. bit b k} = {k \<in> {0..<8}. bit b k}"
    using bit_imp_le_length [of b] by fastforce
  then have "int (card {k. bit b k}) = (\<Sum>k = 0..<8. of_bool (bit b k))"
    by (simp add: Int_def)
  also have "\<dots> = (\<Sum>k = 0..<8. uint b div 2 ^ k mod 2)"
    by (rule sum.cong) (simp_all add: bit_byte_div del: of_bool_eq_iff)
  also have "{0..<8} = {0, 1, 2, 3, 4, 5, 6, 7 :: nat}" by auto
  also have "(\<Sum>k\<in>{0, 1, 2, 3, 4, 5, 6, 7}. uint b div 2 ^ k mod 2) = bit_count b"
    using table_ok_nth [OF bit_count_table, of "unat b"] byte_index [of b] len
    by (simp add: bit_count_def)
  finally show ?thesis by simp
qed

section \<open>Words, bytes and members\<close>

definition word_at :: "BS \<Rightarrow> nat \<Rightarrow> BS_WORD" where
  "word_at s k = (if k < length s then s ! k else 0)"

definition bit_lane :: "endian \<Rightarrow> nat \<Rightarrow> nat" where
  "bit_lane e r = 8 * byte_lane e (r div 8) + r mod 8"

definition byte_at :: "endian \<Rightarrow> BS \<Rightarrow> int \<Rightarrow> BS_BYTE" where
  "byte_at e s i = get_byte e (s ! (nat i div 4)) (nat i mod 4)"

lemma byte_lane_less: "j < 4 \<Longrightarrow> byte_lane e j < 4"
  by (cases e) auto

lemma byte_lane_inject: "j < 4 \<Longrightarrow> j' < 4 \<Longrightarrow> byte_lane e j = byte_lane e j' \<longleftrightarrow> j = j'"
  by (cases e) auto

lemma bit_lane_less: "r < 32 \<Longrightarrow> bit_lane e r < 32"
proof -
  assume "r < 32"
  then have "byte_lane e (r div 8) < 4" by (intro byte_lane_less) simp
  moreover have "r mod 8 < 8" by simp
  ultimately show ?thesis unfolding bit_lane_def by linarith
qed

lemma bit_get_byte: "bit (get_byte e w j) k \<longleftrightarrow> k < 8 \<and> bit w (8 * byte_lane e j + k)"
  by (simp add: get_byte_def bit_ucast_iff bit_drop_bit_eq)

lemma bit_put_byte:
  assumes "n < 32" and "j < 4"
  shows "bit (put_byte e w j b) n =
    (if n div 8 = byte_lane e j then bit b (n mod 8) else bit w n)"
proof -
  let ?l = "byte_lane e j"
  have l: "?l < 4" using assms(2) by (rule byte_lane_less)
  have m: "(255 :: BS_WORD) = mask 8" by (simp add: mask_eq_exp_minus_1)
  show ?thesis
  proof (cases "n div 8 = ?l")
    case True
    then have "n - 8 * ?l = n mod 8" "8 * ?l \<le> n" using minus_mod_eq_mult_div [of n 8] by auto
    moreover have "n mod 8 < 8" "n mod 8 < 32" by (simp_all add: order.strict_trans1 [OF less_imp_le [OF mod_less_divisor [of 8 n]]])
    ultimately show ?thesis using True assms l
      by (simp add: put_byte_def bit_simps m)
  next
    case False
    then have "n < 8 * ?l \<or> 8 \<le> n - 8 * ?l" by auto
    then have "\<not> bit (push_bit (8 * ?l) (255 :: BS_WORD)) n" "\<not> bit (push_bit (8 * ?l) (ucast b :: BS_WORD)) n"
      using assms by (auto simp: bit_simps m dest: bit_imp_le_length)
    then show ?thesis using False assms
      by (simp add: put_byte_def bit_or_iff bit_and_iff bit_not_iff)
  qed
qed

lemma BS_word_in [access_simps]: "0 \<le> i \<Longrightarrow> i < int (length s) \<Longrightarrow> BS_word s i = Inr (s ! nat i)"
  by (simp add: BS_word_def BS_word_count_def)

lemma BS_set_word_in [access_simps]:
  "0 \<le> i \<Longrightarrow> i < int (length s) \<Longrightarrow> BS_set_word s i w = Inr (s[nat i := w])"
  by (simp add: BS_set_word_def BS_word_count_def)

lemma BS_byte_in [access_simps]:
  "0 \<le> i \<Longrightarrow> i < 4 * int (length s) \<Longrightarrow> BS_byte e s i = Inr (byte_at e s i)"
  by (simp add: BS_byte_def BS_word_count_def BYTES_PER_BS_WORD_def byte_at_def)

lemma BS_set_byte_in [access_simps]:
  "0 \<le> i \<Longrightarrow> i < 4 * int (length s) \<Longrightarrow> BS_set_byte e s i b =
     Inr (s[nat i div 4 := put_byte e (s ! (nat i div 4)) (nat i mod 4) b])"
  by (simp add: BS_set_byte_def BS_word_count_def BYTES_PER_BS_WORD_def)

lemma split_32:
  "n div 8 div 4 = n div 32" "n div 8 mod 4 = n mod 32 div 8" "n mod 32 mod 8 = n mod 8" for n :: nat
proof -
  show "n div 8 div 4 = n div 32" by (simp add: div_mult2_eq [symmetric])
  have "n mod (8 * 4) = 8 * (n div 8 mod 4) + n mod 8" by (rule mod_mult2_eq)
  then show "n div 8 mod 4 = n mod 32 div 8" by simp
  show "n mod 32 mod 8 = n mod 8" by (simp add: mod_mod_cancel)
qed

lemma div_mod_4_eq: "a = b \<longleftrightarrow> a div 4 = b div 4 \<and> a mod 4 = b mod 4" for a b :: nat
  by (metis div_mult_mod_eq)

lemma nat_div8: "0 \<le> x \<Longrightarrow> nat (x div 8) = nat x div 8"
  by (simp add: nat_div_distrib)

lemma members_iff:
  "x \<in> BS_members e s \<longleftrightarrow> 0 \<le> x \<and> bit (word_at s (nat x div 32)) (bit_lane e (nat x mod 32))"
proof (cases "0 \<le> x \<and> x < 32 * int (length s)")
  case True
  then have "nat x div 32 < length s" by linarith
  moreover have "BS_byte e s (x div 8) = Inr (byte_at e s (x div 8))"
    using True by (intro BS_byte_in) auto
  ultimately show ?thesis using True
    by (simp add: BS_members_def bs_consts BS_word_count_def byte_at_def nat_div8
        bit_get_byte word_at_def bit_lane_def split_32)
next
  case False
  moreover have "\<not> nat x div 32 < length s" if "0 \<le> x"
    using False that by linarith
  ultimately show ?thesis
    by (auto simp: BS_members_def bs_consts BS_word_count_def word_at_def)
qed

lemma members_nonneg: "x \<in> BS_members e s \<Longrightarrow> 0 \<le> x"
  by (simp add: members_iff)

lemma members_less: "x \<in> BS_members e s \<Longrightarrow> x < 32 * int (length s)"
  by (simp add: BS_members_def bs_consts BS_word_count_def)

lemma finite_members: "finite (BS_members e s)"
  by (rule finite_subset [of _ "{0..<32 * int (length s)}"]) (auto simp: members_nonneg members_less)

text \<open>A byte read shows exactly the eight elements that start at eight times its index.\<close>

lemma bit_byte_at:
  assumes "0 \<le> i" and "i < 4 * int (length s)"
  shows "bit (byte_at e s i) k \<longleftrightarrow> k < 8 \<and> 8 * i + int k \<in> BS_members e s"
proof (cases "k < 8")
  case True
  let ?x = "8 * i + int k"
  have "?x div 8 = i" "nat ?x mod 8 = k" "?x < 32 * int (length s)" "0 \<le> ?x"
    using True assms by (simp_all add: nat_add_distrib nat_mult_distrib)
  then show ?thesis using True assms
    by (simp add: BS_members_def bs_consts BS_word_count_def BS_byte_in)
next
  case False
  then show ?thesis by (simp add: byte_at_def bit_get_byte)
qed

text \<open>A byte write replaces those eight elements and no other.\<close>

lemma members_set_byte:
  assumes "0 \<le> i" and "i < 4 * int (length s)"
  shows "x \<in> BS_members e (s[nat i div 4 := put_byte e (s ! (nat i div 4)) (nat i mod 4) b]) \<longleftrightarrow>
    (if x div 8 = i then bit b (nat x mod 8) else x \<in> BS_members e s)"
proof (cases "0 \<le> x")
  case True
  let ?w = "nat x div 32" and ?r = "nat x mod 32"
  have lenI: "nat i div 4 < length s" using assms by linarith
  have lane: "bit_lane e ?r < 32" "bit_lane e ?r div 8 = byte_lane e (?r div 8)"
    "bit_lane e ?r mod 8 = nat x mod 8"
    by (auto simp: bit_lane_less) (auto simp: bit_lane_def mod_mod_cancel)
  have eq: "x div 8 = i \<longleftrightarrow> ?w = nat i div 4 \<and> ?r div 8 = nat i mod 4"
    using True assms(1) div_mod_4_eq [of "nat x div 8" "nat i"] nat_div8 [of x]
    by (simp add: split_32) (metis eq_nat_nat_iff pos_imp_zdiv_nonneg_iff zero_less_numeral)
  have inj: "byte_lane e (?r div 8) = byte_lane e (nat i mod 4) \<longleftrightarrow> ?r div 8 = nat i mod 4"
    by (rule byte_lane_inject) auto
  show ?thesis
  proof (cases "?w = nat i div 4")
    case w: True
    have "bit (put_byte e (s ! (nat i div 4)) (nat i mod 4) b) (bit_lane e ?r) =
        (if ?r div 8 = nat i mod 4 then bit b (nat x mod 8) else bit (s ! (nat i div 4)) (bit_lane e ?r))"
      by (simp only: bit_put_byte [OF lane(1)] mod_less_divisor zero_less_numeral lane(2,3) inj)
    with w True lenI eq show ?thesis by (simp add: members_iff word_at_def)
  next
    case False
    with True eq show ?thesis by (simp add: members_iff word_at_def)
  qed
next
  case False
  then show ?thesis using assms(1) by (auto simp: members_iff)
qed

section \<open>Loops over words\<close>

definition word_update :: "int \<Rightarrow> int \<Rightarrow> (nat \<Rightarrow> BS_WORD) \<Rightarrow> BS \<Rightarrow> BS" where
  "word_update lo hi g s = map (\<lambda>k. if lo \<le> int k \<and> int k < hi then g k else s ! k) [0..<length s]"

lemma length_word_update [simp]: "length (word_update lo hi g s) = length s"
  by (simp add: word_update_def)

lemma word_at_word_update:
  "word_at (word_update lo hi g s) k =
     (if k < length s \<and> lo \<le> int k \<and> int k < hi then g k else word_at s k)"
  by (simp add: word_update_def word_at_def)

lemma word_update_empty: "hi \<le> lo \<Longrightarrow> word_update lo hi g s = s"
  by (rule nth_equalityI) (auto simp: word_update_def)

text \<open>
  A loop whose body overwrites word \<open>i\<close> with a value that depends on \<open>i\<close> and the old word
  only is a simultaneous update of the words it runs over.
\<close>

lemma for_loop_words:
  assumes "0 \<le> lo" and "hi \<le> int (length s)"
    and "\<And>i t. lo \<le> i \<Longrightarrow> i < hi \<Longrightarrow> length t = length s \<Longrightarrow> t ! nat i = s ! nat i \<Longrightarrow>
      body i t = Inr (t[nat i := g (nat i)])"
  shows "for_loop lo hi body s = Inr (word_update lo hi g s)"
proof (cases "lo \<le> hi")
  case True
  have "\<exists>t. for_loop lo hi body s = Inr t \<and> t = word_update lo hi g s"
  proof (rule for_loop_rule [where I = "\<lambda>k t. t = word_update lo k g s"])
    fix k t
    assume k: "lo \<le> k" "k < hi" and t: "t = word_update lo k g s"
    have "t ! nat k = s ! nat k" using k assms(1,2) t by (simp add: word_update_def)
    then have "body k t = Inr (t[nat k := g (nat k)])" using k t assms(3) by simp
    moreover have "t[nat k := g (nat k)] = word_update lo (k + 1) g s"
    proof (rule nth_equalityI)
      fix j assume "j < length (t[nat k := g (nat k)])"
      then have "j < length s" using t by simp
      moreover have "nat k = j \<longleftrightarrow> k = int j" using k(1) assms(1) by auto
      ultimately show "t[nat k := g (nat k)] ! j = word_update lo (k + 1) g s ! j"
        using k(1) t by (auto simp: word_update_def nth_list_update)
    qed (simp add: t)
    ultimately show "\<exists>t'. body k t = Inr t' \<and> t' = word_update lo (k + 1) g s" by simp
  qed (use True in \<open>auto simp: word_update_empty\<close>)
  then show ?thesis by simp
qed (simp add: word_update_empty)

lemma members_cong: "(\<And>k. word_at t k = word_at s k) \<Longrightarrow> BS_members e t = BS_members e s"
  by (auto simp: members_iff)

lemma members_replicate_0 [simp]: "BS_members e (replicate n 0) = {}"
proof -
  have "word_at (replicate n 0) k = 0" for k by (simp add: word_at_def)
  then show ?thesis by (simp add: set_eq_iff members_iff)
qed

section \<open>The memory pool interface\<close>

lemma realloc_length_ge: "0 < n \<Longrightarrow> len \<le> realloc_length n len \<and> n \<le> realloc_length n len"
proof (induction n len rule: realloc_length.induct)
  case (1 n len)
  then show ?case
    by (subst (1 2) realloc_length.simps) (force simp: push_bit_eq_mult)
qed

lemma realloc_length_power:
  "k \<le> m \<Longrightarrow> len \<le> 2 ^ m \<Longrightarrow> \<exists>j \<le> m. realloc_length (2 ^ k) len = 2 ^ j"
proof (induction "2 ^ k :: int" len arbitrary: k rule: realloc_length.induct)
  case (1 len)
  show ?case
  proof (cases "2 ^ k < len")
    case True
    then have "(2 :: int) ^ k < 2 ^ m" using "1.prems"(2) by linarith
    then have "Suc k \<le> m" by (simp add: power_strict_increasing_iff)
    then obtain j where "j \<le> m" "realloc_length (2 ^ Suc k) len = 2 ^ j"
      using "1.hyps" [of "Suc k"] "1.prems" True by (auto simp: push_bit_eq_mult)
    with True show ?thesis by (subst realloc_length.simps) (auto simp: push_bit_eq_mult mult.commute)
  next
    case False
    with "1.prems" show ?thesis by (subst realloc_length.simps) auto
  qed
qed

lemma realloc_length_least:
  "\<exists>j \<ge> k. realloc_length (2 ^ k) len = 2 ^ j \<and> (\<forall>i \<ge> k. len \<le> 2 ^ i \<longrightarrow> j \<le> i)"
proof (induction "2 ^ k :: int" len arbitrary: k rule: realloc_length.induct)
  case (1 len)
  show ?case
  proof (cases "2 ^ k < len")
    case True
    obtain j where j: "Suc k \<le> j" "realloc_length (2 ^ Suc k) len = 2 ^ j" "\<forall>i \<ge> Suc k. len \<le> 2 ^ i \<longrightarrow> j \<le> i"
      using "1.hyps" [of "Suc k"] True by (auto simp: push_bit_eq_mult)
    moreover have "Suc k \<le> i" if "k \<le> i" "len \<le> 2 ^ i" for i
      using that True by (cases "i = k") auto
    ultimately show ?thesis using True
      by (subst realloc_length.simps) (auto simp: push_bit_eq_mult mult.commute intro!: exI [of _ j])
  next
    case False
    then show ?thesis by (subst realloc_length.simps) auto
  qed
qed

lemma words_extend:
  assumes "\<forall>k. word_at t k = word_at s k" and "length s \<le> length t"
  shows "t = s @ replicate (length t - length s) 0"
proof (rule nth_equalityI)
  fix i assume "i < length t"
  then show "t ! i = (s @ replicate (length t - length s) 0) ! i"
    using assms(1)[rule_format, of i] by (simp add: word_at_def nth_append split: if_splits)
qed (use assms in simp)

definition grown_length :: "BS \<Rightarrow> int \<Rightarrow> int" where
  "grown_length s n = (if n \<le> BS_word_count s then BS_word_count s else realloc_length 2 n)"

lemma grown_length_ge: "n \<le> grown_length s n" "BS_word_count s \<le> grown_length s n"
  using realloc_length_ge [of 2 n] by (auto simp: grown_length_def)

lemma grown_length_ok: "n \<le> 33554432 \<Longrightarrow> bs_ok s \<Longrightarrow> grown_length s n < 67108864"
proof -
  assume n: "n \<le> 33554432" and s: "bs_ok s"
  then obtain j where j: "j \<le> 25" "realloc_length (2 ^ 1) n = 2 ^ j"
    using realloc_length_power [of 1 25 n] by auto
  have "(2 :: int) ^ j \<le> 2 ^ 25" by (rule power_increasing) (use j(1) in auto)
  with j s show ?thesis by (simp add: grown_length_def bs_ok_def)
qed

locale bs_pool =
  fixes pool :: MEM_POOL
  assumes not_bad: "\<not> is_bad_pool pool"
    and alloc_length: "length (MEM_POOL_Alloc pool n) = n"
    and alloc_zeroed: "MEM_POOL_Zeroed pool \<Longrightarrow> MEM_POOL_Alloc pool n = replicate n 0"
    and realloc_len: "length s \<le> n \<Longrightarrow> length (MEM_POOL_Realloc pool s n) = n"
    and realloc_copies: "k < length s \<Longrightarrow> length s \<le> n \<Longrightarrow> MEM_POOL_Realloc pool s n ! k = s ! k"
    and realloc_zeroed: "MEM_POOL_Zeroed pool \<Longrightarrow> length s \<le> k \<Longrightarrow> k < n \<Longrightarrow>
      MEM_POOL_Realloc pool s n ! k = 0"
begin

lemma bs_Malloc_ok: "bs_Malloc n pool = Inr (MEM_POOL_Alloc pool (nat n))"
  by (simp add: bs_Malloc_def not_bad)

text \<open>Growing a set keeps its words and adds words of zeros.\<close>

lemma bs_Realloc_ok:
  assumes "0 \<le> n" and "n \<le> 9223372036854775808"
  shows "\<exists>t. bs_Realloc s n pool = Inr t \<and> BS_word_count t = grown_length s n \<and>
     (\<forall>k. word_at t k = word_at s k)"
proof (cases "n \<le> BS_word_count s")
  case True
  with assms show ?thesis by (simp add: bs_Realloc_def not_bad grown_length_def)
next
  case False
  let ?l = "realloc_length 2 n"
  let ?t = "MEM_POOL_Realloc pool s (nat ?l)"
  have l: "int (length s) \<le> ?l" using realloc_length_ge [of 2 n] False by (simp add: BS_word_count_def)
  then have len: "length ?t = nat ?l" by (intro realloc_len) simp
  have keep: "?t ! k = s ! k" if "k < length s" for k
    using that l by (intro realloc_copies) auto
  show ?thesis
  proof (cases "MEM_POOL_Zeroed pool")
    case True
    have "?t ! k = 0" if "length s \<le> k" "k < nat ?l" for k
      using realloc_zeroed [OF True] that by blast
    with True False assms l len keep show ?thesis
      by (auto simp: bs_Realloc_def not_bad grown_length_def Let_def BS_word_count_def word_at_def)
  next
    case nz: False
    have "for_loop (int (length s)) ?l (\<lambda>i u. BS_set_word u i bs_ZEROS) ?t
        = Inr (word_update (int (length s)) ?l (\<lambda>_. 0) ?t)"
      by (rule for_loop_words) (use l len in \<open>auto simp: access_simps bs_ZEROS_def\<close>)
    with nz False assms l len keep show ?thesis
      by (auto simp: bs_Realloc_def not_bad grown_length_def Let_def BS_word_count_def
          word_at_word_update) (auto simp: word_at_def)
  qed
qed

end

text \<open>
  Pools of \<^verbatim>\<open>common/util/memory.c\<close>: a block that is fresh from \<^verbatim>\<open>malloc\<close> is cleared in a
  zeroing pool and filled with the byte \<^verbatim>\<open>0xa5\<close> in the others (the checking build), and a
  reallocation copies the old words to the front of a fresh block.
\<close>

definition fresh_word :: "bool \<Rightarrow> BS_WORD" where
  "fresh_word bz = (if bz then 0 else 0xa5a5a5a5)"

definition memory_pool :: "bool \<Rightarrow> MEM_POOL" where
  "memory_pool bz = \<lparr>is_bad_pool = False, MEM_POOL_Zeroed = bz,
     MEM_POOL_Alloc = (\<lambda>n. replicate n (fresh_word bz)),
     MEM_POOL_Realloc = (\<lambda>s n. take n s @ replicate (n - length s) (fresh_word bz))\<rparr>"

interpretation memory_pool: bs_pool "memory_pool bz" for bz
  by unfold_locales (auto simp: memory_pool_def fresh_word_def nth_append)

end
