(* ===== verification/Bitset_Create.thy ===== *)
theory Bitset_Create
  imports Bitset_Base
begin

unbundle bit_operations_syntax

text \<open>
  The operations of \<^verbatim>\<open>common/util/bitset.c\<close> that make sets: creation, clearing, growing,
  ranges, singletons, universes and copies. Each is translated with its assertions, its growth
  of the first argument and its loops, and is proved to yield the set its interface comment
  states, in both byte orders.
\<close>

section \<open>Creation and clearing\<close>

definition BS_Create :: "BS_ELT \<Rightarrow> MEM_POOL \<Rightarrow> BS res" where
  "BS_Create size_arg pool =
     bindE (Is_True (size_arg \<ge> 0)) (\<lambda>_.
     bs_Malloc (bs_QBPW (size_arg + (BITS_PER_BS_WORD - 1))) pool)"

definition BS_Size_Alloc_Size :: "BS_ELT \<Rightarrow> int" where
  "BS_Size_Alloc_Size size_arg =
     (1 + bs_QBPW (size_arg + (BITS_PER_BS_WORD - 1))) * BYTES_PER_BS_WORD mod 2 ^ 64"

definition BS_Alloc_Size :: "BS \<Rightarrow> int" where
  "BS_Alloc_Size bs = (BS_word_count bs + 1) * BYTES_PER_BS_WORD"

definition BS_ClearD :: "BS \<Rightarrow> BS res" where
  "BS_ClearD bs = for_loop 0 (BS_word_count bs) (\<lambda>i s. BS_set_word s i bs_ZEROS) bs"

definition BS_Create_Empty :: "BS_ELT \<Rightarrow> MEM_POOL \<Rightarrow> BS res" where
  "BS_Create_Empty size_arg pool =
     bindE (BS_Create size_arg pool) (\<lambda>s.
     if \<not> MEM_POOL_Zeroed pool then BS_ClearD s else Inr s)"

text \<open>\<^verbatim>\<open>new_words\<close> is compared with an unsigned word count, so it is converted first.\<close>

definition BS_ResizeD :: "BS \<Rightarrow> BS_ELT \<Rightarrow> MEM_POOL \<Rightarrow> BS res" where
  "BS_ResizeD bs new_size pool =
     (let new_words = bs_QBPW (new_size + (BITS_PER_BS_WORD - 1)) in
      if new_words mod 2 ^ 32 > BS_word_count bs
      then bs_Realloc bs new_words pool else Inr bs)"

section \<open>Ranges, singletons, universes\<close>

definition BS_RangeD :: "endian \<Rightarrow> BS \<Rightarrow> BS_ELT \<Rightarrow> BS_ELT \<Rightarrow> MEM_POOL \<Rightarrow> BS res" where
  "BS_RangeD e bs low high pool =
     bindE (Is_True (low \<ge> 0)) (\<lambda>_.
     bindE (Is_True (high - low + 1 \<ge> 0)) (\<lambda>_.
     if low > high then BS_ClearD bs
     else
       let first_w = bs_QBPW low; last_w = bs_QBPW high;
           first_b = bs_QBPB low; last_b = bs_QBPB high in
       bindE (if last_w \<ge> BS_word_count bs then bs_Realloc bs (last_w + 1) pool else Inr bs) (\<lambda>s.
       bindE (BS_ClearD s) (\<lambda>s.
       bindE (for_loop (first_w + 1) last_w (\<lambda>i s. BS_set_word s i bs_ONES) s) (\<lambda>s.
       bindE (for_loop first_b (min (bs_PBytesPW (first_w + 1)) (last_b + 1))
                (\<lambda>i s. BS_set_byte e s i (ucast bs_ONES)) s) (\<lambda>s.
       bindE (if first_w \<noteq> last_w
              then for_loop (bs_PBytesPW last_w) (last_b + 1)
                     (\<lambda>i s. BS_set_byte e s i (ucast bs_ONES)) s
              else Inr s) (\<lambda>s.
       bindE (BS_set_byte e s first_b (ucast (push_bit (nat (bs_RBPB low)) bs_ONES))) (\<lambda>s.
       bindE (BS_byte e s last_b) (\<lambda>b.
       BS_set_byte e s last_b
         (ucast (ucast b AND drop_bit (nat ((BITS_PER_BS_WORD - 1) - bs_RBPB high)) bs_ONES)))))))))))"

definition BS_Range :: "endian \<Rightarrow> BS_ELT \<Rightarrow> BS_ELT \<Rightarrow> MEM_POOL \<Rightarrow> BS res" where
  "BS_Range e low high pool =
     bindE (BS_Create (s32 (high + 1)) pool) (\<lambda>s. BS_RangeD e s low high bad_pool)"

definition BS_SingletonD :: "endian \<Rightarrow> BS \<Rightarrow> BS_ELT \<Rightarrow> MEM_POOL \<Rightarrow> BS res" where
  "BS_SingletonD e bs element pool =
     bindE (Is_True (element \<ge> 0)) (\<lambda>_.
     let word = bs_QBPW element in
     bindE (if word \<ge> BS_word_count bs then bs_Realloc bs (word + 1) pool else Inr bs) (\<lambda>s.
     bindE (BS_ClearD s) (\<lambda>s.
     BS_set_byte e s (bs_QBPB element) (ucast (push_bit (nat (bs_RBPB element)) bs_ONE)))))"

definition BS_Singleton :: "endian \<Rightarrow> BS_ELT \<Rightarrow> MEM_POOL \<Rightarrow> BS res" where
  "BS_Singleton e element pool =
     bindE (BS_Create (s32 (element + 1)) pool) (\<lambda>s. BS_SingletonD e s element bad_pool)"

definition BS_UniverseD :: "endian \<Rightarrow> BS \<Rightarrow> BS_ELT \<Rightarrow> MEM_POOL \<Rightarrow> BS res" where
  "BS_UniverseD e bs size_arg pool = BS_RangeD e bs 0 (size_arg - 1) bad_pool"

definition BS_Universe :: "endian \<Rightarrow> BS_ELT \<Rightarrow> MEM_POOL \<Rightarrow> BS res" where
  "BS_Universe e size_arg pool =
     bindE (BS_Create size_arg pool) (\<lambda>s. BS_UniverseD e s size_arg bad_pool)"

section \<open>Copies\<close>

definition BS_Copy :: "BS \<Rightarrow> MEM_POOL \<Rightarrow> BS res" where
  "BS_Copy bs pool =
     (let size = BS_word_count bs in
      bindE (bs_Malloc size pool) (\<lambda>newset.
      for_loop 0 size (\<lambda>i s. bindE (BS_word bs i) (\<lambda>w. BS_set_word s i w)) newset))"

definition BS_CopyD :: "BS \<Rightarrow> BS \<Rightarrow> MEM_POOL \<Rightarrow> BS res" where
  "BS_CopyD set1 set2 pool =
     (let size1 = BS_word_count set1; size2 = BS_word_count set2 in
      bindE (if size1 < size2 then bs_Realloc set1 size2 pool
             else for_loop size2 size1 (\<lambda>i s. BS_set_word s i bs_ZEROS) set1) (\<lambda>set1.
      for_loop 0 size2 (\<lambda>i s. bindE (BS_word set2 i) (\<lambda>w. BS_set_word s i w)) set1))"

section \<open>Byte masks\<close>

lemma bit_masks:
  "bit (ucast bs_ONES :: BS_BYTE) k \<longleftrightarrow> k < 8"
  "bit (ucast (push_bit r bs_ONES) :: BS_BYTE) k \<longleftrightarrow> k < 8 \<and> r \<le> k"
  "bit (ucast (push_bit r bs_ONE) :: BS_BYTE) k \<longleftrightarrow> k < 8 \<and> k = r"
  "r < 8 \<Longrightarrow> bit (ucast (ucast b AND drop_bit (31 - r) bs_ONES) :: BS_BYTE) k \<longleftrightarrow> bit b k \<and> k \<le> r"
  "bit (ucast (ucast b OR push_bit r bs_ONE) :: BS_BYTE) k \<longleftrightarrow> bit b k \<or> k < 8 \<and> k = r"
  "bit (ucast (ucast b AND NOT (push_bit r bs_ONE)) :: BS_BYTE) k \<longleftrightarrow> bit b k \<and> k \<noteq> r"
  for b :: BS_BYTE
  by (auto simp: bs_ONES_def bs_ONE_def bit_simps dest: bit_imp_le_length)

section \<open>Clearing and growing\<close>

lemma BS_ClearD_eq [simp]: "BS_ClearD s = Inr (replicate (length s) 0)"
proof -
  have "BS_ClearD s = Inr (word_update 0 (BS_word_count s) (\<lambda>_. 0) s)"
    unfolding BS_ClearD_def
    by (rule for_loop_words) (auto simp: BS_word_count_def access_simps bs_ZEROS_def)
  also have "word_update 0 (BS_word_count s) (\<lambda>_. 0) s = replicate (length s) 0"
    by (rule nth_equalityI) (auto simp: word_update_def BS_word_count_def)
  finally show ?thesis .
qed

lemma for_loop_ones:
  assumes "0 \<le> lo" and "lo \<le> hi" and "hi \<le> 4 * int (length s)"
  shows "\<exists>t. for_loop lo hi (\<lambda>i s. BS_set_byte e s i (ucast bs_ONES)) s = Inr t \<and>
    length t = length s \<and>
    BS_members e t = BS_members e s \<union> {x. lo \<le> x div 8 \<and> x div 8 < hi}"
proof -
  let ?I = "\<lambda>k t. length t = length s \<and>
    BS_members e t = BS_members e s \<union> {x. lo \<le> x div 8 \<and> x div 8 < k}"
  show ?thesis
  proof (rule for_loop_rule [where I = ?I])
    fix k t
    assume k: "lo \<le> k" "k < hi" and t: "?I k t"
    let ?t' = "t[nat k div 4 := put_byte e (t ! (nat k div 4)) (nat k mod 4) (ucast bs_ONES)]"
    have r: "0 \<le> k" "k < 4 * int (length t)" using k t assms by auto
    have "x \<in> BS_members e ?t' \<longleftrightarrow> x \<in> BS_members e s \<union> {x. lo \<le> x div 8 \<and> x div 8 < k + 1}" for x
    proof -
      have "bit (ucast bs_ONES :: BS_BYTE) (nat x mod 8)" by (simp add: bit_masks)
      moreover have "x div 8 < k + 1 \<longleftrightarrow> x div 8 = k \<or> x div 8 < k" by linarith
      ultimately show ?thesis unfolding members_set_byte [OF r] using t k(1) by simp
    qed
    with t r show "\<exists>t'. BS_set_byte e t k (ucast bs_ONES) = Inr t' \<and> ?I (k + 1) t'"
      by (simp add: access_simps set_eq_iff)
  qed (use assms in auto)
qed

lemma BS_set_bits:
  assumes "0 \<le> x" and "x < 32 * int (length s)"
  shows "BS_set_byte e s (x div 8) b =
      Inr (s[nat (x div 8) div 4 := put_byte e (s ! (nat (x div 8) div 4)) (nat (x div 8) mod 4) b])"
    and "BS_byte e s (x div 8) = Inr (byte_at e s (x div 8))"
  using assms by (auto intro!: BS_set_byte_in BS_byte_in)

context bs_pool
begin

lemma BS_Create_ok:
  assumes "0 \<le> n" and "n < 2147483648"
  shows "\<exists>s. BS_Create n pool = Inr s \<and> BS_word_count s = (n + 31) div 32 \<and>
    (MEM_POOL_Zeroed pool \<longrightarrow> s = replicate (length s) 0)"
  using assms
  by (simp add: BS_Create_def bs_Malloc_ok bs_consts bs_arith BS_word_count_def alloc_length alloc_zeroed)

lemma BS_Create_Empty_ok:
  assumes "0 \<le> n" and "n < 2147483648"
  shows "BS_Create_Empty n pool = Inr (replicate (nat ((n + 31) div 32)) 0)"
proof -
  obtain s where s: "BS_Create n pool = Inr s" "BS_word_count s = (n + 31) div 32"
    "MEM_POOL_Zeroed pool \<longrightarrow> s = replicate (length s) 0"
    using BS_Create_ok [OF assms] by blast
  moreover from s(2) have "length s = nat ((n + 31) div 32)" by (simp add: BS_word_count_def)
  ultimately show ?thesis by (auto simp: BS_Create_Empty_def)
qed

lemma grow_ok:
  assumes "0 \<le> n" and "n < 9223372036854775808"
  shows "\<exists>t. (if BS_word_count s < n then bs_Realloc s n pool else Inr s) = Inr t \<and>
    BS_word_count t = grown_length s n \<and> (\<forall>k. word_at t k = word_at s k)"
  using bs_Realloc_ok [of n s] assms by (auto simp: grown_length_def)

text \<open>
  Growing the first argument to \<open>n\<close> words and then updating the first \<open>n\<close> words one by one:
  the shape of every destructive operation.
\<close>

lemma grow_update:
  assumes "0 \<le> n" and "n < 9223372036854775808"
    and "\<And>i t. 0 \<le> i \<Longrightarrow> i < n \<Longrightarrow> n \<le> int (length t) \<Longrightarrow>
      body i t = Inr (t[nat i := F (t ! nat i) (nat i)])"
  shows "\<exists>t. bindE (if BS_word_count s < n then bs_Realloc s n pool else Inr s) (for_loop 0 n body)
      = Inr t \<and> BS_word_count t = grown_length s n \<and>
    (\<forall>k. word_at t k = (if int k < n then F (word_at s k) k else word_at s k))"
proof -
  obtain t where t: "(if BS_word_count s < n then bs_Realloc s n pool else Inr s) = Inr t"
      "BS_word_count t = grown_length s n" "\<forall>k. word_at t k = word_at s k"
    using grow_ok [of n s] assms(1,2) by blast
  have len: "n \<le> int (length t)"
    using t(2) grown_length_ge(1) [of n s] by (simp add: BS_word_count_def)
  have "for_loop 0 n body t = Inr (word_update 0 n (\<lambda>k. F (t ! k) k) t)"
    by (rule for_loop_words) (use len assms(3) in auto)
  moreover have "word_at (word_update 0 n (\<lambda>k. F (t ! k) k) t) k
      = (if int k < n then F (word_at s k) k else word_at s k)" for k
  proof -
    have "word_at t k = t ! k" if "int k < n" using len that by (simp add: word_at_def)
    then show ?thesis using len t(3) by (auto simp: word_at_word_update)
  qed
  ultimately show ?thesis using t(1,2) by (auto simp: BS_word_count_def)
qed

text \<open>The same for the operations that fill a freshly allocated set.\<close>

lemma alloc_update:
  assumes "0 \<le> n"
    and "\<And>i t. 0 \<le> i \<Longrightarrow> i < n \<Longrightarrow> int (length t) = n \<Longrightarrow> body i t = Inr (t[nat i := g (nat i)])"
  shows "\<exists>t. bindE (bs_Malloc n pool) (for_loop 0 n body) = Inr t \<and> BS_word_count t = n \<and>
    (\<forall>k. word_at t k = (if int k < n then g k else 0))"
proof -
  have len: "int (length (MEM_POOL_Alloc pool (nat n))) = n" using assms(1) by (simp add: alloc_length)
  then have "for_loop 0 n body (MEM_POOL_Alloc pool (nat n))
      = Inr (word_update 0 n g (MEM_POOL_Alloc pool (nat n)))"
    by (intro for_loop_words) (use assms(2) in auto)
  then show ?thesis using len
    by (auto simp: bs_Malloc_ok BS_word_count_def word_at_word_update) (auto simp: word_at_def)
qed

end

section \<open>Ranges\<close>

lemma members_Nil [simp]: "BS_members e [] = {}"
  using members_replicate_0 [of e 0] by simp

lemma members_word_ones:
  assumes "0 \<le> lo" and "hi \<le> int (length s)"
  shows "BS_members e (word_update lo hi (\<lambda>_. bs_ONES) s) =
    {x. lo \<le> x div 32 \<and> x div 32 < hi} \<union> BS_members e s"
proof -
  have "x \<in> BS_members e (word_update lo hi (\<lambda>_. bs_ONES) s) \<longleftrightarrow>
      lo \<le> x div 32 \<and> x div 32 < hi \<or> x \<in> BS_members e s" for x
  proof (cases "0 \<le> x")
    case True
    then have "int (nat x div 32) = x div 32" by (simp add: zdiv_int)
    moreover have "bit bs_ONES (bit_lane e (nat x mod 32))"
      by (simp add: bs_ONES_def bit_not_iff bit_lane_less)
    ultimately show ?thesis using True assms
      by (auto simp: members_iff word_at_word_update)
  next
    case False
    with assms(1) show ?thesis by (auto simp: members_iff)
  qed
  then show ?thesis by blast
qed

lemma range_bytes_aux:
  fixes a b c fb lb q :: int
  assumes "4 * a \<le> fb" "fb < 4 * a + 4" "4 * b \<le> lb" "lb < 4 * b + 4" "4 * c \<le> q" "q < 4 * c + 4"
    and "fb \<le> lb"
  shows "(a + 1 \<le> c \<and> c < b) \<or> (fb \<le> q \<and> q < min (4 * (a + 1)) (lb + 1)) \<or>
      (a \<noteq> b \<and> 4 * b \<le> q \<and> q < lb + 1) \<longleftrightarrow> fb \<le> q \<and> q \<le> lb"
proof (cases "a + 1 \<le> c")
  case True
  with assms show ?thesis by (cases "c < b") auto
next
  case False
  with assms show ?thesis by (cases "a = b") auto
qed

lemma range_bytes:
  fixes fb lb q :: int
  assumes "fb \<le> lb"
  shows "(fb div 4 + 1 \<le> q div 4 \<and> q div 4 < lb div 4) \<or>
      (fb \<le> q \<and> q < min (4 * (fb div 4 + 1)) (lb + 1)) \<or>
      (fb div 4 \<noteq> lb div 4 \<and> 4 * (lb div 4) \<le> q \<and> q < lb + 1) \<longleftrightarrow> fb \<le> q \<and> q \<le> lb"
  by (rule range_bytes_aux) (use assms in auto)

lemma in_range_aux:
  fixes x low high :: int
  assumes "x = 8 * d + m" "low = 8 * ld + lm" "high = 8 * h + hm" "0 \<le> m" "m < 8" "0 \<le> lm"
    "lm < 8" "0 \<le> hm" "hm < 8"
  shows "low \<le> x \<and> x \<le> high \<longleftrightarrow>
    ld \<le> d \<and> d \<le> h \<and> (d = ld \<longrightarrow> lm \<le> m) \<and> (d = h \<longrightarrow> m \<le> hm)"
proof -
  have "low \<le> x \<longleftrightarrow> ld < d \<or> ld = d \<and> lm \<le> m" "x \<le> high \<longleftrightarrow> d < h \<or> d = h \<and> m \<le> hm"
    using assms by auto
  then show ?thesis by auto
qed

lemma in_range_bytes:
  fixes x low high :: int
  shows "x \<in> {low..high} \<longleftrightarrow> low div 8 \<le> x div 8 \<and> x div 8 \<le> high div 8 \<and>
    (x div 8 = low div 8 \<longrightarrow> low mod 8 \<le> x mod 8) \<and> (x div 8 = high div 8 \<longrightarrow> x mod 8 \<le> high mod 8)"
  unfolding atLeastAtMost_iff by (rule in_range_aux) simp_all

lemma ends_logic:
  fixes d m lb hb lm hm :: int
  assumes "lb \<le> hb"
  shows "(if d = hb then (if d = lb then lm \<le> m else lb \<le> d \<and> d \<le> hb) \<and> m \<le> hm
      else if d = lb then lm \<le> m else lb \<le> d \<and> d \<le> hb) \<longleftrightarrow>
    lb \<le> d \<and> d \<le> hb \<and> (d = lb \<longrightarrow> lm \<le> m) \<and> (d = hb \<longrightarrow> m \<le> hm)"
  using assms by auto

lemma div_8_32:
  fixes x :: int
  shows "x div 32 = x div 8 div 4" "4 * (x div 32) \<le> x div 8" "x div 8 < 4 * (x div 32 + 1)"
proof -
  show d: "x div 32 = x div 8 div 4" using zdiv_zmult2_eq [of 4 x 8] by simp
  show "4 * (x div 32) \<le> x div 8" "x div 8 < 4 * (x div 32 + 1)" unfolding d by simp_all
qed

lemma nat_mod8: "0 \<le> x \<Longrightarrow> nat x mod 8 = nat (x mod 8)"
  by (simp add: nat_mod_distrib)

lemma fix_ends:
  assumes "0 \<le> low" and "low \<le> high" and "high < 32 * int (length s)"
    and mem: "BS_members e s = {x. low div 8 \<le> x div 8 \<and> x div 8 \<le> high div 8}"
  shows "\<exists>t. bindE (BS_set_byte e s (low div 8) (ucast (push_bit (nat (low mod 8)) bs_ONES))) (\<lambda>s.
      bindE (BS_byte e s (high div 8)) (\<lambda>b.
      BS_set_byte e s (high div 8) (ucast (ucast b AND drop_bit (nat (31 - high mod 8)) bs_ONES)))) = Inr t
    \<and> length t = length s \<and> BS_members e t = {low..high}"
proof -
  let ?lb = "low div 8" and ?hb = "high div 8"
  have r: "0 \<le> ?lb" "?lb < 4 * int (length s)" "0 \<le> ?hb" "?hb < 4 * int (length s)"
    using assms by linarith+
  have le: "?lb \<le> ?hb" using assms(2) by (rule zdiv_mono1) simp
  define s1 where "s1 = s[nat ?lb div 4 :=
    put_byte e (s ! (nat ?lb div 4)) (nat ?lb mod 4) (ucast (push_bit (nat (low mod 8)) bs_ONES))]"
  define b where "b = (ucast (ucast (byte_at e s1 ?hb) AND drop_bit (nat (31 - high mod 8)) bs_ONES) :: BS_BYTE)"
  define t where "t = s1[nat ?hb div 4 := put_byte e (s1 ! (nat ?hb div 4)) (nat ?hb mod 4) b]"
  have len: "length s1 = length s" by (simp add: s1_def)
  have m: "nat (31 - high mod 8) = 31 - nat (high mod 8)" "nat (high mod 8) < 8"
    by (auto simp: nat_diff_distrib')
  have s1: "x \<in> BS_members e s1 \<longleftrightarrow> (if x div 8 = ?lb then low mod 8 \<le> x mod 8
      else ?lb \<le> x div 8 \<and> x div 8 \<le> ?hb)" for x
  proof -
    have "nat (low mod 8) \<le> nat x mod 8 \<longleftrightarrow> low mod 8 \<le> x mod 8" if "0 \<le> x"
      using that by (simp add: nat_mod8 nat_le_eq_zle)
    moreover have "0 \<le> x" if "x div 8 = ?lb" using that r(1) by linarith
    ultimately show ?thesis
      unfolding s1_def members_set_byte [OF r(1,2)] mem by (auto simp: bit_masks)
  qed
  have bit: "bit b k \<longleftrightarrow> k < 8 \<and> 8 * ?hb + int k \<in> BS_members e s1 \<and> k \<le> nat (high mod 8)" for k
    unfolding b_def m(1) using r len m(2) by (simp add: bit_masks bit_byte_at)
  have "x \<in> BS_members e t \<longleftrightarrow> x \<in> {low..high}" for x
  proof -
    have "bit b (nat x mod 8) \<longleftrightarrow> x \<in> BS_members e s1 \<and> x mod 8 \<le> high mod 8" if "x div 8 = ?hb"
    proof -
      have "0 \<le> x" using that r(3) by linarith
      then have "int (nat x mod 8) = x mod 8" "nat x mod 8 \<le> nat (high mod 8) \<longleftrightarrow> x mod 8 \<le> high mod 8"
        by (simp_all add: nat_mod8 nat_le_eq_zle)
      moreover have "8 * ?hb + x mod 8 = x" using that mult_div_mod_eq [of 8 x] by simp
      ultimately show ?thesis by (simp add: bit)
    qed
    then have "x \<in> BS_members e t \<longleftrightarrow>
        (if x div 8 = ?hb then x \<in> BS_members e s1 \<and> x mod 8 \<le> high mod 8 else x \<in> BS_members e s1)"
      unfolding t_def using members_set_byte [of ?hb s1 x e b] r(3,4) len by simp
    then show ?thesis unfolding s1 in_range_bytes by (simp only: ends_logic [OF le])
  qed
  moreover have "length t = length s" by (simp add: t_def len)
  ultimately show ?thesis
    using r len by (simp add: access_simps set_eq_iff flip: s1_def) (simp add: access_simps flip: b_def t_def)
qed


text \<open>
  \<^verbatim>\<open>BS_RangeD\<close> on a set that has been grown (if needed) to hold \<open>high\<close>, whatever it held
  before: clear, whole words, the bytes of the first and of the last word, the two end bytes.
\<close>

lemma BS_RangeD_core:
  assumes "0 \<le> low" and "low \<le> high" and "high < 2147483648"
    and grow: "(if high div 32 \<ge> BS_word_count s then bs_Realloc s (high div 32 + 1) pool else Inr s) = Inr t"
    and room: "high div 32 < int (length t)"
  shows "\<exists>u. BS_RangeD e s low high pool = Inr u \<and> length u = length t \<and> BS_members e u = {low..high}"
proof -
  define fw lw fb lb where w: "fw = low div 32" "lw = high div 32" "fb = low div 8" "lb = high div 8"
  have fl: "fb \<le> lb" "fw \<le> lw" "0 \<le> fw" "fb < 4 * (fw + 1)" "4 * fw \<le> fb"
     "lb < 4 * (lw + 1)" "4 * lw \<le> lb" "0 \<le> fb" "lw < 67108864"
    using assms(1-3) div_8_32(2,3) unfolding w by (simp_all add: zdiv_mono1)
  have room: "lw < int (length t)" using room by (simp add: w)
  have hi: "high < 32 * int (length t)" using room unfolding w by linarith
  have d4: "fw = fb div 4" "lw = lb div 4" unfolding w by (rule div_8_32(1))+
  define s1 where "s1 = word_update (fw + 1) lw (\<lambda>_. bs_ONES) (replicate (length t) 0)"
  have s1: "for_loop (fw + 1) lw (\<lambda>i s. BS_set_word s i bs_ONES) (replicate (length t) 0) = Inr s1"
    unfolding s1_def by (rule for_loop_words) (use fl(3) room in \<open>simp_all add: access_simps\<close>)
  have s1_len: "length s1 = length t" by (simp add: s1_def)
  have s1_mem: "BS_members e s1 = {x. fw + 1 \<le> x div 32 \<and> x div 32 < lw}"
    unfolding s1_def using members_word_ones [of "fw + 1" lw "replicate (length t) 0" e] fl(3) room
    by simp
  have m: "fb \<le> min (4 * (fw + 1)) (lb + 1)" "min (4 * (fw + 1)) (lb + 1) \<le> 4 * int (length t)"
    using fl room by (auto simp: min_def)
  obtain s2 where s2: "for_loop fb (min (4 * (fw + 1)) (lb + 1))
        (\<lambda>i s. BS_set_byte e s i (ucast bs_ONES)) s1 = Inr s2"
      "length s2 = length t"
      "BS_members e s2 = BS_members e s1 \<union> {x. fb \<le> x div 8 \<and> x div 8 < min (4 * (fw + 1)) (lb + 1)}"
    using for_loop_ones [of fb "min (4 * (fw + 1)) (lb + 1)" s1 e] m s1_len fl(8) by auto
  obtain s3 where s3: "(if fw \<noteq> lw then for_loop (4 * lw) (lb + 1)
        (\<lambda>i s. BS_set_byte e s i (ucast bs_ONES)) s2 else Inr s2) = Inr s3"
      "length s3 = length t"
      "BS_members e s3 = BS_members e s2 \<union> {x. fw \<noteq> lw \<and> 4 * lw \<le> x div 8 \<and> x div 8 < lb + 1}"
    using for_loop_ones [of "4 * lw" "lb + 1" s2 e] fl room s2(2) by (cases "fw = lw") auto
  have "BS_members e s3 = {x. fb \<le> x div 8 \<and> x div 8 \<le> lb}"
    unfolding s3(3) s2(3) s1_mem div_8_32(1)
    using range_bytes [OF fl(1), folded d4] by (auto simp: Un_def)
  then obtain u where u: "bindE (BS_set_byte e s3 fb (ucast (push_bit (nat (low mod 8)) bs_ONES))) (\<lambda>s.
      bindE (BS_byte e s lb) (\<lambda>b. BS_set_byte e s lb
        (ucast (ucast b AND drop_bit (nat (31 - high mod 8)) bs_ONES)))) = Inr u"
      "length u = length s3" "BS_members e u = {low..high}"
    using fix_ends [of low high s3 e] assms(1,2) hi s3(2) by (auto simp: w)
  moreover have mac: "bs_QBPW low = fw" "bs_QBPW high = lw" "bs_QBPB low = fb" "bs_QBPB high = lb"
    "bs_PBytesPW (fw + 1) = 4 * (fw + 1)" "bs_PBytesPW lw = 4 * lw"
    using assms(1-3) fl(2,3,9) unfolding w(3,4) by (simp_all add: bs_arith w(1,2))
  ultimately show ?thesis
    using assms(1-3) s2(1) s3(1,2) unfolding BS_RangeD_def Let_def mac
    by (simp add: grow [folded w] s1 bs_arith(5) bs_consts(3,4) split del: if_split)
qed


section \<open>Ranges, singletons and universes hold what they should\<close>

text \<open>An element is determined by its byte and its bit in that byte.\<close>

lemma elt_eq_iff: "0 \<le> x \<Longrightarrow> y = x \<longleftrightarrow> y div 8 = x div 8 \<and> nat y mod 8 = nat (x mod 8)"
proof -
  assume x: "0 \<le> x"
  have "nat y mod 8 = nat (x mod 8) \<longleftrightarrow> y mod 8 = x mod 8" if "y div 8 = x div 8"
  proof -
    have "0 \<le> y div 8" using x that by simp
    then have "0 \<le> y" by (simp add: pos_imp_zdiv_nonneg_iff)
    then show ?thesis by (simp add: nat_mod8 eq_nat_nat_iff)
  qed
  then show ?thesis by (metis mult_div_mod_eq)
qed

lemma BS_SingletonD_core:
  assumes "0 \<le> x" and "x < 2147483648"
    and grow: "(if x div 32 \<ge> BS_word_count s then bs_Realloc s (x div 32 + 1) p else Inr s) = Inr t"
    and room: "x < 32 * int (length t)"
  shows "\<exists>u. BS_SingletonD e s x p = Inr u \<and> BS_members e u = {x} \<and> length u = length t"
proof -
  let ?b = "ucast (push_bit (nat (x mod 8)) bs_ONE) :: BS_BYTE"
  let ?z = "replicate (length t) 0 :: BS"
  have r: "0 \<le> x div 8" "x div 8 < 4 * int (length ?z)" using assms by auto
  have "y \<in> BS_members e (?z[nat (x div 8) div 4 :=
      put_byte e (?z ! (nat (x div 8) div 4)) (nat (x div 8) mod 4) ?b]) \<longleftrightarrow> y = x" for y
    unfolding members_set_byte [OF r] elt_eq_iff [OF assms(1)] by (auto simp: bit_masks)
  with r show ?thesis using assms
    by (simp add: BS_SingletonD_def bs_arith Let_def BS_set_byte_in set_eq_iff)
qed

lemma no_growth: "x < 32 * int (length s) \<Longrightarrow> \<not> x div 32 \<ge> BS_word_count s"
  by (simp add: BS_word_count_def)

context bs_pool
begin

lemma grow_elt:
  assumes "0 \<le> x" and "x < 2147483648"
  shows "\<exists>t. (if x div 32 \<ge> BS_word_count s then bs_Realloc s (x div 32 + 1) pool else Inr s) = Inr t \<and>
    BS_word_count t = grown_length s (x div 32 + 1) \<and> (\<forall>k. word_at t k = word_at s k) \<and>
    x < 32 * int (length t)"
proof -
  have "0 \<le> x div 32 + 1" "x div 32 + 1 < 9223372036854775808" using assms by auto
  then obtain t where t: "(if BS_word_count s < x div 32 + 1 then bs_Realloc s (x div 32 + 1) pool else Inr s) = Inr t"
      "BS_word_count t = grown_length s (x div 32 + 1)" "\<forall>k. word_at t k = word_at s k"
    using grow_ok by blast
  have "x div 32 + 1 \<le> int (length t)"
    using t(2) grown_length_ge(1) [of "x div 32 + 1" s] by (simp add: BS_word_count_def)
  then have "x < 32 * int (length t)" by linarith
  with t show ?thesis by simp
qed

lemma BS_RangeD_ok:
  assumes "0 \<le> low" and "low \<le> high + 1" and "high < 2147483647"
  shows "\<exists>u. BS_RangeD e s low high pool = Inr u \<and> BS_members e u = {low..high} \<and>
    BS_word_count u = (if low \<le> high then grown_length s (high div 32 + 1) else BS_word_count s)"
proof (cases "low \<le> high")
  case True
  then obtain t where t: "(if high div 32 \<ge> BS_word_count s then bs_Realloc s (high div 32 + 1) pool else Inr s) = Inr t"
      "BS_word_count t = grown_length s (high div 32 + 1)" "high < 32 * int (length t)"
    using grow_elt [of high s] assms by auto
  then have "high div 32 < int (length t)" by linarith
  then obtain u where "BS_RangeD e s low high pool = Inr u" "length u = length t" "BS_members e u = {low..high}"
    using BS_RangeD_core [OF assms(1) True _ t(1)] assms(3) by auto
  then show ?thesis using True t(2) by (auto simp: BS_word_count_def)
next
  case False
  then have "{low..high} = {}" "high = low - 1" using assms(2) by auto
  then show ?thesis using assms by (simp add: BS_RangeD_def BS_word_count_def)
qed

lemma BS_SingletonD_ok:
  assumes "0 \<le> x" and "x < 2147483648"
  shows "\<exists>u. BS_SingletonD e s x pool = Inr u \<and> BS_members e u = {x} \<and>
    BS_word_count u = grown_length s (x div 32 + 1)"
proof -
  obtain t where t: "(if x div 32 \<ge> BS_word_count s then bs_Realloc s (x div 32 + 1) pool else Inr s) = Inr t"
      "BS_word_count t = grown_length s (x div 32 + 1)" "x < 32 * int (length t)"
    using grow_elt [OF assms, of s] by blast
  then obtain u where "BS_SingletonD e s x pool = Inr u" "BS_members e u = {x}" "length u = length t"
    using BS_SingletonD_core [OF assms t(1,3)] by blast
  then show ?thesis using t(2) by (simp add: BS_word_count_def)
qed

text \<open>The operations that allocate the set at its final size never need to grow it.\<close>

lemma BS_Range_ok:
  assumes "0 \<le> low" and "low \<le> high + 1" and "high < 2147483647"
  shows "\<exists>u. BS_Range e low high pool = Inr u \<and> BS_members e u = {low..high} \<and>
    BS_word_count u = (high + 32) div 32"
proof -
  obtain s where s: "BS_Create (high + 1) pool = Inr s" "BS_word_count s = (high + 32) div 32"
    using BS_Create_ok [of "high + 1"] assms by (auto simp: add.assoc)
  have hi: "high < 32 * int (length s)" using s(2) by (simp add: BS_word_count_def)
  show ?thesis
  proof (cases "low \<le> high")
    case True
    then show ?thesis
      using BS_RangeD_core [of low high s bad_pool s e] no_growth [OF hi] s assms hi
      by (auto simp: BS_Range_def s32_id BS_word_count_def)
  next
    case False
    then have "{low..high} = {}" "high = low - 1" using assms(2) by auto
    then show ?thesis using s assms by (simp add: BS_Range_def BS_RangeD_def s32_id BS_word_count_def)
  qed
qed

lemma BS_Singleton_ok:
  assumes "0 \<le> x" and "x < 2147483647"
  shows "\<exists>u. BS_Singleton e x pool = Inr u \<and> BS_members e u = {x} \<and> BS_word_count u = x div 32 + 1"
proof -
  obtain s where s: "BS_Create (x + 1) pool = Inr s" "BS_word_count s = (x + 32) div 32"
    using BS_Create_ok [of "x + 1"] assms by (auto simp: add.assoc)
  have hi: "x < 32 * int (length s)" using s(2) by (simp add: BS_word_count_def)
  then show ?thesis
    using BS_SingletonD_core [of x s bad_pool s e] no_growth [OF hi] s assms
    by (auto simp: BS_Singleton_def s32_id BS_word_count_def)
qed

lemma BS_Universe_ok:
  assumes "0 \<le> n" and "n < 2147483648"
  shows "\<exists>u. BS_Universe e n pool = Inr u \<and> BS_members e u = {0..<n} \<and>
    BS_word_count u = (n + 31) div 32"
proof -
  obtain s where s: "BS_Create n pool = Inr s" "BS_word_count s = (n + 31) div 32"
    using BS_Create_ok [OF assms] by auto
  have hi: "n - 1 < 32 * int (length s)" using s(2) by (simp add: BS_word_count_def)
  have set: "{0..n - 1} = {0..<n}" by auto
  show ?thesis
  proof (cases "n = 0")
    case True
    then show ?thesis using s by (simp add: BS_Universe_def BS_UniverseD_def BS_RangeD_def BS_word_count_def)
  next
    case False
    then show ?thesis
      using BS_RangeD_core [of 0 "n - 1" s bad_pool s e] no_growth [OF hi] s assms hi
      by (auto simp: BS_Universe_def BS_UniverseD_def BS_word_count_def set)
  qed
qed

end

text \<open>
  \<^verbatim>\<open>BS_UniverseD\<close> passes \<^verbatim>\<open>bad_pool\<close> on instead of its own pool, so it works on a set that
  already has room and fails an assertion on one that would have to grow.
\<close>

lemma BS_UniverseD_room:
  assumes "1 \<le> n" and "n < 2147483648" and "n \<le> 32 * BS_word_count s"
  shows "\<exists>u. BS_UniverseD e s n pool = Inr u \<and> BS_members e u = {0..<n} \<and>
    BS_word_count u = BS_word_count s"
proof -
  have hi: "n - 1 < 32 * int (length s)" using assms by (simp add: BS_word_count_def)
  have "{0..n - 1} = {0..<n}" by auto
  then show ?thesis
    using BS_RangeD_core [of 0 "n - 1" s bad_pool s e] no_growth [OF hi] assms hi
    by (auto simp: BS_UniverseD_def BS_word_count_def)
qed

lemma BS_UniverseD_grow_fails:
  assumes "n < 2147483648" and "32 * BS_word_count s < n"
  shows "BS_UniverseD e s n pool = Inl Is_True_Failed"
proof -
  have "(n - 1) div 32 \<ge> BS_word_count s" using assms(2) by linarith
  moreover have "0 \<le> BS_word_count s" by (simp add: BS_word_count_def)
  ultimately show ?thesis
    using assms by (simp add: BS_UniverseD_def BS_RangeD_def bs_arith Let_def bs_Realloc_def bad_pool_def)
qed

end
