(* ===== verification/Bitset_Algebra.thy ===== *)
theory Bitset_Algebra
  imports Bitset_Create
begin

unbundle bit_operations_syntax

text \<open>
  The set algebra of \<^verbatim>\<open>common/util/bitset.c\<close>: difference, intersection, union, their forms for
  one element, and the fused operations of the data-flow solvers, in the plain, destructive
  (\<^verbatim>\<open>D\<close>) and replacing (\<^verbatim>\<open>R\<close>) variants. The destructive forms read and write word \<open>i\<close> of their
  arguments before word \<open>i + 1\<close>, so the results below also hold when arguments are the same
  object.
\<close>

section \<open>Difference\<close>

definition BS_Difference :: "BS \<Rightarrow> BS \<Rightarrow> MEM_POOL \<Rightarrow> BS res" where
  "BS_Difference set1 set2 pool =
     (let size1 = BS_word_count set1; size2 = BS_word_count set2;
          minsize = min size1 size2 in
      bindE (bs_Malloc size1 pool) (\<lambda>s.
      bindE (for_loop 0 minsize (\<lambda>i s.
               bindE (BS_word set1 i) (\<lambda>w1. bindE (BS_word set2 i) (\<lambda>w2.
               BS_set_word s i (w1 AND NOT w2)))) s) (\<lambda>s.
      for_loop minsize size1 (\<lambda>i s. bindE (BS_word set1 i) (\<lambda>w1. BS_set_word s i w1)) s)))"

definition BS_DifferenceD :: "BS \<Rightarrow> BS \<Rightarrow> BS res" where
  "BS_DifferenceD set1 set2 =
     (let minsize = min (BS_word_count set1) (BS_word_count set2) in
      for_loop 0 minsize (\<lambda>i s.
        bindE (BS_word s i) (\<lambda>w1. bindE (BS_word set2 i) (\<lambda>w2.
        BS_set_word s i (w1 AND NOT w2)))) set1)"

definition BS_Difference1D :: "endian \<Rightarrow> BS \<Rightarrow> BS_ELT \<Rightarrow> BS res" where
  "BS_Difference1D e bs x =
     bindE (Is_True (x \<ge> 0)) (\<lambda>_.
     if bs_QBPW x < BS_word_count bs
     then bindE (BS_byte e bs (bs_QBPB x)) (\<lambda>b.
          BS_set_byte e bs (bs_QBPB x)
            (ucast (ucast b AND NOT (push_bit (nat (bs_RBPB x)) bs_ONE))))
     else Inr bs)"

definition BS_Difference1 :: "endian \<Rightarrow> BS \<Rightarrow> BS_ELT \<Rightarrow> MEM_POOL \<Rightarrow> BS res" where
  "BS_Difference1 e bs x pool = bindE (BS_Copy bs pool) (\<lambda>s. BS_Difference1D e s x)"

section \<open>Intersection\<close>

definition BS_Intersection :: "BS \<Rightarrow> BS \<Rightarrow> MEM_POOL \<Rightarrow> BS res" where
  "BS_Intersection set1 set2 pool =
     (let size = (if BS_word_count set1 < BS_word_count set2
                  then BS_word_count set1 else BS_word_count set2) in
      bindE (bs_Malloc size pool) (\<lambda>newset.
      for_loop 0 size (\<lambda>i s.
        bindE (BS_word set1 i) (\<lambda>w1. bindE (BS_word set2 i) (\<lambda>w2.
        BS_set_word s i (w1 AND w2)))) newset))"

definition BS_IntersectionD :: "BS \<Rightarrow> BS \<Rightarrow> BS res" where
  "BS_IntersectionD set1 set2 =
     (let minsize = min (BS_word_count set1) (BS_word_count set2) in
      bindE (for_loop 0 minsize (\<lambda>i s.
               bindE (BS_word s i) (\<lambda>w1. bindE (BS_word set2 i) (\<lambda>w2.
               BS_set_word s i (w1 AND w2)))) set1) (\<lambda>s.
      for_loop minsize (BS_word_count set1) (\<lambda>i s. BS_set_word s i bs_ZEROS) s))"

definition BS_IntersectionR :: "BS \<Rightarrow> BS \<Rightarrow> BS \<Rightarrow> BS res" where
  "BS_IntersectionR result set1 set2 =
     (let minsize = min (BS_word_count set1) (BS_word_count set2) in
      bindE (for_loop 0 minsize (\<lambda>i s.
               bindE (BS_word set1 i) (\<lambda>w1. bindE (BS_word set2 i) (\<lambda>w2.
               BS_set_word s i (w1 AND w2)))) result) (\<lambda>s.
      for_loop minsize (BS_word_count result) (\<lambda>i s. BS_set_word s i bs_ZEROS) s))"

section \<open>Union\<close>

definition BS_Union :: "BS \<Rightarrow> BS \<Rightarrow> MEM_POOL \<Rightarrow> BS res" where
  "BS_Union set1_arg set2_arg pool =
     (let (set1, set2) = (if BS_word_count set1_arg < BS_word_count set2_arg
                          then (set2_arg, set1_arg) else (set1_arg, set2_arg));
          size1 = BS_word_count set1; size2 = BS_word_count set2 in
      bindE (bs_Malloc size1 pool) (\<lambda>s.
      bindE (for_loop 0 size2 (\<lambda>i s.
               bindE (BS_word set1 i) (\<lambda>w1. bindE (BS_word set2 i) (\<lambda>w2.
               BS_set_word s i (w1 OR w2)))) s) (\<lambda>s.
      for_loop size2 size1 (\<lambda>i s. bindE (BS_word set1 i) (\<lambda>w1. BS_set_word s i w1)) s)))"

definition BS_UnionD :: "BS \<Rightarrow> BS \<Rightarrow> MEM_POOL \<Rightarrow> BS res" where
  "BS_UnionD set1 set2 pool =
     (let size1 = BS_word_count set1; size2 = BS_word_count set2 in
      bindE (if size1 < size2 then bs_Realloc set1 size2 pool else Inr set1) (\<lambda>set1.
      for_loop 0 size2 (\<lambda>i s.
        bindE (BS_word s i) (\<lambda>w1. bindE (BS_word set2 i) (\<lambda>w2.
        BS_set_word s i (w1 OR w2)))) set1))"

definition BS_UnionR :: "BS \<Rightarrow> BS \<Rightarrow> BS \<Rightarrow> MEM_POOL \<Rightarrow> BS res" where
  "BS_UnionR result set1 set2 pool =
     (let size1 = BS_word_count set1; size2 = BS_word_count set2;
          maxsize = max size1 size2; rsize = BS_word_count result in
      bindE (if rsize < maxsize then bs_Realloc result maxsize pool else Inr result) (\<lambda>result.
      for_loop 0 maxsize (\<lambda>i s.
        bindE (BS_word set1 i) (\<lambda>w1. bindE (BS_word set2 i) (\<lambda>w2.
        BS_set_word s i (w1 OR w2)))) result))"

definition BS_UnionD_Intersection :: "BS \<Rightarrow> BS \<Rightarrow> BS \<Rightarrow> MEM_POOL \<Rightarrow> BS res" where
  "BS_UnionD_Intersection set1 set2 set3 pool =
     (let size1 = BS_word_count set1;
          minsize = min (BS_word_count set2) (BS_word_count set3) in
      bindE (if size1 < minsize then bs_Realloc set1 minsize pool else Inr set1) (\<lambda>set1.
      for_loop 0 minsize (\<lambda>i s.
        bindE (BS_word s i) (\<lambda>w1. bindE (BS_word set2 i) (\<lambda>w2. bindE (BS_word set3 i) (\<lambda>w3.
        BS_set_word s i (w1 OR (w2 AND w3))))) ) set1))"

definition BS_Union1D :: "endian \<Rightarrow> BS \<Rightarrow> BS_ELT \<Rightarrow> MEM_POOL \<Rightarrow> BS res" where
  "BS_Union1D e bs x pool =
     (let minsize = bs_QBPW x + 1 in
      bindE (Is_True (x \<ge> 0)) (\<lambda>_.
      bindE (if minsize > BS_word_count bs then bs_Realloc bs minsize pool else Inr bs) (\<lambda>s.
      bindE (BS_byte e s (bs_QBPB x)) (\<lambda>b.
      BS_set_byte e s (bs_QBPB x) (ucast (ucast b OR push_bit (nat (bs_RBPB x)) bs_ONE))))))"

definition BS_Union1 :: "endian \<Rightarrow> BS \<Rightarrow> BS_ELT \<Rightarrow> MEM_POOL \<Rightarrow> BS res" where
  "BS_Union1 e bs x pool =
     (let newsize = (if BS_word_count bs > (bs_QBPW x + 1) mod 2 ^ 32
                     then bs_PBPW (BS_word_count bs) else s32 (x + 1)) in
      bindE (BS_Create_Empty newsize pool) (\<lambda>newset.
      bindE (BS_CopyD newset bs bad_pool) (\<lambda>newset.
      BS_Union1D e newset x bad_pool)))"

section \<open>Fused operations of the data-flow solvers\<close>

definition BS_2_1_Minus_3_Or_R :: "BS \<Rightarrow> BS \<Rightarrow> BS \<Rightarrow> BS \<Rightarrow> MEM_POOL \<Rightarrow> BS res" where
  "BS_2_1_Minus_3_Or_R result set1 set2 set3 pool =
     (let tsize = BS_word_count result; size = BS_word_count set3 in
      bindE (Is_True (BS_word_count set1 = size)) (\<lambda>_.
      bindE (Is_True (BS_word_count set2 = size)) (\<lambda>_.
      bindE (if tsize < size then bs_Realloc result size pool else Inr result) (\<lambda>t.
      for_loop 0 size (\<lambda>i s.
        bindE (BS_word set1 i) (\<lambda>w1. bindE (BS_word set2 i) (\<lambda>w2. bindE (BS_word set3 i) (\<lambda>w3. 
        BS_set_word s i ((NOT w1 AND w2) OR w3))))) t))))"

definition BS_3_2_Minus_1_Or_D :: "BS \<Rightarrow> BS \<Rightarrow> BS \<Rightarrow> MEM_POOL \<Rightarrow> BS res" where
  "BS_3_2_Minus_1_Or_D set1 set2 set3 pool =
     (let tsize = BS_word_count set1; size = BS_word_count set3 in
      bindE (Is_True (BS_word_count set2 = size)) (\<lambda>_.
      bindE (if tsize < size then bs_Realloc set1 size pool else Inr set1) (\<lambda>t.
      for_loop 0 size (\<lambda>i s.
        bindE (BS_word s i) (\<lambda>w1.
        bindE (BS_word set2 i) (\<lambda>w2. bindE (BS_word set3 i) (\<lambda>w3. 
        BS_set_word s i (w1 OR (NOT w2 AND w3)))))) t)))"

definition BS_3_2_Minus_4_Or_1_Or_D :: "BS \<Rightarrow> BS \<Rightarrow> BS \<Rightarrow> BS \<Rightarrow> MEM_POOL \<Rightarrow> BS res" where
  "BS_3_2_Minus_4_Or_1_Or_D set1 set2 set3 set4 pool =
     (let tsize = BS_word_count set1; size = BS_word_count set2 in
      bindE (Is_True (size = BS_word_count set3 \<and> BS_word_count set3 = BS_word_count set4)) (\<lambda>_.
      bindE (if tsize < size then bs_Realloc set1 size pool else Inr set1) (\<lambda>t.
      for_loop 0 size (\<lambda>i s.
        bindE (BS_word s i) (\<lambda>w1.
        bindE (BS_word set2 i) (\<lambda>w2. bindE (BS_word set3 i) (\<lambda>w3. bindE (BS_word set4 i) (\<lambda>w4. 
        BS_set_word s i (w1 OR ((NOT w2 AND w3) OR w4))))))) t)))"

definition BS_3_2_Minus_4_Or_5_Or_1_Or_D :: "BS \<Rightarrow> BS \<Rightarrow> BS \<Rightarrow> BS \<Rightarrow> BS \<Rightarrow> MEM_POOL \<Rightarrow> BS res" where
  "BS_3_2_Minus_4_Or_5_Or_1_Or_D set1 set2 set3 set4 set5 pool =
     (let tsize = BS_word_count set1; size = BS_word_count set5 in
      bindE (Is_True (BS_word_count set2 = size)) (\<lambda>_.
      bindE (Is_True (BS_word_count set3 = size)) (\<lambda>_.
      bindE (Is_True (BS_word_count set4 = size)) (\<lambda>_.
      bindE (if tsize < size then bs_Realloc set1 size pool else Inr set1) (\<lambda>t.
      for_loop 0 size (\<lambda>i s.
        bindE (BS_word s i) (\<lambda>w1.
        bindE (BS_word set2 i) (\<lambda>w2. bindE (BS_word set3 i) (\<lambda>w3. bindE (BS_word set4 i) (\<lambda>w4. bindE (BS_word set5 i) (\<lambda>w5. 
        BS_set_word s i (w1 OR ((NOT w2 AND w3) OR w4 OR w5)))))))) t)))))"

definition BS_2_1_Minus_3_Or_4_And_5_And_6_And_R :: "BS \<Rightarrow> BS \<Rightarrow> BS \<Rightarrow> BS \<Rightarrow> BS \<Rightarrow> BS \<Rightarrow> BS \<Rightarrow> MEM_POOL \<Rightarrow> BS res" where
  "BS_2_1_Minus_3_Or_4_And_5_And_6_And_R result set1 set2 set3 set4 set5 set6 pool =
     (let tsize = BS_word_count result; size = BS_word_count set3 in
      bindE (Is_True (BS_word_count set1 = size)) (\<lambda>_.
      bindE (Is_True (BS_word_count set2 = size)) (\<lambda>_.
      bindE (Is_True (BS_word_count set4 = size)) (\<lambda>_.
      bindE (Is_True (BS_word_count set5 = size)) (\<lambda>_.
      bindE (Is_True (BS_word_count set6 = size)) (\<lambda>_.
      bindE (if tsize < size then bs_Realloc result size pool else Inr result) (\<lambda>t.
      for_loop 0 size (\<lambda>i s.
        bindE (BS_word set1 i) (\<lambda>w1. bindE (BS_word set2 i) (\<lambda>w2. bindE (BS_word set3 i) (\<lambda>w3. bindE (BS_word set4 i) (\<lambda>w4. bindE (BS_word set5 i) (\<lambda>w5. bindE (BS_word set6 i) (\<lambda>w6. 
        BS_set_word s i (((NOT w1 AND w2) OR w3) AND w4 AND w5 AND w6)))))))) t)))))))"

definition BS_2_1_Minus_3_Or_4_And_R :: "BS \<Rightarrow> BS \<Rightarrow> BS \<Rightarrow> BS \<Rightarrow> BS \<Rightarrow> MEM_POOL \<Rightarrow> BS res" where
  "BS_2_1_Minus_3_Or_4_And_R result set1 set2 set3 set4 pool =
     (let tsize = BS_word_count result; size = BS_word_count set3 in
      bindE (Is_True (BS_word_count set1 = size)) (\<lambda>_.
      bindE (Is_True (BS_word_count set2 = size)) (\<lambda>_.
      bindE (Is_True (BS_word_count set4 = size)) (\<lambda>_.
      bindE (if tsize < size then bs_Realloc result size pool else Inr result) (\<lambda>t.
      for_loop 0 size (\<lambda>i s.
        bindE (BS_word set1 i) (\<lambda>w1. bindE (BS_word set2 i) (\<lambda>w2. bindE (BS_word set3 i) (\<lambda>w3. bindE (BS_word set4 i) (\<lambda>w4. 
        BS_set_word s i (((NOT w1 AND w2) OR w3) AND w4)))))) t)))))"

definition BS_1_Not_2_Or_3_Minus_4_And_R :: "BS \<Rightarrow> BS \<Rightarrow> BS \<Rightarrow> BS \<Rightarrow> BS \<Rightarrow> MEM_POOL \<Rightarrow> BS res" where
  "BS_1_Not_2_Or_3_Minus_4_And_R result set1 set2 set3 set4 pool =
     (let tsize = BS_word_count result; size = BS_word_count set2 in
      bindE (Is_True (BS_word_count set1 = size)) (\<lambda>_.
      bindE (Is_True (BS_word_count set3 = size)) (\<lambda>_.
      bindE (Is_True (BS_word_count set4 = size)) (\<lambda>_.
      bindE (if tsize < size then bs_Realloc result size pool else Inr result) (\<lambda>t.
      for_loop 0 size (\<lambda>i s.
        bindE (BS_word set1 i) (\<lambda>w1. bindE (BS_word set2 i) (\<lambda>w2. bindE (BS_word set3 i) (\<lambda>w3. bindE (BS_word set4 i) (\<lambda>w4. 
        BS_set_word s i ((NOT w1 OR w2) AND (NOT w3) AND w4)))))) t)))))"

definition BS_2_3_Or_1_Or_D :: "BS \<Rightarrow> BS \<Rightarrow> BS \<Rightarrow> MEM_POOL \<Rightarrow> BS res" where
  "BS_2_3_Or_1_Or_D set1 set2 set3 pool =
     (let tsize = BS_word_count set1; size = BS_word_count set2 in
      bindE (Is_True (size = BS_word_count set3)) (\<lambda>_.
      bindE (if tsize < size then bs_Realloc set1 size pool else Inr set1) (\<lambda>t.
      for_loop 0 size (\<lambda>i s.
        bindE (BS_word s i) (\<lambda>w1.
        bindE (BS_word set2 i) (\<lambda>w2. bindE (BS_word set3 i) (\<lambda>w3. 
        BS_set_word s i (w1 OR (w2 OR w3)))))) t)))"

definition BS_1_2_Or_3_And_R :: "BS \<Rightarrow> BS \<Rightarrow> BS \<Rightarrow> BS \<Rightarrow> MEM_POOL \<Rightarrow> BS res" where
  "BS_1_2_Or_3_And_R result set1 set2 set3 pool =
     (let tsize = BS_word_count result; size = BS_word_count set1 in
      bindE (Is_True (BS_word_count set2 = size)) (\<lambda>_.
      bindE (Is_True (BS_word_count set3 = size)) (\<lambda>_.
      bindE (if tsize < size then bs_Realloc result size pool else Inr result) (\<lambda>t.
      for_loop 0 size (\<lambda>i s.
        bindE (BS_word set1 i) (\<lambda>w1. bindE (BS_word set2 i) (\<lambda>w2. bindE (BS_word set3 i) (\<lambda>w3. 
        BS_set_word s i ((w1 OR w2) AND w3))))) t))))"

definition BS_2_3_And_1_Or_D :: "BS \<Rightarrow> BS \<Rightarrow> BS \<Rightarrow> MEM_POOL \<Rightarrow> BS res" where
  "BS_2_3_And_1_Or_D set1 set2 set3 pool =
     (let tsize = BS_word_count set1; size = min (BS_word_count set2) (BS_word_count set3) in
      bindE (if tsize < size then bs_Realloc set1 size pool else Inr set1) (\<lambda>t.
      for_loop 0 size (\<lambda>i s.
        bindE (BS_word s i) (\<lambda>w1.
        bindE (BS_word set2 i) (\<lambda>w2. bindE (BS_word set3 i) (\<lambda>w3. 
        BS_set_word s i (w1 OR (w2 AND w3)))))) t))"

definition BS_3_Not_4_Or_2_And_1_Or_D :: "BS \<Rightarrow> BS \<Rightarrow> BS \<Rightarrow> BS \<Rightarrow> MEM_POOL \<Rightarrow> BS res" where
  "BS_3_Not_4_Or_2_And_1_Or_D set1 set2 set3 set4 pool =
     (let tsize = BS_word_count set1; size = BS_word_count set2 in
      bindE (Is_True (BS_word_count set3 = size)) (\<lambda>_.
      bindE (Is_True (BS_word_count set4 = size)) (\<lambda>_.
      bindE (if tsize < size then bs_Realloc set1 size pool else Inr set1) (\<lambda>t.
      for_loop 0 size (\<lambda>i s.
        bindE (BS_word s i) (\<lambda>w1.
        bindE (BS_word set2 i) (\<lambda>w2. bindE (BS_word set3 i) (\<lambda>w3. bindE (BS_word set4 i) (\<lambda>w4. 
        BS_set_word s i (w1 OR (w2 AND (NOT w3 OR w4)))))))) t))))"

definition BS_4_3_Minus_2_Not_Or_1_And_D :: "BS \<Rightarrow> BS \<Rightarrow> BS \<Rightarrow> BS \<Rightarrow> MEM_POOL \<Rightarrow> BS res" where
  "BS_4_3_Minus_2_Not_Or_1_And_D set1 set2 set3 set4 pool =
     (let tsize = BS_word_count set1; size = BS_word_count set2 in
      bindE (Is_True (BS_word_count set3 = size)) (\<lambda>_.
      bindE (Is_True (BS_word_count set4 = size)) (\<lambda>_.
      bindE (if tsize < size then bs_Realloc set1 size pool else Inr set1) (\<lambda>t.
      for_loop 0 size (\<lambda>i s.
        bindE (BS_word s i) (\<lambda>w1.
        bindE (BS_word set2 i) (\<lambda>w2. bindE (BS_word set3 i) (\<lambda>w3. bindE (BS_word set4 i) (\<lambda>w4. 
        BS_set_word s i (w1 AND (NOT w2 OR (w4 AND NOT w3)))))))) t))))"

definition BS_2_3_Minus_1_Or_D :: "BS \<Rightarrow> BS \<Rightarrow> BS \<Rightarrow> MEM_POOL \<Rightarrow> BS res" where
  "BS_2_3_Minus_1_Or_D set1 set2 set3 pool =
     (let tsize = BS_word_count set1; size = BS_word_count set2 in
      bindE (Is_True (size = BS_word_count set3)) (\<lambda>_.
      bindE (if tsize < size then bs_Realloc set1 size pool else Inr set1) (\<lambda>t.
      for_loop 0 size (\<lambda>i s.
        bindE (BS_word s i) (\<lambda>w1.
        bindE (BS_word set2 i) (\<lambda>w2. bindE (BS_word set3 i) (\<lambda>w3. 
        BS_set_word s i (w1 OR (w2 AND NOT w3)))))) t)))"

definition BS_2_3_Minus_4_Minus_1_Or_D :: "BS \<Rightarrow> BS \<Rightarrow> BS \<Rightarrow> BS \<Rightarrow> MEM_POOL \<Rightarrow> BS res" where
  "BS_2_3_Minus_4_Minus_1_Or_D set1 set2 set3 set4 pool =
     (let tsize = BS_word_count set1; size = BS_word_count set2 in
      bindE (Is_True (size = BS_word_count set3 \<and> BS_word_count set3 = BS_word_count set4)) (\<lambda>_.
      bindE (if tsize < size then bs_Realloc set1 size pool else Inr set1) (\<lambda>t.
      for_loop 0 size (\<lambda>i s.
        bindE (BS_word s i) (\<lambda>w1.
        bindE (BS_word set2 i) (\<lambda>w2. bindE (BS_word set3 i) (\<lambda>w3. bindE (BS_word set4 i) (\<lambda>w4. 
        BS_set_word s i (w1 OR (w2 AND NOT w3 AND NOT w4))))))) t)))"

section \<open>Word-wise results as sets\<close>

lemma word_count_nonneg [simp]: "0 \<le> BS_word_count s"
  by (simp add: BS_word_count_def)

lemma word_at_in: "int k < BS_word_count s \<Longrightarrow> s ! k = word_at s k"
  by (simp add: word_at_def BS_word_count_def)

lemma word_at_beyond: "\<not> int k < BS_word_count s \<Longrightarrow> word_at s k = 0"
  by (simp add: word_at_def BS_word_count_def)

lemma BS_word_at: "0 \<le> i \<Longrightarrow> i < BS_word_count s \<Longrightarrow> BS_word s i = Inr (word_at s (nat i))"
  by (simp add: BS_word_def word_at_def BS_word_count_def nat_less_iff)

lemma BS_word_self: "0 \<le> i \<Longrightarrow> i < n \<Longrightarrow> n \<le> int (length s) \<Longrightarrow> BS_word s i = Inr (s ! nat i)"
  by (simp add: BS_word_in)

lemma BS_set_word_self:
  "0 \<le> i \<Longrightarrow> i < n \<Longrightarrow> n \<le> int (length s) \<Longrightarrow> BS_set_word s i w = Inr (s[nat i := w])"
  by (simp add: BS_set_word_in)

text \<open>
  A set whose bits are given by a condition \<open>P\<close> on the bits of other sets at the same place has
  the elements that satisfy \<open>P\<close> of the membership in those sets.
\<close>

lemma members_eqI:
  assumes "\<And>k b. b < 32 \<Longrightarrow> bit (word_at t k) b \<longleftrightarrow> P (\<lambda>s. bit (word_at s k) b)"
    and "\<not> P (\<lambda>_. False)"
  shows "BS_members e t = {x. P (\<lambda>s. x \<in> BS_members e s)}"
proof -
  have "x \<in> BS_members e t \<longleftrightarrow> P (\<lambda>s. x \<in> BS_members e s)" for x
    using assms bit_lane_less [of "nat x mod 32" e] by (cases "0 \<le> x") (simp_all add: members_iff)
  then show ?thesis by blast
qed

lemmas word_loop_simps = BS_word_at BS_word_self BS_set_word_self
lemmas word_bits = bit_and_iff bit_or_iff bit_not_iff word_at_beyond

context bs_pool
begin

lemma grow_members:
  assumes "n < 9223372036854775808" and "0 \<le> n"
    and "\<And>i t. 0 \<le> i \<Longrightarrow> i < n \<Longrightarrow> n \<le> int (length t) \<Longrightarrow>
      body i t = Inr (t[nat i := F (t ! nat i) (nat i)])"
    and "\<And>k b. b < 32 \<Longrightarrow> bit (if int k < n then F (word_at s k) k else word_at s k) b
      \<longleftrightarrow> P (\<lambda>s. bit (word_at s k) b)"
    and "\<not> P (\<lambda>_. False)"
  shows "\<exists>t. bindE (if BS_word_count s < n then bs_Realloc s n pool else Inr s) (for_loop 0 n body)
      = Inr t \<and> BS_word_count t = grown_length s n \<and>
    (\<forall>e. BS_members e t = {x. P (\<lambda>s. x \<in> BS_members e s)})"
proof -
  obtain t where t: "bindE (if BS_word_count s < n then bs_Realloc s n pool else Inr s) (for_loop 0 n body)
      = Inr t" "BS_word_count t = grown_length s n"
      "\<forall>k. word_at t k = (if int k < n then F (word_at s k) k else word_at s k)"
    using grow_update [OF assms(2,1,3), of s] by blast
  with assms(4,5) have "BS_members e t = {x. P (\<lambda>s. x \<in> BS_members e s)}" for e
    by (intro members_eqI) auto
  with t(1,2) show ?thesis by blast
qed

text \<open>
  The replacing forms grow the result and overwrite its first \<open>n\<close> words; words of the result
  beyond those are left as they were.
\<close>

lemma grow_replace:
  assumes "n < 9223372036854775808" and "0 \<le> n"
    and "\<And>i t. 0 \<le> i \<Longrightarrow> i < n \<Longrightarrow> n \<le> int (length t) \<Longrightarrow> body i t = Inr (t[nat i := g (nat i)])"
    and "\<And>k b. b < 32 \<Longrightarrow> int k < n \<Longrightarrow> bit (g k) b \<longleftrightarrow> P (\<lambda>s. bit (word_at s k) b)"
    and "\<And>k b. b < 32 \<Longrightarrow> \<not> int k < n \<Longrightarrow> \<not> P (\<lambda>s. bit (word_at s k) b)"
    and "\<not> P (\<lambda>_. False)"
  shows "\<exists>t. bindE (if BS_word_count s < n then bs_Realloc s n pool else Inr s) (for_loop 0 n body)
      = Inr t \<and> BS_word_count t = grown_length s n \<and>
    (\<forall>e. BS_members e t = {x. P (\<lambda>s. x \<in> BS_members e s)} \<union> {x \<in> BS_members e s. 32 * n \<le> x})"
proof -
  obtain t where t: "bindE (if BS_word_count s < n then bs_Realloc s n pool else Inr s) (for_loop 0 n body)
      = Inr t" "BS_word_count t = grown_length s n"
      "\<forall>k. word_at t k = (if int k < n then g k else word_at s k)"
    using grow_update [where F = "\<lambda>_. g", OF assms(2,1,3), of s] by blast
  have "x \<in> BS_members e t \<longleftrightarrow> P (\<lambda>s. x \<in> BS_members e s) \<or> x \<in> BS_members e s \<and> 32 * n \<le> x" for x e
  proof (cases "0 \<le> x")
    case True
    then have "int (nat x div 32) < n \<longleftrightarrow> \<not> 32 * n \<le> x" by (simp add: zdiv_int) linarith
    then show ?thesis
      using True t(3) assms(4,5) bit_lane_less [of "nat x mod 32" e] by (auto simp: members_iff)
  qed (use assms(6) in \<open>simp add: members_iff\<close>)
  then have "\<forall>e. BS_members e t = {x. P (\<lambda>s. x \<in> BS_members e s)} \<union> {x \<in> BS_members e s. 32 * n \<le> x}"
    by blast
  with t(1,2) show ?thesis by blast
qed

lemma BS_3_2_Minus_1_Or_D_ok:
  assumes "BS_word_count set2 = BS_word_count set3"
    and "BS_word_count set3 < 9223372036854775808"
  shows "\<exists>t. BS_3_2_Minus_1_Or_D set1 set2 set3 pool = Inr t \<and>
    BS_word_count t = grown_length set1 (BS_word_count set3) \<and>
    (\<forall>e. BS_members e t = {x. x \<in> BS_members e set1 \<or> x \<notin> BS_members e set2 \<and> x \<in> BS_members e set3})"
  unfolding BS_3_2_Minus_1_Or_D_def Let_def assms(1) Is_True_simps simp_thms bindE_Inr
  by (rule grow_members [where F = "\<lambda>w k. w OR (NOT (word_at set2 k) AND word_at set3 k)"
        and P = "\<lambda>m. m set1 \<or> \<not> m set2 \<and> m set3"]) (simp_all add: assms word_loop_simps word_bits)

lemma BS_3_2_Minus_4_Or_1_Or_D_ok:
  assumes "BS_word_count set3 = BS_word_count set2" and "BS_word_count set4 = BS_word_count set2"
    and "BS_word_count set2 < 9223372036854775808"
  shows "\<exists>t. BS_3_2_Minus_4_Or_1_Or_D set1 set2 set3 set4 pool = Inr t \<and>
    BS_word_count t = grown_length set1 (BS_word_count set2) \<and>
    (\<forall>e. BS_members e t = {x. x \<in> BS_members e set1 \<or> x \<notin> BS_members e set2 \<and> x \<in> BS_members e set3 \<or> x \<in> BS_members e set4})"
  unfolding BS_3_2_Minus_4_Or_1_Or_D_def Let_def assms(1,2) Is_True_simps simp_thms bindE_Inr
  by (rule grow_members [where F = "\<lambda>w k. w OR ((NOT (word_at set2 k) AND word_at set3 k) OR word_at set4 k)"
        and P = "\<lambda>m. m set1 \<or> \<not> m set2 \<and> m set3 \<or> m set4"]) (simp_all add: assms word_loop_simps word_bits)

lemma BS_3_2_Minus_4_Or_5_Or_1_Or_D_ok:
  assumes "BS_word_count set2 = BS_word_count set5" and "BS_word_count set3 = BS_word_count set5" and "BS_word_count set4 = BS_word_count set5"
    and "BS_word_count set5 < 9223372036854775808"
  shows "\<exists>t. BS_3_2_Minus_4_Or_5_Or_1_Or_D set1 set2 set3 set4 set5 pool = Inr t \<and>
    BS_word_count t = grown_length set1 (BS_word_count set5) \<and>
    (\<forall>e. BS_members e t = {x. x \<in> BS_members e set1 \<or> x \<notin> BS_members e set2 \<and> x \<in> BS_members e set3 \<or> x \<in> BS_members e set4 \<or> x \<in> BS_members e set5})"
  unfolding BS_3_2_Minus_4_Or_5_Or_1_Or_D_def Let_def assms(1,2,3) Is_True_simps simp_thms bindE_Inr
  by (rule grow_members [where F = "\<lambda>w k. w OR ((NOT (word_at set2 k) AND word_at set3 k) OR word_at set4 k OR word_at set5 k)"
        and P = "\<lambda>m. m set1 \<or> \<not> m set2 \<and> m set3 \<or> m set4 \<or> m set5"]) (simp_all add: assms word_loop_simps word_bits)

lemma BS_2_3_Or_1_Or_D_ok:
  assumes "BS_word_count set3 = BS_word_count set2"
    and "BS_word_count set2 < 9223372036854775808"
  shows "\<exists>t. BS_2_3_Or_1_Or_D set1 set2 set3 pool = Inr t \<and>
    BS_word_count t = grown_length set1 (BS_word_count set2) \<and>
    (\<forall>e. BS_members e t = {x. x \<in> BS_members e set1 \<or> x \<in> BS_members e set2 \<or> x \<in> BS_members e set3})"
  unfolding BS_2_3_Or_1_Or_D_def Let_def assms(1) Is_True_simps simp_thms bindE_Inr
  by (rule grow_members [where F = "\<lambda>w k. w OR (word_at set2 k OR word_at set3 k)"
        and P = "\<lambda>m. m set1 \<or> m set2 \<or> m set3"]) (simp_all add: assms word_loop_simps word_bits)

lemma BS_3_Not_4_Or_2_And_1_Or_D_ok:
  assumes "BS_word_count set3 = BS_word_count set2" and "BS_word_count set4 = BS_word_count set2"
    and "BS_word_count set2 < 9223372036854775808"
  shows "\<exists>t. BS_3_Not_4_Or_2_And_1_Or_D set1 set2 set3 set4 pool = Inr t \<and>
    BS_word_count t = grown_length set1 (BS_word_count set2) \<and>
    (\<forall>e. BS_members e t = {x. x \<in> BS_members e set1 \<or> x \<in> BS_members e set2 \<and> (x \<notin> BS_members e set3 \<or> x \<in> BS_members e set4)})"
  unfolding BS_3_Not_4_Or_2_And_1_Or_D_def Let_def assms(1,2) Is_True_simps simp_thms bindE_Inr
  by (rule grow_members [where F = "\<lambda>w k. w OR (word_at set2 k AND (NOT (word_at set3 k) OR word_at set4 k))"
        and P = "\<lambda>m. m set1 \<or> m set2 \<and> (\<not> m set3 \<or> m set4)"]) (simp_all add: assms word_loop_simps word_bits)

lemma BS_2_3_Minus_1_Or_D_ok:
  assumes "BS_word_count set3 = BS_word_count set2"
    and "BS_word_count set2 < 9223372036854775808"
  shows "\<exists>t. BS_2_3_Minus_1_Or_D set1 set2 set3 pool = Inr t \<and>
    BS_word_count t = grown_length set1 (BS_word_count set2) \<and>
    (\<forall>e. BS_members e t = {x. x \<in> BS_members e set1 \<or> x \<in> BS_members e set2 \<and> x \<notin> BS_members e set3})"
  unfolding BS_2_3_Minus_1_Or_D_def Let_def assms(1) Is_True_simps simp_thms bindE_Inr
  by (rule grow_members [where F = "\<lambda>w k. w OR (word_at set2 k AND NOT (word_at set3 k))"
        and P = "\<lambda>m. m set1 \<or> m set2 \<and> \<not> m set3"]) (simp_all add: assms word_loop_simps word_bits)

lemma BS_2_3_Minus_4_Minus_1_Or_D_ok:
  assumes "BS_word_count set3 = BS_word_count set2" and "BS_word_count set4 = BS_word_count set2"
    and "BS_word_count set2 < 9223372036854775808"
  shows "\<exists>t. BS_2_3_Minus_4_Minus_1_Or_D set1 set2 set3 set4 pool = Inr t \<and>
    BS_word_count t = grown_length set1 (BS_word_count set2) \<and>
    (\<forall>e. BS_members e t = {x. x \<in> BS_members e set1 \<or> x \<in> BS_members e set2 \<and> x \<notin> BS_members e set3 \<and> x \<notin> BS_members e set4})"
  unfolding BS_2_3_Minus_4_Minus_1_Or_D_def Let_def assms(1,2) Is_True_simps simp_thms bindE_Inr
  by (rule grow_members [where F = "\<lambda>w k. w OR (word_at set2 k AND NOT (word_at set3 k) AND NOT (word_at set4 k))"
        and P = "\<lambda>m. m set1 \<or> m set2 \<and> \<not> m set3 \<and> \<not> m set4"]) (simp_all add: assms word_loop_simps word_bits)

lemma BS_4_3_Minus_2_Not_Or_1_And_D_ok:
  assumes "BS_word_count set3 = BS_word_count set2" and "BS_word_count set4 = BS_word_count set2"
    and "BS_word_count set2 < 9223372036854775808"
  shows "\<exists>t. BS_4_3_Minus_2_Not_Or_1_And_D set1 set2 set3 set4 pool = Inr t \<and>
    BS_word_count t = grown_length set1 (BS_word_count set2) \<and>
    (\<forall>e. BS_members e t = {x. x \<in> BS_members e set1 \<and> (x \<notin> BS_members e set2 \<or> x \<in> BS_members e set4 \<and> x \<notin> BS_members e set3)})"
  unfolding BS_4_3_Minus_2_Not_Or_1_And_D_def Let_def assms(1,2) Is_True_simps simp_thms bindE_Inr
  by (rule grow_members [where F = "\<lambda>w k. w AND (NOT (word_at set2 k) OR (word_at set4 k AND NOT (word_at set3 k)))"
        and P = "\<lambda>m. m set1 \<and> (\<not> m set2 \<or> m set4 \<and> \<not> m set3)"]) (simp_all add: assms word_loop_simps word_bits)

lemma BS_2_1_Minus_3_Or_R_ok:
  assumes "BS_word_count set1 = BS_word_count set3" and "BS_word_count set2 = BS_word_count set3"
    and "BS_word_count set3 < 9223372036854775808"
  shows "\<exists>t. BS_2_1_Minus_3_Or_R result set1 set2 set3 pool = Inr t \<and>
    BS_word_count t = grown_length result (BS_word_count set3) \<and>
    (\<forall>e. BS_members e t = {x. x \<notin> BS_members e set1 \<and> x \<in> BS_members e set2 \<or> x \<in> BS_members e set3} \<union>
      {x \<in> BS_members e result. 32 * BS_word_count set3 \<le> x})"
  unfolding BS_2_1_Minus_3_Or_R_def Let_def assms(1,2) Is_True_simps simp_thms bindE_Inr
  by (rule grow_replace [where g = "\<lambda>k. (NOT (word_at set1 k) AND word_at set2 k) OR word_at set3 k"
        and P = "\<lambda>m. \<not> m set1 \<and> m set2 \<or> m set3"]) (simp_all add: assms word_loop_simps word_bits)

lemma BS_2_1_Minus_3_Or_4_And_5_And_6_And_R_ok:
  assumes "BS_word_count set1 = BS_word_count set3" and "BS_word_count set2 = BS_word_count set3" and "BS_word_count set4 = BS_word_count set3" and "BS_word_count set5 = BS_word_count set3" and "BS_word_count set6 = BS_word_count set3"
    and "BS_word_count set3 < 9223372036854775808"
  shows "\<exists>t. BS_2_1_Minus_3_Or_4_And_5_And_6_And_R result set1 set2 set3 set4 set5 set6 pool = Inr t \<and>
    BS_word_count t = grown_length result (BS_word_count set3) \<and>
    (\<forall>e. BS_members e t = {x. (x \<notin> BS_members e set1 \<and> x \<in> BS_members e set2 \<or> x \<in> BS_members e set3) \<and> x \<in> BS_members e set4 \<and> x \<in> BS_members e set5 \<and> x \<in> BS_members e set6} \<union>
      {x \<in> BS_members e result. 32 * BS_word_count set3 \<le> x})"
  unfolding BS_2_1_Minus_3_Or_4_And_5_And_6_And_R_def Let_def assms(1,2,3,4,5) Is_True_simps simp_thms bindE_Inr
  by (rule grow_replace [where g = "\<lambda>k. ((NOT (word_at set1 k) AND word_at set2 k) OR word_at set3 k) AND word_at set4 k AND word_at set5 k AND word_at set6 k"
        and P = "\<lambda>m. (\<not> m set1 \<and> m set2 \<or> m set3) \<and> m set4 \<and> m set5 \<and> m set6"]) (simp_all add: assms word_loop_simps word_bits)

lemma BS_2_1_Minus_3_Or_4_And_R_ok:
  assumes "BS_word_count set1 = BS_word_count set3" and "BS_word_count set2 = BS_word_count set3" and "BS_word_count set4 = BS_word_count set3"
    and "BS_word_count set3 < 9223372036854775808"
  shows "\<exists>t. BS_2_1_Minus_3_Or_4_And_R result set1 set2 set3 set4 pool = Inr t \<and>
    BS_word_count t = grown_length result (BS_word_count set3) \<and>
    (\<forall>e. BS_members e t = {x. (x \<notin> BS_members e set1 \<and> x \<in> BS_members e set2 \<or> x \<in> BS_members e set3) \<and> x \<in> BS_members e set4} \<union>
      {x \<in> BS_members e result. 32 * BS_word_count set3 \<le> x})"
  unfolding BS_2_1_Minus_3_Or_4_And_R_def Let_def assms(1,2,3) Is_True_simps simp_thms bindE_Inr
  by (rule grow_replace [where g = "\<lambda>k. ((NOT (word_at set1 k) AND word_at set2 k) OR word_at set3 k) AND word_at set4 k"
        and P = "\<lambda>m. (\<not> m set1 \<and> m set2 \<or> m set3) \<and> m set4"]) (simp_all add: assms word_loop_simps word_bits)

lemma BS_1_Not_2_Or_3_Minus_4_And_R_ok:
  assumes "BS_word_count set1 = BS_word_count set2" and "BS_word_count set3 = BS_word_count set2" and "BS_word_count set4 = BS_word_count set2"
    and "BS_word_count set2 < 9223372036854775808"
  shows "\<exists>t. BS_1_Not_2_Or_3_Minus_4_And_R result set1 set2 set3 set4 pool = Inr t \<and>
    BS_word_count t = grown_length result (BS_word_count set2) \<and>
    (\<forall>e. BS_members e t = {x. (x \<notin> BS_members e set1 \<or> x \<in> BS_members e set2) \<and> x \<notin> BS_members e set3 \<and> x \<in> BS_members e set4} \<union>
      {x \<in> BS_members e result. 32 * BS_word_count set2 \<le> x})"
  unfolding BS_1_Not_2_Or_3_Minus_4_And_R_def Let_def assms(1,2,3) Is_True_simps simp_thms bindE_Inr
  by (rule grow_replace [where g = "\<lambda>k. (NOT (word_at set1 k) OR word_at set2 k) AND (NOT (word_at set3 k)) AND word_at set4 k"
        and P = "\<lambda>m. (\<not> m set1 \<or> m set2) \<and> \<not> m set3 \<and> m set4"]) (simp_all add: assms word_loop_simps word_bits)

lemma BS_1_2_Or_3_And_R_ok:
  assumes "BS_word_count set2 = BS_word_count set1" and "BS_word_count set3 = BS_word_count set1"
    and "BS_word_count set1 < 9223372036854775808"
  shows "\<exists>t. BS_1_2_Or_3_And_R result set1 set2 set3 pool = Inr t \<and>
    BS_word_count t = grown_length result (BS_word_count set1) \<and>
    (\<forall>e. BS_members e t = {x. (x \<in> BS_members e set1 \<or> x \<in> BS_members e set2) \<and> x \<in> BS_members e set3} \<union>
      {x \<in> BS_members e result. 32 * BS_word_count set1 \<le> x})"
  unfolding BS_1_2_Or_3_And_R_def Let_def assms(1,2) Is_True_simps simp_thms bindE_Inr
  by (rule grow_replace [where g = "\<lambda>k. (word_at set1 k OR word_at set2 k) AND word_at set3 k"
        and P = "\<lambda>m. (m set1 \<or> m set2) \<and> m set3"]) (simp_all add: assms word_loop_simps word_bits)

end

section \<open>Unions, intersections and differences\<close>

text \<open>Two loops in a row, over the words below \<open>m\<close> and then those from \<open>m\<close> to \<open>n\<close>.\<close>

lemma two_loops:
  assumes "0 \<le> m" and "m \<le> n" and "n \<le> int (length s)"
    and "\<And>i t. 0 \<le> i \<Longrightarrow> i < m \<Longrightarrow> length t = length s \<Longrightarrow> word_at t (nat i) = word_at s (nat i) \<Longrightarrow>
      b1 i t = Inr (t[nat i := f (nat i)])"
    and "\<And>i t. m \<le> i \<Longrightarrow> i < n \<Longrightarrow> length t = length s \<Longrightarrow> b2 i t = Inr (t[nat i := g (nat i)])"
  shows "\<exists>t. bindE (for_loop 0 m b1 s) (for_loop m n b2) = Inr t \<and> length t = length s \<and>
    (\<forall>k. word_at t k = (if int k < m then f k else if int k < n then g k else word_at s k))"
proof -
  have "for_loop 0 m b1 s = Inr (word_update 0 m f s)"
    by (rule for_loop_words) (use assms(1-3) in \<open>auto intro!: assms(4) simp: word_at_def\<close>)
  moreover have "for_loop m n b2 (word_update 0 m f s) = Inr (word_update m n g (word_update 0 m f s))"
    by (rule for_loop_words) (use assms in auto)
  ultimately show ?thesis using assms(1-3) by (auto simp: word_at_word_update)
qed

lemma two_loops_members:
  assumes "0 \<le> m" and "m \<le> n" and "n = BS_word_count s"
    and "\<And>i t. 0 \<le> i \<Longrightarrow> i < m \<Longrightarrow> length t = length s \<Longrightarrow> word_at t (nat i) = word_at s (nat i) \<Longrightarrow>
      b1 i t = Inr (t[nat i := f (nat i)])"
    and "\<And>i t. m \<le> i \<Longrightarrow> i < n \<Longrightarrow> length t = length s \<Longrightarrow> b2 i t = Inr (t[nat i := g (nat i)])"
    and "\<And>k b. b < 32 \<Longrightarrow> bit (if int k < m then f k else if int k < n then g k else 0) b
      \<longleftrightarrow> P (\<lambda>s. bit (word_at s k) b)"
    and "\<not> P (\<lambda>_. False)"
  shows "\<exists>t. bindE (for_loop 0 m b1 s) (for_loop m n b2) = Inr t \<and> BS_word_count t = n \<and>
    (\<forall>e. BS_members e t = {x. P (\<lambda>s. x \<in> BS_members e s)})"
proof -
  have "\<exists>t. bindE (for_loop 0 m b1 s) (for_loop m n b2) = Inr t \<and> length t = length s \<and>
    (\<forall>k. word_at t k = (if int k < m then f k else if int k < n then g k else word_at s k))"
    by (rule two_loops [OF assms(1,2) _ assms(4,5)]) (simp_all add: assms(3) BS_word_count_def)
  then obtain t where t: "bindE (for_loop 0 m b1 s) (for_loop m n b2) = Inr t" "length t = length s"
      "\<forall>k. word_at t k = (if int k < m then f k else if int k < n then g k else word_at s k)"
    by blast
  moreover have "BS_members e t = {x. P (\<lambda>s. x \<in> BS_members e s)}" for e
  proof (rule members_eqI)
    have "word_at t k = (if int k < m then f k else if int k < n then g k else 0)" for k
      using t(3) assms(2,3) by (simp add: word_at_beyond)
    then show "bit (word_at t k) b \<longleftrightarrow> P (\<lambda>s. bit (word_at s k) b)" if "b < 32" for k b
      using assms(6) [OF that, of k] by simp
  qed (rule assms(7))
  ultimately show ?thesis using assms(3) by (intro exI [of _ t]) (simp add: BS_word_count_def)
qed

lemma BS_IntersectionR_ok:
  assumes "min (BS_word_count set1) (BS_word_count set2) \<le> BS_word_count result"
  shows "\<exists>t. BS_IntersectionR result set1 set2 = Inr t \<and> BS_word_count t = BS_word_count result \<and>
    (\<forall>e. BS_members e t = {x. x \<in> BS_members e set1 \<and> x \<in> BS_members e set2})"
  unfolding BS_IntersectionR_def Let_def
  by (rule two_loops_members [where f = "\<lambda>k. word_at set1 k AND word_at set2 k" and g = "\<lambda>_. 0"
        and P = "\<lambda>m. m set1 \<and> m set2"])
    (use assms in \<open>auto simp: BS_word_at BS_set_word_def BS_word_count_def bs_ZEROS_def word_bits\<close>)

lemma BS_IntersectionD_ok:
  "\<exists>t. BS_IntersectionD set1 set2 = Inr t \<and> BS_word_count t = BS_word_count set1 \<and>
    (\<forall>e. BS_members e t = {x. x \<in> BS_members e set1 \<and> x \<in> BS_members e set2})"
  unfolding BS_IntersectionD_def Let_def
  by (rule two_loops_members [where f = "\<lambda>k. word_at set1 k AND word_at set2 k" and g = "\<lambda>_. 0"
        and P = "\<lambda>m. m set1 \<and> m set2"])
    (auto simp: BS_word_at BS_set_word_def BS_word_count_def bs_ZEROS_def word_bits)

lemma BS_DifferenceD_ok:
  "\<exists>t. BS_DifferenceD set1 set2 = Inr t \<and> BS_word_count t = BS_word_count set1 \<and>
    (\<forall>e. BS_members e t = BS_members e set1 - BS_members e set2)"
proof -
  let ?m = "min (BS_word_count set1) (BS_word_count set2)"
  let ?g = "\<lambda>k. word_at set1 k AND NOT (word_at set2 k)"
  have t: "BS_DifferenceD set1 set2 = Inr (word_update 0 ?m ?g set1)"
    unfolding BS_DifferenceD_def Let_def
    by (rule for_loop_words) (auto simp: BS_word_in BS_set_word_in BS_word_count_def word_at_def)
  have "BS_members e (word_update 0 ?m ?g set1)
      = {x. x \<in> BS_members e set1 \<and> x \<notin> BS_members e set2}" for e
    by (rule members_eqI [where P = "\<lambda>m. m set1 \<and> \<not> m set2"])
      (auto simp: word_at_word_update word_bits min_def BS_word_count_def)
  then show ?thesis using t by (auto simp: BS_word_count_def set_diff_eq)
qed

lemma byte_elt: "0 \<le> q \<Longrightarrow> y div 8 = q \<Longrightarrow> 8 * q + int (nat y mod 8) = y"
proof -
  assume q: "0 \<le> q" "y div 8 = q"
  then have "0 \<le> y div 8" by simp
  then have "0 \<le> y" by (simp add: pos_imp_zdiv_nonneg_iff)
  then show ?thesis using q(2) mult_div_mod_eq [of 8 y] by (simp add: nat_mod8)
qed

lemma BS_Difference1D_ok:
  assumes "0 \<le> x" and "x < 2147483648"
  shows "\<exists>t. BS_Difference1D e s x = Inr t \<and> BS_members e t = BS_members e s - {x} \<and>
    BS_word_count t = BS_word_count s"
proof (cases "x < 32 * int (length s)")
  case True
  let ?b = "ucast (ucast (byte_at e s (x div 8)) AND NOT (push_bit (nat (x mod 8)) bs_ONE)) :: BS_BYTE"
  let ?t = "s[nat (x div 8) div 4 := put_byte e (s ! (nat (x div 8) div 4)) (nat (x div 8) mod 4) ?b]"
  have r: "0 \<le> x div 8" "x div 8 < 4 * int (length s)" using assms True by auto
  have "y \<in> BS_members e ?t \<longleftrightarrow> y \<in> BS_members e s \<and> y \<noteq> x" for y
  proof -
    have "8 * (x div 8) + int (nat y mod 8) = y" if "y div 8 = x div 8"
      using byte_elt [OF r(1) that] .
    then show ?thesis
      unfolding members_set_byte [OF r] elt_eq_iff [OF assms(1)]
      using r by (auto simp: bit_masks bit_byte_at)
  qed
  then have mem: "BS_members e ?t = BS_members e s - {x}" by blast
  have "x div 32 < int (length s)" using True by simp
  then have "BS_Difference1D e s x = Inr ?t"
    using r assms by (simp add: BS_Difference1D_def bs_arith BS_word_count_def BS_byte_in BS_set_byte_in)
  with mem show ?thesis by (simp add: BS_word_count_def)
next
  case False
  then have "\<not> x div 32 < int (length s)" by simp
  moreover have "x \<notin> BS_members e s" using False members_less by blast
  ultimately show ?thesis using assms by (simp add: BS_Difference1D_def bs_arith BS_word_count_def)
qed

section \<open>Operations that allocate or grow\<close>

lemma BS_CopyD_room:
  assumes "BS_word_count set2 \<le> BS_word_count set1"
  shows "\<exists>t. BS_CopyD set1 set2 pool = Inr t \<and> BS_word_count t = BS_word_count set1 \<and>
    (\<forall>k. word_at t k = word_at set2 k)"
proof -
  let ?n = "BS_word_count set2" and ?z = "word_update (BS_word_count set2) (BS_word_count set1) (\<lambda>_. 0) set1"
  have "for_loop ?n (BS_word_count set1) (\<lambda>i s. BS_set_word s i bs_ZEROS) set1 = Inr ?z"
    by (rule for_loop_words) (auto simp: BS_word_count_def BS_set_word_in bs_ZEROS_def)
  moreover have "for_loop 0 ?n (\<lambda>i s. bindE (BS_word set2 i) (\<lambda>w. BS_set_word s i w)) ?z
      = Inr (word_update 0 ?n (word_at set2) ?z)"
    by (rule for_loop_words) (use assms in \<open>auto simp: BS_word_at BS_set_word_in BS_word_count_def\<close>)
  moreover have "word_at (word_update 0 ?n (word_at set2) ?z) k = word_at set2 k" for k
    using assms by (auto simp: word_at_word_update BS_word_count_def) (auto simp: word_at_def)
  ultimately show ?thesis
    using assms by (intro exI [of _ "word_update 0 ?n (word_at set2) ?z"]) (simp add: BS_CopyD_def BS_word_count_def Let_def)
qed

lemma BS_Union1D_core:
  assumes "0 \<le> x" and "x < 2147483648"
    and grow: "(if x div 32 + 1 > BS_word_count s then bs_Realloc s (x div 32 + 1) p else Inr s) = Inr t"
    and room: "x < 32 * int (length t)" and same: "\<forall>k. word_at t k = word_at s k"
  shows "\<exists>u. BS_Union1D e s x p = Inr u \<and> BS_members e u = insert x (BS_members e s) \<and> length u = length t"
proof -
  let ?b = "ucast (ucast (byte_at e t (x div 8)) OR push_bit (nat (x mod 8)) bs_ONE) :: BS_BYTE"
  let ?u = "t[nat (x div 8) div 4 := put_byte e (t ! (nat (x div 8) div 4)) (nat (x div 8) mod 4) ?b]"
  have r: "0 \<le> x div 8" "x div 8 < 4 * int (length t)" using assms(1) room by auto
  have mem: "BS_members e t = BS_members e s" using same by (intro members_cong) simp
  have "y \<in> BS_members e ?u \<longleftrightarrow> y = x \<or> y \<in> BS_members e s" for y
  proof -
    have "8 * (x div 8) + int (nat y mod 8) = y" if "y div 8 = x div 8"
      using byte_elt [OF r(1) that] .
    then show ?thesis
      unfolding members_set_byte [OF r] elt_eq_iff [OF assms(1)] mem [symmetric]
      using r by (auto simp: bit_masks bit_byte_at)
  qed
  with r assms show ?thesis
    by (simp add: BS_Union1D_def bs_arith Let_def BS_byte_in BS_set_byte_in set_eq_iff)
qed

context bs_pool
begin

lemma alloc_members:
  assumes "0 \<le> n"
    and "\<And>i t. 0 \<le> i \<Longrightarrow> i < n \<Longrightarrow> int (length t) = n \<Longrightarrow> body i t = Inr (t[nat i := g (nat i)])"
    and "\<And>k b. b < 32 \<Longrightarrow> bit (if int k < n then g k else 0) b \<longleftrightarrow> P (\<lambda>s. bit (word_at s k) b)"
    and "\<not> P (\<lambda>_. False)"
  shows "\<exists>t. bindE (bs_Malloc n pool) (for_loop 0 n body) = Inr t \<and> BS_word_count t = n \<and>
    (\<forall>e. BS_members e t = {x. P (\<lambda>s. x \<in> BS_members e s)})"
proof -
  obtain t where t: "bindE (bs_Malloc n pool) (for_loop 0 n body) = Inr t" "BS_word_count t = n"
      "\<forall>k. word_at t k = (if int k < n then g k else 0)"
    using alloc_update [OF assms(1,2)] by blast
  with assms(3,4) have "BS_members e t = {x. P (\<lambda>s. x \<in> BS_members e s)}" for e
    by (intro members_eqI) auto
  with t(1,2) show ?thesis by blast
qed

lemma BS_Copy_ok:
  "\<exists>t. BS_Copy s pool = Inr t \<and> BS_word_count t = BS_word_count s \<and> (\<forall>e. BS_members e t = BS_members e s)"
proof -
  have "\<exists>t. BS_Copy s pool = Inr t \<and> BS_word_count t = BS_word_count s \<and>
      (\<forall>e. BS_members e t = {x. x \<in> BS_members e s})"
    unfolding BS_Copy_def Let_def
    by (rule alloc_members [where g = "word_at s" and P = "\<lambda>m. m s"])
      (simp_all add: BS_word_at BS_set_word_in word_bits)
  then show ?thesis by simp
qed

lemma BS_CopyD_ok:
  assumes "BS_word_count set2 < 9223372036854775808"
  shows "\<exists>t. BS_CopyD set1 set2 pool = Inr t \<and> BS_word_count t = grown_length set1 (BS_word_count set2) \<and>
    (\<forall>e. BS_members e t = BS_members e set2)"
proof (cases "BS_word_count set1 < BS_word_count set2")
  case True
  obtain t where t: "bindE (if BS_word_count set1 < BS_word_count set2 then bs_Realloc set1 (BS_word_count set2) pool
        else Inr set1) (for_loop 0 (BS_word_count set2) (\<lambda>i s. bindE (BS_word set2 i) (\<lambda>w. BS_set_word s i w))) = Inr t"
      "BS_word_count t = grown_length set1 (BS_word_count set2)"
      "\<forall>k. word_at t k = (if int k < BS_word_count set2 then word_at set2 k else word_at set1 k)"
    using grow_update [of "BS_word_count set2" "\<lambda>i s. bindE (BS_word set2 i) (\<lambda>w. BS_set_word s i w)"
      "\<lambda>_. word_at set2" set1] assms by (auto simp: word_loop_simps)
  have "word_at t k = word_at set2 k" for k
    using t(3) True word_at_beyond [of k set1] word_at_beyond [of k set2] by simp
  then have "BS_members e t = BS_members e set2" for e by (rule members_cong)
  with t(1,2) True show ?thesis by (simp add: BS_CopyD_def)
next
  case False
  then obtain t where t: "BS_CopyD set1 set2 pool = Inr t" "BS_word_count t = BS_word_count set1"
      "\<forall>k. word_at t k = word_at set2 k"
    using BS_CopyD_room [of set2 set1 pool] by auto
  then have "BS_members e t = BS_members e set2" for e by (intro members_cong) simp
  with t False show ?thesis by (auto simp: grown_length_def)
qed

lemma BS_Intersection_ok:
  "\<exists>t. BS_Intersection set1 set2 pool = Inr t \<and> BS_word_count t = min (BS_word_count set1) (BS_word_count set2) \<and>
    (\<forall>e. BS_members e t = {x. x \<in> BS_members e set1 \<and> x \<in> BS_members e set2})"
proof -
  have "(if BS_word_count set1 < BS_word_count set2 then BS_word_count set1 else BS_word_count set2)
      = min (BS_word_count set1) (BS_word_count set2)" by simp
  then show ?thesis
    unfolding BS_Intersection_def Let_def
    by (simp only:) (rule alloc_members [where g = "\<lambda>k. word_at set1 k AND word_at set2 k"
        and P = "\<lambda>m. m set1 \<and> m set2"], auto simp: BS_word_at BS_set_word_in word_bits)
qed

lemma BS_UnionD_ok:
  assumes "BS_word_count set2 < 9223372036854775808"
  shows "\<exists>t. BS_UnionD set1 set2 pool = Inr t \<and>
    BS_word_count t = grown_length set1 (BS_word_count set2) \<and>
    (\<forall>e. BS_members e t = {x. x \<in> BS_members e set1 \<or> x \<in> BS_members e set2})"
  unfolding BS_UnionD_def Let_def
  by (rule grow_members [where F = "\<lambda>w k. w OR word_at set2 k" and P = "\<lambda>m. m set1 \<or> m set2"])
    (simp_all add: assms word_loop_simps word_bits)

lemma BS_UnionD_Intersection_ok:
  assumes "min (BS_word_count set2) (BS_word_count set3) < 9223372036854775808"
  shows "\<exists>t. BS_UnionD_Intersection set1 set2 set3 pool = Inr t \<and>
    BS_word_count t = grown_length set1 (min (BS_word_count set2) (BS_word_count set3)) \<and>
    (\<forall>e. BS_members e t = {x. x \<in> BS_members e set1 \<or> x \<in> BS_members e set2 \<and> x \<in> BS_members e set3})"
  unfolding BS_UnionD_Intersection_def Let_def
  by (rule grow_members [where F = "\<lambda>w k. w OR (word_at set2 k AND word_at set3 k)"
        and P = "\<lambda>m. m set1 \<or> m set2 \<and> m set3"])
    (use assms in \<open>auto simp: BS_word_at BS_word_in BS_set_word_in word_bits min_le_iff_disj\<close>)

lemma BS_2_3_And_1_Or_D_ok:
  assumes "min (BS_word_count set2) (BS_word_count set3) < 9223372036854775808"
  shows "\<exists>t. BS_2_3_And_1_Or_D set1 set2 set3 pool = Inr t \<and>
    BS_word_count t = grown_length set1 (min (BS_word_count set2) (BS_word_count set3)) \<and>
    (\<forall>e. BS_members e t = {x. x \<in> BS_members e set1 \<or> x \<in> BS_members e set2 \<and> x \<in> BS_members e set3})"
  using BS_UnionD_Intersection_ok [OF assms, of set1]
  by (simp only: BS_UnionD_Intersection_def BS_2_3_And_1_Or_D_def)

lemma alloc_two_loops:
  assumes "0 \<le> m" and "m \<le> n"
    and "\<And>i t. 0 \<le> i \<Longrightarrow> i < m \<Longrightarrow> int (length t) = n \<Longrightarrow> b1 i t = Inr (t[nat i := f (nat i)])"
    and "\<And>i t. 0 \<le> i \<Longrightarrow> m \<le> i \<Longrightarrow> i < n \<Longrightarrow> int (length t) = n \<Longrightarrow> b2 i t = Inr (t[nat i := g (nat i)])"
    and "\<And>k b. b < 32 \<Longrightarrow> bit (if int k < m then f k else if int k < n then g k else 0) b
      \<longleftrightarrow> P (\<lambda>s. bit (word_at s k) b)"
    and "\<not> P (\<lambda>_. False)"
  shows "\<exists>t. bindE (bs_Malloc n pool) (\<lambda>s. bindE (for_loop 0 m b1 s) (for_loop m n b2)) = Inr t \<and>
    BS_word_count t = n \<and> (\<forall>e. BS_members e t = {x. P (\<lambda>s. x \<in> BS_members e s)})"
proof -
  let ?s = "MEM_POOL_Alloc pool (nat n)"
  have len: "int (length ?s) = n" using assms(1,2) by (simp add: alloc_length)
  have "\<exists>t. bindE (for_loop 0 m b1 ?s) (for_loop m n b2) = Inr t \<and>
      BS_word_count t = n \<and> (\<forall>e. BS_members e t = {x. P (\<lambda>s. x \<in> BS_members e s)})"
    by (rule two_loops_members [OF assms(1,2) _ _ _ assms(5,6)])
      (use len assms(1,3,4) in \<open>simp_all add: BS_word_count_def\<close>)
  then show ?thesis by (simp add: bs_Malloc_ok)
qed

lemma BS_Difference_ok:
  "\<exists>t. BS_Difference set1 set2 pool = Inr t \<and> BS_word_count t = BS_word_count set1 \<and>
    (\<forall>e. BS_members e t = {x. x \<in> BS_members e set1 \<and> x \<notin> BS_members e set2})"
  unfolding BS_Difference_def Let_def
  by (rule alloc_two_loops [where f = "\<lambda>k. word_at set1 k AND NOT (word_at set2 k)" and g = "word_at set1"
        and P = "\<lambda>m. m set1 \<and> \<not> m set2"]) (auto simp: BS_word_at BS_set_word_in word_bits)

lemma BS_Union_ok:
  "\<exists>t. BS_Union set1 set2 pool = Inr t \<and> BS_word_count t = max (BS_word_count set1) (BS_word_count set2) \<and>
    (\<forall>e. BS_members e t = {x. x \<in> BS_members e set1 \<or> x \<in> BS_members e set2})"
proof -
  have *: "\<exists>t. bindE (bs_Malloc (BS_word_count s) pool) (\<lambda>u. bindE (for_loop 0 (BS_word_count s') (\<lambda>i u.
               bindE (BS_word s i) (\<lambda>w1. bindE (BS_word s' i) (\<lambda>w2. BS_set_word u i (w1 OR w2)))) u)
      (for_loop (BS_word_count s') (BS_word_count s) (\<lambda>i u. bindE (BS_word s i) (\<lambda>w1. BS_set_word u i w1)))) = Inr t \<and>
      BS_word_count t = BS_word_count s \<and>
      (\<forall>e. BS_members e t = {x. x \<in> BS_members e s \<or> x \<in> BS_members e s'})"
    if "BS_word_count s' \<le> BS_word_count s" for s s'
    by (rule alloc_two_loops [where f = "\<lambda>k. word_at s k OR word_at s' k" and g = "word_at s"
        and P = "\<lambda>m. m s \<or> m s'"]) (use that in \<open>auto simp: BS_word_at BS_set_word_in word_bits\<close>)
  show ?thesis
  proof (cases "BS_word_count set1 < BS_word_count set2")
    case True
    then show ?thesis using * [of set1 set2] by (simp add: BS_Union_def Let_def disj_commute)
  next
    case False
    then show ?thesis using * [of set2 set1] by (simp add: BS_Union_def Let_def)
  qed
qed

lemma BS_Union1D_ok:
  assumes "0 \<le> x" and "x < 2147483648"
  shows "\<exists>u. BS_Union1D e s x pool = Inr u \<and> BS_members e u = insert x (BS_members e s) \<and>
    BS_word_count u = grown_length s (x div 32 + 1)"
proof -
  obtain t where t: "(if x div 32 + 1 > BS_word_count s then bs_Realloc s (x div 32 + 1) pool else Inr s) = Inr t"
      "BS_word_count t = grown_length s (x div 32 + 1)" "\<forall>k. word_at t k = word_at s k" "x < 32 * int (length t)"
    using grow_elt [OF assms, of s] unfolding zle_add1_eq_le [symmetric] by blast
  then obtain u where "BS_Union1D e s x pool = Inr u" "BS_members e u = insert x (BS_members e s)" "length u = length t"
    using BS_Union1D_core [OF assms t(1,4,3)] by blast
  then show ?thesis using t(2) by (simp add: BS_word_count_def)
qed

lemma BS_Difference1_ok:
  assumes "0 \<le> x" and "x < 2147483648"
  shows "\<exists>t. BS_Difference1 e s x pool = Inr t \<and> BS_members e t = BS_members e s - {x} \<and>
    BS_word_count t = BS_word_count s"
proof -
  obtain c where c: "BS_Copy s pool = Inr c" "BS_word_count c = BS_word_count s" "\<forall>e. BS_members e c = BS_members e s"
    using BS_Copy_ok by blast
  then show ?thesis using BS_Difference1D_ok [OF assms, of e c] by (auto simp: BS_Difference1_def)
qed

text \<open>\<^verbatim>\<open>BS_Union1\<close> allocates a set that holds both the old words and the new element.\<close>

lemma BS_Union1_ok:
  assumes "0 \<le> x" and "x < 2147483647" and "bs_ok s"
  shows "\<exists>u. BS_Union1 e s x pool = Inr u \<and> BS_members e u = insert x (BS_members e s) \<and>
    BS_word_count u = max (BS_word_count s) (x div 32 + 1)"
proof -
  define n where "n = (if BS_word_count s > x div 32 + 1 then 32 * BS_word_count s else x + 1)"
  define z where "z = (replicate (nat ((n + 31) div 32)) 0 :: BS)"
  have mac: "bs_QBPW x = x div 32" "(x div 32 + 1) mod 2 ^ 32 = x div 32 + 1"
    "bs_PBPW (BS_word_count s) = 32 * BS_word_count s" "s32 (x + 1) = x + 1"
    using assms by (simp_all add: bs_arith bs_ok_def s32_id)
  have n: "0 \<le> n" "n < 2147483648" "(n + 31) div 32 = max (BS_word_count s) (x div 32 + 1)"
    using assms by (auto simp: bs_ok_def n_def)
  then have wz: "BS_word_count z = max (BS_word_count s) (x div 32 + 1)"
    unfolding z_def BS_word_count_def length_replicate by (simp add: le_max_iff_disj)
  obtain c where c: "BS_CopyD z s bad_pool = Inr c" "BS_word_count c = max (BS_word_count s) (x div 32 + 1)"
      "\<forall>k. word_at c k = word_at s k"
    using BS_CopyD_room [of s z bad_pool] wz by auto
  have room: "x div 32 + 1 \<le> BS_word_count c" unfolding c(2) by simp
  then have "x < 32 * int (length c)" unfolding BS_word_count_def by linarith
  then obtain u where u: "BS_Union1D e c x bad_pool = Inr u" "BS_members e u = insert x (BS_members e c)"
      "length u = length c"
    using BS_Union1D_core [of x c bad_pool c e] assms(1,2) room by auto
  have "BS_members e c = BS_members e s" using c(3) by (intro members_cong) simp
  moreover have "BS_Create_Empty n pool = Inr z" using n unfolding z_def by (intro BS_Create_Empty_ok)
  moreover from this have "BS_Union1 e s x pool = Inr u"
    unfolding BS_Union1_def mac Let_def n_def [symmetric] by (simp only: bindE_Inr c(1) u(1))
  ultimately show ?thesis
    using u c(2) by (intro exI [of _ u]) (simp add: BS_word_count_def)
qed

text \<open>\<^verbatim>\<open>BS_ResizeD\<close> changes the room, not the elements.\<close>

lemma BS_ResizeD_ok:
  assumes "0 \<le> n" and "n < 2147483648"
  shows "\<exists>t. BS_ResizeD s n pool = Inr t \<and> n \<le> 32 * BS_word_count t \<and>
    BS_word_count t = grown_length s ((n + 31) div 32) \<and> (\<forall>e. BS_members e t = BS_members e s)"
proof -
  let ?w = "(n + 31) div 32"
  have w: "0 \<le> ?w" "?w < 9223372036854775808" "bs_QBPW (n + 31) = ?w" "?w mod 4294967296 = ?w"
    using assms by (simp_all add: bs_arith)
  obtain t where t: "(if BS_word_count s < ?w then bs_Realloc s ?w pool else Inr s) = Inr t"
      "BS_word_count t = grown_length s ?w" "\<forall>k. word_at t k = word_at s k"
    using grow_ok [OF w(1,2), of s] by blast
  then have "BS_members e t = BS_members e s" for e by (intro members_cong) simp
  moreover have "n \<le> 32 * BS_word_count t"
    using grown_length_ge(1) [of ?w s] t(2) by linarith
  ultimately show ?thesis
    using t(1,2) by (intro exI [of _ t]) (simp add: BS_ResizeD_def bs_consts Let_def w(3,4))
qed

end

context bs_pool
begin

text \<open>
  The replacing union reads both operands up to the larger word count: it is right on operands of
  one size and reads beyond the smaller operand otherwise.
\<close>

lemma BS_UnionR_ok:
  assumes "BS_word_count set2 = BS_word_count set1" and "BS_word_count set1 < 9223372036854775808"
  shows "\<exists>t. BS_UnionR result set1 set2 pool = Inr t \<and>
    BS_word_count t = grown_length result (BS_word_count set1) \<and>
    (\<forall>e. BS_members e t = {x. x \<in> BS_members e set1 \<or> x \<in> BS_members e set2} \<union>
      {x \<in> BS_members e result. 32 * BS_word_count set1 \<le> x})"
  unfolding BS_UnionR_def Let_def assms(1) max.idem
  by (rule grow_replace [where g = "\<lambda>k. word_at set1 k OR word_at set2 k"
        and P = "\<lambda>m. m set1 \<or> m set2"]) (simp_all add: assms word_loop_simps word_bits)

lemma BS_UnionR_mismatch:
  assumes "BS_word_count set1 \<noteq> BS_word_count set2"
    and "max (BS_word_count set1) (BS_word_count set2) < 9223372036854775808"
  shows "BS_UnionR result set1 set2 pool = Inl Out_Of_Bounds"
proof -
  let ?n = "max (BS_word_count set1) (BS_word_count set2)"
  have "0 \<le> ?n" by (simp add: BS_word_count_def)
  then obtain t where t: "(if BS_word_count result < ?n then bs_Realloc result ?n pool else Inr result) = Inr t"
      "BS_word_count t = grown_length result ?n"
    using grow_ok [OF _ assms(2), of result] by auto
  have "for_loop 0 ?n (\<lambda>i s. bindE (BS_word set1 i) (\<lambda>w1. bindE (BS_word set2 i) (\<lambda>w2.
      BS_set_word s i (w1 OR w2)))) t = Inl Out_Of_Bounds"
    by (rule for_loop_fails [where m = "min (BS_word_count set1) (BS_word_count set2)"
          and I = "\<lambda>s. BS_word_count s = BS_word_count t"])
      (use assms(1) grown_length_ge(1) [of ?n result] t(2) in
        \<open>auto simp: BS_word_def BS_set_word_def BS_word_count_def\<close>)
  then show ?thesis unfolding BS_UnionR_def Let_def t(1) by simp
qed

end

end
