(* ===== verification/Bitset_Tests.thy ===== *)
theory Bitset_Tests
  imports Bitset_Algebra
begin

unbundle bit_operations_syntax

text \<open>
  The observers of \<^verbatim>\<open>common/util/bitset.c\<close> that return a truth value or a count: containment,
  emptiness, equality, intersection, membership, cardinality, and the checked forms of the
  fixed-size sets. Each is proved to compute the set-theoretic notion, in both byte orders.
\<close>

section \<open>Cardinality\<close>

definition BS_Size :: "endian \<Rightarrow> BS \<Rightarrow> BS_ELT res" where
  "BS_Size e bs =
     (let byte_count = s32 (BS_word_count bs * BYTES_PER_BS_WORD) in
      bindE (for_loop 0 byte_count (\<lambda>i result.
               bindE (BS_byte e bs i) (\<lambda>b. Inr ((result + bit_count b) mod 2 ^ 64))) 0) (\<lambda>result.
      Inr (s32 result)))"

section \<open>Predicates\<close>

definition BS_ContainsP :: "BS \<Rightarrow> BS \<Rightarrow> bool res" where
  "BS_ContainsP set1 set2 =
     (let minsize = (if BS_word_count set1 < BS_word_count set2
                     then BS_word_count set1 else BS_word_count set2) in
      returnE (for_find 0 minsize (\<lambda>i.
        bindE (BS_word set1 i) (\<lambda>w1. bindE (BS_word set2 i) (\<lambda>w2.
        Inr (if w1 \<noteq> w1 OR w2 then Some False else None)))))
      (returnE (for_find minsize (BS_word_count set2) (\<lambda>i.
        bindE (BS_word set2 i) (\<lambda>w2. Inr (if w2 \<noteq> bs_ZEROS then Some False else None))))
      (Inr True)))"

definition BS_EmptyP :: "BS \<Rightarrow> bool res" where
  "BS_EmptyP bs =
     returnE (for_find 0 (BS_word_count bs) (\<lambda>i.
       bindE (BS_word bs i) (\<lambda>w. Inr (if w \<noteq> bs_ZEROS then Some False else None))))
     (Inr True)"

definition BS_EqualP :: "BS \<Rightarrow> BS \<Rightarrow> bool res" where
  "BS_EqualP set1_arg set2_arg =
     (let (set1, set2) = (if BS_word_count set1_arg > BS_word_count set2_arg
                          then (set2_arg, set1_arg) else (set1_arg, set2_arg)) in
      returnE (for_find 0 (BS_word_count set1) (\<lambda>i.
        bindE (BS_word set1 i) (\<lambda>w1. bindE (BS_word set2 i) (\<lambda>w2.
        Inr (if w1 \<noteq> w2 then Some False else None)))))
      (returnE (for_find (BS_word_count set1) (BS_word_count set2) (\<lambda>i.
        bindE (BS_word set2 i) (\<lambda>w2. Inr (if w2 \<noteq> bs_ZEROS then Some False else None))))
      (Inr True)))"

definition BS_IntersectsP :: "BS \<Rightarrow> BS \<Rightarrow> bool res" where
  "BS_IntersectsP set1 set2 =
     (let minsize = (if BS_word_count set1 < BS_word_count set2
                     then BS_word_count set1 else BS_word_count set2) in
      returnE (for_find 0 minsize (\<lambda>i.
        bindE (BS_word set1 i) (\<lambda>w1. bindE (BS_word set2 i) (\<lambda>w2.
        Inr (if w1 AND w2 \<noteq> bs_ZEROS then Some True else None)))))
      (Inr False))"

definition BS_MemberP :: "endian \<Rightarrow> BS \<Rightarrow> BS_ELT \<Rightarrow> bool res" where
  "BS_MemberP e bs x =
     bindE (Is_True (x \<ge> 0)) (\<lambda>_.
     if bs_QBPW x \<ge> BS_word_count bs then Inr False
     else bindE (BS_byte e bs (bs_QBPB x)) (\<lambda>b.
          Inr (ucast b AND push_bit (nat (bs_RBPB x)) bs_ONE \<noteq> bs_ZEROS)))"

definition BS_Intersection_MemberP :: "endian \<Rightarrow> BS \<Rightarrow> BS \<Rightarrow> BS_ELT \<Rightarrow> bool res" where
  "BS_Intersection_MemberP e set1 set2 x =
     bindE (Is_True (x \<ge> 0)) (\<lambda>_.
     if bs_QBPW x \<ge> BS_word_count set1 \<or> bs_QBPW x \<ge> BS_word_count set2 then Inr False
     else bindE (BS_byte e set1 (bs_QBPB x)) (\<lambda>b1.
          bindE (BS_byte e set2 (bs_QBPB x)) (\<lambda>b2.
          Inr (ucast (b1 AND b2) AND push_bit (nat (bs_RBPB x)) bs_ONE \<noteq> bs_ZEROS))))"

section \<open>Fixed-size sets\<close>

definition FBS_MemberP_Validate :: "endian \<Rightarrow> BS \<Rightarrow> BS_ELT \<Rightarrow> bool res" where
  "FBS_MemberP_Validate e bs x =
     bindE (Is_True (x \<ge> 0)) (\<lambda>_.
     bindE (Is_True (bs_QBPW x < BS_word_count bs)) (\<lambda>_.
     bindE (BS_byte e bs (bs_QBPB x)) (\<lambda>b.
     Inr (ucast b AND push_bit (nat (bs_RBPB x)) bs_ONE \<noteq> bs_ZEROS))))"

definition FBS_Union1D_Validate :: "endian \<Rightarrow> BS \<Rightarrow> BS_ELT \<Rightarrow> BS res" where
  "FBS_Union1D_Validate e bs x =
     (let minsize = bs_QBPW x + 1 in
      bindE (Is_True (x \<ge> 0)) (\<lambda>_.
      bindE (Is_True (minsize \<le> BS_word_count bs)) (\<lambda>_.
      bindE (BS_byte e bs (bs_QBPB x)) (\<lambda>b.
      BS_set_byte e bs (bs_QBPB x) (ucast (ucast b OR push_bit (nat (bs_RBPB x)) bs_ONE))))))"

section \<open>Sets and words determine each other\<close>

text \<open>
  Every bit of a word is the place of an element, so a condition holds of the membership of
  every integer exactly if it holds of every bit of every word.
\<close>

lemma byte_lane_byte_lane [simp]: "j < 4 \<Longrightarrow> byte_lane e (byte_lane e j) = j"
  by (cases e) auto

lemma bit_lane_bit_lane [simp]: "r < 32 \<Longrightarrow> bit_lane e (bit_lane e r) = r"
proof -
  assume r: "r < 32"
  have "bit_lane e r div 8 = byte_lane e (r div 8)" "bit_lane e r mod 8 = r mod 8"
    by (simp_all add: bit_lane_def)
  moreover have "r div 8 < 4" using r by simp
  ultimately show ?thesis by (simp add: bit_lane_def [of e "bit_lane e r"])
qed

lemma elt_of_bit:
  assumes "b < 32"
  shows "\<exists>x. 0 \<le> x \<and> (\<forall>s. x \<in> BS_members e s \<longleftrightarrow> bit (word_at s k) b)"
proof (intro exI conjI allI)
  let ?x = "int (32 * k + bit_lane e b)"
  show "0 \<le> ?x" by simp
  have "nat ?x div 32 = k" "nat ?x mod 32 = bit_lane e b"
    unfolding nat_int using bit_lane_less [OF assms, of e] by simp_all
  then show "?x \<in> BS_members e s \<longleftrightarrow> bit (word_at s k) b" for s
    using assms by (simp add: members_iff)
qed

lemma all_members:
  assumes "P (\<lambda>_. False)"
  shows "(\<forall>x. P (\<lambda>s. x \<in> BS_members e s)) \<longleftrightarrow> (\<forall>k. \<forall>b < 32. P (\<lambda>s. bit (word_at s k) b))"
proof (intro iffI allI impI)
  fix k and b :: nat
  assume all: "\<forall>x. P (\<lambda>s. x \<in> BS_members e s)" and b: "b < 32"
  then obtain x where "\<And>s. x \<in> BS_members e s \<longleftrightarrow> bit (word_at s k) b"
    using elt_of_bit by metis
  then show "P (\<lambda>s. bit (word_at s k) b)" using all [rule_format, of x] by simp
next
  fix x
  assume "\<forall>k. \<forall>b < 32. P (\<lambda>s. bit (word_at s k) b)"
  then show "P (\<lambda>s. x \<in> BS_members e s)"
    using assms bit_lane_less [of "nat x mod 32" e] by (cases "0 \<le> x") (simp_all add: members_iff)
qed

lemma word_eq_iff_bits: "(v :: BS_WORD) = w \<longleftrightarrow> (\<forall>b < 32. bit v b \<longleftrightarrow> bit w b)"
  by (auto intro: bit_word_eqI)

lemma members_subset_iff:
  "BS_members e s \<subseteq> BS_members e t \<longleftrightarrow> (\<forall>k. word_at t k = word_at t k OR word_at s k)"
  using all_members [of "\<lambda>m. m s \<longrightarrow> m t" e] by (auto simp: word_eq_iff_bits bit_or_iff)

lemma members_eq_iff: "BS_members e s = BS_members e t \<longleftrightarrow> (\<forall>k. word_at s k = word_at t k)"
  using all_members [of "\<lambda>m. m s \<longleftrightarrow> m t" e] by (simp add: word_eq_iff_bits set_eq_iff)

lemma members_disjoint_iff:
  "BS_members e s \<inter> BS_members e t = {} \<longleftrightarrow> (\<forall>k. word_at s k AND word_at t k = 0)"
  using all_members [of "\<lambda>m. \<not> (m s \<and> m t)" e] by (simp add: word_eq_iff_bits bit_and_iff disjoint_iff)

lemma members_empty_iff: "BS_members e s = {} \<longleftrightarrow> (\<forall>k. word_at s k = 0)"
  using members_disjoint_iff [of e s s] by simp

lemma all_words_iff:
  assumes "\<And>k. \<not> int k < n \<Longrightarrow> c k" and "0 \<le> n"
  shows "(\<forall>k. c k) \<longleftrightarrow> \<not> (\<exists>i. 0 \<le> i \<and> i < n \<and> \<not> c (nat i))"
  using assms by (metis int_eq_iff nat_int of_nat_0_le_iff)

section \<open>The predicates compute the set relations\<close>

lemma BS_EmptyP_ok: "BS_EmptyP s = Inr (BS_members e s = {})"
proof -
  have "for_find 0 (BS_word_count s) (\<lambda>i. bindE (BS_word s i) (\<lambda>w. Inr (if w \<noteq> bs_ZEROS then Some False else None)))
      = Inr (if \<exists>i. 0 \<le> i \<and> i < BS_word_count s \<and> word_at s (nat i) \<noteq> 0 then Some False else None)"
    by (rule for_find_test) (simp add: BS_word_at bs_ZEROS_def)
  moreover have "BS_members e s = {} \<longleftrightarrow>
      \<not> (\<exists>i. 0 \<le> i \<and> i < BS_word_count s \<and> word_at s (nat i) \<noteq> 0)"
    unfolding members_empty_iff by (rule all_words_iff) (simp_all add: word_at_beyond)
  ultimately show ?thesis unfolding BS_EmptyP_def by (simp only: returnE_if decide_simps simp_thms)
qed

text \<open>The second loop of \<^verbatim>\<open>BS_ContainsP\<close> and \<^verbatim>\<open>BS_EqualP\<close>: is the rest of a set empty?\<close>

lemma rest_test:
  assumes "0 \<le> n"
  shows "for_find n (BS_word_count s) (\<lambda>i. bindE (BS_word s i) (\<lambda>w. Inr (if w \<noteq> bs_ZEROS then Some False else None)))
    = Inr (if \<exists>i. n \<le> i \<and> i < BS_word_count s \<and> word_at s (nat i) \<noteq> 0 then Some False else None)"
  by (rule for_find_test) (use assms in \<open>simp add: BS_word_at bs_ZEROS_def\<close>)

lemma two_tests:
  assumes "0 \<le> m" and "m \<le> n" and "\<And>k. \<not> int k < n \<Longrightarrow> d k"
    and "\<And>k. int k < m \<Longrightarrow> d k \<longleftrightarrow> a k" and "\<And>k. m \<le> int k \<Longrightarrow> int k < n \<Longrightarrow> d k \<longleftrightarrow> b k"
  shows "(\<forall>k. d k) \<longleftrightarrow>
    \<not> (\<exists>i. 0 \<le> i \<and> i < m \<and> \<not> a (nat i)) \<and> \<not> (\<exists>i. m \<le> i \<and> i < n \<and> \<not> b (nat i))"
proof (intro iffI conjI notI allI)
  fix k
  assume *: "\<not> (\<exists>i. 0 \<le> i \<and> i < m \<and> \<not> a (nat i)) \<and> \<not> (\<exists>i. m \<le> i \<and> i < n \<and> \<not> b (nat i))"
  have "a k" if "int k < m" using * that by (metis nat_int of_nat_0_le_iff)
  moreover have "b k" if "m \<le> int k" "int k < n" using * that by (metis nat_int)
  ultimately show "d k" using assms(3-5) [of k] by linarith
next
  assume "\<forall>k. d k" and "\<exists>i. 0 \<le> i \<and> i < m \<and> \<not> a (nat i)"
  then show False using assms(4) by auto
next
  assume "\<forall>k. d k" and "\<exists>i. m \<le> i \<and> i < n \<and> \<not> b (nat i)"
  then obtain i where i: "m \<le> i" "i < n" "\<not> b (nat i)" by blast
  then have "int (nat i) = i" using assms(1) by simp
  with i assms(5) [of "nat i"] \<open>\<forall>k. d k\<close> show False by simp
qed

lemma BS_ContainsP_ok: "BS_ContainsP set1 set2 = Inr (BS_members e set2 \<subseteq> BS_members e set1)"
proof -
  let ?m = "min (BS_word_count set1) (BS_word_count set2)"
  have m: "(if BS_word_count set1 < BS_word_count set2 then BS_word_count set1 else BS_word_count set2) = ?m"
    by simp
  have "for_find 0 ?m (\<lambda>i. bindE (BS_word set1 i) (\<lambda>w1. bindE (BS_word set2 i) (\<lambda>w2.
        Inr (if w1 \<noteq> w1 OR w2 then Some False else None))))
      = Inr (if \<exists>i. 0 \<le> i \<and> i < ?m \<and> word_at set1 (nat i) \<noteq> word_at set1 (nat i) OR word_at set2 (nat i)
             then Some False else None)"
    by (rule for_find_test) (simp add: BS_word_at)
  moreover have "0 \<le> ?m" by simp
  moreover have "BS_members e set2 \<subseteq> BS_members e set1 \<longleftrightarrow>
      \<not> (\<exists>i. 0 \<le> i \<and> i < ?m \<and> word_at set1 (nat i) \<noteq> word_at set1 (nat i) OR word_at set2 (nat i)) \<and>
      \<not> (\<exists>i. ?m \<le> i \<and> i < BS_word_count set2 \<and> word_at set2 (nat i) \<noteq> 0)"
    unfolding members_subset_iff
    by (rule two_tests [where b = "\<lambda>k. word_at set2 k = 0"]) (auto simp: word_at_beyond)
  ultimately show ?thesis
    unfolding BS_ContainsP_def m Let_def by (simp only: rest_test returnE_if decide_simps simp_thms)
qed

lemma BS_EqualP_aux:
  assumes "BS_word_count s \<le> BS_word_count t"
  shows "returnE (for_find 0 (BS_word_count s) (\<lambda>i. bindE (BS_word s i) (\<lambda>w1. bindE (BS_word t i) (\<lambda>w2.
        Inr (if w1 \<noteq> w2 then Some False else None)))))
      (returnE (for_find (BS_word_count s) (BS_word_count t) (\<lambda>i.
        bindE (BS_word t i) (\<lambda>w2. Inr (if w2 \<noteq> bs_ZEROS then Some False else None))))
      (Inr True)) = Inr (BS_members e s = BS_members e t)"
proof -
  let ?m = "BS_word_count s"
  have "for_find 0 ?m (\<lambda>i. bindE (BS_word s i) (\<lambda>w1. bindE (BS_word t i) (\<lambda>w2.
        Inr (if w1 \<noteq> w2 then Some False else None))))
      = Inr (if \<exists>i. 0 \<le> i \<and> i < ?m \<and> word_at s (nat i) \<noteq> word_at t (nat i) then Some False else None)"
    by (rule for_find_test) (use assms in \<open>simp add: BS_word_at\<close>)
  moreover have "BS_members e s = BS_members e t \<longleftrightarrow>
      \<not> (\<exists>i. 0 \<le> i \<and> i < ?m \<and> word_at s (nat i) \<noteq> word_at t (nat i)) \<and>
      \<not> (\<exists>i. ?m \<le> i \<and> i < BS_word_count t \<and> word_at t (nat i) \<noteq> 0)"
    unfolding members_eq_iff
    by (rule two_tests [where b = "\<lambda>k. word_at t k = 0"]) (use assms in \<open>auto simp: word_at_beyond\<close>)
  ultimately show ?thesis by (simp only: rest_test [OF word_count_nonneg] returnE_if decide_simps simp_thms)
qed

lemma BS_EqualP_ok: "BS_EqualP set1 set2 = Inr (BS_members e set1 = BS_members e set2)"
  using BS_EqualP_aux [of set1 set2 e] BS_EqualP_aux [of set2 set1 e]
  by (cases "BS_word_count set1 > BS_word_count set2") (auto simp: BS_EqualP_def)

lemma BS_IntersectsP_ok: "BS_IntersectsP set1 set2 = Inr (BS_members e set1 \<inter> BS_members e set2 \<noteq> {})"
proof -
  let ?m = "min (BS_word_count set1) (BS_word_count set2)"
  have m: "(if BS_word_count set1 < BS_word_count set2 then BS_word_count set1 else BS_word_count set2) = ?m"
    by simp
  have "for_find 0 ?m (\<lambda>i. bindE (BS_word set1 i) (\<lambda>w1. bindE (BS_word set2 i) (\<lambda>w2.
        Inr (if w1 AND w2 \<noteq> bs_ZEROS then Some True else None))))
      = Inr (if \<exists>i. 0 \<le> i \<and> i < ?m \<and> word_at set1 (nat i) AND word_at set2 (nat i) \<noteq> 0
             then Some True else None)"
    by (rule for_find_test) (simp add: BS_word_at bs_ZEROS_def)
  moreover have "BS_members e set1 \<inter> BS_members e set2 = {} \<longleftrightarrow>
      \<not> (\<exists>i. 0 \<le> i \<and> i < ?m \<and> word_at set1 (nat i) AND word_at set2 (nat i) \<noteq> 0)"
    unfolding members_disjoint_iff by (rule all_words_iff) (auto simp: word_at_beyond)
  ultimately show ?thesis unfolding BS_IntersectsP_def m Let_def by (simp only: returnE_if decide_simps simp_thms)
qed

section \<open>Membership\<close>

lemma bit_test: "r < 8 \<Longrightarrow> (ucast b :: BS_WORD) AND push_bit r bs_ONE \<noteq> bs_ZEROS \<longleftrightarrow> bit (b :: BS_BYTE) r"
proof -
  assume r: "r < 8"
  have "(ucast b :: BS_WORD) AND push_bit r bs_ONE \<noteq> bs_ZEROS \<longleftrightarrow> bit (ucast b :: BS_WORD) r"
    by (simp add: bs_ZEROS_def bs_ONE_def and_exp_eq_0_iff_not_bit push_bit_eq_mult)
  with r show ?thesis by (simp add: bit_ucast_iff)
qed

lemma elt_byte_bit:
  assumes "0 \<le> x" and "x < 32 * int (length s)"
  shows "bit (byte_at e s (x div 8)) (nat (x mod 8)) \<longleftrightarrow> x \<in> BS_members e s"
proof -
  have "0 \<le> x div 8" "x div 8 < 4 * int (length s)" "nat (x mod 8) < 8" using assms by auto
  then show ?thesis by (simp add: bit_byte_at)
qed

lemma BS_MemberP_ok:
  assumes "0 \<le> x" and "x < 2147483648"
  shows "BS_MemberP e s x = Inr (x \<in> BS_members e s)"
proof (cases "x < 32 * int (length s)")
  case True
  then have "x div 32 < BS_word_count s" by (simp add: BS_word_count_def)
  with True assms show ?thesis
    by (simp add: BS_MemberP_def bs_arith BS_set_bits bit_test elt_byte_bit)
next
  case False
  then have "BS_word_count s \<le> x div 32" by (simp add: BS_word_count_def)
  moreover have "x \<notin> BS_members e s" using False members_less by blast
  ultimately show ?thesis using assms by (simp add: BS_MemberP_def bs_arith)
qed

lemma BS_Intersection_MemberP_ok:
  assumes "0 \<le> x" and "x < 2147483648"
  shows "BS_Intersection_MemberP e set1 set2 x = Inr (x \<in> BS_members e set1 \<inter> BS_members e set2)"
proof (cases "x < 32 * int (length set1) \<and> x < 32 * int (length set2)")
  case True
  then have "x div 32 < BS_word_count set1" "x div 32 < BS_word_count set2" by (auto simp: BS_word_count_def)
  with True assms show ?thesis
    by (simp add: BS_Intersection_MemberP_def bs_arith BS_set_bits bit_test elt_byte_bit bit_and_iff)
next
  case False
  then have "BS_word_count set1 \<le> x div 32 \<or> BS_word_count set2 \<le> x div 32"
    by (auto simp: BS_word_count_def)
  moreover have "x \<notin> BS_members e set1 \<inter> BS_members e set2" using False members_less by blast
  ultimately show ?thesis using assms by (simp add: BS_Intersection_MemberP_def bs_arith)
qed

lemma FBS_MemberP_Validate_ok:
  assumes "0 \<le> x" and "x < 2147483648"
  shows "FBS_MemberP_Validate e s x =
    (if x < 32 * BS_word_count s then Inr (x \<in> BS_members e s) else Inl Is_True_Failed)"
proof (cases "x < 32 * int (length s)")
  case True
  then have "x div 32 < BS_word_count s" by (simp add: BS_word_count_def)
  with True assms show ?thesis
    by (simp add: FBS_MemberP_Validate_def bs_arith BS_set_bits bit_test elt_byte_bit BS_word_count_def)
next
  case False
  then have "\<not> x div 32 < BS_word_count s" by (simp add: BS_word_count_def)
  with False assms show ?thesis by (simp add: FBS_MemberP_Validate_def bs_arith BS_word_count_def)
qed

lemma FBS_Union1D_Validate_ok:
  assumes "0 \<le> x" and "x < 2147483648" and "x < 32 * BS_word_count s"
  shows "\<exists>t. FBS_Union1D_Validate e s x = Inr t \<and> BS_members e t = insert x (BS_members e s) \<and>
    BS_word_count t = BS_word_count s"
proof -
  have "x < 32 * int (length s)" "x div 32 + 1 \<le> BS_word_count s" using assms(3) by (simp_all add: BS_word_count_def)
  then show ?thesis
    using BS_Union1D_core [of x s bad_pool s e] assms
    by (simp add: BS_Union1D_def FBS_Union1D_Validate_def bs_arith Let_def BS_word_count_def)
qed

section \<open>Cardinality\<close>

lemma card_byte:
  assumes "0 \<le> i" and "i < 4 * int (length s)"
  shows "int (card {x \<in> BS_members e s. 8 * i \<le> x \<and> x < 8 * (i + 1)}) = bit_count (byte_at e s i)"
proof -
  let ?f = "\<lambda>k. 8 * i + int k"
  have "{x \<in> BS_members e s. 8 * i \<le> x \<and> x < 8 * (i + 1)} = ?f ` {k. bit (byte_at e s i) k}" (is "?L = ?R")
  proof (rule set_eqI)
    fix x
    show "x \<in> ?L \<longleftrightarrow> x \<in> ?R"
    proof
      assume "x \<in> ?L"
      then have "x = ?f (nat (x - 8 * i))" "bit (byte_at e s i) (nat (x - 8 * i))"
        using assms by (auto simp: bit_byte_at)
      then show "x \<in> ?R" by blast
    qed (use assms in \<open>auto simp: bit_byte_at\<close>)
  qed
  moreover have "inj_on ?f A" for A by (rule inj_onI) simp
  ultimately show ?thesis by (simp add: card_image bit_count_card)
qed

lemma members_small_card: "int (card (BS_members e s)) \<le> 32 * int (length s)"
proof -
  have "card (BS_members e s) \<le> card {0..<32 * int (length s)}"
    by (rule card_mono) (auto simp: members_nonneg members_less)
  then show ?thesis by simp
qed

lemma BS_Size_ok:
  assumes "bs_ok s"
  shows "BS_Size e s = Inr (int (card (BS_members e s)))"
proof -
  let ?A = "\<lambda>k. {x \<in> BS_members e s. x < 8 * k}"
  let ?n = "4 * int (length s)"
  let ?body = "\<lambda>i result. bindE (BS_byte e s i) (\<lambda>b. Inr ((result + bit_count b) mod 2 ^ 64))"
  have ok: "int (length s) < 67108864" using assms by (simp add: bs_ok_def BS_word_count_def)
  have small: "int (card (BS_members e s)) < 2147483648"
    using members_small_card [of e s] ok by linarith
  have "\<exists>r. for_loop 0 ?n ?body 0 = Inr r \<and> r = int (card (?A ?n))"
  proof (rule for_loop_rule [where I = "\<lambda>k r. r = int (card (?A k))"])
    have "?A 0 = {}" using members_nonneg [of _ e s] by (auto simp: set_eq_iff not_less)
    then show "0 = int (card (?A 0))" by (simp only: card.empty of_nat_0)
  next
    fix k r
    assume k: "0 \<le> k" "k < ?n" and r: "r = int (card (?A k))"
    let ?B = "{x \<in> BS_members e s. 8 * k \<le> x \<and> x < 8 * (k + 1)}"
    have "?A (k + 1) = ?A k \<union> ?B" "?A k \<inter> ?B = {}" by auto
    moreover have "finite (?A k)" "finite ?B" by (simp_all add: finite_members)
    ultimately have "card (?A (k + 1)) = card (?A k) + card ?B" by (simp add: card_Un_disjoint)
    then have sum: "r + bit_count (byte_at e s k) = int (card (?A (k + 1)))"
      using card_byte [OF k] r by simp
    have "card (?A (k + 1)) \<le> card (BS_members e s)"
      by (rule card_mono) (auto simp: finite_members)
    with small have "int (card (?A (k + 1))) < 18446744073709551616" by linarith
    with sum k show "\<exists>r'. ?body k r = Inr r' \<and> r' = int (card (?A (k + 1)))"
      by (simp add: BS_byte_in)
  qed simp
  moreover have "?A ?n = BS_members e s" using members_less [of _ e s] by auto
  moreover have "s32 (BS_word_count s * BYTES_PER_BS_WORD) = ?n"
    using ok by (simp add: BS_word_count_def bs_consts s32_id)
  ultimately show ?thesis using small by (simp add: BS_Size_def s32_id)
qed

end
