(* ===== verification/Bitset_Choose.thy ===== *)
theory Bitset_Choose
  imports Bitset_Tests
begin

unbundle bit_operations_syntax

text \<open>
  Choosing elements (\<^verbatim>\<open>BS_Choose\<close> and its variants over a range, after a bound and in an
  intersection), the enumeration loop the interface comment prescribes, and printing. The
  contract of a chooser is a locale; the two pairs of choosing operations interpret it, and
  the enumeration and printing results are proved once in the locale.
\<close>

section \<open>Choosing\<close>

definition BS_Choose :: "endian \<Rightarrow> BS \<Rightarrow> BS_ELT res" where
  "BS_Choose e bs =
     returnE (for_find 0 (BS_word_count bs) (\<lambda>i.
       bindE (BS_word bs i) (\<lambda>w.
       if w \<noteq> bs_ZEROS
       then let first_byte = bs_PBytesPW i in
            bindE (for_find 0 BYTES_PER_BS_WORD (\<lambda>j.
              bindE (BS_byte e bs (j + first_byte)) (\<lambda>byte.
              Inr (if ucast byte \<noteq> bs_ZEROS then Some (first_one byte + bs_PBPB (j + first_byte)) else None)))) (\<lambda>r.
            bindE (Is_True (r \<noteq> None)) (\<lambda>_. Inr r))
       else Inr None)))
     (Inr BS_CHOOSE_FAILURE)"

definition BS_Choose_Range :: "endian \<Rightarrow> BS \<Rightarrow> BS_ELT \<Rightarrow> BS_ELT \<Rightarrow> BS_ELT res" where
  "BS_Choose_Range e bs low high_arg =
     bindE (Is_True (low \<ge> 0)) (\<lambda>_.
     bindE (Is_True (high_arg - low \<ge> -1)) (\<lambda>_.
     let last_elt_in_set = bs_PBPW (BS_word_count bs) - 1;
         high = (if high_arg > last_elt_in_set then last_elt_in_set else high_arg) in
     if low > high then Inr BS_CHOOSE_FAILURE
     else
       let first_byte = bs_QBPB low; last_byte = bs_QBPB high in
       bindE (BS_byte e bs first_byte) (\<lambda>b.
       let byte = (if first_byte = last_byte
                   then ucast (ucast (ucast (ucast b AND push_bit (nat (bs_RBPB low)) bs_ONES) :: BS_BYTE)
                          AND drop_bit (nat ((BITS_PER_BS_WORD - 1) - bs_RBPB high)) bs_ONES)
                   else ucast (ucast b AND push_bit (nat (bs_RBPB low)) bs_ONES)) in
       returnE (Inr (if ucast byte \<noteq> bs_ZEROS then Some (first_one byte + bs_PBPB first_byte) else None))
       (if first_byte = last_byte then Inr BS_CHOOSE_FAILURE
        else
          let first_word = bs_QBPW low;
              full_byte = s32 ((first_word + 1) * BYTES_PER_BS_WORD - 1);
              last_first_word_full_byte = (if full_byte \<ge> last_byte then last_byte - 1 else full_byte);
              last_word = bs_QBPW high;
              first_unchecked_word = max (first_word + 1) last_word in
          returnE (for_find (first_byte + 1) (last_first_word_full_byte + 1) (\<lambda>i.
            bindE (BS_byte e bs i) (\<lambda>byte.
            Inr (if ucast byte \<noteq> bs_ZEROS then Some (first_one byte + bs_PBPB i) else None))))
          (returnE (for_find (first_word + 1) last_word (\<lambda>i.
            bindE (BS_word bs i) (\<lambda>w.
            if w \<noteq> bs_ZEROS
            then for_find 0 BYTES_PER_BS_WORD (\<lambda>j.
              bindE (BS_byte e bs (j + i * BYTES_PER_BS_WORD)) (\<lambda>byte.
              Inr (if byte \<noteq> 0 then Some (first_one byte + bs_PBPB j + bs_PBPW i) else None)))
            else Inr None)))
          (returnE (for_find (s32 (first_unchecked_word * BYTES_PER_BS_WORD)) last_byte (\<lambda>i.
            bindE (BS_byte e bs i) (\<lambda>byte.
            Inr (if byte \<noteq> 0 then Some (first_one byte + 8 * i) else None))))
          (bindE (BS_byte e bs last_byte) (\<lambda>b.
           let byte = ucast (ucast b AND drop_bit (nat ((BITS_PER_BS_WORD - 1) - bs_RBPB high)) bs_ONES) in
           returnE (Inr (if byte \<noteq> 0 then Some (first_one byte + bs_PBPB last_byte) else None))
           (Inr BS_CHOOSE_FAILURE)))))))))"

definition BS_Choose_Next :: "endian \<Rightarrow> BS \<Rightarrow> BS_ELT \<Rightarrow> BS_ELT res" where
  "BS_Choose_Next e bs bound_arg =
     (let bound = s32 (bound_arg + 1) in
      if bound \<ge> bs_PBPW (BS_word_count bs) then Inr BS_CHOOSE_FAILURE
      else
        let inx_first_byte = bs_QBPB bound in
        bindE (BS_byte e bs inx_first_byte) (\<lambda>b.
        let byte = ucast (ucast b AND push_bit (nat (bs_RBPB bound)) bs_ONES) in
        returnE (Inr (if ucast byte \<noteq> bs_ZEROS then Some (first_one byte + bs_PBPB inx_first_byte) else None))
        (let inx_first_byte_second_word = s32 ((bs_QBPW bound + 1) * BYTES_PER_BS_WORD) in
         returnE (for_find (inx_first_byte + 1) inx_first_byte_second_word (\<lambda>i.
           bindE (BS_byte e bs i) (\<lambda>byte.
           Inr (if ucast byte \<noteq> bs_ZEROS then Some (first_one byte + bs_PBPB i) else None))))
         (returnE (for_find (bs_QBPW bound + 1) (BS_word_count bs) (\<lambda>i.
           bindE (BS_word bs i) (\<lambda>w.
           if w \<noteq> bs_ZEROS
           then let first_byte = bs_PBytesPW i in
                bindE (for_find 0 BYTES_PER_BS_WORD (\<lambda>j.
                  bindE (BS_byte e bs (j + first_byte)) (\<lambda>byte.
                  Inr (if ucast byte \<noteq> bs_ZEROS then Some (first_one byte + bs_PBPB (j + first_byte)) else None)))) (\<lambda>r.
                bindE (Is_True (r \<noteq> None)) (\<lambda>_. Inr r))
           else Inr None)))
         (Inr BS_CHOOSE_FAILURE)))))"

section \<open>Choosing in an intersection\<close>

definition BS_Intersection_Choose :: "endian \<Rightarrow> BS \<Rightarrow> BS \<Rightarrow> BS_ELT res" where
  "BS_Intersection_Choose e set1 set2 =
     (let last_word = (if BS_word_count set1 < BS_word_count set2
                       then BS_word_count set1 else BS_word_count set2) in
      returnE (for_find 0 last_word (\<lambda>i.
        bindE (BS_word set1 i) (\<lambda>w1. bindE (BS_word set2 i) (\<lambda>w2.
        if w1 AND w2 \<noteq> bs_ZEROS
        then let first_byte = bs_PBytesPW i in
             bindE (for_find 0 BYTES_PER_BS_WORD (\<lambda>j.
               bindE (BS_byte e set1 (j + first_byte)) (\<lambda>b1.
               bindE (BS_byte e set2 (j + first_byte)) (\<lambda>b2.
               let byte = b1 AND b2 in
               Inr (if ucast byte \<noteq> bs_ZEROS then Some (first_one byte + bs_PBPB (j + first_byte)) else None))))) (\<lambda>r.
             bindE (Is_True (r \<noteq> None)) (\<lambda>_. Inr r))
        else Inr None))))
      (Inr BS_CHOOSE_FAILURE))"

definition BS_Intersection_Choose_Next :: "endian \<Rightarrow> BS \<Rightarrow> BS \<Rightarrow> BS_ELT \<Rightarrow> BS_ELT res" where
  "BS_Intersection_Choose_Next e set1 set2 bound_arg =
     (let word_count = (if BS_word_count set1 < BS_word_count set2
                        then BS_word_count set1 else BS_word_count set2);
          bound = s32 (bound_arg + 1) in
      if bound \<ge> bs_PBPW word_count then Inr BS_CHOOSE_FAILURE
      else
        let inx_first_byte = bs_QBPB bound in
        bindE (BS_byte e set1 inx_first_byte) (\<lambda>b1.
        bindE (BS_byte e set2 inx_first_byte) (\<lambda>b2.
        let byte = ucast (ucast (b1 AND b2) AND push_bit (nat (bs_RBPB bound)) bs_ONES) in
        returnE (Inr (if ucast byte \<noteq> bs_ZEROS then Some (first_one byte + bs_PBPB inx_first_byte) else None))
        (let inx_first_byte_second_word = s32 ((bs_QBPW bound + 1) * BYTES_PER_BS_WORD) in
         returnE (for_find (inx_first_byte + 1) inx_first_byte_second_word (\<lambda>i.
           bindE (BS_byte e set1 i) (\<lambda>b1. bindE (BS_byte e set2 i) (\<lambda>b2.
           let byte = b1 AND b2 in
           Inr (if ucast byte \<noteq> bs_ZEROS then Some (first_one byte + bs_PBPB i) else None)))))
         (returnE (for_find (bs_QBPW bound + 1) word_count (\<lambda>i.
           bindE (BS_word set1 i) (\<lambda>w1. bindE (BS_word set2 i) (\<lambda>w2.
           if w1 AND w2 \<noteq> bs_ZEROS
           then let first_byte = bs_PBytesPW i in
                bindE (for_find 0 BYTES_PER_BS_WORD (\<lambda>j.
                  bindE (BS_byte e set1 (j + first_byte)) (\<lambda>b1.
                  bindE (BS_byte e set2 (j + first_byte)) (\<lambda>b2.
                  let byte = b1 AND b2 in
                  Inr (if ucast byte \<noteq> bs_ZEROS then Some (first_one byte + bs_PBPB (j + first_byte)) else None))))) (\<lambda>r.
                bindE (Is_True (r \<noteq> None)) (\<lambda>_. Inr r))
           else Inr None))))
         (Inr BS_CHOOSE_FAILURE))))))"

section \<open>Searches that find the least element of a region\<close>

text \<open>
  \<open>finds A lo hi m\<close>: the code \<open>m\<close> returns the least element of \<open>A\<close> that is at least \<open>lo\<close> if
  there is one below \<open>hi\<close>, and goes on otherwise. \<open>least_from A lo hi\<close> is the answer of a whole
  search of a region.
\<close>

definition finds :: "int set \<Rightarrow> int \<Rightarrow> int \<Rightarrow> int option res \<Rightarrow> bool" where
  "finds A lo hi m \<longleftrightarrow> (\<exists>r. m = Inr r \<and>
     (case r of None \<Rightarrow> \<forall>y\<in>A. \<not> (lo \<le> y \<and> y < hi)
      | Some x \<Rightarrow> x \<in> A \<and> lo \<le> x \<and> x < hi \<and> (\<forall>y\<in>A. lo \<le> y \<longrightarrow> x \<le> y)))"

definition least_from :: "int set \<Rightarrow> int \<Rightarrow> int \<Rightarrow> int" where
  "least_from A lo hi =
     (if \<exists>y\<in>A. lo \<le> y \<and> y < hi then Min {y \<in> A. lo \<le> y \<and> y < hi} else BS_CHOOSE_FAILURE)"

lemma least_from_eqI:
  assumes "x \<in> A" and "lo \<le> x" and "x < hi" and "\<And>y. y \<in> A \<Longrightarrow> lo \<le> y \<Longrightarrow> x \<le> y"
  shows "least_from A lo hi = x"
proof -
  have "finite {y \<in> A. lo \<le> y \<and> y < hi}" by (rule finite_subset [of _ "{lo..<hi}"]) auto
  then have "Min {y \<in> A. lo \<le> y \<and> y < hi} = x" using assms by (intro Min_eqI) auto
  then show ?thesis using assms by (auto simp: least_from_def)
qed

lemma least_from_skip:
  assumes "\<forall>y\<in>A. \<not> (lo \<le> y \<and> y < mid)" and "lo \<le> mid"
  shows "least_from A lo hi = least_from A mid hi"
proof -
  have "{y \<in> A. lo \<le> y \<and> y < hi} = {y \<in> A. mid \<le> y \<and> y < hi}" using assms by force
  then show ?thesis unfolding least_from_def by (metis (lifting) Collect_empty_eq)
qed

lemma least_from_empty: "hi \<le> lo \<Longrightarrow> least_from A lo hi = BS_CHOOSE_FAILURE"
  by (auto simp: least_from_def)

lemma finds_return:
  assumes "finds A lo mid m" and "k = Inr (least_from A mid hi)" and "lo \<le> mid" and "mid \<le> hi"
  shows "returnE m k = Inr (least_from A lo hi)"
proof -
  obtain r where r: "m = Inr r" "case r of None \<Rightarrow> \<forall>y\<in>A. \<not> (lo \<le> y \<and> y < mid)
      | Some x \<Rightarrow> x \<in> A \<and> lo \<le> x \<and> x < mid \<and> (\<forall>y\<in>A. lo \<le> y \<longrightarrow> x \<le> y)"
    using assms(1) unfolding finds_def by blast
  show ?thesis
  proof (cases r)
    case None
    then show ?thesis using r assms(2,3) least_from_skip by auto
  next
    case (Some x)
    then have "least_from A lo hi = x" using r(2) assms(4) by (intro least_from_eqI) auto
    with Some r(1) show ?thesis by simp
  qed
qed

lemma for_finds:
  assumes "i \<le> n" and "0 < c" and "\<And>k. i \<le> k \<Longrightarrow> k < n \<Longrightarrow> finds A (c * k) (c * (k + 1)) (body k)"
  shows "finds A (c * i) (c * n) (for_find i n body)"
proof -
  let ?Q = "\<lambda>k. \<forall>y\<in>A. \<not> (c * i \<le> y \<and> y < c * k)"
  let ?P = "\<lambda>x. x \<in> A \<and> c * i \<le> x \<and> x < c * n \<and> (\<forall>y\<in>A. c * i \<le> y \<longrightarrow> x \<le> y)"
  have "\<exists>r. for_find i n body = Inr r \<and> (case r of None \<Rightarrow> ?Q n | Some x \<Rightarrow> ?P x)"
  proof (rule for_find_rule [where Q = ?Q])
    fix k assume k: "i \<le> k" "k < n" "?Q k"
    then obtain r where r: "body k = Inr r" "case r of None \<Rightarrow> \<forall>y\<in>A. \<not> (c * k \<le> y \<and> y < c * (k + 1))
        | Some x \<Rightarrow> x \<in> A \<and> c * k \<le> x \<and> x < c * (k + 1) \<and> (\<forall>y\<in>A. c * k \<le> y \<longrightarrow> x \<le> y)"
      using assms(3) unfolding finds_def by blast
    have le: "c * i \<le> c * k" "c * (k + 1) \<le> c * n" using k assms(2) by (auto intro: mult_left_mono)
    have "?Q (k + 1)" if "r = None" using that r(2) k(3) by force
    moreover have "?P x" if "r = Some x" for x using that r(2) k(3) le by force
    ultimately show "\<exists>r. body k = Inr r \<and> (case r of None \<Rightarrow> ?Q (k + 1) | Some x \<Rightarrow> ?P x)"
      using r(1) by (cases r) auto
  qed (use assms(1) in auto)
  then show ?thesis by (simp add: finds_def)
qed

lemma byte_finds:
  fixes b :: BS_BYTE
  assumes "\<And>k. k < 8 \<Longrightarrow> bit b k \<longleftrightarrow> 8 * q + int k \<in> A \<and> lo \<le> 8 * q + int k \<and> 8 * q + int k < hi"
    and "8 * q \<le> lo" and "hi \<le> 8 * q + 8"
  shows "finds A lo hi (Inr (if b \<noteq> 0 then Some (first_one b + 8 * q) else None))"
proof (cases "b = 0")
  case True
  have "\<not> (lo \<le> y \<and> y < hi)" if "y \<in> A" for y
  proof
    assume y: "lo \<le> y \<and> y < hi"
    then have "nat (y - 8 * q) < 8" "int (nat (y - 8 * q)) = y - 8 * q" using assms(2,3) by linarith+
    then show False using assms(1) [of "nat (y - 8 * q)"] y that True by simp
  qed
  then show ?thesis using True by (simp add: finds_def)
next
  case False
  let ?f = "first_one b"
  note f = first_one_least [OF False]
  have m: "8 * q + ?f \<in> A" "lo \<le> 8 * q + ?f" "8 * q + ?f < hi"
    using assms(1) [of "nat ?f"] f(1-3) by auto
  have "8 * q + ?f \<le> y" if y: "y \<in> A" "lo \<le> y" for y
  proof (rule ccontr)
    assume "\<not> 8 * q + ?f \<le> y"
    then have "nat (y - 8 * q) < nat ?f" "nat (y - 8 * q) < 8" "y < hi"
      using assms(2) y(2) f(2) m(3) by auto
    then show False using f(4) assms(1) [of "nat (y - 8 * q)"] assms(2) y by auto
  qed
  with m False show ?thesis by (simp add: finds_def add.commute)
qed

section \<open>Searches of bytes and words\<close>

lemma ucast_byte_zero [simp]: "ucast (b :: BS_BYTE) \<noteq> bs_ZEROS \<longleftrightarrow> b \<noteq> 0"
proof -
  have "b = 0" if "(ucast b :: BS_WORD) = 0"
  proof (rule bit_word_eqI)
    fix n assume "n < LENGTH(8)"
    then have "bit b n = bit (ucast b :: BS_WORD) n" by (simp add: bit_ucast_iff)
    then show "bit b n = bit (0 :: BS_BYTE) n" by (simp add: that)
  qed
  then have "(ucast b :: BS_WORD) = 0 \<longleftrightarrow> b = 0" by auto
  then show ?thesis by (simp add: bs_ZEROS_def)
qed

text \<open>
  \<open>shows_bytes A n g\<close>: the byte reader \<open>g\<close> (of one set, or of the intersection of two) shows the
  elements of \<open>A\<close> in the first \<open>n\<close> words.
\<close>

definition shows_bytes :: "int set \<Rightarrow> int \<Rightarrow> (int \<Rightarrow> BS_BYTE res) \<Rightarrow> bool" where
  "shows_bytes A n g \<longleftrightarrow> (\<forall>i. 0 \<le> i \<and> i < 4 * n \<longrightarrow>
     (\<exists>b. g i = Inr b \<and> (\<forall>k. bit b k \<longleftrightarrow> k < 8 \<and> 8 * i + int k \<in> A)))"

lemma shows_bytes_set: "shows_bytes (BS_members e s) (BS_word_count s) (BS_byte e s)"
  by (auto simp: shows_bytes_def BS_word_count_def BS_byte_in bit_byte_at)

lemma shows_bytes_inter:
  "shows_bytes (BS_members e s \<inter> BS_members e t) (min (BS_word_count s) (BS_word_count t))
     (\<lambda>i. bindE (BS_byte e s i) (\<lambda>b1. bindE (BS_byte e t i) (\<lambda>b2. Inr (b1 AND b2))))"
  by (auto simp: shows_bytes_def BS_word_count_def BS_byte_in bit_byte_at bit_and_iff)

lemma finds_byte:
  assumes "shows_bytes A n g" and "0 \<le> i" and "i < 4 * n"
  shows "finds A (8 * i) (8 * (i + 1)) (bindE (g i) (\<lambda>b. Inr (if b \<noteq> 0 then Some (first_one b + 8 * i) else None)))"
proof -
  obtain b where b: "g i = Inr b" "\<And>k. bit b k \<longleftrightarrow> k < 8 \<and> 8 * i + int k \<in> A"
    using assms unfolding shows_bytes_def by blast
  have "finds A (8 * i) (8 * (i + 1)) (Inr (if b \<noteq> 0 then Some (first_one b + 8 * i) else None))"
    by (rule byte_finds) (use b(2) in auto)
  with b(1) show ?thesis by simp
qed

lemma finds_bytes:
  assumes "shows_bytes A n g" and "0 \<le> i" and "i \<le> k" and "k \<le> 4 * n"
    and "\<And>j. i \<le> j \<Longrightarrow> j < k \<Longrightarrow> f j = bindE (g j) (\<lambda>b. Inr (if b \<noteq> 0 then Some (first_one b + 8 * j) else None))"
    and "lo = 8 * i" and "hi = 8 * k"
  shows "finds A lo hi (for_find i k f)"
  unfolding assms(6,7) by (rule for_finds) (use assms finds_byte [OF assms(1)] in auto)

text \<open>A word that is not zero has an element, and one of its bytes shows it.\<close>

definition shows_words :: "int set \<Rightarrow> int \<Rightarrow> (int \<Rightarrow> BS_WORD res) \<Rightarrow> bool" where
  "shows_words A n g \<longleftrightarrow> (\<forall>i. 0 \<le> i \<and> i < n \<longrightarrow>
     (\<exists>w. g i = Inr w \<and> (w = 0 \<longleftrightarrow> (\<forall>y\<in>A. \<not> (32 * i \<le> y \<and> y < 32 * (i + 1))))))"

lemma region_word:
  assumes "0 \<le> i"
  shows "word_at s (nat i) AND word_at t (nat i) = 0 \<longleftrightarrow>
    (\<forall>y \<in> BS_members e s \<inter> BS_members e t. \<not> (32 * i \<le> y \<and> y < 32 * (i + 1)))"
proof
  assume z: "word_at s (nat i) AND word_at t (nat i) = 0"
  have "\<not> (bit (word_at s (nat i)) b \<and> bit (word_at t (nat i)) b)" for b
    using z by (metis bit_0_eq bit_and_iff bot_apply bot_bool_def)
  moreover have "nat y div 32 = nat i" if "32 * i \<le> y" "y < 32 * (i + 1)" for y
  proof -
    have "y div 32 = i" using div_pos_pos_trivial that by (intro int_div_pos_eq [of y 32 i "y - 32 * i"]) auto
    then show ?thesis using that assms by (simp add: nat_div_distrib [symmetric])
  qed
  ultimately show "\<forall>y \<in> BS_members e s \<inter> BS_members e t. \<not> (32 * i \<le> y \<and> y < 32 * (i + 1))"
    by (auto simp: members_iff)
next
  assume none: "\<forall>y \<in> BS_members e s \<inter> BS_members e t. \<not> (32 * i \<le> y \<and> y < 32 * (i + 1))"
  show "word_at s (nat i) AND word_at t (nat i) = 0"
  proof (rule bit_word_eqI)
    fix b assume "b < LENGTH(32)"
    then have b: "b < 32" by simp
    let ?y = "int (32 * nat i + bit_lane e b)"
    have l: "bit_lane e b < 32" using b by (rule bit_lane_less)
    then have "nat ?y div 32 = nat i" "nat ?y mod 32 = bit_lane e b" "32 * i \<le> ?y" "?y < 32 * (i + 1)"
      unfolding nat_int using assms by auto
    then have "\<not> (bit (word_at s (nat i)) b \<and> bit (word_at t (nat i)) b)"
      using none b by (auto simp: members_iff)
    then show "bit (word_at s (nat i) AND word_at t (nat i)) b = bit (0 :: BS_WORD) b"
      by (simp add: bit_and_iff)
  qed
qed

lemma shows_words_set: "shows_words (BS_members e s) (BS_word_count s) (BS_word s)"
  using region_word [of _ s s e] by (simp add: shows_words_def BS_word_at)

lemma shows_words_inter:
  "shows_words (BS_members e s \<inter> BS_members e t) (min (BS_word_count s) (BS_word_count t))
     (\<lambda>i. bindE (BS_word s i) (\<lambda>w1. bindE (BS_word t i) (\<lambda>w2. Inr (w1 AND w2))))"
  using region_word [of _ s t e] by (simp add: shows_words_def BS_word_at)

text \<open>The word search with its inner byte search, with and without the assertion on the latter.\<close>

lemma finds_word:
  assumes "shows_words A n g" and "0 \<le> i" and "i < n"
    and "finds A (32 * i) (32 * (i + 1)) m"
    and "f = bindE (g i) (\<lambda>w. if w \<noteq> 0 then bindE m (\<lambda>r. bindE (Is_True (r \<noteq> None)) (\<lambda>_. Inr r)) else Inr None) \<or>
      f = bindE (g i) (\<lambda>w. if w \<noteq> 0 then m else Inr None)"
  shows "finds A (32 * i) (32 * (i + 1)) f"
proof -
  obtain w where w: "g i = Inr w" "w = 0 \<longleftrightarrow> (\<forall>y\<in>A. \<not> (32 * i \<le> y \<and> y < 32 * (i + 1)))"
    using assms(1-3) unfolding shows_words_def by blast
  obtain r where r: "m = Inr r" "case r of None \<Rightarrow> \<forall>y\<in>A. \<not> (32 * i \<le> y \<and> y < 32 * (i + 1))
      | Some x \<Rightarrow> x \<in> A \<and> 32 * i \<le> x \<and> x < 32 * (i + 1) \<and> (\<forall>y\<in>A. 32 * i \<le> y \<longrightarrow> x \<le> y)"
    using assms(4) unfolding finds_def by blast
  show ?thesis
  proof (cases "w = 0")
    case True
    then have "f = Inr None" using assms(5) w(1) by auto
    then show ?thesis using True w(2) by (simp add: finds_def)
  next
    case False
    then have "r \<noteq> None" using r(2) w(2) by auto
    then have "f = m" using False assms(5) w(1) r(1) by auto
    then show ?thesis using assms(4) by simp
  qed
qed

lemma finds_words:
  assumes "shows_words A n g" and "shows_bytes A n h" and "0 \<le> i" and "i \<le> k" and "k \<le> n"
    and "\<And>j. i \<le> j \<Longrightarrow> j < k \<Longrightarrow>
      f j = bindE (g j) (\<lambda>w. if w \<noteq> bs_ZEROS then bindE (for_find (4 * j) (4 * (j + 1)) (\<lambda>q. bindE (h q)
        (\<lambda>b. Inr (if b \<noteq> 0 then Some (first_one b + 8 * q) else None))))
          (\<lambda>r. bindE (Is_True (r \<noteq> None)) (\<lambda>_. Inr r)) else Inr None) \<or>
      f j = bindE (g j) (\<lambda>w. if w \<noteq> bs_ZEROS then for_find (4 * j) (4 * (j + 1)) (\<lambda>q. bindE (h q)
        (\<lambda>b. Inr (if b \<noteq> 0 then Some (first_one b + 8 * q) else None))) else Inr None)"
    and "lo = 32 * i" and "hi = 32 * k"
  shows "finds A lo hi (for_find i k f)"
  unfolding assms(7,8)
proof (rule for_finds)
  fix j assume j: "i \<le> j" "j < k"
  have "finds A (8 * (4 * j)) (8 * (4 * (j + 1))) (for_find (4 * j) (4 * (j + 1)) (\<lambda>q. bindE (h q)
        (\<lambda>b. Inr (if b \<noteq> 0 then Some (first_one b + 8 * q) else None))))"
    by (rule finds_bytes [OF assms(2)]) (use j assms(3,5) in auto)
  then have "finds A (32 * j) (32 * (j + 1)) (for_find (4 * j) (4 * (j + 1)) (\<lambda>q. bindE (h q)
        (\<lambda>b. Inr (if b \<noteq> 0 then Some (first_one b + 8 * q) else None))))"
    by (simp only: mult.assoc [symmetric]) simp
  from finds_word [OF assms(1) _ _ this assms(6) [OF j, unfolded bs_ZEROS_def]]
  show "finds A (32 * j) (32 * (j + 1)) (f j)" using j assms(3,5) by linarith
qed (use assms(4) in auto)

text \<open>The source counts bytes within a word from 0; shifting the counter gives the form above.\<close>

lemma for_find_shift: "for_find 0 n (\<lambda>j. f (j + d)) = for_find d (d + n) f"
proof (induction "nat n" arbitrary: n d f)
  case (Suc m)
  have "for_find 1 n (\<lambda>j. f (j + d)) = for_find (d + 1) (d + n) f"
  proof -
    have "for_find 0 (n - 1) (\<lambda>j. f (j + (d + 1))) = for_find (d + 1) (d + n) f"
      using Suc.hyps(1) [of "n - 1" f "d + 1"] Suc.hyps(2) by simp
    moreover have "for_find 1 n g = for_find 0 (n - 1) (\<lambda>j. g (j + 1))" for g :: "int \<Rightarrow> 'a + 'b option"
      using Suc.hyps(1) [of "n - 1" g 1] Suc.hyps(2) by simp
    ultimately show ?thesis by (simp add: algebra_simps)
  qed
  then show ?case using Suc.hyps(2) by (subst (1 2) for_find.simps) simp
qed simp

section \<open>The choosing operations find the least element\<close>

lemma word_bytes:
  assumes "0 \<le> i" and "i < 67108864"
  shows "for_find 0 BYTES_PER_BS_WORD (\<lambda>j. bindE (h (j + bs_PBytesPW i)) (\<lambda>b.
      Inr (if ucast (b :: BS_BYTE) \<noteq> bs_ZEROS then Some (first_one b + bs_PBPB (j + bs_PBytesPW i)) else None)))
    = for_find (4 * i) (4 * (i + 1)) (\<lambda>q. bindE (h q) (\<lambda>b. Inr (if b \<noteq> 0 then Some (first_one b + 8 * q) else None)))"
proof -
  have "for_find 0 4 (\<lambda>j. bindE (h (j + 4 * i)) (\<lambda>b.
        Inr (if b \<noteq> 0 then Some (first_one b + bs_PBPB (j + 4 * i)) else None)))
      = for_find (4 * i) (4 * i + 4) (\<lambda>q. bindE (h q) (\<lambda>b. Inr (if b \<noteq> 0 then Some (first_one b + bs_PBPB q) else None)))"
    by (rule for_find_shift)
  also have "\<dots> = for_find (4 * i) (4 * i + 4) (\<lambda>q. bindE (h q) (\<lambda>b. Inr (if b \<noteq> 0 then Some (first_one b + 8 * q) else None)))"
  proof (rule for_find_cong)
    fix q assume "4 * i \<le> q" "q < 4 * i + 4"
    then have "bs_PBPB q = 8 * q" using assms by (intro bs_arith) auto
    then show "bindE (h q) (\<lambda>b. Inr (if b \<noteq> 0 then Some (first_one b + bs_PBPB q) else None))
        = bindE (h q) (\<lambda>b. Inr (if b \<noteq> 0 then Some (first_one b + 8 * q) else None))" by (simp only:)
  qed
  finally have shifted: "for_find 0 4 (\<lambda>j. bindE (h (j + 4 * i)) (\<lambda>b.
        Inr (if b \<noteq> 0 then Some (first_one b + bs_PBPB (j + 4 * i)) else None)))
      = for_find (4 * i) (4 * i + 4) (\<lambda>q. bindE (h q) (\<lambda>b. Inr (if b \<noteq> 0 then Some (first_one b + 8 * q) else None)))" .
  have "bs_PBytesPW i = 4 * i" "4 * (i + 1) = 4 * i + 4" using assms by (simp_all add: bs_arith)
  then show ?thesis unfolding BYTES_PER_BS_WORD_def ucast_byte_zero by (simp only: shifted)
qed

lemma least_from_all:
  assumes "A \<subseteq> {0..<n}"
  shows "least_from A 0 n = (if A = {} then BS_CHOOSE_FAILURE else Min A)"
proof -
  have "{y \<in> A. 0 \<le> y \<and> y < n} = A" using assms by auto
  then show ?thesis using assms by (force simp: least_from_def)
qed

lemma members_range: "BS_members e s \<subseteq> {0..<32 * BS_word_count s}"
  by (auto simp: members_nonneg BS_word_count_def intro: members_less)

lemma inter_range:
  "BS_members e s \<inter> BS_members e t \<subseteq> {0..<32 * min (BS_word_count s) (BS_word_count t)}"
  using members_range [of e s] members_range [of e t] by (auto simp: min_def)

lemma min_if: "(if a < b then a else b) = min a b" for a b :: int
  by simp

lemma BS_Choose_least:
  assumes "bs_ok s"
  shows "BS_Choose e s = Inr (least_from (BS_members e s) 0 (32 * BS_word_count s))"
  unfolding BS_Choose_def Let_def
proof (rule finds_return [where mid = "32 * BS_word_count s", OF finds_words [OF shows_words_set shows_bytes_set]],
    goal_cases)
  case (4 j)
  then have "0 \<le> j" "j < 67108864" using assms by (auto simp: bs_ok_def)
  from word_bytes [OF this, of "BS_byte e s"] show ?case by (simp only: simp_thms)
qed (simp_all add: least_from_empty)

lemma BS_Intersection_Choose_least:
  assumes "bs_ok s" and "bs_ok t"
  shows "BS_Intersection_Choose e s t = Inr (least_from (BS_members e s \<inter> BS_members e t) 0
    (32 * min (BS_word_count s) (BS_word_count t)))"
  unfolding BS_Intersection_Choose_def Let_def min_if
proof (rule finds_return [where mid = "32 * min (BS_word_count s) (BS_word_count t)",
      OF finds_words [OF shows_words_inter shows_bytes_inter]], goal_cases)
  case (4 j)
  then have "0 \<le> j" "j < 67108864" using assms by (auto simp: bs_ok_def)
  from word_bytes [OF this, of "\<lambda>i. bindE (BS_byte e s i) (\<lambda>b1. bindE (BS_byte e t i) (\<lambda>b2. Inr (b1 AND b2)))"]
  show ?case by (simp only: simp_thms bindE_assoc bindE_Inr)
qed (simp_all add: least_from_empty)

section \<open>Choosing after a bound\<close>

lemma bit_mask_low: "bit (ucast (ucast b AND push_bit r bs_ONES) :: BS_BYTE) k \<longleftrightarrow> bit b k \<and> r \<le> k"
  for b :: BS_BYTE
  by (auto simp: bs_ONES_def bit_simps dest: bit_imp_le_length)

lemma byte_parts: "8 * (x div 8) + int k \<ge> x \<longleftrightarrow> nat (x mod 8) \<le> k"
  "8 * (x div 8) + int k \<le> x \<longleftrightarrow> k \<le> nat (x mod 8)" for x :: int
proof -
  have "x = 8 * (x div 8) + x mod 8" "0 \<le> x mod 8" by simp_all
  then show "8 * (x div 8) + int k \<ge> x \<longleftrightarrow> nat (x mod 8) \<le> k"
    "8 * (x div 8) + int k \<le> x \<longleftrightarrow> k \<le> nat (x mod 8)" by linarith+
qed

lemma finds_first_byte:
  fixes b :: BS_BYTE
  assumes "\<And>k. bit b k \<longleftrightarrow> k < 8 \<and> 8 * (x div 8) + int k \<in> A"
    and "c = ucast (ucast b AND push_bit (nat (x mod 8)) bs_ONES)"
  shows "finds A x (8 * (x div 8 + 1)) (Inr (if c \<noteq> (0 :: BS_BYTE) then Some (first_one c + 8 * (x div 8)) else None))"
  by (rule byte_finds) (auto simp: assms(2) bit_mask_low assms(1) byte_parts)

lemma finds_last_byte:
  fixes b :: BS_BYTE
  assumes "\<And>k. bit b k \<longleftrightarrow> k < 8 \<and> 8 * (x div 8) + int k \<in> A"
    and "c = ucast (ucast b AND drop_bit (nat (31 - x mod 8)) bs_ONES)"
  shows "finds A (8 * (x div 8)) (x + 1) (Inr (if c \<noteq> (0 :: BS_BYTE) then Some (first_one c + 8 * (x div 8)) else None))"
proof (rule byte_finds)
  fix k :: nat assume "k < 8"
  have "nat (31 - x mod 8) = 31 - nat (x mod 8)" "nat (x mod 8) < 8" by (auto simp: nat_diff_distrib')
  then have "bit c k \<longleftrightarrow> bit b k \<and> k \<le> nat (x mod 8)" unfolding assms(2) by (simp add: bit_masks(4))
  then show "bit c k \<longleftrightarrow> 8 * (x div 8) + int k \<in> A \<and> 8 * (x div 8) \<le> 8 * (x div 8) + int k \<and>
      8 * (x div 8) + int k < x + 1"
    using \<open>k < 8\<close> byte_parts(2) [of x k] by (auto simp: assms(1))
qed linarith+

text \<open>The byte at both ends of a range.\<close>

lemma finds_only_byte:
  fixes b :: BS_BYTE
  assumes "\<And>k. bit b k \<longleftrightarrow> k < 8 \<and> 8 * (x div 8) + int k \<in> A" and "x div 8 = y div 8"
    and "c = ucast (ucast (ucast (ucast b AND push_bit (nat (x mod 8)) bs_ONES) :: BS_BYTE)
      AND drop_bit (nat (31 - y mod 8)) bs_ONES)"
  shows "finds A x (y + 1) (Inr (if c \<noteq> (0 :: BS_BYTE) then Some (first_one c + 8 * (x div 8)) else None))"
proof (rule byte_finds)
  fix k :: nat assume "k < 8"
  have "nat (31 - y mod 8) = 31 - nat (y mod 8)" "nat (y mod 8) < 8" by (auto simp: nat_diff_distrib')
  then have "bit c k \<longleftrightarrow> bit b k \<and> nat (x mod 8) \<le> k \<and> k \<le> nat (y mod 8)"
    unfolding assms(3) by (simp add: bit_masks(4) bit_mask_low)
  then show "bit c k \<longleftrightarrow> 8 * (x div 8) + int k \<in> A \<and> x \<le> 8 * (x div 8) + int k \<and> 8 * (x div 8) + int k < y + 1"
    using \<open>k < 8\<close> byte_parts(1) [of x k] byte_parts(2) [of y k] by (auto simp: assms(1,2))
qed (use assms(2) in linarith)+

lemma next_search:
  assumes "shows_words A n gw" and "shows_bytes A n g" and "0 \<le> x" and "x < 32 * n" and "n < 67108864"
  shows "bindE (g (bs_QBPB x)) (\<lambda>b.
      returnE (Inr (if ucast (ucast (ucast b AND push_bit (nat (bs_RBPB x)) bs_ONES) :: BS_BYTE) \<noteq> bs_ZEROS
        then Some (first_one (ucast (ucast b AND push_bit (nat (bs_RBPB x)) bs_ONES)) + bs_PBPB (bs_QBPB x)) else None))
      (returnE (for_find (bs_QBPB x + 1) (s32 ((bs_QBPW x + 1) * BYTES_PER_BS_WORD)) (\<lambda>i. bindE (g i) (\<lambda>byte.
         Inr (if ucast byte \<noteq> bs_ZEROS then Some (first_one byte + bs_PBPB i) else None))))
      (returnE (for_find (bs_QBPW x + 1) n (\<lambda>i. bindE (gw i) (\<lambda>w.
         if w \<noteq> bs_ZEROS
         then bindE (for_find 0 BYTES_PER_BS_WORD (\<lambda>j. bindE (g (j + bs_PBytesPW i)) (\<lambda>byte.
                Inr (if ucast byte \<noteq> bs_ZEROS then Some (first_one byte + bs_PBPB (j + bs_PBytesPW i)) else None))))
              (\<lambda>r. bindE (Is_True (r \<noteq> None)) (\<lambda>_. Inr r))
         else Inr None)))
      (Inr BS_CHOOSE_FAILURE)))) = Inr (least_from A x (32 * n))"
proof -
  define q where "q = x div 8"
  define w where "w = x div 32"
  have qw: "q < 4 * (w + 1)" "0 \<le> q" "q < 4 * n" "w < n" "x \<le> 8 * (q + 1)" "0 \<le> w"
    using assms(3,4) div_8_32(3) [of x] unfolding q_def w_def by auto
  have mac: "bs_QBPB x = q" "bs_QBPW x = w" "bs_RBPB x = x mod 8" "bs_PBPB q = 8 * q"
    "s32 ((w + 1) * BYTES_PER_BS_WORD) = 4 * (w + 1)"
    using assms(3-5) qw by (simp_all add: bs_arith q_def w_def s32_id BYTES_PER_BS_WORD_def)
  obtain b where b: "g q = Inr b" "\<And>k. bit b k \<longleftrightarrow> k < 8 \<and> 8 * q + int k \<in> A"
    using assms(2) qw unfolding shows_bytes_def by blast
  have words: "returnE (for_find (w + 1) n (\<lambda>i. bindE (gw i) (\<lambda>w.
         if w \<noteq> bs_ZEROS
         then bindE (for_find 0 BYTES_PER_BS_WORD (\<lambda>j. bindE (g (j + bs_PBytesPW i)) (\<lambda>byte.
                Inr (if ucast byte \<noteq> bs_ZEROS then Some (first_one byte + bs_PBPB (j + bs_PBytesPW i)) else None))))
              (\<lambda>r. bindE (Is_True (r \<noteq> None)) (\<lambda>_. Inr r))
         else Inr None)))
      (Inr BS_CHOOSE_FAILURE) = Inr (least_from A (32 * (w + 1)) (32 * n))"
  proof (rule finds_return [where mid = "32 * n", OF finds_words [OF assms(1,2)]], goal_cases)
    case (4 j)
    then have "0 \<le> j" "j < 67108864" using assms(5) qw by auto
    from word_bytes [OF this, of g] show ?case by (simp only: simp_thms)
  qed (use qw in \<open>simp_all add: least_from_empty\<close>)
  have bytes: "finds A (8 * (q + 1)) (32 * (w + 1)) (for_find (q + 1) (4 * (w + 1)) (\<lambda>i. bindE (g i) (\<lambda>byte.
         Inr (if ucast byte \<noteq> bs_ZEROS then Some (first_one byte + bs_PBPB i) else None))))"
  proof (rule finds_bytes [OF assms(2)])
    fix j assume "q + 1 \<le> j" "j < 4 * (w + 1)"
    then have "bs_PBPB j = 8 * j" using qw assms(5) by (intro bs_arith) auto
    then show "bindE (g j) (\<lambda>byte. Inr (if ucast byte \<noteq> bs_ZEROS then Some (first_one byte + bs_PBPB j) else None))
        = bindE (g j) (\<lambda>b. Inr (if b \<noteq> 0 then Some (first_one b + 8 * j) else None))"
      by (simp only: ucast_byte_zero)
  qed (use qw in auto)
  define c where "c = (ucast (ucast b AND push_bit (nat (x mod 8)) bs_ONES) :: BS_BYTE)"
  have "finds A x (8 * (q + 1)) (Inr (if c \<noteq> 0 then Some (first_one c + 8 * q) else None))"
    unfolding q_def by (rule finds_first_byte) (use b(2) in \<open>auto simp: c_def q_def\<close>)
  then have first: "finds A x (8 * (q + 1)) (Inr (if ucast c \<noteq> bs_ZEROS then Some (first_one c + 8 * q) else None))"
    by (simp only: ucast_byte_zero)
  show ?thesis
    unfolding mac b(1) bindE_Inr c_def [symmetric] words
    by (rule finds_return [OF first finds_return [OF bytes refl]]) (use qw in auto)
qed

lemma BS_Choose_Next_least:
  assumes "bs_ok s" and "-1 \<le> x" and "x < 2147483647"
  shows "BS_Choose_Next e s x = Inr (least_from (BS_members e s) (x + 1) (32 * BS_word_count s))"
proof -
  have mac: "s32 (x + 1) = x + 1" "bs_PBPW (BS_word_count s) = 32 * BS_word_count s"
    using assms by (simp_all add: s32_id bs_arith bs_ok_def)
  show ?thesis
  proof (cases "x + 1 \<ge> 32 * BS_word_count s")
    case True
    then show ?thesis unfolding BS_Choose_Next_def Let_def mac by (simp add: least_from_empty)
  next
    case False
    then show ?thesis
      unfolding BS_Choose_Next_def Let_def mac
      using next_search [OF shows_words_set shows_bytes_set, of "x + 1" s e] assms
      by (simp only: if_False bs_ok_def not_le) simp
  qed
qed

lemma BS_Intersection_Choose_Next_least:
  assumes "bs_ok s" and "bs_ok t" and "-1 \<le> x" and "x < 2147483647"
  shows "BS_Intersection_Choose_Next e s t x = Inr (least_from (BS_members e s \<inter> BS_members e t) (x + 1)
    (32 * min (BS_word_count s) (BS_word_count t)))"
proof -
  let ?n = "min (BS_word_count s) (BS_word_count t)"
  have mac: "s32 (x + 1) = x + 1" "bs_PBPW ?n = 32 * ?n" "?n < 67108864"
    using assms by (auto simp: s32_id bs_arith bs_ok_def)
  show ?thesis
  proof (cases "x + 1 \<ge> 32 * ?n")
    case True
    then show ?thesis
      unfolding BS_Intersection_Choose_Next_def Let_def min_if mac by (simp add: least_from_empty)
  next
    case False
    from next_search [OF shows_words_inter shows_bytes_inter, of "x + 1" s t e] False assms(3) mac(3)
    show ?thesis
      unfolding BS_Intersection_Choose_Next_def Let_def min_if mac
      by (simp only: if_False not_le bindE_assoc bindE_Inr) simp
  qed
qed

section \<open>Choosing in a range\<close>

lemma word_bytes_range:
  assumes "0 \<le> i" and "i < 67108864"
  shows "for_find 0 BYTES_PER_BS_WORD (\<lambda>j. bindE (h (j + i * BYTES_PER_BS_WORD)) (\<lambda>b.
      Inr (if b \<noteq> (0 :: BS_BYTE) then Some (first_one b + bs_PBPB j + bs_PBPW i) else None)))
    = for_find (4 * i) (4 * (i + 1)) (\<lambda>q. bindE (h q) (\<lambda>b. Inr (if b \<noteq> 0 then Some (first_one b + 8 * q) else None)))"
proof -
  let ?F = "\<lambda>q. bindE (h q) (\<lambda>b. Inr (if b \<noteq> (0 :: BS_BYTE) then Some (first_one b + 8 * q) else None))"
  have "for_find 0 4 (\<lambda>j. bindE (h (j + i * 4)) (\<lambda>b.
      Inr (if b \<noteq> 0 then Some (first_one b + bs_PBPB j + bs_PBPW i) else None))) = for_find 0 4 (\<lambda>j. ?F (j + 4 * i))"
  proof (rule for_find_cong)
    fix j :: int assume j: "0 \<le> j" "j < 4"
    have pb: "bs_PBPW i = 32 * i" using assms by (intro bs_arith)
    have pj: "bs_PBPB j = 8 * j" using j by (intro bs_arith) auto
    have "f + 8 * j + 32 * i = f + 8 * (j + 4 * i)" for f :: int by simp
    then show "bindE (h (j + i * 4)) (\<lambda>b. Inr (if b \<noteq> 0 then Some (first_one b + bs_PBPB j + bs_PBPW i) else None))
        = ?F (j + 4 * i)" unfolding pb pj by (simp only: mult.commute [of i 4])
  qed
  also have "\<dots> = for_find (4 * i) (4 * i + 4) ?F" by (rule for_find_shift)
  finally have "for_find 0 4 (\<lambda>j. bindE (h (j + i * 4)) (\<lambda>b.
      Inr (if b \<noteq> 0 then Some (first_one b + bs_PBPB j + bs_PBPW i) else None))) = for_find (4 * i) (4 * i + 4) ?F" .
  moreover have "4 * (i + 1) = 4 * i + 4" by simp
  ultimately show ?thesis unfolding BYTES_PER_BS_WORD_def by (simp only:)
qed

lemma range_search_tail:
  assumes "shows_bytes A n g" and "0 \<le> y" and "y < 32 * n" and "n < 67108864"
  shows "bindE (g (y div 8)) (\<lambda>b.
      returnE (Inr (if ucast (ucast b AND drop_bit (nat (31 - y mod 8)) bs_ONES) \<noteq> (0 :: BS_BYTE)
        then Some (first_one (ucast (ucast b AND drop_bit (nat (31 - y mod 8)) bs_ONES)) + bs_PBPB (y div 8)) else None))
      (Inr BS_CHOOSE_FAILURE)) = Inr (least_from A (8 * (y div 8)) (y + 1))"
proof -
  have y: "0 \<le> y div 8" "y div 8 < 4 * n" using assms(2,3) by auto
  then obtain b where b: "g (y div 8) = Inr b" "\<And>k. bit b k \<longleftrightarrow> k < 8 \<and> 8 * (y div 8) + int k \<in> A"
    using assms(1) unfolding shows_bytes_def by blast
  have pb: "bs_PBPB (y div 8) = 8 * (y div 8)" using y assms(4) by (intro bs_arith) auto
  have le: "8 * (y div 8) \<le> y + 1" by linarith
  show ?thesis
    unfolding b(1) bindE_Inr pb
    by (rule finds_return [OF finds_last_byte [OF b(2) refl]]) (use le in \<open>simp_all add: least_from_empty\<close>)
qed

text \<open>
  The three searches between the first byte and the last byte: the rest of the first word, the
  words in between, the bytes of the last word before the last byte.
\<close>

lemma range_search:
  assumes "shows_words A n gw" and "shows_bytes A n g" and "0 \<le> x" and "x \<le> y" and "y < 32 * n"
    and "n < 67108864" and "x div 8 \<noteq> y div 8"
    and tail: "tail = Inr (least_from A (8 * (y div 8)) (y + 1))"
  shows "returnE (for_find (x div 8 + 1) ((if 4 * (x div 32 + 1) - 1 \<ge> y div 8 then y div 8 - 1 else 4 * (x div 32 + 1) - 1) + 1)
        (\<lambda>i. bindE (g i) (\<lambda>byte. Inr (if ucast byte \<noteq> bs_ZEROS then Some (first_one byte + bs_PBPB i) else None))))
      (returnE (for_find (x div 32 + 1) (y div 32) (\<lambda>i. bindE (gw i) (\<lambda>w.
            if w \<noteq> bs_ZEROS
            then for_find 0 BYTES_PER_BS_WORD (\<lambda>j. bindE (g (j + i * BYTES_PER_BS_WORD)) (\<lambda>byte.
              Inr (if byte \<noteq> 0 then Some (first_one byte + bs_PBPB j + bs_PBPW i) else None)))
            else Inr None)))
      (returnE (for_find (4 * max (x div 32 + 1) (y div 32)) (y div 8)
        (\<lambda>i. bindE (g i) (\<lambda>byte. Inr (if byte \<noteq> 0 then Some (first_one byte + 8 * i) else None))))
      tail)) = Inr (least_from A (8 * (x div 8 + 1)) (y + 1))"
proof -
  define fb lb fw lw where d: "fb = x div 8" "lb = y div 8" "fw = x div 32" "lw = y div 32"
  have le: "fb < lb" "fw \<le> lw" "0 \<le> fw" "fb < 4 * (fw + 1)" "4 * lw \<le> lb" "lb < 4 * (lw + 1)"
      "lw < n" "0 \<le> fb" "lb < 4 * n" "8 * lb \<le> y + 1"
    using assms(3-5,7) div_8_32(2,3) zdiv_mono1 [OF assms(4), of 8] zdiv_mono1 [OF assms(4), of 32]
    unfolding d by auto
  have third: "returnE (for_find (4 * max (fw + 1) lw) lb
        (\<lambda>i. bindE (g i) (\<lambda>byte. Inr (if byte \<noteq> 0 then Some (first_one byte + 8 * i) else None)))) tail
      = Inr (least_from A (8 * min (4 * max (fw + 1) lw) lb) (y + 1))"
  proof (cases "4 * max (fw + 1) lw \<le> lb")
    case True
    have "finds A (8 * (4 * max (fw + 1) lw)) (8 * lb) (for_find (4 * max (fw + 1) lw) lb
        (\<lambda>i. bindE (g i) (\<lambda>byte. Inr (if byte \<noteq> 0 then Some (first_one byte + 8 * i) else None))))"
      by (rule finds_bytes [OF assms(2)]) (use True le in auto)
    from finds_return [OF this tail [folded d]] True le show ?thesis by (simp add: min_absorb1)
  next
    case False
    then show ?thesis by (simp add: tail [folded d] min_absorb2)
  qed
  have second: "returnE (for_find (fw + 1) lw (\<lambda>i. bindE (gw i) (\<lambda>w.
            if w \<noteq> bs_ZEROS
            then for_find 0 BYTES_PER_BS_WORD (\<lambda>j. bindE (g (j + i * BYTES_PER_BS_WORD)) (\<lambda>byte.
              Inr (if byte \<noteq> 0 then Some (first_one byte + bs_PBPB j + bs_PBPW i) else None)))
            else Inr None)))
      (Inr (least_from A (8 * min (4 * max (fw + 1) lw) lb) (y + 1)))
      = Inr (least_from A (8 * min (4 * (fw + 1)) lb) (y + 1))"
  proof (cases "fw + 1 \<le> lw")
    case True
    then have m: "8 * min (4 * max (fw + 1) lw) lb = 32 * lw" "8 * min (4 * (fw + 1)) lb = 32 * (fw + 1)"
      using le by auto
    show ?thesis unfolding m
    proof (rule finds_return [where mid = "32 * lw", OF finds_words [OF assms(1,2)]], goal_cases)
      case (4 j)
      then have "0 \<le> j" "j < 67108864" using assms(6) le by auto
      from word_bytes_range [OF this, of g] show ?case by (simp only: simp_thms)
    qed (use True le in auto)
  next
    case False
    then show ?thesis using le by simp
  qed
  have stop: "(if 4 * (fw + 1) - 1 \<ge> lb then lb - 1 else 4 * (fw + 1) - 1) + 1 = min (4 * (fw + 1)) lb"
    by auto
  have first: "finds A (8 * (fb + 1)) (8 * min (4 * (fw + 1)) lb) (for_find (fb + 1) (min (4 * (fw + 1)) lb)
      (\<lambda>i. bindE (g i) (\<lambda>byte. Inr (if ucast byte \<noteq> bs_ZEROS then Some (first_one byte + bs_PBPB i) else None))))"
  proof (rule finds_bytes [OF assms(2)])
    fix j assume "fb + 1 \<le> j" "j < min (4 * (fw + 1)) lb"
    then have "bs_PBPB j = 8 * j" using le assms(6) by (intro bs_arith) auto
    then show "bindE (g j) (\<lambda>byte. Inr (if ucast byte \<noteq> bs_ZEROS then Some (first_one byte + bs_PBPB j) else None))
        = bindE (g j) (\<lambda>b. Inr (if b \<noteq> 0 then Some (first_one b + 8 * j) else None))"
      by (simp only: ucast_byte_zero)
  qed (use le in auto)
  show ?thesis
    unfolding d [symmetric] stop third second
    by (rule finds_return [OF first refl]) (use le in \<open>auto simp: min_def\<close>)
qed

lemma BS_Choose_Range_least:
  assumes "bs_ok s" and "0 \<le> low" and "low \<le> high + 1" and "high < 2147483648"
  shows "BS_Choose_Range e s low high = Inr (least_from (BS_members e s) low (high + 1))"
proof -
  let ?A = "BS_members e s" and ?n = "BS_word_count s"
  define hi where "hi = (if high > 32 * ?n - 1 then 32 * ?n - 1 else high)"
  have n: "?n < 67108864" using assms(1) by (simp add: bs_ok_def)
  have "{y \<in> ?A. low \<le> y \<and> y < high + 1} = {y \<in> ?A. low \<le> y \<and> y < hi + 1}"
    using members_range [of e s] unfolding hi_def by (auto simp: not_less)
  then have cap: "least_from ?A low (high + 1) = least_from ?A low (hi + 1)"
    unfolding least_from_def by (metis (lifting) Collect_empty_eq)
  have pw: "bs_PBPW ?n - 1 = 32 * ?n - 1" using n by (simp add: bs_arith)
  show ?thesis
  proof (cases "low > hi")
    case True
    then show ?thesis
      unfolding BS_Choose_Range_def Let_def pw hi_def [symmetric]
      using assms(2,3) by (simp add: cap least_from_empty)
  next
    case False
    then have x: "0 \<le> low" "low \<le> hi" "hi < 32 * ?n" using assms(2) unfolding hi_def by auto
    define fb lb fw lw where d: "fb = low div 8" "lb = hi div 8" "fw = low div 32" "lw = hi div 32"
    have le: "0 \<le> fb" "fb < 4 * ?n" "0 \<le> fw" "fw < ?n" "lw < ?n" "low \<le> 8 * (fb + 1)" "8 * fb \<le> low" "fb \<le> lb"
      using x unfolding d by (auto intro: zdiv_mono1)
    have mac: "bs_QBPB low = fb" "bs_QBPB hi = lb" "bs_QBPW low = fw" "bs_QBPW hi = lw" "bs_PBPB fb = 8 * fb"
        "s32 ((fw + 1) * BYTES_PER_BS_WORD - 1) = 4 * (fw + 1) - 1"
        "s32 (max (fw + 1) lw * BYTES_PER_BS_WORD) = 4 * max (fw + 1) lw"
        "BITS_PER_BS_WORD - 1 = 31"
      using x n le unfolding d(1,2) by (auto simp: bs_arith s32_id bs_consts d(3,4) max_def)
    obtain b where b: "BS_byte e s fb = Inr b" "\<And>k. bit b k \<longleftrightarrow> k < 8 \<and> 8 * fb + int k \<in> ?A"
      using shows_bytes_set [of e s] le unfolding shows_bytes_def by blast
    show ?thesis
    proof (cases "fb = lb")
      case True
      have found: "returnE (Inr (if ucast (ucast (ucast (ucast b AND push_bit (nat (low mod 8)) bs_ONES) :: BS_BYTE)
            AND drop_bit (nat (31 - hi mod 8)) bs_ONES) \<noteq> (0 :: BS_BYTE)
          then Some (first_one (ucast (ucast (ucast (ucast b AND push_bit (nat (low mod 8)) bs_ONES) :: BS_BYTE)
            AND drop_bit (nat (31 - hi mod 8)) bs_ONES)) + 8 * fb) else None)) (Inr BS_CHOOSE_FAILURE)
          = (Inr (least_from ?A low (hi + 1)) :: BS_ELT res)"
        unfolding d by (rule finds_return [OF finds_only_byte [OF _ _ refl]])
          (use b(2) True x in \<open>auto simp: d least_from_empty\<close>)
      have c: "(low \<ge> 0) = True" "(high - low \<ge> -1) = True" "(low > hi) = False" "(fb = lb) = True"
        using True False assms(2,3) by auto
      show ?thesis
        unfolding BS_Choose_Range_def Let_def pw hi_def [symmetric] mac b(1) bindE_Inr bs_arith(5) cap
        by (simp only: c if_True if_False ucast_byte_zero Is_True_simps bindE_Inr found)
    next
      case neq: False
      have "8 * lb \<le> hi" unfolding d by simp
      then have last: "8 * (fb + 1) \<le> hi + 1" using neq le(8) by simp
      have found: "returnE (Inr (if ucast (ucast b AND push_bit (nat (low mod 8)) bs_ONES) \<noteq> (0 :: BS_BYTE)
          then Some (first_one (ucast (ucast b AND push_bit (nat (low mod 8)) bs_ONES)) + 8 * fb) else None))
          (Inr (least_from ?A (8 * (fb + 1)) (hi + 1))) = (Inr (least_from ?A low (hi + 1)) :: BS_ELT res)"
        unfolding d
        by (rule finds_return [OF finds_first_byte [OF b(2) [unfolded d] refl] refl le(6) [unfolded d] last [unfolded d]])
      have "0 \<le> hi" "low div 8 \<noteq> hi div 8" using x neq unfolding d by auto
      note rest = range_search [OF shows_words_set shows_bytes_set x n this(2)
          range_search_tail [OF shows_bytes_set this(1) x(3) n, of e], folded d]
      have c: "(low \<ge> 0) = True" "(high - low \<ge> -1) = True" "(low > hi) = False" "(fb = lb) = False"
        using neq False assms(2,3) by auto
      show ?thesis
        unfolding BS_Choose_Range_def Let_def pw hi_def [symmetric] mac b(1) bindE_Inr bs_arith(5) cap
        by (simp only: c if_True if_False Is_True_simps bindE_Inr rest) (simp only: ucast_byte_zero found)
    qed
  qed
qed

section \<open>Looping over the members\<close>

text \<open>
  The loop of the interface comment, \<^verbatim>\<open>for (elt = BS_Choose(set); elt != BS_CHOOSE_FAILURE;
  elt = BS_Choose_Next(set, elt))\<close>, with the elements it visits as its result. The fuel bounds
  the number of rounds; running out of it is \<open>Diverges\<close>.
\<close>

fun member_loop :: "nat \<Rightarrow> (BS_ELT \<Rightarrow> BS_ELT res) \<Rightarrow> BS_ELT \<Rightarrow> BS_ELT list res" where
  "member_loop 0 next_elt elt = Inl Diverges"
| "member_loop (Suc fuel) next_elt elt =
     (if elt = BS_CHOOSE_FAILURE then Inr []
      else bindE (next_elt elt) (\<lambda>elt'.
           bindE (member_loop fuel next_elt elt') (\<lambda>elts. Inr (elt # elts))))"

definition BS_for_all :: "endian \<Rightarrow> BS \<Rightarrow> BS_ELT list res" where
  "BS_for_all e bs =
     bindE (BS_Choose e bs) (member_loop (Suc (nat (32 * BS_word_count bs))) (BS_Choose_Next e bs))"

definition BS_Intersection_for_all :: "endian \<Rightarrow> BS \<Rightarrow> BS \<Rightarrow> BS_ELT list res" where
  "BS_Intersection_for_all e set1 set2 =
     bindE (BS_Intersection_Choose e set1 set2)
       (member_loop (Suc (nat (32 * BS_word_count set1))) (BS_Intersection_Choose_Next e set1 set2))"

section \<open>Printing\<close>

text \<open>\<^verbatim>\<open>fprintf\<close> with \<^verbatim>\<open>%d\<close>: the decimal digits, after a minus sign if negative.\<close>

fun digits :: "nat \<Rightarrow> string" where
  "digits n = (if n < 10 then [char_of (48 + n)] else digits (n div 10) @ [char_of (48 + n mod 10)])"

declare digits.simps [simp del]

definition fprintf_d :: "int \<Rightarrow> string" where
  "fprintf_d n = (if n < 0 then ''-'' @ digits (nat (- n)) else digits (nat n))"

definition PrintRange :: "BS_ELT \<Rightarrow> BS_ELT \<Rightarrow> bool \<times> string \<Rightarrow> bool \<times> string" where
  "PrintRange low high st =
     (let (first, f) = st;
          (first, f) = (if first then (False, f) else (first, f @ '','')) in
      (first, f @ (if low = high then fprintf_d low
                   else fprintf_d low @ ''-'' @ fprintf_d high)))"

fun BS_Print_loop :: "nat \<Rightarrow> endian \<Rightarrow> BS \<Rightarrow> BS_ELT \<Rightarrow> BS_ELT \<Rightarrow> BS_ELT \<Rightarrow> bool \<times> string \<Rightarrow>
    (BS_ELT \<times> BS_ELT \<times> bool \<times> string) res" where
  "BS_Print_loop 0 e bs elt range_first last_elt st = Inl Diverges"
| "BS_Print_loop (Suc fuel) e bs elt range_first last_elt st =
     bindE (BS_Choose_Next e bs elt) (\<lambda>elt.
     if elt = BS_CHOOSE_FAILURE then Inr (range_first, last_elt, st)
     else let (range_first, st) = (if elt \<noteq> last_elt + 1
                                   then (elt, PrintRange range_first last_elt st)
                                   else (range_first, st)) in
          BS_Print_loop fuel e bs elt range_first elt st)"

definition BS_Print :: "endian \<Rightarrow> BS option \<Rightarrow> string res" where
  "BS_Print e set_arg =
     (case set_arg of
        None \<Rightarrow> Inr ''<NULL>''
      | Some bs \<Rightarrow>
          bindE (BS_Choose e bs) (\<lambda>elt.
          if elt = BS_CHOOSE_FAILURE then Inr (''{'' @ ''}'')
          else
            bindE (BS_Print_loop (Suc (nat (32 * BS_word_count bs))) e bs elt elt elt (True, ''{''))
              (\<lambda>(range_first, last_elt, st).
            Inr (snd (PrintRange range_first last_elt st) @ ''}''))))"

definition BS_Print_dbg :: "endian \<Rightarrow> BS option \<Rightarrow> string res" where
  "BS_Print_dbg e set_arg = bindE (BS_Print e set_arg) (\<lambda>out. Inr (out @ [char_of (10 :: nat)]))"

section \<open>The contract of a chooser\<close>

locale chooser =
  fixes ok :: "'s \<Rightarrow> bool" and members :: "'s \<Rightarrow> int set"
    and first_elt :: "'s \<Rightarrow> int res" and next_elt :: "'s \<Rightarrow> int \<Rightarrow> int res"
  assumes finite_set: "finite (members s)"
    and nonneg: "x \<in> members s \<Longrightarrow> 0 \<le> x"
    and choose_least: "ok s \<Longrightarrow>
      first_elt s = Inr (if members s = {} then BS_CHOOSE_FAILURE else Min (members s))"
    and next_least: "ok s \<Longrightarrow> x \<in> members s \<Longrightarrow> next_elt s x =
      Inr (if {y \<in> members s. x < y} = {} then BS_CHOOSE_FAILURE else Min {y \<in> members s. x < y})"
begin

lemma finite_above: "finite {y \<in> members s. x < y}"
  using finite_set [of s] by simp

lemma next_cases:
  assumes "ok s" and "x \<in> members s"
  obtains "{y \<in> members s. x < y} = {}" "next_elt s x = Inr BS_CHOOSE_FAILURE"
  | z where "z \<in> members s" "x < z" "next_elt s x = Inr z" "z \<noteq> BS_CHOOSE_FAILURE"
    "sorted_list_of_set {y \<in> members s. x < y} = z # sorted_list_of_set {y \<in> members s. z < y}"
    "card {y \<in> members s. x < y} = Suc (card {y \<in> members s. z < y})"
proof (cases "{y \<in> members s. x < y} = {}")
  case True
  then show thesis using that(1) next_least [OF assms] by simp
next
  case False
  let ?B = "{y \<in> members s. x < y}"
  let ?z = "Min ?B"
  have z: "?z \<in> ?B" using Min_in [OF finite_above False] .
  have "?B - {?z} = {y \<in> members s. ?z < y}"
    using z Min_le [OF finite_above [of s x]] by force
  moreover have "0 \<le> ?z" using z nonneg by blast
  moreover have "Suc (card (?B - {?z})) = card ?B" using card_Suc_Diff1 [OF finite_above z] .
  ultimately show thesis
    using that(2) [of ?z] z next_least [OF assms] False sorted_list_of_set_nonempty [OF finite_above False]
    by (simp add: BS_CHOOSE_FAILURE_def)
qed

text \<open>
  The loop visits every member exactly once, in increasing order, and ends: fuel for one more
  round than there are members is enough.
\<close>

lemma loop_from:
  assumes "ok s" and "x \<in> members s" and "Suc (card {y \<in> members s. x < y}) < fuel"
  shows "member_loop fuel (next_elt s) x = Inr (x # sorted_list_of_set {y \<in> members s. x < y})"
  using assms(2,3)
proof (induction fuel arbitrary: x)
  case (Suc fuel)
  have x: "x \<noteq> BS_CHOOSE_FAILURE" using nonneg [OF Suc.prems(1)] by (simp add: BS_CHOOSE_FAILURE_def)
  show ?case
  proof (rule next_cases [OF assms(1) Suc.prems(1)])
    assume none: "{y \<in> members s. x < y} = {}" "next_elt s x = Inr BS_CHOOSE_FAILURE"
    then obtain f where "fuel = Suc f" using Suc.prems(2) by (cases fuel) auto
    then show ?thesis using none(2) x unfolding none(1) by simp
  next
    fix z assume z: "z \<in> members s" "next_elt s x = Inr z"
      "sorted_list_of_set {y \<in> members s. x < y} = z # sorted_list_of_set {y \<in> members s. z < y}"
      "card {y \<in> members s. x < y} = Suc (card {y \<in> members s. z < y})"
    have "member_loop fuel (next_elt s) z = Inr (z # sorted_list_of_set {y \<in> members s. z < y})"
      using Suc.prems(2) z(1,4) by (intro Suc.IH) auto
    then show ?thesis using x z(2,3) by simp
  qed
qed simp

lemma loop_enumerates:
  assumes "ok s" and "card (members s) < fuel"
  shows "bindE (first_elt s) (member_loop fuel (next_elt s)) = Inr (sorted_list_of_set (members s))"
proof (cases "members s = {}")
  case True
  with assms obtain f where "fuel = Suc f" by (cases fuel) auto
  with True show ?thesis using choose_least [OF assms(1)] by simp
next
  case False
  let ?m = "Min (members s)"
  have m: "?m \<in> members s" using Min_in [OF finite_set False] .
  have eq: "members s - {?m} = {y \<in> members s. ?m < y}"
    using m Min_le [OF finite_set [of s]] by force
  have "Suc (card (members s - {?m})) = card (members s)" using card_Suc_Diff1 [OF finite_set m] .
  then have "member_loop fuel (next_elt s) ?m = Inr (?m # sorted_list_of_set {y \<in> members s. ?m < y})"
    using assms m by (intro loop_from) (auto simp: eq)
  then show ?thesis
    using choose_least [OF assms(1)] False sorted_list_of_set_nonempty [OF finite_set False]
    by (simp add: eq)
qed

end

lemma least_from_after:
  assumes "A \<subseteq> {0..<n}"
  shows "least_from A (x + 1) n = (if {y \<in> A. x < y} = {} then BS_CHOOSE_FAILURE else Min {y \<in> A. x < y})"
proof -
  have "{y \<in> A. x + 1 \<le> y \<and> y < n} = {y \<in> A. x < y}" using assms by auto
  then show ?thesis unfolding least_from_def by (metis (lifting) Collect_empty_eq)
qed

lemma member_bounds:
  assumes "bs_ok s" and "x \<in> BS_members e s"
  shows "- 1 \<le> x" "x < 2147483647"
  using members_range [of e s] assms by (auto simp: bs_ok_def)

interpretation one_set: chooser bs_ok "BS_members e" "BS_Choose e" "BS_Choose_Next e" for e
  by unfold_locales
    (auto simp: finite_members members_nonneg BS_Choose_least least_from_all [OF members_range]
      BS_Choose_Next_least member_bounds least_from_after [OF members_range])

interpretation two_sets: chooser "\<lambda>(s, t). bs_ok s \<and> bs_ok t"
    "\<lambda>(s, t). BS_members e s \<inter> BS_members e t"
    "\<lambda>(s, t). BS_Intersection_Choose e s t"
    "\<lambda>(s, t). BS_Intersection_Choose_Next e s t" for e
proof (unfold_locales, goal_cases)
  case (3 p)
  then show ?case
    by (cases p) (simp only: prod.case BS_Intersection_Choose_least least_from_all [OF inter_range])
next
  case (4 p x)
  obtain s t where p: "p = (s, t)" by (cases p)
  have "- 1 \<le> x" "x < 2147483647" using 4 member_bounds [of s x e] by (auto simp: p)
  then show ?case
    using 4 unfolding p prod.case
    by (simp only: BS_Intersection_Choose_Next_least least_from_after [OF inter_range])
qed (auto simp: finite_members members_nonneg)

section \<open>What is printed\<close>

text \<open>
  The maximal runs of consecutive elements of an increasing list, and their text. The printed
  ranges cover exactly the elements and no two of them touch.
\<close>

fun runs_from :: "int \<Rightarrow> int \<Rightarrow> int list \<Rightarrow> (int \<times> int) list" where
  "runs_from lo hi [] = [(lo, hi)]"
| "runs_from lo hi (x # xs) = (if x \<noteq> hi + 1 then (lo, hi) # runs_from x x xs else runs_from lo x xs)"

fun runs :: "int list \<Rightarrow> (int \<times> int) list" where
  "runs [] = []"
| "runs (x # xs) = runs_from x x xs"

definition range_text :: "int \<times> int \<Rightarrow> string" where
  "range_text r = (if fst r = snd r then fprintf_d (fst r) else fprintf_d (fst r) @ ''-'' @ fprintf_d (snd r))"

fun ranges_text :: "bool \<Rightarrow> (int \<times> int) list \<Rightarrow> string" where
  "ranges_text first [] = []"
| "ranges_text first (r # rs) = (if first then [] else '','') @ range_text r @ ranges_text False rs"

lemma PrintRange_eq:
  "PrintRange lo hi (first, f) = (False, f @ (if first then [] else '','') @ range_text (lo, hi))"
  by (simp add: PrintRange_def range_text_def)

lemma runs_from_cover:
  assumes "lo \<le> hi" and "sorted_wrt (<) (hi # xs)"
  shows "(\<Union>(l, h) \<in> set (runs_from lo hi xs). {l..h}) = {lo..hi} \<union> set xs"
  using assms
proof (induction xs arbitrary: lo hi)
  case (Cons x xs)
  show ?case
  proof (cases "x = hi + 1")
    case True
    then have "{lo..x} = insert x {lo..hi}" using Cons.prems(1) by auto
    then show ?thesis using Cons.IH [of lo x] Cons.prems True by auto
  next
    case False
    then show ?thesis using Cons.IH [of x x] Cons.prems by auto
  qed
qed simp

lemma runs_from_apart:
  assumes "lo \<le> hi" and "sorted_wrt (<) (hi # xs)"
  shows "sorted_wrt (\<lambda>a b. snd a + 1 < fst b) (runs_from lo hi xs) \<and>
    (\<forall>r \<in> set (runs_from lo hi xs). lo \<le> fst r \<and> fst r \<le> snd r)"
  using assms
proof (induction xs arbitrary: lo hi)
  case (Cons x xs)
  show ?case
  proof (cases "x = hi + 1")
    case True
    then show ?thesis using Cons.IH [of lo x] Cons.prems by auto
  next
    case False
    then show ?thesis using Cons.IH [of x x] Cons.prems by force
  qed
qed simp

lemma Print_loop_text:
  assumes "bs_ok s" and "elt \<in> BS_members e s" and "card {y \<in> BS_members e s. elt < y} < fuel"
  shows "\<exists>lo hi st. BS_Print_loop fuel e s elt rf elt (first, f) = Inr (lo, hi, st) \<and>
    snd (PrintRange lo hi st) =
      f @ ranges_text first (runs_from rf elt (sorted_list_of_set {y \<in> BS_members e s. elt < y}))"
  using assms(2,3)
proof (induction fuel arbitrary: elt rf first f)
  case (Suc fuel)
  show ?case
  proof (rule one_set.next_cases [OF assms(1) Suc.prems(1)])
    assume none: "{y \<in> BS_members e s. elt < y} = {}" "BS_Choose_Next e s elt = Inr BS_CHOOSE_FAILURE"
    show ?thesis using none(2) unfolding none(1) by (simp add: PrintRange_eq)
  next
    fix z assume z: "z \<in> BS_members e s" "BS_Choose_Next e s elt = Inr z" "z \<noteq> BS_CHOOSE_FAILURE"
      "sorted_list_of_set {y \<in> BS_members e s. elt < y} = z # sorted_list_of_set {y \<in> BS_members e s. z < y}"
      "card {y \<in> BS_members e s. elt < y} = Suc (card {y \<in> BS_members e s. z < y})"
    have fuel: "card {y \<in> BS_members e s. z < y} < fuel" using Suc.prems(2) z(5) by simp
    show ?thesis
    proof (cases "z = elt + 1")
      case True
      then show ?thesis using Suc.IH [OF z(1) fuel, of rf first f] z(2,3) unfolding z(4) by simp
    next
      case False
      then show ?thesis
        using Suc.IH [OF z(1) fuel, of z False "f @ (if first then [] else '','') @ range_text (rf, elt)"] z(2,3)
        unfolding z(4) by (simp add: PrintRange_eq [of rf elt first f])
    qed
  qed
qed simp

lemma BS_Print_text:
  assumes "bs_ok s"
  shows "BS_Print e (Some s) =
    Inr (''{'' @ ranges_text True (runs (sorted_list_of_set (BS_members e s))) @ ''}'')"
proof (cases "BS_members e s = {}")
  case True
  then show ?thesis using one_set.choose_least [OF assms, of e] by (simp add: BS_Print_def)
next
  case False
  let ?m = "Min (BS_members e s)"
  have m: "?m \<in> BS_members e s" using Min_in [OF finite_members False] .
  have c: "BS_Choose e s = Inr ?m" "?m \<noteq> BS_CHOOSE_FAILURE"
    using one_set.choose_least [OF assms, of e] False members_nonneg [OF m] by (simp_all add: BS_CHOOSE_FAILURE_def)
  have eq: "BS_members e s - {?m} = {y \<in> BS_members e s. ?m < y}"
    using m Min_le [OF finite_members [of e s]] by force
  have "card {y \<in> BS_members e s. ?m < y} \<le> card (BS_members e s)"
    by (rule card_mono) (auto simp: finite_members)
  then have "card {y \<in> BS_members e s. ?m < y} < Suc (nat (32 * BS_word_count s))"
    using members_small_card [of e s] by (simp add: BS_word_count_def)
  from Print_loop_text [OF assms m this, of ?m True "''{''"]
  show ?thesis
    using c sorted_list_of_set_nonempty [OF finite_members False] unfolding eq
    by (auto simp: BS_Print_def)
qed

lemma runs_partition:
  assumes "sorted_wrt (<) xs"
  shows "(\<Union>(l, h) \<in> set (runs xs). {l..h}) = set xs" "sorted_wrt (\<lambda>a b. snd a + 1 < fst b) (runs xs)"
    "\<forall>r \<in> set (runs xs). fst r \<le> snd r"
proof -
  show "(\<Union>(l, h) \<in> set (runs xs). {l..h}) = set xs"
  proof (cases xs)
    case (Cons x ys)
    then show ?thesis using runs_from_cover [of x x ys] assms by simp
  qed simp
  show "sorted_wrt (\<lambda>a b. snd a + 1 < fst b) (runs xs)" "\<forall>r \<in> set (runs xs). fst r \<le> snd r"
    using runs_from_apart [of "hd xs" "hd xs" "tl xs"] assms by (cases xs; simp)+
qed

end
