(* ===== verification/Bitset_Properties.thy ===== *)
theory Bitset_Properties
  imports Bitset_Choose
begin

unbundle bit_operations_syntax

text \<open>
  The properties of the bit-set package, each stated over the translated operations and the set
  of integers \<open>BS_members\<close> a representation stands for, in either byte order. Operations that
  allocate take a pool that satisfies the contract \<open>bs_pool\<close>; the witnesses use the pool of the
  checking build.
\<close>

lemmas pool_ok_witness = memory_pool.bs_pool_axioms

text \<open>
  \<open>yields m n A\<close>: the operation \<open>m\<close> succeeds with a bit set of \<open>n\<close> words that represents the set
  \<open>A\<close>, whichever byte order the machine has.
\<close>

definition yields :: "BS res \<Rightarrow> int \<Rightarrow> (endian \<Rightarrow> int set) \<Rightarrow> bool" where
  "yields m n A \<longleftrightarrow> (\<exists>t. m = Inr t \<and> BS_word_count t = n \<and> (\<forall>e. BS_members e t = A e))"

lemma yieldsI:
  "\<exists>t. m = Inr t \<and> BS_word_count t = n \<and> (\<forall>e. BS_members e t = A e) \<Longrightarrow> n = n' \<Longrightarrow> (\<And>e. A e = B e) \<Longrightarrow>
   yields m n' B"
  by (simp add: yields_def)

section \<open>The set algebra\<close>



text \<open>
  the intersection operations. The replacing form needs a result with room for the common
  words; it clears the words beyond them.
\<close>

theorem intersection_operations:
  assumes "bs_pool pool" and "min (BS_word_count set1) (BS_word_count set2) \<le> BS_word_count result"
  shows "yields (BS_Intersection set1 set2 pool) (min (BS_word_count set1) (BS_word_count set2))
      (\<lambda>e. BS_members e set1 \<inter> BS_members e set2) \<and>
    yields (BS_IntersectionD set1 set2) (BS_word_count set1) (\<lambda>e. BS_members e set1 \<inter> BS_members e set2) \<and>
    yields (BS_IntersectionR result set1 set2) (BS_word_count result)
      (\<lambda>e. BS_members e set1 \<inter> BS_members e set2)"
proof -
  note rules = bs_pool.BS_Intersection_ok [OF assms(1)] BS_IntersectionD_ok BS_IntersectionR_ok [OF assms(2)]
  show ?thesis by (intro conjI; rule yieldsI, rule rules) auto
qed

theorem intersection_operations_witness:
  "yields (BS_IntersectionR [7, 7, 7] [3] [5, 1]) 3 (\<lambda>e. BS_members e [3] \<inter> BS_members e [5, 1])"
  using intersection_operations [OF pool_ok_witness [of False], of "[3]" "[5, 1]" "[7, 7, 7]"]
  by (simp add: BS_word_count_def)

text \<open>
  the difference operations, for two sets and for a set and one element. Removing an element
  beyond the words of a set leaves the set as it is.
\<close>

theorem difference_operations:
  assumes "bs_pool pool" and "0 \<le> x" and "x < 2147483648"
  shows "yields (BS_Difference set1 set2 pool) (BS_word_count set1)
      (\<lambda>e. BS_members e set1 - BS_members e set2) \<and>
    yields (BS_DifferenceD set1 set2) (BS_word_count set1) (\<lambda>e. BS_members e set1 - BS_members e set2) \<and>
    (\<exists>t. BS_Difference1 e set1 x pool = Inr t \<and> BS_members e t = BS_members e set1 - {x} \<and>
      BS_word_count t = BS_word_count set1) \<and>
    (\<exists>t. BS_Difference1D e set1 x = Inr t \<and> BS_members e t = BS_members e set1 - {x} \<and>
      BS_word_count t = BS_word_count set1)"
  by (intro conjI bs_pool.BS_Difference1_ok [OF assms] BS_Difference1D_ok [OF assms(2,3)]
    yieldsI [OF bs_pool.BS_Difference_ok [OF assms(1)]] yieldsI [OF BS_DifferenceD_ok]) auto

theorem difference_operations_witness:
  "(\<exists>t. BS_Difference1 Big_Endian [6, 1] 33 (memory_pool True) = Inr t \<and>
     BS_members Big_Endian t = BS_members Big_Endian [6, 1] - {33} \<and> BS_word_count t = 2)"
  using difference_operations [OF pool_ok_witness [of True], of 33 "[6, 1]" "[2]" Big_Endian]
  by (simp add: BS_word_count_def)

text \<open>
  C2: insert and look up. After \<^verbatim>\<open>BS_Union1D\<close> or \<^verbatim>\<open>BS_Union1\<close> of \<open>x\<close> the membership test is true of
  \<open>x\<close> and unchanged elsewhere, whether or not the set had to grow to hold \<open>x\<close>.
\<close>

theorem insert_then_member:
  assumes "bs_pool pool" and "bs_ok s" and "0 \<le> x" and "x < 2147483647" and "0 \<le> y" and "y < 2147483648"
  shows "bindE (BS_Union1D e s x pool) (\<lambda>t. BS_MemberP e t y) =
      bindE (BS_MemberP e s y) (\<lambda>b. Inr (y = x \<or> b)) \<and>
    bindE (BS_Union1 e s x pool) (\<lambda>t. BS_MemberP e t y) =
      bindE (BS_MemberP e s y) (\<lambda>b. Inr (y = x \<or> b)) \<and>
    BS_MemberP e s y = Inr (y \<in> BS_members e s)"
proof -
  obtain t where "BS_Union1D e s x pool = Inr t" "BS_members e t = insert x (BS_members e s)"
    using bs_pool.BS_Union1D_ok [OF assms(1,3), of e s] assms(4) by auto
  moreover obtain u where "BS_Union1 e s x pool = Inr u" "BS_members e u = insert x (BS_members e s)"
    using bs_pool.BS_Union1_ok [OF assms(1,3,4,2), of e] by auto
  ultimately show ?thesis by (simp add: BS_MemberP_ok [OF assms(5,6)])
qed

theorem insert_then_member_witness:
  "bindE (BS_Union1D Little_Endian [1] 100 (memory_pool False)) (\<lambda>t. BS_MemberP Little_Endian t 100) =
     bindE (BS_MemberP Little_Endian [1] 100) (\<lambda>b. Inr (100 = (100 :: int) \<or> b))"
  using insert_then_member [OF pool_ok_witness [of False], of "[1]" 100 100 Little_Endian]
  by (simp add: bs_ok_def BS_word_count_def)



text \<open>
  the five fused replacing operations. On sets of one size they overwrite the words of the
  result that the operands have. Words of a longer result keep their elements.
\<close>

theorem fused_replacements:
  assumes "bs_pool pool" and "BS_word_count set1 = n" and "BS_word_count set2 = n" and "BS_word_count set3 = n"
    and "BS_word_count set4 = n" and "BS_word_count set5 = n" and "BS_word_count set6 = n"
    and "n < 9223372036854775808"
  shows "yields (BS_2_1_Minus_3_Or_R result set1 set2 set3 pool) (grown_length result n)
      (\<lambda>e. ((BS_members e set2 - BS_members e set1) \<union> BS_members e set3) \<union>
        {x \<in> BS_members e result. 32 * n \<le> x}) \<and>
    yields (BS_2_1_Minus_3_Or_4_And_R result set1 set2 set3 set4 pool) (grown_length result n)
      (\<lambda>e. ((BS_members e set2 - BS_members e set1) \<union> BS_members e set3) \<inter> BS_members e set4 \<union>
        {x \<in> BS_members e result. 32 * n \<le> x}) \<and>
    yields (BS_2_1_Minus_3_Or_4_And_5_And_6_And_R result set1 set2 set3 set4 set5 set6 pool) (grown_length result n)
      (\<lambda>e. ((BS_members e set2 - BS_members e set1) \<union> BS_members e set3) \<inter> BS_members e set4 \<inter>
          BS_members e set5 \<inter> BS_members e set6 \<union>
        {x \<in> BS_members e result. 32 * n \<le> x}) \<and>
    yields (BS_1_Not_2_Or_3_Minus_4_And_R result set1 set2 set3 set4 pool) (grown_length result n)
      (\<lambda>e. ((- BS_members e set1 \<union> BS_members e set2) - BS_members e set3) \<inter> BS_members e set4 \<union>
        {x \<in> BS_members e result. 32 * n \<le> x}) \<and>
    yields (BS_1_2_Or_3_And_R result set1 set2 set3 pool) (grown_length result n)
      (\<lambda>e. (BS_members e set1 \<union> BS_members e set2) \<inter> BS_members e set3 \<union>
        {x \<in> BS_members e result. 32 * n \<le> x})"
proof -
  note rules = bs_pool.BS_2_1_Minus_3_Or_R_ok bs_pool.BS_2_1_Minus_3_Or_4_And_R_ok
    bs_pool.BS_2_1_Minus_3_Or_4_And_5_And_6_And_R_ok bs_pool.BS_1_Not_2_Or_3_Minus_4_And_R_ok
    bs_pool.BS_1_2_Or_3_And_R_ok
  show ?thesis by (intro conjI; rule yieldsI, rule rules [OF assms(1)]) (auto simp: assms(2-8))
qed

theorem fused_replacements_witness:
  "yields (BS_1_2_Or_3_And_R [0, 8] [1] [2] [3] (memory_pool False)) (grown_length [0, 8] 1)
     (\<lambda>e. (BS_members e [1] \<union> BS_members e [2]) \<inter> BS_members e [3] \<union> {x \<in> BS_members e [0, 8]. 32 \<le> x})"
  using fused_replacements [OF pool_ok_witness [of False], of "[1]" 1 "[2]" "[3]" "[4]" "[5]" "[6]" "[0, 8]"]
  by (simp add: BS_word_count_def)

text \<open>
  the fused operations check that their operands have one size: with operands 2 and 3 of
  different sizes each of them stops at its assertion, and none of them writes a word.
\<close>

theorem fused_size_checks:
  assumes "BS_word_count set2 \<noteq> BS_word_count set3"
  shows "BS_3_2_Minus_1_Or_D set1 set2 set3 pool = Inl Is_True_Failed \<and>
    BS_3_2_Minus_4_Or_1_Or_D set1 set2 set3 set4 pool = Inl Is_True_Failed \<and>
    BS_3_2_Minus_4_Or_5_Or_1_Or_D set1 set2 set3 set4 set5 pool = Inl Is_True_Failed \<and>
    BS_2_3_Or_1_Or_D set1 set2 set3 pool = Inl Is_True_Failed \<and>
    BS_3_Not_4_Or_2_And_1_Or_D set1 set2 set3 set4 pool = Inl Is_True_Failed \<and>
    BS_2_3_Minus_1_Or_D set1 set2 set3 pool = Inl Is_True_Failed \<and>
    BS_2_3_Minus_4_Minus_1_Or_D set1 set2 set3 set4 pool = Inl Is_True_Failed \<and>
    BS_4_3_Minus_2_Not_Or_1_And_D set1 set2 set3 set4 pool = Inl Is_True_Failed \<and>
    BS_2_1_Minus_3_Or_R result set1 set2 set3 pool = Inl Is_True_Failed \<and>
    BS_2_1_Minus_3_Or_4_And_R result set1 set2 set3 set4 pool = Inl Is_True_Failed \<and>
    BS_2_1_Minus_3_Or_4_And_5_And_6_And_R result set1 set2 set3 set4 set5 set6 pool = Inl Is_True_Failed \<and>
    BS_1_Not_2_Or_3_Minus_4_And_R result set1 set2 set3 set4 pool = Inl Is_True_Failed \<and>
    BS_1_2_Or_3_And_R result set1 set2 set3 pool = Inl Is_True_Failed"
proof -
  note defs = BS_3_2_Minus_1_Or_D_def BS_3_2_Minus_4_Or_1_Or_D_def BS_3_2_Minus_4_Or_5_Or_1_Or_D_def
    BS_2_3_Or_1_Or_D_def BS_3_Not_4_Or_2_And_1_Or_D_def BS_2_3_Minus_1_Or_D_def
    BS_2_3_Minus_4_Minus_1_Or_D_def BS_4_3_Minus_2_Not_Or_1_And_D_def BS_2_1_Minus_3_Or_R_def
    BS_2_1_Minus_3_Or_4_And_R_def BS_2_1_Minus_3_Or_4_And_5_And_6_And_R_def
    BS_1_Not_2_Or_3_Minus_4_And_R_def BS_1_2_Or_3_And_R_def
  show ?thesis unfolding defs Let_def by (intro conjI) (use assms in \<open>auto simp: Is_True_def\<close>)
qed

theorem fused_size_checks_witness:
  "BS_1_2_Or_3_And_R [] [1] [2] [3, 4] (memory_pool False) = Inl Is_True_Failed"
  using fused_size_checks [of "[2]" "[3, 4]" "[1]" "memory_pool False" "[]" "[]" "[]" "[]"]
  by (simp add: BS_word_count_def)

text \<open>
  the replacing union. On operands of one size the words they have are replaced by their
  union and a longer result keeps the rest; on operands of different sizes the loop, which runs
  to the larger size for both, reads beyond the end of the shorter operand.
\<close>

theorem replacing_union:
  assumes "bs_pool pool" and "max (BS_word_count set1) (BS_word_count set2) < 9223372036854775808"
  shows "if BS_word_count set1 = BS_word_count set2
    then yields (BS_UnionR result set1 set2 pool) (grown_length result (BS_word_count set1))
      (\<lambda>e. BS_members e set1 \<union> BS_members e set2 \<union> {x \<in> BS_members e result. 32 * BS_word_count set1 \<le> x})
    else BS_UnionR result set1 set2 pool = Inl Out_Of_Bounds"
proof (cases "BS_word_count set1 = BS_word_count set2")
  case True
  then have "yields (BS_UnionR result set1 set2 pool) (grown_length result (BS_word_count set1))
      (\<lambda>e. BS_members e set1 \<union> BS_members e set2 \<union> {x \<in> BS_members e result. 32 * BS_word_count set1 \<le> x})"
    using assms(2) by (intro yieldsI [OF bs_pool.BS_UnionR_ok [OF assms(1)]]) auto
  with True show ?thesis by simp
next
  case False
  then show ?thesis using bs_pool.BS_UnionR_mismatch [OF assms(1) False assms(2)] by simp
qed

theorem replacing_union_witness:
  "yields (BS_UnionR [0] [1] [2] (memory_pool False)) (grown_length [0] 1)
     (\<lambda>e. BS_members e [1] \<union> BS_members e [2] \<union> {x \<in> BS_members e [0]. 32 \<le> x}) \<and>
   BS_UnionR [0] [1] [2, 3] (memory_pool False) = Inl Out_Of_Bounds"
  using replacing_union [OF pool_ok_witness [of False], of "[1]" "[2]" "[0]"]
    replacing_union [OF pool_ok_witness [of False], of "[1]" "[2, 3]" "[0]"]
  by (simp add: BS_word_count_def)

section \<open>Creation, copying and growth\<close>

text \<open>
  the sets built from bounds. \<^verbatim>\<open>BS_Range\<close>, \<^verbatim>\<open>BS_Singleton\<close>, \<^verbatim>\<open>BS_Universe\<close> and
  \<^verbatim>\<open>BS_Create_Empty\<close> return the interval, the single element, the initial segment and the empty
  set, in exactly the words these need.
\<close>

theorem created_sets:
  assumes "bs_pool pool" and "0 \<le> low" and "low \<le> high + 1" and "high < 2147483647" and "0 \<le> x"
    and "x < 2147483647" and "0 \<le> n" and "n < 2147483648"
  shows "(\<exists>t. BS_Range e low high pool = Inr t \<and> BS_members e t = {low..high} \<and>
      BS_word_count t = (high + 32) div 32) \<and>
    (\<exists>t. BS_Singleton e x pool = Inr t \<and> BS_members e t = {x} \<and> BS_word_count t = x div 32 + 1) \<and>
    (\<exists>t. BS_Universe e n pool = Inr t \<and> BS_members e t = {0..<n} \<and> BS_word_count t = (n + 31) div 32) \<and>
    yields (BS_Create_Empty n pool) ((n + 31) div 32) (\<lambda>e. {})"
  using bs_pool.BS_Range_ok [OF assms(1-4), of e] bs_pool.BS_Singleton_ok [OF assms(1,5,6), of e]
    bs_pool.BS_Universe_ok [OF assms(1,7,8), of e] bs_pool.BS_Create_Empty_ok [OF assms(1,7,8)] assms(7)
  by (simp add: yields_def BS_word_count_def)

theorem created_sets_witness:
  "\<exists>t. BS_Range Little_Endian 30 70 (memory_pool False) = Inr t \<and> BS_members Little_Endian t = {30..70} \<and>
     BS_word_count t = 3"
  using created_sets [OF pool_ok_witness [of False], of 30 70 0 0 Little_Endian] by simp

text \<open>
  the destructive counterparts discard the old contents and grow the set only when its
  words are too few; the empty range leaves the word count alone.
\<close>

theorem recreated_sets:
  assumes "bs_pool pool" and "0 \<le> low" and "low \<le> high + 1" and "high < 2147483647" and "0 \<le> x"
    and "x < 2147483648"
  shows "(\<exists>t. BS_RangeD e s low high pool = Inr t \<and> BS_members e t = {low..high} \<and>
      BS_word_count t = (if low \<le> high then grown_length s (high div 32 + 1) else BS_word_count s)) \<and>
    (\<exists>t. BS_SingletonD e s x pool = Inr t \<and> BS_members e t = {x} \<and>
      BS_word_count t = grown_length s (x div 32 + 1)) \<and>
    yields (BS_ClearD s) (BS_word_count s) (\<lambda>e. {})"
  using bs_pool.BS_RangeD_ok [OF assms(1-4), of e s] bs_pool.BS_SingletonD_ok [OF assms(1,5,6), of e s]
  by (simp add: yields_def BS_word_count_def)

theorem recreated_sets_witness:
  "\<exists>t. BS_SingletonD Big_Endian [5, 6] 40 (memory_pool True) = Inr t \<and> BS_members Big_Endian t = {40} \<and>
     BS_word_count t = grown_length [5, 6] 2"
  using recreated_sets [OF pool_ok_witness [of True], of 0 0 40 Big_Endian "[5, 6]"] by simp

text \<open>
  the destructive universe never uses its pool argument. It returns \<open>{0..<n}\<close> when the words
  suffice and stops at the assertion on a bad pool when they do not.
\<close>

theorem universe_in_place:
  assumes "1 \<le> n" and "n < 2147483648"
  shows "if n \<le> 32 * BS_word_count s
    then (\<exists>t. BS_UniverseD e s n pool = Inr t \<and> BS_members e t = {0..<n} \<and> BS_word_count t = BS_word_count s)
    else BS_UniverseD e s n pool = Inl Is_True_Failed"
  using BS_UniverseD_room [OF assms, of s e pool] BS_UniverseD_grow_fails [OF assms(2), of s e pool] by simp

theorem universe_in_place_witness:
  "(\<exists>t. BS_UniverseD Little_Endian [0, 0] 40 (memory_pool False) = Inr t \<and>
      BS_members Little_Endian t = {0..<40} \<and> BS_word_count t = 2) \<and>
   BS_UniverseD Little_Endian [0] 40 (memory_pool False) = Inl Is_True_Failed"
  using universe_in_place [of 40 "[0, 0]" Little_Endian "memory_pool False"]
    universe_in_place [of 40 "[0]" Little_Endian "memory_pool False"]
  by (simp add: BS_word_count_def)

text \<open>
  copies are equal to their source and independent of the target's old contents; a
  resized set keeps its elements and has room for the requested size.
\<close>

theorem copies_and_resize:
  assumes "bs_pool pool" and "BS_word_count set2 < 9223372036854775808" and "0 \<le> n" and "n < 2147483648"
  shows "yields (BS_Copy set2 pool) (BS_word_count set2) (\<lambda>e. BS_members e set2) \<and>
    yields (BS_CopyD set1 set2 pool) (grown_length set1 (BS_word_count set2)) (\<lambda>e. BS_members e set2) \<and>
    yields (BS_ResizeD set1 n pool) (grown_length set1 ((n + 31) div 32)) (\<lambda>e. BS_members e set1) \<and>
    n \<le> 32 * grown_length set1 ((n + 31) div 32)"
proof (intro conjI)
  obtain t where t: "BS_ResizeD set1 n pool = Inr t" "n \<le> 32 * BS_word_count t"
      "BS_word_count t = grown_length set1 ((n + 31) div 32)" "\<forall>e. BS_members e t = BS_members e set1"
    using bs_pool.BS_ResizeD_ok [OF assms(1,3,4), of set1] by blast
  show "yields (BS_ResizeD set1 n pool) (grown_length set1 ((n + 31) div 32)) (\<lambda>e. BS_members e set1)"
    "n \<le> 32 * grown_length set1 ((n + 31) div 32)"
    using t by (simp_all add: yields_def)
qed (rule yieldsI, rule bs_pool.BS_Copy_ok [OF assms(1)] bs_pool.BS_CopyD_ok [OF assms(1,2)], auto)+

theorem copies_and_resize_witness:
  "yields (BS_CopyD [9, 9, 9] [1, 2] (memory_pool False)) (grown_length [9, 9, 9] 2) (\<lambda>e. BS_members e [1, 2])"
  using copies_and_resize [OF pool_ok_witness [of False], of "[1, 2]" 64 "[9, 9, 9]"] by (simp add: BS_word_count_def)

text \<open>
  growth. \<^verbatim>\<open>bs_Realloc\<close> returns its argument when it is long enough and otherwise a set with
  the old words followed by zeros, whose word count is the least power of two, from two on, that
  reaches the request; the doubling loop ends for every request up to \<open>2 ^ 63\<close>.
\<close>

theorem growth:
  assumes "bs_pool pool" and "0 \<le> n" and "n \<le> 9223372036854775808"
  shows "\<exists>m. bs_Realloc s n pool = Inr (s @ replicate m 0) \<and>
    (if n \<le> BS_word_count s then m = 0
     else \<exists>k \<ge> 1. BS_word_count (s @ replicate m 0) = 2 ^ k \<and> n \<le> 2 ^ k \<and> (\<forall>j \<ge> 1. n \<le> 2 ^ j \<longrightarrow> k \<le> j))"
proof -
  obtain t where t: "bs_Realloc s n pool = Inr t" "BS_word_count t = grown_length s n"
      "\<forall>k. word_at t k = word_at s k"
    using bs_pool.bs_Realloc_ok [OF assms] by blast
  obtain k where k: "1 \<le> k" "realloc_length 2 n = 2 ^ k" "\<forall>j \<ge> 1. n \<le> 2 ^ j \<longrightarrow> k \<le> j"
    using realloc_length_least [of 1 n] by auto
  have "length s \<le> length t" using t(2) grown_length_ge(2) [of s n] by (simp add: BS_word_count_def)
  with t(3) have "t = s @ replicate (length t - length s) 0" by (rule words_extend)
  then obtain m where "t = s @ replicate m 0" by blast
  then show ?thesis using t(1,2) k realloc_length_ge [of 2 n]
    by (intro exI [of _ m]) (auto simp: grown_length_def BS_word_count_def)
qed

theorem growth_witness:
  "\<exists>m. bs_Realloc [1, 2, 3] 5 (memory_pool False) = Inr ([1, 2, 3] @ replicate m 0) \<and>
     (\<exists>k \<ge> 1. BS_word_count ([1, 2, 3] @ replicate m 0) = 2 ^ k \<and> 5 \<le> (2 :: int) ^ k \<and>
        (\<forall>j \<ge> 1. 5 \<le> (2 :: int) ^ j \<longrightarrow> k \<le> j))"
  using growth [OF pool_ok_witness [of False], of 5 "[1, 2, 3]"] by (simp add: BS_word_count_def)

section \<open>Tests, counting and choosing\<close>

text \<open>
  the tests. On all bit sets, of whatever sizes, the word loops decide emptiness, inclusion,
  equality and overlap of the represented sets.
\<close>

theorem set_tests:
  "BS_EmptyP s = Inr (BS_members e s = {}) \<and>
   BS_ContainsP s t = Inr (BS_members e t \<subseteq> BS_members e s) \<and>
   BS_EqualP s t = Inr (BS_members e s = BS_members e t) \<and>
   BS_IntersectsP s t = Inr (BS_members e s \<inter> BS_members e t \<noteq> {})"
  by (intro conjI BS_EmptyP_ok BS_ContainsP_ok BS_EqualP_ok BS_IntersectsP_ok)

text \<open>
  the size of a set, summed over its bytes with the table \<^verbatim>\<open>bit_count\<close>, is the number of its
  elements.
\<close>

theorem size_is_cardinality:
  assumes "bs_ok s"
  shows "BS_Size e s = Inr (int (card (BS_members e s)))"
  by (rule BS_Size_ok [OF assms])

theorem size_is_cardinality_witness:
  "BS_Size Big_Endian [7, 256] = Inr (int (card (BS_members Big_Endian [7, 256])))"
  by (rule size_is_cardinality) (simp add: bs_ok_def BS_word_count_def)

text \<open>
  \<^verbatim>\<open>BS_Choose\<close> returns the least element and \<^verbatim>\<open>BS_Choose_Next\<close> the least element above a bound,
  or \<^verbatim>\<open>BS_CHOOSE_FAILURE\<close> exactly when there is none.
\<close>

theorem choose_and_next:
  assumes "bs_ok s" and "-1 \<le> x" and "x < 2147483647"
  shows "BS_Choose e s = Inr (if BS_members e s = {} then BS_CHOOSE_FAILURE else Min (BS_members e s)) \<and>
    BS_Choose_Next e s x = Inr (if {y \<in> BS_members e s. x < y} = {} then BS_CHOOSE_FAILURE
      else Min {y \<in> BS_members e s. x < y})"
  by (simp only: BS_Choose_least [OF assms(1)] BS_Choose_Next_least [OF assms]
    least_from_all [OF members_range] least_from_after [OF members_range] simp_thms)

theorem choose_and_next_witness:
  "BS_Choose_Next Little_Endian [16, 1] 4 =
     Inr (if {y \<in> BS_members Little_Endian [16, 1]. 4 < y} = {} then BS_CHOOSE_FAILURE
      else Min {y \<in> BS_members Little_Endian [16, 1]. 4 < y}) \<and>
   BS_Choose_Next Little_Endian [16, 1] 4 = Inr 32"
proof
  show "BS_Choose_Next Little_Endian [16, 1] 4 =
     Inr (if {y \<in> BS_members Little_Endian [16, 1]. 4 < y} = {} then BS_CHOOSE_FAILURE
      else Min {y \<in> BS_members Little_Endian [16, 1]. 4 < y})"
    using choose_and_next [of "[16, 1]" 4 Little_Endian] by (simp add: bs_ok_def BS_word_count_def)
  show "BS_Choose_Next Little_Endian [16, 1] 4 = Inr 32" by code_simp
qed

text \<open>
  \<^verbatim>\<open>BS_Choose_Range\<close> returns the least element in the range and fails exactly when the range
  has none; an empty range, or one whose upper bound is beyond the set, is no special case.
\<close>

theorem choose_in_range:
  assumes "bs_ok s" and "0 \<le> low" and "low \<le> high + 1" and "high < 2147483648"
  shows "BS_Choose_Range e s low high =
    Inr (if BS_members e s \<inter> {low..high} = {} then BS_CHOOSE_FAILURE else Min (BS_members e s \<inter> {low..high}))"
proof -
  have "{y \<in> BS_members e s. low \<le> y \<and> y < high + 1} = BS_members e s \<inter> {low..high}" by auto
  then show ?thesis
    unfolding BS_Choose_Range_least [OF assms] least_from_def by (simp only:) (auto)
qed

theorem choose_in_range_witness:
  "BS_Choose_Range Little_Endian [16, 1] 5 100 =
     Inr (if BS_members Little_Endian [16, 1] \<inter> {5..100} = {} then BS_CHOOSE_FAILURE
       else Min (BS_members Little_Endian [16, 1] \<inter> {5..100}))"
  by (rule choose_in_range) (simp_all add: bs_ok_def BS_word_count_def)

text \<open>
  the queries on an intersection agree with the intersection of the represented sets, without
  building it.
\<close>

theorem intersection_queries:
  assumes "bs_ok s" and "bs_ok t" and "0 \<le> x" and "x < 2147483647"
  shows "BS_Intersection_Choose e s t = Inr (if BS_members e s \<inter> BS_members e t = {} then BS_CHOOSE_FAILURE
      else Min (BS_members e s \<inter> BS_members e t)) \<and>
    BS_Intersection_Choose_Next e s t x = Inr (if {y \<in> BS_members e s \<inter> BS_members e t. x < y} = {}
      then BS_CHOOSE_FAILURE else Min {y \<in> BS_members e s \<inter> BS_members e t. x < y}) \<and>
    BS_Intersection_MemberP e s t x = Inr (x \<in> BS_members e s \<inter> BS_members e t)"
proof (intro conjI)
  show "BS_Intersection_MemberP e s t x = Inr (x \<in> BS_members e s \<inter> BS_members e t)"
    using assms(3,4) by (intro BS_Intersection_MemberP_ok) auto
  have "-1 \<le> x" using assms(3) by simp
  then show "BS_Intersection_Choose_Next e s t x = Inr (if {y \<in> BS_members e s \<inter> BS_members e t. x < y} = {}
      then BS_CHOOSE_FAILURE else Min {y \<in> BS_members e s \<inter> BS_members e t. x < y})"
    by (simp only: BS_Intersection_Choose_Next_least [OF assms(1,2) _ assms(4)] least_from_after [OF inter_range])
qed (simp only: BS_Intersection_Choose_least [OF assms(1,2)] least_from_all [OF inter_range])

theorem intersection_queries_witness:
  "BS_Intersection_Choose Big_Endian [6, 3] [2, 1] =
     Inr (if BS_members Big_Endian [6, 3] \<inter> BS_members Big_Endian [2, 1] = {} then BS_CHOOSE_FAILURE
       else Min (BS_members Big_Endian [6, 3] \<inter> BS_members Big_Endian [2, 1]))"
  using intersection_queries [of "[6, 3]" "[2, 1]" 3 Big_Endian] by (simp add: bs_ok_def BS_word_count_def)

text \<open>
  C3: the documented loops over a set and over an intersection end, after as many turns as there
  are elements, and visit each element once in increasing order.
\<close>

theorem loops_enumerate:
  assumes "bs_ok s" and "bs_ok t"
  shows "BS_for_all e s = Inr (sorted_list_of_set (BS_members e s)) \<and>
    BS_Intersection_for_all e s t = Inr (sorted_list_of_set (BS_members e s \<inter> BS_members e t))"
proof
  have card: "card A < Suc (nat (32 * BS_word_count s))" if "A \<subseteq> BS_members e s" for A
  proof -
    have "card A \<le> card {0..<32 * BS_word_count s}"
      using that members_range [of e s] by (intro card_mono) auto
    then show ?thesis by simp
  qed
  show "BS_for_all e s = Inr (sorted_list_of_set (BS_members e s))"
    unfolding BS_for_all_def using one_set.loop_enumerates [OF assms(1) card] by simp
  show "BS_Intersection_for_all e s t = Inr (sorted_list_of_set (BS_members e s \<inter> BS_members e t))"
    unfolding BS_Intersection_for_all_def
    using two_sets.loop_enumerates [of "(s, t)" e, OF _ card [of "case (s, t) of (s, t) \<Rightarrow> BS_members e s \<inter> BS_members e t"]] assms
    by simp
qed

theorem loops_enumerate_witness:
  "BS_for_all Little_Endian [5, 2] = Inr (sorted_list_of_set (BS_members Little_Endian [5, 2])) \<and>
   BS_for_all Little_Endian [5, 2] = Inr [0, 2, 33]"
proof
  show "BS_for_all Little_Endian [5, 2] = Inr (sorted_list_of_set (BS_members Little_Endian [5, 2]))"
    using loops_enumerate [of "[5, 2]" "[]" Little_Endian] by (simp add: bs_ok_def BS_word_count_def)
  show "BS_for_all Little_Endian [5, 2] = Inr [0, 2, 33]" by code_simp
qed

section \<open>Printing, tables, validating forms and limits\<close>

text \<open>
  the printed form is the list, between braces, of ranges that cover exactly the elements, in
  increasing order, and of which no two touch; each is printed as one number or as its two ends.
\<close>

theorem printed_form:
  assumes "bs_ok s"
  shows "\<exists>rs. BS_Print e (Some s) = Inr (''{'' @ ranges_text True rs @ ''}'') \<and>
    (\<Union>(l, h) \<in> set rs. {l..h}) = BS_members e s \<and>
    sorted_wrt (\<lambda>a b. snd a + 1 < fst b) rs \<and> (\<forall>r \<in> set rs. fst r \<le> snd r)"
proof (intro exI conjI)
  let ?xs = "sorted_list_of_set (BS_members e s)"
  show "BS_Print e (Some s) = Inr (''{'' @ ranges_text True (runs ?xs) @ ''}'')"
    by (rule BS_Print_text [OF assms])
  have xs: "sorted_wrt (<) ?xs" "set ?xs = BS_members e s" by (simp_all add: finite_members)
  show "(\<Union>(l, h) \<in> set (runs ?xs). {l..h}) = BS_members e s"
    "sorted_wrt (\<lambda>a b. snd a + 1 < fst b) (runs ?xs)" "\<forall>r \<in> set (runs ?xs). fst r \<le> snd r"
    using runs_partition [OF xs(1)] xs(2) by simp_all
qed

theorem printed_form_witness:
  "(\<exists>rs. BS_Print Little_Endian (Some [29, 3]) = Inr (''{'' @ ranges_text True rs @ ''}'') \<and>
      (\<Union>(l, h) \<in> set rs. {l..h}) = BS_members Little_Endian [29, 3]) \<and>
   BS_Print Little_Endian (Some [29, 3]) = Inr ''{0,2-4,32-33}''"
proof
  show "\<exists>rs. BS_Print Little_Endian (Some [29, 3]) = Inr (''{'' @ ranges_text True rs @ ''}'') \<and>
      (\<Union>(l, h) \<in> set rs. {l..h}) = BS_members Little_Endian [29, 3]"
    using printed_form [of "[29, 3]" Little_Endian] by (auto simp: bs_ok_def BS_word_count_def)
  show "BS_Print Little_Endian (Some [29, 3]) = Inr ''{0,2-4,32-33}''" by code_simp
qed

text \<open>
  the two lookup tables. For every byte \<^verbatim>\<open>bit_count\<close> is the number of its bits and, when the
  byte is not zero, \<^verbatim>\<open>first_one\<close> is the position of the lowest of them.
\<close>

theorem byte_tables:
  "bit_count b = int (card {k. bit b k}) \<and>
   (if b = 0 then first_one b = 0 else first_one b = int (LEAST k. bit b k))"
proof -
  have "first_one b = int (LEAST k. bit b k)" if "b \<noteq> 0"
  proof -
    have "(LEAST k. bit b k) = nat (first_one b)"
      using first_one_least [OF that] by (intro Least_equality) (auto simp: not_le [symmetric])
    then show ?thesis using first_one_least(1) [OF that] by simp
  qed
  then show ?thesis by (auto simp: bit_count_card first_one_def first_one_low_def)
qed

text \<open>
  the validating forms of the in-line operations for sets that may not grow. They agree with
  \<^verbatim>\<open>BS_MemberP\<close> and \<^verbatim>\<open>BS_Union1D\<close> on elements the set has room for and stop at an assertion on all
  others.
\<close>

theorem validated_operations:
  assumes "0 \<le> x" and "x < 2147483648"
  shows "if x < 32 * BS_word_count s
    then FBS_MemberP_Validate e s x = BS_MemberP e s x \<and> FBS_Union1D_Validate e s x = BS_Union1D e s x pool
    else FBS_MemberP_Validate e s x = Inl Is_True_Failed \<and> FBS_Union1D_Validate e s x = Inl Is_True_Failed"
proof (cases "x < 32 * BS_word_count s")
  case True
  then have "x div 32 + 1 \<le> BS_word_count s" by linarith
  then have "FBS_Union1D_Validate e s x = BS_Union1D e s x pool"
    using assms by (simp add: FBS_Union1D_Validate_def BS_Union1D_def Let_def bs_arith)
  then show ?thesis
    using True by (simp add: FBS_MemberP_Validate_ok [OF assms] BS_MemberP_ok [OF assms])
next
  case False
  then have "\<not> x div 32 + 1 \<le> BS_word_count s" by linarith
  then have "FBS_Union1D_Validate e s x = Inl Is_True_Failed"
    using assms by (simp add: FBS_Union1D_Validate_def Let_def bs_arith)
  then show ?thesis using False by (simp add: FBS_MemberP_Validate_ok [OF assms])
qed

theorem validated_operations_witness:
  "FBS_Union1D_Validate Little_Endian [1] 5 = BS_Union1D Little_Endian [1] 5 (memory_pool False) \<and>
   FBS_MemberP_Validate Little_Endian [1] 32 = Inl Is_True_Failed"
  using validated_operations [of 5 "[1]" Little_Endian "memory_pool False"]
    validated_operations [of 32 "[1]" Little_Endian "memory_pool False"]
  by (simp add: BS_word_count_def)

text \<open>
  the search for the next element multiplies the word count by 32 in a 32-bit integer. A set
  of \<open>2 ^ 26\<close> words, which the growth rule allocates for elements from \<open>2 ^ 30\<close> on, makes the
  product negative, and the search fails whatever the set holds.
\<close>

theorem next_fails_on_largest_set:
  assumes "BS_word_count s = 67108864" and "-1 \<le> x" and "x < 2147483647"
  shows "BS_Choose_Next e s x = Inr BS_CHOOSE_FAILURE"
proof -
  have "bs_PBPW 67108864 = -2147483648" by code_simp
  moreover have "s32 (x + 1) = x + 1" using assms by (simp add: s32_id)
  ultimately show ?thesis using assms by (simp add: BS_Choose_Next_def Let_def)
qed

theorem next_fails_on_largest_set_witness:
  "BS_Choose_Next Little_Endian (replicate 67108864 1) 0 = Inr BS_CHOOSE_FAILURE \<and>
   32 \<in> BS_members Little_Endian (replicate 67108864 1) \<and> grown_length [] (2 ^ 30 div 32 + 1) = 67108864"
proof (intro conjI)
  show "BS_Choose_Next Little_Endian (replicate 67108864 1) 0 = Inr BS_CHOOSE_FAILURE"
    by (rule next_fails_on_largest_set) (simp only: BS_word_count_def length_replicate of_nat_numeral, simp_all)
  show "32 \<in> BS_members Little_Endian (replicate 67108864 1)"
    by (simp add: members_iff word_at_def bit_lane_def)
  show "grown_length [] (2 ^ 30 div 32 + 1) = 67108864" by code_simp
qed

end
