(* ===== verification/Leb128.thy ===== *)
theory Leb128
  imports Path64_Prelude
begin

unbundle bit_operations_syntax

text \<open>
  The LEB128 routines of \<^verbatim>\<open>libelfutil\<close> (\<^verbatim>\<open>lebencodeu32.c\<close>, \<^verbatim>\<open>lebencodeu64.c\<close>,
  \<^verbatim>\<open>lebencodes32.c\<close>, \<^verbatim>\<open>lebencodes64.c\<close> and the four \<^verbatim>\<open>lebdecode\<close> files), which read and write
  the variable-length integers of DWARF. The encoders store into a caller's buffer, modelled as
  the list of its bytes with a store beyond its end an error; the decoders are the unrolled
  comparisons of the source, a read beyond the data an error. Numbers are machine words.
\<close>

section \<open>Memory\<close>

definition load_byte :: "8 word list \<Rightarrow> nat \<Rightarrow> 8 word res" where
  "load_byte data k = (if k < length data then Inr (data ! k) else Inl Out_Of_Bounds)"

definition store_byte :: "8 word list \<Rightarrow> nat \<Rightarrow> 8 word \<Rightarrow> 8 word list res" where
  "store_byte buffer k b = (if k < length buffer then Inr (buffer[k := b]) else Inl Out_Of_Bounds)"

section \<open>Encoders\<close>

text \<open>
  The loops are the same at both widths. Each round stores one byte, so a loop that would run
  on ends at the end of the buffer. The result is the number of bytes and the buffer.
\<close>

function unsigned_encode_loop :: "'a::len word \<Rightarrow> nat \<Rightarrow> 8 word list \<Rightarrow> (nat \<times> 8 word list) res" where
  "unsigned_encode_loop number bufPtr buffer =
     (let byte = ucast (number AND 0x7f) :: 8 word; number = drop_bit 7 number in
      if number \<noteq> 0
      then (if bufPtr < length buffer
            then unsigned_encode_loop number (Suc bufPtr) (buffer[bufPtr := byte OR 0x80])
            else Inl Out_Of_Bounds)
      else bindE (store_byte buffer bufPtr byte) (\<lambda>buffer. Inr (Suc bufPtr, buffer)))"
  by pat_completeness auto
termination
  by (relation "measure (\<lambda>(number, bufPtr, buffer). length buffer - bufPtr)") auto

definition leb128_unsigned_encode32 :: "32 word \<Rightarrow> 8 word list \<Rightarrow> (nat \<times> 8 word list) res" where
  "leb128_unsigned_encode32 number buffer = unsigned_encode_loop number 0 buffer"

definition leb128_unsigned_encode64 :: "64 word \<Rightarrow> 8 word list \<Rightarrow> (nat \<times> 8 word list) res" where
  "leb128_unsigned_encode64 number buffer = unsigned_encode_loop number 0 buffer"

function signed_encode_loop :: "int \<Rightarrow> 'a::len word \<Rightarrow> nat \<Rightarrow> 8 word list \<Rightarrow> (nat \<times> 8 word list) res" where
  "signed_encode_loop sign number bufPtr buffer =
     (let byte = ucast (number AND 0x7f) :: 8 word; number = signed_drop_bit 7 number in
      if sint number = sign \<and> byte AND 0x40 = word_of_int sign AND 0x40
      then bindE (store_byte buffer bufPtr byte) (\<lambda>buffer. Inr (Suc bufPtr, buffer))
      else if bufPtr < length buffer
           then signed_encode_loop sign number (Suc bufPtr) (buffer[bufPtr := byte OR 0x80])
           else Inl Out_Of_Bounds)"
  by pat_completeness auto
termination
  by (relation "measure (\<lambda>(sign, number, bufPtr, buffer). length buffer - bufPtr)") auto

declare unsigned_encode_loop.simps [simp del] signed_encode_loop.simps [simp del]

definition leb128_signed_encode32 :: "32 word \<Rightarrow> 8 word list \<Rightarrow> (nat \<times> 8 word list) res" where
  "leb128_signed_encode32 number buffer =
     (let sign = (if sint number < 0 then -1 else 0) in signed_encode_loop sign number 0 buffer)"

definition leb128_signed_encode64 :: "64 word \<Rightarrow> 8 word list \<Rightarrow> (nat \<times> 8 word list) res" where
  "leb128_signed_encode64 number buffer =
     (let sign = (if sint number < 0 then -1 else 0) in signed_encode_loop sign number 0 buffer)"

section \<open>Decoders\<close>

text \<open>\<open>low7 b\<close> is \<^verbatim>\<open>b & 0x7f\<close> at the width of the value.\<close>

abbreviation low7 :: "8 word \<Rightarrow> 'a::len word" where
  "low7 b \<equiv> ucast (b AND 0x7f)"

definition leb128_unsigned_decode32 :: "8 word list \<Rightarrow> (nat \<times> 32 word) res" where
  "leb128_unsigned_decode32 data =
     bindE (load_byte data 0) (\<lambda>b0.
     if b0 AND 0x80 = 0
     then Inr (1, ucast b0)
     else
     bindE (load_byte data 1) (\<lambda>b1.
     if b1 AND 0x80 = 0
     then Inr (2, low7 b0 OR push_bit 7 (low7 b1))
     else
     bindE (load_byte data 2) (\<lambda>b2.
     if b2 AND 0x80 = 0
     then Inr (3, low7 b0 OR push_bit 7 (low7 b1) OR push_bit 14 (low7 b2))
     else
     bindE (load_byte data 3) (\<lambda>b3.
     if b3 AND 0x80 = 0
     then Inr (4, low7 b0 OR push_bit 7 (low7 b1) OR push_bit 14 (low7 b2) OR
       push_bit 21 (low7 b3))
     else
     bindE (load_byte data 4) (\<lambda>b4.
     Inr (5, low7 b0 OR push_bit 7 (low7 b1) OR push_bit 14 (low7 b2) OR
       push_bit 21 (low7 b3) OR push_bit 28 (low7 b4)))))))"

definition leb128_unsigned_decode64 :: "8 word list \<Rightarrow> (nat \<times> 64 word) res" where
  "leb128_unsigned_decode64 data =
     bindE (load_byte data 0) (\<lambda>b0.
     if b0 AND 0x80 = 0
     then Inr (1, ucast b0)
     else
     bindE (load_byte data 1) (\<lambda>b1.
     if b1 AND 0x80 = 0
     then Inr (2, low7 b0 OR push_bit 7 (low7 b1))
     else
     bindE (load_byte data 2) (\<lambda>b2.
     if b2 AND 0x80 = 0
     then Inr (3, low7 b0 OR push_bit 7 (low7 b1) OR push_bit 14 (low7 b2))
     else
     bindE (load_byte data 3) (\<lambda>b3.
     if b3 AND 0x80 = 0
     then Inr (4, low7 b0 OR push_bit 7 (low7 b1) OR push_bit 14 (low7 b2) OR
       push_bit 21 (low7 b3))
     else
     bindE (load_byte data 4) (\<lambda>b4.
     if b4 AND 0x80 = 0
     then Inr (5, low7 b0 OR push_bit 7 (low7 b1) OR push_bit 14 (low7 b2) OR
       push_bit 21 (low7 b3) OR push_bit 28 (low7 b4))
     else
     bindE (load_byte data 5) (\<lambda>b5.
     if b5 AND 0x80 = 0
     then Inr (6, low7 b0 OR push_bit 7 (low7 b1) OR push_bit 14 (low7 b2) OR
       push_bit 21 (low7 b3) OR push_bit 28 (low7 b4) OR push_bit 35 (low7 b5))
     else
     bindE (load_byte data 6) (\<lambda>b6.
     if b6 AND 0x80 = 0
     then Inr (7, low7 b0 OR push_bit 7 (low7 b1) OR push_bit 14 (low7 b2) OR
       push_bit 21 (low7 b3) OR push_bit 28 (low7 b4) OR push_bit 35 (low7 b5) OR
       push_bit 42 (low7 b6))
     else
     bindE (load_byte data 7) (\<lambda>b7.
     if b7 AND 0x80 = 0
     then Inr (8, low7 b0 OR push_bit 7 (low7 b1) OR push_bit 14 (low7 b2) OR
       push_bit 21 (low7 b3) OR push_bit 28 (low7 b4) OR push_bit 35 (low7 b5) OR
       push_bit 42 (low7 b6) OR push_bit 49 (low7 b7))
     else
     bindE (load_byte data 8) (\<lambda>b8.
     if b8 AND 0x80 = 0
     then Inr (9, low7 b0 OR push_bit 7 (low7 b1) OR push_bit 14 (low7 b2) OR
       push_bit 21 (low7 b3) OR push_bit 28 (low7 b4) OR push_bit 35 (low7 b5) OR
       push_bit 42 (low7 b6) OR push_bit 49 (low7 b7) OR push_bit 56 (low7 b8))
     else
     bindE (load_byte data 9) (\<lambda>b9.
     Inr (10, low7 b0 OR push_bit 7 (low7 b1) OR push_bit 14 (low7 b2) OR
       push_bit 21 (low7 b3) OR push_bit 28 (low7 b4) OR push_bit 35 (low7 b5) OR
       push_bit 42 (low7 b6) OR push_bit 49 (low7 b7) OR push_bit 56 (low7 b8) OR
       push_bit 63 (low7 b9))))))))))))"

definition leb128_signed_decode32 :: "8 word list \<Rightarrow> (nat \<times> 32 word) res" where
  "leb128_signed_decode32 data =
     bindE (load_byte data 0) (\<lambda>b0.
     if b0 AND 0x80 = 0
     then Inr (1, (ucast b0) OR (if b0 AND 0x40 \<noteq> 0 then - push_bit 7 1 else 0))
     else
     bindE (load_byte data 1) (\<lambda>b1.
     if b1 AND 0x80 = 0
     then Inr (2, (low7 b0 OR push_bit 7 (low7 b1)) OR
       (if b1 AND 0x40 \<noteq> 0 then - push_bit 14 1 else 0))
     else
     bindE (load_byte data 2) (\<lambda>b2.
     if b2 AND 0x80 = 0
     then Inr (3, (low7 b0 OR push_bit 7 (low7 b1) OR push_bit 14 (low7 b2)) OR
       (if b2 AND 0x40 \<noteq> 0 then - push_bit 21 1 else 0))
     else
     bindE (load_byte data 3) (\<lambda>b3.
     if b3 AND 0x80 = 0
     then Inr (4, (low7 b0 OR push_bit 7 (low7 b1) OR push_bit 14 (low7 b2) OR
       push_bit 21 (low7 b3)) OR
       (if b3 AND 0x40 \<noteq> 0 then - push_bit 28 1 else 0))
     else
     bindE (load_byte data 4) (\<lambda>b4.
     Inr (5, low7 b0 OR push_bit 7 (low7 b1) OR push_bit 14 (low7 b2) OR
       push_bit 21 (low7 b3) OR push_bit 28 (low7 b4)))))))"

definition leb128_signed_decode64 :: "8 word list \<Rightarrow> (nat \<times> 64 word) res" where
  "leb128_signed_decode64 data =
     bindE (load_byte data 0) (\<lambda>b0.
     if b0 AND 0x80 = 0
     then Inr (1, (ucast b0) OR (if b0 AND 0x40 \<noteq> 0 then - push_bit 7 1 else 0))
     else
     bindE (load_byte data 1) (\<lambda>b1.
     if b1 AND 0x80 = 0
     then Inr (2, (low7 b0 OR push_bit 7 (low7 b1)) OR
       (if b1 AND 0x40 \<noteq> 0 then - push_bit 14 1 else 0))
     else
     bindE (load_byte data 2) (\<lambda>b2.
     if b2 AND 0x80 = 0
     then Inr (3, (low7 b0 OR push_bit 7 (low7 b1) OR push_bit 14 (low7 b2)) OR
       (if b2 AND 0x40 \<noteq> 0 then - push_bit 21 1 else 0))
     else
     bindE (load_byte data 3) (\<lambda>b3.
     if b3 AND 0x80 = 0
     then Inr (4, (low7 b0 OR push_bit 7 (low7 b1) OR push_bit 14 (low7 b2) OR
       push_bit 21 (low7 b3)) OR
       (if b3 AND 0x40 \<noteq> 0 then - push_bit 28 1 else 0))
     else
     bindE (load_byte data 4) (\<lambda>b4.
     if b4 AND 0x80 = 0
     then Inr (5, (low7 b0 OR push_bit 7 (low7 b1) OR push_bit 14 (low7 b2) OR
       push_bit 21 (low7 b3) OR push_bit 28 (low7 b4)) OR
       (if b4 AND 0x40 \<noteq> 0 then - push_bit 35 1 else 0))
     else
     bindE (load_byte data 5) (\<lambda>b5.
     if b5 AND 0x80 = 0
     then Inr (6, (low7 b0 OR push_bit 7 (low7 b1) OR push_bit 14 (low7 b2) OR
       push_bit 21 (low7 b3) OR push_bit 28 (low7 b4) OR push_bit 35 (low7 b5)) OR
       (if b5 AND 0x40 \<noteq> 0 then - push_bit 42 1 else 0))
     else
     bindE (load_byte data 6) (\<lambda>b6.
     if b6 AND 0x80 = 0
     then Inr (7, (low7 b0 OR push_bit 7 (low7 b1) OR push_bit 14 (low7 b2) OR
       push_bit 21 (low7 b3) OR push_bit 28 (low7 b4) OR push_bit 35 (low7 b5) OR
       push_bit 42 (low7 b6)) OR
       (if b6 AND 0x40 \<noteq> 0 then - push_bit 49 1 else 0))
     else
     bindE (load_byte data 7) (\<lambda>b7.
     if b7 AND 0x80 = 0
     then Inr (8, (low7 b0 OR push_bit 7 (low7 b1) OR push_bit 14 (low7 b2) OR
       push_bit 21 (low7 b3) OR push_bit 28 (low7 b4) OR push_bit 35 (low7 b5) OR
       push_bit 42 (low7 b6) OR push_bit 49 (low7 b7)) OR
       (if b7 AND 0x40 \<noteq> 0 then - push_bit 56 1 else 0))
     else
     bindE (load_byte data 8) (\<lambda>b8.
     if b8 AND 0x80 = 0
     then Inr (9, (low7 b0 OR push_bit 7 (low7 b1) OR push_bit 14 (low7 b2) OR
       push_bit 21 (low7 b3) OR push_bit 28 (low7 b4) OR push_bit 35 (low7 b5) OR
       push_bit 42 (low7 b6) OR push_bit 49 (low7 b7) OR push_bit 56 (low7 b8)) OR
       (if b8 AND 0x40 \<noteq> 0 then push_bit 63 1 else 0))
     else
     bindE (load_byte data 9) (\<lambda>b9.
     Inr (10, low7 b0 OR push_bit 7 (low7 b1) OR push_bit 14 (low7 b2) OR
       push_bit 21 (low7 b3) OR push_bit 28 (low7 b4) OR push_bit 35 (low7 b5) OR
       push_bit 42 (low7 b6) OR push_bit 49 (low7 b7) OR push_bit 56 (low7 b8) OR
       push_bit 63 (low7 b9))))))))))))"

section \<open>Reference definitions\<close>

text \<open>
  \<open>leb_bytes n data\<close>: the first \<open>n\<close> bytes of \<open>data\<close> are one encoded number, the continuation bit
  set on all of them but the last. \<open>leb_or\<close> puts the seven-bit groups together, the first one
  lowest, and \<open>leb_signed\<close> extends the sign bit of the last group.
\<close>

definition leb_bytes :: "nat \<Rightarrow> 8 word list \<Rightarrow> bool" where
  "leb_bytes n data \<longleftrightarrow> 0 < n \<and> n \<le> length data \<and> (\<forall>i < n - 1. bit (data ! i) 7) \<and> \<not> bit (data ! (n - 1)) 7"

fun leb_or :: "8 word list \<Rightarrow> 'a::len word" where
  "leb_or [] = 0"
| "leb_or (b # bs) = low7 b OR push_bit 7 (leb_or bs)"

definition leb_signed :: "8 word list \<Rightarrow> 'a::len word" where
  "leb_signed bs = leb_or bs OR
     (if bit (last bs) 6 then NOT (mask (7 * length bs)) else 0)"

lemma high_bit: "b AND 0x80 = 0 \<longleftrightarrow> \<not> bit b 7" "b AND 0x40 = 0 \<longleftrightarrow> \<not> bit b 6" for b :: "8 word"
proof -
  have "b AND 2 ^ 7 = 0 \<longleftrightarrow> \<not> bit b 7" "b AND 2 ^ 6 = 0 \<longleftrightarrow> \<not> bit b 6"
    by (simp_all only: and_exp_eq_0_iff_not_bit)
  then show "b AND 0x80 = 0 \<longleftrightarrow> \<not> bit b 7" "b AND 0x40 = 0 \<longleftrightarrow> \<not> bit b 6" by simp_all
qed

lemma bit_low7: "bit (low7 b :: 'a::len word) k \<longleftrightarrow> k < LENGTH('a) \<and> k < 7 \<and> bit b k"
proof -
  have "(0x7f :: 8 word) = mask 7" by (simp add: mask_eq_exp_minus_1)
  then have "low7 b = (ucast (b AND mask 7) :: 'a word)" by simp
  then show ?thesis by (auto simp only: bit_ucast_iff bit_and_iff bit_mask_iff dest: bit_imp_possible_bit)
qed

lemma low7_id: "\<not> bit b 7 \<Longrightarrow> low7 b = ucast b"
proof (rule bit_word_eqI)
  fix n assume "\<not> bit b 7" and n: "n < LENGTH('a)"
  then have "bit b n \<Longrightarrow> n \<noteq> 7" by metis
  moreover have "bit b n \<Longrightarrow> n < 8" using bit_imp_le_length [of b n] by simp
  ultimately have "bit b n \<longrightarrow> n < 7" by linarith
  then show "bit (low7 b :: 'a word) n \<longleftrightarrow> bit (ucast b :: 'a word) n"
    using n bit_low7 [of b n, where 'a = 'a] by (simp only: bit_ucast_iff) blast
qed

lemma bit_leb_or:
  "bit (leb_or bs :: 'a::len word) k \<longleftrightarrow> k < LENGTH('a) \<and> k div 7 < length bs \<and> bit (bs ! (k div 7)) (k mod 7)"
proof (induction bs arbitrary: k)
  case (Cons b bs)
  show ?case
  proof (cases "k < 7")
    case True
    then show ?thesis by (simp add: bit_or_iff bit_low7 bit_push_bit_iff)
  next
    case False
    then have "k div 7 = Suc ((k - 7) div 7)" "k mod 7 = (k - 7) mod 7"
      by (simp_all add: le_div_geq le_mod_geq)
    with False show ?thesis by (auto simp: bit_or_iff bit_low7 bit_push_bit_iff Cons.IH)
  qed
qed simp

section \<open>The decoders implement the reference\<close>

lemma take_nths: "n \<le> length xs \<Longrightarrow> take n xs = map ((!) xs) [0..<n]"
  by (rule nth_equalityI) auto

lemma leb_bytes_simps:
  assumes "leb_bytes n data"
  shows "i < n \<Longrightarrow> load_byte data i = Inr (data ! i)" "Suc i < n \<Longrightarrow> bit (data ! i) 7"
    "Suc i = n \<Longrightarrow> \<not> bit (data ! i) 7"
  using assms by (auto simp: leb_bytes_def load_byte_def)

lemma leb_or_take:
  assumes "leb_bytes n data"
  shows "leb_or (take n data) = leb_or (map ((!) data) [0..<n])"
  using assms by (simp add: leb_bytes_def take_nths)

lemma sign_extension:
  "- push_bit m 1 = (NOT (mask m) :: 'a::len word)"
  "push_bit 63 1 = (NOT (mask 63) :: 64 word)"
proof -
  show "- push_bit m 1 = (NOT (mask m) :: 'a word)"
    by (simp only: push_bit_of_1 minus_exp_eq_not_mask)
  show "push_bit 63 1 = (NOT (mask 63) :: 64 word)"
  proof (rule bit_word_eqI)
    fix n assume "n < LENGTH(64)"
    then have "n < 64" by simp
    then show "bit (push_bit 63 1 :: 64 word) n = bit (NOT (mask 63) :: 64 word) n"
      by (simp only: bit_push_bit_iff bit_1_iff bit_not_iff bit_mask_iff) auto
  qed
qed

lemma sign_beyond: "LENGTH('a) \<le> m \<Longrightarrow> (NOT (mask m) :: 'a::len word) = 0"
  by (rule bit_word_eqI) (auto simp: bit_not_iff bit_mask_iff)

lemma leb_signed_take:
  assumes "leb_bytes n data"
  shows "leb_signed (take n data) = leb_or (map ((!) data) [0..<n]) OR
    (if bit (data ! (n - 1)) 6 then NOT (mask (7 * n)) else 0)"
proof -
  have n: "0 < n" "n \<le> length data" using assms by (auto simp: leb_bytes_def)
  then have "take n data \<noteq> []" by (cases data) auto
  then have "last (take n data) = data ! (n - 1)" using n by (simp add: last_conv_nth min_def)
  then show ?thesis using n by (simp add: leb_signed_def take_nths)
qed

lemmas decode_simps = high_bit push_bit_or low7_id upt_rec numeral_2_eq_2 [symmetric]

lemma leb_bytes_pos: "leb_bytes n data \<Longrightarrow> 0 < n"
  by (simp add: leb_bytes_def)

lemma upto5: "0 < n \<Longrightarrow> n \<le> 5 \<Longrightarrow> n \<in> {1, 2, 3, 4, 5 :: nat}"
  unfolding insert_iff empty_iff by presburger

lemma upto10: "0 < n \<Longrightarrow> n \<le> 10 \<Longrightarrow> n \<in> {1, 2, 3, 4, 5, 6, 7, 8, 9, 10 :: nat}"
  unfolding insert_iff empty_iff by presburger

lemma leb128_unsigned_decode32_ok:
  assumes "leb_bytes n data" and "n \<le> 5"
  shows "leb128_unsigned_decode32 data = Inr (n, leb_or (take n data))"
proof -
  note n = upto5 [OF leb_bytes_pos [OF assms(1)] assms(2)]
  show ?thesis
    unfolding leb_or_take [OF assms(1)]
    using n leb_bytes_simps [OF assms(1)]
    by (elim insertE emptyE) (simp_all add: leb128_unsigned_decode32_def decode_simps)
qed

lemma leb128_unsigned_decode64_ok:
  assumes "leb_bytes n data" and "n \<le> 10"
  shows "leb128_unsigned_decode64 data = Inr (n, leb_or (take n data))"
proof -
  note n = upto10 [OF leb_bytes_pos [OF assms(1)] assms(2)]
  show ?thesis
    unfolding leb_or_take [OF assms(1)]
    using n leb_bytes_simps [OF assms(1)]
    by (elim insertE emptyE) (simp_all add: leb128_unsigned_decode64_def decode_simps)
qed

lemma leb128_signed_decode32_ok:
  assumes "leb_bytes n data" and "n \<le> 5"
  shows "leb128_signed_decode32 data = Inr (n, leb_signed (take n data))"
proof -
  note n = upto5 [OF leb_bytes_pos [OF assms(1)] assms(2)]
  show ?thesis
    using n leb_bytes_simps [OF assms(1)]
    unfolding leb128_signed_decode32_def sign_extension leb_signed_take [OF assms(1)]
    by (elim insertE emptyE) (simp_all add: decode_simps sign_beyond del: push_bit_of_1 mask_numeral)
qed

lemma leb128_signed_decode64_ok:
  assumes "leb_bytes n data" and "n \<le> 10"
  shows "leb128_signed_decode64 data = Inr (n, leb_signed (take n data))"
proof -
  note n = upto10 [OF leb_bytes_pos [OF assms(1)] assms(2)]
  show ?thesis
    using n leb_bytes_simps [OF assms(1)]
    unfolding leb128_signed_decode64_def sign_extension leb_signed_take [OF assms(1)]
    by (elim insertE emptyE) (simp_all add: decode_simps sign_beyond del: push_bit_of_1 mask_numeral)
qed

section \<open>What the encoders write\<close>

text \<open>
  \<open>enc_at p n bits buffer out\<close>: \<open>out\<close> is \<open>buffer\<close> with the \<open>n\<close> bytes at \<open>p\<close> replaced by the
  groups of seven of \<open>bits\<close>, the continuation bit set on all but the last.
\<close>

definition enc_at :: "nat \<Rightarrow> nat \<Rightarrow> (nat \<Rightarrow> bool) \<Rightarrow> 8 word list \<Rightarrow> 8 word list \<Rightarrow> bool" where
  "enc_at p n bits buffer out \<longleftrightarrow> length out = length buffer \<and>
     (\<forall>i. i < p \<or> p + n \<le> i \<longrightarrow> out ! i = buffer ! i) \<and>
     (\<forall>i < n. (\<forall>j < 7. bit (out ! (p + i)) j \<longleftrightarrow> bits (7 * i + j)) \<and> (bit (out ! (p + i)) 7 \<longleftrightarrow> Suc i < n))"

lemma bit_cont: "bit (b OR 0x80) j \<longleftrightarrow> bit b j \<or> j = 7" for b :: "8 word"
proof -
  have "(0x80 :: 8 word) = push_bit 7 1" by simp
  then have "bit (b OR 0x80) j = bit (b OR push_bit 7 1) j" by simp
  then show ?thesis by (simp only: bit_or_iff bit_push_bit_iff bit_1_iff) auto
qed

lemma enc_at_last:
  assumes "p < length buffer" and "\<And>j. j < 7 \<Longrightarrow> bit byte j \<longleftrightarrow> bits j" and "\<not> bit byte 7"
  shows "enc_at p 1 bits buffer (buffer[p := byte])"
  using assms by (auto simp: enc_at_def)

lemma enc_at_step:
  assumes "p < length buffer" and "\<And>j. j < 7 \<Longrightarrow> bit byte j \<longleftrightarrow> bits j" and "0 < n"
    and "enc_at (Suc p) n (\<lambda>k. bits (k + 7)) (buffer[p := byte OR 0x80]) out"
  shows "enc_at p (Suc n) bits buffer out"
  unfolding enc_at_def
proof (intro conjI allI impI)
  show "length out = length buffer" using assms(4) by (simp add: enc_at_def)
  show "out ! i = buffer ! i" if "i < p \<or> p + Suc n \<le> i" for i
    using assms(4) that by (auto simp: enc_at_def)
  have p: "out ! p = byte OR 0x80" using assms(1,4) by (simp add: enc_at_def)
  have rest: "(\<forall>j < 7. bit (out ! (p + i)) j \<longleftrightarrow> bits (7 * i + j)) \<and> (bit (out ! (p + i)) 7 \<longleftrightarrow> Suc i < Suc n)"
    if "i < Suc n" for i
  proof (cases i)
    case 0
    then show ?thesis using p assms(2,3) by (simp add: bit_cont)
  next
    case (Suc k)
    then show ?thesis using assms(4) that by (auto simp: enc_at_def algebra_simps)
  qed
  then show "bit (out ! (p + i)) j \<longleftrightarrow> bits (7 * i + j)" if "i < Suc n" "j < 7" for i j using that by blast
  show "bit (out ! (p + i)) 7 \<longleftrightarrow> Suc i < Suc n" if "i < Suc n" for i using rest [OF that] by blast
qed

lemma bit_group: "bit (ucast (w AND 0x7f) :: 8 word) j \<longleftrightarrow> j < 7 \<and> bit w j" for w :: "'a::len word"
proof -
  have "(0x7f :: 'a word) = mask 7" by (simp add: mask_eq_exp_minus_1)
  then have "bit (ucast (w AND 0x7f) :: 8 word) j = bit (ucast (w AND mask 7) :: 8 word) j" by simp
  then show ?thesis by (auto simp only: bit_ucast_iff bit_and_iff bit_mask_iff len_num1 len_bit0 dest: bit_imp_possible_bit)
qed

lemma unsigned_loop_ok:
  fixes number :: "'a::len word"
  assumes "drop_bit (7 * d) number = 0" and "0 < d" and "p + d \<le> length buffer"
  shows "\<exists>n out. unsigned_encode_loop number p buffer = Inr (p + n, out) \<and> 0 < n \<and> n \<le> d \<and>
    enc_at p n (bit number) buffer out \<and> drop_bit (7 * n) number = 0"
  using assms
proof (induction d arbitrary: number p buffer)
  case (Suc d)
  let ?byte = "ucast (number AND 0x7f) :: 8 word"
  have bits: "bit ?byte j \<longleftrightarrow> bit number j" if "j < 7" for j using that by (simp add: bit_group)
  have p: "p < length buffer" using Suc.prems(3) by simp
  show ?case
  proof (cases "drop_bit 7 number = 0")
    case True
    then have "unsigned_encode_loop number p buffer = Inr (p + 1, buffer[p := ?byte])"
      using p by (subst unsigned_encode_loop.simps) (simp add: store_byte_def)
    moreover have "enc_at p 1 (bit number) buffer (buffer[p := ?byte])"
      by (rule enc_at_last) (use p bits in \<open>auto simp: bit_group\<close>)
    ultimately show ?thesis using True by (intro exI [of _ 1] exI [of _ "buffer[p := ?byte]"]) simp
  next
    case False
    let ?n = "drop_bit 7 number"
    have "drop_bit (7 * d) ?n = 0" using Suc.prems(1) by (simp add: drop_bit_drop_bit add.commute)
    moreover from this False have "0 < d" by (cases d) auto
    ultimately obtain n out where n: "unsigned_encode_loop ?n (Suc p) (buffer[p := ?byte OR 0x80]) = Inr (Suc p + n, out)"
        "0 < n" "n \<le> d" "enc_at (Suc p) n (bit ?n) (buffer[p := ?byte OR 0x80]) out" "drop_bit (7 * n) ?n = 0"
      using Suc.IH [of ?n "Suc p" "buffer[p := ?byte OR 0x80]"] Suc.prems(3) by auto
    have "bit ?n = (\<lambda>k. bit number (k + 7))" by (auto simp: bit_drop_bit_eq add.commute)
    with n(4) have "enc_at (Suc p) n (\<lambda>k. bit number (k + 7)) (buffer[p := ?byte OR 0x80]) out" by simp
    then have "enc_at p (Suc n) (bit number) buffer out"
      by (intro enc_at_step [where bits = "bit number" and byte = ?byte] p bits n(2))
    moreover have "unsigned_encode_loop number p buffer = Inr (p + Suc n, out)"
      using False p n(1) by (subst unsigned_encode_loop.simps) simp
    moreover have "drop_bit (7 * Suc n) number = 0" using n(5) by (simp add: drop_bit_drop_bit add.commute)
    ultimately show ?thesis using n(2,3) by (intro exI [of _ "Suc n"] exI [of _ out]) simp
  qed
qed simp

lemma enc_at_bytes:
  assumes "enc_at 0 n bits buffer out" and "0 < n" and "n \<le> length buffer"
  shows "leb_bytes n out" and "drop n out = drop n buffer"
proof -
  have len: "length out = length buffer" using assms(1) by (simp add: enc_at_def)
  show "leb_bytes n out" using assms by (auto simp: enc_at_def leb_bytes_def)
  show "drop n out = drop n buffer"
    by (rule nth_equalityI) (use assms(1) len in \<open>auto simp: enc_at_def\<close>)
qed

lemma enc_at_bit:
  assumes "enc_at 0 n bits buffer out" and "n \<le> length buffer"
  shows "bit (leb_or (take n out) :: 'a::len word) k \<longleftrightarrow> k < LENGTH('a) \<and> k div 7 < n \<and> bits k"
proof -
  have "bit (out ! (k div 7)) (k mod 7) \<longleftrightarrow> bits k" if "k div 7 < n"
  proof -
    have "k mod 7 < 7" "7 * (k div 7) + k mod 7 = k" by simp_all
    then show ?thesis using assms(1) that unfolding enc_at_def by (metis add_0)
  qed
  moreover have "n \<le> length out" using assms by (simp add: enc_at_def)
  ultimately show ?thesis by (auto simp: bit_leb_or)
qed

lemma unsigned_value:
  assumes "enc_at 0 n (bit number) buffer out" and "n \<le> length buffer" and "drop_bit (7 * n) number = 0"
  shows "leb_or (take n out) = (number :: 'a::len word)"
proof (rule bit_word_eqI)
  fix k assume "k < LENGTH('a)"
  moreover have "k div 7 < n" if "bit number k"
  proof (rule ccontr)
    assume "\<not> k div 7 < n"
    then have "7 * n \<le> k" by linarith
    then have "bit (drop_bit (7 * n) number) (k - 7 * n)" using that by (simp add: bit_drop_bit_eq)
    then show False using assms(3) by simp
  qed
  ultimately show "bit (leb_or (take n out) :: 'a word) k = bit number k"
    using enc_at_bit [OF assms(1,2), where 'a = 'a, of k] by blast
qed

lemma drop_all: "LENGTH('a) \<le> m \<Longrightarrow> drop_bit m (w :: 'a::len word) = 0"
  by (rule bit_word_eqI) (simp add: bit_drop_bit_eq bit_imp_le_length order.trans not_less)

section \<open>Signed numbers\<close>

lemma sign_group:
  fixes b :: "8 word"
  assumes "sign = 0 \<or> sign = -1"
  shows "b AND 0x40 = word_of_int sign AND 0x40 \<longleftrightarrow> (bit b 6 \<longleftrightarrow> sign = -1)"
proof -
  have e: "(0x40 :: 8 word) = push_bit 6 1" by simp
  have "b AND 0x40 = (if bit b 6 then 0x40 else 0)"
  proof (rule bit_word_eqI)
    fix n assume n: "n < LENGTH(8)"
    have "bit (b AND 0x40) n = (bit b n \<and> n = 6)"
      unfolding e by (simp only: bit_and_iff bit_push_bit_iff bit_1_iff) (use n in auto)
    moreover have "bit (0x40 :: 8 word) n = (n = 6)"
      unfolding e by (simp only: bit_push_bit_iff bit_1_iff) (use n in auto)
    ultimately show "bit (b AND 0x40) n = bit (if bit b 6 then 0x40 else 0 :: 8 word) n" by auto
  qed
  then show ?thesis using assms by auto
qed

lemma bit_number: "k < LENGTH('a) \<Longrightarrow> bit (number :: 'a::len word) k \<longleftrightarrow> bit (sint number) k"
  by (auto simp: bit_sint_iff)

lemma all_sign_bits:
  assumes "N div 128 = sign" and "sign = 0 \<or> sign = (-1 :: int)" and "bit N 6 \<longleftrightarrow> sign = -1" and "6 \<le> k"
  shows "bit N k \<longleftrightarrow> sign = -1"
proof (cases "k = 6")
  case False
  then have "bit N k = bit (drop_bit 7 N) (k - 7)" using assms(4) by (simp add: bit_drop_bit_eq)
  also have "drop_bit 7 N = sign" using assms(1) by (simp add: drop_bit_eq_div)
  finally show ?thesis using assms(2) by auto
qed (use assms in simp)

lemma one_group:
  fixes N :: int
  assumes "- 64 \<le> N" and "N < 64" and "sign = (if N < 0 then -1 else 0)"
  shows "N div 128 = sign" and "bit N 6 \<longleftrightarrow> sign = -1"
proof -
  have "N div 64 = sign" "N div 128 = sign" using assms by auto
  then show "N div 128 = sign" "bit N 6 \<longleftrightarrow> sign = -1" using assms(3) by (auto simp: bit_iff_odd)
qed

lemma signed_loop_ok:
  fixes number :: "'a::len word"
  assumes "sign = (if sint number < 0 then -1 else 0)" and "7 \<le> LENGTH('a)" and "0 < d"
    and "- (2 ^ (7 * d - 1)) \<le> sint number" and "sint number < 2 ^ (7 * d - 1)" and "p + d \<le> length buffer"
  shows "\<exists>n out. signed_encode_loop sign number p buffer = Inr (p + n, out) \<and> 0 < n \<and> n \<le> d \<and>
    enc_at p n (bit (sint number)) buffer out \<and> (\<forall>k \<ge> 7 * n - 1. bit (sint number) k \<longleftrightarrow> sign = -1)"
  using assms
proof (induction d arbitrary: number p buffer)
  case (Suc d)
  let ?byte = "ucast (number AND 0x7f) :: 8 word" and ?N = "sint number"
  let ?n = "signed_drop_bit 7 number"
  have s: "sign = 0 \<or> sign = -1" using Suc.prems(1) by simp
  have bits: "bit ?byte j \<longleftrightarrow> bit ?N j" if "j < 7" for j
    using that Suc.prems(2) bit_number [of j number] by (simp add: bit_group)
  have p: "p < length buffer" using Suc.prems(6) by simp
  have nx: "sint ?n = ?N div 128" by (simp add: sint_signed_drop_bit_eq drop_bit_eq_div)
  show ?case
  proof (cases "?N div 128 = sign \<and> (bit ?N 6 \<longleftrightarrow> sign = -1)")
    case True
    then have "signed_encode_loop sign number p buffer = Inr (p + 1, buffer[p := ?byte])"
      using p bits [of 6] by (subst signed_encode_loop.simps) (simp add: store_byte_def nx sign_group [OF s])
    moreover have "enc_at p 1 (bit ?N) buffer (buffer[p := ?byte])"
      by (rule enc_at_last) (use p bits in \<open>auto simp: bit_group\<close>)
    moreover have "\<forall>k \<ge> 6. bit ?N k \<longleftrightarrow> sign = -1" using all_sign_bits [of ?N sign] True s by blast
    ultimately show ?thesis by (intro exI [of _ 1] exI [of _ "buffer[p := ?byte]"]) simp
  next
    case False
    have d: "0 < d"
    proof (rule ccontr)
      assume "\<not> 0 < d"
      then have "- 64 \<le> ?N" "?N < 64" using Suc.prems(4,5) by simp_all
      from one_group [OF this Suc.prems(1)] False show False by blast
    qed
    define c where "c = (2 :: int) ^ (7 * d - 1)"
    have "7 * Suc d - 1 = 7 + (7 * d - 1)" using d by simp
    then have c: "(2 :: int) ^ (7 * Suc d - 1) = 128 * c" unfolding c_def by (simp only: power_add) simp
    have r: "- c \<le> sint ?n" "sint ?n < c" using Suc.prems(4,5) unfolding c nx by linarith+
    have sg: "sign = (if sint ?n < 0 then -1 else 0)" using Suc.prems(1) unfolding nx by (cases "?N < 0") (auto simp: not_less)
    obtain n out where n: "signed_encode_loop sign ?n (Suc p) (buffer[p := ?byte OR 0x80]) = Inr (Suc p + n, out)"
        "0 < n" "n \<le> d" "enc_at (Suc p) n (bit (sint ?n)) (buffer[p := ?byte OR 0x80]) out"
        "\<forall>k \<ge> 7 * n - 1. bit (sint ?n) k \<longleftrightarrow> sign = -1"
      using Suc.IH [OF sg Suc.prems(2) d r [unfolded c_def], of "Suc p" "buffer[p := ?byte OR 0x80]"] Suc.prems(6)
      by auto
    have shift: "bit (sint ?n) = (\<lambda>k. bit ?N (k + 7))"
      by (auto simp: sint_signed_drop_bit_eq bit_drop_bit_eq add.commute)
    with n(4) have "enc_at (Suc p) n (\<lambda>k. bit ?N (k + 7)) (buffer[p := ?byte OR 0x80]) out" by simp
    then have "enc_at p (Suc n) (bit ?N) buffer out"
      by (intro enc_at_step [where bits = "bit ?N" and byte = ?byte] p bits n(2))
    moreover have "signed_encode_loop sign number p buffer = Inr (p + Suc n, out)"
      using False p bits [of 6] n(1) by (subst signed_encode_loop.simps) (auto simp: Let_def nx sign_group [OF s])
    moreover have "bit ?N k \<longleftrightarrow> sign = -1" if "7 * Suc n - 1 \<le> k" for k
      using n(5) [rule_format, of "k - 7"] that n(2) unfolding shift by (simp add: le_diff_conv2)
    ultimately show ?thesis using n(2,3) by (intro exI [of _ "Suc n"] exI [of _ out]) simp
  qed
qed simp

lemma signed_value:
  assumes "enc_at 0 n (bit (sint number)) buffer out" and "0 < n" and "n \<le> length buffer"
    and "\<forall>k \<ge> 7 * n - 1. bit (sint number) k \<longleftrightarrow> sign = -1"
  shows "leb_signed (take n out) = (number :: 'a::len word)"
proof (rule bit_word_eqI)
  fix k assume k: "k < LENGTH('a)"
  have len: "length (take n out) = n" using assms(1,3) by (simp add: enc_at_def)
  then have "take n out \<noteq> []" using assms(2) by auto
  then have "last (take n out) = out ! (n - 1)" using len assms(2) by (simp add: last_conv_nth)
  moreover have "bit (out ! (n - 1)) 6 \<longleftrightarrow> bit (sint number) (7 * (n - 1) + 6)"
    using assms(1,2) by (auto simp: enc_at_def)
  moreover have "7 * (n - 1) + 6 = 7 * n - 1" using assms(2) by simp
  ultimately have sign: "bit (last (take n out)) 6 \<longleftrightarrow> sign = -1" using assms(4) by simp
  have "bit (leb_signed (take n out) :: 'a word) k \<longleftrightarrow>
      k div 7 < n \<and> bit (sint number) k \<or> sign = -1 \<and> 7 * n \<le> k"
    using k enc_at_bit [OF assms(1,3), where 'a = 'a, of k] sign len
    by (auto simp: leb_signed_def bit_or_iff bit_not_iff bit_mask_iff)
  moreover have "bit (sint number) k \<longleftrightarrow> sign = -1" if "7 * n \<le> k" using assms(4) that by simp
  moreover have "k div 7 < n \<longleftrightarrow> \<not> 7 * n \<le> k" by linarith
  ultimately show "bit (leb_signed (take n out) :: 'a word) k = bit number k"
    using bit_number [OF k, of number] by blast
qed

section \<open>Round trips\<close>

text \<open>
  A number fits in \<open>k\<close> groups of seven bits when it is below \<open>2 ^ (7 * k)\<close>, or, signed, when the
  groups hold it in two's complement.
\<close>

definition fits_unsigned :: "nat \<Rightarrow> 'a::len word \<Rightarrow> bool" where
  "fits_unsigned k number \<longleftrightarrow> uint number < 2 ^ (7 * k)"

definition fits_signed :: "nat \<Rightarrow> 'a::len word \<Rightarrow> bool" where
  "fits_signed k number \<longleftrightarrow> - (2 ^ (7 * k - 1)) \<le> sint number \<and> sint number < 2 ^ (7 * k - 1)"

lemma fits_unsigned_all: "LENGTH('a) \<le> 7 * d \<Longrightarrow> fits_unsigned d (number :: 'a::len word)"
  unfolding fits_unsigned_def
  by (rule order_less_le_trans [OF uint_bounded]) (intro power_increasing, auto)

lemma fits_signed_all:
  assumes "LENGTH('a) \<le> 7 * d"
  shows "fits_signed d (number :: 'a::len word)"
proof -
  have "(2 :: int) ^ (LENGTH('a) - 1) \<le> 2 ^ (7 * d - 1)" using assms by (intro power_increasing) auto
  then show ?thesis using sint_ge [of number] sint_lt [of number] unfolding fits_signed_def by linarith
qed

lemma fits_drop: "fits_unsigned d number \<Longrightarrow> drop_bit (7 * d) number = (0 :: 'a::len word)"
  unfolding fits_unsigned_def by transfer (simp add: drop_bit_eq_div div_pos_pos_trivial)

lemma unsigned_round_trip:
  fixes number :: "'a::len word"
  assumes "fits_unsigned d number" and "0 < d" and "d \<le> length buffer"
  shows "\<exists>n out. unsigned_encode_loop number 0 buffer = Inr (n, out) \<and> 0 < n \<and> n \<le> d \<and> leb_bytes n out \<and>
    leb_or (take n out) = number \<and> length out = length buffer \<and> drop n out = drop n buffer"
proof -
  obtain n out where n: "unsigned_encode_loop number 0 buffer = Inr (0 + n, out)" "0 < n" "n \<le> d"
      "enc_at 0 n (bit number) buffer out" "drop_bit (7 * n) number = 0"
    using unsigned_loop_ok [OF fits_drop [OF assms(1)] assms(2), of 0 buffer] assms(3) by auto
  have len: "n \<le> length buffer" using n(3) assms(3) by simp
  show ?thesis
    using n enc_at_bytes [OF n(4,2) len] unsigned_value [OF n(4) len n(5)] by (auto simp: enc_at_def)
qed

lemma signed_round_trip:
  fixes number :: "'a::len word"
  assumes "fits_signed d number" and "7 \<le> LENGTH('a)" and "0 < d" and "d \<le> length buffer"
  shows "\<exists>n out. signed_encode_loop (if sint number < 0 then -1 else 0) number 0 buffer = Inr (n, out) \<and>
    0 < n \<and> n \<le> d \<and> leb_bytes n out \<and>
    leb_signed (take n out) = number \<and> length out = length buffer \<and> drop n out = drop n buffer"
proof -
  let ?sign = "if sint number < 0 then -1 else 0 :: int"
  obtain n out where n: "signed_encode_loop ?sign number 0 buffer = Inr (0 + n, out)" "0 < n" "n \<le> d"
      "enc_at 0 n (bit (sint number)) buffer out" "\<forall>k \<ge> 7 * n - 1. bit (sint number) k \<longleftrightarrow> ?sign = -1"
    using signed_loop_ok [OF refl assms(2,3), of number 0 buffer] assms(1,4) by (auto simp: fits_signed_def)
  have len: "n \<le> length buffer" using n(3) assms(4) by simp
  show ?thesis
    using n(1-3) enc_at_bytes [OF n(4,2) len] signed_value [OF n(4,2) len n(5)] n(4) by (auto simp: enc_at_def)
qed

section \<open>The contract of a codec\<close>

text \<open>
  What a writer and a reader of DWARF data rely on: with room for the groups the number needs,
  the encoder succeeds, writes at least one byte, no more bytes than needed and no byte beyond its
  count, and the decoder reads back the number and the count whatever bytes follow. Sequences of
  numbers, written one after the other and read one after the other, then come back unchanged.
\<close>

fun encode_seq :: "('v \<Rightarrow> 8 word list \<Rightarrow> (nat \<times> 8 word list) res) \<Rightarrow> nat \<Rightarrow> 'v list \<Rightarrow> 8 word list res" where
  "encode_seq enc d [] = Inr []"
| "encode_seq enc d (v # vs) =
     bindE (enc v (replicate d 0)) (\<lambda>(n, out).
     bindE (encode_seq enc d vs) (\<lambda>bs. Inr (take n out @ bs)))"

fun decode_seq :: "(8 word list \<Rightarrow> (nat \<times> 'v) res) \<Rightarrow> nat \<Rightarrow> 8 word list \<Rightarrow> 'v list res" where
  "decode_seq dec 0 data = Inr []"
| "decode_seq dec (Suc k) data =
     bindE (dec data) (\<lambda>(n, v). bindE (decode_seq dec k (drop n data)) (\<lambda>vs. Inr (v # vs)))"

locale codec =
  fixes enc :: "'v \<Rightarrow> 8 word list \<Rightarrow> (nat \<times> 8 word list) res"
    and dec :: "8 word list \<Rightarrow> (nat \<times> 'v) res" and fits :: "nat \<Rightarrow> 'v \<Rightarrow> bool" and d :: nat
  assumes fits_all: "fits d v" and some: "0 < d"
    and enc_dec: "fits k v \<Longrightarrow> 0 < k \<Longrightarrow> k \<le> d \<Longrightarrow> k \<le> length buffer \<Longrightarrow>
    \<exists>n out. enc v buffer = Inr (n, out) \<and> 0 < n \<and> n \<le> k \<and> length out = length buffer \<and>
      drop n out = drop n buffer \<and> (\<forall>rest. dec (take n out @ rest) = Inr (n, v))"
begin

lemma round_trip:
  assumes "fits k v" and "0 < k" and "k \<le> d" and "k \<le> length buffer"
  shows "\<exists>n out. enc v buffer = Inr (n, out) \<and> 0 < n \<and> n \<le> k \<and> length out = length buffer \<and>
    drop n out = drop n buffer \<and> dec out = Inr (n, v)"
proof -
  obtain n out where n: "enc v buffer = Inr (n, out)" "0 < n" "n \<le> k" "length out = length buffer"
      "drop n out = drop n buffer" "\<forall>rest. dec (take n out @ rest) = Inr (n, v)"
    using enc_dec [OF assms] by blast
  then have "dec (take n out @ drop n out) = Inr (n, v)" by blast
  then have "dec out = Inr (n, v)" by (simp only: append_take_drop_id)
  with n show ?thesis by auto
qed

lemma seq_round_trip:
  "\<exists>bs. encode_seq enc d vs = Inr bs \<and> length bs \<le> d * length vs \<and>
    (\<forall>rest. decode_seq dec (length vs) (bs @ rest) = Inr vs)"
proof (induction vs)
  case (Cons v vs)
  obtain n out where n: "enc v (replicate d 0) = Inr (n, out)" "0 < n" "n \<le> d" "length out = d"
      "\<forall>rest. dec (take n out @ rest) = Inr (n, v)"
    using enc_dec [OF fits_all some order_refl, of "replicate d 0" v] by auto
  obtain bs where bs: "encode_seq enc d vs = Inr bs" "length bs \<le> d * length vs"
      "\<forall>rest. decode_seq dec (length vs) (bs @ rest) = Inr vs"
    using Cons.IH by blast
  have "decode_seq dec (length (v # vs)) ((take n out @ bs) @ rest) = Inr (v # vs)" for rest
    using n(3-5) bs(3) by simp
  with n bs(1,2) show ?case by (intro exI [of _ "take n out @ bs"]) simp
qed simp

end

lemma leb_bytes_prefix: "leb_bytes n out \<Longrightarrow> leb_bytes n (take n out @ rest)"
  by (auto simp: leb_bytes_def nth_append)

lemma take_prefix: "leb_bytes n out \<Longrightarrow> take n (take n out @ rest) = take n out"
  by (simp add: leb_bytes_def)

text \<open>A decoder that returns the value of the bytes, and an encoder that writes bytes with that value.\<close>

lemma codecI:
  assumes "\<And>n data. leb_bytes n data \<Longrightarrow> n \<le> d \<Longrightarrow> dec data = Inr (n, val (take n data))"
    and "\<And>k v buffer. fits k v \<Longrightarrow> 0 < k \<Longrightarrow> k \<le> length buffer \<Longrightarrow> \<exists>n out. enc v buffer = Inr (n, out) \<and>
      0 < n \<and> n \<le> k \<and> leb_bytes n out \<and> val (take n out) = v \<and> length out = length buffer \<and>
      drop n out = drop n buffer"
    and "\<And>v. fits d v" and "0 < d"
  shows "codec enc dec fits d"
proof
  fix k v and buffer :: "8 word list"
  assume k: "fits k v" "0 < k" "k \<le> d" "k \<le> length buffer"
  then obtain n out where n: "enc v buffer = Inr (n, out)" "0 < n" "n \<le> k" "leb_bytes n out"
      "val (take n out) = v" "length out = length buffer" "drop n out = drop n buffer"
    using assms(2) by blast
  have "dec (take n out @ rest) = Inr (n, v)" for rest
    using assms(1) [OF leb_bytes_prefix [OF n(4)], of rest] k(3) n(3)
    by (simp only: take_prefix [OF n(4)] n(5) order_trans)
  with n show "\<exists>n out. enc v buffer = Inr (n, out) \<and> 0 < n \<and> n \<le> k \<and> length out = length buffer \<and>
      drop n out = drop n buffer \<and> (\<forall>rest. dec (take n out @ rest) = Inr (n, v))"
    by blast
qed (use assms(3,4) in auto)

interpretation unsigned32: codec leb128_unsigned_encode32 leb128_unsigned_decode32 fits_unsigned 5
  by (rule codecI [OF leb128_unsigned_decode32_ok])
    (simp_all add: leb128_unsigned_encode32_def unsigned_round_trip fits_unsigned_all)

interpretation unsigned64: codec leb128_unsigned_encode64 leb128_unsigned_decode64 fits_unsigned 10
  by (rule codecI [OF leb128_unsigned_decode64_ok])
    (simp_all add: leb128_unsigned_encode64_def unsigned_round_trip fits_unsigned_all)

interpretation signed32: codec leb128_signed_encode32 leb128_signed_decode32 fits_signed 5
  by (rule codecI [OF leb128_signed_decode32_ok])
    (simp_all add: leb128_signed_encode32_def signed_round_trip [simplified] fits_signed_all Let_def)

interpretation signed64: codec leb128_signed_encode64 leb128_signed_decode64 fits_signed 10
  by (rule codecI [OF leb128_signed_decode64_ok])
    (simp_all add: leb128_signed_encode64_def signed_round_trip [simplified] fits_signed_all Let_def)

section \<open>The arithmetic meaning of a byte sequence\<close>

fun leb_value :: "8 word list \<Rightarrow> int" where
  "leb_value [] = 0"
| "leb_value (b # bs) = uint b mod 128 + 128 * leb_value bs"

definition leb_signed_value :: "8 word list \<Rightarrow> int" where
  "leb_signed_value bs = leb_value bs - (if bit (last bs) 6 then 128 ^ length bs else 0)"

lemma low7_value: "(low7 b :: 'a::len word) = word_of_int (uint b mod 128)"
proof (rule bit_word_eqI)
  fix k assume "k < LENGTH('a)"
  have eq: "uint b mod 128 = take_bit 7 (uint b)" by (simp add: take_bit_eq_mod)
  have "k < 7 \<longrightarrow> k < LENGTH(8)" by simp
  then show "bit (low7 b :: 'a word) k \<longleftrightarrow> bit (word_of_int (uint b mod 128) :: 'a word) k"
    using \<open>k < LENGTH('a)\<close> unfolding eq bit_low7 bit_word_of_int_iff bit_take_bit_iff bit_uint_iff by blast
qed

lemma leb_or_value: "(leb_or bs :: 'a::len word) = word_of_int (leb_value bs)"
proof (induction bs)
  case (Cons b bs)
  have "low7 b AND push_bit 7 (leb_or bs) = (0 :: 'a word)"
    by (rule bit_eqI) (auto simp: bit_and_iff bit_low7 bit_push_bit_iff)
  then have "(leb_or (b # bs) :: 'a word) = low7 b + push_bit 7 (leb_or bs)"
    by (simp add: disjunctive_add_eq_or)
  also have "\<dots> = word_of_int (leb_value (b # bs))"
    by (simp add: low7_value Cons push_bit_eq_mult mult.commute)
  finally show ?case .
qed simp

lemma leb_signed_eq: "(leb_signed bs :: 'a::len word) = word_of_int (leb_signed_value bs)"
proof (cases "bit (last bs) 6")
  case True
  have "leb_or bs AND NOT (mask (7 * length bs)) = (0 :: 'a word)"
    by (rule bit_eqI) (auto simp: bit_and_iff bit_leb_or bit_not_iff bit_mask_iff)
  then have "(leb_signed bs :: 'a word) = leb_or bs + NOT (mask (7 * length bs))"
    using True by (simp add: leb_signed_def disjunctive_add_eq_or)
  also have "\<dots> = word_of_int (leb_value bs - 2 ^ (7 * length bs))"
    by (simp add: leb_or_value sign_extension(1) [symmetric] push_bit_eq_mult)
  finally show ?thesis using True by (simp add: leb_signed_value_def power_mult)
qed (simp add: leb_signed_def leb_signed_value_def leb_or_value)

section \<open>What the decoders do on every input\<close>

text \<open>
  A decoder looks at the bytes up to the first one without the continuation bit, at most \<open>d\<close> of
  them; input that ends before that is read out of bounds.
\<close>

definition stops_within :: "nat \<Rightarrow> 8 word list \<Rightarrow> (nat \<times> 'v) res \<Rightarrow> bool" where
  "stops_within d data m \<longleftrightarrow> (case m of
     Inl err \<Rightarrow> err = Out_Of_Bounds \<and> length data < d \<and> (\<forall>b \<in> set data. bit b 7)
   | Inr (n, v) \<Rightarrow> 0 < n \<and> n \<le> d \<and> n \<le> length data \<and> (\<forall>i < n - 1. bit (data ! i) 7) \<and>
       (n < d \<longrightarrow> \<not> bit (data ! (n - 1)) 7))"

lemma stops_withinI:
  assumes "\<And>n. leb_bytes n data \<Longrightarrow> n < d \<Longrightarrow> \<exists>v. m = Inr (n, v)"
    and "d \<le> length data \<Longrightarrow> \<forall>i < d - 1. bit (data ! i) 7 \<Longrightarrow> \<exists>v. m = Inr (d, v)"
    and "length data < d \<Longrightarrow> \<forall>b \<in> set data. bit b 7 \<Longrightarrow> m = Inl Out_Of_Bounds" and "0 < d"
  shows "stops_within d data m"
proof (cases "\<exists>i. i < d - 1 \<and> i < length data \<and> \<not> bit (data ! i) 7")
  case True
  define k where "k = (LEAST i. i < d - 1 \<and> i < length data \<and> \<not> bit (data ! i) 7)"
  have k: "k < d - 1" "k < length data" "\<not> bit (data ! k) 7"
    using LeastI_ex [OF True] by (simp_all add: k_def)
  have below: "bit (data ! i) 7" if "i < k" for i
    using not_less_Least [OF that [unfolded k_def]] that k by auto
  have "leb_bytes (Suc k) data" using k below by (simp add: leb_bytes_def)
  then obtain v where "m = Inr (Suc k, v)" using assms(1) k(1) by (metis less_diff_conv Suc_eq_plus1)
  then show ?thesis using k below by (simp add: stops_within_def)
next
  case False
  show ?thesis
  proof (cases "d \<le> length data")
    case True
    then obtain v where "m = Inr (d, v)" using assms(2) False by force
    then show ?thesis using True False assms(4) by (auto simp: stops_within_def)
  next
    case short: False
    then have "\<forall>b \<in> set data. bit b 7" using False by (force simp: in_set_conv_nth)
    then show ?thesis using assms(3) short by (simp add: stops_within_def)
  qed
qed

lemma load_simps:
  "k < length data \<Longrightarrow> load_byte data k = Inr (data ! k)" "length data \<le> k \<Longrightarrow> load_byte data k = Inl Out_Of_Bounds"
  by (simp_all add: load_byte_def)

lemma leb128_unsigned_decode32_stops: "stops_within 5 data (leb128_unsigned_decode32 data)"
proof (rule stops_withinI)
  assume "length data < 5" "\<forall>b \<in> set data. bit b 7"
  then show "leb128_unsigned_decode32 data = Inl Out_Of_Bounds"
    by (simp add: leb128_unsigned_decode32_def load_byte_def high_bit)
next
  assume "5 \<le> length data" "\<forall>i < 5 - 1. bit (data ! i) 7"
  then show "\<exists>v. leb128_unsigned_decode32 data = Inr (5, v)"
    by (auto simp: leb128_unsigned_decode32_def load_byte_def high_bit)
qed (simp_all add: leb128_unsigned_decode32_ok)

lemma leb128_unsigned_decode64_stops: "stops_within 10 data (leb128_unsigned_decode64 data)"
proof (rule stops_withinI)
  assume "length data < 10" "\<forall>b \<in> set data. bit b 7"
  then show "leb128_unsigned_decode64 data = Inl Out_Of_Bounds"
    by (simp add: leb128_unsigned_decode64_def load_byte_def high_bit)
next
  assume "10 \<le> length data" "\<forall>i < 10 - 1. bit (data ! i) 7"
  then show "\<exists>v. leb128_unsigned_decode64 data = Inr (10, v)"
    by (auto simp: leb128_unsigned_decode64_def load_byte_def high_bit)
qed (simp_all add: leb128_unsigned_decode64_ok)

lemma leb128_signed_decode32_stops: "stops_within 5 data (leb128_signed_decode32 data)"
proof (rule stops_withinI)
  assume "length data < 5" "\<forall>b \<in> set data. bit b 7"
  then show "leb128_signed_decode32 data = Inl Out_Of_Bounds"
    by (simp add: leb128_signed_decode32_def load_byte_def high_bit)
next
  assume "5 \<le> length data" "\<forall>i < 5 - 1. bit (data ! i) 7"
  then show "\<exists>v. leb128_signed_decode32 data = Inr (5, v)"
    by (auto simp: leb128_signed_decode32_def load_byte_def high_bit)
qed (simp_all add: leb128_signed_decode32_ok)

lemma leb128_signed_decode64_stops: "stops_within 10 data (leb128_signed_decode64 data)"
proof (rule stops_withinI)
  assume "length data < 10" "\<forall>b \<in> set data. bit b 7"
  then show "leb128_signed_decode64 data = Inl Out_Of_Bounds"
    by (simp add: leb128_signed_decode64_def load_byte_def high_bit)
next
  assume "10 \<le> length data" "\<forall>i < 10 - 1. bit (data ! i) 7"
  then show "\<exists>v. leb128_signed_decode64 data = Inr (10, v)"
    by (auto simp: leb128_signed_decode64_def load_byte_def high_bit)
qed (simp_all add: leb128_signed_decode64_ok)

end
