(* ===== verification/Leb128_Properties.thy ===== *)
theory Leb128_Properties
  imports Leb128
begin

unbundle bit_operations_syntax

text \<open>
  The properties of the LEB128 codecs of \<^verbatim>\<open>libelfutil\<close>, for both widths and both signs. The
  buffer is the memory the caller passes; \<open>fits_unsigned\<close> and \<open>fits_signed\<close> say how many groups of
  seven bits a number needs.
\<close>

text \<open>
  unsigned round trip. When the number fits in \<open>k\<close> groups and the buffer has \<open>k\<close> bytes, the
  encoder writes at most \<open>k\<close> bytes and nothing behind them, and the decoder reads back the number
  and the count. Five bytes serve every 32-bit number and ten every 64-bit number.
\<close>

theorem unsigned_codec:
  fixes u :: "32 word" and v :: "64 word"
  assumes "fits_unsigned k u" and "0 < k" and "k \<le> 5" and "fits_unsigned m v" and "0 < m" and "m \<le> 10"
    and "max k m \<le> length buffer"
  shows "(\<exists>n out. leb128_unsigned_encode32 u buffer = Inr (n, out) \<and> 0 < n \<and> n \<le> k \<and>
      length out = length buffer \<and> drop n out = drop n buffer \<and> leb128_unsigned_decode32 out = Inr (n, u)) \<and>
    (\<exists>n out. leb128_unsigned_encode64 v buffer = Inr (n, out) \<and> 0 < n \<and> n \<le> m \<and>
      length out = length buffer \<and> drop n out = drop n buffer \<and> leb128_unsigned_decode64 out = Inr (n, v)) \<and>
    fits_unsigned 5 u \<and> fits_unsigned 10 v"
  using unsigned32.round_trip [OF assms(1-3), of buffer] unsigned64.round_trip [OF assms(4-6), of buffer]
    unsigned32.fits_all unsigned64.fits_all assms(7)
  by simp

theorem unsigned_codec_witness:
  "(\<exists>n out. leb128_unsigned_encode32 624485 [0, 0, 0] = Inr (n, out) \<and> 0 < n \<and> n \<le> 3 \<and>
      length out = 3 \<and> leb128_unsigned_decode32 out = Inr (n, 624485)) \<and>
   leb128_unsigned_encode32 624485 [0, 0, 0] = Inr (3, [0xe5, 0x8e, 0x26])"
proof
  show "\<exists>n out. leb128_unsigned_encode32 624485 [0, 0, 0] = Inr (n, out) \<and> 0 < n \<and> n \<le> 3 \<and>
      length out = 3 \<and> leb128_unsigned_decode32 out = Inr (n, 624485)"
    using unsigned_codec [of 3 624485 1 7 "[0, 0, 0]"] by (auto simp: fits_unsigned_def)
  show "leb128_unsigned_encode32 624485 [0, 0, 0] = Inr (3, [0xe5, 0x8e, 0x26])" by code_simp
qed

text \<open>
  C32: signed round trip, with the sign of the last group extended by the decoder.
\<close>

theorem signed_codec:
  fixes u :: "32 word" and v :: "64 word"
  assumes "fits_signed k u" and "0 < k" and "k \<le> 5" and "fits_signed m v" and "0 < m" and "m \<le> 10"
    and "max k m \<le> length buffer"
  shows "(\<exists>n out. leb128_signed_encode32 u buffer = Inr (n, out) \<and> 0 < n \<and> n \<le> k \<and>
      length out = length buffer \<and> drop n out = drop n buffer \<and> leb128_signed_decode32 out = Inr (n, u)) \<and>
    (\<exists>n out. leb128_signed_encode64 v buffer = Inr (n, out) \<and> 0 < n \<and> n \<le> m \<and>
      length out = length buffer \<and> drop n out = drop n buffer \<and> leb128_signed_decode64 out = Inr (n, v)) \<and>
    fits_signed 5 u \<and> fits_signed 10 v"
  using signed32.round_trip [OF assms(1-3), of buffer] signed64.round_trip [OF assms(4-6), of buffer]
    signed32.fits_all signed64.fits_all assms(7)
  by simp

theorem signed_codec_witness:
  "(\<exists>n out. leb128_signed_encode64 (- 123456) [0, 0, 0] = Inr (n, out) \<and> 0 < n \<and> n \<le> 3 \<and>
      length out = 3 \<and> leb128_signed_decode64 out = Inr (n, - 123456)) \<and>
   leb128_signed_encode64 (- 123456) [0, 0, 0] = Inr (3, [0xc0, 0xbb, 0x78])"
proof
  show "\<exists>n out. leb128_signed_encode64 (- 123456) [0, 0, 0] = Inr (n, out) \<and> 0 < n \<and> n \<le> 3 \<and>
      length out = 3 \<and> leb128_signed_decode64 out = Inr (n, - 123456)"
    using signed_codec [of 1 5 3 "- 123456" "[0, 0, 0]"] by (auto simp: fits_signed_def)
  show "leb128_signed_encode64 (- 123456) [0, 0, 0] = Inr (3, [0xc0, 0xbb, 0x78])" by code_simp
qed

text \<open>
  C34: streams. Numbers encoded one after the other, as DWARF sections hold them, are decoded one
  after the other to the same numbers, whatever follows the last of them.
\<close>

theorem stream_round_trip:
  "(\<exists>bs. encode_seq leb128_unsigned_encode32 5 us = Inr bs \<and>
      (\<forall>rest. decode_seq leb128_unsigned_decode32 (length us) (bs @ rest) = Inr us)) \<and>
   (\<exists>bs. encode_seq leb128_unsigned_encode64 10 vs = Inr bs \<and>
      (\<forall>rest. decode_seq leb128_unsigned_decode64 (length vs) (bs @ rest) = Inr vs)) \<and>
   (\<exists>bs. encode_seq leb128_signed_encode32 5 us = Inr bs \<and>
      (\<forall>rest. decode_seq leb128_signed_decode32 (length us) (bs @ rest) = Inr us)) \<and>
   (\<exists>bs. encode_seq leb128_signed_encode64 10 vs = Inr bs \<and>
      (\<forall>rest. decode_seq leb128_signed_decode64 (length vs) (bs @ rest) = Inr vs))"
  using unsigned32.seq_round_trip [of us] unsigned64.seq_round_trip [of vs]
    signed32.seq_round_trip [of us] signed64.seq_round_trip [of vs]
  by blast

text \<open>
  what the decoders compute. On \<open>n\<close> bytes of which only the last lacks the continuation bit
  the unrolled shifts and masks give the number with these base-128 digits, least significant
  first, less \<open>128 ^ n\<close> in the signed decoders when bit 6 of the last byte is set.
\<close>

theorem decoded_value:
  assumes "leb_bytes n data" and "n \<le> 10"
  shows "leb128_unsigned_decode64 data = Inr (n, word_of_int (leb_value (take n data))) \<and>
    leb128_signed_decode64 data = Inr (n, word_of_int (leb_signed_value (take n data))) \<and>
    (n \<le> 5 \<longrightarrow> leb128_unsigned_decode32 data = Inr (n, word_of_int (leb_value (take n data))) \<and>
      leb128_signed_decode32 data = Inr (n, word_of_int (leb_signed_value (take n data))))"
  by (simp add: leb128_unsigned_decode32_ok [OF assms(1)] leb128_unsigned_decode64_ok [OF assms]
    leb128_signed_decode32_ok [OF assms(1)] leb128_signed_decode64_ok [OF assms] leb_or_value leb_signed_eq)

theorem decoded_value_witness:
  "leb128_signed_decode32 [0x80, 0x7f] = Inr (2, word_of_int (leb_signed_value [0x80, 0x7f])) \<and>
   leb_signed_value [0x80, 0x7f] = - 128"
proof
  show "leb128_signed_decode32 [0x80, 0x7f] = Inr (2, word_of_int (leb_signed_value [0x80, 0x7f]))"
    using decoded_value [of 2 "[0x80, 0x7f]"] by (simp add: leb_bytes_def)
  show "leb_signed_value [0x80, 0x7f] = - 128" by code_simp
qed

text \<open>
  the decoders on arbitrary bytes. They stop after the first byte without the continuation
  bit and after five or ten bytes at the latest, and read out of bounds exactly on shorter input
  in which every byte has the continuation bit.
\<close>

theorem decoders_stop:
  "stops_within 5 data (leb128_unsigned_decode32 data) \<and> stops_within 10 data (leb128_unsigned_decode64 data) \<and>
   stops_within 5 data (leb128_signed_decode32 data) \<and> stops_within 10 data (leb128_signed_decode64 data)"
  by (intro conjI leb128_unsigned_decode32_stops leb128_unsigned_decode64_stops
    leb128_signed_decode32_stops leb128_signed_decode64_stops)

end
