(* ===== verification/Priority_Queue.thy ===== *)
theory Priority_Queue
  imports Path64_Prelude "HOL-Library.Multiset"
begin

text \<open>
  The priority queue of \<^verbatim>\<open>common/util/priority_queue.c\<close>: a heap in a vector with 1-based
  indices, ordered by a client's comparison function, with an optional pair of client functions
  that keep each element's index in the element. The descriptor is a record with the fields of
  \<^verbatim>\<open>struct prq\<close>; what the index functions read and write, the client's own memory, is the
  field \<open>PRQ_client\<close>. Index and size computations that leave the range of \<^verbatim>\<open>INT32\<close> are errors.
\<close>

section \<open>The descriptor\<close>

record 'a vector_pool =
  TYPE_MEM_POOL_ALLOC_N :: "nat \<Rightarrow> 'a list"
  TYPE_MEM_POOL_REALLOC_N :: "'a list \<Rightarrow> nat \<Rightarrow> 'a list"

record ('a, 'w) PRQ =
  PRQ_comparison_fn :: "'a \<Rightarrow> 'a \<Rightarrow> bool"
  PRQ_mem_pool :: "'a vector_pool"
  PRQ_size :: int
  PRQ_allocated_size :: int
  PRQ_expansion_factor :: int
  PRQ_get_index_fn :: "('w \<Rightarrow> 'a \<Rightarrow> int) option"
  PRQ_set_index_fn :: "('a \<Rightarrow> int \<Rightarrow> 'w \<Rightarrow> 'w) option"
  PRQ_heap_vector :: "'a list"
  PRQ_client :: 'w

definition UNDEFINED :: int where
  "UNDEFINED = -1"

section \<open>Access\<close>

definition PRQ_Ith :: "('a, 'w) PRQ \<Rightarrow> int \<Rightarrow> 'a res" where
  "PRQ_Ith prq i =
     (if 0 \<le> i - 1 \<and> i - 1 < int (length (PRQ_heap_vector prq))
      then Inr (PRQ_heap_vector prq ! nat (i - 1)) else Inl Out_Of_Bounds)"

definition PRQ_Size :: "('a, 'w) PRQ \<Rightarrow> int" where
  "PRQ_Size prq = PRQ_size prq"

definition PRQ_Set_Ith :: "('a, 'w) PRQ \<Rightarrow> int \<Rightarrow> 'a \<Rightarrow> ('a, 'w) PRQ res" where
  "PRQ_Set_Ith prq i element =
     (let prq = (case PRQ_set_index_fn prq of
                   None \<Rightarrow> prq
                 | Some set_fn \<Rightarrow> prq\<lparr>PRQ_client := set_fn element i (PRQ_client prq)\<rparr>) in
      if 0 \<le> i - 1 \<and> i - 1 < int (length (PRQ_heap_vector prq))
      then Inr (prq\<lparr>PRQ_heap_vector := (PRQ_heap_vector prq)[nat (i - 1) := element]\<rparr>)
      else Inl Out_Of_Bounds)"

section \<open>Sifting\<close>

function Upheap_loop :: "('a, 'w) PRQ \<Rightarrow> 'a \<Rightarrow> int \<Rightarrow> (('a, 'w) PRQ \<times> int) res" where
  "Upheap_loop prq element index =
     (if index > 1
      then let parent_index = index div 2 in
           bindE (PRQ_Ith prq parent_index) (\<lambda>parent.
           if \<not> PRQ_comparison_fn prq element parent then Inr (prq, index)
           else bindE (PRQ_Set_Ith prq index parent) (\<lambda>prq.
                Upheap_loop prq element parent_index))
      else Inr (prq, index))"
  by pat_completeness auto
termination
  by (relation "measure (\<lambda>(prq, element, index). nat index)") auto

definition PRQ_Upheap :: "('a, 'w) PRQ \<Rightarrow> int \<Rightarrow> (('a, 'w) PRQ \<times> int) res" where
  "PRQ_Upheap prq index =
     bindE (FmtAssert (index \<le> PRQ_size prq \<and> index > 0)) (\<lambda>_.
     bindE (PRQ_Ith prq index) (\<lambda>element.
     bindE (Upheap_loop prq element index) (\<lambda>(prq, index).
     bindE (PRQ_Set_Ith prq index element) (\<lambda>prq.
     Inr (prq, index)))))"

lemma PRQ_Set_Ith_fields:
  assumes "PRQ_Set_Ith prq i x = Inr prq'"
  shows "PRQ_size prq' = PRQ_size prq" "PRQ_comparison_fn prq' = PRQ_comparison_fn prq"
    "length (PRQ_heap_vector prq') = length (PRQ_heap_vector prq)"
  using assms by (auto simp: PRQ_Set_Ith_def Let_def split: if_splits option.splits)

function Downheap_loop :: "('a, 'w) PRQ \<Rightarrow> 'a \<Rightarrow> int \<Rightarrow> (('a, 'w) PRQ \<times> int) res" where
  "Downheap_loop prq element index =
     (if index > 0 then
        bindE (int32 (index * 2)) (\<lambda>left_child_index.
        bindE (int32 (left_child_index + 1)) (\<lambda>right_child_index.
        if left_child_index > PRQ_size prq then Inr (prq, index)
        else
          bindE (PRQ_Ith prq left_child_index) (\<lambda>left_child.
          bindE (if right_child_index \<le> PRQ_size prq
                 then bindE (PRQ_Ith prq right_child_index) (\<lambda>r.
                      Inr (PRQ_comparison_fn prq r left_child))
                 else Inr False) (\<lambda>go_right.
          if go_right
          then bindE (PRQ_Ith prq right_child_index) (\<lambda>right_child.
               if PRQ_comparison_fn prq right_child element
               then bindE (PRQ_Set_Ith prq index right_child) (\<lambda>prq.
                    Downheap_loop prq element right_child_index)
               else Inr (prq, index))
          else if PRQ_comparison_fn prq left_child element
          then bindE (PRQ_Set_Ith prq index left_child) (\<lambda>prq.
               Downheap_loop prq element left_child_index)
          else Inr (prq, index)))))
      else Inl Out_Of_Bounds)"
  by pat_completeness auto
termination
proof (relation "measure (\<lambda>(prq, element, index). nat (PRQ_size prq - index))", goal_cases)
  case (2 prq element index l r lc gr rc prq')
  then have "PRQ_size prq' = PRQ_size prq" "l = index * 2" "r = index * 2 + 1" "r \<le> PRQ_size prq"
    by (auto simp: PRQ_Set_Ith_fields dest!: int32_Inr split: if_splits)
  with 2 show ?case by auto
next
  case (3 prq element index l r lc gr prq')
  then have "PRQ_size prq' = PRQ_size prq" "l = index * 2"
    by (auto simp: PRQ_Set_Ith_fields dest!: int32_Inr)
  with 3 show ?case by auto
qed auto

declare Upheap_loop.simps [simp del] Downheap_loop.simps [simp del]

definition PRQ_Downheap :: "('a, 'w) PRQ \<Rightarrow> int \<Rightarrow> (('a, 'w) PRQ \<times> int) res" where
  "PRQ_Downheap prq index =
     bindE (FmtAssert (index \<le> PRQ_size prq \<and> index > 0)) (\<lambda>_.
     bindE (PRQ_Ith prq index) (\<lambda>element.
     bindE (Downheap_loop prq element index) (\<lambda>(prq, index).
     bindE (PRQ_Set_Ith prq index element) (\<lambda>prq.
     Inr (prq, index)))))"

section \<open>Interface routines\<close>

definition PRQ_Initialize ::
    "('a \<Rightarrow> 'a \<Rightarrow> bool) \<Rightarrow> ('w \<Rightarrow> 'a \<Rightarrow> int) option \<Rightarrow> ('a \<Rightarrow> int \<Rightarrow> 'w \<Rightarrow> 'w) option \<Rightarrow>
     'a vector_pool \<Rightarrow> int \<Rightarrow> int \<Rightarrow> 'w \<Rightarrow> ('a, 'w) PRQ" where
  "PRQ_Initialize comparison_fn get_fn set_fn pool initial_size expansion_factor client =
     (let initial_size = (if initial_size \<le> 0 then 200 else initial_size);
          expansion_factor = (if expansion_factor \<le> 100 then 200 else expansion_factor) in
      \<lparr>PRQ_comparison_fn = comparison_fn, PRQ_mem_pool = pool, PRQ_size = 0,
       PRQ_allocated_size = initial_size, PRQ_expansion_factor = expansion_factor,
       PRQ_get_index_fn = get_fn, PRQ_set_index_fn = set_fn,
       PRQ_heap_vector = TYPE_MEM_POOL_ALLOC_N pool (nat initial_size),
       PRQ_client = client\<rparr>)"

definition PRQ_Delete_Top :: "('a, 'w) PRQ \<Rightarrow> (('a, 'w) PRQ \<times> 'a) res" where
  "PRQ_Delete_Top prq =
     bindE (FmtAssert (PRQ_size prq > 0)) (\<lambda>_.
     bindE (PRQ_Ith prq 1) (\<lambda>top_element.
     bindE (if PRQ_size prq = 1 then Inr (prq\<lparr>PRQ_size := 0\<rparr>)
            else
              bindE (PRQ_Ith prq (PRQ_size prq)) (\<lambda>bottom_element.
              let prq = prq\<lparr>PRQ_size := PRQ_size prq - 1\<rparr> in
              bindE (PRQ_Set_Ith prq 1 bottom_element) (\<lambda>prq.
              bindE (PRQ_Downheap prq 1) (\<lambda>(prq, _). Inr prq)))) (\<lambda>prq.
     Inr (prq, top_element))))"

definition PRQ_Top :: "('a, 'w) PRQ \<Rightarrow> 'a res" where
  "PRQ_Top prq = bindE (FmtAssert (PRQ_size prq > 0)) (\<lambda>_. PRQ_Ith prq 1)"

definition PRQ_Insert :: "('a, 'w) PRQ \<Rightarrow> 'a \<Rightarrow> ('a, 'w) PRQ res" where
  "PRQ_Insert prq element =
     bindE (if PRQ_size prq = PRQ_allocated_size prq
            then bindE (int32 (PRQ_size prq * PRQ_expansion_factor prq)) (\<lambda>product.
                 let new_size = product div 100 in
                 bindE (if new_size \<le> PRQ_size prq then int32 (PRQ_size prq + 10)
                        else Inr new_size) (\<lambda>new_size.
                 Inr (prq\<lparr>PRQ_heap_vector := TYPE_MEM_POOL_REALLOC_N (PRQ_mem_pool prq)
                                (PRQ_heap_vector prq) (nat new_size),
                          PRQ_allocated_size := new_size\<rparr>)))
            else Inr prq) (\<lambda>prq.
     bindE (int32 (PRQ_size prq + 1)) (\<lambda>new_count.
     let prq = prq\<lparr>PRQ_size := new_count\<rparr> in
     bindE (PRQ_Set_Ith prq (PRQ_size prq) element) (\<lambda>prq.
     bindE (PRQ_Upheap prq (PRQ_size prq)) (\<lambda>(prq, _).
     Inr prq))))"

definition PRQ_Remove :: "('a, 'w) PRQ \<Rightarrow> 'a \<Rightarrow> ('a, 'w) PRQ res" where
  "PRQ_Remove prq element =
     bindE (FmtAssert (PRQ_size prq > 0)) (\<lambda>_.
     bindE (case PRQ_get_index_fn prq of
              Some get_fn \<Rightarrow>
                let index = get_fn (PRQ_client prq) element in
                bindE (PRQ_Ith prq index) (\<lambda>x.
                bindE (FmtAssert (element = x)) (\<lambda>_. Inr index))
            | None \<Rightarrow>
                returnE (for_find 1 (PRQ_size prq + 1) (\<lambda>i.
                  bindE (PRQ_Ith prq i) (\<lambda>x. Inr (if x = element then Some i else None))))
                (Inr UNDEFINED)) (\<lambda>index.
     bindE (FmtAssert (index \<noteq> UNDEFINED)) (\<lambda>_.
     if index = PRQ_size prq then Inr (prq\<lparr>PRQ_size := PRQ_size prq - 1\<rparr>)
     else
       bindE (PRQ_Ith prq (PRQ_size prq)) (\<lambda>bottom_element.
       let prq = prq\<lparr>PRQ_size := PRQ_size prq - 1\<rparr> in
       bindE (PRQ_Set_Ith prq index bottom_element) (\<lambda>prq.
       bindE (PRQ_Upheap prq index) (\<lambda>(prq, new_index).
       if index = new_index
       then bindE (PRQ_Downheap prq index) (\<lambda>(prq, _). Inr prq)
       else Inr prq))))))"

definition PRQ_Reset :: "('a, 'w) PRQ \<Rightarrow> ('a, 'w) PRQ" where
  "PRQ_Reset prq = prq\<lparr>PRQ_size := 0\<rparr>"

section \<open>Heaps in vectors\<close>

text \<open>
  \<open>vec_elt v j\<close> is the element at the 1-based index \<open>j\<close>. The heap condition: no element precedes
  its parent. While an element moves, the condition is open at one index \<open>i\<close>: towards its
  parent (\<open>up_ok\<close>) or towards its children (\<open>down_ok\<close>).
\<close>

definition vec_elt :: "'a list \<Rightarrow> int \<Rightarrow> 'a" where
  "vec_elt v j = v ! nat (j - 1)"

definition vec_set :: "'a list \<Rightarrow> int \<Rightarrow> 'a \<Rightarrow> 'a list" where
  "vec_set v i x = v[nat (i - 1) := x]"

definition vec_swap :: "'a list \<Rightarrow> int \<Rightarrow> int \<Rightarrow> 'a list" where
  "vec_swap v i j = vec_set (vec_set v i (vec_elt v j)) j (vec_elt v i)"

definition heap_ok :: "('a \<Rightarrow> 'a \<Rightarrow> bool) \<Rightarrow> 'a list \<Rightarrow> int \<Rightarrow> bool" where
  "heap_ok cmp v n \<longleftrightarrow> (\<forall>j. 2 \<le> j \<and> j \<le> n \<longrightarrow> \<not> cmp (vec_elt v j) (vec_elt v (j div 2)))"

definition over_ok :: "('a \<Rightarrow> 'a \<Rightarrow> bool) \<Rightarrow> 'a list \<Rightarrow> int \<Rightarrow> int \<Rightarrow> bool" where
  "over_ok cmp v n i \<longleftrightarrow>
     (\<forall>j. 2 \<le> i \<and> j div 2 = i \<and> j \<le> n \<longrightarrow> \<not> cmp (vec_elt v j) (vec_elt v (i div 2)))"

definition up_ok :: "('a \<Rightarrow> 'a \<Rightarrow> bool) \<Rightarrow> 'a list \<Rightarrow> int \<Rightarrow> int \<Rightarrow> bool" where
  "up_ok cmp v n i \<longleftrightarrow> over_ok cmp v n i \<and>
     (\<forall>j. 2 \<le> j \<and> j \<le> n \<and> j \<noteq> i \<longrightarrow> \<not> cmp (vec_elt v j) (vec_elt v (j div 2)))"

definition down_ok :: "('a \<Rightarrow> 'a \<Rightarrow> bool) \<Rightarrow> 'a list \<Rightarrow> int \<Rightarrow> int \<Rightarrow> bool" where
  "down_ok cmp v n i \<longleftrightarrow> over_ok cmp v n i \<and>
     (\<forall>j. 2 \<le> j \<and> j \<le> n \<and> j div 2 \<noteq> i \<longrightarrow> \<not> cmp (vec_elt v j) (vec_elt v (j div 2)))"

lemma length_vec_set [simp]: "length (vec_set v i x) = length v"
  by (simp add: vec_set_def)

lemma length_vec_swap [simp]: "length (vec_swap v i j) = length v"
  by (simp add: vec_swap_def)

lemma vec_elt_set:
  assumes "1 \<le> i" and "i \<le> int (length v)" and "1 \<le> j"
  shows "vec_elt (vec_set v i x) j = (if j = i then x else vec_elt v j)"
proof -
  have "nat (j - 1) = nat (i - 1) \<longleftrightarrow> j = i" using assms by auto
  moreover have "nat (i - 1) < length v" using assms by auto
  ultimately show ?thesis by (auto simp: vec_elt_def vec_set_def nth_list_update)
qed

lemma vec_elt_swap:
  assumes "1 \<le> i" "i \<le> int (length v)" "1 \<le> k" "k \<le> int (length v)" "1 \<le> j"
  shows "vec_elt (vec_swap v i k) j = (if j = k then vec_elt v i else if j = i then vec_elt v k else vec_elt v j)"
  using assms by (simp add: vec_swap_def vec_elt_set)

lemma mset_swap_take:
  assumes "1 \<le> i" "i \<le> n" "1 \<le> k" "k \<le> n" "n \<le> int (length v)"
  shows "mset (take (nat n) (vec_swap v i k)) = mset (take (nat n) v)"
proof -
  have lt: "nat (i - 1) < nat n" "nat (k - 1) < nat n" "nat n \<le> length v" using assms by auto
  have "take (nat n) (vec_swap v i k)
      = (take (nat n) v)[nat (i - 1) := take (nat n) v ! nat (k - 1), nat (k - 1) := take (nat n) v ! nat (i - 1)]"
    using lt by (simp add: vec_swap_def vec_set_def vec_elt_def take_update_swap)
  moreover have "nat (k - 1) < length (take (nat n) v)" "nat (i - 1) < length (take (nat n) v)" using lt by auto
  ultimately show ?thesis by (simp only: mset_swap)
qed

section \<open>The contract of a comparison function\<close>

text \<open>
  The interface comment: the function is true if its first argument should precede the second,
  and false if they have the same precedence. So it is a strict weak order.
\<close>

locale comparison =
  fixes cmp :: "'a \<Rightarrow> 'a \<Rightarrow> bool"
  assumes asym: "cmp x y \<Longrightarrow> \<not> cmp y x"
    and weak: "cmp x z \<Longrightarrow> cmp x y \<or> cmp y z"
begin

lemma trans_not: "\<not> cmp x y \<Longrightarrow> \<not> cmp y z \<Longrightarrow> \<not> cmp x z"
  using weak by blast

lemma not_before: "cmp x p \<Longrightarrow> \<not> cmp y p \<Longrightarrow> \<not> cmp y x"
  using weak [of y x p] asym [of x p] by blast

lemma up_done: "up_ok cmp v n i \<Longrightarrow> i \<le> 1 \<or> \<not> cmp (vec_elt v i) (vec_elt v (i div 2)) \<Longrightarrow> heap_ok cmp v n"
  by (auto simp: up_ok_def heap_ok_def)

lemma up_step:
  assumes "up_ok cmp v n i" and "2 \<le> i" and "i \<le> n" and "n \<le> int (length v)"
    and "cmp (vec_elt v i) (vec_elt v (i div 2))"
  shows "up_ok cmp (vec_swap v i (i div 2)) n (i div 2)"
proof -
  define p where "p = i div 2"
  define r where "r = p div 2"
  define w where "w = vec_swap v i p"
  have p: "1 \<le> p" "p < i" using assms(2) unfolding p_def by auto
  have e: "vec_elt w j = (if j = p then vec_elt v i else if j = i then vec_elt v p else vec_elt v j)"
    if "1 \<le> j" for j
    unfolding w_def using that p assms(2-4) by (intro vec_elt_swap) auto
  have less: "cmp (vec_elt v i) (vec_elt v p)" using assms(5) by (simp add: p_def)
  have edge: "\<not> cmp (vec_elt v j) (vec_elt v q)" if "2 \<le> j" "j \<le> n" "j \<noteq> i" "q = j div 2" for j q
    using assms(1) that by (simp add: up_ok_def)
  have over: "\<not> cmp (vec_elt v j) (vec_elt v p)" if "j div 2 = i" "j \<le> n" for j
    using assms(1,2) that by (simp add: up_ok_def over_ok_def p_def)
  have "\<not> cmp (vec_elt w j) (vec_elt w q)" if j: "2 \<le> j" "j \<le> n" "j \<noteq> p" "q = j div 2" for j q
  proof -
    have q: "1 \<le> j" "1 \<le> q" "q < j" using j(1,4) by auto
    consider "j = i" "q = p" | "j \<noteq> i" "q = i" | "j \<noteq> i" "q = p" | "j \<noteq> i" "q \<noteq> i" "q \<noteq> p"
      using j(4) p_def by blast
    then show ?thesis
    proof cases
      case 1
      then show ?thesis using asym [OF less] p q by (simp add: e)
    next
      case 2
      then show ?thesis using over [of j] j q p by (simp add: e)
    next
      case 3
      then have "\<not> cmp (vec_elt v j) (vec_elt v i)" using edge [OF j(1,2) _ j(4)] not_before [OF less] by simp
      then show ?thesis using 3 p j(3) q by (simp add: e)
    next
      case 4
      then show ?thesis using edge [OF j(1,2) _ j(4)] j(3) q by (simp add: e)
    qed
  qed
  moreover have "\<not> cmp (vec_elt w j) (vec_elt w r)" if j: "2 \<le> p" "j div 2 = p" "j \<le> n" for j
  proof -
    have r: "1 \<le> r" "r < p" using j(1) unfolding r_def by auto
    have q: "1 \<le> j" "p < j" "2 \<le> j" using j(1,2) by auto
    have up: "\<not> cmp (vec_elt v p) (vec_elt v r)" by (rule edge) (use j(1) p assms(3) r_def in auto)
    have "\<not> cmp (vec_elt v j) (vec_elt v r)" if "j \<noteq> i"
      using trans_not [OF edge [OF q(3) j(3) that] up] j(2) by simp
    then show ?thesis using q p r up by (simp add: e)
  qed
  ultimately have "up_ok cmp w n p" by (simp add: up_ok_def over_ok_def r_def)
  then show ?thesis by (simp add: w_def p_def)
qed

lemma down_done:
  assumes "down_ok cmp v n i" and "\<And>j. j div 2 = i \<Longrightarrow> 2 \<le> j \<Longrightarrow> j \<le> n \<Longrightarrow> \<not> cmp (vec_elt v j) (vec_elt v i)"
  shows "heap_ok cmp v n"
  using assms unfolding down_ok_def heap_ok_def by metis

lemma down_step:
  assumes "down_ok cmp v n i" and "1 \<le> i" and "c div 2 = i" and "c \<le> n" and "n \<le> int (length v)"
    and less: "cmp (vec_elt v c) (vec_elt v i)"
    and sib: "\<And>j. j div 2 = i \<Longrightarrow> j \<le> n \<Longrightarrow> \<not> cmp (vec_elt v j) (vec_elt v c)"
  shows "down_ok cmp (vec_swap v i c) n c"
proof -
  have c: "2 \<le> c" "i < c" using assms(2,3) by auto
  have e: "vec_elt (vec_swap v i c) j
      = (if j = c then vec_elt v i else if j = i then vec_elt v c else vec_elt v j)" if "1 \<le> j" for j
    using that c assms(2-5) by (intro vec_elt_swap) auto
  have edge: "\<not> cmp (vec_elt v j) (vec_elt v (j div 2))" if "2 \<le> j" "j \<le> n" "j div 2 \<noteq> i" for j
    using assms(1) that by (simp add: down_ok_def)
  have over: "\<not> cmp (vec_elt v c) (vec_elt v (i div 2))" if "2 \<le> i"
    using assms(1,3,4) that by (simp add: down_ok_def over_ok_def)
  have "\<not> cmp (vec_elt (vec_swap v i c) j) (vec_elt (vec_swap v i c) (j div 2))"
    if j: "2 \<le> j" "j \<le> n" "j div 2 \<noteq> c" for j
  proof -
    have q: "1 \<le> j" "1 \<le> j div 2" "j div 2 < j" using j(1) by auto
    show ?thesis
    proof (cases "j div 2 = i")
      case True
      then show ?thesis using sib [OF True j(2)] asym [OF less] q c assms(2) by (auto simp: e)
    next
      case False
      then have "j \<noteq> c" using assms(3) by auto
      then show ?thesis using edge [OF j(1,2) False] over False j q c by (auto simp: e)
    qed
  qed
  moreover have "\<not> cmp (vec_elt (vec_swap v i c) j) (vec_elt (vec_swap v i c) (c div 2))"
    if j: "j div 2 = c" "j \<le> n" for j
  proof -
    have q: "1 \<le> j" "c < j" "2 \<le> j" using j(1) c by auto
    have "\<not> cmp (vec_elt v j) (vec_elt v c)" using edge [of j] j q c by auto
    then show ?thesis using q c assms(2,3) by (auto simp: e)
  qed
  ultimately show ?thesis by (auto simp: down_ok_def over_ok_def)
qed

text \<open>The first element precedes or equals every other.\<close>

lemma heap_top:
  assumes "heap_ok cmp v n"
  shows "1 \<le> j \<Longrightarrow> j \<le> n \<Longrightarrow> \<not> cmp (vec_elt v j) (vec_elt v 1)"
proof (induction "nat j" arbitrary: j rule: less_induct)
  case less
  show ?case
  proof (cases "j = 1")
    case True
    then show ?thesis using asym by blast
  next
    case False
    then have j: "2 \<le> j" "1 \<le> j div 2" "nat (j div 2) < nat j" "j div 2 \<le> n" using less.prems by auto
    then have "\<not> cmp (vec_elt v (j div 2)) (vec_elt v 1)" using less.hyps by blast
    moreover have "\<not> cmp (vec_elt v j) (vec_elt v (j div 2))" using assms j less.prems by (simp add: heap_ok_def)
    ultimately show ?thesis using trans_not by blast
  qed
qed

end

interpretation by_key: comparison "\<lambda>x y. key x < key y" for key :: "'a \<Rightarrow> 'k::linorder"
  by unfold_locales auto

section \<open>The contract of the index functions\<close>

text \<open>
  The client's set function stores an index in one element and the get function reads it back.
  \<open>index_ok getf prq v i\<close>: if the queue maintains indices, its elements are distinct and each,
  save the one at \<open>i\<close>, has its index stored.
\<close>

definition index_ok :: "('w \<Rightarrow> 'a \<Rightarrow> int) \<Rightarrow> ('a, 'w) PRQ \<Rightarrow> 'a list \<Rightarrow> int \<Rightarrow> bool" where
  "index_ok getf prq v i \<longleftrightarrow> (PRQ_set_index_fn prq \<noteq> None \<longrightarrow>
     distinct (take (nat (PRQ_size prq)) v) \<and>
     (\<forall>j. 1 \<le> j \<and> j \<le> PRQ_size prq \<and> j \<noteq> i \<longrightarrow> getf (PRQ_client prq) (vec_elt v j) = j))"

definition client_set :: "('a, 'w) PRQ \<Rightarrow> int \<Rightarrow> 'a \<Rightarrow> 'w" where
  "client_set prq i x = (case PRQ_set_index_fn prq of
     None \<Rightarrow> PRQ_client prq | Some set_fn \<Rightarrow> set_fn x i (PRQ_client prq))"

lemma PRQ_Ith_in: "1 \<le> i \<Longrightarrow> i \<le> int (length (PRQ_heap_vector prq)) \<Longrightarrow>
    PRQ_Ith prq i = Inr (vec_elt (PRQ_heap_vector prq) i)"
  by (simp add: PRQ_Ith_def vec_elt_def)

lemma PRQ_Set_Ith_in: "1 \<le> i \<Longrightarrow> i \<le> int (length (PRQ_heap_vector prq)) \<Longrightarrow>
    PRQ_Set_Ith prq i x = Inr (prq\<lparr>PRQ_heap_vector := vec_set (PRQ_heap_vector prq) i x,
      PRQ_client := client_set prq i x\<rparr>)"
  by (simp add: PRQ_Set_Ith_def vec_set_def client_set_def split: option.splits)

lemma vec_set_elt [simp]: "vec_set v i (vec_elt v i) = v"
  by (simp add: vec_set_def vec_elt_def)

lemma vec_set_set [simp]: "vec_set (vec_set v i x) i y = vec_set v i y"
  by (simp add: vec_set_def)

lemma vec_elt_distinct:
  assumes "distinct (take (nat n) v)" and "n \<le> int (length v)" and "1 \<le> i" "i \<le> n" "1 \<le> j" "j \<le> n"
  shows "vec_elt v i = vec_elt v j \<longleftrightarrow> i = j"
proof -
  have "nat (i - 1) < length (take (nat n) v)" "nat (j - 1) < length (take (nat n) v)" using assms by auto
  then have "take (nat n) v ! nat (i - 1) = take (nat n) v ! nat (j - 1) \<longleftrightarrow> nat (i - 1) = nat (j - 1)"
    using assms(1) nth_eq_iff_index_eq by blast
  moreover have "nat (i - 1) < nat n" "nat (j - 1) < nat n" using assms by auto
  moreover have "nat (i - 1) = nat (j - 1) \<longleftrightarrow> i = j" using assms by auto
  ultimately show ?thesis by (simp add: vec_elt_def)
qed

locale prq_client = comparison cmp for cmp :: "'a \<Rightarrow> 'a \<Rightarrow> bool" +
  fixes getf :: "'w \<Rightarrow> 'a \<Rightarrow> int" and setf :: "'a \<Rightarrow> int \<Rightarrow> 'w \<Rightarrow> 'w"
  assumes get_set: "getf (setf x i w) y = (if y = x then i else getf w y)"
begin

text \<open>Moving the element \<open>vec_elt v k\<close> to \<open>i\<close> and recording that keeps the indices right.\<close>

lemma index_swap:
  assumes "index_ok getf prq v i" and "PRQ_set_index_fn prq = None \<or> PRQ_set_index_fn prq = Some setf"
    and "1 \<le> i" "i \<le> PRQ_size prq" "1 \<le> k" "k \<le> PRQ_size prq" and "PRQ_size prq \<le> int (length v)"
  shows "index_ok getf (prq\<lparr>PRQ_heap_vector := u, PRQ_client := client_set prq i (vec_elt v k)\<rparr>) (vec_swap v i k) k"
proof (cases "PRQ_set_index_fn prq")
  case None
  then show ?thesis by (simp add: index_ok_def)
next
  case (Some f)
  then have f: "PRQ_set_index_fn prq = Some setf" using assms(2) by auto
  let ?n = "PRQ_size prq"
  have d: "distinct (take (nat ?n) v)"
    and g: "\<And>j. 1 \<le> j \<Longrightarrow> j \<le> ?n \<Longrightarrow> j \<noteq> i \<Longrightarrow> getf (PRQ_client prq) (vec_elt v j) = j"
    using assms(1) f by (auto simp: index_ok_def)
  have "mset (take (nat ?n) (vec_swap v i k)) = mset (take (nat ?n) v)" using assms by (intro mset_swap_take)
  then have "distinct (take (nat ?n) (vec_swap v i k))" using d mset_eq_imp_distinct_iff by blast
  moreover have "getf (setf (vec_elt v k) i (PRQ_client prq)) (vec_elt (vec_swap v i k) j) = j"
    if j: "1 \<le> j" "j \<le> ?n" "j \<noteq> k" for j
  proof (cases "j = i")
    case True
    then show ?thesis using assms j by (simp add: vec_elt_swap get_set)
  next
    case False
    then have "vec_elt (vec_swap v i k) j = vec_elt v j" using assms j by (simp add: vec_elt_swap)
    moreover have "vec_elt v j \<noteq> vec_elt v k" using vec_elt_distinct [OF d assms(7)] assms j by auto
    ultimately show ?thesis using g [OF j(1,2) False] by (simp add: get_set)
  qed
  ultimately show ?thesis using f by (simp add: index_ok_def client_set_def)
qed

lemma index_settle:
  assumes "index_ok getf prq v i" and "PRQ_set_index_fn prq = None \<or> PRQ_set_index_fn prq = Some setf"
    and "1 \<le> i" "i \<le> PRQ_size prq" "PRQ_size prq \<le> int (length v)"
  shows "index_ok getf (prq\<lparr>PRQ_heap_vector := u, PRQ_client := client_set prq i (vec_elt v i)\<rparr>) v 0"
proof (cases "PRQ_set_index_fn prq")
  case None
  then show ?thesis by (simp add: index_ok_def)
next
  case (Some f)
  then have f: "PRQ_set_index_fn prq = Some setf" using assms(2) by auto
  have d: "distinct (take (nat (PRQ_size prq)) v)" using assms(1) f by (simp add: index_ok_def)
  have "getf (setf (vec_elt v i) i (PRQ_client prq)) (vec_elt v j) = j" if "1 \<le> j" "j \<le> PRQ_size prq" for j
    using assms f that vec_elt_distinct [OF d assms(5)] by (auto simp: get_set index_ok_def)
  then show ?thesis using d f by (simp add: index_ok_def client_set_def)
qed

lemma Upheap_loop_ok:
  assumes "PRQ_comparison_fn prq = cmp" and "PRQ_set_index_fn prq = None \<or> PRQ_set_index_fn prq = Some setf"
    and "1 \<le> i" "i \<le> PRQ_size prq" "PRQ_size prq \<le> int (length (PRQ_heap_vector prq))"
    and "up_ok cmp (vec_set (PRQ_heap_vector prq) i x) (PRQ_size prq) i"
    and "index_ok getf prq (vec_set (PRQ_heap_vector prq) i x) i"
  shows "\<exists>v w k. Upheap_loop prq x i = Inr (prq\<lparr>PRQ_heap_vector := v, PRQ_client := w\<rparr>, k) \<and>
    length v = length (PRQ_heap_vector prq) \<and> 1 \<le> k \<and> k \<le> i \<and>
    (2 \<le> i \<and> cmp x (vec_elt (PRQ_heap_vector prq) (i div 2)) \<longrightarrow> k < i) \<and>
    heap_ok cmp (vec_set v k x) (PRQ_size prq) \<and>
    mset (take (nat (PRQ_size prq)) (vec_set v k x)) =
      mset (take (nat (PRQ_size prq)) (vec_set (PRQ_heap_vector prq) i x)) \<and>
    index_ok getf (prq\<lparr>PRQ_heap_vector := v, PRQ_client := w\<rparr>) (vec_set v k x) k"
  using assms
proof (induction "nat i" arbitrary: i prq rule: less_induct)
  case less
  let ?v = "PRQ_heap_vector prq" and ?n = "PRQ_size prq" and ?p = "i div 2"
  let ?V = "vec_set ?v i x"
  have V_i: "vec_elt ?V i = x" using less.prems by (simp add: vec_elt_set)
  show ?case
  proof (cases "i > 1 \<and> cmp x (vec_elt ?v ?p)")
    case False
    have stop: "i \<le> 1 \<or> \<not> cmp (vec_elt ?V i) (vec_elt ?V ?p)"
    proof (cases "i > 1")
      case True
      then have "1 \<le> ?p" "?p \<noteq> i" by auto
      then have "vec_elt ?V ?p = vec_elt ?v ?p" using less.prems by (simp add: vec_elt_set)
      then show ?thesis using False True V_i by simp
    qed simp
    have "PRQ_Ith prq ?p = Inr (vec_elt ?v ?p)" if "i > 1" using less.prems that by (intro PRQ_Ith_in) auto
    then have "Upheap_loop prq x i = Inr (prq, i)"
      using False less.prems(1) by (subst Upheap_loop.simps) auto
    moreover have "heap_ok cmp ?V ?n" using up_done [OF less.prems(6) stop] .
    ultimately show ?thesis
      using less.prems False by (intro exI [of _ ?v] exI [of _ "PRQ_client prq"] exI [of _ i]) auto
  next
    case True
    let ?par = "vec_elt ?v ?p"
    let ?prq = "prq\<lparr>PRQ_heap_vector := vec_set ?v i ?par, PRQ_client := client_set prq i ?par\<rparr>"
    have p: "1 \<le> ?p" "?p < i" "nat ?p < nat i" "2 \<le> i" using True by auto
    have len: "i \<le> int (length ?v)" "?p \<le> int (length ?v)" "?p \<le> ?n" using less.prems p by linarith+
    have V_p: "vec_elt ?V ?p = ?par" using p len less.prems(3) by (simp add: vec_elt_set)
    have sw: "vec_set (PRQ_heap_vector ?prq) ?p x = vec_swap ?V i ?p"
      by (simp add: vec_swap_def V_i V_p)
    have "PRQ_Ith prq ?p = Inr ?par" using p len by (intro PRQ_Ith_in)
    then have step: "Upheap_loop prq x i = Upheap_loop ?prq x ?p"
      using True less.prems(1) PRQ_Set_Ith_in [of i prq ?par] less.prems(3) len(1)
      by (subst Upheap_loop.simps) (simp add: Let_def)
    have up: "up_ok cmp (vec_swap ?V i ?p) ?n ?p"
      by (rule up_step [OF less.prems(6) p(4)]) (use less.prems True V_i V_p in auto)
    have idx: "index_ok getf ?prq (vec_swap ?V i ?p) ?p"
      using index_swap [OF less.prems(7,2), of ?p "vec_set ?v i ?par"] less.prems(3-5) p len V_p by simp
    have ms: "mset (take (nat ?n) (vec_swap ?V i ?p)) = mset (take (nat ?n) ?V)"
      using less.prems p len by (intro mset_swap_take) auto
    obtain v w k where k: "Upheap_loop ?prq x ?p = Inr (?prq\<lparr>PRQ_heap_vector := v, PRQ_client := w\<rparr>, k)"
        "length v = length ?v" "1 \<le> k" "k \<le> ?p" "heap_ok cmp (vec_set v k x) ?n"
        "mset (take (nat ?n) (vec_set v k x)) = mset (take (nat ?n) (vec_swap ?V i ?p))"
        "index_ok getf (?prq\<lparr>PRQ_heap_vector := v, PRQ_client := w\<rparr>) (vec_set v k x) k"
      using less.hyps [OF p(3), of ?prq] less.prems(1,2,5) p len up idx sw by auto
    show ?thesis
      unfolding step using k ms p by (intro exI [of _ v] exI [of _ w] exI [of _ k]) simp
  qed
qed

end

section \<open>Sifting restores the heap\<close>

context prq_client
begin

lemma children: "1 \<le> i \<Longrightarrow> j div 2 = i \<longleftrightarrow> j = 2 * i \<or> j = 2 * i + 1" for i j :: int
  by auto

lemma Downheap_stop:
  assumes "PRQ_comparison_fn prq = cmp" and "1 \<le> i" "i \<le> PRQ_size prq" "PRQ_size prq < 1073741824"
    and "PRQ_size prq \<le> int (length (PRQ_heap_vector prq))"
    and "\<And>j. j div 2 = i \<Longrightarrow> j \<le> PRQ_size prq \<Longrightarrow> \<not> cmp (vec_elt (PRQ_heap_vector prq) j) x"
  shows "Downheap_loop prq x i = Inr (prq, i)"
proof -
  have "\<not> cmp (vec_elt (PRQ_heap_vector prq) (2 * i)) x" if "2 * i \<le> PRQ_size prq" using assms(6) that by simp
  moreover have "\<not> cmp (vec_elt (PRQ_heap_vector prq) (2 * i + 1)) x" if "2 * i + 1 \<le> PRQ_size prq"
    using assms(6) that by simp
  ultimately show ?thesis
    using assms(1-5) by (subst Downheap_loop.simps) (simp add: int32_in PRQ_Ith_in mult.commute)
qed

lemma Downheap_move:
  assumes "PRQ_comparison_fn prq = cmp" and "1 \<le> i" "i \<le> PRQ_size prq" "PRQ_size prq < 1073741824"
    and "PRQ_size prq \<le> int (length (PRQ_heap_vector prq))"
    and "\<exists>j. j div 2 = i \<and> j \<le> PRQ_size prq \<and> cmp (vec_elt (PRQ_heap_vector prq) j) x"
  obtains c where "c div 2 = i" "c \<le> PRQ_size prq" "cmp (vec_elt (PRQ_heap_vector prq) c) x"
    "\<And>j. j div 2 = i \<Longrightarrow> j \<le> PRQ_size prq \<Longrightarrow>
      \<not> cmp (vec_elt (PRQ_heap_vector prq) j) (vec_elt (PRQ_heap_vector prq) c)"
    "Downheap_loop prq x i = bindE (PRQ_Set_Ith prq i (vec_elt (PRQ_heap_vector prq) c)) (\<lambda>prq. Downheap_loop prq x c)"
proof -
  let ?v = "PRQ_heap_vector prq" and ?n = "PRQ_size prq" and ?l = "2 * i" and ?r = "2 * i + 1"
  obtain j where "j div 2 = i" "j \<le> ?n" "cmp (vec_elt ?v j) x" using assms(6) by blast
  then have some: "?l \<le> ?n" "cmp (vec_elt ?v ?l) x \<or> ?r \<le> ?n \<and> cmp (vec_elt ?v ?r) x"
    using children [OF assms(2)] by auto
  show thesis
  proof (cases "?r \<le> ?n \<and> cmp (vec_elt ?v ?r) (vec_elt ?v ?l)")
    case True
    have "cmp (vec_elt ?v ?r) x"
      using some(2) True weak [of "vec_elt ?v ?r" "vec_elt ?v ?l" x] asym by blast
    moreover have "\<not> cmp (vec_elt ?v j) (vec_elt ?v ?r)" if "j div 2 = i" for j
    proof -
      have "j = ?l \<or> j = ?r" using that children [OF assms(2)] by simp
      then show ?thesis using True asym by (elim disjE) auto
    qed
    moreover from \<open>cmp (vec_elt ?v ?r) x\<close> True some(1) have "Downheap_loop prq x i =
        bindE (PRQ_Set_Ith prq i (vec_elt ?v ?r)) (\<lambda>prq. Downheap_loop prq x ?r)"
      using assms(1-5) by (subst Downheap_loop.simps) (simp add: int32_in PRQ_Ith_in mult.commute)
    ultimately show thesis using True by (intro that [of ?r]) auto
  next
    case False
    have "cmp (vec_elt ?v ?l) x"
      using some(2) False weak [of "vec_elt ?v ?r" x "vec_elt ?v ?l"] by blast
    moreover have "\<not> cmp (vec_elt ?v j) (vec_elt ?v ?l)" if "j div 2 = i" "j \<le> ?n" for j
    proof -
      have "j = ?l \<or> j = ?r" using that(1) children [OF assms(2)] by simp
      then show ?thesis using False that(2) asym by (elim disjE) auto
    qed
    moreover from \<open>cmp (vec_elt ?v ?l) x\<close> False some(1) have "Downheap_loop prq x i =
        bindE (PRQ_Set_Ith prq i (vec_elt ?v ?l)) (\<lambda>prq. Downheap_loop prq x ?l)"
      using assms(1-5) by (subst Downheap_loop.simps) (auto simp: int32_in PRQ_Ith_in mult.commute)
    ultimately show thesis using some(1) by (intro that [of ?l]) auto
  qed
qed

lemma Downheap_loop_ok:
  assumes "PRQ_comparison_fn prq = cmp" and "PRQ_set_index_fn prq = None \<or> PRQ_set_index_fn prq = Some setf"
    and "1 \<le> i" "i \<le> PRQ_size prq" "PRQ_size prq < 1073741824"
    and "PRQ_size prq \<le> int (length (PRQ_heap_vector prq))"
    and "down_ok cmp (vec_set (PRQ_heap_vector prq) i x) (PRQ_size prq) i"
    and "index_ok getf prq (vec_set (PRQ_heap_vector prq) i x) i"
  shows "\<exists>v w k. Downheap_loop prq x i = Inr (prq\<lparr>PRQ_heap_vector := v, PRQ_client := w\<rparr>, k) \<and>
    length v = length (PRQ_heap_vector prq) \<and> 1 \<le> k \<and> k \<le> PRQ_size prq \<and>
    heap_ok cmp (vec_set v k x) (PRQ_size prq) \<and>
    mset (take (nat (PRQ_size prq)) (vec_set v k x)) =
      mset (take (nat (PRQ_size prq)) (vec_set (PRQ_heap_vector prq) i x)) \<and>
    index_ok getf (prq\<lparr>PRQ_heap_vector := v, PRQ_client := w\<rparr>) (vec_set v k x) k"
  using assms
proof (induction "nat (PRQ_size prq - i)" arbitrary: i prq rule: less_induct)
  case less
  let ?v = "PRQ_heap_vector prq" and ?n = "PRQ_size prq"
  let ?V = "vec_set ?v i x"
  have i: "i \<le> int (length ?v)" using less.prems(4,6) by linarith
  have V_i: "vec_elt ?V i = x" using less.prems(3) i by (simp add: vec_elt_set)
  have V_c: "vec_elt ?V j = vec_elt ?v j" if "j div 2 = i" for j
  proof -
    have "i < j" using that less.prems(3) by auto
    then show ?thesis using less.prems(3) i by (simp add: vec_elt_set)
  qed
  show ?case
  proof (cases "\<exists>j. j div 2 = i \<and> j \<le> ?n \<and> cmp (vec_elt ?v j) x")
    case False
    then have "Downheap_loop prq x i = Inr (prq, i)" using less.prems by (intro Downheap_stop) auto
    moreover have "heap_ok cmp ?V ?n" using less.prems(7) by (rule down_done) (use False V_i V_c in auto)
    ultimately show ?thesis
      using less.prems by (intro exI [of _ ?v] exI [of _ "PRQ_client prq"] exI [of _ i]) auto
  next
    case True
    show ?thesis
    proof (rule Downheap_move [OF less.prems(1,3-6) True])
      fix c assume c: "c div 2 = i" "c \<le> ?n" "cmp (vec_elt ?v c) x"
          "\<And>j. j div 2 = i \<Longrightarrow> j \<le> ?n \<Longrightarrow> \<not> cmp (vec_elt ?v j) (vec_elt ?v c)"
          "Downheap_loop prq x i = bindE (PRQ_Set_Ith prq i (vec_elt ?v c)) (\<lambda>prq. Downheap_loop prq x c)"
      let ?prq = "prq\<lparr>PRQ_heap_vector := vec_set ?v i (vec_elt ?v c), PRQ_client := client_set prq i (vec_elt ?v c)\<rparr>"
      have ci: "i < c" "1 \<le> c" "c \<le> int (length ?v)" "nat (?n - c) < nat (?n - i)"
        using c(1,2) less.prems(3,6) by auto
      have step: "Downheap_loop prq x i = Downheap_loop ?prq x c"
        using c(5) PRQ_Set_Ith_in [OF less.prems(3) i] by simp
      have sw: "vec_set (PRQ_heap_vector ?prq) c x = vec_swap ?V i c"
        by (simp add: vec_swap_def V_i V_c [OF c(1)])
      have dn: "down_ok cmp (vec_swap ?V i c) ?n c"
        by (rule down_step [OF less.prems(7,3) c(1,2)]) (use less.prems(6) c(3,4) V_i V_c c(1) in auto)
      have idx: "index_ok getf ?prq (vec_swap ?V i c) c"
        using index_swap [OF less.prems(8,2), of c "vec_set ?v i (vec_elt ?v c)"] less.prems(3-6) ci c(1,2) V_c by simp
      have ms: "mset (take (nat ?n) (vec_swap ?V i c)) = mset (take (nat ?n) ?V)"
        using less.prems(3,4,6) ci c(2) by (intro mset_swap_take) auto
      obtain v w k where k: "Downheap_loop ?prq x c = Inr (?prq\<lparr>PRQ_heap_vector := v, PRQ_client := w\<rparr>, k)"
          "length v = length ?v" "1 \<le> k" "k \<le> ?n" "heap_ok cmp (vec_set v k x) ?n"
          "mset (take (nat ?n) (vec_set v k x)) = mset (take (nat ?n) (vec_swap ?V i c))"
          "index_ok getf (?prq\<lparr>PRQ_heap_vector := v, PRQ_client := w\<rparr>) (vec_set v k x) k"
        using less.hyps [of ?prq c] less.prems(1,2,5,6) ci c(2) dn idx sw by auto
      show ?thesis
        unfolding step using k ms by (intro exI [of _ v] exI [of _ w] exI [of _ k]) simp
    qed
  qed
qed

end

section \<open>The invariant and the abstract queue\<close>

definition pool_ok :: "'a vector_pool \<Rightarrow> bool" where
  "pool_ok pool \<longleftrightarrow> (\<forall>n. length (TYPE_MEM_POOL_ALLOC_N pool n) = n) \<and>
     (\<forall>v n. length v \<le> n \<longrightarrow> length (TYPE_MEM_POOL_REALLOC_N pool v n) = n \<and>
        take (length v) (TYPE_MEM_POOL_REALLOC_N pool v n) = v)"

definition prq_inv :: "('a \<Rightarrow> 'a \<Rightarrow> bool) \<Rightarrow> ('w \<Rightarrow> 'a \<Rightarrow> int) \<Rightarrow> ('a \<Rightarrow> int \<Rightarrow> 'w \<Rightarrow> 'w) \<Rightarrow> ('a, 'w) PRQ \<Rightarrow> bool" where
  "prq_inv cmp getf setf prq \<longleftrightarrow>
     PRQ_comparison_fn prq = cmp \<and>
     (PRQ_set_index_fn prq = None \<or> PRQ_set_index_fn prq = Some setf) \<and>
     (PRQ_get_index_fn prq = None \<or> PRQ_get_index_fn prq = Some getf \<and> PRQ_set_index_fn prq = Some setf) \<and>
     pool_ok (PRQ_mem_pool prq) \<and> 100 < PRQ_expansion_factor prq \<and>
     0 \<le> PRQ_size prq \<and> PRQ_size prq < 1073741824 \<and> PRQ_size prq \<le> PRQ_allocated_size prq \<and>
     1 \<le> PRQ_allocated_size prq \<and> PRQ_allocated_size prq = int (length (PRQ_heap_vector prq)) \<and>
     heap_ok cmp (PRQ_heap_vector prq) (PRQ_size prq) \<and> index_ok getf prq (PRQ_heap_vector prq) 0"

definition prq_elems :: "('a, 'w) PRQ \<Rightarrow> 'a multiset" where
  "prq_elems prq = mset (take (nat (PRQ_size prq)) (PRQ_heap_vector prq))"

context prq_client
begin

lemma PRQ_Upheap_ok:
  assumes "PRQ_comparison_fn prq = cmp" and "PRQ_set_index_fn prq = None \<or> PRQ_set_index_fn prq = Some setf"
    and "1 \<le> i" "i \<le> PRQ_size prq" "PRQ_size prq \<le> int (length (PRQ_heap_vector prq))"
    and "up_ok cmp (PRQ_heap_vector prq) (PRQ_size prq) i" and "index_ok getf prq (PRQ_heap_vector prq) i"
  shows "\<exists>v w k. PRQ_Upheap prq i = Inr (prq\<lparr>PRQ_heap_vector := v, PRQ_client := w\<rparr>, k) \<and>
    length v = length (PRQ_heap_vector prq) \<and>
    (2 \<le> i \<and> cmp (vec_elt (PRQ_heap_vector prq) i) (vec_elt (PRQ_heap_vector prq) (i div 2)) \<longrightarrow> k < i) \<and>
    heap_ok cmp v (PRQ_size prq) \<and>
    mset (take (nat (PRQ_size prq)) v) = mset (take (nat (PRQ_size prq)) (PRQ_heap_vector prq)) \<and>
    index_ok getf (prq\<lparr>PRQ_heap_vector := v, PRQ_client := w\<rparr>) v 0"
proof -
  let ?x = "vec_elt (PRQ_heap_vector prq) i" and ?n = "PRQ_size prq"
  obtain v w k where k: "Upheap_loop prq ?x i = Inr (prq\<lparr>PRQ_heap_vector := v, PRQ_client := w\<rparr>, k)"
      "length v = length (PRQ_heap_vector prq)" "1 \<le> k" "k \<le> i"
      "2 \<le> i \<and> cmp ?x (vec_elt (PRQ_heap_vector prq) (i div 2)) \<longrightarrow> k < i"
      "heap_ok cmp (vec_set v k ?x) ?n"
      "mset (take (nat ?n) (vec_set v k ?x)) = mset (take (nat ?n) (PRQ_heap_vector prq))"
      "index_ok getf (prq\<lparr>PRQ_heap_vector := v, PRQ_client := w\<rparr>) (vec_set v k ?x) k"
    using Upheap_loop_ok [OF assms(1-5), of ?x] assms(6,7) by auto
  let ?prq = "prq\<lparr>PRQ_heap_vector := v, PRQ_client := w\<rparr>"
  have kn: "k \<le> ?n" "k \<le> int (length v)" using k(2-4) assms(4,5) by linarith+
  have x: "vec_elt (vec_set v k ?x) k = ?x" using k(3) kn(2) by (simp add: vec_elt_set)
  have set: "PRQ_Set_Ith ?prq k ?x = Inr (prq\<lparr>PRQ_heap_vector := vec_set v k ?x, PRQ_client := client_set ?prq k ?x\<rparr>)"
    using PRQ_Set_Ith_in [of k ?prq ?x] k(3) kn(2) by simp
  have run: "PRQ_Upheap prq i = Inr (prq\<lparr>PRQ_heap_vector := vec_set v k ?x, PRQ_client := client_set ?prq k ?x\<rparr>, k)"
    using assms(3-5) k(1) set by (simp add: PRQ_Upheap_def PRQ_Ith_in)
  have "index_ok getf (?prq\<lparr>PRQ_heap_vector := vec_set v k ?x,
      PRQ_client := client_set ?prq k (vec_elt (vec_set v k ?x) k)\<rparr>) (vec_set v k ?x) 0"
    by (rule index_settle [OF k(8)]) (use assms(2,5) k(2,3) kn in auto)
  then have idx: "index_ok getf (prq\<lparr>PRQ_heap_vector := vec_set v k ?x, PRQ_client := client_set ?prq k ?x\<rparr>) (vec_set v k ?x) 0"
    by (simp add: x)
  show ?thesis
    using run k(2,5-7) idx
    by (intro exI [of _ "vec_set v k ?x"] exI [of _ "client_set ?prq k ?x"] exI [of _ k]) simp
qed

lemma PRQ_Upheap_stays:
  assumes "PRQ_comparison_fn prq = cmp" and "1 \<le> i" "i \<le> PRQ_size prq" "PRQ_size prq \<le> int (length (PRQ_heap_vector prq))"
    and "\<not> (2 \<le> i \<and> cmp (vec_elt (PRQ_heap_vector prq) i) (vec_elt (PRQ_heap_vector prq) (i div 2)))"
  shows "PRQ_Upheap prq i =
    Inr (prq\<lparr>PRQ_client := client_set prq i (vec_elt (PRQ_heap_vector prq) i)\<rparr>, i)"
proof -
  let ?v = "PRQ_heap_vector prq"
  have i: "i \<le> int (length ?v)" using assms(3,4) by linarith
  have "PRQ_Ith prq (i div 2) = Inr (vec_elt ?v (i div 2))" if "i > 1" using that i by (intro PRQ_Ith_in) auto
  then have "Upheap_loop prq (vec_elt ?v i) i = Inr (prq, i)"
    using assms(1,5) by (subst Upheap_loop.simps) auto
  then show ?thesis using assms(2-4) i by (simp add: PRQ_Upheap_def PRQ_Ith_in PRQ_Set_Ith_in)
qed

lemma PRQ_Downheap_ok:
  assumes "PRQ_comparison_fn prq = cmp" and "PRQ_set_index_fn prq = None \<or> PRQ_set_index_fn prq = Some setf"
    and "1 \<le> i" "i \<le> PRQ_size prq" "PRQ_size prq < 1073741824" "PRQ_size prq \<le> int (length (PRQ_heap_vector prq))"
    and "down_ok cmp (PRQ_heap_vector prq) (PRQ_size prq) i" and "index_ok getf prq (PRQ_heap_vector prq) i"
  shows "\<exists>v w k. PRQ_Downheap prq i = Inr (prq\<lparr>PRQ_heap_vector := v, PRQ_client := w\<rparr>, k) \<and>
    length v = length (PRQ_heap_vector prq) \<and> heap_ok cmp v (PRQ_size prq) \<and>
    mset (take (nat (PRQ_size prq)) v) = mset (take (nat (PRQ_size prq)) (PRQ_heap_vector prq)) \<and>
    index_ok getf (prq\<lparr>PRQ_heap_vector := v, PRQ_client := w\<rparr>) v 0"
proof -
  let ?x = "vec_elt (PRQ_heap_vector prq) i" and ?n = "PRQ_size prq"
  obtain v w k where k: "Downheap_loop prq ?x i = Inr (prq\<lparr>PRQ_heap_vector := v, PRQ_client := w\<rparr>, k)"
      "length v = length (PRQ_heap_vector prq)" "1 \<le> k" "k \<le> ?n"
      "heap_ok cmp (vec_set v k ?x) ?n"
      "mset (take (nat ?n) (vec_set v k ?x)) = mset (take (nat ?n) (PRQ_heap_vector prq))"
      "index_ok getf (prq\<lparr>PRQ_heap_vector := v, PRQ_client := w\<rparr>) (vec_set v k ?x) k"
    using Downheap_loop_ok [OF assms(1-6), of ?x] assms(7,8) by auto
  let ?prq = "prq\<lparr>PRQ_heap_vector := v, PRQ_client := w\<rparr>"
  have kn: "k \<le> int (length v)" using k(2,4) assms(6) by linarith
  have x: "vec_elt (vec_set v k ?x) k = ?x" using k(3) kn by (simp add: vec_elt_set)
  have set: "PRQ_Set_Ith ?prq k ?x = Inr (prq\<lparr>PRQ_heap_vector := vec_set v k ?x, PRQ_client := client_set ?prq k ?x\<rparr>)"
    using PRQ_Set_Ith_in [of k ?prq ?x] k(3) kn by simp
  have run: "PRQ_Downheap prq i = Inr (prq\<lparr>PRQ_heap_vector := vec_set v k ?x, PRQ_client := client_set ?prq k ?x\<rparr>, k)"
    using assms(3,4,6) k(1) set by (simp add: PRQ_Downheap_def PRQ_Ith_in)
  have "index_ok getf (?prq\<lparr>PRQ_heap_vector := vec_set v k ?x,
      PRQ_client := client_set ?prq k (vec_elt (vec_set v k ?x) k)\<rparr>) (vec_set v k ?x) 0"
    by (rule index_settle [OF k(7)]) (use assms(2,6) k(2-4) kn in auto)
  then have idx: "index_ok getf (prq\<lparr>PRQ_heap_vector := vec_set v k ?x, PRQ_client := client_set ?prq k ?x\<rparr>) (vec_set v k ?x) 0"
    by (simp add: x)
  show ?thesis
    using run k(2,5,6) idx
    by (intro exI [of _ "vec_set v k ?x"] exI [of _ "client_set ?prq k ?x"] exI [of _ k]) simp
qed

text \<open>Replacing the element at \<open>i\<close> by the bottom one and shrinking: open at \<open>i\<close> both ways.\<close>

lemma take_bottom:
  assumes "1 \<le> n" and "n \<le> int (length v)"
  shows "take (nat n) v = take (nat (n - 1)) v @ [vec_elt v n]"
proof -
  have "nat n = Suc (nat (n - 1))" "nat (n - 1) < length v" using assms by auto
  then show ?thesis by (simp add: take_Suc_conv_app_nth vec_elt_def)
qed

lemma replace_mset:
  assumes "1 \<le> i" "i < n" "n \<le> int (length v)"
  shows "mset (take (nat n) v) = add_mset (vec_elt v i) (mset (take (nat (n - 1)) (vec_set v i (vec_elt v n))))"
proof -
  let ?t = "take (nat (n - 1)) v"
  have len: "nat (i - 1) < length ?t" using assms by auto
  have "take (nat (n - 1)) (vec_set v i (vec_elt v n)) = ?t[nat (i - 1) := vec_elt v n]"
    using assms by (simp add: vec_set_def take_update_swap)
  moreover have "?t ! nat (i - 1) = vec_elt v i" using assms by (simp add: vec_elt_def)
  moreover from this len have "vec_elt v i \<in># mset ?t" by (metis nth_mem set_mset_mset)
  ultimately show ?thesis using len take_bottom [of n v] assms by (simp add: mset_update)
qed

lemma replace_over:
  assumes "heap_ok cmp v n" and "1 \<le> i" "i < n" "n \<le> int (length v)"
  shows "over_ok cmp (vec_set v i x) (n - 1) i"
  unfolding over_ok_def
proof (intro allI impI)
  fix j assume j: "2 \<le> i \<and> j div 2 = i \<and> j \<le> n - 1"
  define p where "p = i div 2"
  have p: "1 \<le> p" "p < i" "i < j" using j unfolding p_def by auto
  have "\<not> cmp (vec_elt v j) (vec_elt v i)" "\<not> cmp (vec_elt v i) (vec_elt v p)"
    using assms j p by (auto simp: heap_ok_def p_def)
  then have "\<not> cmp (vec_elt v j) (vec_elt v p)" using trans_not by blast
  then show "\<not> cmp (vec_elt (vec_set v i x) j) (vec_elt (vec_set v i x) (i div 2))"
    using p assms by (simp add: vec_elt_set flip: p_def)
qed

lemma replace_edge:
  assumes "heap_ok cmp v n" and "1 \<le> i" "i < n" "n \<le> int (length v)"
    and "2 \<le> j" "j \<le> n - 1" "j \<noteq> i" "j div 2 \<noteq> i"
  shows "\<not> cmp (vec_elt (vec_set v i x) j) (vec_elt (vec_set v i x) (j div 2))"
proof -
  have "1 \<le> j div 2" using assms(5) by simp
  then show ?thesis using assms by (simp add: vec_elt_set heap_ok_def)
qed

lemma replace_index:
  assumes "index_ok getf prq v 0" and "PRQ_set_index_fn prq = None \<or> PRQ_set_index_fn prq = Some setf"
    and "n = PRQ_size prq" and "1 \<le> i" "i < n" "n \<le> int (length v)"
  shows "index_ok getf (prq\<lparr>PRQ_size := n - 1, PRQ_heap_vector := u,
      PRQ_client := client_set (prq\<lparr>PRQ_size := n - 1\<rparr>) i (vec_elt v n)\<rparr>) (vec_set v i (vec_elt v n)) i"
proof (cases "PRQ_set_index_fn prq")
  case None
  then show ?thesis by (simp add: index_ok_def)
next
  case (Some f)
  then have f: "PRQ_set_index_fn prq = Some setf" using assms(2) by auto
  have d: "distinct (take (nat n) v)"
    and g: "\<And>j. 1 \<le> j \<Longrightarrow> j \<le> n \<Longrightarrow> getf (PRQ_client prq) (vec_elt v j) = j"
    using assms(1,3) f by (auto simp: index_ok_def)
  have "add_mset (vec_elt v i) (mset (take (nat (n - 1)) (vec_set v i (vec_elt v n)))) = mset (take (nat n) v)"
    using replace_mset [OF assms(4-6)] by simp
  then have "mset (vec_elt v i # take (nat (n - 1)) (vec_set v i (vec_elt v n))) = mset (take (nat n) v)" by simp
  then have "distinct (vec_elt v i # take (nat (n - 1)) (vec_set v i (vec_elt v n)))"
    using d mset_eq_imp_distinct_iff by blast
  moreover have "getf (setf (vec_elt v n) i (PRQ_client prq)) (vec_elt (vec_set v i (vec_elt v n)) j) = j"
    if j: "1 \<le> j" "j \<le> n - 1" "j \<noteq> i" for j
  proof -
    have "vec_elt v j \<noteq> vec_elt v n" using vec_elt_distinct [OF d assms(6)] j assms(4,5) by auto
    then show ?thesis using j assms(4-6) g [of j] by (simp add: vec_elt_set get_set)
  qed
  ultimately show ?thesis using f by (simp add: index_ok_def client_set_def)
qed

end

section \<open>The operations keep the invariant and do what the abstract queue does\<close>

lemma elems_iff:
  assumes "PRQ_size prq \<le> int (length (PRQ_heap_vector prq))"
  shows "y \<in># prq_elems prq \<longleftrightarrow> (\<exists>j. 1 \<le> j \<and> j \<le> PRQ_size prq \<and> y = vec_elt (PRQ_heap_vector prq) j)"
proof
  assume "y \<in># prq_elems prq"
  then obtain k where k: "k < length (PRQ_heap_vector prq)" "k < nat (PRQ_size prq)" "y = PRQ_heap_vector prq ! k"
    by (auto simp: prq_elems_def in_set_conv_nth)
  then show "\<exists>j. 1 \<le> j \<and> j \<le> PRQ_size prq \<and> y = vec_elt (PRQ_heap_vector prq) j"
    by (intro exI [of _ "int k + 1"]) (auto simp: vec_elt_def)
next
  assume "\<exists>j. 1 \<le> j \<and> j \<le> PRQ_size prq \<and> y = vec_elt (PRQ_heap_vector prq) j"
  then obtain j where j: "1 \<le> j" "j \<le> PRQ_size prq" "y = vec_elt (PRQ_heap_vector prq) j" by blast
  then have "nat (j - 1) < length (take (nat (PRQ_size prq)) (PRQ_heap_vector prq))" using assms by auto
  moreover have "y = take (nat (PRQ_size prq)) (PRQ_heap_vector prq) ! nat (j - 1)" using j by (simp add: vec_elt_def)
  ultimately have "y \<in> set (take (nat (PRQ_size prq)) (PRQ_heap_vector prq))" using nth_mem by blast
  then show "y \<in># prq_elems prq" by (simp add: prq_elems_def)
qed

lemma prq_inv_update:
  assumes "prq_inv cmp getf setf prq" and "length v = length (PRQ_heap_vector prq)" and "0 \<le> n" "n \<le> PRQ_size prq"
    and "heap_ok cmp v n" and "index_ok getf (prq\<lparr>PRQ_size := n, PRQ_heap_vector := v, PRQ_client := w\<rparr>) v 0"
  shows "prq_inv cmp getf setf (prq\<lparr>PRQ_size := n, PRQ_heap_vector := v, PRQ_client := w\<rparr>)"
  using assms by (auto simp: prq_inv_def)

lemma prq_inv_shrink:
  assumes "prq_inv cmp getf setf prq" and "0 \<le> n" "n \<le> PRQ_size prq"
  shows "prq_inv cmp getf setf (prq\<lparr>PRQ_size := n\<rparr>)"
proof -
  have "distinct (take (nat (PRQ_size prq)) (PRQ_heap_vector prq)) \<Longrightarrow> distinct (take (nat n) (PRQ_heap_vector prq))"
    using assms(3) distinct_take [of "take (nat (PRQ_size prq)) (PRQ_heap_vector prq)" "nat n"]
    by (simp add: min_def nat_le_eq_zle split: if_splits)
  with assms show ?thesis by (auto simp: prq_inv_def heap_ok_def index_ok_def)
qed

context prq_client
begin

lemma PRQ_Top_ok:
  assumes "prq_inv cmp getf setf prq" and "prq_elems prq \<noteq> {#}"
  shows "\<exists>x. PRQ_Top prq = Inr x \<and> x \<in># prq_elems prq \<and> (\<forall>y \<in># prq_elems prq. \<not> cmp y x)"
proof -
  let ?v = "PRQ_heap_vector prq"
  have n: "1 \<le> PRQ_size prq" "PRQ_size prq \<le> int (length ?v)" "heap_ok cmp ?v (PRQ_size prq)"
    using assms by (auto simp: prq_inv_def prq_elems_def)
  then have "PRQ_Top prq = Inr (vec_elt ?v 1)" by (simp add: PRQ_Top_def PRQ_Ith_in)
  moreover have "vec_elt ?v 1 \<in># prq_elems prq" unfolding elems_iff [OF n(2)] using n(1) by blast
  moreover have "\<not> cmp y (vec_elt ?v 1)" if "y \<in># prq_elems prq" for y
    using that heap_top [OF n(3)] unfolding elems_iff [OF n(2)] by blast
  ultimately show ?thesis by blast
qed

lemma replace_down:
  assumes "prq_inv cmp getf setf prq" and "1 \<le> i" "i < PRQ_size prq"
    and "2 \<le> i \<longrightarrow> \<not> cmp (vec_elt (PRQ_heap_vector prq) (PRQ_size prq)) (vec_elt (PRQ_heap_vector prq) (i div 2))"
  shows "down_ok cmp (vec_set (PRQ_heap_vector prq) i (vec_elt (PRQ_heap_vector prq) (PRQ_size prq))) (PRQ_size prq - 1) i"
proof -
  let ?v = "PRQ_heap_vector prq" and ?n = "PRQ_size prq"
  have n: "?n \<le> int (length ?v)" "heap_ok cmp ?v ?n" using assms(1) by (auto simp: prq_inv_def)
  have "\<not> cmp (vec_elt (vec_set ?v i (vec_elt ?v ?n)) j) (vec_elt (vec_set ?v i (vec_elt ?v ?n)) (j div 2))"
    if j: "2 \<le> j" "j \<le> ?n - 1" "j div 2 \<noteq> i" for j
  proof (cases "j = i")
    case True
    then have "1 \<le> j div 2" "j div 2 \<noteq> i" "2 \<le> i" using j(1) by auto
    then show ?thesis using True assms(2-4) n(1) j(1) by (simp add: vec_elt_set)
  next
    case False
    then show ?thesis using replace_edge [OF n(2) assms(2,3) n(1) j(1,2) False j(3)] by blast
  qed
  then show ?thesis using replace_over [OF n(2) assms(2,3) n(1)] by (simp add: down_ok_def)
qed

text \<open>\<^verbatim>\<open>PRQ_Delete_Top\<close> and \<^verbatim>\<open>PRQ_Remove\<close> share the repair of the heap by sifting down.\<close>

lemma replace_Downheap:
  fixes w
  assumes "prq_inv cmp getf setf prq" and "1 \<le> i" "i < PRQ_size prq"
    and "2 \<le> i \<longrightarrow> \<not> cmp (vec_elt (PRQ_heap_vector prq) (PRQ_size prq)) (vec_elt (PRQ_heap_vector prq) (i div 2))"
    and "q = prq\<lparr>PRQ_size := PRQ_size prq - 1,
      PRQ_heap_vector := vec_set (PRQ_heap_vector prq) i (vec_elt (PRQ_heap_vector prq) (PRQ_size prq)), PRQ_client := w\<rparr>"
    and "index_ok getf q (PRQ_heap_vector q) i"
  shows "\<exists>prq' k. PRQ_Downheap q i = Inr (prq', k) \<and> prq_inv cmp getf setf prq' \<and>
    prq_elems prq = add_mset (vec_elt (PRQ_heap_vector prq) i) (prq_elems prq')"
proof -
  let ?v = "PRQ_heap_vector prq" and ?n = "PRQ_size prq"
  have n: "?n \<le> int (length ?v)" using assms(1) by (auto simp: prq_inv_def)
  obtain v w' k where k: "PRQ_Downheap q i = Inr (q\<lparr>PRQ_heap_vector := v, PRQ_client := w'\<rparr>, k)"
      "length v = length ?v" "heap_ok cmp v (?n - 1)"
      "mset (take (nat (?n - 1)) v) = mset (take (nat (?n - 1)) (vec_set ?v i (vec_elt ?v ?n)))"
      "index_ok getf (q\<lparr>PRQ_heap_vector := v, PRQ_client := w'\<rparr>) v 0"
    using PRQ_Downheap_ok [of q i] replace_down [OF assms(1-4)] assms(1-3,6) unfolding assms(5)
    by (auto simp: prq_inv_def)
  let ?q = "prq\<lparr>PRQ_size := ?n - 1, PRQ_heap_vector := v, PRQ_client := w'\<rparr>"
  have q: "q\<lparr>PRQ_heap_vector := v, PRQ_client := w'\<rparr> = ?q" by (simp add: assms(5))
  have "prq_inv cmp getf setf ?q"
    using k(2,3,5) assms(2,3) unfolding q by (intro prq_inv_update [OF assms(1)]) auto
  moreover have "prq_elems prq = add_mset (vec_elt ?v i) (prq_elems ?q)"
    using replace_mset [OF assms(2,3) n] k(4) by (simp add: prq_elems_def)
  ultimately show ?thesis using k(1) unfolding q by blast
qed

lemma PRQ_Delete_Top_ok:
  assumes "prq_inv cmp getf setf prq" and "prq_elems prq \<noteq> {#}"
  shows "\<exists>prq' x. PRQ_Delete_Top prq = Inr (prq', x) \<and> PRQ_Top prq = Inr x \<and> prq_inv cmp getf setf prq' \<and>
    prq_elems prq = add_mset x (prq_elems prq')"
proof -
  let ?v = "PRQ_heap_vector prq" and ?n = "PRQ_size prq"
  have n: "1 \<le> ?n" "?n \<le> int (length ?v)" using assms by (auto simp: prq_inv_def prq_elems_def)
  have top: "PRQ_Top prq = Inr (vec_elt ?v 1)" using n by (simp add: PRQ_Top_def PRQ_Ith_in)
  show ?thesis
  proof (cases "?n = 1")
    case True
    have "prq_elems prq = add_mset (vec_elt ?v 1) (prq_elems (prq\<lparr>PRQ_size := 0\<rparr>))"
      using True n(2) by (cases ?v) (auto simp: prq_elems_def vec_elt_def)
    then show ?thesis
      using True top n prq_inv_shrink [OF assms(1), of 0] by (simp add: PRQ_Delete_Top_def PRQ_Ith_in)
  next
    case False
    let ?p = "prq\<lparr>PRQ_size := ?n - 1\<rparr>"
    let ?q = "prq\<lparr>PRQ_size := ?n - 1, PRQ_heap_vector := vec_set ?v 1 (vec_elt ?v ?n),
      PRQ_client := client_set ?p 1 (vec_elt ?v ?n)\<rparr>"
    have set: "PRQ_Set_Ith ?p 1 (vec_elt ?v ?n) = Inr ?q" using n PRQ_Set_Ith_in [of 1 ?p] by simp
    have "index_ok getf ?q (vec_set ?v 1 (vec_elt ?v ?n)) 1"
      by (rule replace_index) (use assms(1) n False in \<open>auto simp: prq_inv_def\<close>)
    then have "\<exists>prq' k. PRQ_Downheap ?q 1 = Inr (prq', k) \<and> prq_inv cmp getf setf prq' \<and>
        prq_elems prq = add_mset (vec_elt ?v 1) (prq_elems prq')"
      by (intro replace_Downheap [OF assms(1)]) (use n False in auto)
    then show ?thesis
      using False top n set by (auto simp: PRQ_Delete_Top_def PRQ_Ith_in Let_def)
  qed
qed

end

section \<open>Insertion and removal\<close>

lemma client_set_update [simp]:
  "client_set (prq\<lparr>PRQ_size := n\<rparr>) i x = client_set prq i x"
  "client_set (prq\<lparr>PRQ_heap_vector := v\<rparr>) i x = client_set prq i x"
  "client_set (prq\<lparr>PRQ_allocated_size := n\<rparr>) i x = client_set prq i x"
  by (simp_all add: client_set_def split: option.splits)

lemma vec_elt_take:
  assumes "take (nat n) u = take (nat n) v" and "1 \<le> j" "j \<le> n"
  shows "vec_elt u j = vec_elt v j"
proof -
  have "nat (j - 1) < nat n" using assms by auto
  then have "take (nat n) u ! nat (j - 1) = u ! nat (j - 1)" "take (nat n) v ! nat (j - 1) = v ! nat (j - 1)" by auto
  then show ?thesis using assms(1) by (simp add: vec_elt_def)
qed

lemma insert_grow:
  assumes "prq_inv cmp getf setf prq"
    and "PRQ_size prq = PRQ_allocated_size prq \<Longrightarrow> PRQ_size prq * PRQ_expansion_factor prq < 2147483648"
  shows "\<exists>v a. (if PRQ_size prq = PRQ_allocated_size prq
        then bindE (int32 (PRQ_size prq * PRQ_expansion_factor prq)) (\<lambda>product.
                 let new_size = product div 100 in
                 bindE (if new_size \<le> PRQ_size prq then int32 (PRQ_size prq + 10)
                        else Inr new_size) (\<lambda>new_size.
                 Inr (prq\<lparr>PRQ_heap_vector := TYPE_MEM_POOL_REALLOC_N (PRQ_mem_pool prq)
                                (PRQ_heap_vector prq) (nat new_size),
                          PRQ_allocated_size := new_size\<rparr>)))
        else Inr prq) = Inr (prq\<lparr>PRQ_heap_vector := v, PRQ_allocated_size := a\<rparr>) \<and>
      a = int (length v) \<and> PRQ_size prq < a \<and>
      take (nat (PRQ_size prq)) v = take (nat (PRQ_size prq)) (PRQ_heap_vector prq)"
proof (cases "PRQ_size prq = PRQ_allocated_size prq")
  case True
  let ?n = "PRQ_size prq" and ?v = "PRQ_heap_vector prq"
  define m where "m = ?n * PRQ_expansion_factor prq"
  define a where "a = (if m div 100 \<le> ?n then ?n + 10 else m div 100)"
  have inv: "0 \<le> ?n" "?n < 1073741824" "?n = int (length ?v)" "100 < PRQ_expansion_factor prq" "pool_ok (PRQ_mem_pool prq)"
    using assms(1) True by (auto simp: prq_inv_def)
  have m: "0 \<le> m" "m < 2147483648" using assms(2) [OF True] inv by (auto simp: m_def)
  have a: "?n < a" "length ?v \<le> nat a" using inv(1,3) by (auto simp: a_def)
  let ?u = "TYPE_MEM_POOL_REALLOC_N (PRQ_mem_pool prq) ?v (nat a)"
  have u: "length ?u = nat a" "take (length ?v) ?u = ?v" using inv(5) a(2) by (auto simp: pool_ok_def)
  have keep: "take (nat ?n) ?u = take (nat ?n) ?v" using u(2) inv(3) by simp
  have "int32 m = Inr m" "int32 (?n + 10) = Inr (?n + 10)" using m inv by (simp_all add: int32_in)
  then show ?thesis
    using True u(1) a keep inv(1) m(1) unfolding m_def [symmetric] Let_def
    by (intro exI [of _ ?u] exI [of _ a]) (auto simp: a_def)
next
  case False
  then show ?thesis
    using assms(1) by (intro exI [of _ "PRQ_heap_vector prq"] exI [of _ "PRQ_allocated_size prq"])
      (auto simp: prq_inv_def)
qed

context prq_client
begin

lemma insert_bottom:
  assumes "prq_inv cmp getf setf prq" and "PRQ_set_index_fn prq \<noteq> None \<longrightarrow> x \<notin># prq_elems prq"
    and "n = PRQ_size prq" and "n < int (length v)" and "take (nat n) v = take (nat n) (PRQ_heap_vector prq)"
    and "u = vec_set v (n + 1) x"
    and "q = prq\<lparr>PRQ_allocated_size := a, PRQ_size := n + 1, PRQ_heap_vector := u,
      PRQ_client := client_set prq (n + 1) x\<rparr>"
  shows "up_ok cmp u (n + 1) (n + 1)" and "index_ok getf q u (n + 1)"
    and "mset (take (nat (n + 1)) u) = add_mset x (prq_elems prq)"
proof -
  have n: "0 \<le> n" "n \<le> int (length (PRQ_heap_vector prq))" "heap_ok cmp (PRQ_heap_vector prq) n"
      "index_ok getf prq (PRQ_heap_vector prq) 0"
      "PRQ_set_index_fn prq = None \<or> PRQ_set_index_fn prq = Some setf"
    using assms(1,3) by (auto simp: prq_inv_def)
  have e: "vec_elt u j = vec_elt (PRQ_heap_vector prq) j" if "1 \<le> j" "j \<le> n" for j
    using that n(1) assms(4) vec_elt_take [OF assms(5) that] unfolding assms(6) by (simp add: vec_elt_set)
  have "\<not> cmp (vec_elt u j) (vec_elt u (j div 2))" if j: "2 \<le> j" "j \<le> n" for j
  proof -
    have "1 \<le> j div 2" "j div 2 \<le> n" using j by auto
    then show ?thesis using j n(3) by (simp add: e heap_ok_def)
  qed
  moreover have "\<not> j \<le> n + 1" if "j div 2 = n + 1" for j using that n(1) by linarith
  ultimately show "up_ok cmp u (n + 1) (n + 1)" by (force simp: up_ok_def over_ok_def)
  have "take (nat n) u = take (nat n) v" unfolding assms(6) vec_set_def by simp
  moreover have "vec_elt u (n + 1) = x" unfolding assms(6) using n(1) assms(4) by (simp add: vec_elt_set)
  ultimately have tk: "take (nat (n + 1)) u = take (nat n) (PRQ_heap_vector prq) @ [x]"
    using take_bottom [of "n + 1" u] n(1) assms(4,5) unfolding assms(6) by simp
  then show "mset (take (nat (n + 1)) u) = add_mset x (prq_elems prq)" by (simp add: prq_elems_def assms(3))
  show "index_ok getf q u (n + 1)"
  proof (cases "PRQ_set_index_fn prq")
    case None
    then show ?thesis by (simp add: index_ok_def assms(7))
  next
    case (Some f)
    then have f: "PRQ_set_index_fn prq = Some setf" using n(5) by auto
    have new: "x \<notin> set (take (nat n) (PRQ_heap_vector prq))" using assms(2,3) f by (simp add: prq_elems_def)
    then have "distinct (take (nat (n + 1)) u)" using n(4) f unfolding tk by (simp add: index_ok_def assms(3))
    moreover have "getf (setf x (n + 1) (PRQ_client prq)) (vec_elt u j) = j" if j: "1 \<le> j" "j \<le> n" for j
    proof -
      have "nat (j - 1) < length (take (nat n) (PRQ_heap_vector prq))" using j n(2) by auto
      from nth_mem [OF this] have "vec_elt (PRQ_heap_vector prq) j \<in> set (take (nat n) (PRQ_heap_vector prq))"
        using j by (simp add: vec_elt_def)
      with new have "vec_elt (PRQ_heap_vector prq) j \<noteq> x" by metis
      then show ?thesis using n(4) f j by (simp add: e get_set index_ok_def assms(3))
    qed
    ultimately show ?thesis using f by (simp add: index_ok_def client_set_def assms(7))
  qed
qed

lemma PRQ_Insert_ok:
  assumes "prq_inv cmp getf setf prq" and "PRQ_set_index_fn prq \<noteq> None \<longrightarrow> x \<notin># prq_elems prq"
    and "PRQ_size prq < 1073741823"
    and "PRQ_size prq = PRQ_allocated_size prq \<Longrightarrow> PRQ_size prq * PRQ_expansion_factor prq < 2147483648"
  shows "\<exists>prq'. PRQ_Insert prq x = Inr prq' \<and> prq_inv cmp getf setf prq' \<and>
    prq_elems prq' = add_mset x (prq_elems prq)"
proof -
  define n where "n = PRQ_size prq"
  obtain v a where g: "(if PRQ_size prq = PRQ_allocated_size prq
        then bindE (int32 (PRQ_size prq * PRQ_expansion_factor prq)) (\<lambda>product.
                 let new_size = product div 100 in
                 bindE (if new_size \<le> PRQ_size prq then int32 (PRQ_size prq + 10)
                        else Inr new_size) (\<lambda>new_size.
                 Inr (prq\<lparr>PRQ_heap_vector := TYPE_MEM_POOL_REALLOC_N (PRQ_mem_pool prq)
                                (PRQ_heap_vector prq) (nat new_size),
                          PRQ_allocated_size := new_size\<rparr>)))
        else Inr prq) = Inr (prq\<lparr>PRQ_heap_vector := v, PRQ_allocated_size := a\<rparr>)"
      "a = int (length v)" "n < a" "take (nat n) v = take (nat n) (PRQ_heap_vector prq)"
    using insert_grow [OF assms(1,4)] unfolding n_def by blast
  have n: "0 \<le> n" "n < 1073741823" using assms(1,3) by (auto simp: prq_inv_def n_def)
  define u where "u = vec_set v (n + 1) x"
  let ?p = "prq\<lparr>PRQ_heap_vector := v, PRQ_allocated_size := a, PRQ_size := n + 1\<rparr>"
  define q where "q = prq\<lparr>PRQ_allocated_size := a, PRQ_size := n + 1, PRQ_heap_vector := u,
      PRQ_client := client_set prq (n + 1) x\<rparr>"
  note b = insert_bottom [OF assms(1,2) n_def g(3) [unfolded g(2)] g(4) u_def q_def]
  have set: "PRQ_Set_Ith ?p (n + 1) x = Inr q"
    using PRQ_Set_Ith_in [of "n + 1" ?p x] n(1) g(2,3) by (simp add: q_def u_def)
  obtain v' w k where k: "PRQ_Upheap q (n + 1) = Inr (q\<lparr>PRQ_heap_vector := v', PRQ_client := w\<rparr>, k)"
      "length v' = length u" "heap_ok cmp v' (n + 1)" "mset (take (nat (n + 1)) v') = mset (take (nat (n + 1)) u)"
      "index_ok getf (q\<lparr>PRQ_heap_vector := v', PRQ_client := w\<rparr>) v' 0"
    using PRQ_Upheap_ok [of q "n + 1"] b(1,2) assms(1) n(1) g(2,3)
    by (auto simp: q_def u_def prq_inv_def)
  let ?q = "q\<lparr>PRQ_heap_vector := v', PRQ_client := w\<rparr>"
  have "int32 (n + 1) = Inr (n + 1)" using n by (simp add: int32_in)
  then have run: "PRQ_Insert prq x = Inr ?q"
    unfolding PRQ_Insert_def g(1) using set k(1) by (simp add: n_def [symmetric] q_def Let_def)
  have "prq_inv cmp getf setf ?q"
    using assms(1) n g(2,3) k(2,3,5) by (auto simp: prq_inv_def q_def u_def)
  moreover have "prq_elems ?q = add_mset x (prq_elems prq)" using k(4) b(3) by (simp add: prq_elems_def q_def)
  ultimately show ?thesis using run by blast
qed

text \<open>
  \<^verbatim>\<open>PRQ_Remove\<close> at an index: the bottom element takes its place and moves up or else down.
\<close>

lemma remove_at:
  assumes "prq_inv cmp getf setf prq" and "1 \<le> i" "i < PRQ_size prq"
  shows "\<exists>prq'. bindE (PRQ_Ith prq (PRQ_size prq)) (\<lambda>bottom_element.
       let prq = prq\<lparr>PRQ_size := PRQ_size prq - 1\<rparr> in
       bindE (PRQ_Set_Ith prq i bottom_element) (\<lambda>prq.
       bindE (PRQ_Upheap prq i) (\<lambda>(prq, new_index).
       if i = new_index
       then bindE (PRQ_Downheap prq i) (\<lambda>(prq, _). Inr prq)
       else Inr prq))) = Inr prq' \<and> prq_inv cmp getf setf prq' \<and>
    prq_elems prq = add_mset (vec_elt (PRQ_heap_vector prq) i) (prq_elems prq')"
proof -
  define v where "v = PRQ_heap_vector prq"
  define n where "n = PRQ_size prq"
  define u where "u = vec_set v i (vec_elt v n)"
  let ?p = "prq\<lparr>PRQ_size := n - 1\<rparr>"
  define q where "q = prq\<lparr>PRQ_size := n - 1, PRQ_heap_vector := u, PRQ_client := client_set ?p i (vec_elt v n)\<rparr>"
  have n: "1 \<le> i" "i < n" "n \<le> int (length v)" "heap_ok cmp v n" "PRQ_comparison_fn q = cmp"
      "PRQ_set_index_fn q = None \<or> PRQ_set_index_fn q = Some setf" "PRQ_heap_vector q = u" "PRQ_size q = n - 1"
      "i \<le> int (length v)"
    using assms by (auto simp: prq_inv_def n_def v_def q_def)
  have bot: "PRQ_Ith prq n = Inr (vec_elt v n)" using n(1-3) PRQ_Ith_in [of n prq] by (simp add: v_def)
  have set: "PRQ_Set_Ith ?p i (vec_elt v n) = Inr q"
    using n(1-3) PRQ_Set_Ith_in [of i ?p] by (simp add: q_def u_def v_def)
  have idx: "index_ok getf q u i"
    unfolding q_def u_def v_def by (rule replace_index) (use assms in \<open>auto simp: prq_inv_def n_def\<close>)
  have u_i: "vec_elt u i = vec_elt v n" using n(1,9) by (simp add: u_def vec_elt_set)
  have u_p: "vec_elt u (i div 2) = vec_elt v (i div 2)" if "2 \<le> i"
  proof -
    have "1 \<le> i div 2" "i div 2 \<noteq> i" using that by auto
    then show ?thesis using n(1,9) by (simp add: u_def vec_elt_set)
  qed
  have ms: "prq_elems prq = add_mset (vec_elt v i) (mset (take (nat (n - 1)) u))"
    using replace_mset [OF n(1-3)] by (simp add: prq_elems_def u_def v_def n_def)
  show ?thesis
  proof (cases "2 \<le> i \<and> cmp (vec_elt v n) (vec_elt v (i div 2))")
    case True
    have over: "over_ok cmp u (n - 1) i" unfolding u_def by (rule replace_over) (use n in auto)
    have "\<not> cmp (vec_elt u j) (vec_elt u (j div 2))" if j: "2 \<le> j" "j \<le> n - 1" "j \<noteq> i" for j
    proof (cases "j div 2 = i")
      case child: True
      then have "\<not> cmp (vec_elt u j) (vec_elt u (i div 2))" using over True j(2) by (auto simp: over_ok_def)
      then show ?thesis using not_before [of "vec_elt v n" "vec_elt v (i div 2)"] True u_i u_p child by auto
    next
      case False
      then show ?thesis unfolding u_def using replace_edge [OF n(4,1-3) j(1,2,3) False] by blast
    qed
    then have "up_ok cmp u (n - 1) i" using over by (simp add: up_ok_def)
    then obtain v' w k where k: "PRQ_Upheap q i = Inr (q\<lparr>PRQ_heap_vector := v', PRQ_client := w\<rparr>, k)"
        "length v' = length u" "k < i" "heap_ok cmp v' (n - 1)" "mset (take (nat (n - 1)) v') = mset (take (nat (n - 1)) u)"
        "index_ok getf (q\<lparr>PRQ_heap_vector := v', PRQ_client := w\<rparr>) v' 0"
      using PRQ_Upheap_ok [OF n(5,6,1), unfolded n(7,8)] idx n(2,3) True u_i u_p by (auto simp: u_def)
    let ?q = "prq\<lparr>PRQ_size := n - 1, PRQ_heap_vector := v', PRQ_client := w\<rparr>"
    have q: "q\<lparr>PRQ_heap_vector := v', PRQ_client := w\<rparr> = ?q" by (simp add: q_def)
    have "prq_inv cmp getf setf ?q"
      using k(2,4,6) n(1,2) unfolding q by (intro prq_inv_update [OF assms(1)]) (auto simp: n_def u_def v_def)
    moreover have "prq_elems prq = add_mset (vec_elt v i) (prq_elems ?q)" using ms k(5) by (simp add: prq_elems_def)
    ultimately show ?thesis
      using bot set k(1,3) unfolding q by (simp add: n_def [symmetric] v_def [symmetric] Let_def)
  next
    case False
    define r where "r = q\<lparr>PRQ_client := client_set q i (vec_elt u i)\<rparr>"
    have stay: "PRQ_Upheap q i = Inr (r, i)"
      unfolding r_def using PRQ_Upheap_stays [OF n(5,1), unfolded n(7,8)] n(2,3) False u_i u_p by (auto simp: u_def)
    have r: "r = prq\<lparr>PRQ_size := n - 1, PRQ_heap_vector := u, PRQ_client := client_set q i (vec_elt u i)\<rparr>"
      by (simp add: r_def q_def)
    have "index_ok getf (q\<lparr>PRQ_heap_vector := u, PRQ_client := client_set q i (vec_elt u i)\<rparr>) u 0"
      by (rule index_settle) (use idx n in \<open>auto simp: u_def\<close>)
    moreover have "q\<lparr>PRQ_heap_vector := u, PRQ_client := client_set q i (vec_elt u i)\<rparr> = r" by (simp add: r q_def)
    ultimately have "index_ok getf r (PRQ_heap_vector r) i" by (simp add: index_ok_def r)
    then have "\<exists>prq' k. PRQ_Downheap r i = Inr (prq', k) \<and> prq_inv cmp getf setf prq' \<and>
        prq_elems prq = add_mset (vec_elt v i) (prq_elems prq')"
      unfolding v_def by (intro replace_Downheap [OF assms]) (use False r in \<open>auto simp: n_def v_def u_def\<close>)
    then show ?thesis
      using bot set stay by (auto simp: n_def [symmetric] v_def [symmetric] Let_def)
  qed
qed

lemma find_index:
  assumes "prq_inv cmp getf setf prq" and "x \<in># prq_elems prq"
  shows "\<exists>i. (case PRQ_get_index_fn prq of
              Some get_fn \<Rightarrow>
                let index = get_fn (PRQ_client prq) x in
                bindE (PRQ_Ith prq index) (\<lambda>y. bindE (FmtAssert (x = y)) (\<lambda>_. Inr index))
            | None \<Rightarrow>
                returnE (for_find 1 (PRQ_size prq + 1) (\<lambda>i.
                  bindE (PRQ_Ith prq i) (\<lambda>y. Inr (if y = x then Some i else None))))
                (Inr UNDEFINED)) = Inr i \<and>
    1 \<le> i \<and> i \<le> PRQ_size prq \<and> vec_elt (PRQ_heap_vector prq) i = x"
proof -
  let ?v = "PRQ_heap_vector prq" and ?n = "PRQ_size prq"
  have n: "?n \<le> int (length ?v)" "0 \<le> ?n" using assms(1) by (auto simp: prq_inv_def)
  obtain j where j: "1 \<le> j" "j \<le> ?n" "x = vec_elt ?v j" using assms(2) unfolding elems_iff [OF n(1)] by blast
  show ?thesis
  proof (cases "PRQ_get_index_fn prq")
    case None
    let ?P = "\<lambda>i. 1 \<le> i \<and> i \<le> ?n \<and> vec_elt ?v i = x"
    have "\<exists>r. for_find 1 (?n + 1) (\<lambda>i. bindE (PRQ_Ith prq i) (\<lambda>y. Inr (if y = x then Some i else None))) = Inr r \<and>
        (case r of None \<Rightarrow> \<forall>i. 1 \<le> i \<and> i < ?n + 1 \<longrightarrow> vec_elt ?v i \<noteq> x | Some i \<Rightarrow> ?P i)"
    proof (rule for_find_rule [where Q = "\<lambda>k. \<forall>i. 1 \<le> i \<and> i < k \<longrightarrow> vec_elt ?v i \<noteq> x"])
      fix k assume k: "1 \<le> k" "k < ?n + 1" "\<forall>i. 1 \<le> i \<and> i < k \<longrightarrow> vec_elt ?v i \<noteq> x"
      have "PRQ_Ith prq k = Inr (vec_elt ?v k)" using k n by (intro PRQ_Ith_in) auto
      moreover have "vec_elt ?v i \<noteq> x" if "vec_elt ?v k \<noteq> x" "1 \<le> i \<and> i < k + 1" for i
        using k(3) that by (cases "i = k") auto
      ultimately show "\<exists>r. bindE (PRQ_Ith prq k) (\<lambda>y. Inr (if y = x then Some k else None)) = Inr r \<and>
          (case r of None \<Rightarrow> \<forall>i. 1 \<le> i \<and> i < k + 1 \<longrightarrow> vec_elt ?v i \<noteq> x | Some i \<Rightarrow> ?P i)"
        using k by (cases "vec_elt ?v k = x") auto
    qed (use n in auto)
    then obtain r where r: "for_find 1 (?n + 1) (\<lambda>i. bindE (PRQ_Ith prq i) (\<lambda>y. Inr (if y = x then Some i else None))) = Inr r"
        "case r of None \<Rightarrow> \<forall>i. 1 \<le> i \<and> i < ?n + 1 \<longrightarrow> vec_elt ?v i \<noteq> x | Some i \<Rightarrow> ?P i" by blast
    moreover have "r \<noteq> None"
    proof
      assume "r = None"
      then have "vec_elt ?v j \<noteq> x" using r(2) j(1,2) by simp
      then show False using j(3) by simp
    qed
    ultimately show ?thesis using None by auto
  next
    case (Some g)
    then have "g = getf" "PRQ_set_index_fn prq = Some setf" using assms(1) by (auto simp: prq_inv_def)
    then have "g (PRQ_client prq) x = j" using assms(1) j by (simp add: prq_inv_def index_ok_def)
    then show ?thesis using Some j n PRQ_Ith_in [of j prq] by (auto simp: Let_def)
  qed
qed

lemma PRQ_Remove_ok:
  assumes "prq_inv cmp getf setf prq" and "x \<in># prq_elems prq"
  shows "\<exists>prq'. PRQ_Remove prq x = Inr prq' \<and> prq_inv cmp getf setf prq' \<and>
    prq_elems prq = add_mset x (prq_elems prq')"
proof -
  let ?v = "PRQ_heap_vector prq" and ?n = "PRQ_size prq"
  obtain i where i: "(case PRQ_get_index_fn prq of
              Some get_fn \<Rightarrow>
                let index = get_fn (PRQ_client prq) x in
                bindE (PRQ_Ith prq index) (\<lambda>y. bindE (FmtAssert (x = y)) (\<lambda>_. Inr index))
            | None \<Rightarrow>
                returnE (for_find 1 (PRQ_size prq + 1) (\<lambda>i.
                  bindE (PRQ_Ith prq i) (\<lambda>y. Inr (if y = x then Some i else None))))
                (Inr UNDEFINED)) = Inr i" "1 \<le> i" "i \<le> ?n" "vec_elt ?v i = x"
    using find_index [OF assms] by blast
  have u: "(i \<noteq> UNDEFINED) = True" "(?n > 0) = True" using i(2,3) by (auto simp: UNDEFINED_def)
  show ?thesis
  proof (cases "i = ?n")
    case True
    have "?n \<le> int (length ?v)" using assms(1) by (auto simp: prq_inv_def)
    then have "prq_elems prq = add_mset x (prq_elems (prq\<lparr>PRQ_size := ?n - 1\<rparr>))"
      using take_bottom [of ?n ?v] True i(2,4) by (simp add: prq_elems_def)
    moreover have "prq_inv cmp getf setf (prq\<lparr>PRQ_size := ?n - 1\<rparr>)"
      using True i(2) by (intro prq_inv_shrink [OF assms(1)]) auto
    moreover have "PRQ_Remove prq x = Inr (prq\<lparr>PRQ_size := ?n - 1\<rparr>)"
      unfolding PRQ_Remove_def i(1) u using True u by simp
    ultimately show ?thesis by blast
  next
    case False
    then show ?thesis
      unfolding PRQ_Remove_def i(1) u using remove_at [OF assms(1) i(2)] i(3,4) u by simp
  qed
qed

text \<open>Without the index functions, removing an element that is not in the queue is detected.\<close>

lemma PRQ_Remove_absent:
  assumes "prq_inv cmp getf setf prq" and "PRQ_get_index_fn prq = None" and "x \<notin># prq_elems prq"
  shows "PRQ_Remove prq x = Inl FmtAssert_Failed"
proof -
  let ?v = "PRQ_heap_vector prq" and ?n = "PRQ_size prq"
  have n: "?n \<le> int (length ?v)" using assms(1) by (auto simp: prq_inv_def)
  have "for_find 1 (?n + 1) (\<lambda>i. bindE (PRQ_Ith prq i) (\<lambda>y. Inr (if y = x then Some i else None)))
      = for_find 1 (?n + 1) (\<lambda>i. Inr (if False then Some i else None))"
  proof (rule for_find_cong)
    fix k assume k: "1 \<le> k" "k < ?n + 1"
    then have "PRQ_Ith prq k = Inr (vec_elt ?v k)" using n by (intro PRQ_Ith_in) auto
    moreover have "vec_elt ?v k \<noteq> x" using assms(3) k unfolding elems_iff [OF n] by auto
    ultimately show "bindE (PRQ_Ith prq k) (\<lambda>y. Inr (if y = x then Some k else None)) =
        Inr (if False then Some k else None)" by simp
  qed
  also have "\<dots> = Inr None" using for_find_test [of 1 "?n + 1" "\<lambda>_. Inr None" "\<lambda>_. False"] by simp
  finally show ?thesis using assms(2) by (cases "0 < ?n") (simp_all add: PRQ_Remove_def UNDEFINED_def)
qed

end

section \<open>Initialization and reset\<close>

lemma PRQ_Initialize_ok:
  assumes "pool_ok pool" and "set_fn = None \<or> set_fn = Some setf"
    and "get_fn = None \<or> get_fn = Some getf \<and> set_fn = Some setf"
  shows "prq_inv cmp getf setf (PRQ_Initialize cmp get_fn set_fn pool n f w)"
    and "prq_elems (PRQ_Initialize cmp get_fn set_fn pool n f w) = {#}"
  using assms
  by (auto simp: PRQ_Initialize_def prq_inv_def prq_elems_def heap_ok_def index_ok_def pool_ok_def Let_def)

lemma PRQ_Reset_ok:
  assumes "prq_inv cmp getf setf prq"
  shows "prq_inv cmp getf setf (PRQ_Reset prq)" and "prq_elems (PRQ_Reset prq) = {#}"
  using prq_inv_shrink [OF assms, of 0] assms by (auto simp: PRQ_Reset_def prq_elems_def prq_inv_def)

lemma size_elems: "prq_inv cmp getf setf prq \<Longrightarrow> PRQ_Size prq = int (size (prq_elems prq))"
  by (auto simp: prq_inv_def PRQ_Size_def prq_elems_def min_def)

section \<open>The contract of a priority queue\<close>

text \<open>
  What a client relies on: an abstract multiset of elements, insertion that adds one, deletion
  that removes one that nothing precedes. Draining a queue, the loop of the register allocator
  over \<^verbatim>\<open>PRQ_Delete_Top\<close>, then lists the elements in order of precedence.
\<close>

fun drain :: "('q \<Rightarrow> ('q \<times> 'a) res) \<Rightarrow> nat \<Rightarrow> 'q \<Rightarrow> ('q \<times> 'a list) res" where
  "drain delete_top 0 q = Inr (q, [])"
| "drain delete_top (Suc k) q =
     bindE (delete_top q) (\<lambda>(q, x). bindE (drain delete_top k q) (\<lambda>(q, xs). Inr (q, x # xs)))"

locale priority_queue =
  fixes inv :: "'q \<Rightarrow> bool" and elems :: "'q \<Rightarrow> 'a multiset" and room :: "'q \<Rightarrow> 'a \<Rightarrow> bool"
    and insert_op :: "'q \<Rightarrow> 'a \<Rightarrow> 'q res" and delete_top :: "'q \<Rightarrow> ('q \<times> 'a) res"
    and precedes :: "'a \<Rightarrow> 'a \<Rightarrow> bool"
  assumes insert_law: "inv q \<Longrightarrow> room q x \<Longrightarrow>
      \<exists>q'. insert_op q x = Inr q' \<and> inv q' \<and> elems q' = add_mset x (elems q)"
    and delete_law: "inv q \<Longrightarrow> elems q \<noteq> {#} \<Longrightarrow>
      \<exists>q' x. delete_top q = Inr (q', x) \<and> inv q' \<and> elems q = add_mset x (elems q') \<and>
        (\<forall>y \<in># elems q. \<not> precedes y x)"
begin

lemma drain_sorts:
  assumes "inv q" and "k = size (elems q)"
  shows "\<exists>q' xs. drain delete_top k q = Inr (q', xs) \<and> inv q' \<and> elems q' = {#} \<and> mset xs = elems q \<and>
    sorted_wrt (\<lambda>x y. \<not> precedes y x) xs"
  using assms
proof (induction k arbitrary: q)
  case (Suc k)
  then obtain q1 x where x: "delete_top q = Inr (q1, x)" "inv q1" "elems q = add_mset x (elems q1)"
      "\<forall>y \<in># elems q. \<not> precedes y x"
    using delete_law [OF Suc.prems(1)] by force
  then have "k = size (elems q1)" using Suc.prems(2) by simp
  then obtain q' xs where xs: "drain delete_top k q1 = Inr (q', xs)" "inv q'" "elems q' = {#}" "mset xs = elems q1"
      "sorted_wrt (\<lambda>x y. \<not> precedes y x) xs"
    using Suc.IH [OF x(2)] by blast
  have "\<not> precedes y x" if "y \<in> set xs" for y
  proof -
    have "y \<in># mset xs" using that by simp
    then show ?thesis using x(3,4) xs(4) by simp
  qed
  then show ?case using x xs by auto
qed simp

end

interpretation keyed: prq_client "\<lambda>x y. key x < key y" "\<lambda>w x. w x" "\<lambda>x i w. w(x := i)"
  for key :: "'a \<Rightarrow> 'k::linorder"
  by unfold_locales auto

abbreviation keyed_inv :: "('a \<Rightarrow> 'k::linorder) \<Rightarrow> ('a, 'a \<Rightarrow> int) PRQ \<Rightarrow> bool" where
  "keyed_inv key \<equiv> prq_inv (\<lambda>x y. key x < key y) (\<lambda>w x. w x) (\<lambda>x i w. w(x := i))"

definition prq_room :: "('a, 'w) PRQ \<Rightarrow> 'a \<Rightarrow> bool" where
  "prq_room prq x \<longleftrightarrow> (PRQ_set_index_fn prq \<noteq> None \<longrightarrow> x \<notin># prq_elems prq) \<and> PRQ_size prq < 1073741823 \<and>
     (PRQ_size prq = PRQ_allocated_size prq \<longrightarrow> PRQ_size prq * PRQ_expansion_factor prq < 2147483648)"

interpretation prq: priority_queue "keyed_inv key" prq_elems prq_room PRQ_Insert PRQ_Delete_Top
    "\<lambda>x y. key x < key y" for key :: "'a \<Rightarrow> 'k::linorder"
proof
  fix q :: "('a, 'a \<Rightarrow> int) PRQ" and x
  assume "keyed_inv key q" and "prq_room q x"
  then show "\<exists>q'. PRQ_Insert q x = Inr q' \<and> keyed_inv key q' \<and> prq_elems q' = add_mset x (prq_elems q)"
    using keyed.PRQ_Insert_ok [of key q x] by (simp add: prq_room_def)
next
  fix q :: "('a, 'a \<Rightarrow> int) PRQ"
  assume q: "keyed_inv key q" "prq_elems q \<noteq> {#}"
  then show "\<exists>q' x. PRQ_Delete_Top q = Inr (q', x) \<and> keyed_inv key q' \<and> prq_elems q = add_mset x (prq_elems q') \<and>
      (\<forall>y \<in># prq_elems q. \<not> key y < key x)"
    using keyed.PRQ_Delete_Top_ok [OF q] keyed.PRQ_Top_ok [OF q] by (metis sum.inject(2))
qed

end
