(* ===== verification/Priority_Queue_Properties.thy ===== *)
theory Priority_Queue_Properties
  imports Priority_Queue
begin

text \<open>
  The properties of the priority queue. The client's comparison and index functions are
  parameters: \<open>prq_client cmp getf setf\<close> says that the comparison is a strict weak order and that
  the index a client stored for an element is the one it returns for it. \<open>prq_inv\<close> is the
  invariant of the queue and \<open>prq_elems\<close> the multiset it holds. The witnesses take natural numbers
  ordered by size, with the indices kept in a map of the client.
\<close>

lemmas client_witness = keyed.prq_client_axioms [where key = "\<lambda>n :: nat. n"]

definition example_pool :: "nat vector_pool" where
  "example_pool = \<lparr>TYPE_MEM_POOL_ALLOC_N = (\<lambda>n. replicate n 0),
     TYPE_MEM_POOL_REALLOC_N = (\<lambda>v n. take n v @ replicate (n - length v) 0)\<rparr>"

definition example_prq :: "(nat, nat \<Rightarrow> int) PRQ" where
  "example_prq = PRQ_Initialize (<) (Some (\<lambda>w x. w x)) (Some (\<lambda>x i w. w(x := i))) example_pool 2 150 (\<lambda>_. 0)"

lemma example_pool_ok: "pool_ok example_pool"
  by (simp add: pool_ok_def example_pool_def)

lemma example_prq_ok:
  "prq_inv (<) (\<lambda>w x. w x) (\<lambda>x i w. w(x := i)) example_prq" "prq_elems example_prq = {#}"
  unfolding example_prq_def by (rule PRQ_Initialize_ok [OF example_pool_ok]; simp)+

lemma example_fields:
  "PRQ_size example_prq = 0" "PRQ_allocated_size example_prq = 2" "PRQ_Size example_prq = 0"
  by (simp_all add: example_prq_def PRQ_Initialize_def PRQ_Size_def)

lemma example_one:
  "\<exists>q. PRQ_Insert example_prq 7 = Inr q \<and> prq_inv (<) (\<lambda>w x. w x) (\<lambda>x i w. w(x := i)) q \<and> prq_elems q = {#7#}"
  using keyed.PRQ_Insert_ok [OF example_prq_ok(1), of 7]
  by (simp add: example_prq_ok(2) example_fields)

section \<open>The operations\<close>

text \<open>
  C35: insertion. On a queue that satisfies the invariant \<^verbatim>\<open>PRQ_Insert\<close> succeeds, restores the
  invariant with the element added, and increases the size by one, also when the vector has to be
  reallocated; with index functions the element must not be in the queue yet.
\<close>

theorem insertion:
  assumes "prq_client cmp getf setf" and "prq_inv cmp getf setf prq"
    and "PRQ_set_index_fn prq \<noteq> None \<longrightarrow> x \<notin># prq_elems prq" and "PRQ_size prq < 1073741823"
    and "PRQ_size prq = PRQ_allocated_size prq \<longrightarrow> PRQ_size prq * PRQ_expansion_factor prq < 2147483648"
  shows "\<exists>prq'. PRQ_Insert prq x = Inr prq' \<and> prq_inv cmp getf setf prq' \<and>
    prq_elems prq' = add_mset x (prq_elems prq) \<and> PRQ_Size prq' = PRQ_Size prq + 1"
proof -
  have full: "PRQ_size prq = PRQ_allocated_size prq \<Longrightarrow> PRQ_size prq * PRQ_expansion_factor prq < 2147483648"
    using assms(5) by blast
  from prq_client.PRQ_Insert_ok [OF assms(1,2,3,4) full] show ?thesis
    using size_elems [OF assms(2)] size_elems by fastforce
qed

theorem insertion_witness:
  "\<exists>prq'. PRQ_Insert example_prq 7 = Inr prq' \<and> prq_elems prq' = add_mset 7 {#} \<and> PRQ_Size prq' = 1"
  using insertion [OF client_witness example_prq_ok(1), of 7]
  by (auto simp: example_prq_ok(2) example_fields)

text \<open>
  C4: deletion of the top. On a queue that is not empty \<^verbatim>\<open>PRQ_Delete_Top\<close> returns the element
  \<^verbatim>\<open>PRQ_Top\<close> shows, which no element precedes, and leaves a queue with exactly the others.
\<close>

theorem deletion_of_top:
  assumes "prq_client cmp getf setf" and "prq_inv cmp getf setf prq" and "prq_elems prq \<noteq> {#}"
  shows "\<exists>prq' x. PRQ_Delete_Top prq = Inr (prq', x) \<and> PRQ_Top prq = Inr x \<and>
    (\<forall>y \<in># prq_elems prq. \<not> cmp y x) \<and> prq_inv cmp getf setf prq' \<and>
    prq_elems prq = add_mset x (prq_elems prq')"
  using prq_client.PRQ_Delete_Top_ok [OF assms] prq_client.PRQ_Top_ok [OF assms] by fastforce

theorem deletion_of_top_witness:
  "\<exists>q. PRQ_Insert example_prq 7 = Inr q \<and>
     (\<exists>prq' x. PRQ_Delete_Top q = Inr (prq', x) \<and> PRQ_Top q = Inr x \<and> {#7#} = add_mset x (prq_elems prq'))"
proof -
  obtain q where q: "PRQ_Insert example_prq 7 = Inr q" "prq_inv (<) (\<lambda>w x. w x) (\<lambda>x i w. w(x := i)) q"
      "prq_elems q = {#7#}"
    using example_one by blast
  then show ?thesis using deletion_of_top [OF client_witness q(2)] by auto
qed

text \<open>
  removal of an element, wherever it is in the heap, by its index or by search: one occurrence
  of it goes and the invariant is kept, whether the element moved into its place has to rise or to
  sink.
\<close>

theorem removal:
  assumes "prq_client cmp getf setf" and "prq_inv cmp getf setf prq" and "x \<in># prq_elems prq"
  shows "\<exists>prq'. PRQ_Remove prq x = Inr prq' \<and> prq_inv cmp getf setf prq' \<and>
    prq_elems prq = add_mset x (prq_elems prq') \<and> PRQ_Size prq = PRQ_Size prq' + 1"
  using prq_client.PRQ_Remove_ok [OF assms] size_elems [OF assms(2)] size_elems by fastforce

theorem removal_witness:
  "\<exists>q. PRQ_Insert example_prq 7 = Inr q \<and>
     (\<exists>prq'. PRQ_Remove q 7 = Inr prq' \<and> {#7#} = add_mset 7 (prq_elems prq'))"
proof -
  obtain q where q: "PRQ_Insert example_prq 7 = Inr q" "prq_inv (<) (\<lambda>w x. w x) (\<lambda>x i w. w(x := i)) q"
      "prq_elems q = {#7#}"
    using example_one by blast
  then show ?thesis using removal [OF client_witness q(2), of 7] by auto
qed

text \<open>
  C36: the sorting property of the queue. Deleting the top as many times as there are elements
  empties the queue and gives all its elements in the order of their keys.
\<close>

theorem draining_sorts:
  fixes key :: "'a \<Rightarrow> 'k::linorder"
  assumes "prq_inv (\<lambda>x y. key x < key y) (\<lambda>w x. w x) (\<lambda>x i w. w(x := i)) prq"
  shows "\<exists>prq' xs. drain PRQ_Delete_Top (size (prq_elems prq)) prq = Inr (prq', xs) \<and>
    prq_elems prq' = {#} \<and> mset xs = prq_elems prq \<and> sorted (map key xs)"
  using prq.drain_sorts [OF assms refl] by (auto simp: sorted_wrt_map not_less)

theorem draining_sorts_witness:
  "\<exists>q. PRQ_Insert example_prq 7 = Inr q \<and>
     (\<exists>prq' xs. drain PRQ_Delete_Top 1 q = Inr (prq', xs) \<and> prq_elems prq' = {#} \<and> mset xs = {#7#} \<and>
       sorted (map (\<lambda>n. n) xs))"
proof -
  obtain q where q: "PRQ_Insert example_prq 7 = Inr q" "prq_inv (<) (\<lambda>w x. w x) (\<lambda>x i w. w(x := i)) q"
      "prq_elems q = {#7#}"
    using example_one by blast
  then show ?thesis using draining_sorts [where key = "\<lambda>n :: nat. n", OF q(2)] by simp
qed

text \<open>
  initialisation and reset give an empty queue that satisfies the invariant, for every
  initial size and expansion factor: values that make no sense are replaced by 200.
\<close>

theorem initialisation:
  assumes "pool_ok pool" and "set_fn = None \<or> set_fn = Some setf"
    and "get_fn = None \<or> get_fn = Some getf \<and> set_fn = Some setf" and "prq_inv cmp getf setf prq"
  shows "prq_inv cmp getf setf (PRQ_Initialize cmp get_fn set_fn pool n f w) \<and>
    prq_elems (PRQ_Initialize cmp get_fn set_fn pool n f w) = {#} \<and>
    prq_inv cmp getf setf (PRQ_Reset prq) \<and> prq_elems (PRQ_Reset prq) = {#}"
  using PRQ_Initialize_ok [OF assms(1-3)] PRQ_Reset_ok [OF assms(4)] by blast

theorem initialisation_witness:
  "prq_elems (PRQ_Initialize (<) None None example_pool (- 4) 100 (\<lambda>_ :: nat. 0 :: int)) = {#} \<and>
   prq_elems (PRQ_Reset example_prq) = {#}"
  using initialisation [OF example_pool_ok _ _ example_prq_ok(1), of None None "- 4" 100 "\<lambda>_. 0"] by simp

section \<open>Errors and the view of the elements\<close>

text \<open>
  the assertions. On an empty queue \<^verbatim>\<open>PRQ_Top\<close>, \<^verbatim>\<open>PRQ_Delete_Top\<close> and \<^verbatim>\<open>PRQ_Remove\<close> stop at their
  assertion, and \<^verbatim>\<open>PRQ_Remove\<close> by search stops at its assertion on an element that is not there.
\<close>

theorem misuse_is_caught:
  assumes "prq_client cmp getf setf" and "prq_inv cmp getf setf prq" and "PRQ_get_index_fn prq = None"
    and "x \<notin># prq_elems prq"
  shows "PRQ_Remove prq x = Inl FmtAssert_Failed \<and>
    PRQ_Top (PRQ_Reset prq) = Inl FmtAssert_Failed \<and> PRQ_Delete_Top (PRQ_Reset prq) = Inl FmtAssert_Failed \<and>
    PRQ_Remove (PRQ_Reset prq) x = Inl FmtAssert_Failed"
  using prq_client.PRQ_Remove_absent [OF assms]
  by (simp add: PRQ_Top_def PRQ_Delete_Top_def PRQ_Remove_def PRQ_Reset_def FmtAssert_def)

theorem misuse_is_caught_witness:
  "PRQ_Remove (PRQ_Initialize (<) None None example_pool 4 200 (\<lambda>_ :: nat. 0 :: int)) 9 = Inl FmtAssert_Failed"
proof -
  let ?q = "PRQ_Initialize (<) None None example_pool 4 200 (\<lambda>_ :: nat. 0 :: int)"
  have q: "prq_inv (<) (\<lambda>w x. w x) (\<lambda>x i w. w(x := i)) ?q" "prq_elems ?q = {#}"
    by (rule PRQ_Initialize_ok [OF example_pool_ok]; simp)+
  show ?thesis
    by (rule misuse_is_caught [OF client_witness q(1), THEN conjunct1]) (simp add: PRQ_Initialize_def, simp add: q(2))
qed

text \<open>
  positions. \<^verbatim>\<open>PRQ_Ith\<close> lists the elements at the positions from 1 to the size, and with index
  functions the client's index of an element is its position; position 0 is before the vector.
\<close>

theorem positions:
  assumes "prq_inv cmp getf setf prq"
  shows "(\<exists>xs. map (PRQ_Ith prq) [1..PRQ_Size prq] = map Inr xs \<and> mset xs = prq_elems prq \<and>
      (PRQ_set_index_fn prq \<noteq> None \<longrightarrow> map (getf (PRQ_client prq)) xs = [1..PRQ_Size prq])) \<and>
    PRQ_Ith prq 0 = Inl Out_Of_Bounds"
proof
  let ?xs = "take (nat (PRQ_size prq)) (PRQ_heap_vector prq)"
  have len: "PRQ_size prq \<le> int (length (PRQ_heap_vector prq))" using assms by (simp add: prq_inv_def)
  have "map (PRQ_Ith prq) [1..PRQ_Size prq] = map Inr ?xs"
    by (rule nth_equalityI) (use len in \<open>auto simp: PRQ_Size_def PRQ_Ith_def\<close>)
  moreover have "map (getf (PRQ_client prq)) ?xs = [1..PRQ_Size prq]" if "PRQ_set_index_fn prq \<noteq> None"
  proof (rule nth_equalityI)
    fix i assume i: "i < length (map (getf (PRQ_client prq)) ?xs)"
    have "getf (PRQ_client prq) (vec_elt (PRQ_heap_vector prq) (1 + int i)) = 1 + int i"
      using assms that i unfolding prq_inv_def index_ok_def by auto
    then show "map (getf (PRQ_client prq)) ?xs ! i = [1..PRQ_Size prq] ! i"
      using i by (auto simp: vec_elt_def PRQ_Size_def)
  qed (use len in \<open>simp add: PRQ_Size_def\<close>)
  ultimately show "\<exists>xs. map (PRQ_Ith prq) [1..PRQ_Size prq] = map Inr xs \<and> mset xs = prq_elems prq \<and>
      (PRQ_set_index_fn prq \<noteq> None \<longrightarrow> map (getf (PRQ_client prq)) xs = [1..PRQ_Size prq])"
    by (intro exI [of _ ?xs]) (simp add: prq_elems_def)
qed (simp add: PRQ_Ith_def)

theorem positions_witness:
  "(\<exists>xs. map (PRQ_Ith example_prq) [1..PRQ_Size example_prq] = map Inr xs \<and> mset xs = {#}) \<and>
   PRQ_Ith example_prq 0 = Inl Out_Of_Bounds"
  using positions [OF example_prq_ok(1)] by (auto simp: example_prq_ok(2))

text \<open>
  the limit of growth. A full queue is enlarged by the expansion factor in percent; when the
  product of size and factor exceeds a 32-bit integer the multiplication overflows, with the
  default factor from ten million elements on.
\<close>

theorem growth_overflows:
  assumes "PRQ_size prq = PRQ_allocated_size prq" and "2147483648 \<le> PRQ_size prq * PRQ_expansion_factor prq"
  shows "PRQ_Insert prq x = Inl Signed_Overflow"
  using assms by (simp add: PRQ_Insert_def int32_def)

theorem growth_overflows_witness:
  "PRQ_Insert (PRQ_Initialize (<) None None example_pool 10737419 200 (\<lambda>_ :: nat. 0 :: int)
     \<lparr>PRQ_size := 10737419\<rparr>) 1 = Inl Signed_Overflow"
  by (rule growth_overflows) (simp_all add: PRQ_Initialize_def)

end
