(* ===== verification/Omp_Loop.thy ===== *)
theory Omp_Loop
  imports Path64_Prelude
begin

unbundle bit_operations_syntax

text \<open>
  The loop descriptors of the OpenMP runtime: \<^verbatim>\<open>libopenmp/types.h\<close>, \<^verbatim>\<open>loop.h\<close> and \<^verbatim>\<open>loop.c\<close>. A
  descriptor holds the bounds of a worksharing loop, the position up to which iterations have been
  handed out and the iteration whose ordered region may run; a team has a ring of descriptors. With
  checking enabled the runtime counts how often each iteration is executed.

  Signed 64-bit arithmetic is checked: a computation that leaves its range is the error
  \<open>Signed_Overflow\<close>. A loop that spins until another thread acts is \<open>Diverges\<close> when the condition it
  waits for does not hold in the state it is given.
\<close>

section \<open>State\<close>

record pmp_param =
  param_check :: bool
  static_fair :: bool
  runtime_chunk :: int
  runtime_schedule :: int
  guided_chunk_divisor :: int
  guided_chunk_max :: int

record pmp_loop =
  loop_sched :: int
  check_last :: int
  loop_lower :: int
  loop_upper :: int
  loop_inc :: int
  min_chunk :: int
  check_loop :: "int list option"
  loop_chunk :: int
  loop_id :: int
  looping_threads :: int
  now_serving :: int
  loop_current :: int

record pmp_team =
  team_size :: int
  team_loops :: "pmp_loop list"
  team_loop_count :: "32 word"

record pmp_thread =
  local_id :: int
  in_team :: bool
  thread_loop_count :: "32 word"
  iteration :: int
  ticket_number :: int
  thread_loop :: "nat option"

definition PMP_MAX_THREADS :: int where
  "PMP_MAX_THREADS = 256"

definition PMP_LOOP_UNUSED :: int where
  "PMP_LOOP_UNUSED = -1"

definition PMP_LOG2_LOOPS :: nat where
  "PMP_LOG2_LOOPS = 4"

definition PMP_MAX_LOOPS :: nat where
  "PMP_MAX_LOOPS = 2 ^ PMP_LOG2_LOOPS"

definition PMP_MASK_LOOP_ID :: "32 word" where
  "PMP_MASK_LOOP_ID = 0x7FFFFFFF"

definition PMP_MASK_LOOP_INDEX :: "32 word" where
  "PMP_MASK_LOOP_INDEX = word_of_nat PMP_MAX_LOOPS - 1"

definition pmp_get_team_size :: "pmp_thread \<Rightarrow> pmp_team \<Rightarrow> int" where
  "pmp_get_team_size thread team = (if in_team thread then team_size team else 1)"

section \<open>The execution counts of a checked loop\<close>

text \<open>\<^verbatim>\<open>(upper - lower) / inc + 1\<close>, the trip count as the runtime computes it.\<close>

definition trip_count :: "int \<Rightarrow> int \<Rightarrow> int \<Rightarrow> int res" where
  "trip_count lower upper inc =
     bindE (int64 (upper - lower)) (\<lambda>d. bindE (div64 d inc) (\<lambda>q. int64 (q + 1)))"

definition pmp_start_check :: "bool \<Rightarrow> pmp_loop \<Rightarrow> pmp_loop res" where
  "pmp_start_check check loop =
     (if \<not> check then Inr loop
      else
        bindE (assertC (check_loop loop = None)) (\<lambda>_.
        bindE (trip_count (loop_lower loop) (loop_upper loop) (loop_inc loop)) (\<lambda>trip.
        if trip < 0 then Inl Pmp_Fatal
        else Inr (loop\<lparr>check_loop := Some (replicate (nat trip) 0), check_last := 0\<rparr>))))"

definition pmp_loop_check :: "bool \<Rightarrow> pmp_loop \<Rightarrow> int \<Rightarrow> pmp_loop res" where
  "pmp_loop_check check loop val =
     (if \<not> check then Inr loop
      else case check_loop loop of
        None \<Rightarrow> Inl Assert_Failed
      | Some counts \<Rightarrow>
          bindE (assertC (if loop_inc loop \<ge> 0 then val \<ge> loop_lower loop \<and> val \<le> loop_upper loop
                          else val \<ge> loop_upper loop \<and> val \<le> loop_lower loop)) (\<lambda>_.
          bindE (int64 (val - loop_lower loop)) (\<lambda>d.
          bindE (if loop_inc loop = 0 then Inl Division_By_Zero else Inr ()) (\<lambda>_.
          bindE (assertC (d smod loop_inc loop = 0)) (\<lambda>_.
          bindE (div64 d (loop_inc loop)) (\<lambda>index.
          if 0 \<le> index \<and> index < int (length counts)
          then Inr (loop\<lparr>check_loop := Some (counts[nat index := s32 (counts ! nat index + 1)])\<rparr>)
          else Inl Out_Of_Bounds))))))"

definition pmp_last_check :: "bool \<Rightarrow> pmp_loop \<Rightarrow> pmp_loop res" where
  "pmp_last_check check loop =
     (if \<not> check then Inr loop else Inr (loop\<lparr>check_last := s32 (check_last loop + 1)\<rparr>))"

text \<open>
  The warnings go to standard error; the model collects them. \<open>pmp_warnings\<close> is the static counter
  \<^verbatim>\<open>__pmp_check_warnings\<close> with the warnings printed so far.
\<close>

datatype pmp_warning =
    Iterations_Warning int int int int int int
  | Loop_Warning int int int int int int
  | Last_Warning int
  | Too_Many_Warning

type_synonym pmp_warnings = "int \<times> pmp_warning list"

definition PMP_MAX_CHECK_WARNINGS :: int where
  "PMP_MAX_CHECK_WARNINGS = 1000"

definition pmp_warn :: "pmp_warning list \<Rightarrow> pmp_warnings \<Rightarrow> pmp_warnings" where
  "pmp_warn ws st =
     (let (check_warnings, out) = st in
      (check_warnings + 1,
       if check_warnings < PMP_MAX_CHECK_WARNINGS then out @ ws
       else if check_warnings = PMP_MAX_CHECK_WARNINGS then out @ [Too_Many_Warning]
       else out))"

definition pmp_warn_check ::
    "pmp_loop \<Rightarrow> int \<Rightarrow> int \<Rightarrow> int \<Rightarrow> int \<Rightarrow> int \<Rightarrow> int \<Rightarrow> int \<Rightarrow> pmp_warnings \<Rightarrow> pmp_warnings" where
  "pmp_warn_check loop first_index last_index first_value last_value trip team_sz check =
     pmp_warn [Iterations_Warning first_index last_index first_value last_value trip check,
       Loop_Warning team_sz (loop_sched loop) (loop_lower loop) (loop_upper loop) (loop_inc loop) (loop_chunk loop)]"

text \<open>The loop of \<^verbatim>\<open>__pmp_stop_check\<close>: its state is \<open>(warn, warn_first, warn_check)\<close> and the warnings.\<close>

definition stop_check_step ::
    "pmp_loop \<Rightarrow> int \<Rightarrow> int \<Rightarrow> int list \<Rightarrow> int \<Rightarrow> (bool \<times> int \<times> int) \<times> pmp_warnings \<Rightarrow>
     ((bool \<times> int \<times> int) \<times> pmp_warnings) res" where
  "stop_check_step loop trip team_sz counts i st =
     (let ((warn, warn_first, warn_check), ws) = st;
          report = pmp_warn_check loop warn_first (i - 1) (loop_lower loop + warn_first * loop_inc loop)
            (loop_lower loop + (i - 1) * loop_inc loop) trip team_sz warn_check ws in
      if \<not> (0 \<le> i \<and> i < int (length counts)) then Inl Out_Of_Bounds
      else let c = counts ! nat i in
        Inr (if c \<noteq> 1
             then if \<not> warn then ((True, i, c), ws)
                  else if warn_check \<noteq> c then ((warn, i, c), report)
                  else st
             else if warn then ((False, warn_first, warn_check), report)
             else st))"

definition pmp_stop_check :: "bool \<Rightarrow> pmp_loop \<Rightarrow> int \<Rightarrow> pmp_warnings \<Rightarrow> (pmp_loop \<times> pmp_warnings) res" where
  "pmp_stop_check check loop team_sz ws =
     (if \<not> check then Inr (loop, ws)
      else case check_loop loop of
        None \<Rightarrow> Inl Assert_Failed
      | Some counts \<Rightarrow>
          bindE (trip_count (loop_lower loop) (loop_upper loop) (loop_inc loop)) (\<lambda>trip.
          bindE (for_loop 0 trip (stop_check_step loop trip team_sz counts) ((False, 0, 0), ws))
            (\<lambda>((warn, warn_first, warn_check), ws).
          let ws = (if warn
                    then pmp_warn_check loop warn_first (trip - 1) (loop_lower loop + warn_first * loop_inc loop)
                      (loop_lower loop + (trip - 1) * loop_inc loop) trip team_sz warn_check ws
                    else ws);
              ws = (if check_last loop \<noteq> 1 then pmp_warn [Last_Warning (check_last loop)] ws else ws) in
          Inr (loop\<lparr>check_loop := None\<rparr>, ws))))"

section \<open>Allocation and release of a descriptor\<close>

definition pmp_loop_init :: "pmp_loop \<Rightarrow> pmp_loop" where
  "pmp_loop_init loop = loop\<lparr>loop_id := PMP_LOOP_UNUSED, check_last := 0, check_loop := None\<rparr>"

text \<open>
  \<^verbatim>\<open>__pmp_loop_alloc\<close> in its atomic parts: \<open>alloc_enter\<close> is the compare-and-exchange on the team's loop
  counter that makes one thread of the team the first to reach the loop; \<open>alloc_ready\<close> is the condition
  its spin loop waits for; \<open>alloc_fill\<close> are the assignments of the first thread, ended by the store of
  the loop identifier that the other threads wait for.
\<close>

definition loop_identifier :: "32 word \<Rightarrow> int" where
  "loop_identifier count = uint (count AND PMP_MASK_LOOP_ID)"

definition loop_index :: "pmp_thread \<Rightarrow> nat" where
  "loop_index thread = (if in_team thread then unat (thread_loop_count thread AND PMP_MASK_LOOP_INDEX) else 0)"

definition alloc_enter :: "pmp_thread \<Rightarrow> pmp_team \<Rightarrow> bool \<times> pmp_thread \<times> pmp_team" where
  "alloc_enter thread team =
     (let thread_count = thread_loop_count thread;
          team_count = (if in_team thread then team_loop_count team else thread_count);
          team = (if in_team thread \<and> team_count = thread_count
                  then team\<lparr>team_loop_count := thread_count + 1\<rparr> else team) in
      (thread_count = team_count, thread\<lparr>thread_loop_count := thread_count + 1\<rparr>, team))"

definition alloc_ready :: "bool \<Rightarrow> 32 word \<Rightarrow> pmp_loop \<Rightarrow> bool" where
  "alloc_ready first thread_count loop =
     (if first then loop_id loop = PMP_LOOP_UNUSED else loop_id loop = loop_identifier thread_count)"

definition alloc_fill ::
    "bool \<Rightarrow> int \<Rightarrow> 32 word \<Rightarrow> int \<Rightarrow> int \<Rightarrow> int \<Rightarrow> int \<Rightarrow> int \<Rightarrow> int \<Rightarrow> pmp_loop \<Rightarrow> pmp_loop res" where
  "alloc_fill check team_sz thread_count sched lower upper inc chunk min_chunk_arg loop =
     bindE (pmp_start_check check (loop\<lparr>looping_threads := team_sz, now_serving := lower, loop_sched := sched,
       loop_lower := lower, loop_upper := upper, loop_inc := inc, loop_chunk := chunk, loop_current := lower,
       min_chunk := min_chunk_arg\<rparr>)) (\<lambda>loop.
     bindE (assertC (loop_id loop = PMP_LOOP_UNUSED)) (\<lambda>_.
     Inr (loop\<lparr>loop_id := loop_identifier thread_count\<rparr>)))"

definition pmp_loop_alloc ::
    "pmp_param \<Rightarrow> pmp_thread \<Rightarrow> pmp_team \<Rightarrow> int \<Rightarrow> int \<Rightarrow> int \<Rightarrow> int \<Rightarrow> int \<Rightarrow> int \<Rightarrow> (pmp_thread \<times> pmp_team) res" where
  "pmp_loop_alloc param thread team sched lower upper inc chunk min_chunk_arg =
     bindE (assertC (thread_loop thread = None)) (\<lambda>_.
     let thread_count = thread_loop_count thread; i = loop_index thread; team_sz = pmp_get_team_size thread team;
         (first, thread, team) = alloc_enter thread team in
     if \<not> i < length (team_loops team) then Inl Out_Of_Bounds
     else let loop = team_loops team ! i in
       bindE (assertC (first \<longrightarrow> loop_id loop \<noteq> loop_identifier thread_count)) (\<lambda>_.
       if \<not> alloc_ready first thread_count loop then Inl Diverges
       else
         bindE (if first
                then alloc_fill (param_check param) team_sz thread_count sched lower upper inc chunk min_chunk_arg loop
                else Inr loop) (\<lambda>loop.
         Inr (thread\<lparr>thread_loop := Some i\<rparr>, team\<lparr>team_loops := (team_loops team)[i := loop]\<rparr>))))"

definition pmp_loop_free ::
    "pmp_param \<Rightarrow> pmp_thread \<Rightarrow> pmp_team \<Rightarrow> pmp_warnings \<Rightarrow> (pmp_thread \<times> pmp_team \<times> pmp_warnings) res" where
  "pmp_loop_free param thread team ws =
     (case thread_loop thread of
        None \<Rightarrow> Inl Out_Of_Bounds
      | Some i \<Rightarrow>
          if \<not> i < length (team_loops team) then Inl Out_Of_Bounds
          else let loop = team_loops team ! i in
            bindE (assertC (loop_id loop = loop_identifier (thread_loop_count thread - 1))) (\<lambda>_.
            let count = looping_threads loop; loop = loop\<lparr>looping_threads := s32 (count - 1)\<rparr> in
            bindE (assertC (count \<ge> 1)) (\<lambda>_.
            bindE (if count = 1
                   then bindE (pmp_stop_check (param_check param) loop (pmp_get_team_size thread team) ws) (\<lambda>(loop, ws).
                        Inr (loop\<lparr>loop_id := PMP_LOOP_UNUSED\<rparr>, ws))
                   else Inr (loop, ws)) (\<lambda>(loop, ws).
            Inr (thread\<lparr>thread_loop := None\<rparr>, team\<lparr>team_loops := (team_loops team)[i := loop]\<rparr>, ws)))))"

end
