(* ===== verification/Omp_Schedule.thy ===== *)
theory Omp_Schedule
  imports Omp_Loop
begin

unbundle bit_operations_syntax

text \<open>
  The loop scheduler of the OpenMP runtime, \<^verbatim>\<open>libopenmp/schedule.c\<close>: the division of a loop among the
  threads of a team. \<open>pmp_static_init\<close> serves statically scheduled loops in one call;
  \<open>pmp_scheduler_init\<close> and \<open>pmp_schedule_next\<close> serve all others chunk by chunk; \<open>ompc_ordered\<close> and
  \<open>ompc_end_ordered\<close> bracket the ordered region of an iteration. The model is that of a 64-bit machine;
  debug output and the profile counters are left out.
\<close>

section \<open>Constants and macros\<close>

definition PMP_SCHED_STATIC :: int where "PMP_SCHED_STATIC = 1"
definition PMP_SCHED_STATIC_EVEN :: int where "PMP_SCHED_STATIC_EVEN = 2"
definition PMP_SCHED_DYNAMIC :: int where "PMP_SCHED_DYNAMIC = 3"
definition PMP_SCHED_GUIDED :: int where "PMP_SCHED_GUIDED = 4"
definition PMP_SCHED_RUNTIME :: int where "PMP_SCHED_RUNTIME = 5"
definition PMP_SCHED_ORDERED_STATIC :: int where "PMP_SCHED_ORDERED_STATIC = 33"
definition PMP_SCHED_ORDERED_STATIC_EVEN :: int where "PMP_SCHED_ORDERED_STATIC_EVEN = 34"
definition PMP_SCHED_ORDERED_DYNAMIC :: int where "PMP_SCHED_ORDERED_DYNAMIC = 35"
definition PMP_SCHED_ORDERED_GUIDED :: int where "PMP_SCHED_ORDERED_GUIDED = 36"
definition PMP_SCHED_ORDERED_RUNTIME :: int where "PMP_SCHED_ORDERED_RUNTIME = 37"

definition PMP_SCHED_ORDERED_OFFSET :: int where
  "PMP_SCHED_ORDERED_OFFSET = PMP_SCHED_ORDERED_STATIC - PMP_SCHED_STATIC"

lemmas sched_defs = PMP_SCHED_STATIC_def PMP_SCHED_STATIC_EVEN_def PMP_SCHED_DYNAMIC_def PMP_SCHED_GUIDED_def
  PMP_SCHED_RUNTIME_def PMP_SCHED_ORDERED_STATIC_def PMP_SCHED_ORDERED_STATIC_EVEN_def
  PMP_SCHED_ORDERED_DYNAMIC_def PMP_SCHED_ORDERED_GUIDED_def PMP_SCHED_ORDERED_RUNTIME_def
  PMP_SCHED_ORDERED_OFFSET_def

definition LOOPMIN :: "int \<Rightarrow> int \<Rightarrow> int \<Rightarrow> int" where
  "LOOPMIN i a b = (if i \<ge> 0 then min a b else max a b)"

text \<open>\<^verbatim>\<open>(inc >= 0) ? (a <= b) : (a >= b)\<close>: position \<open>a\<close> is not past \<open>b\<close> in the direction of the loop.\<close>

definition loop_within :: "int \<Rightarrow> int \<Rightarrow> int \<Rightarrow> bool" where
  "loop_within inc a b = (if inc \<ge> 0 then a \<le> b else a \<ge> b)"

section \<open>The walk of a checked loop\<close>

text \<open>
  With checking enabled the runtime walks through the iterations a thread is about to execute, as
  the compiled loop does, and counts each of them.
\<close>

function analyser_inner :: "bool \<Rightarrow> int \<Rightarrow> int \<Rightarrow> int \<Rightarrow> int \<Rightarrow> int \<Rightarrow> pmp_loop \<Rightarrow> (int \<times> pmp_loop) res" where
  "analyser_inner check inc chunk my_upper i inner loop =
     (if i < chunk \<and> loop_within inc inner my_upper
      then bindE (pmp_loop_check check loop inner) (\<lambda>loop.
           bindE (int64 (inner + inc)) (\<lambda>inner.
           analyser_inner check inc chunk my_upper (i + 1) inner loop))
      else Inr (inner, loop))"
  by pat_completeness auto
termination
  by (relation "measure (\<lambda>(check, inc, chunk, my_upper, i, inner, loop). nat (chunk - i))") auto

function analyser_outer :: "bool \<Rightarrow> int \<Rightarrow> int \<Rightarrow> int \<Rightarrow> int \<Rightarrow> int \<Rightarrow> int \<Rightarrow> pmp_loop \<Rightarrow> pmp_loop res" where
  "analyser_outer check inc chunk stride upper outer my_upper loop =
     (if \<not> loop_within inc outer upper then Inr loop
      else
        bindE (analyser_inner check inc chunk my_upper 0 outer loop) (\<lambda>(inner, loop).
        bindE (if \<not> loop_within inc inner upper then pmp_last_check check loop else Inr loop) (\<lambda>loop.
        if stride = 0 then Inr loop
        else if \<not> (if inc \<ge> 0 then stride > 0 else stride < 0) then Inl Diverges
        else
          bindE (int64 (outer + stride)) (\<lambda>outer'.
          bindE (int64 (my_upper + stride)) (\<lambda>my_upper'.
          analyser_outer check inc chunk stride upper outer' (LOOPMIN inc my_upper' upper) loop)))))"
  by pat_completeness auto
termination
  by (relation "measure (\<lambda>(check, inc, chunk, stride, upper, outer, my_upper, loop).
        nat (if inc \<ge> 0 then upper + 1 - outer else outer + 1 - upper))")
    (auto simp: loop_within_def dest!: int64_Inr split: if_splits)

definition pmp_loop_analyser ::
    "pmp_param \<Rightarrow> pmp_thread \<Rightarrow> pmp_team \<Rightarrow> pmp_warnings \<Rightarrow> int \<Rightarrow> int \<Rightarrow> int \<Rightarrow> int \<Rightarrow> int \<Rightarrow> int \<Rightarrow> int \<Rightarrow> int \<Rightarrow>
     (pmp_thread \<times> pmp_team \<times> pmp_warnings) res" where
  "pmp_loop_analyser param thread team ws sched lower upper my_lower my_upper inc chunk stride =
     (if \<not> param_check param then Inr (thread, team, ws)
      else
        bindE (if chunk = 0 \<and> stride = 0 then trip_count my_lower my_upper inc else Inr chunk) (\<lambda>chunk.
        bindE (assertC (inc \<noteq> 0 \<and> chunk \<noteq> 0)) (\<lambda>_.
        bindE (assertC (inc > 0 \<and> stride \<ge> 0 \<or> inc < 0 \<and> stride \<le> 0)) (\<lambda>_.
        let allocated = (thread_loop thread = None) in
        bindE (if allocated then pmp_loop_alloc param thread team sched lower upper inc chunk chunk
               else Inr (thread, team)) (\<lambda>(thread, team).
        bindE (if loop_within inc my_lower my_upper
               then bindE (assertC (if inc \<ge> 0 then lower \<le> my_lower \<and> my_lower \<le> my_upper \<and> my_upper \<le> upper
                                    else upper \<le> my_upper \<and> my_upper \<le> my_lower \<and> my_lower \<le> lower)) (\<lambda>_.
                    case thread_loop thread of
                      None \<Rightarrow> Inl Out_Of_Bounds
                    | Some i \<Rightarrow>
                        if \<not> i < length (team_loops team) then Inl Out_Of_Bounds
                        else bindE (analyser_outer True inc chunk stride upper my_lower my_upper (team_loops team ! i))
                             (\<lambda>loop. Inr (team\<lparr>team_loops := (team_loops team)[i := loop]\<rparr>)))
               else Inr team) (\<lambda>team.
        if allocated then pmp_loop_free param thread team ws else Inr (thread, team, ws)))))))"

section \<open>Static schedules\<close>

text \<open>The first iteration and the chunk of a thread in an even division, rounded up or fair.\<close>

definition static_even_start :: "int \<Rightarrow> int \<Rightarrow> int \<Rightarrow> int \<Rightarrow> int \<Rightarrow> (int \<times> int) res" where
  "static_even_start team_sz lid lower inc trip =
     bindE (int64 (trip + team_sz)) (\<lambda>s. bindE (div64 (s - 1) team_sz) (\<lambda>chunk.
     bindE (int64 (lid * chunk)) (\<lambda>p. bindE (int64 (p * inc)) (\<lambda>p.
     bindE (int64 (lower + p)) (\<lambda>my_lower. Inr (my_lower, chunk))))))"

definition static_fair_start :: "int \<Rightarrow> int \<Rightarrow> int \<Rightarrow> int \<Rightarrow> int \<Rightarrow> (int \<times> int) res" where
  "static_fair_start team_sz lid lower inc trip =
     bindE (div64 trip team_sz) (\<lambda>chunk.
     bindE (int64 (chunk * team_sz)) (\<lambda>p. bindE (int64 (trip - p)) (\<lambda>remainder.
     bindE (int64 (chunk + 1)) (\<lambda>c. bindE (int64 (min lid remainder * c)) (\<lambda>index.
     bindE (if lid > remainder
            then bindE (int64 ((lid - remainder) * chunk)) (\<lambda>q. int64 (index + q)) else Inr index) (\<lambda>index.
     bindE (int64 (index * inc)) (\<lambda>p. bindE (int64 (lower + p)) (\<lambda>my_lower.
     Inr (my_lower, chunk + (if lid < remainder then 1 else 0))))))))))"

text \<open>
  The bounds of a thread whose first iteration is \<open>my_lower\<close>; a thread without iterations gets an
  empty range that does not reach the upper bound.
\<close>

definition static_bounds :: "int \<Rightarrow> int \<Rightarrow> int \<Rightarrow> int \<Rightarrow> int \<Rightarrow> int res \<Rightarrow> (int \<times> int \<times> int) res" where
  "static_bounds lower upper inc my_lower chunk stride =
     (if loop_within inc my_lower upper
      then bindE (int64 ((chunk - 1) * inc)) (\<lambda>p. bindE (int64 (my_lower + p)) (\<lambda>last.
           bindE stride (\<lambda>stride. Inr (my_lower, LOOPMIN inc last upper, stride))))
      else bindE (int64 (lower - inc)) (\<lambda>my_lower. bindE (int64 (my_lower - inc)) (\<lambda>my_upper.
           Inr (my_lower, my_upper, inc))))"

definition static_division ::
    "bool \<Rightarrow> int \<Rightarrow> int \<Rightarrow> int \<Rightarrow> int \<Rightarrow> int \<Rightarrow> int \<Rightarrow> int \<Rightarrow> ((int \<times> int \<times> int) \<times> int) res" where
  "static_division fair team_sz lid sched lower upper inc chunk =
     (if sched = PMP_SCHED_STATIC_EVEN
      then
        bindE (trip_count lower upper inc) (\<lambda>trip.
        bindE (assertC (trip \<ge> 0)) (\<lambda>_.
        bindE (if \<not> fair then static_even_start team_sz lid lower inc trip
               else static_fair_start team_sz lid lower inc trip) (\<lambda>(my_lower, chunk).
        bindE (static_bounds lower upper inc my_lower chunk (int64 (trip * inc))) (\<lambda>b. Inr (b, chunk)))))
      else if sched = PMP_SCHED_STATIC
      then
        bindE (int64 (chunk * inc)) (\<lambda>stride.
        bindE (int64 (lid * stride)) (\<lambda>p. bindE (int64 (lower + p)) (\<lambda>my_lower.
        bindE (static_bounds lower upper inc my_lower chunk (int64 (stride * team_sz))) (\<lambda>b. Inr (b, chunk)))))
      else Inl Pmp_Fatal)"

definition pmp_static_init ::
    "pmp_param \<Rightarrow> pmp_thread \<Rightarrow> pmp_team \<Rightarrow> pmp_warnings \<Rightarrow> int \<Rightarrow> int \<Rightarrow> int \<Rightarrow> int \<Rightarrow> int \<Rightarrow>
     ((int \<times> int \<times> int) \<times> pmp_thread \<times> pmp_team \<times> pmp_warnings) res" where
  "pmp_static_init param thread team ws sched lower upper inc chunk =
     (let team_sz = pmp_get_team_size thread team in
      bindE (assertC (team_sz > 0)) (\<lambda>_.
      if team_sz = 1
      then bindE (int64 (upper - lower)) (\<lambda>d. bindE (int64 (if inc > 0 then d + 1 else d - 1)) (\<lambda>stride.
           Inr ((lower, upper, stride), thread, team, ws)))
      else
        bindE (static_division (static_fair param) team_sz (local_id thread) sched lower upper inc chunk)
          (\<lambda>((my_lower, my_upper, stride), chunk).
        bindE (pmp_loop_analyser param thread team ws sched lower upper my_lower my_upper inc chunk stride) (\<lambda>r.
        Inr ((my_lower, my_upper, stride), r)))))"

section \<open>Loops scheduled chunk by chunk\<close>

definition pmp_scheduler_init ::
    "pmp_param \<Rightarrow> pmp_thread \<Rightarrow> pmp_team \<Rightarrow> int \<Rightarrow> int \<Rightarrow> int \<Rightarrow> int \<Rightarrow> int \<Rightarrow> (pmp_thread \<times> pmp_team) res" where
  "pmp_scheduler_init param thread team sched lower upper inc chunk =
     (let min_chunk_arg = max 1 chunk;
          (sched, chunk) =
            (if sched = PMP_SCHED_RUNTIME \<or> sched = PMP_SCHED_ORDERED_RUNTIME
             then (runtime_schedule param + (if sched = PMP_SCHED_ORDERED_RUNTIME then PMP_SCHED_ORDERED_OFFSET else 0),
                   runtime_chunk param)
             else (sched, chunk)) in
      bindE (if sched = PMP_SCHED_GUIDED \<or> sched = PMP_SCHED_ORDERED_GUIDED
             then
               bindE (int32 (pmp_get_team_size thread team * guided_chunk_divisor param)) (\<lambda>divisor.
               bindE (int64 (upper - lower)) (\<lambda>d. bindE (int64 (d + divisor)) (\<lambda>s.
               bindE (div64 s divisor) (\<lambda>chunk.
               Inr (max min_chunk_arg (min (guided_chunk_max param) chunk))))))
             else Inr chunk) (\<lambda>chunk.
      bindE (assertC (inc \<noteq> 0 \<and> chunk \<noteq> 0 \<and> min_chunk_arg \<noteq> 0)) (\<lambda>_.
      bindE (pmp_loop_alloc param thread team sched lower upper inc chunk min_chunk_arg) (\<lambda>(thread, team).
      Inr (thread\<lparr>iteration := 0\<rparr>, team)))))"

text \<open>
  The next interval of a statically scheduled loop, \<open>None\<close> when the thread has done its share: the
  contiguous block of the thread in chunks, or the block at once.
\<close>

definition next_static :: "int \<Rightarrow> int \<Rightarrow> int \<Rightarrow> pmp_loop \<Rightarrow> (int \<times> int) option res" where
  "next_static team_sz lid iter loop =
     (let lower = loop_lower loop; upper = loop_upper loop; inc = loop_inc loop; chunk = loop_chunk loop in
      bindE (trip_count lower upper inc) (\<lambda>trip.
      bindE (div64 (trip - 1) team_sz) (\<lambda>q. bindE (int64 ((q + 1) * inc)) (\<lambda>size_per_thread.
      bindE (int64 (lid * size_per_thread)) (\<lambda>p. bindE (int64 (lower + p)) (\<lambda>thread_lower.
      bindE (int64 (thread_lower + size_per_thread)) (\<lambda>s. bindE (int64 (s - inc)) (\<lambda>thread_upper.
      bindE (int64 (iter * chunk)) (\<lambda>k. bindE (int64 (k * inc)) (\<lambda>k. bindE (int64 (thread_lower + k)) (\<lambda>this_lower.
      bindE (int64 ((chunk - 1) * inc)) (\<lambda>c. bindE (int64 (this_lower + c)) (\<lambda>this_upper.
      let thread_upper = LOOPMIN inc thread_upper upper;
          this_upper = LOOPMIN inc this_upper thread_upper in
      Inr (if \<not> loop_within inc this_lower thread_upper then None else Some (this_lower, this_upper)))))))))))))))"

definition next_even :: "bool \<Rightarrow> int \<Rightarrow> int \<Rightarrow> pmp_loop \<Rightarrow> (int \<times> int) option res" where
  "next_even fair team_sz lid loop =
     (let lower = loop_lower loop; upper = loop_upper loop; inc = loop_inc loop in
      bindE (trip_count lower upper inc) (\<lambda>trip.
      bindE (if \<not> fair
             then
               bindE (div64 (trip - 1) team_sz) (\<lambda>q. bindE (int64 ((q + 1) * inc)) (\<lambda>size_per_thread.
               bindE (int64 (lid * size_per_thread)) (\<lambda>p. bindE (int64 (lower + p)) (\<lambda>thread_lower.
               bindE (int64 (thread_lower + size_per_thread)) (\<lambda>s. bindE (int64 (s - inc)) (\<lambda>thread_upper.
               Inr (thread_lower, thread_upper)))))))
             else
               bindE (static_fair_start team_sz lid lower inc trip) (\<lambda>(thread_lower, chunk).
               bindE (int64 ((chunk - 1) * inc)) (\<lambda>c. bindE (int64 (thread_lower + c)) (\<lambda>thread_upper.
               Inr (thread_lower, thread_upper))))) (\<lambda>(thread_lower, thread_upper).
      let thread_upper = LOOPMIN inc thread_upper upper in
      Inr (if \<not> loop_within inc thread_lower thread_upper then None else Some (thread_lower, thread_upper)))))"

text \<open>
  Dynamic and guided loops. \<open>loop_claim\<close> is the atomic exchange-and-add that hands out the next
  \<open>stride\<close>; \<open>claimed\<close> is the interval it stands for; \<open>guided_chunk\<close> estimates the chunk of a guided
  loop from values another thread may change before the claim, and \<open>guided_update\<close> is the
  compare-and-exchange that stores the next chunk.
\<close>

definition loop_claim :: "int \<Rightarrow> pmp_loop \<Rightarrow> int \<times> pmp_loop" where
  "loop_claim stride loop = (loop_current loop, loop\<lparr>loop_current := s64 (loop_current loop + stride)\<rparr>)"

definition claimed :: "int \<Rightarrow> int \<Rightarrow> int \<Rightarrow> int \<Rightarrow> (int \<times> int) option res" where
  "claimed upper inc stride current =
     (if \<not> loop_within inc current upper then Inr None
      else bindE (int64 (current + stride)) (\<lambda>s. bindE (int64 (s - inc)) (\<lambda>my_upper.
           Inr (Some (current, LOOPMIN inc upper my_upper)))))"

definition guided_chunk :: "int \<Rightarrow> int \<Rightarrow> pmp_loop \<Rightarrow> int res" where
  "guided_chunk chunk current loop =
     bindE (int64 (loop_upper loop - current)) (\<lambda>d. bindE (int64 (d + 1)) (\<lambda>remaining.
     Inr (max (min_chunk loop) (min chunk remaining))))"

definition guided_update :: "pmp_param \<Rightarrow> int \<Rightarrow> int \<Rightarrow> int \<Rightarrow> pmp_loop \<Rightarrow> pmp_loop res" where
  "guided_update param team_sz chunk my_upper loop =
     bindE (int64 (loop_upper loop - my_upper)) (\<lambda>remaining.
     bindE (int32 (team_sz * guided_chunk_divisor param)) (\<lambda>divisor.
     bindE (int64 (remaining + divisor)) (\<lambda>s. bindE (div64 (s - 1) divisor) (\<lambda>new_chunk.
     let new_chunk = max (min_chunk loop) (min (guided_chunk_max param) new_chunk) in
     Inr (if loop_chunk loop = chunk then loop\<lparr>loop_chunk := new_chunk\<rparr> else loop)))))"

definition next_dynamic :: "pmp_loop \<Rightarrow> ((int \<times> int) option \<times> pmp_loop) res" where
  "next_dynamic loop =
     bindE (int64 (loop_inc loop * loop_chunk loop)) (\<lambda>stride.
     let (current, loop) = loop_claim stride loop in
     bindE (claimed (loop_upper loop) (loop_inc loop) stride current) (\<lambda>r. Inr (r, loop)))"

definition next_guided :: "pmp_param \<Rightarrow> int \<Rightarrow> pmp_loop \<Rightarrow> ((int \<times> int) option \<times> pmp_loop) res" where
  "next_guided param team_sz loop =
     (let chunk = loop_chunk loop in
      bindE (guided_chunk chunk (loop_current loop) loop) (\<lambda>my_chunk.
      bindE (int64 (loop_inc loop * my_chunk)) (\<lambda>stride.
      let (current, loop) = loop_claim stride loop in
      bindE (assertC (stride \<noteq> 0)) (\<lambda>_.
      bindE (claimed (loop_upper loop) (loop_inc loop) stride current) (\<lambda>r.
      case r of
        None \<Rightarrow> Inr (None, loop)
      | Some (my_lower, my_upper) \<Rightarrow>
          bindE (guided_update param team_sz chunk my_upper loop) (\<lambda>loop. Inr (r, loop)))))))"

text \<open>One turn of the loop over the chunks: the interval and the new descriptor, by schedule.\<close>

definition next_interval ::
    "pmp_param \<Rightarrow> int \<Rightarrow> int \<Rightarrow> int \<Rightarrow> pmp_loop \<Rightarrow> ((int \<times> int) option \<times> pmp_loop) res" where
  "next_interval param team_sz lid iter loop =
     (let sched = loop_sched loop in
      if sched = PMP_SCHED_STATIC \<or> sched = PMP_SCHED_ORDERED_STATIC
      then bindE (next_static team_sz lid iter loop) (\<lambda>r. Inr (r, loop))
      else if sched = PMP_SCHED_STATIC_EVEN \<or> sched = PMP_SCHED_ORDERED_STATIC_EVEN
      then if iter = 0 then bindE (next_even (static_fair param) team_sz lid loop) (\<lambda>r. Inr (r, loop))
           else bindE (assertC (iter = 1)) (\<lambda>_. Inr (None, loop))
      else if sched = PMP_SCHED_DYNAMIC \<or> sched = PMP_SCHED_ORDERED_DYNAMIC then next_dynamic loop
      else if sched = PMP_SCHED_GUIDED \<or> sched = PMP_SCHED_ORDERED_GUIDED then next_guided param team_sz loop
      else Inl Pmp_Fatal)"

definition pmp_schedule_next ::
    "pmp_param \<Rightarrow> pmp_thread \<Rightarrow> pmp_team \<Rightarrow> pmp_warnings \<Rightarrow>
     ((int \<times> int \<times> int) option \<times> pmp_thread \<times> pmp_team \<times> pmp_warnings) res" where
  "pmp_schedule_next param thread team ws =
     (let team_sz = pmp_get_team_size thread team; iter = iteration thread in
      case thread_loop thread of
        None \<Rightarrow> Inl Assert_Failed
      | Some i \<Rightarrow>
          if \<not> i < length (team_loops team) then Inl Out_Of_Bounds
          else
            bindE (assertC (local_id thread < team_sz)) (\<lambda>_.
            let loop = team_loops team ! i in
            bindE (if team_sz = 1
                   then if iter = 0 then Inr (Some (loop_lower loop, loop_upper loop), loop)
                        else bindE (assertC (iter = 1)) (\<lambda>_. Inr (None, loop))
                   else next_interval param team_sz (local_id thread) iter loop) (\<lambda>(r, loop').
            let team = team\<lparr>team_loops := (team_loops team)[i := loop']\<rparr> in
            case r of
              None \<Rightarrow> bindE (pmp_loop_free param thread team ws) (\<lambda>st. Inr (None, st))
            | Some (my_lower, my_upper) \<Rightarrow>
                bindE (int64 (iter + 1)) (\<lambda>iter'.
                let thread = thread\<lparr>ticket_number := my_lower, iteration := iter'\<rparr> in
                bindE (pmp_loop_analyser param thread team ws (loop_sched loop) (loop_lower loop) (loop_upper loop)
                  my_lower my_upper (loop_inc loop) 0 0) (\<lambda>st.
                Inr (Some (my_lower, my_upper, loop_inc loop), st))))))"

section \<open>The entry points\<close>

text \<open>The 8-byte entry points pass their arguments on; the 4-byte ones widen and narrow them.\<close>

definition ompc_static_init_8 ::
    "pmp_param \<Rightarrow> pmp_thread \<Rightarrow> pmp_team \<Rightarrow> pmp_warnings \<Rightarrow> int \<Rightarrow> int \<Rightarrow> int \<Rightarrow> int \<Rightarrow> int \<Rightarrow>
     ((int \<times> int \<times> int) \<times> pmp_thread \<times> pmp_team \<times> pmp_warnings) res" where
  "ompc_static_init_8 = pmp_static_init"

definition ompc_static_init_4 ::
    "pmp_param \<Rightarrow> pmp_thread \<Rightarrow> pmp_team \<Rightarrow> pmp_warnings \<Rightarrow> int \<Rightarrow> int \<Rightarrow> int \<Rightarrow> int \<Rightarrow> int \<Rightarrow>
     ((int \<times> int \<times> int) \<times> pmp_thread \<times> pmp_team \<times> pmp_warnings) res" where
  "ompc_static_init_4 param thread team ws sched lower upper inc chunk =
     bindE (pmp_static_init param thread team ws sched lower upper inc chunk) (\<lambda>((l, u, s), st).
     Inr ((s32 l, s32 u, s32 s), st))"

definition ompc_scheduler_init_8 ::
    "pmp_param \<Rightarrow> pmp_thread \<Rightarrow> pmp_team \<Rightarrow> int \<Rightarrow> int \<Rightarrow> int \<Rightarrow> int \<Rightarrow> int \<Rightarrow> (pmp_thread \<times> pmp_team) res" where
  "ompc_scheduler_init_8 = pmp_scheduler_init"

definition ompc_scheduler_init_4 ::
    "pmp_param \<Rightarrow> pmp_thread \<Rightarrow> pmp_team \<Rightarrow> int \<Rightarrow> int \<Rightarrow> int \<Rightarrow> int \<Rightarrow> int \<Rightarrow> (pmp_thread \<times> pmp_team) res" where
  "ompc_scheduler_init_4 = pmp_scheduler_init"

definition ompc_schedule_next_8 ::
    "pmp_param \<Rightarrow> pmp_thread \<Rightarrow> pmp_team \<Rightarrow> pmp_warnings \<Rightarrow>
     ((int \<times> int \<times> int) option \<times> pmp_thread \<times> pmp_team \<times> pmp_warnings) res" where
  "ompc_schedule_next_8 = pmp_schedule_next"

definition ompc_schedule_next_4 ::
    "pmp_param \<Rightarrow> pmp_thread \<Rightarrow> pmp_team \<Rightarrow> pmp_warnings \<Rightarrow>
     ((int \<times> int \<times> int) option \<times> pmp_thread \<times> pmp_team \<times> pmp_warnings) res" where
  "ompc_schedule_next_4 param thread team ws =
     bindE (pmp_schedule_next param thread team ws) (\<lambda>(r, st).
     Inr (map_option (\<lambda>(l, u, i). (s32 l, s32 u, s32 i)) r, st))"

section \<open>Ordered regions\<close>

text \<open>
  \<open>ompc_ordered\<close> returns when the ticket of the thread is served, \<open>Diverges\<close> while it has to spin; a
  thread outside an ordered loop gets a warning and goes on.
\<close>

definition ordered_loop :: "pmp_thread \<Rightarrow> pmp_team \<Rightarrow> pmp_loop option" where
  "ordered_loop thread team =
     (case thread_loop thread of
        None \<Rightarrow> None
      | Some i \<Rightarrow>
          let loop = team_loops team ! i in
          if loop_sched loop \<le> PMP_SCHED_ORDERED_OFFSET then None else Some loop)"

definition ompc_ordered :: "pmp_thread \<Rightarrow> pmp_team \<Rightarrow> unit res" where
  "ompc_ordered thread team =
     (if pmp_get_team_size thread team > 1
      then case ordered_loop thread team of
             None \<Rightarrow> Inr ()
           | Some loop \<Rightarrow> if now_serving loop \<noteq> ticket_number thread then Inl Diverges else Inr ()
      else Inr ())"

definition ompc_end_ordered :: "pmp_thread \<Rightarrow> pmp_team \<Rightarrow> (pmp_thread \<times> pmp_team) res" where
  "ompc_end_ordered thread team =
     (if pmp_get_team_size thread team > 1
      then case (thread_loop thread, ordered_loop thread team) of
             (Some i, Some loop) \<Rightarrow>
               bindE (assertC (now_serving loop = ticket_number thread)) (\<lambda>_.
               bindE (int64 (now_serving loop + loop_inc loop)) (\<lambda>serving.
               bindE (int64 (ticket_number thread + loop_inc loop)) (\<lambda>ticket.
               Inr (thread\<lparr>ticket_number := ticket\<rparr>,
                    team\<lparr>team_loops := (team_loops team)[i := loop\<lparr>now_serving := serving\<rparr>]\<rparr>))))
           | _ \<Rightarrow> Inr (thread, team)
      else Inr (thread, team))"

end
