(* ===== verification/Omp_Static.thy ===== *)
theory Omp_Static
  imports Omp_Schedule
begin

text \<open>
  The division of a loop among the threads of a team by the static schedules. Positions are turned
  into iteration numbers, which makes loops that count up and loops that count down one case; the
  walk of a thread is the loop the compiled code executes, as the checking runtime walks it. Every
  iteration belongs to exactly one thread.
\<close>

section \<open>Positions as iteration numbers\<close>

lemma le_div_iff_mult_le: "0 < b \<Longrightarrow> j \<le> a div b \<longleftrightarrow> j * b \<le> a" for a b j :: int
proof
  assume b: "0 < b" and j: "j \<le> a div b"
  have "j * b \<le> a div b * b" using b j by (intro mult_right_mono) auto
  also have "\<dots> \<le> a" using div_mult_mod_eq [of a b] pos_mod_sign [OF b, of a] by linarith
  finally show "j * b \<le> a" .
next
  assume b: "0 < b" and j: "j * b \<le> a"
  from zdiv_mono1 [OF j b] b show "j \<le> a div b" by simp
qed

lemma within_shift [simp]: "loop_within inc (x + d) (y + d) = loop_within inc x y"
  by (simp add: loop_within_def)

lemma within_LOOPMIN: "loop_within inc x (LOOPMIN inc y z) \<longleftrightarrow> loop_within inc x y \<and> loop_within inc x z"
  by (simp add: loop_within_def LOOPMIN_def)

lemma within_trip:
  assumes "inc \<noteq> 0"
  shows "loop_within inc (l + j * inc) u \<longleftrightarrow> j \<le> (u - l) div inc"
proof (cases "inc > 0")
  case True
  then show ?thesis by (auto simp: loop_within_def le_div_iff_mult_le)
next
  case False
  then have "0 < - inc" using assms by simp
  from le_div_iff_mult_le [OF this, of j "l - u"] have "j \<le> (u - l) div inc \<longleftrightarrow> j * (- inc) \<le> l - u"
    by (metis div_minus_minus minus_diff_eq)
  then show ?thesis using False assms by (auto simp: loop_within_def)
qed

lemma within_grid:
  assumes "inc \<noteq> 0"
  shows "loop_within inc (l + j * inc) (l + k * inc) \<longleftrightarrow> j \<le> k"
  using within_trip [OF assms, of l j "l + k * inc"] assms by simp

lemma sdiv_nonneg:
  fixes a b :: int
  assumes "0 \<le> a div b" and "b \<noteq> 0"
  shows "a sdiv b = a div b"
proof (cases "b dvd a \<or> sgn a = sgn b")
  case False
  then have "a \<noteq> 0" by auto
  with False assms(2) have "a < 0 \<and> 0 < b \<or> 0 < a \<and> b < 0" by (auto simp: sgn_if split: if_splits)
  then have "a div b < 0" by (auto simp: pos_imp_zdiv_neg_iff neg_imp_zdiv_neg_iff)
  with assms(1) show ?thesis by simp
qed (auto simp: signed_divide_int_eq_divide_int)

section \<open>The walk over the iterations of a thread\<close>

text \<open>
  The values a thread visits, as \<open>analyser_inner\<close> and \<open>analyser_outer\<close> walk through them.
\<close>

function walk_inner :: "int \<Rightarrow> int \<Rightarrow> int \<Rightarrow> int \<Rightarrow> int \<Rightarrow> int list" where
  "walk_inner inc chunk my_upper i inner =
     (if i < chunk \<and> loop_within inc inner my_upper
      then inner # walk_inner inc chunk my_upper (i + 1) (inner + inc) else [])"
  by pat_completeness auto
termination
  by (relation "measure (\<lambda>(inc, chunk, my_upper, i, inner). nat (chunk - i))") auto

function walk_outer :: "int \<Rightarrow> int \<Rightarrow> int \<Rightarrow> int \<Rightarrow> int \<Rightarrow> int \<Rightarrow> int list" where
  "walk_outer inc chunk stride upper outer my_upper =
     (if \<not> loop_within inc outer upper then []
      else walk_inner inc chunk my_upper 0 outer @
        (if (if inc \<ge> 0 then stride > 0 else stride < 0)
         then walk_outer inc chunk stride upper (outer + stride) (LOOPMIN inc (my_upper + stride) upper)
         else []))"
  by pat_completeness auto
termination
  by (relation "measure (\<lambda>(inc, chunk, stride, upper, outer, my_upper).
        nat (if inc \<ge> 0 then upper + 1 - outer else outer + 1 - upper))")
    (auto simp: loop_within_def split: if_splits)

declare walk_inner.simps [simp del] walk_outer.simps [simp del]

definition walk :: "int \<Rightarrow> int \<Rightarrow> int \<Rightarrow> int \<Rightarrow> int \<Rightarrow> int \<Rightarrow> int list" where
  "walk inc chunk stride upper my_lower my_upper =
     (if loop_within inc my_lower my_upper then walk_outer inc chunk stride upper my_lower my_upper else [])"

text \<open>The iterations of a loop, in order.\<close>

definition iterations :: "int \<Rightarrow> int \<Rightarrow> int \<Rightarrow> int list" where
  "iterations lower upper inc = map (\<lambda>j. lower + j * inc) [0..(upper - lower) div inc]"

lemma upto_Cons: "k \<le> m \<Longrightarrow> [k..m] = k # [k + 1..m]"
  by (simp add: upto.simps)

lemma walk_inner_eq:
  assumes "\<And>j. loop_within inc (l + j * inc) U \<longleftrightarrow> j < m"
  shows "walk_inner inc chunk U i (l + k * inc) = map (\<lambda>j. l + j * inc) [k..min (k + (chunk - i)) m - 1]"
proof (induction "nat (chunk - i)" arbitrary: i k)
  case 0
  then show ?case by (subst walk_inner.simps) auto
next
  case (Suc d)
  show ?case
  proof (cases "k < m")
    case True
    have "walk_inner inc chunk U (i + 1) (l + (k + 1) * inc) =
        map (\<lambda>j. l + j * inc) [k + 1..min (k + 1 + (chunk - (i + 1))) m - 1]"
      using Suc.hyps(2) by (intro Suc.hyps(1)) auto
    then have "walk_inner inc chunk U (i + 1) (l + k * inc + inc) =
        map (\<lambda>j. l + j * inc) [k + 1..min (k + (chunk - i)) m - 1]"
      by (simp add: algebra_simps)
    then show ?thesis using True assms Suc.hyps(2)
      by (subst walk_inner.simps) (simp add: upto_Cons)
  next
    case False
    then show ?thesis using assms by (subst walk_inner.simps) auto
  qed
qed

text \<open>The iteration numbers of a walk that starts at \<open>a\<close> with blocks of \<open>chunk\<close> every \<open>s\<close>.\<close>

lemma walk_outer_set:
  assumes "inc \<noteq> 0" and "0 < chunk" and "chunk \<le> s" and "n = (upper - l) div inc + 1"
    and "a < n \<Longrightarrow> (\<And>j. loop_within inc (l + j * inc) U \<longleftrightarrow> j < min (a + chunk) n)"
  shows "set (walk_outer inc chunk (s * inc) upper (l + a * inc) U) =
      (\<lambda>j. l + j * inc) ` {j. a \<le> j \<and> j < n \<and> (j - a) mod s < chunk} \<and>
    distinct (walk_outer inc chunk (s * inc) upper (l + a * inc) U)"
  using assms(5)
proof (induction "nat (n - a)" arbitrary: a U rule: less_induct)
  case less
  note up = within_trip [OF assms(1), of l _ upper]
  show ?case
  proof (cases "a < n")
    case False
    then have "{j. a \<le> j \<and> j < n \<and> (j - a) mod s < chunk} = {}" by auto
    with False show ?thesis using up [of a] assms(4) by (subst (1 2) walk_outer.simps) simp
  next
    case True
    let ?U = "LOOPMIN inc (U + s * inc) upper" and ?f = "\<lambda>j. l + j * inc"
    have ok: "loop_within inc (l + j * inc) U \<longleftrightarrow> j < min (a + chunk) n" for j
      using less.prems True by blast
    have "loop_within inc (l + j * inc) ?U \<longleftrightarrow> j < min (a + s + chunk) n" if "a + s < n" for j
    proof -
      have "l + j * inc = (l + (j - s) * inc) + s * inc" by (simp add: algebra_simps)
      then have "loop_within inc (l + j * inc) (U + s * inc) \<longleftrightarrow> j - s < min (a + chunk) n"
        using ok [of "j - s"] by (simp only: within_shift)
      then show ?thesis using that assms(3) up [of j] assms(4) by (auto simp: within_LOOPMIN)
    qed
    then have "set (walk_outer inc chunk (s * inc) upper (l + (a + s) * inc) ?U) =
        ?f ` {j. a + s \<le> j \<and> j < n \<and> (j - (a + s)) mod s < chunk} \<and>
      distinct (walk_outer inc chunk (s * inc) upper (l + (a + s) * inc) ?U)"
      using True assms(2,3) by (intro less.hyps) auto
    moreover have "l + (a + s) * inc = l + a * inc + s * inc" by (simp add: algebra_simps)
    moreover have "walk_outer inc chunk (s * inc) upper (l + a * inc) U =
        map ?f [a..min (a + chunk) n - 1] @ walk_outer inc chunk (s * inc) upper (l + a * inc + s * inc) ?U"
    proof -
      have "if inc \<ge> 0 then s * inc > 0 else s * inc < 0"
        using assms(1-3) by (auto simp: zero_less_mult_iff mult_less_0_iff)
      then show ?thesis
        using True up [of a] assms(4) walk_inner_eq [OF ok, of chunk 0 a] by (subst walk_outer.simps) simp
    qed
    moreover have "{j. a \<le> j \<and> j < n \<and> (j - a) mod s < chunk} =
        {a..min (a + chunk) n - 1} \<union> {j. a + s \<le> j \<and> j < n \<and> (j - (a + s)) mod s < chunk}"
    proof (intro set_eqI)
      fix j
      have "(j - (a + s)) mod s = (j - a) mod s" by (metis diff_diff_eq minus_mod_self2)
      moreover have "(j - a) mod s = j - a" if "a \<le> j" "j < a + s"
        using that by (simp add: mod_pos_pos_trivial)
      ultimately show "j \<in> {j. a \<le> j \<and> j < n \<and> (j - a) mod s < chunk} \<longleftrightarrow>
          j \<in> {a..min (a + chunk) n - 1} \<union> {j. a + s \<le> j \<and> j < n \<and> (j - (a + s)) mod s < chunk}"
        using assms(2,3) by (cases "j < a + s") auto
    qed
    moreover have "inj_on ?f A" for A using assms(1) by (auto simp: inj_on_def)
    ultimately show ?thesis using assms(1,3) by (auto simp: image_Un distinct_map)
  qed
qed

section \<open>Loops without overflow\<close>

text \<open>
  A loop that is not empty and whose bounds leave room for the products the scheduler forms, for
  teams of up to \<^verbatim>\<open>PMP_MAX_THREADS\<close> threads.
\<close>

definition loop_ok :: "int \<Rightarrow> int \<Rightarrow> int \<Rightarrow> bool" where
  "loop_ok lower upper inc \<longleftrightarrow> inc \<noteq> 0 \<and> loop_within inc lower upper \<and>
     \<bar>lower\<bar> \<le> 2 ^ 60 \<and> \<bar>upper\<bar> \<le> 2 ^ 60 \<and> \<bar>inc\<bar> \<le> 2 ^ 50"

definition team_ok :: "int \<Rightarrow> bool" where
  "team_ok n \<longleftrightarrow> 2 \<le> n \<and> n \<le> PMP_MAX_THREADS"

abbreviation trips :: "int \<Rightarrow> int \<Rightarrow> int \<Rightarrow> int" where
  "trips lower upper inc \<equiv> (upper - lower) div inc + 1"

lemma int64_abs: "\<bar>x\<bar> < 9223372036854775808 \<Longrightarrow> int64 x = Inr x"
  by (rule int64_in) auto

lemma trips_pos: "loop_ok lower upper inc \<Longrightarrow> 1 \<le> trips lower upper inc"
  using within_trip [of inc lower 0 upper] by (auto simp: loop_ok_def)

lemma trips_bound:
  assumes "loop_ok lower upper inc"
  shows "(trips lower upper inc - 1) * \<bar>inc\<bar> \<le> 2 ^ 61"
proof -
  have "loop_within inc (lower + (trips lower upper inc - 1) * inc) upper"
    using assms within_trip [of inc lower "trips lower upper inc - 1" upper] by (simp add: loop_ok_def)
  moreover have "0 \<le> trips lower upper inc - 1" using trips_pos [OF assms] by simp
  ultimately show ?thesis
    using assms by (cases "inc > 0") (auto simp: loop_ok_def loop_within_def abs_if algebra_simps split: if_splits)
qed

text \<open>Positions at most 1024 steps outside the loop are representable.\<close>

lemma step_bound:
  assumes "loop_ok lower upper inc" and "\<bar>m\<bar> \<le> trips lower upper inc + 1024"
  shows "\<bar>m * inc\<bar> \<le> 2 ^ 62" and "\<bar>lower + m * inc\<bar> < 9223372036854775808"
proof -
  let ?n = "trips lower upper inc"
  have i: "\<bar>inc\<bar> \<le> 2 ^ 50" "\<bar>lower\<bar> \<le> 2 ^ 60" using assms(1) by (auto simp: loop_ok_def)
  have "\<bar>m * inc\<bar> \<le> (?n + 1024) * \<bar>inc\<bar>" using assms(2) by (simp add: abs_mult mult_right_mono)
  also have "\<dots> = (?n - 1) * \<bar>inc\<bar> + 1025 * \<bar>inc\<bar>" by (simp add: algebra_simps)
  also have "\<dots> \<le> 2 ^ 61 + 1025 * 2 ^ 50" using trips_bound [OF assms(1)] i by linarith
  finally have *: "\<bar>m * inc\<bar> \<le> 2 ^ 61 + 1025 * 2 ^ 50" .
  then show "\<bar>m * inc\<bar> \<le> 2 ^ 62" by simp
  show "\<bar>lower + m * inc\<bar> < 9223372036854775808" using * i(2) by (simp add: abs_if split: if_splits)
qed

lemma step64:
  assumes "loop_ok lower upper inc" and "\<bar>m\<bar> \<le> trips lower upper inc + 1024"
  shows "int64 (m * inc) = Inr (m * inc)" and "int64 (lower + m * inc) = Inr (lower + m * inc)"
    and "int64 m = Inr m"
proof -
  show "int64 (m * inc) = Inr (m * inc)" "int64 (lower + m * inc) = Inr (lower + m * inc)"
    using step_bound [OF assms] by (auto intro!: int64_abs)
  have "1 \<le> \<bar>inc\<bar>" using assms(1) by (auto simp: loop_ok_def)
  then have "\<bar>m\<bar> \<le> \<bar>m * inc\<bar>" by (simp add: abs_mult mult_le_cancel_left1)
  with step_bound(1) [OF assms] show "int64 m = Inr m" by (intro int64_abs) simp
qed

lemma trip_count_ok:
  assumes "loop_ok lower upper inc"
  shows "trip_count lower upper inc = Inr (trips lower upper inc)"
proof -
  have "\<bar>upper - lower\<bar> \<le> 2 ^ 61" "inc \<noteq> 0" using assms by (auto simp: loop_ok_def)
  moreover have "(upper - lower) sdiv inc = trips lower upper inc - 1"
    using trips_pos [OF assms] \<open>inc \<noteq> 0\<close> by (simp add: sdiv_nonneg)
  moreover have "int64 (trips lower upper inc - 1) = Inr (trips lower upper inc - 1)"
    "int64 (trips lower upper inc) = Inr (trips lower upper inc)"
    using trips_pos [OF assms] by (auto intro!: step64(3) [OF assms])
  ultimately show ?thesis by (simp add: trip_count_def div64_def int64_abs)
qed

lemma div64_pos: "0 \<le> a \<Longrightarrow> a < 9223372036854775808 \<Longrightarrow> 0 < b \<Longrightarrow> div64 a b = Inr (a div b)"
proof -
  assume a: "0 \<le> a" "a < 9223372036854775808" and b: "0 < b"
  have "0 \<le> a div b" "a div b \<le> a" using a b zdiv_mono2 [of a 1 b] by (simp_all add: pos_imp_zdiv_nonneg_iff)
  with a b show ?thesis by (simp add: div64_def sdiv_nonneg int64_in)
qed

section \<open>Even division\<close>

lemma even_start:
  assumes "loop_ok lower upper inc" and "team_ok t" and "0 \<le> i" and "i < t" and "c = (trips lower upper inc + t - 1) div t"
  shows "static_even_start t i lower inc (trips lower upper inc) = Inr (lower + i * c * inc, c)"
    and "0 < c" and "c \<le> trips lower upper inc" and "trips lower upper inc \<le> t * c"
    and "i * c \<le> trips lower upper inc + t"
proof -
  let ?n = "trips lower upper inc"
  have t: "2 \<le> t" "t \<le> 256" using assms(2) by (auto simp: team_ok_def PMP_MAX_THREADS_def)
  have n: "1 \<le> ?n" by (rule trips_pos [OF assms(1)])
  define r where "r = (?n + t - 1) mod t"
  have c: "?n + t - 1 = t * c + r" unfolding r_def assms(5) by (simp only: mult_div_mod_eq)
  have r: "0 \<le> r" "r < t" using t unfolding r_def by simp_all
  have "0 < t * c" using c r n by linarith
  then show c0: "0 < c" using t by (simp add: zero_less_mult_iff)
  show "?n \<le> t * c" using c r by linarith
  have "i * c \<le> (t - 1) * c" using assms(3,4) c0 by (intro mult_right_mono) auto
  also have "\<dots> \<le> t * c" using c0 by (simp add: algebra_simps)
  finally have ic: "i * c \<le> t * c" .
  then show "i * c \<le> ?n + t" using c r by linarith
  show cn: "c \<le> ?n"
  proof (rule ccontr)
    assume "\<not> c \<le> ?n"
    then have "?n + 1 \<le> c" by simp
    then have "t * (?n + 1) \<le> t * c" using t by (intro mult_left_mono) auto
    moreover have "2 * ?n \<le> t * ?n" using t n by (intro mult_right_mono) auto
    ultimately show False using c r n by (simp add: algebra_simps)
  qed
  have "0 \<le> i * c" using assms(3) c0 by simp
  then have m: "\<bar>i * c\<bar> \<le> ?n + 1024" using ic c r t by linarith
  have "int64 (?n + t) = Inr (?n + t)" using step64(3) [OF assms(1), of "?n + t"] t n by simp
  moreover have "div64 (?n + t - 1) t = Inr c"
  proof -
    have "?n + t - 1 < 9223372036854775808"
      using \<open>int64 (?n + t) = Inr (?n + t)\<close> by (auto simp: int64_def split: if_splits)
    then show ?thesis unfolding assms(5) using t n by (intro div64_pos) auto
  qed
  ultimately show "static_even_start t i lower inc ?n = Inr (lower + i * c * inc, c)"
    using step64 [OF assms(1) m] by (simp add: static_even_start_def)
qed

text \<open>The fair division: thread \<open>i\<close> starts at iteration \<open>fair_index n t i\<close>.\<close>

definition fair_index :: "int \<Rightarrow> int \<Rightarrow> int \<Rightarrow> int" where
  "fair_index n t i = i * (n div t) + min i (n mod t)"

lemma fair_index_step: "0 < t \<Longrightarrow> fair_index n t (i + 1) = fair_index n t i + n div t + (if i < n mod t then 1 else 0)"
  by (auto simp: fair_index_def algebra_simps)

lemma fair_index_ends: "0 < t \<Longrightarrow> fair_index n t 0 = 0" "0 < t \<Longrightarrow> fair_index n t t = n"
  using pos_mod_bound [of t n] pos_mod_sign [of t n] by (auto simp: fair_index_def)

lemma fair_index_mono:
  assumes "0 < t" and "0 \<le> n" and "i \<le> j"
  shows "fair_index n t i \<le> fair_index n t j"
proof -
  have "i * (n div t) \<le> j * (n div t)"
    using assms by (intro mult_right_mono) (auto simp: pos_imp_zdiv_nonneg_iff)
  then show ?thesis using assms(3) by (auto simp: fair_index_def)
qed

lemma fair_start:
  assumes "loop_ok lower upper inc" and "team_ok t" and "0 \<le> i" and "i < t"
  shows "static_fair_start t i lower inc (trips lower upper inc) =
    Inr (lower + fair_index (trips lower upper inc) t i * inc,
         fair_index (trips lower upper inc) t (i + 1) - fair_index (trips lower upper inc) t i)"
proof -
  define n where "n = trips lower upper inc"
  have t: "0 < t" "2 \<le> t" using assms(2) by (auto simp: team_ok_def)
  have n: "1 \<le> n" "n < 9223372036854775808"
    using trips_pos [OF assms(1)] step64(3) [OF assms(1), of n] by (auto simp: n_def int64_def split: if_splits)
  define c where "c = n div t" define r where "r = n mod t"
  have cr: "n = t * c + r" "0 \<le> r" "r < t" "0 \<le> c" using t n by (auto simp: c_def r_def pos_imp_zdiv_nonneg_iff)
  have "0 \<le> t * c" "t * c \<le> n" using cr t by auto
  have "i * c \<le> t * c" "c \<le> t * c" using assms(4) cr(4) t by (auto intro: mult_right_mono simp: mult_le_cancel_right1)
  have "0 \<le> i * c" using assms(3) cr(4) by simp
  have I: "fair_index n t i = i * c + min i r" by (simp add: fair_index_def c_def r_def)
  have "t \<le> 256" using assms(2) by (simp add: team_ok_def PMP_MAX_THREADS_def)
  then have mr: "0 \<le> min i r" "min i r \<le> 255" using assms(3,4) cr by auto
  have "min i r * c \<le> i * c" "0 \<le> min i r * c" using cr(4) mr by (auto intro: mult_right_mono)
  moreover have "(i - r) * c \<le> i * c" "i > r \<longrightarrow> 0 \<le> (i - r) * c" using cr by (auto intro: mult_right_mono)
  moreover have "min i r * (c + 1) = min i r * c + min i r" by (simp add: algebra_simps)
  ultimately have b: "\<bar>c * t\<bar> \<le> n + 1024" "\<bar>c + 1\<bar> \<le> n + 1024" "\<bar>min i r * (c + 1)\<bar> \<le> n + 1024"
      "\<bar>i * c + min i r\<bar> \<le> n + 1024" "i > r \<longrightarrow> \<bar>(i - r) * c\<bar> \<le> n + 1024"
    using \<open>0 \<le> t * c\<close> \<open>t * c \<le> n\<close> \<open>i * c \<le> t * c\<close> \<open>c \<le> t * c\<close> \<open>0 \<le> i * c\<close> mr cr(4)
    by (simp_all only: abs_le_iff mult.commute [of c t]) linarith+
  note s = step64 [OF assms(1), folded n_def]
  have "static_fair_start t i lower inc n = Inr (lower + (i * c + min i r) * inc, c + (if i < r then 1 else 0))"
  proof -
    have "div64 n t = Inr c" unfolding c_def by (rule div64_pos) (use n t in auto)
    moreover have "n - c * t = r" using cr(1) by (simp add: algebra_simps)
    moreover have "int64 r = Inr r" by (rule s(3)) (use cr n in auto)
    moreover have "min i r * (c + 1) + (i - r) * c = i * c + min i r" if "i > r" using that by (simp add: algebra_simps)
    moreover have "min i r * (c + 1) = i * c + min i r" if "\<not> i > r" using that by (simp add: algebra_simps)
    ultimately show ?thesis
      using s(3) [OF b(1)] s(3) [OF b(2)] s(3) [OF b(3)] s(3) [OF b(4)] s(1,2) [OF b(4)] s(3) [OF b(5) [rule_format]]
      by (cases "i > r") (auto simp: static_fair_start_def)
  qed
  then show ?thesis unfolding n_def [symmetric] fair_index_step [OF t(1)] I [symmetric] by (simp add: I c_def r_def)
qed

section \<open>The bounds of a thread\<close>

lemma bounds_ok:
  assumes "loop_ok lower upper inc" and "0 \<le> a" and "a < trips lower upper inc" and "0 < chunk"
    and "\<bar>(chunk - 1) * inc\<bar> \<le> 2 ^ 62" and "stride = Inr s"
  shows "static_bounds lower upper inc (lower + a * inc) chunk stride =
    Inr (lower + a * inc, LOOPMIN inc (lower + (a + chunk - 1) * inc) upper, s)"
proof -
  let ?n = "trips lower upper inc"
  have i: "inc \<noteq> 0" "\<bar>lower\<bar> \<le> 2 ^ 60" "\<bar>upper\<bar> \<le> 2 ^ 60" using assms(1) by (auto simp: loop_ok_def)
  have w: "loop_within inc (lower + a * inc) upper" using within_trip [OF i(1), of lower a upper] assms(3) by simp
  moreover have "loop_within inc lower (lower + a * inc)"
    using within_grid [OF i(1), of lower 0 a] assms(2) by simp
  ultimately have "\<bar>lower + a * inc\<bar> \<le> 2 ^ 60" using i by (auto simp: loop_within_def split: if_splits)
  then have "\<bar>lower + a * inc + (chunk - 1) * inc\<bar> < 9223372036854775808"
    using assms(5) by (simp add: abs_if split: if_splits)
  then have h: "int64 (lower + a * inc + (chunk - 1) * inc) = Inr (lower + a * inc + (chunk - 1) * inc)"
    "int64 ((chunk - 1) * inc) = Inr ((chunk - 1) * inc)"
    using assms(5) by (auto intro!: int64_abs)
  have eq: "lower + (a + chunk - 1) * inc = lower + a * inc + (chunk - 1) * inc" by (simp add: algebra_simps)
  show ?thesis unfolding static_bounds_def eq using w assms(6) h by simp
qed

lemma bounds_none:
  assumes "loop_ok lower upper inc" and "trips lower upper inc \<le> a"
  shows "static_bounds lower upper inc (lower + a * inc) chunk stride = Inr (lower - inc, lower - 2 * inc, inc)"
proof -
  have i: "inc \<noteq> 0" "\<bar>lower\<bar> \<le> 2 ^ 60" "\<bar>inc\<bar> \<le> 2 ^ 50" using assms(1) by (auto simp: loop_ok_def)
  have "\<not> loop_within inc (lower + a * inc) upper" using within_trip [OF i(1), of lower a upper] assms(2) by simp
  moreover have "\<bar>lower - inc\<bar> < 9223372036854775808" "\<bar>lower - inc - inc\<bar> < 9223372036854775808"
    using i(2,3) by (auto simp: abs_if split: if_splits)
  ultimately show ?thesis by (simp add: static_bounds_def int64_abs)
qed

text \<open>What the walk of a thread visits, given its first iteration number, chunk and stride.\<close>

definition thread_iterations :: "int \<Rightarrow> int \<Rightarrow> (int \<times> int \<times> int) \<times> int \<Rightarrow> int list" where
  "thread_iterations upper inc r = (case r of ((my_lower, my_upper, stride), chunk) \<Rightarrow>
     walk inc chunk stride upper my_lower my_upper)"

lemma bounds_walk:
  assumes "loop_ok lower upper inc" and "0 \<le> a" and "0 \<le> chunk" and "chunk \<le> s"
    and "a < trips lower upper inc \<Longrightarrow> 0 < chunk"
    and "\<bar>(chunk - 1) * inc\<bar> \<le> 2 ^ 62" and "stride = Inr (s * inc)"
  shows "\<exists>b. static_bounds lower upper inc (lower + a * inc) chunk stride = Inr b \<and>
    distinct (thread_iterations upper inc (b, chunk)) \<and>
    set (thread_iterations upper inc (b, chunk)) = (\<lambda>j. lower + j * inc) `
      {j. a \<le> j \<and> j < trips lower upper inc \<and> (j - a) mod s < chunk}"
proof (cases "a < trips lower upper inc")
  case True
  let ?n = "trips lower upper inc" and ?U = "LOOPMIN inc (lower + (a + chunk - 1) * inc) upper"
  have c: "0 < chunk" using assms(5) True by blast
  have i: "inc \<noteq> 0" using assms(1) by (simp add: loop_ok_def)
  have U: "loop_within inc (lower + j * inc) ?U \<longleftrightarrow> j < min (a + chunk) ?n" for j
    using within_trip [OF i, of lower j upper] within_grid [OF i, of lower j "a + chunk - 1"] by (auto simp: within_LOOPMIN)
  have "loop_within inc (lower + a * inc) ?U" using U [of a] True c by simp
  then have "walk inc chunk (s * inc) upper (lower + a * inc) ?U = walk_outer inc chunk (s * inc) upper (lower + a * inc) ?U"
    by (simp add: walk_def)
  then show ?thesis
    using walk_outer_set [OF i c assms(4) refl, where U = ?U and l = lower and a = a and upper = upper] U
      bounds_ok [OF assms(1,2) True c assms(6,7)]
    by (auto simp: thread_iterations_def)
next
  case False
  have "walk inc chunk inc upper (lower - inc) (lower - 2 * inc) = []"
    using assms(1) by (auto simp: walk_def loop_within_def loop_ok_def)
  then show ?thesis using bounds_none [OF assms(1)] False by (auto simp: thread_iterations_def)
qed

section \<open>Which thread gets which iteration\<close>

text \<open>
  \<open>owns fair t sched n chunk i j\<close>: in a loop of \<open>n\<close> iterations and a team of \<open>t\<close> threads, iteration
  number \<open>j\<close> belongs to thread \<open>i\<close>.
\<close>

definition owns :: "bool \<Rightarrow> int \<Rightarrow> int \<Rightarrow> int \<Rightarrow> int \<Rightarrow> int \<Rightarrow> int \<Rightarrow> bool" where
  "owns fair t sched n chunk i j =
     (if sched = PMP_SCHED_STATIC_EVEN
      then if fair then fair_index n t i \<le> j \<and> j < fair_index n t (i + 1)
           else let c = (n + t - 1) div t in i * c \<le> j \<and> j < (i + 1) * c
      else (j div chunk) mod t = i)"

lemma one_block:
  fixes a c n :: int
  assumes "0 \<le> a" and "c \<le> n"
  shows "{j. a \<le> j \<and> j < n \<and> (j - a) mod n < c} = {j. 0 \<le> j \<and> j < n \<and> a \<le> j \<and> j < a + c}"
  using assms by (auto simp: mod_pos_pos_trivial)

lemma cyclic_block:
  fixes i j c t :: int
  assumes "0 < c" and "0 < t" and "0 \<le> i" and "i < t" and "0 \<le> j"
  shows "i * c \<le> j \<and> (j - i * c) mod (t * c) < c \<longleftrightarrow> (j div c) mod t = i"
proof -
  define q r where "q = j div c" and "r = j mod c"
  have j: "j = q * c + r" "0 \<le> r" "r < c" "0 \<le> q" using assms by (auto simp: q_def r_def pos_imp_zdiv_nonneg_iff)
  define m where "m = (q - i) mod t"
  have m: "0 \<le> m" "m < t" using assms(2) by (auto simp: m_def)
  have eq: "(j - i * c) mod (t * c) = m * c + r"
  proof -
    have "j - i * c = (q - i) * c + r" using j by (simp add: algebra_simps)
    also have "\<dots> = ((q - i) div t * t + m) * c + r" by (simp add: m_def)
    also have "\<dots> = (q - i) div t * (t * c) + (m * c + r)" by (simp add: algebra_simps)
    finally have "(j - i * c) mod (t * c) = (m * c + r) mod (t * c)" by simp
    moreover have "m * c + r < t * c"
    proof -
      have "(m + 1) * c \<le> t * c" using m assms(1) by (intro mult_right_mono) auto
      then show ?thesis using j by (simp add: algebra_simps)
    qed
    moreover have "0 \<le> m * c + r" using m j assms(1) by simp
    ultimately show ?thesis by (simp add: mod_pos_pos_trivial)
  qed
  have "m * c + r < c \<longleftrightarrow> m = 0"
  proof
    assume "m * c + r < c"
    then have "m * c < 1 * c" using j by linarith
    then have "m < 1" using assms(1) by (simp only: mult_less_cancel_right_pos)
    then show "m = 0" using m by simp
  qed (use j in simp)
  moreover have "m = 0 \<longleftrightarrow> q mod t = i"
  proof -
    have "m = 0 \<longleftrightarrow> q mod t = i mod t" unfolding m_def by (simp add: mod_eq_dvd_iff mod_eq_0_iff_dvd)
    then show ?thesis using assms(3,4) by (simp add: mod_pos_pos_trivial)
  qed
  moreover have "i * c \<le> j" if "q mod t = i"
  proof -
    have "i \<le> q" using that j(4) assms(2) by (metis zmod_le_nonneg_dividend)
    then have "i * c \<le> q * c" using assms(1) by (intro mult_right_mono) auto
    then show ?thesis using j by linarith
  qed
  ultimately show ?thesis unfolding eq q_def [symmetric] by blast
qed

definition sched_ok :: "int \<Rightarrow> int \<Rightarrow> int \<Rightarrow> int \<Rightarrow> bool" where
  "sched_ok t sched inc chunk \<longleftrightarrow> sched = PMP_SCHED_STATIC_EVEN \<or>
     sched = PMP_SCHED_STATIC \<and> 0 < chunk \<and> t * chunk * \<bar>inc\<bar> \<le> 2 ^ 60"

lemma static_division_ok:
  assumes "loop_ok lower upper inc" and "team_ok t" and "sched_ok t sched inc chunk" and "0 \<le> i" and "i < t"
  shows "\<exists>r. static_division fair t i sched lower upper inc chunk = Inr r \<and>
    distinct (thread_iterations upper inc r) \<and>
    set (thread_iterations upper inc r) = (\<lambda>j. lower + j * inc) `
      {j. 0 \<le> j \<and> j < trips lower upper inc \<and> owns fair t sched (trips lower upper inc) chunk i j}"
proof (cases "sched = PMP_SCHED_STATIC_EVEN")
  case True
  define n where "n = trips lower upper inc"
  have t: "0 < t" "2 \<le> t" using assms(2) by (auto simp: team_ok_def)
  have n: "1 \<le> n" "trip_count lower upper inc = Inr n"
    using trips_pos trip_count_ok assms(1) by (auto simp: n_def)
  note walk = bounds_walk [OF assms(1), folded n_def] and step = step_bound(1) [OF assms(1), folded n_def]
  have st: "int64 (n * inc) = Inr (n * inc)" using step64(1) [OF assms(1), folded n_def, of n] n by simp
  show ?thesis
  proof (cases fair)
    case False
    define c where "c = (n + t - 1) div t"
    note e = even_start [OF assms(1,2,4,5), folded n_def, OF c_def]
    have "\<exists>b. static_bounds lower upper inc (lower + i * c * inc) c (int64 (n * inc)) = Inr b \<and>
      distinct (thread_iterations upper inc (b, c)) \<and>
      set (thread_iterations upper inc (b, c)) = (\<lambda>j. lower + j * inc) ` {j. i * c \<le> j \<and> j < n \<and> (j - i * c) mod n < c}"
      by (rule walk) (use e st assms(4) step [of "c - 1"] in auto)
    moreover have "{j. i * c \<le> j \<and> j < n \<and> (j - i * c) mod n < c} =
        {j. 0 \<le> j \<and> j < n \<and> owns fair t sched n chunk i j}"
      unfolding one_block [OF mult_nonneg_nonneg [OF assms(4) less_imp_le [OF e(2)]] e(3)] using False True by (auto simp: owns_def c_def [symmetric] algebra_simps)
    ultimately show ?thesis unfolding n_def [symmetric] using True False n e(1) by (auto simp: static_division_def)
  next
    case fair: True
    define a where "a = fair_index n t i" define c where "c = fair_index n t (i + 1) - a"
    have mono: "0 \<le> a" "0 \<le> c" "a + c \<le> n"
      using fair_index_mono [OF t(1), of n 0 i] fair_index_mono [OF t(1), of n i "i + 1"]
        fair_index_mono [OF t(1), of n "i + 1" t] fair_index_ends [OF t(1), of n] n assms(4,5)
      by (auto simp: a_def c_def)
    have "0 < c" if "a < n"
    proof (rule ccontr)
      assume "\<not> 0 < c"
      then have "n div t \<le> 0" "\<not> i < n mod t"
        using mono(2) fair_index_step [OF t(1), of n i] pos_imp_zdiv_nonneg_iff [OF t(1), of n] n
        by (auto simp: a_def c_def split: if_splits)
      moreover have "0 \<le> n div t" using n t by (simp add: pos_imp_zdiv_nonneg_iff)
      ultimately have "n div t = 0" "n mod t \<le> i" by auto
      moreover from this have "n mod t = n" by (metis add_0 div_mult_mod_eq mult_zero_left)
      ultimately show False using that by (simp add: a_def fair_index_def)
    qed
    have "\<exists>b. static_bounds lower upper inc (lower + a * inc) c (int64 (n * inc)) = Inr b \<and>
      distinct (thread_iterations upper inc (b, c)) \<and>
      set (thread_iterations upper inc (b, c)) = (\<lambda>j. lower + j * inc) ` {j. a \<le> j \<and> j < n \<and> (j - a) mod n < c}"
      by (rule walk)
        (use mono \<open>a < n \<Longrightarrow> 0 < c\<close> st step [of "c - 1"] in auto)
    moreover have "{j. a \<le> j \<and> j < n \<and> (j - a) mod n < c} =
        {j. 0 \<le> j \<and> j < n \<and> owns fair t sched n chunk i j}"
    proof -
      have "c \<le> n" using mono by simp
      then show ?thesis unfolding one_block [OF mono(1) \<open>c \<le> n\<close>] using fair True
        by (auto simp: owns_def a_def c_def)
    qed
    ultimately show ?thesis unfolding n_def [symmetric] using True fair n fair_start [OF assms(1,2,4,5), folded n_def]
      by (auto simp: static_division_def a_def c_def)
  qed
next
  case False
  let ?n = "trips lower upper inc"
  have s: "sched = PMP_SCHED_STATIC" "0 < chunk" "t * chunk * \<bar>inc\<bar> \<le> 2 ^ 60"
    using assms(3) False by (auto simp: sched_ok_def)
  have t: "0 < t" "1 \<le> t" using assms(2) by (auto simp: team_ok_def)
  have inc: "\<bar>lower\<bar> \<le> 2 ^ 60" using assms(1) by (simp add: loop_ok_def)
  have m: "\<bar>m * inc\<bar> \<le> 2 ^ 60" if "0 \<le> m" "m \<le> t * chunk" for m
  proof -
    have "m * \<bar>inc\<bar> \<le> t * chunk * \<bar>inc\<bar>" using that by (intro mult_right_mono) auto
    with s(3) that show ?thesis by (simp add: abs_mult)
  qed
  have ic: "0 \<le> i * chunk" "i * chunk \<le> t * chunk" "chunk \<le> t * chunk"
    using assms(4,5) s(2) t by (auto intro: mult_right_mono simp: mult_le_cancel_right1)
  have c1: "\<bar>(chunk - 1) * inc\<bar> \<le> 2 ^ 60" by (rule m) (use ic(3) s(2) in linarith)+
  have h: "int64 (chunk * inc) = Inr (chunk * inc)" "int64 (t * chunk * inc) = Inr (t * chunk * inc)"
    "int64 (i * chunk * inc) = Inr (i * chunk * inc)" "int64 (lower + i * chunk * inc) = Inr (lower + i * chunk * inc)"
    using m [of chunk] m [of "t * chunk"] m [of "i * chunk"] ic s(2) inc t
    by (auto intro!: int64_abs simp: abs_if split: if_splits)
  have "int64 (i * (chunk * inc)) = Inr (i * chunk * inc)" "int64 (chunk * inc * t) = Inr (t * chunk * inc)"
    using h(2,3) by (simp_all only: mult_ac)
  moreover note h(1,4)
  moreover have "\<exists>b. static_bounds lower upper inc (lower + i * chunk * inc) chunk (Inr (t * chunk * inc)) = Inr b \<and>
      distinct (thread_iterations upper inc (b, chunk)) \<and>
      set (thread_iterations upper inc (b, chunk)) = (\<lambda>j. lower + j * inc) `
        {j. i * chunk \<le> j \<and> j < ?n \<and> (j - i * chunk) mod (t * chunk) < chunk}"
    by (rule bounds_walk [OF assms(1)]) (use ic s(2) c1 in auto)
  moreover have "{j. i * chunk \<le> j \<and> j < ?n \<and> (j - i * chunk) mod (t * chunk) < chunk} =
      {j. 0 \<le> j \<and> j < ?n \<and> owns fair t sched ?n chunk i j}"
    using cyclic_block [OF s(2) t(1) assms(4,5)] order_trans [OF ic(1)] False
    by (simp only: owns_def if_False simp_thms) blast
  ultimately show ?thesis using s(1) False by (auto simp: static_division_def)
qed

text \<open>Blocks that follow one another cover everything between the first and the last once.\<close>

lemma block_unique:
  fixes f :: "int \<Rightarrow> int"
  assumes "\<And>i k. i \<le> k \<Longrightarrow> f i \<le> f k" and "f 0 \<le> j" and "j < f t" and "0 \<le> t"
  shows "\<exists>!i. 0 \<le> i \<and> i < t \<and> f i \<le> j \<and> j < f (i + 1)"
proof -
  have "\<exists>k < m. f (int k) \<le> j \<and> j < f (int k + 1)" if "j < f (int m)" for m
    using that
  proof (induction m)
    case (Suc m)
    show ?case
    proof (cases "j < f (int m)")
      case True
      then show ?thesis using Suc.IH less_Suc_eq by blast
    next
      case False
      then show ?thesis using Suc.prems by (auto simp: add.commute)
    qed
  qed (use assms(2) in simp)
  from this [of "nat t"] obtain k where k: "int k < t" "f (int k) \<le> j" "j < f (int k + 1)"
    using assms(3,4) by (auto simp: zless_nat_eq_int_zless)
  show ?thesis
  proof (intro ex1I [of _ "int k"])
    fix i assume i: "0 \<le> i \<and> i < t \<and> f i \<le> j \<and> j < f (i + 1)"
    show "i = int k"
      using assms(1) [of "i + 1" "int k"] assms(1) [of "int k + 1" i] i k by force
  qed (use k in auto)
qed

lemma owns_unique:
  assumes "team_ok t" and "sched_ok t sched inc chunk" and "0 \<le> j" and "j < n"
  shows "\<exists>!i. 0 \<le> i \<and> i < t \<and> owns fair t sched n chunk i j"
proof -
  have t: "0 < t" using assms(1) by (simp add: team_ok_def)
  consider (fair) "sched = PMP_SCHED_STATIC_EVEN" fair | (even) "sched = PMP_SCHED_STATIC_EVEN" "\<not> fair"
    | (static) "sched \<noteq> PMP_SCHED_STATIC_EVEN" by blast
  then show ?thesis
  proof cases
    case fair
    have "\<exists>!i. 0 \<le> i \<and> i < t \<and> fair_index n t i \<le> j \<and> j < fair_index n t (i + 1)"
      by (rule block_unique) (use assms t fair_index_ends [OF t, of n] in \<open>auto intro: fair_index_mono\<close>)
    with fair show ?thesis by (simp add: owns_def)
  next
    case even
    define c where "c = (n + t - 1) div t"
    have c: "0 \<le> c" "n \<le> t * c"
    proof -
      have "n + t - 1 = t * c + (n + t - 1) mod t" unfolding c_def by (simp only: mult_div_mod_eq)
      with pos_mod_bound [OF t, of "n + t - 1"] show "n \<le> t * c" by linarith
      show "0 \<le> c" unfolding c_def using assms(3,4) t by (simp add: pos_imp_zdiv_nonneg_iff)
    qed
    have "\<exists>!i. 0 \<le> i \<and> i < t \<and> i * c \<le> j \<and> j < (i + 1) * c"
      by (rule block_unique) (use assms t c in \<open>auto intro: mult_right_mono\<close>)
    with even show ?thesis by (simp add: owns_def c_def Let_def)
  next
    case static
    then show ?thesis using t by (auto simp: owns_def)
  qed
qed

text \<open>\<open>divides_among t f xs\<close>: the lists \<open>f 0, \<dots>, f (t - 1)\<close> share the elements of \<open>xs\<close> out, each to one.\<close>

definition divides_among :: "int \<Rightarrow> (int \<Rightarrow> int list) \<Rightarrow> int list \<Rightarrow> bool" where
  "divides_among t f xs \<longleftrightarrow> (\<forall>i. 0 \<le> i \<and> i < t \<longrightarrow> distinct (f i) \<and> set (f i) \<subseteq> set xs) \<and>
     (\<forall>x \<in> set xs. \<exists>!i. 0 \<le> i \<and> i < t \<and> x \<in> set (f i))"

lemma divides_amongI:
  fixes lower inc :: int
  assumes "inc \<noteq> 0" and "\<And>i. 0 \<le> i \<Longrightarrow> i < t \<Longrightarrow> distinct (f i) \<and>
      set (f i) = (\<lambda>j. lower + j * inc) ` {j. 0 \<le> j \<and> j < trips lower upper inc \<and> P i j}"
    and "\<And>j. 0 \<le> j \<Longrightarrow> j < trips lower upper inc \<Longrightarrow> \<exists>!i. 0 \<le> i \<and> i < t \<and> P i j"
  shows "divides_among t f (iterations lower upper inc)"
proof -
  have xs: "set (iterations lower upper inc) = (\<lambda>j. lower + j * inc) ` {j. 0 \<le> j \<and> j < trips lower upper inc}"
    by (auto simp: iterations_def)
  have inj: "lower + j * inc = lower + k * inc \<longleftrightarrow> j = k" for j k using assms(1) by simp
  have "\<exists>!i. 0 \<le> i \<and> i < t \<and> lower + j * inc \<in> set (f i)" if "0 \<le> j" "j < trips lower upper inc" for j
  proof -
    have "lower + j * inc \<in> set (f i) \<longleftrightarrow> P i j" if "0 \<le> i \<and> i < t" for i
      using assms(2) [of i] that \<open>0 \<le> j\<close> \<open>j < trips lower upper inc\<close> by (auto simp: inj)
    then show ?thesis using assms(3) [OF that] by (metis (no_types, lifting))
  qed
  then show ?thesis unfolding divides_among_def xs using assms(2) by blast
qed

text \<open>The share of thread \<open>lid\<close>: what it visits with the bounds that the static division gives it.\<close>

definition static_share :: "bool \<Rightarrow> int \<Rightarrow> int \<Rightarrow> int \<Rightarrow> int \<Rightarrow> int \<Rightarrow> int \<Rightarrow> int \<Rightarrow> int list" where
  "static_share fair team_sz sched lower upper inc chunk lid =
     (case static_division fair team_sz lid sched lower upper inc chunk of
        Inl e \<Rightarrow> [] | Inr r \<Rightarrow> thread_iterations upper inc r)"

lemma static_share_divides:
  assumes "loop_ok lower upper inc" and "team_ok t" and "sched_ok t sched inc chunk"
  shows "divides_among t (static_share fair t sched lower upper inc chunk) (iterations lower upper inc)"
proof (rule divides_amongI [where P = "owns fair t sched (trips lower upper inc) chunk"])
  show "inc \<noteq> 0" using assms(1) by (simp add: loop_ok_def)
  fix i assume "0 \<le> i" "i < t"
  from static_division_ok [OF assms this, of fair]
  show "distinct (static_share fair t sched lower upper inc chunk i) \<and>
      set (static_share fair t sched lower upper inc chunk i) = (\<lambda>j. lower + j * inc) `
        {j. 0 \<le> j \<and> j < trips lower upper inc \<and> owns fair t sched (trips lower upper inc) chunk i j}"
    by (auto simp: static_share_def)
next
  fix j assume "0 \<le> j" "j < trips lower upper inc"
  from owns_unique [OF assms(2,3) this] show "\<exists>!i. 0 \<le> i \<and> i < t \<and> owns fair t sched (trips lower upper inc) chunk i j" .
qed

lemma static_init_bounds:
  assumes "loop_ok lower upper inc" and "team_ok (team_size team)" and "sched_ok (team_size team) sched inc chunk"
    and "in_team thread" and "0 \<le> local_id thread" and "local_id thread < team_size team" and "\<not> param_check param"
  shows "\<exists>my_lower my_upper stride c.
    pmp_static_init param thread team ws sched lower upper inc chunk = Inr ((my_lower, my_upper, stride), thread, team, ws) \<and>
    static_share (static_fair param) (team_size team) sched lower upper inc chunk (local_id thread) =
      walk inc c stride upper my_lower my_upper"
proof -
  obtain my_lower my_upper stride c where r: "static_division (static_fair param) (team_size team) (local_id thread) sched
      lower upper inc chunk = Inr ((my_lower, my_upper, stride), c)"
    using static_division_ok [OF assms(1,2,3,5,6), of "static_fair param"] by auto
  have "2 \<le> team_size team" using assms(2) by (simp add: team_ok_def)
  then show ?thesis
    using r assms(4,7)
    by (auto simp: pmp_static_init_def pmp_get_team_size_def pmp_loop_analyser_def static_share_def thread_iterations_def)
qed

end
