(* ===== verification/Omp_Dynamic.thy ===== *)
theory Omp_Dynamic
  imports Omp_Static
begin

text \<open>
  Dynamic and guided loops under every interleaving of the threads of a team
  (\<^verbatim>\<open>libopenmp/schedule.c\<close>, \<^verbatim>\<open>__pmp_schedule_next\<close>). The accesses of a call to the shared descriptor are
  the steps of a machine; an invariant says that the intervals handed out so far are exactly the first
  iterations of the loop, in order, and a weight bounds the length of every run.
\<close>

section \<open>Intervals\<close>

text \<open>The iterations of an interval handed out by the scheduler, and what they are in iteration numbers.\<close>

lemma le_iff_eq: "(\<And>j :: int. j \<le> x \<longleftrightarrow> j \<le> y) \<Longrightarrow> x = y"
  by (meson order_antisym order_refl)

lemma iterations_from:
  assumes "inc \<noteq> 0" and "\<And>j. loop_within inc (l + j * inc) U \<longleftrightarrow> j < m"
  shows "iterations (l + a * inc) U inc = map (\<lambda>j. l + j * inc) [a..m - 1]"
proof -
  have "(U - (l + a * inc)) div inc = m - 1 - a"
  proof (rule le_iff_eq)
    fix j
    have "l + a * inc + j * inc = l + (a + j) * inc" by (simp add: algebra_simps)
    then have "j \<le> (U - (l + a * inc)) div inc \<longleftrightarrow> a + j < m"
      using within_trip [OF assms(1), of "l + a * inc" j U] assms(2) [of "a + j"] by (simp only:)
    then show "j \<le> (U - (l + a * inc)) div inc \<longleftrightarrow> j \<le> m - 1 - a" by auto
  qed
  moreover have "[a..m - 1] = map (\<lambda>j. a + j) [0..m - 1 - a]"
    by (rule nth_equalityI) auto
  moreover have "l + a * inc + j * inc = l + (a + j) * inc" for j by (simp add: algebra_simps)
  ultimately show ?thesis by (simp only: iterations_def map_map comp_def)
qed

lemma upto_append:
  fixes a b c :: int
  assumes "a \<le> b" and "b \<le> c + 1"
  shows "[a..b - 1] @ [b..c] = [a..c]"
proof (cases "b \<le> c")
  case True
  then show ?thesis using assms by (simp add: upto_split1 [of a b c])
next
  case False
  with assms(2) have "b = c + 1" by simp
  then show ?thesis by simp
qed

lemma claimed_ok:
  assumes "loop_ok lower upper inc" and "0 \<le> p" and "1 \<le> m" and "\<bar>lower + (p + m) * inc\<bar> \<le> 2 ^ 62"
    and "n = trips lower upper inc"
  shows "p < n \<Longrightarrow> \<exists>u. claimed upper inc (inc * m) (lower + p * inc) = Inr (Some (lower + p * inc, u)) \<and> \<bar>u\<bar> \<le> 2 ^ 60 \<and>
      iterations (lower + p * inc) u inc = map (\<lambda>j. lower + j * inc) [p..min (p + m) n - 1]"
    and "n \<le> p \<Longrightarrow> claimed upper inc (inc * m) (lower + p * inc) = Inr None"
proof -
  have inc: "inc \<noteq> 0" "\<bar>inc\<bar> \<le> 2 ^ 50" using assms(1) by (auto simp: loop_ok_def)
  have w: "loop_within inc (lower + p * inc) upper \<longleftrightarrow> p < n"
    using within_trip [OF inc(1), of lower p upper] assms(5) by auto
  then show "n \<le> p \<Longrightarrow> claimed upper inc (inc * m) (lower + p * inc) = Inr None" by (simp add: claimed_def)
  let ?u = "LOOPMIN inc upper (lower + (p + m - 1) * inc)"
  have "loop_within inc (lower + j * inc) ?u \<longleftrightarrow> j < min (p + m) n" for j
    using within_trip [OF inc(1), of lower j upper] within_grid [OF inc(1), of lower j "p + m - 1"] assms(5)
    by (auto simp: within_LOOPMIN)
  then have it: "iterations (lower + p * inc) ?u inc = map (\<lambda>j. lower + j * inc) [p..min (p + m) n - 1]"
    by (rule iterations_from [OF inc(1)])
  have "loop_within inc lower (lower + (p + m - 1) * inc)"
    using within_grid [OF inc(1), of lower 0 "p + m - 1"] assms(2,3) by simp
  then have u: "\<bar>?u\<bar> \<le> 2 ^ 60"
    using assms(1) by (auto simp: loop_ok_def LOOPMIN_def loop_within_def min_def max_def split: if_splits)
  have eq: "lower + p * inc + inc * m = lower + (p + m) * inc" "lower + (p + m) * inc - inc = lower + (p + m - 1) * inc"
    by (simp_all add: algebra_simps)
  have "\<bar>lower + (p + m) * inc\<bar> < 9223372036854775808" "\<bar>lower + (p + m) * inc - inc\<bar> < 9223372036854775808"
    using assms(4) inc(2) by (auto simp: abs_if split: if_splits)
  then have "int64 (lower + (p + m) * inc) = Inr (lower + (p + m) * inc)"
    "int64 (lower + (p + m) * inc - inc) = Inr (lower + (p + m - 1) * inc)"
    by (simp_all only: int64_abs eq(2))
  then show "p < n \<Longrightarrow> \<exists>u. claimed upper inc (inc * m) (lower + p * inc) = Inr (Some (lower + p * inc, u)) \<and> \<bar>u\<bar> \<le> 2 ^ 60 \<and>
      iterations (lower + p * inc) u inc = map (\<lambda>j. lower + j * inc) [p..min (p + m) n - 1]"
    unfolding claimed_def w eq(1) using it u by auto
qed

section \<open>The steps of the team\<close>

text \<open>
  Threads that share a dynamic or guided loop. A thread of a dynamic loop makes one access to the
  descriptor in a call of \<^verbatim>\<open>__pmp_schedule_next\<close>, the atomic claim. A thread of a guided loop reads the chunk, reads
  the current position, claims, and stores the next chunk, and other threads may act between these
  accesses. \<open>handed\<close> records the intervals in the order of the claims.
\<close>

datatype sched_pc = Asking | Chunk_Read int | Current_Read int int | Storing int int | Done

record sched_state =
  shared_loop :: pmp_loop
  pcs :: "sched_pc list"
  handed :: "(nat \<times> int \<times> int) list"

definition is_dynamic :: "pmp_loop \<Rightarrow> bool" where
  "is_dynamic loop \<longleftrightarrow> loop_sched loop = PMP_SCHED_DYNAMIC \<or> loop_sched loop = PMP_SCHED_ORDERED_DYNAMIC"

definition is_guided :: "pmp_loop \<Rightarrow> bool" where
  "is_guided loop \<longleftrightarrow> loop_sched loop = PMP_SCHED_GUIDED \<or> loop_sched loop = PMP_SCHED_ORDERED_GUIDED"

definition guided_claim :: "int \<Rightarrow> int \<Rightarrow> pmp_loop \<Rightarrow> ((int \<times> int) option \<times> pmp_loop) res" where
  "guided_claim chunk current_read loop =
     bindE (guided_chunk chunk current_read loop) (\<lambda>my_chunk.
     bindE (int64 (loop_inc loop * my_chunk)) (\<lambda>stride.
     let (current, loop) = loop_claim stride loop in
     bindE (assertC (stride \<noteq> 0)) (\<lambda>_.
     bindE (claimed (loop_upper loop) (loop_inc loop) stride current) (\<lambda>r. Inr (r, loop)))))"

inductive sched_step :: "pmp_param \<Rightarrow> nat \<Rightarrow> sched_state \<Rightarrow> sched_state \<Rightarrow> bool" for param i where
  dynamic_give: "i < length (pcs s) \<Longrightarrow> pcs s ! i = Asking \<Longrightarrow> is_dynamic (shared_loop s) \<Longrightarrow>
    next_dynamic (shared_loop s) = Inr (Some iv, loop) \<Longrightarrow>
    sched_step param i s (s\<lparr>shared_loop := loop, handed := handed s @ [(i, iv)]\<rparr>)"
| dynamic_end: "i < length (pcs s) \<Longrightarrow> pcs s ! i = Asking \<Longrightarrow> is_dynamic (shared_loop s) \<Longrightarrow>
    next_dynamic (shared_loop s) = Inr (None, loop) \<Longrightarrow>
    sched_step param i s (s\<lparr>shared_loop := loop, pcs := (pcs s)[i := Done]\<rparr>)"
| guided_read_chunk: "i < length (pcs s) \<Longrightarrow> pcs s ! i = Asking \<Longrightarrow> is_guided (shared_loop s) \<Longrightarrow>
    sched_step param i s (s\<lparr>pcs := (pcs s)[i := Chunk_Read (loop_chunk (shared_loop s))]\<rparr>)"
| guided_read_current: "i < length (pcs s) \<Longrightarrow> pcs s ! i = Chunk_Read c \<Longrightarrow>
    sched_step param i s (s\<lparr>pcs := (pcs s)[i := Current_Read c (loop_current (shared_loop s))]\<rparr>)"
| guided_give: "i < length (pcs s) \<Longrightarrow> pcs s ! i = Current_Read c cur \<Longrightarrow>
    guided_claim c cur (shared_loop s) = Inr (Some (l, u), loop) \<Longrightarrow>
    sched_step param i s (s\<lparr>shared_loop := loop, pcs := (pcs s)[i := Storing c u], handed := handed s @ [(i, l, u)]\<rparr>)"
| guided_end: "i < length (pcs s) \<Longrightarrow> pcs s ! i = Current_Read c cur \<Longrightarrow>
    guided_claim c cur (shared_loop s) = Inr (None, loop) \<Longrightarrow>
    sched_step param i s (s\<lparr>shared_loop := loop, pcs := (pcs s)[i := Done]\<rparr>)"
| guided_store: "i < length (pcs s) \<Longrightarrow> pcs s ! i = Storing c u \<Longrightarrow>
    guided_update param (int (length (pcs s))) c u (shared_loop s) = Inr loop \<Longrightarrow>
    sched_step param i s (s\<lparr>shared_loop := loop, pcs := (pcs s)[i := Asking]\<rparr>)"

text \<open>A run of the team: any thread may take the next step.\<close>

definition team_step :: "pmp_param \<Rightarrow> sched_state \<Rightarrow> sched_state \<Rightarrow> bool" where
  "team_step param s s' \<longleftrightarrow> (\<exists>i. sched_step param i s s')"

definition sched_start :: "nat \<Rightarrow> pmp_loop \<Rightarrow> sched_state" where
  "sched_start t loop = \<lparr>shared_loop = loop, pcs = replicate t Asking, handed = []\<rparr>"

definition reachable :: "pmp_param \<Rightarrow> nat \<Rightarrow> pmp_loop \<Rightarrow> sched_state \<Rightarrow> bool" where
  "reachable param t loop s \<longleftrightarrow> (team_step param)\<^sup>*\<^sup>* (sched_start t loop) s"

text \<open>A guided call that no other thread interrupts is the sequence of its four accesses.\<close>

lemma next_guided_steps:
  "next_guided param t loop = bindE (guided_claim (loop_chunk loop) (loop_current loop) loop) (\<lambda>(r, loop').
     case r of None \<Rightarrow> Inr (None, loop')
     | Some (l, u) \<Rightarrow> bindE (guided_update param t (loop_chunk loop) u loop') (\<lambda>loop'. Inr (r, loop')))"
  by (simp add: next_guided_def guided_claim_def loop_claim_def Let_def bindE_assoc)

section \<open>The invariant of the team\<close>

text \<open>
  \<open>sched_ok_loop param t S loop\<close>: a fresh dynamic or guided loop whose chunks are between 1 and \<open>S\<close>,
  small enough for the claims past the end, one per thread, to stay in range.
\<close>

definition sched_ok_loop :: "pmp_param \<Rightarrow> nat \<Rightarrow> int \<Rightarrow> pmp_loop \<Rightarrow> bool" where
  "sched_ok_loop param t S loop \<longleftrightarrow>
     loop_ok (loop_lower loop) (loop_upper loop) (loop_inc loop) \<and> team_ok (int t) \<and>
     (is_dynamic loop \<or> is_guided loop) \<and> loop_current loop = loop_lower loop \<and>
     1 \<le> min_chunk loop \<and> min_chunk loop \<le> S \<and> 1 \<le> loop_chunk loop \<and> loop_chunk loop \<le> S \<and>
     guided_chunk_max param \<le> S \<and> 0 < guided_chunk_divisor param \<and>
     int t * guided_chunk_divisor param < 2147483648 \<and> (int t + 2) * S * \<bar>loop_inc loop\<bar> \<le> 2 ^ 60"

text \<open>The position of an iteration number, and the number of iterations, of a descriptor.\<close>

abbreviation position :: "pmp_loop \<Rightarrow> int \<Rightarrow> int" where
  "position loop j \<equiv> loop_lower loop + j * loop_inc loop"

definition loop_trips :: "pmp_loop \<Rightarrow> int" where
  "loop_trips loop = trips (loop_lower loop) (loop_upper loop) (loop_inc loop)"

definition same_loop :: "pmp_loop \<Rightarrow> pmp_loop \<Rightarrow> bool" where
  "same_loop loop0 loop \<longleftrightarrow> loop_sched loop = loop_sched loop0 \<and> loop_lower loop = loop_lower loop0 \<and>
     loop_upper loop = loop_upper loop0 \<and> loop_inc loop = loop_inc loop0 \<and> min_chunk loop = min_chunk loop0"

fun pc_ok :: "int \<Rightarrow> pmp_loop \<Rightarrow> sched_pc \<Rightarrow> bool" where
  "pc_ok S loop (Chunk_Read c) \<longleftrightarrow> is_guided loop \<and> 1 \<le> c \<and> c \<le> S"
| "pc_ok S loop (Current_Read c cur) \<longleftrightarrow> is_guided loop \<and> 1 \<le> c \<and> c \<le> S \<and> \<bar>cur\<bar> \<le> 2 ^ 62"
| "pc_ok S loop (Storing c u) \<longleftrightarrow> is_guided loop \<and> \<bar>u\<bar> \<le> 2 ^ 60"
| "pc_ok S loop _ \<longleftrightarrow> True"

definition finished :: "sched_state \<Rightarrow> nat" where
  "finished s = count_list (pcs s) Done"

definition handed_iterations :: "int \<Rightarrow> sched_state \<Rightarrow> int list" where
  "handed_iterations inc s = concat (map (\<lambda>(i, l, u). iterations l u inc) (handed s))"

text \<open>A run of consecutive iterations that starts at \<open>x\<close>.\<close>

definition consecutive :: "pmp_loop \<Rightarrow> int \<Rightarrow> int list \<Rightarrow> bool" where
  "consecutive loop x xs \<longleftrightarrow> (\<exists>a b. a \<le> b \<and> x = position loop a \<and> xs = map (position loop) [a..b])"

definition sched_inv :: "nat \<Rightarrow> int \<Rightarrow> pmp_loop \<Rightarrow> int \<Rightarrow> sched_state \<Rightarrow> bool" where
  "sched_inv t S loop0 p s \<longleftrightarrow>
     same_loop loop0 (shared_loop s) \<and> length (pcs s) = t \<and>
     1 \<le> loop_chunk (shared_loop s) \<and> loop_chunk (shared_loop s) \<le> S \<and>
     loop_current (shared_loop s) = position loop0 p \<and>
     0 \<le> p \<and> p \<le> loop_trips loop0 + S * (1 + int (finished s)) \<and> (0 < finished s \<longrightarrow> loop_trips loop0 \<le> p) \<and>
     (\<forall>pc \<in> set (pcs s). pc_ok S loop0 pc) \<and>
     (\<forall>(i, l, u) \<in> set (handed s). i < t \<and> consecutive loop0 l (iterations l u (loop_inc loop0))) \<and>
     handed_iterations (loop_inc loop0) s = map (position loop0) [0..min p (loop_trips loop0) - 1]"

section \<open>Positions\<close>

lemma position_in:
  assumes "loop_ok lower upper inc" and "0 \<le> j" and "j < trips lower upper inc"
  shows "\<bar>lower + j * inc\<bar> \<le> 2 ^ 60"
proof -
  have "loop_within inc (lower + j * inc) upper"
    using assms within_trip [of inc lower j upper] by (auto simp: loop_ok_def)
  then show ?thesis
    using assms(1,2) mult_nonneg_nonpos [of j inc] mult_nonneg_nonneg [of j inc]
    by (cases "0 < inc") (auto simp: loop_ok_def loop_within_def abs_le_iff simp del: mult_nonneg_nonneg)
qed

lemma position_bound:
  assumes "loop_ok lower upper inc" and "0 \<le> q" and "q \<le> trips lower upper inc + K"
    and "0 \<le> K" and "K * \<bar>inc\<bar> \<le> 2 ^ 60"
  shows "\<bar>lower + q * inc\<bar> \<le> 2 ^ 62"
proof (cases "q < trips lower upper inc")
  case True
  then show ?thesis using position_in [OF assms(1,2)] by simp
next
  case False
  define n where "n = trips lower upper inc"
  have n: "1 \<le> n" "\<bar>lower + (n - 1) * inc\<bar> \<le> 2 ^ 60" "\<bar>inc\<bar> \<le> 2 ^ 50" "n \<le> q" "q \<le> n + K"
    using position_in [OF assms(1), of "n - 1"] trips_pos [OF assms(1)] assms(1,3) False
    by (auto simp: n_def loop_ok_def)
  have "\<bar>(q - n + 1) * inc\<bar> \<le> (K + 1) * \<bar>inc\<bar>"
    unfolding abs_mult by (rule mult_right_mono) (use n in auto)
  also have "\<dots> \<le> 2 ^ 60 + 2 ^ 50" using assms(5) n(3) by (simp add: algebra_simps)
  finally have "\<bar>(q - n + 1) * inc\<bar> \<le> 2 ^ 60 + 2 ^ 50" .
  moreover have "lower + q * inc = (lower + (n - 1) * inc) + (q - n + 1) * inc" by (simp add: algebra_simps)
  ultimately show ?thesis using n(2) by simp
qed

section \<open>The accesses of one thread\<close>

text \<open>What the invariant gives a thread that has not finished.\<close>

lemma finished_less:
  assumes "i < length (pcs s)" and "pcs s ! i \<noteq> Done"
  shows "finished s < length (pcs s)"
proof -
  have "count_list xs y < length xs" if "j < length xs" "xs ! j \<noteq> y" for xs :: "sched_pc list" and j y
    using that
  proof (induction xs arbitrary: j)
    case (Cons x xs)
    then show ?case using count_le_length [of xs y] by (cases j) (auto simp: le_imp_less_Suc less_SucI)
  qed simp
  then show ?thesis using assms by (simp add: finished_def)
qed

lemma sched_inv_bound:
  assumes "sched_ok_loop param t S loop0" and "sched_inv t S loop0 p s"
    and "i < length (pcs s)" and "pcs s ! i \<noteq> Done" and "0 \<le> m" and "m \<le> S"
  shows "\<bar>position loop0 (p + m)\<bar> \<le> 2 ^ 62" and "\<bar>loop_inc loop0 * m\<bar> \<le> 2 ^ 60"
proof -
  have f: "int (finished s) + 1 \<le> int t" and p: "p \<le> loop_trips loop0 + S * (1 + int (finished s))" "0 \<le> p"
    and S: "1 \<le> S"
    using finished_less [OF assms(3,4)] assms(2) by (simp_all add: sched_inv_def)
  have b: "(int t + 2) * S * \<bar>loop_inc loop0\<bar> \<le> 2 ^ 60"
    and ok: "loop_ok (loop_lower loop0) (loop_upper loop0) (loop_inc loop0)"
    using assms(1) by (simp_all add: sched_ok_loop_def)
  have "S * (1 + int (finished s)) \<le> S * int t" using f S by (intro mult_left_mono) auto
  then have "p + m \<le> loop_trips loop0 + (int t + 2) * S" "0 \<le> p + m"
    using p assms(5,6) S by (simp_all add: algebra_simps)
  from position_bound [OF ok this(2) this(1) [unfolded loop_trips_def] _ b] S show "\<bar>position loop0 (p + m)\<bar> \<le> 2 ^ 62" by simp
  have "\<bar>loop_inc loop0 * m\<bar> \<le> \<bar>loop_inc loop0\<bar> * ((int t + 2) * S)"
    unfolding abs_mult
  proof (rule mult_left_mono)
    have "S \<le> (int t + 2) * S" using S by (simp add: mult_le_cancel_right1)
    then show "\<bar>m\<bar> \<le> (int t + 2) * S" using assms(5,6) by linarith
  qed simp
  with b show "\<bar>loop_inc loop0 * m\<bar> \<le> 2 ^ 60" by (simp add: mult_ac)
qed

text \<open>
  The result of a claim of \<open>m\<close> iterations at position \<open>p\<close>: it hands out \<open>p, \<dots>, p + m - 1\<close>, cut off
  at the end of the loop, and nothing when \<open>p\<close> is past the end.
\<close>

definition claim_result :: "int \<Rightarrow> pmp_loop \<Rightarrow> int \<Rightarrow> sched_state \<Rightarrow> (int \<times> int) option \<Rightarrow> pmp_loop \<Rightarrow> bool" where
  "claim_result S loop0 p s r loop' \<longleftrightarrow>
     (\<exists>m. 1 \<le> m \<and> m \<le> S \<and> loop' = (shared_loop s)\<lparr>loop_current := position loop0 (p + m)\<rparr> \<and>
       (case r of
          None \<Rightarrow> loop_trips loop0 \<le> p
        | Some (l, u) \<Rightarrow> p < loop_trips loop0 \<and> l = position loop0 p \<and> \<bar>u\<bar> \<le> 2 ^ 60 \<and>
            iterations l u (loop_inc loop0) = map (position loop0) [p..min (p + m) (loop_trips loop0) - 1]))"

lemma same_loop_eqs:
  "sched_inv t S loop0 p s \<Longrightarrow> loop_upper (shared_loop s) = loop_upper loop0 \<and> loop_inc (shared_loop s) = loop_inc loop0 \<and>
   min_chunk (shared_loop s) = min_chunk loop0 \<and> loop_sched (shared_loop s) = loop_sched loop0"
  by (simp add: sched_inv_def same_loop_def)

lemma claim_ok:
  assumes "sched_ok_loop param t S loop0" and "sched_inv t S loop0 p s"
    and "i < length (pcs s)" and "pcs s ! i \<noteq> Done" and "1 \<le> m" and "m \<le> S"
  shows "\<exists>stride current r loop'. int64 (loop_inc (shared_loop s) * m) = Inr stride \<and> stride \<noteq> 0 \<and>
    loop_claim stride (shared_loop s) = (current, loop') \<and> loop_upper loop' = loop_upper loop0 \<and> loop_inc loop' = loop_inc loop0 \<and>
    claimed (loop_upper loop0) (loop_inc loop0) stride current = Inr r \<and> claim_result S loop0 p s r loop'"
proof -
  let ?inc = "loop_inc loop0" and ?loop = "(shared_loop s)\<lparr>loop_current := position loop0 (p + m)\<rparr>"
  have ok: "loop_ok (loop_lower loop0) (loop_upper loop0) ?inc" using assms(1) by (simp add: sched_ok_loop_def)
  then have inc: "?inc * m \<noteq> 0" using assms(5) by (auto simp: loop_ok_def)
  have cur: "loop_current (shared_loop s) = position loop0 p" and p: "0 \<le> p" and m: "0 \<le> m"
    using assms(2,5) by (simp_all add: sched_inv_def)
  note b = sched_inv_bound [OF assms(1-4) m assms(6)]
  have "position loop0 p + ?inc * m = position loop0 (p + m)" by (simp add: algebra_simps)
  moreover have "s64 (position loop0 (p + m)) = position loop0 (p + m)" using b(1) by (intro s64_id) auto
  ultimately have claim: "loop_claim (?inc * m) (shared_loop s) = (position loop0 p, ?loop)"
    by (simp only: loop_claim_def cur)
  have "\<exists>r. claimed (loop_upper loop0) ?inc (?inc * m) (position loop0 p) = Inr r \<and> claim_result S loop0 p s r ?loop"
  proof (cases "p < loop_trips loop0")
    case True
    then show ?thesis
      using claimed_ok(1) [OF ok p assms(5) b(1) loop_trips_def True] assms(5,6) by (auto simp: claim_result_def)
  next
    case False
    then show ?thesis
      using claimed_ok(2) [OF ok p assms(5) b(1) loop_trips_def] assms(5,6) by (auto simp: claim_result_def)
  qed
  moreover have "int64 (?inc * m) = Inr (?inc * m)" using b(2) by (intro int64_abs) simp
  ultimately show ?thesis using claim inc same_loop_eqs [OF assms(2)] by fastforce
qed

lemma next_dynamic_ok:
  assumes "sched_ok_loop param t S loop0" and "sched_inv t S loop0 p s"
    and "i < length (pcs s)" and "pcs s ! i \<noteq> Done"
  shows "\<exists>r loop'. next_dynamic (shared_loop s) = Inr (r, loop') \<and> claim_result S loop0 p s r loop'"
proof -
  have "1 \<le> loop_chunk (shared_loop s)" "loop_chunk (shared_loop s) \<le> S" using assms(2) by (simp_all add: sched_inv_def)
  from claim_ok [OF assms this] show ?thesis by (auto simp: next_dynamic_def)
qed

lemma guided_claim_ok:
  assumes "sched_ok_loop param t S loop0" and "sched_inv t S loop0 p s"
    and "i < length (pcs s)" and "pcs s ! i = Current_Read c cur"
  shows "\<exists>r loop'. guided_claim c cur (shared_loop s) = Inr (r, loop') \<and> claim_result S loop0 p s r loop'"
proof -
  have "pc_ok S loop0 (pcs s ! i)" using assms(2,3) by (simp add: sched_inv_def)
  then have pc: "1 \<le> c" "c \<le> S" "\<bar>cur\<bar> \<le> 2 ^ 62" using assms(4) by simp_all
  have mc: "1 \<le> min_chunk loop0" "min_chunk loop0 \<le> S" "\<bar>loop_upper loop0\<bar> \<le> 2 ^ 60"
    using assms(1) by (simp_all add: sched_ok_loop_def loop_ok_def)
  define m where "m = max (min_chunk loop0) (min c (loop_upper loop0 - cur + 1))"
  have m: "1 \<le> m" "m \<le> S" using mc pc by (auto simp: m_def)
  have "\<bar>loop_upper loop0 - cur\<bar> < 9223372036854775808" "\<bar>loop_upper loop0 - cur + 1\<bar> < 9223372036854775808"
    using pc(3) mc(3) by (auto simp: abs_if split: if_splits)
  then have g: "guided_chunk c cur (shared_loop s) = Inr m"
    using same_loop_eqs [OF assms(2)] by (simp add: guided_chunk_def m_def int64_abs)
  have "pcs s ! i \<noteq> Done" using assms(4) by simp
  from claim_ok [OF assms(1-3) this m] g show ?thesis by (auto simp: guided_claim_def)
qed

lemma sdiv_abs_le: "1 \<le> d \<Longrightarrow> \<bar>x sdiv d\<bar> \<le> \<bar>x\<bar>" for x d :: int
  using zdiv_mono2 [of "\<bar>x\<bar>" 1 d] pos_imp_zdiv_nonneg_iff [of d "\<bar>x\<bar>"]
  by (simp add: signed_divide_int_def abs_mult abs_sgn_eq)

lemma guided_update_ok:
  assumes "sched_ok_loop param t S loop0" and "sched_inv t S loop0 p s" and "\<bar>u\<bar> \<le> 2 ^ 60"
  shows "\<exists>c'. 1 \<le> c' \<and> c' \<le> S \<and> guided_update param (int t) c u (shared_loop s) = Inr ((shared_loop s)\<lparr>loop_chunk := c'\<rparr>)"
proof -
  note e = same_loop_eqs [OF assms(2)]
  define d where "d = int t * guided_chunk_divisor param"
  have d1: "1 \<le> d"
    using assms(1) mult_pos_pos [of "int t" "guided_chunk_divisor param"] unfolding d_def
    by (simp add: sched_ok_loop_def team_ok_def int_one_le_iff_zero_less)
  then have d: "1 \<le> d" "d < 2147483648" and mc: "1 \<le> min_chunk loop0" "min_chunk loop0 \<le> S" "guided_chunk_max param \<le> S"
    "\<bar>loop_upper loop0\<bar> \<le> 2 ^ 60"
    using assms(1) by (simp_all add: sched_ok_loop_def loop_ok_def d_def)
  define q where "q = (loop_upper loop0 - u + d - 1) sdiv d"
  have b: "\<bar>loop_upper loop0 - u\<bar> \<le> 2 ^ 61" using mc(4) assms(3) by (auto simp: abs_if split: if_splits)
  have "\<bar>loop_upper loop0 - u + d - 1\<bar> < 2 ^ 62" using b d by (auto simp: abs_if split: if_splits)
  then have "\<bar>q\<bar> < 2 ^ 62" using sdiv_abs_le [OF d1, of "loop_upper loop0 - u + d - 1"] by (simp add: q_def)
  then have q: "div64 (loop_upper loop0 - u + d - 1) d = Inr q"
    using d by (simp add: div64_def q_def int64_abs)
  define c' where "c' = max (min_chunk loop0) (min (guided_chunk_max param) q)"
  have "guided_update param (int t) c u (shared_loop s) =
      Inr (if loop_chunk (shared_loop s) = c then (shared_loop s)\<lparr>loop_chunk := c'\<rparr> else shared_loop s)"
    unfolding guided_update_def d_def [symmetric] using e b d q by (simp add: int64_abs int32_in c'_def)
  moreover have "1 \<le> c'" "c' \<le> S" using mc by (auto simp: c'_def)
  moreover have "1 \<le> loop_chunk (shared_loop s)" "loop_chunk (shared_loop s) \<le> S"
    using assms(2) by (simp_all add: sched_inv_def)
  ultimately show ?thesis
    by (intro exI [of _ "if loop_chunk (shared_loop s) = c then c' else loop_chunk (shared_loop s)"]) simp
qed

section \<open>Every step keeps the invariant\<close>

lemma count_list_update:
  "i < length xs \<Longrightarrow>
   count_list (xs[i := y]) z + (if xs ! i = z then 1 else 0) = count_list xs z + (if y = z then 1 else 0)"
proof (induction xs arbitrary: i)
  case (Cons x xs)
  then show ?case
  proof (cases i)
    case (Suc k)
    then show ?thesis using Cons.IH [of k] Cons.prems by (auto split: if_splits)
  qed simp
qed simp

lemma set_update_ok: "i < length xs \<Longrightarrow> \<forall>x \<in> set xs. P x \<Longrightarrow> P y \<Longrightarrow> \<forall>x \<in> set (xs[i := y]). P x"
  using set_update_subset_insert [of xs i y] by auto

lemma inv_give:
  assumes "sched_inv t S loop0 p s" and "i < length (pcs s)" and "pcs s ! i \<noteq> Done" and "pc \<noteq> Done" and "pc_ok S loop0 pc"
    and "1 \<le> m" and "m \<le> S" and "p < loop_trips loop0" and "l = position loop0 p"
    and "iterations l u (loop_inc loop0) = map (position loop0) [p..min (p + m) (loop_trips loop0) - 1]"
  shows "sched_inv t S loop0 (p + m) (s\<lparr>shared_loop := (shared_loop s)\<lparr>loop_current := position loop0 (p + m)\<rparr>,
    pcs := (pcs s)[i := pc], handed := handed s @ [(i, l, u)]\<rparr>)"
proof -
  let ?n = "loop_trips loop0"
  have p: "0 \<le> p" and h: "handed_iterations (loop_inc loop0) s = map (position loop0) [0..min p ?n - 1]"
    using assms(1) by (simp_all add: sched_inv_def)
  have "handed_iterations (loop_inc loop0) s @ iterations l u (loop_inc loop0) =
      map (position loop0) ([0..p - 1] @ [p..min (p + m) ?n - 1])"
    using h assms(8,10) by simp
  also have "\<dots> = map (position loop0) [0..min (p + m) ?n - 1]"
    using p assms(6,8) by (subst upto_append) auto
  finally have "handed_iterations (loop_inc loop0) s @ iterations l u (loop_inc loop0) =
      map (position loop0) [0..min (p + m) ?n - 1]" .
  then have "handed_iterations (loop_inc loop0) (s\<lparr>shared_loop := loop', pcs := pcs', handed := handed s @ [(i, l, u)]\<rparr>) =
      map (position loop0) [0..min (p + m) ?n - 1]" for loop' pcs'
    by (simp add: handed_iterations_def)
  moreover have "finished (s\<lparr>shared_loop := loop', pcs := (pcs s)[i := pc], handed := h\<rparr>) = finished s" for loop' h
    using count_list_update [OF assms(2), of pc Done] assms(3,4) by (simp add: finished_def)
  moreover have "S * 1 \<le> S * (1 + int (finished s))" using assms(6,7) by (intro mult_left_mono) auto
  then have "p + m \<le> ?n + S * (1 + int (finished s))" using assms(7,8) by linarith
  moreover have "\<forall>pc' \<in> set ((pcs s)[i := pc]). pc_ok S loop0 pc'"
    using assms(1,2,5) by (intro set_update_ok) (simp_all add: sched_inv_def)
  moreover have "0 < finished s \<longrightarrow> ?n \<le> p + m" using assms(1,6) by (auto simp: sched_inv_def)
  moreover have "consecutive loop0 l (iterations l u (loop_inc loop0))"
    unfolding consecutive_def assms(10)
    by (intro exI [of _ p] exI [of _ "min (p + m) ?n - 1"]) (use assms(6,8,9) in auto)
  moreover have "i < t" using assms(1,2) by (simp add: sched_inv_def)
  ultimately show ?thesis using assms(1,6) by (simp add: sched_inv_def same_loop_def)
qed

lemma inv_end:
  assumes "sched_inv t S loop0 p s" and "i < length (pcs s)" and "pcs s ! i \<noteq> Done"
    and "1 \<le> m" and "m \<le> S" and "loop_trips loop0 \<le> p"
  shows "sched_inv t S loop0 (p + m) (s\<lparr>shared_loop := (shared_loop s)\<lparr>loop_current := position loop0 (p + m)\<rparr>,
    pcs := (pcs s)[i := Done]\<rparr>)"
proof -
  have "count_list ((pcs s)[i := Done]) Done = Suc (count_list (pcs s) Done)"
    using count_list_update [OF assms(2), of Done Done] assms(3) by simp
  moreover have "min (p + m) (loop_trips loop0) = min p (loop_trips loop0)" using assms(4,6) by simp
  ultimately show ?thesis
    using assms set_update_ok [OF assms(2), of "pc_ok S loop0" Done]
    by (simp add: sched_inv_def same_loop_def handed_iterations_def finished_def algebra_simps)
qed

lemma inv_local:
  assumes "sched_inv t S loop0 p s" and "i < length (pcs s)" and "pcs s ! i \<noteq> Done" and "pc \<noteq> Done" and "pc_ok S loop0 pc"
    and "1 \<le> c" and "c \<le> S"
  shows "sched_inv t S loop0 p (s\<lparr>shared_loop := (shared_loop s)\<lparr>loop_chunk := c\<rparr>, pcs := (pcs s)[i := pc]\<rparr>)"
proof -
  have "count_list ((pcs s)[i := pc]) Done = count_list (pcs s) Done"
    using count_list_update [OF assms(2), of pc Done] assms(3,4) by simp
  then show ?thesis
    using assms set_update_ok [OF assms(2), of "pc_ok S loop0" pc]
    by (simp add: sched_inv_def same_loop_def handed_iterations_def finished_def)
qed

definition team_inv :: "pmp_param \<Rightarrow> nat \<Rightarrow> int \<Rightarrow> pmp_loop \<Rightarrow> sched_state \<Rightarrow> bool" where
  "team_inv param t S loop0 s \<longleftrightarrow> sched_ok_loop param t S loop0 \<and> (\<exists>p. sched_inv t S loop0 p s)"

definition team_start :: "pmp_param \<Rightarrow> nat \<Rightarrow> int \<Rightarrow> pmp_loop \<Rightarrow> sched_state \<Rightarrow> bool" where
  "team_start param t S loop0 s \<longleftrightarrow> sched_ok_loop param t S loop0 \<and> s = sched_start t loop0"

lemma start_inv: "team_start param t S loop0 s \<Longrightarrow> team_inv param t S loop0 s"
proof -
  assume *: "team_start param t S loop0 s"
  then have "0 < loop_trips loop0" "1 \<le> S"
    using trips_pos [of "loop_lower loop0" "loop_upper loop0" "loop_inc loop0"]
    by (simp_all add: team_start_def sched_ok_loop_def loop_trips_def)
  moreover have "count_list (replicate t Asking) Done = 0" by (induction t) auto
  ultimately have "sched_inv t S loop0 0 s"
    using * by (auto simp: team_start_def sched_ok_loop_def sched_inv_def sched_start_def same_loop_def finished_def
        handed_iterations_def)
  with * show ?thesis by (auto simp: team_start_def team_inv_def)
qed

text \<open>
  The step of one thread: what it does to the position, from which preservation of the invariant and
  the bound on the runs follow.
\<close>

fun pc_weight :: "sched_pc \<Rightarrow> nat" where
  "pc_weight Asking = 3"
| "pc_weight (Chunk_Read c) = 2"
| "pc_weight (Current_Read c cur) = 1"
| "pc_weight (Storing c u) = 4"
| "pc_weight Done = 0"

definition team_weight :: "sched_state \<Rightarrow> nat" where
  "team_weight s = 4 * nat (trips (loop_current (shared_loop s)) (loop_upper (shared_loop s)) (loop_inc (shared_loop s)))
     + sum_list (map pc_weight (pcs s))"

lemma trips_at:
  assumes "sched_ok_loop param t S loop0" and "sched_inv t S loop0 p s"
  shows "trips (loop_current (shared_loop s)) (loop_upper (shared_loop s)) (loop_inc (shared_loop s)) = loop_trips loop0 - p"
proof -
  have "loop_inc loop0 \<noteq> 0" using assms(1) by (auto simp: sched_ok_loop_def loop_ok_def)
  then have "(loop_upper loop0 - position loop0 p) div loop_inc loop0 = (loop_upper loop0 - loop_lower loop0) div loop_inc loop0 - p"
    using div_mult_self1 [of "loop_inc loop0" "loop_upper loop0 - loop_lower loop0" "- p"] by (simp add: algebra_simps)
  then show ?thesis using assms(2) by (simp add: sched_inv_def same_loop_def loop_trips_def)
qed

lemma weight_at:
  assumes "sched_ok_loop param t S loop0" and "sched_inv t S loop0 p s"
  shows "team_weight s = 4 * nat (loop_trips loop0 - p) + sum_list (map pc_weight (pcs s))"
  using trips_at [OF assms] by (simp add: team_weight_def)

lemma weight_update:
  "i < length xs \<Longrightarrow> sum_list (map pc_weight (xs[i := pc])) + pc_weight (xs ! i) = sum_list (map pc_weight xs) + pc_weight pc"
proof (induction xs arbitrary: i)
  case (Cons x xs)
  then show ?case
  proof (cases i)
    case (Suc k)
    then show ?thesis using Cons.IH [of k] Cons.prems by simp
  qed simp
qed simp

text \<open>A step moves the team on: the invariant holds at some position and the weight is smaller.\<close>

definition moves_on :: "nat \<Rightarrow> int \<Rightarrow> pmp_loop \<Rightarrow> sched_state \<Rightarrow> sched_state \<Rightarrow> bool" where
  "moves_on t S loop0 s s' \<longleftrightarrow> (\<exists>p'. sched_inv t S loop0 p' s') \<and> team_weight s' < team_weight s"

lemma give_moves_on:
  assumes ok: "sched_ok_loop param t S loop0" and inv: "sched_inv t S loop0 p s" and i: "i < length (pcs s)"
    and "claim_result S loop0 p s (Some (l, u)) loop'" and "pcs s ! i \<noteq> Done" and "pc \<noteq> Done"
    and "\<bar>u\<bar> \<le> 2 ^ 60 \<Longrightarrow> pc_ok S loop0 pc" and w: "pc_weight pc < pc_weight (pcs s ! i) + 4"
  shows "moves_on t S loop0 s (s\<lparr>shared_loop := loop', pcs := (pcs s)[i := pc], handed := handed s @ [(i, l, u)]\<rparr>)"
    (is "moves_on t S loop0 s ?s")
proof -
  obtain m where m: "1 \<le> m" "m \<le> S" and lt: "p < loop_trips loop0" and u: "\<bar>u\<bar> \<le> 2 ^ 60" and l: "l = position loop0 p"
    and loop': "loop' = (shared_loop s)\<lparr>loop_current := position loop0 (p + m)\<rparr>"
    and it: "iterations l u (loop_inc loop0) = map (position loop0) [p..min (p + m) (loop_trips loop0) - 1]"
    using assms(4) by (auto simp: claim_result_def)
  have I: "sched_inv t S loop0 (p + m) ?s"
    unfolding loop' by (rule inv_give [OF inv i assms(5,6) assms(7) [OF u] m lt l it])
  have "nat (loop_trips loop0 - (p + m)) < nat (loop_trips loop0 - p)" using m(1) lt by simp
  then have "team_weight ?s < team_weight s"
    using weight_at [OF ok inv] weight_at [OF ok I, simplified] weight_update [OF i, of pc] w by linarith
  with I show ?thesis by (auto simp: moves_on_def)
qed

lemma end_moves_on:
  assumes ok: "sched_ok_loop param t S loop0" and inv: "sched_inv t S loop0 p s" and i: "i < length (pcs s)"
    and "claim_result S loop0 p s None loop'" and "pcs s ! i \<noteq> Done"
  shows "moves_on t S loop0 s (s\<lparr>shared_loop := loop', pcs := (pcs s)[i := Done]\<rparr>)" (is "moves_on t S loop0 s ?s")
proof -
  obtain m where m: "1 \<le> m" "m \<le> S" and le: "loop_trips loop0 \<le> p"
    and loop': "loop' = (shared_loop s)\<lparr>loop_current := position loop0 (p + m)\<rparr>"
    using assms(4) by (auto simp: claim_result_def)
  have I: "sched_inv t S loop0 (p + m) ?s" unfolding loop' by (rule inv_end [OF inv i assms(5) m le])
  have "0 < pc_weight (pcs s ! i)" using assms(5) by (cases "pcs s ! i") auto
  then have "team_weight ?s < team_weight s"
    using weight_at [OF ok inv] weight_at [OF ok I] weight_update [OF i, of Done] m(1) le by simp
  with I show ?thesis by (auto simp: moves_on_def)
qed

lemma local_moves_on:
  assumes ok: "sched_ok_loop param t S loop0" and inv: "sched_inv t S loop0 p s" and i: "i < length (pcs s)"
    and "pcs s ! i \<noteq> Done" and "pc \<noteq> Done" and "pc_ok S loop0 pc" and "1 \<le> c" and "c \<le> S"
    and w: "pc_weight pc < pc_weight (pcs s ! i)"
  shows "moves_on t S loop0 s (s\<lparr>shared_loop := (shared_loop s)\<lparr>loop_chunk := c\<rparr>, pcs := (pcs s)[i := pc]\<rparr>)"
    (is "moves_on t S loop0 s ?s")
proof -
  have I: "sched_inv t S loop0 p ?s" by (rule inv_local [OF inv i assms(4-8)])
  then have "team_weight ?s < team_weight s"
    using weight_at [OF ok inv] weight_at [OF ok I] weight_update [OF i, of pc] w by simp
  with I show ?thesis by (auto simp: moves_on_def)
qed

lemma reads_move_on:
  assumes ok: "sched_ok_loop param t S loop0" and inv: "sched_inv t S loop0 p s" and i: "i < length (pcs s)"
    and "pcs s ! i \<noteq> Done" and "pc \<noteq> Done" and "pc_ok S loop0 pc" and "pc_weight pc < pc_weight (pcs s ! i)"
  shows "moves_on t S loop0 s (s\<lparr>pcs := (pcs s)[i := pc]\<rparr>)"
proof -
  have "1 \<le> loop_chunk (shared_loop s)" "loop_chunk (shared_loop s) \<le> S" using inv by (simp_all add: sched_inv_def)
  from local_moves_on [OF assms(1-6) this assms(7)] show ?thesis by simp
qed

lemma step_moves_on:
  assumes ok: "sched_ok_loop param t S loop0" and inv: "sched_inv t S loop0 p s" and "sched_step param i s s'"
  shows "moves_on t S loop0 s s'"
  using assms(3)
proof cases
  case (dynamic_give iv loop)
  have "(pcs s)[i := Asking] = pcs s" using dynamic_give(3) by (metis list_update_id)
  then show ?thesis
    using give_moves_on [OF ok inv dynamic_give(2), of _ _ loop Asking] next_dynamic_ok [OF ok inv dynamic_give(2)] dynamic_give
    by (cases iv) auto
next
  case (dynamic_end loop)
  then show ?thesis
    using end_moves_on [OF ok inv dynamic_end(2)] next_dynamic_ok [OF ok inv dynamic_end(2)] by auto
next
  case guided_read_chunk
  then show ?thesis
    using reads_move_on [OF ok inv guided_read_chunk(2), of "Chunk_Read (loop_chunk (shared_loop s))"] inv
    by (simp add: sched_inv_def same_loop_def is_guided_def)
next
  case (guided_read_current c)
  have "pc_ok S loop0 (pcs s ! i)" "0 \<le> S" "loop_current (shared_loop s) = position loop0 p"
    using inv guided_read_current(2) by (simp_all add: sched_inv_def)
  then show ?thesis
    using reads_move_on [OF ok inv guided_read_current(2), of "Current_Read c (loop_current (shared_loop s))"]
      sched_inv_bound(1) [OF ok inv guided_read_current(2), of 0] guided_read_current by simp
next
  case (guided_give c cur l u loop)
  have "pc_ok S loop0 (pcs s ! i)" using inv guided_give(2) by (simp add: sched_inv_def)
  then show ?thesis
    using give_moves_on [OF ok inv guided_give(2), of l u loop "Storing c u"] guided_claim_ok [OF ok inv guided_give(2,3)]
      guided_give by auto
next
  case (guided_end c cur loop)
  then show ?thesis
    using end_moves_on [OF ok inv guided_end(2)] guided_claim_ok [OF ok inv guided_end(2,3)] by auto
next
  case (guided_store c u loop)
  have "pc_ok S loop0 (pcs s ! i)" "length (pcs s) = t" using inv guided_store(2) by (simp_all add: sched_inv_def)
  then obtain c' where "1 \<le> c'" "c' \<le> S" "loop = (shared_loop s)\<lparr>loop_chunk := c'\<rparr>"
    using guided_update_ok [OF ok inv, of u c] guided_store(3,4) by auto
  then show ?thesis using local_moves_on [OF ok inv guided_store(2), of Asking c'] guided_store by simp
qed

interpretation team: bounded_steps "team_step param" "team_start param t S loop0" "team_inv param t S loop0" team_weight
  for param t S loop0
proof
  show "team_inv param t S loop0 s" if "team_start param t S loop0 s" for s by (rule start_inv [OF that])
  show "team_inv param t S loop0 s'" if "team_inv param t S loop0 s" "team_step param s s'" for s s'
    using that step_moves_on by (fastforce simp: team_inv_def team_step_def moves_on_def)
  show "team_weight s' < team_weight s" if "team_inv param t S loop0 s" "team_step param s s'" for s s'
    using that step_moves_on by (fastforce simp: team_inv_def team_step_def moves_on_def)
qed

text \<open>A thread that has not finished can always take its next step.\<close>

lemma thread_can_step:
  assumes ok: "sched_ok_loop param t S loop0" and inv: "sched_inv t S loop0 p s"
    and i: "i < length (pcs s)" and nd: "pcs s ! i \<noteq> Done"
  shows "\<exists>s'. sched_step param i s s'"
proof (cases "pcs s ! i")
  case Asking
  have "is_dynamic (shared_loop s) \<or> is_guided (shared_loop s)"
    using ok inv by (simp add: sched_ok_loop_def sched_inv_def same_loop_def is_dynamic_def is_guided_def)
  moreover obtain r loop' where "next_dynamic (shared_loop s) = Inr (r, loop')" using next_dynamic_ok [OF ok inv i nd] by blast
  ultimately show ?thesis using Asking i by (cases r) (blast intro: sched_step.intros)+
next
  case (Chunk_Read c)
  then show ?thesis using i by (blast intro: guided_read_current)
next
  case (Current_Read c cur)
  then obtain r loop' where "guided_claim c cur (shared_loop s) = Inr (r, loop')" using guided_claim_ok [OF ok inv i] by blast
  then show ?thesis using Current_Read i by (cases r) (auto intro: guided_give guided_end)
next
  case (Storing c u)
  have "pc_ok S loop0 (pcs s ! i)" "length (pcs s) = t" using inv i by (simp_all add: sched_inv_def)
  then show ?thesis using guided_update_ok [OF ok inv, of u c] guided_store [OF i Storing] Storing by auto
qed (use nd in simp)

text \<open>
  A call of the scheduler that no other thread interrupts is a run of the steps of its thread, with
  the result and the descriptor that \<open>next_interval\<close> gives.
\<close>

lemma guided_call_run:
  assumes i: "i < length (pcs s)" "pcs s ! i = Asking" and "is_guided (shared_loop s)"
    and "next_guided param (int (length (pcs s))) (shared_loop s) = Inr (r, loop')"
  shows "(sched_step param i)\<^sup>*\<^sup>* s (s\<lparr>shared_loop := loop',
    pcs := (pcs s)[i := (case r of None \<Rightarrow> Done | Some _ \<Rightarrow> Asking)],
    handed := handed s @ (case r of None \<Rightarrow> [] | Some iv \<Rightarrow> [(i, iv)])\<rparr>)"
proof -
  define c cur where [simp]: "c = loop_chunk (shared_loop s)" "cur = loop_current (shared_loop s)"
  define s1 where "s1 = s\<lparr>pcs := (pcs s)[i := Chunk_Read c]\<rparr>"
  define s2 where "s2 = s\<lparr>pcs := (pcs s)[i := Current_Read c cur]\<rparr>"
  have "sched_step param i s s1" using guided_read_chunk [OF i assms(3)] by (simp add: s1_def)
  moreover have "sched_step param i s1 s2"
    using guided_read_current [of i s1 c param] i by (simp add: s1_def s2_def)
  ultimately have to_s2: "(sched_step param i)\<^sup>*\<^sup>* s s2" by auto
  have pc2: "i < length (pcs s2)" "pcs s2 ! i = Current_Read c cur" using i by (simp_all add: s2_def)
  obtain r1 loop1 where g: "guided_claim c cur (shared_loop s) = Inr (r1, loop1)"
    using assms(4) by (auto simp: next_guided_steps bindE_eq_Inr_iff)
  show ?thesis
  proof (cases r1)
    case None
    then have "r = None" "loop' = loop1" using assms(4) g by (simp_all add: next_guided_steps)
    moreover have "sched_step param i s2 (s2\<lparr>shared_loop := loop1, pcs := (pcs s2)[i := Done]\<rparr>)"
      using guided_end [OF pc2] g None by (simp add: s2_def)
    ultimately show ?thesis using to_s2 by (simp add: s2_def)
  next
    case (Some iv)
    then obtain l u where iv: "r1 = Some (l, u)" by (cases iv) auto
    then have r: "r = Some (l, u)" and up: "guided_update param (int (length (pcs s))) c u loop1 = Inr loop'"
      using assms(4) g by (auto simp: next_guided_steps bindE_eq_Inr_iff)
    define s3 where "s3 = s2\<lparr>shared_loop := loop1, pcs := (pcs s2)[i := Storing c u], handed := handed s2 @ [(i, l, u)]\<rparr>"
    have s4: "s3\<lparr>shared_loop := loop', pcs := (pcs s3)[i := Asking]\<rparr> =
        s\<lparr>shared_loop := loop', pcs := (pcs s)[i := Asking], handed := handed s @ [(i, l, u)]\<rparr>"
      by (simp add: s3_def s2_def)
    have "sched_step param i s2 s3" unfolding s3_def using guided_give [OF pc2] g iv by (simp add: s2_def)
    moreover have "sched_step param i s3 (s3\<lparr>shared_loop := loop', pcs := (pcs s3)[i := Asking]\<rparr>)"
      using guided_store [of i s3 c u param loop'] i up by (simp add: s3_def s2_def)
    ultimately have "(sched_step param i)\<^sup>*\<^sup>* s2 (s3\<lparr>shared_loop := loop', pcs := (pcs s3)[i := Asking]\<rparr>)" by auto
    with to_s2 show ?thesis unfolding r s4 by simp
  qed
qed

lemma dynamic_call_run:
  assumes i: "i < length (pcs s)" "pcs s ! i = Asking" and d: "is_dynamic (shared_loop s)"
    and "next_dynamic (shared_loop s) = Inr (r, loop')"
  shows "sched_step param i s (s\<lparr>shared_loop := loop',
    pcs := (pcs s)[i := (case r of None \<Rightarrow> Done | Some _ \<Rightarrow> Asking)],
    handed := handed s @ (case r of None \<Rightarrow> [] | Some iv \<Rightarrow> [(i, iv)])\<rparr>)"
proof (cases r)
  case None
  then show ?thesis using dynamic_end [OF i d] assms(4) by simp
next
  case (Some iv)
  have "(pcs s)[i := Asking] = pcs s" using i(2) by (metis list_update_id)
  then show ?thesis using dynamic_give [OF i d] assms(4) Some by simp
qed

text \<open>What the invariant says of a reachable state.\<close>

lemma reachable_inv:
  assumes "sched_ok_loop param t S loop" and "reachable param t loop s"
  shows "\<exists>p. sched_inv t S loop p s"
proof -
  have "team_inv param t S loop s"
    using assms by (intro team.inv_reachable [of _ _ _ _ "sched_start t loop"]) (simp_all add: team_start_def reachable_def)
  then show ?thesis by (simp add: team_inv_def)
qed

lemma inv_prefix:
  assumes "sched_inv t S loop p s"
  shows "handed_iterations (loop_inc loop) s =
    take (nat (min p (loop_trips loop))) (iterations (loop_lower loop) (loop_upper loop) (loop_inc loop))"
proof -
  define m where "m = min p (loop_trips loop)"
  have "0 \<le> p" using assms by (simp add: sched_inv_def)
  then have "take (nat m) [0..loop_trips loop - 1] = [0..m - 1]" if "0 \<le> m"
    using upto_append [OF that, of "loop_trips loop - 1", symmetric] that by (simp add: m_def)
  moreover have "take (nat m) [0..loop_trips loop - 1] = [0..m - 1]" if "\<not> 0 \<le> m"
    using that by simp
  ultimately have "take (nat m) [0..loop_trips loop - 1] = [0..m - 1]" by blast
  then show ?thesis using assms by (simp add: sched_inv_def iterations_def take_map loop_trips_def m_def)
qed

lemma inv_complete:
  assumes "sched_inv t S loop p s" and "Done \<in> set (pcs s)"
  shows "handed_iterations (loop_inc loop) s = iterations (loop_lower loop) (loop_upper loop) (loop_inc loop)"
proof -
  have "0 < finished s" using assms(2) by (metis finished_def count_list_0_iff gr0I)
  then have "loop_trips loop \<le> p" using assms(1) by (simp add: sched_inv_def)
  then show ?thesis using assms(1) by (simp add: sched_inv_def iterations_def loop_trips_def min_absorb2)
qed

lemma start_weight:
  assumes "sched_ok_loop param t S loop"
  shows "team_weight (sched_start t loop) = 4 * length (iterations (loop_lower loop) (loop_upper loop) (loop_inc loop)) + 3 * t"
proof -
  have "loop_current loop = loop_lower loop" using assms by (simp add: sched_ok_loop_def)
  moreover have "sum_list (map pc_weight (replicate t Asking)) = 3 * t" by (induction t) auto
  ultimately show ?thesis by (simp add: team_weight_def sched_start_def iterations_def)
qed

lemma stuck_done:
  assumes "sched_ok_loop param t S loop" and "sched_inv t S loop p s" and "\<nexists>s'. team_step param s s'"
  shows "pcs s = replicate t Done"
proof (rule nth_equalityI)
  show l: "length (pcs s) = length (replicate t Done)" using assms(2) by (simp add: sched_inv_def)
  fix i assume "i < length (pcs s)"
  then show "pcs s ! i = replicate t Done ! i"
    using thread_can_step [OF assms(1,2)] assms(3) l by (auto simp: team_step_def)
qed

lemma run_reachable: "(team_step param ^^ k) (sched_start t loop) s \<Longrightarrow> reachable param t loop s"
  by (auto simp: reachable_def rtranclp_power)

end
