(* ===== verification/Omp_Ordered.thy ===== *)
theory Omp_Ordered
  imports Omp_Dynamic
begin

text \<open>
  Ordered regions (\<^verbatim>\<open>libopenmp/schedule.c\<close>, \<^verbatim>\<open>__ompc_ordered\<close> and \<^verbatim>\<open>__ompc_end_ordered\<close>): the threads of a team
  that execute an ordered loop enter the ordered regions one at a time and in the order of the
  iterations, and no thread waits for ever.
\<close>

section \<open>The steps of the threads\<close>

text \<open>
  A thread of an ordered loop executes the intervals the scheduler gave it one after the other, and in
  every iteration one ordered region, bracketed by \<^verbatim>\<open>__ompc_ordered\<close> and \<^verbatim>\<open>__ompc_end_ordered\<close>. The
  state has the team and its threads, where each thread is, the intervals it still has to start, and
  the iterations whose regions have been entered, in order. \<^verbatim>\<open>__pmp_schedule_next\<close> sets the ticket of
  the thread to the first iteration of the interval it returns.
\<close>

datatype ordered_pc = Idle | Waiting "int list" | Region "int list"

record ordered_state =
  oteam :: pmp_team
  othreads :: "pmp_thread list"
  opcs :: "ordered_pc list"
  todo :: "(int \<times> int) list list"
  entered :: "int list"

inductive ordered_step :: "int \<Rightarrow> nat \<Rightarrow> ordered_state \<Rightarrow> ordered_state \<Rightarrow> bool" for inc i where
  begin_interval: "i < length (opcs s) \<Longrightarrow> opcs s ! i = Idle \<Longrightarrow> todo s ! i = (l, u) # ivs \<Longrightarrow>
    ordered_step inc i s (s\<lparr>othreads := (othreads s)[i := (othreads s ! i)\<lparr>ticket_number := l\<rparr>],
      opcs := (opcs s)[i := Waiting (iterations l u inc)], todo := (todo s)[i := ivs]\<rparr>)"
| enter: "i < length (opcs s) \<Longrightarrow> opcs s ! i = Waiting (x # xs) \<Longrightarrow>
    ompc_ordered (othreads s ! i) (oteam s) = Inr () \<Longrightarrow>
    ordered_step inc i s (s\<lparr>opcs := (opcs s)[i := Region (x # xs)], entered := entered s @ [x]\<rparr>)"
| leave: "i < length (opcs s) \<Longrightarrow> opcs s ! i = Region (x # xs) \<Longrightarrow>
    ompc_end_ordered (othreads s ! i) (oteam s) = Inr (thread, team) \<Longrightarrow>
    ordered_step inc i s (s\<lparr>oteam := team, othreads := (othreads s)[i := thread],
      opcs := (opcs s)[i := (if xs = [] then Idle else Waiting xs)]\<rparr>)"

definition ordered_team_step :: "int \<Rightarrow> ordered_state \<Rightarrow> ordered_state \<Rightarrow> bool" where
  "ordered_team_step inc s s' \<longleftrightarrow> (\<exists>i. ordered_step inc i s s')"

definition ordered_start :: "pmp_team \<Rightarrow> pmp_thread list \<Rightarrow> (int \<times> int) list list \<Rightarrow> ordered_state" where
  "ordered_start team threads ivs =
     \<lparr>oteam = team, othreads = threads, opcs = replicate (length threads) Idle, todo = ivs, entered = []\<rparr>"

section \<open>The invariant\<close>

primrec pc_list :: "ordered_pc \<Rightarrow> int list" where
  "pc_list Idle = []"
| "pc_list (Waiting xs) = xs"
| "pc_list (Region xs) = xs"

text \<open>The iterations a thread has still to finish, and the number of an iteration.\<close>

definition interval_list :: "int \<Rightarrow> (int \<times> int) list \<Rightarrow> int list" where
  "interval_list inc ivs = concat (map (\<lambda>(l, u). iterations l u inc) ivs)"

definition pending :: "int \<Rightarrow> ordered_state \<Rightarrow> nat \<Rightarrow> int list" where
  "pending inc s i = pc_list (opcs s ! i) @ interval_list inc (todo s ! i)"

definition loop_number :: "pmp_loop \<Rightarrow> int \<Rightarrow> int" where
  "loop_number loop x = (x - loop_lower loop) div loop_inc loop"

definition increasing :: "pmp_loop \<Rightarrow> int list \<Rightarrow> bool" where
  "increasing loop xs \<longleftrightarrow> sorted_wrt (<) (map (loop_number loop) xs)"

text \<open>
  \<open>shares loop t f k\<close>: the iterations from number \<open>k\<close> on are shared out among \<open>t\<close> threads, each thread's
  in increasing order.
\<close>

definition shares :: "pmp_loop \<Rightarrow> nat \<Rightarrow> (nat \<Rightarrow> int list) \<Rightarrow> int \<Rightarrow> bool" where
  "shares loop t f k \<longleftrightarrow> (\<forall>i < t. increasing loop (f i) \<and> set (f i) \<subseteq> position loop ` {k..<loop_trips loop}) \<and>
     (\<forall>j \<in> {k..<loop_trips loop}. \<exists>!i. i < t \<and> position loop j \<in> set (f i))"

definition ordered_inv :: "pmp_loop \<Rightarrow> nat \<Rightarrow> nat \<Rightarrow> int \<Rightarrow> ordered_state \<Rightarrow> bool" where
  "ordered_inv loop d t k s \<longleftrightarrow>
     loop_ok (loop_lower loop) (loop_upper loop) (loop_inc loop) \<and> 0 \<le> k \<and> k \<le> loop_trips loop \<and> 1 < t \<and>
     length (othreads s) = t \<and> length (opcs s) = t \<and> length (todo s) = t \<and>
     team_size (oteam s) = int t \<and> d < length (team_loops (oteam s)) \<and>
     PMP_SCHED_ORDERED_OFFSET < loop_sched (team_loops (oteam s) ! d) \<and>
     loop_inc (team_loops (oteam s) ! d) = loop_inc loop \<and> now_serving (team_loops (oteam s) ! d) = position loop k \<and>
     (\<forall>i < t. in_team (othreads s ! i) \<and> thread_loop (othreads s ! i) = Some d \<and>
       (opcs s ! i \<noteq> Idle \<longrightarrow> consecutive loop (ticket_number (othreads s ! i)) (pc_list (opcs s ! i))) \<and>
       (\<forall>xs. opcs s ! i = Region xs \<longrightarrow> ticket_number (othreads s ! i) = position loop k) \<and>
       (\<forall>(l, u) \<in> set (todo s ! i). consecutive loop l (iterations l u (loop_inc loop)))) \<and>
     shares loop t (pending (loop_inc loop) s) k \<and>
     entered s = map (position loop) [0..k - 1] @ (if \<exists>i < t. \<exists>xs. opcs s ! i = Region xs then [position loop k] else [])"

section \<open>Consecutive runs and shares\<close>

lemma loop_number_position [simp]: "loop_inc loop \<noteq> 0 \<Longrightarrow> loop_number loop (position loop j) = j"
  by (simp add: loop_number_def)

lemma position_eq_iff: "loop_inc loop \<noteq> 0 \<Longrightarrow> position loop j = position loop k \<longleftrightarrow> j = k"
  by simp

lemma consecutive_Cons:
  assumes "consecutive loop x (y # ys)"
  shows "y = x" and "ys \<noteq> [] \<Longrightarrow> consecutive loop (x + loop_inc loop) ys"
proof -
  obtain a b where ab: "a \<le> b" "x = position loop a" "y # ys = map (position loop) [a..b]"
    using assms by (auto simp: consecutive_def)
  then have *: "y = x" "ys = map (position loop) [a + 1..b]" by (simp_all add: upto_Cons)
  show "y = x" by (rule *)
  assume "ys \<noteq> []"
  then have "a + 1 \<le> b" using * by (cases "a + 1 \<le> b") auto
  then show "consecutive loop (x + loop_inc loop) ys"
    unfolding consecutive_def using *(2) ab(2) by (intro exI [of _ "a + 1"] exI [of _ b]) (simp add: algebra_simps)
qed

lemma consecutive_nonempty: "consecutive loop x xs \<Longrightarrow> xs \<noteq> []"
  by (auto simp: consecutive_def)

lemma sharesD:
  assumes "shares loop t f k" and "i < t"
  shows "increasing loop (f i)" and "y \<in> set (f i) \<Longrightarrow> \<exists>m. y = position loop m \<and> k \<le> m \<and> m < loop_trips loop"
  using assms unfolding shares_def by (blast, meson atLeastLessThan_iff imageE subsetD)

text \<open>The thread that has iteration \<open>k\<close> has it first, and finishing it leaves the shares from \<open>k + 1\<close> on.\<close>

lemma shares_first:
  assumes "shares loop t f k" and "i < t" and "position loop k \<in> set (f i)" and "loop_inc loop \<noteq> 0"
  shows "\<exists>xs. f i = position loop k # xs"
proof (cases "f i")
  case (Cons y ys)
  have inc: "\<forall>z \<in> set ys. loop_number loop y < loop_number loop z"
    using sharesD(1) [OF assms(1,2)] Cons by (auto simp: increasing_def)
  obtain j where j: "y = position loop j" "k \<le> j" using sharesD(2) [OF assms(1,2), of y] Cons by auto
  have "y = position loop k"
  proof (rule ccontr)
    assume "y \<noteq> position loop k"
    then have "loop_number loop y < k" using inc assms(3,4) Cons by auto
    then show False using j assms(4) by simp
  qed
  then show ?thesis using Cons by simp
qed (use assms(3) in simp)

lemma shares_finish:
  assumes "shares loop t f k" and "i < t" and "f i = position loop k # xs" and "loop_inc loop \<noteq> 0"
  shows "shares loop t (f(i := xs)) (k + 1)"
proof -
  have x: "position loop j \<in> set xs \<longleftrightarrow> j \<noteq> k \<and> position loop j \<in> set (f i)" for j
  proof -
    have "\<forall>z \<in> set xs. k < loop_number loop z"
      using sharesD(1) [OF assms(1,2)] assms(3,4) by (auto simp: increasing_def)
    then have "position loop k \<notin> set xs" using assms(4) by auto
    then show ?thesis using assms(3,4) by auto
  qed
  have sub: "set (f j) \<subseteq> position loop ` {k + 1..<loop_trips loop}" if "j < t" "j \<noteq> i" for j
  proof
    fix y assume y: "y \<in> set (f j)"
    then obtain m where m: "y = position loop m" "k \<le> m" "m < loop_trips loop"
      using sharesD(2) [OF assms(1) \<open>j < t\<close> y] by blast
    have "m \<noteq> k"
    proof
      assume "m = k"
      then have "\<exists>!i. i < t \<and> position loop k \<in> set (f i)" using assms(1) m by (simp add: shares_def)
      moreover have "position loop k \<in> set (f i)" "position loop k \<in> set (f j)" using assms(3) y m(1) \<open>m = k\<close> by auto
      ultimately show False using assms(2) that by blast
    qed
    with m show "y \<in> position loop ` {k + 1..<loop_trips loop}" by (intro image_eqI [of _ _ m]) auto
  qed
  have xs: "set xs \<subseteq> position loop ` {k + 1..<loop_trips loop}"
  proof
    fix y assume y: "y \<in> set xs"
    then obtain m where m: "y = position loop m" "k \<le> m" "m < loop_trips loop"
      using sharesD(2) [OF assms(1,2), of y] assms(3) by auto
    then have "m \<noteq> k" using x [of m] y by simp
    with m show "y \<in> position loop ` {k + 1..<loop_trips loop}" by (intro image_eqI [of _ _ m]) auto
  qed
  have "increasing loop xs" using sharesD(1) [OF assms(1,2)] assms(3) by (auto simp: increasing_def)
  moreover have "\<exists>!i'. i' < t \<and> position loop j \<in> set ((f(i := xs)) i')" if "j \<in> {k + 1..<loop_trips loop}" for j
  proof -
    have "\<exists>!i. i < t \<and> position loop j \<in> set (f i)" using assms(1) that by (simp add: shares_def)
    moreover have "position loop j \<in> set ((f(i := xs)) i') \<longleftrightarrow> position loop j \<in> set (f i')" for i'
      using x [of j] that by auto
    ultimately show ?thesis by simp
  qed
  ultimately show ?thesis using assms(1) sub xs by (auto simp: shares_def)
qed

section \<open>Every step keeps the invariant\<close>

lemma ordered_invD:
  assumes "ordered_inv loop d t k s"
  shows "loop_ok (loop_lower loop) (loop_upper loop) (loop_inc loop)" and "loop_inc loop \<noteq> 0"
    and "0 \<le> k" and "k \<le> loop_trips loop" and "length (opcs s) = t" and "length (othreads s) = t" and "length (todo s) = t"
    and "shares loop t (pending (loop_inc loop) s) k"
    and "i < t \<Longrightarrow> opcs s ! i \<noteq> Idle \<Longrightarrow> consecutive loop (ticket_number (othreads s ! i)) (pc_list (opcs s ! i))"
    and "i < t \<Longrightarrow> opcs s ! i = Region xs \<Longrightarrow> ticket_number (othreads s ! i) = position loop k"
    and "i < t \<Longrightarrow> (l, u) \<in> set (todo s ! i) \<Longrightarrow> consecutive loop l (iterations l u (loop_inc loop))"
  using assms unfolding ordered_inv_def by (auto simp: loop_ok_def)

text \<open>What the two runtime calls do in a state of the team.\<close>

lemma ordered_call:
  assumes "ordered_inv loop d t k s" and "i < t"
  shows "ompc_ordered (othreads s ! i) (oteam s) = Inr () \<longleftrightarrow> ticket_number (othreads s ! i) = position loop k"
  using assms by (auto simp: ordered_inv_def ompc_ordered_def pmp_get_team_size_def ordered_loop_def)

lemma end_ordered_call:
  assumes "ordered_inv loop d t k s" and "i < t" and "ticket_number (othreads s ! i) = position loop k" and "k < loop_trips loop"
  shows "ompc_end_ordered (othreads s ! i) (oteam s) =
    Inr ((othreads s ! i)\<lparr>ticket_number := position loop (k + 1)\<rparr>,
      (oteam s)\<lparr>team_loops := (team_loops (oteam s))[d := (team_loops (oteam s) ! d)\<lparr>now_serving := position loop (k + 1)\<rparr>]\<rparr>)"
proof -
  have "\<bar>position loop (k + 1)\<bar> \<le> 2 ^ 62"
    using position_bound [of "loop_lower loop" "loop_upper loop" "loop_inc loop" "k + 1" 0] ordered_invD(1,3) [OF assms(1)] assms(4)
    by (simp add: loop_trips_def)
  then have "int64 (position loop k + loop_inc loop) = Inr (position loop (k + 1))"
    by (subst int64_abs) (simp_all add: algebra_simps)
  then show ?thesis
    using assms by (simp add: ordered_inv_def ompc_end_ordered_def pmp_get_team_size_def ordered_loop_def)
qed

text \<open>No two threads are in the region of one iteration.\<close>

lemma region_unique:
  assumes "ordered_inv loop d t k s" and "i < t" and "j < t"
    and "opcs s ! i \<noteq> Idle" and "ticket_number (othreads s ! i) = position loop k"
    and "opcs s ! j \<noteq> Idle" and "ticket_number (othreads s ! j) = position loop k"
  shows "i = j" and "k < loop_trips loop"
proof -
  have "position loop k \<in> set (pending (loop_inc loop) s i')"
    if "i' < t" "opcs s ! i' \<noteq> Idle" "ticket_number (othreads s ! i') = position loop k" for i'
  proof -
    have c: "consecutive loop (position loop k) (pc_list (opcs s ! i'))" using ordered_invD(9) [OF assms(1) that(1,2)] that(3) by simp
    then obtain y ys where "pc_list (opcs s ! i') = y # ys" using consecutive_nonempty by (cases "pc_list (opcs s ! i')") auto
    with consecutive_Cons(1) c show ?thesis by (fastforce simp: pending_def)
  qed
  then have m: "position loop k \<in> set (pending (loop_inc loop) s i)" "position loop k \<in> set (pending (loop_inc loop) s j)"
    using assms by blast+
  note sh = ordered_invD(8) [OF assms(1)]
  obtain m where "position loop k = position loop m" "m < loop_trips loop" using sharesD(2) [OF sh assms(2) m(1)] by blast
  then show k: "k < loop_trips loop" using ordered_invD(2) [OF assms(1)] by simp
  then have "\<exists>!i. i < t \<and> position loop k \<in> set (pending (loop_inc loop) s i)" using sh by (simp add: shares_def)
  then show "i = j" using m assms(2,3) by blast
qed

lemma shares_cong: "(\<And>i. i < t \<Longrightarrow> f i = g i) \<Longrightarrow> shares loop t f k = shares loop t g k"
  unfolding shares_def by (intro arg_cong2 [where f = conj] ball_cong all_cong) auto

lemma begin_keeps:
  assumes inv: "ordered_inv loop d t k s" and i: "i < t" and "opcs s ! i = Idle" and td: "todo s ! i = (l, u) # ivs"
  shows "ordered_inv loop d t k (s\<lparr>othreads := (othreads s)[i := (othreads s ! i)\<lparr>ticket_number := l\<rparr>],
      opcs := (opcs s)[i := Waiting (iterations l u (loop_inc loop))], todo := (todo s)[i := ivs]\<rparr>)" (is "ordered_inv _ _ _ _ ?s")
proof -
  note len = ordered_invD(5-7) [OF inv]
  have "pending (loop_inc loop) ?s j = pending (loop_inc loop) s j" if "j < t" for j
    using that i assms(3) td len by (auto simp: pending_def interval_list_def nth_list_update)
  then have "shares loop t (pending (loop_inc loop) ?s) k = shares loop t (pending (loop_inc loop) s) k" by (rule shares_cong)
  moreover have "(\<exists>xs. opcs ?s ! j = Region xs) \<longleftrightarrow> (\<exists>xs. opcs s ! j = Region xs)" if "j < t" for j
    using that i assms(3) len by (auto simp: nth_list_update)
  then have "(\<exists>j < t. \<exists>xs. opcs ?s ! j = Region xs) \<longleftrightarrow> (\<exists>j < t. \<exists>xs. opcs s ! j = Region xs)" by blast
  moreover have "consecutive loop l (iterations l u (loop_inc loop))" using ordered_invD(11) [OF inv i] td by simp
  ultimately show ?thesis using assms len unfolding ordered_inv_def by (auto simp: nth_list_update)
qed

lemma enter_keeps:
  assumes inv: "ordered_inv loop d t k s" and i: "i < t" and pc: "opcs s ! i = Waiting (x # xs)"
    and "ompc_ordered (othreads s ! i) (oteam s) = Inr ()"
  shows "ordered_inv loop d t k (s\<lparr>opcs := (opcs s)[i := Region (x # xs)], entered := entered s @ [x]\<rparr>)"
    (is "ordered_inv _ _ _ _ ?s")
proof -
  note len = ordered_invD(5-7) [OF inv]
  have tk: "ticket_number (othreads s ! i) = position loop k" using ordered_call [OF inv i] assms(4) by simp
  have "x = position loop k" using ordered_invD(9) [OF inv i] pc tk consecutive_Cons(1) by fastforce
  moreover have "pending (loop_inc loop) ?s j = pending (loop_inc loop) s j" if "j < t" for j
    using that i pc len by (auto simp: pending_def nth_list_update)
  then have "shares loop t (pending (loop_inc loop) ?s) k = shares loop t (pending (loop_inc loop) s) k" by (rule shares_cong)
  moreover have "opcs s ! j \<noteq> Region ys" if "j < t" for j ys
    using region_unique(1) [OF inv i that] ordered_invD(10) [OF inv that] pc tk by fastforce
  moreover have "\<exists>j < t. \<exists>ys. opcs ?s ! j = Region ys" using i len by (intro exI [of _ i]) simp
  ultimately show ?thesis using inv i pc tk len unfolding ordered_inv_def by (auto simp: nth_list_update)
qed

lemma leave_keeps:
  assumes inv: "ordered_inv loop d t k s" and i: "i < t" and pc: "opcs s ! i = Region (x # xs)"
    and call: "ompc_end_ordered (othreads s ! i) (oteam s) = Inr (thread, team)"
  shows "ordered_inv loop d t (k + 1) (s\<lparr>oteam := team, othreads := (othreads s)[i := thread],
      opcs := (opcs s)[i := (if xs = [] then Idle else Waiting xs)]\<rparr>)" (is "ordered_inv _ _ _ _ ?s")
proof -
  note len = ordered_invD(5-7) [OF inv] and inc = ordered_invD(2) [OF inv]
  have tk: "ticket_number (othreads s ! i) = position loop k" using ordered_invD(10) [OF inv i pc] .
  have k: "k < loop_trips loop" using region_unique(2) [OF inv i i] pc tk by simp
  have c: "consecutive loop (position loop k) (x # xs)" using ordered_invD(9) [OF inv i] pc tk by simp
  have x: "x = position loop k" by (rule consecutive_Cons(1) [OF c])
  have xs: "xs \<noteq> [] \<Longrightarrow> consecutive loop (position loop (k + 1)) xs"
    using consecutive_Cons(2) [OF c] by (simp add: algebra_simps)
  have r: "thread = (othreads s ! i)\<lparr>ticket_number := position loop (k + 1)\<rparr>"
    "team = (oteam s)\<lparr>team_loops := (team_loops (oteam s))[d := (team_loops (oteam s) ! d)\<lparr>now_serving := position loop (k + 1)\<rparr>]\<rparr>"
    using end_ordered_call [OF inv i tk k] call by simp_all
  have "pending (loop_inc loop) s i = position loop k # (xs @ interval_list (loop_inc loop) (todo s ! i))"
    using pc x by (simp add: pending_def)
  from shares_finish [OF ordered_invD(8) [OF inv] i this inc]
  have "shares loop t ((pending (loop_inc loop) s)(i := xs @ interval_list (loop_inc loop) (todo s ! i))) (k + 1)" .
  moreover have "((pending (loop_inc loop) s)(i := xs @ interval_list (loop_inc loop) (todo s ! i))) j = pending (loop_inc loop) ?s j"
    if "j < t" for j using that i len by (auto simp: pending_def nth_list_update)
  ultimately have "shares loop t (pending (loop_inc loop) ?s) (k + 1)" by (simp cong: shares_cong)
  moreover have other: "opcs s ! j \<noteq> Region ys" if "j < t" "j \<noteq> i" for j ys
    using region_unique(1) [OF inv i that(1)] ordered_invD(10) [OF inv that(1)] pc tk that(2) by fastforce
  moreover have "\<exists>j < t. \<exists>ys. opcs s ! j = Region ys" using i pc by blast
  then have "entered s = map (position loop) ([0..k - 1] @ [k])" using inv by (simp add: ordered_inv_def)
  then have "entered s = map (position loop) [0..k]" using ordered_invD(3) [OF inv] upto_rec2 [of 0 k] by simp
  ultimately show ?thesis
    using inv i k xs len unfolding ordered_inv_def r by (auto simp: nth_list_update)
qed

section \<open>Runs of an ordered loop\<close>

text \<open>
  The regions left to enter and to leave and the intervals left to begin: every step uses up one of them.
\<close>

primrec pc_steps :: "ordered_pc \<Rightarrow> nat" where
  "pc_steps Idle = 0"
| "pc_steps (Waiting xs) = 2 * length xs"
| "pc_steps (Region xs) = 2 * length xs - 1"

definition thread_steps :: "int \<Rightarrow> ordered_pc \<Rightarrow> (int \<times> int) list \<Rightarrow> nat" where
  "thread_steps inc pc ivs = pc_steps pc + 2 * length (interval_list inc ivs) + length ivs"

definition ordered_weight :: "int \<Rightarrow> ordered_state \<Rightarrow> nat" where
  "ordered_weight inc s = (\<Sum>i < length (opcs s). thread_steps inc (opcs s ! i) (todo s ! i))"

lemma ordered_weight_less:
  assumes "i < length (opcs s)" and "length (opcs s') = length (opcs s)"
    and "thread_steps inc (opcs s' ! i) (todo s' ! i) < thread_steps inc (opcs s ! i) (todo s ! i)"
    and "\<And>j. j \<noteq> i \<Longrightarrow> opcs s' ! j = opcs s ! j \<and> todo s' ! j = todo s ! j"
  shows "ordered_weight inc s' < ordered_weight inc s"
  unfolding ordered_weight_def assms(2)
proof (rule sum_strict_mono_ex1)
  show "\<forall>j \<in> {..<length (opcs s)}. thread_steps inc (opcs s' ! j) (todo s' ! j) \<le> thread_steps inc (opcs s ! j) (todo s ! j)"
    using assms(3,4) by (metis less_imp_le order_refl)
qed (use assms(1,3) in auto)

lemma ordered_step_weight:
  assumes "ordered_step inc i s s'" and "length (todo s) = length (opcs s)"
  shows "ordered_weight inc s' < ordered_weight inc s"
  using assms(1)
proof cases
  case (begin_interval l u ivs)
  then show ?thesis
    using assms(2) by (intro ordered_weight_less [of i]) (simp_all add: thread_steps_def interval_list_def)
next
  case (enter x xs)
  then show ?thesis by (intro ordered_weight_less [of i]) (simp_all add: thread_steps_def)
next
  case (leave x xs thread team)
  then show ?thesis by (intro ordered_weight_less [of i]) (simp_all add: thread_steps_def)
qed

lemma ordered_step_keeps:
  assumes "ordered_inv loop d t k s" and "ordered_step (loop_inc loop) i s s'"
  shows "\<exists>k. ordered_inv loop d t k s'"
  using assms(2)
proof cases
  case (begin_interval l u ivs)
  then show ?thesis using begin_keeps [OF assms(1) _ begin_interval(3,4)] ordered_invD(5) [OF assms(1)] by blast
next
  case (enter x xs)
  then show ?thesis using enter_keeps [OF assms(1) _ enter(3,4)] ordered_invD(5) [OF assms(1)] by blast
next
  case (leave x xs thread team)
  then show ?thesis using leave_keeps [OF assms(1) _ leave(3,4)] ordered_invD(5) [OF assms(1)] by blast
qed

text \<open>While iterations are left, the thread that has the next one can go on.\<close>

lemma ordered_progress:
  assumes inv: "ordered_inv loop d t k s" and k: "k < loop_trips loop"
  shows "\<exists>i s'. ordered_step (loop_inc loop) i s s'"
proof -
  note sh = ordered_invD(8) [OF inv]
  obtain i where i: "i < t" "position loop k \<in> set (pending (loop_inc loop) s i)"
    using sh k ordered_invD(3) [OF inv] unfolding shares_def by (metis atLeastLessThan_iff order_refl)
  obtain xs where p: "pending (loop_inc loop) s i = position loop k # xs"
    using shares_first [OF sh i ordered_invD(2) [OF inv]] by blast
  have il: "i < length (opcs s)" using i ordered_invD(5) [OF inv] by simp
  show ?thesis
  proof (cases "opcs s ! i")
    case Idle
    then obtain iv ivs where "todo s ! i = iv # ivs" using p by (cases "todo s ! i") (auto simp: pending_def interval_list_def)
    then show ?thesis using begin_interval [OF il Idle] by (cases iv) blast
  next
    case (Waiting ys)
    then have c: "consecutive loop (ticket_number (othreads s ! i)) ys" using ordered_invD(9) [OF inv i(1)] by simp
    then obtain z zs where ys: "ys = z # zs" using consecutive_nonempty by (cases ys) auto
    have "ticket_number (othreads s ! i) = position loop k"
      using consecutive_Cons(1) [OF c [unfolded ys]] p Waiting ys by (simp add: pending_def)
    then show ?thesis using enter [OF il] ordered_call [OF inv i(1)] Waiting ys by blast
  next
    case (Region ys)
    then have c: "consecutive loop (ticket_number (othreads s ! i)) ys" using ordered_invD(9) [OF inv i(1)] by simp
    then obtain z zs where ys: "ys = z # zs" using consecutive_nonempty by (cases ys) auto
    have "ticket_number (othreads s ! i) = position loop k" using ordered_invD(10) [OF inv i(1) Region] .
    then show ?thesis using leave [OF il] end_ordered_call [OF inv i(1) _ k] Region ys by blast
  qed
qed

text \<open>
  \<open>ordered_ok loop d team threads ivs\<close>: the threads of a team are about to execute an ordered loop whose
  iterations the scheduler has shared out among them as the intervals \<open>ivs\<close>.
\<close>

definition ordered_ok :: "pmp_loop \<Rightarrow> nat \<Rightarrow> pmp_team \<Rightarrow> pmp_thread list \<Rightarrow> (int \<times> int) list list \<Rightarrow> bool" where
  "ordered_ok loop d team threads ivs \<longleftrightarrow>
     loop_ok (loop_lower loop) (loop_upper loop) (loop_inc loop) \<and> 1 < length threads \<and> length ivs = length threads \<and>
     team_size team = int (length threads) \<and> d < length (team_loops team) \<and> team_loops team ! d = loop \<and>
     PMP_SCHED_ORDERED_OFFSET < loop_sched loop \<and> now_serving loop = loop_lower loop \<and>
     (\<forall>thread \<in> set threads. in_team thread \<and> thread_loop thread = Some d) \<and>
     (\<forall>l u. (l, u) \<in> \<Union>(set ` set ivs) \<longrightarrow> consecutive loop l (iterations l u (loop_inc loop))) \<and>
     shares loop (length threads) (\<lambda>i. interval_list (loop_inc loop) (ivs ! i)) 0"

lemma ordered_start_inv:
  assumes "ordered_ok loop d team threads ivs"
  shows "ordered_inv loop d (length threads) 0 (ordered_start team threads ivs)"
proof -
  have "1 \<le> loop_trips loop" using assms trips_pos by (simp add: ordered_ok_def loop_trips_def)
  moreover have "shares loop (length threads) (pending (loop_inc loop) (ordered_start team threads ivs)) 0 =
      shares loop (length threads) (\<lambda>i. interval_list (loop_inc loop) (ivs ! i)) 0"
    by (rule shares_cong) (simp add: pending_def ordered_start_def)
  moreover have "consecutive loop l (iterations l u (loop_inc loop))" if "i < length threads" "(l, u) \<in> set (ivs ! i)" for i l u
    using that assms unfolding ordered_ok_def by (metis UN_I nth_mem)
  ultimately show ?thesis
    using assms by (auto simp: ordered_inv_def ordered_ok_def ordered_start_def)
qed

interpretation ordered: bounded_steps "ordered_team_step (loop_inc loop)"
  "\<lambda>s. ordered_ok loop d team threads ivs \<and> s = ordered_start team threads ivs"
  "\<lambda>s. \<exists>k. ordered_inv loop d (length threads) k s" "ordered_weight (loop_inc loop)"
  for loop d team threads ivs
proof
  show "\<exists>k. ordered_inv loop d (length threads) k s"
    if "ordered_ok loop d team threads ivs \<and> s = ordered_start team threads ivs" for s
    using that ordered_start_inv by blast
  show "\<exists>k. ordered_inv loop d (length threads) k s'"
    if "\<exists>k. ordered_inv loop d (length threads) k s" "ordered_team_step (loop_inc loop) s s'" for s s'
    using that ordered_step_keeps unfolding ordered_team_step_def by blast
  show "ordered_weight (loop_inc loop) s' < ordered_weight (loop_inc loop) s"
    if "\<exists>k. ordered_inv loop d (length threads) k s" "ordered_team_step (loop_inc loop) s s'" for s s'
    using that ordered_step_weight ordered_invD(5,7) unfolding ordered_team_step_def by metis
qed

section \<open>Ordered loops with a dynamic or guided schedule\<close>

text \<open>The intervals a run of the scheduler gave to a thread are shares of the loop.\<close>

definition thread_intervals :: "sched_state \<Rightarrow> nat \<Rightarrow> (int \<times> int) list" where
  "thread_intervals s i = map snd (filter (\<lambda>h. fst h = i) (handed s))"

lemma sorted_concat_filter:
  "sorted_wrt R (concat (map f hs)) \<Longrightarrow> sorted_wrt R (concat (map f (filter P hs)))"
  by (induction hs) (auto simp: sorted_wrt_append)

lemma distinct_concat_unique:
  "distinct (concat (map f hs)) \<Longrightarrow> h \<in> set hs \<Longrightarrow> h' \<in> set hs \<Longrightarrow> x \<in> set (f h) \<Longrightarrow> x \<in> set (f h') \<Longrightarrow> h = h'"
  by (induction hs) auto

lemma handed_shares:
  assumes "sched_ok_loop param t S loop" and "sched_inv t S loop p s" and "Done \<in> set (pcs s)"
  shows "shares loop t (\<lambda>i. interval_list (loop_inc loop) (thread_intervals s i)) 0"
proof -
  define f where "f = (\<lambda>(i :: nat, l, u). iterations l u (loop_inc loop))"
  have inc: "loop_inc loop \<noteq> 0" using assms(1) by (auto simp: sched_ok_loop_def loop_ok_def)
  have all: "concat (map f (handed s)) = map (position loop) [0..loop_trips loop - 1]"
    using inv_complete [OF assms(2,3)] by (simp add: handed_iterations_def f_def iterations_def loop_trips_def)
  have own: "interval_list (loop_inc loop) (thread_intervals s i) = concat (map f (filter (\<lambda>h. fst h = i) (handed s)))" for i
    by (simp add: interval_list_def thread_intervals_def f_def comp_def case_prod_unfold)
  have num: "map (loop_number loop) (map (position loop) [0..loop_trips loop - 1]) = [0..loop_trips loop - 1]"
    using inc by (simp add: comp_def)
  have "sorted_wrt (<) (map (loop_number loop) (concat (map f (handed s))))" unfolding all num by simp
  then have srt: "sorted_wrt (\<lambda>x y. loop_number loop x < loop_number loop y) (concat (map f (handed s)))"
    by (simp add: sorted_wrt_map)
  have "increasing loop (interval_list (loop_inc loop) (thread_intervals s i))" for i
    unfolding increasing_def own sorted_wrt_map by (rule sorted_concat_filter [OF srt])
  moreover have mem: "x \<in> set (interval_list (loop_inc loop) (thread_intervals s i)) \<longleftrightarrow>
      (\<exists>h \<in> set (handed s). fst h = i \<and> x \<in> set (f h))" for x i
    unfolding own by (simp only: set_concat set_map set_filter) blast
  have sub: "set (interval_list (loop_inc loop) (thread_intervals s i)) \<subseteq> position loop ` {0..<loop_trips loop}" for i
  proof
    fix x assume "x \<in> set (interval_list (loop_inc loop) (thread_intervals s i))"
    then have "x \<in> set (concat (map f (handed s)))" by (auto simp: mem)
    then show "x \<in> position loop ` {0..<loop_trips loop}" unfolding all by auto
  qed
  have dist: "distinct (concat (map f (handed s)))"
    unfolding all using inc by (simp add: distinct_map inj_on_def)
  have "\<exists>!i. i < t \<and> position loop j \<in> set (interval_list (loop_inc loop) (thread_intervals s i))"
    if "j \<in> {0..<loop_trips loop}" for j
  proof -
    have "position loop j \<in> set (concat (map f (handed s)))" unfolding all using that by auto
    then obtain h where h: "h \<in> set (handed s)" "position loop j \<in> set (f h)" by auto
    have "fst h < t" using assms(2) h(1) by (force simp: sched_inv_def)
    moreover have "i = fst h" if "position loop j \<in> set (interval_list (loop_inc loop) (thread_intervals s i))" for i
      using that distinct_concat_unique [OF dist h(1) _ h(2)] by (auto simp: mem)
    ultimately show ?thesis using h by (intro ex1I [of _ "fst h"]) (auto simp: mem)
  qed
  ultimately show ?thesis using sub by (simp add: shares_def)
qed

lemma handed_ordered_ok:
  assumes "sched_ok_loop param t S loop" and "sched_inv t S loop p s" and "Done \<in> set (pcs s)"
    and "PMP_SCHED_ORDERED_OFFSET < loop_sched loop" and "now_serving loop = loop_lower loop"
    and "length threads = t" and "team_size team = int t" and "d < length (team_loops team)" and "team_loops team ! d = loop"
    and "\<forall>thread \<in> set threads. in_team thread \<and> thread_loop thread = Some d"
  shows "ordered_ok loop d team threads (map (thread_intervals s) [0..<t])"
proof -
  have "consecutive loop l (iterations l u (loop_inc loop))"
    if "(l, u) \<in> \<Union>(set ` set (map (thread_intervals s) [0..<t]))" for l u
    using that assms(2) by (fastforce simp: thread_intervals_def sched_inv_def)
  moreover have "shares loop t (\<lambda>i. interval_list (loop_inc loop) (map (thread_intervals s) [0..<t] ! i)) 0 =
      shares loop t (\<lambda>i. interval_list (loop_inc loop) (thread_intervals s i)) 0"
    by (rule shares_cong) simp
  moreover have "1 < t" using assms(1) by (auto simp: sched_ok_loop_def team_ok_def)
  ultimately show ?thesis
    using handed_shares [OF assms(1-3)] assms by (simp add: ordered_ok_def sched_ok_loop_def)
qed

section \<open>What the invariant says\<close>

lemma ordered_reachable_inv:
  assumes "ordered_ok loop d team threads ivs" and "(ordered_team_step (loop_inc loop))\<^sup>*\<^sup>* (ordered_start team threads ivs) s"
  shows "\<exists>k. ordered_inv loop d (length threads) k s"
  using ordered.inv_reachable [of loop d team threads ivs, OF _ assms(2)] assms(1) by blast

lemma ordered_inv_entered:
  assumes "ordered_inv loop d t k s"
  shows "\<exists>p. entered s = take p (iterations (loop_lower loop) (loop_upper loop) (loop_inc loop))"
proof -
  define n where "n = loop_trips loop"
  have all: "iterations (loop_lower loop) (loop_upper loop) (loop_inc loop) = map (position loop) [0..n - 1]"
    by (simp add: iterations_def n_def loop_trips_def)
  have k: "0 \<le> k" "k \<le> n" using ordered_invD(3,4) [OF assms] by (simp_all add: n_def)
  have pre: "[0..m - 1] = take (nat m) [0..n - 1]" if "0 \<le> m" "m \<le> n" for m
    using upto_append [of 0 m "n - 1", symmetric] that by simp
  show ?thesis
  proof (cases "\<exists>i < t. \<exists>xs. opcs s ! i = Region xs")
    case True
    then obtain i xs where i: "i < t" "opcs s ! i = Region xs" by blast
    have "k < n" using region_unique(2) [OF assms i(1) i(1)] ordered_invD(10) [OF assms i] i(2) by (simp add: n_def)
    then have "[0..k - 1] @ [k] = take (nat (k + 1)) [0..n - 1]" using pre [of "k + 1"] k upto_rec2 [of 0 k] by simp
    moreover have "entered s = map (position loop) ([0..k - 1] @ [k])"
      using assms True by (simp add: ordered_inv_def)
    ultimately show ?thesis unfolding all take_map by metis
  next
    case False
    then have "entered s = map (position loop) [0..k - 1]" using assms by (simp add: ordered_inv_def)
    then show ?thesis unfolding all take_map using pre [OF k] by metis
  qed
qed

lemma ordered_stuck:
  assumes "ordered_inv loop d t k s" and "\<nexists>s'. ordered_team_step (loop_inc loop) s s'"
  shows "entered s = iterations (loop_lower loop) (loop_upper loop) (loop_inc loop)"
proof -
  have k: "k = loop_trips loop"
    using ordered_progress [OF assms(1)] assms(2) ordered_invD(4) [OF assms(1)] by (force simp: ordered_team_step_def)
  have "opcs s ! i \<noteq> Region xs" if "i < t" for i xs
    using region_unique(2) [OF assms(1) that that] ordered_invD(10) [OF assms(1) that] k by force
  then have "entered s = map (position loop) [0..k - 1]" using assms(1) by (simp add: ordered_inv_def)
  then show ?thesis by (simp add: k iterations_def loop_trips_def)
qed

lemma ordered_start_steps:
  assumes "length ivs = length threads"
  shows "ordered_weight inc (ordered_start team threads ivs) =
    sum_list (map (\<lambda>iv. 2 * length (interval_list inc iv) + length iv) ivs)"
  using assms by (simp add: ordered_weight_def ordered_start_def thread_steps_def sum_list_sum_nth atLeast0LessThan)

end
