(* ===== verification/Omp_Chunks.thy ===== *)
theory Omp_Chunks
  imports Omp_Ordered
begin

text \<open>
  Statically scheduled loops that are handed out call by call (\<^verbatim>\<open>libopenmp/schedule.c\<close>,
  \<^verbatim>\<open>__pmp_schedule_next\<close> on the static schedules, which ordered loops use): the calls of a thread end and give it
  the chunks of one contiguous block, and the blocks of the threads share the loop out.
\<close>

text \<open>
  The intervals that \<^verbatim>\<open>__pmp_schedule_next\<close> gives a thread of a statically scheduled loop, call after call
  until it returns 0; \<open>fuel\<close> bounds the number of calls.
\<close>

primrec static_calls :: "nat \<Rightarrow> pmp_param \<Rightarrow> int \<Rightarrow> int \<Rightarrow> int \<Rightarrow> pmp_loop \<Rightarrow> (int \<times> int) list res" where
  "static_calls 0 param team_sz lid iter loop = Inl Diverges"
| "static_calls (Suc fuel) param team_sz lid iter loop =
     bindE (next_interval param team_sz lid iter loop) (\<lambda>(r, loop).
     case r of
       None \<Rightarrow> Inr []
     | Some iv \<Rightarrow>
         bindE (int64 (iter + 1)) (\<lambda>iter.
         bindE (static_calls fuel param team_sz lid iter loop) (\<lambda>ivs. Inr (iv # ivs))))"

text \<open>The block of thread \<open>lid\<close>: the iteration numbers from its start up to the start of the next thread.\<close>

definition block_start :: "bool \<Rightarrow> int \<Rightarrow> int \<Rightarrow> int \<Rightarrow> int" where
  "block_start fair n t i = (if fair then fair_index n t i else i * ((n - 1) div t + 1))"

lemma block_facts:
  assumes "team_ok t" and "1 \<le> n"
  shows "block_start fair n t 0 = 0" and "n \<le> block_start fair n t t"
    and "i \<le> j \<Longrightarrow> block_start fair n t i \<le> block_start fair n t j"
    and "0 \<le> i \<Longrightarrow> i < t \<Longrightarrow> 0 \<le> block_start fair n t i \<and> block_start fair n t (i + 1) \<le> n + t"
proof -
  have t: "0 < t" using assms(1) by (simp add: team_ok_def)
  define q where "q = (n - 1) div t"
  have q: "0 \<le> q" "n - 1 = t * q + (n - 1) mod t" using t assms(2) by (simp_all add: q_def pos_imp_zdiv_nonneg_iff)
  have m: "0 \<le> (n - 1) mod t" "(n - 1) mod t < t" using t by simp_all
  have tq: "n \<le> t * (q + 1)" "t * (q + 1) \<le> n + t - 1"
    using q m by (simp_all add: algebra_simps)
  show "block_start fair n t 0 = 0" using fair_index_ends(1) [OF t] by (simp add: block_start_def)
  show "n \<le> block_start fair n t t"
    using fair_index_ends(2) [OF t, of n] tq by (simp add: block_start_def q_def)
  show mono: "block_start fair n t i \<le> block_start fair n t j" if "i \<le> j" for i j
    using fair_index_mono [OF t _ that, of n] mult_right_mono [OF that, of "q + 1"] q(1) assms(2) by (simp add: block_start_def q_def)
  show "0 \<le> block_start fair n t i \<and> block_start fair n t (i + 1) \<le> n + t" if "0 \<le> i" "i < t"
  proof -
    have "block_start fair n t 0 \<le> block_start fair n t i" using that by (intro mono) simp
    moreover have "block_start fair n t (i + 1) \<le> block_start fair n t t" using that by (intro mono) simp
    moreover have "block_start fair n t t \<le> n + t"
      using fair_index_ends(2) [OF t, of n] tq t by (simp add: block_start_def q_def)
    moreover have "block_start fair n t 0 = 0" using fair_index_ends(1) [OF t] by (simp add: block_start_def)
    ultimately show ?thesis by linarith
  qed
qed

text \<open>
  \<open>static_ok t loop\<close>: a loop of a team of \<open>t\<close> threads with a static schedule whose chunk leaves room for
  one more chunk behind the loop.
\<close>

definition is_static :: "pmp_loop \<Rightarrow> bool" where
  "is_static loop \<longleftrightarrow> loop_sched loop = PMP_SCHED_STATIC \<or> loop_sched loop = PMP_SCHED_ORDERED_STATIC"

definition is_even :: "pmp_loop \<Rightarrow> bool" where
  "is_even loop \<longleftrightarrow> loop_sched loop = PMP_SCHED_STATIC_EVEN \<or> loop_sched loop = PMP_SCHED_ORDERED_STATIC_EVEN"

definition static_ok :: "int \<Rightarrow> pmp_loop \<Rightarrow> bool" where
  "static_ok t loop \<longleftrightarrow> loop_ok (loop_lower loop) (loop_upper loop) (loop_inc loop) \<and> team_ok t \<and>
     (is_even loop \<or> is_static loop \<and> 1 \<le> loop_chunk loop \<and> (t + 2 * loop_chunk loop) * \<bar>loop_inc loop\<bar> \<le> 2 ^ 60)"

text \<open>An interval that starts at number \<open>a\<close> and is cut off before \<open>b\<close>, \<open>e\<close> and the end of the loop.\<close>

lemma cut_interval:
  assumes "loop_inc loop \<noteq> 0"
  shows "loop_within (loop_inc loop) (position loop a) (LOOPMIN (loop_inc loop) (position loop (e - 1)) (loop_upper loop))
      \<longleftrightarrow> a < min e (loop_trips loop)"
    and "iterations (position loop a) (LOOPMIN (loop_inc loop) (position loop (b - 1))
        (LOOPMIN (loop_inc loop) (position loop (e - 1)) (loop_upper loop))) (loop_inc loop) =
      map (position loop) [a..min b (min e (loop_trips loop)) - 1]"
    and "iterations (position loop a) (LOOPMIN (loop_inc loop) (position loop (e - 1)) (loop_upper loop)) (loop_inc loop) =
      map (position loop) [a..min e (loop_trips loop) - 1]"
proof -
  have w: "loop_within (loop_inc loop) (position loop j) (loop_upper loop) \<longleftrightarrow> j < loop_trips loop" for j
    using within_trip [OF assms, of "loop_lower loop" j "loop_upper loop"] by (auto simp: loop_trips_def)
  have g: "loop_within (loop_inc loop) (position loop j) (position loop (m - 1)) \<longleftrightarrow> j < m" for j m
    using within_grid [OF assms, of "loop_lower loop" j "m - 1"] by auto
  show "loop_within (loop_inc loop) (position loop a) (LOOPMIN (loop_inc loop) (position loop (e - 1)) (loop_upper loop))
      \<longleftrightarrow> a < min e (loop_trips loop)"
    by (simp only: within_LOOPMIN g w min_less_iff_conj)
  show "iterations (position loop a) (LOOPMIN (loop_inc loop) (position loop (b - 1))
        (LOOPMIN (loop_inc loop) (position loop (e - 1)) (loop_upper loop))) (loop_inc loop) =
      map (position loop) [a..min b (min e (loop_trips loop)) - 1]"
    by (rule iterations_from [OF assms]) (simp only: within_LOOPMIN g w min_less_iff_conj)
  show "iterations (position loop a) (LOOPMIN (loop_inc loop) (position loop (e - 1)) (loop_upper loop)) (loop_inc loop) =
      map (position loop) [a..min e (loop_trips loop) - 1]"
    by (rule iterations_from [OF assms]) (simp only: within_LOOPMIN g w min_less_iff_conj)
qed

lemma block_bounds:
  assumes "static_ok t loop" and "0 \<le> i" and "i < t"
    and "B = block_start fair (loop_trips loop) t i" and "E = block_start fair (loop_trips loop) t (i + 1)"
  shows "0 \<le> B" and "B \<le> E" and "E \<le> loop_trips loop + t" and "1 \<le> loop_trips loop"
    and "\<bar>B\<bar> \<le> loop_trips loop + 1024" and "\<bar>E\<bar> \<le> loop_trips loop + 1024" and "\<bar>E - 1\<bar> \<le> loop_trips loop + 1024"
    and "\<bar>E - B - 1\<bar> \<le> loop_trips loop + 1024" and "\<bar>E - B\<bar> \<le> loop_trips loop + 1024"
proof -
  have t: "team_ok t" "0 < t" "t \<le> 256" using assms(1) by (auto simp: static_ok_def team_ok_def PMP_MAX_THREADS_def)
  show n: "1 \<le> loop_trips loop" using assms(1) trips_pos by (simp add: static_ok_def loop_trips_def)
  note b = block_facts(4) [OF t(1) n assms(2,3), of fair, folded assms(4,5)]
  show BE: "B \<le> E" unfolding assms(4,5) by (rule block_facts(3) [OF t(1) n]) simp
  show "0 \<le> B" "E \<le> loop_trips loop + t" using b by simp_all
  show "\<bar>B\<bar> \<le> loop_trips loop + 1024" "\<bar>E\<bar> \<le> loop_trips loop + 1024" "\<bar>E - 1\<bar> \<le> loop_trips loop + 1024"
    "\<bar>E - B - 1\<bar> \<le> loop_trips loop + 1024" "\<bar>E - B\<bar> \<le> loop_trips loop + 1024"
    using b BE n t by (auto simp: abs_le_iff)
qed

text \<open>The arithmetic of the even blocks, which both static schedules share.\<close>

lemma even_block:
  assumes "static_ok t loop" and "0 \<le> i" and "i < t" and "q = (loop_trips loop - 1) div t"
    and "B = block_start False (loop_trips loop) t i" and "E = block_start False (loop_trips loop) t (i + 1)"
  shows "div64 (loop_trips loop - 1) t = Inr q"
    and "int64 ((q + 1) * loop_inc loop) = Inr ((q + 1) * loop_inc loop)"
    and "int64 (i * ((q + 1) * loop_inc loop)) = Inr (B * loop_inc loop)"
    and "int64 (position loop B) = Inr (position loop B)"
    and "int64 (position loop B + (q + 1) * loop_inc loop) = Inr (position loop E)"
    and "int64 (position loop E - loop_inc loop) = Inr (position loop (E - 1))"
proof -
  have ok: "loop_ok (loop_lower loop) (loop_upper loop) (loop_inc loop)" and t: "0 < t"
    using assms(1) by (auto simp: static_ok_def team_ok_def)
  note s = step64 [OF ok, folded loop_trips_def] and b = block_bounds [OF assms(1,2,3,5,6)]
  have B: "B = i * (q + 1)" "q + 1 = E - B" using assms(4-6) by (simp_all add: block_start_def algebra_simps)
  have "loop_trips loop - 1 < 9223372036854775808"
    using s(3) [of "loop_trips loop - 1"] b(4) by (auto simp: int64_def split: if_splits)
  then show "div64 (loop_trips loop - 1) t = Inr q" unfolding assms(4) by (intro div64_pos) (use b(4) t in auto)
  show "int64 ((q + 1) * loop_inc loop) = Inr ((q + 1) * loop_inc loop)" unfolding B(2) by (rule s(1) [OF b(9)])
  have "i * ((q + 1) * loop_inc loop) = B * loop_inc loop" by (simp add: B(1) mult.assoc)
  then show "int64 (i * ((q + 1) * loop_inc loop)) = Inr (B * loop_inc loop)" using s(1) [OF b(5)] by (simp only:)
  show "int64 (position loop B) = Inr (position loop B)" by (rule s(2) [OF b(5)])
  have "E = B + (q + 1)" using B(2) by simp
  then have "position loop B + (q + 1) * loop_inc loop = position loop E" by (simp add: algebra_simps)
  then show "int64 (position loop B + (q + 1) * loop_inc loop) = Inr (position loop E)" using s(2) [OF b(6)] by (simp only:)
  have "position loop E - loop_inc loop = position loop (E - 1)" by (simp add: algebra_simps)
  then show "int64 (position loop E - loop_inc loop) = Inr (position loop (E - 1))" using s(2) [OF b(7)] by (simp only:)
qed

lemma next_even_ok:
  assumes "static_ok t loop" and "0 \<le> i" and "i < t"
    and "B = block_start fair (loop_trips loop) t i" and "E = block_start fair (loop_trips loop) t (i + 1)"
  shows "next_even fair t i loop = Inr (if B < min E (loop_trips loop)
    then Some (position loop B, LOOPMIN (loop_inc loop) (position loop (E - 1)) (loop_upper loop)) else None)"
proof -
  have ok: "loop_ok (loop_lower loop) (loop_upper loop) (loop_inc loop)" and t: "team_ok t"
    using assms(1) by (simp_all add: static_ok_def)
  have inc: "loop_inc loop \<noteq> 0" using ok by (simp add: loop_ok_def)
  have n: "trip_count (loop_lower loop) (loop_upper loop) (loop_inc loop) = Inr (loop_trips loop)"
    using trip_count_ok [OF ok] by (simp add: loop_trips_def)
  note w = cut_interval(1) [OF inc, of B E]
  show ?thesis
  proof (cases fair)
    case True
    note b = block_bounds [OF assms] and s = step64 [OF ok, folded loop_trips_def]
    have st: "static_fair_start t i (loop_lower loop) (loop_inc loop) (loop_trips loop) = Inr (position loop B, E - B)"
      using True fair_start [OF ok t assms(2,3)] assms(4,5) by (simp add: block_start_def loop_trips_def)
    have "position loop B + (E - B - 1) * loop_inc loop = position loop (E - 1)" by (simp add: algebra_simps)
    then have "int64 (position loop B + (E - B - 1) * loop_inc loop) = Inr (position loop (E - 1))" using s(2) [OF b(7)] by (simp only:)
    with True n st s(1) [OF b(8)] w show ?thesis by (simp add: next_even_def Let_def)
  next
    case False
    have "B = block_start False (loop_trips loop) t i" "E = block_start False (loop_trips loop) t (i + 1)"
      using assms(4,5) False by simp_all
    note e = even_block [OF assms(1-3) refl this]
    show ?thesis using False n e w by (simp add: next_even_def Let_def)
  qed
qed

text \<open>The chunk with number \<open>k\<close> of the block of a thread.\<close>

lemma next_static_ok:
  assumes "static_ok t loop" and "is_static loop" and "0 \<le> i" and "i < t" and "c = loop_chunk loop"
    and "B = block_start False (loop_trips loop) t i" and "E = block_start False (loop_trips loop) t (i + 1)"
    and "0 \<le> k" and "k * c \<le> E - B + c"
  shows "next_static t i k loop = Inr (if B + k * c < min E (loop_trips loop)
    then Some (position loop (B + k * c), LOOPMIN (loop_inc loop) (position loop (B + k * c + c - 1))
      (LOOPMIN (loop_inc loop) (position loop (E - 1)) (loop_upper loop))) else None)"
    and "int64 (k + 1) = Inr (k + 1)"
proof -
  let ?inc = "loop_inc loop"
  have ok: "loop_ok (loop_lower loop) (loop_upper loop) ?inc" and c: "1 \<le> c" "(t + 2 * c) * \<bar>?inc\<bar> \<le> 2 ^ 60"
    using assms(1,2,5) by (auto simp: static_ok_def is_static_def is_even_def sched_defs)
  have inc: "?inc \<noteq> 0" "1 \<le> \<bar>?inc\<bar>" using ok by (auto simp: loop_ok_def)
  have n: "trip_count (loop_lower loop) (loop_upper loop) ?inc = Inr (loop_trips loop)"
    using trip_count_ok [OF ok] by (simp add: loop_trips_def)
  note b = block_bounds [OF assms(1,3,4,6,7)] and e = even_block [OF assms(1,3,4) refl assms(6,7)]
  have t: "0 \<le> t" using assms(3,4) by simp
  have kc: "0 \<le> k * c" "k \<le> k * c" using assms(8) c(1) by (auto simp: mult_le_cancel_left1)
  have p: "\<bar>position loop m\<bar> \<le> 2 ^ 62" if "0 \<le> m" "m \<le> loop_trips loop + (t + 2 * c)" for m
    using position_bound [OF ok that(1) that(2) [unfolded loop_trips_def] _ c(2)] t c(1) by simp
  have d: "\<bar>m * ?inc\<bar> < 9223372036854775807" "\<bar>m\<bar> \<le> \<bar>m * ?inc\<bar>" if "0 \<le> m" "m \<le> loop_trips loop + (t + 2 * c)" for m
  proof -
    have "m * ?inc = position loop m - loop_lower loop" by simp
    moreover have "\<bar>loop_lower loop\<bar> \<le> 2 ^ 60" using ok by (simp add: loop_ok_def)
    ultimately show "\<bar>m * ?inc\<bar> < 9223372036854775807" using p [OF that] by (auto simp: abs_le_iff abs_less_iff)
    show "\<bar>m\<bar> \<le> \<bar>m * ?inc\<bar>" using inc(2) by (simp add: abs_mult mult_le_cancel_left1)
  qed
  have r: "k * c \<le> loop_trips loop + (t + 2 * c)" "0 \<le> c - 1" "c - 1 \<le> loop_trips loop + (t + 2 * c)"
    "0 \<le> B + k * c" "B + k * c \<le> loop_trips loop + (t + 2 * c)"
    "0 \<le> B + k * c + c - 1" "B + k * c + c - 1 \<le> loop_trips loop + (t + 2 * c)"
    using b(1-4) kc assms(9) c(1) t by simp_all
  have eq: "position loop B + k * c * ?inc = position loop (B + k * c)"
    "position loop (B + k * c) + (c - 1) * ?inc = position loop (B + k * c + c - 1)" by (simp_all add: algebra_simps)
  have i: "int64 (k * c) = Inr (k * c)" "int64 (k * c * ?inc) = Inr (k * c * ?inc)"
    "int64 ((c - 1) * ?inc) = Inr ((c - 1) * ?inc)"
    using d [OF kc(1) r(1)] d [OF r(2,3)] by (auto intro!: int64_abs)
  have j: "int64 (position loop B + k * c * ?inc) = Inr (position loop (B + k * c))"
    "int64 (position loop (B + k * c) + (c - 1) * ?inc) = Inr (position loop (B + k * c + c - 1))"
    unfolding eq using p [OF r(4,5)] p [OF r(6,7)] by (simp_all add: int64_abs)
  show "int64 (k + 1) = Inr (k + 1)" using d [OF kc(1) r(1)] kc assms(8) by (intro int64_abs) linarith
  show "next_static t i k loop = Inr (if B + k * c < min E (loop_trips loop)
    then Some (position loop (B + k * c), LOOPMIN (loop_inc loop) (position loop (B + k * c + c - 1))
      (LOOPMIN (loop_inc loop) (position loop (E - 1)) (loop_upper loop))) else None)"
    using n e i j cut_interval(1) [OF inc(1), of "B + k * c" E] assms(5) by (simp add: next_static_def Let_def)
qed

text \<open>
  The calls of one thread: with enough fuel they end and give, interval by interval, the block of the
  thread.
\<close>

definition calls_ok :: "pmp_loop \<Rightarrow> int \<Rightarrow> int \<Rightarrow> (int \<times> int) list res \<Rightarrow> bool" where
  "calls_ok loop a e r \<longleftrightarrow> (\<exists>ivs. r = Inr ivs \<and> interval_list (loop_inc loop) ivs = map (position loop) [a..e - 1] \<and>
     (\<forall>(l, u) \<in> set ivs. consecutive loop l (iterations l u (loop_inc loop))))"

lemma even_calls:
  assumes "static_ok t loop" and "is_even loop" and "0 \<le> i" and "i < t" and "2 \<le> fuel"
    and "B = block_start (static_fair param) (loop_trips loop) t i" and "E = block_start (static_fair param) (loop_trips loop) t (i + 1)"
  shows "calls_ok loop B (min E (loop_trips loop)) (static_calls fuel param t i 0 loop)"
proof -
  obtain f where f: "fuel = Suc (Suc f)" using assms(5) by (cases fuel; cases "fuel - 1") auto
  have inc: "loop_inc loop \<noteq> 0" using assms(1) by (auto simp: static_ok_def loop_ok_def)
  have s0: "next_interval param t i 0 loop = bindE (next_even (static_fair param) t i loop) (\<lambda>r. Inr (r, loop))"
    and s1: "next_interval param t i 1 loop = Inr (None, loop)"
    using assms(2) by (auto simp: next_interval_def is_even_def sched_defs)
  note ev = next_even_ok [OF assms(1,3,4,6,7)] and cut = cut_interval(3) [OF inc, of B E]
  show ?thesis
  proof (cases "B < min E (loop_trips loop)")
    case True
    then have "consecutive loop (position loop B) (map (position loop) [B..min E (loop_trips loop) - 1])"
      unfolding consecutive_def by (intro exI [of _ B] exI [of _ "min E (loop_trips loop) - 1"]) auto
    then show ?thesis using True s0 s1 ev cut f by (simp add: calls_ok_def interval_list_def int64_abs)
  next
    case False
    then show ?thesis using s0 ev f by (auto simp: calls_ok_def interval_list_def)
  qed
qed

lemma upto_append_min:
  fixes a b e :: int
  assumes "a \<le> b"
  shows "[a..min b e - 1] @ [b..e - 1] = [a..e - 1]"
proof (cases "b \<le> e")
  case True
  then show ?thesis using upto_append [of a b "e - 1"] assms by (simp add: min_absorb1)
qed (simp add: min_absorb2)

lemma chunk_calls:
  assumes "static_ok t loop" and "is_static loop" and "0 \<le> i" and "i < t" and "c = loop_chunk loop"
    and "B = block_start False (loop_trips loop) t i" and "E = block_start False (loop_trips loop) t (i + 1)"
    and "0 \<le> k" and "k * c \<le> E - B + c" and "min E (loop_trips loop) - (B + k * c) < int fuel" and "0 < fuel"
  shows "calls_ok loop (B + k * c) (min E (loop_trips loop)) (static_calls fuel param t i k loop)"
  using assms(8-11)
proof (induction fuel arbitrary: k)
  case 0
  then show ?case by simp
next
  case (Suc fuel)
  let ?e = "min E (loop_trips loop)"
  have inc: "loop_inc loop \<noteq> 0" using assms(1) by (auto simp: static_ok_def loop_ok_def)
  have c: "1 \<le> c" using assms(1,2,5) by (auto simp: static_ok_def is_static_def is_even_def sched_defs)
  have st: "next_interval param t i k loop = bindE (next_static t i k loop) (\<lambda>r. Inr (r, loop))"
    using assms(2) by (auto simp: next_interval_def is_static_def sched_defs)
  note nx = next_static_ok [OF assms(1-7) Suc.prems(1,2)]
  have k1: "B + (k + 1) * c = B + k * c + c" by (simp add: algebra_simps)
  show ?case
  proof (cases "B + k * c < ?e")
    case False
    then show ?thesis using st nx(1) by (auto simp: calls_ok_def interval_list_def)
  next
    case True
    let ?iv = "(position loop (B + k * c), LOOPMIN (loop_inc loop) (position loop (B + k * c + c - 1))
      (LOOPMIN (loop_inc loop) (position loop (E - 1)) (loop_upper loop)))"
    let ?m = "min (B + k * c + c) ?e"
    have it: "iterations (fst ?iv) (snd ?iv) (loop_inc loop) = map (position loop) [B + k * c..?m - 1]"
      using cut_interval(2) [OF inc, of "B + k * c" "B + k * c + c" E] by simp
    have "(k + 1) * c \<le> E - B + c" using True by (simp add: algebra_simps)
    then have "calls_ok loop (B + (k + 1) * c) ?e (static_calls fuel param t i (k + 1) loop)"
      using Suc.prems c k1 True by (intro Suc.IH) auto
    then obtain ivs where ivs: "static_calls fuel param t i (k + 1) loop = Inr ivs"
        "interval_list (loop_inc loop) ivs = map (position loop) [B + k * c + c..?e - 1]"
        "\<forall>(l, u) \<in> set ivs. consecutive loop l (iterations l u (loop_inc loop))"
      by (auto simp: calls_ok_def k1)
    have "[B + k * c..?m - 1] @ [B + k * c + c..?e - 1] = [B + k * c..?e - 1]" by (rule upto_append_min) (use c in simp)
    then have "interval_list (loop_inc loop) (?iv # ivs) = map (position loop) [B + k * c..?e - 1]"
      using ivs(2) it by (simp add: interval_list_def flip: map_append)
    moreover have "consecutive loop (fst ?iv) (iterations (fst ?iv) (snd ?iv) (loop_inc loop))"
      unfolding consecutive_def it by (intro exI [of _ "B + k * c"] exI [of _ "?m - 1"]) (use True c in auto)
    moreover have "static_calls (Suc fuel) param t i k loop = Inr (?iv # ivs)"
      using st nx True ivs(1) by simp
    ultimately show ?thesis using ivs(3) by (simp add: calls_ok_def)
  qed
qed

text \<open>The blocks of all threads are shares of the loop.\<close>

lemma blocks_share:
  assumes "static_ok (int t) loop"
  shows "shares loop t (\<lambda>i. map (position loop)
    [block_start fair (loop_trips loop) (int t) (int i)..min (block_start fair (loop_trips loop) (int t) (int i + 1)) (loop_trips loop) - 1]) 0"
proof -
  define n where "n = loop_trips loop"
  define f where "f = block_start fair n (int t)"
  have inc: "loop_inc loop \<noteq> 0" and t: "team_ok (int t)" using assms by (auto simp: static_ok_def loop_ok_def)
  have n: "1 \<le> n" using assms trips_pos by (simp add: static_ok_def loop_trips_def n_def)
  note b = block_facts [OF t n, where fair = fair, folded f_def]
  have inc': "increasing loop (map (position loop) [a..e])" for a e
    using inc by (simp add: increasing_def comp_def)
  have "set (map (position loop) [f (int i)..min (f (int i + 1)) n - 1]) \<subseteq> position loop ` {0..<n}" if "i < t" for i
    using b(4) [of "int i"] that by (auto intro!: imageI)
  moreover have "\<exists>!i. i < t \<and> position loop j \<in> set (map (position loop) [f (int i)..min (f (int i + 1)) n - 1])"
    if "j \<in> {0..<n}" for j
  proof -
    have mem: "position loop j \<in> set (map (position loop) [a..min e n - 1]) \<longleftrightarrow> a \<le> j \<and> j < e" for a e
      using inc that by auto
    have "\<exists>!i. 0 \<le> i \<and> i < int t \<and> f i \<le> j \<and> j < f (i + 1)"
      by (rule block_unique) (use b(1-3) that in auto)
    then obtain i where i: "0 \<le> i" "i < int t" "f i \<le> j \<and> j < f (i + 1)"
      and u: "\<And>i'. 0 \<le> i' \<and> i' < int t \<and> f i' \<le> j \<and> j < f (i' + 1) \<Longrightarrow> i' = i" by blast
    show ?thesis unfolding mem
    proof (rule ex1I [of _ "nat i"])
      show "nat i < t \<and> f (int (nat i)) \<le> j \<and> j < f (int (nat i) + 1)" using i by auto
      show "i' = nat i" if "i' < t \<and> f (int i') \<le> j \<and> j < f (int i' + 1)" for i' using u [of "int i'"] that by auto
    qed
  qed
  ultimately show ?thesis unfolding shares_def f_def [symmetric] n_def [symmetric] using inc' by simp
qed

definition static_intervals :: "pmp_param \<Rightarrow> nat \<Rightarrow> pmp_loop \<Rightarrow> nat \<Rightarrow> (int \<times> int) list" where
  "static_intervals param t loop i =
     (case static_calls (nat (loop_trips loop) + 2) param (int t) (int i) 0 loop of Inl e \<Rightarrow> [] | Inr ivs \<Rightarrow> ivs)"

lemma static_intervals_ok:
  assumes "static_ok (int t) loop" and "i < t"
    and "fair = (if is_even loop then static_fair param else False)"
  shows "static_calls (nat (loop_trips loop) + 2) param (int t) (int i) 0 loop = Inr (static_intervals param t loop i)"
    and "interval_list (loop_inc loop) (static_intervals param t loop i) = map (position loop)
      [block_start fair (loop_trips loop) (int t) (int i)..min (block_start fair (loop_trips loop) (int t) (int i + 1)) (loop_trips loop) - 1]"
    and "(l, u) \<in> set (static_intervals param t loop i) \<Longrightarrow> consecutive loop l (iterations l u (loop_inc loop))"
proof -
  have i: "0 \<le> int i" "int i < int t" using assms(2) by simp_all
  define B where "B = block_start fair (loop_trips loop) (int t) (int i)"
  define E where "E = block_start fair (loop_trips loop) (int t) (int i + 1)"
  define F where "F = nat (loop_trips loop) + 2"
  note b = block_bounds [OF assms(1) i B_def E_def]
  have "calls_ok loop B (min E (loop_trips loop)) (static_calls F param (int t) (int i) 0 loop)"
  proof (cases "is_even loop")
    case True
    then show ?thesis using even_calls [OF assms(1) True i, of F B param E] assms(3) by (simp add: B_def E_def F_def)
  next
    case False
    then have st: "is_static loop" "1 \<le> loop_chunk loop" and f: "\<not> fair" using assms(1,3) by (auto simp: static_ok_def)
    show ?thesis
      using chunk_calls [OF assms(1) st(1) i refl, of B E 0 F param] b(1-4) st(2) f by (simp add: B_def E_def F_def)
  qed
  then show "static_calls (nat (loop_trips loop) + 2) param (int t) (int i) 0 loop = Inr (static_intervals param t loop i)"
    "interval_list (loop_inc loop) (static_intervals param t loop i) = map (position loop)
      [block_start fair (loop_trips loop) (int t) (int i)..min (block_start fair (loop_trips loop) (int t) (int i + 1)) (loop_trips loop) - 1]"
    "(l, u) \<in> set (static_intervals param t loop i) \<Longrightarrow> consecutive loop l (iterations l u (loop_inc loop))"
    unfolding static_intervals_def F_def [symmetric] B_def [symmetric] E_def [symmetric] by (auto simp: calls_ok_def)
qed

lemma static_shares:
  assumes "static_ok (int t) loop"
  shows "shares loop t (\<lambda>i. interval_list (loop_inc loop) (static_intervals param t loop i)) 0"
  using blocks_share [OF assms, of "if is_even loop then static_fair param else False"]
    static_intervals_ok(2) [OF assms _ refl, of _ param]
  by (simp cong: shares_cong)

lemma static_ordered_ok:
  assumes "static_ok (int t) loop"
    and "PMP_SCHED_ORDERED_OFFSET < loop_sched loop" and "now_serving loop = loop_lower loop"
    and "length threads = t" and "team_size team = int t" and "d < length (team_loops team)" and "team_loops team ! d = loop"
    and "\<forall>thread \<in> set threads. in_team thread \<and> thread_loop thread = Some d"
  shows "ordered_ok loop d team threads (map (static_intervals param t loop) [0..<t])"
proof -
  have "consecutive loop l (iterations l u (loop_inc loop))"
    if "(l, u) \<in> \<Union>(set ` set (map (static_intervals param t loop) [0..<t]))" for l u
    using that static_intervals_ok(3) [OF assms(1) _ refl] by auto
  moreover have "shares loop t (\<lambda>i. interval_list (loop_inc loop) (map (static_intervals param t loop) [0..<t] ! i)) 0 =
      shares loop t (\<lambda>i. interval_list (loop_inc loop) (static_intervals param t loop i)) 0"
    by (rule shares_cong) simp
  moreover have "1 < t" using assms(1) by (auto simp: static_ok_def team_ok_def)
  ultimately show ?thesis
    using static_shares [OF assms(1)] assms by (simp add: ordered_ok_def static_ok_def)
qed

end
