(* ===== verification/Omp_Ring.thy ===== *)
theory Omp_Ring
  imports Omp_Loop
begin

unbundle bit_operations_syntax

text \<open>
  The ring of loop descriptors of a team (\<^verbatim>\<open>libopenmp/loop.c\<close>, \<^verbatim>\<open>__pmp_loop_alloc\<close> and \<^verbatim>\<open>__pmp_loop_free\<close>) under every
  interleaving of its threads. Threads need not wait for each other between loops, so several loops can be
  in progress; the sixteen descriptors are used in turn. The counters that name a loop are 32-bit words that
  wrap around; the invariant relates them to unbounded loop numbers.
\<close>

section \<open>The steps of the threads\<close>

text \<open>
  All threads of a team meet the same sequence of loops; \<open>spec c\<close> are the arguments with which a thread
  allocates loop number \<open>c\<close>: schedule, bounds, increment, chunk and minimal chunk. The steps are the parts
  of \<open>pmp_loop_alloc\<close> between which other threads may act, the work on a descriptor, which changes its
  volatile fields, and \<open>pmp_loop_free\<close>, which is one step: between its atomic decrement and the store that
  frees the descriptor the other threads only read the identifier, in a spin loop that goes on until that store. The
  stores of \<open>alloc_fill\<close> are one step likewise, since the others wait for the last of them. \<open>loops_met\<close> counts the loops a thread has met, without
  wrap-around; it is not a field of the program.
\<close>

type_synonym loop_spec = "nat \<Rightarrow> int \<times> int \<times> int \<times> int \<times> int \<times> int"

datatype ring_pc = Outside | Allocating bool | Inside

record ring_state =
  rteam :: pmp_team
  rthreads :: "pmp_thread list"
  rpcs :: "ring_pc list"
  loops_met :: "nat list"

inductive ring_step :: "pmp_param \<Rightarrow> loop_spec \<Rightarrow> nat \<Rightarrow> ring_state \<Rightarrow> ring_state \<Rightarrow> bool" for param spec i where
  enter_loop: "i < length (rpcs s) \<Longrightarrow> rpcs s ! i = Outside \<Longrightarrow> alloc_enter (rthreads s ! i) (rteam s) = (first, thread, team) \<Longrightarrow>
    ring_step param spec i s (s\<lparr>rteam := team, rthreads := (rthreads s)[i := thread], rpcs := (rpcs s)[i := Allocating first],
      loops_met := (loops_met s)[i := Suc (loops_met s ! i)]\<rparr>)"
| fill_loop: "i < length (rpcs s) \<Longrightarrow> rpcs s ! i = Allocating True \<Longrightarrow> loop_count = thread_loop_count (rthreads s ! i) - 1 \<Longrightarrow>
    d = unat (loop_count AND PMP_MASK_LOOP_INDEX) \<Longrightarrow> d < length (team_loops (rteam s)) \<Longrightarrow>
    alloc_ready True loop_count (team_loops (rteam s) ! d) \<Longrightarrow>
    spec (loops_met s ! i - 1) = (sched, lower, upper, inc, chunk, min_chunk_arg) \<Longrightarrow>
    alloc_fill (param_check param) (team_size (rteam s)) loop_count sched lower upper inc chunk min_chunk_arg
      (team_loops (rteam s) ! d) = Inr loop \<Longrightarrow>
    ring_step param spec i s (s\<lparr>rteam := (rteam s)\<lparr>team_loops := (team_loops (rteam s))[d := loop]\<rparr>,
      rthreads := (rthreads s)[i := (rthreads s ! i)\<lparr>thread_loop := Some d\<rparr>], rpcs := (rpcs s)[i := Inside]\<rparr>)"
| attach_loop: "i < length (rpcs s) \<Longrightarrow> rpcs s ! i = Allocating False \<Longrightarrow> loop_count = thread_loop_count (rthreads s ! i) - 1 \<Longrightarrow>
    d = unat (loop_count AND PMP_MASK_LOOP_INDEX) \<Longrightarrow> d < length (team_loops (rteam s)) \<Longrightarrow>
    alloc_ready False loop_count (team_loops (rteam s) ! d) \<Longrightarrow>
    ring_step param spec i s (s\<lparr>rthreads := (rthreads s)[i := (rthreads s ! i)\<lparr>thread_loop := Some d\<rparr>],
      rpcs := (rpcs s)[i := Inside]\<rparr>)"
| work_loop: "i < length (rpcs s) \<Longrightarrow> rpcs s ! i = Inside \<Longrightarrow> thread_loop (rthreads s ! i) = Some d \<Longrightarrow>
    ring_step param spec i s (s\<lparr>rteam := (rteam s)\<lparr>team_loops := (team_loops (rteam s))[d :=
      (team_loops (rteam s) ! d)\<lparr>loop_current := x, loop_chunk := y, now_serving := z\<rparr>]\<rparr>\<rparr>)"
| leave_loop: "i < length (rpcs s) \<Longrightarrow> rpcs s ! i = Inside \<Longrightarrow>
    pmp_loop_free param (rthreads s ! i) (rteam s) (0, []) = Inr (thread, team, ws) \<Longrightarrow>
    ring_step param spec i s (s\<lparr>rteam := team, rthreads := (rthreads s)[i := thread], rpcs := (rpcs s)[i := Outside]\<rparr>)"

text \<open>A call of \<open>pmp_loop_alloc\<close> that is not interrupted is \<open>enter\<close> followed by \<open>fill\<close> or \<open>attach\<close>.\<close>

lemma alloc_is_run:
  assumes "i < length (rpcs s)" and "length (rthreads s) = length (rpcs s)" and "length (loops_met s) = length (rpcs s)"
    and "rpcs s ! i = Outside" and "in_team (rthreads s ! i)"
    and "spec (loops_met s ! i) = (sched, lower, upper, inc, chunk, min_chunk_arg)"
    and "pmp_loop_alloc param (rthreads s ! i) (rteam s) sched lower upper inc chunk min_chunk_arg = Inr (thread, team)"
  shows "(ring_step param spec i)\<^sup>*\<^sup>* s (s\<lparr>loops_met := (loops_met s)[i := Suc (loops_met s ! i)], rteam := team,
    rthreads := (rthreads s)[i := thread], rpcs := (rpcs s)[i := Inside]\<rparr>)"
proof -
  define th where "th = rthreads s ! i"
  obtain first th1 team1 where e: "alloc_enter th (rteam s) = (first, th1, team1)" by (cases "alloc_enter th (rteam s)") auto
  define s1 where "s1 = s\<lparr>rteam := team1, rthreads := (rthreads s)[i := th1], rpcs := (rpcs s)[i := Allocating first],
      loops_met := (loops_met s)[i := Suc (loops_met s ! i)]\<rparr>"
  have step1: "ring_step param spec i s s1" unfolding s1_def using enter_loop [OF assms(1,4)] e by (simp add: th_def)
  define d where "d = loop_index th"
  have th1: "th1 = th\<lparr>thread_loop_count := thread_loop_count th + 1\<rparr>" "team_loops team1 = team_loops (rteam s)" "team_size team1 = team_size (rteam s)"
    using e by (auto simp: alloc_enter_def Let_def split: if_splits)
  have d: "d = unat (thread_loop_count th AND PMP_MASK_LOOP_INDEX)" using assms(5) by (simp add: d_def loop_index_def th_def)
  have r: "d < length (team_loops team1)" "alloc_ready first (thread_loop_count th) (team_loops team1 ! d)"
    "\<exists>loop. (if first then alloc_fill (param_check param) (team_size team1) (thread_loop_count th) sched lower upper inc chunk min_chunk_arg (team_loops team1 ! d)
              else Inr (team_loops team1 ! d)) = Inr loop \<and>
      thread = th1\<lparr>thread_loop := Some d\<rparr> \<and> team = team1\<lparr>team_loops := (team_loops team1)[d := loop]\<rparr>"
    using assms(5,7) e th1(2,3)
    by (auto simp: pmp_loop_alloc_def d_def th_def Let_def bindE_eq_Inr_iff pmp_get_team_size_def split: if_splits prod.splits)
  have at: "rthreads s1 ! i = th1" "rpcs s1 ! i = Allocating first" "i < length (rpcs s1)" "loops_met s1 ! i - 1 = loops_met s ! i"
    "thread_loop_count (rthreads s1 ! i) - 1 = thread_loop_count th" "rteam s1 = team1"
    using assms(1-3) th1(1) by (simp_all add: s1_def)
  obtain loop where l: "(if first then alloc_fill (param_check param) (team_size team1) (thread_loop_count th) sched lower upper inc
        chunk min_chunk_arg (team_loops team1 ! d) else Inr (team_loops team1 ! d)) = Inr loop"
      "thread = th1\<lparr>thread_loop := Some d\<rparr>" "team = team1\<lparr>team_loops := (team_loops team1)[d := loop]\<rparr>"
    using r(3) by blast
  define s2 where "s2 = s\<lparr>loops_met := (loops_met s)[i := Suc (loops_met s ! i)], rteam := team,
    rthreads := (rthreads s)[i := thread], rpcs := (rpcs s)[i := Inside]\<rparr>"
  have s2: "s2 = s1\<lparr>rteam := team, rthreads := (rthreads s1)[i := thread], rpcs := (rpcs s1)[i := Inside]\<rparr>"
    by (simp add: s1_def s2_def)
  have "ring_step param spec i s1 s2"
  proof (cases first)
    case True
    then show ?thesis
      unfolding s2 l(2,3) using fill_loop [OF at(3), of "thread_loop_count th" d spec sched lower upper inc chunk min_chunk_arg param loop]
        at r(1,2) l(1) assms(6) d by simp
  next
    case False
    then have "loop = team_loops team1 ! d" using l(1) by simp
    then have "team = rteam s1" using l(3) at(6) by simp
    then have "s2 = s1\<lparr>rthreads := (rthreads s1)[i := thread], rpcs := (rpcs s1)[i := Inside]\<rparr>"
      by (cases s1) (simp add: s2)
    then show ?thesis
      unfolding l(2) using attach_loop [OF at(3), of "thread_loop_count th" d param spec] at r(1,2) d False by simp
  qed
  with step1 show ?thesis unfolding s2_def by (meson converse_rtranclp_into_rtranclp r_into_rtranclp)
qed

section \<open>Descriptors and loop numbers\<close>

lemma unat_of_nat_and_mask: "unat ((of_nat c :: 32 word) AND mask k) = c mod 2 ^ k" if "k \<le> 32"
proof -
  have "unat ((of_nat c :: 32 word) AND mask k) = unat (of_nat c :: 32 word) mod 2 ^ k"
    by (simp only: take_bit_eq_mask [symmetric] unsigned_take_bit_eq take_bit_eq_mod [where 'a = nat])
  also have "\<dots> = (c mod 2 ^ 32) mod 2 ^ k" by (simp add: unat_of_nat)
  also have "\<dots> = c mod 2 ^ k" by (rule mod_mod_cancel [OF le_imp_power_dvd [OF that]])
  finally show ?thesis .
qed

lemma loop_index_of_nat: "unat ((of_nat c :: 32 word) AND PMP_MASK_LOOP_INDEX) = c mod 16"
  using unat_of_nat_and_mask [of 4 c] by (simp add: PMP_MASK_LOOP_INDEX_def PMP_MAX_LOOPS_def PMP_LOG2_LOOPS_def mask_eq_exp_minus_1)

lemma loop_identifier_of_nat: "loop_identifier (of_nat c) = int (c mod 2 ^ 31)"
  using unat_of_nat_and_mask [of 31 c]
  by (simp add: loop_identifier_def PMP_MASK_LOOP_ID_def mask_eq_exp_minus_1 uint_nat)

lemma loop_identifier_used: "loop_identifier (of_nat c) \<noteq> PMP_LOOP_UNUSED"
  by (simp add: loop_identifier_of_nat PMP_LOOP_UNUSED_def del: of_nat_mod)

lemma mod_eq_near:
  fixes a b m :: nat
  assumes "a mod m = b mod m" and "a < b + m" and "b < a + m"
  shows "a = b"
proof -
  have "x = y" if "x mod m = y mod m" "y \<le> x" "x < y + m" for x y
  proof -
    have "m dvd x - y" using that(1,2) by (simp add: mod_eq_dvd_iff_nat)
    moreover have "x - y < m" using that(2,3) by simp
    ultimately have "x - y = 0" using nat_dvd_not_less by blast
    with that(2) show ?thesis by simp
  qed
  then show ?thesis using assms by (metis nat_le_linear)
qed

lemma of_nat_word_eq: "(of_nat a :: 32 word) = of_nat b \<longleftrightarrow> a = b" if "a \<le> b" "b < a + 2 ^ 32" for a b :: nat
proof
  assume "(of_nat a :: 32 word) = of_nat b"
  then have "unat (of_nat a :: 32 word) = unat (of_nat b :: 32 word)" by simp
  then have "a mod 2 ^ 32 = b mod 2 ^ 32" by (simp add: unat_of_nat)
  then show "a = b" by (rule mod_eq_near) (use that in auto)
qed simp

section \<open>The ring\<close>

text \<open>
  The state of the ring in terms of unbounded numbers: \<open>T\<close> loops have been met by the team, thread \<open>i\<close>
  has left \<open>F i\<close> of them, and \<open>U\<close> are the loops whose first thread has not yet filled the descriptor.
  Loop \<open>c\<close> has descriptor \<open>c mod 16\<close>; it is live from the time it is filled until all threads have left it.
\<close>

definition live :: "nat \<Rightarrow> (nat \<Rightarrow> nat) \<Rightarrow> nat set \<Rightarrow> nat \<Rightarrow> nat \<Rightarrow> bool" where
  "live t F U T c \<longleftrightarrow> c < T \<and> c \<notin> U \<and> (\<exists>i < t. F i \<le> c)"

definition describes :: "loop_spec \<Rightarrow> nat \<Rightarrow> pmp_loop \<Rightarrow> bool" where
  "describes spec c loop \<longleftrightarrow> loop_id loop = loop_identifier (of_nat c) \<and>
     (case spec c of (sched, lower, upper, inc, chunk, min_chunk_arg) \<Rightarrow>
       loop_sched loop = sched \<and> loop_lower loop = lower \<and> loop_upper loop = upper \<and> loop_inc loop = inc \<and>
       min_chunk loop = min_chunk_arg)"

definition ring_ok :: "loop_spec \<Rightarrow> nat \<Rightarrow> nat \<Rightarrow> (nat \<Rightarrow> nat) \<Rightarrow> nat set \<Rightarrow> (nat \<Rightarrow> pmp_loop) \<Rightarrow> bool" where
  "ring_ok spec t T F U desc \<longleftrightarrow> U \<subseteq> {..<T} \<and>
     (\<forall>i < t. \<forall>c < F i. c \<notin> U \<and> c < T) \<and>
     (\<forall>c < T. c \<notin> U \<longrightarrow> (\<forall>i < t. c < F i + 16)) \<and>
     (0 < T \<longrightarrow> (\<exists>i < t. T \<le> Suc (F i))) \<and>
     (\<forall>c. live t F U T c \<longrightarrow> describes spec c (desc (c mod 16)) \<and>
       looping_threads (desc (c mod 16)) = int (card {i. i < t \<and> F i \<le> c})) \<and>
     (\<forall>j < 16. (\<forall>c. live t F U T c \<longrightarrow> c mod 16 \<noteq> j) \<longrightarrow> loop_id (desc j) = PMP_LOOP_UNUSED)"

lemma ring_okD:
  assumes "ring_ok spec t T F U desc"
  shows "U \<subseteq> {..<T}" and "i < t \<Longrightarrow> c < F i \<Longrightarrow> c \<notin> U \<and> c < T" and "c < T \<Longrightarrow> c \<notin> U \<Longrightarrow> i < t \<Longrightarrow> c < F i + 16"
    and "0 < T \<Longrightarrow> \<exists>i < t. T \<le> Suc (F i)"
    and "live t F U T c \<Longrightarrow> describes spec c (desc (c mod 16)) \<and> looping_threads (desc (c mod 16)) = int (card {i. i < t \<and> F i \<le> c})"
    and "j < 16 \<Longrightarrow> (\<And>c. live t F U T c \<Longrightarrow> c mod 16 \<noteq> j) \<Longrightarrow> loop_id (desc j) = PMP_LOOP_UNUSED"
  using assms unfolding ring_ok_def by blast+

lemma ring_window:
  assumes "ring_ok spec t T F U desc" and "i < t"
  shows "T \<le> F i + 17"
proof (cases "T \<le> 1")
  case False
  obtain k where k: "k < t" "T \<le> Suc (F k)" using assms(1) False by (auto simp: ring_ok_def)
  then have "T - 2 \<notin> U" using assms(1) False by (auto simp: ring_ok_def)
  then have "T - 2 < F i + 16" using assms False by (simp add: ring_ok_def)
  then show ?thesis by simp
qed simp

lemma live_unique:
  assumes "ring_ok spec t T F U desc" and "live t F U T c" and "live t F U T c'" and "c mod 16 = c' mod 16"
  shows "c = c'"
proof -
  have "\<not> c + 16 \<le> c'" if "live t F U T c" "live t F U T c'" for c c'
  proof
    assume le: "c + 16 \<le> c'"
    obtain i where i: "i < t" "F i \<le> c" using \<open>live t F U T c\<close> by (auto simp: live_def)
    have "c' < F i + 16" using assms(1) that(2) i(1) by (simp add: ring_ok_def live_def)
    with le i(2) show False by simp
  qed
  then have "c < c' + 16" "c' < c + 16" using assms(2,3) by force+
  with assms(4) show ?thesis by (intro mod_eq_near [of c 16])
qed

lemma ring_enter_first:
  assumes "ring_ok spec t T F U desc" and "i < t" and "F i = T"
  shows "ring_ok spec t (Suc T) F (insert T U) desc"
proof -
  have "live t F (insert T U) (Suc T) c = live t F U T c" for c by (auto simp: live_def less_Suc_eq)
  then show ?thesis using assms unfolding ring_ok_def by (auto simp: less_Suc_eq)
qed

lemma ring_fill:
  assumes ok: "ring_ok spec t T F U desc" and i: "i < t" "F i \<in> U" and "loop_id (desc (F i mod 16)) = PMP_LOOP_UNUSED"
    and "describes spec (F i) loop" and "looping_threads loop = int t"
  shows "ring_ok spec t T F (U - {F i}) (desc (F i mod 16 := loop))"
proof -
  define c where "c = F i"
  have c: "c < T" "c \<in> U" using ok i by (auto simp: ring_ok_def c_def)
  have none: "c' mod 16 \<noteq> c mod 16" if "live t F U T c'" for c'
  proof
    assume "c' mod 16 = c mod 16"
    moreover have "describes spec c' (desc (c' mod 16))" using ok that by (simp add: ring_ok_def)
    ultimately show False using assms(4) loop_identifier_used [of c', symmetric] by (simp add: describes_def c_def)
  qed
  have le: "F k \<le> c" if "k < t" for k using ring_okD(2) [OF ok that, of c] c(2) by (meson not_less)
  have live': "live t F (U - {c}) T c' \<longleftrightarrow> live t F U T c' \<or> c' = c" for c'
    using c i(1) by (auto simp: live_def c_def)
  have "c < F k + 16" if "k < t" for k
  proof (rule ccontr)
    assume "\<not> c < F k + 16"
    then have k: "F k \<le> c - 16" "16 \<le> c" by simp_all
    then have "c - 16 < F i" by (simp add: c_def)
    then have "c - 16 \<notin> U \<and> c - 16 < T" using ok i(1) by (simp add: ring_ok_def)
    then have "live t F U T (c - 16)" using k that by (auto simp: live_def)
    then show False using none [of "c - 16"] k(2) le_mod_geq [of 16 c] by simp
  qed
  moreover have "{k. k < t \<and> F k \<le> c} = {..<t}" using le by auto
  ultimately show ?thesis
    unfolding c_def [symmetric] ring_ok_def live' using ok none assms(5,6) c
    by (fastforce simp: ring_ok_def c_def)
qed

lemma ring_attach:
  assumes ok: "ring_ok spec t T F U desc" and i: "i < t" "F i < T" and "loop_id (desc (F i mod 16)) = loop_identifier (of_nat (F i))"
  shows "F i \<notin> U"
proof -
  obtain c where c: "live t F U T c" "c mod 16 = F i mod 16"
    using ring_okD(6) [OF ok, of "F i mod 16"] assms(4) loop_identifier_used [of "F i"] by (metis mod_less_divisor zero_less_numeral)
  have "describes spec c (desc (c mod 16))" using ring_okD(5) [OF ok c(1)] by blast
  then have eq: "c mod 2 ^ 31 = F i mod 2 ^ 31"
    using assms(4) c(2) by (simp add: describes_def loop_identifier_of_nat del: of_nat_mod)
  obtain k where k: "k < t" "F k \<le> c" using c(1) by (auto simp: live_def)
  have "F i < c + 17" "c < F i + 17" using ring_window [OF ok k(1)] ring_window [OF ok i(1)] k(2) i(2) c(1) by (auto simp: live_def)
  with eq have "c = F i" by (intro mod_eq_near [of c "2 ^ 31"]) auto
  then show ?thesis using c(1) by (simp add: live_def)
qed

lemma ring_leave:
  assumes ok: "ring_ok spec t T F U desc" and i: "i < t" "F i < T" "F i \<notin> U"
    and "count = looping_threads (desc (F i mod 16))"
    and "loop_id loop = (if count = 1 then PMP_LOOP_UNUSED else loop_id (desc (F i mod 16)))" and "looping_threads loop = count - 1"
    and "describes spec (F i) (loop\<lparr>loop_id := loop_id (desc (F i mod 16))\<rparr>)"
  shows "ring_ok spec t T (F(i := Suc (F i))) U (desc (F i mod 16 := loop))" and "1 \<le> count" and "count \<le> int t"
    and "describes spec (F i) (desc (F i mod 16))"
proof -
  define c where "c = F i"
  define L where "L = {k. k < t \<and> F k \<le> c}"
  have lv: "live t F U T c" using i by (auto simp: live_def c_def)
  have L: "finite L" "i \<in> L" "L \<subseteq> {..<t}" using i(1) by (auto simp: L_def c_def)
  have D: "describes spec c (desc (c mod 16))" "count = int (card L)"
    using ok lv assms(5) by (simp_all add: ring_ok_def L_def c_def)
  then show "describes spec (F i) (desc (F i mod 16))" by (simp add: c_def)
  show cnt: "1 \<le> count" "count \<le> int t"
    using D(2) L card_gt_0_iff [of L] card_mono [OF _ L(3)] by (auto simp: Suc_le_eq)
  let ?F = "F(i := Suc c)"
  have L': "{k. k < t \<and> ?F k \<le> c} = L - {i}" by (auto simp: L_def)
  have "card (L - {i}) = card L - 1" using L by simp
  then have card': "int (card {k. k < t \<and> ?F k \<le> c}) = count - 1" using L' D(2) cnt by simp
  have other: "{k. k < t \<and> ?F k \<le> c'} = {k. k < t \<and> F k \<le> c'}" if "c' \<noteq> c" for c'
    using that by (auto simp: c_def)
  have live': "live t ?F U T c' \<longleftrightarrow> (if c' = c then 1 < count else live t F U T c')" for c'
  proof (cases "c' = c")
    case True
    have "(\<exists>k < t. ?F k \<le> c) \<longleftrightarrow> L - {i} \<noteq> {}" unfolding L' [symmetric] by blast
    also have "\<dots> \<longleftrightarrow> 0 < card (L - {i})" using L(1) by (simp only: card_gt_0_iff finite_Diff simp_thms)
    also have "\<dots> \<longleftrightarrow> 1 < count" using card' unfolding L' by linarith
    finally show ?thesis using True lv by (auto simp: live_def)
  next
    case False
    then have "(\<exists>k < t. ?F k \<le> c') \<longleftrightarrow> (\<exists>k < t. F k \<le> c')" using other [OF False] by blast
    then show ?thesis using False by (simp add: live_def)
  qed
  have at: "describes spec c' ((desc(c mod 16 := loop)) (c' mod 16)) \<and>
      looping_threads ((desc(c mod 16 := loop)) (c' mod 16)) = int (card {k. k < t \<and> ?F k \<le> c'})"
    if "live t ?F U T c'" for c'
  proof (cases "c' = c")
    case True
    then have "loop_id loop = loop_id (desc (c mod 16))" using that live' assms(6) by (auto simp: c_def)
    then have "loop = loop\<lparr>loop_id := loop_id (desc (c mod 16))\<rparr>" by (cases loop) simp
    then have "describes spec c loop" using assms(8) by (metis c_def)
    then show ?thesis using True card' assms(7) by simp
  next
    case False
    then have "live t F U T c'" using that live' by simp
    moreover from this have "c' mod 16 \<noteq> c mod 16" using live_unique [OF ok _ lv] False by blast
    ultimately show ?thesis using ring_okD(5) [OF ok] other [OF False] by simp
  qed
  show "ring_ok spec t T (F(i := Suc (F i))) U (desc (F i mod 16 := loop))"
    unfolding c_def [symmetric] ring_ok_def
  proof (intro conjI allI impI)
    fix c' assume "live t ?F U T c'"
    then show "describes spec c' ((desc(c mod 16 := loop)) (c' mod 16))"
      "looping_threads ((desc(c mod 16 := loop)) (c' mod 16)) = int (card {k. k < t \<and> ?F k \<le> c'})"
      using at by simp_all
  next
    fix j assume j: "j < 16" "\<forall>c'. live t ?F U T c' \<longrightarrow> c' mod 16 \<noteq> j"
    show "loop_id ((desc(c mod 16 := loop)) j) = PMP_LOOP_UNUSED"
    proof (cases "j = c mod 16")
      case True
      then have "\<not> 1 < count" using j(2) live' [of c] by auto
      then show ?thesis using True assms(6) cnt(1) by simp
    next
      case False
      then have "live t F U T c' \<Longrightarrow> c' mod 16 \<noteq> j" for c' using j(2) live' [of c'] by (cases "c' = c") auto
      then show ?thesis using ring_okD(6) [OF ok j(1)] False by simp
    qed
  next
    fix c' k assume "c' < T" "c' \<notin> U" "k < t"
    from ring_okD(3) [OF ok this] show "c' < ?F k + 16" by (auto simp: c_def)
  next
    fix k c' assume "k < t" "c' < ?F k"
    then have "c' = c \<or> c' < F k" by (auto simp: c_def split: if_splits)
    then show "c' \<notin> U" "c' < T" using ring_okD(2) [OF ok \<open>k < t\<close>] i(2,3) by (auto simp: c_def)
  next
    show "U \<subseteq> {..<T}" by (rule ring_okD(1) [OF ok])
  next
    show "\<exists>k < t. T \<le> Suc (?F k)" if "0 < T" using ring_okD(4) [OF ok that] by (auto simp: c_def)
  qed
qed

text \<open>A thread that is not behind any other can fill or enter its descriptor.\<close>

lemma ring_least:
  assumes ok: "ring_ok spec t T F U desc" and i: "i < t" "F i < T" and least: "\<And>k. k < t \<Longrightarrow> F i \<le> F k"
  shows "F i \<in> U \<Longrightarrow> loop_id (desc (F i mod 16)) = PMP_LOOP_UNUSED"
    and "F i \<notin> U \<Longrightarrow> loop_id (desc (F i mod 16)) = loop_identifier (of_nat (F i))"
proof -
  have "c mod 16 \<noteq> F i mod 16" if "F i \<in> U" "live t F U T c" for c
  proof
    assume m: "c mod 16 = F i mod 16"
    have "c < F i + 16" using ring_okD(3) [OF ok _ _ i(1), of c] that(2) by (simp add: live_def)
    moreover have "F i \<le> c" using that(2) least by (auto simp: live_def intro: order_trans)
    ultimately have "c = F i" using mod_eq_near [OF m] by simp
    with that show False by (simp add: live_def)
  qed
  then show "F i \<in> U \<Longrightarrow> loop_id (desc (F i mod 16)) = PMP_LOOP_UNUSED" using ring_okD(6) [OF ok, of "F i mod 16"] by simp
  assume "F i \<notin> U"
  then have "live t F U T (F i)" using i by (auto simp: live_def)
  then show "loop_id (desc (F i mod 16)) = loop_identifier (of_nat (F i))" using ring_okD(5) [OF ok] by (simp add: describes_def)
qed

section \<open>The invariant of the team\<close>

definition rthread_ok :: "nat \<Rightarrow> nat set \<Rightarrow> nat \<Rightarrow> ring_pc \<Rightarrow> nat \<Rightarrow> pmp_thread \<Rightarrow> bool" where
  "rthread_ok T U f pc n thread \<longleftrightarrow> in_team thread \<and> thread_loop_count thread = of_nat n \<and> n \<le> T \<and>
     n = (if pc = Outside then f else Suc f) \<and> thread_loop thread = (if pc = Inside then Some (f mod 16) else None) \<and>
     (pc = Inside \<longrightarrow> f \<notin> U)"

definition first_waiting :: "ring_pc list \<Rightarrow> nat set" where
  "first_waiting xs = {i. i < length xs \<and> xs ! i = Allocating True}"

definition ring_inv :: "loop_spec \<Rightarrow> nat \<Rightarrow> nat \<Rightarrow> (nat \<Rightarrow> nat) \<Rightarrow> ring_state \<Rightarrow> bool" where
  "ring_inv spec t T F s \<longleftrightarrow> 0 < t \<and> t < 2 ^ 31 \<and>
     length (rthreads s) = t \<and> length (rpcs s) = t \<and> length (loops_met s) = t \<and>
     team_size (rteam s) = int t \<and> length (team_loops (rteam s)) = 16 \<and> team_loop_count (rteam s) = of_nat T \<and>
     (\<forall>i < t. rthread_ok T (F ` first_waiting (rpcs s)) (F i) (rpcs s ! i) (loops_met s ! i) (rthreads s ! i)) \<and>
     inj_on F (first_waiting (rpcs s)) \<and>
     ring_ok spec t T F (F ` first_waiting (rpcs s)) (\<lambda>j. team_loops (rteam s) ! j)"

lemma ring_invD:
  assumes "ring_inv spec t T F s"
  shows "length (rthreads s) = t" and "length (rpcs s) = t" and "length (loops_met s) = t"
    and "team_size (rteam s) = int t" and "length (team_loops (rteam s)) = 16" and "team_loop_count (rteam s) = of_nat T"
    and "i < t \<Longrightarrow> rthread_ok T (F ` first_waiting (rpcs s)) (F i) (rpcs s ! i) (loops_met s ! i) (rthreads s ! i)"
    and "inj_on F (first_waiting (rpcs s))"
    and "ring_ok spec t T F (F ` first_waiting (rpcs s)) (\<lambda>j. team_loops (rteam s) ! j)"
    and "0 < t" and "t < 2 ^ 31"
  using assms by (simp_all add: ring_inv_def)

lemma first_waiting_update:
  "i < length xs \<Longrightarrow> first_waiting (xs[i := pc]) = (if pc = Allocating True then insert i (first_waiting xs) else first_waiting xs - {i})"
  by (auto simp: first_waiting_def nth_list_update)

text \<open>A step of thread \<open>i\<close>: what has to be shown of the new state.\<close>

lemma ring_inv_step:
  assumes inv: "ring_inv spec t T F s" and i: "i < t"
    and s': "rpcs s' = (rpcs s)[i := pc]" "rthreads s' = (rthreads s)[i := thread]" "length (loops_met s') = t" "loops_met s' ! i = n"
      "\<And>k. k \<noteq> i \<Longrightarrow> loops_met s' ! k = loops_met s ! k"
    and tm: "team_size (rteam s') = int t" "length (team_loops (rteam s')) = 16" "team_loop_count (rteam s') = of_nat T'"
    and F': "\<And>k. k \<noteq> i \<Longrightarrow> F' k = F k" and "T \<le> T'" and U': "U' = F' ` first_waiting (rpcs s')"
    and new: "rthread_ok T' U' (F' i) pc n thread" and U: "\<And>f. f \<in> U' \<Longrightarrow> f \<in> F ` first_waiting (rpcs s) \<or> T \<le> f"
    and "inj_on F' (first_waiting (rpcs s'))" and "ring_ok spec t T' F' U' (\<lambda>j. team_loops (rteam s') ! j)"
  shows "ring_inv spec t T' F' s'"
proof -
  have "rthread_ok T' U' (F' k) (rpcs s' ! k) (loops_met s' ! k) (rthreads s' ! k)" if k: "k < t" for k
  proof (cases "k = i")
    case True
    then show ?thesis using new s' i ring_invD(1-3) [OF inv] by simp
  next
    case False
    have "rthread_ok T (F ` first_waiting (rpcs s)) (F k) (rpcs s ! k) (loops_met s ! k) (rthreads s ! k)"
      using ring_invD(7) [OF inv k] .
    then have "rthread_ok T' U' (F k) (rpcs s ! k) (loops_met s ! k) (rthreads s ! k)"
      using U [of "F k"] \<open>T \<le> T'\<close> by (auto simp: rthread_ok_def)
    then show ?thesis using False s' F' by simp
  qed
  then show ?thesis using assms ring_invD(1-3,10,11) [OF inv] by (simp add: ring_inv_def)
qed

lemma waiting_count:
  assumes "ring_inv spec t T F s" and "i < t" and "rpcs s ! i \<noteq> Outside"
  shows "thread_loop_count (rthreads s ! i) - 1 = of_nat (F i)" and "F i < T"
    and "unat ((thread_loop_count (rthreads s ! i) - 1) AND PMP_MASK_LOOP_INDEX) = F i mod 16"
proof -
  note th = ring_invD(7) [OF assms(1,2)]
  show c: "thread_loop_count (rthreads s ! i) - 1 = of_nat (F i)" using th assms(3) by (simp add: rthread_ok_def)
  show "F i < T" using th assms(3) by (simp add: rthread_ok_def)
  show "unat ((thread_loop_count (rthreads s ! i) - 1) AND PMP_MASK_LOOP_INDEX) = F i mod 16"
    unfolding c by (rule loop_index_of_nat)
qed

lemma enter_loop_keeps:
  assumes inv: "ring_inv spec t T F s" and i: "i < t" and pc: "rpcs s ! i = Outside"
    and e: "alloc_enter (rthreads s ! i) (rteam s) = (first, thread, team)"
  shows "\<exists>T'. ring_inv spec t T' F (s\<lparr>rteam := team, rthreads := (rthreads s)[i := thread], rpcs := (rpcs s)[i := Allocating first],
      loops_met := (loops_met s)[i := Suc (loops_met s ! i)]\<rparr>)"
proof -
  note D = ring_invD [OF inv] and th = ring_invD(7) [OF inv i]
  have n: "loops_met s ! i = F i" "F i \<le> T" using th pc by (simp_all add: rthread_ok_def)
  have "T < F i + 2 ^ 32" using ring_window [OF D(9) i] by simp
  then have eq: "(of_nat (F i) :: 32 word) = of_nat T \<longleftrightarrow> F i = T" using n(2) by (intro of_nat_word_eq) auto
  have c: "in_team (rthreads s ! i)" "thread_loop_count (rthreads s ! i) = of_nat (F i)" using th n by (simp_all add: rthread_ok_def)
  have "alloc_enter (rthreads s ! i) (rteam s) = (F i = T, (rthreads s ! i)\<lparr>thread_loop_count := of_nat (F i) + 1\<rparr>,
      if F i = T then (rteam s)\<lparr>team_loop_count := of_nat T + 1\<rparr> else rteam s)"
    using eq eq [unfolded eq_commute [of "of_nat (F i) :: 32 word"]] by (simp add: alloc_enter_def Let_def c D(6))
  then have thread: "thread = (rthreads s ! i)\<lparr>thread_loop_count := of_nat (F i) + 1\<rparr>" and f: "first \<longleftrightarrow> F i = T"
    and tm: "team = (if F i = T then (rteam s)\<lparr>team_loop_count := of_nat T + 1\<rparr> else rteam s)"
    using e by simp_all
  have sub: "F ` first_waiting (rpcs s) \<subseteq> {..<T}" using ring_okD(1) [OF D(9)] .
  have nw: "i \<notin> first_waiting (rpcs s)" using pc by (simp add: first_waiting_def)
  show ?thesis
  proof (cases "F i = T")
    case True
    have "F ` first_waiting ((rpcs s)[i := Allocating True]) = insert T (F ` first_waiting (rpcs s))"
      using True i D(2) by (simp add: first_waiting_update)
    moreover have "inj_on F (first_waiting ((rpcs s)[i := Allocating True]))"
      using D(8) sub True i D(2) nw by (force simp: first_waiting_update)
    ultimately show ?thesis
      using ring_enter_first [OF D(9) i True] i th f tm True n thread D(1-6)
      by (intro exI [of _ "Suc T"] ring_inv_step [OF inv i, of _ "Allocating True" thread "Suc (F i)" "Suc T" F "insert T (F ` first_waiting (rpcs s))"])
        (auto simp: D(1-6) rthread_ok_def)
  next
    case False
    have "first_waiting ((rpcs s)[i := Allocating False]) = first_waiting (rpcs s)" using i D(2) nw by (simp add: first_waiting_update)
    then show ?thesis
      using i th f tm False n thread D(1-6,8,9)
      by (intro exI [of _ T] ring_inv_step [OF inv i, of _ "Allocating False" thread "Suc (F i)" T F "F ` first_waiting (rpcs s)"])
        (auto simp: rthread_ok_def)
  qed
qed

lemma fill_loop_keeps:
  assumes inv: "ring_inv spec t T F s" and i: "i < t" and pc: "rpcs s ! i = Allocating True"
    and "alloc_ready True (of_nat (F i)) (team_loops (rteam s) ! (F i mod 16))"
    and sp: "spec (F i) = (sched, lower, upper, inc, chunk, min_chunk_arg)"
    and fl: "alloc_fill False (team_size (rteam s)) (of_nat (F i)) sched lower upper inc chunk min_chunk_arg
      (team_loops (rteam s) ! (F i mod 16)) = Inr loop"
  shows "ring_inv spec t T F (s\<lparr>rteam := (rteam s)\<lparr>team_loops := (team_loops (rteam s))[F i mod 16 := loop]\<rparr>,
      rthreads := (rthreads s)[i := (rthreads s ! i)\<lparr>thread_loop := Some (F i mod 16)\<rparr>], rpcs := (rpcs s)[i := Inside]\<rparr>)"
    (is "ring_inv _ _ _ _ ?s")
proof -
  note D = ring_invD [OF inv] and th = ring_invD(7) [OF inv i]
  let ?U = "F ` first_waiting (rpcs s)"
  have w: "i \<in> first_waiting (rpcs s)" using pc i D(2) by (simp add: first_waiting_def)
  have loop: "describes spec (F i) loop" "looping_threads loop = int t"
    using fl sp D(4) by (auto simp: alloc_fill_def pmp_start_check_def bindE_eq_Inr_iff describes_def)
  have U: "F ` first_waiting (rpcs ?s) = ?U - {F i}"
    using inj_on_image_set_diff [OF D(8), of "first_waiting (rpcs s)" "{i}"] w i D(2) by (simp add: first_waiting_update)
  have eq: "(\<lambda>j. team_loops (rteam ?s) ! j) = (\<lambda>j. team_loops (rteam s) ! j)(F i mod 16 := loop)"
    using D(5) by (simp add: fun_eq_iff)
  have "ring_ok spec t T F (?U - {F i}) (\<lambda>j. team_loops (rteam ?s) ! j)"
    unfolding eq by (rule ring_fill [OF D(9) i imageI [OF w] _ loop]) (use assms(4) in \<open>simp add: alloc_ready_def\<close>)
  moreover have "inj_on F (first_waiting (rpcs ?s))" using D(8) i D(2) by (simp add: first_waiting_update inj_on_diff)
  ultimately show ?thesis
    using U th pc D(1-6) i
    by (intro ring_inv_step [OF inv i, of _ Inside "(rthreads s ! i)\<lparr>thread_loop := Some (F i mod 16)\<rparr>" "loops_met s ! i" T F "?U - {F i}"])
      (auto simp: rthread_ok_def)
qed

lemma attach_loop_keeps:
  assumes inv: "ring_inv spec t T F s" and i: "i < t" and pc: "rpcs s ! i = Allocating False"
    and "alloc_ready False (of_nat (F i)) (team_loops (rteam s) ! (F i mod 16))"
  shows "ring_inv spec t T F (s\<lparr>rthreads := (rthreads s)[i := (rthreads s ! i)\<lparr>thread_loop := Some (F i mod 16)\<rparr>],
      rpcs := (rpcs s)[i := Inside]\<rparr>)" (is "ring_inv _ _ _ _ ?s")
proof -
  note D = ring_invD [OF inv] and th = ring_invD(7) [OF inv i]
  let ?U = "F ` first_waiting (rpcs s)"
  have "i \<notin> first_waiting (rpcs s)" using pc by (simp add: first_waiting_def)
  then have w: "first_waiting (rpcs ?s) = first_waiting (rpcs s)" using i D(2) by (simp add: first_waiting_update)
  have "F i \<notin> ?U"
    using ring_attach [OF D(9) i waiting_count(2) [OF inv i]] assms(4) pc by (simp add: alloc_ready_def)
  then show ?thesis
    using w th pc D(1-6,8,9) i
    by (intro ring_inv_step [OF inv i, of _ Inside "(rthreads s ! i)\<lparr>thread_loop := Some (F i mod 16)\<rparr>" "loops_met s ! i" T F ?U])
      (auto simp: rthread_ok_def)
qed

lemma inside_loop:
  assumes inv: "ring_inv spec t T F s" and i: "i < t" and pc: "rpcs s ! i = Inside"
  shows "thread_loop (rthreads s ! i) = Some (F i mod 16)" and "F i < T" and "F i \<notin> F ` first_waiting (rpcs s)"
    and "describes spec (F i) (team_loops (rteam s) ! (F i mod 16))"
  using ring_invD(7) [OF inv i] pc ring_okD(5) [OF ring_invD(9) [OF inv], of "F i"] i
  by (auto simp: rthread_ok_def live_def Suc_le_eq)

lemma work_loop_keeps:
  assumes inv: "ring_inv spec t T F s" and i: "i < t" and pc: "rpcs s ! i = Inside"
  shows "ring_inv spec t T F (s\<lparr>rteam := (rteam s)\<lparr>team_loops := (team_loops (rteam s))[F i mod 16 :=
      (team_loops (rteam s) ! (F i mod 16))\<lparr>loop_current := x, loop_chunk := y, now_serving := z\<rparr>]\<rparr>\<rparr>)" (is "ring_inv _ _ _ _ ?s")
proof -
  note D = ring_invD [OF inv]
  have "loop_id (team_loops (rteam ?s) ! j) = loop_id (team_loops (rteam s) ! j) \<and>
      looping_threads (team_loops (rteam ?s) ! j) = looping_threads (team_loops (rteam s) ! j) \<and>
      describes spec c (team_loops (rteam ?s) ! j) = describes spec c (team_loops (rteam s) ! j)" for c j
    using D(5) by (cases "j = F i mod 16") (auto simp: describes_def split: prod.splits)
  then have "ring_ok spec t T F U (\<lambda>j. team_loops (rteam ?s) ! j) = ring_ok spec t T F U (\<lambda>j. team_loops (rteam s) ! j)" for U
    unfolding ring_ok_def by presburger
  then show ?thesis using inv by (simp add: ring_inv_def)
qed

text \<open>The descriptor after a thread has released it.\<close>

definition released :: "pmp_loop \<Rightarrow> pmp_loop" where
  "released loop = (let loop' = loop\<lparr>looping_threads := looping_threads loop - 1\<rparr> in
     if looping_threads loop = 1 then loop'\<lparr>loop_id := PMP_LOOP_UNUSED\<rparr> else loop')"

lemma free_call:
  assumes inv: "ring_inv spec t T F s" and i: "i < t" and pc: "rpcs s ! i = Inside" and "\<not> param_check param"
    and loop: "loop = team_loops (rteam s) ! (F i mod 16)"
  shows "pmp_loop_free param (rthreads s ! i) (rteam s) ws = Inr ((rthreads s ! i)\<lparr>thread_loop := None\<rparr>,
    (rteam s)\<lparr>team_loops := (team_loops (rteam s))[F i mod 16 := released loop]\<rparr>, ws)"
    and "ring_ok spec t T (F(i := Suc (F i))) (F ` first_waiting (rpcs s))
      ((\<lambda>j. team_loops (rteam s) ! j)(F i mod 16 := released loop))"
proof -
  note D = ring_invD [OF inv] and I = inside_loop [OF inv i pc]
  have "describes spec (F i) ((released loop)\<lparr>loop_id := loop_id loop\<rparr>)"
    using I(4) by (auto simp: describes_def loop released_def Let_def split: prod.splits)
  then have l: "looping_threads loop = looping_threads (team_loops (rteam s) ! (F i mod 16))"
    "loop_id (released loop) = (if looping_threads loop = 1 then PMP_LOOP_UNUSED else loop_id (team_loops (rteam s) ! (F i mod 16)))"
    "looping_threads (released loop) = looping_threads loop - 1"
    "describes spec (F i) ((released loop)\<lparr>loop_id := loop_id (team_loops (rteam s) ! (F i mod 16))\<rparr>)"
    by (simp_all add: loop released_def Let_def)
  note r = ring_leave(2,3,1) [OF D(9) i I(2,3) l]
  from r(3) show "ring_ok spec t T (F(i := Suc (F i))) (F ` first_waiting (rpcs s))
      ((\<lambda>j. team_loops (rteam s) ! j)(F i mod 16 := released loop))" .
  have "loop_id loop = loop_identifier (of_nat (F i))" using I(4) by (simp add: describes_def loop)
  moreover have "s32 (looping_threads loop - 1) = looping_threads loop - 1" using r(1,2) D(11) by (intro s32_id) auto
  ultimately show "pmp_loop_free param (rthreads s ! i) (rteam s) ws = Inr ((rthreads s ! i)\<lparr>thread_loop := None\<rparr>,
    (rteam s)\<lparr>team_loops := (team_loops (rteam s))[F i mod 16 := released loop]\<rparr>, ws)"
    using I(1) waiting_count(1) [OF inv i] pc D(5) r(1) assms(4)
    by (simp add: pmp_loop_free_def pmp_stop_check_def Let_def s32_id released_def flip: loop)
qed

lemma leave_loop_keeps:
  assumes inv: "ring_inv spec t T F s" and i: "i < t" and pc: "rpcs s ! i = Inside" and "\<not> param_check param"
    and "pmp_loop_free param (rthreads s ! i) (rteam s) ws = Inr (thread, team, ws')"
  shows "ring_inv spec t T (F(i := Suc (F i))) (s\<lparr>rteam := team, rthreads := (rthreads s)[i := thread], rpcs := (rpcs s)[i := Outside]\<rparr>)"
    (is "ring_inv _ _ _ _ ?s")
proof -
  note D = ring_invD [OF inv] and th = ring_invD(7) [OF inv i] and I = inside_loop [OF inv i pc]
    and C = free_call [OF inv i pc assms(4) refl]
  have ni: "i \<notin> first_waiting (rpcs s)" using pc by (simp add: first_waiting_def)
  then have w: "first_waiting (rpcs ?s) = first_waiting (rpcs s)" using i D(2) by (simp add: first_waiting_update)
  have U: "F(i := Suc (F i)) ` first_waiting (rpcs s) = F ` first_waiting (rpcs s)" using ni by auto
  have inj: "inj_on (F(i := Suc (F i))) (first_waiting (rpcs s))" using D(8) ni by (auto simp: inj_on_def)
  have team: "team = (rteam s)\<lparr>team_loops := (team_loops (rteam s))[F i mod 16 := released (team_loops (rteam s) ! (F i mod 16))]\<rparr>"
    using C(1) [of ws] assms(5) by simp
  have eq: "(\<lambda>j. team_loops team ! j) =
      (\<lambda>j. team_loops (rteam s) ! j)(F i mod 16 := released (team_loops (rteam s) ! (F i mod 16)))"
    unfolding team using D(5) by (simp add: fun_eq_iff)
  have r: "thread = (rthreads s ! i)\<lparr>thread_loop := None\<rparr>" "team_size team = int t" "length (team_loops team) = 16"
    "team_loop_count team = of_nat T"
    using C(1) [of ws] assms(5) D(4-6) by (simp_all add: team)
  have r5: "ring_ok spec t T (F(i := Suc (F i))) (F ` first_waiting (rpcs s)) (\<lambda>j. team_loops team ! j)"
    unfolding eq by (rule C(2))
  show ?thesis
    using w U inj r r5 th pc I(2) D(1-3) i
    by (intro ring_inv_step [OF inv i, of _ Outside thread "loops_met s ! i" T "F(i := Suc (F i))" "F ` first_waiting (rpcs s)"])
      (auto simp: rthread_ok_def)
qed

lemma ring_step_keeps:
  assumes inv: "ring_inv spec t T F s" and "\<not> param_check param" and "ring_step param spec i s s'"
  shows "\<exists>T' F'. ring_inv spec t T' F' s'"
proof -
  note len = ring_invD(2) [OF inv]
  from assms(3) show ?thesis
  proof cases
    case (enter_loop first thread team)
    then show ?thesis using enter_loop_keeps [OF inv _ enter_loop(3,4)] len by blast
  next
    case (fill_loop loop_count d sched lower upper inc chunk min_chunk_arg loop)
    have i: "i < t" "rpcs s ! i \<noteq> Outside" using fill_loop(2,3) len by simp_all
    have "loop_count = of_nat (F i)" "d = F i mod 16" using waiting_count [OF inv i] fill_loop(4,5) by simp_all
    moreover have "loops_met s ! i - 1 = F i" using ring_invD(7) [OF inv i(1)] i(2) by (simp add: rthread_ok_def)
    ultimately have "ring_inv spec t T F s'"
      unfolding fill_loop(1) using fill_loop_keeps [OF inv i(1) fill_loop(3), of sched lower upper inc chunk min_chunk_arg loop] fill_loop(7-9) assms(2)
      by simp
    then show ?thesis by blast
  next
    case (attach_loop loop_count d)
    have i: "i < t" "rpcs s ! i \<noteq> Outside" using attach_loop(2,3) len by simp_all
    have "loop_count = of_nat (F i)" "d = F i mod 16" using waiting_count [OF inv i] attach_loop(4,5) by simp_all
    then have "ring_inv spec t T F s'" unfolding attach_loop(1) using attach_loop_keeps [OF inv i(1) attach_loop(3)] attach_loop(7) by simp
    then show ?thesis by blast
  next
    case (work_loop d x y z)
    have i: "i < t" using work_loop(2) len by simp
    then have "d = F i mod 16" using inside_loop(1) [OF inv i work_loop(3)] work_loop(4) by simp
    then show ?thesis using work_loop_keeps [OF inv i work_loop(3)] work_loop(1) by blast
  next
    case (leave_loop thread team ws)
    then show ?thesis using leave_loop_keeps [OF inv _ leave_loop(3) assms(2) leave_loop(4)] len by blast
  qed
qed

text \<open>In no reachable state are all threads stuck: a thread that is behind no other can go on.\<close>

lemma ring_progress:
  assumes inv: "ring_inv spec t T F s" and "\<not> param_check param"
  shows "\<exists>i < t. \<exists>s'. ring_step param spec i s s' \<and> rpcs s' ! i \<noteq> rpcs s ! i"
proof -
  note D = ring_invD [OF inv]
  consider (out) i where "i < t" "rpcs s ! i = Outside" | (ins) i where "i < t" "rpcs s ! i = Inside"
    | (wait) "\<And>k. k < t \<Longrightarrow> \<exists>f. rpcs s ! k = Allocating f" by (metis ring_pc.exhaust)
  then show ?thesis
  proof cases
    case out
    obtain first thread team where "alloc_enter (rthreads s ! i) (rteam s) = (first, thread, team)" by (metis prod_cases3)
    from enter_loop [OF _ out(2) this, of param spec] show ?thesis using out D(2) by fastforce
  next
    case ins
    from leave_loop [OF _ ins(2) free_call(1) [OF inv ins assms(2) refl], of spec] show ?thesis using ins D(2) by fastforce
  next
    case wait
    then have out: "rpcs s ! k \<noteq> Outside" if "k < t" for k using that by fastforce
    obtain i where i: "i < t" "\<And>k. k < t \<Longrightarrow> F i \<le> F k"
      using D(10) arg_min_nat_lemma [of "\<lambda>k. k < t" 0 F] by blast
    show ?thesis
    proof (cases "F i \<in> F ` first_waiting (rpcs s)")
      case True
      then obtain k where k: "k < t" "F k = F i" "rpcs s ! k = Allocating True" using D(2) by (auto simp: first_waiting_def)
      note w = waiting_count [OF inv k(1) out [OF k(1)]]
      have unused: "loop_id (team_loops (rteam s) ! (F k mod 16)) = PMP_LOOP_UNUSED"
        using ring_least(1) [OF D(9) k(1) w(2)] i(2) True k(2) by simp
      obtain sched lower upper inc chunk mc where sp: "spec (loops_met s ! k - 1) = (sched, lower, upper, inc, chunk, mc)"
        by (metis prod_cases6)
      obtain loop where loop: "alloc_fill (param_check param) (team_size (rteam s)) (of_nat (F k)) sched lower upper inc chunk mc
          (team_loops (rteam s) ! (F k mod 16)) = Inr loop"
        using unused assms(2) by (simp add: alloc_fill_def pmp_start_check_def)
      let ?s = "s\<lparr>rteam := (rteam s)\<lparr>team_loops := (team_loops (rteam s))[F k mod 16 := loop]\<rparr>,
        rthreads := (rthreads s)[k := (rthreads s ! k)\<lparr>thread_loop := Some (F k mod 16)\<rparr>], rpcs := (rpcs s)[k := Inside]\<rparr>"
      have "ring_step param spec k s ?s"
        by (rule fill_loop [OF _ k(3), of "of_nat (F k)" "F k mod 16" spec sched lower upper inc chunk mc])
          (use k(1) w(1) sp loop unused D(2,5) loop_index_of_nat [of "F k"] in \<open>simp_all add: alloc_ready_def\<close>)
      moreover have "rpcs ?s ! k \<noteq> rpcs s ! k" using k(1,3) D(2) by simp
      ultimately show ?thesis using k(1) by blast
    next
      case False
      then have "i \<notin> first_waiting (rpcs s)" by blast
      then have pc: "rpcs s ! i = Allocating False" using wait [OF i(1)] i(1) D(2) by (auto simp: first_waiting_def)
      note w = waiting_count [OF inv i(1) out [OF i(1)]]
      have "loop_id (team_loops (rteam s) ! (F i mod 16)) = loop_identifier (of_nat (F i))"
        by (rule ring_least(2) [OF D(9) i(1) w(2) i(2) False])
      then have "alloc_ready False (of_nat (F i)) (team_loops (rteam s) ! (F i mod 16))" by (simp add: alloc_ready_def)
      from attach_loop [OF _ pc w(1) [symmetric] _ _ this, of param spec] show ?thesis
        using i(1) pc w D(2,5) by fastforce
    qed
  qed
qed

section \<open>Runs\<close>

definition ring_team_step :: "pmp_param \<Rightarrow> loop_spec \<Rightarrow> ring_state \<Rightarrow> ring_state \<Rightarrow> bool" where
  "ring_team_step param spec s s' \<longleftrightarrow> (\<exists>i. ring_step param spec i s s')"

text \<open>The start of a parallel region: no thread has met a loop and all descriptors are unused.\<close>

definition ring_start :: "nat \<Rightarrow> ring_state \<Rightarrow> bool" where
  "ring_start t s \<longleftrightarrow> 0 < t \<and> t < 2 ^ 31 \<and> length (rthreads s) = t \<and> rpcs s = replicate t Outside \<and> loops_met s = replicate t 0 \<and>
     team_size (rteam s) = int t \<and> length (team_loops (rteam s)) = PMP_MAX_LOOPS \<and> team_loop_count (rteam s) = 0 \<and>
     (\<forall>loop \<in> set (team_loops (rteam s)). loop_id loop = PMP_LOOP_UNUSED) \<and>
     (\<forall>thread \<in> set (rthreads s). in_team thread \<and> thread_loop thread = None \<and> thread_loop_count thread = 0)"

lemma ring_start_inv: "ring_start t s \<Longrightarrow> ring_inv spec t 0 (\<lambda>_. 0) s"
proof -
  assume *: "ring_start t s"
  then have "first_waiting (rpcs s) = {}" "length (team_loops (rteam s)) = 16"
    by (auto simp: ring_start_def first_waiting_def PMP_MAX_LOOPS_def PMP_LOG2_LOOPS_def)
  with * show ?thesis
    by (auto simp: ring_start_def ring_inv_def rthread_ok_def ring_ok_def live_def)
qed

interpretation ring: step_invariant "ring_team_step param spec" "\<lambda>s. \<not> param_check param \<and> ring_start t s"
  "\<lambda>s. \<not> param_check param \<and> (\<exists>T F. ring_inv spec t T F s)" for param spec t
  using ring_start_inv ring_step_keeps by unfold_locales (auto simp: ring_team_step_def, blast+)

lemma ring_reachable_inv:
  assumes "\<not> param_check param" and "ring_start t s0" and "(ring_team_step param spec)\<^sup>*\<^sup>* s0 s"
  shows "\<exists>T F. ring_inv spec t T F s"
  using ring.inv_reachable [of param t s0 spec s] assms by blast

text \<open>The first thread of a loop never finds the identifier of the loop in the descriptor before it has filled it.\<close>

lemma first_finds_other:
  assumes inv: "ring_inv spec t T F s" and i: "i < t" and pc: "rpcs s ! i = Allocating True"
  shows "loop_id (team_loops (rteam s) ! (F i mod 16)) \<noteq> loop_identifier (of_nat (F i))"
proof
  assume "loop_id (team_loops (rteam s) ! (F i mod 16)) = loop_identifier (of_nat (F i))"
  then have "F i \<notin> F ` first_waiting (rpcs s)"
    using ring_attach [OF ring_invD(9) [OF inv] i waiting_count(2) [OF inv i]] pc by simp
  then show False using i pc ring_invD(2) [OF inv] by (auto simp: first_waiting_def)
qed

lemma same_descriptor:
  assumes inv: "ring_inv spec t T F s" and i: "i < t" "rpcs s ! i = Inside" and k: "k < t" "rpcs s ! k = Inside"
    and "F i mod 16 = F k mod 16"
  shows "F i = F k"
proof -
  have "live t F (F ` first_waiting (rpcs s)) T (F m)" if "m < t" "rpcs s ! m = Inside" for m
    using inside_loop(2,3) [OF inv that] that(1) by (auto simp: live_def)
  then show ?thesis using live_unique [OF ring_invD(9) [OF inv]] assms by blast
qed

lemma inside_number: "ring_inv spec t T F s \<Longrightarrow> i < t \<Longrightarrow> rpcs s ! i \<noteq> Outside \<Longrightarrow> loops_met s ! i - 1 = F i"
  using ring_invD(7) by (fastforce simp: rthread_ok_def)

lemma inside_met: "ring_inv spec t T F s \<Longrightarrow> i < t \<Longrightarrow> rpcs s ! i = Inside \<Longrightarrow> loops_met s ! i = Suc (F i)"
  using ring_invD(7) by (fastforce simp: rthread_ok_def)

end
