(* ===== verification/Omp_Properties.thy ===== *)
theory Omp_Properties
  imports Omp_Chunks Omp_Ring
begin

text \<open>
  The properties of the OpenMP loop scheduler: every schedule executes every iteration of a loop
  once, under any interleaving of the threads.
\<close>

section \<open>Static schedules\<close>


definition example_param :: pmp_param where
  "example_param = \<lparr>param_check = False, static_fair = True, runtime_chunk = 1, runtime_schedule = PMP_SCHED_STATIC_EVEN,
     guided_chunk_divisor = 2, guided_chunk_max = 300\<rparr>"

definition example_loop :: pmp_loop where
  "example_loop = \<lparr>loop_sched = PMP_SCHED_ORDERED_DYNAMIC, check_last = 0, loop_lower = 10, loop_upper = 0, loop_inc = - 3, min_chunk = 1,
     check_loop = None, loop_chunk = 2, loop_id = 0, looping_threads = 2, now_serving = 10, loop_current = 10\<rparr>"

definition example_team :: pmp_team where
  "example_team = \<lparr>team_size = 2, team_loops = [example_loop], team_loop_count = 0\<rparr>"

definition example_thread :: pmp_thread where
  "example_thread = \<lparr>local_id = 1, in_team = True, thread_loop_count = 0, iteration = 0, ticket_number = 0, thread_loop = None\<rparr>"

lemmas example_defs = example_param_def example_loop_def example_team_def example_thread_def


section \<open>Dynamic and guided schedules\<close>

text \<open>
  C25: however the threads of a team interleave, the intervals a dynamic or guided loop has handed out
  so far are, in the order of the claims, a prefix of the iterations of the loop: no iteration is
  handed out twice, out of order, or outside the loop. When a thread has found the loop exhausted, all
  iterations have been handed out.
\<close>

theorem shared_loop_order:
  assumes "sched_ok_loop param t S loop" and "reachable param t loop s"
  shows "(\<exists>p. handed_iterations (loop_inc loop) s = take p (iterations (loop_lower loop) (loop_upper loop) (loop_inc loop))) \<and>
    (Done \<in> set (pcs s) \<longrightarrow>
      handed_iterations (loop_inc loop) s = iterations (loop_lower loop) (loop_upper loop) (loop_inc loop))"
proof -
  obtain p where inv: "sched_inv t S loop p s" using reachable_inv [OF assms] by blast
  show ?thesis using inv_prefix [OF inv] inv_complete [OF inv] by blast
qed

text \<open>One thread of a dynamic loop of two threads takes the first chunk of two iterations.\<close>

lemma example_ok: "sched_ok_loop example_param 2 300 example_loop"
  by (simp add: sched_ok_loop_def example_defs loop_ok_def team_ok_def loop_within_def PMP_MAX_THREADS_def is_dynamic_def)

definition example_state :: sched_state where
  "example_state = \<lparr>shared_loop = example_loop\<lparr>loop_current := 4\<rparr>, pcs = [Asking, Asking], handed = [(1, 10, 7)]\<rparr>"

lemma example_step: "sched_step example_param 1 (sched_start 2 example_loop) example_state"
  using dynamic_give [of 1 "sched_start 2 example_loop" "(10, 7)" "example_loop\<lparr>loop_current := 4\<rparr>" example_param]
  by (simp add: sched_start_def example_defs example_state_def is_dynamic_def sched_defs next_dynamic_def loop_claim_def claimed_def
      loop_within_def LOOPMIN_def int64_abs s64_id numeral_2_eq_2)

lemma example_team_step: "team_step example_param (sched_start 2 example_loop) example_state"
  using example_step unfolding team_step_def by blast

lemma example_reachable: "reachable example_param 2 example_loop example_state"
  using example_team_step by (auto simp: reachable_def)

definition example_end :: sched_state where
  "example_end = \<lparr>shared_loop = example_loop\<lparr>loop_current := - 8\<rparr>, pcs = [Done, Asking], handed = [(1, 10, 7), (0, 4, 1)]\<rparr>"

lemma example_end_reachable: "reachable example_param 2 example_loop example_end"
proof -
  define mid where "mid = \<lparr>shared_loop = example_loop\<lparr>loop_current := - 2\<rparr>, pcs = [Asking, Asking], handed = [(1, 10, 7), (0, 4, 1)]\<rparr>"
  have "sched_step example_param 0 example_state mid"
    using dynamic_give [of 0 example_state "(4, 1)" "example_loop\<lparr>loop_current := - 2\<rparr>" example_param]
    by (simp add: example_defs example_state_def mid_def is_dynamic_def next_dynamic_def loop_claim_def claimed_def
        loop_within_def LOOPMIN_def int64_abs s64_id)
  moreover have "sched_step example_param 0 mid example_end"
    using dynamic_end [of 0 mid "example_loop\<lparr>loop_current := - 8\<rparr>" example_param]
    by (simp add: example_defs example_end_def mid_def is_dynamic_def next_dynamic_def loop_claim_def claimed_def
        loop_within_def int64_abs s64_id)
  ultimately have "team_step example_param example_state mid" "team_step example_param mid example_end"
    by (auto simp: team_step_def)
  with example_reachable show ?thesis by (auto simp: reachable_def)
qed

theorem shared_loop_order_witness: "handed_iterations (- 3) example_end = [10, 7, 4, 1]"
  using shared_loop_order [OF example_ok example_end_reachable]
  by (simp add: example_end_def example_defs iterations_def upto.simps)

text \<open>
  C28: the scheduler never blocks: in every reachable state every thread that has not finished can
  take its next step, whatever the other threads do, and no assertion of the scheduler fails and no
  computation of it overflows.
\<close>

theorem scheduler_never_blocks:
  assumes "sched_ok_loop param t S loop" and "reachable param t loop s" and "i < t" and "pcs s ! i \<noteq> Done"
  shows "\<exists>s'. sched_step param i s s'"
proof -
  obtain p where inv: "sched_inv t S loop p s" using reachable_inv [OF assms(1,2)] by blast
  then have "i < length (pcs s)" using assms(3) by (simp add: sched_inv_def)
  from thread_can_step [OF assms(1) inv this assms(4)] show ?thesis .
qed

theorem scheduler_never_blocks_witness: "\<exists>s'. sched_step example_param 0 example_state s'"
  by (rule scheduler_never_blocks [OF example_ok example_reachable]) (simp_all add: example_state_def)

text \<open>
  C29: every run of the team ends: it has at most four steps for each iteration and three for each
  thread, and when no step is left all threads have finished and all iterations are handed out.
\<close>

theorem scheduler_ends:
  assumes "sched_ok_loop param t S loop" and "(team_step param ^^ k) (sched_start t loop) s"
  shows "k \<le> 4 * length (iterations (loop_lower loop) (loop_upper loop) (loop_inc loop)) + 3 * t \<and>
    ((\<nexists>s'. team_step param s s') \<longrightarrow> pcs s = replicate t Done \<and>
      handed_iterations (loop_inc loop) s = iterations (loop_lower loop) (loop_upper loop) (loop_inc loop))"
proof -
  have "k \<le> team_weight (sched_start t loop)"
    using assms by (intro team.run_bound [of _ t S loop]) (auto simp: team_start_def)
  moreover obtain p where inv: "sched_inv t S loop p s"
    using reachable_inv [OF assms(1) run_reachable [OF assms(2)]] by blast
  moreover have "0 < t" using assms(1) by (simp add: sched_ok_loop_def team_ok_def)
  ultimately show ?thesis
    using start_weight [OF assms(1)] stuck_done [OF assms(1) inv] inv_complete [OF inv] by auto
qed

theorem scheduler_ends_witness:
  "(team_step example_param ^^ 1) (sched_start 2 example_loop) example_state \<and> (1 :: nat) \<le> 4 * length [10 :: int, 7, 4, 1] + 3 * 2"
proof -
  have "(team_step example_param ^^ 1) (sched_start 2 example_loop) example_state"
    using example_team_step by (simp add: eq_OO)
  with scheduler_ends [OF example_ok this] show ?thesis by (auto simp: example_defs iterations_def upto.simps)
qed

text \<open>
  a call of \<^verbatim>\<open>__pmp_schedule_next\<close> on a dynamic or guided loop that no other thread interrupts is a
  run of the steps of the calling thread, and leaves it asking for more when it got an interval and
  finished when it did not.
\<close>

theorem scheduler_call_is_run:
  assumes "is_dynamic (shared_loop s) \<or> is_guided (shared_loop s)" and "i < length (pcs s)" and "pcs s ! i = Asking"
    and "next_interval param (int (length (pcs s))) lid iter (shared_loop s) = Inr (r, loop')"
  shows "(sched_step param i)\<^sup>*\<^sup>* s (s\<lparr>shared_loop := loop',
    pcs := (pcs s)[i := (case r of None \<Rightarrow> Done | Some _ \<Rightarrow> Asking)],
    handed := handed s @ (case r of None \<Rightarrow> [] | Some iv \<Rightarrow> [(i, iv)])\<rparr>)"
proof (cases "is_dynamic (shared_loop s)")
  case True
  then have "next_dynamic (shared_loop s) = Inr (r, loop')"
    using assms(4) by (auto simp: next_interval_def is_dynamic_def sched_defs)
  from dynamic_call_run [OF assms(2,3) True this] show ?thesis by (rule r_into_rtranclp)
next
  case False
  then have g: "is_guided (shared_loop s)" using assms(1) by blast
  then have "next_guided param (int (length (pcs s))) (shared_loop s) = Inr (r, loop')"
    using assms(4) by (auto simp: next_interval_def is_guided_def sched_defs)
  then show ?thesis by (rule guided_call_run [OF assms(2,3) g])
qed

theorem scheduler_call_is_run_witness:
  "(sched_step example_param 1)\<^sup>*\<^sup>* (sched_start 2 example_loop) example_state"
proof -
  have "next_interval example_param 2 1 0 example_loop = Inr (Some (10, 7), example_loop\<lparr>loop_current := 4\<rparr>)"
    by (simp add: example_defs next_interval_def sched_defs next_dynamic_def loop_claim_def claimed_def
      loop_within_def LOOPMIN_def int64_abs s64_id)
  then show ?thesis
    using scheduler_call_is_run [of "sched_start 2 example_loop" 1 example_param 1 0 "Some (10, 7)" "example_loop\<lparr>loop_current := 4\<rparr>"]
    by (simp add: sched_start_def example_loop_def is_dynamic_def example_state_def numeral_2_eq_2)
qed

section \<open>Ordered regions\<close>


definition example_threads :: "pmp_thread list" where
  "example_threads = [example_thread\<lparr>local_id := 0, thread_loop := Some 0\<rparr>, example_thread\<lparr>thread_loop := Some 0\<rparr>]"





text \<open>
  a statically scheduled loop that is handed out by \<^verbatim>\<open>__pmp_schedule_next\<close>: the calls of every thread end,
  and the intervals they return share the iterations of the loop out, each to one thread and each
  thread's in increasing order.
\<close>

theorem static_calls_share:
  assumes "static_ok (int t) loop" and "i < t"
  shows "static_calls (nat (loop_trips loop) + 2) param (int t) (int i) 0 loop = Inr (static_intervals param t loop i) \<and>
    shares loop t (\<lambda>i. interval_list (loop_inc loop) (static_intervals param t loop i)) 0"
  using static_intervals_ok(1) [OF assms refl] static_shares [OF assms(1)] by blast

theorem static_calls_share_witness:
  "shares (example_loop\<lparr>loop_sched := PMP_SCHED_ORDERED_STATIC\<rparr>) 2 (\<lambda>i. interval_list (- 3)
     (static_intervals example_param 2 (example_loop\<lparr>loop_sched := PMP_SCHED_ORDERED_STATIC\<rparr>) i)) 0"
  using static_calls_share [of 2 "example_loop\<lparr>loop_sched := PMP_SCHED_ORDERED_STATIC\<rparr>" 0 example_param]
  by (simp add: example_defs static_ok_def loop_ok_def team_ok_def loop_within_def PMP_MAX_THREADS_def is_static_def)

text \<open>
  the scheduler and the ordered regions together: in an ordered loop with the intervals that its
  schedule gives the threads, in any run of a dynamic or guided scheduler or by the calls of a static
  one, the ordered regions are entered in the order of the iterations, and all of them are when the
  threads come to rest.
\<close>

theorem ordered_loop_any_schedule:
  assumes "(\<exists>S s. sched_ok_loop param t S loop \<and> reachable param t loop s \<and> Done \<in> set (pcs s) \<and> ivs = map (thread_intervals s) [0..<t]) \<or>
      static_ok (int t) loop \<and> ivs = map (static_intervals param t loop) [0..<t]"
    and "PMP_SCHED_ORDERED_OFFSET < loop_sched loop" and "now_serving loop = loop_lower loop"
    and "length threads = t" and "team_size team = int t" and "d < length (team_loops team)" and "team_loops team ! d = loop"
    and "\<forall>thread \<in> set threads. in_team thread \<and> thread_loop thread = Some d"
    and "(ordered_team_step (loop_inc loop))\<^sup>*\<^sup>* (ordered_start team threads ivs) s'"
  shows "(\<exists>p. entered s' = take p (iterations (loop_lower loop) (loop_upper loop) (loop_inc loop))) \<and>
    ((\<nexists>s''. ordered_team_step (loop_inc loop) s' s'') \<longrightarrow>
      entered s' = iterations (loop_lower loop) (loop_upper loop) (loop_inc loop))"
proof -
  have "ordered_ok loop d team threads ivs"
    using assms(1) handed_ordered_ok [OF _ _ _ assms(2-8)] static_ordered_ok [OF _ assms(2-8)] reachable_inv by blast
  then obtain k where "ordered_inv loop d (length threads) k s'" using ordered_reachable_inv [OF _ assms(9)] by blast
  then show ?thesis using ordered_inv_entered ordered_stuck by blast
qed

theorem ordered_loop_any_schedule_witness:
  "\<exists>p. entered (ordered_start example_team example_threads (map (thread_intervals example_end) [0..<2])) = take p [10, 7, 4, 1]"
proof -
  have "\<exists>S s. sched_ok_loop example_param 2 S example_loop \<and> reachable example_param 2 example_loop s \<and> Done \<in> set (pcs s) \<and>
      map (thread_intervals example_end) [0..<2] = map (thread_intervals s) [0..<2]"
    using example_ok example_end_reachable by (intro exI [of _ 300] exI [of _ example_end]) (simp add: example_end_def)
  with ordered_loop_any_schedule [of example_param 2 example_loop "map (thread_intervals example_end) [0..<2]"
      example_threads example_team 0, OF disjI1 _ _ _ _ _ _ _ rtranclp.rtrancl_refl]
  show ?thesis by (simp add: example_defs example_threads_def sched_defs iterations_def upto.simps)
qed

section \<open>The ring of loop descriptors\<close>

text \<open>
  C30: the threads of a team run through their loops in any interleaving, a fast thread several loops
  ahead of a slow one, with the sixteen descriptors of the team used in turn and the loop counters
  wrapping around. A thread that is inside a loop has the descriptor of that loop, with the schedule and
  bounds the loop was started with, its release of the descriptor fails no assertion, and all threads
  with the same descriptor are in the same loop; the first thread of a loop does not find the loop
  already in its descriptor.
\<close>

theorem loop_ring_safe:
  assumes "\<not> param_check param" and "ring_start t s0" and "(ring_team_step param spec)\<^sup>*\<^sup>* s0 s"
    and "i < t" and "c = loops_met s ! i - 1"
  shows "(rpcs s ! i = Inside \<longrightarrow> thread_loop (rthreads s ! i) = Some (c mod PMP_MAX_LOOPS) \<and>
      describes spec c (team_loops (rteam s) ! (c mod PMP_MAX_LOOPS)) \<and>
      (\<exists>thread team. pmp_loop_free param (rthreads s ! i) (rteam s) ws = Inr (thread, team, ws))) \<and>
    (rpcs s ! i = Allocating True \<longrightarrow> loop_id (team_loops (rteam s) ! (c mod PMP_MAX_LOOPS)) \<noteq> loop_identifier (of_nat c)) \<and>
    (\<forall>k < t. rpcs s ! i = Inside \<and> rpcs s ! k = Inside \<and> thread_loop (rthreads s ! i) = thread_loop (rthreads s ! k) \<longrightarrow>
      loops_met s ! i = loops_met s ! k)"
proof -
  obtain T F where inv: "ring_inv spec t T F s" using ring_reachable_inv [OF assms(1-3)] by blast
  have max: "PMP_MAX_LOOPS = 16" by (simp add: PMP_MAX_LOOPS_def PMP_LOG2_LOOPS_def)
  have c: "rpcs s ! i \<noteq> Outside \<Longrightarrow> c = F i" using inside_number [OF inv assms(4)] assms(5) by simp
  have "loops_met s ! i = loops_met s ! k"
    if "k < t" "rpcs s ! i = Inside" "rpcs s ! k = Inside" "thread_loop (rthreads s ! i) = thread_loop (rthreads s ! k)" for k
  proof -
    have "F i mod 16 = F k mod 16" using inside_loop(1) [OF inv] that assms(4) by simp
    from same_descriptor [OF inv assms(4) that(2,1,3) this] show ?thesis
      using inside_met [OF inv] that assms(4) by simp
  qed
  moreover have "\<exists>thread team. pmp_loop_free param (rthreads s ! i) (rteam s) ws = Inr (thread, team, ws)" if "rpcs s ! i = Inside"
    using free_call(1) [OF inv assms(4) that assms(1) refl] by blast
  ultimately show ?thesis
    using inside_loop(1,4) [OF inv assms(4)] first_finds_other [OF inv assms(4)] c max by auto
qed

definition example_ring :: ring_state where
  "example_ring = \<lparr>rteam = \<lparr>team_size = 2, team_loops = replicate PMP_MAX_LOOPS (pmp_loop_init example_loop), team_loop_count = 0\<rparr>,
     rthreads = replicate 2 example_thread, rpcs = replicate 2 Outside, loops_met = replicate 2 0\<rparr>"

definition example_spec :: loop_spec where
  "example_spec c = (PMP_SCHED_DYNAMIC, 0, int c, 1, 2, 0)"

lemma example_ring_start: "ring_start 2 example_ring"
  by (simp add: ring_start_def example_ring_def pmp_loop_init_def example_thread_def)

text \<open>The second thread has met the first loop and filled its descriptor.\<close>

lemma example_ring_run:
  "\<exists>s. (ring_team_step example_param example_spec)\<^sup>*\<^sup>* example_ring s \<and> rpcs s ! 1 = Inside \<and> loops_met s ! 1 = 1"
proof -
  let ?alloc = "pmp_loop_alloc example_param (rthreads example_ring ! 1) (rteam example_ring) PMP_SCHED_DYNAMIC 0 0 1 2 0"
  have "\<exists>r. ?alloc = Inr r"
    by (simp add: pmp_loop_alloc_def example_ring_def example_thread_def example_param_def loop_index_def alloc_enter_def Let_def
        alloc_ready_def alloc_fill_def pmp_start_check_def pmp_loop_init_def PMP_MAX_LOOPS_def PMP_LOG2_LOOPS_def
        loop_identifier_def PMP_LOOP_UNUSED_def)
  then obtain thread team where "?alloc = Inr (thread, team)" by (metis surj_pair)
  note alloc = this
  define s where "s = example_ring\<lparr>loops_met := (loops_met example_ring)[1 := 1], rteam := team,
      rthreads := (rthreads example_ring)[1 := thread], rpcs := (rpcs example_ring)[1 := Inside]\<rparr>"
  have "(ring_step example_param example_spec 1)\<^sup>*\<^sup>* example_ring s"
    using alloc_is_run [of 1 example_ring example_spec PMP_SCHED_DYNAMIC 0 0 1 2 0 example_param thread team] alloc
    by (simp add: s_def example_ring_def example_thread_def example_spec_def numeral_2_eq_2)
  then have "(ring_team_step example_param example_spec)\<^sup>*\<^sup>* example_ring s"
    by (rule rtranclp_mono [THEN predicate2D, rotated]) (auto simp: ring_team_step_def)
  moreover have "rpcs s ! 1 = Inside \<and> loops_met s ! 1 = 1" by (simp add: s_def example_ring_def)
  ultimately show ?thesis by blast
qed

theorem loop_ring_safe_witness:
  "\<exists>s. (ring_team_step example_param example_spec)\<^sup>*\<^sup>* example_ring s \<and> describes example_spec 0 (team_loops (rteam s) ! 0)"
proof -
  obtain s where s: "(ring_team_step example_param example_spec)\<^sup>*\<^sup>* example_ring s" "rpcs s ! 1 = Inside" "loops_met s ! 1 = 1"
    using example_ring_run by blast
  have "\<not> param_check example_param" by (simp add: example_param_def)
  from loop_ring_safe [OF this example_ring_start s(1), of 1 0 "(0, [])"] s show ?thesis by auto
qed

text \<open>
  C31: the ring does not deadlock: in every reachable state some thread can go on from where it is, to
  the next part of its allocation, into or out of a loop, although the first thread of a loop waits for its
  descriptor to become free and the others wait for the first.
\<close>

theorem loop_ring_live:
  assumes "\<not> param_check param" and "ring_start t s0" and "(ring_team_step param spec)\<^sup>*\<^sup>* s0 s"
  shows "\<exists>i < t. \<exists>s'. ring_step param spec i s s' \<and> rpcs s' ! i \<noteq> rpcs s ! i"
  using ring_reachable_inv [OF assms] ring_progress [OF _ assms(1)] by blast

theorem loop_ring_live_witness:
  "\<exists>i < 2. \<exists>s'. ring_step example_param example_spec i example_ring s' \<and> rpcs s' ! i \<noteq> rpcs example_ring ! i"
  by (rule loop_ring_live [OF _ example_ring_start rtranclp.rtrancl_refl]) (simp add: example_param_def)

end
