(* ===== verification/Omp_Team.thy ===== *)
theory Omp_Team
  imports Path64_Prelude
begin

text \<open>
  Barriers, forks and joins of a team (\<^verbatim>\<open>libopenmp/thread.c\<close>, \<^verbatim>\<open>team.c\<close>) under every interleaving of its threads:
  \<^verbatim>\<open>__pmp_thread_wait\<close> and \<^verbatim>\<open>__pmp_thread_wake\<close>, which first spin on a synchronisation word and then sleep until a
  signal arrives, and the counters of \<^verbatim>\<open>__pmp_thread_barrier\<close>, \<^verbatim>\<open>__pmp_thread_worker_join\<close> and
  \<^verbatim>\<open>__pmp_thread_master_join\<close>, which decide who waits and who wakes. A step is one access to shared memory, so all
  races between a thread that goes to sleep and the thread that wakes it are runs of the model.
\<close>

section \<open>State\<close>

definition PMP_SYNC_IDLE :: int where
  "PMP_SYNC_IDLE = 0"

definition PMP_SYNC_BLOCKED :: int where
  "PMP_SYNC_BLOCKED = 1"

definition PMP_SYNC_UNBLOCKED :: int where
  "PMP_SYNC_UNBLOCKED = 2"

lemmas sync_defs = PMP_SYNC_IDLE_def PMP_SYNC_BLOCKED_def PMP_SYNC_UNBLOCKED_def

text \<open>
  The places of a thread. \<open>Ready\<close> is the work function up to its next synchronisation. \<open>Check k\<close> to \<open>Suspended\<close> are
  \<^verbatim>\<open>__pmp_thread_wait\<close>: the \<open>k\<close>-th look at the synchronisation word, the exchange that announces the sleep, the
  store that resets the word, and the sleep. \<open>Wake\<close>, \<open>Clear\<close> and \<open>Signal\<close> are \<^verbatim>\<open>__pmp_thread_wake\<close> of the first of a
  list of threads: the exchange, the store that resets the word, and the signal. \<open>Reset\<close> is the last thread at a
  barrier, \<open>Join_Spin\<close> and \<open>Join_Last\<close> are the loop of \<^verbatim>\<open>__pmp_thread_master_join\<close>, \<open>Joined\<close> the master after it,
  \<open>Serial\<close> the master outside a parallel region. \<open>Failed\<close> is a failed assertion.
\<close>

datatype sync_pc = Ready | Check nat | Block | Unblock | Suspended | Reset
  | Wake "nat list" | Clear "nat list" | Signal "nat list" | Join_Spin nat | Join_Last | Joined | Serial | Failed

text \<open>
  \<open>pending\<close> counts the signals sent to a thread that it has not taken. \<open>arrived\<close> counts the synchronisations a thread has
  reached; it is not a field of the program.
\<close>

record sync_thread =
  thread_sync :: int
  pending :: nat
  sync_pc :: sync_pc
  arrived :: nat

record region_state =
  barrier_count :: int
  working_threads :: int
  members :: "nat \<Rightarrow> sync_thread"

text \<open>
  A thread of the team synchronises at barriers and at the end of each parallel region. The program is the list of
  these synchronisations; its first element stands for the creation of the threads, after which the workers wait
  for work as they do after a join.
\<close>

datatype sync_op = Barrier | Join

definition last_op :: "sync_op list \<Rightarrow> sync_thread \<Rightarrow> sync_op" where
  "last_op prog th = prog ! (arrived th - 1)"

section \<open>Waiting and waking\<close>

text \<open>A worker goes on with its work after a wait; the master that waited for its workers has joined them.\<close>

definition after_wait :: "nat \<Rightarrow> sync_op \<Rightarrow> sync_pc" where
  "after_wait i op = (if op = Join \<and> i = 0 then Joined else Ready)"

text \<open>
  After its wakes the last thread at a barrier and the master that starts a region go on with their work; the last
  worker of a region, which has woken the master, waits for work.
\<close>

fun waking :: "nat \<Rightarrow> sync_op \<Rightarrow> nat list \<Rightarrow> sync_pc" where
  "waking i op [] = (if op = Join \<and> i \<noteq> 0 then Check 0 else Ready)"
| "waking i op (j # js) = Wake (j # js)"

definition pmp_thread_wait :: "nat \<Rightarrow> nat \<Rightarrow> sync_op \<Rightarrow> sync_thread \<Rightarrow> sync_thread option" where
  "pmp_thread_wait thread_spin i op th =
     (case sync_pc th of
        Check k \<Rightarrow>
          Some (th\<lparr>sync_pc := if thread_sync th = PMP_SYNC_UNBLOCKED then Unblock
                             else if k < thread_spin then Check (k + 1) else Block\<rparr>)
      | Block \<Rightarrow>
          Some (if thread_sync th = PMP_SYNC_IDLE then th\<lparr>thread_sync := PMP_SYNC_BLOCKED, sync_pc := Suspended\<rparr>
                else th\<lparr>sync_pc := Unblock\<rparr>)
      | Unblock \<Rightarrow> Some (th\<lparr>thread_sync := PMP_SYNC_IDLE, sync_pc := after_wait i op\<rparr>)
      | Suspended \<Rightarrow>
          if pending th > 0 then Some (th\<lparr>pending := pending th - 1, sync_pc := after_wait i op\<rparr>) else None
      | _ \<Rightarrow> None)"

text \<open>A step of thread \<open>i\<close> in \<^verbatim>\<open>__pmp_thread_wake\<close>.\<close>

definition pmp_thread_wake :: "nat \<Rightarrow> sync_op \<Rightarrow> (nat \<Rightarrow> sync_thread) \<Rightarrow> (nat \<Rightarrow> sync_thread) option" where
  "pmp_thread_wake i op ths =
     (let th = ths i in
      case sync_pc th of
        Wake (j # js) \<Rightarrow>
          Some (if thread_sync (ths j) = PMP_SYNC_IDLE
                then ths(j := (ths j)\<lparr>thread_sync := PMP_SYNC_UNBLOCKED\<rparr>, i := th\<lparr>sync_pc := waking i op js\<rparr>)
                else ths(i := th\<lparr>sync_pc := if thread_sync (ths j) = PMP_SYNC_BLOCKED then Clear (j # js) else Failed\<rparr>))
      | Clear (j # js) \<Rightarrow>
          Some (ths(j := (ths j)\<lparr>thread_sync := PMP_SYNC_IDLE\<rparr>, i := th\<lparr>sync_pc := Signal (j # js)\<rparr>))
      | Signal (j # js) \<Rightarrow>
          Some (ths(j := (ths j)\<lparr>pending := pending (ths j) + 1\<rparr>, i := th\<lparr>sync_pc := waking i op js\<rparr>))
      | _ \<Rightarrow> None)"

section \<open>Barrier, join and fork\<close>

definition pmp_thread_barrier :: "nat \<Rightarrow> nat \<Rightarrow> region_state \<Rightarrow> region_state" where
  "pmp_thread_barrier t i s =
     (let th = (members s i)\<lparr>arrived := arrived (members s i) + 1\<rparr> in
      if t > 1 then
        let count = barrier_count s in
        s\<lparr>barrier_count := count - 1,
          members := (members s)(i := th\<lparr>sync_pc := if \<not> count > 0 then Failed else if count > 1 then Check 0 else Reset\<rparr>)\<rparr>
      else s\<lparr>members := (members s)(i := th)\<rparr>)"

definition barrier_release :: "nat \<Rightarrow> nat \<Rightarrow> region_state \<Rightarrow> region_state" where
  "barrier_release t i s =
     s\<lparr>barrier_count := int t,
       members := (members s)(i := (members s i)\<lparr>sync_pc := waking i Barrier (filter (\<lambda>j. j \<noteq> i) [0..<t])\<rparr>)\<rparr>"

definition pmp_thread_worker_join :: "nat \<Rightarrow> region_state \<Rightarrow> region_state" where
  "pmp_thread_worker_join i s =
     (let count = working_threads s; th = members s i in
      s\<lparr>working_threads := count - 1,
        members := (members s)(i := th\<lparr>arrived := arrived th + 1,
          sync_pc := if \<not> count \<ge> 1 then Failed else if count = 1 then Wake [0] else Check 0\<rparr>)\<rparr>)"

definition pmp_thread_master_join :: "nat \<Rightarrow> region_state \<Rightarrow> region_state option" where
  "pmp_thread_master_join thread_spin s =
     (let th = members s 0; count = working_threads s in
      case sync_pc th of
        Join_Spin k \<Rightarrow>
          Some (if k < thread_spin
                then s\<lparr>members := (members s)(0 := th\<lparr>sync_pc := if count = 1 then Join_Last else Join_Spin (k + 1)\<rparr>)\<rparr>
                else s\<lparr>working_threads := count - 1, members := (members s)(0 := th\<lparr>arrived := arrived th + 1,
                  sync_pc := if \<not> count \<ge> 1 then Failed else if count > 1 then Check 0 else Joined\<rparr>)\<rparr>)
      | Join_Last \<Rightarrow>
          Some (s\<lparr>working_threads := 0, members := (members s)(0 := th\<lparr>arrived := arrived th + 1, sync_pc := Joined\<rparr>)\<rparr>)
      | _ \<Rightarrow> None)"

text \<open>The assertion of \<^verbatim>\<open>__pmp_team_free\<close>, and the counters that \<^verbatim>\<open>__pmp_team_alloc\<close> sets before it wakes the workers.\<close>

definition region_end :: "region_state \<Rightarrow> region_state" where
  "region_end s =
     s\<lparr>members := (members s)(0 := (members s 0)\<lparr>sync_pc := if working_threads s = 0 then Serial else Failed\<rparr>)\<rparr>"

definition region_begin :: "nat \<Rightarrow> region_state \<Rightarrow> region_state" where
  "region_begin t s =
     s\<lparr>working_threads := int t, barrier_count := int t,
       members := (members s)(0 := (members s 0)\<lparr>sync_pc := waking 0 Join [1..<t]\<rparr>)\<rparr>"

text \<open>A step of thread \<open>i\<close> of a team of \<open>t\<close> threads; \<open>None\<close> when it sleeps, has finished or has failed.\<close>

definition sync_step :: "nat \<Rightarrow> nat \<Rightarrow> sync_op list \<Rightarrow> nat \<Rightarrow> region_state \<Rightarrow> region_state option" where
  "sync_step thread_spin t prog i s =
     (let th = members s i; op = last_op prog th in
      case sync_pc th of
        Ready \<Rightarrow>
          if \<not> arrived th < length prog then None
          else if prog ! arrived th = Barrier then Some (pmp_thread_barrier t i s)
          else if i = 0 then Some (s\<lparr>members := (members s)(0 := th\<lparr>sync_pc := Join_Spin 0\<rparr>)\<rparr>)
          else Some (pmp_thread_worker_join i s)
      | Reset \<Rightarrow> Some (barrier_release t i s)
      | Join_Spin k \<Rightarrow> pmp_thread_master_join thread_spin s
      | Join_Last \<Rightarrow> pmp_thread_master_join thread_spin s
      | Joined \<Rightarrow> Some (region_end s)
      | Serial \<Rightarrow> if arrived th < length prog then Some (region_begin t s) else None
      | Wake js \<Rightarrow> map_option (\<lambda>ths. s\<lparr>members := ths\<rparr>) (pmp_thread_wake i op (members s))
      | Clear js \<Rightarrow> map_option (\<lambda>ths. s\<lparr>members := ths\<rparr>) (pmp_thread_wake i op (members s))
      | Signal js \<Rightarrow> map_option (\<lambda>ths. s\<lparr>members := ths\<rparr>) (pmp_thread_wake i op (members s))
      | Failed \<Rightarrow> None
      | _ \<Rightarrow> map_option (\<lambda>th. s\<lparr>members := (members s)(i := th)\<rparr>) (pmp_thread_wait thread_spin i op th))"

definition region_step :: "nat \<Rightarrow> nat \<Rightarrow> sync_op list \<Rightarrow> region_state \<Rightarrow> region_state \<Rightarrow> bool" where
  "region_step thread_spin t prog s s' \<longleftrightarrow> (\<exists>i < t. sync_step thread_spin t prog i s = Some s')"

section \<open>The invariant\<close>

text \<open>
  What a thread does with its synchronisation word. \<open>awake\<close>: it is not in a wait and nobody has woken it.
  \<open>resting\<close>: it waits, or sleeps, and nobody has woken it yet. \<open>half_woken\<close>: it sleeps, its word has been reset, and
  the signal is about to be sent. \<open>woken\<close>: it will leave its wait without further help.
\<close>

definition awake :: "sync_thread \<Rightarrow> bool" where
  "awake th \<longleftrightarrow> thread_sync th = PMP_SYNC_IDLE \<and> pending th = 0 \<and>
     (case sync_pc th of Check k \<Rightarrow> False | Block \<Rightarrow> False | Unblock \<Rightarrow> False | Suspended \<Rightarrow> False | Failed \<Rightarrow> False | _ \<Rightarrow> True)"

definition resting :: "sync_thread \<Rightarrow> bool" where
  "resting th \<longleftrightarrow> pending th = 0 \<and>
     (case sync_pc th of Check k \<Rightarrow> thread_sync th = PMP_SYNC_IDLE | Block \<Rightarrow> thread_sync th = PMP_SYNC_IDLE
      | Suspended \<Rightarrow> thread_sync th = PMP_SYNC_BLOCKED | _ \<Rightarrow> False)"

definition half_woken :: "sync_thread \<Rightarrow> bool" where
  "half_woken th \<longleftrightarrow> pending th = 0 \<and> sync_pc th = Suspended \<and> thread_sync th = PMP_SYNC_IDLE"

definition woken :: "sync_thread \<Rightarrow> bool" where
  "woken th \<longleftrightarrow>
     (case sync_pc th of Check k \<Rightarrow> thread_sync th = PMP_SYNC_UNBLOCKED \<and> pending th = 0
      | Block \<Rightarrow> thread_sync th = PMP_SYNC_UNBLOCKED \<and> pending th = 0
      | Unblock \<Rightarrow> thread_sync th = PMP_SYNC_UNBLOCKED \<and> pending th = 0
      | Suspended \<Rightarrow> thread_sync th = PMP_SYNC_IDLE \<and> pending th = 1 | _ \<Rightarrow> False)"

lemmas sync_states = awake_def resting_def half_woken_def woken_def

text \<open>Thread \<open>r\<close> wakes the threads of a list that is not empty, and where the first of them is.\<close>

definition waker_ok :: "(nat \<Rightarrow> sync_thread) \<Rightarrow> nat \<Rightarrow> nat list \<Rightarrow> bool" where
  "waker_ok ths r js \<longleftrightarrow> js \<noteq> [] \<and> r \<notin> set js \<and> awake (ths r) \<and>
     (sync_pc (ths r) = Wake js \<and> resting (ths (hd js)) \<or>
      sync_pc (ths r) = Clear js \<and> resting (ths (hd js)) \<and> sync_pc (ths (hd js)) = Suspended \<or>
      sync_pc (ths r) = Signal js \<and> half_woken (ths (hd js)))"

lemma wake_step:
  assumes "waker_ok ths r (j # js)" and "pmp_thread_wake r op ths = Some ths'"
  shows "waker_ok ths' r (j # js) \<or> woken (ths' j) \<and> ths' r = (ths r)\<lparr>sync_pc := waking r op js\<rparr>"
    and "k \<noteq> r \<Longrightarrow> k \<noteq> j \<Longrightarrow> ths' k = ths k" and "arrived (ths' k) = arrived (ths k)"
    and "sync_pc (ths' j) = sync_pc (ths j)"
proof -
  have "r \<noteq> j" using assms(1) by (auto simp: waker_ok_def)
  consider (wake) "sync_pc (ths r) = Wake (j # js)" "resting (ths j)"
    | (clear) "sync_pc (ths r) = Clear (j # js)" "thread_sync (ths j) = PMP_SYNC_BLOCKED" "pending (ths j) = 0" "sync_pc (ths j) = Suspended"
    | (signal) "sync_pc (ths r) = Signal (j # js)" "half_woken (ths j)"
    using assms(1) by (auto simp: waker_ok_def resting_def)
  then have "(waker_ok ths' r (j # js) \<or> woken (ths' j) \<and> ths' r = (ths r)\<lparr>sync_pc := waking r op js\<rparr>) \<and>
      (k \<noteq> r \<longrightarrow> k \<noteq> j \<longrightarrow> ths' k = ths k) \<and> arrived (ths' k) = arrived (ths k) \<and> sync_pc (ths' j) = sync_pc (ths j)"
  proof cases
    case wake
    then have *: "thread_sync (ths j) = PMP_SYNC_IDLE \<and> sync_pc (ths j) \<noteq> Suspended \<or> thread_sync (ths j) = PMP_SYNC_BLOCKED \<and> sync_pc (ths j) = Suspended"
      by (auto simp: resting_def split: sync_pc.splits)
    show ?thesis
    proof (cases "thread_sync (ths j) = PMP_SYNC_IDLE")
      case True
      then have "woken ((ths j)\<lparr>thread_sync := PMP_SYNC_UNBLOCKED\<rparr>)"
        using wake(2) by (auto simp: sync_states sync_defs split: sync_pc.splits)
      with True show ?thesis using assms(2) wake(1) \<open>r \<noteq> j\<close> by (auto simp: pmp_thread_wake_def)
    next
      case False
      with * have b: "thread_sync (ths j) = PMP_SYNC_BLOCKED" "sync_pc (ths j) = Suspended" by auto
      then have t: "ths' = ths(r := (ths r)\<lparr>sync_pc := Clear (j # js)\<rparr>)"
        using assms(2) wake(1) by (simp add: pmp_thread_wake_def sync_defs)
      have "awake (ths' r)" "r \<notin> set (j # js)" using assms(1) t by (auto simp: waker_ok_def awake_def)
      with t b wake(2) \<open>r \<noteq> j\<close> show ?thesis by (simp add: waker_ok_def)
    qed
  next
    case clear
    then have t: "ths' = ths(j := (ths j)\<lparr>thread_sync := PMP_SYNC_IDLE\<rparr>, r := (ths r)\<lparr>sync_pc := Signal (j # js)\<rparr>)"
      using assms(2) by (simp add: pmp_thread_wake_def)
    have "awake (ths' r)" "r \<notin> set (j # js)" using assms(1) t by (auto simp: waker_ok_def awake_def)
    with t clear \<open>r \<noteq> j\<close> show ?thesis by (simp add: waker_ok_def half_woken_def)
  next
    case signal
    then have t: "ths' = ths(j := (ths j)\<lparr>pending := pending (ths j) + 1\<rparr>, r := (ths r)\<lparr>sync_pc := waking r op js\<rparr>)"
      using assms(2) by (simp add: pmp_thread_wake_def)
    then show ?thesis using signal \<open>r \<noteq> j\<close> by (simp add: woken_def half_woken_def)
  qed
  then show "waker_ok ths' r (j # js) \<or> woken (ths' j) \<and> ths' r = (ths r)\<lparr>sync_pc := waking r op js\<rparr>"
    and "k \<noteq> r \<Longrightarrow> k \<noteq> j \<Longrightarrow> ths' k = ths k" and "arrived (ths' k) = arrived (ths k)"
    and "sync_pc (ths' j) = sync_pc (ths j)" by auto
qed

lemma wake_can_step: "waker_ok ths r js \<Longrightarrow> \<exists>ths'. pmp_thread_wake r op ths = Some ths'"
  by (cases js) (auto simp: waker_ok_def pmp_thread_wake_def Let_def split: sync_pc.splits)

lemma rest_step:
  assumes "resting th" and "pmp_thread_wait spin i op th = Some th'"
  shows "resting th' \<and> arrived th' = arrived th"
  using assms by (auto simp: pmp_thread_wait_def sync_states sync_defs split: sync_pc.splits if_splits)

lemma woken_step:
  assumes "woken th" and "pmp_thread_wait spin i op th = Some th'"
  shows "(woken th' \<or> awake th' \<and> sync_pc th' = after_wait i op) \<and> arrived th' = arrived th"
  using assms by (auto simp: pmp_thread_wait_def sync_states sync_defs after_wait_def split: sync_pc.splits if_splits)

lemma woken_can_step: "woken th \<Longrightarrow> \<exists>th'. pmp_thread_wait spin i op th = Some th'"
  by (auto simp: pmp_thread_wait_def sync_states split: sync_pc.splits)

text \<open>
  The team between two synchronisations. All threads have reached synchronisation \<open>G\<close>; in a \<open>closed\<close> region nobody
  has been released from it yet, and one thread is about to do so: the last one at a barrier, or the master after a
  join, which the last worker may have to wake first.
\<close>

definition closed_region :: "nat \<Rightarrow> sync_op \<Rightarrow> nat \<Rightarrow> region_state \<Rightarrow> bool" where
  "closed_region t op G s \<longleftrightarrow> (\<forall>j < t. arrived (members s j) = G) \<and>
     (case op of
        Barrier \<Rightarrow> working_threads s = int t \<and> (\<exists>r < t. sync_pc (members s r) = Reset \<and> awake (members s r) \<and> (\<forall>j < t. j \<noteq> r \<longrightarrow> resting (members s j)))
      | Join \<Rightarrow> working_threads s = 0 \<and>
          ((woken (members s 0) \<or> awake (members s 0) \<and> sync_pc (members s 0) \<in> {Joined, Serial}) \<and>
             (\<forall>j < t. j \<noteq> 0 \<longrightarrow> resting (members s j)) \<or>
           (\<exists>w < t. w \<noteq> 0 \<and> waker_ok (members s) w [0] \<and> (\<forall>j < t. j \<noteq> 0 \<and> j \<noteq> w \<longrightarrow> resting (members s j)))))"

text \<open>
  In an open region thread \<open>r\<close> has still to release the threads of \<open>js\<close>; the others work, or have reached the next
  synchronisation, where they wait.
\<close>

definition running :: "sync_op \<Rightarrow> sync_op \<Rightarrow> int \<Rightarrow> nat \<Rightarrow> sync_thread \<Rightarrow> bool" where
  "running op next_op working j th \<longleftrightarrow> woken th \<and> (op = Barrier \<or> j \<noteq> 0) \<or>
     awake th \<and> (sync_pc th = Ready \<or> j = 0 \<and> next_op = Join \<and> ((\<exists>k. sync_pc th = Join_Spin k) \<or> sync_pc th = Join_Last \<and> working = 1))"

definition ahead :: "nat \<Rightarrow> nat \<Rightarrow> region_state \<Rightarrow> nat set" where
  "ahead t G s = {j. j < t \<and> arrived (members s j) = Suc G}"

definition open_region :: "nat \<Rightarrow> sync_op \<Rightarrow> sync_op \<Rightarrow> nat \<Rightarrow> nat list \<Rightarrow> nat \<Rightarrow> region_state \<Rightarrow> bool" where
  "open_region t op next_op G js r s \<longleftrightarrow>
     (\<exists>j < t. arrived (members s j) = G) \<and>
     (\<forall>j < t. arrived (members s j) = G \<or>
       arrived (members s j) = Suc G \<and> resting (members s j) \<and> j \<notin> set js \<and> (js \<noteq> [] \<longrightarrow> j \<noteq> r)) \<and>
     distinct js \<and> set js \<subseteq> {..<t} \<and>
     (js \<noteq> [] \<longrightarrow> r < t \<and> waker_ok (members s) r js \<and> (op = Join \<longrightarrow> r = 0)) \<and>
     (\<forall>j \<in> set (tl js). resting (members s j)) \<and>
     (\<forall>j < t. arrived (members s j) = G \<longrightarrow> j \<notin> set js \<longrightarrow> (js \<noteq> [] \<longrightarrow> j \<noteq> r) \<longrightarrow>
       running op next_op (working_threads s) j (members s j)) \<and>
     barrier_count s = int t - (if next_op = Barrier then int (card (ahead t G s)) else 0) \<and>
     working_threads s = int t - (if next_op = Join then int (card (ahead t G s)) else 0)"

lemma open_regionD:
  assumes "open_region t op next_op G js r s"
  shows "\<exists>j < t. arrived (members s j) = G"
    and "j < t \<Longrightarrow> arrived (members s j) = G \<or>
       arrived (members s j) = Suc G \<and> resting (members s j) \<and> j \<notin> set js \<and> (js \<noteq> [] \<longrightarrow> j \<noteq> r)"
    and "distinct js" and "set js \<subseteq> {..<t}" and "js \<noteq> [] \<Longrightarrow> r < t" and "js \<noteq> [] \<Longrightarrow> waker_ok (members s) r js"
    and "js \<noteq> [] \<Longrightarrow> op = Join \<Longrightarrow> r = 0" and "j \<in> set (tl js) \<Longrightarrow> resting (members s j)"
    and "j < t \<Longrightarrow> arrived (members s j) = G \<Longrightarrow> j \<notin> set js \<Longrightarrow> (js \<noteq> [] \<Longrightarrow> j \<noteq> r) \<Longrightarrow>
       running op next_op (working_threads s) j (members s j)"
    and "barrier_count s = int t - (if next_op = Barrier then int (card (ahead t G s)) else 0)"
    and "working_threads s = int t - (if next_op = Join then int (card (ahead t G s)) else 0)"
  using assms unfolding open_region_def by blast+

lemma not_resting [dest]: "awake th \<Longrightarrow> resting th \<Longrightarrow> False" "woken th \<Longrightarrow> resting th \<Longrightarrow> False"
    "awake th \<Longrightarrow> woken th \<Longrightarrow> False" "half_woken th \<Longrightarrow> resting th \<Longrightarrow> False" "half_woken th \<Longrightarrow> awake th \<Longrightarrow> False"
    "half_woken th \<Longrightarrow> woken th \<Longrightarrow> False"
  by (auto simp: sync_states sync_defs split: sync_pc.splits)

text \<open>A thread that waits takes a step of its own.\<close>

lemma sync_step_wait:
  assumes "resting (members s i) \<or> woken (members s i) \<or> half_woken (members s i)"
  shows "sync_step spin t prog i s = map_option (\<lambda>th. s\<lparr>members := (members s)(i := th)\<rparr>)
    (pmp_thread_wait spin i (last_op prog (members s i)) (members s i))"
  using assms by (auto simp: sync_step_def sync_states Let_def split: sync_pc.splits)

lemma sync_step_waitE:
  assumes "resting (members s i) \<or> woken (members s i) \<or> half_woken (members s i)" and "sync_step spin t prog i s = Some s'"
  obtains th where "pmp_thread_wait spin i (last_op prog (members s i)) (members s i) = Some th"
    "s' = s\<lparr>members := (members s)(i := th)\<rparr>"
  using assms sync_step_wait [OF assms(1), of spin t prog] by auto

lemma sync_step_wake:
  assumes "waker_ok (members s) i js"
  shows "sync_step spin t prog i s = map_option (\<lambda>ths. s\<lparr>members := ths\<rparr>)
    (pmp_thread_wake i (last_op prog (members s i)) (members s))"
  using assms by (auto simp: sync_step_def waker_ok_def Let_def)

lemma asleep: "half_woken th \<Longrightarrow> pmp_thread_wait spin i op th = None"
    "resting th \<Longrightarrow> sync_pc th = Suspended \<Longrightarrow> pmp_thread_wait spin i op th = None"
  by (simp_all add: pmp_thread_wait_def half_woken_def resting_def)

text \<open>The state of a waker does not depend on the threads it does not wake.\<close>

lemma waker_ok_other:
  assumes "waker_ok ths r js" and "i \<noteq> r" and "i \<noteq> hd js"
  shows "waker_ok (ths(i := th)) r js"
  using assms by (simp add: waker_ok_def)

lemma waker_ok_target:
  assumes "waker_ok ths r js" and "i = hd js" and "pmp_thread_wait spin i op (ths i) = Some th"
  shows "waker_ok (ths(i := th)) r js"
proof -
  have "hd js \<noteq> r" using assms(1) by (auto simp: waker_ok_def)
  moreover have "sync_pc (ths r) = Wake js" "resting (ths i)"
    using assms asleep [of "ths i"] by (auto simp: waker_ok_def)
  ultimately show ?thesis using assms rest_step [of "ths i"] by (simp add: waker_ok_def)
qed

section \<open>Steps of an open region\<close>

lemma wait_arrived: "pmp_thread_wait spin i op th = Some th' \<Longrightarrow> arrived th' = arrived th"
  by (auto simp: pmp_thread_wait_def split: sync_pc.splits if_splits)

lemma wait_awake: "awake th \<Longrightarrow> pmp_thread_wait spin i op th = None"
  by (auto simp: pmp_thread_wait_def awake_def split: sync_pc.splits)

lemma ahead_update: "arrived th = arrived (members s i) \<Longrightarrow> ahead t G (s\<lparr>members := (members s)(i := th)\<rparr>) = ahead t G s"
  by (auto simp: ahead_def)

lemma running_wait:
  assumes "running op next_op w i th" and "pmp_thread_wait spin i op th = Some th'"
  shows "running op next_op w i th'"
  using assms wait_awake [of th spin i op] woken_step [of th spin i op th']
  by (auto simp: running_def after_wait_def)

lemma open_local:
  assumes op: "open_region t op next_op G js r s" and i: "i < t" and a: "arrived th = arrived (members s i)"
    and rest: "resting (members s i) \<Longrightarrow> resting th"
    and w: "js \<noteq> [] \<Longrightarrow> i \<noteq> r \<and> waker_ok ((members s)(i := th)) r js"
    and run: "arrived (members s i) = G \<Longrightarrow> i \<notin> set js \<Longrightarrow> running op next_op (working_threads s) i th"
  shows "open_region t op next_op G js r (s\<lparr>members := (members s)(i := th)\<rparr>)" (is "open_region _ _ _ _ _ _ ?s")
proof -
  note D = open_regionD [OF op]
  have ar: "arrived (members ?s j) = arrived (members s j)" for j using a by simp
  have tl: "resting (members ?s j)" if "j \<in> set (tl js)" for j using D(8) [OF that] rest by auto
  have ahead: "ahead t G ?s = ahead t G s" by (rule ahead_update [OF a])
  show ?thesis
    unfolding open_region_def ar ahead
  proof (intro conjI)
    show "\<forall>j<t. arrived (members s j) = G \<or>
        arrived (members s j) = Suc G \<and> resting (members ?s j) \<and> j \<notin> set js \<and> (js \<noteq> [] \<longrightarrow> j \<noteq> r)"
      using D(2) rest by auto
    show "\<forall>j<t. arrived (members s j) = G \<longrightarrow> j \<notin> set js \<longrightarrow> (js \<noteq> [] \<longrightarrow> j \<noteq> r) \<longrightarrow>
        running op next_op (working_threads ?s) j (members ?s j)"
      using D(9) run by auto
    show "js \<noteq> [] \<longrightarrow> r < t \<and> waker_ok (members ?s) r js \<and> (op = Join \<longrightarrow> r = 0)" using D(5,7) w by simp
    show "\<forall>j\<in>set (tl js). resting (members ?s j)" using tl by blast
  qed (use D(1,3,4,10,11) in simp_all)
qed

lemma open_wait:
  assumes op: "open_region t op next_op G js r s" and i: "i < t" and st: "pmp_thread_wait spin i op' (members s i) = Some th"
    and op': "arrived (members s i) = G \<Longrightarrow> op' = op"
  shows "open_region t op next_op G js r (s\<lparr>members := (members s)(i := th)\<rparr>)"
proof (rule open_local [OF op i wait_arrived [OF st]])
  note D = open_regionD [OF op]
  show "resting (members s i) \<Longrightarrow> resting th" using rest_step [OF _ st] by blast
  assume ne: "js \<noteq> []"
  have "i \<noteq> r" using D(6) [OF ne] wait_awake [of "members s i"] st by (auto simp: waker_ok_def)
  then show "i \<noteq> r \<and> waker_ok ((members s)(i := th)) r js"
    using D(6) [OF ne] waker_ok_other [of "members s" r js i th] waker_ok_target [of "members s" r js i spin op' th] st by auto
next
  assume a: "arrived (members s i) = G" "i \<notin> set js"
  have "i \<noteq> r" if "js \<noteq> []"
    using open_regionD(6) [OF op that] wait_awake [of "members s i"] st by (auto simp: waker_ok_def)
  then show "running op next_op (working_threads s) i th"
    using running_wait [of op next_op _ i "members s i" spin th] open_regionD(9) [OF op i] a st op' by blast
qed

lemma open_run:
  assumes op: "open_region t op next_op G js r s" and i: "i < t" "i \<notin> set js" "js \<noteq> [] \<Longrightarrow> i \<noteq> r"
    and "arrived th = arrived (members s i)" and "awake (members s i)" and "running op next_op (working_threads s) i th"
  shows "open_region t op next_op G js r (s\<lparr>members := (members s)(i := th)\<rparr>)"
proof (rule open_local [OF op i(1) assms(5)])
  show "resting (members s i) \<Longrightarrow> resting th" using not_resting(1) assms(6) by blast
  assume ne: "js \<noteq> []"
  then have "i \<noteq> hd js" using i(2) hd_in_set by blast
  then show "i \<noteq> r \<and> waker_ok ((members s)(i := th)) r js"
    using waker_ok_other [OF open_regionD(6) [OF op ne]] i(3) [OF ne] by blast
qed (rule assms(7))

lemma open_wake:
  assumes op: "open_region t op next_op G (j # js) r s" and "pmp_thread_wake r op (members s) = Some ths"
  shows "\<exists>js'. open_region t op next_op G js' r (s\<lparr>members := ths\<rparr>)"
proof -
  note D = open_regionD [OF op]
  note W = wake_step [OF D(6) assms(2), simplified]
  have r: "r < t" "op = Join \<Longrightarrow> r = 0" "r \<noteq> j" "r \<notin> set js" "awake (members s r)" using D(5-7) by (auto simp: waker_ok_def)
  have j: "j < t" "j \<notin> set js" "set js \<subseteq> {..<t}" using D(3,4) by auto
  have aG: "arrived (members s r) = G" "arrived (members s j) = G" using D(2) r(1) j(1) by fastforce+
  let ?s = "s\<lparr>members := ths\<rparr>"
  have ahead: "ahead t G ?s = ahead t G s" by (simp add: ahead_def W(3))
  have other: "members ?s k = members s k" if "k \<noteq> r" "k \<noteq> j" for k using W(2) that by simp
  have tl: "resting (ths k)" if "k \<in> set js" for k
  proof -
    have "k \<noteq> r" "k \<noteq> j" using that j(2) r(4) by blast+
    then show ?thesis using D(8) [of k] other [of k] that by simp
  qed
  have ex: "\<exists>k<t. arrived (members ?s k) = G" using D(1) W(3) by simp
  consider (again) "waker_ok ths r (j # js)" | (last) "woken (ths j)" "ths r = (members s r)\<lparr>sync_pc := waking r op js\<rparr>"
    using W(1) by blast
  then show ?thesis
  proof cases
    case again
    have "open_region t op next_op G (j # js) r ?s"
      unfolding open_region_def ahead
    proof (intro conjI)
      show "\<forall>k<t. arrived (members ?s k) = G \<or> arrived (members ?s k) = Suc G \<and> resting (members ?s k) \<and>
          k \<notin> set (j # js) \<and> (j # js \<noteq> [] \<longrightarrow> k \<noteq> r)"
        using D(2) other W(3) aG by fastforce
      show "\<forall>k<t. arrived (members ?s k) = G \<longrightarrow> k \<notin> set (j # js) \<longrightarrow> (j # js \<noteq> [] \<longrightarrow> k \<noteq> r) \<longrightarrow>
          running op next_op (working_threads ?s) k (members ?s k)"
        using D(9) other W(3) by simp
      show "\<forall>k\<in>set (tl (j # js)). resting (members ?s k)" using tl by simp
    qed (use again D(3,4,10,11) r(1,2) ex in simp_all)
    then show ?thesis by blast
  next
    case last
    have wk: "running op next_op w j (ths j)" for w using last(1) r(2,3) by (cases op) (auto simp: running_def)
    have wr: "js = [] \<Longrightarrow> running op next_op w r (ths r)" for w
      using last(2) r(2,5) by (auto simp: running_def awake_def)
    have wn: "js \<noteq> [] \<Longrightarrow> waker_ok ths r js"
      using last(2) r(4,5) tl by (cases js) (auto simp: waker_ok_def awake_def)
    have "open_region t op next_op G js r ?s"
      unfolding open_region_def ahead
    proof (intro conjI)
      show "\<forall>k<t. arrived (members ?s k) = G \<or> arrived (members ?s k) = Suc G \<and> resting (members ?s k) \<and>
          k \<notin> set js \<and> (js \<noteq> [] \<longrightarrow> k \<noteq> r)"
        using D(2) other W(3) aG by fastforce
      show "\<forall>k<t. arrived (members ?s k) = G \<longrightarrow> k \<notin> set js \<longrightarrow> (js \<noteq> [] \<longrightarrow> k \<noteq> r) \<longrightarrow>
          running op next_op (working_threads ?s) k (members ?s k)"
      proof (intro allI impI)
        fix k assume k: "k < t" "arrived (members ?s k) = G" "k \<notin> set js" "js \<noteq> [] \<longrightarrow> k \<noteq> r"
        then show "running op next_op (working_threads ?s) k (members ?s k)"
          using wk wr D(9) [of k] other [of k] W(3) by (cases "k = j"; cases "k = r") auto
      qed
      show "\<forall>k\<in>set (tl js). resting (members ?s k)" using tl by (cases js) auto
      show "js \<noteq> [] \<longrightarrow> r < t \<and> waker_ok (members ?s) r js \<and> (op = Join \<longrightarrow> r = 0)" using wn r(1,2) by simp
    qed (use D(3,10,11) j(3) ex in simp_all)
    then show ?thesis by blast
  qed
qed

text \<open>A thread reaches the next synchronisation.\<close>

lemma ahead_finite [simp]: "finite (ahead t G s)" "ahead t G s \<subseteq> {..<t}"
  by (auto simp: ahead_def)

lemma ahead_less:
  assumes "i < t" and "arrived (members s i) = G"
  shows "card (ahead t G s) < t"
proof -
  have "ahead t G s \<subseteq> {..<t} - {i}" using assms(2) by (auto simp: ahead_def)
  then have "card (ahead t G s) \<le> card ({..<t} - {i})" by (rule card_mono [rotated]) simp
  with assms(1) show ?thesis by simp
qed

lemma all_ahead:
  assumes op: "open_region t op next_op G js r s" and i: "i < t" "arrived (members s i) = G" and "t \<le> Suc (card (ahead t G s))"
  shows "i \<notin> set js \<Longrightarrow> js = []" and "j < t \<Longrightarrow> j \<noteq> i \<Longrightarrow> arrived (members s j) = Suc G \<and> resting (members s j)"
proof -
  have "ahead t G s \<subseteq> {..<t} - {i}" using i by (auto simp: ahead_def)
  moreover have "card ({..<t} - {i}) \<le> card (ahead t G s)" using assms(4) i(1) by simp
  ultimately have eq: "ahead t G s = {..<t} - {i}" by (meson card_seteq finite_Diff finite_lessThan)
  show *: "arrived (members s j) = Suc G \<and> resting (members s j)" if "j < t" "j \<noteq> i" for j
  proof -
    have "j \<in> ahead t G s" using eq that by simp
    then show ?thesis using open_regionD(2) [OF op that(1)] by (auto simp: ahead_def)
  qed
  show "js = []" if "i \<notin> set js"
  proof (rule ccontr)
    assume ne: "js \<noteq> []"
    then have h: "hd js \<in> set js" by simp
    then have "hd js < t" "hd js \<noteq> i" using open_regionD(4) [OF op] that by auto
    then have "arrived (members s (hd js)) = Suc G" "hd js < t" using * by blast+
    with open_regionD(2) [OF op, of "hd js"] h show False by simp
  qed
qed

lemma open_arrive:
  assumes op: "open_region t op next_op G js r s" and i: "i < t" "arrived (members s i) = G" "i \<notin> set js" "js \<noteq> [] \<Longrightarrow> i \<noteq> r"
    and less: "Suc (card (ahead t G s)) < t" and th: "arrived th = Suc G" "resting th"
    and b: "b = barrier_count s - (if next_op = Barrier then 1 else 0)" and w: "w = working_threads s - (if next_op = Join then 1 else 0)"
  shows "open_region t op next_op G js r (s\<lparr>barrier_count := b, working_threads := w, members := (members s)(i := th)\<rparr>)"
    (is "open_region _ _ _ _ _ _ ?s")
proof -
  note D = open_regionD [OF op]
  have ahead: "ahead t G ?s = insert i (ahead t G s)" using i(1) th(1) by (auto simp: ahead_def)
  have "i \<notin> ahead t G s" using i(2) by (simp add: ahead_def)
  then have card: "card (ahead t G ?s) = Suc (card (ahead t G s))" by (simp add: ahead)
  have ex: "\<exists>j<t. arrived (members ?s j) = G"
  proof (rule ccontr)
    assume "\<not> ?thesis"
    then have "{..<t} \<subseteq> ahead t G ?s" using D(2) th(1) by (fastforce simp: ahead_def)
    then have "t \<le> card (ahead t G ?s)" using card_mono [of "ahead t G ?s" "{..<t}"] by simp
    then show False using card less by simp
  qed
  have run: "running op next_op w j th'" if "running op next_op (working_threads s) j th'" for j th'
    using that less D(11) w by (auto simp: running_def split: if_splits)
  have wk: "waker_ok (members ?s) r js" if "js \<noteq> []"
  proof -
    have "i \<noteq> hd js" using i(3) that hd_in_set by blast
    then show ?thesis using waker_ok_other [OF D(6) [OF that] i(4) [OF that], of th] by simp
  qed
  show ?thesis
    unfolding open_region_def card
  proof (intro conjI)
    show "\<forall>j<t. arrived (members ?s j) = G \<or>
        arrived (members ?s j) = Suc G \<and> resting (members ?s j) \<and> j \<notin> set js \<and> (js \<noteq> [] \<longrightarrow> j \<noteq> r)"
      using D(2) th i(3,4) by auto
    show "\<forall>j<t. arrived (members ?s j) = G \<longrightarrow> j \<notin> set js \<longrightarrow> (js \<noteq> [] \<longrightarrow> j \<noteq> r) \<longrightarrow>
        running op next_op (working_threads ?s) j (members ?s j)"
      using D(9) run th(1) by auto
    show "\<forall>j\<in>set (tl js). resting (members ?s j)" using D(8) th(2) by auto
    show "js \<noteq> [] \<longrightarrow> r < t \<and> waker_ok (members ?s) r js \<and> (op = Join \<longrightarrow> r = 0)" using wk D(5,7) by blast
  qed (use D(3,4,10,11) b w ex in simp_all)
qed

definition region_ok :: "nat \<Rightarrow> sync_op list \<Rightarrow> bool" where
  "region_ok t prog \<longleftrightarrow> 2 \<le> t \<and> prog \<noteq> [] \<and> hd prog = Join \<and> last prog = Join"

definition region_inv :: "nat \<Rightarrow> sync_op list \<Rightarrow> region_state \<Rightarrow> bool" where
  "region_inv t prog s \<longleftrightarrow> (\<exists>G. 0 < G \<and> G \<le> length prog \<and>
     (closed_region t (prog ! (G - 1)) G s \<or>
      G < length prog \<and> (\<exists>js r. open_region t (prog ! (G - 1)) (prog ! G) G js r s)))"

lemma region_invI_open: "0 < G \<Longrightarrow> G < length prog \<Longrightarrow> open_region t (prog ! (G - 1)) (prog ! G) G js r s \<Longrightarrow> region_inv t prog s"
  unfolding region_inv_def using less_imp_le by blast

lemma region_invI_closed: "0 < G \<Longrightarrow> G \<le> length prog \<Longrightarrow> closed_region t (prog ! (G - 1)) G s \<Longrightarrow> region_inv t prog s"
  unfolding region_inv_def by blast

text \<open>A thread at work reaches a barrier, or its join.\<close>

lemma open_barrier:
  assumes op: "open_region t op Barrier G js r s" and i: "i < t" "arrived (members s i) = G" "i \<notin> set js" "js \<noteq> [] \<Longrightarrow> i \<noteq> r"
    and "awake (members s i)" and "2 \<le> t"
  shows "open_region t op Barrier G js r (pmp_thread_barrier t i s) \<or> closed_region t Barrier (Suc G) (pmp_thread_barrier t i s)"
proof -
  have b: "barrier_count s = int t - int (card (ahead t G s))" using open_regionD(10) [OF op] by simp
  have pos: "card (ahead t G s) < t" by (rule ahead_less [OF i(1,2)])
  let ?th = "(members s i)\<lparr>arrived := Suc G\<rparr>"
  show ?thesis
  proof (cases "Suc (card (ahead t G s)) < t")
    case True
    let ?r = "?th\<lparr>sync_pc := Check 0\<rparr>"
    have "pmp_thread_barrier t i s = s\<lparr>barrier_count := barrier_count s - 1, working_threads := working_threads s, members := (members s)(i := ?r)\<rparr>"
      using True b i(2) assms(7) by (cases s) (simp add: pmp_thread_barrier_def)
    moreover have "resting ?r" using assms(6) by (simp add: sync_states)
    ultimately show ?thesis using open_arrive [OF op i True] by simp
  next
    case False
    let ?r = "?th\<lparr>sync_pc := Reset\<rparr>"
    have s': "pmp_thread_barrier t i s = s\<lparr>barrier_count := barrier_count s - 1, members := (members s)(i := ?r)\<rparr>"
      using False pos b i(2) assms(7) by (simp add: pmp_thread_barrier_def)
    have "awake ?r" using assms(6) by (simp add: awake_def)
    moreover have "arrived (members s j) = Suc G \<and> resting (members s j)" if "j < t" "j \<noteq> i" for j
      using all_ahead(2) [OF op i(1,2)] False that by simp
    ultimately show ?thesis using i(1) open_regionD(11) [OF op] unfolding s' closed_region_def by (auto intro!: exI [of _ i])
  qed
qed

lemma open_worker_join:
  assumes op: "open_region t op Join G js r s" and i: "i < t" "arrived (members s i) = G" "i \<notin> set js" "js \<noteq> [] \<Longrightarrow> i \<noteq> r"
    and "awake (members s i)" and "i \<noteq> 0"
  shows "open_region t op Join G js r (pmp_thread_worker_join i s) \<or> closed_region t Join (Suc G) (pmp_thread_worker_join i s)"
proof -
  have w: "working_threads s = int t - int (card (ahead t G s))" using open_regionD(11) [OF op] by simp
  have pos: "card (ahead t G s) < t" by (rule ahead_less [OF i(1,2)])
  let ?th = "(members s i)\<lparr>arrived := Suc G\<rparr>"
  show ?thesis
  proof (cases "Suc (card (ahead t G s)) < t")
    case True
    let ?r = "?th\<lparr>sync_pc := Check 0\<rparr>"
    have "pmp_thread_worker_join i s = s\<lparr>barrier_count := barrier_count s, working_threads := working_threads s - 1, members := (members s)(i := ?r)\<rparr>"
      using True w i(2) by (cases s) (simp add: pmp_thread_worker_join_def Let_def)
    moreover have "resting ?r" using assms(6) by (simp add: sync_states)
    ultimately show ?thesis using open_arrive [OF op i True] by simp
  next
    case False
    let ?r = "?th\<lparr>sync_pc := Wake [0]\<rparr>"
    have s': "pmp_thread_worker_join i s = s\<lparr>working_threads := 0, members := (members s)(i := ?r)\<rparr>"
      using False pos w i(2) by (simp add: pmp_thread_worker_join_def)
    have "awake ?r" using assms(6) by (simp add: awake_def)
    moreover have o: "arrived (members s j) = Suc G \<and> resting (members s j)" if "j < t" "j \<noteq> i" for j
      using all_ahead(2) [OF op i(1,2)] False that by simp
    moreover have "waker_ok ((members s)(i := ?r)) i [0]"
      using calculation(1) o [of 0] assms(7) i(1) by (simp add: waker_ok_def)
    ultimately show ?thesis using i(1) assms(7) unfolding s' closed_region_def by (auto intro!: exI [of _ i])
  qed
qed

lemma open_master_join:
  assumes op: "open_region t op Join G js r s" and i: "0 < t" "arrived (members s 0) = G" "0 \<notin> set js" "js \<noteq> [] \<Longrightarrow> 0 \<noteq> r"
    and aw: "awake (members s 0)" and "(\<exists>k. sync_pc (members s 0) = Join_Spin k) \<or> sync_pc (members s 0) = Join_Last \<and> working_threads s = 1"
    and st: "pmp_thread_master_join spin s = Some s'"
  shows "open_region t op Join G js r s' \<or> closed_region t Join (Suc G) s'"
proof -
  have w: "working_threads s = int t - int (card (ahead t G s))" using open_regionD(11) [OF op] by simp
  have pos: "card (ahead t G s) < t" by (rule ahead_less [OF i(1,2)])
  let ?th = "(members s 0)\<lparr>arrived := Suc G\<rparr>"
  have joined: "closed_region t Join (Suc G) (s\<lparr>working_threads := 0, members := (members s)(0 := ?th\<lparr>sync_pc := Joined\<rparr>)\<rparr>)"
    if "\<not> Suc (card (ahead t G s)) < t"
  proof -
    have "awake (?th\<lparr>sync_pc := Joined\<rparr>)" using aw by (simp add: awake_def)
    moreover have "arrived (members s j) = Suc G \<and> resting (members s j)" if "j < t" "j \<noteq> 0" for j
      using all_ahead(2) [OF op i(1,2)] \<open>\<not> Suc (card (ahead t G s)) < t\<close> that by simp
    ultimately show ?thesis unfolding closed_region_def by auto
  qed
  consider (spin) k where "sync_pc (members s 0) = Join_Spin k" "k < spin" | (add) k where "sync_pc (members s 0) = Join_Spin k" "\<not> k < spin"
    | (last) "sync_pc (members s 0) = Join_Last" "working_threads s = 1" using assms(7) by blast
  then show ?thesis
  proof cases
    case spin
    let ?r = "(members s 0)\<lparr>sync_pc := if working_threads s = 1 then Join_Last else Join_Spin (k + 1)\<rparr>"
    have "s' = s\<lparr>members := (members s)(0 := ?r)\<rparr>" using st spin by (simp add: pmp_thread_master_join_def Let_def)
    moreover have "running op Join (working_threads s) 0 ?r" using aw by (auto simp: running_def awake_def)
    ultimately show ?thesis using open_run [OF op i(1,3,4) _ aw] by simp
  next
    case add
    show ?thesis
    proof (cases "Suc (card (ahead t G s)) < t")
      case True
      let ?r = "?th\<lparr>sync_pc := Check 0\<rparr>"
      have "s' = s\<lparr>barrier_count := barrier_count s, working_threads := working_threads s - 1, members := (members s)(0 := ?r)\<rparr>"
        using True w i(2) st add by (cases s) (simp add: pmp_thread_master_join_def Let_def)
      moreover have "resting ?r" using aw by (simp add: sync_states)
      ultimately show ?thesis using open_arrive [OF op i True] by simp
    next
      case False
      then have "working_threads s = 1" using pos w by simp
      then have "s' = s\<lparr>working_threads := 0, members := (members s)(0 := ?th\<lparr>sync_pc := Joined\<rparr>)\<rparr>"
        using i(2) st add by (simp add: pmp_thread_master_join_def Let_def)
      then show ?thesis using joined [OF False] by simp
    qed
  next
    case last
    then have "s' = s\<lparr>working_threads := 0, members := (members s)(0 := ?th\<lparr>sync_pc := Joined\<rparr>)\<rparr>" "\<not> Suc (card (ahead t G s)) < t"
      using w i(2) st by (simp_all add: pmp_thread_master_join_def Let_def)
    then show ?thesis using joined by simp
  qed
qed

lemma open_step:
  assumes op: "open_region t (prog ! (G - 1)) (prog ! G) G js r s" and G: "0 < G" "G < length prog" and i: "i < t" and t: "2 \<le> t"
    and st: "sync_step spin t prog i s = Some s'"
  shows "region_inv t prog s'"
proof -
  note D = open_regionD [OF op] and openI = region_invI_open [OF G]
  have lop: "arrived (members s i) = G \<Longrightarrow> last_op prog (members s i) = prog ! (G - 1)" by (simp add: last_op_def)
  have wait: ?thesis if w: "resting (members s i) \<or> woken (members s i) \<or> half_woken (members s i)"
  proof -
    obtain th where "pmp_thread_wait spin i (last_op prog (members s i)) (members s i) = Some th"
        "s' = s\<lparr>members := (members s)(i := th)\<rparr>" by (rule sync_step_waitE [OF w st])
    then show ?thesis using openI [OF open_wait [OF op i _ lop]] by simp
  qed
  consider (ahead) "resting (members s i)" | (target) "js \<noteq> []" "i = hd js" | (waker) "js \<noteq> []" "i = r"
    | (run) "i \<notin> set js" "js \<noteq> [] \<Longrightarrow> i \<noteq> r" "arrived (members s i) = G" "running (prog ! (G - 1)) (prog ! G) (working_threads s) i (members s i)"
    using D(2) [OF i] D(8) [of i] D(9) [OF i] by (cases js) auto
  then show ?thesis
  proof cases
    case ahead
    then show ?thesis by (rule wait [OF disjI1])
  next
    case target
    then show ?thesis using D(6) by (intro wait) (auto simp: waker_ok_def)
  next
    case waker
    then have G': "arrived (members s i) = G" using D(2) [OF i] by blast
    obtain j js' where js: "js = j # js'" using waker by (cases js) auto
    obtain ths where "pmp_thread_wake r (prog ! (G - 1)) (members s) = Some ths" "s' = s\<lparr>members := ths\<rparr>"
      using st sync_step_wake [OF D(6) [OF waker(1)]] lop [OF G'] waker by auto
    then show ?thesis using open_wake [OF op [unfolded js]] openI by auto
  next
    case run
    note R = run(1,2,3)
    consider (woken) "woken (members s i)" | (ready) "awake (members s i)" "sync_pc (members s i) = Ready"
      | (join) "awake (members s i)" "i = 0" "prog ! G = Join"
          "(\<exists>k. sync_pc (members s i) = Join_Spin k) \<or> sync_pc (members s i) = Join_Last \<and> working_threads s = 1"
      using run(4) by (auto simp: running_def)
    then show ?thesis
    proof cases
      case woken
      then show ?thesis by (intro wait) simp
    next
      case ready
      have closed: "closed_region t (prog ! (Suc G - 1)) (Suc G) s' \<Longrightarrow> ?thesis"
        using region_invI_closed [of "Suc G" prog t s'] G(2) by simp
      show ?thesis
      proof (cases "prog ! G = Barrier")
        case True
        then have "s' = pmp_thread_barrier t i s" using st ready run(3) G by (simp add: sync_step_def)
        then show ?thesis using open_barrier [of t "prog ! (G - 1)" G js r s i] True op i R ready(1) t openI closed by auto
      next
        case False
        then have J: "prog ! G = Join" by (cases "prog ! G") auto
        show ?thesis
        proof (cases "i = 0")
          case True
          then have s': "s' = s\<lparr>members := (members s)(i := (members s i)\<lparr>sync_pc := Join_Spin 0\<rparr>)\<rparr>"
            using st ready run(3) G False by (simp add: sync_step_def)
          have "running (prog ! (G - 1)) (prog ! G) (working_threads s) i ((members s i)\<lparr>sync_pc := Join_Spin 0\<rparr>)"
            using ready J True by (auto simp: running_def awake_def)
          then have "open_region t (prog ! (G - 1)) (prog ! G) G js r s'"
            unfolding s' by (intro open_run [OF op i R(1)]) (use R(2) ready(1) in simp_all)
          then show ?thesis by (rule openI)
        next
          case False
          then have "s' = pmp_thread_worker_join i s" using st ready run(3) G J by (simp add: sync_step_def)
          then show ?thesis using open_worker_join [of t "prog ! (G - 1)" G js r s i] J op i R ready(1) False openI closed by auto
        qed
      qed
    next
      case join
      have "pmp_thread_master_join spin s = Some s'" using st join by (auto simp: sync_step_def)
      then show ?thesis
        using open_master_join [of t "prog ! (G - 1)" G js r s spin s'] join op i R openI region_invI_closed [of "Suc G" prog t s'] G(2) by auto
    qed
  qed
qed

section \<open>Steps of a closed region\<close>

lemma closed_resting:
  assumes c: "closed_region t op G s" and i: "i < t" "resting (members s i)" and st: "pmp_thread_wait spin i op' (members s i) = Some th"
  shows "closed_region t op G (s\<lparr>members := (members s)(i := th)\<rparr>)"
proof -
  have th: "resting th" "arrived th = arrived (members s i)" using rest_step [OF i(2) st] by auto
  have w: "waker_ok (members s) w [0] \<Longrightarrow> waker_ok ((members s)(i := th)) w [0]" for w
    using waker_ok_other [of "members s" w "[0]" i th] waker_ok_target [of "members s" w "[0]" i spin op' th] st i(2)
      not_resting(1) [of "members s i"] by (cases "i = 0"; cases "i = w") (auto simp: waker_ok_def)
  show ?thesis
  proof (cases op)
    case Barrier
    then obtain r where "r < t" "sync_pc (members s r) = Reset" "awake (members s r)" "\<forall>j<t. j \<noteq> r \<longrightarrow> resting (members s j)"
      using c by (auto simp: closed_region_def)
    moreover from this have "r \<noteq> i" using i(2) not_resting(1) by blast
    ultimately show ?thesis using Barrier c th unfolding closed_region_def by auto
  next
    case Join
    from c Join consider (master) "woken (members s 0) \<or> awake (members s 0) \<and> sync_pc (members s 0) \<in> {Joined, Serial}"
        "\<forall>j<t. j \<noteq> 0 \<longrightarrow> resting (members s j)"
      | (worker) w where "w < t" "w \<noteq> 0" "waker_ok (members s) w [0]" "\<forall>j<t. j \<noteq> 0 \<and> j \<noteq> w \<longrightarrow> resting (members s j)"
      by (auto simp: closed_region_def)
    then show ?thesis
    proof cases
      case master
      then have "i \<noteq> 0" using i(2) not_resting(1) [of "members s 0"] not_resting(2) [of "members s 0"] by auto
      with master show ?thesis using Join c th unfolding closed_region_def by auto
    next
      case worker
      then show ?thesis using Join c th w [OF worker(3)] unfolding closed_region_def by (auto intro!: exI [of _ w])
    qed
  qed
qed

text \<open>The releaser starts to wake the others.\<close>

lemma open_regionI:
  assumes "\<And>j. j < t \<Longrightarrow> arrived (members s j) = G" and "r < t" and "op = Join \<Longrightarrow> r = 0" and "\<And>j. j < t \<Longrightarrow> j \<noteq> r \<Longrightarrow> resting (members s j)"
    and "js \<noteq> []" and "distinct js" and "set js = {..<t} - {r}" and "awake (members s r)" and "sync_pc (members s r) = Wake js"
    and "barrier_count s = int t" and "working_threads s = int t"
  shows "open_region t op next_op G js r s"
proof -
  have "ahead t G s = {}" using assms(1) by (auto simp: ahead_def)
  moreover have "hd js < t" "hd js \<noteq> r" using hd_in_set [OF assms(5)] assms(7) by auto
  moreover have "\<forall>j \<in> set (tl js). resting (members s j)"
    using list.set_sel(2) [OF assms(5)] assms(4,7) by auto
  ultimately show ?thesis unfolding open_region_def waker_ok_def using assms by auto
qed

lemma closed_barrier_step:
  assumes c: "closed_region t Barrier G s" and i: "i < t" and t: "2 \<le> t"
    and st: "sync_step spin t prog i s = Some s'"
  shows "closed_region t Barrier G s' \<or> (\<exists>js r. open_region t Barrier next_op G js r s')"
proof -
  obtain r where r: "r < t" "sync_pc (members s r) = Reset" "awake (members s r)" "\<And>j. j < t \<Longrightarrow> j \<noteq> r \<Longrightarrow> resting (members s j)"
    using c by (auto simp: closed_region_def)
  show ?thesis
  proof (cases "i = r")
    case True
    define js where "js = filter (\<lambda>j. j \<noteq> r) [0..<t]"
    have set: "set js = {..<t} - {r}" "distinct js" by (auto simp: js_def)
    have "(if r = 0 then 1 else 0) \<in> set js" using set(1) t by auto
    then have ne: "js \<noteq> []" by auto
    have s': "s' = s\<lparr>barrier_count := int t, members := (members s)(r := (members s r)\<lparr>sync_pc := Wake js\<rparr>)\<rparr>"
      using st True r(2) ne by (cases js) (auto simp: sync_step_def barrier_release_def js_def [symmetric])
    have "open_region t Barrier next_op G js r s'"
      by (rule open_regionI) (use c r set ne in \<open>auto simp: s' closed_region_def awake_def\<close>)
    then show ?thesis by blast
  next
    case False
    then have "resting (members s i)" using r(4) i by blast
    then show ?thesis using sync_step_waitE [OF disjI1 st] closed_resting [OF c i] by metis
  qed
qed

lemma closed_join_step:
  assumes c: "closed_region t Join G s" and i: "i < t" and t: "2 \<le> t" and G: "0 < G" "prog ! (G - 1) = Join"
    and st: "sync_step spin t prog i s = Some s'"
  shows "closed_region t Join G s' \<or> G < length prog \<and> (\<exists>js r. open_region t Join next_op G js r s')"
proof -
  have ar: "arrived (members s j) = G" if "j < t" for j using c that by (simp add: closed_region_def)
  have w0: "working_threads s = 0" using c by (simp add: closed_region_def)
  have op: "last_op prog (members s i) = Join" using ar [OF i] G(2) by (simp add: last_op_def)
  have rest: ?thesis if "resting (members s i)"
    using sync_step_waitE [OF disjI1 [OF that] st] closed_resting [OF c i that] by metis
  from c consider (master) "woken (members s 0) \<or> awake (members s 0) \<and> sync_pc (members s 0) \<in> {Joined, Serial}"
        "\<And>j. j < t \<Longrightarrow> j \<noteq> 0 \<Longrightarrow> resting (members s j)"
      | (worker) w where "w < t" "w \<noteq> 0" "waker_ok (members s) w [0]" "\<And>j. j < t \<Longrightarrow> j \<noteq> 0 \<Longrightarrow> j \<noteq> w \<Longrightarrow> resting (members s j)"
    by (auto simp: closed_region_def)
  then show ?thesis
  proof cases
    case master
    have closed: "closed_region t Join G (s\<lparr>members := (members s)(0 := th)\<rparr>)"
      if "woken th \<or> awake th \<and> sync_pc th \<in> {Joined, Serial}" "arrived th = G" for th
      using that master(2) w0 ar unfolding closed_region_def by auto
    show ?thesis
    proof (cases "i = 0")
      case False
      then show ?thesis using rest master(2) i by blast
    next
      case True
      consider (woken) "woken (members s 0)" | (joined) "awake (members s 0)" "sync_pc (members s 0) = Joined"
        | (serial) "awake (members s 0)" "sync_pc (members s 0) = Serial" using master(1) by blast
      then show ?thesis
      proof cases
        case woken
        then obtain th where th: "pmp_thread_wait spin 0 Join (members s 0) = Some th" "s' = s\<lparr>members := (members s)(0 := th)\<rparr>"
          using sync_step_waitE [of s i spin t prog s'] st op True by metis
        then show ?thesis using woken_step [OF woken th(1)] closed [of th] ar [of 0] i True by (auto simp: after_wait_def)
      next
        case joined
        then have "s' = s\<lparr>members := (members s)(0 := (members s 0)\<lparr>sync_pc := Serial\<rparr>)\<rparr>"
          using st True w0 by (simp add: sync_step_def region_end_def)
        then show ?thesis using closed [of "(members s 0)\<lparr>sync_pc := Serial\<rparr>"] joined(1) ar [of 0] i True by (simp add: awake_def)
      next
        case serial
        have ne: "[1..<t] \<noteq> []" using t by simp
        have G': "G < length prog" and s'': "s' = region_begin t s"
          using st True serial ar [of 0] i by (auto simp: sync_step_def split: if_splits)
        have s': "s' = s\<lparr>working_threads := int t, barrier_count := int t, members := (members s)(0 := (members s 0)\<lparr>sync_pc := Wake [1..<t]\<rparr>)\<rparr>"
          using ne unfolding s'' region_begin_def by (cases "[1..<t]") auto
        have "open_region t Join next_op G [1..<t] 0 s'"
          by (rule open_regionI) (use ar master(2) serial t ne in \<open>auto simp: s' awake_def\<close>)
        with G' show ?thesis by blast
      qed
    qed
  next
    case worker
    have w0': "w \<noteq> 0" "0 < t" using worker t by auto
    consider "i = 0" | "i = w" | "i \<noteq> 0" "i \<noteq> w" by blast
    then show ?thesis
    proof cases
      case 1
      then have "resting (members s i) \<or> half_woken (members s i)" using worker(3) by (auto simp: waker_ok_def)
      then show ?thesis using rest sync_step_wait [of s i spin t prog] st asleep(1) by auto
    next
      case 2
      obtain ths where ths: "pmp_thread_wake w Join (members s) = Some ths" "s' = s\<lparr>members := ths\<rparr>"
        using st sync_step_wake [OF worker(3), of spin t prog] op 2 by auto
      note W = wake_step [OF worker(3) ths(1)]
      have other: "resting (ths j)" if "j < t" "j \<noteq> 0" "j \<noteq> w" for j using W(2) [of j] worker(4) that by simp
      have arr: "arrived (ths j) = G" if "j < t" for j using W(3) ar that by simp
      show ?thesis
      proof (cases "waker_ok ths w [0]")
        case True
        then show ?thesis using worker(1,2) other arr w0 unfolding ths(2) closed_region_def by auto
      next
        case False
        then have 0: "woken (ths 0)" "ths w = (members s w)\<lparr>sync_pc := Check 0\<rparr>" using W(1) w0' by auto
        then have "resting (ths w)" using worker(3) by (auto simp: waker_ok_def sync_states)
        then show ?thesis using 0(1) other arr w0 unfolding ths(2) closed_region_def by auto
      qed
    next
      case 3
      then show ?thesis using rest worker(4) i by blast
    qed
  qed
qed

lemma region_inv_step:
  assumes "region_ok t prog" and inv: "region_inv t prog s" and i: "i < t" and st: "sync_step spin t prog i s = Some s'"
  shows "region_inv t prog s'"
proof -
  have t: "2 \<le> t" using assms(1) by (simp add: region_ok_def)
  obtain G where G: "0 < G" "G \<le> length prog" and "closed_region t (prog ! (G - 1)) G s \<or>
      G < length prog \<and> (\<exists>js r. open_region t (prog ! (G - 1)) (prog ! G) G js r s)" using inv unfolding region_inv_def by blast
  then consider (before) "closed_region t (prog ! (G - 1)) G s" | (after) js r where "G < length prog"
      "open_region t (prog ! (G - 1)) (prog ! G) G js r s" by blast
  then show ?thesis
  proof cases
    case before
    show ?thesis
    proof (cases "prog ! (G - 1)")
      case Barrier
      have "prog ! (length prog - 1) = Join" using assms(1) last_conv_nth [of prog] by (simp add: region_ok_def)
      then have "G < length prog" using Barrier G by (cases "G = length prog") auto
      with closed_barrier_step [of t G s i spin prog s' "prog ! G"] before Barrier i t st G show ?thesis
        by (metis region_invI_closed region_invI_open)
    next
      case Join
      with closed_join_step [of t G s i prog spin s' "prog ! G"] before i t st G show ?thesis
        by (metis region_invI_closed region_invI_open)
    qed
  next
    case after
    then show ?thesis using open_step [OF after(2) G(1) _ i t st] by blast
  qed
qed

section \<open>Runs\<close>

text \<open>The threads have been created and wait for work; the master is about to start its first region.\<close>

definition region_start :: "nat \<Rightarrow> region_state \<Rightarrow> bool" where
  "region_start t s \<longleftrightarrow> working_threads s = 0 \<and>
     (\<forall>j < t. members s j = \<lparr>thread_sync = PMP_SYNC_IDLE, pending = 0, sync_pc = (if j = 0 then Serial else Check 0), arrived = 1\<rparr>)"

lemma region_start_inv:
  assumes "region_ok t prog" and "region_start t s"
  shows "region_inv t prog s"
proof (rule region_invI_closed [of 1])
  have "members s j = \<lparr>thread_sync = PMP_SYNC_IDLE, pending = 0, sync_pc = (if j = 0 then Serial else Check 0), arrived = 1\<rparr>" if "j < t" for j
    using assms(2) that by (simp add: region_start_def)
  moreover have "prog ! 0 = Join" "0 < t" using assms(1) by (auto simp: region_ok_def hd_conv_nth)
  ultimately show "closed_region t (prog ! (1 - 1)) 1 s"
    using assms(2) by (simp add: closed_region_def region_start_def awake_def resting_def)
qed (use assms(1) in \<open>auto simp: region_ok_def Suc_le_eq\<close>)

text \<open>How many steps a thread can still take before its program ends.\<close>

fun pc_weight :: "nat \<Rightarrow> nat \<Rightarrow> nat \<Rightarrow> sync_pc \<Rightarrow> nat" where
  "pc_weight spin t z Ready = 0"
| "pc_weight spin t z Unblock = z + 1"
| "pc_weight spin t z Suspended = z + 1"
| "pc_weight spin t z Block = z + 2"
| "pc_weight spin t z (Check k) = z + 3 + (spin - k)"
| "pc_weight spin t z (Signal js) = spin + 2 + 3 * length js"
| "pc_weight spin t z (Clear js) = spin + 3 + 3 * length js"
| "pc_weight spin t z (Wake js) = spin + 4 + 3 * length js"
| "pc_weight spin t z Reset = spin + 5 + 3 * t"
| "pc_weight spin t z Serial = spin + 5 + 3 * t"
| "pc_weight spin t z Joined = spin + 6 + 3 * t"
| "pc_weight spin t z Join_Last = 2 * spin + 11 + 3 * t"
| "pc_weight spin t z (Join_Spin k) = 2 * spin + 12 + 3 * t + (spin - k)"
| "pc_weight spin t z Failed = 0"

abbreviation master_weight :: "nat \<Rightarrow> nat \<Rightarrow> nat \<Rightarrow> nat" where
  "master_weight spin t i \<equiv> if i = 0 then spin + 7 + 3 * t else 0"

abbreviation joining :: "sync_pc \<Rightarrow> nat" where
  "joining pc \<equiv> case pc of Join_Spin k \<Rightarrow> 1 | Join_Last \<Rightarrow> 1 | _ \<Rightarrow> 0"

definition op_weight :: "nat \<Rightarrow> nat \<Rightarrow> nat" where
  "op_weight spin t = 3 * spin + 13 + 3 * t"

definition thread_weight :: "nat \<Rightarrow> nat \<Rightarrow> nat \<Rightarrow> nat \<Rightarrow> sync_thread \<Rightarrow> nat" where
  "thread_weight spin t n i th = (n - (arrived th + joining (sync_pc th))) * op_weight spin t + pc_weight spin t (master_weight spin t i) (sync_pc th)"

lemma arrive_weight: "a < n \<Longrightarrow> x < K \<Longrightarrow> (n - Suc a) * K + x < (n - a) * (K :: nat)"
proof -
  assume "a < n" "x < K"
  then have "n - a = Suc (n - Suc a)" by simp
  then show ?thesis using \<open>x < K\<close> by simp
qed

lemma waking_weight: "pc_weight spin t (master_weight spin t i) (waking i op js) < spin + 5 + 3 * length js" "joining (waking i op js) = 0"
  by (cases js; simp)+

lemma wait_weight:
  assumes "pmp_thread_wait spin i op th = Some th'"
  shows "thread_weight spin t n i th' < thread_weight spin t n i th"
  using assms by (auto simp: pmp_thread_wait_def thread_weight_def after_wait_def split: sync_pc.splits if_splits)

lemma wake_weight:
  assumes "pmp_thread_wake i op ths = Some ths'"
  shows "thread_weight spin t n i (ths' i) < thread_weight spin t n i (ths i)"
    and "k \<noteq> i \<Longrightarrow> thread_weight spin t n k (ths' k) = thread_weight spin t n k (ths k)"
proof -
  have wk: "thread_weight spin t n i ((ths i)\<lparr>sync_pc := waking i op js\<rparr>) < (n - arrived (ths i)) * op_weight spin t + (spin + 5 + 3 * length js)" for js
    using waking_weight(1) [of spin t i op js] waking_weight(2) [of i op js] by (simp add: thread_weight_def)
  consider (wake) j js where "sync_pc (ths i) = Wake (j # js)" | (clear) j js where "sync_pc (ths i) = Clear (j # js)"
    | (signal) j js where "sync_pc (ths i) = Signal (j # js)"
    using assms by (auto simp: pmp_thread_wake_def Let_def split: sync_pc.splits list.splits)
  note cases = this
  from cases show "thread_weight spin t n i (ths' i) < thread_weight spin t n i (ths i)"
  proof cases
    case wake
    then have "ths' i = (ths i)\<lparr>sync_pc := waking i op js\<rparr> \<or> ths' i = (ths i)\<lparr>sync_pc := Clear (j # js)\<rparr> \<or> ths' i = (ths i)\<lparr>sync_pc := Failed\<rparr>"
      using assms by (simp add: pmp_thread_wake_def Let_def split: if_splits) (erule subst, simp)+
    moreover have "thread_weight spin t n i (ths i) = (n - arrived (ths i)) * op_weight spin t + (spin + 7 + 3 * length js)"
      using wake by (simp add: thread_weight_def)
    ultimately show ?thesis using wk [of js] by (auto simp: thread_weight_def)
  next
    case clear
    then have "ths' i = (ths i)\<lparr>sync_pc := Signal (j # js)\<rparr>" using assms by (auto simp: pmp_thread_wake_def)
    then show ?thesis using clear by (simp add: thread_weight_def)
  next
    case signal
    then have "ths' i = (ths i)\<lparr>sync_pc := waking i op js\<rparr>" using assms by (auto simp: pmp_thread_wake_def)
    moreover have "thread_weight spin t n i (ths i) = (n - arrived (ths i)) * op_weight spin t + (spin + 5 + 3 * length js)"
      using signal by (simp add: thread_weight_def)
    ultimately show ?thesis using wk [of js] by simp
  qed
  assume "k \<noteq> i"
  from cases have "sync_pc (ths' k) = sync_pc (ths k) \<and> arrived (ths' k) = arrived (ths k)"
    by cases (use assms \<open>k \<noteq> i\<close> in \<open>auto simp: pmp_thread_wake_def Let_def split: if_splits\<close>)
  then show "thread_weight spin t n k (ths' k) = thread_weight spin t n k (ths k)" by (simp add: thread_weight_def)
qed

text \<open>A step of thread \<open>i\<close> uses up weight of \<open>i\<close> and leaves that of the others alone.\<close>

definition uses_weight :: "nat \<Rightarrow> nat \<Rightarrow> nat \<Rightarrow> nat \<Rightarrow> (nat \<Rightarrow> sync_thread) \<Rightarrow> (nat \<Rightarrow> sync_thread) \<Rightarrow> bool" where
  "uses_weight spin t n i ths ths' \<longleftrightarrow> thread_weight spin t n i (ths' i) < thread_weight spin t n i (ths i) \<and>
     (\<forall>k. k \<noteq> i \<longrightarrow> thread_weight spin t n k (ths' k) = thread_weight spin t n k (ths k))"

lemma uses_weight_update: "thread_weight spin t n i th < thread_weight spin t n i (ths i) \<Longrightarrow> uses_weight spin t n i ths (ths(i := th))"
  by (simp add: uses_weight_def)

lemma wait_uses: "pmp_thread_wait spin i op (ths i) = Some th \<Longrightarrow> uses_weight spin t n i ths (ths(i := th))"
  by (rule uses_weight_update [OF wait_weight])

lemma wake_uses: "pmp_thread_wake i op ths = Some ths' \<Longrightarrow> uses_weight spin t n i ths ths'"
  using wake_weight unfolding uses_weight_def by blast

lemma ready_uses:
  assumes "sync_pc (ths i) = Ready" and "arrived (ths i) < n"
    and "arrived th + joining (sync_pc th) = Suc (arrived (ths i))" and "pc_weight spin t (master_weight spin t i) (sync_pc th) < op_weight spin t"
  shows "uses_weight spin t n i ths (ths(i := th))"
  using arrive_weight [OF assms(2,4)] assms(1,3) by (intro uses_weight_update) (simp add: thread_weight_def)

lemma sync_step_weight:
  assumes st: "sync_step spin t prog i s = Some s'" and i: "i < t"
    and m: "\<And>k. sync_pc (members s i) = Join_Spin k \<or> sync_pc (members s i) \<in> {Join_Last, Joined, Serial} \<Longrightarrow> i = 0"
  shows "uses_weight spin t (length prog) i (members s) (members s')"
proof (cases "sync_pc (members s i)")
  case Ready
  let ?th = "members s i"
  have a: "arrived ?th < length prog" using st Ready by (simp add: sync_step_def Let_def split: if_splits)
  note U = ready_uses [of "members s" i "length prog", OF Ready a]
  consider (barrier) "s' = pmp_thread_barrier t i s" | (spin) "i = 0" "s' = s\<lparr>members := (members s)(0 := ?th\<lparr>sync_pc := Join_Spin 0\<rparr>)\<rparr>"
    | (join) "s' = pmp_thread_worker_join i s" using st Ready by (auto simp: sync_step_def Let_def split: if_splits)
  then show ?thesis
  proof cases
    case barrier
    then have "\<exists>pc \<in> {Failed, Check 0, Reset, Ready}. members s' = (members s)(i := ?th\<lparr>arrived := Suc (arrived ?th), sync_pc := pc\<rparr>)"
      using Ready by (auto simp: pmp_thread_barrier_def Let_def)
    then show ?thesis using U by (auto simp: op_weight_def)
  next
    case spin
    then show ?thesis using U [of "?th\<lparr>sync_pc := Join_Spin 0\<rparr>"] by (simp add: op_weight_def)
  next
    case join
    then have "\<exists>pc \<in> {Failed, Check 0, Wake [0]}. members s' = (members s)(i := ?th\<lparr>arrived := Suc (arrived ?th), sync_pc := pc\<rparr>)"
      by (auto simp: pmp_thread_worker_join_def Let_def)
    then show ?thesis using U i by (auto simp: op_weight_def)
  qed
next
  case Reset
  let ?js = "filter (\<lambda>j. j \<noteq> i) [0..<t]"
  have "length ?js \<le> t" by (metis diff_zero length_filter_le length_upt)
  moreover have "members s' = (members s)(i := (members s i)\<lparr>sync_pc := waking i Barrier ?js\<rparr>)"
    using st Reset by (auto simp: sync_step_def barrier_release_def Let_def)
  ultimately show ?thesis
    using Reset waking_weight(1) [of spin t i Barrier ?js] waking_weight(2) [of i Barrier ?js]
    by (auto intro!: uses_weight_update simp: thread_weight_def)
next
  case Serial
  then have "i = 0" using m by simp
  have "length [1..<t] \<le> t" by simp
  moreover have "members s' = (members s)(0 := (members s 0)\<lparr>sync_pc := waking 0 Join [1..<t]\<rparr>)"
    using st Serial \<open>i = 0\<close> by (auto simp: sync_step_def region_begin_def Let_def split: if_splits)
  ultimately show ?thesis
    using Serial \<open>i = 0\<close> waking_weight(1) [of spin t 0 Join "[1..<t]"] waking_weight(2) [of 0 Join "[1..<t]"]
    by (auto intro!: uses_weight_update simp: thread_weight_def)
next
  case (Join_Spin k)
  then have "i = 0" using m by blast
  moreover have "pmp_thread_master_join spin s = Some s'" using st Join_Spin by (simp add: sync_step_def Let_def)
  ultimately show ?thesis using Join_Spin
    by (auto simp: pmp_thread_master_join_def Let_def thread_weight_def intro!: uses_weight_update split: if_splits)
next
  case Join_Last
  then have "i = 0" using m by simp
  moreover have "pmp_thread_master_join spin s = Some s'" using st Join_Last by (simp add: sync_step_def Let_def)
  ultimately show ?thesis using Join_Last
    by (auto simp: pmp_thread_master_join_def Let_def thread_weight_def intro!: uses_weight_update)
next
  case Joined
  then have "i = 0" using m by simp
  moreover have "s' = region_end s" using st Joined by (simp add: sync_step_def Let_def)
  ultimately show ?thesis using Joined
    by (auto simp: region_end_def thread_weight_def intro!: uses_weight_update)
next
  case (Check k)
  then show ?thesis using st by (auto simp: sync_step_def Let_def intro: wait_uses)
next
  case Block
  then show ?thesis using st by (auto simp: sync_step_def Let_def intro: wait_uses)
next
  case Unblock
  then show ?thesis using st by (auto simp: sync_step_def Let_def intro: wait_uses)
next
  case Suspended
  then show ?thesis using st by (auto simp: sync_step_def Let_def intro: wait_uses)
next
  case (Wake js)
  then show ?thesis using st by (auto simp: sync_step_def Let_def intro: wake_uses)
next
  case (Clear js)
  then show ?thesis using st by (auto simp: sync_step_def Let_def intro: wake_uses)
next
  case (Signal js)
  then show ?thesis using st by (auto simp: sync_step_def Let_def intro: wake_uses)
next
  case Failed
  then show ?thesis using st by (simp add: sync_step_def Let_def)
qed

definition region_weight :: "nat \<Rightarrow> nat \<Rightarrow> sync_op list \<Rightarrow> region_state \<Rightarrow> nat" where
  "region_weight spin t prog s = (\<Sum>i < t. thread_weight spin t (length prog) i (members s i))"

lemma uses_weight_sum:
  assumes "uses_weight spin t n i ths ths'" and "i < t"
  shows "(\<Sum>k < t. thread_weight spin t n k (ths' k)) < (\<Sum>k < t. thread_weight spin t n k (ths k))"
proof (rule sum_strict_mono_ex1)
  show "\<forall>k \<in> {..<t}. thread_weight spin t n k (ths' k) \<le> thread_weight spin t n k (ths k)"
    using assms(1) unfolding uses_weight_def by (metis le_less)
  show "\<exists>k \<in> {..<t}. thread_weight spin t n k (ths' k) < thread_weight spin t n k (ths k)"
    using assms unfolding uses_weight_def by blast
qed simp

text \<open>What the invariant says of single threads.\<close>

definition worker_pc :: "sync_pc \<Rightarrow> bool" where
  "worker_pc pc \<longleftrightarrow> (case pc of Ready \<Rightarrow> True | Reset \<Rightarrow> True | Wake js \<Rightarrow> True | Clear js \<Rightarrow> True | Signal js \<Rightarrow> True | _ \<Rightarrow> False)"

definition placed :: "nat \<Rightarrow> sync_thread \<Rightarrow> bool" where
  "placed i th \<longleftrightarrow> resting th \<or> woken th \<or> half_woken th \<or> awake th \<and> (i \<noteq> 0 \<longrightarrow> worker_pc (sync_pc th))"

lemma placed_pc:
  assumes "placed i th"
  shows "sync_pc th \<noteq> Failed" and "i \<noteq> 0 \<Longrightarrow> sync_pc th \<notin> {Join_Last, Joined, Serial} \<and> sync_pc th \<noteq> Join_Spin k"
  using assms by (cases "sync_pc th"; simp add: placed_def worker_pc_def sync_states)+

lemma ready_not_resting: "sync_pc th \<in> {Ready, Serial} \<Longrightarrow> \<not> resting th"
  by (auto simp: resting_def)

lemma region_placed:
  assumes "region_inv t prog s"
  shows "\<exists>G \<le> length prog. \<forall>i < t. placed i (members s i) \<and>
    (arrived (members s i) = G \<or> arrived (members s i) = Suc G \<and> G < length prog \<and> resting (members s i))"
proof -
  obtain G where G: "0 < G" "G \<le> length prog" and "closed_region t (prog ! (G - 1)) G s \<or>
      G < length prog \<and> (\<exists>js r. open_region t (prog ! (G - 1)) (prog ! G) G js r s)" using assms(1) unfolding region_inv_def by blast
  then consider (before) "closed_region t (prog ! (G - 1)) G s" | (after) js r where "G < length prog"
      "open_region t (prog ! (G - 1)) (prog ! G) G js r s" by blast
  then have "placed i (members s i) \<and>
    (arrived (members s i) = G \<or> arrived (members s i) = Suc G \<and> G < length prog \<and> resting (members s i))" if i: "i < t" for i
  proof cases
    case before
    have "placed i (members s i)"
    proof (cases "prog ! (G - 1)")
      case Barrier
      then show ?thesis using before i by (cases "sync_pc (members s i) = Reset") (auto simp: closed_region_def placed_def worker_pc_def)
    next
      case Join
      with before consider "resting (members s i)" | "i = 0" "woken (members s 0) \<or> awake (members s 0)" | "waker_ok (members s) i [0]"
        | "i = 0" "\<exists>w. waker_ok (members s) w [0]" using i neq0_conv by (auto simp: closed_region_def)
      then show ?thesis by cases (auto simp: placed_def worker_pc_def waker_ok_def)
    qed
    then show ?thesis using before i by (simp add: closed_region_def)
  next
    case after
    note D = open_regionD [OF after(2)]
    consider "resting (members s i)" | "js \<noteq> []" "i = hd js" | "js \<noteq> []" "i = r"
        | "running (prog ! (G - 1)) (prog ! G) (working_threads s) i (members s i)"
      using D(2) [OF i] D(8) [of i] D(9) [OF i] by (cases js) auto
    then have "placed i (members s i)" by cases (use D(6) in \<open>auto simp: waker_ok_def running_def placed_def worker_pc_def\<close>)
    then show ?thesis using D(2) after(1) i by blast
  qed
  then show ?thesis using G(2) by blast
qed

lemma region_threads:
  assumes "region_inv t prog s" and "i < t"
  shows "sync_pc (members s i) \<noteq> Failed" and "i \<noteq> 0 \<Longrightarrow> sync_pc (members s i) \<notin> {Join_Last, Joined, Serial} \<and> sync_pc (members s i) \<noteq> Join_Spin k"
    and "sync_pc (members s i) \<in> {Ready, Serial} \<Longrightarrow> j < t \<Longrightarrow> arrived (members s i) \<le> arrived (members s j)"
    and "arrived (members s i) \<le> length prog"
proof -
  obtain G where G: "G \<le> length prog" "\<And>i. i < t \<Longrightarrow> placed i (members s i) \<and>
      (arrived (members s i) = G \<or> arrived (members s i) = Suc G \<and> G < length prog \<and> resting (members s i))"
    using region_placed [OF assms(1)] by blast
  note i = G(2) [OF assms(2)]
  show "sync_pc (members s i) \<noteq> Failed" "i \<noteq> 0 \<Longrightarrow> sync_pc (members s i) \<notin> {Join_Last, Joined, Serial} \<and> sync_pc (members s i) \<noteq> Join_Spin k"
    using placed_pc i by blast+
  show "arrived (members s i) \<le> length prog" using i G(1) by auto
  assume "sync_pc (members s i) \<in> {Ready, Serial}" "j < t"
  then show "arrived (members s i) \<le> arrived (members s j)" using ready_not_resting i G(2) [of j] by auto
qed

interpretation region: bounded_steps "region_step spin t prog" "\<lambda>s. region_ok t prog \<and> region_start t s"
  "\<lambda>s. region_ok t prog \<and> region_inv t prog s" "region_weight spin t prog" for spin t prog
proof
  fix s s' assume inv: "region_ok t prog \<and> region_inv t prog s" and st: "region_step spin t prog s s'"
  obtain i where i: "i < t" "sync_step spin t prog i s = Some s'" using st by (auto simp: region_step_def)
  then show "region_ok t prog \<and> region_inv t prog s'" using region_inv_step inv by blast
  have "uses_weight spin t (length prog) i (members s) (members s')"
    by (rule sync_step_weight [OF i(2,1)]) (use region_threads(2) [of t prog s i] inv i(1) in blast)
  then show "region_weight spin t prog s' < region_weight spin t prog s"
    unfolding region_weight_def by (rule uses_weight_sum [OF _ i(1)])
qed (use region_start_inv in blast)

lemma region_start_weight:
  assumes "region_ok t prog" and "region_start t s"
  shows "region_weight spin t prog s \<le> t * (length prog * op_weight spin t)"
proof -
  have len: "length prog = Suc (length prog - 1)" using assms(1) by (cases prog) (simp_all add: region_ok_def)
  have "thread_weight spin t (length prog) i (members s i) \<le> length prog * op_weight spin t" if "i < t" for i
  proof -
    have "members s i = \<lparr>thread_sync = PMP_SYNC_IDLE, pending = 0, sync_pc = (if i = 0 then Serial else Check 0), arrived = 1\<rparr>"
      using assms(2) that by (simp add: region_start_def)
    then have "thread_weight spin t (length prog) i (members s i) \<le> (length prog - 1) * op_weight spin t + op_weight spin t"
      by (simp add: thread_weight_def op_weight_def)
    also have "\<dots> = Suc (length prog - 1) * op_weight spin t" by simp
    also have "\<dots> = length prog * op_weight spin t" by (simp only: len [symmetric])
    finally show ?thesis .
  qed
  then have "region_weight spin t prog s \<le> (\<Sum>i < t. length prog * op_weight spin t)"
    unfolding region_weight_def by (intro sum_mono) simp
  then show ?thesis by simp
qed

text \<open>When no thread can take a step, the program has ended and the workers sleep.\<close>

lemma resting_can_step: "resting th \<Longrightarrow> sync_pc th \<noteq> Suspended \<Longrightarrow> \<exists>th'. pmp_thread_wait spin i op th = Some th'"
  by (auto simp: pmp_thread_wait_def resting_def split: sync_pc.splits)

lemma region_stuck:
  assumes "region_ok t prog" and inv: "region_inv t prog s" and stuck: "\<And>i. i < t \<Longrightarrow> sync_step spin t prog i s = None" and "i < t"
  shows "arrived (members s i) = length prog \<and> sync_pc (members s i) = (if i = 0 then Serial else Suspended)"
proof -
  have t: "2 \<le> t" using assms(1) by (simp add: region_ok_def)
  have wake: "\<not> waker_ok (members s) w js" if "w < t" for w js
    using wake_can_step [of "members s" w js "last_op prog (members s w)"] sync_step_wake [of s w js spin t prog] stuck [OF that] by auto
  have woken: "\<not> woken (members s k)" if "k < t" for k
    using woken_can_step [of "members s k" spin k "last_op prog (members s k)"] sync_step_wait [of s k spin t prog] stuck [OF that] by auto
  have rest: "sync_pc (members s k) = Suspended" if "k < t" "resting (members s k)" for k
    using resting_can_step [OF that(2), of spin k "last_op prog (members s k)"] sync_step_wait [of s k spin t prog] stuck [OF that(1)] that(2) by auto
  obtain G where G: "0 < G" "G \<le> length prog" and "closed_region t (prog ! (G - 1)) G s \<or>
      G < length prog \<and> (\<exists>js r. open_region t (prog ! (G - 1)) (prog ! G) G js r s)" using inv unfolding region_inv_def by blast
  then consider (before) "closed_region t (prog ! (G - 1)) G s" | (after) js r where "G < length prog"
      "open_region t (prog ! (G - 1)) (prog ! G) G js r s" by blast
  then show ?thesis
  proof cases
    case before
    show ?thesis
    proof (cases "prog ! (G - 1)")
      case Barrier
      then obtain r where "r < t" "sync_pc (members s r) = Reset" using before by (auto simp: closed_region_def)
      then show ?thesis using stuck [of r] by (simp add: sync_step_def Let_def)
    next
      case Join
      with before wake woken t have 0: "sync_pc (members s 0) \<in> {Joined, Serial}" "\<And>j. j < t \<Longrightarrow> j \<noteq> 0 \<Longrightarrow> resting (members s j)"
          "\<And>j. j < t \<Longrightarrow> arrived (members s j) = G" by (auto simp: closed_region_def)
      have "sync_pc (members s 0) = Serial \<and> \<not> G < length prog"
        using stuck [of 0] 0(1,3) t by (auto simp: sync_step_def Let_def split: if_splits)
      then show ?thesis using 0 rest assms(4) G(2) by auto
    qed
  next
    case after
    note D = open_regionD [OF after(2)]
    have js: "js = []" using D(5,6) wake by blast
    obtain k where k: "k < t" "arrived (members s k) = G" using D(1) by blast
    then have "running (prog ! (G - 1)) (prog ! G) (working_threads s) k (members s k)" using D(9) js by simp
    then have "sync_pc (members s k) = Ready \<or> k = 0 \<and> ((\<exists>m. sync_pc (members s k) = Join_Spin m) \<or> sync_pc (members s k) = Join_Last)"
      using woken [OF k(1)] by (auto simp: running_def)
    then have False using stuck [OF k(1)] k(2) after(1)
      by (auto simp: sync_step_def pmp_thread_master_join_def Let_def split: if_splits)
    then show ?thesis ..
  qed
qed

end
