(* ===== verification/Omp_Team_Properties.thy ===== *)
theory Omp_Team_Properties
  imports Omp_Team
begin

text \<open>
  The properties of the teams of threads of the OpenMP runtime: barriers, forks and joins.
\<close>

text \<open>
  C15: a barrier separates what comes before it from what comes after it: in every reachable state of a team that
  runs through parallel regions with barriers, under any interleaving of the threads and however long they
  spin before they sleep, a thread that goes on after its \<open>n\<close>-th synchronisation does so when every thread of the
  team has reached it; the same holds of the master that goes on with serial code after a join. No
  assertion of \<^verbatim>\<open>__pmp_thread_barrier\<close>, \<^verbatim>\<open>__pmp_thread_wake\<close>, the joins and \<^verbatim>\<open>__pmp_team_free\<close> fails.
\<close>

theorem barrier_separates:
  assumes "region_ok t prog" and "region_start t s0" and "(region_step thread_spin t prog)\<^sup>*\<^sup>* s0 s" and "i < t" and "j < t"
  shows "sync_pc (members s i) \<noteq> Failed \<and>
    (sync_pc (members s i) \<in> {Ready, Serial} \<longrightarrow> arrived (members s i) \<le> arrived (members s j))"
proof -
  have "region_inv t prog s" using region.inv_reachable [of t prog s0 thread_spin s] assms(1-3) by blast
  then show ?thesis using region_threads(1,3) assms(4,5) by blast
qed

text \<open>A run given by the threads that take its steps.\<close>

fun run_threads :: "nat \<Rightarrow> nat \<Rightarrow> sync_op list \<Rightarrow> nat list \<Rightarrow> region_state \<Rightarrow> region_state option" where
  "run_threads thread_spin t prog [] s = Some s"
| "run_threads thread_spin t prog (i # is) s =
     (if i < t then Option.bind (sync_step thread_spin t prog i s) (run_threads thread_spin t prog is) else None)"

lemma run_threads_run: "run_threads thread_spin t prog is s = Some s' \<Longrightarrow> (region_step thread_spin t prog ^^ length is) s s'"
proof (induction "is" arbitrary: s)
  case (Cons i "is")
  then obtain s1 where "i < t" "sync_step thread_spin t prog i s = Some s1" "run_threads thread_spin t prog is s1 = Some s'"
    by (auto simp: bind_eq_Some_conv split: if_splits)
  then have "region_step thread_spin t prog s s1" "(region_step thread_spin t prog ^^ length is) s1 s'"
    using Cons.IH unfolding region_step_def by blast+
  then show ?case unfolding list.size(4) add_0_right add_Suc_right by (rule relpowp_Suc_I2)
qed simp

text \<open>
  Two threads that do not spin execute a region with one barrier: the master sleeps at the barrier and at the join, and is woken
  by a signal both times.
\<close>

definition example_region :: region_state where
  "example_region = \<lparr>barrier_count = 0, working_threads = 0, members = (\<lambda>j. \<lparr>thread_sync = PMP_SYNC_IDLE, pending = 0,
     sync_pc = (if j = 0 then Serial else Check 0), arrived = 1\<rparr>)\<rparr>"

definition example_prog :: "sync_op list" where
  "example_prog = [Join, Barrier, Join]"

definition example_schedule :: "nat list" where
  "example_schedule = [0, 0, 0, 0, 0, 1, 1, 1, 1, 1, 1, 1, 0, 0, 0, 0, 0, 1, 1, 1, 1, 1, 1, 0, 0]"

lemma example_region_ok: "region_ok 2 example_prog" "region_start 2 example_region"
  by (simp_all add: region_ok_def region_start_def example_region_def example_prog_def)

lemmas sync_code = sync_step_def pmp_thread_wait_def pmp_thread_wake_def pmp_thread_barrier_def barrier_release_def
  pmp_thread_worker_join_def pmp_thread_master_join_def region_end_def region_begin_def last_op_def after_wait_def sync_defs

lemma example_region_runs:
  "\<exists>s. run_threads 0 2 example_prog example_schedule example_region = Some s \<and>
    sync_step 0 2 example_prog 0 s = None \<and> sync_step 0 2 example_prog 1 s = None"
  by (simp add: example_region_def example_prog_def example_schedule_def sync_code upt_rec)

lemma example_region_middle:
  "\<exists>s. run_threads 0 2 example_prog (take 7 example_schedule) example_region = Some s \<and> sync_pc (members s 1) = Ready \<and>
    arrived (members s 1) = 1"
  by (simp add: example_region_def example_prog_def example_schedule_def sync_code upt_rec)

theorem barrier_separates_witness:
  "\<exists>s. (region_step 0 2 example_prog)\<^sup>*\<^sup>* example_region s \<and> sync_pc (members s 1) = Ready \<and> arrived (members s 1) \<le> arrived (members s 0)"
proof -
  obtain s where s: "run_threads 0 2 example_prog (take 7 example_schedule) example_region = Some s" "sync_pc (members s 1) = Ready"
    using example_region_middle by blast
  have run: "(region_step 0 2 example_prog)\<^sup>*\<^sup>* example_region s" by (rule relpowp_imp_rtranclp [OF run_threads_run [OF s(1)]])
  show ?thesis using barrier_separates [OF example_region_ok run, of 1 0] s(2) run by auto
qed

text \<open>
  C16: no wake-up is lost and nobody waits for ever: every run of the team ends, after a number of steps that is
  bounded by the length of its program, the team size and the spin count; and a run that has come to its end
  has taken all threads through all barriers and regions, the master back to serial code and the
  workers to sleep.
\<close>

theorem regions_complete:
  assumes "region_ok t prog" and "region_start t s0" and "(region_step thread_spin t prog ^^ k) s0 s"
  shows "k \<le> t * (length prog * (3 * thread_spin + 13 + 3 * t)) \<and>
    ((\<nexists>s'. region_step thread_spin t prog s s') \<longrightarrow>
      (\<forall>i < t. arrived (members s i) = length prog \<and> sync_pc (members s i) = (if i = 0 then Serial else Suspended)))"
proof -
  have "k \<le> region_weight thread_spin t prog s0" using region.run_bound [of t prog s0 k thread_spin s] assms by blast
  moreover have "region_inv t prog s"
    using region.inv_reachable [of t prog s0 thread_spin s] relpowp_imp_rtranclp [OF assms(3)] assms(1,2) by blast
  then have "arrived (members s i) = length prog \<and> sync_pc (members s i) = (if i = 0 then Serial else Suspended)"
    if "\<nexists>s'. region_step thread_spin t prog s s'" "i < t" for i
    using region_stuck [OF assms(1), of s thread_spin i] that unfolding region_step_def by (metis not_None_eq)
  ultimately show ?thesis using region_start_weight [OF assms(1,2), of thread_spin] by (auto simp: op_weight_def)
qed

theorem regions_complete_witness:
  "\<exists>s. (region_step 0 2 example_prog ^^ 25) example_region s \<and> (25 :: nat) \<le> 2 * (3 * (13 + 3 * 2)) \<and>
    arrived (members s 0) = 3 \<and> sync_pc (members s 0) = Serial \<and> sync_pc (members s 1) = Suspended"
proof -
  obtain s where s: "run_threads 0 2 example_prog example_schedule example_region = Some s"
      "sync_step 0 2 example_prog 0 s = None" "sync_step 0 2 example_prog 1 s = None"
    using example_region_runs by blast
  have run: "(region_step 0 2 example_prog ^^ 25) example_region s"
  proof -
    have "length example_schedule = 25" by (simp add: example_schedule_def)
    then show ?thesis using run_threads_run [OF s(1)] by metis
  qed
  have "sync_step 0 2 example_prog i s = None" if "i < 2" for i using s(2,3) less_2_cases [OF that] by auto
  then have "\<nexists>s'. region_step 0 2 example_prog s s'" by (auto simp: region_step_def)
  then show ?thesis using regions_complete [OF example_region_ok run] run by (auto simp: example_prog_def)
qed

end
