(* ===== verification/Omp_Lock.thy ===== *)
theory Omp_Lock
  imports Path64_Prelude
begin

text \<open>
  The locks of the OpenMP runtime (\<^verbatim>\<open>libopenmp/lock.h\<close>, \<^verbatim>\<open>lock.c\<close>) in their spinning form, the default: simple locks,
  nested locks, and the critical sections of compiled programs, which create their lock when the first thread
  arrives. A step is one access to shared memory. The alternative form (\<^verbatim>\<open>lock_spin\<close> zero) leaves the work to the
  mutexes of the C library and is not modelled.
\<close>

section \<open>The word of a lock\<close>

definition PMP_SYNC_UNLOCKED :: int where
  "PMP_SYNC_UNLOCKED = - 1"

text \<open>\<^verbatim>\<open>__pmp_atomic_cmpxchg32\<close>: the value the location had, and the value it has afterwards.\<close>

definition cmpxchg32 :: "int \<Rightarrow> int \<Rightarrow> int \<Rightarrow> int \<times> int" where
  "cmpxchg32 sync old_value new_value = (sync, if sync = old_value then new_value else sync)"

definition pmp_lock_init :: int where
  "pmp_lock_init = PMP_SYNC_UNLOCKED"

text \<open>
  The places of a thread in \<^verbatim>\<open>__pmp_lock\<close>: about to exchange, in the loop that reads the word until it is
  free, and returned with the lock. \<open>Lock_Failed\<close> is a failed assertion.
\<close>

datatype lock_pc = Try | Poll | Held | Lock_Failed

definition pmp_lock :: "int \<Rightarrow> lock_pc \<Rightarrow> int \<Rightarrow> lock_pc \<times> int" where
  "pmp_lock global_id pc lock =
     (case pc of
        Try \<Rightarrow> let (sync, lock') = cmpxchg32 lock PMP_SYNC_UNLOCKED global_id in
          (if sync = global_id then Lock_Failed else if sync \<noteq> PMP_SYNC_UNLOCKED then Poll else Held, lock')
      | Poll \<Rightarrow> (if lock = global_id then Lock_Failed else if lock \<noteq> PMP_SYNC_UNLOCKED then Poll else Try, lock)
      | _ \<Rightarrow> (pc, lock))"

definition pmp_trylock :: "int \<Rightarrow> int \<Rightarrow> bool \<times> int" where
  "pmp_trylock global_id lock =
     (let (sync, lock') = cmpxchg32 lock PMP_SYNC_UNLOCKED global_id in (sync = PMP_SYNC_UNLOCKED, lock'))"

text \<open>The first component is the assertion.\<close>

definition pmp_unlock :: "int \<Rightarrow> int \<Rightarrow> bool \<times> int" where
  "pmp_unlock global_id lock =
     (let (sync, lock') = cmpxchg32 lock global_id PMP_SYNC_UNLOCKED in (sync = global_id, lock'))"

text \<open>
  What the word of a lock says: it is free when no thread holds the lock and the identifier of the
  holder otherwise. Identifiers of threads are not negative and differ.
\<close>

definition lock_word :: "(nat \<Rightarrow> int) \<Rightarrow> nat set \<Rightarrow> int \<Rightarrow> bool" where
  "lock_word ids holders lock \<longleftrightarrow> holders = {} \<and> lock = PMP_SYNC_UNLOCKED \<or> (\<exists>h. holders = {h} \<and> lock = ids h)"

definition ids_ok :: "(nat \<Rightarrow> int) \<Rightarrow> bool" where
  "ids_ok ids \<longleftrightarrow> inj ids \<and> (\<forall>i. 0 \<le> ids i)"

lemma ids_ok_simps [simp]:
  assumes "ids_ok ids"
  shows "ids i \<noteq> PMP_SYNC_UNLOCKED" "PMP_SYNC_UNLOCKED \<noteq> ids i" "ids i = ids j \<longleftrightarrow> i = j"
proof -
  have "0 \<le> ids i" using assms by (simp add: ids_ok_def)
  then show "ids i \<noteq> PMP_SYNC_UNLOCKED" "PMP_SYNC_UNLOCKED \<noteq> ids i" by (auto simp: PMP_SYNC_UNLOCKED_def)
  show "ids i = ids j \<longleftrightarrow> i = j" using assms by (auto simp: ids_ok_def inj_def)
qed

lemma lock_step:
  assumes "ids_ok ids" and "lock_word ids H w" and "i \<notin> H" and "pmp_lock (ids i) pc w = (pc', w')" and "pc \<in> {Try, Poll}"
  shows "pc' = Held \<and> H = {} \<and> lock_word ids {i} w' \<or> pc' \<in> {Try, Poll} \<and> w' = w"
  using assms by (auto simp: lock_word_def pmp_lock_def cmpxchg32_def split: if_splits)

lemma lock_free_step:
  assumes "ids_ok ids" and "lock_word ids {} w"
  shows "pmp_lock (ids i) Try w = (Held, ids i)" and "pmp_lock (ids i) Poll w = (Try, w)"
  using assms by (auto simp: lock_word_def pmp_lock_def cmpxchg32_def)

lemma trylock_step:
  assumes "ids_ok ids" and "lock_word ids H w" and "pmp_trylock (ids i) w = (ok, w')"
  shows "(ok \<longleftrightarrow> H = {}) \<and> lock_word ids (if ok then {i} else H) w'"
  using assms by (auto simp: lock_word_def pmp_trylock_def cmpxchg32_def split: if_splits)

lemma unlock_step:
  assumes "ids_ok ids" and "lock_word ids H w" and "i \<in> H" and "pmp_unlock (ids i) w = (ok, w')"
  shows "ok \<and> lock_word ids {} w'" and "H = {i}"
  using assms by (auto simp: lock_word_def pmp_unlock_def cmpxchg32_def split: if_splits)

section \<open>Simple locks\<close>

text \<open>
  Threads that use one lock in any order of \<^verbatim>\<open>omp_set_lock\<close>, \<^verbatim>\<open>omp_test_lock\<close> and \<^verbatim>\<open>omp_unset_lock\<close>, each setting it
  only while it does not hold it and releasing it only while it does. \<open>None\<close> is a thread outside these functions.
\<close>

record lock_state =
  lock_sync :: int
  lock_pcs :: "nat \<Rightarrow> lock_pc option"

inductive lock_use :: "(nat \<Rightarrow> int) \<Rightarrow> nat \<Rightarrow> lock_state \<Rightarrow> lock_state \<Rightarrow> bool" for ids i where
  set_lock: "lock_pcs s i = None \<Longrightarrow> lock_use ids i s (s\<lparr>lock_pcs := (lock_pcs s)(i := Some Try)\<rparr>)"
| spin_lock: "lock_pcs s i = Some pc \<Longrightarrow> pc \<in> {Try, Poll} \<Longrightarrow> pmp_lock (ids i) pc (lock_sync s) = (pc', w) \<Longrightarrow>
    lock_use ids i s \<lparr>lock_sync = w, lock_pcs = (lock_pcs s)(i := Some pc')\<rparr>"
| test_lock: "lock_pcs s i = None \<Longrightarrow> pmp_trylock (ids i) (lock_sync s) = (ok, w) \<Longrightarrow>
    lock_use ids i s \<lparr>lock_sync = w, lock_pcs = (lock_pcs s)(i := if ok then Some Held else None)\<rparr>"
| unset_lock: "lock_pcs s i = Some Held \<Longrightarrow> pmp_unlock (ids i) (lock_sync s) = (ok, w) \<Longrightarrow>
    lock_use ids i s \<lparr>lock_sync = w, lock_pcs = (lock_pcs s)(i := if ok then None else Some Lock_Failed)\<rparr>"

inductive_cases lock_use_cases: "lock_use ids i s s'"

definition lock_users_step :: "(nat \<Rightarrow> int) \<Rightarrow> lock_state \<Rightarrow> lock_state \<Rightarrow> bool" where
  "lock_users_step ids s s' \<longleftrightarrow> (\<exists>i. lock_use ids i s s')"

definition holders :: "(nat \<Rightarrow> lock_pc option) \<Rightarrow> nat set" where
  "holders pcs = {i. pcs i = Some Held}"

lemma holders_update [simp]: "holders (pcs(i := x)) = (if x = Some Held then insert i (holders pcs) else holders pcs - {i})"
  by (auto simp: holders_def)

lemma holders_iff [simp]: "i \<in> holders pcs \<longleftrightarrow> pcs i = Some Held"
  by (simp add: holders_def)

lemma not_holder [simp]: "pcs i \<noteq> Some Held \<Longrightarrow> holders pcs - {i} = holders pcs"
  by (auto simp: holders_def)

definition lock_inv :: "(nat \<Rightarrow> int) \<Rightarrow> lock_state \<Rightarrow> bool" where
  "lock_inv ids s \<longleftrightarrow> ids_ok ids \<and> lock_word ids (holders (lock_pcs s)) (lock_sync s) \<and> (\<forall>i. lock_pcs s i \<noteq> Some Lock_Failed)"

definition lock_start :: lock_state where
  "lock_start = \<lparr>lock_sync = pmp_lock_init, lock_pcs = (\<lambda>_. None)\<rparr>"

lemma lock_start_inv: "ids_ok ids \<Longrightarrow> lock_inv ids lock_start"
  by (simp add: lock_inv_def lock_start_def lock_word_def pmp_lock_init_def holders_def)

lemma lock_use_keeps:
  assumes "lock_inv ids s" and "lock_use ids i s s'"
  shows "lock_inv ids s'"
proof -
  have ok: "ids_ok ids" and w: "lock_word ids (holders (lock_pcs s)) (lock_sync s)" and nf: "\<And>i. lock_pcs s i \<noteq> Some Lock_Failed"
    using assms(1) by (auto simp: lock_inv_def)
  from assms(2) show ?thesis
  proof cases
    case set_lock
    then show ?thesis using ok w nf by (simp add: lock_inv_def)
  next
    case (spin_lock pc pc' v)
    have i: "lock_pcs s i \<noteq> Some Held" using spin_lock(2,3) by auto
    from lock_step [OF ok w _ spin_lock(4,3)] i show ?thesis
      using ok w nf spin_lock(1) by (auto simp: lock_inv_def)
  next
    case (test_lock ok' v)
    note t = trylock_step [OF ok w test_lock(3)]
    show ?thesis
    proof (cases ok')
      case True
      then have "holders (lock_pcs s) = {}" "lock_word ids {i} v" using t by auto
      then show ?thesis using True ok nf test_lock(1) by (simp add: lock_inv_def)
    next
      case False
      then have "lock_word ids (holders (lock_pcs s)) v" using t by auto
      then show ?thesis using False ok nf test_lock(1,2) by (simp add: lock_inv_def)
    qed
  next
    case (unset_lock ok' v)
    from unlock_step [OF ok w _ unset_lock(3)] unset_lock(2) show ?thesis using ok nf unset_lock(1) by (auto simp: lock_inv_def)
  qed
qed

interpretation lock: step_invariant "lock_users_step ids" "\<lambda>s. ids_ok ids \<and> s = lock_start" "lock_inv ids" for ids
proof
  show "ids_ok ids \<and> s = lock_start \<Longrightarrow> lock_inv ids s" for s using lock_start_inv by blast
  show "lock_inv ids s \<Longrightarrow> lock_users_step ids s s' \<Longrightarrow> lock_inv ids s'" for s s'
    using lock_use_keeps by (auto simp: lock_users_step_def)
qed

lemma one_holder:
  assumes "lock_word ids H w" and "i \<in> H" and "j \<in> H"
  shows "i = j"
  using assms by (auto simp: lock_word_def)

section \<open>Nested locks\<close>

text \<open>
  The places of a thread in the functions of a nested lock: \<open>N_Try\<close>, \<open>N_Poll\<close> and \<open>N_Retry\<close> are the exchanges and the polling
  loop, \<open>N_First\<close> and \<open>N_Again\<close> the increment of the nesting count by a thread that has just got the lock and by one
  that had it before, \<open>N_Drop\<close> the exchange that frees the lock. Outside these functions a thread is \<open>N_Out d\<close>, where \<open>d\<close> is
  the number of times it holds the lock, which is not a field of the program; it is also what \<^verbatim>\<open>__pmp_nest_trylock\<close> returns.
  The nesting count is assumed to stay in the range of its type.
\<close>

datatype nest_pc = N_Out nat | N_Try nat | N_Poll | N_Retry | N_First | N_Again nat | N_Drop | N_Failed

record nest_lock =
  nest_sync :: int
  nest_count :: int

definition pmp_nest_lock_init :: nest_lock where
  "pmp_nest_lock_init = \<lparr>nest_sync = PMP_SYNC_UNLOCKED, nest_count = 0\<rparr>"

definition nest_enter :: "nest_pc \<Rightarrow> nest_lock \<Rightarrow> nest_pc \<times> nest_lock" where
  "nest_enter pc lock =
     (case pc of
        N_First \<Rightarrow> (if nest_count lock = 0 then N_Out 1 else N_Failed, lock\<lparr>nest_count := nest_count lock + 1\<rparr>)
      | N_Again d \<Rightarrow> (N_Out (d + 1), lock\<lparr>nest_count := nest_count lock + 1\<rparr>)
      | _ \<Rightarrow> (pc, lock))"

definition pmp_nest_lock :: "int \<Rightarrow> nest_pc \<Rightarrow> nest_lock \<Rightarrow> nest_pc \<times> nest_lock" where
  "pmp_nest_lock global_id pc lock =
     (case pc of
        N_Try d \<Rightarrow> let (sync, w) = cmpxchg32 (nest_sync lock) PMP_SYNC_UNLOCKED global_id in
          (if sync = global_id then N_Again d else if sync = PMP_SYNC_UNLOCKED then N_First else N_Poll, lock\<lparr>nest_sync := w\<rparr>)
      | N_Poll \<Rightarrow>
          (if nest_sync lock = global_id then N_Failed else if nest_sync lock \<noteq> PMP_SYNC_UNLOCKED then N_Poll else N_Retry, lock)
      | N_Retry \<Rightarrow> let (sync, w) = cmpxchg32 (nest_sync lock) PMP_SYNC_UNLOCKED global_id in
          (if sync = global_id then N_Failed else if sync = PMP_SYNC_UNLOCKED then N_First else N_Poll, lock\<lparr>nest_sync := w\<rparr>)
      | _ \<Rightarrow> nest_enter pc lock)"

definition pmp_nest_trylock :: "int \<Rightarrow> nat \<Rightarrow> nest_lock \<Rightarrow> nest_pc \<times> nest_lock" where
  "pmp_nest_trylock global_id d lock =
     (let (sync, w) = cmpxchg32 (nest_sync lock) PMP_SYNC_UNLOCKED global_id in
      (if sync = global_id then N_Again d else if sync = PMP_SYNC_UNLOCKED then N_First else N_Out d, lock\<lparr>nest_sync := w\<rparr>))"

definition pmp_nest_unlock :: "int \<Rightarrow> nest_pc \<Rightarrow> nest_lock \<Rightarrow> nest_pc \<times> nest_lock" where
  "pmp_nest_unlock global_id pc lock =
     (case pc of
        N_Out d \<Rightarrow>
          if nest_count lock > 0 \<and> nest_sync lock = global_id
          then let nest = nest_count lock - 1 in (if nest = 0 then N_Drop else N_Out (d - 1), lock\<lparr>nest_count := nest\<rparr>)
          else (N_Failed, lock)
      | N_Drop \<Rightarrow> let (sync, w) = cmpxchg32 (nest_sync lock) global_id PMP_SYNC_UNLOCKED in
          (if sync = global_id then N_Out 0 else N_Failed, lock\<lparr>nest_sync := w\<rparr>)
      | _ \<Rightarrow> (pc, lock))"

record nest_state =
  the_nest :: nest_lock
  nest_pcs :: "nat \<Rightarrow> nest_pc"

text \<open>
  Threads that set, test and release one nested lock in any order, each releasing it at most as often as it
  has set it.
\<close>

inductive nest_use :: "(nat \<Rightarrow> int) \<Rightarrow> nat \<Rightarrow> nest_state \<Rightarrow> nest_state \<Rightarrow> bool" for ids i where
  set_nest: "nest_pcs s i = N_Out d \<Longrightarrow> nest_use ids i s (s\<lparr>nest_pcs := (nest_pcs s)(i := N_Try d)\<rparr>)"
| spin_nest: "nest_pcs s i \<in> {N_Try d, N_Poll, N_Retry, N_First, N_Again d} \<Longrightarrow> pmp_nest_lock (ids i) (nest_pcs s i) (the_nest s) = (pc, l) \<Longrightarrow>
    nest_use ids i s \<lparr>the_nest = l, nest_pcs = (nest_pcs s)(i := pc)\<rparr>"
| test_nest: "nest_pcs s i = N_Out d \<Longrightarrow> pmp_nest_trylock (ids i) d (the_nest s) = (pc, l) \<Longrightarrow>
    nest_use ids i s \<lparr>the_nest = l, nest_pcs = (nest_pcs s)(i := pc)\<rparr>"
| unset_nest: "nest_pcs s i = N_Out (Suc d) \<or> nest_pcs s i = N_Drop \<Longrightarrow> pmp_nest_unlock (ids i) (nest_pcs s i) (the_nest s) = (pc, l) \<Longrightarrow>
    nest_use ids i s \<lparr>the_nest = l, nest_pcs = (nest_pcs s)(i := pc)\<rparr>"

definition nest_users_step :: "(nat \<Rightarrow> int) \<Rightarrow> nest_state \<Rightarrow> nest_state \<Rightarrow> bool" where
  "nest_users_step ids s s' \<longleftrightarrow> (\<exists>i. nest_use ids i s s')"

text \<open>The nesting of a thread that has the lock; \<open>None\<close> for the others.\<close>

definition nest_depth :: "nest_pc \<Rightarrow> nat option" where
  "nest_depth pc = (case pc of N_Out d \<Rightarrow> if d = 0 then None else Some d | N_Try d \<Rightarrow> if d = 0 then None else Some d
     | N_First \<Rightarrow> Some 0 | N_Again d \<Rightarrow> Some d | N_Drop \<Rightarrow> Some 0 | _ \<Rightarrow> None)"

definition nest_owner :: "(nat \<Rightarrow> int) \<Rightarrow> (nat \<rightharpoonup> nat) \<Rightarrow> nest_lock \<Rightarrow> bool" where
  "nest_owner ids depths l \<longleftrightarrow> depths = Map.empty \<and> l = pmp_nest_lock_init \<or>
     (\<exists>h d. depths = [h \<mapsto> d] \<and> l = \<lparr>nest_sync = ids h, nest_count = int d\<rparr>)"

definition nest_inv :: "(nat \<Rightarrow> int) \<Rightarrow> nest_state \<Rightarrow> bool" where
  "nest_inv ids s \<longleftrightarrow> ids_ok ids \<and> (\<forall>i. nest_pcs s i \<noteq> N_Failed \<and> nest_pcs s i \<noteq> N_Again 0) \<and>
     nest_owner ids (nest_depth \<circ> nest_pcs s) (the_nest s)"

definition nest_start :: nest_state where
  "nest_start = \<lparr>the_nest = pmp_nest_lock_init, nest_pcs = (\<lambda>_. N_Out 0)\<rparr>"

lemma nest_inv_step:
  assumes "nest_inv ids s" and "pc \<noteq> N_Failed" and "pc \<noteq> N_Again 0"
    and "nest_owner ids ((nest_depth \<circ> nest_pcs s)(i := nest_depth pc)) l"
  shows "nest_inv ids \<lparr>the_nest = l, nest_pcs = (nest_pcs s)(i := pc)\<rparr>"
  using assms by (simp add: nest_inv_def fun_upd_comp)

text \<open>What the exchange that takes a lock does for a thread that owns the lock, when it is free, and when another owns it.\<close>

lemma nest_exchange:
  assumes "ids_ok ids" and "nest_owner ids D l"
  shows "nest_sync l = ids i \<longleftrightarrow> D i \<noteq> None" and "D = Map.empty \<longleftrightarrow> nest_sync l = PMP_SYNC_UNLOCKED"
    and "D i = Some d \<Longrightarrow> D = [i \<mapsto> d] \<and> l = \<lparr>nest_sync = ids i, nest_count = int d\<rparr>"
    and "D = Map.empty \<Longrightarrow> l = pmp_nest_lock_init"
  using assms by (auto simp: nest_owner_def pmp_nest_lock_init_def map_upd_nonempty [THEN not_sym] split: if_splits)

lemma nest_ownerI: "nest_owner ids [i \<mapsto> d] \<lparr>nest_sync = ids i, nest_count = int d\<rparr>" "nest_owner ids Map.empty pmp_nest_lock_init"
  by (auto simp: nest_owner_def)

lemma nest_sync_idle: "nest_sync l = w \<Longrightarrow> l\<lparr>nest_sync := w\<rparr> = l"
  by (cases l) simp

lemma nest_use_keeps:
  assumes inv: "nest_inv ids s" and "nest_use ids i s s'"
  shows "nest_inv ids s'"
proof -
  define D where "D = nest_depth \<circ> nest_pcs s"
  have ok: "ids_ok ids" and own: "nest_owner ids D (the_nest s)" and nf: "\<And>i. nest_pcs s i \<noteq> N_Failed \<and> nest_pcs s i \<noteq> N_Again 0"
    using inv by (auto simp: nest_inv_def D_def)
  note X = nest_exchange [OF ok own]
  have step: "nest_inv ids \<lparr>the_nest = l, nest_pcs = (nest_pcs s)(i := pc)\<rparr>"
    if "pc \<noteq> N_Failed" "pc \<noteq> N_Again 0" "nest_owner ids (D(i := nest_depth pc)) l" for pc l
    using nest_inv_step [OF inv that(1,2)] that(3) unfolding D_def .
  have same: "nest_inv ids \<lparr>the_nest = the_nest s, nest_pcs = (nest_pcs s)(i := pc)\<rparr>"
    if "pc \<noteq> N_Failed" "pc \<noteq> N_Again 0" "nest_depth pc = D i" for pc
    using step [OF that(1,2)] own that(3) by simp
  have Di: "D i = nest_depth (nest_pcs s i)" by (simp add: D_def)
  have exchange: "nest_inv ids \<lparr>the_nest = (the_nest s)\<lparr>nest_sync := snd (cmpxchg32 (nest_sync (the_nest s)) PMP_SYNC_UNLOCKED (ids i))\<rparr>,
      nest_pcs = (nest_pcs s)(i := if nest_sync (the_nest s) = ids i then own_pc else if nest_sync (the_nest s) = PMP_SYNC_UNLOCKED then N_First else other_pc)\<rparr>"
    if o: "nest_sync (the_nest s) = ids i \<Longrightarrow> own_pc \<noteq> N_Failed \<and> own_pc \<noteq> N_Again 0 \<and> nest_depth own_pc = D i"
      and o': "other_pc \<noteq> N_Failed" "other_pc \<noteq> N_Again 0" "nest_sync (the_nest s) \<noteq> ids i \<Longrightarrow> nest_depth other_pc = None" for own_pc other_pc
  proof -
    consider (own) "nest_sync (the_nest s) = ids i" | (free) "nest_sync (the_nest s) = PMP_SYNC_UNLOCKED"
      | (other) "nest_sync (the_nest s) \<noteq> ids i" "nest_sync (the_nest s) \<noteq> PMP_SYNC_UNLOCKED" by blast
    then show ?thesis
    proof cases
      case own
      then show ?thesis using same [of own_pc] o ok by (simp add: cmpxchg32_def nest_sync_idle)
    next
      case free
      then have "nest_owner ids (D(i := nest_depth N_First)) ((the_nest s)\<lparr>nest_sync := ids i\<rparr>)"
        using X(2,4) by (auto simp: nest_owner_def nest_depth_def pmp_nest_lock_init_def)
      with free show ?thesis using step [of N_First] ok by (simp add: cmpxchg32_def)
    next
      case other
      then show ?thesis using same [of other_pc] o' X(1) [of i] by (simp add: cmpxchg32_def nest_sync_idle)
    qed
  qed
  from assms(2) show ?thesis
  proof cases
    case (set_nest d)
    have "nest_inv ids \<lparr>the_nest = the_nest s, nest_pcs = (nest_pcs s)(i := N_Try d)\<rparr>"
      by (rule same) (use set_nest Di in \<open>auto simp: nest_depth_def\<close>)
    then show ?thesis using set_nest(1) by (cases s) simp
  next
    case (spin_nest d pc l)
    consider (begins) e where "nest_pcs s i = N_Try e" | (poll) "nest_pcs s i = N_Poll" | (retry) "nest_pcs s i = N_Retry"
      | (first) "nest_pcs s i = N_First" | (again) e where "nest_pcs s i = N_Again e" using spin_nest(2) by blast
    then show ?thesis
    proof cases
      case begins
      then have "nest_sync (the_nest s) = ids i \<Longrightarrow> e \<noteq> 0" using X(1) [of i] Di by (auto simp: nest_depth_def split: if_splits)
      with exchange [of "N_Again e" N_Poll] begins show ?thesis
        using spin_nest(1,3) Di by (auto simp: pmp_nest_lock_def cmpxchg32_def nest_depth_def)
    next
      case poll
      then have "nest_sync (the_nest s) \<noteq> ids i" "D i = None" using X(1) [of i] Di by (auto simp: nest_depth_def)
      then show ?thesis using same [of N_Poll] same [of N_Retry] spin_nest(1,3) poll by (auto simp: pmp_nest_lock_def nest_depth_def)
    next
      case retry
      then have "nest_sync (the_nest s) \<noteq> ids i" using X(1) [of i] Di by (auto simp: nest_depth_def)
      with exchange [of N_Failed N_Poll] retry show ?thesis
        using spin_nest(1,3) by (auto simp: pmp_nest_lock_def cmpxchg32_def nest_depth_def)
    next
      case first
      then have "D = [i \<mapsto> 0] \<and> the_nest s = \<lparr>nest_sync = ids i, nest_count = int 0\<rparr>" using X(3) [of i 0] Di by (simp add: nest_depth_def)
      then show ?thesis using step [of "N_Out 1" l] nest_ownerI(1) [of ids i 1] spin_nest(1,3) first
        by (auto simp: pmp_nest_lock_def nest_enter_def nest_depth_def)
    next
      case again
      then have "D = [i \<mapsto> e] \<and> the_nest s = \<lparr>nest_sync = ids i, nest_count = int e\<rparr>" using X(3) [of i e] Di by (simp add: nest_depth_def)
      then show ?thesis using step [of "N_Out (e + 1)" l] nest_ownerI(1) [of ids i "e + 1"] spin_nest(1,3) again
        by (auto simp: pmp_nest_lock_def nest_enter_def nest_depth_def add.commute)
    qed
  next
    case (test_nest d pc l)
    then have "nest_sync (the_nest s) = ids i \<Longrightarrow> d \<noteq> 0" "nest_sync (the_nest s) \<noteq> ids i \<Longrightarrow> d = 0"
      using X(1) [of i] Di by (auto simp: nest_depth_def split: if_splits)
    with exchange [of "N_Again d" "N_Out d"] show ?thesis
      using test_nest Di by (auto simp: pmp_nest_trylock_def cmpxchg32_def nest_depth_def)
  next
    case (unset_nest d pc l)
    consider (out) "nest_pcs s i = N_Out (Suc d)" | (drop) "nest_pcs s i = N_Drop" using unset_nest(2) by blast
    then show ?thesis
    proof cases
      case out
      then have "D = [i \<mapsto> Suc d] \<and> the_nest s = \<lparr>nest_sync = ids i, nest_count = int (Suc d)\<rparr>" using X(3) [of i "Suc d"] Di by (simp add: nest_depth_def)
      then show ?thesis using step [of "if d = 0 then N_Drop else N_Out d" l] nest_ownerI(1) [of ids i d] unset_nest(1,3) out
        by (auto simp: pmp_nest_unlock_def nest_depth_def split: if_splits)
    next
      case drop
      then have "D = [i \<mapsto> 0] \<and> the_nest s = \<lparr>nest_sync = ids i, nest_count = int 0\<rparr>" using X(3) [of i 0] Di by (simp add: nest_depth_def)
      then show ?thesis using step [of "N_Out 0" l] unset_nest(1,3) drop
        nest_ownerI(2) [of ids] by (auto simp: pmp_nest_unlock_def nest_depth_def cmpxchg32_def pmp_nest_lock_init_def)
    qed
  qed
qed

lemma nest_start_inv: "ids_ok ids \<Longrightarrow> nest_inv ids nest_start"
  by (simp add: nest_inv_def nest_start_def nest_owner_def nest_depth_def comp_def)

interpretation nest: step_invariant "nest_users_step ids" "\<lambda>s. ids_ok ids \<and> s = nest_start" "nest_inv ids" for ids
proof
  show "ids_ok ids \<and> s = nest_start \<Longrightarrow> nest_inv ids s" for s using nest_start_inv by blast
  show "nest_inv ids s \<Longrightarrow> nest_users_step ids s s' \<Longrightarrow> nest_inv ids s'" for s s'
    using nest_use_keeps by (auto simp: nest_users_step_def)
qed

section \<open>Critical sections\<close>

text \<open>
  \<^verbatim>\<open>__ompc_critical\<close> gets the address of a pointer to the lock of the critical section. The first threads that find the
  pointer null allocate a lock each and race to install it; the losers free theirs. \<open>C_Made l\<close> is a thread that
  has allocated \<open>l\<close>, \<open>C_Lock l pc\<close> a thread in \<^verbatim>\<open>__pmp_lock\<close> on \<open>l\<close>, which is inside the section when \<open>pc\<close> is \<open>Held\<close>. Locks
  live in a heap; using one that is not allocated, like a failed assertion, is \<open>C_Failed\<close>.
\<close>

datatype critical_pc = C_Out | C_Made nat | C_Lock nat lock_pc | C_Failed

record critical_state =
  lock_ptr :: "nat option"
  lock_heap :: "nat \<rightharpoonup> int"
  crit_pcs :: "nat \<Rightarrow> critical_pc"

inductive critical_step :: "(nat \<Rightarrow> int) \<Rightarrow> nat \<Rightarrow> critical_state \<Rightarrow> critical_state \<Rightarrow> bool" for ids i where
  find_lock: "crit_pcs s i = C_Out \<Longrightarrow> lock_ptr s = Some l \<Longrightarrow>
    critical_step ids i s (s\<lparr>crit_pcs := (crit_pcs s)(i := C_Lock l Try)\<rparr>)"
| make_lock: "crit_pcs s i = C_Out \<Longrightarrow> lock_ptr s = None \<Longrightarrow> lock_heap s l = None \<Longrightarrow>
    critical_step ids i s (s\<lparr>lock_heap := (lock_heap s)(l \<mapsto> pmp_lock_init), crit_pcs := (crit_pcs s)(i := C_Made l)\<rparr>)"
| install_lock: "crit_pcs s i = C_Made l \<Longrightarrow> lock_ptr s = None \<Longrightarrow>
    critical_step ids i s (s\<lparr>lock_ptr := Some l, crit_pcs := (crit_pcs s)(i := C_Lock l Try)\<rparr>)"
| lose_race: "crit_pcs s i = C_Made l \<Longrightarrow> lock_ptr s = Some l_old \<Longrightarrow>
    critical_step ids i s (s\<lparr>lock_heap := (lock_heap s)(l := None), crit_pcs := (crit_pcs s)(i := C_Lock l_old Try)\<rparr>)"
| take_lock: "crit_pcs s i = C_Lock l pc \<Longrightarrow> pc \<in> {Try, Poll} \<Longrightarrow> lock_heap s l = Some w \<Longrightarrow> pmp_lock (ids i) pc w = (pc', w') \<Longrightarrow>
    critical_step ids i s (s\<lparr>lock_heap := (lock_heap s)(l \<mapsto> w'), crit_pcs := (crit_pcs s)(i := C_Lock l pc')\<rparr>)"
| use_after_free: "crit_pcs s i = C_Lock l pc \<Longrightarrow> pc \<in> {Try, Poll} \<Longrightarrow> lock_heap s l = None \<Longrightarrow>
    critical_step ids i s (s\<lparr>crit_pcs := (crit_pcs s)(i := C_Failed)\<rparr>)"
| end_critical: "crit_pcs s i = C_Lock k Held \<Longrightarrow> lock_ptr s = Some l \<Longrightarrow> lock_heap s l = Some w \<Longrightarrow> pmp_unlock (ids i) w = (ok, w') \<Longrightarrow>
    critical_step ids i s (s\<lparr>lock_heap := (lock_heap s)(l \<mapsto> w'), crit_pcs := (crit_pcs s)(i := if ok then C_Out else C_Failed)\<rparr>)"
| end_without_lock: "crit_pcs s i = C_Lock k Held \<Longrightarrow> lock_ptr s = None \<or> lock_ptr s = Some l \<and> lock_heap s l = None \<Longrightarrow>
    critical_step ids i s (s\<lparr>crit_pcs := (crit_pcs s)(i := C_Failed)\<rparr>)"

definition critical_team_step :: "(nat \<Rightarrow> int) \<Rightarrow> critical_state \<Rightarrow> critical_state \<Rightarrow> bool" where
  "critical_team_step ids s s' \<longleftrightarrow> (\<exists>i. critical_step ids i s s')"

definition critical_start :: critical_state where
  "critical_start = \<lparr>lock_ptr = None, lock_heap = Map.empty, crit_pcs = (\<lambda>_. C_Out)\<rparr>"

definition inside :: "(nat \<Rightarrow> critical_pc) \<Rightarrow> nat set" where
  "inside pcs = {i. \<exists>l. pcs i = C_Lock l Held}"

lemma inside_update [simp]: "inside (pcs(i := x)) = (if \<exists>l. x = C_Lock l Held then insert i (inside pcs) else inside pcs - {i})"
  by (auto simp: inside_def)

lemma inside_iff [simp]: "i \<in> inside pcs \<longleftrightarrow> (\<exists>l. pcs i = C_Lock l Held)"
  by (simp add: inside_def)

lemma not_inside [simp]: "\<forall>l. pcs i \<noteq> C_Lock l Held \<Longrightarrow> inside pcs - {i} = inside pcs"
  by (auto simp: inside_def)

definition made :: "(nat \<Rightarrow> critical_pc) \<Rightarrow> nat set" where
  "made pcs = {l. \<exists>i. pcs i = C_Made l}"

lemma made_update [simp]:
  "\<forall>l. pcs i \<noteq> C_Made l \<Longrightarrow> \<forall>l. x \<noteq> C_Made l \<Longrightarrow> made (pcs(i := x)) = made pcs"
  "\<forall>l. pcs i \<noteq> C_Made l \<Longrightarrow> made (pcs(i := C_Made k)) = insert k (made pcs)"
  by (force simp: made_def)+

lemma made_leave:
  assumes "pcs i = C_Made k" and "\<forall>l. x \<noteq> C_Made l" and "\<And>j. j \<noteq> i \<Longrightarrow> pcs j \<noteq> C_Made k"
  shows "made (pcs(i := x)) = made pcs - {k}"
proof (intro set_eqI iffI)
  fix l assume "l \<in> made (pcs(i := x))"
  then obtain j where "j \<noteq> i" "pcs j = C_Made l" using assms(2) by (auto simp: made_def split: if_splits)
  then show "l \<in> made pcs - {k}" using assms(3) [of j] by (auto simp: made_def)
next
  fix l assume "l \<in> made pcs - {k}"
  then obtain j where "pcs j = C_Made l" "l \<noteq> k" by (auto simp: made_def)
  then have "(pcs(i := x)) j = C_Made l" using assms(1) by auto
  then show "l \<in> made (pcs(i := x))" unfolding made_def by blast
qed

lemma made_iff: "pcs i = C_Made l \<Longrightarrow> l \<in> made pcs"
  by (auto simp: made_def)

text \<open>
  Every thread that uses a lock uses the installed one, whose word says who is inside; the other locks of the heap belong to
  threads that have just made them, each to one.
\<close>

definition critical_inv :: "(nat \<Rightarrow> int) \<Rightarrow> critical_state \<Rightarrow> bool" where
  "critical_inv ids s \<longleftrightarrow> ids_ok ids \<and>
     (\<forall>i. crit_pcs s i \<noteq> C_Failed \<and> (\<forall>l. crit_pcs s i \<noteq> C_Lock l Lock_Failed)) \<and>
     (\<forall>i l pc. crit_pcs s i = C_Lock l pc \<longrightarrow> lock_ptr s = Some l) \<and>
     (\<forall>l. lock_ptr s = Some l \<longrightarrow> (\<exists>w. lock_heap s l = Some w \<and> lock_word ids (inside (crit_pcs s)) w)) \<and>
     (\<forall>i l. crit_pcs s i = C_Made l \<longrightarrow> lock_heap s l = Some pmp_lock_init \<and> lock_ptr s \<noteq> Some l) \<and>
     (\<forall>i j l. crit_pcs s i = C_Made l \<longrightarrow> crit_pcs s j = C_Made l \<longrightarrow> i = j) \<and>
     dom (lock_heap s) = set_option (lock_ptr s) \<union> made (crit_pcs s)"

lemma critical_invD:
  assumes "critical_inv ids s"
  shows "ids_ok ids" and "crit_pcs s i \<noteq> C_Failed" and "crit_pcs s i \<noteq> C_Lock l Lock_Failed"
    and "crit_pcs s i = C_Lock l pc \<Longrightarrow> lock_ptr s = Some l"
    and "lock_ptr s = Some l \<Longrightarrow> \<exists>w. lock_heap s l = Some w \<and> lock_word ids (inside (crit_pcs s)) w"
    and "crit_pcs s i = C_Made l \<Longrightarrow> lock_heap s l = Some pmp_lock_init \<and> lock_ptr s \<noteq> Some l"
    and "crit_pcs s i = C_Made l \<Longrightarrow> crit_pcs s j = C_Made l \<Longrightarrow> i = j"
    and "dom (lock_heap s) = set_option (lock_ptr s) \<union> made (crit_pcs s)"
    and "lock_ptr s = None \<Longrightarrow> inside (crit_pcs s) = {}"
  using assms unfolding critical_inv_def by (blast | force simp: inside_def)+

lemma critical_start_inv: "ids_ok ids \<Longrightarrow> critical_inv ids critical_start"
  by (simp add: critical_inv_def critical_start_def made_def)

lemma critical_word:
  assumes inv: "critical_inv ids s" and l: "lock_ptr s = Some l" and i: "\<forall>k. crit_pcs s i \<noteq> C_Made k"
    and x: "x = C_Out \<or> (\<exists>pc. x = C_Lock l pc \<and> pc \<noteq> Lock_Failed)" and w: "lock_word ids (inside ((crit_pcs s)(i := x))) w"
  shows "critical_inv ids (s\<lparr>lock_heap := (lock_heap s)(l \<mapsto> w), crit_pcs := (crit_pcs s)(i := x)\<rparr>)" (is "critical_inv _ ?s")
proof -
  note D = critical_invD [OF inv]
  have nm: "crit_pcs s j \<noteq> C_Made l" for j using D(6) l by blast
  have "made (crit_pcs ?s) = made (crit_pcs s)" using i x by auto
  moreover have "l \<in> dom (lock_heap s)" using D(5) [OF l] by auto
  ultimately have dom: "dom (lock_heap ?s) = set_option (lock_ptr ?s) \<union> made (crit_pcs ?s)" using D(8) by auto
  show ?thesis
    unfolding critical_inv_def
  proof (intro conjI)
    show "\<forall>i. crit_pcs ?s i \<noteq> C_Failed \<and> (\<forall>l. crit_pcs ?s i \<noteq> C_Lock l Lock_Failed)" using D(2,3) x by auto
    show "\<forall>i l pc. crit_pcs ?s i = C_Lock l pc \<longrightarrow> lock_ptr ?s = Some l" using D(4) x l by auto
    show "\<forall>l. lock_ptr ?s = Some l \<longrightarrow> (\<exists>w. lock_heap ?s l = Some w \<and> lock_word ids (inside (crit_pcs ?s)) w)" using l w by simp
    show "\<forall>i l. crit_pcs ?s i = C_Made l \<longrightarrow> lock_heap ?s l = Some pmp_lock_init \<and> lock_ptr ?s \<noteq> Some l" using D(6) nm x by auto
    show "\<forall>i j l. crit_pcs ?s i = C_Made l \<longrightarrow> crit_pcs ?s j = C_Made l \<longrightarrow> i = j" using D(7) x by auto
  qed (use D(1) dom in auto)
qed

lemma critical_step_keeps:
  assumes inv: "critical_inv ids s" and "critical_step ids i s s'"
  shows "critical_inv ids s'"
proof -
  note D = critical_invD [OF inv]
  from assms(2) show ?thesis
  proof cases
    case (find_lock l)
    then show ?thesis using inv unfolding critical_inv_def by auto
  next
    case (make_lock l)
    then have "\<And>j. crit_pcs s j \<noteq> C_Made l" using D(6) by fastforce
    with make_lock show ?thesis using inv unfolding critical_inv_def by auto
  next
    case (install_lock l)
    have "\<And>j l' pc. crit_pcs s j \<noteq> C_Lock l' pc" using D(4) install_lock(3) by fastforce
    moreover have "lock_word ids {} pmp_lock_init" by (simp add: lock_word_def pmp_lock_init_def)
    moreover have o: "crit_pcs s j \<noteq> C_Made l" if "j \<noteq> i" for j using D(7) install_lock(2) that by blast
    moreover have "made ((crit_pcs s)(i := C_Lock l Try)) = made (crit_pcs s) - {l}" using made_leave [of "crit_pcs s" i l] install_lock(2) o by simp
    moreover have "l \<in> made (crit_pcs s)" using made_iff [of "crit_pcs s" i l] install_lock(2) by simp
    ultimately show ?thesis
      using install_lock D(1,2,6,8,9) D(7) unfolding critical_inv_def by auto
  next
    case (lose_race l l_old)
    have o: "crit_pcs s j \<noteq> C_Made l" if "j \<noteq> i" for j using D(7) lose_race(2) that by blast
    moreover have "made ((crit_pcs s)(i := C_Lock l_old Try)) = made (crit_pcs s) - {l}" using made_leave [of "crit_pcs s" i l] lose_race(2) o by simp
    moreover have "l \<noteq> l_old" using D(6) lose_race(2,3) by blast
    ultimately show ?thesis using lose_race inv unfolding critical_inv_def by auto
  next
    case (take_lock l pc w pc' w')
    then have l: "lock_ptr s = Some l" "lock_word ids (inside (crit_pcs s)) w" using D(4,5) by fastforce+
    have i: "i \<notin> inside (crit_pcs s)" using take_lock(2,3) by auto
    from lock_step [OF D(1) l(2) i take_lock(5,3)] have p: "pc' \<noteq> Lock_Failed"
        "lock_word ids (if pc' = Held then insert i (inside (crit_pcs s)) else inside (crit_pcs s) - {i}) w'" using i l(2) by auto
    have "critical_inv ids (s\<lparr>lock_heap := (lock_heap s)(l \<mapsto> w'), crit_pcs := (crit_pcs s)(i := C_Lock l pc')\<rparr>)"
      by (rule critical_word [OF inv l(1)]) (use take_lock(2) p in auto)
    then show ?thesis unfolding take_lock(1) .
  next
    case (use_after_free l pc)
    then show ?thesis using D(4,5) by fastforce
  next
    case (end_critical k l w ok w')
    then have w: "lock_word ids (inside (crit_pcs s)) w" using D(5) by fastforce
    have i: "i \<in> inside (crit_pcs s)" using end_critical(2) by simp
    from unlock_step [OF D(1) w i end_critical(5)] have "ok" "lock_word ids (inside (crit_pcs s) - {i}) w'" by auto
    then have "critical_inv ids (s\<lparr>lock_heap := (lock_heap s)(l \<mapsto> w'), crit_pcs := (crit_pcs s)(i := C_Out)\<rparr>)"
      by (intro critical_word [OF inv end_critical(3)]) (use end_critical(2) in auto)
    then show ?thesis using \<open>ok\<close> unfolding end_critical(1) by simp
  next
    case (end_without_lock k l)
    then show ?thesis using D(4,5) by fastforce
  qed
qed

interpretation critical: step_invariant "critical_team_step ids" "\<lambda>s. ids_ok ids \<and> s = critical_start" "critical_inv ids" for ids
proof
  show "ids_ok ids \<and> s = critical_start \<Longrightarrow> critical_inv ids s" for s using critical_start_inv by blast
  show "critical_inv ids s \<Longrightarrow> critical_team_step ids s s' \<Longrightarrow> critical_inv ids s'" for s s'
    using critical_step_keeps by (auto simp: critical_team_step_def)
qed

end
