(* ===== verification/Omp_Single.thy ===== *)
theory Omp_Single
  imports Path64_Prelude
begin

text \<open>
  The \<^verbatim>\<open>single\<close> construct of the OpenMP runtime (\<^verbatim>\<open>__pmp_thread_single\<close> in \<^verbatim>\<open>libopenmp/thread.c\<close>): every thread of a team meets
  the same sequence of constructs, counts them, and the thread that finds its own count in the team executes the
  block. The counters have 32 bits and wrap around. An arrival at a construct is one step, since the exchange is the only
  access to shared memory.
\<close>

text \<open>The result, the counter of the thread and the counter of the team after the call.\<close>

definition pmp_thread_single :: "int \<Rightarrow> 32 word \<Rightarrow> 32 word \<Rightarrow> bool \<times> 32 word \<times> 32 word" where
  "pmp_thread_single team_size thread_count team_count =
     (if team_size = 1 then (True, thread_count, team_count)
      else (thread_count = team_count, thread_count + 1, if team_count = thread_count then thread_count + 1 else team_count))"

text \<open>
  The counters of a team and what has happened: \<open>met i\<close> is the number of constructs that thread \<open>i\<close> has met, \<open>winners n\<close> the
  threads that have executed the block of the \<open>n\<close>-th construct. Neither is a field of the program.
\<close>

record single_state =
  single_team :: "32 word"
  single_threads :: "nat \<Rightarrow> 32 word"
  met :: "nat \<Rightarrow> nat"
  winners :: "nat \<Rightarrow> nat list"

definition single_call :: "nat \<Rightarrow> nat \<Rightarrow> single_state \<Rightarrow> single_state" where
  "single_call t i s =
     (let (win, thread_count, team_count) = pmp_thread_single (int t) (single_threads s i) (single_team s); n = met s i in
      \<lparr>single_team = team_count, single_threads = (single_threads s)(i := thread_count), met = (met s)(i := n + 1),
       winners = (winners s)(n := if win then i # winners s n else winners s n)\<rparr>)"

text \<open>A team of \<open>t\<close> threads that run through \<open>k\<close> constructs, in any order of their arrivals.\<close>

definition single_step :: "nat \<Rightarrow> nat \<Rightarrow> single_state \<Rightarrow> single_state \<Rightarrow> bool" where
  "single_step t k s s' \<longleftrightarrow> (\<exists>i < t. met s i < k \<and> s' = single_call t i s)"

definition single_start :: single_state where
  "single_start = \<lparr>single_team = 0, single_threads = (\<lambda>_. 0), met = (\<lambda>_. 0), winners = (\<lambda>_. [])\<rparr>"

text \<open>\<open>M\<close> constructs have been met by some thread; each of them has one winner.\<close>

definition single_ok :: "nat \<Rightarrow> nat \<Rightarrow> nat \<Rightarrow> single_state \<Rightarrow> bool" where
  "single_ok t k M s \<longleftrightarrow> 0 < t \<and> k < 2 ^ 32 \<and> M \<le> k \<and> (\<forall>i < t. met s i \<le> M) \<and> (t = 1 \<longrightarrow> met s 0 = M) \<and>
     (t \<noteq> 1 \<longrightarrow> single_team s = of_nat M \<and> (\<forall>i < t. single_threads s i = of_nat (met s i))) \<and>
     (\<forall>n. length (winners s n) = (if n < M then 1 else 0) \<and> (\<forall>i \<in> set (winners s n). i < t \<and> n < met s i))"

definition single_inv :: "nat \<Rightarrow> nat \<Rightarrow> single_state \<Rightarrow> bool" where
  "single_inv t k s \<longleftrightarrow> (\<exists>M. single_ok t k M s)"

lemma count_eq: "(of_nat a :: 32 word) = of_nat b \<longleftrightarrow> a = b" if "a < 2 ^ 32" "b < 2 ^ 32"
proof -
  have u: "unat (of_nat c :: 32 word) = c" if "c < 2 ^ 32" for c using that by (simp add: unat_of_nat)
  show ?thesis using u [OF that(1)] u [OF that(2)] by metis
qed

lemma single_call_keeps:
  assumes ok: "single_ok t k M s" and i: "i < t" "met s i < k"
  shows "single_ok t k (if met s i = M then M + 1 else M) (single_call t i s)"
proof -
  have t1: "met s 0 = M" "i = 0" if "t = 1" using ok that i(1) by (auto simp: single_ok_def)
  have cnt: "single_threads s i = single_team s \<longleftrightarrow> met s i = M" "single_team s = of_nat M" "single_threads s i = of_nat (met s i)" if "t \<noteq> 1"
    using ok that i count_eq [of "met s i" M] by (auto simp: single_ok_def)
  have win: "fst (pmp_thread_single (int t) (single_threads s i) (single_team s)) \<longleftrightarrow> met s i = M"
    using t1 cnt by (auto simp: pmp_thread_single_def)
  have team: "single_team (single_call t i s) = of_nat (if met s i = M then M + 1 else M)"
      "single_threads (single_call t i s) = (single_threads s)(i := of_nat (met s i + 1))" if "t \<noteq> 1"
    using cnt [OF that] that count_eq [of "met s i" M] by (auto simp: single_call_def pmp_thread_single_def Let_def add.commute)
  have met: "met (single_call t i s) = (met s)(i := met s i + 1)"
      "winners (single_call t i s) = (winners s)(met s i := if met s i = M then i # winners s (met s i) else winners s (met s i))"
    using win by (auto simp: single_call_def split_beta Let_def)
  have k: "0 < t" "k < 2 ^ 32" "M \<le> k" "\<And>j. j < t \<Longrightarrow> met s j \<le> M"
      "t \<noteq> 1 \<Longrightarrow> j < t \<Longrightarrow> single_threads s j = of_nat (met s j)"
      "length (winners s n) = (if n < M then 1 else 0)" "j \<in> set (winners s n) \<Longrightarrow> j < t \<and> n < met s j" for n j
    using ok by (auto simp: single_ok_def)
  define M' where "M' = (if met s i = M then M + 1 else M)"
  have M': "M \<le> M'" "M' \<le> k" "met s i < M'" using k(3) k(4) [of i] i by (auto simp: M'_def)
  have "\<forall>j < t. met (single_call t i s) j \<le> M'" using k(4) M' by (fastforce simp: met)
  moreover have "t = 1 \<longrightarrow> met (single_call t i s) 0 = M'" unfolding met using t1 by (auto simp: M'_def)
  moreover have "t \<noteq> 1 \<longrightarrow> single_team (single_call t i s) = of_nat M' \<and>
      (\<forall>j < t. single_threads (single_call t i s) j = of_nat (met (single_call t i s) j))"
    using team k(5) by (simp add: met M'_def)
  moreover have "length (winners (single_call t i s) n) = (if n < M' then 1 else 0)" for n
    using k(6) [of n] by (auto simp: met M'_def)
  moreover have "j < t \<and> n < met (single_call t i s) j" if "j \<in> set (winners (single_call t i s) n)" for n j
    using that k(7) [of j n] i(1) by (auto simp: met split: if_splits)
  ultimately show ?thesis using k(1,2) M'(2) unfolding single_ok_def M'_def [symmetric] by blast
qed

interpretation single: step_invariant "single_step t k" "\<lambda>s. 0 < t \<and> k < 2 ^ 32 \<and> s = single_start" "single_inv t k" for t k
proof
  show "single_inv t k s" if "0 < t \<and> k < 2 ^ 32 \<and> s = single_start" for s
    using that by (auto simp: single_inv_def single_ok_def single_start_def intro!: exI [of _ 0])
  show "single_inv t k s \<Longrightarrow> single_step t k s s' \<Longrightarrow> single_inv t k s'" for s s'
    using single_call_keeps unfolding single_inv_def single_step_def by blast
qed

end
