(* ===== verification/Omp_Fork.thy ===== *)
theory Omp_Fork
  imports Omp_Loop
begin

text \<open>
  The threads of the manager (\<^verbatim>\<open>libopenmp/manager.c\<close>, \<^verbatim>\<open>idstack.h\<close>, \<^verbatim>\<open>thread.c\<close>, \<^verbatim>\<open>team.c\<close>): a fork acquires worker threads,
  creating some when not enough wait for work, pops their identifiers from a stack, and puts them into a
  team; a join pushes them back. The operations are modelled as uninterrupted calls; at the end the
  acquisition of threads, which is not protected by a lock, is also a machine with the atomic accesses as steps.
\<close>

section \<open>State\<close>

definition PMP_MAX_IDS :: int where
  "PMP_MAX_IDS = PMP_MAX_THREADS"

text \<open>The fields of a thread that teams use; a team is named by a number.\<close>

record thread_slot =
  slot_local_id :: int
  slot_team :: "nat option"
  slot_nesting :: int
  slot_single :: "32 word"
  slot_loops :: "32 word"

record pmp_manager =
  waiting_threads :: int
  allocated_threads :: int
  num_ids :: int
  id_stack :: "int list"
  slots :: "int \<Rightarrow> thread_slot"

record fork_team =
  fork_size :: int
  fork_members :: "int list"
  fork_working :: int
  fork_barrier :: int
  fork_single :: "32 word"
  fork_loops :: "32 word"

section \<open>The stack of identifiers\<close>

definition pmp_idstack_init :: "pmp_manager \<Rightarrow> pmp_manager" where
  "pmp_idstack_init m = m\<lparr>num_ids := PMP_MAX_IDS, id_stack := map (\<lambda>k. PMP_MAX_IDS - 1 - k) [0..PMP_MAX_IDS - 1]\<rparr>"

definition pmp_idstack_pop :: "pmp_manager \<Rightarrow> (int \<times> pmp_manager) res" where
  "pmp_idstack_pop m =
     bindE (assertC (num_ids m > 0)) (\<lambda>_.
     if num_ids m - 1 < int (length (id_stack m))
     then Inr (id_stack m ! nat (num_ids m - 1), m\<lparr>num_ids := num_ids m - 1\<rparr>) else Inl Out_Of_Bounds)"

definition pmp_idstack_push :: "pmp_manager \<Rightarrow> int \<Rightarrow> pmp_manager res" where
  "pmp_idstack_push m gid =
     bindE (assertC (num_ids m < PMP_MAX_IDS)) (\<lambda>_.
     if 0 \<le> num_ids m \<and> num_ids m < int (length (id_stack m))
     then Inr (m\<lparr>id_stack := (id_stack m)[nat (num_ids m) := gid], num_ids := num_ids m + 1\<rparr>) else Inl Out_Of_Bounds)"

section \<open>Start-up\<close>

text \<open>The initial state of the manager and of its threads, and the creation of the main thread.\<close>

definition pmp_thread_init :: thread_slot where
  "pmp_thread_init = \<lparr>slot_local_id = - 1, slot_team = None, slot_nesting = 0, slot_single = 0, slot_loops = 0\<rparr>"

definition pmp_manager_init :: pmp_manager where
  "pmp_manager_init = pmp_idstack_init
     \<lparr>waiting_threads = 0, allocated_threads = 0, num_ids = 0, id_stack = [], slots = (\<lambda>_. pmp_thread_init)\<rparr>"

definition pmp_thread_create_main :: "pmp_manager \<Rightarrow> pmp_manager res" where
  "pmp_thread_create_main m =
     bindE (pmp_idstack_pop m) (\<lambda>(global_id, m).
     bindE (assertC (global_id = 0)) (\<lambda>_.
     Inr (m\<lparr>slots := (slots m)(0 := (slots m 0)\<lparr>slot_local_id := 0\<rparr>)\<rparr>)))"

definition pmp_manager_create_main_thread :: "pmp_manager \<Rightarrow> pmp_manager res" where
  "pmp_manager_create_main_thread m =
     bindE (assertC (allocated_threads m = 0)) (\<lambda>_.
     pmp_thread_create_main (m\<lparr>allocated_threads := allocated_threads m + 1\<rparr>))"

section \<open>Acquiring threads\<close>

text \<open>The thread that \<^verbatim>\<open>__pmp_thread_create\<close> starts is part of the operating system; what remains is the count.\<close>

definition pmp_thread_create :: "pmp_manager \<Rightarrow> pmp_manager" where
  "pmp_thread_create m = m\<lparr>waiting_threads := waiting_threads m + 1\<rparr>"

fun create_threads :: "nat \<Rightarrow> int \<Rightarrow> pmp_manager \<Rightarrow> (int \<times> pmp_manager) res" where
  "create_threads 0 count m = Inr (count, m)"
| "create_threads (Suc k) count m =
     (let global_id = allocated_threads m; m' = m\<lparr>allocated_threads := global_id + 1\<rparr> in
      bindE (assertC (global_id \<noteq> 0)) (\<lambda>_.
      if global_id \<ge> PMP_MAX_THREADS then Inr (count, m'\<lparr>allocated_threads := allocated_threads m' - 1\<rparr>)
      else create_threads k (count + 1) (pmp_thread_create m')))"

definition pmp_manager_create_more_threads :: "int \<Rightarrow> pmp_manager \<Rightarrow> (int \<times> pmp_manager) res" where
  "pmp_manager_create_more_threads nthreads m = create_threads (nat nthreads) 0 m"

lemma create_threads_result:
  assumes "create_threads k count m = Inr (c, m')"
  shows "count \<le> c \<and> c \<le> count + int k \<and> m' = m\<lparr>allocated_threads := allocated_threads m + (c - count), waiting_threads := waiting_threads m + (c - count)\<rparr> \<and>
    (c < count + int k \<longrightarrow> allocated_threads m' \<ge> PMP_MAX_THREADS) \<and> (count < c \<longrightarrow> allocated_threads m' \<le> PMP_MAX_THREADS)"
  using assms
proof (induction k arbitrary: count m)
  case (Suc k)
  show ?case
  proof (cases "allocated_threads m \<ge> PMP_MAX_THREADS")
    case True
    then show ?thesis using Suc.prems by (auto simp: Let_def bindE_eq_Inr_iff)
  next
    case False
    then have "create_threads k (count + 1) (pmp_thread_create (m\<lparr>allocated_threads := allocated_threads m + 1\<rparr>)) = Inr (c, m')"
      using Suc.prems by (auto simp: Let_def bindE_eq_Inr_iff)
    from Suc.IH [OF this] show ?thesis using False
      by (auto simp: pmp_thread_create_def)
  qed
qed simp

text \<open>The loop of \<^verbatim>\<open>__pmp_thread_acquire\<close>. A round that does not end it has created a thread, so the loop ends.\<close>

function acquire_loop :: "int \<Rightarrow> int \<Rightarrow> pmp_manager \<Rightarrow> (int \<times> pmp_manager) res" where
  "acquire_loop nthreads count m =
     (if count < nthreads then
        let required = nthreads - count; waiting = waiting_threads m in
        if waiting \<ge> required then Inr (count + required, m\<lparr>waiting_threads := waiting - required\<rparr>)
        else let required' = required - waiting; m' = m\<lparr>waiting_threads := waiting - required + required'\<rparr> in
          bindE (pmp_manager_create_more_threads required' m') (\<lambda>(created, m'').
          if created = 0 then Inr (count + waiting, m'') else acquire_loop nthreads (count + waiting) m'')
      else Inr (count, m))"
  by pat_completeness auto
termination
  by (relation "measure (\<lambda>(nthreads, count, m). nat (PMP_MAX_THREADS - allocated_threads m))")
    (auto simp: pmp_manager_create_more_threads_def dest: create_threads_result)

declare acquire_loop.simps [simp del]

text \<open>The statistics \<^verbatim>\<open>__ompc_cur_numthreads\<close>, which nothing reads back, is left out.\<close>

definition pmp_thread_acquire :: "int \<Rightarrow> pmp_manager \<Rightarrow> (int \<times> pmp_manager) res" where
  "pmp_thread_acquire nthreads m = acquire_loop nthreads 1 m"

section \<open>Assigning and releasing threads\<close>

definition assign_thread :: "nat \<Rightarrow> int \<Rightarrow> pmp_manager \<times> int list \<Rightarrow> (pmp_manager \<times> int list) res" where
  "assign_thread team i st =
     (let (m, members) = st in
      bindE (pmp_idstack_pop m) (\<lambda>(global_id, m).
      bindE (assertC (slot_local_id (slots m global_id) = - 1)) (\<lambda>_.
      bindE (assertC (slot_team (slots m global_id) = None)) (\<lambda>_.
      if 0 \<le> i \<and> i < int (length members)
      then Inr (m\<lparr>slots := (slots m)(global_id := (slots m global_id)\<lparr>slot_local_id := i, slot_team := Some team\<rparr>)\<rparr>,
        members[nat i := global_id])
      else Inl Out_Of_Bounds))))"

definition pmp_thread_assign :: "nat \<Rightarrow> int \<Rightarrow> pmp_manager \<times> int list \<Rightarrow> (pmp_manager \<times> int list) res" where
  "pmp_thread_assign team nthreads st = for_loop 1 nthreads (assign_thread team) st"

definition release_thread :: "int \<Rightarrow> int list \<Rightarrow> int \<Rightarrow> pmp_manager \<Rightarrow> pmp_manager res" where
  "release_thread master members i m =
     (if 0 \<le> i \<and> i < int (length members)
      then let thread = members ! nat i in
        bindE (assertC (thread \<noteq> master)) (\<lambda>_.
        pmp_idstack_push (m\<lparr>slots := (slots m)(thread := (slots m thread)\<lparr>slot_local_id := - 1, slot_team := None\<rparr>)\<rparr>) thread)
      else Inl Out_Of_Bounds)"

text \<open>The loop runs from the last worker down to the first.\<close>

definition pmp_thread_release :: "int \<Rightarrow> fork_team \<Rightarrow> pmp_manager \<Rightarrow> pmp_manager res" where
  "pmp_thread_release master team m =
     (let nworkers = fork_size team - 1 in
      bindE (for_loop 0 nworkers (\<lambda>k. release_thread master (fork_members team) (nworkers - k)) m) (\<lambda>m.
      Inr (m\<lparr>waiting_threads := waiting_threads m + nworkers\<rparr>)))"

section \<open>Teams\<close>

definition pmp_team_init :: fork_team where
  "pmp_team_init = \<lparr>fork_size = 0, fork_members = replicate (nat PMP_MAX_THREADS) 0, fork_working = 0, fork_barrier = 0,
     fork_single = 0, fork_loops = 0\<rparr>"

text \<open>
  \<open>teams\<close> is the array of teams of the manager; a nested fork gets a new team, whose number is the argument
  \<open>fresh\<close>, from \<^verbatim>\<open>posix_memalign\<close>. The result is the number of the team, the team, and the manager.
\<close>

definition pmp_team_alloc :: "(int \<Rightarrow> nat \<times> fork_team) \<Rightarrow> nat \<Rightarrow> int \<Rightarrow> int \<Rightarrow> pmp_manager \<Rightarrow> (nat \<times> fork_team \<times> pmp_manager) res" where
  "pmp_team_alloc teams fresh master nthreads m =
     (let (name, team) = (if slot_nesting (slots m master) > 0 then (fresh, pmp_team_init) else teams master);
          m = m\<lparr>slots := (slots m)(master := (slots m master)\<lparr>slot_nesting := slot_nesting (slots m master) + 1\<rparr>)\<rparr> in
      bindE (pmp_thread_acquire nthreads m) (\<lambda>(nthreads, m).
      bindE (assertC (nthreads > 0)) (\<lambda>_.
      bindE (assertC (fork_size team = 0)) (\<lambda>_.
      bindE (pmp_thread_assign name nthreads (m, (fork_members team)[0 := master])) (\<lambda>(m, members).
      Inr (name, team\<lparr>fork_size := nthreads, fork_members := members, fork_working := nthreads, fork_barrier := nthreads,
        fork_single := 0, fork_loops := 0\<rparr>, m))))))"

definition pmp_team_free :: "int \<Rightarrow> fork_team \<Rightarrow> pmp_manager \<Rightarrow> (fork_team \<times> pmp_manager) res" where
  "pmp_team_free master team m =
     bindE (assertC (fork_working team = 0)) (\<lambda>_.
     bindE (assertC (slot_nesting (slots m master) > 0)) (\<lambda>_.
     Inr (team\<lparr>fork_size := 0\<rparr>,
       m\<lparr>slots := (slots m)(master := (slots m master)\<lparr>slot_nesting := slot_nesting (slots m master) - 1\<rparr>)\<rparr>)))"

text \<open>
  \<open>work\<close> stands for what happens between the fork and the join: the outlined function of the program, and the wait of the master
  for the workers, at the end of which no thread of the team works any more. \<open>nested_forks\<close> and \<open>default_team_size\<close> are
  parameters of the runtime. The fields of the master that \<^verbatim>\<open>__pmp_thread_fork\<close> saves and restores are its place and
  its team, not its counters.
\<close>

definition pmp_get_new_team_size :: "bool \<Rightarrow> int \<Rightarrow> nat option \<Rightarrow> int" where
  "pmp_get_new_team_size nested_forks default_team_size team = (if team \<noteq> None \<and> \<not> nested_forks then 1 else default_team_size)"

definition pmp_thread_fork ::
    "(int \<Rightarrow> nat \<times> fork_team) \<Rightarrow> nat \<Rightarrow> (fork_team \<Rightarrow> pmp_manager \<Rightarrow> (fork_team \<times> pmp_manager) res) \<Rightarrow> bool \<Rightarrow>
     int \<Rightarrow> int \<Rightarrow> int \<Rightarrow> pmp_manager \<Rightarrow> (fork_team \<times> pmp_manager) res" where
  "pmp_thread_fork teams fresh work nested_forks default_team_size master nthreads m =
     (let old_team = slot_team (slots m master); old_local_id = slot_local_id (slots m master);
          nthreads = (if nthreads = 0 then pmp_get_new_team_size nested_forks default_team_size old_team else nthreads);
          m = m\<lparr>slots := (slots m)(master := (slots m master)\<lparr>slot_local_id := 0, slot_single := 0, slot_loops := 0\<rparr>)\<rparr> in
      bindE (pmp_team_alloc teams fresh master nthreads m) (\<lambda>(name, team, m).
      bindE (work team (m\<lparr>slots := (slots m)(master := (slots m master)\<lparr>slot_team := Some name\<rparr>)\<rparr>)) (\<lambda>(team, m).
      bindE (pmp_thread_release master team m) (\<lambda>m.
      bindE (pmp_team_free master team m) (\<lambda>(team, m).
      Inr (team, m\<lparr>slots := (slots m)(master := (slots m master)\<lparr>slot_team := old_team, slot_local_id := old_local_id\<rparr>)\<rparr>))))))"

section \<open>The invariant of the manager\<close>

text \<open>
  The identifiers below the top of the stack: first those of threads that have not been created, the next one to be created
  last, then the list \<open>F\<close> of created threads that are in no team. \<open>r\<close> of these have been acquired but not yet popped.
\<close>

definition idle_slot :: "thread_slot \<Rightarrow> bool" where
  "idle_slot sl \<longleftrightarrow> slot_local_id sl = - 1 \<and> slot_team sl = None"

definition manager_ok :: "int \<Rightarrow> int list \<Rightarrow> pmp_manager \<Rightarrow> bool" where
  "manager_ok r F m \<longleftrightarrow> 0 < allocated_threads m \<and> allocated_threads m \<le> PMP_MAX_THREADS \<and>
     length (id_stack m) = nat PMP_MAX_IDS \<and> 0 \<le> num_ids m \<and> num_ids m \<le> PMP_MAX_IDS \<and>
     take (nat (num_ids m)) (id_stack m) = rev [allocated_threads m..PMP_MAX_IDS - 1] @ F \<and>
     distinct F \<and> (\<forall>g \<in> set F. 0 < g \<and> g < allocated_threads m \<and> idle_slot (slots m g)) \<and>
     (\<forall>g. allocated_threads m \<le> g \<longrightarrow> idle_slot (slots m g)) \<and> waiting_threads m = int (length F) - r"

lemma manager_okD:
  assumes "manager_ok r F m"
  shows "0 < allocated_threads m" and "allocated_threads m \<le> PMP_MAX_THREADS" and "length (id_stack m) = nat PMP_MAX_IDS"
    and "0 \<le> num_ids m" and "num_ids m \<le> PMP_MAX_IDS"
    and "take (nat (num_ids m)) (id_stack m) = rev [allocated_threads m..PMP_MAX_IDS - 1] @ F"
    and "distinct F" and "g \<in> set F \<Longrightarrow> 0 < g \<and> g < allocated_threads m \<and> idle_slot (slots m g)"
    and "allocated_threads m \<le> g \<Longrightarrow> idle_slot (slots m g)" and "waiting_threads m = int (length F) - r"
  using assms unfolding manager_ok_def by blast+

lemma max_ids: "PMP_MAX_IDS = 256" "PMP_MAX_THREADS = 256"
  by (simp_all add: PMP_MAX_IDS_def PMP_MAX_THREADS_def)

lemma manager_num_ids: "manager_ok r F m \<Longrightarrow> num_ids m = PMP_MAX_IDS - allocated_threads m + int (length F)"
proof -
  assume ok: "manager_ok r F m"
  have "length (take (nat (num_ids m)) (id_stack m)) = nat (num_ids m)"
    using manager_okD(3,4,5) [OF ok] by simp
  then show ?thesis using arg_cong [OF manager_okD(6) [OF ok], of length] manager_okD(2,4) [OF ok] by (simp add: max_ids)
qed

lemma manager_room: "manager_ok r F m \<Longrightarrow> int (length F) \<le> allocated_threads m - 1"
proof -
  assume ok: "manager_ok r F m"
  have "set F \<subseteq> {1..allocated_threads m - 1}" using manager_okD(8) [OF ok] by force
  then have "card (set F) \<le> card {1..allocated_threads m - 1}" by (rule card_mono [rotated]) simp
  then show ?thesis using distinct_card [OF manager_okD(7) [OF ok]] manager_okD(1) [OF ok] by simp
qed

lemma upto_split_int: "[a..c] = [a..b - 1] @ [b..c]" if "a \<le> b" "b \<le> c + 1" for a b c :: int
proof (cases "a = b")
  case False
  then show ?thesis using upto_split2 [of a "b - 1" c] that by simp
qed simp

text \<open>The manager after \<open>k\<close> threads have been created.\<close>

lemma create_threads_ok:
  assumes ok: "manager_ok r F m"
  shows "\<exists>c. create_threads k count m = Inr (count + c, m\<lparr>allocated_threads := allocated_threads m + c, waiting_threads := waiting_threads m + c\<rparr>) \<and>
    c = min (int k) (PMP_MAX_THREADS - allocated_threads m)"
  using manager_okD(1,2) [OF ok]
proof (induction k arbitrary: count m)
  case (Suc k)
  show ?case
  proof (cases "allocated_threads m \<ge> PMP_MAX_THREADS")
    case True
    then show ?thesis using Suc.prems by (auto simp: Let_def)
  next
    case False
    let ?m = "pmp_thread_create (m\<lparr>allocated_threads := allocated_threads m + 1\<rparr>)"
    have "0 < allocated_threads ?m" "allocated_threads ?m \<le> PMP_MAX_THREADS" using False Suc.prems by (auto simp: pmp_thread_create_def)
    then show ?thesis using Suc.IH [of ?m "count + 1"] False Suc.prems by (auto simp: Let_def pmp_thread_create_def add.assoc)
  qed
qed (auto)

lemma manager_ok_create:
  assumes ok: "manager_ok r F m" and c: "0 \<le> c" "c \<le> PMP_MAX_THREADS - allocated_threads m"
  shows "manager_ok r (rev [allocated_threads m..allocated_threads m + c - 1] @ F)
    (m\<lparr>allocated_threads := allocated_threads m + c, waiting_threads := waiting_threads m + c\<rparr>)"
proof -
  note D = manager_okD [OF ok]
  let ?A = "allocated_threads m"
  have "[?A..PMP_MAX_IDS - 1] = [?A..?A + c - 1] @ [?A + c..PMP_MAX_IDS - 1]"
    using c by (intro upto_split_int) (auto simp: max_ids)
  then have "take (nat (num_ids m)) (id_stack m) = rev [?A + c..PMP_MAX_IDS - 1] @ rev [?A..?A + c - 1] @ F"
    using D(6) by simp
  moreover have "distinct (rev [?A..?A + c - 1] @ F)" using D(7,8) by fastforce
  moreover have "g < ?A + c" if "g \<in> set F" for g using D(8) [OF that] c(1) by simp
  ultimately show ?thesis using D(1-5,8,9,10) c by (auto simp: manager_ok_def)
qed

lemma acquire_loop_ok:
  assumes "manager_ok (count - 1) F m" and "1 \<le> count" and "count \<le> nthreads" and "0 \<le> waiting_threads m"
  shows "\<exists>c m' F'. acquire_loop nthreads count m = Inr (c, m') \<and> count \<le> c \<and> c \<le> nthreads \<and> manager_ok (c - 1) (F' @ F) m' \<and>
    slots m' = slots m \<and> 0 \<le> waiting_threads m' \<and> c = min nthreads (count + waiting_threads m + (PMP_MAX_THREADS - allocated_threads m))"
  using assms
proof (induction nthreads count m arbitrary: F rule: acquire_loop.induct)
  case (1 nthreads count m)
  note D = manager_okD [OF "1.prems"(1)]
  define A where "A = allocated_threads m"
  consider (finished) "count = nthreads" | (enough) "count < nthreads" "nthreads - count \<le> waiting_threads m"
    | (more) "count < nthreads" "waiting_threads m < nthreads - count" using "1.prems"(3) by linarith
  then show ?case
  proof cases
    case finished
    then show ?thesis using "1.prems" D(2) by (subst acquire_loop.simps) (auto intro!: exI [of _ "[]"])
  next
    case enough
    let ?m = "m\<lparr>waiting_threads := waiting_threads m - (nthreads - count)\<rparr>"
    have "acquire_loop nthreads count m = Inr (nthreads, ?m)" using enough by (subst acquire_loop.simps) (simp add: Let_def)
    moreover have "manager_ok (nthreads - 1) ([] @ F) ?m" using "1.prems"(1) by (auto simp: manager_ok_def)
    ultimately show ?thesis using enough D(2) "1.prems"(2) by (intro exI [of _ nthreads] exI [of _ ?m] exI [of _ "[]"]) simp
  next
    case more
    define k where "k = nthreads - count - waiting_threads m"
    let ?m = "m\<lparr>waiting_threads := 0\<rparr>"
    have ok: "manager_ok (count + waiting_threads m - 1) F ?m" using "1.prems"(1) by (auto simp: manager_ok_def)
    obtain c where c: "create_threads (nat k) 0 ?m = Inr (c, ?m\<lparr>allocated_threads := A + c, waiting_threads := c\<rparr>)"
        "c = min k (PMP_MAX_THREADS - A)"
      using create_threads_ok [OF ok, of "nat k" 0] more by (auto simp: A_def k_def)
    let ?m' = "?m\<lparr>allocated_threads := A + c, waiting_threads := c\<rparr>"
    have c0: "0 \<le> c" using c(2) more D(2) by (simp add: k_def A_def)
    have ok': "manager_ok (count + waiting_threads m - 1) (rev [A..A + c - 1] @ F) ?m'"
      using manager_ok_create [OF ok, of c] c0 c(2) by (simp add: A_def)
    have eq: "acquire_loop nthreads count m = (if c = 0 then Inr (count + waiting_threads m, ?m') else acquire_loop nthreads (count + waiting_threads m) ?m')"
      using more c(1) by (subst acquire_loop.simps) (simp add: Let_def pmp_manager_create_more_threads_def k_def)
    show ?thesis
    proof (cases "c = 0")
      case True
      then have "count + waiting_threads m = min nthreads (count + waiting_threads m + (PMP_MAX_THREADS - allocated_threads m))"
        using c(2) more D(2) by (simp add: k_def A_def)
      then show ?thesis using eq True ok' "1.prems"(4) more
        by (intro exI [of _ "count + waiting_threads m"] exI [of _ ?m'] exI [of _ "rev [A..A + c - 1]"]) simp
    next
      case False
      have "\<exists>d m' F'. acquire_loop nthreads (count + waiting_threads m) ?m' = Inr (d, m') \<and> count + waiting_threads m \<le> d \<and> d \<le> nthreads \<and>
          manager_ok (d - 1) (F' @ (rev [A..A + c - 1] @ F)) m' \<and> slots m' = slots ?m' \<and> 0 \<le> waiting_threads m' \<and>
          d = min nthreads (count + waiting_threads m + waiting_threads ?m' + (PMP_MAX_THREADS - allocated_threads ?m'))"
      proof (rule "1.IH" [OF more(1) refl refl _ refl refl])
        show "\<not> nthreads - count \<le> waiting_threads m" using more(2) by simp
      qed (use ok' c0 more "1.prems" False c in \<open>simp_all add: pmp_manager_create_more_threads_def k_def\<close>)
      then obtain d m' F' where "acquire_loop nthreads (count + waiting_threads m) ?m' = Inr (d, m')" "count + waiting_threads m \<le> d" "d \<le> nthreads"
          "manager_ok (d - 1) ((F' @ rev [A..A + c - 1]) @ F) m'" "slots m' = slots m" "0 \<le> waiting_threads m'"
          "d = min nthreads (count + waiting_threads m + c + (PMP_MAX_THREADS - (A + c)))" by auto
      then show ?thesis using eq False "1.prems"(4)
        by (intro exI [of _ d] exI [of _ m'] exI [of _ "F' @ rev [A..A + c - 1]"]) (simp add: A_def)
    qed
  qed
qed

section \<open>Assigning and releasing workers\<close>

lemma manager_pop:
  assumes ok: "manager_ok r (F @ [p]) m"
  shows "pmp_idstack_pop m = Inr (p, m\<lparr>num_ids := num_ids m - 1\<rparr>)" and "manager_ok (r - 1) F (m\<lparr>num_ids := num_ids m - 1\<rparr>)"
proof -
  note D = manager_okD [OF ok]
  define n where "n = nat (num_ids m)"
  define X where "X = rev [allocated_threads m..PMP_MAX_IDS - 1]"
  have st: "take n (id_stack m) = X @ F @ [p]" using D(6) by (simp add: n_def X_def)
  have len: "n \<le> length (id_stack m)" "num_ids m = int n" using D(3,4,5) by (auto simp: n_def max_ids)
  have n: "n = Suc (length (X @ F))" using arg_cong [OF st, of length] len(1) by simp
  have "take (n - 1) (id_stack m) = take (n - 1) (take n (id_stack m))" by simp
  also have "\<dots> = X @ F" unfolding st using n by simp
  finally have st': "take (n - 1) (id_stack m) = X @ F" .
  have "id_stack m ! (n - 1) = take n (id_stack m) ! (n - 1)" using n by simp
  also have "\<dots> = (X @ F @ [p]) ! (n - 1)" by (simp only: st)
  also have "\<dots> = p" using n by (simp add: nth_append)
  finally have top: "id_stack m ! (n - 1) = p" .
  have i: "nat (num_ids m - 1) = n - 1" "0 < num_ids m" "num_ids m - 1 < int (length (id_stack m))" using len n by simp_all
  show "pmp_idstack_pop m = Inr (p, m\<lparr>num_ids := num_ids m - 1\<rparr>)"
    unfolding pmp_idstack_pop_def i(1) top using i(2,3) by simp
  with st' i(1) show "manager_ok (r - 1) F (m\<lparr>num_ids := num_ids m - 1\<rparr>)"
    using D(1-5,7-10) len(2) n by (auto simp: manager_ok_def X_def)
qed

lemma manager_push:
  assumes ok: "manager_ok r F m" and p: "p \<notin> set F" "0 < p" "p < allocated_threads m" "idle_slot (slots m p)"
  shows "\<exists>m'. pmp_idstack_push m p = Inr m' \<and> manager_ok (r + 1) (F @ [p]) m' \<and> slots m' = slots m \<and>
    allocated_threads m' = allocated_threads m \<and> waiting_threads m' = waiting_threads m"
proof -
  note D = manager_okD [OF ok]
  have "set F \<subseteq> {1..allocated_threads m - 1} - {p}" using D(8) p(1) by force
  then have "card (set F) \<le> card ({1..allocated_threads m - 1} - {p})" by (rule card_mono [rotated]) simp
  then have "length F < nat (allocated_threads m - 1)" using p(2,3) distinct_card [OF D(7)] by simp
  then have less: "num_ids m < PMP_MAX_IDS" using manager_num_ids [OF ok] D(2) by (simp add: max_ids)
  define n where "n = nat (num_ids m)"
  have n: "n < length (id_stack m)" "num_ids m = int n" using less D(3,4) by (auto simp: n_def)
  let ?m = "m\<lparr>id_stack := (id_stack m)[n := p], num_ids := num_ids m + 1\<rparr>"
  have "take (Suc n) ((id_stack m)[n := p]) = take n (id_stack m) @ [p]" using n(1) by (simp add: take_Suc_conv_app_nth)
  moreover have "take n (id_stack m) = rev [allocated_threads m..PMP_MAX_IDS - 1] @ F" unfolding n_def by (rule D(6))
  moreover have "nat (num_ids ?m) = Suc n" using n(2) by simp
  ultimately have "take (nat (num_ids ?m)) (id_stack ?m) = rev [allocated_threads m..PMP_MAX_IDS - 1] @ F @ [p]" by simp
  moreover have "0 < g \<and> g < allocated_threads m \<and> idle_slot (slots m g)" if "g \<in> set (F @ [p])" for g using D(8) p that by auto
  moreover have "distinct (F @ [p])" using D(7) p(1) by simp
  ultimately have "manager_ok (r + 1) (F @ [p]) ?m"
    unfolding manager_ok_def using D(1-5,9,10) less by simp
  moreover have "pmp_idstack_push m p = Inr ?m" using less n by (simp add: pmp_idstack_push_def)
  ultimately show ?thesis by auto
qed

lemma manager_ok_slots:
  assumes "manager_ok r F m" and "\<And>g. g \<in> set F \<or> allocated_threads m \<le> g \<Longrightarrow> idle_slot (f g)"
  shows "manager_ok r F (m\<lparr>slots := f\<rparr>)"
  using assms by (simp add: manager_ok_def)

fun assign_slots :: "nat \<Rightarrow> int \<Rightarrow> int list \<Rightarrow> (int \<Rightarrow> thread_slot) \<Rightarrow> int \<Rightarrow> thread_slot" where
  "assign_slots team i [] f = f"
| "assign_slots team i (g # gs) f = assign_slots team (i + 1) gs (f(g := (f g)\<lparr>slot_local_id := i, slot_team := Some team\<rparr>))"

lemma assign_slots_other: "g \<notin> set gs \<Longrightarrow> assign_slots team i gs f g = f g"
  by (induction gs arbitrary: i f) auto

lemma assign_slots_nth:
  "distinct gs \<Longrightarrow> k < length gs \<Longrightarrow> assign_slots team i gs f (gs ! k) = (f (gs ! k))\<lparr>slot_local_id := i + int k, slot_team := Some team\<rparr>"
proof (induction gs arbitrary: i f k)
  case (Cons g gs)
  then show ?case by (cases k) (auto simp: assign_slots_other)
qed simp

lemma assign_ok:
  assumes "manager_ok (int (length P)) (F @ rev P) m" and "0 \<le> i" and "nat i + length P \<le> length members"
  shows "\<exists>m'. for_loop i (i + int (length P)) (assign_thread team) (m, members) =
      Inr (m', take (nat i) members @ P @ drop (nat i + length P) members) \<and>
    manager_ok 0 F m' \<and> slots m' = assign_slots team i P (slots m) \<and> allocated_threads m' = allocated_threads m \<and>
    waiting_threads m' = waiting_threads m"
  using assms
proof (induction P arbitrary: i m members)
  case (Cons p P)
  have ok: "manager_ok (int (length (p # P))) ((F @ rev P) @ [p]) m" using Cons.prems(1) by simp
  note pop = manager_pop [OF ok] and D = manager_okD [OF ok]
  define f where "f = (slots m)(p := (slots m p)\<lparr>slot_local_id := i, slot_team := Some team\<rparr>)"
  let ?m = "m\<lparr>num_ids := num_ids m - 1, slots := f\<rparr>" and ?mem = "members[nat i := p]"
  have p: "idle_slot (slots m p)" "p \<notin> set (F @ rev P)" "p < allocated_threads m" using D(7,8) by auto
  have i: "nat i < length members" using Cons.prems(3) by simp
  then have st: "assign_thread team i (m, members) = Inr (?m, ?mem)"
    using pop(1) p(1) Cons.prems(2) by (simp add: assign_thread_def idle_slot_def f_def)
  have "manager_ok (int (length P)) (F @ rev P) (m\<lparr>num_ids := num_ids m - 1\<rparr>)" using pop(2) by simp
  then have "manager_ok (int (length P)) (F @ rev P) (m\<lparr>num_ids := num_ids m - 1, slots := f\<rparr>)"
  proof (rule manager_ok_slots)
    fix g assume g: "g \<in> set (F @ rev P) \<or> allocated_threads (m\<lparr>num_ids := num_ids m - 1\<rparr>) \<le> g"
    then have "g \<noteq> p" using p(2,3) by auto
    moreover have "idle_slot (slots m g)" using g D(8,9) by auto
    ultimately show "idle_slot (f g)" by (simp add: f_def)
  qed
  from Cons.IH [OF this, of "i + 1" ?mem] obtain m' where
    m': "for_loop (i + 1) (i + 1 + int (length P)) (assign_thread team) (?m, ?mem) =
        Inr (m', take (nat (i + 1)) ?mem @ P @ drop (nat (i + 1) + length P) ?mem)"
      "manager_ok 0 F m'" "slots m' = assign_slots team (i + 1) P f" "allocated_threads m' = allocated_threads m" "waiting_threads m' = waiting_threads m"
    using Cons.prems(2,3) by (auto simp: nat_add_distrib)
  have "take (nat (i + 1)) ?mem = take (nat i) members @ [p]"
    using i Cons.prems(2) by (simp add: nat_add_distrib take_Suc_conv_app_nth)
  moreover have "drop (nat (i + 1) + length P) ?mem = drop (nat i + length (p # P)) members"
    using Cons.prems(2) by (simp add: nat_add_distrib)
  ultimately show ?case using m' st by (simp add: for_loop_step f_def [symmetric] add.assoc add.commute add.left_commute)
qed simp

definition free_slots :: "int list \<Rightarrow> (int \<Rightarrow> thread_slot) \<Rightarrow> int \<Rightarrow> thread_slot" where
  "free_slots gs f g = (if g \<in> set gs then (f g)\<lparr>slot_local_id := - 1, slot_team := None\<rparr> else f g)"

lemma release_ok:
  assumes "manager_ok r F m" and "distinct Q" and "set Q \<inter> set F = {}" and "\<And>p. p \<in> set Q \<Longrightarrow> 0 < p \<and> p < allocated_threads m \<and> p \<noteq> master"
    and "\<And>j. j < length Q \<Longrightarrow> members ! Suc j = Q ! j" and "length Q < length members" and "n = k + int (length Q)"
  shows "\<exists>m'. for_loop k n (\<lambda>k. release_thread master members (n - k)) m = Inr m' \<and> manager_ok (r + int (length Q)) (F @ rev Q) m' \<and>
    slots m' = free_slots Q (slots m) \<and> allocated_threads m' = allocated_threads m \<and> waiting_threads m' = waiting_threads m"
  using assms
proof (induction Q arbitrary: k r F m rule: rev_induct)
  case Nil
  then show ?case by (auto simp: free_slots_def)
next
  case (snoc p Q)
  note D = manager_okD [OF snoc.prems(1)]
  have p: "0 < p" "p < allocated_threads m" "p \<noteq> master" "p \<notin> set F" "p \<notin> set Q" using snoc.prems(2-4) by auto
  let ?f = "(slots m)(p := (slots m p)\<lparr>slot_local_id := - 1, slot_team := None\<rparr>)"
  have nth: "members ! nat (n - k) = p" "0 \<le> n - k" "n - k < int (length members)" "k < n"
    using snoc.prems(5) [of "length Q"] snoc.prems(6,7) by (simp_all add: nat_add_distrib)
  have "manager_ok r F (m\<lparr>slots := ?f\<rparr>)"
    by (rule manager_ok_slots [OF snoc.prems(1)]) (use D(8,9) p in \<open>auto simp: idle_slot_def\<close>)
  from manager_push [OF this p(4,1)] obtain m1 where m1: "pmp_idstack_push (m\<lparr>slots := ?f\<rparr>) p = Inr m1" "manager_ok (r + 1) (F @ [p]) m1"
      "slots m1 = ?f" "allocated_threads m1 = allocated_threads m" "waiting_threads m1 = waiting_threads m"
    using p(2) by (auto simp: idle_slot_def)
  have st: "release_thread master members (n - k) m = Inr m1"
    using nth m1(1) p(3) by (simp add: release_thread_def)
  have "\<exists>m'. for_loop (k + 1) n (\<lambda>k. release_thread master members (n - k)) m1 = Inr m' \<and>
      manager_ok (r + 1 + int (length Q)) ((F @ [p]) @ rev Q) m' \<and> slots m' = free_slots Q (slots m1) \<and>
      allocated_threads m' = allocated_threads m1 \<and> waiting_threads m' = waiting_threads m1"
  proof (rule snoc.IH [OF m1(2)])
    show "members ! Suc j = Q ! j" if "j < length Q" for j using snoc.prems(5) [of j] that by (simp add: nth_append)
  qed (use snoc.prems p m1(4) in auto)
  moreover have "free_slots Q ?f = free_slots (Q @ [p]) (slots m)" using p(5) by (auto simp: free_slots_def)
  ultimately show ?case using st nth(4) m1(3-5) by (auto simp: for_loop_step add.assoc add.commute add.left_commute)
qed

section \<open>Fork and join\<close>

text \<open>The team of the master before a fork: its own, or a new one when it is in a region already.\<close>

definition team_for :: "(int \<Rightarrow> nat \<times> fork_team) \<Rightarrow> nat \<Rightarrow> int \<Rightarrow> pmp_manager \<Rightarrow> nat \<times> fork_team" where
  "team_for teams fresh master m = (if slot_nesting (slots m master) > 0 then (fresh, pmp_team_init) else teams master)"

abbreviation enter_region :: "int \<Rightarrow> (int \<Rightarrow> thread_slot) \<Rightarrow> int \<Rightarrow> thread_slot" where
  "enter_region master f \<equiv> f(master := (f master)\<lparr>slot_nesting := slot_nesting (f master) + 1\<rparr>)"

text \<open>A team with the workers \<open>P\<close>.\<close>

definition formed_team :: "int \<Rightarrow> int list \<Rightarrow> fork_team \<Rightarrow> fork_team" where
  "formed_team master P team = team\<lparr>fork_size := 1 + int (length P), fork_members := master # P @ drop (Suc (length P)) (fork_members team),
     fork_working := 1 + int (length P), fork_barrier := 1 + int (length P), fork_single := 0, fork_loops := 0\<rparr>"

lemma team_alloc_ok:
  assumes ok: "manager_ok 0 F m" and n: "1 \<le> nthreads" and team: "team_for teams fresh master m = (name, team)"
    "fork_size team = 0" "length (fork_members team) = nat PMP_MAX_THREADS"
  shows "\<exists>P F0 F' m'. pmp_team_alloc teams fresh master nthreads m = Inr (name, formed_team master P team, m') \<and>
    1 + int (length P) = min nthreads (1 + int (length F) + (PMP_MAX_THREADS - allocated_threads m)) \<and>
    manager_ok 0 F0 m' \<and> F0 @ rev P = F' @ F \<and> distinct (F0 @ rev P) \<and>
    (\<forall>g \<in> set P. 0 < g \<and> g < allocated_threads m' \<and> idle_slot (slots m g)) \<and>
    slots m' = assign_slots name 1 P (enter_region master (slots m))"
proof -
  define f where "f = enter_region master (slots m)"
  have idle: "idle_slot (f g) = idle_slot (slots m g)" for g by (simp add: f_def idle_slot_def)
  have ok1: "manager_ok (1 - 1) F (m\<lparr>slots := f\<rparr>)"
    using manager_ok_slots [OF ok, of f] manager_okD(8,9) [OF ok] idle by auto
  have w: "waiting_threads m = int (length F)" using manager_okD(10) [OF ok] by simp
  obtain c m1 F' where acq: "pmp_thread_acquire nthreads (m\<lparr>slots := f\<rparr>) = Inr (c, m1)" "1 \<le> c" "manager_ok (c - 1) (F' @ F) m1"
      "slots m1 = f" "0 \<le> waiting_threads m1" "c = min nthreads (1 + int (length F) + (PMP_MAX_THREADS - allocated_threads m))"
    using acquire_loop_ok [OF ok1 _ n] w by (auto simp: pmp_thread_acquire_def)
  define G where "G = F' @ F"
  define P where "P = rev (drop (length G - nat (c - 1)) G)"
  define F0 where "F0 = take (length G - nat (c - 1)) G"
  have len: "int (length P) = c - 1" using manager_okD(10) [OF acq(3)] acq(2,5) by (simp add: P_def G_def)
  have G: "F0 @ rev P = G" by (simp add: P_def F0_def)
  have P: "0 < g \<and> g < allocated_threads m1 \<and> idle_slot (slots m g)" if "g \<in> set P" for g
  proof -
    have "g \<in> set (F' @ F)" using that G unfolding G_def by (metis Un_iff set_append set_rev)
    then show ?thesis using manager_okD(8) [OF acq(3)] acq(4) idle by auto
  qed
  have "c \<le> PMP_MAX_THREADS" using acq(6) manager_room [OF ok] by simp
  then have room: "nat 1 + length P \<le> length ((fork_members team)[0 := master])" using len team(3) by simp
  have "manager_ok (int (length P)) (F0 @ rev P) m1" using acq(3) len G by (simp add: G_def)
  from assign_ok [OF this _ room, of name] obtain m2 where m2:
      "for_loop 1 (1 + int (length P)) (assign_thread name) (m1, (fork_members team)[0 := master]) =
        Inr (m2, take 1 ((fork_members team)[0 := master]) @ P @ drop (1 + length P) ((fork_members team)[0 := master]))"
      "manager_ok 0 F0 m2" "slots m2 = assign_slots name 1 P f" "allocated_threads m2 = allocated_threads m1" by (auto simp: acq(4))
  have mem: "take 1 ((fork_members team)[0 := master]) @ P @ drop (1 + length P) ((fork_members team)[0 := master]) =
      master # P @ drop (Suc (length P)) (fork_members team)"
    using team(3) by (cases "fork_members team") (auto simp: max_ids)
  have "distinct (F0 @ rev P)" using manager_okD(7) [OF acq(3)] G by (simp add: G_def)
  moreover have "pmp_team_alloc teams fresh master nthreads m = Inr (name, formed_team master P team, m2)"
    using acq(1,2) m2(1) mem len team(1,2) unfolding pmp_team_alloc_def team_for_def [symmetric]
    by (simp add: Let_def formed_team_def f_def [symmetric] pmp_thread_assign_def)
  ultimately show ?thesis using acq(6) m2(2-4) G P len unfolding G_def f_def [symmetric]
    by (intro exI [of _ P] exI [of _ F0] exI [of _ F'] exI [of _ m2]) simp
qed

lemma team_release_ok:
  assumes ok: "manager_ok 0 F m" and "fork_size team = 1 + int (length P)" and "fork_members team = master # P @ rest"
    and "distinct P" and "set P \<inter> set F = {}" and "\<And>p. p \<in> set P \<Longrightarrow> 0 < p \<and> p < allocated_threads m \<and> p \<noteq> master"
  shows "\<exists>m'. pmp_thread_release master team m = Inr m' \<and> manager_ok 0 (F @ rev P) m' \<and> slots m' = free_slots P (slots m)"
proof -
  have nth: "fork_members team ! Suc j = P ! j" if "j < length P" for j using assms(3) that by (simp add: nth_append)
  obtain m' where m': "for_loop 0 (int (length P)) (\<lambda>k. release_thread master (fork_members team) (int (length P) - k)) m = Inr m'"
      "manager_ok (int (length P)) (F @ rev P) m'" "slots m' = free_slots P (slots m)"
    using release_ok [OF ok assms(4-6) nth, of "int (length P)" 0] assms(3) by auto
  have "manager_ok 0 (F @ rev P) (m'\<lparr>waiting_threads := waiting_threads m' + int (length P)\<rparr>)"
    using m'(2) by (simp add: manager_ok_def)
  then show ?thesis using m' assms(2) by (simp add: pmp_thread_release_def)
qed

text \<open>The fields of the threads after a fork and the join that ends it.\<close>

lemma free_assign_slots:
  assumes "\<And>g. g \<in> set P \<Longrightarrow> idle_slot (f g)"
  shows "free_slots P (assign_slots team i P f) = f"
proof (rule ext)
  fix g
  have keep: "\<exists>l t. assign_slots team i P f g = (f g)\<lparr>slot_local_id := l, slot_team := t\<rparr>" for i and f :: "int \<Rightarrow> thread_slot"
  proof (induction P arbitrary: i f)
    case Nil
    show ?case by (intro exI [of _ "slot_local_id (f g)"] exI [of _ "slot_team (f g)"]) (cases "f g"; simp)
  next
    case (Cons p P)
    obtain l t where "assign_slots team (i + 1) P (f(p := (f p)\<lparr>slot_local_id := i, slot_team := Some team\<rparr>)) g =
        ((f(p := (f p)\<lparr>slot_local_id := i, slot_team := Some team\<rparr>)) g)\<lparr>slot_local_id := l, slot_team := t\<rparr>" using Cons by blast
    then show ?case by (cases "g = p") auto
  qed
  show "free_slots P (assign_slots team i P f) g = f g"
  proof (cases "g \<in> set P")
    case True
    obtain l t where "assign_slots team i P f g = (f g)\<lparr>slot_local_id := l, slot_team := t\<rparr>" using keep by blast
    then show ?thesis using True assms [OF True] by (cases "f g") (simp add: free_slots_def idle_slot_def)
  next
    case False
    then show ?thesis by (simp add: free_slots_def assign_slots_other)
  qed
qed

text \<open>
  Threads keep their places, teams and nesting depths. Their counters may change.
\<close>

definition same_places :: "(int \<Rightarrow> thread_slot) \<Rightarrow> (int \<Rightarrow> thread_slot) \<Rightarrow> bool" where
  "same_places f g \<longleftrightarrow> (\<forall>i. slot_local_id (g i) = slot_local_id (f i) \<and> slot_team (g i) = slot_team (f i) \<and> slot_nesting (g i) = slot_nesting (f i))"

lemma same_places_idle: "same_places f g \<Longrightarrow> idle_slot (g i) = idle_slot (f i)"
  by (simp add: same_places_def idle_slot_def)

text \<open>
  What a fork relies on of the work of the region: it ends, when no thread of the team works any more and the team is what it was;
  it may create threads, and returns those it uses. The fork satisfies the same law, so regions can be nested.
\<close>

definition work_ok :: "int \<Rightarrow> (fork_team \<Rightarrow> pmp_manager \<Rightarrow> (fork_team \<times> pmp_manager) res) \<Rightarrow> bool" where
  "work_ok master work \<longleftrightarrow> (\<forall>team m F. manager_ok 0 F m \<longrightarrow> \<not> idle_slot (slots m master) \<longrightarrow> slot_nesting (slots m master) > 0 \<longrightarrow>
     (\<exists>team' m' F'. work team m = Inr (team', m') \<and> fork_size team' = fork_size team \<and> fork_members team' = fork_members team \<and>
       fork_working team' = 0 \<and> manager_ok 0 (F' @ F) m' \<and> same_places (slots m) (slots m')))"

lemma work_okD:
  assumes "work_ok master work" and "manager_ok 0 F m" and "\<not> idle_slot (slots m master)" and "slot_nesting (slots m master) > 0"
  obtains team' m' F' where "work team m = Inr (team', m')" and "fork_size team' = fork_size team" and "fork_members team' = fork_members team"
    and "fork_working team' = 0" and "manager_ok 0 (F' @ F) m'" and "same_places (slots m) (slots m')"
  using assms unfolding work_ok_def by blast

lemma start_up_ok: "\<exists>m. pmp_manager_create_main_thread pmp_manager_init = Inr m \<and> manager_ok 0 [] m \<and> \<not> idle_slot (slots m 0) \<and>
    slot_nesting (slots m 0) = 0 \<and> slot_team (slots m 0) = None"
proof -
  define X where "X = map (\<lambda>k. PMP_MAX_IDS - 1 - k) [0..PMP_MAX_IDS - 1]"
  have X: "X = rev [0..PMP_MAX_IDS - 1]" "length X = 256"
  proof -
    show "length X = 256" by (simp add: X_def max_ids)
    show "X = rev [0..PMP_MAX_IDS - 1]"
      by (rule nth_equalityI) (auto simp: X_def rev_nth max_ids)
  qed
  have "[0..PMP_MAX_IDS - 1] = 0 # [1..PMP_MAX_IDS - 1]" using upto_rec1 [of 0 "PMP_MAX_IDS - 1"] by (simp add: max_ids)
  then have X': "X = rev [1..PMP_MAX_IDS - 1] @ [0]" using X(1) by simp
  have top: "X ! 255 = 0" "take 255 X = rev [1..PMP_MAX_IDS - 1]" unfolding X' by (simp_all add: nth_append max_ids)
  let ?m = "pmp_manager_init\<lparr>allocated_threads := 1, num_ids := 255, slots := (slots pmp_manager_init)(0 := pmp_thread_init\<lparr>slot_local_id := 0\<rparr>)\<rparr>"
  have init: "num_ids pmp_manager_init = 256" "id_stack pmp_manager_init = X" "allocated_threads pmp_manager_init = 0"
      "waiting_threads pmp_manager_init = 0" "slots pmp_manager_init = (\<lambda>_. pmp_thread_init)"
    by (simp_all add: pmp_manager_init_def pmp_idstack_init_def X_def max_ids)
  have "pmp_manager_create_main_thread pmp_manager_init = Inr ?m"
    using top(1) X(2) by (simp add: pmp_manager_create_main_thread_def pmp_thread_create_main_def pmp_idstack_pop_def init)
  moreover have "manager_ok 0 [] ?m" using X(2) top(2) by (simp add: manager_ok_def init max_ids idle_slot_def pmp_thread_init_def)
  moreover have "\<not> idle_slot (slots ?m 0)" "slot_nesting (slots ?m 0) = 0" "slot_team (slots ?m 0) = None"
    by (simp_all add: idle_slot_def pmp_thread_init_def)
  ultimately show ?thesis by blast
qed

text \<open>The threads of a team that has been formed, and the end of its region.\<close>

lemma formed_places:
  assumes "distinct P" and "master \<notin> set P" and f1: "f1 = assign_slots name 1 P (enter_region master f)"
  shows "f1 master = (f master)\<lparr>slot_nesting := slot_nesting (f master) + 1\<rparr>"
    and "g \<in> set P \<Longrightarrow> \<not> idle_slot (f1 g) \<and> slot_nesting (f1 g) = slot_nesting (f g)"
    and "g \<notin> set P \<Longrightarrow> g \<noteq> master \<Longrightarrow> f1 g = f g"
proof -
  show "f1 master = (f master)\<lparr>slot_nesting := slot_nesting (f master) + 1\<rparr>" using assms(2) by (simp add: f1 assign_slots_other)
  show "f1 g = f g" if "g \<notin> set P" "g \<noteq> master" using that by (simp add: f1 assign_slots_other)
  show "\<not> idle_slot (f1 g) \<and> slot_nesting (f1 g) = slot_nesting (f g)" if g: "g \<in> set P"
  proof -
    obtain k where k: "g = P ! k" "k < length P" using g by (auto simp: in_set_conv_nth)
    have "g \<noteq> master" using g assms(2) by blast
    then have "f1 g = (f g)\<lparr>slot_local_id := 1 + int k, slot_team := Some name\<rparr>"
      using assms(1) k assign_slots_nth [of P k name 1 "enter_region master f"] by (simp add: f1)
    then show ?thesis by (simp add: idle_slot_def)
  qed
qed

lemma region_end_ok:
  assumes ok: "manager_ok 0 F m" and team: "fork_size team = 1 + int (length P)" "fork_members team = master # P @ rest" "fork_working team = 0"
    and P: "distinct P" "\<And>g. g \<in> set P \<Longrightarrow> 0 < g \<and> g \<noteq> master \<and> \<not> idle_slot (slots m g)"
    and master: "\<not> idle_slot (slots m master)" "slot_nesting (slots m master) > 0" and f: "idle_slot (f master) \<Longrightarrow> idle_slot (slots m master)"
      "\<And>g. g \<noteq> master \<Longrightarrow> f g = free_slots P (slots m) g"
  obtains m' where "pmp_thread_release master team m = Inr m'" and "slots m' = free_slots P (slots m)"
    and "pmp_team_free master team m' = Inr (team\<lparr>fork_size := 0\<rparr>,
      m'\<lparr>slots := (slots m')(master := (slots m master)\<lparr>slot_nesting := slot_nesting (slots m master) - 1\<rparr>)\<rparr>)"
    and "manager_ok 0 (F @ rev P) (m'\<lparr>slots := f\<rparr>)"
proof -
  note D = manager_okD [OF ok]
  have "set P \<inter> set F = {}" using P(2) D(8) by blast
  moreover have "0 < g \<and> g < allocated_threads m \<and> g \<noteq> master" if "g \<in> set P" for g
    using P(2) [OF that] D(9) [of g] by (meson linorder_not_le)
  ultimately obtain m' where m': "pmp_thread_release master team m = Inr m'" "manager_ok 0 (F @ rev P) m'" "slots m' = free_slots P (slots m)"
    using team_release_ok [OF ok team(1,2) P(1)] by blast
  have mm: "slots m' master = slots m master" using m'(3) P(2) by (auto simp: free_slots_def)
  show thesis
  proof
    show "pmp_team_free master team m' = Inr (team\<lparr>fork_size := 0\<rparr>,
        m'\<lparr>slots := (slots m')(master := (slots m master)\<lparr>slot_nesting := slot_nesting (slots m master) - 1\<rparr>)\<rparr>)"
      using team(3) master(2) mm by (simp add: pmp_team_free_def)
    show "manager_ok 0 (F @ rev P) (m'\<lparr>slots := f\<rparr>)"
    proof (rule manager_ok_slots [OF m'(2)])
      fix g assume "g \<in> set (F @ rev P) \<or> allocated_threads m' \<le> g"
      then have "idle_slot (slots m' g)" using manager_okD(8,9) [OF m'(2)] by blast
      then show "idle_slot (f g)" using f(2) [of g] master(1) mm m'(3) by metis
    qed
  qed (use m' in auto)
qed

text \<open>The work of a region in the team that a fork forms.\<close>

lemma fork_work_ok:
  assumes work: "work_ok master work" and ok: "manager_ok 0 F0 m1" and f: "slot_local_id (slots m1 master) = 0" "slot_nesting (slots m1 master) > 0"
  obtains team' m' F' where "work team (m1\<lparr>slots := (slots m1)(master := (slots m1 master)\<lparr>slot_team := Some name\<rparr>)\<rparr>) = Inr (team', m')"
    and "fork_size team' = fork_size team" and "fork_members team' = fork_members team" and "fork_working team' = 0"
    and "manager_ok 0 (F' @ F0) m'" and "same_places ((slots m1)(master := (slots m1 master)\<lparr>slot_team := Some name\<rparr>)) (slots m')"
proof -
  define f1 where "f1 = (slots m1)(master := (slots m1 master)\<lparr>slot_team := Some name\<rparr>)"
  have n: "\<not> idle_slot (slots m1 master)" using f(1) by (simp add: idle_slot_def)
  have ok1: "manager_ok 0 F0 (m1\<lparr>slots := f1\<rparr>)"
  proof (rule manager_ok_slots [OF ok])
    fix g assume "g \<in> set F0 \<or> allocated_threads m1 \<le> g"
    then have "idle_slot (slots m1 g)" using manager_okD(8,9) [OF ok] by blast
    with n show "idle_slot (f1 g)" by (auto simp: f1_def)
  qed
  have f1: "\<not> idle_slot (slots (m1\<lparr>slots := f1\<rparr>) master)" "slot_nesting (slots (m1\<lparr>slots := f1\<rparr>) master) > 0"
    using f by (simp_all add: idle_slot_def f1_def)
  have "slots (m1\<lparr>slots := f1\<rparr>) = f1" by simp
  then show thesis using that work_okD [OF work ok1 f1, of team] unfolding f1_def [symmetric] by metis
qed

lemma fork_ok:
  assumes work: "work_ok master work" and ok: "manager_ok 0 F m" and master: "\<not> idle_slot (slots m master)" "0 \<le> slot_nesting (slots m master)"
    and n: "n = (if nthreads = 0 then pmp_get_new_team_size nested_forks default_team_size (slot_team (slots m master)) else nthreads)" "1 \<le> n"
    and team: "team_for teams fresh master m = (name, team)" "fork_size team = 0" "length (fork_members team) = nat PMP_MAX_THREADS"
  shows "\<exists>team' m' F'. pmp_thread_fork teams fresh work nested_forks default_team_size master nthreads m = Inr (team', m') \<and>
    fork_size team' = 0 \<and> length (fork_members team') = nat PMP_MAX_THREADS \<and> manager_ok 0 (F' @ F) m' \<and> same_places (slots m) (slots m')"
proof -
  define f where "f = (slots m)(master := (slots m master)\<lparr>slot_local_id := 0, slot_single := 0, slot_loops := 0\<rparr>)"
  have fm: "slot_local_id (f master) = 0" "slot_nesting (f master) = slot_nesting (slots m master)" and fo: "\<And>g. g \<noteq> master \<Longrightarrow> f g = slots m g"
    by (simp_all add: f_def)
  have ok1: "manager_ok 0 F (m\<lparr>slots := f\<rparr>)"
    by (rule manager_ok_slots [OF ok]) (use fo master(1) manager_okD(8,9) [OF ok] in metis)
  have tf: "team_for teams fresh master (m\<lparr>slots := f\<rparr>) = (name, team)" using team(1) by (simp add: team_for_def fm)
  have "\<exists>P F0 F1 m1. pmp_team_alloc teams fresh master n (m\<lparr>slots := f\<rparr>) = Inr (name, formed_team master P team, m1) \<and>
      1 + int (length P) = min n (1 + int (length F) + (PMP_MAX_THREADS - allocated_threads m)) \<and>
      manager_ok 0 F0 m1 \<and> F0 @ rev P = F1 @ F \<and> distinct (F0 @ rev P) \<and> (\<forall>g \<in> set P. 0 < g \<and> g < allocated_threads m1 \<and> idle_slot (f g)) \<and>
      slots m1 = assign_slots name 1 P (enter_region master f)"
    using team_alloc_ok [OF ok1 n(2) tf team(2,3)] by simp
  then obtain P F0 F1 m1 where alloc: "pmp_team_alloc teams fresh master n (m\<lparr>slots := f\<rparr>) = Inr (name, formed_team master P team, m1)"
      "1 + int (length P) = min n (1 + int (length F) + (PMP_MAX_THREADS - allocated_threads m))"
      "manager_ok 0 F0 m1" "F0 @ rev P = F1 @ F" "distinct P" "\<And>g. g \<in> set P \<Longrightarrow> 0 < g \<and> idle_slot (f g)"
      "slots m1 = assign_slots name 1 P (enter_region master f)" unfolding distinct_append distinct_rev by blast
  have P: "master \<notin> set P" using alloc(6) [of master] fm(1) by (auto simp: idle_slot_def)
  note f1 = formed_places [OF alloc(5) P alloc(7)]
  obtain team2 m2 F2 where w: "work (formed_team master P team) (m1\<lparr>slots := (slots m1)(master := (slots m1 master)\<lparr>slot_team := Some name\<rparr>)\<rparr>) = Inr (team2, m2)"
      "fork_size team2 = 1 + int (length P)" "fork_members team2 = master # P @ drop (Suc (length P)) (fork_members team)" "fork_working team2 = 0"
      "manager_ok 0 (F2 @ F0) m2" "same_places ((slots m1)(master := (slots m1 master)\<lparr>slot_team := Some name\<rparr>)) (slots m2)"
    using fork_work_ok [OF work alloc(3), of "formed_team master P team" name] f1(1) fm master(2) by (auto simp: formed_team_def)
  have m2: "slot_local_id (slots m2 master) = 0" "slot_nesting (slots m2 master) = slot_nesting (slots m master) + 1"
      "\<And>g. g \<noteq> master \<Longrightarrow> slot_local_id (slots m2 g) = slot_local_id (slots m1 g) \<and> slot_team (slots m2 g) = slot_team (slots m1 g) \<and>
        slot_nesting (slots m2 g) = slot_nesting (slots m1 g)"
    using w(6) f1(1) fm by (auto simp: same_places_def)
  have Pg: "0 < g \<and> g \<noteq> master \<and> \<not> idle_slot (slots m2 g)" if "g \<in> set P" for g
  proof -
    have g: "g \<noteq> master" using P that by blast
    show ?thesis using f1(2) [OF that] m2(3) [OF g] alloc(6) [OF that] g by (simp add: idle_slot_def)
  qed
  define f3 where "f3 = (free_slots P (slots m2))(master := (slots m2 master)\<lparr>slot_nesting := slot_nesting (slots m master),
      slot_team := slot_team (slots m master), slot_local_id := slot_local_id (slots m master)\<rparr>)"
  have i: "\<not> idle_slot (slots m2 master)" "\<not> idle_slot (f3 master)" using m2(1) master(1) by (auto simp: idle_slot_def f3_def)
  obtain m3 where r: "pmp_thread_release master team2 m2 = Inr m3" "slots m3 = free_slots P (slots m2)"
      "pmp_team_free master team2 m3 = Inr (team2\<lparr>fork_size := 0\<rparr>,
        m3\<lparr>slots := (slots m3)(master := (slots m2 master)\<lparr>slot_nesting := slot_nesting (slots m2 master) - 1\<rparr>)\<rparr>)"
      "manager_ok 0 ((F2 @ F0) @ rev P) (m3\<lparr>slots := f3\<rparr>)"
    using region_end_ok [OF w(5,2,3,4) alloc(5) Pg i(1), of f3] m2(2) master(2) i(2) by (auto simp: f3_def)
  have fork: "pmp_thread_fork teams fresh work nested_forks default_team_size master nthreads m = Inr (team2\<lparr>fork_size := 0\<rparr>, m3\<lparr>slots := f3\<rparr>)"
    using alloc(1) w(1) r m2(2) unfolding pmp_thread_fork_def Let_def n(1) [symmetric] f_def [symmetric]
    by (simp add: f3_def)
  have places: "slot_local_id (f3 g) = slot_local_id (slots m g) \<and> slot_team (f3 g) = slot_team (slots m g) \<and> slot_nesting (f3 g) = slot_nesting (slots m g)"
    if "g \<noteq> master" for g
    using f1(2,3) [of g] fo [OF that] alloc(6) [of g] m2(3) [OF that] that by (auto simp: f3_def free_slots_def idle_slot_def)
  have same: "same_places (slots m) f3"
    unfolding same_places_def by (rule allI, case_tac "i = master") (use places in \<open>simp_all add: f3_def\<close>)
  have "Suc (length P) \<le> nat PMP_MAX_THREADS" using alloc(2) manager_room [OF ok] by simp
  then have len: "length (fork_members (team2\<lparr>fork_size := 0\<rparr>)) = nat PMP_MAX_THREADS" using w(3) team(3) by simp
  have "manager_ok 0 ((F2 @ F1) @ F) (m3\<lparr>slots := f3\<rparr>)" using r(4) alloc(4) by simp
  then show ?thesis using fork same len
    by (intro exI [of _ "team2\<lparr>fork_size := 0\<rparr>"] exI [of _ "m3\<lparr>slots := f3\<rparr>"] exI [of _ "F2 @ F1"]) simp
qed

lemma nested_fork_ok:
  assumes "work_ok master work" and "1 \<le> nthreads"
  shows "work_ok master (\<lambda>team m. bindE (pmp_thread_fork teams fresh work nested_forks default_team_size master nthreads m)
    (\<lambda>(_, m). Inr (team\<lparr>fork_working := 0\<rparr>, m)))"
proof -
  have "\<exists>team' m' F'. bindE (pmp_thread_fork teams fresh work nested_forks default_team_size master nthreads m)
        (\<lambda>(_, m). Inr (team\<lparr>fork_working := 0\<rparr>, m)) = Inr (team', m') \<and> fork_size team' = fork_size team \<and>
      fork_members team' = fork_members team \<and> fork_working team' = 0 \<and> manager_ok 0 (F' @ F) m' \<and> same_places (slots m) (slots m')"
    if m: "manager_ok 0 F m" "\<not> idle_slot (slots m master)" "slot_nesting (slots m master) > 0" for team m F
  proof -
    have "team_for teams fresh master m = (fresh, pmp_team_init)" "fork_size pmp_team_init = 0"
        "length (fork_members pmp_team_init) = nat PMP_MAX_THREADS"
      using m(3) by (simp_all add: team_for_def pmp_team_init_def)
    from fork_ok [OF assms(1) m(1,2) _ refl _ this, of nthreads nested_forks default_team_size] obtain team' m' F' where
        "pmp_thread_fork teams fresh work nested_forks default_team_size master nthreads m = Inr (team', m')"
        "manager_ok 0 (F' @ F) m'" "same_places (slots m) (slots m')"
      using assms(2) m(3) by fastforce
    then show ?thesis by auto
  qed
  then show ?thesis unfolding work_ok_def by blast
qed

text \<open>The counters of the master are lost: every operation between the fork and its end keeps them.\<close>

definition counters :: "int \<Rightarrow> pmp_manager \<Rightarrow> 32 word \<times> 32 word" where
  "counters g m = (slot_single (slots m g), slot_loops (slots m g))"

lemma for_loop_keeps:
  assumes "for_loop i n body s = Inr t" and "\<And>i s s'. body i s = Inr s' \<Longrightarrow> g s' = g s"
  shows "g t = g s"
  using assms
proof (induction i n body s rule: for_loop.induct)
  case (1 i n body s)
  show ?case
  proof (cases "i < n")
    case True
    then obtain s1 where s1: "body i s = Inr s1" "for_loop (i + 1) n body s1 = Inr t" using "1.prems"(1) by (auto simp: for_loop_step bindE_eq_Inr_iff)
    from "1.IH" [OF True s1 "1.prems"(2)] show ?thesis using "1.prems"(2) [OF s1(1)] by simp
  qed (use "1.prems"(1) in simp)
qed

lemma acquire_loop_slots: "acquire_loop nthreads count m = Inr (c, m') \<Longrightarrow> slots m' = slots m"
proof (induction nthreads count m rule: acquire_loop.induct)
  case (1 nthreads count m)
  show ?case
  proof (cases "count < nthreads \<and> waiting_threads m < nthreads - count")
    case True
    define k where "k = nthreads - count - waiting_threads m"
    let ?m = "m\<lparr>waiting_threads := waiting_threads m - (nthreads - count) + k\<rparr>"
    obtain d m2 where d: "pmp_manager_create_more_threads k ?m = Inr (d, m2)"
        "(if d = 0 then Inr (count + waiting_threads m, m2) else acquire_loop nthreads (count + waiting_threads m) m2) = Inr (c, m')"
      using "1.prems" True by (subst (asm) acquire_loop.simps) (auto simp: Let_def bindE_eq_Inr_iff k_def)
    have s: "slots m2 = slots m" using create_threads_result d(1) by (fastforce simp: pmp_manager_create_more_threads_def)
    show ?thesis
    proof (cases "d = 0")
      case False
      have "slots m' = slots m2"
        by (rule "1.IH" [OF _ refl refl _ refl refl]) (use True d False in \<open>auto simp: k_def\<close>)
      with s show ?thesis by simp
    qed (use d(2) s in simp)
  next
    case False
    then show ?thesis using "1.prems" by (subst (asm) acquire_loop.simps) (auto simp: Let_def split: if_splits)
  qed
qed

lemma assign_keeps: "pmp_thread_assign team nthreads st = Inr st' \<Longrightarrow> counters g (fst st') = counters g (fst st)"
  unfolding pmp_thread_assign_def
  by (rule for_loop_keeps [where g = "\<lambda>st. counters g (fst st)"], assumption)
    (auto simp: assign_thread_def pmp_idstack_pop_def bindE_eq_Inr_iff counters_def split: if_splits)

lemma release_keeps: "pmp_thread_release master team m = Inr m' \<Longrightarrow> counters g m' = counters g m"
proof -
  assume "pmp_thread_release master team m = Inr m'"
  then obtain m1 where m1: "for_loop 0 (fork_size team - 1) (\<lambda>k. release_thread master (fork_members team) (fork_size team - 1 - k)) m = Inr m1"
      "m' = m1\<lparr>waiting_threads := waiting_threads m1 + (fork_size team - 1)\<rparr>"
    by (auto simp: pmp_thread_release_def Let_def bindE_eq_Inr_iff)
  have "counters g m1 = counters g m"
    by (rule for_loop_keeps [OF m1(1)]) (auto simp: release_thread_def pmp_idstack_push_def bindE_eq_Inr_iff counters_def Let_def split: if_splits)
  then show ?thesis using m1(2) by (simp add: counters_def)
qed

lemma team_alloc_keeps:
  assumes "pmp_team_alloc teams fresh master nthreads m = Inr (name, team, m')"
  shows "counters g m' = counters g m"
proof -
  define m1 where "m1 = m\<lparr>slots := enter_region master (slots m)\<rparr>"
  obtain c m2 mem mem' where "pmp_thread_acquire nthreads m1 = Inr (c, m2)" "pmp_thread_assign name c (m2, mem) = Inr (m', mem')"
    using assms unfolding pmp_team_alloc_def Let_def m1_def [symmetric] by (auto simp: bindE_eq_Inr_iff split: prod.splits)
  then have "slots m2 = slots m1" "counters g m' = counters g m2"
    using acquire_loop_slots assign_keeps [of name c "(m2, mem)" "(m', mem')"] by (auto simp: pmp_thread_acquire_def)
  then show ?thesis by (simp add: counters_def m1_def)
qed

lemma fork_counters:
  assumes fork: "pmp_thread_fork teams fresh work nested_forks default_team_size master nthreads m = Inr (team', m')"
    and work: "\<And>team m team' m'. work team m = Inr (team', m') \<Longrightarrow> counters master m' = counters master m"
  shows "counters master m' = (0, 0)"
proof -
  define m1 where "m1 = m\<lparr>slots := (slots m)(master := (slots m master)\<lparr>slot_local_id := 0, slot_single := 0, slot_loops := 0\<rparr>)\<rparr>"
  obtain n name team m2 team3 m3 m4 m5 where s: "pmp_team_alloc teams fresh master n m1 = Inr (name, team, m2)"
      "work team (m2\<lparr>slots := (slots m2)(master := (slots m2 master)\<lparr>slot_team := Some name\<rparr>)\<rparr>) = Inr (team3, m3)"
      "pmp_thread_release master team3 m3 = Inr m4" "pmp_team_free master team3 m4 = Inr (team', m5)"
      "m' = m5\<lparr>slots := (slots m5)(master := (slots m5 master)\<lparr>slot_team := slot_team (slots m master), slot_local_id := slot_local_id (slots m master)\<rparr>)\<rparr>"
    using fork unfolding pmp_thread_fork_def Let_def m1_def [symmetric] by (auto simp: bindE_eq_Inr_iff)
  have "counters master m' = counters master m5" "counters master m5 = counters master m4" using s(4,5)
    by (auto simp: counters_def pmp_team_free_def bindE_eq_Inr_iff)
  moreover have "counters master m4 = counters master m3" by (rule release_keeps [OF s(3)])
  moreover have "counters master m3 = counters master m2" using work [OF s(2)] by (simp add: counters_def)
  moreover have "counters master m2 = counters master m1" by (rule team_alloc_keeps [OF s(1)])
  ultimately show ?thesis by (simp add: counters_def m1_def)
qed

section \<open>Concurrent acquisition\<close>

text \<open>
  The atomic accesses of \<^verbatim>\<open>__pmp_thread_acquire\<close> and \<^verbatim>\<open>__pmp_manager_create_more_threads\<close> when several masters fork at the same
  time. \<open>A_Loop n c\<close> is the head of the loop with \<open>nthreads = n\<close> and \<open>count = c\<close>, \<open>A_Undo\<close> the addition that gives back what was
  taken too much, \<open>A_Create\<close>, \<open>A_Full\<close> and \<open>A_Start\<close> the creation of threads, \<open>A_Return c\<close> the end with the
  result \<open>c\<close>, and \<open>A_Failed\<close> a failed assertion.
\<close>

datatype acquire_pc = A_Loop int int | A_Undo int int int | A_Create int int int int | A_Full int int int
  | A_Start int int int int | A_Return int | A_Failed

record acquire_state =
  acq_waiting :: int
  acq_allocated :: int
  acq_pcs :: "nat \<Rightarrow> acquire_pc"

definition acquire_step :: "nat \<Rightarrow> acquire_state \<Rightarrow> acquire_state option" where
  "acquire_step i s =
     (case acq_pcs s i of
        A_Loop n count \<Rightarrow>
          if count < n then
            let required = n - count; waiting = acq_waiting s; s' = s\<lparr>acq_waiting := waiting - required\<rparr> in
            Some (s'\<lparr>acq_pcs := (acq_pcs s)(i := if waiting \<ge> required then A_Return (count + required)
                                                else A_Undo n (count + waiting) (required - waiting))\<rparr>)
          else Some (s\<lparr>acq_pcs := (acq_pcs s)(i := A_Return count)\<rparr>)
      | A_Undo n count required \<Rightarrow>
          Some (s\<lparr>acq_waiting := acq_waiting s + required, acq_pcs := (acq_pcs s)(i := A_Create n count required 0)\<rparr>)
      | A_Create n count nthreads created \<Rightarrow>
          if created < nthreads then
            Some (s\<lparr>acq_allocated := acq_allocated s + 1,
              acq_pcs := (acq_pcs s)(i := if acq_allocated s = 0 then A_Failed
                                         else if acq_allocated s \<ge> PMP_MAX_THREADS then A_Full n count created
                                         else A_Start n count nthreads created)\<rparr>)
          else Some (s\<lparr>acq_pcs := (acq_pcs s)(i := if created = 0 then A_Return count else A_Loop n count)\<rparr>)
      | A_Full n count created \<Rightarrow>
          Some (s\<lparr>acq_allocated := acq_allocated s - 1,
            acq_pcs := (acq_pcs s)(i := if created = 0 then A_Return count else A_Loop n count)\<rparr>)
      | A_Start n count nthreads created \<Rightarrow>
          Some (s\<lparr>acq_waiting := acq_waiting s + 1, acq_pcs := (acq_pcs s)(i := A_Create n count nthreads (created + 1))\<rparr>)
      | A_Return count \<Rightarrow> None
      | A_Failed \<Rightarrow> None)"

fun acquire_run :: "nat list \<Rightarrow> acquire_state \<Rightarrow> acquire_state option" where
  "acquire_run [] s = Some s"
| "acquire_run (i # is) s = Option.bind (acquire_step i s) (acquire_run is)"

end
