(* ===== verification/Omp_Sync_Properties.thy ===== *)
theory Omp_Sync_Properties
  imports Omp_Lock Omp_Single Omp_Fork
begin

text \<open>
  The properties of the locks, the critical sections, the \<^verbatim>\<open>single\<close> construct and the acquisition of threads of the OpenMP
  runtime, with runs of the models that reach the situations they speak of.
\<close>

section \<open>Locks\<close>

lemma int_ids: "ids_ok int"
  by (simp add: ids_ok_def)

text \<open>
  C17: mutual exclusion of simple locks: however threads set, test and release one lock, at any moment at most one of
  them holds it, no assertion of \<^verbatim>\<open>__pmp_lock\<close> and \<^verbatim>\<open>__pmp_unlock\<close> fails, the word of the lock says whether it is free, and
  a thread that tries to take a free lock gets it.
\<close>

theorem lock_exclusive:
  assumes "ids_ok ids" and "(lock_users_step ids)\<^sup>*\<^sup>* lock_start s"
  shows "lock_pcs s i \<noteq> Some Lock_Failed \<and> (lock_pcs s i = Some Held \<and> lock_pcs s j = Some Held \<longrightarrow> i = j) \<and>
    (lock_sync s = PMP_SYNC_UNLOCKED \<longleftrightarrow> (\<forall>k. lock_pcs s k \<noteq> Some Held)) \<and>
    (lock_sync s = PMP_SYNC_UNLOCKED \<longrightarrow> fst (pmp_lock (ids i) Try (lock_sync s)) = Held)"
proof -
  have inv: "lock_inv ids s" using lock.inv_reachable [of ids lock_start s] assms by blast
  then have w: "lock_word ids (holders (lock_pcs s)) (lock_sync s)" by (simp add: lock_inv_def)
  then have "lock_sync s = PMP_SYNC_UNLOCKED \<longleftrightarrow> holders (lock_pcs s) = {}" using assms(1) by (auto simp: lock_word_def)
  moreover have "holders (lock_pcs s) = {} \<longleftrightarrow> (\<forall>k. lock_pcs s k \<noteq> Some Held)" by (auto simp: holders_def)
  ultimately show ?thesis
    using inv one_holder [OF w, of i j] lock_free_step(1) [OF assms(1), of "lock_sync s" i] w by (auto simp: lock_inv_def)
qed

text \<open>Thread 0 takes the lock, thread 1 waits for it.\<close>

definition contended_lock :: lock_state where
  "contended_lock = \<lparr>lock_sync = 0, lock_pcs = (\<lambda>_. None)(0 := Some Held, 1 := Some Poll)\<rparr>"

lemma contended_lock_reached: "(lock_users_step int)\<^sup>*\<^sup>* lock_start contended_lock"
proof -
  let ?s1 = "lock_start\<lparr>lock_pcs := (lock_pcs lock_start)(0 := Some Try)\<rparr>"
  let ?s2 = "\<lparr>lock_sync = 0, lock_pcs = (lock_pcs ?s1)(0 := Some Held)\<rparr>"
  let ?s3 = "?s2\<lparr>lock_pcs := (lock_pcs ?s2)(1 := Some Try)\<rparr>"
  have "lock_use int 0 lock_start ?s1" by (rule set_lock) (simp add: lock_start_def)
  moreover have "lock_use int 0 ?s1 ?s2"
    by (rule spin_lock [of _ _ Try]) (simp_all add: pmp_lock_def cmpxchg32_def PMP_SYNC_UNLOCKED_def lock_start_def pmp_lock_init_def)
  moreover have "lock_use int 1 ?s2 ?s3" by (rule set_lock) (simp add: lock_start_def)
  moreover have "lock_use int 1 ?s3 \<lparr>lock_sync = 0, lock_pcs = (lock_pcs ?s3)(1 := Some Poll)\<rparr>"
    by (rule spin_lock [of _ _ Try]) (simp_all add: pmp_lock_def cmpxchg32_def PMP_SYNC_UNLOCKED_def)
  moreover have "\<lparr>lock_sync = 0, lock_pcs = (lock_pcs ?s3)(1 := Some Poll)\<rparr> = contended_lock"
    by (simp add: contended_lock_def lock_start_def)
  ultimately have "lock_users_step int lock_start ?s1" "lock_users_step int ?s1 ?s2" "lock_users_step int ?s2 ?s3"
      "lock_users_step int ?s3 contended_lock" unfolding lock_users_step_def by metis+
  then show ?thesis by (meson converse_rtranclp_into_rtranclp rtranclp.rtrancl_refl)
qed

theorem lock_exclusive_witness:
  "(lock_users_step int)\<^sup>*\<^sup>* lock_start contended_lock \<and> lock_pcs contended_lock 0 = Some Held \<and> lock_pcs contended_lock 1 \<noteq> Some Held \<and>
    lock_sync contended_lock \<noteq> PMP_SYNC_UNLOCKED"
proof -
  have "lock_pcs contended_lock 0 = Some Held" by (simp add: contended_lock_def)
  then show ?thesis
    using lock_exclusive [OF int_ids contended_lock_reached, of 0 1] contended_lock_reached by auto
qed





section \<open>Critical sections\<close>

text \<open>
  C18: critical sections: from the first use of a critical section on, when several threads may find the pointer to its lock
  null and create one each, at most one thread is inside the section at any moment; every thread that waits or is inside uses the
  one lock that has been installed, no thread uses a lock that has been freed, no assertion fails, and every other lock in
  memory belongs to a thread that has yet to install or free it, so none is leaked.
\<close>

theorem critical_exclusive:
  assumes "ids_ok ids" and "(critical_team_step ids)\<^sup>*\<^sup>* critical_start s"
  shows "crit_pcs s i \<noteq> C_Failed \<and> crit_pcs s i \<noteq> C_Lock l Lock_Failed \<and>
    (crit_pcs s i = C_Lock l pc \<longrightarrow> lock_ptr s = Some l \<and> lock_heap s l \<noteq> None) \<and>
    (crit_pcs s i = C_Lock l Held \<and> crit_pcs s j = C_Lock l' Held \<longrightarrow> i = j) \<and>
    (l \<in> dom (lock_heap s) \<longrightarrow> lock_ptr s = Some l \<or> (\<exists>k. crit_pcs s k = C_Made l))"
proof -
  have inv: "critical_inv ids s" using critical.inv_reachable [of ids critical_start s] assms by blast
  note D = critical_invD [OF inv]
  have "i = j" if held: "crit_pcs s i = C_Lock l Held" "crit_pcs s j = C_Lock l' Held"
  proof -
    obtain w where "lock_word ids (inside (crit_pcs s)) w" using D(5) [OF D(4) [OF held(1)]] by blast
    then show ?thesis using one_holder held by (metis inside_iff)
  qed
  moreover have "lock_ptr s = Some l \<and> lock_heap s l \<noteq> None" if "crit_pcs s i = C_Lock l pc" using D(4) [OF that] D(5) by fastforce
  moreover have "lock_ptr s = Some l \<or> (\<exists>k. crit_pcs s k = C_Made l)" if "l \<in> dom (lock_heap s)" using D(8) that by (auto simp: made_def)
  ultimately show ?thesis using D(2,3) by blast
qed

text \<open>Two threads create a lock each; thread 0 installs its lock and enters, thread 1 has lost the race.\<close>

definition critical_race :: critical_state where
  "critical_race = \<lparr>lock_ptr = Some 7, lock_heap = [7 \<mapsto> 0], crit_pcs = (\<lambda>_. C_Out)(0 := C_Lock 7 Held, 1 := C_Lock 7 Try)\<rparr>"

lemma critical_race_reached: "(critical_team_step int)\<^sup>*\<^sup>* critical_start critical_race"
proof -
  let ?st = "\<lambda>ptr heap p q. \<lparr>lock_ptr = ptr, lock_heap = heap, crit_pcs = (\<lambda>_. C_Out)(0 := p, 1 := q)\<rparr>"
  let ?u = pmp_lock_init
  have start: "critical_start = ?st None Map.empty C_Out C_Out" by (simp add: critical_start_def fun_upd_idem)
  have "critical_step int 0 critical_start (?st None [7 \<mapsto> ?u] (C_Made 7) C_Out)"
    using make_lock [of critical_start 0 7 int] by (simp add: start fun_upd_twist)
  moreover have "critical_step int 1 (?st None [7 \<mapsto> ?u] (C_Made 7) C_Out) (?st None [7 \<mapsto> ?u, 9 \<mapsto> ?u] (C_Made 7) (C_Made 9))"
    using make_lock [of "?st None [7 \<mapsto> ?u] (C_Made 7) C_Out" 1 9 int] by simp
  moreover have "critical_step int 0 (?st None [7 \<mapsto> ?u, 9 \<mapsto> ?u] (C_Made 7) (C_Made 9)) (?st (Some 7) [7 \<mapsto> ?u, 9 \<mapsto> ?u] (C_Lock 7 Try) (C_Made 9))"
    using install_lock [of "?st None [7 \<mapsto> ?u, 9 \<mapsto> ?u] (C_Made 7) (C_Made 9)" 0 7 int] by (simp add: fun_upd_twist)
  moreover have "critical_step int 1 (?st (Some 7) [7 \<mapsto> ?u, 9 \<mapsto> ?u] (C_Lock 7 Try) (C_Made 9)) (?st (Some 7) [7 \<mapsto> ?u] (C_Lock 7 Try) (C_Lock 7 Try))"
    using lose_race [of "?st (Some 7) [7 \<mapsto> ?u, 9 \<mapsto> ?u] (C_Lock 7 Try) (C_Made 9)" 1 9 7 int] by (simp add: fun_upd_twist)
  moreover have "critical_step int 0 (?st (Some 7) [7 \<mapsto> ?u] (C_Lock 7 Try) (C_Lock 7 Try)) critical_race"
    using take_lock [of "?st (Some 7) [7 \<mapsto> ?u] (C_Lock 7 Try) (C_Lock 7 Try)" 0 7 Try ?u int Held 0]
    by (simp add: critical_race_def pmp_lock_def cmpxchg32_def PMP_SYNC_UNLOCKED_def pmp_lock_init_def fun_upd_twist)
  ultimately have "critical_team_step int critical_start (?st None [7 \<mapsto> ?u] (C_Made 7) C_Out)"
      "critical_team_step int (?st None [7 \<mapsto> ?u] (C_Made 7) C_Out) (?st None [7 \<mapsto> ?u, 9 \<mapsto> ?u] (C_Made 7) (C_Made 9))"
      "critical_team_step int (?st None [7 \<mapsto> ?u, 9 \<mapsto> ?u] (C_Made 7) (C_Made 9)) (?st (Some 7) [7 \<mapsto> ?u, 9 \<mapsto> ?u] (C_Lock 7 Try) (C_Made 9))"
      "critical_team_step int (?st (Some 7) [7 \<mapsto> ?u, 9 \<mapsto> ?u] (C_Lock 7 Try) (C_Made 9)) (?st (Some 7) [7 \<mapsto> ?u] (C_Lock 7 Try) (C_Lock 7 Try))"
      "critical_team_step int (?st (Some 7) [7 \<mapsto> ?u] (C_Lock 7 Try) (C_Lock 7 Try)) critical_race"
    unfolding critical_team_step_def by blast+
  then show ?thesis by (meson converse_rtranclp_into_rtranclp rtranclp.rtrancl_refl)
qed

theorem critical_exclusive_witness:
  "(critical_team_step int)\<^sup>*\<^sup>* critical_start critical_race \<and> crit_pcs critical_race 0 = C_Lock 7 Held \<and>
    crit_pcs critical_race 1 \<noteq> C_Lock 7 Held \<and> lock_heap critical_race 7 \<noteq> None"
proof -
  have "crit_pcs critical_race 0 = C_Lock 7 Held" by (simp add: critical_race_def)
  then show ?thesis using critical_exclusive [OF int_ids critical_race_reached, of 0 7 Held 1 7] critical_race_reached by auto
qed

section \<open>Single\<close>

text \<open>
  C21: the block of a \<^verbatim>\<open>single\<close> construct is executed by exactly one thread: when the threads of a team run through fewer than
  \<open>2\<^sup>32\<close> constructs, in whatever order they arrive and however far one is ahead of another, each construct that some thread has met
  has been given to one thread of the team that has met it, and no other construct has been given to any thread.
\<close>

theorem single_one_winner:
  assumes "0 < t" and "k < 2 ^ 32" and "(single_step t k)\<^sup>*\<^sup>* single_start s"
  shows "((\<exists>i < t. n < met s i) \<longrightarrow> (\<exists>i < t. winners s n = [i] \<and> n < met s i)) \<and>
    (\<not> (\<exists>i < t. n < met s i) \<longrightarrow> winners s n = [])"
proof -
  have "single_inv t k s" using single.inv_reachable [of t k single_start s] assms by blast
  then obtain M where ok: "single_ok t k M s" by (auto simp: single_inv_def)
  then have w: "length (winners s n) = (if n < M then 1 else 0)" "\<And>i. i \<in> set (winners s n) \<Longrightarrow> i < t \<and> n < met s i"
      "\<And>i. i < t \<Longrightarrow> met s i \<le> M"
    by (auto simp: single_ok_def)
  have "n < M" if "i < t" "n < met s i" for i using w(3) [OF that(1)] that(2) by simp
  moreover have "\<exists>i < t. winners s n = [i] \<and> n < met s i" if "n < M"
    using w(1,2) that by (cases "winners s n") auto
  ultimately show ?thesis using w(1) by fastforce
qed

definition single_example :: single_state where
  "single_example = single_call 2 1 (single_call 2 0 (single_call 2 1 single_start))"

theorem single_one_winner_witness:
  "(single_step 2 5)\<^sup>*\<^sup>* single_start single_example \<and> met single_example 0 = 1 \<and> met single_example 1 = 2 \<and>
    (\<exists>i < 2. winners single_example 0 = [i]) \<and> winners single_example 2 = []"
proof -
  have s: "met single_example 0 = 1" "met single_example 1 = 2"
    by (simp_all add: single_example_def single_call_def single_start_def pmp_thread_single_def Let_def)
  have "single_step 2 5 single_start (single_call 2 1 single_start)"
      "single_step 2 5 (single_call 2 1 single_start) (single_call 2 0 (single_call 2 1 single_start))"
      "single_step 2 5 (single_call 2 0 (single_call 2 1 single_start)) single_example"
    unfolding single_step_def single_example_def
    by (rule exI [of _ 1] exI [of _ 0], simp add: single_call_def single_start_def pmp_thread_single_def Let_def)+
  then have run: "(single_step 2 5)\<^sup>*\<^sup>* single_start single_example" by (meson converse_rtranclp_into_rtranclp rtranclp.rtrancl_refl)
  have "\<not> (\<exists>i < 2. 2 < met single_example i)" using s less_2_cases by force
  moreover have "\<exists>i < 2. 0 < met single_example i" using s by (intro exI [of _ 0]) simp
  ultimately show ?thesis
    using single_one_winner [OF _ _ run, of 0] single_one_winner [OF _ _ run, of 2] s run by auto
qed

section \<open>Forks\<close>

text \<open>
  C20: the team of a fork: \<^verbatim>\<open>__pmp_team_alloc\<close> succeeds and forms a team of the requested size, or as large as the threads that wait
  for work and those that can still be created allow; its workers are different threads that exist and were in no team, and worker
  \<open>k\<close> now has place \<open>k\<close> of this team.
\<close>

theorem team_formed:
  assumes "manager_ok 0 F m" and "1 \<le> nthreads" and "team_for teams fresh master m = (name, team)" and "fork_size team = 0"
    and "length (fork_members team) = nat PMP_MAX_THREADS" and "\<not> idle_slot (slots m master)"
  shows "\<exists>P m'. pmp_team_alloc teams fresh master nthreads m = Inr (name, formed_team master P team, m') \<and>
    1 + int (length P) = min nthreads (1 + waiting_threads m + (PMP_MAX_THREADS - allocated_threads m)) \<and> distinct (master # P) \<and>
    (\<forall>k < length P. idle_slot (slots m (P ! k)) \<and> P ! k < allocated_threads m' \<and>
      slot_local_id (slots m' (P ! k)) = int k + 1 \<and> slot_team (slots m' (P ! k)) = Some name)"
proof -
  obtain P F0 m' where P: "pmp_team_alloc teams fresh master nthreads m = Inr (name, formed_team master P team, m')"
      "1 + int (length P) = min nthreads (1 + int (length F) + (PMP_MAX_THREADS - allocated_threads m))" "distinct (F0 @ rev P)"
      "\<forall>g \<in> set P. 0 < g \<and> g < allocated_threads m' \<and> idle_slot (slots m g)" "slots m' = assign_slots name 1 P (enter_region master (slots m))"
    using team_alloc_ok [OF assms(1-5)] by blast
  have "distinct (master # P)" using P(3,4) assms(6) by auto
  moreover have "idle_slot (slots m (P ! k)) \<and> P ! k < allocated_threads m' \<and>
      slot_local_id (slots m' (P ! k)) = int k + 1 \<and> slot_team (slots m' (P ! k)) = Some name" if "k < length P" for k
    using P(3-5) that assign_slots_nth [of P k name 1 "enter_region master (slots m)"] by simp
  moreover have "waiting_threads m = int (length F)" using manager_okD(10) [OF assms(1)] by simp
  ultimately show ?thesis using P(1,2) by auto
qed

theorem team_formed_witness:
  "\<exists>m. pmp_manager_create_main_thread pmp_manager_init = Inr m \<and>
    (\<exists>P m'. pmp_team_alloc (\<lambda>_. (0, pmp_team_init)) 1 0 4 m = Inr (0, formed_team 0 P pmp_team_init, m') \<and> distinct (0 # P) \<and>
      1 + int (length P) = min 4 (1 + waiting_threads m + (PMP_MAX_THREADS - allocated_threads m)))"
proof -
  obtain m where m: "pmp_manager_create_main_thread pmp_manager_init = Inr m" "manager_ok 0 [] m" "\<not> idle_slot (slots m 0)"
      "slot_nesting (slots m 0) = 0"
    using start_up_ok by blast
  have t: "team_for (\<lambda>_. (0, pmp_team_init)) 1 0 m = (0, pmp_team_init)" "fork_size pmp_team_init = 0"
      "length (fork_members pmp_team_init) = nat PMP_MAX_THREADS"
    using m(4) by (simp_all add: team_for_def pmp_team_init_def)
  show ?thesis using team_formed [OF m(2) _ t m(3), of 4] m(1) by auto
qed

text \<open>
  C19: a fork and its join are a round trip: when the work of a region ends and gives back the threads it uses, then so does the whole
  \<^verbatim>\<open>__pmp_thread_fork\<close>: it succeeds, every thread has its place, team and nesting depth back, the team can be used
  again, and the manager is consistent: each thread outside a team is on the stack of identifiers once and is counted as waiting, so no
  thread is lost.
\<close>

theorem fork_join:
  assumes "work_ok master work" and "manager_ok 0 F m" and "\<not> idle_slot (slots m master)" and "0 \<le> slot_nesting (slots m master)"
    and "1 \<le> (if nthreads = 0 then pmp_get_new_team_size nested_forks default_team_size (slot_team (slots m master)) else nthreads)"
    and "team_for teams fresh master m = (name, team)" and "fork_size team = 0" and "length (fork_members team) = nat PMP_MAX_THREADS"
  shows "\<exists>team' m' F'. pmp_thread_fork teams fresh work nested_forks default_team_size master nthreads m = Inr (team', m') \<and>
    fork_size team' = 0 \<and> length (fork_members team') = nat PMP_MAX_THREADS \<and> manager_ok 0 (F' @ F) m' \<and> same_places (slots m) (slots m')"
  using fork_ok [OF assms(1-4) refl assms(5-8)] .

text \<open>Work that does not use the runtime.\<close>

definition plain_work :: "fork_team \<Rightarrow> pmp_manager \<Rightarrow> (fork_team \<times> pmp_manager) res" where
  "plain_work team m = Inr (team\<lparr>fork_working := 0\<rparr>, m)"

lemma plain_work_ok: "work_ok master plain_work"
proof -
  have "same_places f f" for f by (simp add: same_places_def)
  moreover have "manager_ok 0 F m \<Longrightarrow> manager_ok 0 ([] @ F) m" for F m by simp
  ultimately show ?thesis unfolding work_ok_def plain_work_def by (metis (no_types, lifting) fork_team.select_convs(1,2,3) fork_team.surjective fork_team.update_convs(3))
qed

text \<open>The main thread forks with the default team size, and forks again in the region.\<close>

definition nested_work :: "fork_team \<Rightarrow> pmp_manager \<Rightarrow> (fork_team \<times> pmp_manager) res" where
  "nested_work team m = bindE (pmp_thread_fork (\<lambda>_. (0, pmp_team_init)) 1 plain_work True 4 0 3 m)
     (\<lambda>(_, m). Inr (team\<lparr>fork_working := 0\<rparr>, m))"

theorem fork_join_witness:
  "\<exists>m team' m' F'. pmp_manager_create_main_thread pmp_manager_init = Inr m \<and>
    pmp_thread_fork (\<lambda>_. (0, pmp_team_init)) 1 nested_work True 4 0 0 m = Inr (team', m') \<and> manager_ok 0 F' m' \<and> same_places (slots m) (slots m')"
proof -
  obtain m where m: "pmp_manager_create_main_thread pmp_manager_init = Inr m" "manager_ok 0 [] m" "\<not> idle_slot (slots m 0)"
      "slot_nesting (slots m 0) = 0"
    using start_up_ok by blast
  have t: "team_for (\<lambda>_. (0, pmp_team_init)) 1 0 m = (0, pmp_team_init)" "fork_size pmp_team_init = 0"
      "length (fork_members pmp_team_init) = nat PMP_MAX_THREADS"
    using m(4) by (simp_all add: team_for_def pmp_team_init_def)
  have "work_ok 0 nested_work" using nested_fork_ok [OF plain_work_ok, of 3 0 "\<lambda>_. (0, pmp_team_init)" 1 True 4] unfolding nested_work_def by simp
  from fork_join [OF this m(2,3) _ _ t, of 0 True 4] show ?thesis using m by (auto simp: pmp_get_new_team_size_def)
qed

text \<open>
  C23: the counters of a thread do not survive a nested region: after a fork by a thread of a team, whatever the counts of \<^verbatim>\<open>single\<close> constructs
  and of loops that the thread has met before, both are zero, unless the work of the nested region changes them. If the team of the
  outer region, of more than one thread, has been through a \<^verbatim>\<open>single\<close> construct, the thread does not get the next one; where every thread of
  the team does this no thread executes the block.
\<close>

theorem nested_fork_loses_counters:
  assumes "pmp_thread_fork teams fresh work nested_forks default_team_size master nthreads m = Inr (team', m')"
    and "\<And>team m team' m'. work team m = Inr (team', m') \<Longrightarrow> counters master m' = counters master m"
    and "outer_size \<noteq> 1" and "team_count \<noteq> 0"
  shows "slot_single (slots m' master) = 0 \<and> slot_loops (slots m' master) = 0 \<and>
    pmp_thread_single outer_size (slot_single (slots m' master)) team_count = (False, 1, team_count)"
  using fork_counters [OF assms(1,2)] assms(3,4) by (simp add: counters_def pmp_thread_single_def)

text \<open>The main thread in a region of two threads, after one construct: it has met one, and so has the team.\<close>

theorem nested_fork_loses_counters_witness:
  "\<exists>m m0 team' m'. pmp_manager_create_main_thread pmp_manager_init = Inr m \<and>
    m0 = m\<lparr>slots := (slots m)(0 := (slots m 0)\<lparr>slot_nesting := 1, slot_team := Some 0, slot_single := 1\<rparr>)\<rparr> \<and>
    pmp_thread_single 2 (slot_single (slots m0 0)) 1 = (True, 2, 2) \<and>
    pmp_thread_fork (\<lambda>_. (0, pmp_team_init)) 1 plain_work True 4 0 3 m0 = Inr (team', m') \<and>
    pmp_thread_single 2 (slot_single (slots m' 0)) 1 = (False, 1, 1)"
proof -
  obtain m where m: "pmp_manager_create_main_thread pmp_manager_init = Inr m" "manager_ok 0 [] m" "\<not> idle_slot (slots m 0)"
    using start_up_ok by blast
  define m0 where "m0 = m\<lparr>slots := (slots m)(0 := (slots m 0)\<lparr>slot_nesting := 1, slot_team := Some 0, slot_single := 1\<rparr>)\<rparr>"
  have "manager_ok 0 [] m0" unfolding m0_def by (rule manager_ok_slots [OF m(2)]) (use m(3) manager_okD(9) [OF m(2)] in auto)
  moreover have "\<not> idle_slot (slots m0 0)" "0 \<le> slot_nesting (slots m0 0)" by (simp_all add: m0_def idle_slot_def)
  moreover have "team_for (\<lambda>_. (0, pmp_team_init)) 1 0 m0 = (1, pmp_team_init)" "fork_size pmp_team_init = 0"
      "length (fork_members pmp_team_init) = nat PMP_MAX_THREADS"
    by (simp_all add: team_for_def pmp_team_init_def m0_def)
  ultimately obtain team' m' where f: "pmp_thread_fork (\<lambda>_. (0, pmp_team_init)) 1 plain_work True 4 0 3 m0 = Inr (team', m')"
    using fork_ok [OF plain_work_ok _ _ _ refl, of "[]" m0 0 3 True 4] by fastforce
  have keep: "counters 0 m' = counters 0 m" if "plain_work team m = Inr (team', m')" for team m team' m'
    using that by (simp add: plain_work_def)
  have "pmp_thread_single 2 (slot_single (slots m' 0)) 1 = (False, 1, 1)"
    by (rule nested_fork_loses_counters [OF f, THEN conjunct2, THEN conjunct2]) (use keep in auto)
  then show ?thesis using m(1) m0_def f by (auto simp: pmp_thread_single_def)
qed

text \<open>
  C24: threads are acquired without a lock, and two forks at the same time can disturb each other: with all threads created and \<open>w\<close> of them
  waiting, a master that takes more than \<open>w\<close> makes the number of waiting threads negative until it gives the rest back;
  a second master that reads the number in between adds it to its own count, and its \<^verbatim>\<open>__pmp_thread_acquire\<close> returns zero or a negative
  number of threads, against the assertion of \<^verbatim>\<open>__pmp_team_alloc\<close>, although the master itself is always available.
\<close>

theorem acquire_race:
  assumes "0 \<le> w" and "w + 2 \<le> n0" and "2 \<le> n1" and "acq_waiting s = w" and "acq_allocated s = PMP_MAX_THREADS"
    and "acq_pcs s 0 = A_Loop n0 1" and "acq_pcs s 1 = A_Loop n1 1"
  shows "\<exists>s'. acquire_run [0, 1, 1, 1, 1] s = Some s' \<and> acq_pcs s' 1 = A_Return (w + 2 - n0) \<and> w + 2 - n0 \<le> 0"
  using assms by (simp add: acquire_step_def Let_def max_ids)

theorem acquire_race_witness:
  "\<exists>s'. acquire_run [0, 1, 1, 1, 1]
      \<lparr>acq_waiting = 1, acq_allocated = 256, acq_pcs = (\<lambda>_. A_Return 1)(0 := A_Loop 4 1, 1 := A_Loop 3 1)\<rparr> = Some s' \<and> acq_pcs s' 1 = A_Return (- 1)"
  using acquire_race [of 1 4 3 "\<lparr>acq_waiting = 1, acq_allocated = 256, acq_pcs = (\<lambda>_. A_Return 1)(0 := A_Loop 4 1, 1 := A_Loop 3 1)\<rparr>"]
  by (simp add: max_ids)

end
