(* ===== verification/Memory_Pool.thy ===== *)
theory Memory_Pool
  imports Path64_Prelude
begin

text \<open>
  The memory pools of the compiler (\<^verbatim>\<open>common/util/memory.c\<close>, \<^verbatim>\<open>mempool.h\<close>): stacks of allocation levels, each with a list of blocks
  from which small objects are cut and a doubly linked list of large objects. A level shares the block it was pushed
  on with the level below. The model keeps the headers of these structures in stores indexed by address, as the code
  does, and the contents of memory byte by byte. It is the checking build on a 64-bit machine without tracing and
  Valgrind's view of memory, except for the red zones. The parts of the operations under the purify option are in \<^verbatim>\<open>Memory_Purify\<close>.
\<close>

section \<open>State\<close>

text \<open>The structures of \<^verbatim>\<open>memory.c\<close>. Addresses and sizes are integers; the address 0 is \<^verbatim>\<open>NULL\<close>.\<close>

record mem_block =
  mb_avail :: int
  mb_ptr :: int
  mb_rest :: int

record mem_large_block =
  lb_next :: int
  lb_prev :: int
  lb_base :: int
  lb_ptr :: int

record mem_pool_blocks =
  pb_block :: int
  pb_large :: int
  pb_base_block :: int
  pb_base_ptr :: int
  pb_base_avail :: int
  pb_rest :: int

record mem_pool =
  pool_blocks :: int
  pool_bz :: bool
  pool_frozen :: bool
  pool_magic :: int

text \<open>
  \<open>sys\<close> are the areas the C library has given out, with their sizes, and the static variables of the package. The other
  stores hold the headers of the structures by address, \<open>bytes\<close> what is stored outside headers.
\<close>

record mem_state =
  sys :: "(int \<times> int) list"
  bytes :: "int \<Rightarrow> 8 word"
  mem_blocks :: "int \<rightharpoonup> mem_block"
  large_blocks :: "int \<rightharpoonup> mem_large_block"
  pool_levels :: "int \<rightharpoonup> mem_pool_blocks"
  mem_pools :: "int \<Rightarrow> mem_pool"
  free_mem_pool_blocks_list :: int
  The_Default_Mem_Pool :: int
  redzone_size :: int

text \<open>The functions \<^verbatim>\<open>malloc\<close> and \<^verbatim>\<open>realloc\<close> of the C library, which choose addresses by the areas given out; 0 is failure.\<close>

record os_heap =
  os_malloc :: "(int \<times> int) list \<Rightarrow> int \<Rightarrow> int"
  os_realloc :: "(int \<times> int) list \<Rightarrow> int \<Rightarrow> int \<Rightarrow> int"

section \<open>Constants\<close>

definition BLOCK_SIZE :: int where
  "BLOCK_SIZE = 0x2000"

definition MIN_LARGE_BLOCK_SIZE :: int where
  "MIN_LARGE_BLOCK_SIZE = 0x800"

definition MAGIC_NUM :: int where
  "MAGIC_NUM = 0xabcd"

definition Default_Mem_Pool :: int where
  "Default_Mem_Pool = 0"

definition Malloc_Mem_Pool :: int where
  "Malloc_Mem_Pool = 1"

text \<open>The addresses of the static variables \<^verbatim>\<open>mem_overhead_pool\<close> and \<^verbatim>\<open>overhead_blocks\<close>.\<close>

definition mem_overhead_pool :: int where
  "mem_overhead_pool = 2"

definition overhead_blocks :: int where
  "overhead_blocks = 8"

text \<open>The mask of \<^verbatim>\<open>PAD_TO_ALIGN\<close> has the type \<^verbatim>\<open>unsigned int\<close>, so its upper half is zero.\<close>

definition PAD_TO_ALIGN :: "64 word \<Rightarrow> 64 word" where
  "PAD_TO_ALIGN sz = (sz + 7) AND 0xFFFFFFF8"

text \<open>The sizes of the headers, three, four and six pointers.\<close>

definition MEM_BLOCK_OVERHEAD :: int where
  "MEM_BLOCK_OVERHEAD = 24"

definition MEM_LARGE_BLOCK_OVERHEAD :: int where
  "MEM_LARGE_BLOCK_OVERHEAD = 32"

definition sizeof_MEM_POOL_BLOCKS :: "64 word" where
  "sizeof_MEM_POOL_BLOCKS = 48"

definition u64 :: "int \<Rightarrow> int" where
  "u64 x = x mod 18446744073709551616"

section \<open>The C library\<close>

definition c_malloc :: "os_heap \<Rightarrow> int \<Rightarrow> mem_state \<Rightarrow> (int \<times> mem_state) res" where
  "c_malloc os n st = (let a = os_malloc os (sys st) n in if a = 0 then Inl No_Memory else Inr (a, st\<lparr>sys := (a, n) # sys st\<rparr>))"

definition c_free :: "int \<Rightarrow> mem_state \<Rightarrow> mem_state res" where
  "c_free a st = (if a \<in> fst ` set (sys st) then Inr (st\<lparr>sys := filter (\<lambda>(b, _). b \<noteq> a) (sys st)\<rparr>) else Inl Bad_Free)"

text \<open>An access of \<open>n\<close> bytes at \<open>a\<close> has to lie in one area.\<close>

definition in_sys :: "mem_state \<Rightarrow> int \<Rightarrow> int \<Rightarrow> bool" where
  "in_sys st a n \<longleftrightarrow> n = 0 \<or> (\<exists>(b, m) \<in> set (sys st). b \<le> a \<and> a + n \<le> b + m)"

definition fill :: "int \<Rightarrow> int \<Rightarrow> 8 word \<Rightarrow> mem_state \<Rightarrow> mem_state res" where
  "fill a n v st = (if in_sys st a n then Inr (st\<lparr>bytes := (\<lambda>x. if a \<le> x \<and> x < a + n then v else bytes st x)\<rparr>) else Inl Out_Of_Bounds)"

definition bcopy :: "int \<Rightarrow> int \<Rightarrow> int \<Rightarrow> mem_state \<Rightarrow> mem_state res" where
  "bcopy src dst n st =
     (if in_sys st src n \<and> in_sys st dst n
      then Inr (st\<lparr>bytes := (\<lambda>x. if dst \<le> x \<and> x < dst + n then bytes st (src + (x - dst)) else bytes st x)\<rparr>) else Inl Out_Of_Bounds)"

section \<open>Reading and writing headers\<close>

definition get_block :: "mem_state \<Rightarrow> int \<Rightarrow> mem_block res" where
  "get_block st b = (case mem_blocks st b of None \<Rightarrow> Inl Out_Of_Bounds | Some blk \<Rightarrow> Inr blk)"

definition get_large :: "mem_state \<Rightarrow> int \<Rightarrow> mem_large_block res" where
  "get_large st a = (case large_blocks st a of None \<Rightarrow> Inl Out_Of_Bounds | Some l \<Rightarrow> Inr l)"

definition get_level :: "mem_state \<Rightarrow> int \<Rightarrow> mem_pool_blocks res" where
  "get_level st pb = (case pool_levels st pb of None \<Rightarrow> Inl Out_Of_Bounds | Some r \<Rightarrow> Inr r)"

definition set_block :: "int \<Rightarrow> mem_block \<Rightarrow> mem_state \<Rightarrow> mem_state" where
  "set_block b blk st = st\<lparr>mem_blocks := (mem_blocks st)(b \<mapsto> blk)\<rparr>"

definition set_large :: "int \<Rightarrow> mem_large_block \<Rightarrow> mem_state \<Rightarrow> mem_state" where
  "set_large a l st = st\<lparr>large_blocks := (large_blocks st)(a \<mapsto> l)\<rparr>"

definition set_level :: "int \<Rightarrow> mem_pool_blocks \<Rightarrow> mem_state \<Rightarrow> mem_state" where
  "set_level pb r st = st\<lparr>pool_levels := (pool_levels st)(pb \<mapsto> r)\<rparr>"

definition set_pool :: "int \<Rightarrow> mem_pool \<Rightarrow> mem_state \<Rightarrow> mem_state" where
  "set_pool p pool st = st\<lparr>mem_pools := (mem_pools st)(p := pool)\<rparr>"

text \<open>\<^verbatim>\<open>Default_Mem_Pool\<close> and \<^verbatim>\<open>Malloc_Mem_Pool\<close> are not the addresses of pools.\<close>

definition pool_of :: "mem_state \<Rightarrow> int \<Rightarrow> mem_pool res" where
  "pool_of st p = (if p = Default_Mem_Pool \<or> p = Malloc_Mem_Pool then Inl Out_Of_Bounds else Inr (mem_pools st p))"

definition resolve_pool :: "mem_state \<Rightarrow> int \<Rightarrow> int" where
  "resolve_pool st p = (if p = Default_Mem_Pool then The_Default_Mem_Pool st else p)"

section \<open>Allocation\<close>

definition Allocate_Block :: "os_heap \<Rightarrow> int \<Rightarrow> mem_state \<Rightarrow> (int \<times> mem_state) res" where
  "Allocate_Block os p st =
     (let n = BLOCK_SIZE + MEM_BLOCK_OVERHEAD; pool = mem_pools st p in
      bindE (c_malloc os n st) (\<lambda>(block, st).
      bindE (fill block n (if pool_bz pool then 0 else 0xa5) st) (\<lambda>st.
      bindE (get_level st (pool_blocks pool)) (\<lambda>r.
      let st = set_block block \<lparr>mb_avail = BLOCK_SIZE, mb_ptr = block + MEM_BLOCK_OVERHEAD, mb_rest = pb_block r\<rparr> st in
      Inr (block, set_level (pool_blocks pool) (r\<lparr>pb_block := block\<rparr>) st)))))"

definition Allocate_Large_Block :: "os_heap \<Rightarrow> int \<Rightarrow> int \<Rightarrow> mem_state \<Rightarrow> (int \<times> mem_state) res" where
  "Allocate_Large_Block os p sz st =
     (let sz = s32 (sz + MEM_LARGE_BLOCK_OVERHEAD); pool = mem_pools st p in
      bindE (c_malloc os (u64 sz) st) (\<lambda>(block, st).
      bindE (fill block (u64 sz) (if pool_bz pool then 0 else 0xa5) st) (\<lambda>st.
      bindE (get_level st (pool_blocks pool)) (\<lambda>r.
      let next = pb_large r;
          st = set_large block \<lparr>lb_next = next, lb_prev = 0, lb_base = pool_blocks pool, lb_ptr = block + MEM_LARGE_BLOCK_OVERHEAD\<rparr> st in
      bindE (if next \<noteq> 0 then bindE (get_large st next) (\<lambda>l. Inr (set_large next (l\<lparr>lb_prev := block\<rparr>) st)) else Inr st) (\<lambda>st.
      Inr (block + MEM_LARGE_BLOCK_OVERHEAD, set_level (pool_blocks pool) (r\<lparr>pb_large := block\<rparr>) st))))))"

text \<open>The comparison of the available bytes with the signed \<open>sz\<close> is one of unsigned 64-bit numbers.\<close>

definition block_for :: "os_heap \<Rightarrow> int \<Rightarrow> int \<Rightarrow> mem_state \<Rightarrow> (int \<times> mem_state) res" where
  "block_for os p sz st =
     bindE (get_level st (pool_blocks (mem_pools st p))) (\<lambda>r.
     let b = pb_block r in
     if b = 0 then Allocate_Block os p st
     else bindE (get_block st b) (\<lambda>blk. if mb_avail blk < u64 sz then Allocate_Block os p st else Inr (b, st)))"

definition Raw_Allocate :: "os_heap \<Rightarrow> int \<Rightarrow> int \<Rightarrow> mem_state \<Rightarrow> (int \<times> mem_state) res" where
  "Raw_Allocate os p sz st =
     (if sz \<le> MIN_LARGE_BLOCK_SIZE then
        bindE (block_for os p sz st) (\<lambda>(b, st).
        bindE (get_block st b) (\<lambda>blk.
        let r = redzone_size st in
        Inr (mb_ptr blk + r,
          set_block b (blk\<lparr>mb_ptr := mb_ptr blk + sz + 2 * r, mb_avail := u64 (mb_avail blk - (sz + 2 * r))\<rparr>) st)))
      else Allocate_Large_Block os p sz st)"

definition MEM_POOL_Alloc_P :: "os_heap \<Rightarrow> int \<Rightarrow> 64 word \<Rightarrow> mem_state \<Rightarrow> (int \<times> mem_state) res" where
  "MEM_POOL_Alloc_P os p sz st =
     (let p = resolve_pool st p in
      if p = Malloc_Mem_Pool then c_malloc os (uint sz) st
      else
        bindE (pool_of st p) (\<lambda>pool.
        bindE (Is_True (pool_magic pool = MAGIC_NUM)) (\<lambda>_.
        bindE (Is_True (pool_blocks pool \<noteq> 0)) (\<lambda>_.
        Raw_Allocate os p (s32 (uint (PAD_TO_ALIGN sz))) st))))"

section \<open>Freeing\<close>

definition MEM_LARGE_BLOCK_zap :: "int \<Rightarrow> mem_large_block \<Rightarrow> mem_state \<Rightarrow> mem_state" where
  "MEM_LARGE_BLOCK_zap a l st = set_large a (l\<lparr>lb_base := 0, lb_ptr := 0\<rparr>) st"

text \<open>The headers of a freed area are gone with it.\<close>

definition MEM_LARGE_BLOCK_free :: "int \<Rightarrow> mem_state \<Rightarrow> mem_state res" where
  "MEM_LARGE_BLOCK_free a st =
     bindE (get_large st a) (\<lambda>l.
     bindE (c_free a (MEM_LARGE_BLOCK_zap a l st)) (\<lambda>st.
     Inr (st\<lparr>large_blocks := (large_blocks st)(a := None)\<rparr>)))"

definition free_block :: "int \<Rightarrow> mem_state \<Rightarrow> mem_state res" where
  "free_block b st = bindE (c_free b st) (\<lambda>st. Inr (st\<lparr>mem_blocks := (mem_blocks st)(b := None)\<rparr>))"

text \<open>
  What the code reads before an object when it looks for the header of a large block: the header if there is one, otherwise whatever
  is there, fields of the header of the block for the first objects of a block, and eight bytes, least significant first.
\<close>

definition bytes_word :: "(int \<Rightarrow> 8 word) \<Rightarrow> int \<Rightarrow> int" where
  "bytes_word mem a = (\<Sum>k\<leftarrow>[0..<8]. uint (mem (a + int k)) * 256 ^ k)"

definition read_word :: "mem_state \<Rightarrow> int \<Rightarrow> int" where
  "read_word st a =
     (case (mem_blocks st a, mem_blocks st (a - 8), mem_blocks st (a - 16)) of
        (Some blk, _, _) \<Rightarrow> mb_avail blk
      | (None, Some blk, _) \<Rightarrow> mb_ptr blk
      | (None, None, Some blk) \<Rightarrow> mb_rest blk
      | (None, None, None) \<Rightarrow> bytes_word (bytes st) a)"

definition large_header :: "mem_state \<Rightarrow> int \<Rightarrow> mem_large_block" where
  "large_header st a =
     (case large_blocks st a of Some l \<Rightarrow> l
      | None \<Rightarrow> \<lparr>lb_next = read_word st a, lb_prev = read_word st (a + 8), lb_base = read_word st (a + 16), lb_ptr = read_word st (a + 24)\<rparr>)"

definition unlink_large :: "int \<Rightarrow> int \<Rightarrow> int \<Rightarrow> mem_state \<Rightarrow> mem_state res" where
  "unlink_large pb prev next st =
     bindE (if prev = 0 then bindE (get_level st pb) (\<lambda>r. Inr (set_level pb (r\<lparr>pb_large := next\<rparr>) st))
            else bindE (get_large st prev) (\<lambda>l. Inr (set_large prev (l\<lparr>lb_next := next\<rparr>) st))) (\<lambda>st.
     if next \<noteq> 0 then bindE (get_large st next) (\<lambda>l. Inr (set_large next (l\<lparr>lb_prev := prev\<rparr>) st)) else Inr st)"

definition MEM_POOL_FREE :: "int \<Rightarrow> int \<Rightarrow> mem_state \<Rightarrow> mem_state res" where
  "MEM_POOL_FREE p data st =
     (if data = 0 then Inr st
      else let p = resolve_pool st p in
        if p = Malloc_Mem_Pool then c_free data st
        else
          bindE (pool_of st p) (\<lambda>pool.
          bindE (Is_True (pool_magic pool = MAGIC_NUM)) (\<lambda>_.
          let large_block = data - MEM_LARGE_BLOCK_OVERHEAD; l = large_header st large_block in
          if lb_ptr l = data then
            if lb_base l \<noteq> pool_blocks pool then Inr st
            else bindE (unlink_large (pool_blocks pool) (lb_prev l) (lb_next l) st) (MEM_LARGE_BLOCK_free large_block)
          else Inr st)))"

section \<open>Reallocation\<close>

definition c_realloc :: "os_heap \<Rightarrow> int \<Rightarrow> int \<Rightarrow> mem_state \<Rightarrow> (int \<times> mem_state) res" where
  "c_realloc os a n st =
     (case map_of (sys st) a of
        None \<Rightarrow> Inl Bad_Free
      | Some m \<Rightarrow>
          let others = filter (\<lambda>(b, _). b \<noteq> a) (sys st); b = os_realloc os others a n in
          if b = 0 then Inl No_Memory
          else Inr (b, st\<lparr>sys := (b, n) # others,
            bytes := (\<lambda>x. if b \<le> x \<and> x < b + min m n then bytes st (a + (x - b)) else bytes st x)\<rparr>))"

text \<open>The header moves with the area; \<^verbatim>\<open>base\<close> and \<^verbatim>\<open>ptr\<close> are cleared in the old one and set again in the new one.\<close>

definition MEM_LARGE_BLOCK_realloc :: "os_heap \<Rightarrow> int \<Rightarrow> int \<Rightarrow> mem_state \<Rightarrow> (int \<times> mem_state) res" where
  "MEM_LARGE_BLOCK_realloc os old_block new_size st =
     bindE (get_large st old_block) (\<lambda>l.
     bindE (c_realloc os old_block new_size (MEM_LARGE_BLOCK_zap old_block l st)) (\<lambda>(new_block, st).
     Inr (new_block, st\<lparr>large_blocks := ((large_blocks st)(old_block := None))(new_block \<mapsto> l)\<rparr>)))"

definition relink_large :: "int \<Rightarrow> int \<Rightarrow> mem_state \<Rightarrow> mem_state res" where
  "relink_large pb large_block st =
     bindE (get_large st large_block) (\<lambda>l.
     bindE (if lb_prev l = 0 then bindE (get_level st pb) (\<lambda>r. Inr (set_level pb (r\<lparr>pb_large := large_block\<rparr>) st))
            else bindE (get_large st (lb_prev l)) (\<lambda>p. Inr (set_large (lb_prev l) (p\<lparr>lb_next := large_block\<rparr>) st))) (\<lambda>st.
     if lb_next l \<noteq> 0 then bindE (get_large st (lb_next l)) (\<lambda>p. Inr (set_large (lb_next l) (p\<lparr>lb_prev := large_block\<rparr>) st)) else Inr st))"

definition Realloc_large :: "os_heap \<Rightarrow> mem_pool \<Rightarrow> int \<Rightarrow> int \<Rightarrow> int \<Rightarrow> mem_state \<Rightarrow> (int \<times> mem_state) res" where
  "Realloc_large os pool old_block old_size new_size st =
     bindE (MEM_LARGE_BLOCK_realloc os (old_block - MEM_LARGE_BLOCK_OVERHEAD) (new_size + MEM_LARGE_BLOCK_OVERHEAD) st) (\<lambda>(large_block, st).
     bindE (get_large st large_block) (\<lambda>l.
     let ptr = large_block + MEM_LARGE_BLOCK_OVERHEAD; st = set_large large_block (l\<lparr>lb_ptr := ptr\<rparr>) st in
     bindE (if pool_bz pool then fill (ptr + old_size) (u64 (new_size - old_size)) 0 st else Inr st) (\<lambda>st.
     bindE (relink_large (pool_blocks pool) large_block st) (\<lambda>st. Inr (ptr, st)))))"

definition copy_to_new :: "os_heap \<Rightarrow> int \<Rightarrow> int \<Rightarrow> int \<Rightarrow> int \<Rightarrow> mem_state \<Rightarrow> (int \<times> mem_state) res" where
  "copy_to_new os p old_block new_size n st =
     bindE (Raw_Allocate os p (s32 new_size) st) (\<lambda>(result, st). bindE (bcopy old_block result n st) (\<lambda>st. Inr (result, st)))"

definition MEM_POOL_Realloc_P :: "os_heap \<Rightarrow> int \<Rightarrow> int \<Rightarrow> 64 word \<Rightarrow> 64 word \<Rightarrow> mem_state \<Rightarrow> (int \<times> mem_state) res" where
  "MEM_POOL_Realloc_P os p old_block old_size new_size st =
     (let p = resolve_pool st p in
      if p = Malloc_Mem_Pool then
        (if old_block = 0 then c_malloc os (uint new_size) st else c_realloc os old_block (uint new_size) st)
      else
        bindE (pool_of st p) (\<lambda>pool.
        bindE (Is_True (pool_magic pool = MAGIC_NUM)) (\<lambda>_.
        bindE (Is_True (pool_blocks pool \<noteq> 0)) (\<lambda>_.
        let old_size = uint (PAD_TO_ALIGN old_size); new_size = uint (PAD_TO_ALIGN new_size) in
        if new_size = old_size then Inr (old_block, st)
        else if old_size \<le> MIN_LARGE_BLOCK_SIZE then
          if new_size < old_size then Inr (old_block, st) else copy_to_new os p old_block new_size old_size st
        else
          let l = large_header st (old_block - MEM_LARGE_BLOCK_OVERHEAD) in
          if lb_ptr l = old_block \<and> lb_base l = pool_blocks pool then
            if new_size \<le> MIN_LARGE_BLOCK_SIZE then
              bindE (copy_to_new os p old_block new_size new_size st) (\<lambda>(result, st).
              bindE (MEM_POOL_FREE p old_block st) (\<lambda>st. Inr (result, st)))
            else Realloc_large os pool old_block old_size new_size st
          else copy_to_new os p old_block new_size (if new_size > old_size then old_size else new_size) st))))"

section \<open>Levels\<close>

definition take_level :: "os_heap \<Rightarrow> mem_state \<Rightarrow> (int \<times> mem_state) res" where
  "take_level os st =
     (let pb = free_mem_pool_blocks_list st in
      if pb \<noteq> 0 then bindE (get_level st pb) (\<lambda>r. Inr (pb, st\<lparr>free_mem_pool_blocks_list := pb_rest r\<rparr>))
      else MEM_POOL_Alloc_P os mem_overhead_pool sizeof_MEM_POOL_BLOCKS st)"

definition new_level :: "mem_state \<Rightarrow> int \<Rightarrow> mem_pool_blocks res" where
  "new_level st rest =
     (if rest = 0 then Inr \<lparr>pb_block = 0, pb_large = 0, pb_base_block = 0, pb_base_ptr = 0, pb_base_avail = 0, pb_rest = 0\<rparr>
      else
        bindE (get_level st rest) (\<lambda>p.
        let b = pb_block p in
        bindE (if b \<noteq> 0 then bindE (get_block st b) (\<lambda>blk. Inr (mb_ptr blk, mb_avail blk)) else Inr (0, 0)) (\<lambda>(ptr, avail).
        Inr \<lparr>pb_block = b, pb_large = 0, pb_base_block = b, pb_base_ptr = ptr, pb_base_avail = avail, pb_rest = rest\<rparr>)))"

text \<open>
  The first two checks read the pool before \<^verbatim>\<open>Default_Mem_Pool\<close> and \<^verbatim>\<open>Malloc_Mem_Pool\<close> are recognised; the code
  that recognises them can therefore not be reached with either.
\<close>

definition MEM_POOL_Push_P :: "os_heap \<Rightarrow> int \<Rightarrow> mem_state \<Rightarrow> mem_state res" where
  "MEM_POOL_Push_P os p st =
     bindE (pool_of st p) (\<lambda>pool.
     bindE (Is_True (pool_magic pool = MAGIC_NUM)) (\<lambda>_.
     bindE (FmtAssert (\<not> pool_frozen pool)) (\<lambda>_.
     bindE (take_level os st) (\<lambda>(pb, st).
     bindE (new_level st (pool_blocks pool)) (\<lambda>r.
     Inr (set_pool p (pool\<lparr>pool_blocks := pb\<rparr>) (set_level pb r st)))))))"

definition MEM_POOL_Push_Freeze_P :: "os_heap \<Rightarrow> int \<Rightarrow> mem_state \<Rightarrow> mem_state res" where
  "MEM_POOL_Push_Freeze_P os p st =
     bindE (pool_of st p) (\<lambda>pool.
     bindE (Is_True (pool_magic pool = MAGIC_NUM)) (\<lambda>_.
     bindE (FmtAssert (\<not> pool_frozen pool)) (\<lambda>_.
     bindE (MEM_POOL_Push_P os p st) (\<lambda>st.
     Inr (set_pool p ((mem_pools st p)\<lparr>pool_frozen := True\<rparr>) st)))))"

text \<open>The loops of \<^verbatim>\<open>MEM_POOL_Pop_P\<close>. Every round but the last frees an area, so they end.\<close>

lemma c_free_less: "c_free a st = Inr st' \<Longrightarrow> length (sys st') < length (sys st)"
proof -
  assume "c_free a st = Inr st'"
  then have *: "a \<in> fst ` set (sys st)" "sys st' = filter (\<lambda>(b, _). b \<noteq> a) (sys st)" by (auto simp: c_free_def split: if_splits)
  from *(1) obtain n where "(a, n) \<in> set (sys st)" by auto
  then have "length (filter (\<lambda>(b, _). b \<noteq> a) (sys st)) < length (sys st)" by (rule length_filter_less) simp
  then show ?thesis using *(2) by simp
qed

lemma free_block_less: "free_block b st = Inr st' \<Longrightarrow> length (sys st') < length (sys st)"
  using c_free_less by (fastforce simp: free_block_def bindE_eq_Inr_iff)

lemma large_free_less: "MEM_LARGE_BLOCK_free a st = Inr st' \<Longrightarrow> length (sys st') < length (sys st)"
  using c_free_less by (fastforce simp: MEM_LARGE_BLOCK_free_def MEM_LARGE_BLOCK_zap_def set_large_def bindE_eq_Inr_iff)

function pop_blocks :: "bool \<Rightarrow> mem_pool_blocks \<Rightarrow> int \<Rightarrow> mem_state \<Rightarrow> mem_state res" where
  "pop_blocks bz r bp st =
     (if bp = 0 then Inr st
      else bindE (get_block st bp) (\<lambda>blk.
        if bp = pb_base_block r then
          let st = set_block bp (blk\<lparr>mb_ptr := pb_base_ptr r, mb_avail := pb_base_avail r\<rparr>) st in
          if bz then fill (pb_base_ptr r) (pb_base_avail r) 0 st else Inr st
        else bindE (free_block bp st) (pop_blocks bz r (mb_rest blk))))"
  by pat_completeness auto
termination
  by (relation "measure (\<lambda>(bz, r, bp, st). length (sys st))") (auto dest: free_block_less)

function pop_large :: "int \<Rightarrow> mem_state \<Rightarrow> mem_state res" where
  "pop_large lbp st =
     (if lbp = 0 then Inr st
      else bindE (get_large st lbp) (\<lambda>l. bindE (MEM_LARGE_BLOCK_free lbp st) (pop_large (lb_next l))))"
  by pat_completeness auto
termination
  by (relation "measure (\<lambda>(lbp, st). length (sys st))") (auto dest: large_free_less)

declare pop_blocks.simps [simp del] pop_large.simps [simp del]

definition MEM_POOL_Pop_P :: "int \<Rightarrow> mem_state \<Rightarrow> mem_state res" where
  "MEM_POOL_Pop_P p st =
     bindE (pool_of st p) (\<lambda>pool.
     bindE (Is_True (pool_magic pool = MAGIC_NUM)) (\<lambda>_.
     bindE (FmtAssert (\<not> pool_frozen pool)) (\<lambda>_.
     let bsp = pool_blocks pool in
     bindE (FmtAssert (bsp \<noteq> 0)) (\<lambda>_.
     bindE (get_level st bsp) (\<lambda>r.
     bindE (pop_blocks (pool_bz pool) r (pb_block r) st) (\<lambda>st.
     bindE (pop_large (pb_large r) st) (\<lambda>st.
     if pb_rest r \<noteq> 0 then
       Inr ((set_pool p (pool\<lparr>pool_blocks := pb_rest r\<rparr>) (set_level bsp (r\<lparr>pb_rest := free_mem_pool_blocks_list st\<rparr>) st))
         \<lparr>free_mem_pool_blocks_list := bsp\<rparr>)
     else
       Inr (set_level bsp \<lparr>pb_block = 0, pb_large = 0, pb_base_block = 0, pb_base_ptr = 0, pb_base_avail = 0, pb_rest = 0\<rparr> st))))))))"

definition MEM_POOL_Pop_Unfreeze_P :: "int \<Rightarrow> mem_state \<Rightarrow> mem_state res" where
  "MEM_POOL_Pop_Unfreeze_P p st =
     bindE (pool_of st p) (\<lambda>pool.
     bindE (Is_True (pool_magic pool = MAGIC_NUM)) (\<lambda>_.
     bindE (FmtAssert (pool_frozen pool)) (\<lambda>_.
     MEM_POOL_Pop_P p (set_pool p (pool\<lparr>pool_frozen := False\<rparr>) st))))"

definition MEM_POOL_Set_Default :: "int \<Rightarrow> mem_state \<Rightarrow> mem_state" where
  "MEM_POOL_Set_Default p st = st\<lparr>The_Default_Mem_Pool := p\<rparr>"

section \<open>Initialisation and deletion\<close>

definition MEM_POOL_Initialize_P :: "os_heap \<Rightarrow> int \<Rightarrow> bool \<Rightarrow> mem_state \<Rightarrow> mem_state res" where
  "MEM_POOL_Initialize_P os p bz st =
     (let p = resolve_pool st p in
      if p = Malloc_Mem_Pool then Inr st
      else
        bindE (pool_of st p) (\<lambda>pool.
        bindE (Is_True (pool_magic pool \<noteq> MAGIC_NUM)) (\<lambda>_.
        MEM_POOL_Push_P os p (set_pool p \<lparr>pool_blocks = 0, pool_bz = bz, pool_frozen = False, pool_magic = MAGIC_NUM\<rparr> st))))"

text \<open>The loop of \<^verbatim>\<open>MEM_POOL_Delete\<close>; \<open>None\<close> would be a loop that does not end.\<close>

partial_function (option) pop_all :: "int \<Rightarrow> mem_state \<Rightarrow> mem_state res option" where
  "pop_all p st =
     (case get_level st (pool_blocks (mem_pools st p)) of
        Inl e \<Rightarrow> Some (Inl e)
      | Inr r \<Rightarrow>
          if pb_rest r = 0 then Some (Inr st)
          else (case MEM_POOL_Pop_P p st of Inl e \<Rightarrow> Some (Inl e) | Inr st \<Rightarrow> pop_all p st))"

definition MEM_POOL_Delete :: "int \<Rightarrow> mem_state \<Rightarrow> mem_state res option" where
  "MEM_POOL_Delete p st =
     (let p = resolve_pool st p in
      if p = Malloc_Mem_Pool then Some (Inr st)
      else case bindE (pool_of st p) (\<lambda>pool. Is_True (pool_magic pool = MAGIC_NUM)) of
        Inl e \<Rightarrow> Some (Inl e)
      | Inr _ \<Rightarrow>
          map_option (\<lambda>res.
            bindE res (\<lambda>st.
            bindE (MEM_POOL_Pop_P p st) (\<lambda>st.
            let bsp = pool_blocks (mem_pools st p) in
            bindE (get_level st bsp) (\<lambda>r.
            Inr ((set_pool p \<lparr>pool_blocks = 0, pool_bz = False, pool_frozen = False, pool_magic = 0\<rparr>
                (set_level bsp (r\<lparr>pb_rest := free_mem_pool_blocks_list st\<rparr>) st))\<lparr>free_mem_pool_blocks_list := bsp\<rparr>))))) (pop_all p st))"

text \<open>The pools every phase of the compiler uses, by their addresses, and their initialisation; the environment variable for the purify option is not set.\<close>

definition zeroed_pools :: "int list" where
  "zeroed_pools = [16, 17, 18, 19]"

definition nz_pools :: "int list" where
  "nz_pools = [20, 21, 22, 23]"

primrec each :: "('a \<Rightarrow> mem_state \<Rightarrow> mem_state res) \<Rightarrow> 'a list \<Rightarrow> mem_state \<Rightarrow> mem_state res" where
  "each f [] st = Inr st"
| "each f (x # xs) st = bindE (f x st) (each f xs)"

definition MEM_Initialize :: "os_heap \<Rightarrow> mem_state \<Rightarrow> mem_state res" where
  "MEM_Initialize os st =
     bindE (each (\<lambda>p. MEM_POOL_Initialize_P os p True) zeroed_pools st) (\<lambda>st.
     bindE (each (MEM_POOL_Push_P os) zeroed_pools st) (\<lambda>st.
     bindE (each (\<lambda>p. MEM_POOL_Initialize_P os p False) nz_pools st)
     (each (MEM_POOL_Push_P os) nz_pools)))"

section \<open>Growing areas of the C library\<close>

definition Realloc_Clear :: "os_heap \<Rightarrow> int \<Rightarrow> int \<Rightarrow> int \<Rightarrow> mem_state \<Rightarrow> (int \<times> mem_state) res" where
  "Realloc_Clear os ptr new_size old_size st =
     bindE (if ptr = 0 then c_malloc os (u64 new_size) st else c_realloc os ptr (u64 new_size) st) (\<lambda>(result, st).
     if new_size > old_size
     then bindE (int32 (new_size - old_size)) (\<lambda>num_added_bytes.
       bindE (fill (result + old_size) (u64 num_added_bytes) 0 st) (\<lambda>st. Inr (result, st)))
     else Inr (result, st))"

definition Re_Calloc :: "os_heap \<Rightarrow> int \<Rightarrow> int \<Rightarrow> int \<Rightarrow> int \<Rightarrow> mem_state \<Rightarrow> (int \<times> mem_state) res" where
  "Re_Calloc os ptr new_nelem elsize old_nelem st =
     bindE (int32 (new_nelem * elsize)) (\<lambda>new_size.
     bindE (int32 (old_nelem * elsize)) (\<lambda>old_size. Realloc_Clear os ptr new_size old_size st))"

section \<open>The initial state\<close>

text \<open>The package before any pool is initialised: only the static variables of the pool for the levels themselves.\<close>

definition MEM_start :: mem_state where
  "MEM_start = \<lparr>sys = [(overhead_blocks, 48)], bytes = (\<lambda>_. 0), mem_blocks = Map.empty, large_blocks = Map.empty,
     pool_levels = [overhead_blocks \<mapsto> \<lparr>pb_block = 0, pb_large = 0, pb_base_block = 0, pb_base_ptr = 0, pb_base_avail = 0, pb_rest = 0\<rparr>],
     mem_pools = (\<lambda>_. \<lparr>pool_blocks = 0, pool_bz = False, pool_frozen = False, pool_magic = 0\<rparr>)
       (mem_overhead_pool := \<lparr>pool_blocks = overhead_blocks, pool_bz = True, pool_frozen = False, pool_magic = MAGIC_NUM\<rparr>),
     free_mem_pool_blocks_list = 0, The_Default_Mem_Pool = 0, redzone_size = 0\<rparr>"

end
