(* ===== verification/Memory_Pool_Levels.thy ===== *)
theory Memory_Pool_Levels
  imports Memory_Pool
begin

text \<open>
  The shape of the memory pools: the contract of the C library, the lists of blocks and of large blocks of a level, the stack of
  levels of a pool, and what the operations do to them.
\<close>

section \<open>The C library\<close>

definition apart :: "int \<Rightarrow> int \<Rightarrow> int \<Rightarrow> int \<Rightarrow> bool" where
  "apart a n b m \<longleftrightarrow> a + n \<le> b \<or> b + m \<le> a"

definition sys_ok :: "(int \<times> int) list \<Rightarrow> bool" where
  "sys_ok s \<longleftrightarrow> distinct (map fst s) \<and> (\<forall>(a, n) \<in> set s. 0 < a \<and> a mod 8 = 0 \<and> a + n \<le> 18446744073709551616) \<and>
     (\<forall>(a, n) \<in> set s. \<forall>(b, m) \<in> set s. a \<noteq> b \<longrightarrow> apart a n b m)"

text \<open>
  What the package relies on of \<^verbatim>\<open>malloc\<close> and \<^verbatim>\<open>realloc\<close>: an area they return is aligned and away from every other area in use.
\<close>

locale c_library =
  fixes os :: os_heap
  assumes malloc_fresh: "sys_ok s \<Longrightarrow> 0 < n \<Longrightarrow> os_malloc os s n \<noteq> 0 \<Longrightarrow> sys_ok ((os_malloc os s n, n) # s)"
    and realloc_fresh: "sys_ok s \<Longrightarrow> 0 < n \<Longrightarrow> os_realloc os s a n \<noteq> 0 \<Longrightarrow> sys_ok ((os_realloc os s a n, n) # s)"

lemma sys_okD:
  assumes "sys_ok s"
  shows "distinct (map fst s)" and "(a, n) \<in> set s \<Longrightarrow> 0 < a \<and> a mod 8 = 0 \<and> a + n \<le> 18446744073709551616"
    and "(a, n) \<in> set s \<Longrightarrow> (b, m) \<in> set s \<Longrightarrow> a \<noteq> b \<Longrightarrow> apart a n b m"
    and "(a, n) \<in> set s \<Longrightarrow> (a, m) \<in> set s \<Longrightarrow> n = m"
  using assms by (auto simp: sys_ok_def dest: eq_key_imp_eq_value)

lemma sys_ok_filter: "sys_ok s \<Longrightarrow> sys_ok (filter P s)"
  by (auto simp: sys_ok_def distinct_map inj_on_def)

lemma sys_ok_fresh: "sys_ok ((a, n) # s) \<Longrightarrow> a \<notin> fst ` set s \<and> 0 < a \<and> a mod 8 = 0 \<and> sys_ok s"
  by (auto simp: sys_ok_def)

text \<open>A library that gives out new areas behind all others.\<close>

definition sys_end :: "(int \<times> int) list \<Rightarrow> int" where
  "sys_end s = foldr (\<lambda>(a, n) x. max (max a (a + n)) x) s 0"

lemma sys_end_ge: "0 \<le> sys_end s" "(a, n) \<in> set s \<Longrightarrow> a \<le> sys_end s \<and> a + n \<le> sys_end s"
  by (induction s) (auto simp: sys_end_def)

definition place :: "int \<Rightarrow> int \<Rightarrow> int" where
  "place x n = (let b = 8 * ((x + 7) div 8) + 8 in if b + n \<le> 18446744073709551616 then b else 0)"

definition simple_heap :: os_heap where
  "simple_heap = \<lparr>os_malloc = (\<lambda>s n. place (sys_end s) n), os_realloc = (\<lambda>s a n. place (max a (sys_end s)) n)\<rparr>"

lemma sys_ok_place:
  assumes "sys_ok s" and "sys_end s \<le> x" and "place x n \<noteq> 0"
  shows "sys_ok ((place x n, n) # s)"
proof -
  define b where "b = 8 * ((x + 7) div 8) + 8"
  have p: "place x n = b" "b + n \<le> 18446744073709551616" using assms(3) by (auto simp: place_def b_def Let_def split: if_splits)
  have "x < b" "b mod 8 = 0" by (simp_all add: b_def)
  then have b: "a < b \<and> a + m \<le> b" if "(a, m) \<in> set s" for a m using sys_end_ge(2) [OF that] assms(2) by simp
  have "0 < b" using sys_end_ge(1) [of s] assms(2) \<open>x < b\<close> by simp
  moreover have "b \<notin> fst ` set s" using b by fastforce
  moreover have "apart b n a m \<and> apart a m b n" if "(a, m) \<in> set s" for a m using b [OF that] by (simp add: apart_def)
  ultimately show ?thesis using assms(1) \<open>b mod 8 = 0\<close> p by (auto simp: sys_ok_def)
qed

interpretation simple_heap: c_library simple_heap
proof
  fix s n a assume s: "sys_ok s"
  show "sys_ok ((os_malloc simple_heap s n, n) # s)" if "os_malloc simple_heap s n \<noteq> 0"
    using sys_ok_place [OF s, of "sys_end s" n] that by (simp add: simple_heap_def)
  show "sys_ok ((os_realloc simple_heap s a n, n) # s)" if "os_realloc simple_heap s a n \<noteq> 0"
    using sys_ok_place [OF s, of "max a (sys_end s)" n] that by (simp add: simple_heap_def)
qed

section \<open>Lists in the store\<close>

text \<open>The blocks from \<open>b\<close> up to the block \<open>e\<close>, and the large blocks of the level \<open>base\<close> from \<open>a\<close> on.\<close>

fun block_seg :: "(int \<rightharpoonup> mem_block) \<Rightarrow> int \<Rightarrow> int list \<Rightarrow> int \<Rightarrow> bool" where
  "block_seg mb b [] e \<longleftrightarrow> b = e"
| "block_seg mb b (x # xs) e \<longleftrightarrow> x = b \<and> b \<noteq> 0 \<and> (\<exists>blk. mb b = Some blk \<and> block_seg mb (mb_rest blk) xs e)"

fun large_list :: "(int \<rightharpoonup> mem_large_block) \<Rightarrow> int \<Rightarrow> int \<Rightarrow> int \<Rightarrow> int list \<Rightarrow> int \<Rightarrow> bool" where
  "large_list lb base prev a [] e \<longleftrightarrow> a = e"
| "large_list lb base prev a (x # xs) e \<longleftrightarrow> x = a \<and> a \<noteq> 0 \<and>
     (\<exists>l. lb a = Some l \<and> lb_prev l = prev \<and> lb_base l = base \<and> lb_ptr l = a + MEM_LARGE_BLOCK_OVERHEAD \<and>
       large_list lb base a (lb_next l) xs e)"

lemma block_seg_cong: "(\<And>b. b \<in> set xs \<Longrightarrow> map_option mb_rest (mb' b) = map_option mb_rest (mb b)) \<Longrightarrow> block_seg mb' b xs e = block_seg mb b xs e"
proof (induction xs arbitrary: b)
  case (Cons x xs)
  have "map_option mb_rest (mb' x) = map_option mb_rest (mb x)" using Cons.prems by simp
  then show ?case using Cons by (cases "mb x"; cases "mb' x") auto
qed simp

lemma large_list_cong: "(\<And>a. a \<in> set xs \<Longrightarrow> lb' a = lb a) \<Longrightarrow> large_list lb' base prev a xs e = large_list lb base prev a xs e"
  by (induction xs arbitrary: prev a) auto

lemma block_seg_hd: "block_seg mb b xs e \<Longrightarrow> b = (case xs of [] \<Rightarrow> e | x # _ \<Rightarrow> x)"
  by (cases xs) auto

lemma large_list_hd: "large_list lb base prev a xs e \<Longrightarrow> a = (case xs of [] \<Rightarrow> e | x # _ \<Rightarrow> x)"
  by (cases xs) auto

lemma large_list_append: "large_list lb base prev a (xs @ ys) e \<longleftrightarrow>
    (\<exists>n. large_list lb base prev a xs n \<and> large_list lb base (last (prev # xs)) n ys e)"
  by (induction xs arbitrary: prev a) auto

text \<open>The field \<^verbatim>\<open>next\<close> of the last and the field \<^verbatim>\<open>prev\<close> of the first block of a list.\<close>

lemma large_list_set_next:
  assumes "large_list lb base prev a (xs @ [x]) e" and "distinct (xs @ [x])" and "lb x = Some l"
  shows "large_list (lb(x \<mapsto> l\<lparr>lb_next := e'\<rparr>)) base prev a (xs @ [x]) e'"
proof -
  obtain n where n: "large_list lb base prev a xs n" "large_list lb base (last (prev # xs)) n [x] e" using assms(1) large_list_append by blast
  have "large_list (lb(x \<mapsto> l\<lparr>lb_next := e'\<rparr>)) base prev a xs n" using n(1) assms(2) by (subst large_list_cong) auto
  moreover have "large_list (lb(x \<mapsto> l\<lparr>lb_next := e'\<rparr>)) base (last (prev # xs)) n [x] e'" using n(2) assms(3) by simp
  ultimately show ?thesis using large_list_append by blast
qed

lemma large_list_set_prev:
  assumes "large_list lb base prev a (x # xs) e" and "x \<notin> set xs" and "lb x = Some l"
  shows "large_list (lb(x \<mapsto> l\<lparr>lb_prev := prev'\<rparr>)) base prev' a (x # xs) e"
proof -
  have "large_list (lb(x \<mapsto> l\<lparr>lb_prev := prev'\<rparr>)) base x (lb_next l) xs e = large_list lb base x (lb_next l) xs e"
    using assms(2) by (intro large_list_cong) auto
  then show ?thesis using assms(1,3) by auto
qed

section \<open>Levels\<close>

text \<open>
  A level as the lists it stands for: its address, the blocks it has added to the list of the level below, and its large blocks.
\<close>

record level =
  lv_addr :: int
  lv_blocks :: "int list"
  lv_large :: "int list"

definition all_blocks :: "level list \<Rightarrow> int list" where
  "all_blocks ls = concat (map lv_blocks ls)"

definition all_large :: "level list \<Rightarrow> int list" where
  "all_large ls = concat (map lv_large ls)"

definition head_of :: "level list \<Rightarrow> int" where
  "head_of ls = (case all_blocks ls of [] \<Rightarrow> 0 | b # _ \<Rightarrow> b)"

lemma all_simps [simp]:
  "all_blocks [] = []" "all_blocks (l # ls) = lv_blocks l @ all_blocks ls" "all_large [] = []" "all_large (l # ls) = lv_large l @ all_large ls"
  "head_of [] = 0" "lv_blocks l = [] \<Longrightarrow> head_of (l # ls) = head_of ls" "lv_blocks l = b # bs \<Longrightarrow> head_of (l # ls) = b"
  by (simp_all add: all_blocks_def all_large_def head_of_def)

lemma head_of_in: "head_of ls \<noteq> 0 \<Longrightarrow> head_of ls \<in> set (all_blocks ls)"
  by (cases "all_blocks ls") (auto simp: head_of_def)

text \<open>The header of a block: between the first byte behind it and the end of the block.\<close>

definition header_ok :: "int \<Rightarrow> mem_block \<Rightarrow> bool" where
  "header_ok b blk \<longleftrightarrow> b + MEM_BLOCK_OVERHEAD \<le> mb_ptr blk \<and> mb_ptr blk + mb_avail blk = b + MEM_BLOCK_OVERHEAD + BLOCK_SIZE \<and>
     0 \<le> mb_avail blk \<and> mb_ptr blk mod 8 = 0"

text \<open>
  The block on which a level was pushed has since been used by that level; \<open>restored\<close> are the headers after the level has been
  popped. What lies below a level is described in these terms, since that is how the levels below will find it.
\<close>

definition restored :: "mem_pool_blocks \<Rightarrow> (int \<rightharpoonup> mem_block) \<Rightarrow> int \<rightharpoonup> mem_block" where
  "restored r mb = (case mb (pb_base_block r) of None \<Rightarrow> mb
     | Some blk \<Rightarrow> mb(pb_base_block r \<mapsto> blk\<lparr>mb_ptr := pb_base_ptr r, mb_avail := pb_base_avail r\<rparr>))"

definition base_ok :: "(int \<rightharpoonup> mem_block) \<Rightarrow> mem_pool_blocks \<Rightarrow> bool" where
  "base_ok mb r \<longleftrightarrow> (pb_base_block r \<noteq> 0 \<longrightarrow> (\<exists>blk. mb (pb_base_block r) = Some blk \<and> header_ok (pb_base_block r) blk \<and> pb_base_ptr r \<le> mb_ptr blk))"

fun levels_ok :: "(int \<rightharpoonup> mem_pool_blocks) \<Rightarrow> (int \<rightharpoonup> mem_large_block) \<Rightarrow> (int \<rightharpoonup> mem_block) \<Rightarrow> int \<Rightarrow> level list \<Rightarrow> bool" where
  "levels_ok pl lb mb pb [] \<longleftrightarrow> pb = 0"
| "levels_ok pl lb mb pb (l # ls) \<longleftrightarrow> pb = lv_addr l \<and> pb \<noteq> 0 \<and>
     (\<exists>r. pl pb = Some r \<and> block_seg mb (pb_block r) (lv_blocks l) (head_of ls) \<and> pb_base_block r = head_of ls \<and>
       large_list lb pb 0 (pb_large r) (lv_large l) 0 \<and> (\<forall>b \<in> set (lv_blocks l). \<exists>blk. mb b = Some blk \<and> header_ok b blk) \<and>
       base_ok mb r \<and> levels_ok pl lb (restored r mb) (pb_rest r) ls)"

lemma restored_rest: "map_option mb_rest (restored r mb b) = map_option mb_rest (mb b)"
  by (simp add: restored_def split: option.splits)

lemma restored_other: "b \<noteq> pb_base_block r \<Longrightarrow> restored r mb b = mb b"
  by (simp add: restored_def split: option.splits)

lemma levels_ok_cong:
  assumes "\<And>a. a \<in> set (map lv_addr ls) \<Longrightarrow> pl' a = pl a" and "\<And>a. a \<in> set (all_large ls) \<Longrightarrow> lb' a = lb a"
    and "\<And>b. b \<in> set (all_blocks ls) \<Longrightarrow> mb' b = mb b"
  shows "levels_ok pl' lb' mb' pb ls = levels_ok pl lb mb pb ls"
  using assms
proof (induction ls arbitrary: pb mb mb')
  case (Cons l ls)
  have seg: "block_seg mb' b (lv_blocks l) e = block_seg mb b (lv_blocks l) e" for b e
    by (rule block_seg_cong) (use Cons.prems(3) in simp)
  have large: "large_list lb' base prev a (lv_large l) e = large_list lb base prev a (lv_large l) e" for base prev a e
    by (rule large_list_cong) (use Cons.prems(2) in simp)
  have rest: "base_ok mb' r = base_ok mb r \<and> levels_ok pl' lb' (restored r mb') pb' ls = levels_ok pl lb (restored r mb) pb' ls"
    if "pb_base_block r = head_of ls" for r pb'
  proof (cases "head_of ls = 0")
    case True
    then have "all_blocks ls = [] \<or> 0 \<in> set (all_blocks ls)" by (cases "all_blocks ls") (auto simp: head_of_def)
    then have "restored r mb' b = restored r mb b" if "b \<in> set (all_blocks ls)" for b
      using that Cons.prems(3) \<open>pb_base_block r = head_of ls\<close> True by (auto simp: restored_def split: option.splits)
    then have "levels_ok pl' lb' (restored r mb') pb' ls = levels_ok pl lb (restored r mb) pb' ls" by (intro Cons.IH) (use Cons.prems in auto)
    then show ?thesis using that True by (simp add: base_ok_def)
  next
    case False
    then have base: "mb' (pb_base_block r) = mb (pb_base_block r)" using Cons.prems(3) head_of_in [OF False] that by simp
    then have "restored r mb' b = restored r mb b" if "b \<in> set (all_blocks ls)" for b
      using that Cons.prems(3) by (auto simp: restored_def split: option.splits)
    then have "levels_ok pl' lb' (restored r mb') pb' ls = levels_ok pl lb (restored r mb) pb' ls" by (intro Cons.IH) (use Cons.prems in auto)
    then show ?thesis using base by (simp add: base_ok_def)
  qed
  have pl: "pl' (lv_addr l) = pl (lv_addr l)" using Cons.prems(1) by simp
  have hdr: "(\<forall>b \<in> set (lv_blocks l). \<exists>blk. mb' b = Some blk \<and> header_ok b blk) = (\<forall>b \<in> set (lv_blocks l). \<exists>blk. mb b = Some blk \<and> header_ok b blk)"
    using Cons.prems(3) by simp
  show ?case unfolding levels_ok.simps seg large hdr using rest pl by metis
qed simp

lemma restored_upd: "b \<noteq> pb_base_block r \<Longrightarrow> restored r (mb(b := x)) = (restored r mb)(b := x)"
  by (auto simp: restored_def fun_upd_twist split: option.splits)

lemma restored_fields [simp]: "restored (r\<lparr>pb_block := b\<rparr>) mb = restored r mb" "restored (r\<lparr>pb_large := a\<rparr>) mb = restored r mb"
  by (cases "mb (pb_base_block r)"; simp add: restored_def)+

lemma base_ok_fields [simp]: "base_ok mb (r\<lparr>pb_block := b\<rparr>) = base_ok mb r" "base_ok mb (r\<lparr>pb_large := a\<rparr>) = base_ok mb r"
  by (simp_all add: base_ok_def)

lemma levels_ok_upd [simp]:
  "b \<notin> set (all_blocks ls) \<Longrightarrow> levels_ok pl lb (mb(b := x)) pb ls = levels_ok pl lb mb pb ls"
  "a \<notin> set (all_large ls) \<Longrightarrow> levels_ok pl (lb(a := y)) mb pb ls = levels_ok pl lb mb pb ls"
  "c \<notin> lv_addr ` set ls \<Longrightarrow> levels_ok (pl(c := z)) lb mb pb ls = levels_ok pl lb mb pb ls"
  by (rule levels_ok_cong; auto)+

section \<open>Operations on the top level\<close>

lemma levels_okE:
  assumes "levels_ok pl lb mb pb (l # ls)"
  obtains r where "pl pb = Some r" "pb = lv_addr l" "pb \<noteq> 0" "block_seg mb (pb_block r) (lv_blocks l) (head_of ls)" "pb_base_block r = head_of ls"
    "large_list lb pb 0 (pb_large r) (lv_large l) 0" "\<forall>b \<in> set (lv_blocks l). \<exists>blk. mb b = Some blk \<and> header_ok b blk"
    "base_ok mb r" "levels_ok pl lb (restored r mb) (pb_rest r) ls"
  using assms by auto

lemma levels_head:
  assumes "levels_ok pl lb mb pb (l # ls)" and "pl pb = Some r"
  shows "pb_block r = head_of (l # ls)" and "head_of (l # ls) \<noteq> 0 \<Longrightarrow> \<exists>blk. mb (head_of (l # ls)) = Some blk \<and> header_ok (head_of (l # ls)) blk"
    and "pb_rest r = (case ls of [] \<Rightarrow> 0 | l' # _ \<Rightarrow> lv_addr l')"
proof -
  obtain r' where "pl pb = Some r'" and seg: "block_seg mb (pb_block r') (lv_blocks l) (head_of ls)" and base: "pb_base_block r' = head_of ls" "base_ok mb r'"
    and hdr: "\<forall>b \<in> set (lv_blocks l). \<exists>blk. mb b = Some blk \<and> header_ok b blk" and rest: "levels_ok pl lb (restored r' mb) (pb_rest r') ls"
    using assms(1) by (rule levels_okE)
  then have r: "r' = r" using assms(2) by simp
  show "pb_block r = head_of (l # ls)" using block_seg_hd [OF seg] r by (cases "lv_blocks l") auto
  show "\<exists>blk. mb (head_of (l # ls)) = Some blk \<and> header_ok (head_of (l # ls)) blk" if "head_of (l # ls) \<noteq> 0"
    using base hdr that r by (cases "lv_blocks l") (auto simp: base_ok_def)
  show "pb_rest r = (case ls of [] \<Rightarrow> 0 | l' # _ \<Rightarrow> lv_addr l')" using rest r by (cases ls) auto
qed

lemma top_level:
  assumes "levels_ok pl lb mb pb ls" and "ls \<noteq> []"
  shows "\<exists>r. pl pb = Some r \<and> pb_block r = head_of ls" and "pb = lv_addr (hd ls)" and "pb \<noteq> 0"
    and "head_of ls \<noteq> 0 \<Longrightarrow> \<exists>blk. mb (head_of ls) = Some blk \<and> header_ok (head_of ls) blk"
proof -
  obtain l ls' where ls: "ls = l # ls'" using assms(2) by (cases ls) auto
  then obtain r where r: "pl pb = Some r" "pb = lv_addr l" "pb \<noteq> 0" using assms(1) by (auto elim: levels_okE)
  then show "\<exists>r. pl pb = Some r \<and> pb_block r = head_of ls" "pb = lv_addr (hd ls)" "pb \<noteq> 0"
    using levels_head(1) [OF assms(1) [unfolded ls] r(1)] ls by auto
  show "head_of ls \<noteq> 0 \<Longrightarrow> \<exists>blk. mb (head_of ls) = Some blk \<and> header_ok (head_of ls) blk"
    using levels_head(2) [OF assms(1) [unfolded ls] r(1)] ls by simp
qed

lemma header_ok_bump: "header_ok b blk \<Longrightarrow> 0 \<le> n \<Longrightarrow> n \<le> mb_avail blk \<Longrightarrow> n mod 8 = 0 \<Longrightarrow>
    header_ok b (blk\<lparr>mb_ptr := mb_ptr blk + n, mb_avail := mb_avail blk - n\<rparr>)"
  by (auto simp: header_ok_def mod_add_eq [symmetric])

text \<open>Bytes are cut off the first block.\<close>

lemma levels_bump:
  assumes lv: "levels_ok pl lb mb pb (l # ls)" and "distinct (all_blocks (l # ls))" and b: "head_of (l # ls) = b" "b \<noteq> 0" "mb b = Some blk"
    and n: "0 \<le> n" "n \<le> mb_avail blk" "n mod 8 = 0"
  shows "levels_ok pl lb (mb(b \<mapsto> blk\<lparr>mb_ptr := mb_ptr blk + n, mb_avail := mb_avail blk - n\<rparr>)) pb (l # ls)"
proof -
  define blk' where "blk' = blk\<lparr>mb_ptr := mb_ptr blk + n, mb_avail := mb_avail blk - n\<rparr>"
  have rest: "map_option mb_rest ((mb(b \<mapsto> blk')) x) = map_option mb_rest (mb x)" for x using b(3) by (simp add: blk'_def)
  from lv obtain r where r: "pl pb = Some r" "pb = lv_addr l" "pb \<noteq> 0" "block_seg mb (pb_block r) (lv_blocks l) (head_of ls)" "pb_base_block r = head_of ls"
    "large_list lb pb 0 (pb_large r) (lv_large l) 0" "\<forall>b \<in> set (lv_blocks l). \<exists>blk. mb b = Some blk \<and> header_ok b blk"
    "base_ok mb r" "levels_ok pl lb (restored r mb) (pb_rest r) ls" by (rule levels_okE)
  have ok: "header_ok b blk'" unfolding blk'_def using header_ok_bump n levels_head(2) [OF lv r(1)] b by auto
  have hdr: "\<exists>blk. (mb(b \<mapsto> blk')) x = Some blk \<and> header_ok x blk" if "x \<in> set (lv_blocks l)" for x using r(7) that ok by auto
  have "base_ok (mb(b \<mapsto> blk')) r \<and> levels_ok pl lb (restored r (mb(b \<mapsto> blk'))) (pb_rest r) ls"
  proof (cases "lv_blocks l")
    case Nil
    then have "restored r (mb(b \<mapsto> blk')) = restored r mb" using b r(5) by (auto simp: restored_def blk'_def)
    moreover have "base_ok (mb(b \<mapsto> blk')) r" using Nil b r(5,8) ok n(1) by (auto simp: base_ok_def blk'_def)
    ultimately show ?thesis using r(9) by simp
  next
    case (Cons x xs)
    then have nb: "b \<notin> set (all_blocks ls)" using b(1) assms(2) by auto
    then have "pb_base_block r \<noteq> b" using r(5) head_of_in [of ls] b(2) by auto
    then have "levels_ok pl lb (restored r (mb(b \<mapsto> blk'))) (pb_rest r) ls = levels_ok pl lb (restored r mb) (pb_rest r) ls"
      using nb by (simp add: restored_upd)
    then show ?thesis using r(8,9) \<open>pb_base_block r \<noteq> b\<close> by (simp add: base_ok_def)
  qed
  moreover have "block_seg (mb(b \<mapsto> blk')) (pb_block r) (lv_blocks l) (head_of ls)" using r(4) rest by (subst block_seg_cong) auto
  ultimately show ?thesis using r(1-3,5,6) hdr unfolding blk'_def by auto
qed

text \<open>A block is added.\<close>

lemma levels_add_block:
  assumes lv: "levels_ok pl lb mb pb (l # ls)" and "pl pb = Some r" and b: "b \<notin> set (all_blocks (l # ls))" "b \<noteq> 0" "b mod 8 = 0"
    and "pb \<notin> set (map lv_addr ls)"
  shows "levels_ok (pl(pb \<mapsto> r\<lparr>pb_block := b\<rparr>)) lb (mb(b \<mapsto> \<lparr>mb_avail = BLOCK_SIZE, mb_ptr = b + MEM_BLOCK_OVERHEAD, mb_rest = pb_block r\<rparr>)) pb
    (l\<lparr>lv_blocks := b # lv_blocks l\<rparr> # ls)"
proof -
  define blk where "blk = \<lparr>mb_avail = BLOCK_SIZE, mb_ptr = b + MEM_BLOCK_OVERHEAD, mb_rest = pb_block r\<rparr>"
  from lv have r: "pb = lv_addr l" "pb \<noteq> 0" "block_seg mb (pb_block r) (lv_blocks l) (head_of ls)" "pb_base_block r = head_of ls"
    "large_list lb pb 0 (pb_large r) (lv_large l) 0" "\<forall>b \<in> set (lv_blocks l). \<exists>blk. mb b = Some blk \<and> header_ok b blk"
    "base_ok mb r" "levels_ok pl lb (restored r mb) (pb_rest r) ls" using assms(2) by auto
  have ok: "header_ok b blk" using b(3) by (auto simp: header_ok_def blk_def BLOCK_SIZE_def MEM_BLOCK_OVERHEAD_def mod_add_eq [symmetric])
  have seg: "block_seg (mb(b \<mapsto> blk)) (pb_block r) (lv_blocks l) (head_of ls)"
    using r(3) b(1) by (subst block_seg_cong) auto
  have base: "pb_base_block r \<noteq> b" using r(4) head_of_in [of ls] b(1,2) by auto
  then have "levels_ok (pl(pb \<mapsto> r\<lparr>pb_block := b\<rparr>)) lb (restored r (mb(b \<mapsto> blk))) (pb_rest r) ls = levels_ok pl lb (restored r mb) (pb_rest r) ls"
    using b(1) assms(6) by (simp add: restored_upd)
  moreover have "base_ok (mb(b \<mapsto> blk)) (r\<lparr>pb_block := b\<rparr>)" using r(7) base by (simp add: base_ok_def)
  ultimately show ?thesis using r ok seg b(2) unfolding blk_def by auto
qed

text \<open>A level is pushed.\<close>

lemma levels_push:
  assumes lv: "levels_ok pl lb mb rest ls" and pb: "pb \<noteq> 0" "pb \<notin> set (map lv_addr ls)"
    and new: "pb_block new = head_of ls" "pb_large new = 0" "pb_base_block new = head_of ls" "pb_rest new = rest"
    and saved: "\<And>blk. head_of ls \<noteq> 0 \<Longrightarrow> mb (head_of ls) = Some blk \<Longrightarrow> pb_base_ptr new = mb_ptr blk \<and> pb_base_avail new = mb_avail blk"
    and hdr: "head_of ls \<noteq> 0 \<Longrightarrow> \<exists>blk. mb (head_of ls) = Some blk \<and> header_ok (head_of ls) blk" and "mb 0 = None"
  shows "levels_ok (pl(pb \<mapsto> new)) lb mb pb (\<lparr>lv_addr = pb, lv_blocks = [], lv_large = []\<rparr> # ls)"
proof -
  have "restored new mb = mb"
  proof (cases "head_of ls = 0")
    case False
    then obtain blk where blk: "mb (head_of ls) = Some blk" using hdr by blast
    then have "blk\<lparr>mb_ptr := pb_base_ptr new, mb_avail := pb_base_avail new\<rparr> = blk" using saved [OF False blk] by (cases blk) simp
    then show ?thesis using blk new(3) by (simp add: restored_def fun_upd_idem)
  qed (use assms(10) new(3) in \<open>simp add: restored_def\<close>)
  moreover have "levels_ok (pl(pb \<mapsto> new)) lb mb rest ls = levels_ok pl lb mb rest ls" using pb(2) by simp
  moreover have "base_ok mb new" using hdr saved new(3) by (fastforce simp: base_ok_def)
  ultimately show ?thesis using assms by simp
qed

section \<open>Large blocks\<close>

lemma levels_large:
  assumes "levels_ok pl lb mb pb (l # ls)" and "pl pb = Some r" and "large_list lb' pb 0 a xs 0"
    and "\<And>x. x \<in> set (all_large ls) \<Longrightarrow> lb' x = lb x" and "pb \<notin> lv_addr ` set ls"
  shows "levels_ok (pl(pb \<mapsto> r\<lparr>pb_large := a\<rparr>)) lb' mb pb (l\<lparr>lv_large := xs\<rparr> # ls)"
proof -
  have "levels_ok (pl(pb \<mapsto> r\<lparr>pb_large := a\<rparr>)) lb' mb' pb' ls = levels_ok pl lb mb' pb' ls" for mb' pb'
    using assms(4,5) by (intro levels_ok_cong) auto
  then show ?thesis using assms(1-3) by auto
qed

lemma large_list_in: "large_list lb base prev a xs e \<Longrightarrow> x \<in> set xs \<Longrightarrow> x \<noteq> 0 \<and> (\<exists>l. lb x = Some l \<and> lb_base l = base \<and> lb_ptr l = x + MEM_LARGE_BLOCK_OVERHEAD)"
  by (induction xs arbitrary: prev a) auto

text \<open>The pointer to a block from the one before it, which is a field of the level or of a large block, and from the one behind it.\<close>

lemma link_prev:
  assumes list: "large_list (large_blocks st) pb 0 (pb_large r) xs x" and "distinct xs" and r: "pool_levels st pb = Some r"
  obtains a lb' where "(if last (0 # xs) = 0 then bindE (get_level st pb) (\<lambda>r. Inr (set_level pb (r\<lparr>pb_large := t\<rparr>) st))
      else bindE (get_large st (last (0 # xs))) (\<lambda>l. Inr (set_large (last (0 # xs)) (l\<lparr>lb_next := t\<rparr>) st))) =
        Inr (st\<lparr>large_blocks := lb', pool_levels := (pool_levels st)(pb \<mapsto> r\<lparr>pb_large := a\<rparr>)\<rparr>)"
    and "large_list lb' pb 0 a xs t" and "\<And>z. z \<notin> set xs \<Longrightarrow> lb' z = large_blocks st z"
proof (cases xs rule: rev_cases)
  case Nil
  show ?thesis
    by (rule that [of t "large_blocks st"]) (use Nil r in \<open>simp_all add: get_level_def set_level_def\<close>)
next
  case (snoc zs z)
  obtain l where z: "z \<noteq> 0" "large_blocks st z = Some l" using large_list_in [OF list, of z] snoc by auto
  have "large_list ((large_blocks st)(z \<mapsto> l\<lparr>lb_next := t\<rparr>)) pb 0 (pb_large r) xs t"
    unfolding snoc by (rule large_list_set_next) (use list assms(2) snoc z in auto)
  then show ?thesis
    using snoc z r by (intro that [of "pb_large r" "(large_blocks st)(z \<mapsto> l\<lparr>lb_next := t\<rparr>)"]) (auto simp: get_large_def set_large_def fun_upd_idem)
qed

lemma link_next:
  assumes list: "large_list (large_blocks st) pb x n ys 0" and "distinct ys"
  obtains lb' where "(if n \<noteq> 0 then bindE (get_large st n) (\<lambda>l. Inr (set_large n (l\<lparr>lb_prev := t\<rparr>) st)) else Inr st) = Inr (st\<lparr>large_blocks := lb'\<rparr>)"
    and "large_list lb' pb t n ys 0" and "\<And>z. z \<notin> set ys \<Longrightarrow> lb' z = large_blocks st z"
proof (cases ys)
  case Nil
  show ?thesis by (rule that [of "large_blocks st"]) (use list Nil in simp_all)
next
  case (Cons y ys')
  then obtain l where y: "n = y" "y \<noteq> 0" "large_blocks st y = Some l" using list by auto
  have "large_list ((large_blocks st)(y \<mapsto> l\<lparr>lb_prev := t\<rparr>)) pb t n ys 0"
    unfolding Cons by (rule large_list_set_prev) (use list assms(2) Cons y in auto)
  then show ?thesis
    using y Cons by (intro that [of "(large_blocks st)(y \<mapsto> l\<lparr>lb_prev := t\<rparr>)"]) (auto simp: get_large_def set_large_def)
qed

lemma unlink_ok:
  assumes list: "large_list (large_blocks st) pb 0 (pb_large r) (xs @ x # ys) 0" and dist: "distinct (xs @ x # ys)" and r: "pool_levels st pb = Some r"
    and l: "large_blocks st x = Some l"
  obtains a lb' where "unlink_large pb (lb_prev l) (lb_next l) st = Inr (st\<lparr>large_blocks := lb', pool_levels := (pool_levels st)(pb \<mapsto> r\<lparr>pb_large := a\<rparr>)\<rparr>)"
    and "large_list lb' pb 0 a (xs @ ys) 0" and "\<And>z. z \<notin> set (xs @ ys) \<Longrightarrow> lb' z = large_blocks st z"
proof -
  have xs: "large_list (large_blocks st) pb 0 (pb_large r) xs x" and prev: "lb_prev l = last (0 # xs)"
      and ys: "large_list (large_blocks st) pb x (lb_next l) ys 0"
    using list l unfolding large_list_append by auto
  obtain lb1 a where 1: "(if last (0 # xs) = 0 then bindE (get_level st pb) (\<lambda>r. Inr (set_level pb (r\<lparr>pb_large := lb_next l\<rparr>) st))
      else bindE (get_large st (last (0 # xs))) (\<lambda>l'. Inr (set_large (last (0 # xs)) (l'\<lparr>lb_next := lb_next l\<rparr>) st))) =
        Inr (st\<lparr>large_blocks := lb1, pool_levels := (pool_levels st)(pb \<mapsto> r\<lparr>pb_large := a\<rparr>)\<rparr>)"
      "large_list lb1 pb 0 a xs (lb_next l)" "\<And>z. z \<notin> set xs \<Longrightarrow> lb1 z = large_blocks st z"
    using link_prev [OF xs _ r, of "lb_next l"] dist by auto
  define st1 where "st1 = st\<lparr>large_blocks := lb1, pool_levels := (pool_levels st)(pb \<mapsto> r\<lparr>pb_large := a\<rparr>)\<rparr>"
  have ys1: "large_list (large_blocks st1) pb x (lb_next l) ys 0" using ys dist 1(3) by (subst large_list_cong) (auto simp: st1_def)
  obtain lb2 where 2: "(if lb_next l \<noteq> 0 then bindE (get_large st1 (lb_next l)) (\<lambda>l'. Inr (set_large (lb_next l) (l'\<lparr>lb_prev := last (0 # xs)\<rparr>) st1)) else Inr st1) =
        Inr (st1\<lparr>large_blocks := lb2\<rparr>)"
      "large_list lb2 pb (last (0 # xs)) (lb_next l) ys 0" "\<And>z. z \<notin> set ys \<Longrightarrow> lb2 z = lb1 z"
    using link_next [OF ys1, of "last (0 # xs)"] dist by (auto simp: st1_def)
  have "large_list lb2 pb 0 a xs (lb_next l)" using 1(2) 2(3) dist by (subst large_list_cong) auto
  then have "large_list lb2 pb 0 a (xs @ ys) 0" using 2(2) large_list_append by blast
  moreover have "unlink_large pb (lb_prev l) (lb_next l) st = Inr (st1\<lparr>large_blocks := lb2\<rparr>)"
    using 1(1) 2(1) unfolding unlink_large_def prev st1_def [symmetric] by simp
  ultimately show thesis using 1(3) 2(3) by (intro that [of a lb2]) (auto simp: st1_def)
qed

text \<open>A block that \<^verbatim>\<open>realloc\<close> has moved from \<open>x\<close> to \<open>y\<close>.\<close>

lemma relink_ok:
  assumes list: "large_list lb pb 0 (pb_large r) (xs @ x # ys) 0" and dist: "distinct (xs @ x # ys)" and r: "pool_levels st pb = Some r"
    and l: "lb x = Some l" and y: "y \<noteq> 0" "y \<notin> set (xs @ ys)"
    and st: "large_blocks st = (lb(x := None))(y \<mapsto> l\<lparr>lb_ptr := y + MEM_LARGE_BLOCK_OVERHEAD\<rparr>)"
  obtains a lb' where "relink_large pb y st = Inr (st\<lparr>large_blocks := lb', pool_levels := (pool_levels st)(pb \<mapsto> r\<lparr>pb_large := a\<rparr>)\<rparr>)"
    and "large_list lb' pb 0 a (xs @ y # ys) 0" and "\<And>z. z \<notin> set (xs @ ys) \<Longrightarrow> lb' z = large_blocks st z"
proof -
  let ?l = "l\<lparr>lb_ptr := y + MEM_LARGE_BLOCK_OVERHEAD\<rparr>"
  have xs: "large_list lb pb 0 (pb_large r) xs x" and prev: "lb_prev l = last (0 # xs)" "lb_base l = pb" and ys: "large_list lb pb x (lb_next l) ys 0"
    using list l unfolding large_list_append by auto
  have xs': "large_list (large_blocks st) pb 0 (pb_large r) xs x" using xs dist y(2) unfolding st by (subst large_list_cong) auto
  obtain lb1 a where 1: "(if last (0 # xs) = 0 then bindE (get_level st pb) (\<lambda>r. Inr (set_level pb (r\<lparr>pb_large := y\<rparr>) st))
      else bindE (get_large st (last (0 # xs))) (\<lambda>l'. Inr (set_large (last (0 # xs)) (l'\<lparr>lb_next := y\<rparr>) st))) =
        Inr (st\<lparr>large_blocks := lb1, pool_levels := (pool_levels st)(pb \<mapsto> r\<lparr>pb_large := a\<rparr>)\<rparr>)"
      "large_list lb1 pb 0 a xs y" "\<And>z. z \<notin> set xs \<Longrightarrow> lb1 z = large_blocks st z"
    using link_prev [OF xs' _ r, of y] dist by auto
  define st1 where "st1 = st\<lparr>large_blocks := lb1, pool_levels := (pool_levels st)(pb \<mapsto> r\<lparr>pb_large := a\<rparr>)\<rparr>"
  have "lb1 z = lb z" if "z \<in> set ys" for z
  proof -
    have "z \<notin> set xs" "z \<noteq> x" "z \<noteq> y" using that dist y(2) by auto
    then show ?thesis using 1(3) [of z] st by simp
  qed
  then have ys1: "large_list (large_blocks st1) pb x (lb_next l) ys 0" using ys by (subst large_list_cong) (auto simp: st1_def)
  obtain lb2 where 2: "(if lb_next l \<noteq> 0 then bindE (get_large st1 (lb_next l)) (\<lambda>l'. Inr (set_large (lb_next l) (l'\<lparr>lb_prev := y\<rparr>) st1)) else Inr st1) =
        Inr (st1\<lparr>large_blocks := lb2\<rparr>)"
      "large_list lb2 pb y (lb_next l) ys 0" "\<And>z. z \<notin> set ys \<Longrightarrow> lb2 z = lb1 z"
    using link_next [OF ys1, of y] dist by (auto simp: st1_def)
  have "large_list lb2 pb 0 a xs y" using 1(2) 2(3) dist by (subst large_list_cong) auto
  moreover have "lb2 y = Some ?l" using 1(3) 2(3) y(2) st by auto
  then have "large_list lb2 pb (last (0 # xs)) y (y # ys) 0" using 2(2) prev y(1) by simp
  ultimately have "large_list lb2 pb 0 a (xs @ y # ys) 0" using large_list_append by blast
  moreover have "get_large st y = Inr ?l" "lb_prev ?l = last (0 # xs)" "lb_next ?l = lb_next l" using st prev(1) by (simp_all add: get_large_def)
  then have "relink_large pb y st = Inr (st1\<lparr>large_blocks := lb2\<rparr>)"
    unfolding relink_large_def using 1(1) [folded st1_def] 2(1) by (simp only: bindE_Inr)
  ultimately show thesis using 1(3) 2(3) by (intro that [of a lb2]) (auto simp: st1_def)
qed

text \<open>A new block at the front.\<close>

lemma link_front:
  assumes list: "large_list (large_blocks st) pb 0 a xs 0" and dist: "distinct xs" and b: "b \<noteq> 0" "b \<notin> set xs" and h: "lb_next h = a" "lb_prev h = 0"
      "lb_base h = pb" "lb_ptr h = b + MEM_LARGE_BLOCK_OVERHEAD"
  obtains lb' where "(if a \<noteq> 0 then bindE (get_large (set_large b h st) a) (\<lambda>l. Inr (set_large a (l\<lparr>lb_prev := b\<rparr>) (set_large b h st))) else Inr (set_large b h st)) =
        Inr (st\<lparr>large_blocks := lb'\<rparr>)"
    and "large_list lb' pb 0 b (b # xs) 0" and "\<And>z. z \<notin> set (b # xs) \<Longrightarrow> lb' z = large_blocks st z"
proof -
  have "large_list (large_blocks (set_large b h st)) pb 0 a xs 0" using list b(2) by (subst large_list_cong) (auto simp: set_large_def)
  from link_next [OF this dist, of b] obtain lb' where lb: "(if a \<noteq> 0 then bindE (get_large (set_large b h st) a) (\<lambda>l. Inr (set_large a (l\<lparr>lb_prev := b\<rparr>) (set_large b h st)))
        else Inr (set_large b h st)) = Inr ((set_large b h st)\<lparr>large_blocks := lb'\<rparr>)"
      "large_list lb' pb b a xs 0" "\<And>z. z \<notin> set xs \<Longrightarrow> lb' z = large_blocks (set_large b h st) z" by auto
  have "lb' b = Some h" using lb(3) b(2) by (simp add: set_large_def)
  then have "large_list lb' pb 0 b (b # xs) 0" using lb(2) h b(1) by simp
  then show thesis using lb(1,3) by (intro that [of lb']) (auto simp: set_large_def)
qed

section \<open>Popping\<close>

lemma filter_fst_distinct: "filter (\<lambda>(b, _). b \<notin> B) (filter (\<lambda>(b, _). b \<noteq> a) s) = filter (\<lambda>(b, _). b \<notin> insert a B) s"
  by (induction s) auto

lemma c_free_ok: "(a, n) \<in> set (sys st) \<Longrightarrow> c_free a st = Inr (st\<lparr>sys := filter (\<lambda>(b, _). b \<noteq> a) (sys st)\<rparr>)"
  by (force simp: c_free_def)

lemma pop_large_ok:
  assumes "large_list (large_blocks st) pb prev a xs 0" and "distinct xs" and "\<And>x. x \<in> set xs \<Longrightarrow> x \<in> fst ` set (sys st)"
  shows "pop_large a st = Inr (st\<lparr>sys := filter (\<lambda>(b, _). b \<notin> set xs) (sys st), large_blocks := (\<lambda>z. if z \<in> set xs then None else large_blocks st z)\<rparr>)"
  using assms
proof (induction xs arbitrary: prev a st)
  case Nil
  have "filter (\<lambda>(b, _). True) (sys st) = sys st" by (simp add: filter_id_conv split_def)
  then show ?case using Nil by (subst pop_large.simps) simp
next
  case (Cons x xs)
  then obtain l where l: "x = a" "a \<noteq> 0" "large_blocks st a = Some l" "large_list (large_blocks st) pb a (lb_next l) xs 0" by auto
  define st1 where "st1 = st\<lparr>sys := filter (\<lambda>(b, _). b \<noteq> a) (sys st), large_blocks := (large_blocks st)(a := None)\<rparr>"
  obtain n where "(a, n) \<in> set (sys st)" using Cons.prems(3) l(1) by force
  then have free: "MEM_LARGE_BLOCK_free a st = Inr st1"
    using l(3) c_free_ok [of a n "MEM_LARGE_BLOCK_zap a l st"]
    by (simp add: MEM_LARGE_BLOCK_free_def MEM_LARGE_BLOCK_zap_def get_large_def set_large_def st1_def)
  have list: "large_list (large_blocks st1) pb a (lb_next l) xs 0" using l(1,4) Cons.prems(2) by (subst large_list_cong) (auto simp: st1_def)
  have "pop_large (lb_next l) st1 = Inr (st1\<lparr>sys := filter (\<lambda>(b, _). b \<notin> set xs) (sys st1), large_blocks := (\<lambda>z. if z \<in> set xs then None else large_blocks st1 z)\<rparr>)"
  proof (rule Cons.IH [OF list])
    show "x' \<in> fst ` set (sys st1)" if "x' \<in> set xs" for x'
    proof -
      have "x' \<noteq> a" using that l(1) Cons.prems(2) by auto
      then show ?thesis using Cons.prems(3) [of x'] that by (force simp: st1_def)
    qed
  qed (use Cons.prems(2) in simp)
  moreover have "pop_large a st = pop_large (lb_next l) st1" using l free by (subst pop_large.simps) (simp add: get_large_def)
  moreover have "(\<lambda>z. if z \<in> set xs then None else ((large_blocks st)(a := None)) z) = (\<lambda>z. if z \<in> set (a # xs) then None else large_blocks st z)"
    by auto
  ultimately show ?case using l(1) filter_fst_distinct [of "set xs" a "sys st"] by (simp add: st1_def cong: if_cong)
qed

lemma pop_blocks_ok:
  assumes "block_seg (mem_blocks st) b xs (pb_base_block r)" and "distinct xs" and "pb_base_block r \<notin> set xs"
    and "\<And>x. x \<in> set xs \<Longrightarrow> x \<in> fst ` set (sys st)"
    and base: "pb_base_block r \<noteq> 0 \<Longrightarrow> mem_blocks st (pb_base_block r) = Some blk \<and> (pb_base_block r, n) \<in> set (sys st) \<and>
      pb_base_block r \<le> pb_base_ptr r \<and> pb_base_ptr r + pb_base_avail r \<le> pb_base_block r + n"
    and "mem_blocks st 0 = None"
  shows "pop_blocks bz r b st = Inr (st\<lparr>sys := filter (\<lambda>(b, _). b \<notin> set xs) (sys st),
    bytes := (\<lambda>x. if bz \<and> pb_base_block r \<noteq> 0 \<and> pb_base_ptr r \<le> x \<and> x < pb_base_ptr r + pb_base_avail r then 0 else bytes st x),
    mem_blocks := restored r (\<lambda>z. if z \<in> set xs then None else mem_blocks st z)\<rparr>)"
  using assms
proof (induction xs arbitrary: b st)
  case Nil
  have f: "filter (\<lambda>(b, _). True) (sys st) = sys st" by (simp add: filter_id_conv split_def)
  show ?case
  proof (cases "pb_base_block r = 0")
    case True
    then show ?thesis using Nil f by (subst pop_blocks.simps) (simp add: restored_def)
  next
    case False
    note base = Nil.prems(5) [OF False]
    have "in_sys st (pb_base_ptr r) (pb_base_avail r)" using base by (force simp: in_sys_def)
    then show ?thesis using Nil f False base
      by (subst pop_blocks.simps) (simp add: get_block_def set_block_def restored_def fill_def in_sys_def Let_def cong: if_cong)
  qed
next
  case (Cons x xs)
  then obtain bl where l: "x = b" "b \<noteq> 0" "mem_blocks st b = Some bl" "block_seg (mem_blocks st) (mb_rest bl) xs (pb_base_block r)" by auto
  define st1 where "st1 = st\<lparr>sys := filter (\<lambda>(c, _). c \<noteq> b) (sys st), mem_blocks := (mem_blocks st)(b := None)\<rparr>"
  obtain n' where "(b, n') \<in> set (sys st)" using Cons.prems(4) l(1) by force
  then have free: "free_block b st = Inr st1" using c_free_ok [of b n' st] by (simp add: free_block_def st1_def)
  have ne: "pb_base_block r \<noteq> b" using l(1) Cons.prems(3) by auto
  have "pop_blocks bz r (mb_rest bl) st1 = Inr (st1\<lparr>sys := filter (\<lambda>(b, _). b \<notin> set xs) (sys st1),
      bytes := (\<lambda>x. if bz \<and> pb_base_block r \<noteq> 0 \<and> pb_base_ptr r \<le> x \<and> x < pb_base_ptr r + pb_base_avail r then 0 else bytes st1 x),
      mem_blocks := restored r (\<lambda>z. if z \<in> set xs then None else mem_blocks st1 z)\<rparr>)"
  proof (rule Cons.IH)
    show "block_seg (mem_blocks st1) (mb_rest bl) xs (pb_base_block r)" using l(1,4) Cons.prems(2) by (subst block_seg_cong) (auto simp: st1_def)
    show "x' \<in> fst ` set (sys st1)" if "x' \<in> set xs" for x'
    proof -
      have "x' \<noteq> b" using that l(1) Cons.prems(2) by auto
      then show ?thesis using Cons.prems(4) [of x'] that by (force simp: st1_def)
    qed
    show "mem_blocks st1 (pb_base_block r) = Some blk \<and> (pb_base_block r, n) \<in> set (sys st1) \<and>
      pb_base_block r \<le> pb_base_ptr r \<and> pb_base_ptr r + pb_base_avail r \<le> pb_base_block r + n" if "pb_base_block r \<noteq> 0"
      using Cons.prems(5) [OF that] ne by (simp add: st1_def)
  qed (use Cons.prems l in \<open>simp_all add: st1_def\<close>)
  moreover have "pop_blocks bz r b st = pop_blocks bz r (mb_rest bl) st1"
    using l free ne by (subst pop_blocks.simps) (simp add: get_block_def)
  moreover have "(\<lambda>z. if z \<in> set xs then None else ((mem_blocks st)(b := None)) z) = (\<lambda>z. if z \<in> set (b # xs) then None else mem_blocks st z)"
    by auto
  ultimately show ?case using l(1) filter_fst_distinct [of "set xs" b "sys st"] by (simp add: st1_def cong: if_cong)
qed

declare levels_ok.simps(2) [simp del]

end
