(* ===== verification/Memory_Pool_Live.thy ===== *)
theory Memory_Pool_Live
  imports Memory_Pool_Levels
begin

text \<open>
  The abstract view of a memory pool: a stack of sets of addresses, the bytes that have been given out since each level was pushed.
\<close>

definition level_bytes :: "(int \<times> int) list \<Rightarrow> (int \<rightharpoonup> mem_block) \<Rightarrow> mem_pool_blocks \<Rightarrow> level \<Rightarrow> int set" where
  "level_bytes s mb r l =
     (\<Union>b \<in> set (lv_blocks l). {b + MEM_BLOCK_OVERHEAD ..< mb_ptr (the (mb b))}) \<union>
     (if pb_base_block r = 0 then {} else {pb_base_ptr r ..< mb_ptr (the (mb (pb_base_block r)))}) \<union>
     (\<Union>a \<in> set (lv_large l). {a + MEM_LARGE_BLOCK_OVERHEAD ..< a + the (map_of s a)})"

fun live_in :: "(int \<rightharpoonup> mem_pool_blocks) \<Rightarrow> (int \<times> int) list \<Rightarrow> (int \<rightharpoonup> mem_block) \<Rightarrow> level list \<Rightarrow> int set list" where
  "live_in pl s mb [] = []"
| "live_in pl s mb (l # ls) =
     (let r = the (pl (lv_addr l)) in level_bytes s mb r l # live_in pl s (restored r mb) ls)"

definition live :: "mem_state \<Rightarrow> level list \<Rightarrow> int set list" where
  "live st ls = live_in (pool_levels st) (sys st) (mem_blocks st) ls"

lemma length_live: "length (live st ls) = length ls"
proof -
  have "length (live_in pl s mb ls) = length ls" for pl s mb by (induction ls arbitrary: mb) (simp_all add: Let_def)
  then show ?thesis by (simp add: live_def)
qed

lemma restored_zero: "mb 0 = None \<Longrightarrow> restored r mb 0 = None"
  by (auto simp: restored_def split: option.splits)

lemma restored_cong:
  assumes "pb_base_block r = head_of ls" and "\<And>b. b \<in> set (all_blocks ls) \<Longrightarrow> mb' b = mb b" and "mb 0 = None" and "mb' 0 = None"
  shows "mb' (pb_base_block r) = mb (pb_base_block r)" and "b \<in> set (all_blocks ls) \<Longrightarrow> restored r mb' b = restored r mb b"
proof -
  show *: "mb' (pb_base_block r) = mb (pb_base_block r)"
    using assms head_of_in [of ls] by (cases "head_of ls = 0") auto
  show "restored r mb' b = restored r mb b" if "b \<in> set (all_blocks ls)"
    using * assms(2) [OF that] by (auto simp: restored_def split: option.splits)
qed

lemma level_bytes_cong:
  assumes "\<And>b. b \<in> set (lv_blocks l) \<Longrightarrow> mb' b = mb b" and "mb' (pb_base_block r) = mb (pb_base_block r)"
    and "\<And>a. a \<in> set (lv_large l) \<Longrightarrow> map_of s' a = map_of s a"
  shows "level_bytes s' mb' r l = level_bytes s mb r l"
  using assms by (simp add: level_bytes_def)

lemma level_bytes_Cons: "level_bytes s mb r (l\<lparr>lv_blocks := b # bs\<rparr>) = {b + MEM_BLOCK_OVERHEAD ..< mb_ptr (the (mb b))} \<union> level_bytes s mb r (l\<lparr>lv_blocks := bs\<rparr>)"
  by (simp add: level_bytes_def Un_assoc)

lemma level_bytes_fields [simp]: "level_bytes s mb (r\<lparr>pb_block := a\<rparr>) l = level_bytes s mb r l" "level_bytes s mb (r\<lparr>pb_large := a\<rparr>) l = level_bytes s mb r l"
  "level_bytes s mb r (l\<lparr>lv_blocks := lv_blocks l\<rparr>) = level_bytes s mb r l"
  by (simp_all add: level_bytes_def)

lemma live_in_cong:
  assumes "levels_ok pl lb mb pb ls" and "\<And>a. a \<in> lv_addr ` set ls \<Longrightarrow> pl' a = pl a" and "\<And>b. b \<in> set (all_blocks ls) \<Longrightarrow> mb' b = mb b"
    and "\<And>a. a \<in> set (all_large ls) \<Longrightarrow> map_of s' a = map_of s a" and "mb 0 = None" and "mb' 0 = None"
  shows "live_in pl' s' mb' ls = live_in pl s mb ls"
  using assms
proof (induction ls arbitrary: pb mb mb')
  case (Cons l ls)
  from Cons.prems(1) obtain r where r: "pl pb = Some r" "pb = lv_addr l" "pb_base_block r = head_of ls" "levels_ok pl lb (restored r mb) (pb_rest r) ls"
    by (rule levels_okE)
  have mb: "mb' b = mb b" if "b \<in> set (all_blocks ls)" for b using Cons.prems(3) that by simp
  note cong = restored_cong [where mb = mb and mb' = mb', OF r(3) mb Cons.prems(5,6)]
  have "live_in pl' s' (restored r mb') ls = live_in pl s (restored r mb) ls"
    by (rule Cons.IH [OF r(4)]) (use Cons.prems cong in \<open>auto simp: restored_zero\<close>)
  moreover have "level_bytes s' mb' r l = level_bytes s mb r l"
    by (rule level_bytes_cong) (use Cons.prems cong(1) in auto)
  ultimately show ?case using r(1,2) Cons.prems(2) by simp
qed simp

text \<open>The first block may belong to the level itself or to a level below; in both cases what is cut off it belongs to the level.\<close>

lemma live_bump:
  assumes lv: "levels_ok pl lb mb pb (l # ls)" and "distinct (all_blocks (l # ls))" and b: "head_of (l # ls) = b" "b \<noteq> 0" "mb b = Some blk"
    and n: "0 \<le> n" and "mb 0 = None"
  shows "live_in pl s (mb(b \<mapsto> blk\<lparr>mb_ptr := mb_ptr blk + n, mb_avail := k\<rparr>)) (l # ls) =
    (hd (live_in pl s mb (l # ls)) \<union> {mb_ptr blk ..< mb_ptr blk + n}) # tl (live_in pl s mb (l # ls))"
proof -
  define blk' where "blk' = blk\<lparr>mb_ptr := mb_ptr blk + n, mb_avail := k\<rparr>"
  from lv obtain r where r: "pl pb = Some r" "pb = lv_addr l" "pb_base_block r = head_of ls"
    "\<forall>b \<in> set (lv_blocks l). \<exists>blk. mb b = Some blk \<and> header_ok b blk" "base_ok mb r" "levels_ok pl lb (restored r mb) (pb_rest r) ls"
    by (rule levels_okE)
  show ?thesis
  proof (cases "lv_blocks l")
    case Nil
    then have h: "pb_base_block r = b" using b(1) r(3) by simp
    then have "restored r (mb(b \<mapsto> blk')) = restored r mb" using b(3) by (auto simp: restored_def blk'_def)
    moreover have "pb_base_ptr r \<le> mb_ptr blk" using r(5) h b(2,3) by (auto simp: base_ok_def)
    then have "level_bytes s (mb(b \<mapsto> blk')) r l = level_bytes s mb r l \<union> {mb_ptr blk ..< mb_ptr blk + n}"
      using Nil h b(2,3) n by (auto simp: level_bytes_def blk'_def)
    ultimately show ?thesis using r(1,2) by (simp add: blk'_def)
  next
    case (Cons x xs)
    then have x: "x = b" "b \<notin> set xs" and nb: "b \<notin> set (all_blocks ls)" using b(1) assms(2) by auto
    then have base: "pb_base_block r \<noteq> b" using r(3) head_of_in [of ls] b(2) by auto
    have rest: "live_in pl s (restored r (mb(b \<mapsto> blk'))) ls = live_in pl s (restored r mb) ls"
      unfolding restored_upd [OF base [symmetric]] using nb b(2) assms(7) by (intro live_in_cong [OF r(6)]) (auto simp: restored_zero)
    have "header_ok b blk" using r(4) Cons x b(3) by auto
    then have "{b + MEM_BLOCK_OVERHEAD ..< mb_ptr blk + n} = {b + MEM_BLOCK_OVERHEAD ..< mb_ptr blk} \<union> {mb_ptr blk ..< mb_ptr blk + n}"
      using n by (auto simp: header_ok_def)
    moreover have "level_bytes s (mb(b \<mapsto> blk')) r (l\<lparr>lv_blocks := xs\<rparr>) = level_bytes s mb r (l\<lparr>lv_blocks := xs\<rparr>)"
      using x base by (intro level_bytes_cong) auto
    moreover have "l\<lparr>lv_blocks := b # xs\<rparr> = l" using Cons x by simp
    then have "level_bytes s m r l = {b + MEM_BLOCK_OVERHEAD ..< mb_ptr (the (m b))} \<union> level_bytes s m r (l\<lparr>lv_blocks := xs\<rparr>)" for m
      using level_bytes_Cons [where l = l and b = b and bs = xs] by simp
    ultimately have "level_bytes s (mb(b \<mapsto> blk')) r l = level_bytes s mb r l \<union> {mb_ptr blk ..< mb_ptr blk + n}"
      using b(3) by (auto simp: blk'_def)
    then show ?thesis using rest r(1,2) by (simp add: blk'_def)
  qed
qed

lemma live_add_block:
  assumes lv: "levels_ok pl lb mb pb (l # ls)" and r: "pl pb = Some r" and b: "b \<notin> set (all_blocks (l # ls))" "b \<noteq> 0" and "mb 0 = None"
    and "pb \<notin> lv_addr ` set ls" and s: "\<And>a. a \<in> set (all_large (l # ls)) \<Longrightarrow> map_of s' a = map_of s a"
  shows "live_in (pl(pb \<mapsto> r\<lparr>pb_block := b\<rparr>)) s' (mb(b \<mapsto> \<lparr>mb_avail = k, mb_ptr = b + MEM_BLOCK_OVERHEAD, mb_rest = m\<rparr>))
    (l\<lparr>lv_blocks := b # lv_blocks l\<rparr> # ls) = live_in pl s mb (l # ls)"
proof -
  let ?blk = "\<lparr>mb_avail = k, mb_ptr = b + MEM_BLOCK_OVERHEAD, mb_rest = m\<rparr>"
  from lv have r': "pb = lv_addr l" "pb_base_block r = head_of ls" "levels_ok pl lb (restored r mb) (pb_rest r) ls" using r by (auto simp: levels_ok.simps)
  have base: "pb_base_block r \<noteq> b" using r'(2) head_of_in [of ls] b by auto
  have "live_in (pl(pb \<mapsto> r\<lparr>pb_block := b\<rparr>)) s' (restored r (mb(b \<mapsto> ?blk))) ls = live_in pl s (restored r mb) ls"
    unfolding restored_upd [OF base [symmetric]] using b assms(5,6) s by (intro live_in_cong [OF r'(3)]) (auto simp: restored_zero)
  moreover have "level_bytes s' (mb(b \<mapsto> ?blk)) (r\<lparr>pb_block := b\<rparr>) (l\<lparr>lv_blocks := b # lv_blocks l\<rparr>) = level_bytes s mb r l"
  proof -
    have "level_bytes s' (mb(b \<mapsto> ?blk)) r l = level_bytes s mb r l" using b(1) base s by (intro level_bytes_cong) auto
    then show ?thesis by (simp add: level_bytes_Cons)
  qed
  ultimately show ?thesis using r r'(1) by simp
qed

lemma live_push:
  assumes lv: "levels_ok (pl(pb \<mapsto> new)) lb mb pb (\<lparr>lv_addr = pb, lv_blocks = [], lv_large = []\<rparr> # ls)" and "restored new mb = mb"
    and "pb \<notin> lv_addr ` set ls" and "mb 0 = None"
  shows "live_in (pl(pb \<mapsto> new)) s mb (\<lparr>lv_addr = pb, lv_blocks = [], lv_large = []\<rparr> # ls) = {} # live_in pl s mb ls"
proof -
  from lv have new: "base_ok mb new" "levels_ok (pl(pb \<mapsto> new)) lb mb (pb_rest new) ls" using assms(2) by (auto simp: levels_ok.simps)
  have "live_in pl s mb ls = live_in (pl(pb \<mapsto> new)) s mb ls" by (rule live_in_cong [OF new(2)]) (use assms(3,4) in auto)
  moreover have "level_bytes s mb new \<lparr>lv_addr = pb, lv_blocks = [], lv_large = []\<rparr> = {}"
  proof (cases "pb_base_block new = 0")
    case False
    then obtain blk where blk: "mb (pb_base_block new) = Some blk" using new(1) by (auto simp: base_ok_def)
    have "restored new mb (pb_base_block new) = Some (blk\<lparr>mb_ptr := pb_base_ptr new, mb_avail := pb_base_avail new\<rparr>)" using blk by (simp add: restored_def)
    then have "blk = blk\<lparr>mb_ptr := pb_base_ptr new, mb_avail := pb_base_avail new\<rparr>" using blk assms(2) by simp
    then have "mb_ptr blk = pb_base_ptr new" by (metis mem_block.select_convs(2) mem_block.surjective mem_block.update_convs(1) mem_block.update_convs(2))
    then show ?thesis using blk by (simp add: level_bytes_def)
  qed (simp add: level_bytes_def)
  ultimately show ?thesis using assms(2) by simp
qed

text \<open>The large blocks of the first level are replaced.\<close>

lemma live_large:
  assumes lv: "levels_ok pl lb mb pb (l # ls)" and r: "pl pb = Some r" and "pb \<notin> lv_addr ` set ls" and "mb 0 = None"
    and s: "\<And>a. a \<in> set (all_large ls) \<Longrightarrow> map_of s' a = map_of s a"
  shows "live_in (pl(pb \<mapsto> r\<lparr>pb_large := a\<rparr>)) s' mb (l\<lparr>lv_large := xs\<rparr> # ls) =
    level_bytes s' mb r (l\<lparr>lv_large := xs\<rparr>) # tl (live_in pl s mb (l # ls))"
proof -
  from lv have r': "pb = lv_addr l" "levels_ok pl lb (restored r mb) (pb_rest r) ls" using r by (auto simp: levels_ok.simps)
  have "live_in (pl(pb \<mapsto> r\<lparr>pb_large := a\<rparr>)) s' (restored r mb) ls = live_in pl s (restored r mb) ls"
    using assms(3,4) s by (intro live_in_cong [OF r'(2)]) (auto simp: restored_zero)
  then show ?thesis using r r'(1) by (simp add: level_bytes_def)
qed

text \<open>Every byte given out lies in a block or a large block of the pool, behind the header and before the free part of the block.\<close>

lemma levels_headers:
  assumes "levels_ok pl lb mb pb ls" and "b \<in> set (all_blocks ls)" and "0 \<notin> set (all_blocks ls)"
  shows "\<exists>blk. mb b = Some blk \<and> header_ok b blk"
  using assms
proof (induction ls arbitrary: pb mb)
  case (Cons l ls)
  from Cons.prems(1) obtain r where r: "pb_base_block r = head_of ls" "\<forall>b \<in> set (lv_blocks l). \<exists>blk. mb b = Some blk \<and> header_ok b blk"
    "base_ok mb r" "levels_ok pl lb (restored r mb) (pb_rest r) ls" by (rule levels_okE)
  show ?case
  proof (cases "b \<in> set (lv_blocks l)")
    case False
    then have b: "b \<in> set (all_blocks ls)" "b \<noteq> 0" using Cons.prems(2,3) by auto
    show ?thesis
    proof (cases "b = pb_base_block r")
      case True
      then show ?thesis using r(3) b(2) by (auto simp: base_ok_def)
    next
      case neq: False
      have "\<exists>blk. restored r mb b = Some blk \<and> header_ok b blk" by (rule Cons.IH [OF r(4) b(1)]) (use Cons.prems(3) in auto)
      then show ?thesis using restored_other [OF neq, of mb] by simp
    qed
  qed (use r(2) in blast)
qed simp

lemma restored_ptr:
  assumes "base_ok mb r" and "restored r mb b = Some blk'" and "b \<noteq> 0"
  shows "\<exists>blk. mb b = Some blk \<and> mb_ptr blk' \<le> mb_ptr blk"
proof (cases "b = pb_base_block r")
  case True
  then show ?thesis using assms by (auto simp: base_ok_def restored_def)
qed (use assms(2) restored_other [of b r mb] in auto)

lemma live_in_place:
  assumes "levels_ok pl lb mb pb ls" and "X \<in> set (live_in pl s mb ls)" and "x \<in> X" and "0 \<notin> set (all_blocks ls)"
  shows "(\<exists>b \<in> set (all_blocks ls). \<exists>blk. mb b = Some blk \<and> b + MEM_BLOCK_OVERHEAD \<le> x \<and> x < mb_ptr blk) \<or>
    (\<exists>a \<in> set (all_large ls). a + MEM_LARGE_BLOCK_OVERHEAD \<le> x \<and> x < a + the (map_of s a))"
  using assms
proof (induction ls arbitrary: pb mb)
  case (Cons l ls)
  from Cons.prems(1) obtain r where r: "pl pb = Some r" "pb = lv_addr l" "pb_base_block r = head_of ls"
    "\<forall>b \<in> set (lv_blocks l). \<exists>blk. mb b = Some blk \<and> header_ok b blk" "base_ok mb r" "levels_ok pl lb (restored r mb) (pb_rest r) ls" by (rule levels_okE)
  have base: "\<exists>blk. restored r mb (head_of ls) = Some blk \<and> header_ok (head_of ls) blk" if "head_of ls \<noteq> 0"
    by (rule levels_headers [OF r(6) head_of_in [OF that]]) (use Cons.prems(4) in auto)
  show ?case
  proof (cases "X \<in> set (live_in pl s (restored r mb) ls)")
    case True
    have "(\<exists>b \<in> set (all_blocks ls). \<exists>blk. restored r mb b = Some blk \<and> b + MEM_BLOCK_OVERHEAD \<le> x \<and> x < mb_ptr blk) \<or>
        (\<exists>a \<in> set (all_large ls). a + MEM_LARGE_BLOCK_OVERHEAD \<le> x \<and> x < a + the (map_of s a))"
      by (rule Cons.IH [OF r(6) True Cons.prems(3)]) (use Cons.prems(4) in auto)
    then show ?thesis using restored_ptr [OF r(5)] Cons.prems(4) by fastforce
  next
    case False
    then have X: "x \<in> level_bytes s mb r l" using Cons.prems(2,3) r(1,2) by simp
    then consider b where "b \<in> set (lv_blocks l)" "b + MEM_BLOCK_OVERHEAD \<le> x" "x < mb_ptr (the (mb b))"
      | "head_of ls \<noteq> 0" "pb_base_ptr r \<le> x" "x < mb_ptr (the (mb (head_of ls)))"
      | a where "a \<in> set (lv_large l)" "a + MEM_LARGE_BLOCK_OVERHEAD \<le> x" "x < a + the (map_of s a)"
      unfolding level_bytes_def r(3) by (auto split: if_splits)
    then show ?thesis
    proof cases
      case 2
      obtain blk where "mb (head_of ls) = Some blk" using r(3,5) 2(1) by (auto simp: base_ok_def)
      moreover have "head_of ls + MEM_BLOCK_OVERHEAD \<le> pb_base_ptr r" using base [OF 2(1)] r(3) calculation by (auto simp: restored_def header_ok_def)
      ultimately show ?thesis using 2 head_of_in [OF 2(1)] by (intro disjI1 bexI [of _ "head_of ls"]) auto
    qed (use r(4) in fastforce)+
  qed
qed simp

text \<open>The sets of different levels are disjoint.\<close>

lemma live_disjoint:
  assumes "levels_ok pl lb mb pb ls" and "distinct (all_blocks ls @ all_large ls)" and "0 \<notin> set (all_blocks ls)"
    and far: "\<And>a b. a \<in> set (all_blocks ls @ all_large ls) \<Longrightarrow> b \<in> set (all_blocks ls @ all_large ls) \<Longrightarrow> a \<noteq> b \<Longrightarrow> apart a (size_of a) b (size_of b)"
    and block: "\<And>b. b \<in> set (all_blocks ls) \<Longrightarrow> size_of b = MEM_BLOCK_OVERHEAD + BLOCK_SIZE"
    and large: "\<And>a. a \<in> set (all_large ls) \<Longrightarrow> the (map_of s a) = size_of a"
  shows "sorted_wrt disjnt (live_in pl s mb ls)"
  using assms
proof (induction ls arbitrary: pb mb)
  case (Cons l ls)
  from Cons.prems(1) obtain r where r: "pl pb = Some r" "pb = lv_addr l" "pb_base_block r = head_of ls"
    "\<forall>b \<in> set (lv_blocks l). \<exists>blk. mb b = Some blk \<and> header_ok b blk" "base_ok mb r" "levels_ok pl lb (restored r mb) (pb_rest r) ls" by (rule levels_okE)
  have "sorted_wrt disjnt (live_in pl s (restored r mb) ls)"
    by (rule Cons.IH [OF r(6)]) (use Cons.prems(2-6) in auto)
  moreover have "disjnt (level_bytes s mb r l) X" if X: "X \<in> set (live_in pl s (restored r mb) ls)" for X
    unfolding disjnt_iff
  proof (intro allI notI, elim conjE)
    fix x assume x: "x \<in> level_bytes s mb r l" "x \<in> X"
    have one: "c = d" if "c \<in> set (all_blocks (l # ls) @ all_large (l # ls))" "d \<in> set (all_blocks (l # ls) @ all_large (l # ls))"
        "c \<le> x" "x < c + size_of c" "d \<le> x" "x < d + size_of d" for c d
      using Cons.prems(4) [OF that(1,2)] that(3-6) by (auto simp: apart_def)
    have in_block: "b \<le> x \<and> x < b + size_of b" if "b \<in> set (all_blocks (l # ls))" "header_ok b blk" "b + MEM_BLOCK_OVERHEAD \<le> x" "x < mb_ptr blk" for b blk
      using Cons.prems(5) [OF that(1)] that(2-4) by (auto simp: header_ok_def MEM_BLOCK_OVERHEAD_def)
    have in_large: "a \<le> x \<and> x < a + size_of a" if "a \<in> set (all_large (l # ls))" "a + MEM_LARGE_BLOCK_OVERHEAD \<le> x" "x < a + the (map_of s a)" for a
      using Cons.prems(6) [OF that(1)] that(2,3) by (simp add: MEM_LARGE_BLOCK_OVERHEAD_def)
    have hdr: "\<exists>blk. restored r mb b = Some blk \<and> header_ok b blk" if "b \<in> set (all_blocks ls)" for b
      by (rule levels_headers [OF r(6) that]) (use Cons.prems(3) in auto)
    have "\<exists>d \<in> set (all_blocks ls @ all_large ls). d \<le> x \<and> x < d + size_of d \<and> (d = head_of ls \<longrightarrow> d \<in> set (all_blocks ls) \<longrightarrow> x < pb_base_ptr r)"
    proof -
      have "0 \<notin> set (all_blocks ls)" using Cons.prems(3) by simp
      from live_in_place [OF r(6) X x(2) this] show ?thesis
      proof
        assume "\<exists>b \<in> set (all_blocks ls). \<exists>blk. restored r mb b = Some blk \<and> b + MEM_BLOCK_OVERHEAD \<le> x \<and> x < mb_ptr blk"
        then obtain b blk where b: "b \<in> set (all_blocks ls)" "restored r mb b = Some blk" "b + MEM_BLOCK_OVERHEAD \<le> x" "x < mb_ptr blk" by blast
        have "header_ok b blk" using hdr [OF b(1)] b(2) by simp
        moreover have "x < pb_base_ptr r" if "b = head_of ls" using b(2,4) that r(3) by (auto simp: restored_def split: option.splits)
        ultimately show ?thesis using in_block [of b blk] b by auto
      next
        assume "\<exists>a \<in> set (all_large ls). a + MEM_LARGE_BLOCK_OVERHEAD \<le> x \<and> x < a + the (map_of s a)"
        then obtain a where a: "a \<in> set (all_large ls)" "a + MEM_LARGE_BLOCK_OVERHEAD \<le> x" "x < a + the (map_of s a)" by blast
        then show ?thesis using in_large [of a] Cons.prems(2) by auto
      qed
    qed
    then obtain d where d: "d \<in> set (all_blocks ls @ all_large ls)" "d \<le> x" "x < d + size_of d" "d = head_of ls \<Longrightarrow> d \<in> set (all_blocks ls) \<Longrightarrow> x < pb_base_ptr r" by blast
    from x(1) consider b where "b \<in> set (lv_blocks l)" "b + MEM_BLOCK_OVERHEAD \<le> x" "x < mb_ptr (the (mb b))"
      | "head_of ls \<noteq> 0" "pb_base_ptr r \<le> x" "x < mb_ptr (the (mb (head_of ls)))"
      | a where "a \<in> set (lv_large l)" "a + MEM_LARGE_BLOCK_OVERHEAD \<le> x" "x < a + the (map_of s a)"
      unfolding level_bytes_def r(3) by (auto split: if_splits)
    then show False
    proof cases
      case 1
      obtain blk where "mb b = Some blk" "header_ok b blk" using r(4) 1(1) by blast
      then have "b = d" using one [of b d] in_block [of b blk] 1 d by auto
      then show False using 1(1) d(1) Cons.prems(2) by auto
    next
      case 2
      obtain blk where blk: "mb (head_of ls) = Some blk" "header_ok (head_of ls) blk" using r(3,5) 2(1) by (auto simp: base_ok_def)
      have h: "head_of ls \<in> set (all_blocks ls)" by (rule head_of_in [OF 2(1)])
      have "head_of ls + MEM_BLOCK_OVERHEAD \<le> pb_base_ptr r" using hdr [OF h] r(3) blk by (auto simp: restored_def header_ok_def)
      then have "head_of ls = d" using one [of "head_of ls" d] in_block [of "head_of ls" blk] 2 d blk h by auto
      then show False using d(4) h 2(2) by simp
    next
      case 3
      then have "a = d" using one [of a d] in_large [of a] d by auto
      then show False using 3(1) d(1) Cons.prems(2) by auto
    qed
  qed
  ultimately show ?case using r(1,2) by simp
qed simp

end
