(* ===== verification/Memory_Pool_Inv.thy ===== *)
theory Memory_Pool_Inv
  imports Memory_Pool_Live
begin

text \<open>
  The invariant of the memory pools and that every operation keeps it. \<open>L\<close> gives the levels of every pool, \<open>F\<close> the unused
  level headers.
\<close>

section \<open>The invariant\<close>

definition areas :: "level list \<Rightarrow> int list" where
  "areas ls = all_blocks ls @ all_large ls"

lemma areas_simps [simp]: "areas [] = []" "set (areas (l # ls)) = set (lv_blocks l) \<union> set (lv_large l) \<union> set (areas ls)"
  by (auto simp: areas_def)

lemma areas_in: "b \<in> set (all_blocks ls) \<Longrightarrow> b \<in> set (areas ls)" "a \<in> set (all_large ls) \<Longrightarrow> a \<in> set (areas ls)"
  by (simp_all add: areas_def)

definition BLOCK_BYTES :: int where
  "BLOCK_BYTES = BLOCK_SIZE + MEM_BLOCK_OVERHEAD"

text \<open>Memory of a zeroing pool that has not been given out is zero.\<close>

definition zero_ok :: "mem_state \<Rightarrow> int \<Rightarrow> level list \<Rightarrow> bool" where
  "zero_ok st p ls \<longleftrightarrow> (pool_bz (mem_pools st p) \<longrightarrow> (\<forall>blk x. mem_blocks st (head_of ls) = Some blk \<longrightarrow>
     mb_ptr blk \<le> x \<longrightarrow> x < mb_ptr blk + mb_avail blk \<longrightarrow> bytes st x = 0))"

definition pool_ok :: "mem_state \<Rightarrow> int \<Rightarrow> level list \<Rightarrow> bool" where
  "pool_ok st p ls \<longleftrightarrow>
     (ls \<noteq> [] \<longrightarrow> p \<noteq> Default_Mem_Pool \<and> p \<noteq> Malloc_Mem_Pool \<and> pool_magic (mem_pools st p) = MAGIC_NUM \<and>
        levels_ok (pool_levels st) (large_blocks st) (mem_blocks st) (pool_blocks (mem_pools st p)) ls \<and>
        (\<forall>b \<in> set (all_blocks ls). (b, BLOCK_BYTES) \<in> set (sys st)) \<and>
        (\<forall>a \<in> set (all_large ls). \<exists>n. (a, n) \<in> set (sys st) \<and> MEM_LARGE_BLOCK_OVERHEAD < n) \<and> zero_ok st p ls)"

definition separate :: "(int \<Rightarrow> level list) \<Rightarrow> int list \<Rightarrow> bool" where
  "separate L F \<longleftrightarrow> (\<forall>p. distinct (areas (L p)) \<and> distinct (map lv_addr (L p) @ F) \<and> overhead_blocks \<notin> set (areas (L p))) \<and>
     (\<forall>p q. p \<noteq> q \<longrightarrow> set (areas (L p)) \<inter> set (areas (L q)) = {} \<and> lv_addr ` set (L p) \<inter> lv_addr ` set (L q) = {})"

fun free_chain :: "(int \<rightharpoonup> mem_pool_blocks) \<Rightarrow> int \<Rightarrow> int list \<Rightarrow> bool" where
  "free_chain pl a [] \<longleftrightarrow> a = 0"
| "free_chain pl a (x # xs) \<longleftrightarrow> x = a \<and> a \<noteq> 0 \<and> (\<exists>r. pl a = Some r \<and> free_chain pl (pb_rest r) xs)"

lemma free_chain_cong: "(\<And>a. a \<in> set xs \<Longrightarrow> pl' a = pl a) \<Longrightarrow> free_chain pl' a xs = free_chain pl a xs"
  by (induction xs arbitrary: a) auto

text \<open>The headers of levels are objects of the pool \<^verbatim>\<open>mem_overhead_pool\<close>, which is never pushed or popped.\<close>

definition overhead_ok :: "mem_state \<Rightarrow> (int \<Rightarrow> level list) \<Rightarrow> int list \<Rightarrow> bool" where
  "overhead_ok st L F \<longleftrightarrow> (\<exists>bs ls. L mem_overhead_pool = [\<lparr>lv_addr = overhead_blocks, lv_blocks = bs, lv_large = ls\<rparr>]) \<and>
     (\<forall>p. \<forall>a \<in> lv_addr ` set (L p) \<union> set F. a \<noteq> overhead_blocks \<longrightarrow>
       (\<exists>b \<in> set (all_blocks (L mem_overhead_pool)). \<exists>blk. mem_blocks st b = Some blk \<and> b + MEM_BLOCK_OVERHEAD \<le> a \<and> a + 48 \<le> mb_ptr blk))"

definition pools_inv :: "mem_state \<Rightarrow> (int \<Rightarrow> level list) \<Rightarrow> int list \<Rightarrow> bool" where
  "pools_inv st L F \<longleftrightarrow> (\<forall>p. pool_ok st p (L p)) \<and> separate L F \<and> sys_ok (sys st) \<and> redzone_size st = 0 \<and>
     (overhead_blocks, 48) \<in> set (sys st) \<and>
     dom (mem_blocks st) = (\<Union>p. set (all_blocks (L p))) \<and> dom (large_blocks st) = (\<Union>p. set (all_large (L p))) \<and>
     free_chain (pool_levels st) (free_mem_pool_blocks_list st) F \<and> overhead_ok st L F"

lemma pools_invD:
  assumes "pools_inv st L F"
  shows "pool_ok st p (L p)" and "separate L F" and "sys_ok (sys st)" and "redzone_size st = 0" and "(overhead_blocks, 48) \<in> set (sys st)"
    and "a \<in> set (areas (L p)) \<Longrightarrow> a \<in> fst ` set (sys st)" and "dom (mem_blocks st) = (\<Union>p. set (all_blocks (L p)))"
    and "dom (large_blocks st) = (\<Union>p. set (all_large (L p)))" and "free_chain (pool_levels st) (free_mem_pool_blocks_list st) F"
    and "overhead_ok st L F"
proof -
  show "a \<in> fst ` set (sys st)" if "a \<in> set (areas (L p))"
  proof -
    have "pool_ok st p (L p)" "L p \<noteq> []" using assms that by (auto simp: pools_inv_def)
    then show ?thesis using that by (auto simp: pool_ok_def areas_def rev_image_eqI)
  qed
qed (use assms in \<open>simp_all add: pools_inv_def\<close>)

lemma separateD:
  assumes "separate L F"
  shows "distinct (areas (L p))" and "distinct (map lv_addr (L p) @ F)" and "overhead_blocks \<notin> set (areas (L p))"
    and "p \<noteq> q \<Longrightarrow> a \<in> set (areas (L p)) \<Longrightarrow> a \<notin> set (areas (L q))" and "p \<noteq> q \<Longrightarrow> a \<in> lv_addr ` set (L p) \<Longrightarrow> a \<notin> lv_addr ` set (L q)"
  using assms unfolding separate_def by blast+

lemma pool_okD:
  assumes "pool_ok st p ls" and "ls \<noteq> []"
  shows "p \<noteq> Default_Mem_Pool" and "p \<noteq> Malloc_Mem_Pool" and "pool_magic (mem_pools st p) = MAGIC_NUM"
    and "levels_ok (pool_levels st) (large_blocks st) (mem_blocks st) (pool_blocks (mem_pools st p)) ls"
    and "b \<in> set (all_blocks ls) \<Longrightarrow> (b, BLOCK_BYTES) \<in> set (sys st)"
    and "a \<in> set (all_large ls) \<Longrightarrow> \<exists>n. (a, n) \<in> set (sys st) \<and> MEM_LARGE_BLOCK_OVERHEAD < n" and "zero_ok st p ls"
  using assms by (auto simp: pool_ok_def)

text \<open>A pool is not affected by changes elsewhere.\<close>

lemma pool_ok_frame:
  assumes "pool_ok st q ls" and "mem_pools st' q = mem_pools st q" and "\<And>a. a \<in> lv_addr ` set ls \<Longrightarrow> pool_levels st' a = pool_levels st a"
    and "\<And>a. a \<in> set (all_large ls) \<Longrightarrow> large_blocks st' a = large_blocks st a" and mb: "\<And>b. b \<in> set (all_blocks ls) \<Longrightarrow> mem_blocks st' b = mem_blocks st b"
    and sys: "\<And>b n. b \<in> set (areas ls) \<Longrightarrow> (b, n) \<in> set (sys st) \<Longrightarrow> (b, n) \<in> set (sys st')"
    and bytes: "\<And>b x. b \<in> set (all_blocks ls) \<Longrightarrow> b \<le> x \<Longrightarrow> x < b + BLOCK_BYTES \<Longrightarrow> bytes st' x = bytes st x" and zero: "mem_blocks st' 0 = None"
  shows "pool_ok st' q ls"
proof (cases ls)
  case Nil
  then show ?thesis using assms(1,2) by (simp add: pool_ok_def)
next
  case (Cons l ls')
  note D = pool_okD [OF assms(1)]
  have lv: "levels_ok (pool_levels st) (large_blocks st) (mem_blocks st) (pool_blocks (mem_pools st q)) ls" using D(4) Cons by simp
  have "levels_ok (pool_levels st') (large_blocks st') (mem_blocks st') (pool_blocks (mem_pools st' q)) ls"
    using lv assms(2-4) mb by (subst levels_ok_cong) auto
  moreover have "zero_ok st' q ls"
    unfolding zero_ok_def
  proof (intro impI allI)
    fix blk x assume bz: "pool_bz (mem_pools st' q)" and blk: "mem_blocks st' (head_of ls) = Some blk" and x: "mb_ptr blk \<le> x" "x < mb_ptr blk + mb_avail blk"
    have h: "head_of ls \<noteq> 0" using blk zero by auto
    then have i: "head_of ls \<in> set (all_blocks ls)" by (rule head_of_in)
    have "header_ok (head_of ls) blk" using top_level(4) [OF lv _ h] Cons blk mb [OF i] by auto
    then have "bytes st' x = bytes st x" using bytes [OF i, of x] x by (auto simp: header_ok_def BLOCK_BYTES_def MEM_BLOCK_OVERHEAD_def)
    moreover have "mem_blocks st (head_of ls) = Some blk" using blk mb [OF i] by simp
    then have "bytes st x = 0" using D(7) Cons bz assms(2) x unfolding zero_ok_def by auto
    ultimately show "bytes st' x = 0" by simp
  qed
  moreover have "\<forall>a \<in> set (all_large ls). \<exists>n. (a, n) \<in> set (sys st') \<and> MEM_LARGE_BLOCK_OVERHEAD < n" using D(6) sys areas_in Cons by (metis list.distinct(1))
  moreover have "\<forall>b \<in> set (all_blocks ls). (b, BLOCK_BYTES) \<in> set (sys st')" using D(5) sys areas_in Cons by (metis list.distinct(1))
  ultimately show ?thesis using D(1-3) assms(2) Cons by (simp add: pool_ok_def)
qed

lemma pool_ok_areas: "pool_ok st p ls \<Longrightarrow> a \<in> set (areas ls) \<Longrightarrow> a \<in> fst ` set (sys st)"
  by (cases "ls = []") (auto simp: pool_ok_def areas_def rev_image_eqI)

lemma live_frame:
  assumes "pool_ok st q ls" and "\<And>a. a \<in> lv_addr ` set ls \<Longrightarrow> pool_levels st' a = pool_levels st a"
    and "\<And>b. b \<in> set (all_blocks ls) \<Longrightarrow> mem_blocks st' b = mem_blocks st b" and "sys_ok (sys st)" and "sys_ok (sys st')"
    and sys: "\<And>b n. b \<in> set (areas ls) \<Longrightarrow> (b, n) \<in> set (sys st) \<Longrightarrow> (b, n) \<in> set (sys st')" and "mem_blocks st 0 = None" and "mem_blocks st' 0 = None"
  shows "live st' ls = live st ls"
proof (cases "ls = []")
  case False
  have "map_of (sys st') a = map_of (sys st) a" if a: "a \<in> set (all_large ls)" for a
  proof -
    obtain n where "(a, n) \<in> set (sys st)" using pool_okD(6) [OF assms(1) False a] by blast
    then show ?thesis using sys [OF areas_in(2) [OF a]] sys_okD(1) [OF assms(4)] sys_okD(1) [OF assms(5)] by (metis map_of_is_SomeI)
  qed
  then show ?thesis unfolding live_def using assms by (intro live_in_cong [OF pool_okD(4) [OF assms(1) False]]) auto
qed (simp add: live_def)

lemma separate_update:
  assumes "separate L F" and "distinct (areas ls')" and "distinct (map lv_addr ls' @ F')"
    and "\<And>x. x \<in> set (areas ls') \<Longrightarrow> x \<in> set (areas (L p)) \<or> x \<noteq> overhead_blocks \<and> (\<forall>q. x \<notin> set (areas (L q)))"
    and "\<And>x q. x \<in> lv_addr ` set ls' \<union> set F' \<Longrightarrow> q \<noteq> p \<Longrightarrow> x \<notin> lv_addr ` set (L q)"
  shows "separate (L(p := ls')) F'"
  unfolding separate_def
proof (intro conjI allI impI)
  fix q
  show "distinct (areas ((L(p := ls')) q))" "overhead_blocks \<notin> set (areas ((L(p := ls')) q))"
    using assms(2,4) separateD(1,3) [OF assms(1)] by auto
  show "distinct (map lv_addr ((L(p := ls')) q) @ F')" using assms(3,5) separateD(2) [OF assms(1), of q] by (auto simp: image_iff)
  fix q' assume q: "q \<noteq> q'"
  show "set (areas ((L(p := ls')) q)) \<inter> set (areas ((L(p := ls')) q')) = {}"
    using assms(4) separateD(4) [OF assms(1)] q by (auto; blast)
  show "lv_addr ` set ((L(p := ls')) q) \<inter> lv_addr ` set ((L(p := ls')) q') = {}"
  proof (cases "q = p \<or> q' = p")
    case True
    have "lv_addr ` set ls' \<inter> lv_addr ` set (L r) = {}" if "r \<noteq> p" for r using assms(5) [OF _ that] by blast
    then show ?thesis using True q by auto
  next
    case False
    then show ?thesis using assms(1) q by (simp add: separate_def)
  qed
qed

lemma pools_inv_update:
  assumes inv: "pools_inv st L F" and p: "pool_ok st' p ls'" and others: "\<And>q. q \<noteq> p \<Longrightarrow> mem_pools st' q = mem_pools st q"
    and pl: "\<And>q a. q \<noteq> p \<Longrightarrow> a \<in> lv_addr ` set (L q) \<Longrightarrow> pool_levels st' a = pool_levels st a"
    and lb: "\<And>q a. q \<noteq> p \<Longrightarrow> a \<in> set (all_large (L q)) \<Longrightarrow> large_blocks st' a = large_blocks st a"
    and mb: "\<And>q b. q \<noteq> p \<Longrightarrow> b \<in> set (all_blocks (L q)) \<Longrightarrow> mem_blocks st' b = mem_blocks st b"
    and sys: "\<And>q b n. q \<noteq> p \<Longrightarrow> b \<in> set (areas (L q)) \<Longrightarrow> (b, n) \<in> set (sys st) \<Longrightarrow> (b, n) \<in> set (sys st')"
    and bytes: "\<And>q b x. q \<noteq> p \<Longrightarrow> b \<in> set (all_blocks (L q)) \<Longrightarrow> b \<le> x \<Longrightarrow> x < b + BLOCK_BYTES \<Longrightarrow> bytes st' x = bytes st x"
    and sep: "separate (L(p := ls')) F'" and ok: "sys_ok (sys st')" "redzone_size st' = 0" "(overhead_blocks, 48) \<in> set (sys st')"
    and dom: "dom (mem_blocks st') = (\<Union>q. set (all_blocks ((L(p := ls')) q)))" "dom (large_blocks st') = (\<Union>q. set (all_large ((L(p := ls')) q)))"
    and chain: "free_chain (pool_levels st') (free_mem_pool_blocks_list st') F'" and over: "overhead_ok st' (L(p := ls')) F'"
  shows "pools_inv st' (L(p := ls')) F' \<and> (\<forall>q. q \<noteq> p \<longrightarrow> live st' (L q) = live st (L q))"
proof (intro conjI allI impI)
  have s0: "0 \<notin> fst ` set (sys st')" "0 \<notin> fst ` set (sys st)" using sys_okD(2) [OF ok(1)] sys_okD(2) [OF pools_invD(3) [OF inv]] by fastforce+
  have "0 \<notin> set (all_blocks (L q))" "0 \<notin> set (all_blocks ls')" for q
    using s0 pool_ok_areas [OF p, of 0] pools_invD(6) [OF inv, of 0 q] by (auto simp: areas_def)
  then have "0 \<notin> dom (mem_blocks st')" "0 \<notin> dom (mem_blocks st)" unfolding dom pools_invD(7) [OF inv] by auto
  then have m0: "mem_blocks st' 0 = None" "mem_blocks st 0 = None" by auto
  then have "pool_ok st' q ((L(p := ls')) q)" for q
    using p pool_ok_frame [OF pools_invD(1) [OF inv, of q], of st'] others pl lb mb sys bytes by (cases "q = p") auto
  then show "pools_inv st' (L(p := ls')) F'" using sep ok dom chain over by (simp add: pools_inv_def)
  show "live st' (L q) = live st (L q)" if "q \<noteq> p" for q
    using live_frame [OF pools_invD(1) [OF inv, of q], of st'] pl [OF that] mb [OF that] sys [OF that] pools_invD(3) [OF inv] ok(1) m0 by blast
qed

lemma overhead_mono:
  assumes "overhead_ok st L F" and "\<And>b blk. b \<in> set (all_blocks (L mem_overhead_pool)) \<Longrightarrow> mem_blocks st b = Some blk \<Longrightarrow>
      \<exists>blk'. mem_blocks st' b = Some blk' \<and> mb_ptr blk \<le> mb_ptr blk'"
    and "\<exists>bs ls. L' mem_overhead_pool = [\<lparr>lv_addr = overhead_blocks, lv_blocks = bs, lv_large = ls\<rparr>]"
    and "set (all_blocks (L mem_overhead_pool)) \<subseteq> set (all_blocks (L' mem_overhead_pool))"
    and new: "\<And>p a. a \<in> lv_addr ` set (L' p) \<union> set F' \<Longrightarrow> a \<noteq> overhead_blocks \<Longrightarrow> a \<in> (\<Union>p. lv_addr ` set (L p)) \<union> set F \<or>
      (\<exists>b \<in> set (all_blocks (L' mem_overhead_pool)). \<exists>blk. mem_blocks st' b = Some blk \<and> b + MEM_BLOCK_OVERHEAD \<le> a \<and> a + 48 \<le> mb_ptr blk)"
  shows "overhead_ok st' L' F'"
  unfolding overhead_ok_def
proof (intro conjI allI ballI impI)
  fix p a assume a: "a \<in> lv_addr ` set (L' p) \<union> set F'" "a \<noteq> overhead_blocks"
  show "\<exists>b \<in> set (all_blocks (L' mem_overhead_pool)). \<exists>blk. mem_blocks st' b = Some blk \<and> b + MEM_BLOCK_OVERHEAD \<le> a \<and> a + 48 \<le> mb_ptr blk"
  proof (cases "a \<in> (\<Union>p. lv_addr ` set (L p)) \<union> set F")
    case True
    then obtain b blk where b: "b \<in> set (all_blocks (L mem_overhead_pool))" "mem_blocks st b = Some blk" "b + MEM_BLOCK_OVERHEAD \<le> a" "a + 48 \<le> mb_ptr blk"
      using assms(1) a(2) unfolding overhead_ok_def by blast
    then show ?thesis using assms(2) [OF b(1,2)] assms(4) by fastforce
  qed (use new [OF a] in blast)
qed (use assms(3) in blast)

text \<open>What the invariant says about a pool that is in use.\<close>

lemma pools_inv_pool:
  assumes inv: "pools_inv st L F" and "L p \<noteq> []"
  shows "levels_ok (pool_levels st) (large_blocks st) (mem_blocks st) (pool_blocks (mem_pools st p)) (L p)" and "distinct (all_blocks (L p))"
    and "distinct (all_large (L p))" and "distinct (map lv_addr (L p))" and "mem_blocks st 0 = None"
    and "pool_of st p = Inr (mem_pools st p)" and "pool_magic (mem_pools st p) = MAGIC_NUM" and "pool_blocks (mem_pools st p) = lv_addr (hd (L p))"
    and "pool_blocks (mem_pools st p) \<noteq> 0" and "resolve_pool st p = p" and "p \<noteq> Malloc_Mem_Pool"
proof -
  note D = pool_okD [OF pools_invD(1) [OF inv] assms(2)]
  show lv: "levels_ok (pool_levels st) (large_blocks st) (mem_blocks st) (pool_blocks (mem_pools st p)) (L p)" by (rule D(4))
  show "distinct (all_blocks (L p))" "distinct (all_large (L p))" "distinct (map lv_addr (L p))"
    using separateD(1,2) [OF pools_invD(2) [OF inv], of p] by (auto simp: areas_def)
  have "0 \<notin> dom (mem_blocks st)" unfolding pools_invD(7) [OF inv]
  proof
    assume "0 \<in> (\<Union>p. set (all_blocks (L p)))"
    then have "0 \<in> fst ` set (sys st)" using pools_invD(6) [OF inv] by (auto simp: areas_def)
    then show False using sys_okD(2) [OF pools_invD(3) [OF inv]] by fastforce
  qed
  then show "mem_blocks st 0 = None" by auto
  show "pool_of st p = Inr (mem_pools st p)" "resolve_pool st p = p" using D(1,2) by (simp_all add: pool_of_def resolve_pool_def)
  show "pool_blocks (mem_pools st p) = lv_addr (hd (L p))" "pool_blocks (mem_pools st p) \<noteq> 0" using top_level(2,3) [OF lv assms(2)] by simp_all
qed (use pool_okD(2,3) [OF pools_invD(1) [OF inv] assms(2)] in auto)

text \<open>Where the bytes that have been given out are.\<close>

lemma pools_inv_nonzero: "pools_inv st L F \<Longrightarrow> a \<in> set (areas (L p)) \<Longrightarrow> a \<noteq> 0"
  using pools_invD(6) sys_okD(2) [OF pools_invD(3)] by fastforce

lemma live_place:
  assumes inv: "pools_inv st L F" and X: "X \<in> set (live st (L q))" "x \<in> X"
  shows "(\<exists>b \<in> set (all_blocks (L q)). \<exists>blk. (b, BLOCK_BYTES) \<in> set (sys st) \<and> mem_blocks st b = Some blk \<and> header_ok b blk \<and>
      b + MEM_BLOCK_OVERHEAD \<le> x \<and> x < mb_ptr blk) \<or>
    (\<exists>a \<in> set (all_large (L q)). \<exists>n. (a, n) \<in> set (sys st) \<and> a + MEM_LARGE_BLOCK_OVERHEAD \<le> x \<and> x < a + n)"
proof -
  have q: "L q \<noteq> []" using X by (auto simp: live_def)
  note P = pools_inv_pool [OF inv q] and D = pool_okD [OF pools_invD(1) [OF inv] q]
  have nz: "0 \<notin> set (all_blocks (L q))" using pools_inv_nonzero [OF inv] areas_in by blast
  show ?thesis using live_in_place [OF P(1) X [unfolded live_def] nz]
  proof
    assume "\<exists>b \<in> set (all_blocks (L q)). \<exists>blk. mem_blocks st b = Some blk \<and> b + MEM_BLOCK_OVERHEAD \<le> x \<and> x < mb_ptr blk"
    then obtain b blk where b: "b \<in> set (all_blocks (L q))" "mem_blocks st b = Some blk" "b + MEM_BLOCK_OVERHEAD \<le> x" "x < mb_ptr blk" by blast
    moreover have "header_ok b blk" using levels_headers [OF P(1) b(1) nz] b(2) by simp
    ultimately show ?thesis using D(5) by blast
  next
    assume "\<exists>a \<in> set (all_large (L q)). a + MEM_LARGE_BLOCK_OVERHEAD \<le> x \<and> x < a + the (map_of (sys st) a)"
    then obtain a where a: "a \<in> set (all_large (L q))" "a + MEM_LARGE_BLOCK_OVERHEAD \<le> x" "x < a + the (map_of (sys st) a)" by blast
    obtain n where n: "(a, n) \<in> set (sys st)" using D(6) [OF a(1)] by blast
    then have "map_of (sys st) a = Some n" using sys_okD(1) [OF pools_invD(3) [OF inv]] by simp
    then show ?thesis using a n by auto
  qed
qed

lemma live_in_sys:
  assumes inv: "pools_inv st L F" and X: "X \<in> set (live st (L q))" "x \<in> X"
  shows "\<exists>a n. a \<in> set (areas (L q)) \<and> (a, n) \<in> set (sys st) \<and> a \<le> x \<and> x < a + n"
  using live_place [OF assms]
proof
  assume "\<exists>b \<in> set (all_blocks (L q)). \<exists>blk. (b, BLOCK_BYTES) \<in> set (sys st) \<and> mem_blocks st b = Some blk \<and> header_ok b blk \<and>
      b + MEM_BLOCK_OVERHEAD \<le> x \<and> x < mb_ptr blk"
  then obtain b blk where b: "b \<in> set (all_blocks (L q))" "(b, BLOCK_BYTES) \<in> set (sys st)" "header_ok b blk" "b + MEM_BLOCK_OVERHEAD \<le> x" "x < mb_ptr blk"
    by blast
  then have "b \<le> x" "x < b + BLOCK_BYTES" by (auto simp: header_ok_def MEM_BLOCK_OVERHEAD_def BLOCK_BYTES_def)
  then show ?thesis using b areas_in(1) by blast
next
  assume "\<exists>a \<in> set (all_large (L q)). \<exists>n. (a, n) \<in> set (sys st) \<and> a + MEM_LARGE_BLOCK_OVERHEAD \<le> x \<and> x < a + n"
  then obtain a n where a: "a \<in> set (all_large (L q))" "(a, n) \<in> set (sys st)" "a + MEM_LARGE_BLOCK_OVERHEAD \<le> x" "x < a + n" by blast
  moreover have "a \<le> x" using a(3) by (simp add: MEM_LARGE_BLOCK_OVERHEAD_def)
  ultimately show ?thesis using areas_in(2) by blast
qed

lemma sys_one: "sys_ok s \<Longrightarrow> (a, n) \<in> set s \<Longrightarrow> (b, m) \<in> set s \<Longrightarrow> a \<le> x \<Longrightarrow> x < a + n \<Longrightarrow> b \<le> x \<Longrightarrow> x < b + m \<Longrightarrow> a = b"
  using sys_okD(3) [of s a n b m] by (auto simp: apart_def)

text \<open>What is free in the first block has not been given out.\<close>

lemma free_not_live:
  assumes inv: "pools_inv st L F" and p: "L p \<noteq> []" and b: "head_of (L p) = b" "b \<noteq> 0" "mem_blocks st b = Some blk"
    and x: "mb_ptr blk \<le> x" "x < mb_ptr blk + mb_avail blk" and X: "X \<in> set (live st (L q))"
  shows "x \<notin> X"
proof
  assume "x \<in> X"
  note P = pools_inv_pool [OF inv p] and sys = pools_invD(3) [OF inv]
  have bin: "b \<in> set (all_blocks (L p))" using head_of_in [of "L p"] b by simp
  then have bs: "(b, BLOCK_BYTES) \<in> set (sys st)" by (rule pool_okD(5) [OF pools_invD(1) [OF inv] p])
  have "header_ok b blk" using top_level(4) [OF P(1) p] b by auto
  then have xb: "b \<le> x" "x < b + BLOCK_BYTES" using x by (auto simp: header_ok_def MEM_BLOCK_OVERHEAD_def BLOCK_BYTES_def)
  show False using live_place [OF inv X \<open>x \<in> X\<close>]
  proof
    assume "\<exists>c \<in> set (all_blocks (L q)). \<exists>blk. (c, BLOCK_BYTES) \<in> set (sys st) \<and> mem_blocks st c = Some blk \<and> header_ok c blk \<and>
        c + MEM_BLOCK_OVERHEAD \<le> x \<and> x < mb_ptr blk"
    then obtain c bl where c: "(c, BLOCK_BYTES) \<in> set (sys st)" "mem_blocks st c = Some bl" "header_ok c bl" "c + MEM_BLOCK_OVERHEAD \<le> x" "x < mb_ptr bl" by blast
    then have "c \<le> x" "x < c + BLOCK_BYTES" by (auto simp: header_ok_def MEM_BLOCK_OVERHEAD_def BLOCK_BYTES_def)
    then have "c = b" using sys_one [OF sys c(1) bs] xb by simp
    then show False using c b x by simp
  next
    assume "\<exists>a \<in> set (all_large (L q)). \<exists>n. (a, n) \<in> set (sys st) \<and> a + MEM_LARGE_BLOCK_OVERHEAD \<le> x \<and> x < a + n"
    then obtain a n where a: "a \<in> set (all_large (L q))" "(a, n) \<in> set (sys st)" "a \<le> x" "x < a + n" by (auto simp: MEM_LARGE_BLOCK_OVERHEAD_def)
    then have "a = b" using sys_one [OF sys a(2) bs] xb by simp
    then show False using a(1) bin separateD(1,4) [OF pools_invD(2) [OF inv]] by (cases "p = q") (auto simp: areas_def)
  qed
qed

lemma live_levels_disjoint:
  assumes inv: "pools_inv st L F"
  shows "sorted_wrt disjnt (live st (L p))" and "p \<noteq> q \<Longrightarrow> X \<in> set (live st (L p)) \<Longrightarrow> Y \<in> set (live st (L q)) \<Longrightarrow> disjnt X Y"
proof -
  note sys = pools_invD(3) [OF inv]
  show "sorted_wrt disjnt (live st (L p))"
  proof (cases "L p = []")
    case False
    note P = pools_inv_pool [OF inv False] and D = pool_okD [OF pools_invD(1) [OF inv] False]
    have size: "map_of (sys st) a = Some n" if "(a, n) \<in> set (sys st)" for a n using sys_okD(1) [OF sys] that by simp
    have in_sys: "(a, the (map_of (sys st) a)) \<in> set (sys st)" if "a \<in> set (all_blocks (L p) @ all_large (L p))" for a
      using that D(5,6) size by fastforce
    show ?thesis unfolding live_def
    proof (rule live_disjoint [OF P(1)])
      show "0 \<notin> set (all_blocks (L p))" using pools_inv_nonzero [OF inv] areas_in by blast
      show "apart a (the (map_of (sys st) a)) b (the (map_of (sys st) b))"
        if "a \<in> set (all_blocks (L p) @ all_large (L p))" "b \<in> set (all_blocks (L p) @ all_large (L p))" "a \<noteq> b" for a b
        using sys_okD(3) [OF sys in_sys [OF that(1)] in_sys [OF that(2)] that(3)] .
      show "the (map_of (sys st) b) = MEM_BLOCK_OVERHEAD + BLOCK_SIZE" if "b \<in> set (all_blocks (L p))" for b
        using size [OF D(5) [OF that]] by (simp add: BLOCK_BYTES_def)
    qed (use separateD(1) [OF pools_invD(2) [OF inv], of p] in \<open>simp_all add: areas_def\<close>)
  qed (simp add: live_def)
  show "disjnt X Y" if pq: "p \<noteq> q" and X: "X \<in> set (live st (L p))" and Y: "Y \<in> set (live st (L q))"
    unfolding disjnt_iff
  proof (intro allI notI, elim conjE)
    fix x assume x: "x \<in> X" "x \<in> Y"
    obtain a n where a: "a \<in> set (areas (L p))" "(a, n) \<in> set (sys st)" "a \<le> x" "x < a + n" using live_in_sys [OF inv X x(1)] by blast
    obtain b m where b: "b \<in> set (areas (L q))" "(b, m) \<in> set (sys st)" "b \<le> x" "x < b + m" using live_in_sys [OF inv Y x(2)] by blast
    have "a = b" using sys_one [OF sys a(2) b(2) a(3,4) b(3,4)] .
    then show False using separateD(4) [OF pools_invD(2) [OF inv] pq] a(1) b(1) by simp
  qed
qed

section \<open>Allocation\<close>

lemma inv_bump:
  assumes inv: "pools_inv st L F" and p: "L p \<noteq> []" and b: "head_of (L p) = b" "b \<noteq> 0" "mem_blocks st b = Some blk"
    and n: "0 \<le> n" "n \<le> mb_avail blk" "n mod 8 = 0"
    and st': "st' = set_block b (blk\<lparr>mb_ptr := mb_ptr blk + n, mb_avail := mb_avail blk - n\<rparr>) st"
  shows "pools_inv st' L F" and "live st' (L p) = (hd (live st (L p)) \<union> {mb_ptr blk ..< mb_ptr blk + n}) # tl (live st (L p))"
    and "q \<noteq> p \<Longrightarrow> live st' (L q) = live st (L q)"
proof -
  note st'_def = st'
  note P = pools_inv_pool [OF inv p] and I = pools_invD [OF inv] and S = separateD [OF pools_invD(2) [OF inv]]
  obtain l ls where L: "L p = l # ls" using p by (cases "L p") auto
  have bin: "b \<in> set (all_blocks (L p))" using head_of_in [of "L p"] b by simp
  have zero: "zero_ok st' p (L p)"
    using pool_okD(7) [OF I(1) p] b n by (auto simp: zero_ok_def st'_def set_block_def)
  have ok: "pool_ok st' p (L p)"
    using pool_okD(1-3,5,6) [OF I(1) p] p levels_bump [OF P(1) [unfolded L] _ b(1) [unfolded L] b(2,3) n] P(2) zero
    unfolding L by (auto simp: pool_ok_def st'_def set_block_def)
  have *: "pools_inv st' (L(p := L p)) F \<and> (\<forall>q. q \<noteq> p \<longrightarrow> live st' (L q) = live st (L q))"
  proof (rule pools_inv_update [OF inv ok])
    show "mem_blocks st' c = mem_blocks st c" if "q \<noteq> p" "c \<in> set (all_blocks (L q))" for q c
      using S(4) [of p q b] that bin areas_in(1) by (auto simp: st'_def set_block_def)
    show "overhead_ok st' (L(p := L p)) F"
    proof (rule overhead_mono [OF I(10)])
      show "\<exists>blk'. mem_blocks st' c = Some blk' \<and> mb_ptr bl \<le> mb_ptr blk'" if "mem_blocks st c = Some bl" for c bl
        using that b n by (auto simp: st'_def set_block_def)
      show "\<exists>bs ls. (L(p := L p)) mem_overhead_pool = [\<lparr>lv_addr = overhead_blocks, lv_blocks = bs, lv_large = ls\<rparr>]"
        using I(10) by (simp add: overhead_ok_def)
    qed auto
  qed (use I b in \<open>auto simp: st'_def set_block_def\<close>)
  then show "pools_inv st' L F" "q \<noteq> p \<Longrightarrow> live st' (L q) = live st (L q)" by simp_all
  show "live st' (L p) = (hd (live st (L p)) \<union> {mb_ptr blk ..< mb_ptr blk + n}) # tl (live st (L p))"
    using live_bump [OF P(1) [unfolded L] _ b(1) [unfolded L] b(2,3) n(1) P(5)] P(2) unfolding live_def L by (simp add: st'_def set_block_def)
qed

end
