(* ===== verification/Memory_Pool_Alloc.thy ===== *)
theory Memory_Pool_Alloc
  imports Memory_Pool_Inv
begin

unbundle bit_operations_syntax

text \<open>
  Allocation from a memory pool, for every C library that keeps its contract: either the library has no memory left, or the
  invariant is kept and the object is new.
\<close>

text \<open>The bytes of the areas in use are left alone.\<close>

definition kept :: "mem_state \<Rightarrow> mem_state \<Rightarrow> bool" where
  "kept st st' \<longleftrightarrow> (\<forall>(a, n) \<in> set (sys st). \<forall>x. a \<le> x \<longrightarrow> x < a + n \<longrightarrow> bytes st' x = bytes st x)"

lemma keptD: "kept st st' \<Longrightarrow> (a, n) \<in> set (sys st) \<Longrightarrow> a \<le> x \<Longrightarrow> x < a + n \<Longrightarrow> bytes st' x = bytes st x"
  by (auto simp: kept_def)

lemma kept_fresh: "sys_ok ((a, n) # sys st) \<Longrightarrow> kept st (st\<lparr>sys := s, bytes := (\<lambda>x. if a \<le> x \<and> x < a + n then v x else bytes st x)\<rparr>)"
  unfolding kept_def
proof (intro ballI, clarify)
  fix b m x assume ok: "sys_ok ((a, n) # sys st)" and b: "(b, m) \<in> set (sys st)" "b \<le> x" "x < b + m"
  have "b \<noteq> a" using sys_ok_fresh [OF ok] b(1) by force
  then have "\<not> (a \<le> x \<and> x < a + n)" using sys_one [OF ok, of a n b m x] b by auto
  then show "bytes (st\<lparr>sys := s, bytes := (\<lambda>x. if a \<le> x \<and> x < a + n then v x else bytes st x)\<rparr>) x = bytes st x" by auto
qed

lemma fill_fresh: "fill a n v (st\<lparr>sys := (a, n) # s\<rparr>) =
    Inr (st\<lparr>sys := (a, n) # s, bytes := (\<lambda>x. if a \<le> x \<and> x < a + n then v else bytes st x)\<rparr>)"
  by (simp add: fill_def in_sys_def cong: if_cong)

lemma UN_upd:
  "(\<Union>q. set (all_blocks ((L(p := ls)) q))) = set (all_blocks ls) \<union> (\<Union>q \<in> - {p}. set (all_blocks (L q)))"
  "(\<Union>q. set (all_large ((L(p := ls)) q))) = set (all_large ls) \<union> (\<Union>q \<in> - {p}. set (all_large (L q)))"
  by (auto split: if_splits)

lemma UN_split:
  "(\<Union>q. set (all_blocks (L q))) = set (all_blocks (L p)) \<union> (\<Union>q \<in> - {p}. set (all_blocks (L q)))"
  "(\<Union>q. set (all_large (L q))) = set (all_large (L p)) \<union> (\<Union>q \<in> - {p}. set (all_large (L q)))"
  by (auto split: if_splits)

lemma pools_inv_fresh:
  assumes "pools_inv st L F" and "sys_ok ((a, n) # sys st)"
  shows "a \<notin> set (areas (L q))" and "a \<noteq> overhead_blocks" and "a \<noteq> 0" and "a mod 8 = 0"
  using sys_ok_fresh [OF assms(2)] pools_invD(5,6) [OF assms(1)] by force+

lemma overhead_top:
  assumes "overhead_ok st L F" and L: "L p = l # ls" and l': "lv_addr l' = lv_addr l" "set (lv_blocks l) \<subseteq> set (lv_blocks l')"
    and mb: "\<And>b blk. b \<in> set (all_blocks (L mem_overhead_pool)) \<Longrightarrow> mem_blocks st b = Some blk \<Longrightarrow> \<exists>blk'. mem_blocks st' b = Some blk' \<and> mb_ptr blk \<le> mb_ptr blk'"
  shows "overhead_ok st' (L(p := l' # ls)) F"
proof (rule overhead_mono [OF assms(1) mb])
  obtain bs xs where o: "L mem_overhead_pool = [\<lparr>lv_addr = overhead_blocks, lv_blocks = bs, lv_large = xs\<rparr>]" using assms(1) by (auto simp: overhead_ok_def)
  then show "\<exists>bs ls'. (L(p := l' # ls)) mem_overhead_pool = [\<lparr>lv_addr = overhead_blocks, lv_blocks = bs, lv_large = ls'\<rparr>]"
  proof (cases "p = mem_overhead_pool")
    case True
    then have "l = \<lparr>lv_addr = overhead_blocks, lv_blocks = bs, lv_large = xs\<rparr>" "ls = []" using o L by simp_all
    then have "l' # ls = [\<lparr>lv_addr = overhead_blocks, lv_blocks = lv_blocks l', lv_large = lv_large l'\<rparr>]" using l'(1) by simp
    then show ?thesis using True by auto
  qed auto
  show "set (all_blocks (L mem_overhead_pool)) \<subseteq> set (all_blocks ((L(p := l' # ls)) mem_overhead_pool))" using L l'(2) by auto
  have same: "lv_addr ` set ((L(p := l' # ls)) q) = lv_addr ` set (L q)" for q using L l'(1) by simp
  show "a \<in> (\<Union>p. lv_addr ` set (L p)) \<union> set F \<or>
      (\<exists>b \<in> set (all_blocks ((L(p := l' # ls)) mem_overhead_pool)). \<exists>blk. mem_blocks st' b = Some blk \<and> b + MEM_BLOCK_OVERHEAD \<le> a \<and> a + 48 \<le> mb_ptr blk)"
    if "a \<in> lv_addr ` set ((L(p := l' # ls)) q) \<union> set F" for q a
  proof -
    have "a \<in> lv_addr ` set (L q) \<union> set F" using that same by simp
    then show ?thesis by blast
  qed
qed

section \<open>A new block\<close>

lemma inv_add_block:
  assumes inv: "pools_inv st L F" and L: "L p = l # ls" and ok: "sys_ok ((b, BLOCK_BYTES) # sys st)" and r: "pool_levels st (pool_blocks (mem_pools st p)) = Some r"
    and st': "st' = st\<lparr>sys := (b, BLOCK_BYTES) # sys st,
      bytes := (\<lambda>x. if b \<le> x \<and> x < b + BLOCK_BYTES then (if pool_bz (mem_pools st p) then 0 else 0xa5) else bytes st x),
      mem_blocks := (mem_blocks st)(b \<mapsto> \<lparr>mb_avail = BLOCK_SIZE, mb_ptr = b + MEM_BLOCK_OVERHEAD, mb_rest = pb_block r\<rparr>),
      pool_levels := (pool_levels st)(pool_blocks (mem_pools st p) \<mapsto> r\<lparr>pb_block := b\<rparr>)\<rparr>"
    and L': "L' = L(p := l\<lparr>lv_blocks := b # lv_blocks l\<rparr> # ls)"
  shows "pools_inv st' L' F" and "live st' (L' q) = live st (L q)" and "kept st st'"
proof -
  have p: "L p \<noteq> []" using L by simp
  note P = pools_inv_pool [OF inv p] and I = pools_invD [OF inv] and S = separateD [OF pools_invD(2) [OF inv]] and N = pools_inv_fresh [OF inv ok]
  let ?pb = "pool_blocks (mem_pools st p)" and ?l = "l\<lparr>lv_blocks := b # lv_blocks l\<rparr>"
  have pb: "?pb = lv_addr l" using P(8) L by simp
  have pbn: "?pb \<notin> lv_addr ` set ls" using P(4) L pb by simp
  have nb: "b \<notin> set (all_blocks (L q))" for q using N(1) [of q] by (simp add: areas_def)
  have lv: "levels_ok (pool_levels st') (large_blocks st') (mem_blocks st') (pool_blocks (mem_pools st' p)) (?l # ls)"
    using levels_add_block [OF P(1) [unfolded L] r, of b] nb [of p] N(3,4) pbn L by (simp add: st')
  have zero: "zero_ok st' p (?l # ls)" by (simp add: zero_ok_def st' MEM_BLOCK_OVERHEAD_def BLOCK_SIZE_def BLOCK_BYTES_def)
  have pool: "pool_ok st' p (?l # ls)"
    using pool_okD(1-3) [OF I(1) p] pool_okD(5,6) [OF I(1) p] lv zero unfolding L by (auto simp: pool_ok_def st')
  have kept: "kept st st'" using kept_fresh [OF ok] by (simp add: st' kept_def)
  have "pools_inv st' (L(p := ?l # ls)) F \<and> (\<forall>q. q \<noteq> p \<longrightarrow> live st' (L q) = live st (L q))"
  proof (rule pools_inv_update [OF inv pool])
    show "pool_levels st' a = pool_levels st a" if "q \<noteq> p" "a \<in> lv_addr ` set (L q)" for q a
      using S(5) [of q p a] that L pb by (auto simp: st')
    show "mem_blocks st' c = mem_blocks st c" if "c \<in> set (all_blocks (L q))" for q c using that nb by (auto simp: st')
    show "bytes st' x = bytes st x" if "q \<noteq> p" "c \<in> set (all_blocks (L q))" "c \<le> x" "x < c + BLOCK_BYTES" for q c x
    proof -
      have "L q \<noteq> []" using that by auto
      then have "(c, BLOCK_BYTES) \<in> set (sys st)" using pool_okD(5) [OF I(1)] that by blast
      then show ?thesis using keptD [OF kept] that by blast
    qed
    show "separate (L(p := ?l # ls)) F"
    proof (rule separate_update [OF I(2)])
      show "distinct (areas (?l # ls))" using S(1) [of p] N(1) [of p] L by (auto simp: areas_def)
      show "x \<in> set (areas (L p)) \<or> x \<noteq> overhead_blocks \<and> (\<forall>q. x \<notin> set (areas (L q)))" if "x \<in> set (areas (?l # ls))" for x
        using that N(1,2) L by auto
      show "x \<notin> lv_addr ` set (L q)" if "x \<in> lv_addr ` set (?l # ls) \<union> set F" "q \<noteq> p" for x q
        using S(5) [of p q x] S(2) [of q] that L by auto
    qed (use S(2) [of p] L in auto)
    show "dom (mem_blocks st') = (\<Union>q. set (all_blocks ((L(p := ?l # ls)) q)))" using I(7) [unfolded UN_split [of L p]] L unfolding UN_upd by (auto simp: st')
    show "dom (large_blocks st') = (\<Union>q. set (all_large ((L(p := ?l # ls)) q)))" using I(8) [unfolded UN_split [of L p]] L unfolding UN_upd by (auto simp: st')
    show "free_chain (pool_levels st') (free_mem_pool_blocks_list st') F"
      using I(9) S(2) [of p] L pb by (subst free_chain_cong) (auto simp: st')
    show "overhead_ok st' (L(p := ?l # ls)) F"
    proof (rule overhead_top [OF I(10) L])
      show "\<exists>blk'. mem_blocks st' c = Some blk' \<and> mb_ptr bl \<le> mb_ptr blk'" if "c \<in> set (all_blocks (L mem_overhead_pool))" "mem_blocks st c = Some bl" for c bl
        using that nb by (auto simp: st')
    qed auto
  qed (use I ok in \<open>auto simp: st'\<close>)
  then show "pools_inv st' L' F" "kept st st'" using kept L' by simp_all
  have "map_of (sys st') a = map_of (sys st) a" if "a \<in> set (all_large (l # ls))" for a
  proof -
    have "a \<noteq> b" using N(1) [of p] areas_in(2) [OF that] L by auto
    then show ?thesis by (simp add: st')
  qed
  then have "live st' (?l # ls) = live st (L p)"
    unfolding live_def L using live_add_block [OF P(1) [unfolded L] r, of b "sys st'"] nb [of p] N(3) P(5) pbn L by (simp add: st')
  then show "live st' (L' q) = live st (L q)"
    using \<open>pools_inv st' (L(p := ?l # ls)) F \<and> (\<forall>q. q \<noteq> p \<longrightarrow> live st' (L q) = live st (L q))\<close> L' by simp
qed

section \<open>The large blocks of the top level\<close>

text \<open>Allocating, freeing and reallocating a large block replace the list of the top level and some areas of the C library.\<close>

lemma inv_large:
  assumes inv: "pools_inv st L F" and L: "L p = l # ls" and r: "pool_levels st (pool_blocks (mem_pools st p)) = Some r"
    and list: "large_list lb' (pool_blocks (mem_pools st p)) 0 a xs 0" "distinct xs"
    and lb': "\<And>z. z \<notin> set (lv_large l) \<union> set xs \<Longrightarrow> lb' z = large_blocks st z" "\<And>z. z \<in> set (lv_large l) \<Longrightarrow> z \<notin> set xs \<Longrightarrow> lb' z = None"
    and sys': "sys_ok sys'" "\<And>c n. (c, n) \<in> set (sys st) \<Longrightarrow> c \<notin> set (lv_large l) \<Longrightarrow> (c, n) \<in> set sys'"
      "\<And>x. x \<in> set xs \<Longrightarrow> \<exists>n. (x, n) \<in> set sys' \<and> MEM_LARGE_BLOCK_OVERHEAD < n"
    and new: "\<And>x. x \<in> set xs \<Longrightarrow> x \<notin> set (lv_large l) \<Longrightarrow> x \<noteq> overhead_blocks \<and> (\<forall>q. x \<notin> set (areas (L q)))"
    and bytes': "\<And>q c x. c \<in> set (all_blocks (L q)) \<Longrightarrow> c \<le> x \<Longrightarrow> x < c + BLOCK_BYTES \<Longrightarrow> bytes' x = bytes st x"
    and st': "st' = st\<lparr>sys := sys', bytes := bytes', large_blocks := lb', pool_levels := (pool_levels st)(pool_blocks (mem_pools st p) \<mapsto> r\<lparr>pb_large := a\<rparr>)\<rparr>"
    and L': "L' = L(p := l\<lparr>lv_large := xs\<rparr> # ls)"
  shows "pools_inv st' L' F" and "q \<noteq> p \<Longrightarrow> live st' (L' q) = live st (L q)"
    and "live st' (L' p) = level_bytes sys' (mem_blocks st) r (l\<lparr>lv_large := xs\<rparr>) # tl (live st (L p))"
proof -
  have p: "L p \<noteq> []" using L by simp
  note P = pools_inv_pool [OF inv p] and I = pools_invD [OF inv] and S = separateD [OF pools_invD(2) [OF inv]]
  let ?pb = "pool_blocks (mem_pools st p)" and ?l = "l\<lparr>lv_large := xs\<rparr>"
  have pb: "?pb = lv_addr l" using P(8) L by simp
  have pbn: "?pb \<notin> lv_addr ` set ls" using P(4) L pb by simp
  have own: "x \<notin> set (lv_large l) \<union> set xs" if "x \<in> set (areas (L q))" "q \<noteq> p \<or> x \<in> set (all_blocks (L p)) \<or> x \<in> set (all_large ls)" for x q
    using that S(1) [of p] S(4) [of q p x] new L by (auto simp: areas_def)
  have large: "lb' x = large_blocks st x" if "x \<in> set (all_large ls)" for x
    by (rule lb'(1), rule own [where q = p]) (use that L in \<open>auto simp: areas_def\<close>)
  have persist: "(c, n) \<in> set sys'" if "c \<in> set (areas (L q))" "q \<noteq> p \<or> c \<in> set (all_blocks (L p)) \<or> c \<in> set (all_large ls)" "(c, n) \<in> set (sys st)" for c n q
    using sys'(2) [OF that(3)] own [OF that(1,2)] by simp
  have lv: "levels_ok (pool_levels st') (large_blocks st') (mem_blocks st') (pool_blocks (mem_pools st' p)) (?l # ls)"
    using levels_large [OF P(1) [unfolded L] r list(1) large pbn] by (simp add: st')
  have blocks: "(c, BLOCK_BYTES) \<in> set sys'" if "c \<in> set (all_blocks (L p))" for c
    using persist [of c p BLOCK_BYTES] pool_okD(5) [OF I(1) p that] areas_in(1) [OF that] that by simp
  have zero: "zero_ok st' p (?l # ls)"
    unfolding zero_ok_def
  proof (intro impI allI)
    fix blk x assume bz: "pool_bz (mem_pools st' p)" and blk: "mem_blocks st' (head_of (?l # ls)) = Some blk" and x: "mb_ptr blk \<le> x" "x < mb_ptr blk + mb_avail blk"
    have h: "head_of (?l # ls) = head_of (L p)" using L by (simp add: head_of_def)
    have hb: "mem_blocks st (head_of (L p)) = Some blk" using blk h by (simp add: st')
    then have hn: "head_of (L p) \<noteq> 0" using P(5) by auto
    have "header_ok (head_of (L p)) blk" using top_level(4) [OF P(1) p hn] hb by auto
    then have "bytes' x = bytes st x" using bytes' [OF head_of_in [OF hn], of x] x by (auto simp: header_ok_def BLOCK_BYTES_def MEM_BLOCK_OVERHEAD_def)
    moreover have "bytes st x = 0" using pool_okD(7) [OF I(1) p] hb x bz unfolding zero_ok_def by (auto simp: st')
    ultimately show "bytes st' x = 0" by (simp add: st')
  qed
  have larges: "\<exists>n. (x, n) \<in> set sys' \<and> MEM_LARGE_BLOCK_OVERHEAD < n" if "x \<in> set (all_large (?l # ls))" for x
  proof (cases "x \<in> set xs")
    case False
    then have x: "x \<in> set (all_large ls)" using that by simp
    then obtain n where n: "(x, n) \<in> set (sys st)" "MEM_LARGE_BLOCK_OVERHEAD < n" using pool_okD(6) [OF I(1) p, of x] L by auto
    then show ?thesis using persist [of x p n] x L by (auto simp: areas_def)
  qed (use sys'(3) in blast)
  have pool: "pool_ok st' p (?l # ls)"
    using pool_okD(1-3) [OF I(1) p] lv zero blocks larges L by (simp add: pool_ok_def st')
  have *: "pools_inv st' (L(p := ?l # ls)) F \<and> (\<forall>q. q \<noteq> p \<longrightarrow> live st' (L q) = live st (L q))"
  proof (rule pools_inv_update [OF inv pool])
    show "pool_levels st' a = pool_levels st a" if "q \<noteq> p" "a \<in> lv_addr ` set (L q)" for q a
      using S(5) [of q p a] that L pb by (auto simp: st')
    show "large_blocks st' c = large_blocks st c" if "q \<noteq> p" "c \<in> set (all_large (L q))" for q c
      using lb'(1) [OF own [OF areas_in(2) [OF that(2)]]] that by (simp add: st')
    show "(c, n) \<in> set (sys st')" if "q \<noteq> p" "c \<in> set (areas (L q))" "(c, n) \<in> set (sys st)" for q c n
      using persist [OF that(2) _ that(3)] that(1) by (simp add: st')
    show "bytes st' x = bytes st x" if "q \<noteq> p" "c \<in> set (all_blocks (L q))" "c \<le> x" "x < c + BLOCK_BYTES" for q c x
      using bytes' that by (simp add: st')
    show "separate (L(p := ?l # ls)) F"
    proof (rule separate_update [OF I(2)])
      show "distinct (areas (?l # ls))"
      proof -
        have "x \<notin> set (lv_large l) \<union> set xs" if "x \<in> set (all_blocks (L p)) \<union> set (all_large ls)" for x
          by (rule own [where q = p]) (use that L in \<open>auto simp: areas_def\<close>)
        then show ?thesis using S(1) [of p] list(2) L by (auto simp: areas_def)
      qed
      show "x \<in> set (areas (L p)) \<or> x \<noteq> overhead_blocks \<and> (\<forall>q. x \<notin> set (areas (L q)))" if "x \<in> set (areas (?l # ls))" for x
        using that new [of x] L by auto
      show "x \<notin> lv_addr ` set (L q)" if "x \<in> lv_addr ` set (?l # ls) \<union> set F" "q \<noteq> p" for x q
        using S(5) [of p q x] S(2) [of q] that L by auto
    qed (use S(2) [of p] L in auto)
    have "overhead_blocks \<notin> set (lv_large l)" using S(3) [of p] L by simp
    then show "(overhead_blocks, 48) \<in> set (sys st')" using sys'(2) [OF I(5)] by (simp add: st')
    show "dom (mem_blocks st') = (\<Union>q. set (all_blocks ((L(p := ?l # ls)) q)))" using I(7) [unfolded UN_split [of L p]] L unfolding UN_upd by (auto simp: st')
    have "z \<in> dom lb' \<longleftrightarrow> z \<in> set xs \<union> set (all_large ls) \<union> (\<Union>q \<in> - {p}. set (all_large (L q)))" for z
    proof -
      have "lb' z \<noteq> None" if "z \<in> set xs" using large_list_in [OF list(1) that] by auto
      moreover have "z \<notin> set (all_large ls) \<union> (\<Union>q \<in> - {p}. set (all_large (L q)))" if "z \<in> set (lv_large l)"
      proof -
        have "z \<in> set (areas (L p))" using that L by (simp add: areas_def)
        then show ?thesis using S(4) [of p _ z] that S(1) [of p] L by (auto simp: areas_def)
      qed
      moreover have "z \<in> dom (large_blocks st) \<longleftrightarrow> z \<in> set (lv_large l) \<union> set (all_large ls) \<union> (\<Union>q \<in> - {p}. set (all_large (L q)))"
        using I(8) [unfolded UN_split [of L p]] L by simp
      ultimately show ?thesis using lb' [of z] by (cases "z \<in> set xs"; cases "z \<in> set (lv_large l)") auto
    qed
    then show "dom (large_blocks st') = (\<Union>q. set (all_large ((L(p := ?l # ls)) q)))" unfolding UN_upd using L by (auto simp: st')
    show "free_chain (pool_levels st') (free_mem_pool_blocks_list st') F"
      using I(9) S(2) [of p] L pb by (subst free_chain_cong) (auto simp: st')
    show "overhead_ok st' (L(p := ?l # ls)) F" by (rule overhead_top [OF I(10) L]) (auto simp: st')
  qed (use I sys'(1) in \<open>auto simp: st'\<close>)
  then show "pools_inv st' L' F" "q \<noteq> p \<Longrightarrow> live st' (L' q) = live st (L q)" using L' by simp_all
  have "map_of sys' x = map_of (sys st) x" if x: "x \<in> set (all_large ls)" for x
  proof -
    obtain n where n: "(x, n) \<in> set (sys st)" using pool_okD(6) [OF I(1) p, of x] x L by auto
    then have "(x, n) \<in> set sys'" using persist [of x p n] x L by (auto simp: areas_def)
    then show ?thesis using n sys_okD(1) [OF I(3)] sys_okD(1) [OF sys'(1)] by simp
  qed
  then show "live st' (L' p) = level_bytes sys' (mem_blocks st) r (l\<lparr>lv_large := xs\<rparr>) # tl (live st (L p))"
    using live_large [OF P(1) [unfolded L] r pbn P(5), of sys' "sys st"] L L' by (simp add: live_def st')
qed

lemma level_bytes_large:
  "level_bytes s mb r (l\<lparr>lv_large := xs\<rparr>) =
     level_bytes s mb r (l\<lparr>lv_large := []\<rparr>) \<union> (\<Union>a \<in> set xs. {a + MEM_LARGE_BLOCK_OVERHEAD ..< a + the (map_of s a)})"
  by (simp add: level_bytes_def)

lemma level_bytes_no_large: "level_bytes s mb r (l\<lparr>lv_large := []\<rparr>) = level_bytes s' mb r (l\<lparr>lv_large := []\<rparr>)"
  by (simp add: level_bytes_def)

lemma live_hd: "pool_levels st (lv_addr l) = Some r \<Longrightarrow> hd (live st (l # ls)) = level_bytes (sys st) (mem_blocks st) r l"
  by (simp add: live_def Let_def)

section \<open>Alignment\<close>

lemma and_pad: "(x::int) AND 0xFFFFFFF8 = 8 * ((x mod 4294967296) div 8)"
proof -
  have "(0xFFFFFFF8::int) = mask (29 + 3) AND NOT (mask 3)" by (simp add: mask_eq_exp_minus_1)
  then have "x AND 0xFFFFFFF8 = push_bit 3 (take_bit 29 (drop_bit 3 x))" by (simp add: slice_eq_mask and.assoc)
  also have "take_bit 29 (drop_bit 3 x) = drop_bit 3 (take_bit 32 x)" by (simp add: drop_bit_take_bit)
  finally show ?thesis by (simp add: push_bit_eq_mult drop_bit_eq_div take_bit_eq_mod)
qed

lemma pad_value: "uint (PAD_TO_ALIGN sz) = 8 * ((uint sz + 7) mod 4294967296 div 8)"
proof -
  have "uint (PAD_TO_ALIGN sz) = uint (sz + 7) AND uint (0xFFFFFFF8 :: 64 word)" by (simp add: PAD_TO_ALIGN_def uint_and)
  also have "uint (0xFFFFFFF8 :: 64 word) = 0xFFFFFFF8" by simp
  also have "uint (sz + 7) = (uint sz + 7) mod 18446744073709551616" by (simp add: uint_word_ariths)
  finally show ?thesis by (simp add: and_pad mod_mod_cancel)
qed

lemma pad_small:
  assumes "uint sz < 4294967289"
  shows "uint (PAD_TO_ALIGN sz) = 8 * ((uint sz + 7) div 8)" and "uint sz \<le> uint (PAD_TO_ALIGN sz)" and "uint (PAD_TO_ALIGN sz) < uint sz + 8"
    and "uint (PAD_TO_ALIGN sz) mod 8 = 0" and "0 \<le> uint (PAD_TO_ALIGN sz)"
proof -
  have "0 \<le> uint sz" by simp
  then have "(uint sz + 7) mod 4294967296 = uint sz + 7" using assms by simp
  then show *: "uint (PAD_TO_ALIGN sz) = 8 * ((uint sz + 7) div 8)" by (simp add: pad_value)
  show "uint sz \<le> uint (PAD_TO_ALIGN sz)" "uint (PAD_TO_ALIGN sz) < uint sz + 8" "uint (PAD_TO_ALIGN sz) mod 8 = 0" unfolding * by presburger+
qed simp

section \<open>The operations\<close>

text \<open>
  The effect of an allocation of \<open>n\<close> bytes from the pool \<open>p\<close> that returns \<open>a\<close>: the invariant holds, the bytes are new, aligned,
  added to the top level of the pool and zero when the pool zeroes, and no byte in use has changed.
\<close>

definition alloc_ok :: "mem_state \<Rightarrow> (int \<Rightarrow> level list) \<Rightarrow> int list \<Rightarrow> int \<Rightarrow> int \<Rightarrow> int \<Rightarrow> mem_state \<Rightarrow> (int \<Rightarrow> level list) \<Rightarrow> bool" where
  "alloc_ok st L F p n a st' L' \<longleftrightarrow> pools_inv st' L' F \<and>
     (\<exists>l'. L' = L(p := l' # tl (L p)) \<and> lv_addr l' = lv_addr (hd (L p)) \<and> set (lv_large (hd (L p))) \<subseteq> set (lv_large l')) \<and>
     live st' (L' p) = (hd (live st (L p)) \<union> {a ..< a + n}) # tl (live st (L p)) \<and> (\<forall>q. q \<noteq> p \<longrightarrow> live st' (L' q) = live st (L q)) \<and>
     (\<forall>q. \<forall>X \<in> set (live st (L q)). \<forall>x \<in> {a ..< a + n}. x \<notin> X) \<and> 0 < a \<and> a mod 8 = 0 \<and> in_sys st' a n \<and>
     (pool_bz (mem_pools st p) \<longrightarrow> (\<forall>x \<in> {a ..< a + n}. bytes st' x = 0)) \<and> kept st st' \<and> set (sys st) \<subseteq> set (sys st') \<and>
     mem_pools st' = mem_pools st \<and> free_mem_pool_blocks_list st' = free_mem_pool_blocks_list st"

text \<open>Cutting \<open>n\<close> bytes off the first block.\<close>

lemma cut_block:
  assumes inv: "pools_inv st L F" and L: "L p = l # ls" and b: "head_of (L p) = b" "b \<noteq> 0" "mem_blocks st b = Some blk"
    and n: "0 \<le> n" "n \<le> mb_avail blk" "n mod 8 = 0" and st': "st' = set_block b (blk\<lparr>mb_ptr := mb_ptr blk + n, mb_avail := mb_avail blk - n\<rparr>) st"
  shows "alloc_ok st L F p n (mb_ptr blk) st' L"
proof -
  have p: "L p \<noteq> []" using L by simp
  note B = inv_bump [OF inv p b n st'] and P = pools_inv_pool [OF inv p]
  have bs: "b \<in> set (all_blocks (L p))" "(b, BLOCK_BYTES) \<in> set (sys st)"
    using head_of_in [of "L p"] b pool_okD(5) [OF pools_invD(1) [OF inv] p] by auto
  have hdr: "header_ok b blk" using top_level(4) [OF P(1) p] b by auto
  have "x \<notin> X" if "X \<in> set (live st (L q))" "x \<in> {mb_ptr blk ..< mb_ptr blk + n}" for X q x
    using free_not_live [OF inv p b _ _ that(1), of x] that(2) n by auto
  moreover have "0 < b" using sys_okD(2) [OF pools_invD(3) [OF inv] bs(2)] by simp
  then have "0 < mb_ptr blk" "mb_ptr blk mod 8 = 0" "b \<le> mb_ptr blk" "mb_ptr blk + n \<le> b + BLOCK_BYTES"
    using hdr n(2) by (auto simp: header_ok_def MEM_BLOCK_OVERHEAD_def BLOCK_BYTES_def)
  moreover have "in_sys st' (mb_ptr blk) n" using bs(2) calculation by (auto simp: in_sys_def st' set_block_def)
  moreover have "bytes st' x = 0" if "pool_bz (mem_pools st p)" "x \<in> {mb_ptr blk ..< mb_ptr blk + n}" for x
    using pool_okD(7) [OF pools_invD(1) [OF inv] p] that b n by (auto simp: zero_ok_def st' set_block_def)
  moreover have "\<exists>l'. L = L(p := l' # tl (L p)) \<and> lv_addr l' = lv_addr (hd (L p)) \<and> set (lv_large (hd (L p))) \<subseteq> set (lv_large l')"
    using L by (intro exI [of _ l]) (simp add: fun_upd_idem)
  moreover have "kept st st' \<and> set (sys st) \<subseteq> set (sys st') \<and> mem_pools st' = mem_pools st \<and> free_mem_pool_blocks_list st' = free_mem_pool_blocks_list st"
    by (simp add: kept_def st' set_block_def)
  ultimately show ?thesis using B unfolding alloc_ok_def by blast
qed

context c_library
begin

lemma malloc_cases:
  assumes "sys_ok (sys st)" and "0 < n"
  obtains (no_memory) "c_malloc os n st = Inl No_Memory"
  | (fresh) a where "c_malloc os n st = Inr (a, st\<lparr>sys := (a, n) # sys st\<rparr>)" "sys_ok ((a, n) # sys st)"
proof (cases "os_malloc os (sys st) n = 0")
  case True
  then show ?thesis using no_memory by (simp add: c_malloc_def Let_def)
next
  case False
  show ?thesis using fresh [of "os_malloc os (sys st) n"] False malloc_fresh [OF assms False] by (simp add: c_malloc_def Let_def)
qed

lemma Allocate_Block_ok:
  assumes inv: "pools_inv st L F" and L: "L p = l # ls"
  obtains (no_memory) "Allocate_Block os p st = Inl No_Memory"
  | (fresh) b st' where "Allocate_Block os p st = Inr (b, st')" "b \<noteq> 0" "pools_inv st' (L(p := l\<lparr>lv_blocks := b # lv_blocks l\<rparr> # ls)) F"
      "\<forall>q. live st' ((L(p := l\<lparr>lv_blocks := b # lv_blocks l\<rparr> # ls)) q) = live st (L q)" "kept st st'" "mem_pools st' = mem_pools st"
      "sys st' = (b, BLOCK_BYTES) # sys st" "\<exists>blk. mem_blocks st' b = Some blk \<and> mb_avail blk = BLOCK_SIZE"
      "free_mem_pool_blocks_list st' = free_mem_pool_blocks_list st"
proof -
  have p: "L p \<noteq> []" using L by simp
  obtain r where r: "pool_levels st (pool_blocks (mem_pools st p)) = Some r" using top_level(1) [OF pools_inv_pool(1) [OF inv p] p] by blast
  have "0 < BLOCK_BYTES" by (simp add: BLOCK_BYTES_def BLOCK_SIZE_def MEM_BLOCK_OVERHEAD_def)
  with pools_invD(3) [OF inv] show thesis
  proof (cases rule: malloc_cases)
    case no_memory
    then show ?thesis using that(1) by (simp add: Allocate_Block_def BLOCK_BYTES_def)
  next
    case (fresh a)
    define st' where "st' = st\<lparr>sys := (a, BLOCK_BYTES) # sys st,
      bytes := (\<lambda>x. if a \<le> x \<and> x < a + BLOCK_BYTES then (if pool_bz (mem_pools st p) then 0 else 0xa5) else bytes st x),
      mem_blocks := (mem_blocks st)(a \<mapsto> \<lparr>mb_avail = BLOCK_SIZE, mb_ptr = a + MEM_BLOCK_OVERHEAD, mb_rest = pb_block r\<rparr>),
      pool_levels := (pool_levels st)(pool_blocks (mem_pools st p) \<mapsto> r\<lparr>pb_block := a\<rparr>)\<rparr>"
    have "Allocate_Block os p st = Inr (a, st')"
      using fresh(1) r unfolding Allocate_Block_def BLOCK_BYTES_def [symmetric] Let_def
      by (simp add: fill_fresh get_level_def set_level_def set_block_def st'_def cong: if_cong)
    then show ?thesis
      using that(2) inv_add_block [OF inv L fresh(2) r st'_def refl] pools_inv_fresh(3) [OF inv fresh(2)] by (simp add: st'_def)
  qed
qed

lemma block_for_ok:
  assumes inv: "pools_inv st L F" and L: "L p = l # ls" and n: "0 \<le> n" "n \<le> BLOCK_SIZE"
  obtains (no_memory) "block_for os p n st = Inl No_Memory"
  | (block) b st' L' blk l' where "block_for os p n st = Inr (b, st')" "b \<noteq> 0" "L' = L(p := l' # ls)" "lv_addr l' = lv_addr l" "lv_large l' = lv_large l"
      "pools_inv st' L' F" "head_of (L' p) = b" "mem_blocks st' b = Some blk" "n \<le> mb_avail blk"
      "\<forall>q. live st' (L' q) = live st (L q)" "kept st st'" "mem_pools st' = mem_pools st" "set (sys st) \<subseteq> set (sys st')"
      "free_mem_pool_blocks_list st' = free_mem_pool_blocks_list st"
proof -
  have p: "L p \<noteq> []" using L by simp
  note P = pools_inv_pool [OF inv p]
  obtain r where r: "pool_levels st (pool_blocks (mem_pools st p)) = Some r" "pb_block r = head_of (L p)" using top_level(1) [OF P(1) p] by blast
  have un: "u64 n = n" using n by (simp add: u64_def BLOCK_SIZE_def)
  have new: thesis if "block_for os p n st = Allocate_Block os p st"
    using inv L
  proof (cases rule: Allocate_Block_ok)
    case no_memory
    then show ?thesis using that \<open>block_for os p n st = Inl No_Memory \<Longrightarrow> thesis\<close> by simp
  next
    case (fresh b st')
    then obtain blk where blk: "mem_blocks st' b = Some blk" "mb_avail blk = BLOCK_SIZE" by blast
    show ?thesis
      using block [OF _ fresh(2) refl _ _ fresh(3) _ blk(1)] that fresh(1,4-9) blk(2) n(2) by (simp add: subset_insertI)
  qed
  show thesis
  proof (cases "head_of (L p) = 0")
    case True
    show ?thesis by (rule new) (use r True in \<open>simp add: block_for_def get_level_def\<close>)
  next
    case False
    obtain blk where blk: "mem_blocks st (head_of (L p)) = Some blk" using top_level(4) [OF P(1) p False] by blast
    show ?thesis
    proof (cases "mb_avail blk < n")
      case True
      show ?thesis by (rule new) (use r True False blk un in \<open>simp add: block_for_def get_level_def get_block_def\<close>)
    next
      case enough: False
      have "block_for os p n st = Inr (head_of (L p), st)" using r enough False blk un by (simp add: block_for_def get_level_def get_block_def)
      then show ?thesis
        using block [of "head_of (L p)" st L l blk] inv L False blk enough by (simp add: kept_def fun_upd_idem)
    qed
  qed
qed

lemma Allocate_Large_Block_ok:
  assumes inv: "pools_inv st L F" and L: "L p = l # ls" and n: "0 < n" "n < 2147483648 - MEM_LARGE_BLOCK_OVERHEAD"
  obtains (no_memory) "Allocate_Large_Block os p n st = Inl No_Memory"
  | (fresh) a st' L' where "Allocate_Large_Block os p n st = Inr (a, st')" "alloc_ok st L F p n a st' L'"
      "L' = L(p := l\<lparr>lv_large := (a - MEM_LARGE_BLOCK_OVERHEAD) # lv_large l\<rparr> # ls)" "map_of (sys st') (a - MEM_LARGE_BLOCK_OVERHEAD) = Some (n + MEM_LARGE_BLOCK_OVERHEAD)"
proof -
  have p: "L p \<noteq> []" using L by simp
  note P = pools_inv_pool [OF inv p] and S = separateD [OF pools_invD(2) [OF inv]]
  let ?pb = "pool_blocks (mem_pools st p)" and ?n = "n + MEM_LARGE_BLOCK_OVERHEAD"
  obtain r where r: "pool_levels st ?pb = Some r" using top_level(1) [OF P(1) p] by blast
  have pb: "?pb = lv_addr l" using P(8) L by simp
  have list: "large_list (large_blocks st) ?pb 0 (pb_large r) (lv_large l) 0" "distinct (lv_large l)"
    using P(1) P(3) r L by (auto simp: levels_ok.simps)
  have s: "s32 ?n = ?n" "u64 ?n = ?n" using n by (simp_all add: s32_def u64_def MEM_LARGE_BLOCK_OVERHEAD_def)
  have "0 < ?n" using n by (simp add: MEM_LARGE_BLOCK_OVERHEAD_def)
  with pools_invD(3) [OF inv] show thesis
  proof (cases rule: malloc_cases)
    case no_memory
    then show ?thesis using that(1) s by (simp add: Allocate_Large_Block_def)
  next
    case (fresh b)
    note N = pools_inv_fresh [OF inv fresh(2)]
    let ?fill = "\<lambda>x. if b \<le> x \<and> x < b + ?n then (if pool_bz (mem_pools st p) then 0 else 0xa5) else bytes st x"
    define st1 where "st1 = st\<lparr>sys := (b, ?n) # sys st, bytes := ?fill\<rparr>"
    have kept: "kept st st1" using kept_fresh [OF fresh(2)] by (simp add: st1_def)
    obtain lb' where lb: "(if pb_large r \<noteq> 0 then bindE (get_large (set_large b \<lparr>lb_next = pb_large r, lb_prev = 0, lb_base = ?pb, lb_ptr = b + MEM_LARGE_BLOCK_OVERHEAD\<rparr> st1) (pb_large r))
          (\<lambda>l. Inr (set_large (pb_large r) (l\<lparr>lb_prev := b\<rparr>) (set_large b \<lparr>lb_next = pb_large r, lb_prev = 0, lb_base = ?pb, lb_ptr = b + MEM_LARGE_BLOCK_OVERHEAD\<rparr> st1)))
        else Inr (set_large b \<lparr>lb_next = pb_large r, lb_prev = 0, lb_base = ?pb, lb_ptr = b + MEM_LARGE_BLOCK_OVERHEAD\<rparr> st1)) = Inr (st1\<lparr>large_blocks := lb'\<rparr>)"
        "large_list lb' ?pb 0 b (b # lv_large l) 0" "\<And>z. z \<notin> set (b # lv_large l) \<Longrightarrow> lb' z = large_blocks st1 z"
      using link_front [of st1 ?pb "pb_large r" "lv_large l" b "\<lparr>lb_next = pb_large r, lb_prev = 0, lb_base = ?pb, lb_ptr = b + MEM_LARGE_BLOCK_OVERHEAD\<rparr>"]
        list N(3) N(1) [of p] L by (auto simp: st1_def)
    define st' where "st' = st\<lparr>sys := (b, ?n) # sys st, bytes := ?fill, large_blocks := lb', pool_levels := (pool_levels st)(?pb \<mapsto> r\<lparr>pb_large := b\<rparr>)\<rparr>"
    define L' where "L' = L(p := l\<lparr>lv_large := b # lv_large l\<rparr> # ls)"
    have run: "Allocate_Large_Block os p n st = Inr (b + MEM_LARGE_BLOCK_OVERHEAD, st')"
      using fresh(1) r lb(1) unfolding Allocate_Large_Block_def s Let_def
      by (simp add: fill_fresh get_level_def st1_def [symmetric]) (simp add: st1_def st'_def set_level_def)
    have B: "pools_inv st' L' F" "\<And>q. q \<noteq> p \<Longrightarrow> live st' (L' q) = live st (L q)"
        "live st' (L' p) = level_bytes ((b, ?n) # sys st) (mem_blocks st) r (l\<lparr>lv_large := b # lv_large l\<rparr>) # tl (live st (L p))"
    proof -
      note rules = inv_large [OF inv L r lb(2) _ _ _ fresh(2) _ _ _ _ st'_def L'_def]
      have 1: "distinct (b # lv_large l)" using list(2) N(1) [of p] L by auto
      have 2: "lb' z = large_blocks st z" if "z \<notin> set (lv_large l) \<union> set (b # lv_large l)" for z using lb(3) [of z] that by (simp add: st1_def)
      have 3: "\<exists>m. (x, m) \<in> set ((b, ?n) # sys st) \<and> MEM_LARGE_BLOCK_OVERHEAD < m" if "x \<in> set (b # lv_large l)" for x
        using that pool_okD(6) [OF pools_invD(1) [OF inv] p, of x] n(1) L by auto
      have 4: "x \<noteq> overhead_blocks \<and> (\<forall>q. x \<notin> set (areas (L q)))" if "x \<in> set (b # lv_large l)" "x \<notin> set (lv_large l)" for x using that N by auto
      have 5: "?fill x = bytes st x" if c: "c \<in> set (all_blocks (L q))" "c \<le> x" "x < c + BLOCK_BYTES" for q c x
      proof -
        have "L q \<noteq> []" using c by auto
        then have "(c, BLOCK_BYTES) \<in> set (sys st)" using pool_okD(5) [OF pools_invD(1) [OF inv]] c by blast
        then show ?thesis using keptD [OF kept] c by (simp add: st1_def)
      qed
      show "pools_inv st' L' F" using rules(1) 1 2 3 4 5 by auto
      show "live st' (L' q) = live st (L q)" if "q \<noteq> p" for q using rules(2) 1 2 3 4 5 that by auto
      show "live st' (L' p) = level_bytes ((b, ?n) # sys st) (mem_blocks st) r (l\<lparr>lv_large := b # lv_large l\<rparr>) # tl (live st (L p))" using rules(3) 1 2 3 4 5 by auto
    qed
    have "the (map_of ((b, ?n) # sys st) x) = the (map_of (sys st) x)" if "x \<in> set (lv_large l)" for x using that N(1) [of p] L by auto
    then have top: "level_bytes ((b, ?n) # sys st) (mem_blocks st) r (l\<lparr>lv_large := b # lv_large l\<rparr>) =
        hd (live st (L p)) \<union> {b + MEM_LARGE_BLOCK_OVERHEAD ..< b + MEM_LARGE_BLOCK_OVERHEAD + n}"
      using live_hd [of st l r ls] r pb L level_bytes_large [where s = "sys st" and mb = "mem_blocks st" and r = r and l = l and xs = "lv_large l"]
      unfolding level_bytes_large [where l = l and xs = "b # lv_large l"] level_bytes_no_large [where s = "(b, ?n) # sys st" and s' = "sys st"] by (auto simp: algebra_simps)
    have fresh_bytes: "x \<notin> X" if X: "X \<in> set (live st (L q))" and x: "x \<in> {b + MEM_LARGE_BLOCK_OVERHEAD ..< b + MEM_LARGE_BLOCK_OVERHEAD + n}" for q X x
    proof
      assume "x \<in> X"
      then obtain a m where am: "a \<in> set (areas (L q))" "(a, m) \<in> set (sys st)" "a \<le> x" "x < a + m" using live_in_sys [OF inv X] by blast
      then have "a = b" using sys_one [OF fresh(2), of a m b ?n x] x by (auto simp: MEM_LARGE_BLOCK_OVERHEAD_def)
      then show False using N(1) am(1) by simp
    qed
    have "0 < b" "b mod 8 = 0" using sys_ok_fresh [OF fresh(2)] by auto
    then have b: "0 < b + MEM_LARGE_BLOCK_OVERHEAD" "(b + MEM_LARGE_BLOCK_OVERHEAD) mod 8 = 0"
      unfolding MEM_LARGE_BLOCK_OVERHEAD_def by presburger+
    have "in_sys st' (b + MEM_LARGE_BLOCK_OVERHEAD) n" by (auto simp: in_sys_def st'_def MEM_LARGE_BLOCK_OVERHEAD_def)
    moreover have "kept st st'" using kept by (simp add: kept_def st1_def st'_def)
    moreover have "pool_bz (mem_pools st p) \<longrightarrow> (\<forall>x \<in> {b + MEM_LARGE_BLOCK_OVERHEAD ..< b + MEM_LARGE_BLOCK_OVERHEAD + n}. bytes st' x = 0)"
      by (simp add: st'_def MEM_LARGE_BLOCK_OVERHEAD_def)
    moreover have "\<exists>l'. L' = L(p := l' # tl (L p)) \<and> lv_addr l' = lv_addr (hd (L p)) \<and> set (lv_large (hd (L p))) \<subseteq> set (lv_large l')"
      using L by (intro exI [of _ "l\<lparr>lv_large := b # lv_large l\<rparr>"]) (auto simp: L'_def)
    moreover have "set (sys st) \<subseteq> set (sys st') \<and> mem_pools st' = mem_pools st \<and> free_mem_pool_blocks_list st' = free_mem_pool_blocks_list st"
      by (auto simp: st'_def)
    ultimately have "alloc_ok st L F p n (b + MEM_LARGE_BLOCK_OVERHEAD) st' L'" using B b fresh_bytes unfolding alloc_ok_def top by blast
    moreover have "map_of (sys st') b = Some (n + MEM_LARGE_BLOCK_OVERHEAD)" by (simp add: st'_def)
    ultimately show ?thesis using that(2) [OF run] L'_def by simp
  qed
qed

lemma Raw_Allocate_ok:
  assumes inv: "pools_inv st L F" and L: "L p = l # ls" and n: "0 \<le> n" "n < 2147483648 - MEM_LARGE_BLOCK_OVERHEAD" "n mod 8 = 0"
  obtains (no_memory) "Raw_Allocate os p n st = Inl No_Memory"
  | (fresh) a st' L' where "Raw_Allocate os p n st = Inr (a, st')" "alloc_ok st L F p n a st' L'"
      "n \<le> MIN_LARGE_BLOCK_SIZE \<Longrightarrow> lv_large (hd (L' p)) = lv_large l \<and> head_of (L' p) \<noteq> 0 \<and>
        (\<exists>blk. mem_blocks st' (head_of (L' p)) = Some blk \<and> head_of (L' p) + MEM_BLOCK_OVERHEAD \<le> a \<and> a + n \<le> mb_ptr blk)"
      "MIN_LARGE_BLOCK_SIZE < n \<Longrightarrow> L' = L(p := l\<lparr>lv_large := (a - MEM_LARGE_BLOCK_OVERHEAD) # lv_large l\<rparr> # ls) \<and>
        map_of (sys st') (a - MEM_LARGE_BLOCK_OVERHEAD) = Some (n + MEM_LARGE_BLOCK_OVERHEAD)"
proof (cases "n \<le> MIN_LARGE_BLOCK_SIZE")
  case small: True
  then have n8: "n \<le> BLOCK_SIZE" by (simp add: MIN_LARGE_BLOCK_SIZE_def BLOCK_SIZE_def)
  from inv L n(1) n8 show ?thesis
  proof (cases rule: block_for_ok)
    case no_memory
    then show ?thesis using that(1) small by (simp add: Raw_Allocate_def)
  next
    case (block b st1 L1 blk l1)
    define st' where "st' = set_block b (blk\<lparr>mb_ptr := mb_ptr blk + n, mb_avail := mb_avail blk - n\<rparr>) st1"
    have L1: "L1 p = l1 # ls" using block(3) by simp
    have "header_ok b blk" using top_level(4) [OF pools_inv_pool(1) [OF block(6), of p]] block(2,7,8) L1 by auto
    then have avail: "mb_avail blk \<le> BLOCK_SIZE" "b + MEM_BLOCK_OVERHEAD \<le> mb_ptr blk" by (auto simp: header_ok_def)
    then have "u64 (mb_avail blk - n) = mb_avail blk - n" using n(1) block(9) by (simp add: u64_def BLOCK_SIZE_def)
    then have run: "Raw_Allocate os p n st = Inr (mb_ptr blk, st')"
      using small block(1,8) pools_invD(4) [OF block(6)] by (simp add: Raw_Allocate_def get_block_def st'_def)
    have cut: "alloc_ok st1 L1 F p n (mb_ptr blk) st' L1" by (rule cut_block [OF block(6) L1 block(7,2,8) n(1) block(9) n(3) st'_def])
    have "kept st st'" unfolding kept_def
    proof (intro ballI, clarify)
      fix a m x assume "(a, m) \<in> set (sys st)" "a \<le> x" "x < a + m"
      then show "bytes st' x = bytes st x" using keptD [OF block(11)] by (simp add: st'_def set_block_def)
    qed
    moreover have "\<exists>l'. L1 = L(p := l' # tl (L p)) \<and> lv_addr l' = lv_addr (hd (L p)) \<and> set (lv_large (hd (L p))) \<subseteq> set (lv_large l')"
      using block(3-5) L by auto
    moreover note cut [unfolded alloc_ok_def block(10) [rule_format] block(12,14)]
    ultimately have "alloc_ok st L F p n (mb_ptr blk) st' L1" using block(13) unfolding alloc_ok_def by blast
    then show ?thesis using that(2) [OF run] block(2,5,7) L1 small avail by (simp add: st'_def set_block_def)
  qed
next
  case False
  then have "0 < n" by (simp add: MIN_LARGE_BLOCK_SIZE_def)
  from inv L this n(2) show ?thesis by (cases rule: Allocate_Large_Block_ok) (use that False in \<open>auto simp: Raw_Allocate_def\<close>)
qed

lemma Alloc_P_ok:
  assumes inv: "pools_inv st L F" and L: "L p \<noteq> []" and n: "uint n < 2147483608"
  obtains (no_memory) "MEM_POOL_Alloc_P os p n st = Inl No_Memory"
  | (fresh) a st' L' where "MEM_POOL_Alloc_P os p n st = Inr (a, st')" "alloc_ok st L F p (uint (PAD_TO_ALIGN n)) a st' L'"
      "uint (PAD_TO_ALIGN n) \<le> MIN_LARGE_BLOCK_SIZE \<Longrightarrow> head_of (L' p) \<noteq> 0 \<and>
        (\<exists>blk. mem_blocks st' (head_of (L' p)) = Some blk \<and> head_of (L' p) + MEM_BLOCK_OVERHEAD \<le> a \<and> a + uint (PAD_TO_ALIGN n) \<le> mb_ptr blk)"
proof -
  obtain l ls where l: "L p = l # ls" using L by (cases "L p") auto
  note P = pools_inv_pool [OF inv L]
  have pad: "0 \<le> uint (PAD_TO_ALIGN n)" "uint (PAD_TO_ALIGN n) < 2147483648 - MEM_LARGE_BLOCK_OVERHEAD" "uint (PAD_TO_ALIGN n) mod 8 = 0"
    using pad_small [of n] n by (simp_all add: MEM_LARGE_BLOCK_OVERHEAD_def)
  then have "s32 (uint (PAD_TO_ALIGN n)) = uint (PAD_TO_ALIGN n)" by (simp add: s32_def MEM_LARGE_BLOCK_OVERHEAD_def)
  then have "MEM_POOL_Alloc_P os p n st = Raw_Allocate os p (uint (PAD_TO_ALIGN n)) st"
    using P(6,7,9,10,11) by (simp add: MEM_POOL_Alloc_P_def Is_True_def)
  then show thesis using Raw_Allocate_ok [OF inv l pad] that by metis
qed

end

end
