(* ===== verification/Memory_Pool_Free.thy ===== *)
theory Memory_Pool_Free
  imports Memory_Pool_Alloc
begin

text \<open>Freeing and reallocating objects of a memory pool.\<close>

section \<open>Freeing\<close>

lemma map_of_others: "c \<noteq> a \<Longrightarrow> map_of (filter (\<lambda>(b, _). b \<noteq> a) s) c = map_of s c"
  by (induction s) auto

lemma block_not_large:
  assumes "pools_inv st L F" and "b \<in> set (all_blocks (L q))" and "c \<in> set (all_large (L p))"
  shows "b \<noteq> c"
proof (cases "p = q")
  case True
  have "set (all_blocks (L q)) \<inter> set (all_large (L q)) = {}" using separateD(1) [OF pools_invD(2) [OF assms(1)], of q] by (simp add: areas_def)
  then show ?thesis using True assms(2,3) by blast
next
  case False
  then show ?thesis using separateD(4) [OF pools_invD(2) [OF assms(1)] False areas_in(2) [OF assms(3)]] areas_in(1) [OF assms(2)] by auto
qed

text \<open>The bytes of the blocks, and those of one large block, are apart from all others of the level.\<close>

lemma block_part_place:
  assumes inv: "pools_inv st L F" and L: "L p = l # ls" and r: "pool_levels st (pool_blocks (mem_pools st p)) = Some r"
    and x: "x \<in> level_bytes s (mem_blocks st) r (l\<lparr>lv_large := []\<rparr>)"
  shows "\<exists>b \<in> set (all_blocks (L p)). (b, BLOCK_BYTES) \<in> set (sys st) \<and> b \<le> x \<and> x < b + BLOCK_BYTES"
proof -
  have p: "L p \<noteq> []" using L by simp
  note P = pools_inv_pool [OF inv p]
  let ?pb = "pool_blocks (mem_pools st p)"
  have pb: "?pb = lv_addr l" "?pb \<notin> lv_addr ` set ls" using P(4,8) L by auto
  have lv: "levels_ok ((pool_levels st)(?pb \<mapsto> r\<lparr>pb_large := 0\<rparr>)) (large_blocks st) (mem_blocks st) ?pb (l\<lparr>lv_large := []\<rparr> # ls)"
    by (rule levels_large [OF P(1) [unfolded L] r]) (use pb in auto)
  have nz: "0 \<notin> set (all_blocks (l\<lparr>lv_large := []\<rparr> # ls))" using pools_inv_nonzero [OF inv, of 0 p] L by (auto simp: areas_def)
  have hdr: "\<exists>blk. mem_blocks st b = Some blk \<and> header_ok b blk" if "b \<in> set (all_blocks (L p))" for b
    by (rule levels_headers [OF P(1) that]) (use nz L in simp)
  have blocks: ?thesis if "b \<in> set (all_blocks (L p))" "mem_blocks st b = Some blk" "b + MEM_BLOCK_OVERHEAD \<le> x" "x < mb_ptr blk" for b blk
  proof -
    have "header_ok b blk" using hdr [OF that(1)] that(2) by simp
    then have "b \<le> x" "x < b + BLOCK_BYTES" using that(3,4) by (auto simp: header_ok_def MEM_BLOCK_OVERHEAD_def BLOCK_BYTES_def)
    then show ?thesis using pool_okD(5) [OF pools_invD(1) [OF inv] p that(1)] that(1) by blast
  qed
  define s0 where "s0 = map (\<lambda>a. (a, 0 :: int)) (all_large ls)"
  have s0: "map_of s0 c = Some 0" if "c \<in> set (all_large ls)" for c using that map_of_map_restrict [of "\<lambda>_. 0 :: int" "all_large ls"] by (simp add: s0_def)
  have X: "level_bytes s (mem_blocks st) r (l\<lparr>lv_large := []\<rparr>) \<in> set (live_in ((pool_levels st)(?pb \<mapsto> r\<lparr>pb_large := 0\<rparr>)) s0 (mem_blocks st) (l\<lparr>lv_large := []\<rparr> # ls))"
    using pb(1) by (simp add: level_bytes_def Let_def)
  from live_in_place [OF lv X x nz] show ?thesis
  proof
    assume "\<exists>a \<in> set (all_large (l\<lparr>lv_large := []\<rparr> # ls)). a + MEM_LARGE_BLOCK_OVERHEAD \<le> x \<and> x < a + the (map_of s0 a)"
    then show ?thesis using s0 by (auto simp: MEM_LARGE_BLOCK_OVERHEAD_def)
  qed (use blocks L in auto)
qed

lemma top_without:
  assumes inv: "pools_inv st L F" and L: "L p = l # ls" and r: "pool_levels st (pool_blocks (mem_pools st p)) = Some r"
    and a: "lv_large l = xs @ a # ys" "map_of (sys st) a = Some n" and s: "\<And>x. x \<in> set (xs @ ys) \<Longrightarrow> map_of s x = map_of (sys st) x"
  shows "level_bytes s (mem_blocks st) r (l\<lparr>lv_large := xs @ ys\<rparr>) = hd (live st (L p)) - {a + MEM_LARGE_BLOCK_OVERHEAD ..< a + n}"
proof -
  have p: "L p \<noteq> []" using L by simp
  note P = pools_inv_pool [OF inv p] and I = pools_invD [OF inv]
  have an: "(a, n) \<in> set (sys st)" using a(2) map_of_SomeD by force
  have "l\<lparr>lv_large := xs @ a # ys\<rparr> = l" using a(1) by simp
  then have "hd (live st (L p)) = level_bytes (sys st) (mem_blocks st) r (l\<lparr>lv_large := xs @ a # ys\<rparr>)" using live_hd [of st l r ls] r P(8) L by simp
  also have "\<dots> = level_bytes s (mem_blocks st) r (l\<lparr>lv_large := xs @ ys\<rparr>) \<union> {a + MEM_LARGE_BLOCK_OVERHEAD ..< a + n}"
    unfolding level_bytes_large [where xs = "xs @ a # ys"] level_bytes_large [where xs = "xs @ ys"] level_bytes_no_large [where s = s and s' = "sys st"]
    using a(2) s by auto
  moreover have "x \<notin> level_bytes s (mem_blocks st) r (l\<lparr>lv_large := xs @ ys\<rparr>)" if x: "x \<in> {a + MEM_LARGE_BLOCK_OVERHEAD ..< a + n}" for x
  proof
    have xa: "a \<le> x" "x < a + n" using x by (auto simp: MEM_LARGE_BLOCK_OVERHEAD_def)
    have dist: "distinct (all_blocks (L p) @ all_large (L p))" using separateD(1) [OF I(2), of p] by (simp add: areas_def)
    assume "x \<in> level_bytes s (mem_blocks st) r (l\<lparr>lv_large := xs @ ys\<rparr>)"
    then consider "x \<in> level_bytes s (mem_blocks st) r (l\<lparr>lv_large := []\<rparr>)"
      | c where "c \<in> set (xs @ ys)" "c + MEM_LARGE_BLOCK_OVERHEAD \<le> x" "x < c + the (map_of (sys st) c)"
      unfolding level_bytes_large [where xs = "xs @ ys"] using s by auto
    then show False
    proof cases
      case 1
      then obtain b where b: "b \<in> set (all_blocks (L p))" "(b, BLOCK_BYTES) \<in> set (sys st)" "b \<le> x" "x < b + BLOCK_BYTES" using block_part_place [OF inv L r] by blast
      then have "b = a" using sys_one [OF I(3) b(2) an] xa by simp
      then show False using b(1) dist a(1) L by auto
    next
      case 2
      obtain m where m: "(c, m) \<in> set (sys st)" using pool_okD(6) [OF I(1) p, of c] 2(1) a(1) L by auto
      then have "map_of (sys st) c = Some m" using sys_okD(1) [OF I(3)] by simp
      then have "c = a" using sys_one [OF I(3) m an, of x] 2 xa by (auto simp: MEM_LARGE_BLOCK_OVERHEAD_def)
      then show False using 2(1) dist a(1) L by auto
    qed
  qed
  ultimately show ?thesis by blast
qed

text \<open>A large block of the top level goes back to the C library.\<close>

lemma free_large:
  assumes inv: "pools_inv st L F" and L: "L p = l # ls" and a: "lv_large l = xs @ a # ys" "map_of (sys st) a = Some n"
  obtains st' L' where "MEM_POOL_FREE p (a + MEM_LARGE_BLOCK_OVERHEAD) st = Inr st'" "L' = L(p := l\<lparr>lv_large := xs @ ys\<rparr> # ls)" "pools_inv st' L' F"
    "live st' (L' p) = (hd (live st (L p)) - {a + MEM_LARGE_BLOCK_OVERHEAD ..< a + n}) # tl (live st (L p))"
    "\<forall>q. q \<noteq> p \<longrightarrow> live st' (L' q) = live st (L q)" "sys st' = filter (\<lambda>(b, _). b \<noteq> a) (sys st)" "bytes st' = bytes st" "mem_pools st' = mem_pools st"
    "free_mem_pool_blocks_list st' = free_mem_pool_blocks_list st"
proof -
  have p: "L p \<noteq> []" using L by simp
  note P = pools_inv_pool [OF inv p] and I = pools_invD [OF inv]
  let ?pb = "pool_blocks (mem_pools st p)" and ?sys = "filter (\<lambda>(b, _). b \<noteq> a) (sys st)"
  obtain r where r: "pool_levels st ?pb = Some r" using top_level(1) [OF P(1) p] by blast
  have pb: "?pb = lv_addr l" using P(8) L by simp
  have list: "large_list (large_blocks st) ?pb 0 (pb_large r) (xs @ a # ys) 0" "distinct (xs @ a # ys)"
    using P(1) P(3) r L a(1) by (auto simp: levels_ok.simps)
  obtain h where h: "large_blocks st a = Some h" "lb_base h = ?pb" "lb_ptr h = a + MEM_LARGE_BLOCK_OVERHEAD" and "a \<noteq> 0"
    using large_list_in [OF list(1), of a] by auto
  have an: "(a, n) \<in> set (sys st)" using a(2) map_of_SomeD by force
  from unlink_ok [OF list r h(1)] obtain t lb' where u: "unlink_large ?pb (lb_prev h) (lb_next h) st =
      Inr (st\<lparr>large_blocks := lb', pool_levels := (pool_levels st)(?pb \<mapsto> r\<lparr>pb_large := t\<rparr>)\<rparr>)"
    "large_list lb' ?pb 0 t (xs @ ys) 0" "\<And>z. z \<notin> set (xs @ ys) \<Longrightarrow> lb' z = large_blocks st z" by metis
  define st' where "st' = st\<lparr>sys := ?sys, bytes := bytes st, large_blocks := lb'(a := None), pool_levels := (pool_levels st)(?pb \<mapsto> r\<lparr>pb_large := t\<rparr>)\<rparr>"
  define L' where "L' = L(p := l\<lparr>lv_large := xs @ ys\<rparr> # ls)"
  have "lb' a = Some h" using u(3) [of a] list(2) h(1) by simp
  then have "MEM_LARGE_BLOCK_free a (st\<lparr>large_blocks := lb', pool_levels := (pool_levels st)(?pb \<mapsto> r\<lparr>pb_large := t\<rparr>)\<rparr>) = Inr st'"
    using an by (simp add: MEM_LARGE_BLOCK_free_def get_large_def MEM_LARGE_BLOCK_zap_def set_large_def c_free_ok st'_def)
  moreover have "0 < a" using sys_okD(2) [OF I(3) an] by simp
  ultimately have run: "MEM_POOL_FREE p (a + MEM_LARGE_BLOCK_OVERHEAD) st = Inr st'"
    using P(6,7,10,11) h u(1) by (simp add: MEM_POOL_FREE_def large_header_def MEM_LARGE_BLOCK_OVERHEAD_def)
  have "large_list (lb'(a := None)) ?pb 0 t (xs @ ys) 0" using u(2) list(2) by (subst large_list_cong) auto
  note rules = inv_large [OF inv L r this _ _ _ sys_ok_filter [OF I(3)] _ _ _ _ st'_def L'_def]
  have 1: "distinct (xs @ ys)" using list(2) by auto
  have 2: "(lb'(a := None)) z = large_blocks st z" if "z \<notin> set (lv_large l) \<union> set (xs @ ys)" for z using u(3) [of z] that a(1) by auto
  have 3: "(lb'(a := None)) z = None" if "z \<in> set (lv_large l)" "z \<notin> set (xs @ ys)" for z using that a(1) by auto
  have 4: "(c, m) \<in> set ?sys" if "(c, m) \<in> set (sys st)" "c \<notin> set (lv_large l)" for c m using that a(1) by auto
  have 5: "\<exists>m. (x, m) \<in> set ?sys \<and> MEM_LARGE_BLOCK_OVERHEAD < m" if "x \<in> set (xs @ ys)" for x
  proof -
    have "x \<noteq> a" using that list(2) by auto
    then show ?thesis using pool_okD(6) [OF I(1) p, of x] that a(1) L by auto
  qed
  have 6: "x \<noteq> overhead_blocks \<and> (\<forall>q. x \<notin> set (areas (L q)))" if "x \<in> set (xs @ ys)" "x \<notin> set (lv_large l)" for x using that a(1) by auto
  have inv': "pools_inv st' L' F" using rules(1) 1 2 3 4 5 6 by auto
  have others: "\<forall>q. q \<noteq> p \<longrightarrow> live st' (L' q) = live st (L q)" using rules(2) 1 2 3 4 5 6 by auto
  have top: "live st' (L' p) = level_bytes ?sys (mem_blocks st) r (l\<lparr>lv_large := xs @ ys\<rparr>) # tl (live st (L p))" using rules(3) 1 2 3 4 5 6 by auto
  have "map_of ?sys x = map_of (sys st) x" if "x \<in> set (xs @ ys)" for x
    using map_of_others [of x a "sys st"] that list(2) by auto
  from top_without [OF inv L r a this]
  show thesis using that [OF run L'_def inv'] top others by (simp add: st'_def)
qed

text \<open>Large blocks of lower levels have another base, and are left to the pop of their level.\<close>

lemma large_base:
  assumes "levels_ok pl lb mb pb ls" and "a \<in> set (all_large ls)"
  shows "\<exists>h. lb a = Some h \<and> lb_ptr h = a + MEM_LARGE_BLOCK_OVERHEAD \<and> lb_base h \<in> lv_addr ` set ls"
  using assms
proof (induction ls arbitrary: pb mb)
  case (Cons l ls)
  from Cons.prems(1) obtain r where r: "pb = lv_addr l" "large_list lb pb 0 (pb_large r) (lv_large l) 0" "levels_ok pl lb (restored r mb) (pb_rest r) ls"
    by (rule levels_okE)
  show ?case
  proof (cases "a \<in> set (lv_large l)")
    case True
    then show ?thesis using large_list_in [OF r(2) True] r(1) by auto
  next
    case False
    then show ?thesis using Cons.IH [OF r(3)] Cons.prems(2) by auto
  qed
qed simp

lemma large_base_below:
  assumes inv: "pools_inv st L F" and L: "L p = l # ls" and a: "a \<in> set (all_large ls)"
  shows "\<exists>h. large_blocks st a = Some h \<and> lb_base h \<noteq> pool_blocks (mem_pools st p)"
proof -
  have p: "L p \<noteq> []" using L by simp
  note P = pools_inv_pool [OF inv p]
  obtain r where r: "levels_ok (pool_levels st) (large_blocks st) (restored r (mem_blocks st)) (pb_rest r) ls"
    using P(1) unfolding L by (auto elim: levels_okE)
  then show ?thesis using large_base [OF r a] P(4,8) L by auto
qed

lemma free_below:
  assumes inv: "pools_inv st L F" and L: "L p = l # ls" and a: "a \<in> set (all_large ls)"
  shows "MEM_POOL_FREE p (a + MEM_LARGE_BLOCK_OVERHEAD) st = Inr st"
proof -
  obtain h where h: "large_blocks st a = Some h" "lb_base h \<noteq> pool_blocks (mem_pools st p)" using large_base_below [OF assms] by blast
  have p: "L p \<noteq> []" using L by simp
  show ?thesis using pools_inv_pool(6,7,10,11) [OF inv p] h by (simp add: MEM_POOL_FREE_def large_header_def)
qed

section \<open>Writing to objects\<close>

lemma inv_write:
  assumes inv: "pools_inv st L F" and same: "\<And>x. (\<forall>q. \<forall>X \<in> set (live st (L q)). x \<notin> X) \<Longrightarrow> m x = bytes st x"
  shows "pools_inv (st\<lparr>bytes := m\<rparr>) L F" and "live (st\<lparr>bytes := m\<rparr>) ls = live st ls"
proof -
  show "live (st\<lparr>bytes := m\<rparr>) ls = live st ls" by (simp add: live_def)
  have "pool_ok (st\<lparr>bytes := m\<rparr>) p (L p)" for p
  proof (cases "L p = []")
    case False
    note P = pools_inv_pool [OF inv False] and D = pool_okD [OF pools_invD(1) [OF inv] False]
    have "zero_ok (st\<lparr>bytes := m\<rparr>) p (L p)"
      unfolding zero_ok_def
    proof (intro impI allI)
      fix blk x assume bz: "pool_bz (mem_pools (st\<lparr>bytes := m\<rparr>) p)" and blk: "mem_blocks (st\<lparr>bytes := m\<rparr>) (head_of (L p)) = Some blk"
        and x: "mb_ptr blk \<le> x" "x < mb_ptr blk + mb_avail blk"
      have h: "head_of (L p) \<noteq> 0" using blk P(5) by auto
      have blk': "mem_blocks st (head_of (L p)) = Some blk" using blk by simp
      have "m x = bytes st x" using same free_not_live [OF inv False refl h blk' x] by blast
      moreover have "bytes st x = 0" using D(7) bz blk' x unfolding zero_ok_def by auto
      ultimately show "bytes (st\<lparr>bytes := m\<rparr>) x = 0" by simp
    qed
    then show ?thesis using pools_invD(1) [OF inv, of p] False by (simp add: pool_ok_def)
  qed (use pools_invD(1) [OF inv, of p] in \<open>simp add: pool_ok_def\<close>)
  then show "pools_inv (st\<lparr>bytes := m\<rparr>) L F" using inv by (simp add: pools_inv_def overhead_ok_def)
qed

section \<open>Reallocation\<close>

text \<open>An object of \<open>n\<close> bytes of the pool: a part of a block, or a large block of any level.\<close>

definition object :: "mem_state \<Rightarrow> level list \<Rightarrow> int \<Rightarrow> int \<Rightarrow> bool" where
  "object st ls a n \<longleftrightarrow>
     (if n \<le> MIN_LARGE_BLOCK_SIZE then 0 \<le> n \<and> {a ..< a + n} \<subseteq> \<Union> (set (live st ls)) \<and> in_sys st a n
      else a - MEM_LARGE_BLOCK_OVERHEAD \<in> set (all_large ls) \<and> map_of (sys st) (a - MEM_LARGE_BLOCK_OVERHEAD) = Some (n + MEM_LARGE_BLOCK_OVERHEAD))"

lemma live_in_large: "c \<in> set (all_large ls) \<Longrightarrow> \<exists>X \<in> set (live_in pl s mb ls). {c + MEM_LARGE_BLOCK_OVERHEAD ..< c + the (map_of s c)} \<subseteq> X"
proof (induction ls arbitrary: mb)
  case (Cons l ls)
  show ?case
  proof (cases "c \<in> set (lv_large l)")
    case True
    then show ?thesis by (auto simp: level_bytes_def Let_def)
  next
    case False
    then show ?thesis using Cons by (auto simp: Let_def)
  qed
qed simp

lemma objectD:
  assumes "object st ls a n"
  shows "0 \<le> n" and "{a ..< a + n} \<subseteq> \<Union> (set (live st ls))" and "in_sys st a n"
proof -
  show "0 \<le> n" using assms by (auto simp: object_def MIN_LARGE_BLOCK_SIZE_def split: if_splits)
  show "{a ..< a + n} \<subseteq> \<Union> (set (live st ls))"
  proof (cases "n \<le> MIN_LARGE_BLOCK_SIZE")
    case False
    then have "a - MEM_LARGE_BLOCK_OVERHEAD \<in> set (all_large ls)" "map_of (sys st) (a - MEM_LARGE_BLOCK_OVERHEAD) = Some (n + MEM_LARGE_BLOCK_OVERHEAD)"
      using assms by (auto simp: object_def)
    from live_in_large [OF this(1), of "pool_levels st" "sys st" "mem_blocks st"] this(2) show ?thesis by (auto simp: live_def)
  qed (use assms in \<open>simp add: object_def\<close>)
  show "in_sys st a n"
  proof (cases "n \<le> MIN_LARGE_BLOCK_SIZE")
    case False
    then have "(a - MEM_LARGE_BLOCK_OVERHEAD, n + MEM_LARGE_BLOCK_OVERHEAD) \<in> set (sys st)"
      using assms by (auto simp: object_def dest: map_of_SomeD)
    moreover have "a - MEM_LARGE_BLOCK_OVERHEAD \<le> a" by (simp add: MEM_LARGE_BLOCK_OVERHEAD_def)
    ultimately show ?thesis by (force simp: in_sys_def)
  qed (use assms in \<open>simp add: object_def\<close>)
qed

text \<open>
  The effect of reallocating the object of \<open>m\<close> bytes at \<open>a\<close> to \<open>n\<close> bytes at \<open>b\<close>: the contents move, everything else stays, and the new
  object overlaps nothing but the old one.
\<close>

definition realloc_ok :: "mem_state \<Rightarrow> (int \<Rightarrow> level list) \<Rightarrow> int list \<Rightarrow> int \<Rightarrow> int \<Rightarrow> int \<Rightarrow> int \<Rightarrow> int \<Rightarrow> mem_state \<Rightarrow> (int \<Rightarrow> level list) \<Rightarrow> bool" where
  "realloc_ok st L F p a m n b st' L' \<longleftrightarrow> pools_inv st' L' F \<and>
     tl (live st' (L' p)) = tl (live st (L p)) \<and> (\<forall>q. q \<noteq> p \<longrightarrow> L' q = L q \<and> live st' (L' q) = live st (L q)) \<and> map lv_addr (L' p) = map lv_addr (L p) \<and> mem_pools st' = mem_pools st \<and>
     hd (live st (L p)) - {a ..< a + m} \<subseteq> hd (live st' (L' p)) \<and> {b ..< b + n} \<subseteq> \<Union> (set (live st' (L' p))) \<and>
     (\<forall>i. 0 \<le> i \<longrightarrow> i < min m n \<longrightarrow> bytes st' (b + i) = bytes st (a + i)) \<and>
     (\<forall>q. \<forall>X \<in> set (live st (L q)). \<forall>x \<in> X - {a ..< a + m}. x \<notin> {b ..< b + n} \<and> bytes st' x = bytes st x)"

lemma realloc_same:
  assumes "pools_inv st L F" and "object st (L p) a m" and "n \<le> m"
  shows "realloc_ok st L F p a m n a st L"
  using assms objectD(2) [OF assms(2)] by (auto simp: realloc_ok_def)

lemma realloc_copied:
  assumes inv: "pools_inv st L F" and p: "L p \<noteq> []" and A: "alloc_ok st L F p n b st1 L'"
    and st': "st' = st1\<lparr>bytes := (\<lambda>x. if b \<le> x \<and> x < b + min m n then bytes st (a + (x - b)) else bytes st1 x)\<rparr>" "pools_inv st' L' F"
  shows "realloc_ok st L F p a m n b st' L'"
proof -
  note A = A [unfolded alloc_ok_def]
  have live: "live st' ls = live st1 ls" for ls by (simp add: st'(1) live_def)
  have bytes: "x \<notin> {b ..< b + n} \<and> bytes st' x = bytes st x" if X: "X \<in> set (live st (L q))" "x \<in> X" for q X x
  proof -
    have new: "x \<notin> {b ..< b + n}" using A X by blast
    obtain c k where c: "(c, k) \<in> set (sys st)" "c \<le> x" "x < c + k" using live_in_sys [OF inv X] by blast
    have "kept st st1" using A by blast
    then have "bytes st1 x = bytes st x" using keptD c by blast
    then show ?thesis using new by (auto simp: st'(1))
  qed
  obtain l ls where L: "L p = l # ls" using p by (cases "L p") auto
  moreover obtain l' where "L' = L(p := l' # tl (L p))" "lv_addr l' = lv_addr (hd (L p))" using A by blast
  ultimately have addr: "map lv_addr (L' p) = map lv_addr (L p)" "\<And>q. q \<noteq> p \<Longrightarrow> L' q = L q" by auto
  have top: "live st' (L' p) = (hd (live st (L p)) \<union> {b ..< b + n}) # tl (live st (L p))" using A live by simp
  have "bytes st' (b + i) = bytes st (a + i)" if "0 \<le> i" "i < min m n" for i using that by (simp add: st'(1))
  moreover have "live st' (L' q) = live st (L q)" if "q \<noteq> p" for q using A live that by simp
  moreover have "mem_pools st' = mem_pools st" using A st'(1) by simp
  ultimately show ?thesis using st'(2) addr top bytes unfolding realloc_ok_def by auto
qed

context c_library
begin

lemma copy_to_new_ok:
  assumes inv: "pools_inv st L F" and L: "L p = l # ls" and n: "0 \<le> n" "n < 2147483648 - MEM_LARGE_BLOCK_OVERHEAD" "n mod 8 = 0"
    and k: "0 \<le> k" "k \<le> n" "in_sys st a k"
  obtains (no_memory) "copy_to_new os p a n k st = Inl No_Memory"
  | (copied) b st1 st' L' where "copy_to_new os p a n k st = Inr (b, st')" "alloc_ok st L F p n b st1 L'"
      "st' = st1\<lparr>bytes := (\<lambda>x. if b \<le> x \<and> x < b + k then bytes st (a + (x - b)) else bytes st1 x)\<rparr>" "pools_inv st' L' F"
      "n \<le> MIN_LARGE_BLOCK_SIZE \<Longrightarrow> lv_large (hd (L' p)) = lv_large l"
proof -
  have s: "s32 n = n" using n by (simp add: s32_def MEM_LARGE_BLOCK_OVERHEAD_def)
  from inv L n show thesis
  proof (cases rule: Raw_Allocate_ok)
    case no_memory
    then show ?thesis using that(1) s by (simp add: copy_to_new_def)
  next
    case (fresh b st1 L')
    note A = fresh(2) [unfolded alloc_ok_def]
    have "in_sys st1 a k" "in_sys st1 b k" using k A by (auto simp: in_sys_def; fastforce)+
    moreover have "bytes st1 (a + (x - b)) = bytes st (a + (x - b))" if x: "b \<le> x" "x < b + k" for x
    proof -
      obtain c m where "(c, m) \<in> set (sys st)" "c \<le> a" "a + k \<le> c + m" using k(3) x by (auto simp: in_sys_def)
      then show ?thesis using keptD [of st st1 c m] A x by auto
    qed
    then have "(\<lambda>x. if b \<le> x \<and> x < b + k then bytes st1 (a + (x - b)) else bytes st1 x) =
        (\<lambda>x. if b \<le> x \<and> x < b + k then bytes st (a + (x - b)) else bytes st1 x)" by auto
    moreover define st' where "st' = st1\<lparr>bytes := (\<lambda>x. if b \<le> x \<and> x < b + k then bytes st (a + (x - b)) else bytes st1 x)\<rparr>"
    ultimately have run: "copy_to_new os p a n k st = Inr (b, st')" using fresh(1) s by (simp add: copy_to_new_def bcopy_def)
    have "pools_inv st' L' F" unfolding st'_def
    proof (rule inv_write)
      show "pools_inv st1 L' F" using A by simp
      show "(if b \<le> x \<and> x < b + k then bytes st (a + (x - b)) else bytes st1 x) = bytes st1 x" if out: "\<forall>q. \<forall>X \<in> set (live st1 (L' q)). x \<notin> X" for x
      proof -
        have "live st1 (L' p) = (hd (live st (L p)) \<union> {b ..< b + n}) # tl (live st (L p))" using A by blast
        then have "x \<notin> {b ..< b + n}" using out by (metis UnCI list.set_intros(1))
        then show ?thesis using k(2) by auto
      qed
    qed
    then show ?thesis using that(2) [OF run fresh(2) st'_def] fresh(3) by blast
  qed
qed

lemma realloc_cases:
  assumes "sys_ok (sys st)" and "0 < n" and "map_of (sys st) c = Some m"
  obtains (no_memory) "c_realloc os c n st = Inl No_Memory"
  | (moved) y where "c_realloc os c n st = Inr (y, st\<lparr>sys := (y, n) # filter (\<lambda>(b, _). b \<noteq> c) (sys st),
        bytes := (\<lambda>x. if y \<le> x \<and> x < y + min m n then bytes st (c + (x - y)) else bytes st x)\<rparr>)"
      "sys_ok ((y, n) # filter (\<lambda>(b, _). b \<noteq> c) (sys st))"
proof (cases "os_realloc os (filter (\<lambda>(b, _). b \<noteq> c) (sys st)) c n = 0")
  case True
  then show ?thesis using no_memory assms(3) by (simp add: c_realloc_def Let_def)
next
  case False
  show ?thesis
    using moved [of "os_realloc os (filter (\<lambda>(b, _). b \<noteq> c) (sys st)) c n"] False realloc_fresh [OF sys_ok_filter [OF assms(1)] assms(2) False] assms(3)
    by (simp add: c_realloc_def Let_def)
qed

text \<open>Moving a large block of the top level.\<close>

lemma moved_large:
  assumes inv: "pools_inv st L F" and L: "L p = l # ls" and r: "pool_levels st (pool_blocks (mem_pools st p)) = Some r"
    and c: "lv_large l = xs @ c # ys" "map_of (sys st) c = Some (m + MEM_LARGE_BLOCK_OVERHEAD)" and n: "0 < n"
    and ok: "sys_ok ((y, n + MEM_LARGE_BLOCK_OVERHEAD) # filter (\<lambda>(b, _). b \<noteq> c) (sys st))"
    and lb: "large_list lb' (pool_blocks (mem_pools st p)) 0 t (xs @ y # ys) 0" "\<And>z. z \<notin> set (xs @ ys) \<Longrightarrow> z \<noteq> y \<Longrightarrow> lb' z = ((large_blocks st)(c := None)) z"
    and bytes': "\<And>x. x \<notin> {y ..< y + MEM_LARGE_BLOCK_OVERHEAD + n} \<Longrightarrow> bytes' x = bytes st x"
      "\<And>i. 0 \<le> i \<Longrightarrow> i < min m n \<Longrightarrow> bytes' (y + MEM_LARGE_BLOCK_OVERHEAD + i) = bytes st (c + MEM_LARGE_BLOCK_OVERHEAD + i)"
    and st': "st' = st\<lparr>sys := (y, n + MEM_LARGE_BLOCK_OVERHEAD) # filter (\<lambda>(b, _). b \<noteq> c) (sys st), bytes := bytes', large_blocks := lb',
      pool_levels := (pool_levels st)(pool_blocks (mem_pools st p) \<mapsto> r\<lparr>pb_large := t\<rparr>)\<rparr>"
    and L': "L' = L(p := l\<lparr>lv_large := xs @ y # ys\<rparr> # ls)"
  shows "realloc_ok st L F p (c + MEM_LARGE_BLOCK_OVERHEAD) m n (y + MEM_LARGE_BLOCK_OVERHEAD) st' L'"
proof -
  have p: "L p \<noteq> []" using L by simp
  note P = pools_inv_pool [OF inv p] and I = pools_invD [OF inv]
  let ?others = "filter (\<lambda>(b, _). b \<noteq> c) (sys st)"
  have dist: "distinct (xs @ c # ys)" using P(3) L c(1) by auto
  have y: "y \<notin> fst ` set ?others" using sys_ok_fresh [OF ok] by simp
  have in_others: "x \<in> fst ` set ?others" if "x \<in> set (areas (L q))" "x \<noteq> c" for x q
    using I(6) [OF that(1)] that(2) by force
  have yn: "y \<notin> set (areas (L q))" if "y \<noteq> c" for q using in_others [of y q] that y by blast
  have ynx: "y \<notin> set (xs @ ys)"
  proof (cases "y = c")
    case False
    then show ?thesis using yn [OF False, of p] L c(1) by auto
  qed (use dist in auto)
  have out: "x \<notin> {y ..< y + MEM_LARGE_BLOCK_OVERHEAD + n}" if x: "(d, k) \<in> set (sys st)" "d \<noteq> c" "d \<le> x" "x < d + k" for d k x
  proof
    assume xy: "x \<in> {y ..< y + MEM_LARGE_BLOCK_OVERHEAD + n}"
    have d: "(d, k) \<in> set ?others" using x by simp
    then have "d = y" using sys_one [OF ok, of d k y "n + MEM_LARGE_BLOCK_OVERHEAD" x] x xy by auto
    then show False using d y by force
  qed
  note rules = inv_large [OF inv L r lb(1) _ _ _ ok _ _ _ _ st' L']
  have 1: "distinct (xs @ y # ys)" using dist ynx by auto
  have 2: "lb' z = large_blocks st z" if "z \<notin> set (lv_large l) \<union> set (xs @ y # ys)" for z using lb(2) [of z] that c(1) by auto
  have 3: "lb' z = None" if "z \<in> set (lv_large l)" "z \<notin> set (xs @ y # ys)" for z using lb(2) [of z] that c(1) by auto
  have 4: "(d, k) \<in> set ((y, n + MEM_LARGE_BLOCK_OVERHEAD) # ?others)" if "(d, k) \<in> set (sys st)" "d \<notin> set (lv_large l)" for d k using that c(1) by auto
  have 5: "\<exists>k. (x, k) \<in> set ((y, n + MEM_LARGE_BLOCK_OVERHEAD) # ?others) \<and> MEM_LARGE_BLOCK_OVERHEAD < k" if "x \<in> set (xs @ y # ys)" for x
  proof (cases "x = y")
    case False
    then have "x \<in> set (lv_large l)" "x \<noteq> c" using that c(1) dist by auto
    then show ?thesis using pool_okD(6) [OF I(1) p, of x] L by auto
  qed (use n in auto)
  have 6: "x \<noteq> overhead_blocks \<and> (\<forall>q. x \<notin> set (areas (L q)))" if "x \<in> set (xs @ y # ys)" "x \<notin> set (lv_large l)" for x
  proof -
    have xy: "x = y" "y \<noteq> c" using that c(1) by auto
    have "c \<noteq> overhead_blocks" using separateD(3) [OF I(2), of p] L c(1) by auto
    then have "overhead_blocks \<in> fst ` set ?others" using I(5) by force
    then show ?thesis using xy y yn [OF xy(2)] by auto
  qed
  have 7: "bytes' x = bytes st x" if b: "b \<in> set (all_blocks (L q))" "b \<le> x" "x < b + BLOCK_BYTES" for q b x
  proof -
    have "L q \<noteq> []" using b by auto
    then have "(b, BLOCK_BYTES) \<in> set (sys st)" using pool_okD(5) [OF I(1)] b by blast
    moreover have "b \<noteq> c" using block_not_large [OF inv b(1), of c p] L c(1) by simp
    ultimately show ?thesis using bytes'(1) out b by blast
  qed
  have inv': "pools_inv st' L' F" using rules(1) 1 2 3 4 5 6 7 by auto
  have others: "live st' (L' q) = live st (L q)" if "q \<noteq> p" for q using rules(2) 1 2 3 4 5 6 7 that by auto
  have top: "live st' (L' p) = level_bytes (sys st') (mem_blocks st) r (l\<lparr>lv_large := xs @ y # ys\<rparr>) # tl (live st (L p))" using rules(3) 1 2 3 4 5 6 7 by (auto simp: st')
  have "map_of (sys st') x = map_of (sys st) x" if "x \<in> set (xs @ ys)" for x
    using map_of_others [of x c "sys st"] that dist ynx by (auto simp: st')
  note without = top_without [OF inv L r c this]
  have "level_bytes (sys st') (mem_blocks st) r (l\<lparr>lv_large := xs @ y # ys\<rparr>) =
      level_bytes (sys st') (mem_blocks st) r (l\<lparr>lv_large := xs @ ys\<rparr>) \<union> {y + MEM_LARGE_BLOCK_OVERHEAD ..< y + MEM_LARGE_BLOCK_OVERHEAD + n}"
    unfolding level_bytes_large [where xs = "xs @ y # ys"] level_bytes_large [where xs = "xs @ ys"] by (auto simp: st' algebra_simps)
  then have hd': "hd (live st' (L' p)) = (hd (live st (L p)) - {c + MEM_LARGE_BLOCK_OVERHEAD ..< c + MEM_LARGE_BLOCK_OVERHEAD + m}) \<union>
      {y + MEM_LARGE_BLOCK_OVERHEAD ..< y + MEM_LARGE_BLOCK_OVERHEAD + n}"
    using top without by (simp add: algebra_simps)
  have bytes: "x \<notin> {y + MEM_LARGE_BLOCK_OVERHEAD ..< y + MEM_LARGE_BLOCK_OVERHEAD + n} \<and> bytes st' x = bytes st x"
    if X: "X \<in> set (live st (L q))" "x \<in> X - {c + MEM_LARGE_BLOCK_OVERHEAD ..< c + MEM_LARGE_BLOCK_OVERHEAD + m}" for q X x
  proof -
    have "\<exists>d k. (d, k) \<in> set (sys st) \<and> d \<noteq> c \<and> d \<le> x \<and> x < d + k"
    proof (cases "\<exists>b \<in> set (all_blocks (L q)). \<exists>blk. (b, BLOCK_BYTES) \<in> set (sys st) \<and> mem_blocks st b = Some blk \<and> header_ok b blk \<and>
        b + MEM_BLOCK_OVERHEAD \<le> x \<and> x < mb_ptr blk")
      case True
      then obtain b blk where b: "b \<in> set (all_blocks (L q))" "(b, BLOCK_BYTES) \<in> set (sys st)" "header_ok b blk" "b + MEM_BLOCK_OVERHEAD \<le> x" "x < mb_ptr blk" by blast
      moreover have "b \<noteq> c" using block_not_large [OF inv b(1), of c p] L c(1) by simp
      moreover have "b \<le> x" "x < b + BLOCK_BYTES" using b(3-5) by (auto simp: header_ok_def MEM_BLOCK_OVERHEAD_def BLOCK_BYTES_def)
      ultimately show ?thesis by blast
    next
      case False
      then obtain d k where d: "(d, k) \<in> set (sys st)" "d + MEM_LARGE_BLOCK_OVERHEAD \<le> x" "x < d + k" using live_place [OF inv X(1), of x] X(2) by blast
      have "d \<noteq> c"
      proof
        assume "d = c"
        then have "k = m + MEM_LARGE_BLOCK_OVERHEAD" using sys_okD(4) [OF I(3), of c] map_of_SomeD [OF c(2)] d(1) by simp
        then show False using d X(2) \<open>d = c\<close> by simp
      qed
      moreover have "d \<le> x" using d(2) by (simp add: MEM_LARGE_BLOCK_OVERHEAD_def)
      ultimately show ?thesis using d by blast
    qed
    then have "x \<notin> {y ..< y + MEM_LARGE_BLOCK_OVERHEAD + n}" using out by blast
    then show ?thesis using bytes'(1) [of x] by (auto simp: st' MEM_LARGE_BLOCK_OVERHEAD_def)
  qed
  have "map lv_addr (L' p) = map lv_addr (L p)" "\<And>q. q \<noteq> p \<Longrightarrow> L' q = L q" using L L' by auto
  moreover have "hd (live st' (L' p)) \<subseteq> \<Union> (set (live st' (L' p)))" using top by auto
  then have "{y + MEM_LARGE_BLOCK_OVERHEAD ..< y + MEM_LARGE_BLOCK_OVERHEAD + n} \<subseteq> \<Union> (set (live st' (L' p)))" using hd' by blast
  moreover have "\<forall>i. 0 \<le> i \<longrightarrow> i < min m n \<longrightarrow> bytes st' (y + MEM_LARGE_BLOCK_OVERHEAD + i) = bytes st (c + MEM_LARGE_BLOCK_OVERHEAD + i)"
    using bytes'(2) by (simp add: st')
  moreover have "mem_pools st' = mem_pools st" by (simp add: st')
  ultimately show ?thesis using inv' others top hd' bytes unfolding realloc_ok_def by simp
qed

lemma Realloc_large_ok:
  assumes inv: "pools_inv st L F" and L: "L p = l # ls"
    and c: "lv_large l = xs @ c # ys" "map_of (sys st) c = Some (m + MEM_LARGE_BLOCK_OVERHEAD)" and n: "0 < n" "n < 2147483648" and m: "0 \<le> m" "m < 4294967296"
  obtains (no_memory) "Realloc_large os (mem_pools st p) (c + MEM_LARGE_BLOCK_OVERHEAD) m n st = Inl No_Memory"
  | (wild_bzero) "pool_bz (mem_pools st p)" "n < m" "Realloc_large os (mem_pools st p) (c + MEM_LARGE_BLOCK_OVERHEAD) m n st = Inl Out_Of_Bounds"
  | (moved) y st' where "\<not> (pool_bz (mem_pools st p) \<and> n < m)"
      "Realloc_large os (mem_pools st p) (c + MEM_LARGE_BLOCK_OVERHEAD) m n st = Inr (y + MEM_LARGE_BLOCK_OVERHEAD, st')"
      "realloc_ok st L F p (c + MEM_LARGE_BLOCK_OVERHEAD) m n (y + MEM_LARGE_BLOCK_OVERHEAD) st' (L(p := l\<lparr>lv_large := xs @ y # ys\<rparr> # ls))"
proof -
  note finish = that
  have p: "L p \<noteq> []" using L by simp
  note P = pools_inv_pool [OF inv p] and I = pools_invD [OF inv]
  let ?pool = "mem_pools st p" and ?O = MEM_LARGE_BLOCK_OVERHEAD
  let ?pb = "pool_blocks ?pool"
  obtain r where r: "pool_levels st ?pb = Some r" using top_level(1) [OF P(1) p] by blast
  have list: "large_list (large_blocks st) ?pb 0 (pb_large r) (xs @ c # ys) 0" "distinct (xs @ c # ys)"
    using P(1) P(3) r L c(1) by (auto simp: levels_ok.simps)
  obtain h where h: "large_blocks st c = Some h" using large_list_in [OF list(1), of c] by auto
  define z where "z = MEM_LARGE_BLOCK_zap c h st"
  have z: "sys z = sys st" "bytes z = bytes st" "pool_levels z = pool_levels st" by (simp_all add: z_def MEM_LARGE_BLOCK_zap_def set_large_def)
  have O: "0 < n + ?O" "c + ?O - ?O = c" using n by (simp_all add: MEM_LARGE_BLOCK_OVERHEAD_def)
  have run0: "Realloc_large os ?pool (c + ?O) m n st = bindE (bindE (c_realloc os c (n + ?O) z) (\<lambda>(nb, st). Inr (nb, st\<lparr>large_blocks := ((large_blocks st)(c := None))(nb \<mapsto> h)\<rparr>)))
      (\<lambda>(lb, st). bindE (get_large st lb) (\<lambda>l.
       let ptr = lb + ?O; st = set_large lb (l\<lparr>lb_ptr := ptr\<rparr>) st in
       bindE (if pool_bz ?pool then fill (ptr + m) (u64 (n - m)) 0 st else Inr st) (\<lambda>st.
       bindE (relink_large ?pb lb st) (\<lambda>st. Inr (ptr, st)))))"
    by (simp add: Realloc_large_def MEM_LARGE_BLOCK_realloc_def get_large_def h z_def)
  have "sys_ok (sys z)" "map_of (sys z) c = Some (m + ?O)" using I(3) c(2) z by simp_all
  from this(1) O(1) this(2) show thesis
  proof (cases rule: realloc_cases)
    case no_memory
    then show ?thesis using that(1) run0 by simp
  next
    case (moved y)
    let ?others = "filter (\<lambda>(b, _). b \<noteq> c) (sys st)" and ?copy = "\<lambda>x. if y \<le> x \<and> x < y + min (m + ?O) (n + ?O) then bytes st (c + (x - y)) else bytes st x"
    let ?h = "h\<lparr>lb_ptr := y + ?O\<rparr>"
    define st1 where "st1 = st\<lparr>sys := (y, n + ?O) # ?others, bytes := ?copy, large_blocks := ((large_blocks st)(c := None))(y \<mapsto> ?h)\<rparr>"
    have upd: "((large_blocks z)(c := None, y \<mapsto> h))(y \<mapsto> ?h) = ((large_blocks st)(c := None))(y \<mapsto> ?h)"
      by (auto simp: z_def MEM_LARGE_BLOCK_zap_def set_large_def)
    have run1: "Realloc_large os ?pool (c + ?O) m n st = bindE (if pool_bz ?pool then fill (y + ?O + m) (u64 (n - m)) 0 st1 else Inr st1) (\<lambda>st.
       bindE (relink_large ?pb y st) (\<lambda>st. Inr (y + ?O, st)))"
    proof -
      have "set_large y (h\<lparr>lb_ptr := y + ?O\<rparr>) (z\<lparr>sys := (y, n + ?O) # ?others, bytes := ?copy, large_blocks := (large_blocks z)(c := None, y \<mapsto> h)\<rparr>) = st1"
        using upd by (simp add: st1_def set_large_def z_def MEM_LARGE_BLOCK_zap_def)
      then show ?thesis using moved(1) unfolding run0 z by (simp add: get_large_def Let_def)
    qed
    have ok: "sys_ok ((y, n + ?O) # ?others)" using moved(2) z by simp
    have y: "y \<noteq> 0" "y \<notin> set (xs @ ys)"
    proof -
      show "y \<noteq> 0" using sys_ok_fresh [OF ok] by simp
      have "x \<in> fst ` set ?others" if "x \<in> set (xs @ ys)" for x
        using pool_okD(6) [OF I(1) p, of x] that c(1) L list(2) by force
      then show "y \<notin> set (xs @ ys)" using sys_ok_fresh [OF ok] by blast
    qed
    have relink: "\<exists>t lb'. relink_large ?pb y (st1\<lparr>bytes := B\<rparr>) = Inr (st1\<lparr>bytes := B, large_blocks := lb', pool_levels := (pool_levels st)(?pb \<mapsto> r\<lparr>pb_large := t\<rparr>)\<rparr>) \<and>
        large_list lb' ?pb 0 t (xs @ y # ys) 0 \<and> (\<forall>x. x \<notin> set (xs @ ys) \<longrightarrow> lb' x = large_blocks st1 x)" for B
    proof -
      have st1: "pool_levels (st1\<lparr>bytes := B\<rparr>) ?pb = Some r" "large_blocks (st1\<lparr>bytes := B\<rparr>) = ((large_blocks st)(c := None))(y \<mapsto> ?h)"
        using r by (simp_all add: st1_def)
      show ?thesis
      proof (rule relink_ok [OF list st1(1) h y st1(2)])
        fix t lb' assume "relink_large ?pb y (st1\<lparr>bytes := B\<rparr>) =
          Inr (st1\<lparr>bytes := B\<rparr>\<lparr>large_blocks := lb', pool_levels := (pool_levels (st1\<lparr>bytes := B\<rparr>))(?pb \<mapsto> r\<lparr>pb_large := t\<rparr>)\<rparr>)"
        "large_list lb' ?pb 0 t (xs @ y # ys) 0" "\<And>x. x \<notin> set (xs @ ys) \<Longrightarrow> lb' x = large_blocks (st1\<lparr>bytes := B\<rparr>) x"
        then show ?thesis by (intro exI [of _ t] exI [of _ lb']) (simp add: st1_def)
      qed
    qed
    have done_: thesis if B: "(if pool_bz ?pool then fill (y + ?O + m) (u64 (n - m)) 0 st1 else Inr st1) = Inr (st1\<lparr>bytes := B\<rparr>)"
      and B': "\<And>x. x \<notin> {y ..< y + ?O + n} \<Longrightarrow> B x = bytes st x" "\<And>i. 0 \<le> i \<Longrightarrow> i < min m n \<Longrightarrow> B (y + ?O + i) = bytes st (c + ?O + i)"
      and nb: "\<not> (pool_bz ?pool \<and> n < m)" for B
    proof -
      obtain t lb' where t: "relink_large ?pb y (st1\<lparr>bytes := B\<rparr>) = Inr (st1\<lparr>bytes := B, large_blocks := lb', pool_levels := (pool_levels st)(?pb \<mapsto> r\<lparr>pb_large := t\<rparr>)\<rparr>)"
        "large_list lb' ?pb 0 t (xs @ y # ys) 0" "\<forall>x. x \<notin> set (xs @ ys) \<longrightarrow> lb' x = large_blocks st1 x" using relink by blast
      define st' where "st' = st\<lparr>sys := (y, n + ?O) # ?others, bytes := B, large_blocks := lb', pool_levels := (pool_levels st)(?pb \<mapsto> r\<lparr>pb_large := t\<rparr>)\<rparr>"
      have "Realloc_large os ?pool (c + ?O) m n st = Inr (y + ?O, st')" using run1 B t(1) by (simp add: st'_def st1_def)
      moreover have "realloc_ok st L F p (c + ?O) m n (y + ?O) st' (L(p := l\<lparr>lv_large := xs @ y # ys\<rparr> # ls))"
        by (rule moved_large [OF inv L r c n(1) ok t(2) _ B' st'_def refl]) (use t(3) in \<open>auto simp: st1_def\<close>)
      ultimately show thesis using finish(3) [OF nb] by simp
    qed
    have copy: "?copy x = bytes st x" if "x \<notin> {y ..< y + ?O + n}" for x using that by auto
    have moved_bytes: "?copy (y + ?O + i) = bytes st (c + ?O + i)" if "0 \<le> i" "i < min m n" for i
      using that by (simp add: MEM_LARGE_BLOCK_OVERHEAD_def algebra_simps)
    show ?thesis
    proof (cases "pool_bz ?pool")
      case False
      show ?thesis by (rule done_ [of ?copy]) (use False copy moved_bytes in \<open>simp_all add: st1_def\<close>)
    next
      case bz: True
      show ?thesis
      proof (cases "n < m")
        case True
        have u: "u64 (n - m) = 18446744073709551616 + n - m"
        proof -
          have "(n - m) mod 18446744073709551616 = (n - m + 18446744073709551616) mod 18446744073709551616" by simp
          also have "\<dots> = n - m + 18446744073709551616" using True n m by (intro mod_pos_pos_trivial) auto
          finally show ?thesis by (simp add: u64_def)
        qed
        have "0 < y" using sys_ok_fresh [OF ok] by simp
        then have "\<not> in_sys st1 (y + ?O + m) (18446744073709551616 + n - m)"
          using sys_okD(2) [OF ok] n m True unfolding in_sys_def by (fastforce simp: st1_def MEM_LARGE_BLOCK_OVERHEAD_def)
        then show ?thesis using that(2) [OF bz True] run1 bz u by (simp add: fill_def)
      next
        case False
        let ?B = "\<lambda>x. if y + ?O + m \<le> x \<and> x < y + ?O + m + (n - m) then 0 else ?copy x"
        have u: "u64 (n - m) = n - m" using False n m by (simp add: u64_def)
        have "in_sys st1 (y + ?O + m) (n - m)" using m by (auto simp: in_sys_def st1_def MEM_LARGE_BLOCK_OVERHEAD_def)
        then have "fill (y + ?O + m) (n - m) 0 st1 = Inr (st1\<lparr>bytes := ?B\<rparr>)" by (simp add: fill_def st1_def cong: if_cong)
        moreover have "?B x = bytes st x" if x: "x \<notin> {y ..< y + ?O + n}" for x
          using copy [OF x] x m by (auto simp: MEM_LARGE_BLOCK_OVERHEAD_def)
        moreover have "?B (y + ?O + i) = bytes st (c + ?O + i)" if i: "0 \<le> i" "i < min m n" for i using moved_bytes [OF i] i by auto
        ultimately show ?thesis using bz u False by (intro done_ [of ?B]) auto
      qed
    qed
  qed
qed

text \<open>A large block that becomes small: a copy, and the large block is freed.\<close>

lemma shrink_to_small:
  assumes inv: "pools_inv st L F" and L: "L p = l # ls" and c: "lv_large l = xs @ c # ys" "map_of (sys st) c = Some (m + MEM_LARGE_BLOCK_OVERHEAD)"
    and n: "0 \<le> n" "n \<le> MIN_LARGE_BLOCK_SIZE" "n mod 8 = 0" "n \<le> m"
  obtains (no_memory) "copy_to_new os p (c + MEM_LARGE_BLOCK_OVERHEAD) n n st = Inl No_Memory"
  | (moved) b st' L' where "bindE (copy_to_new os p (c + MEM_LARGE_BLOCK_OVERHEAD) n n st) (\<lambda>(result, st).
        bindE (MEM_POOL_FREE p (c + MEM_LARGE_BLOCK_OVERHEAD) st) (\<lambda>st. Inr (result, st))) = Inr (b, st')"
      "realloc_ok st L F p (c + MEM_LARGE_BLOCK_OVERHEAD) m n b st' L'"
proof -
  note finish = that
  have p: "L p \<noteq> []" using L by simp
  let ?a = "c + MEM_LARGE_BLOCK_OVERHEAD"
  have cs: "(c, m + MEM_LARGE_BLOCK_OVERHEAD) \<in> set (sys st)" using map_of_SomeD [OF c(2)] .
  have k: "in_sys st ?a n" using cs n(4) by (force simp: in_sys_def MEM_LARGE_BLOCK_OVERHEAD_def)
  have n2: "n < 2147483648 - MEM_LARGE_BLOCK_OVERHEAD" using n(2) by (simp add: MIN_LARGE_BLOCK_SIZE_def MEM_LARGE_BLOCK_OVERHEAD_def)
  have a: "{?a ..< ?a + m} \<subseteq> hd (live st (L p))"
    using live_in_large [of c "[l]"] c L by (auto simp: live_def Let_def level_bytes_def algebra_simps)
  from inv L n(1) n2 n(3) n(1) order_refl k show thesis
  proof (cases rule: copy_to_new_ok)
    case no_memory
    then show ?thesis using finish(1) by simp
  next
    case (copied b st1 st2 L2)
    note A = copied(2) [unfolded alloc_ok_def]
    have mn: "min m n = n" using n(4) by simp
    have R: "realloc_ok st L F p ?a m n b st2 L2"
      by (rule realloc_copied [OF inv p copied(2) _ copied(4)]) (use copied(3) mn in simp)
    obtain l2 where l2: "L2 p = l2 # tl (L p)" using A by force
    have l2c: "lv_large l2 = xs @ c # ys" using copied(5) [OF n(2)] c(1) l2 by simp
    have "(c, m + MEM_LARGE_BLOCK_OVERHEAD) \<in> set (sys st2)" using A cs copied(3) by auto
    then have "map_of (sys st2) c = Some (m + MEM_LARGE_BLOCK_OVERHEAD)" using sys_okD(1) [OF pools_invD(3) [OF copied(4)]] by simp
    from free_large [OF copied(4) l2 l2c this] obtain st' L' where f: "MEM_POOL_FREE p ?a st2 = Inr st'" "L' = L2(p := l2\<lparr>lv_large := xs @ ys\<rparr> # tl (L p))" "pools_inv st' L' F"
      "live st' (L' p) = (hd (live st2 (L2 p)) - {?a ..< c + (m + MEM_LARGE_BLOCK_OVERHEAD)}) # tl (live st2 (L2 p))"
      "\<forall>q. q \<noteq> p \<longrightarrow> live st' (L' q) = live st2 (L2 q)" "bytes st' = bytes st2" "mem_pools st' = mem_pools st2" by metis
    have live2: "live st2 (L2 p) = (hd (live st (L p)) \<union> {b ..< b + n}) # tl (live st (L p))" using A copied(3) by (simp add: live_def)
    have obj: "c + (m + MEM_LARGE_BLOCK_OVERHEAD) = ?a + m" by simp
    have hd_in: "hd (live st (L p)) \<in> set (live st (L p))" using L by (simp add: live_def Let_def)
    then have "\<forall>x \<in> {b ..< b + n}. x \<notin> {?a ..< ?a + m}" using A a by blast
    then have b: "{b ..< b + n} \<inter> {?a ..< ?a + m} = {}" by blast
    have "realloc_ok st L F p ?a m n b st' L'"
      unfolding realloc_ok_def
    proof (intro conjI)
      show "{b ..< b + n} \<subseteq> \<Union> (set (live st' (L' p)))" "hd (live st (L p)) - {?a ..< ?a + m} \<subseteq> hd (live st' (L' p))"
        using b unfolding f(4) live2 obj by auto
      show "tl (live st' (L' p)) = tl (live st (L p))" unfolding f(4) live2 by simp
      show "map lv_addr (L' p) = map lv_addr (L p)" using R l2 f(2) by (simp add: realloc_ok_def)
      show "\<forall>q. q \<noteq> p \<longrightarrow> L' q = L q \<and> live st' (L' q) = live st (L q)"
      proof (intro allI impI)
        fix q assume q: "q \<noteq> p"
        have "L2 q = L q" "live st2 (L2 q) = live st (L q)" using R q unfolding realloc_ok_def by blast+
        moreover have "L' q = L2 q" "live st' (L' q) = live st2 (L2 q)" using f(2,5) q by auto
        ultimately show "L' q = L q \<and> live st' (L' q) = live st (L q)" by simp
      qed
    qed (use R f in \<open>simp_all add: realloc_ok_def\<close>)
    then show ?thesis using finish(2) copied(1) f(1) by simp
  qed
qed

lemma Realloc_P_ok:
  assumes inv: "pools_inv st L F" and L: "L p \<noteq> []" and sizes: "uint old_size < 2147483608" "uint new_size < 2147483608"
    and m: "m = uint (PAD_TO_ALIGN old_size)" and n: "n = uint (PAD_TO_ALIGN new_size)" and obj: "object st (L p) a m"
  obtains (no_memory) "MEM_POOL_Realloc_P os p a old_size new_size st = Inl No_Memory"
  | (wild_bzero) "pool_bz (mem_pools st p)" "MIN_LARGE_BLOCK_SIZE < n" "n < m" "a - MEM_LARGE_BLOCK_OVERHEAD \<in> set (lv_large (hd (L p)))"
      "MEM_POOL_Realloc_P os p a old_size new_size st = Inl Out_Of_Bounds"
  | (moved) b st' L' where "MEM_POOL_Realloc_P os p a old_size new_size st = Inr (b, st')" "realloc_ok st L F p a m n b st' L'"
      "\<not> (pool_bz (mem_pools st p) \<and> MIN_LARGE_BLOCK_SIZE < n \<and> n < m \<and> a - MEM_LARGE_BLOCK_OVERHEAD \<in> set (lv_large (hd (L p))))"
proof -
  note finish = that
  obtain l ls where l: "L p = l # ls" using L by (cases "L p") auto
  note P = pools_inv_pool [OF inv L]
  let ?O = MEM_LARGE_BLOCK_OVERHEAD and ?pool = "mem_pools st p"
  have ranges: "0 \<le> m" "m < 2147483648 - ?O" "0 \<le> n" "n < 2147483648 - ?O" "n mod 8 = 0"
    using pad_small [of old_size] pad_small [of new_size] sizes unfolding m n by (simp_all add: MEM_LARGE_BLOCK_OVERHEAD_def)
  note O = objectD [OF obj]
  define h where "h = large_header st (a - ?O)"
  have run: "MEM_POOL_Realloc_P os p a old_size new_size st =
      (if n = m then Inr (a, st)
       else if m \<le> MIN_LARGE_BLOCK_SIZE then if n < m then Inr (a, st) else copy_to_new os p a n m st
       else if lb_ptr h = a \<and> lb_base h = pool_blocks ?pool then
         if n \<le> MIN_LARGE_BLOCK_SIZE then bindE (copy_to_new os p a n n st) (\<lambda>(result, st). bindE (MEM_POOL_FREE p a st) (\<lambda>st. Inr (result, st)))
         else Realloc_large os ?pool a m n st
       else copy_to_new os p a n (if n > m then m else n) st)"
    using P(6,7,9-11) by (simp add: MEM_POOL_Realloc_P_def Let_def m n h_def)
  have copy: thesis if r: "MEM_POOL_Realloc_P os p a old_size new_size st = copy_to_new os p a n (min m n) st"
      and w: "\<not> (MIN_LARGE_BLOCK_SIZE < n \<and> n < m \<and> a - ?O \<in> set (lv_large (hd (L p))))"
  proof -
    have k: "0 \<le> min m n" "min m n \<le> n" "in_sys st a (min m n)" using O(3) ranges(1,3) by (auto simp: in_sys_def min_def; fastforce)+
    from inv l ranges(3-5) k show ?thesis
    proof (cases rule: copy_to_new_ok)
      case no_memory
      then show ?thesis using finish(1) r by simp
    next
      case (copied b st1 st' L')
      then show ?thesis using finish(3) [OF _ realloc_copied [OF inv L copied(2,3,4)]] r w by simp
    qed
  qed
  consider "n = m \<or> m \<le> MIN_LARGE_BLOCK_SIZE \<and> n < m" | "m \<le> MIN_LARGE_BLOCK_SIZE" "m < n"
    | "n \<noteq> m" "MIN_LARGE_BLOCK_SIZE < m" "a - ?O \<in> set (all_large ls)" | "n \<noteq> m" "MIN_LARGE_BLOCK_SIZE < m" "a - ?O \<in> set (lv_large l)"
    using obj l unfolding object_def by (cases "m \<le> MIN_LARGE_BLOCK_SIZE"; cases n m rule: linorder_cases) auto
  then show thesis
  proof cases
    case 1
    then show ?thesis using finish(3) realloc_same [OF inv obj, of n] run by auto
  next
    case 2
    show ?thesis by (rule copy) (use 2 run in \<open>simp_all add: min_def\<close>)
  next
    case 3
    obtain h' where "large_blocks st (a - ?O) = Some h'" "lb_base h' \<noteq> pool_blocks ?pool" using large_base_below [OF inv l 3(3)] by blast
    then have h: "lb_base h \<noteq> pool_blocks ?pool" by (simp add: h_def large_header_def)
    have "a - ?O \<notin> set (lv_large (hd (L p)))" using P(3) 3(3) l by auto
    then show ?thesis by (intro copy) (use 3 run h in \<open>simp_all add: min_def\<close>)
  next
    case 4
    then obtain xs ys where c: "lv_large l = xs @ (a - ?O) # ys" by (meson split_list)
    have sys: "map_of (sys st) (a - ?O) = Some (m + ?O)" using obj 4(2) by (simp add: object_def)
    obtain h' where "large_blocks st (a - ?O) = Some h'" "lb_base h' = pool_blocks ?pool" "lb_ptr h' = a"
    proof -
      obtain e where e: "large_list (large_blocks st) (pool_blocks ?pool) 0 e (lv_large l) 0" using P(1) unfolding l by (auto simp: levels_ok.simps)
      show ?thesis using large_list_in [OF e 4(3)] that by auto
    qed
    then have h: "lb_base h = pool_blocks ?pool \<and> lb_ptr h = a" by (simp add: h_def large_header_def)
    have a: "a - ?O + ?O = a" by simp
    show ?thesis
    proof (cases "n \<le> MIN_LARGE_BLOCK_SIZE")
      case small: True
      then have "n \<le> m" using 4(2) by simp
      from inv l c sys ranges(3) small ranges(5) this show ?thesis
        by (cases rule: shrink_to_small) (use finish(1,3) run 4 h small in \<open>auto simp: a\<close>)
    next
      case False
      then have pos: "0 < n" "n < 2147483648" "m < 4294967296" using ranges by (simp_all add: MIN_LARGE_BLOCK_SIZE_def MEM_LARGE_BLOCK_OVERHEAD_def)
      from inv l c sys pos(1,2) ranges(1) pos(3) show ?thesis
      proof (cases rule: Realloc_large_ok)
        case no_memory
        then show ?thesis using finish(1) run 4 h False by (simp add: a)
      next
        case wild_bzero
        then show ?thesis using finish(2) run 4 h False l by (simp add: a)
      next
        case (moved y st')
        have "MEM_POOL_Realloc_P os p a old_size new_size st = Inr (y + ?O, st')" using moved(2) run 4 h False by (simp add: a)
        moreover have "realloc_ok st L F p a m n (y + ?O) st' (L(p := l\<lparr>lv_large := xs @ y # ys\<rparr> # ls))" using moved(3) by (simp add: a)
        ultimately show ?thesis using finish(3) moved(1) by blast
      qed
    qed
  qed
qed

end

end
