(* ===== verification/Memory_Pool_Stack.thy ===== *)
theory Memory_Pool_Stack
  imports Memory_Pool_Free
begin

text \<open>Pushing and popping levels, and the life of a pool from its initialisation to its deletion.\<close>

section \<open>Changes to the pools themselves\<close>

lemma inv_set_pool:
  assumes inv: "pools_inv st L F"
    and pool: "L p = [] \<or> pool = (mem_pools st p)\<lparr>pool_frozen := b\<rparr>"
  shows "pools_inv (set_pool p pool st) L F" and "live (set_pool p pool st) ls = live st ls"
proof -
  have "pool_ok (set_pool p pool st) q (L q)" for q
    using pools_invD(1) [OF inv, of q] pool by (cases "q = p") (auto simp: pool_ok_def zero_ok_def set_pool_def)
  then show "pools_inv (set_pool p pool st) L F" using inv by (simp add: pools_inv_def overhead_ok_def set_pool_def)
qed (simp add: live_def set_pool_def)

section \<open>Unused level headers\<close>

lemma inv_take_free:
  assumes inv: "pools_inv st L (pb # F)" and r: "pool_levels st pb = Some r"
  shows "pools_inv (st\<lparr>free_mem_pool_blocks_list := pb_rest r\<rparr>) L F"
proof -
  note I = pools_invD [OF inv]
  have "pool_ok (st\<lparr>free_mem_pool_blocks_list := pb_rest r\<rparr>) q (L q)" for q
    using I(1) [of q] by (simp add: pool_ok_def zero_ok_def)
  moreover have "separate L F" using I(2) by (auto simp: separate_def)
  moreover have "overhead_ok (st\<lparr>free_mem_pool_blocks_list := pb_rest r\<rparr>) L F" using I(10) by (simp add: overhead_ok_def)
  ultimately show ?thesis using I r by (simp add: pools_inv_def)
qed

text \<open>The headers of levels are objects of the pool of headers, apart from the static one.\<close>

lemma header_live:
  assumes inv: "pools_inv st L F" and a: "a \<in> lv_addr ` set (L q) \<union> set F" "a \<noteq> overhead_blocks"
  shows "\<exists>X \<in> set (live st (L mem_overhead_pool)). a \<in> X"
proof -
  note I = pools_invD [OF inv]
  obtain bs xs where o: "L mem_overhead_pool = [\<lparr>lv_addr = overhead_blocks, lv_blocks = bs, lv_large = xs\<rparr>]" using I(10) by (auto simp: overhead_ok_def)
  obtain d bl where d: "d \<in> set (all_blocks (L mem_overhead_pool))" "mem_blocks st d = Some bl" "d + MEM_BLOCK_OVERHEAD \<le> a" "a + 48 \<le> mb_ptr bl"
    using I(10) a unfolding overhead_ok_def by blast
  then show ?thesis unfolding o live_def by (auto simp: Let_def level_bytes_def intro!: bexI [of _ d])
qed

lemma overhead_not_live:
  assumes inv: "pools_inv st L F" and X: "X \<in> set (live st (L q))"
  shows "overhead_blocks \<notin> X"
proof
  assume "overhead_blocks \<in> X"
  then obtain a n where a: "a \<in> set (areas (L q))" "(a, n) \<in> set (sys st)" "a \<le> overhead_blocks" "overhead_blocks < a + n" using live_in_sys [OF inv X] by blast
  then have "a = overhead_blocks" using sys_one [OF pools_invD(3) [OF inv] a(2) pools_invD(5) [OF inv], of overhead_blocks] by simp
  then show False using a(1) separateD(3) [OF pools_invD(2) [OF inv]] by blast
qed

section \<open>Pushing\<close>

lemma new_level_ok:
  assumes lv: "levels_ok (pool_levels st) lb (mem_blocks st) rest ls"
  obtains new where "new_level st rest = Inr new" "pb_block new = head_of ls" "pb_large new = 0" "pb_base_block new = head_of ls" "pb_rest new = rest"
    "\<forall>blk. head_of ls \<noteq> 0 \<longrightarrow> mem_blocks st (head_of ls) = Some blk \<longrightarrow> pb_base_ptr new = mb_ptr blk \<and> pb_base_avail new = mb_avail blk"
proof (cases ls)
  case Nil
  then show ?thesis using that lv by (simp add: new_level_def)
next
  case (Cons l ls')
  then have ne: "ls \<noteq> []" by simp
  obtain r where r: "pool_levels st rest = Some r" "pb_block r = head_of ls" and nz: "rest \<noteq> 0" using top_level(1,3) [OF lv ne] by blast
  show ?thesis
  proof (cases "head_of ls = 0")
    case True
    then show ?thesis using that r nz by (simp add: new_level_def get_level_def)
  next
    case False
    obtain blk where "mem_blocks st (head_of ls) = Some blk" using top_level(4) [OF lv ne False] by blast
    then show ?thesis
      using that [of "\<lparr>pb_block = head_of ls, pb_large = 0, pb_base_block = head_of ls, pb_base_ptr = mb_ptr blk, pb_base_avail = mb_avail blk, pb_rest = rest\<rparr>"] r nz False
      by (simp add: new_level_def get_level_def get_block_def Let_def)
  qed
qed

lemma inv_push:
  assumes inv: "pools_inv st L F" and p: "p \<noteq> Default_Mem_Pool" "p \<noteq> Malloc_Mem_Pool" "p \<noteq> mem_overhead_pool"
    and pool: "pool_magic (mem_pools st p) = MAGIC_NUM" "levels_ok (pool_levels st) (large_blocks st) (mem_blocks st) (pool_blocks (mem_pools st p)) (L p)"
    and pb: "pb \<noteq> 0" "pb \<noteq> overhead_blocks" "\<forall>q. pb \<notin> lv_addr ` set (L q)" "pb \<notin> set F"
      "\<exists>b \<in> set (all_blocks (L mem_overhead_pool)). \<exists>blk. mem_blocks st b = Some blk \<and> b + MEM_BLOCK_OVERHEAD \<le> pb \<and> pb + 48 \<le> mb_ptr blk"
    and new: "new_level st (pool_blocks (mem_pools st p)) = Inr new"
    and st': "st' = set_pool p ((mem_pools st p)\<lparr>pool_blocks := pb\<rparr>) (set_level pb new st)" and L': "L' = L(p := \<lparr>lv_addr = pb, lv_blocks = [], lv_large = []\<rparr> # L p)"
  shows "pools_inv st' L' F" and "live st' (L' p) = {} # live st (L p)" and "q \<noteq> p \<Longrightarrow> live st' (L' q) = live st (L q)"
proof -
  note I = pools_invD [OF inv] and S = separateD [OF pools_invD(2) [OF inv]]
  let ?l = "\<lparr>lv_addr = pb, lv_blocks = [], lv_large = []\<rparr>" and ?rest = "pool_blocks (mem_pools st p)"
  obtain bs xs where o: "L mem_overhead_pool = [\<lparr>lv_addr = overhead_blocks, lv_blocks = bs, lv_large = xs\<rparr>]" using I(10) by (auto simp: overhead_ok_def)
  then have m0: "mem_blocks st 0 = None" using pools_inv_pool(5) [OF inv, of mem_overhead_pool] by simp
  from new_level_ok [OF pool(2)] obtain new' where "new_level st ?rest = Inr new'" and n': "pb_block new' = head_of (L p)" "pb_large new' = 0" "pb_base_block new' = head_of (L p)"
    "pb_rest new' = ?rest" "\<forall>blk. head_of (L p) \<noteq> 0 \<longrightarrow> mem_blocks st (head_of (L p)) = Some blk \<longrightarrow> pb_base_ptr new' = mb_ptr blk \<and> pb_base_avail new' = mb_avail blk" by blast
  then have n: "new' = new" using new by simp
  have hdr: "\<exists>blk. mem_blocks st (head_of (L p)) = Some blk \<and> header_ok (head_of (L p)) blk" if "head_of (L p) \<noteq> 0"
    using top_level(4) [OF pool(2)] that by (cases "L p") auto
  have pbn: "pb \<notin> lv_addr ` set (L q)" for q using pb(3) by blast
  have lv: "levels_ok ((pool_levels st)(pb \<mapsto> new)) (large_blocks st) (mem_blocks st) pb (?l # L p)"
    by (rule levels_push [OF pool(2) pb(1)]) (use pbn [of p] n' n hdr m0 in auto)
  have head: "head_of (?l # L p) = head_of (L p)" by simp
  have "pool_ok st' p (?l # L p)"
  proof (cases "L p = []")
    case True
    then show ?thesis using lv p pool(1) m0 by (simp add: pool_ok_def zero_ok_def st' set_pool_def set_level_def)
  next
    case False
    note D = pool_okD [OF I(1) False]
    have "zero_ok st' p (?l # L p)" using D(7) unfolding zero_ok_def head by (simp add: st' set_pool_def set_level_def)
    then show ?thesis using D(5,6) p pool(1) lv by (simp add: pool_ok_def st' set_pool_def set_level_def)
  qed
  then have *: "pools_inv st' (L(p := ?l # L p)) F \<and> (\<forall>q. q \<noteq> p \<longrightarrow> live st' (L q) = live st (L q))"
  proof (rule pools_inv_update [OF inv])
    show "pool_levels st' a = pool_levels st a" if "a \<in> lv_addr ` set (L q)" for q a using that pbn [of q] by (auto simp: st' set_pool_def set_level_def)
    show "separate (L(p := ?l # L p)) F"
    proof (rule separate_update [OF I(2)])
      show "x \<notin> lv_addr ` set (L q)" if "x \<in> lv_addr ` set (?l # L p) \<union> set F" "q \<noteq> p" for x q
        using that S(5) [of p q x] S(2) [of q] pbn [of q] by auto
      show "distinct (map lv_addr (?l # L p) @ F)" using S(2) [of p] pbn [of p] pb(4) by simp
    qed (use S(1) [of p] in \<open>auto simp: areas_def\<close>)
    show "dom (mem_blocks st') = (\<Union>q. set (all_blocks ((L(p := ?l # L p)) q)))" using I(7) [unfolded UN_split [of L p]] unfolding UN_upd by (simp add: st' set_pool_def set_level_def)
    show "dom (large_blocks st') = (\<Union>q. set (all_large ((L(p := ?l # L p)) q)))" using I(8) [unfolded UN_split [of L p]] unfolding UN_upd by (simp add: st' set_pool_def set_level_def)
    show "free_chain (pool_levels st') (free_mem_pool_blocks_list st') F" using I(9) pb(4) by (subst free_chain_cong) (auto simp: st' set_pool_def set_level_def)
    show "overhead_ok st' (L(p := ?l # L p)) F"
    proof (rule overhead_mono [OF I(10)])
      show "\<exists>bs ls. (L(p := ?l # L p)) mem_overhead_pool = [\<lparr>lv_addr = overhead_blocks, lv_blocks = bs, lv_large = ls\<rparr>]" using o p(3) by simp
      have same: "(L(p := ?l # L p)) mem_overhead_pool = L mem_overhead_pool" "mem_blocks st' = mem_blocks st" using p(3) by (simp_all add: st' set_pool_def set_level_def)
      show "a \<in> (\<Union>p. lv_addr ` set (L p)) \<union> set F \<or>
          (\<exists>b \<in> set (all_blocks ((L(p := ?l # L p)) mem_overhead_pool)). \<exists>blk. mem_blocks st' b = Some blk \<and> b + MEM_BLOCK_OVERHEAD \<le> a \<and> a + 48 \<le> mb_ptr blk)"
        if "a \<in> lv_addr ` set ((L(p := ?l # L p)) q) \<union> set F" for q a
      proof (cases "a = pb")
        case True
        then show ?thesis unfolding same using pb(5) by blast
      next
        case False
        then have "a \<in> lv_addr ` set (L q) \<union> set F" using that by (auto split: if_splits)
        then show ?thesis by blast
      qed
    qed (use p(3) in \<open>auto simp: st' set_pool_def set_level_def\<close>)
  qed (use I in \<open>auto simp: st' set_pool_def set_level_def\<close>)
  then show "pools_inv st' L' F" "q \<noteq> p \<Longrightarrow> live st' (L' q) = live st (L q)" using L' by simp_all
  have "restored new (mem_blocks st) = mem_blocks st"
  proof (cases "head_of (L p) = 0")
    case False
    then obtain blk where blk: "mem_blocks st (head_of (L p)) = Some blk" using hdr by blast
    then have "blk\<lparr>mb_ptr := pb_base_ptr new, mb_avail := pb_base_avail new\<rparr> = blk" using n' n False by (cases blk) simp
    then show ?thesis using blk n' n by (simp add: restored_def fun_upd_idem)
  qed (use m0 n' n in \<open>simp add: restored_def\<close>)
  then show "live st' (L' p) = {} # live st (L p)"
    using live_push [OF lv _ pbn m0, of "sys st"] L' by (simp add: live_def st' set_pool_def set_level_def)
qed

context c_library
begin

lemma take_level_ok:
  assumes inv: "pools_inv st L F"
  obtains (no_memory) "take_level os st = Inl No_Memory"
  | (taken) pb st1 L1 F1 where "take_level os st = Inr (pb, st1)" "pools_inv st1 L1 F1" "\<forall>q. q \<noteq> mem_overhead_pool \<longrightarrow> L1 q = L q \<and> live st1 (L1 q) = live st (L q)"
      "pb \<noteq> 0" "pb \<noteq> overhead_blocks" "\<forall>q. pb \<notin> lv_addr ` set (L1 q)" "pb \<notin> set F1" "mem_pools st1 = mem_pools st" "kept st st1" "set (sys st) \<subseteq> set (sys st1)"
      "\<exists>b \<in> set (all_blocks (L1 mem_overhead_pool)). \<exists>blk. mem_blocks st1 b = Some blk \<and> b + MEM_BLOCK_OVERHEAD \<le> pb \<and> pb + 48 \<le> mb_ptr blk"
proof (cases F)
  case Nil
  then have f: "free_mem_pool_blocks_list st = 0" using pools_invD(9) [OF inv] by simp
  obtain bs xs where o: "L mem_overhead_pool = [\<lparr>lv_addr = overhead_blocks, lv_blocks = bs, lv_large = xs\<rparr>]"
    using pools_invD(10) [OF inv] by (auto simp: overhead_ok_def)
  have pad: "uint (PAD_TO_ALIGN sizeof_MEM_POOL_BLOCKS) = 48" by (simp add: pad_value sizeof_MEM_POOL_BLOCKS_def)
  have "L mem_overhead_pool \<noteq> []" "uint sizeof_MEM_POOL_BLOCKS < 2147483608" using o by (simp_all add: sizeof_MEM_POOL_BLOCKS_def)
  from inv this show ?thesis
  proof (cases rule: Alloc_P_ok)
    case no_memory
    then show ?thesis using that(1) f by (simp add: take_level_def)
  next
    case (fresh a st1 L1)
    note A = fresh(2) [unfolded alloc_ok_def pad]
    obtain l' where l': "L1 = L(mem_overhead_pool := [l'])" "lv_addr l' = overhead_blocks" using A o by auto
    have top: "live st1 (L1 mem_overhead_pool) = (hd (live st (L mem_overhead_pool)) \<union> {a ..< a + 48}) # tl (live st (L mem_overhead_pool))" using A by blast
    have inv1: "pools_inv st1 L1 F" using A by blast
    have ao: "a \<noteq> overhead_blocks" using overhead_not_live [OF inv1, of "hd (live st (L mem_overhead_pool)) \<union> {a ..< a + 48}" mem_overhead_pool] top by auto
    have new: "a \<notin> lv_addr ` set (L q)" for q
    proof
      assume "a \<in> lv_addr ` set (L q)"
      then obtain X where "X \<in> set (live st (L mem_overhead_pool))" "a \<in> X" using header_live [OF inv, of a q] ao by blast
      moreover have "a \<in> {a ..< a + 48}" by simp
      ultimately show False using A by blast
    qed
    have "a \<notin> lv_addr ` set (L1 q)" for q using new [of q] l' ao by (cases "q = mem_overhead_pool") auto
    moreover have "\<forall>q. q \<noteq> mem_overhead_pool \<longrightarrow> L1 q = L q \<and> live st1 (L1 q) = live st (L q)" using A l'(1) by simp
    moreover have "head_of (L1 mem_overhead_pool) \<noteq> 0 \<and> (\<exists>blk. mem_blocks st1 (head_of (L1 mem_overhead_pool)) = Some blk \<and>
        head_of (L1 mem_overhead_pool) + MEM_BLOCK_OVERHEAD \<le> a \<and> a + 48 \<le> mb_ptr blk)"
      using fresh(3) unfolding pad by (simp add: MIN_LARGE_BLOCK_SIZE_def)
    then have "\<exists>b \<in> set (all_blocks (L1 mem_overhead_pool)). \<exists>blk. mem_blocks st1 b = Some blk \<and> b + MEM_BLOCK_OVERHEAD \<le> a \<and> a + 48 \<le> mb_ptr blk"
      using head_of_in by blast
    ultimately show ?thesis using that(2) [of a st1 L1 F] fresh(1) A ao f Nil by (simp add: take_level_def)
  qed
next
  case (Cons pb F1)
  then obtain r where f: "free_mem_pool_blocks_list st = pb" "pb \<noteq> 0" "pool_levels st pb = Some r" using pools_invD(9) [OF inv] by auto
  obtain bs xs where o: "L mem_overhead_pool = [\<lparr>lv_addr = overhead_blocks, lv_blocks = bs, lv_large = xs\<rparr>]"
    using pools_invD(10) [OF inv] by (auto simp: overhead_ok_def)
  have sep: "pb \<notin> lv_addr ` set (L q)" "pb \<notin> set F1" for q using separateD(2) [OF pools_invD(2) [OF inv], of q] Cons by auto
  then have "pb \<noteq> overhead_blocks" using sep(1) [of mem_overhead_pool] o by auto
  moreover have "\<exists>b \<in> set (all_blocks (L mem_overhead_pool)). \<exists>blk. mem_blocks st b = Some blk \<and> b + MEM_BLOCK_OVERHEAD \<le> pb \<and> pb + 48 \<le> mb_ptr blk"
    using pools_invD(10) [OF inv] Cons calculation unfolding overhead_ok_def by auto
  ultimately show ?thesis
    using that(2) [of pb "st\<lparr>free_mem_pool_blocks_list := pb_rest r\<rparr>" L F1] inv_take_free [OF inv [unfolded Cons] f(3)] f sep
    by (simp add: take_level_def get_level_def live_def kept_def)
qed

lemma push_level_ok:
  assumes inv: "pools_inv st L F" and p: "p \<noteq> Default_Mem_Pool" "p \<noteq> Malloc_Mem_Pool" "p \<noteq> mem_overhead_pool"
    and pool: "pool_magic (mem_pools st p) = MAGIC_NUM" "L p = [] \<longrightarrow> pool_blocks (mem_pools st p) = 0" "\<not> pool_frozen (mem_pools st p)"
  obtains (no_memory) "MEM_POOL_Push_P os p st = Inl No_Memory"
  | (pushed) st' L' F' where "MEM_POOL_Push_P os p st = Inr st'" "pools_inv st' L' F'" "live st' (L' p) = {} # live st (L p)"
      "\<forall>q. q \<noteq> p \<longrightarrow> q \<noteq> mem_overhead_pool \<longrightarrow> L' q = L q \<and> live st' (L' q) = live st (L q)" "L' p \<noteq> [] \<and> tl (L' p) = L p"
      "L' p = hd (L' p) # L p" "lv_blocks (hd (L' p)) = [] \<and> lv_large (hd (L' p)) = []" "kept st st'" "set (sys st) \<subseteq> set (sys st')"
      "\<exists>pb. mem_pools st' = (mem_pools st)(p := (mem_pools st p)\<lparr>pool_blocks := pb\<rparr>)"
proof -
  note finish = that
  have pool_of: "pool_of st p = Inr (mem_pools st p)" using p by (simp add: pool_of_def)
  from inv show thesis
  proof (cases rule: take_level_ok)
    case no_memory
    then show ?thesis using finish(1) pool_of pool by (simp add: MEM_POOL_Push_P_def)
  next
    case (taken pb st1 L1 F1)
    have Lp: "L1 p = L p" "live st1 (L1 p) = live st (L p)" using taken(3) p(3) by blast+
    have magic: "pool_magic (mem_pools st1 p) = MAGIC_NUM" using taken(8) pool(1) by simp
    have lv: "levels_ok (pool_levels st1) (large_blocks st1) (mem_blocks st1) (pool_blocks (mem_pools st1 p)) (L1 p)"
    proof (cases "L p = []")
      case True
      then show ?thesis using Lp pool(2) taken(8) by simp
    next
      case False
      then show ?thesis using pools_inv_pool(1) [OF taken(2), of p] Lp by simp
    qed
    obtain new where new: "new_level st1 (pool_blocks (mem_pools st1 p)) = Inr new" using new_level_ok [OF lv] by blast
    define st' where "st' = set_pool p ((mem_pools st1 p)\<lparr>pool_blocks := pb\<rparr>) (set_level pb new st1)"
    define L' where "L' = L1(p := \<lparr>lv_addr = pb, lv_blocks = [], lv_large = []\<rparr> # L1 p)"
    note P = inv_push [OF taken(2) p magic lv taken(4-7,11) new st'_def L'_def]
    have run: "MEM_POOL_Push_P os p st = Inr st'" using pool_of pool taken(1,8) new by (simp add: MEM_POOL_Push_P_def st'_def)
    have "L' q = L q \<and> live st' (L' q) = live st (L q)" if q: "q \<noteq> p" "q \<noteq> mem_overhead_pool" for q
    proof -
      have "L1 q = L q" "live st1 (L1 q) = live st (L q)" using taken(3) q(2) by blast+
      then show ?thesis using P(3) [OF q(1)] q(1) by (simp add: L'_def)
    qed
    moreover have "mem_pools st' = (mem_pools st)(p := (mem_pools st p)\<lparr>pool_blocks := pb\<rparr>)" using taken(8) by (simp add: st'_def set_pool_def set_level_def)
    moreover have "kept st st'" "set (sys st) \<subseteq> set (sys st')" using taken(9,10) by (simp_all add: kept_def st'_def set_pool_def set_level_def)
    moreover have "L' p \<noteq> [] \<and> tl (L' p) = L p" "L' p = hd (L' p) # L p" "lv_blocks (hd (L' p)) = [] \<and> lv_large (hd (L' p)) = []" using Lp by (simp_all add: L'_def)
    moreover have "live st' (L' p) = {} # live st (L p)" using P(2) Lp(2) by simp
    ultimately show ?thesis using finish(2) [OF run P(1)] by blast
  qed
qed

end

section \<open>Popping\<close>

lemma dom_restored: "dom (restored r mb) = dom mb"
  by (auto simp: restored_def split: option.splits if_splits)

text \<open>The state after the loops of \<^verbatim>\<open>MEM_POOL_Pop_P\<close>.\<close>

definition popped :: "bool \<Rightarrow> mem_pool_blocks \<Rightarrow> level \<Rightarrow> mem_state \<Rightarrow> mem_state" where
  "popped bz r l st = st\<lparr>sys := filter (\<lambda>(b, _). b \<notin> set (lv_blocks l) \<union> set (lv_large l)) (sys st),
     bytes := (\<lambda>x. if bz \<and> pb_base_block r \<noteq> 0 \<and> pb_base_ptr r \<le> x \<and> x < pb_base_ptr r + pb_base_avail r then 0 else bytes st x),
     mem_blocks := restored r (\<lambda>z. if z \<in> set (lv_blocks l) then None else mem_blocks st z),
     large_blocks := (\<lambda>z. if z \<in> set (lv_large l) then None else large_blocks st z)\<rparr>"

lemma pop_loops:
  assumes inv: "pools_inv st L F" and L: "L p = l # ls" and r: "pool_levels st (pool_blocks (mem_pools st p)) = Some r"
  shows "bindE (pop_blocks bz r (pb_block r) st) (pop_large (pb_large r)) = Inr (popped bz r l st)"
    and "pb_base_block r = head_of ls" and "levels_ok (pool_levels st) (large_blocks st) (restored r (mem_blocks st)) (pb_rest r) ls"
    and "head_of ls \<noteq> 0 \<Longrightarrow> \<exists>blk. mem_blocks st (head_of ls) = Some blk \<and> header_ok (head_of ls) (blk\<lparr>mb_ptr := pb_base_ptr r, mb_avail := pb_base_avail r\<rparr>) \<and>
      pb_base_ptr r \<le> mb_ptr blk"
proof -
  have p: "L p \<noteq> []" using L by simp
  note P = pools_inv_pool [OF inv p] and I = pools_invD [OF inv] and D = pool_okD [OF pools_invD(1) [OF inv] p]
  let ?pb = "pool_blocks (mem_pools st p)"
  have lv: "block_seg (mem_blocks st) (pb_block r) (lv_blocks l) (head_of ls)" "large_list (large_blocks st) ?pb 0 (pb_large r) (lv_large l) 0" "base_ok (mem_blocks st) r"
    using P(1) r unfolding L by (auto simp: levels_ok.simps)
  show base: "pb_base_block r = head_of ls" and below: "levels_ok (pool_levels st) (large_blocks st) (restored r (mem_blocks st)) (pb_rest r) ls"
    using P(1) r unfolding L by (auto simp: levels_ok.simps)
  have nz: "0 \<notin> set (all_blocks ls)" using pools_inv_nonzero [OF inv, of 0 p] L by (auto simp: areas_def)
  show saved: "\<exists>blk. mem_blocks st (head_of ls) = Some blk \<and> header_ok (head_of ls) (blk\<lparr>mb_ptr := pb_base_ptr r, mb_avail := pb_base_avail r\<rparr>) \<and> pb_base_ptr r \<le> mb_ptr blk"
    if "head_of ls \<noteq> 0"
    using levels_headers [OF below head_of_in [OF that] nz] lv(3) base that by (auto simp: restored_def base_ok_def)
  have dist: "distinct (lv_blocks l)" "distinct (lv_large l)" "head_of ls \<notin> set (lv_blocks l) \<or> head_of ls = 0" "0 \<notin> set (lv_blocks l)"
    using P(2,3) L head_of_in [of ls] pools_inv_nonzero [OF inv, of 0 p] by (auto simp: areas_def)
  have blocks: "pop_blocks bz r (pb_block r) st = Inr (st\<lparr>sys := filter (\<lambda>(b, _). b \<notin> set (lv_blocks l)) (sys st),
    bytes := (\<lambda>x. if bz \<and> pb_base_block r \<noteq> 0 \<and> pb_base_ptr r \<le> x \<and> x < pb_base_ptr r + pb_base_avail r then 0 else bytes st x),
    mem_blocks := restored r (\<lambda>z. if z \<in> set (lv_blocks l) then None else mem_blocks st z)\<rparr>)"
  proof (rule pop_blocks_ok [where blk = "the (mem_blocks st (head_of ls))" and n = BLOCK_BYTES])
    show "block_seg (mem_blocks st) (pb_block r) (lv_blocks l) (pb_base_block r)" using lv(1) base by simp
    show "x \<in> fst ` set (sys st)" if "x \<in> set (lv_blocks l)" for x using I(6) [of x p] that L by (auto simp: areas_def)
    show "pb_base_block r \<notin> set (lv_blocks l)" using dist(3,4) base by auto
    show "mem_blocks st (pb_base_block r) = Some (the (mem_blocks st (head_of ls))) \<and> (pb_base_block r, BLOCK_BYTES) \<in> set (sys st) \<and>
      pb_base_block r \<le> pb_base_ptr r \<and> pb_base_ptr r + pb_base_avail r \<le> pb_base_block r + BLOCK_BYTES" if h: "pb_base_block r \<noteq> 0"
    proof -
      have hn: "head_of ls \<noteq> 0" using h base by simp
      have "(head_of ls, BLOCK_BYTES) \<in> set (sys st)" using D(5) [of "head_of ls"] head_of_in [OF hn] L by simp
      then show ?thesis using saved [OF hn] base by (auto simp: header_ok_def MEM_BLOCK_OVERHEAD_def BLOCK_BYTES_def)
    qed
  qed (use dist P(5) in auto)
  let ?st = "st\<lparr>sys := filter (\<lambda>(b, _). b \<notin> set (lv_blocks l)) (sys st),
    bytes := (\<lambda>x. if bz \<and> pb_base_block r \<noteq> 0 \<and> pb_base_ptr r \<le> x \<and> x < pb_base_ptr r + pb_base_avail r then 0 else bytes st x),
    mem_blocks := restored r (\<lambda>z. if z \<in> set (lv_blocks l) then None else mem_blocks st z)\<rparr>"
  have sep: "x \<notin> set (lv_blocks l)" if "x \<in> set (lv_large l)" for x using separateD(1) [OF I(2), of p] that L by (auto simp: areas_def)
  have "pop_large (pb_large r) ?st = Inr (?st\<lparr>sys := filter (\<lambda>(b, _). b \<notin> set (lv_large l)) (sys ?st), large_blocks := (\<lambda>z. if z \<in> set (lv_large l) then None else large_blocks ?st z)\<rparr>)"
  proof (rule pop_large_ok)
    show "large_list (large_blocks ?st) ?pb 0 (pb_large r) (lv_large l) 0" using lv(2) by simp
    show "x \<in> fst ` set (sys ?st)" if "x \<in> set (lv_large l)" for x using I(6) [of x p] sep [OF that] that L by (force simp: areas_def)
  qed (rule dist(2))
  moreover have "filter (\<lambda>(b, _). b \<notin> set (lv_large l)) (filter (\<lambda>(b, _). b \<notin> set (lv_blocks l)) (sys st)) =
      filter (\<lambda>(b, _). b \<notin> set (lv_blocks l) \<union> set (lv_large l)) (sys st)" by (auto simp: split_def intro!: filter_cong)
  ultimately show "bindE (pop_blocks bz r (pb_block r) st) (pop_large (pb_large r)) = Inr (popped bz r l st)"
    using blocks by (simp add: popped_def cong: if_cong)
qed

lemma set_part: "A \<inter> B = {} \<Longrightarrow> D = B \<union> A \<Longrightarrow> X = D - B \<Longrightarrow> X = A"
  by blast

lemma popped_frame:
  assumes inv: "pools_inv st L F" and L: "L p = l # ls" and r: "pool_levels st (pool_blocks (mem_pools st p)) = Some r" and st2: "st2 = popped bz r l st"
  shows "q \<noteq> p \<Longrightarrow> b \<in> set (all_blocks (L q)) \<Longrightarrow> mem_blocks st2 b = mem_blocks st b"
    and "q \<noteq> p \<Longrightarrow> b \<in> set (all_large (L q)) \<Longrightarrow> large_blocks st2 b = large_blocks st b"
    and "q \<noteq> p \<or> b \<in> set (areas ls) \<Longrightarrow> b \<in> set (areas (L q)) \<Longrightarrow> (b, n) \<in> set (sys st) \<Longrightarrow> (b, n) \<in> set (sys st2)"
    and "q \<noteq> p \<Longrightarrow> b \<in> set (areas (L q)) \<Longrightarrow> (b, n) \<in> set (sys st) \<Longrightarrow> b \<le> x \<Longrightarrow> x < b + n \<Longrightarrow> bytes st2 x = bytes st x"
    and "dom (mem_blocks st2) = set (all_blocks ls) \<union> (\<Union>q \<in> - {p}. set (all_blocks (L q)))"
    and "dom (large_blocks st2) = set (all_large ls) \<union> (\<Union>q \<in> - {p}. set (all_large (L q)))"
    and "b \<in> set (all_blocks ls) \<Longrightarrow> mem_blocks st2 b = restored r (mem_blocks st) b"
    and "b \<in> set (all_large ls) \<Longrightarrow> large_blocks st2 b = large_blocks st b"
    and "(overhead_blocks, 48) \<in> set (sys st2)" and "mem_blocks st2 0 = None"
proof -
  have p: "L p \<noteq> []" using L by simp
  note P = pools_inv_pool [OF inv p] and I = pools_invD [OF inv] and S = separateD [OF pools_invD(2) [OF inv]] and D = pool_okD [OF pools_invD(1) [OF inv] p]
  note base = pop_loops(2,4) [OF inv L r]
  have own: "b \<notin> set (lv_blocks l) \<union> set (lv_large l)" if "q \<noteq> p \<or> b \<in> set (areas ls)" "b \<in> set (areas (L q))" for q b
    using that S(1) [of p] S(4) [of q p b] L by (auto simp: areas_def)
  have head: "head_of ls \<noteq> 0 \<Longrightarrow> head_of ls \<in> set (areas (L p))" using head_of_in [of ls] L by (auto simp: areas_def)
  define m where "m = (\<lambda>z. if z \<in> set (lv_blocks l) then None else mem_blocks st z)"
  have mb2: "mem_blocks st2 = restored r m" by (simp add: st2 popped_def m_def)
  have m0: "m 0 = None" using P(5) by (simp add: m_def)
  show "mem_blocks st2 0 = None" unfolding mb2 using restored_zero [where mb = m, OF m0] .
  show "mem_blocks st2 b = mem_blocks st b" if q: "q \<noteq> p" and b: "b \<in> set (all_blocks (L q))" for q b
  proof -
    have bn: "b \<noteq> 0" using pools_inv_nonzero [OF inv areas_in(1) [OF b]] .
    have "b \<noteq> pb_base_block r" using S(4) [OF q areas_in(1) [OF b]] head base(1) bn by auto
    then show ?thesis using own [of q b] q areas_in(1) [OF b] by (simp add: st2 popped_def restored_other)
  qed
  show "large_blocks st2 b = large_blocks st b" if q: "q \<noteq> p" and b: "b \<in> set (all_large (L q))" for q b
    using own [of q b] q areas_in(2) [OF b] by (simp add: st2 popped_def)
  show "(b, n) \<in> set (sys st2)" if "q \<noteq> p \<or> b \<in> set (areas ls)" "b \<in> set (areas (L q))" "(b, n) \<in> set (sys st)" for q b n
    using own [OF that(1,2)] that(3) by (simp add: st2 popped_def)
  have "overhead_blocks \<notin> set (lv_blocks l) \<union> set (lv_large l)" using S(3) [of p] L by simp
  then show "(overhead_blocks, 48) \<in> set (sys st2)" using I(5) by (simp add: st2 popped_def)
  show "bytes st2 x = bytes st x" if q: "q \<noteq> p" "b \<in> set (areas (L q))" "(b, n) \<in> set (sys st)" "b \<le> x" "x < b + n" for q b n x
  proof -
    have False if h: "pb_base_block r \<noteq> 0" "pb_base_ptr r \<le> x" "x < pb_base_ptr r + pb_base_avail r"
    proof -
      have hn: "head_of ls \<noteq> 0" using h(1) base(1) by simp
      have "(head_of ls, BLOCK_BYTES) \<in> set (sys st)" using D(5) [of "head_of ls"] head_of_in [OF hn] L by simp
      moreover have "head_of ls \<le> x" "x < head_of ls + BLOCK_BYTES" using base(2) [OF hn] h(2,3) by (auto simp: header_ok_def MEM_BLOCK_OVERHEAD_def BLOCK_BYTES_def)
      ultimately have "b = head_of ls" using sys_one [OF I(3) q(3)] q(4,5) by blast
      then show False using S(4) [OF q(1,2)] head [OF hn] by simp
    qed
    then show ?thesis by (auto simp: st2 popped_def)
  qed
  show "mem_blocks st2 b = restored r (mem_blocks st) b" if b: "b \<in> set (all_blocks ls)" for b
  proof -
    have "m z = mem_blocks st z" if "z \<in> set (all_blocks ls)" for z
      using own [of p z] areas_in(1) [OF that] L by (auto simp: m_def)
    then show ?thesis using restored_cong(2) [where mb = "mem_blocks st" and mb' = m, OF base(1) _ P(5) m0 b] mb2 by simp
  qed
  show "large_blocks st2 b = large_blocks st b" if b: "b \<in> set (all_large ls)" for b
    using own [of p b] areas_in(2) [OF b] L by (simp add: st2 popped_def)
  have bl: "z \<notin> set (lv_blocks l)" if z: "z \<in> set (all_blocks ls) \<union> (\<Union>q \<in> - {p}. set (all_blocks (L q)))" for z
  proof (cases "z \<in> set (all_blocks ls)")
    case True
    then show ?thesis using own [of p z] areas_in(1) [OF True] L by auto
  next
    case False
    then obtain q where "q \<noteq> p" "z \<in> set (all_blocks (L q))" using z by blast
    then show ?thesis using own [of q z] areas_in(1) by blast
  qed
  have "dom (mem_blocks st2) = dom (mem_blocks st) - set (lv_blocks l)" unfolding mb2 dom_restored by (auto simp: m_def split: if_splits)
  then show "dom (mem_blocks st2) = set (all_blocks ls) \<union> (\<Union>q \<in> - {p}. set (all_blocks (L q)))"
  proof -
    have "(set (all_blocks ls) \<union> (\<Union>q \<in> - {p}. set (all_blocks (L q)))) \<inter> set (lv_blocks l) = {}" using bl by blast
    moreover have "dom (mem_blocks st) = set (lv_blocks l) \<union> (set (all_blocks ls) \<union> (\<Union>q \<in> - {p}. set (all_blocks (L q))))"
      using I(7) [unfolded UN_split [of L p]] L by auto
    ultimately show ?thesis using set_part \<open>dom (mem_blocks st2) = dom (mem_blocks st) - set (lv_blocks l)\<close> by metis
  qed
  have la: "z \<notin> set (lv_large l)" if z: "z \<in> set (all_large ls) \<union> (\<Union>q \<in> - {p}. set (all_large (L q)))" for z
  proof (cases "z \<in> set (all_large ls)")
    case True
    then show ?thesis using own [of p z] areas_in(2) [OF True] L by auto
  next
    case False
    then obtain q where "q \<noteq> p" "z \<in> set (all_large (L q))" using z by blast
    then show ?thesis using own [of q z] areas_in(2) by blast
  qed
  have "dom (large_blocks st2) = dom (large_blocks st) - set (lv_large l)" by (auto simp: st2 popped_def split: if_splits)
  then show "dom (large_blocks st2) = set (all_large ls) \<union> (\<Union>q \<in> - {p}. set (all_large (L q)))"
  proof -
    have "(set (all_large ls) \<union> (\<Union>q \<in> - {p}. set (all_large (L q)))) \<inter> set (lv_large l) = {}" using la by blast
    moreover have "dom (large_blocks st) = set (lv_large l) \<union> (set (all_large ls) \<union> (\<Union>q \<in> - {p}. set (all_large (L q))))"
      using I(8) [unfolded UN_split [of L p]] L by auto
    ultimately show ?thesis using set_part \<open>dom (large_blocks st2) = dom (large_blocks st) - set (lv_large l)\<close> by metis
  qed
qed

text \<open>The level below is found as it was left when the level above it was pushed.\<close>

lemma inv_pop_rest:
  assumes inv: "pools_inv st L F" and L: "L p = l # ls" and r: "pool_levels st (pool_blocks (mem_pools st p)) = Some r" and "ls \<noteq> []" and po: "p \<noteq> mem_overhead_pool"
    and st2: "st2 = popped (pool_bz (mem_pools st p)) r l st"
    and st': "st' = (set_pool p ((mem_pools st p)\<lparr>pool_blocks := pb_rest r\<rparr>)
      (set_level (pool_blocks (mem_pools st p)) (r\<lparr>pb_rest := free_mem_pool_blocks_list st2\<rparr>) st2))\<lparr>free_mem_pool_blocks_list := pool_blocks (mem_pools st p)\<rparr>"
  shows "pools_inv st' (L(p := ls)) (lv_addr l # F)" and "live st' ls = tl (live st (L p))" and "q \<noteq> p \<Longrightarrow> live st' (L q) = live st (L q)"
proof -
  have p: "L p \<noteq> []" using L by simp
  note P = pools_inv_pool [OF inv p] and I = pools_invD [OF inv] and S = separateD [OF pools_invD(2) [OF inv]] and D = pool_okD [OF pools_invD(1) [OF inv] p]
  note loops = pop_loops(2-4) [OF inv L r] and fr = popped_frame [OF inv L r st2]
  let ?pb = "pool_blocks (mem_pools st p)"
  have "lv_addr l \<notin> lv_addr ` set ls" using P(4) L by simp
  then have pb: "?pb = lv_addr l" "\<And>x. x \<in> lv_addr ` set ls \<Longrightarrow> x \<noteq> lv_addr l" using P(8) L by (simp, blast)
  have fields: "mem_blocks st' = mem_blocks st2" "large_blocks st' = large_blocks st2" "sys st' = sys st2" "bytes st' = bytes st2" "redzone_size st' = redzone_size st"
      "pool_levels st' = (pool_levels st)(?pb \<mapsto> r\<lparr>pb_rest := free_mem_pool_blocks_list st\<rparr>)" "free_mem_pool_blocks_list st' = lv_addr l"
      "mem_pools st' = (mem_pools st)(p := (mem_pools st p)\<lparr>pool_blocks := pb_rest r\<rparr>)"
    using pb by (simp_all add: st' st2 popped_def set_pool_def set_level_def)
  have sys': "sys_ok (sys st')" unfolding fields st2 popped_def using sys_ok_filter [OF I(3)] by simp
  have lv: "levels_ok (pool_levels st') (large_blocks st') (mem_blocks st') (pb_rest r) ls"
    unfolding fields using loops(2) pb fr(7,8) by (subst levels_ok_cong [where pl = "pool_levels st" and lb = "large_blocks st" and mb = "restored r (mem_blocks st)"]) auto
  have zero: "zero_ok st' p ls"
    unfolding zero_ok_def
  proof (intro impI allI)
    fix blk x assume bz: "pool_bz (mem_pools st' p)" and blk: "mem_blocks st' (head_of ls) = Some blk" and x: "mb_ptr blk \<le> x" "x < mb_ptr blk + mb_avail blk"
    have h: "head_of ls \<noteq> 0" using blk fr(10) fields by auto
    then have "mb_ptr blk = pb_base_ptr r \<and> mb_avail blk = pb_base_avail r"
      using blk fr(7) [OF head_of_in [OF h]] loops(1,3) fields by (auto simp: restored_def)
    then show "bytes st' x = 0" using bz x h loops(1) unfolding fields st2 popped_def by simp
  qed
  have areas: "b \<in> set (areas (L p))" if "b \<in> set (areas ls)" for b using that L by (auto simp: areas_def)
  have blocks: "(b, BLOCK_BYTES) \<in> set (sys st')" if b: "b \<in> set (all_blocks ls)" for b
    using fr(3) [of p b] areas [OF areas_in(1) [OF b]] areas_in(1) [OF b] D(5) [of b] b L fields by simp
  have larges: "\<exists>n. (a, n) \<in> set (sys st') \<and> MEM_LARGE_BLOCK_OVERHEAD < n" if a: "a \<in> set (all_large ls)" for a
    using fr(3) [of p a] areas [OF areas_in(2) [OF a]] areas_in(2) [OF a] D(6) [of a] a L fields by auto
  have "pool_ok st' p ls"
    using D(1-3) lv zero blocks larges by (simp add: pool_ok_def fields)
  then have *: "pools_inv st' (L(p := ls)) (lv_addr l # F) \<and> (\<forall>q. q \<noteq> p \<longrightarrow> live st' (L q) = live st (L q))"
  proof (rule pools_inv_update [OF inv])
    show "pool_levels st' a = pool_levels st a" if "q \<noteq> p" "a \<in> lv_addr ` set (L q)" for q a
      using S(5) [OF that] L pb(1) unfolding fields by auto
    show "bytes st' x = bytes st x" if "q \<noteq> p" "b \<in> set (all_blocks (L q))" "b \<le> x" "x < b + BLOCK_BYTES" for q b x
    proof -
      have "L q \<noteq> []" using that(2) by auto
      then have "(b, BLOCK_BYTES) \<in> set (sys st)" using pool_okD(5) [OF I(1)] that(2) by blast
      then show ?thesis using fr(4) [OF that(1) areas_in(1) [OF that(2)]] that(3,4) unfolding fields by blast
    qed
    show "separate (L(p := ls)) (lv_addr l # F)"
    proof (rule separate_update [OF I(2)])
      show "distinct (areas ls)" using S(1) [of p] L by (auto simp: areas_def)
      show "distinct (map lv_addr ls @ lv_addr l # F)" using S(2) [of p] L by auto
      show "x \<notin> lv_addr ` set (L q)" if "x \<in> lv_addr ` set ls \<union> set (lv_addr l # F)" "q \<noteq> p" for x q
        using that S(5) [of p q x] S(2) [of q] L by auto
    qed (use areas in auto)
    show "free_chain (pool_levels st') (free_mem_pool_blocks_list st') (lv_addr l # F)"
    proof -
      have "free_chain (pool_levels st') (free_mem_pool_blocks_list st) F" unfolding fields
        using I(9) S(2) [of p] L pb(1) by (subst free_chain_cong) auto
      then show ?thesis using pb(1) P(9) unfolding fields by simp
    qed
    show "overhead_ok st' (L(p := ls)) (lv_addr l # F)"
    proof (rule overhead_mono [OF I(10)])
      show "\<exists>blk'. mem_blocks st' b = Some blk' \<and> mb_ptr blk \<le> mb_ptr blk'" if "b \<in> set (all_blocks (L mem_overhead_pool))" "mem_blocks st b = Some blk" for b blk
        using fr(1) [OF po [symmetric] that(1)] that(2) fields by simp
      show "\<exists>bs ls'. (L(p := ls)) mem_overhead_pool = [\<lparr>lv_addr = overhead_blocks, lv_blocks = bs, lv_large = ls'\<rparr>]" using I(10) po by (simp add: overhead_ok_def)
      show "a \<in> (\<Union>p. lv_addr ` set (L p)) \<union> set F \<or>
          (\<exists>b \<in> set (all_blocks ((L(p := ls)) mem_overhead_pool)). \<exists>blk. mem_blocks st' b = Some blk \<and> b + MEM_BLOCK_OVERHEAD \<le> a \<and> a + 48 \<le> mb_ptr blk)"
        if a: "a \<in> lv_addr ` set ((L(p := ls)) q) \<union> set (lv_addr l # F)" for q a
      proof -
        have "a \<in> lv_addr ` set (L q) \<union> lv_addr ` set (L p) \<union> set F" using a L by (cases "q = p") auto
        then show ?thesis by blast
      qed
    qed (use po in simp)
    show "(b, n) \<in> set (sys st')" if "q \<noteq> p" "b \<in> set (areas (L q))" "(b, n) \<in> set (sys st)" for q b n
      unfolding fields by (rule fr(3) [OF _ that(2,3)]) (use that(1) in simp)
    show "dom (mem_blocks st') = (\<Union>q. set (all_blocks ((L(p := ls)) q)))" "dom (large_blocks st') = (\<Union>q. set (all_large ((L(p := ls)) q)))"
      unfolding fields UN_upd using fr(5,6) by simp_all
  qed (use I(4) sys' fr(1,2,9) in \<open>simp_all add: fields\<close>)
  then show "pools_inv st' (L(p := ls)) (lv_addr l # F)" "q \<noteq> p \<Longrightarrow> live st' (L q) = live st (L q)" by blast+
  have "map_of (sys st') a = map_of (sys st) a" if a: "a \<in> set (all_large ls)" for a
  proof -
    obtain n where n: "(a, n) \<in> set (sys st)" using D(6) [of a] a L by auto
    then have "(a, n) \<in> set (sys st')" using fr(3) [of p a n] areas [OF areas_in(2) [OF a]] areas_in(2) [OF a] fields by simp
    then show ?thesis using n sys_okD(1) [OF I(3)] sys_okD(1) [OF sys'] by simp
  qed
  then have "live_in (pool_levels st') (sys st') (mem_blocks st') ls = live_in (pool_levels st) (sys st) (restored r (mem_blocks st)) ls"
    unfolding fields using pb fr(7,10) P(5) by (intro live_in_cong [OF loops(2)]) (auto simp: restored_zero)
  then show "live st' ls = tl (live st (L p))" using r pb(1) L by (simp add: live_def Let_def)
qed

text \<open>The last level is emptied, not removed.\<close>

lemma inv_pop_last:
  assumes inv: "pools_inv st L F" and L: "L p = [l]" and r: "pool_levels st (pool_blocks (mem_pools st p)) = Some r" and po: "p \<noteq> mem_overhead_pool"
    and st2: "st2 = popped (pool_bz (mem_pools st p)) r l st"
    and st': "st' = set_level (pool_blocks (mem_pools st p)) \<lparr>pb_block = 0, pb_large = 0, pb_base_block = 0, pb_base_ptr = 0, pb_base_avail = 0, pb_rest = 0\<rparr> st2"
    and l': "l' = \<lparr>lv_addr = lv_addr l, lv_blocks = [], lv_large = []\<rparr>"
  shows "pools_inv st' (L(p := [l'])) F" and "live st' [l'] = [{}]" and "q \<noteq> p \<Longrightarrow> live st' (L q) = live st (L q)"
proof -
  have p: "L p \<noteq> []" using L by simp
  note P = pools_inv_pool [OF inv p] and I = pools_invD [OF inv] and S = separateD [OF pools_invD(2) [OF inv]] and D = pool_okD [OF pools_invD(1) [OF inv] p]
  note fr = popped_frame [OF inv L r st2]
  let ?pb = "pool_blocks (mem_pools st p)" and ?r = "\<lparr>pb_block = 0, pb_large = 0, pb_base_block = 0, pb_base_ptr = 0, pb_base_avail = 0, pb_rest = 0\<rparr>"
  have pb: "?pb = lv_addr l" using P(8) L by simp
  have fields: "mem_blocks st' = mem_blocks st2" "large_blocks st' = large_blocks st2" "sys st' = sys st2" "bytes st' = bytes st2" "redzone_size st' = redzone_size st"
      "pool_levels st' = (pool_levels st)(?pb \<mapsto> ?r)" "free_mem_pool_blocks_list st' = free_mem_pool_blocks_list st" "mem_pools st' = mem_pools st"
    by (simp_all add: st' st2 popped_def set_level_def)
  have sys': "sys_ok (sys st')" unfolding fields st2 popped_def using sys_ok_filter [OF I(3)] by simp
  have "levels_ok (pool_levels st') (large_blocks st') (mem_blocks st') ?pb [l']"
    using pb P(9) by (simp add: levels_ok.simps fields l' base_ok_def)
  then have "pool_ok st' p [l']" using D(1-3) fr(10) by (simp add: pool_ok_def fields l' zero_ok_def)
  then have *: "pools_inv st' (L(p := [l'])) F \<and> (\<forall>q. q \<noteq> p \<longrightarrow> live st' (L q) = live st (L q))"
  proof (rule pools_inv_update [OF inv])
    show "pool_levels st' a = pool_levels st a" if "q \<noteq> p" "a \<in> lv_addr ` set (L q)" for q a
      using S(5) [OF that] L pb(1) unfolding fields by auto
    show "bytes st' x = bytes st x" if "q \<noteq> p" "b \<in> set (all_blocks (L q))" "b \<le> x" "x < b + BLOCK_BYTES" for q b x
    proof -
      have "L q \<noteq> []" using that(2) by auto
      then have "(b, BLOCK_BYTES) \<in> set (sys st)" using pool_okD(5) [OF I(1)] that(2) by blast
      then show ?thesis using fr(4) [OF that(1) areas_in(1) [OF that(2)]] that(3,4) unfolding fields by blast
    qed
    show "separate (L(p := [l'])) F"
    proof (rule separate_update [OF I(2)])
      show "distinct (map lv_addr [l'] @ F)" using S(2) [of p] L l' by auto
      show "x \<notin> lv_addr ` set (L q)" if x: "x \<in> lv_addr ` set [l'] \<union> set F" and q: "q \<noteq> p" for x q
      proof -
        have "lv_addr l \<in> lv_addr ` set (L p)" using L by simp
        then have 1: "lv_addr l \<notin> lv_addr ` set (L q)" using S(5) [of p q "lv_addr l"] q by simp
        have 2: "lv_addr ` set (L q) \<inter> set F = {}" using S(2) [of q] by simp
        have "x = lv_addr l \<or> x \<in> set F" using x l' by simp
        then show ?thesis using 1 2 by (elim disjE) (simp, blast)
      qed
    qed (use l' in \<open>auto simp: areas_def\<close>)
    show "free_chain (pool_levels st') (free_mem_pool_blocks_list st') F" unfolding fields
      using I(9) S(2) [of p] L pb by (subst free_chain_cong) auto
    show "overhead_ok st' (L(p := [l'])) F"
    proof (rule overhead_mono [OF I(10)])
      show "\<exists>blk'. mem_blocks st' b = Some blk' \<and> mb_ptr blk \<le> mb_ptr blk'" if "b \<in> set (all_blocks (L mem_overhead_pool))" "mem_blocks st b = Some blk" for b blk
        using fr(1) [OF po [symmetric] that(1)] that(2) fields by simp
      show "\<exists>bs ls'. (L(p := [l'])) mem_overhead_pool = [\<lparr>lv_addr = overhead_blocks, lv_blocks = bs, lv_large = ls'\<rparr>]" using I(10) po by (simp add: overhead_ok_def)
      show "a \<in> (\<Union>p. lv_addr ` set (L p)) \<union> set F \<or>
          (\<exists>b \<in> set (all_blocks ((L(p := [l'])) mem_overhead_pool)). \<exists>blk. mem_blocks st' b = Some blk \<and> b + MEM_BLOCK_OVERHEAD \<le> a \<and> a + 48 \<le> mb_ptr blk)"
        if a: "a \<in> lv_addr ` set ((L(p := [l'])) q) \<union> set F" for q a
      proof -
        have "a \<in> lv_addr ` set (L q) \<union> set F" using a L l' by (cases "q = p") auto
        then show ?thesis by blast
      qed
    qed (use po in simp)
    show "(b, n) \<in> set (sys st')" if "q \<noteq> p" "b \<in> set (areas (L q))" "(b, n) \<in> set (sys st)" for q b n
      unfolding fields by (rule fr(3) [OF _ that(2,3)]) (use that(1) in simp)
    show "dom (mem_blocks st') = (\<Union>q. set (all_blocks ((L(p := [l'])) q)))" "dom (large_blocks st') = (\<Union>q. set (all_large ((L(p := [l'])) q)))"
      unfolding fields UN_upd using fr(5,6) by (simp_all add: l')
  qed (use I(4) sys' fr(1,2,9) in \<open>simp_all add: fields\<close>)
  then show "pools_inv st' (L(p := [l'])) F" "q \<noteq> p \<Longrightarrow> live st' (L q) = live st (L q)" by blast+
  show "live st' [l'] = [{}]" using pb by (simp add: live_def fields l' level_bytes_def)
qed

text \<open>
  What a pop does: the top level of the pool is gone, or empty when it was the only one, its areas have been given back to the C library
  and nothing else, and no byte in use elsewhere has changed.
\<close>

definition pop_ok :: "mem_state \<Rightarrow> (int \<Rightarrow> level list) \<Rightarrow> int \<Rightarrow> mem_state \<Rightarrow> (int \<Rightarrow> level list) \<Rightarrow> int list \<Rightarrow> bool" where
  "pop_ok st L p st' L' F' \<longleftrightarrow> pools_inv st' L' F' \<and> (\<forall>q. q \<noteq> p \<longrightarrow> L' q = L q \<and> live st' (L' q) = live st (L q)) \<and>
     live st' (L' p) = (if tl (L p) = [] then [{}] else tl (live st (L p))) \<and>
     L' p = (if tl (L p) = [] then [\<lparr>lv_addr = lv_addr (hd (L p)), lv_blocks = [], lv_large = []\<rparr>] else tl (L p)) \<and>
     sys st' = filter (\<lambda>(b, _). b \<notin> set (lv_blocks (hd (L p))) \<union> set (lv_large (hd (L p)))) (sys st) \<and>
     (\<forall>q. \<forall>X \<in> set (live st' (L' q)). \<forall>x \<in> X. bytes st' x = bytes st x) \<and> (\<forall>q. q \<noteq> p \<longrightarrow> mem_pools st' q = mem_pools st q) \<and>
     pool_bz (mem_pools st' p) = pool_bz (mem_pools st p) \<and> pool_magic (mem_pools st' p) = MAGIC_NUM \<and> \<not> pool_frozen (mem_pools st' p)"

lemma Pop_P_ok:
  assumes inv: "pools_inv st L F" and L: "L p = l # ls" and po: "p \<noteq> mem_overhead_pool" and fz: "\<not> pool_frozen (mem_pools st p)"
  obtains st' L' F' where "MEM_POOL_Pop_P p st = Inr st'" "pop_ok st L p st' L' F'" "F' = (if ls = [] then F else lv_addr l # F)"
proof -
  have p: "L p \<noteq> []" using L by simp
  note P = pools_inv_pool [OF inv p]
  let ?pool = "mem_pools st p"
  let ?pb = "pool_blocks ?pool"
  obtain r where r: "pool_levels st ?pb = Some r" using top_level(1) [OF P(1) p] by blast
  note loops = pop_loops [OF inv L r]
  define st2 where "st2 = popped (pool_bz ?pool) r l st"
  have rest: "pb_rest r = (case ls of [] \<Rightarrow> 0 | l' # _ \<Rightarrow> lv_addr l')" using levels_head(3) [OF P(1) [unfolded L] r] .
  have run: "MEM_POOL_Pop_P p st = (if pb_rest r \<noteq> 0 then
       Inr ((set_pool p (?pool\<lparr>pool_blocks := pb_rest r\<rparr>) (set_level ?pb (r\<lparr>pb_rest := free_mem_pool_blocks_list st2\<rparr>) st2))\<lparr>free_mem_pool_blocks_list := ?pb\<rparr>)
     else Inr (set_level ?pb \<lparr>pb_block = 0, pb_large = 0, pb_base_block = 0, pb_base_ptr = 0, pb_base_avail = 0, pb_rest = 0\<rparr> st2))"
  proof -
    have "bindE (pop_blocks (pool_bz ?pool) r (pb_block r) st) (\<lambda>st. bindE (pop_large (pb_large r) st) f) = f st2" for f :: "mem_state \<Rightarrow> mem_state res"
      using loops(1) [of "pool_bz ?pool"] bindE_assoc [of "pop_blocks (pool_bz ?pool) r (pb_block r) st" "pop_large (pb_large r)" f] by (simp add: st2_def)
    then show ?thesis using P(6,7,9) fz r by (simp add: MEM_POOL_Pop_P_def get_level_def Let_def)
  qed
  show thesis
  proof (cases ls)
    case Nil
    define l' where "l' = \<lparr>lv_addr = lv_addr l, lv_blocks = [], lv_large = []\<rparr>"
    define st' where "st' = set_level ?pb \<lparr>pb_block = 0, pb_large = 0, pb_base_block = 0, pb_base_ptr = 0, pb_base_avail = 0, pb_rest = 0\<rparr> st2"
    note K = inv_pop_last [OF inv L [unfolded Nil] r po st2_def st'_def l'_def]
    have "pb_base_block r = 0" using loops(2) Nil by simp
    then have "bytes st' = bytes st" by (simp add: st'_def st2_def popped_def set_level_def)
    moreover have "sys st' = filter (\<lambda>(b, _). b \<notin> set (lv_blocks l) \<union> set (lv_large l)) (sys st)" "mem_pools st' = mem_pools st"
      by (simp_all add: st'_def st2_def popped_def set_level_def)
    ultimately have "pop_ok st L p st' (L(p := [l'])) F" using K L Nil P(7) fz unfolding pop_ok_def by (simp add: l'_def)
    then show ?thesis using that run rest Nil by (simp add: st'_def)
  next
    case (Cons m ms)
    then have ls: "ls \<noteq> []" and nz: "pb_rest r \<noteq> 0" using rest loops(3) by (auto simp: levels_ok.simps)
    define st' where "st' = (set_pool p (?pool\<lparr>pool_blocks := pb_rest r\<rparr>) (set_level ?pb (r\<lparr>pb_rest := free_mem_pool_blocks_list st2\<rparr>) st2))\<lparr>free_mem_pool_blocks_list := ?pb\<rparr>"
    note K = inv_pop_rest [OF inv L r ls po st2_def st'_def]
    have Lp: "(L(p := ls)) p = ls" by simp
    have bytes: "bytes st' x = bytes st x" if X: "X \<in> set (live st' ((L(p := ls)) q))" "x \<in> X" for q X x
    proof -
      have False if h: "pb_base_block r \<noteq> 0" "pb_base_ptr r \<le> x" "x < pb_base_ptr r + pb_base_avail r"
      proof -
        have hn: "head_of ls \<noteq> 0" using h(1) loops(2) by simp
        have "mem_blocks st' (head_of ls) = restored r (mem_blocks st) (head_of ls)"
          using popped_frame(7) [OF inv L r st2_def head_of_in [OF hn]] by (simp add: st'_def set_pool_def set_level_def)
        then obtain blk where "mem_blocks st' (head_of ls) = Some blk" "mb_ptr blk = pb_base_ptr r" "mb_avail blk = pb_base_avail r"
          using loops(2) loops(4) [OF hn] by (auto simp: restored_def)
        then show False using free_not_live [OF K(1), of p "head_of ls" blk x X q] ls hn h X by simp
      qed
      then show ?thesis by (auto simp: st'_def st2_def popped_def set_pool_def set_level_def)
    qed
    have sys: "sys st' = filter (\<lambda>(b, _). b \<notin> set (lv_blocks l) \<union> set (lv_large l)) (sys st)"
      by (simp add: st'_def st2_def popped_def set_pool_def set_level_def)
    have pools: "mem_pools st' = (mem_pools st)(p := ?pool\<lparr>pool_blocks := pb_rest r\<rparr>)" by (simp add: st'_def st2_def popped_def set_pool_def set_level_def)
    have others: "\<forall>q. q \<noteq> p \<longrightarrow> (L(p := ls)) q = L q \<and> live st' ((L(p := ls)) q) = live st (L q)" using K(3) by simp
    have "pop_ok st L p st' (L(p := ls)) (lv_addr l # F)" unfolding pop_ok_def
      using K(1,2) others bytes sys pools ls L P(7) fz by simp
    then show ?thesis using that run nz ls by (simp add: st'_def)
  qed
qed

section \<open>The life of a pool\<close>

context c_library
begin

lemma Initialize_ok:
  assumes inv: "pools_inv st L F" and p: "p \<noteq> Default_Mem_Pool" "p \<noteq> Malloc_Mem_Pool" "p \<noteq> mem_overhead_pool" and new: "L p = []" "pool_magic (mem_pools st p) \<noteq> MAGIC_NUM"
  obtains (no_memory) "MEM_POOL_Initialize_P os p bz st = Inl No_Memory"
  | (initialized) st' L' F' where "MEM_POOL_Initialize_P os p bz st = Inr st'" "pools_inv st' L' F'" "live st' (L' p) = [{}]" "length (L' p) = 1"
      "\<forall>q. q \<noteq> p \<longrightarrow> q \<noteq> mem_overhead_pool \<longrightarrow> L' q = L q \<and> live st' (L' q) = live st (L q)" "kept st st'" "set (sys st) \<subseteq> set (sys st')"
      "\<exists>pb. mem_pools st' = (mem_pools st)(p := \<lparr>pool_blocks = pb, pool_bz = bz, pool_frozen = False, pool_magic = MAGIC_NUM\<rparr>)"
proof -
  note finish = that
  let ?pool = "\<lparr>pool_blocks = 0, pool_bz = bz, pool_frozen = False, pool_magic = MAGIC_NUM\<rparr>"
  define st0 where "st0 = set_pool p ?pool st"
  have inv0: "pools_inv st0 L F" "\<And>ls. live st0 ls = live st ls" using inv_set_pool [OF inv] new(1) by (simp_all add: st0_def)
  have run: "MEM_POOL_Initialize_P os p bz st = MEM_POOL_Push_P os p st0"
    using p new(2) by (simp add: MEM_POOL_Initialize_P_def resolve_pool_def pool_of_def st0_def)
  have pool: "pool_magic (mem_pools st0 p) = MAGIC_NUM" "L p = [] \<longrightarrow> pool_blocks (mem_pools st0 p) = 0" "\<not> pool_frozen (mem_pools st0 p)"
    by (simp_all add: st0_def set_pool_def)
  from inv0(1) p pool show thesis
  proof (cases rule: push_level_ok)
    case no_memory
    then show ?thesis using finish(1) run by simp
  next
    case (pushed st' L' F')
    obtain pb where "mem_pools st' = (mem_pools st0)(p := (mem_pools st0 p)\<lparr>pool_blocks := pb\<rparr>)" using pushed(10) by blast
    then have "mem_pools st' = (mem_pools st)(p := \<lparr>pool_blocks = pb, pool_bz = bz, pool_frozen = False, pool_magic = MAGIC_NUM\<rparr>)" by (simp add: st0_def set_pool_def)
    moreover have "length (L' p) = 1" using pushed(5) new(1) by (cases "L' p") auto
    moreover have "live st' (L' p) = [{}]" using pushed(3) inv0(2) new(1) by (simp add: live_def)
    moreover have "\<forall>q. q \<noteq> p \<longrightarrow> q \<noteq> mem_overhead_pool \<longrightarrow> L' q = L q \<and> live st' (L' q) = live st (L q)" using pushed(4) unfolding inv0(2) .
    moreover have "kept st st'" "set (sys st) \<subseteq> set (sys st')" using pushed(8,9) by (simp_all add: st0_def set_pool_def kept_def)
    moreover have "MEM_POOL_Initialize_P os p bz st = Inr st'" using run pushed(1) by simp
    ultimately show ?thesis using finish(2) [OF _ pushed(2)] by blast
  qed
qed

end

text \<open>The header of the last, empty level becomes unused.\<close>

lemma inv_drop:
  assumes inv: "pools_inv st L F" and L: "L p = [\<lparr>lv_addr = a, lv_blocks = [], lv_large = []\<rparr>]" and po: "p \<noteq> mem_overhead_pool" and r: "pool_levels st a = Some r"
    and st': "st' = (set_pool p pool (set_level a (r\<lparr>pb_rest := free_mem_pool_blocks_list st\<rparr>) st))\<lparr>free_mem_pool_blocks_list := a\<rparr>"
  shows "pools_inv st' (L(p := [])) (a # F)" and "q \<noteq> p \<Longrightarrow> live st' (L q) = live st (L q)"
proof -
  have p: "L p \<noteq> []" using L by simp
  note P = pools_inv_pool [OF inv p] and I = pools_invD [OF inv] and S = separateD [OF pools_invD(2) [OF inv]]
  have fields: "mem_blocks st' = mem_blocks st" "large_blocks st' = large_blocks st" "sys st' = sys st" "bytes st' = bytes st" "redzone_size st' = redzone_size st"
      "pool_levels st' = (pool_levels st)(a \<mapsto> r\<lparr>pb_rest := free_mem_pool_blocks_list st\<rparr>)" "free_mem_pool_blocks_list st' = a" "mem_pools st' = (mem_pools st)(p := pool)"
    by (simp_all add: st' set_pool_def set_level_def)
  have an: "a \<notin> lv_addr ` set (L q)" if "q \<noteq> p" for q using S(5) [of p q a] that L by simp
  have "pools_inv st' (L(p := [])) (a # F) \<and> (\<forall>q. q \<noteq> p \<longrightarrow> live st' (L q) = live st (L q))"
  proof (rule pools_inv_update [OF inv])
    show "pool_ok st' p []" by (simp add: pool_ok_def)
    show "pool_levels st' x = pool_levels st x" if "q \<noteq> p" "x \<in> lv_addr ` set (L q)" for q x using an [OF that(1)] that(2) unfolding fields by auto
    show "separate (L(p := [])) (a # F)"
    proof (rule separate_update [OF I(2)])
      show "distinct (map lv_addr [] @ a # F)" using S(2) [of p] L by simp
      show "x \<notin> lv_addr ` set (L q)" if x: "x \<in> lv_addr ` set [] \<union> set (a # F)" and q: "q \<noteq> p" for x q
      proof -
        have 2: "lv_addr ` set (L q) \<inter> set F = {}" using S(2) [of q] by simp
        have "x = a \<or> x \<in> set F" using x by simp
        then show ?thesis using an [OF q] 2 by (elim disjE) (simp, blast)
      qed
    qed (auto simp: areas_def)
    show "dom (mem_blocks st') = (\<Union>q. set (all_blocks ((L(p := [])) q)))" "dom (large_blocks st') = (\<Union>q. set (all_large ((L(p := [])) q)))"
      unfolding fields UN_upd using I(7,8) [unfolded UN_split [of L p]] L by simp_all
    show "free_chain (pool_levels st') (free_mem_pool_blocks_list st') (a # F)"
    proof -
      have "free_chain (pool_levels st') (free_mem_pool_blocks_list st) F" unfolding fields
        using I(9) S(2) [of p] L by (subst free_chain_cong) auto
      then show ?thesis using P(8,9) L unfolding fields by simp
    qed
    show "overhead_ok st' (L(p := [])) (a # F)"
    proof (rule overhead_mono [OF I(10)])
      show "\<exists>bs ls'. (L(p := [])) mem_overhead_pool = [\<lparr>lv_addr = overhead_blocks, lv_blocks = bs, lv_large = ls'\<rparr>]" using I(10) po by (simp add: overhead_ok_def)
      show "x \<in> (\<Union>p. lv_addr ` set (L p)) \<union> set F \<or>
          (\<exists>b \<in> set (all_blocks ((L(p := [])) mem_overhead_pool)). \<exists>blk. mem_blocks st' b = Some blk \<and> b + MEM_BLOCK_OVERHEAD \<le> x \<and> x + 48 \<le> mb_ptr blk)"
        if x: "x \<in> lv_addr ` set ((L(p := [])) q) \<union> set (a # F)" for q x
      proof -
        have "a \<in> lv_addr ` set (L p)" using L by simp
        moreover have "x \<in> lv_addr ` set (L q) \<or> x = a \<or> x \<in> set F" using x by (cases "q = p") auto
        ultimately show ?thesis by blast
      qed
    qed (use po in \<open>simp_all add: fields\<close>)
  qed (use I(3-5) in \<open>simp_all add: fields\<close>)
  then show "pools_inv st' (L(p := [])) (a # F)" "q \<noteq> p \<Longrightarrow> live st' (L q) = live st (L q)" by blast+
qed

text \<open>The loop of \<^verbatim>\<open>MEM_POOL_Delete\<close> ends at the first level.\<close>

definition bytes_kept :: "mem_state \<Rightarrow> mem_state \<Rightarrow> (int \<Rightarrow> level list) \<Rightarrow> bool" where
  "bytes_kept st st' L' \<longleftrightarrow> (\<forall>q. \<forall>X \<in> set (live st' (L' q)). \<forall>x \<in> X. bytes st' x = bytes st x)"

lemma pop_all_ok:
  assumes "pools_inv st L F" and "L p \<noteq> []" and "p \<noteq> mem_overhead_pool" and "\<not> pool_frozen (mem_pools st p)"
  shows "\<exists>st' L' F'. pop_all p st = Some (Inr st') \<and> pools_inv st' L' F' \<and> L' p = [last (L p)] \<and>
    (\<forall>q. q \<noteq> p \<longrightarrow> L' q = L q \<and> live st' (L' q) = live st (L q) \<and> mem_pools st' q = mem_pools st q) \<and>
    live st' (L' p) = [last (live st (L p))] \<and> sys st' = filter (\<lambda>(b, _). b \<notin> set (areas (butlast (L p)))) (sys st) \<and> bytes_kept st st' L' \<and> \<not> pool_frozen (mem_pools st' p)"
  using assms
proof (induction "length (L p)" arbitrary: st L F rule: less_induct)
  case less
  note inv = less.prems(1)
  note P = pools_inv_pool [OF inv less.prems(2)]
  obtain l ls where L: "L p = l # ls" using less.prems(2) by (cases "L p") auto
  obtain r where r: "pool_levels st (pool_blocks (mem_pools st p)) = Some r" using top_level(1) [OF P(1) less.prems(2)] by blast
  have rest: "pb_rest r = (case ls of [] \<Rightarrow> 0 | l' # _ \<Rightarrow> lv_addr l')" using levels_head(3) [OF P(1) [unfolded L] r] .
  show ?case
  proof (cases ls)
    case Nil
    have "pop_all p st = Some (Inr st)" using r rest Nil by (subst pop_all.simps) (simp add: get_level_def)
    moreover have "filter (\<lambda>(b, _). b \<notin> set (areas (butlast (L p)))) (sys st) = sys st" using L Nil by (simp add: filter_id_conv split_def)
    moreover have "live st (L p) = [last (live st (L p))]" using L Nil by (simp add: live_def Let_def)
    ultimately show ?thesis using L Nil less.prems by (intro exI [of _ st] exI [of _ L] exI [of _ F]) (simp add: bytes_kept_def)
  next
    case (Cons m ms)
    then have nz: "pb_rest r \<noteq> 0" "ls \<noteq> []" using rest pop_loops(3) [OF inv L r] by (auto simp: levels_ok.simps)
    from Pop_P_ok [OF inv L less.prems(3,4)] obtain st1 L1 F1 where pop: "MEM_POOL_Pop_P p st = Inr st1" "pop_ok st L p st1 L1 F1" by blast
    note K = pop(2) [unfolded pop_ok_def]
    have "live st1 (L1 p) = (if tl (L p) = [] then [{}] else tl (live st (L p)))" using K by blast
    then have L1: "L1 p = ls" "live st1 (L1 p) = tl (live st (L p))" using K L nz(2) by auto
    have "length (L1 p) < length (L p)" "L1 p \<noteq> []" "pools_inv st1 L1 F1" "\<not> pool_frozen (mem_pools st1 p)" using L1 L nz K by auto
    from less.hyps [OF this(1,3,2) less.prems(3) this(4)] obtain st' L' F' where IH: "pop_all p st1 = Some (Inr st')" "pools_inv st' L' F'" "L' p = [last (L1 p)]"
      "\<forall>q. q \<noteq> p \<longrightarrow> L' q = L1 q \<and> live st' (L' q) = live st1 (L1 q) \<and> mem_pools st' q = mem_pools st1 q"
      "live st' (L' p) = [last (live st1 (L1 p))]" "sys st' = filter (\<lambda>(b, _). b \<notin> set (areas (butlast (L1 p)))) (sys st1)" "bytes_kept st1 st' L'" "\<not> pool_frozen (mem_pools st' p)"
      by blast
    have "pop_all p st = pop_all p st1" using r nz pop(1) by (subst pop_all.simps) (simp add: get_level_def)
    then have run: "pop_all p st = Some (Inr st')" using IH(1) by simp
    have "tl (live st (L p)) \<noteq> []" using L nz length_live [of st "L p"] by (metis length_0_conv length_tl list.sel(3))
    then have lst: "last (live st1 (L1 p)) = last (live st (L p))" using L1(2) by (simp add: last_tl)
    have areas: "set (areas (butlast (L p))) = set (lv_blocks l) \<union> set (lv_large l) \<union> set (areas (butlast ls))" using L nz(2) by simp
    have sys1: "sys st1 = filter (\<lambda>(b, _). b \<notin> set (lv_blocks l) \<union> set (lv_large l)) (sys st)" using K L by simp
    have "sys st' = filter (\<lambda>(b, _). b \<notin> set (areas (butlast (L p)))) (sys st)"
      unfolding IH(6) sys1 areas L1 by (auto simp: split_def intro!: filter_cong)
    moreover have "bytes_kept st st' L'"
      unfolding bytes_kept_def
    proof (intro allI ballI)
      fix q X x assume x: "X \<in> set (live st' (L' q))" "x \<in> X"
      have "X \<in> set (live st1 (L1 q))"
      proof (cases "q = p")
        case True
        then show ?thesis using x(1) IH(5) L1(2) \<open>tl (live st (L p)) \<noteq> []\<close> by simp
      next
        case False
        then have "live st' (L' q) = live st1 (L1 q)" using IH(4) by blast
        then show ?thesis using x(1) by simp
      qed
      then have "bytes st1 x = bytes st x" using K x(2) by blast
      then show "bytes st' x = bytes st x" using IH(7) x unfolding bytes_kept_def by auto
    qed
    moreover have "L' p = [last (L p)]" "live st' (L' p) = [last (live st (L p))]" using IH(3,5) lst L1 L nz by simp_all
    moreover have "L' q = L q \<and> live st' (L' q) = live st (L q) \<and> mem_pools st' q = mem_pools st q" if q: "q \<noteq> p" for q
    proof -
      have "L1 q = L q" "live st1 (L1 q) = live st (L q)" "mem_pools st1 q = mem_pools st q" using K q by blast+
      moreover have "L' q = L1 q" "live st' (L' q) = live st1 (L1 q)" "mem_pools st' q = mem_pools st1 q" using IH(4) q by blast+
      ultimately show ?thesis by simp
    qed
    ultimately show ?thesis using run IH(2,8) by blast
  qed
qed

lemma Delete_ok:
  assumes inv: "pools_inv st L F" and L: "L p \<noteq> []" and po: "p \<noteq> mem_overhead_pool" and fz: "\<not> pool_frozen (mem_pools st p)"
  shows "\<exists>st' F'. MEM_POOL_Delete p st = Some (Inr st') \<and> pools_inv st' (L(p := [])) F' \<and> (\<forall>q. q \<noteq> p \<longrightarrow> live st' (L q) = live st (L q)) \<and>
    sys st' = filter (\<lambda>(b, _). b \<notin> set (areas (L p))) (sys st) \<and> bytes_kept st st' (L(p := [])) \<and>
    mem_pools st' = (mem_pools st)(p := \<lparr>pool_blocks = 0, pool_bz = False, pool_frozen = False, pool_magic = 0\<rparr>)"
proof -
  note P = pools_inv_pool [OF inv L]
  obtain st1 L1 F1 where 1: "pop_all p st = Some (Inr st1)" "pools_inv st1 L1 F1" "L1 p = [last (L p)]"
      "\<forall>q. q \<noteq> p \<longrightarrow> L1 q = L q \<and> live st1 (L1 q) = live st (L q) \<and> mem_pools st1 q = mem_pools st q"
      "sys st1 = filter (\<lambda>(b, _). b \<notin> set (areas (butlast (L p)))) (sys st)" "bytes_kept st st1 L1" "\<not> pool_frozen (mem_pools st1 p)"
    using pop_all_ok [OF inv L po fz] by blast
  from Pop_P_ok [OF 1(2,3) po 1(7)] obtain st2 L2 F2 where pop: "MEM_POOL_Pop_P p st1 = Inr st2" "pop_ok st1 L1 p st2 L2 F2" by blast
  note K = pop(2) [unfolded pop_ok_def]
  define a where "a = lv_addr (last (L p))"
  have L2: "L2 p = [\<lparr>lv_addr = a, lv_blocks = [], lv_large = []\<rparr>]" using K 1(3) by (simp add: a_def)
  have inv2: "pools_inv st2 L2 F2" using K by blast
  have pb: "pool_blocks (mem_pools st2 p) = a" using pools_inv_pool(8) [OF inv2, of p] L2 by simp
  obtain r where r: "pool_levels st2 a = Some r" using top_level(1) [OF pools_inv_pool(1) [OF inv2, of p]] L2 pb by auto
  let ?none = "\<lparr>pool_blocks = 0, pool_bz = False, pool_frozen = False, pool_magic = 0\<rparr>"
  define st' where "st' = (set_pool p ?none (set_level a (r\<lparr>pb_rest := free_mem_pool_blocks_list st2\<rparr>) st2))\<lparr>free_mem_pool_blocks_list := a\<rparr>"
  note D = inv_drop [OF inv2 L2 po r st'_def]
  have run: "MEM_POOL_Delete p st = Some (Inr st')"
    using 1(1) pop(1) pb r P(6,7,10,11) by (simp add: MEM_POOL_Delete_def get_level_def st'_def)
  have same: "L2 q = L q" "live st2 (L2 q) = live st (L q)" "mem_pools st2 q = mem_pools st q" if q: "q \<noteq> p" for q
  proof -
    have "L2 q = L1 q" "live st2 (L2 q) = live st1 (L1 q)" "mem_pools st2 q = mem_pools st1 q" using K q by blast+
    moreover have "L1 q = L q" "live st1 (L1 q) = live st (L q)" "mem_pools st1 q = mem_pools st q" using 1(4) q by blast+
    ultimately show "L2 q = L q" "live st2 (L2 q) = live st (L q)" "mem_pools st2 q = mem_pools st q" by simp_all
  qed
  have "L2(p := []) = L(p := [])" using same(1) by auto
  moreover have live: "live st' (L q) = live st (L q)" if "q \<noteq> p" for q using D(2) [OF that] same [OF that] by simp
  moreover have "mem_pools st' = (mem_pools st)(p := ?none)"
  proof
    fix q show "mem_pools st' q = ((mem_pools st)(p := ?none)) q" using same(3) [of q] by (simp add: st'_def set_pool_def set_level_def)
  qed
  moreover have "sys st' = filter (\<lambda>(b, _). b \<notin> set (areas (L p))) (sys st)"
  proof -
    have "sys st' = filter (\<lambda>(b, _). b \<notin> set (lv_blocks (last (L p))) \<union> set (lv_large (last (L p)))) (sys st1)"
      using K 1(3) by (simp add: st'_def set_pool_def set_level_def)
    moreover have "set (areas (L p)) = set (areas (butlast (L p) @ [last (L p)]))" using L by simp
    then have "set (areas (L p)) = set (areas (butlast (L p))) \<union> (set (lv_blocks (last (L p))) \<union> set (lv_large (last (L p))))"
      by (auto simp: areas_def all_blocks_def all_large_def)
    ultimately show ?thesis unfolding 1(5) by (auto simp: split_def intro!: filter_cong)
  qed
  moreover have "bytes_kept st st' (L(p := []))"
    unfolding bytes_kept_def
  proof (intro allI ballI)
    fix q X x assume x: "X \<in> set (live st' ((L(p := [])) q))" "x \<in> X"
    have q: "q \<noteq> p" using x(1) by (auto simp: live_def)
    then have X: "X \<in> set (live st (L q))" using x(1) live by simp
    have "X \<in> set (live st2 (L2 q))" "X \<in> set (live st1 (L1 q))" using X same(2) [OF q] 1(4) q by auto
    then have "bytes st2 x = bytes st1 x" "bytes st1 x = bytes st x" using K x(2) 1(6) unfolding bytes_kept_def by blast+
    then show "bytes st' x = bytes st x" by (simp add: st'_def set_pool_def set_level_def)
  qed
  ultimately show ?thesis using run D(1) by metis
qed

section \<open>The start\<close>

lemma MEM_start_ok: "pools_inv MEM_start (\<lambda>p. if p = mem_overhead_pool then [\<lparr>lv_addr = overhead_blocks, lv_blocks = [], lv_large = []\<rparr>] else []) []"
proof -
  have "pool_ok MEM_start p (if p = mem_overhead_pool then [\<lparr>lv_addr = overhead_blocks, lv_blocks = [], lv_large = []\<rparr>] else [])" for p
    by (simp add: pool_ok_def MEM_start_def levels_ok.simps zero_ok_def base_ok_def overhead_blocks_def mem_overhead_pool_def Default_Mem_Pool_def Malloc_Mem_Pool_def)
  then show ?thesis
    by (auto simp: pools_inv_def separate_def overhead_ok_def MEM_start_def sys_ok_def areas_def overhead_blocks_def split: if_splits)
qed

end
