(* ===== verification/Memory_Pool_Machine.thy ===== *)
theory Memory_Pool_Machine
  imports Memory_Pool_Stack
begin

text \<open>
  The memory pools as their clients see them: the levels found by following the pointers of a state, the stack of sets of bytes they
  stand for, the operations a client may call and a machine that runs them.
\<close>

section \<open>The levels of a state\<close>

partial_function (option) walk_blocks :: "mem_state \<Rightarrow> int \<Rightarrow> int \<Rightarrow> int list option" where
  "walk_blocks st e b =
     (if b = e then Some []
      else case mem_blocks st b of
        None \<Rightarrow> Some []
      | Some blk \<Rightarrow> Option.bind (walk_blocks st e (mb_rest blk)) (\<lambda>bs. Some (b # bs)))"

partial_function (option) walk_large :: "mem_state \<Rightarrow> int \<Rightarrow> int list option" where
  "walk_large st a =
     (case large_blocks st a of
        None \<Rightarrow> Some []
      | Some h \<Rightarrow> Option.bind (walk_large st (lb_next h)) (\<lambda>as. Some (a # as)))"

partial_function (option) walk_levels :: "mem_state \<Rightarrow> int \<Rightarrow> level list option" where
  "walk_levels st pb =
     (if pb = 0 then Some []
      else case pool_levels st pb of
        None \<Rightarrow> Some []
      | Some r \<Rightarrow>
          Option.bind (walk_blocks st (pb_base_block r) (pb_block r)) (\<lambda>bs.
          Option.bind (walk_large st (pb_large r)) (\<lambda>as.
          Option.bind (walk_levels st (pb_rest r)) (\<lambda>ls.
          Some (\<lparr>lv_addr = pb, lv_blocks = bs, lv_large = as\<rparr> # ls)))))"

declare walk_blocks.simps [code] walk_large.simps [code] walk_levels.simps [code] pop_all.simps [code]

definition levels_of :: "mem_state \<Rightarrow> int \<Rightarrow> level list" where
  "levels_of st p =
     (if pool_magic (mem_pools st p) = MAGIC_NUM then (case walk_levels st (pool_blocks (mem_pools st p)) of None \<Rightarrow> [] | Some ls \<Rightarrow> ls) else [])"

definition pool_stack :: "mem_state \<Rightarrow> int \<Rightarrow> int set list" where
  "pool_stack st p = live st (levels_of st p)"

definition good :: "mem_state \<Rightarrow> (int \<Rightarrow> level list) \<Rightarrow> int list \<Rightarrow> bool" where
  "good st L F \<longleftrightarrow> pools_inv st L F \<and> (\<forall>p. L p \<noteq> [] \<longleftrightarrow> pool_magic (mem_pools st p) = MAGIC_NUM)"

definition pools_ok :: "mem_state \<Rightarrow> bool" where
  "pools_ok st \<longleftrightarrow> (\<exists>F. good st (levels_of st) F)"

lemma walk_blocks_ok: "block_seg mb b xs e \<Longrightarrow> e \<notin> set xs \<Longrightarrow> (\<And>x. map_option mb_rest (mb x) = map_option mb_rest (mem_blocks st x)) \<Longrightarrow> walk_blocks st e b = Some xs"
proof (induction xs arbitrary: b)
  case Nil
  then show ?case by (subst walk_blocks.simps) simp
next
  case (Cons x xs)
  then obtain blk where x: "x = b" "mb b = Some blk" "block_seg mb (mb_rest blk) xs e" by auto
  then obtain blk' where "mem_blocks st b = Some blk'" "mb_rest blk' = mb_rest blk" using Cons.prems(3) [of b] by (cases "mem_blocks st b") auto
  then show ?case using Cons.IH [OF x(3)] Cons.prems(2,3) x(1) by (subst walk_blocks.simps) simp
qed

lemma walk_large_ok: "large_list (large_blocks st) base prev a xs 0 \<Longrightarrow> large_blocks st 0 = None \<Longrightarrow> walk_large st a = Some xs"
proof (induction xs arbitrary: prev a)
  case Nil
  then show ?case by (subst walk_large.simps) simp
next
  case (Cons x xs)
  then obtain h where h: "x = a" "large_blocks st a = Some h" "large_list (large_blocks st) base a (lb_next h) xs 0" by auto
  then show ?case using Cons.IH [OF h(3) Cons.prems(2)] by (subst walk_large.simps) simp
qed

lemma walk_levels_ok:
  assumes "levels_ok (pool_levels st) (large_blocks st) mb pb ls" and "large_blocks st 0 = None" and "distinct (all_blocks ls)" and "0 \<notin> set (all_blocks ls)"
    and "\<And>x. map_option mb_rest (mb x) = map_option mb_rest (mem_blocks st x)"
  shows "walk_levels st pb = Some ls"
  using assms
proof (induction ls arbitrary: pb mb)
  case Nil
  then show ?case by (subst walk_levels.simps) simp
next
  case (Cons l ls)
  from Cons.prems(1) obtain r where r: "pool_levels st pb = Some r" "pb = lv_addr l" "pb \<noteq> 0" "block_seg mb (pb_block r) (lv_blocks l) (head_of ls)" "pb_base_block r = head_of ls"
    "large_list (large_blocks st) pb 0 (pb_large r) (lv_large l) 0" "levels_ok (pool_levels st) (large_blocks st) (restored r mb) (pb_rest r) ls" by (rule levels_okE)
  have "head_of ls \<notin> set (lv_blocks l)" using Cons.prems(3,4) head_of_in [of ls] by (cases "head_of ls = 0") auto
  then have "walk_blocks st (head_of ls) (pb_block r) = Some (lv_blocks l)" using walk_blocks_ok [OF r(4)] Cons.prems(5) by blast
  moreover have "walk_large st (pb_large r) = Some (lv_large l)" by (rule walk_large_ok [OF r(6) Cons.prems(2)])
  moreover have "walk_levels st (pb_rest r) = Some ls"
    by (rule Cons.IH [OF r(7)]) (use Cons.prems in \<open>auto simp: restored_rest\<close>)
  ultimately show ?case using r by (subst walk_levels.simps) simp
qed

lemma goodD: "good st L F \<Longrightarrow> pools_inv st L F" "good st L F \<Longrightarrow> L p \<noteq> [] \<longleftrightarrow> pool_magic (mem_pools st p) = MAGIC_NUM"
  by (simp_all add: good_def)

lemma levels_of_good: "good st L F \<Longrightarrow> levels_of st = L"
proof
  fix p assume g: "good st L F"
  note inv = goodD(1) [OF g]
  show "levels_of st p = L p"
  proof (cases "L p = []")
    case True
    then show ?thesis using goodD(2) [OF g, of p] by (simp add: levels_of_def)
  next
    case False
    note P = pools_inv_pool [OF inv False]
    have nz: "0 \<notin> set (all_blocks (L q))" "0 \<notin> set (all_large (L q))" for q using pools_inv_nonzero [OF inv] areas_in by blast+
    have "0 \<notin> dom (large_blocks st)" unfolding pools_invD(8) [OF inv] using nz(2) by blast
    then have "large_blocks st 0 = None" by auto
    then have "walk_levels st (pool_blocks (mem_pools st p)) = Some (L p)" by (rule walk_levels_ok [OF P(1) _ P(2) nz(1)]) simp
    then show ?thesis using P(7) by (simp add: levels_of_def)
  qed
qed

lemma pools_okI: "good st L F \<Longrightarrow> pools_ok st \<and> levels_of st = L"
  using levels_of_good by (auto simp: pools_ok_def)

lemma pools_okE:
  assumes "pools_ok st"
  obtains F where "good st (levels_of st) F"
  using assms by (auto simp: pools_ok_def)

lemma kept_live: "pools_inv st L F \<Longrightarrow> kept st st' \<Longrightarrow> X \<in> set (live st (L q)) \<Longrightarrow> x \<in> X \<Longrightarrow> bytes st' x = bytes st x"
  using live_in_sys keptD by blast

section \<open>The client's operations\<close>

datatype pool_op =
    Op_Initialize int bool
  | Op_Alloc int "64 word"
  | Op_Free int int
  | Op_Realloc int int "64 word" "64 word"
  | Op_Push int
  | Op_Pop int
  | Op_Push_Freeze int
  | Op_Pop_Unfreeze int
  | Op_Delete int
  | Op_Write int int "8 word"

fun pool_exec :: "os_heap \<Rightarrow> pool_op \<Rightarrow> mem_state \<Rightarrow> mem_state res option" where
  "pool_exec os (Op_Initialize p bz) st = Some (MEM_POOL_Initialize_P os p bz st)"
| "pool_exec os (Op_Alloc p n) st = Some (bindE (MEM_POOL_Alloc_P os p n st) (\<lambda>(_, st). Inr st))"
| "pool_exec os (Op_Free p a) st = Some (MEM_POOL_FREE p a st)"
| "pool_exec os (Op_Realloc p a m n) st = Some (bindE (MEM_POOL_Realloc_P os p a m n st) (\<lambda>(_, st). Inr st))"
| "pool_exec os (Op_Push p) st = Some (MEM_POOL_Push_P os p st)"
| "pool_exec os (Op_Pop p) st = Some (MEM_POOL_Pop_P p st)"
| "pool_exec os (Op_Push_Freeze p) st = Some (MEM_POOL_Push_Freeze_P os p st)"
| "pool_exec os (Op_Pop_Unfreeze p) st = Some (MEM_POOL_Pop_Unfreeze_P p st)"
| "pool_exec os (Op_Delete p) st = MEM_POOL_Delete p st"
| "pool_exec os (Op_Write p x v) st = Some (Inr (st\<lparr>bytes := (bytes st)(x := v)\<rparr>))"

text \<open>
  What a client may call: on pools of its own that are in use, with sizes below two gigabytes, for objects of the pool, and writes to
  bytes it has been given. A pointer passed to \<^verbatim>\<open>MEM_POOL_FREE\<close> that is not a large block must not look like one. Shrinking a large
  block of a zeroing pool is left out (see \<open>shrink_runs_wild\<close>).
\<close>

definition client_pool :: "int \<Rightarrow> bool" where
  "client_pool p \<longleftrightarrow> p \<noteq> Default_Mem_Pool \<and> p \<noteq> Malloc_Mem_Pool \<and> p \<noteq> mem_overhead_pool"

definition in_use :: "mem_state \<Rightarrow> int \<Rightarrow> bool" where
  "in_use st p \<longleftrightarrow> client_pool p \<and> pool_magic (mem_pools st p) = MAGIC_NUM"

definition size_ok :: "64 word \<Rightarrow> bool" where
  "size_ok n \<longleftrightarrow> uint n < 2147483608"

fun allowed :: "mem_state \<Rightarrow> pool_op \<Rightarrow> bool" where
  "allowed st (Op_Initialize p bz) \<longleftrightarrow> client_pool p \<and> pool_magic (mem_pools st p) \<noteq> MAGIC_NUM"
| "allowed st (Op_Alloc p n) \<longleftrightarrow> in_use st p \<and> size_ok n"
| "allowed st (Op_Free p a) \<longleftrightarrow> in_use st p \<and> (a = 0 \<or> a - MEM_LARGE_BLOCK_OVERHEAD \<in> set (all_large (levels_of st p)) \<or>
     lb_ptr (large_header st (a - MEM_LARGE_BLOCK_OVERHEAD)) \<noteq> a \<or> lb_base (large_header st (a - MEM_LARGE_BLOCK_OVERHEAD)) \<noteq> pool_blocks (mem_pools st p))"
| "allowed st (Op_Realloc p a m n) \<longleftrightarrow> in_use st p \<and> size_ok m \<and> size_ok n \<and> object st (levels_of st p) a (uint (PAD_TO_ALIGN m)) \<and>
     \<not> (pool_bz (mem_pools st p) \<and> MIN_LARGE_BLOCK_SIZE < uint (PAD_TO_ALIGN n) \<and> uint (PAD_TO_ALIGN n) < uint (PAD_TO_ALIGN m))"
| "allowed st (Op_Push p) \<longleftrightarrow> in_use st p \<and> \<not> pool_frozen (mem_pools st p)"
| "allowed st (Op_Pop p) \<longleftrightarrow> in_use st p \<and> \<not> pool_frozen (mem_pools st p)"
| "allowed st (Op_Push_Freeze p) \<longleftrightarrow> in_use st p \<and> \<not> pool_frozen (mem_pools st p)"
| "allowed st (Op_Pop_Unfreeze p) \<longleftrightarrow> in_use st p \<and> pool_frozen (mem_pools st p)"
| "allowed st (Op_Delete p) \<longleftrightarrow> in_use st p \<and> \<not> pool_frozen (mem_pools st p)"
| "allowed st (Op_Write p x v) \<longleftrightarrow> client_pool p \<and> (\<exists>X \<in> set (pool_stack st p). x \<in> X)"

inductive pool_step :: "os_heap \<Rightarrow> mem_state \<Rightarrow> mem_state \<Rightarrow> bool" for os where
  call: "allowed st op \<Longrightarrow> pool_exec os op st = Some (Inr st') \<Longrightarrow> pool_step os st st'"

section \<open>Every call keeps the invariant\<close>

text \<open>Changes of the pools themselves that keep the account of which of them are in use.\<close>

lemma good_same: "good st L F \<Longrightarrow> pools_inv st' L' F' \<Longrightarrow> mem_pools st' = mem_pools st \<Longrightarrow> (\<And>q. L' q = [] \<longleftrightarrow> L q = []) \<Longrightarrow> good st' L' F'"
  by (simp add: good_def)

lemma alloc_good:
  assumes "good st L F" and "alloc_ok st L F p n a st' L'" and "L p \<noteq> []"
  shows "good st' L' F"
proof -
  obtain l' where "L' = L(p := l' # tl (L p))" using assms(2) unfolding alloc_ok_def by blast
  then show ?thesis using assms by (intro good_same [OF assms(1)]) (auto simp: alloc_ok_def)
qed

lemma realloc_good:
  assumes "good st L F" and R: "realloc_ok st L F p a m n b st' L'"
  shows "good st' L' F"
proof (rule good_same [OF assms(1)])
  show "L' q = [] \<longleftrightarrow> L q = []" for q
  proof (cases "q = p")
    case True
    have "map lv_addr (L' p) = map lv_addr (L p)" using R unfolding realloc_ok_def by blast
    then show ?thesis using True by (metis Nil_is_map_conv)
  next
    case False
    then show ?thesis using R unfolding realloc_ok_def by simp
  qed
qed (use R in \<open>simp_all add: realloc_ok_def\<close>)

lemma overhead_in_use: "pools_inv st L F \<Longrightarrow> L mem_overhead_pool \<noteq> []"
  by (auto simp: pools_inv_def overhead_ok_def)

lemma pop_good:
  assumes "good st L F" and K: "pop_ok st L p st' L' F'" and "L p \<noteq> []"
  shows "good st' L' F'"
  unfolding good_def
proof (intro conjI allI)
  show "pools_inv st' L' F'" using K unfolding pop_ok_def by blast
  show "L' q \<noteq> [] \<longleftrightarrow> pool_magic (mem_pools st' q) = MAGIC_NUM" for q
  proof (cases "q = p")
    case True
    have "L' p \<noteq> []" using K unfolding pop_ok_def by (auto split: if_splits)
    then show ?thesis using True K unfolding pop_ok_def by blast
  next
    case False
    then have "L' q = L q" "mem_pools st' q = mem_pools st q" using K unfolding pop_ok_def by blast+
    then show ?thesis using goodD(2) [OF assms(1), of q] by simp
  qed
qed

lemma frozen_good: "good st L F \<Longrightarrow> good (set_pool p ((mem_pools st p)\<lparr>pool_frozen := b\<rparr>) st) L F"
  using inv_set_pool(1) [of st L F p "(mem_pools st p)\<lparr>pool_frozen := b\<rparr>" b] by (auto simp: good_def set_pool_def)

lemma write_good:
  assumes g: "good st L F" and "X \<in> set (live st (L p))" and "x \<in> X"
  shows "good (st\<lparr>bytes := (bytes st)(x := v)\<rparr>) L F"
proof -
  have "pools_inv (st\<lparr>bytes := (bytes st)(x := v)\<rparr>) L F" by (rule inv_write(1) [OF goodD(1) [OF g]]) (use assms(2,3) in auto)
  then show ?thesis using g by (simp add: good_def)
qed

lemma in_useD:
  assumes "good st L F" and "in_use st p"
  shows "L p \<noteq> []" and "p \<noteq> Default_Mem_Pool" and "p \<noteq> Malloc_Mem_Pool" and "p \<noteq> mem_overhead_pool" and "pool_magic (mem_pools st p) = MAGIC_NUM"
  using goodD(2) [OF assms(1), of p] assms(2) by (auto simp: in_use_def client_pool_def)

text \<open>A call that keeps the invariant or finds no memory.\<close>

abbreviation step_safe :: "mem_state res option \<Rightarrow> bool" where
  "step_safe r \<equiv> r = Some (Inl No_Memory) \<or> (\<exists>st' L' F'. r = Some (Inr st') \<and> good st' L' F')"

context c_library
begin

lemma push_good:
  assumes g: "good st L F" and p: "in_use st p" and fz: "\<not> pool_frozen (mem_pools st p)"
  obtains (no_memory) "MEM_POOL_Push_P os p st = Inl No_Memory"
  | (pushed) st' L' F' where "MEM_POOL_Push_P os p st = Inr st'" "good st' L' F'" "live st' (L' p) = {} # live st (L p)"
      "\<forall>q. q \<noteq> p \<longrightarrow> q \<noteq> mem_overhead_pool \<longrightarrow> L' q = L q \<and> live st' (L' q) = live st (L q)" "kept st st'" "set (sys st) \<subseteq> set (sys st')"
      "\<exists>pb. mem_pools st' = (mem_pools st)(p := (mem_pools st p)\<lparr>pool_blocks := pb\<rparr>)"
proof -
  note finish = that and U = in_useD [OF g p]
  have "L p = [] \<longrightarrow> pool_blocks (mem_pools st p) = 0" using U(1) by simp
  from goodD(1) [OF g] U(2-5) this fz show thesis
  proof (cases rule: push_level_ok)
    case no_memory
    then show ?thesis by (rule finish(1))
  next
    case (pushed st' L' F')
    obtain pb where pb: "mem_pools st' = (mem_pools st)(p := (mem_pools st p)\<lparr>pool_blocks := pb\<rparr>)" using pushed(10) by blast
    have "L' q \<noteq> [] \<longleftrightarrow> pool_magic (mem_pools st' q) = MAGIC_NUM" for q
    proof -
      consider "q = p" | "q = mem_overhead_pool" "q \<noteq> p" | "q \<noteq> p" "q \<noteq> mem_overhead_pool" by blast
      then show ?thesis
      proof cases
        case 1
        then show ?thesis using pushed(5) U(5) pb by simp
      next
        case 2
        then show ?thesis using overhead_in_use [OF pushed(2)] overhead_in_use [OF goodD(1) [OF g]] goodD(2) [OF g, of q] pb by simp
      next
        case 3
        then have "L' q = L q" using pushed(4) by blast
        then show ?thesis using goodD(2) [OF g, of q] pb 3(1) by simp
      qed
    qed
    then have "good st' L' F'" using pushed(2) by (simp add: good_def)
    then show ?thesis using finish(2) [OF pushed(1) _ pushed(3,4,8,9,10)] by blast
  qed
qed

lemma init_good:
  assumes g: "good st L F" and p: "p \<noteq> Default_Mem_Pool" "p \<noteq> Malloc_Mem_Pool" "p \<noteq> mem_overhead_pool" "L p = []" "pool_magic (mem_pools st p) \<noteq> MAGIC_NUM"
  obtains (no_memory) "MEM_POOL_Initialize_P os p bz st = Inl No_Memory"
  | (initialized) st' L' F' where "MEM_POOL_Initialize_P os p bz st = Inr st'" "good st' L' F'" "live st' (L' p) = [{}]"
      "\<forall>q. q \<noteq> p \<longrightarrow> q \<noteq> mem_overhead_pool \<longrightarrow> live st' (L' q) = live st (L q)"
      "\<exists>pb. mem_pools st' = (mem_pools st)(p := \<lparr>pool_blocks = pb, pool_bz = bz, pool_frozen = False, pool_magic = MAGIC_NUM\<rparr>)"
proof -
  note finish = that and inv = goodD(1) [OF g]
  from inv p show thesis
  proof (cases rule: Initialize_ok [where bz = bz])
    case (initialized st' L' F')
    obtain pb where pb: "mem_pools st' = (mem_pools st)(p := \<lparr>pool_blocks = pb, pool_bz = bz, pool_frozen = False, pool_magic = MAGIC_NUM\<rparr>)" using initialized(8) by blast
    have "L' q \<noteq> [] \<longleftrightarrow> pool_magic (mem_pools st' q) = MAGIC_NUM" for q
    proof (cases "q = p")
      case True
      then show ?thesis using initialized(4) pb by auto
    next
      case False
      then show ?thesis using initialized(5) overhead_in_use [OF initialized(2)] overhead_in_use [OF inv] goodD(2) [OF g, of q] pb by (cases "q = mem_overhead_pool") auto
    qed
    then have gd: "good st' L' F'" using initialized(2) by (auto simp: good_def)
    have same: "\<forall>q. q \<noteq> p \<longrightarrow> q \<noteq> mem_overhead_pool \<longrightarrow> live st' (L' q) = live st (L q)" using initialized(5) by blast
    show ?thesis by (rule finish(2) [OF initialized(1) gd initialized(3) same initialized(8)])
  qed (rule finish(1))
qed

lemma step_init:
  assumes g: "good st L F" and al: "allowed st (Op_Initialize p bz)"
  shows "step_safe (pool_exec os (Op_Initialize p bz) st)"
proof -
  have p: "p \<noteq> Default_Mem_Pool" "p \<noteq> Malloc_Mem_Pool" "p \<noteq> mem_overhead_pool" "L p = []" "pool_magic (mem_pools st p) \<noteq> MAGIC_NUM"
    using al goodD(2) [OF g, of p] by (auto simp: client_pool_def)
  from g p show ?thesis by (cases rule: init_good [where bz = bz]) auto
qed

lemma step_alloc:
  assumes g: "good st L F" and al: "allowed st (Op_Alloc p n)"
  shows "step_safe (pool_exec os (Op_Alloc p n) st)"
proof -
  note inv = goodD(1) [OF g]
  have "in_use st p" "uint n < 2147483608" using al by (auto simp: size_ok_def)
  then show ?thesis using Alloc_P_ok [OF inv in_useD(1) [OF g]] alloc_good [OF g _ in_useD(1) [OF g]] by (metis (no_types, lifting) bindE_Inl bindE_Inr case_prod_conv pool_exec.simps(2))
qed

lemma step_free:
  assumes g: "good st L F" and al: "allowed st (Op_Free p a)"
  shows "step_safe (pool_exec os (Op_Free p a) st)"
proof -
  note inv = goodD(1) [OF g] and lv = levels_of_good [OF g]
  have use: "in_use st p" using al by simp
  note U = in_useD [OF g use] and P = pools_inv_pool [OF inv in_useD(1) [OF g use]]
  obtain l ls where L: "L p = l # ls" using U(1) by (cases "L p") auto
  consider "a - MEM_LARGE_BLOCK_OVERHEAD \<in> set (lv_large l)" | "a - MEM_LARGE_BLOCK_OVERHEAD \<in> set (all_large ls)"
    | "a = 0 \<or> lb_ptr (large_header st (a - MEM_LARGE_BLOCK_OVERHEAD)) \<noteq> a \<or> lb_base (large_header st (a - MEM_LARGE_BLOCK_OVERHEAD)) \<noteq> pool_blocks (mem_pools st p)"
    using al L lv by auto
  then show ?thesis
  proof cases
    case 1
    then obtain xs ys where c: "lv_large l = xs @ (a - MEM_LARGE_BLOCK_OVERHEAD) # ys" by (meson split_list)
    obtain n where "(a - MEM_LARGE_BLOCK_OVERHEAD, n) \<in> set (sys st)" using pool_okD(6) [OF pools_invD(1) [OF inv] U(1)] 1 L by auto
    then have n: "map_of (sys st) (a - MEM_LARGE_BLOCK_OVERHEAD) = Some n" using sys_okD(1) [OF pools_invD(3) [OF inv]] by simp
    obtain st' L' where f: "MEM_POOL_FREE p a st = Inr st'" "L' = L(p := l\<lparr>lv_large := xs @ ys\<rparr> # ls)" "pools_inv st' L' F" "mem_pools st' = mem_pools st"
      using free_large [OF inv L c n] by (metis diff_add_cancel)
    have "good st' L' F" by (rule good_same [OF g f(3,4)]) (use f(2) L in auto)
    then show ?thesis using f(1) by auto
  next
    case 2
    then show ?thesis using free_below [OF inv L 2] g by auto
  next
    case 3
    then have "MEM_POOL_FREE p a st = Inr st" using P(6,7,10,11) by (auto simp: MEM_POOL_FREE_def Let_def)
    then show ?thesis using g by auto
  qed
qed

lemma step_realloc:
  assumes g: "good st L F" and al: "allowed st (Op_Realloc p a m n)"
  shows "step_safe (pool_exec os (Op_Realloc p a m n) st)"
proof -
  note inv = goodD(1) [OF g] and lv = levels_of_good [OF g]
  have use: "in_use st p" "uint m < 2147483608" "uint n < 2147483608" "object st (L p) a (uint (PAD_TO_ALIGN m))"
      "\<not> (pool_bz (mem_pools st p) \<and> MIN_LARGE_BLOCK_SIZE < uint (PAD_TO_ALIGN n) \<and> uint (PAD_TO_ALIGN n) < uint (PAD_TO_ALIGN m))"
    using al lv by (auto simp: size_ok_def)
  from inv in_useD(1) [OF g use(1)] use(2,3) refl refl use(4) show ?thesis
  proof (cases rule: Realloc_P_ok)
    case (moved b st' L')
    then have "good st' L' F" using realloc_good [OF g] by blast
    then show ?thesis using moved(1) by auto
  qed (use use(5) in auto)
qed

lemma step_push:
  assumes g: "good st L F" and al: "allowed st (Op_Push p)"
  shows "step_safe (pool_exec os (Op_Push p) st)"
proof -
  have use: "in_use st p" "\<not> pool_frozen (mem_pools st p)" using al by auto
  from g use show ?thesis by (cases rule: push_good) auto
qed

lemma step_pop:
  assumes g: "good st L F" and al: "allowed st (Op_Pop p)"
  shows "step_safe (pool_exec os (Op_Pop p) st)"
proof -
  note inv = goodD(1) [OF g]
  have use: "in_use st p" "\<not> pool_frozen (mem_pools st p)" using al by auto
  obtain l ls where L: "L p = l # ls" using in_useD(1) [OF g use(1)] by (cases "L p") auto
  from Pop_P_ok [OF inv L in_useD(4) [OF g use(1)] use(2)] show ?thesis using pop_good [OF g _ in_useD(1) [OF g use(1)]] by (metis pool_exec.simps(6))
qed

lemma step_push_freeze:
  assumes g: "good st L F" and al: "allowed st (Op_Push_Freeze p)"
  shows "step_safe (pool_exec os (Op_Push_Freeze p) st)"
proof -
  have use: "in_use st p" "\<not> pool_frozen (mem_pools st p)" using al by auto
  then have "MEM_POOL_Push_Freeze_P os p st = bindE (MEM_POOL_Push_P os p st) (\<lambda>st. Inr (set_pool p ((mem_pools st p)\<lparr>pool_frozen := True\<rparr>) st))"
    using in_useD [OF g use(1)] by (simp add: MEM_POOL_Push_Freeze_P_def pool_of_def)
  with g use show ?thesis by (cases rule: push_good) (auto intro: frozen_good)
qed

lemma step_pop_unfreeze:
  assumes g: "good st L F" and al: "allowed st (Op_Pop_Unfreeze p)"
  shows "step_safe (pool_exec os (Op_Pop_Unfreeze p) st)"
proof -
  have use: "in_use st p" "pool_frozen (mem_pools st p)" using al by auto
  define st1 where "st1 = set_pool p ((mem_pools st p)\<lparr>pool_frozen := False\<rparr>) st"
  have g1: "good st1 L F" unfolding st1_def by (rule frozen_good [OF g])
  have run: "MEM_POOL_Pop_Unfreeze_P p st = MEM_POOL_Pop_P p st1" using in_useD [OF g use(1)] use(2) by (simp add: MEM_POOL_Pop_Unfreeze_P_def pool_of_def st1_def)
  have "\<not> pool_frozen (mem_pools st1 p)" by (simp add: st1_def set_pool_def)
  moreover obtain l ls where L: "L p = l # ls" using in_useD(1) [OF g use(1)] by (cases "L p") auto
  ultimately show ?thesis using Pop_P_ok [OF goodD(1) [OF g1] L in_useD(4) [OF g use(1)]] pop_good [OF g1 _ in_useD(1) [OF g use(1)]] run
    by (metis pool_exec.simps(8))
qed

lemma step_delete:
  assumes g: "good st L F" and al: "allowed st (Op_Delete p)"
  shows "step_safe (pool_exec os (Op_Delete p) st)"
proof -
  note inv = goodD(1) [OF g]
  have use: "in_use st p" "\<not> pool_frozen (mem_pools st p)" using al by auto
  obtain st' F' where d: "MEM_POOL_Delete p st = Some (Inr st')" "pools_inv st' (L(p := [])) F'"
      "mem_pools st' = (mem_pools st)(p := \<lparr>pool_blocks = 0, pool_bz = False, pool_frozen = False, pool_magic = 0\<rparr>)"
    using Delete_ok [OF inv in_useD(1,4) [OF g use(1)] use(2)] by blast
  have "good st' (L(p := [])) F'" using d(2,3) goodD(2) [OF g] by (simp add: good_def MAGIC_NUM_def)
  then show ?thesis using d(1) by auto
qed

lemma step_write:
  assumes g: "good st L F" and al: "allowed st (Op_Write p x v)"
  shows "step_safe (pool_exec os (Op_Write p x v) st)"
proof -
  note lv = levels_of_good [OF g]
  obtain X where "X \<in> set (live st (L p))" "x \<in> X" using al lv by (auto simp: pool_stack_def)
  then have "good (st\<lparr>bytes := (bytes st)(x := v)\<rparr>) L F" by (rule write_good [OF g])
  then show ?thesis by auto
qed

lemma step_ok:
  assumes "good st L F" and "allowed st op"
  shows "pool_exec os op st = Some (Inl No_Memory) \<or> (\<exists>st' L' F'. pool_exec os op st = Some (Inr st') \<and> good st' L' F')"
proof (cases op)
  case Op_Initialize
  show ?thesis unfolding Op_Initialize by (rule step_init [OF assms(1) assms(2) [unfolded Op_Initialize]])
next
  case Op_Alloc
  show ?thesis unfolding Op_Alloc by (rule step_alloc [OF assms(1) assms(2) [unfolded Op_Alloc]])
next
  case Op_Free
  show ?thesis unfolding Op_Free by (rule step_free [OF assms(1) assms(2) [unfolded Op_Free]])
next
  case Op_Realloc
  show ?thesis unfolding Op_Realloc by (rule step_realloc [OF assms(1) assms(2) [unfolded Op_Realloc]])
next
  case Op_Push
  show ?thesis unfolding Op_Push by (rule step_push [OF assms(1) assms(2) [unfolded Op_Push]])
next
  case Op_Pop
  show ?thesis unfolding Op_Pop by (rule step_pop [OF assms(1) assms(2) [unfolded Op_Pop]])
next
  case Op_Push_Freeze
  show ?thesis unfolding Op_Push_Freeze by (rule step_push_freeze [OF assms(1) assms(2) [unfolded Op_Push_Freeze]])
next
  case Op_Pop_Unfreeze
  show ?thesis unfolding Op_Pop_Unfreeze by (rule step_pop_unfreeze [OF assms(1) assms(2) [unfolded Op_Pop_Unfreeze]])
next
  case Op_Delete
  show ?thesis unfolding Op_Delete by (rule step_delete [OF assms(1) assms(2) [unfolded Op_Delete]])
next
  case Op_Write
  show ?thesis unfolding Op_Write by (rule step_write [OF assms(1) assms(2) [unfolded Op_Write]])
qed

end

text \<open>The invariant of the machine.\<close>

lemma MEM_start_good: "pools_ok MEM_start"
proof -
  have "good MEM_start (\<lambda>p. if p = mem_overhead_pool then [\<lparr>lv_addr = overhead_blocks, lv_blocks = [], lv_large = []\<rparr>] else []) []"
    unfolding good_def using MEM_start_ok by (auto simp: MEM_start_def MAGIC_NUM_def)
  then show ?thesis using pools_okI by blast
qed

sublocale c_library \<subseteq> pools: step_invariant "pool_step os" "\<lambda>st. st = MEM_start" pools_ok
proof
  show "pools_ok st" if "st = MEM_start" for st using that MEM_start_good by simp
  show "pools_ok st'" if ok: "pools_ok st" and step: "pool_step os st st'" for st st'
  proof -
    obtain F where g: "good st (levels_of st) F" using ok by (rule pools_okE)
    obtain op where op: "allowed st op" "pool_exec os op st = Some (Inr st')" using step by (auto elim: pool_step.cases)
    from step_ok [OF g op(1)] op(2) show ?thesis using pools_okI by auto
  qed
qed

context c_library
begin

lemma pools_reachable: "(pool_step os)\<^sup>*\<^sup>* MEM_start st \<Longrightarrow> pools_ok st"
  by (rule pools.inv_reachable) simp

text \<open>Initialising several pools, and pushing them.\<close>

lemma initialize_each:
  assumes "pools_ok st" and "distinct ps" and "\<forall>p \<in> set ps. allowed st (Op_Initialize p bz)"
  shows "each (\<lambda>p. MEM_POOL_Initialize_P os p bz) ps st = Inl No_Memory \<or>
    (\<exists>st'. each (\<lambda>p. MEM_POOL_Initialize_P os p bz) ps st = Inr st' \<and> (pool_step os)\<^sup>*\<^sup>* st st' \<and>
      (\<forall>p \<in> set ps. in_use st' p \<and> \<not> pool_frozen (mem_pools st' p) \<and> pool_bz (mem_pools st' p) = bz \<and> pool_stack st' p = [{}]) \<and>
      (\<forall>q. q \<notin> set ps \<longrightarrow> mem_pools st' q = mem_pools st q \<and> (q \<noteq> mem_overhead_pool \<longrightarrow> pool_stack st' q = pool_stack st q)))"
  using assms
proof (induction ps arbitrary: st)
  case (Cons p ps)
  obtain F where g: "good st (levels_of st) F" using Cons.prems(1) by (rule pools_okE)
  have al: "allowed st (Op_Initialize p bz)" using Cons.prems(3) by simp
  then have p: "p \<noteq> Default_Mem_Pool" "p \<noteq> Malloc_Mem_Pool" "p \<noteq> mem_overhead_pool" "levels_of st p = []" "pool_magic (mem_pools st p) \<noteq> MAGIC_NUM"
    using goodD(2) [OF g, of p] by (auto simp: client_pool_def)
  from g p show ?case
  proof (cases rule: init_good [where bz = bz])
    case (initialized st1 L1 F1)
    have lv: "pools_ok st1" "levels_of st1 = L1" using pools_okI [OF initialized(2)] by simp_all
    obtain pb where pb: "mem_pools st1 = (mem_pools st)(p := \<lparr>pool_blocks = pb, pool_bz = bz, pool_frozen = False, pool_magic = MAGIC_NUM\<rparr>)" using initialized(5) by blast
    have step: "pool_step os st st1" using al initialized(1) by (intro pool_step.call [of _ "Op_Initialize p bz"]) simp_all
    have "\<forall>q \<in> set ps. allowed st1 (Op_Initialize q bz)" using Cons.prems(2,3) pb by auto
    with Cons.prems(2) have IH: "each (\<lambda>p. MEM_POOL_Initialize_P os p bz) ps st1 = Inl No_Memory \<or>
      (\<exists>st'. each (\<lambda>p. MEM_POOL_Initialize_P os p bz) ps st1 = Inr st' \<and> (pool_step os)\<^sup>*\<^sup>* st1 st' \<and>
        (\<forall>p \<in> set ps. in_use st' p \<and> \<not> pool_frozen (mem_pools st' p) \<and> pool_bz (mem_pools st' p) = bz \<and> pool_stack st' p = [{}]) \<and>
        (\<forall>q. q \<notin> set ps \<longrightarrow> mem_pools st' q = mem_pools st1 q \<and> (q \<noteq> mem_overhead_pool \<longrightarrow> pool_stack st' q = pool_stack st1 q)))"
      by (intro Cons.IH [OF lv(1)]) simp_all
    have stack: "pool_stack st1 p = [{}]" "\<forall>q. q \<noteq> p \<longrightarrow> q \<noteq> mem_overhead_pool \<longrightarrow> pool_stack st1 q = pool_stack st q"
      using initialized(3,4) lv(2) by (simp_all add: pool_stack_def)
    have use: "in_use st1 p" using p pb by (simp add: in_use_def client_pool_def)
    from IH show ?thesis
    proof (elim disjE exE conjE)
      fix st' assume s: "each (\<lambda>p. MEM_POOL_Initialize_P os p bz) ps st1 = Inr st'" "(pool_step os)\<^sup>*\<^sup>* st1 st'"
        "\<forall>p \<in> set ps. in_use st' p \<and> \<not> pool_frozen (mem_pools st' p) \<and> pool_bz (mem_pools st' p) = bz \<and> pool_stack st' p = [{}]"
        "\<forall>q. q \<notin> set ps \<longrightarrow> mem_pools st' q = mem_pools st1 q \<and> (q \<noteq> mem_overhead_pool \<longrightarrow> pool_stack st' q = pool_stack st1 q)"
      have "mem_pools st' p = mem_pools st1 p" "pool_stack st' p = pool_stack st1 p" using s(4) Cons.prems(2) p(3) by auto
      then have "in_use st' p \<and> \<not> pool_frozen (mem_pools st' p) \<and> pool_bz (mem_pools st' p) = bz \<and> pool_stack st' p = [{}]"
        using use stack(1) pb by (simp add: in_use_def)
      moreover have "mem_pools st' q = mem_pools st q \<and> (q \<noteq> mem_overhead_pool \<longrightarrow> pool_stack st' q = pool_stack st q)" if "q \<notin> set (p # ps)" for q
        using that s(4) stack(2) pb by simp
      moreover have "each (\<lambda>p. MEM_POOL_Initialize_P os p bz) (p # ps) st = Inr st'" using initialized(1) s(1) by simp
      moreover have "(pool_step os)\<^sup>*\<^sup>* st st'" by (rule converse_rtranclp_into_rtranclp [OF step s(2)])
      ultimately show ?thesis using s(3) by (intro disjI2 exI [of _ st'] conjI) simp_all
    qed (simp add: initialized(1))
  qed simp
qed simp

lemma push_each:
  assumes "pools_ok st" and "distinct ps" and "\<forall>p \<in> set ps. allowed st (Op_Push p)"
  shows "each (MEM_POOL_Push_P os) ps st = Inl No_Memory \<or>
    (\<exists>st'. each (MEM_POOL_Push_P os) ps st = Inr st' \<and> (pool_step os)\<^sup>*\<^sup>* st st' \<and>
      (\<forall>p \<in> set ps. in_use st' p \<and> pool_bz (mem_pools st' p) = pool_bz (mem_pools st p) \<and> pool_stack st' p = {} # pool_stack st p) \<and>
      (\<forall>q. q \<notin> set ps \<longrightarrow> mem_pools st' q = mem_pools st q \<and> (q \<noteq> mem_overhead_pool \<longrightarrow> pool_stack st' q = pool_stack st q)))"
  using assms
proof (induction ps arbitrary: st)
  case (Cons p ps)
  obtain F where g: "good st (levels_of st) F" using Cons.prems(1) by (rule pools_okE)
  have al: "allowed st (Op_Push p)" using Cons.prems(3) by simp
  then have p: "in_use st p" "\<not> pool_frozen (mem_pools st p)" by simp_all
  from g p show ?case
  proof (cases rule: push_good)
    case (pushed st1 L1 F1)
    have lv: "pools_ok st1" "levels_of st1 = L1" using pools_okI [OF pushed(2)] by simp_all
    obtain pb where pb: "mem_pools st1 = (mem_pools st)(p := (mem_pools st p)\<lparr>pool_blocks := pb\<rparr>)" using pushed(7) by blast
    have step: "pool_step os st st1" using al pushed(1) by (intro pool_step.call [of _ "Op_Push p"]) simp_all
    have "\<forall>q \<in> set ps. allowed st1 (Op_Push q)" using Cons.prems(2,3) pb by (auto simp: in_use_def)
    with Cons.prems(2) have IH: "each (MEM_POOL_Push_P os) ps st1 = Inl No_Memory \<or>
      (\<exists>st'. each (MEM_POOL_Push_P os) ps st1 = Inr st' \<and> (pool_step os)\<^sup>*\<^sup>* st1 st' \<and>
        (\<forall>p \<in> set ps. in_use st' p \<and> pool_bz (mem_pools st' p) = pool_bz (mem_pools st1 p) \<and> pool_stack st' p = {} # pool_stack st1 p) \<and>
        (\<forall>q. q \<notin> set ps \<longrightarrow> mem_pools st' q = mem_pools st1 q \<and> (q \<noteq> mem_overhead_pool \<longrightarrow> pool_stack st' q = pool_stack st1 q)))"
      by (intro Cons.IH [OF lv(1)]) simp_all
    have "\<forall>q. q \<noteq> p \<longrightarrow> q \<noteq> mem_overhead_pool \<longrightarrow> live st1 (L1 q) = live st (levels_of st q)" using pushed(4) by blast
    then have stack: "pool_stack st1 p = {} # pool_stack st p" "\<forall>q. q \<noteq> p \<longrightarrow> q \<noteq> mem_overhead_pool \<longrightarrow> pool_stack st1 q = pool_stack st q"
      using pushed(3) lv(2) by (simp_all add: pool_stack_def)
    have use: "in_use st1 p" "pool_bz (mem_pools st1 p) = pool_bz (mem_pools st p)" using p pb by (simp_all add: in_use_def)
    from IH show ?thesis
    proof (elim disjE exE conjE)
      fix st' assume s: "each (MEM_POOL_Push_P os) ps st1 = Inr st'" "(pool_step os)\<^sup>*\<^sup>* st1 st'"
        "\<forall>p \<in> set ps. in_use st' p \<and> pool_bz (mem_pools st' p) = pool_bz (mem_pools st1 p) \<and> pool_stack st' p = {} # pool_stack st1 p"
        "\<forall>q. q \<notin> set ps \<longrightarrow> mem_pools st' q = mem_pools st1 q \<and> (q \<noteq> mem_overhead_pool \<longrightarrow> pool_stack st' q = pool_stack st1 q)"
      have "mem_pools st' p = mem_pools st1 p" "pool_stack st' p = pool_stack st1 p" using s(4) Cons.prems(2) in_useD(4) [OF g p(1)] by auto
      then have "in_use st' p \<and> pool_bz (mem_pools st' p) = pool_bz (mem_pools st p) \<and> pool_stack st' p = {} # pool_stack st p"
        using use stack(1) by (simp add: in_use_def)
      moreover have "pool_bz (mem_pools st1 q) = pool_bz (mem_pools st q) \<and> pool_stack st1 q = pool_stack st q" if "q \<in> set ps" for q
        using that stack(2) pb Cons.prems by (auto simp: in_use_def client_pool_def)
      moreover have "mem_pools st' q = mem_pools st q \<and> (q \<noteq> mem_overhead_pool \<longrightarrow> pool_stack st' q = pool_stack st q)" if "q \<notin> set (p # ps)" for q
        using that s(4) stack(2) pb by simp
      moreover have "each (MEM_POOL_Push_P os) (p # ps) st = Inr st'" using pushed(1) s(1) by simp
      moreover have "(pool_step os)\<^sup>*\<^sup>* st st'" by (rule converse_rtranclp_into_rtranclp [OF step s(2)])
      ultimately show ?thesis using s(3) by (intro disjI2 exI [of _ st'] conjI) simp_all
    qed (simp add: pushed(1))
  qed simp
qed simp

lemma initialize_push_each:
  assumes ok: "pools_ok st" and ps: "distinct ps" and new: "\<forall>p \<in> set ps. allowed st (Op_Initialize p bz)"
  obtains (no_memory) "bindE (each (\<lambda>p. MEM_POOL_Initialize_P os p bz) ps st) (each (MEM_POOL_Push_P os) ps) = Inl No_Memory"
  | (ready) st' where "bindE (each (\<lambda>p. MEM_POOL_Initialize_P os p bz) ps st) (each (MEM_POOL_Push_P os) ps) = Inr st'" "(pool_step os)\<^sup>*\<^sup>* st st'" "pools_ok st'"
      "\<forall>p \<in> set ps. in_use st' p \<and> pool_stack st' p = [{}, {}] \<and> pool_bz (mem_pools st' p) = bz"
      "\<forall>q. q \<notin> set ps \<longrightarrow> mem_pools st' q = mem_pools st q \<and> (q \<noteq> mem_overhead_pool \<longrightarrow> pool_stack st' q = pool_stack st q)"
proof -
  note finish = that
  have keeps: "pools_ok s \<Longrightarrow> (pool_step os)\<^sup>*\<^sup>* s s' \<Longrightarrow> pools_ok s'" for s s'
    by (rotate_tac, induction rule: rtranclp_induct) (auto intro: pools.inv_step)
  let ?i = "each (\<lambda>p. MEM_POOL_Initialize_P os p bz) ps st"
  from initialize_each [OF ok ps new] show thesis
  proof (elim disjE exE conjE)
    fix st1 assume 1: "?i = Inr st1" "(pool_step os)\<^sup>*\<^sup>* st st1"
      "\<forall>p \<in> set ps. in_use st1 p \<and> \<not> pool_frozen (mem_pools st1 p) \<and> pool_bz (mem_pools st1 p) = bz \<and> pool_stack st1 p = [{}]"
      "\<forall>q. q \<notin> set ps \<longrightarrow> mem_pools st1 q = mem_pools st q \<and> (q \<noteq> mem_overhead_pool \<longrightarrow> pool_stack st1 q = pool_stack st q)"
    have ok1: "pools_ok st1" by (rule keeps [OF ok 1(2)])
    have "\<forall>p \<in> set ps. allowed st1 (Op_Push p)" using 1(3) by simp
    from push_each [OF ok1 ps this] show thesis
    proof (elim disjE exE conjE)
      fix st2 assume 2: "each (MEM_POOL_Push_P os) ps st1 = Inr st2" "(pool_step os)\<^sup>*\<^sup>* st1 st2"
        "\<forall>p \<in> set ps. in_use st2 p \<and> pool_bz (mem_pools st2 p) = pool_bz (mem_pools st1 p) \<and> pool_stack st2 p = {} # pool_stack st1 p"
        "\<forall>q. q \<notin> set ps \<longrightarrow> mem_pools st2 q = mem_pools st1 q \<and> (q \<noteq> mem_overhead_pool \<longrightarrow> pool_stack st2 q = pool_stack st1 q)"
      have "(pool_step os)\<^sup>*\<^sup>* st st2" using 1(2) 2(2) by (rule rtranclp_trans)
      then show thesis by (rule finish(2) [rotated]) (use 1 2 keeps [OF ok1 2(2)] in simp_all)
    qed (simp add: finish(1) 1(1))
  qed (simp add: finish(1))
qed

end

end
