(* ===== verification/Memory_Purify.thy ===== *)
theory Memory_Purify
  imports Memory_Pool_Machine
begin

text \<open>
  The purify option of the memory pools (\<^verbatim>\<open>memory.c\<close>, the parts under \<^verbatim>\<open>purify_pools\<close>): every object is an area of the C library of its own, with
  a link to the next object of its level in its first eight bytes, and every level is a small area with the first link. The checks at the start of the operations are
  those of \<^verbatim>\<open>Memory_Pool\<close>.
\<close>

section \<open>State\<close>

record mem_pure_stack =
  ps_last_alloc :: int
  ps_prev_stack :: int

text \<open>The links of the objects, the levels and the field \<^verbatim>\<open>pure_stack\<close> of the pools, beside the state of the package. The field \<^verbatim>\<open>blocks\<close> of a pool is a flag.\<close>

record pure_state =
  heap :: mem_state
  pure_next :: "int \<rightharpoonup> int"
  pure_stacks :: "int \<rightharpoonup> mem_pure_stack"
  pool_pure_stack :: "int \<Rightarrow> int"

definition purify_start :: pure_state where
  "purify_start = \<lparr>heap = MEM_start, pure_next = Map.empty, pure_stacks = Map.empty, pool_pure_stack = (\<lambda>_. 0)\<rparr>"

definition MEM_POOL_INIT_IN_PROGRESS :: int where
  "MEM_POOL_INIT_IN_PROGRESS = -1"

definition set_pure_pool :: "int \<Rightarrow> mem_pool \<Rightarrow> pure_state \<Rightarrow> pure_state" where
  "set_pure_pool p pool st = st\<lparr>heap := set_pool p pool (heap st)\<rparr>"

definition get_pure_stack :: "pure_state \<Rightarrow> int \<Rightarrow> mem_pure_stack res" where
  "get_pure_stack st s = (case pure_stacks st s of None \<Rightarrow> Inl Out_Of_Bounds | Some r \<Rightarrow> Inr r)"

text \<open>The C library, with \<^verbatim>\<open>NULL\<close> where it has no memory.\<close>

definition pure_malloc :: "os_heap \<Rightarrow> int \<Rightarrow> pure_state \<Rightarrow> int \<times> pure_state" where
  "pure_malloc os n st = (case c_malloc os n (heap st) of Inl _ \<Rightarrow> (0, st) | Inr (a, h) \<Rightarrow> (a, st\<lparr>heap := h\<rparr>))"

definition pure_realloc :: "os_heap \<Rightarrow> int \<Rightarrow> int \<Rightarrow> pure_state \<Rightarrow> (int \<times> pure_state) res" where
  "pure_realloc os a n st =
     (if a = 0 then Inr (pure_malloc os n st)
      else case c_realloc os a n (heap st) of
        Inl e \<Rightarrow> if e = No_Memory then Inr (0, st) else Inl e
      | Inr (b, h) \<Rightarrow> Inr (b, st\<lparr>heap := h, pure_next := (pure_next st)(a := None, b := pure_next st a)\<rparr>))"

definition pure_free :: "int \<Rightarrow> pure_state \<Rightarrow> pure_state res" where
  "pure_free a st =
     bindE (c_free a (heap st)) (\<lambda>h. Inr (st\<lparr>heap := h, pure_next := (pure_next st)(a := None), pure_stacks := (pure_stacks st)(a := None)\<rparr>))"

definition lift_heap :: "(mem_state \<Rightarrow> (int \<times> mem_state) res) \<Rightarrow> pure_state \<Rightarrow> (int \<times> pure_state) res" where
  "lift_heap f st = bindE (f (heap st)) (\<lambda>(a, h). Inr (a, st\<lparr>heap := h\<rparr>))"

definition pure_fill :: "int \<Rightarrow> int \<Rightarrow> 8 word \<Rightarrow> pure_state \<Rightarrow> pure_state res" where
  "pure_fill a n v st = bindE (fill a n v (heap st)) (\<lambda>h. Inr (st\<lparr>heap := h\<rparr>))"

definition pure_copy :: "int \<Rightarrow> int \<Rightarrow> int \<Rightarrow> pure_state \<Rightarrow> pure_state res" where
  "pure_copy src dst n st = bindE (bcopy src dst n (heap st)) (\<lambda>h. Inr (st\<lparr>heap := h\<rparr>))"

section \<open>Allocation\<close>

text \<open>An allocation without a push is only warned about.\<close>

definition mark_pushed :: "int \<Rightarrow> pure_state \<Rightarrow> pure_state" where
  "mark_pushed p st =
     (let pool = mem_pools (heap st) p in if pool_blocks pool = 0 then set_pure_pool p (pool\<lparr>pool_blocks := 1\<rparr>) st else st)"

text \<open>Putting an area in front of the list of the current level.\<close>

definition link_alloc :: "int \<Rightarrow> int \<Rightarrow> pure_state \<Rightarrow> pure_state res" where
  "link_alloc p a st =
     bindE (get_pure_stack st (pool_pure_stack st p)) (\<lambda>s.
     Inr (st\<lparr>pure_next := (pure_next st)(a \<mapsto> ps_last_alloc s),
       pure_stacks := (pure_stacks st)(pool_pure_stack st p \<mapsto> s\<lparr>ps_last_alloc := a\<rparr>)\<rparr>))"

definition pure_Alloc :: "os_heap \<Rightarrow> int \<Rightarrow> 64 word \<Rightarrow> pure_state \<Rightarrow> (int \<times> pure_state) res" where
  "pure_Alloc os p sz st =
     (let n = u64 (uint sz + 8); (ret_val, st) = pure_malloc os n (mark_pushed p st) in
      bindE (if ret_val = 0 then Inr st else pure_fill ret_val n 0 st) (\<lambda>st.
      bindE (Is_True (ret_val \<noteq> 0)) (\<lambda>_.
      bindE (Is_True (pool_pure_stack st p \<noteq> 0)) (\<lambda>_.
      bindE (link_alloc p ret_val st) (\<lambda>st. Inr (ret_val + 8, st))))))"

definition MEM_POOL_Alloc_pure :: "os_heap \<Rightarrow> int \<Rightarrow> 64 word \<Rightarrow> pure_state \<Rightarrow> (int \<times> pure_state) res" where
  "MEM_POOL_Alloc_pure os p sz st =
     (let p = resolve_pool (heap st) p in
      if p = Malloc_Mem_Pool then lift_heap (c_malloc os (uint sz)) st
      else
        bindE (pool_of (heap st) p) (\<lambda>pool.
        bindE (Is_True (pool_magic pool = MAGIC_NUM)) (\<lambda>_. pure_Alloc os p sz st)))"

section \<open>Searching and unlinking\<close>

text \<open>
  The two loops that look for an area in the lists of the levels. They are bounded by the number of areas of the C library, more than any list can have;
  \<open>Diverges\<close> would be a list that runs into itself.
\<close>

fun find_cell :: "nat \<Rightarrow> (int \<rightharpoonup> int) \<Rightarrow> int \<Rightarrow> int \<Rightarrow> int \<Rightarrow> (int \<times> int) res" where
  "find_cell k nxt cur prev tmp =
     (if tmp = 0 \<or> tmp = cur then Inr (prev, tmp)
      else case k of 0 \<Rightarrow> Inl Diverges
      | Suc k \<Rightarrow> (case nxt tmp of None \<Rightarrow> Inl Out_Of_Bounds | Some tmp' \<Rightarrow> find_cell k nxt cur tmp tmp'))"

declare find_cell.simps [simp del]

definition splice_out :: "int \<Rightarrow> int \<Rightarrow> int \<Rightarrow> pure_state \<Rightarrow> pure_state res" where
  "splice_out s prev tmp st =
     (case pure_next st tmp of
        None \<Rightarrow> Inl Out_Of_Bounds
      | Some nx \<Rightarrow>
          if prev \<noteq> 0 then Inr (st\<lparr>pure_next := (pure_next st)(prev \<mapsto> nx)\<rparr>)
          else bindE (get_pure_stack st s) (\<lambda>r. Inr (st\<lparr>pure_stacks := (pure_stacks st)(s \<mapsto> r\<lparr>ps_last_alloc := nx\<rparr>)\<rparr>)))"

fun find_and_splice :: "nat \<Rightarrow> nat \<Rightarrow> int \<Rightarrow> int \<Rightarrow> pure_state \<Rightarrow> (bool \<times> pure_state) res" where
  "find_and_splice k m cur s st =
     (if s = 0 then Inr (False, st)
      else case k of 0 \<Rightarrow> Inl Diverges
      | Suc k \<Rightarrow>
          bindE (get_pure_stack st s) (\<lambda>r.
          bindE (find_cell m (pure_next st) cur 0 (ps_last_alloc r)) (\<lambda>(prev, tmp).
          if tmp \<noteq> 0 then bindE (splice_out s prev tmp st) (\<lambda>st. Inr (True, st))
          else find_and_splice k m cur (ps_prev_stack r) st)))"

declare find_and_splice.simps [simp del]

definition find_alloc :: "int \<Rightarrow> int \<Rightarrow> pure_state \<Rightarrow> (bool \<times> pure_state) res" where
  "find_alloc p cur st =
     (let k = length (sys (heap st)) in
      bindE (Is_True (pool_pure_stack st p \<noteq> 0)) (\<lambda>_. find_and_splice k k cur (pool_pure_stack st p) st))"

section \<open>Reallocation and freeing\<close>

definition pure_Realloc :: "os_heap \<Rightarrow> int \<Rightarrow> int \<Rightarrow> 64 word \<Rightarrow> 64 word \<Rightarrow> pure_state \<Rightarrow> (int \<times> pure_state) res" where
  "pure_Realloc os p old_block old_size new_size st =
     (let n = u64 (uint new_size + 8) in
      bindE (if old_block \<noteq> 0 then find_alloc p (old_block - 8) (mark_pushed p st) else Inr (False, mark_pushed p st)) (\<lambda>(foundit, st).
      bindE (if old_block \<noteq> 0 \<and> \<not> foundit
             then let (ret_val, st) = pure_malloc os n st in
               bindE (pure_copy old_block (ret_val + 8) (uint old_size) st) (\<lambda>st. Inr (ret_val, st))
             else pure_realloc os (if old_block \<noteq> 0 then old_block - 8 else 0) n st) (\<lambda>(ret_val, st).
      if new_size > 0 then
        bindE (FmtAssert (ret_val \<noteq> 0)) (\<lambda>_.
        bindE (link_alloc p ret_val st) (\<lambda>st.
        bindE (if old_size < new_size then pure_fill (ret_val + 8 + uint old_size) (uint new_size - uint old_size) 0 st else Inr st) (\<lambda>st.
        Inr (ret_val + 8, st))))
      else Inr (ret_val, st))))"

definition MEM_POOL_Realloc_pure :: "os_heap \<Rightarrow> int \<Rightarrow> int \<Rightarrow> 64 word \<Rightarrow> 64 word \<Rightarrow> pure_state \<Rightarrow> (int \<times> pure_state) res" where
  "MEM_POOL_Realloc_pure os p old_block old_size new_size st =
     (let p = resolve_pool (heap st) p in
      if p = Malloc_Mem_Pool then
        lift_heap (if old_block = 0 then c_malloc os (uint new_size) else c_realloc os old_block (uint new_size)) st
      else
        bindE (pool_of (heap st) p) (\<lambda>pool.
        bindE (Is_True (pool_magic pool = MAGIC_NUM)) (\<lambda>_. pure_Realloc os p old_block old_size new_size st)))"

definition MEM_POOL_FREE_pure :: "int \<Rightarrow> int \<Rightarrow> pure_state \<Rightarrow> pure_state res" where
  "MEM_POOL_FREE_pure p data st =
     (if data = 0 then Inr st
      else let p = resolve_pool (heap st) p in
        if p = Malloc_Mem_Pool then bindE (c_free data (heap st)) (\<lambda>h. Inr (st\<lparr>heap := h\<rparr>))
        else
          bindE (pool_of (heap st) p) (\<lambda>pool.
          bindE (Is_True (pool_magic pool = MAGIC_NUM)) (\<lambda>_.
          bindE (find_alloc p (data - 8) st) (\<lambda>(foundit, st).
          bindE (if foundit then Inr st else bindE (pure_free (data - 8) st) (\<lambda>st. bindE (FmtAssert False) (\<lambda>_. Inr st)))
          (pure_free (data - 8))))))"

section \<open>Levels\<close>

definition pure_Push :: "os_heap \<Rightarrow> int \<Rightarrow> pure_state \<Rightarrow> pure_state res" where
  "pure_Push os p st =
     (let (tmp, st) = pure_malloc os 16 st in
      bindE (Is_True (tmp \<noteq> 0)) (\<lambda>_.
      Inr (set_pure_pool p ((mem_pools (heap st) p)\<lparr>pool_blocks := 1\<rparr>)
        (st\<lparr>pure_stacks := (pure_stacks st)(tmp \<mapsto> \<lparr>ps_last_alloc = 0, ps_prev_stack = pool_pure_stack st p\<rparr>),
          pool_pure_stack := (pool_pure_stack st)(p := tmp)\<rparr>))))"

definition MEM_POOL_Push_pure :: "os_heap \<Rightarrow> int \<Rightarrow> pure_state \<Rightarrow> pure_state res" where
  "MEM_POOL_Push_pure os p st =
     bindE (pool_of (heap st) p) (\<lambda>pool.
     bindE (Is_True (pool_magic pool = MAGIC_NUM)) (\<lambda>_.
     bindE (FmtAssert (\<not> pool_frozen pool)) (\<lambda>_. pure_Push os p st)))"

lemma pure_free_less: "pure_free a st = Inr st' \<Longrightarrow> length (sys (heap st')) < length (sys (heap st))"
  using c_free_less by (fastforce simp: pure_free_def bindE_eq_Inr_iff)

function pop_cells :: "int \<Rightarrow> pure_state \<Rightarrow> pure_state res" where
  "pop_cells tmp st =
     (if tmp = 0 then Inr st
      else case pure_next st tmp of None \<Rightarrow> Inl Out_Of_Bounds | Some nx \<Rightarrow> bindE (pure_free tmp st) (pop_cells nx))"
  by pat_completeness auto
termination
  by (relation "measure (\<lambda>(tmp, st). length (sys (heap st)))") (auto dest: pure_free_less)

declare pop_cells.simps [simp del]

definition pure_Pop :: "int \<Rightarrow> pure_state \<Rightarrow> pure_state res" where
  "pure_Pop p st =
     (let s = pool_pure_stack st p in
      bindE (Is_True (s \<noteq> 0)) (\<lambda>_.
      bindE (get_pure_stack st s) (\<lambda>r.
      bindE (pop_cells (ps_last_alloc r) st) (\<lambda>st.
      bindE (get_pure_stack st s) (\<lambda>r.
      bindE (pure_free s st) (\<lambda>st. Inr (st\<lparr>pool_pure_stack := (pool_pure_stack st)(p := ps_prev_stack r)\<rparr>)))))))"

definition MEM_POOL_Pop_pure :: "int \<Rightarrow> pure_state \<Rightarrow> pure_state res" where
  "MEM_POOL_Pop_pure p st =
     bindE (pool_of (heap st) p) (\<lambda>pool.
     bindE (Is_True (pool_magic pool = MAGIC_NUM)) (\<lambda>_.
     bindE (FmtAssert (\<not> pool_frozen pool)) (\<lambda>_. pure_Pop p st)))"

definition MEM_POOL_Push_Freeze_pure :: "os_heap \<Rightarrow> int \<Rightarrow> pure_state \<Rightarrow> pure_state res" where
  "MEM_POOL_Push_Freeze_pure os p st =
     bindE (pool_of (heap st) p) (\<lambda>pool.
     bindE (Is_True (pool_magic pool = MAGIC_NUM)) (\<lambda>_.
     bindE (FmtAssert (\<not> pool_frozen pool)) (\<lambda>_.
     bindE (MEM_POOL_Push_pure os p st) (\<lambda>st.
     Inr (set_pure_pool p ((mem_pools (heap st) p)\<lparr>pool_frozen := True\<rparr>) st)))))"

definition MEM_POOL_Pop_Unfreeze_pure :: "int \<Rightarrow> pure_state \<Rightarrow> pure_state res" where
  "MEM_POOL_Pop_Unfreeze_pure p st =
     bindE (pool_of (heap st) p) (\<lambda>pool.
     bindE (Is_True (pool_magic pool = MAGIC_NUM)) (\<lambda>_.
     bindE (FmtAssert (pool_frozen pool)) (\<lambda>_.
     MEM_POOL_Pop_pure p (set_pure_pool p (pool\<lparr>pool_frozen := False\<rparr>) st))))"

lemma pop_cells_le: "pop_cells tmp st = Inr st' \<Longrightarrow> length (sys (heap st')) \<le> length (sys (heap st))"
proof (induction tmp st rule: pop_cells.induct)
  case (1 tmp st)
  show ?case
  proof (cases "tmp = 0")
    case True
    then show ?thesis using "1.prems" by (simp add: pop_cells.simps)
  next
    case False
    then obtain nx st1 where *: "pure_next st tmp = Some nx" "pure_free tmp st = Inr st1" "pop_cells nx st1 = Inr st'"
      using "1.prems" by (auto simp: pop_cells.simps [of tmp] bindE_eq_Inr_iff split: option.splits)
    then show ?thesis using "1.IH" [OF False *(1,2,3)] pure_free_less [OF *(2)] by simp
  qed
qed

lemma pure_Pop_less: "MEM_POOL_Pop_pure p st = Inr st' \<Longrightarrow> length (sys (heap st')) < length (sys (heap st))"
  using pop_cells_le pure_free_less by (fastforce simp: MEM_POOL_Pop_pure_def pure_Pop_def Let_def bindE_eq_Inr_iff)

text \<open>The loop of \<^verbatim>\<open>MEM_POOL_Delete\<close>.\<close>

function pop_all_pure :: "int \<Rightarrow> pure_state \<Rightarrow> pure_state res" where
  "pop_all_pure p st = (if pool_pure_stack st p = 0 then Inr st else bindE (MEM_POOL_Pop_pure p st) (pop_all_pure p))"
  by pat_completeness auto
termination
  by (relation "measure (\<lambda>(p, st). length (sys (heap st)))") (auto dest: pure_Pop_less)

declare pop_all_pure.simps [simp del]

section \<open>Initialisation and deletion\<close>

definition MEM_POOL_Initialize_pure :: "os_heap \<Rightarrow> int \<Rightarrow> bool \<Rightarrow> pure_state \<Rightarrow> pure_state res" where
  "MEM_POOL_Initialize_pure os p bz st =
     (let p = resolve_pool (heap st) p in
      if p = Malloc_Mem_Pool then Inr st
      else
        bindE (pool_of (heap st) p) (\<lambda>pool.
        bindE (Is_True (pool_magic pool \<noteq> MAGIC_NUM)) (\<lambda>_.
        bindE (MEM_POOL_Push_pure os p
          (set_pure_pool p \<lparr>pool_blocks = MEM_POOL_INIT_IN_PROGRESS, pool_bz = bz, pool_frozen = False, pool_magic = MAGIC_NUM\<rparr>
            (st\<lparr>pool_pure_stack := (pool_pure_stack st)(p := 0)\<rparr>))) (\<lambda>st.
        Inr (set_pure_pool p ((mem_pools (heap st) p)\<lparr>pool_blocks := 0\<rparr>) st)))))"

definition MEM_POOL_Delete_pure :: "int \<Rightarrow> pure_state \<Rightarrow> pure_state res" where
  "MEM_POOL_Delete_pure p st =
     (let p = resolve_pool (heap st) p in
      if p = Malloc_Mem_Pool then Inr st
      else
        bindE (pool_of (heap st) p) (\<lambda>pool.
        bindE (Is_True (pool_magic pool = MAGIC_NUM)) (\<lambda>_.
        bindE (if pool_pure_stack st p = 0 then Inr st else bindE (MEM_POOL_Pop_pure p st) (pop_all_pure p)) (\<lambda>st.
        Inr (set_pure_pool p ((mem_pools (heap st) p)\<lparr>pool_magic := 0\<rparr>) st)))))"

end
