(* ===== verification/Memory_Purify_Inv.thy ===== *)
theory Memory_Purify_Inv
  imports Memory_Purify
begin

text \<open>
  The lists of the purify option: a level is the address of its header and the addresses of its areas. The invariant and the lemmas that the
  operations keep it.
\<close>

section \<open>Lists\<close>

type_synonym pure_level = "int \<times> int list"

fun cells_ok :: "(int \<rightharpoonup> int) \<Rightarrow> int \<Rightarrow> int list \<Rightarrow> bool" where
  "cells_ok nx c [] \<longleftrightarrow> c = 0"
| "cells_ok nx c (x # xs) \<longleftrightarrow> c = x \<and> x \<noteq> 0 \<and> (\<exists>d. nx x = Some d \<and> cells_ok nx d xs)"

fun stacks_ok :: "(int \<rightharpoonup> int) \<Rightarrow> (int \<rightharpoonup> mem_pure_stack) \<Rightarrow> int \<Rightarrow> pure_level list \<Rightarrow> bool" where
  "stacks_ok nx ps s [] \<longleftrightarrow> s = 0"
| "stacks_ok nx ps s (l # ls) \<longleftrightarrow> s = fst l \<and> s \<noteq> 0 \<and>
     (\<exists>r. ps s = Some r \<and> cells_ok nx (ps_last_alloc r) (snd l) \<and> stacks_ok nx ps (ps_prev_stack r) ls)"

definition addrs :: "pure_level list \<Rightarrow> int list" where
  "addrs ls = concat (map (\<lambda>l. fst l # snd l) ls)"

definition cells :: "pure_level list \<Rightarrow> int list" where
  "cells ls = concat (map snd ls)"

lemma addrs_simps [simp]: "addrs [] = []" "addrs (l # ls) = fst l # snd l @ addrs ls" "cells [] = []" "cells (l # ls) = snd l @ cells ls"
  by (simp_all add: addrs_def cells_def)

lemma cells_addrs: "set (cells ls) \<subseteq> set (addrs ls)"
  by (induction ls) auto

lemma cells_frame: "cells_ok nx c xs \<Longrightarrow> (\<And>x. x \<in> set xs \<Longrightarrow> nx' x = nx x) \<Longrightarrow> cells_ok nx' c xs"
  by (induction xs arbitrary: c) auto

lemma cells_nonzero: "cells_ok nx c xs \<Longrightarrow> 0 \<notin> set xs"
  by (induction xs arbitrary: c) auto

lemma stacks_frame:
  "stacks_ok nx ps s ls \<Longrightarrow> (\<And>x. x \<in> set (addrs ls) \<Longrightarrow> nx' x = nx x \<and> ps' x = ps x) \<Longrightarrow> stacks_ok nx' ps' s ls"
proof (induction ls arbitrary: s)
  case (Cons l ls)
  from Cons.prems(1) obtain r where r: "s = fst l" "s \<noteq> 0" "ps s = Some r" "cells_ok nx (ps_last_alloc r) (snd l)" "stacks_ok nx ps (ps_prev_stack r) ls" by auto
  have "cells_ok nx' (ps_last_alloc r) (snd l)" using r(4) by (rule cells_frame) (use Cons.prems(2) in simp)
  moreover have "stacks_ok nx' ps' (ps_prev_stack r) ls" using r(5) by (rule Cons.IH) (use Cons.prems(2) in simp)
  moreover have "ps' s = Some r" using Cons.prems(2) [of s] r(1,3) by simp
  ultimately show ?case using r(1,2) by simp
qed simp

section \<open>The invariant\<close>

definition level_wf :: "(int \<times> int) list \<Rightarrow> pure_level list \<Rightarrow> bool" where
  "level_wf s ls \<longleftrightarrow> distinct (addrs ls) \<and> (\<forall>x \<in> set (addrs ls). map_of s x \<noteq> None) \<and> (\<forall>c \<in> set (cells ls). \<exists>n. map_of s c = Some n \<and> 8 \<le> n)"

definition pure_inv :: "pure_state \<Rightarrow> (int \<Rightarrow> pure_level list) \<Rightarrow> bool" where
  "pure_inv st P \<longleftrightarrow> sys_ok (sys (heap st)) \<and>
     (\<forall>p. stacks_ok (pure_next st) (pure_stacks st) (pool_pure_stack st p) (P p) \<and> level_wf (sys (heap st)) (P p)) \<and>
     (\<forall>p q. p \<noteq> q \<longrightarrow> set (addrs (P p)) \<inter> set (addrs (P q)) = {})"

lemma pure_invD:
  assumes "pure_inv st P"
  shows "sys_ok (sys (heap st))" and "stacks_ok (pure_next st) (pure_stacks st) (pool_pure_stack st p) (P p)" and "level_wf (sys (heap st)) (P p)"
    and "p \<noteq> q \<Longrightarrow> x \<in> set (addrs (P p)) \<Longrightarrow> x \<notin> set (addrs (P q))"
  using assms unfolding pure_inv_def by blast+

lemma level_wfD:
  assumes "level_wf s ls"
  shows "distinct (addrs ls)" and "x \<in> set (addrs ls) \<Longrightarrow> \<exists>n. map_of s x = Some n" and "c \<in> set (cells ls) \<Longrightarrow> \<exists>n. map_of s c = Some n \<and> 8 \<le> n"
  using assms unfolding level_wf_def by blast+

text \<open>A change of the lists of one pool that leaves the headers, links and areas of the others.\<close>

lemma pure_inv_change:
  assumes inv: "pure_inv st P" and sys: "sys_ok (sys (heap st'))"
    and new: "stacks_ok (pure_next st') (pure_stacks st') (pool_pure_stack st' p) ls" "level_wf (sys (heap st')) ls"
    and fresh: "\<And>x q. x \<in> set (addrs ls) \<Longrightarrow> q \<noteq> p \<Longrightarrow> x \<notin> set (addrs (P q))"
    and same: "\<And>x q. q \<noteq> p \<Longrightarrow> x \<in> set (addrs (P q)) \<Longrightarrow>
      pure_next st' x = pure_next st x \<and> pure_stacks st' x = pure_stacks st x \<and> map_of (sys (heap st')) x = map_of (sys (heap st)) x"
    and pools: "\<And>q. q \<noteq> p \<Longrightarrow> pool_pure_stack st' q = pool_pure_stack st q"
  shows "pure_inv st' (P(p := ls))"
  unfolding pure_inv_def
proof (intro conjI allI impI)
  show "sys_ok (sys (heap st'))" by (rule sys)
  fix q
  show "stacks_ok (pure_next st') (pure_stacks st') (pool_pure_stack st' q) ((P(p := ls)) q)"
  proof (cases "q = p")
    case False
    have "stacks_ok (pure_next st') (pure_stacks st') (pool_pure_stack st q) (P q)"
      by (rule stacks_frame [OF pure_invD(2) [OF inv]]) (use same False in simp)
    then show ?thesis using False pools by simp
  qed (use new in simp)
  show "level_wf (sys (heap st')) ((P(p := ls)) q)"
  proof (cases "q = p")
    case False
    note wf = pure_invD(3) [OF inv, of q]
    have "map_of (sys (heap st')) x = map_of (sys (heap st)) x" if "x \<in> set (addrs (P q))" for x using same False that by simp
    then show ?thesis using wf False cells_addrs [of "P q"] unfolding level_wf_def by (simp add: subset_eq)
  qed (use new in simp)
  fix r assume "q \<noteq> r"
  then show "set (addrs ((P(p := ls)) q)) \<inter> set (addrs ((P(p := ls)) r)) = {}"
    using fresh pure_invD(4) [OF inv] by (cases "q = p"; cases "r = p") auto
qed

text \<open>The bytes of the objects of a level, as clients see them.\<close>

definition pure_bytes :: "(int \<times> int) list \<Rightarrow> int \<Rightarrow> int set" where
  "pure_bytes s c = {c + 8 ..< c + the (map_of s c)}"

definition pure_live :: "pure_state \<Rightarrow> pure_level list \<Rightarrow> int set list" where
  "pure_live st ls = map (\<lambda>l. \<Union>c \<in> set (snd l). pure_bytes (sys (heap st)) c) ls"

lemma pure_live_same: "(\<And>c. c \<in> set (cells ls) \<Longrightarrow> map_of (sys (heap st')) c = map_of (sys (heap st)) c) \<Longrightarrow> pure_live st' ls = pure_live st ls"
  by (induction ls) (auto simp: pure_live_def pure_bytes_def)

section \<open>Pushing, allocating and popping\<close>

lemma mark_pushed_simps [simp]: "sys (heap (mark_pushed p st)) = sys (heap st)" "bytes (heap (mark_pushed p st)) = bytes (heap st)" "pure_next (mark_pushed p st) = pure_next st"
    "pure_stacks (mark_pushed p st) = pure_stacks st" "pool_pure_stack (mark_pushed p st) = pool_pure_stack st"
  by (simp_all add: mark_pushed_def set_pure_pool_def set_pool_def Let_def)

lemma mark_pushed_pools:
  obtains k where "mem_pools (heap (mark_pushed p st)) = (mem_pools (heap st))(p := (mem_pools (heap st) p)\<lparr>pool_blocks := k\<rparr>)"
proof (cases "pool_blocks (mem_pools (heap st) p) = 0")
  case True
  then show ?thesis by (intro that [of 1]) (simp add: mark_pushed_def set_pure_pool_def set_pool_def)
next
  case False
  then show ?thesis by (intro that [of "pool_blocks (mem_pools (heap st) p)"]) (simp add: mark_pushed_def)
qed

lemma live_in_area:
  assumes "level_wf (sys (heap st)) ls" and "X \<in> set (pure_live st ls)" and "x \<in> X"
  obtains c n where "c \<in> set (cells ls)" "(c, n) \<in> set (sys (heap st))" "c + 8 \<le> x" "x < c + n"
proof -
  obtain c where c: "c \<in> set (cells ls)" "x \<in> pure_bytes (sys (heap st)) c" using assms(2,3) by (auto simp: pure_live_def cells_def)
  obtain n where "map_of (sys (heap st)) c = Some n" using level_wfD(3) [OF assms(1) c(1)] by blast
  then show thesis using that [OF c(1)] c(2) map_of_SomeD by (fastforce simp: pure_bytes_def)
qed

text \<open>What an operation keeps of the areas that it does not free: their sizes and contents.\<close>

definition pure_kept :: "pure_state \<Rightarrow> pure_state \<Rightarrow> int set \<Rightarrow> bool" where
  "pure_kept st st' A \<longleftrightarrow> (\<forall>x n. map_of (sys (heap st)) x = Some n \<longrightarrow> x \<notin> A \<longrightarrow>
     map_of (sys (heap st')) x = Some n \<and> (\<forall>y. x \<le> y \<longrightarrow> y < x + n \<longrightarrow> bytes (heap st') y = bytes (heap st) y))"

lemma pure_keptD: "pure_kept st st' A \<Longrightarrow> map_of (sys (heap st)) x = Some n \<Longrightarrow> x \<notin> A \<Longrightarrow> map_of (sys (heap st')) x = Some n"
  by (simp add: pure_kept_def)

lemma map_of_fresh: "sys_ok ((a, n) # s) \<Longrightarrow> map_of s x = Some k \<Longrightarrow> x \<noteq> a"
  using sys_ok_fresh map_of_SomeD by (metis fst_conv image_eqI)

lemma area_new: "sys_ok ((a, n) # s) \<Longrightarrow> level_wf s ls \<Longrightarrow> a \<notin> set (addrs ls)"
  using level_wfD(2) map_of_fresh by blast

lemma inv_area:
  assumes inv: "pure_inv st P" and ok: "sys_ok ((a, n) # sys (heap st))" and st': "sys (heap st') = (a, n) # sys (heap st)"
    "pure_next st' = pure_next st" "pure_stacks st' = pure_stacks st" "pool_pure_stack st' = pool_pure_stack st"
  shows "pure_inv st' P"
  unfolding pure_inv_def
proof (intro conjI allI impI)
  show "sys_ok (sys (heap st'))" using ok st'(1) by simp
  fix p
  show "stacks_ok (pure_next st') (pure_stacks st') (pool_pure_stack st' p) (P p)" using pure_invD(2) [OF inv] st' by simp
  have "a \<notin> set (addrs (P p))" by (rule area_new [OF ok pure_invD(3) [OF inv]])
  then show "level_wf (sys (heap st')) (P p)" using pure_invD(3) [OF inv, of p] cells_addrs [of "P p"] unfolding level_wf_def st'(1) by auto
  show "\<And>q. p \<noteq> q \<Longrightarrow> set (addrs (P p)) \<inter> set (addrs (P q)) = {}" using pure_invD(4) [OF inv] by blast
qed

lemma kept_area:
  assumes ok: "sys_ok ((a, n) # sys (heap st))" and st': "sys (heap st') = (a, n) # sys (heap st)"
    and bytes: "\<And>x. \<not> (a \<le> x \<and> x < a + n) \<Longrightarrow> bytes (heap st') x = bytes (heap st) x"
  shows "pure_kept st st' {}"
  unfolding pure_kept_def
proof (intro allI impI conjI)
  fix x k assume x: "map_of (sys (heap st)) x = Some k"
  note ne = map_of_fresh [OF ok x]
  show "map_of (sys (heap st')) x = Some k" using ne x by (simp add: st')
  have "apart x k a n" using sys_okD(3) [OF ok, of x k a n] map_of_SomeD [OF x] ne by simp
  then show "x \<le> y \<Longrightarrow> y < x + k \<Longrightarrow> bytes (heap st') y = bytes (heap st) y" for y by (intro bytes) (auto simp: apart_def)
qed

context c_library
begin

lemma Push_pure_ok:
  assumes inv: "pure_inv st P" and p: "client_pool p" "pool_magic (mem_pools (heap st) p) = MAGIC_NUM" "\<not> pool_frozen (mem_pools (heap st) p)"
  obtains (no_memory) "MEM_POOL_Push_pure os p st = Inl Is_True_Failed" "os_malloc os (sys (heap st)) 16 = 0"
  | (pushed) st' s where "MEM_POOL_Push_pure os p st = Inr st'" "pure_inv st' (P(p := (s, []) # P p))" "pure_kept st st' {}"
      "mem_pools (heap st') = (mem_pools (heap st))(p := (mem_pools (heap st) p)\<lparr>pool_blocks := 1\<rparr>)" "os_malloc os (sys (heap st)) 16 \<noteq> 0"
proof -
  note finish = that
  define a where "a = os_malloc os (sys (heap st)) 16"
  have pool: "pool_of (heap st) p = Inr (mem_pools (heap st) p)" using p(1) by (simp add: pool_of_def client_pool_def)
  show thesis
  proof (cases "a = 0")
    case True
    then show ?thesis using finish(1) p pool by (simp add: MEM_POOL_Push_pure_def pure_Push_def pure_malloc_def c_malloc_def a_def)
  next
    case False
    have ok: "sys_ok ((a, 16) # sys (heap st))" using malloc_fresh [OF pure_invD(1) [OF inv]] False by (simp add: a_def)
    have new: "a \<notin> set (addrs (P q))" for q by (rule area_new [OF ok pure_invD(3) [OF inv]])
    define st' where "st' = set_pure_pool p ((mem_pools (heap st) p)\<lparr>pool_blocks := 1\<rparr>)
      (st\<lparr>heap := (heap st)\<lparr>sys := (a, 16) # sys (heap st)\<rparr>, pure_stacks := (pure_stacks st)(a \<mapsto> \<lparr>ps_last_alloc = 0, ps_prev_stack = pool_pure_stack st p\<rparr>),
          pool_pure_stack := (pool_pure_stack st)(p := a)\<rparr>)"
    have run: "MEM_POOL_Push_pure os p st = Inr st'"
      using False p pool by (simp add: MEM_POOL_Push_pure_def pure_Push_def pure_malloc_def c_malloc_def a_def [symmetric] st'_def Let_def)
    have f: "sys (heap st') = (a, 16) # sys (heap st)" "bytes (heap st') = bytes (heap st)" "pure_next st' = pure_next st"
        "pure_stacks st' = (pure_stacks st)(a \<mapsto> \<lparr>ps_last_alloc = 0, ps_prev_stack = pool_pure_stack st p\<rparr>)" "pool_pure_stack st' = (pool_pure_stack st)(p := a)"
      by (simp_all add: st'_def set_pure_pool_def set_pool_def)
    have "pure_inv st' (P(p := (a, []) # P p))"
    proof (rule pure_inv_change [OF inv])
      have "stacks_ok (pure_next st') (pure_stacks st') (pool_pure_stack st p) (P p)" by (rule stacks_frame [OF pure_invD(2) [OF inv]]) (use new in \<open>auto simp: f\<close>)
      then show "stacks_ok (pure_next st') (pure_stacks st') (pool_pure_stack st' p) ((a, []) # P p)" using False by (simp add: f)
      show "level_wf (sys (heap st')) ((a, []) # P p)" using pure_invD(3) [OF inv, of p] new [of p] cells_addrs [of "P p"] unfolding level_wf_def f by auto
      show "\<And>x q. x \<in> set (addrs ((a, []) # P p)) \<Longrightarrow> q \<noteq> p \<Longrightarrow> x \<notin> set (addrs (P q))" using new pure_invD(4) [OF inv] by auto
      show "\<And>x q. q \<noteq> p \<Longrightarrow> x \<in> set (addrs (P q)) \<Longrightarrow>
          pure_next st' x = pure_next st x \<and> pure_stacks st' x = pure_stacks st x \<and> map_of (sys (heap st')) x = map_of (sys (heap st)) x" using new by (auto simp: f)
    qed (use ok in \<open>simp_all add: f\<close>)
    moreover have "pure_kept st st' {}" using map_of_fresh [OF ok] by (auto simp: pure_kept_def f)
    ultimately show ?thesis by (rule finish(2) [OF run]) (use False in \<open>simp_all add: st'_def set_pure_pool_def set_pool_def a_def\<close>)
  qed
qed

text \<open>Linking an area that is not in use.\<close>

lemma link_alloc_ok:
  assumes inv: "pure_inv st P" and P: "P p = (s, cs) # ls" and b: "\<And>q. b \<notin> set (addrs (P q))" "0 < b" "map_of (sys (heap st)) b = Some n" "8 \<le> n"
  obtains st' where "link_alloc p b st = Inr st'" "pure_inv st' (P(p := (s, b # cs) # ls))" "heap st' = heap st" "pool_pure_stack st' = pool_pure_stack st"
proof -
  obtain r where r: "pool_pure_stack st p = s" "s \<noteq> 0" "pure_stacks st s = Some r" "cells_ok (pure_next st) (ps_last_alloc r) cs" "stacks_ok (pure_next st) (pure_stacks st) (ps_prev_stack r) ls"
    using pure_invD(2) [OF inv, of p] P by auto
  define st' where "st' = st\<lparr>pure_next := (pure_next st)(b \<mapsto> ps_last_alloc r), pure_stacks := (pure_stacks st)(s \<mapsto> r\<lparr>ps_last_alloc := b\<rparr>)\<rparr>"
  have run: "link_alloc p b st = Inr st'" using r by (simp add: link_alloc_def get_pure_stack_def st'_def)
  have wf: "level_wf (sys (heap st)) ((s, cs) # ls)" using pure_invD(3) [OF inv, of p] P by simp
  have d: "distinct (s # cs @ addrs ls)" "b \<notin> set (s # cs @ addrs ls)" using level_wfD(1) [OF wf] b(1) [of p] P by simp_all
  have "pure_inv st' (P(p := (s, b # cs) # ls))"
  proof (rule pure_inv_change [OF inv])
    have "cells_ok (pure_next st') (ps_last_alloc r) cs" using r(4) by (rule cells_frame) (use d in \<open>auto simp: st'_def\<close>)
    moreover have "stacks_ok (pure_next st') (pure_stacks st') (ps_prev_stack r) ls" using r(5) by (rule stacks_frame) (use d in \<open>auto simp: st'_def\<close>)
    ultimately show "stacks_ok (pure_next st') (pure_stacks st') (pool_pure_stack st' p) ((s, b # cs) # ls)" using r(1,2) b(2) by (simp add: st'_def)
    show "level_wf (sys (heap st')) ((s, b # cs) # ls)" using wf d(2) b(3,4) unfolding level_wf_def st'_def by auto
    show "\<And>x q. x \<in> set (addrs ((s, b # cs) # ls)) \<Longrightarrow> q \<noteq> p \<Longrightarrow> x \<notin> set (addrs (P q))" using b(1) pure_invD(4) [OF inv, of p] P by fastforce
    have s: "s \<in> set (addrs (P p))" using P by simp
    show "\<And>x q. q \<noteq> p \<Longrightarrow> x \<in> set (addrs (P q)) \<Longrightarrow>
        pure_next st' x = pure_next st x \<and> pure_stacks st' x = pure_stacks st x \<and> map_of (sys (heap st')) x = map_of (sys (heap st)) x"
      using b(1) pure_invD(4) [OF inv _ s] by (auto simp: st'_def)
  qed (use pure_invD(1) [OF inv] in \<open>simp_all add: st'_def\<close>)
  then show thesis by (rule that [OF run]) (simp_all add: st'_def)
qed

lemma Alloc_pure_ok:
  assumes inv: "pure_inv st P" and p: "client_pool p" "pool_magic (mem_pools (heap st) p) = MAGIC_NUM" and P: "P p = (s, cs) # ls" and sz: "size_ok sz"
  obtains (no_memory) "MEM_POOL_Alloc_pure os p sz st = Inl Is_True_Failed" "os_malloc os (sys (heap st)) (uint sz + 8) = 0"
  | (allocated) a st' where "MEM_POOL_Alloc_pure os p sz st = Inr (a + 8, st')" "pure_inv st' (P(p := (s, a # cs) # ls))" "pure_kept st st' {}"
      "map_of (sys (heap st')) a = Some (uint sz + 8)" "map_of (sys (heap st)) a = None" "0 < a" "a mod 8 = 0"
      "\<forall>x. a \<le> x \<longrightarrow> x < a + uint sz + 8 \<longrightarrow> bytes (heap st') x = 0" "\<exists>b. mem_pools (heap st') = (mem_pools (heap st))(p := (mem_pools (heap st) p)\<lparr>pool_blocks := b\<rparr>)"
      "os_malloc os (sys (heap st)) (uint sz + 8) \<noteq> 0"
proof -
  note finish = that
  define n where "n = uint sz + 8"
  define a where "a = os_malloc os (sys (heap st)) n"
  have "0 \<le> uint sz" by simp
  then have n: "0 < n" "8 \<le> n" "u64 n = n" using sz unfolding n_def u64_def size_ok_def by (linarith, linarith, simp)
  have run0: "MEM_POOL_Alloc_pure os p sz st = pure_Alloc os p sz st" using p by (simp add: MEM_POOL_Alloc_pure_def pool_of_def resolve_pool_def client_pool_def)
  show thesis
  proof (cases "a = 0")
    case True
    then show ?thesis using finish(1) run0 n by (simp add: pure_Alloc_def pure_malloc_def c_malloc_def a_def n_def [symmetric] Let_def)
  next
    case False
    have ok: "sys_ok ((a, n) # sys (heap st))" using malloc_fresh [OF pure_invD(1) [OF inv] n(1)] False by (simp add: a_def)
    note fresh = sys_ok_fresh [OF ok]
    define st1 where "st1 = (mark_pushed p st)\<lparr>heap := (heap (mark_pushed p st))\<lparr>sys := (a, n) # sys (heap st), bytes := (\<lambda>x. if a \<le> x \<and> x < a + n then 0 else bytes (heap st) x)\<rparr>\<rparr>"
    have f: "sys (heap st1) = (a, n) # sys (heap st)" "bytes (heap st1) = (\<lambda>x. if a \<le> x \<and> x < a + n then 0 else bytes (heap st) x)"
        "pure_next st1 = pure_next st" "pure_stacks st1 = pure_stacks st" "pool_pure_stack st1 = pool_pure_stack st" by (simp_all add: st1_def)
    have new: "a \<notin> set (addrs (P q))" for q by (rule area_new [OF ok pure_invD(3) [OF inv]])
    have area: "map_of (sys (heap st1)) a = Some n" by (simp add: f)
    have "0 < a" using fresh by simp
    from link_alloc_ok [OF inv_area [OF inv ok f(1,3,4,5)] P new this area n(2)]
    obtain st' where st': "link_alloc p a st1 = Inr st'" "pure_inv st' (P(p := (s, a # cs) # ls))" "heap st' = heap st1" by blast
    have "pool_pure_stack st1 p \<noteq> 0" using pure_invD(2) [OF inv, of p] P by (auto simp: f)
    then have run: "MEM_POOL_Alloc_pure os p sz st = Inr (a + 8, st')"
      using run0 False n st'(1) by (simp add: pure_Alloc_def pure_malloc_def c_malloc_def a_def [symmetric] n_def [symmetric] Let_def pure_fill_def fill_def in_sys_def st1_def cong: if_cong)
    have kept: "pure_kept st st' {}" by (rule kept_area [OF ok]) (auto simp: st'(3) f)
    have pools: "\<exists>b. mem_pools (heap st') = (mem_pools (heap st))(p := (mem_pools (heap st) p)\<lparr>pool_blocks := b\<rparr>)"
      by (rule mark_pushed_pools [of p st]) (auto simp: st'(3) st1_def)
    have "map_of (sys (heap st)) a = None" using fresh by (simp add: map_of_eq_None_iff)
    then show ?thesis using finish(2) [OF run st'(2) kept _ _ _ _ _ pools] fresh False by (simp add: st'(3) f n_def a_def [unfolded n_def, symmetric])
  qed
qed

end

text \<open>Freeing the areas of a list.\<close>

definition freed :: "int set \<Rightarrow> pure_state \<Rightarrow> pure_state" where
  "freed A st = st\<lparr>heap := (heap st)\<lparr>sys := filter (\<lambda>(b, _). b \<notin> A) (sys (heap st))\<rparr>,
     pure_next := (\<lambda>x. if x \<in> A then None else pure_next st x), pure_stacks := (\<lambda>x. if x \<in> A then None else pure_stacks st x)\<rparr>"

lemma freed_sys: "sys (heap (freed A st)) = filter (\<lambda>(b, _). b \<notin> A) (sys (heap st))"
  by (simp add: freed_def)

lemma freed_simps [simp]: "bytes (heap (freed A st)) = bytes (heap st)"
    "mem_pools (heap (freed A st)) = mem_pools (heap st)" "pool_pure_stack (freed A st) = pool_pure_stack st"
    "pure_next (freed A st) x = (if x \<in> A then None else pure_next st x)" "pure_stacks (freed A st) x = (if x \<in> A then None else pure_stacks st x)"
  by (simp_all add: freed_def)

lemma map_of_freed: "x \<notin> A \<Longrightarrow> map_of (filter (\<lambda>(b, _). b \<notin> A) s) x = map_of s x"
  by (induction s) auto

lemma freed_area [simp]: "x \<notin> A \<Longrightarrow> map_of (sys (heap (freed A st))) x = map_of (sys (heap st)) x"
  by (simp add: freed_sys map_of_freed)

lemma pure_free_one: "map_of (sys (heap st)) a \<noteq> None \<Longrightarrow> pure_free a st = Inr (freed {a} st)"
  by (auto simp: pure_free_def c_free_def freed_def fun_upd_def map_of_eq_None_iff)

lemma freed_freed: "freed A (freed B st) = freed (A \<union> B) st"
proof -
  have "filter (\<lambda>(b, _). b \<notin> A) (filter (\<lambda>(b, _). b \<notin> B) (sys (heap st))) = filter (\<lambda>(b, _). b \<notin> A \<union> B) (sys (heap st))"
    unfolding filter_filter by (rule filter_cong) auto
  then show ?thesis by (auto simp: freed_def fun_eq_iff)
qed

lemma pop_cells_ok:
  "cells_ok (pure_next st) c cs \<Longrightarrow> distinct cs \<Longrightarrow> (\<And>x. x \<in> set cs \<Longrightarrow> map_of (sys (heap st)) x \<noteq> None) \<Longrightarrow> pop_cells c st = Inr (freed (set cs) st)"
proof (induction cs arbitrary: c st)
  case Nil
  have "freed {} st = st" by (simp add: freed_def)
  then show ?case using Nil by (simp add: pop_cells.simps)
next
  case (Cons x xs)
  then obtain d where x: "c = x" "x \<noteq> 0" "pure_next st x = Some d" "cells_ok (pure_next st) d xs" by auto
  have "cells_ok (pure_next (freed {x} st)) d xs" using x(4) by (rule cells_frame) (use Cons.prems(2) in auto)
  then have "pop_cells d (freed {x} st) = Inr (freed (set xs) (freed {x} st))"
  proof (rule Cons.IH)
    fix y assume y: "y \<in> set xs"
    then have "y \<notin> {x}" using Cons.prems(2) by auto
    then show "map_of (sys (heap (freed {x} st))) y \<noteq> None" using Cons.prems(3) [of y] y by simp
  qed (use Cons.prems(2) in simp)
  then show ?case using x pure_free_one [of st x] Cons.prems(3) by (simp add: pop_cells.simps [of x] freed_freed)
qed

lemma freed_kept: "pure_kept st (freed A st) A"
  by (simp add: pure_kept_def)

lemma Pop_pure_ok:
  assumes inv: "pure_inv st P" and p: "client_pool p" "pool_magic (mem_pools (heap st) p) = MAGIC_NUM" "\<not> pool_frozen (mem_pools (heap st) p)" and P: "P p = (s, cs) # ls"
  obtains st' where "MEM_POOL_Pop_pure p st = Inr st'" "pure_inv st' (P(p := ls))" "pure_kept st st' (insert s (set cs))"
    "sys (heap st') = filter (\<lambda>(b, _). b \<notin> insert s (set cs)) (sys (heap st))" "bytes (heap st') = bytes (heap st)" "mem_pools (heap st') = mem_pools (heap st)"
proof -
  have wf: "level_wf (sys (heap st)) ((s, cs) # ls)" using pure_invD(3) [OF inv, of p] P by simp
  obtain r where r: "pool_pure_stack st p = s" "s \<noteq> 0" "pure_stacks st s = Some r" "cells_ok (pure_next st) (ps_last_alloc r) cs" "stacks_ok (pure_next st) (pure_stacks st) (ps_prev_stack r) ls"
    using pure_invD(2) [OF inv, of p] P by auto
  have d: "distinct (s # cs @ addrs ls)" using level_wfD(1) [OF wf] by simp
  let ?A = "insert s (set cs)"
  define st' where "st' = (freed ?A st)\<lparr>pool_pure_stack := (pool_pure_stack st)(p := ps_prev_stack r)\<rparr>"
  have pool: "pool_of (heap st) p = Inr (mem_pools (heap st) p)" using p(1) by (simp add: pool_of_def client_pool_def)
  have "map_of (sys (heap st)) s \<noteq> None" using level_wfD(2) [OF wf, of s] by auto
  then have "map_of (sys (heap (freed (set cs) st))) s \<noteq> None" using d by simp
  note fs = pure_free_one [OF this, unfolded freed_freed]
  have "pop_cells (ps_last_alloc r) st = Inr (freed (set cs) st)" by (rule pop_cells_ok [OF r(4)]) (use d level_wfD(2) [OF wf] in auto)
  then have run: "MEM_POOL_Pop_pure p st = Inr st'"
    using p(2,3) pool r fs d by (simp add: MEM_POOL_Pop_pure_def pure_Pop_def Let_def get_pure_stack_def st'_def)
  have "pure_inv st' (P(p := ls))"
  proof (rule pure_inv_change [OF inv])
    have "stacks_ok (pure_next st') (pure_stacks st') (ps_prev_stack r) ls" using r(5) by (rule stacks_frame) (use d in \<open>auto simp: st'_def\<close>)
    then show "stacks_ok (pure_next st') (pure_stacks st') (pool_pure_stack st' p) ls" by (simp add: st'_def)
    have "map_of (sys (heap st')) x = map_of (sys (heap st)) x" if "x \<in> set (addrs ls)" for x
    proof -
      have "x \<notin> ?A" using that d by auto
      then show ?thesis by (simp add: st'_def)
    qed
    then show "level_wf (sys (heap st')) ls" using wf cells_addrs [of ls] unfolding level_wf_def by (auto simp: subset_eq)
    show "\<And>x q. x \<in> set (addrs ls) \<Longrightarrow> q \<noteq> p \<Longrightarrow> x \<notin> set (addrs (P q))" using pure_invD(4) [OF inv, of p] P by auto
    show "\<And>x q. q \<noteq> p \<Longrightarrow> x \<in> set (addrs (P q)) \<Longrightarrow>
        pure_next st' x = pure_next st x \<and> pure_stacks st' x = pure_stacks st x \<and> map_of (sys (heap st')) x = map_of (sys (heap st)) x"
    proof -
      fix x q assume "q \<noteq> p" "x \<in> set (addrs (P q))"
      then have "x \<notin> ?A" using pure_invD(4) [OF inv, of q p x] P by auto
      then show "pure_next st' x = pure_next st x \<and> pure_stacks st' x = pure_stacks st x \<and> map_of (sys (heap st')) x = map_of (sys (heap st)) x"
        by (simp add: st'_def)
    qed
  qed (use sys_ok_filter [OF pure_invD(1) [OF inv]] in \<open>simp_all add: st'_def freed_sys\<close>)
  moreover have "pure_kept st st' ?A" using freed_kept [of st ?A] by (simp add: pure_kept_def st'_def)
  ultimately show thesis by (rule that [OF run]) (simp_all add: st'_def freed_sys)
qed

section \<open>Searching\<close>

lemma find_cell_absent: "cells_ok nx c cs \<Longrightarrow> cur \<notin> set cs \<Longrightarrow> length cs \<le> k \<Longrightarrow> \<exists>pv. find_cell k nx cur prev c = Inr (pv, 0)"
proof (induction cs arbitrary: k c prev)
  case (Cons x xs)
  then obtain k' where "k = Suc k'" by (cases k) auto
  then show ?case using Cons by (subst find_cell.simps) auto
qed (simp add: find_cell.simps)

lemma find_cell_present:
  "cells_ok nx c (xs @ cur # ys) \<Longrightarrow> distinct (xs @ cur # ys) \<Longrightarrow> length xs \<le> k \<Longrightarrow> find_cell k nx cur prev c = Inr (last (prev # xs), cur)"
proof (induction xs arbitrary: k c prev)
  case Nil
  then show ?case by (simp add: find_cell.simps)
next
  case (Cons x xs)
  then obtain k' d where k: "k = Suc k'" "c = x" "x \<noteq> 0" "nx x = Some d" "cells_ok nx d (xs @ cur # ys)" by (cases k) auto
  have "find_cell k' nx cur x d = Inr (last (x # xs), cur)" by (rule Cons.IH [OF k(5)]) (use Cons.prems(2,3) k(1) in auto)
  then show ?case using k Cons.prems(2) by (subst find_cell.simps) auto
qed

lemma cells_split:
  assumes "cells_ok nx c (xs @ cur # ys)" and "distinct (xs @ cur # ys)"
  obtains d where "nx cur = Some d" "cells_ok nx d ys" "xs = [] \<longrightarrow> c = cur" "xs \<noteq> [] \<longrightarrow> cells_ok (nx(last xs \<mapsto> d)) c (xs @ ys)" "0 \<notin> set xs"
  using assms
proof (induction xs arbitrary: c thesis)
  case Nil
  then show ?case by auto
next
  case (Cons x xs)
  then obtain e where e: "c = x" "x \<noteq> 0" "nx x = Some e" "cells_ok nx e (xs @ cur # ys)" by auto
  obtain d where d: "nx cur = Some d" "cells_ok nx d ys" "xs = [] \<longrightarrow> e = cur" "xs \<noteq> [] \<longrightarrow> cells_ok (nx(last xs \<mapsto> d)) e (xs @ ys)" "0 \<notin> set xs"
    using Cons.IH [OF _ e(4)] Cons.prems(3) by (metis distinct.simps(2) append_Cons)
  show ?case
  proof (rule Cons.prems(1) [OF d(1,2)])
    have "cells_ok (nx(last (x # xs) \<mapsto> d)) c ((x # xs) @ ys)"
    proof (cases "xs = []")
      case True
      have "cells_ok (nx(x \<mapsto> d)) d ys" using d(2) by (rule cells_frame) (use Cons.prems(3) in auto)
      then show ?thesis using True e(1,2) by simp
    next
      case False
      then have "last xs \<noteq> x" using Cons.prems(3) by auto
      then show ?thesis using d(4) False e by simp
    qed
    then show "x # xs \<noteq> [] \<longrightarrow> cells_ok (nx(last (x # xs) \<mapsto> d)) c ((x # xs) @ ys)" by blast
  qed (use e(2) d(5) in auto)
qed

definition drop_cell :: "int \<Rightarrow> pure_level list \<Rightarrow> pure_level list" where
  "drop_cell c ls = map (\<lambda>l. (fst l, remove1 c (snd l))) ls"

lemma drop_cell_simps [simp]: "drop_cell c [] = []" "drop_cell c (l # ls) = (fst l, remove1 c (snd l)) # drop_cell c ls" "length (drop_cell c ls) = length ls"
  by (simp_all add: drop_cell_def)

lemma drop_cell_absent: "c \<notin> set (cells ls) \<Longrightarrow> drop_cell c ls = ls"
  by (induction ls) (auto simp: remove1_idem)

lemma addrs_drop: "distinct (addrs ls) \<Longrightarrow> c \<in> set (cells ls) \<Longrightarrow> set (addrs (drop_cell c ls)) = set (addrs ls) - {c} \<and> distinct (addrs (drop_cell c ls))"
proof (induction ls)
  case (Cons l ls)
  show ?case
  proof (cases "c \<in> set (snd l)")
    case True
    then have "c \<notin> set (addrs ls)" "c \<noteq> fst l" using Cons.prems(1) by auto
    then have "drop_cell c ls = ls" using drop_cell_absent cells_addrs by blast
    then show ?thesis using Cons.prems(1) True \<open>c \<noteq> fst l\<close> \<open>c \<notin> set (addrs ls)\<close> by (auto simp: set_remove1_eq distinct_remove1)
  next
    case False
    then have c: "c \<in> set (cells ls)" using Cons.prems(2) by simp
    then have "c \<noteq> fst l" using Cons.prems(1) cells_addrs by auto
    then show ?thesis using Cons.IH [OF _ c] Cons.prems(1) False by (auto simp: remove1_idem)
  qed
qed simp

lemma cells_drop: "distinct (addrs ls) \<Longrightarrow> set (cells (drop_cell c ls)) \<subseteq> set (cells ls)"
  by (induction ls) (auto dest: set_remove1_subset [THEN subsetD])

text \<open>The loops find an area in whichever level it is, and take it out of the list.\<close>

lemma find_and_splice_ok:
  assumes "stacks_ok (pure_next st) (pure_stacks st) s ls" and "distinct (addrs ls)" and "length (addrs ls) \<le> k" and "length (addrs ls) \<le> m"
  shows "if c \<in> set (cells ls)
    then \<exists>st'. find_and_splice k m c s st = Inr (True, st') \<and> heap st' = heap st \<and> pool_pure_stack st' = pool_pure_stack st \<and>
      stacks_ok (pure_next st') (pure_stacks st') s (drop_cell c ls) \<and>
      (\<forall>x. x \<notin> set (addrs ls) \<longrightarrow> pure_next st' x = pure_next st x \<and> pure_stacks st' x = pure_stacks st x)
    else find_and_splice k m c s st = Inr (False, st)"
  using assms
proof (induction ls arbitrary: s k)
  case Nil
  then show ?case by (simp add: find_and_splice.simps)
next
  case (Cons l ls)
  from Cons.prems(1) obtain r where r: "s = fst l" "s \<noteq> 0" "pure_stacks st s = Some r" "cells_ok (pure_next st) (ps_last_alloc r) (snd l)"
    "stacks_ok (pure_next st) (pure_stacks st) (ps_prev_stack r) ls" by auto
  obtain k' where k: "k = Suc k'" "length (addrs ls) \<le> k'" using Cons.prems(3) by (cases k) auto
  have d: "distinct (snd l)" "distinct (addrs ls)" "length (snd l) \<le> m" "length (addrs ls) \<le> m" using Cons.prems by auto
  show ?case
  proof (cases "c \<in> set (snd l)")
    case True
    then obtain xs ys where cs: "snd l = xs @ c # ys" by (meson split_list)
    have len: "length xs \<le> m" using cs d(3) by simp
    have found: "find_cell m (pure_next st) c 0 (ps_last_alloc r) = Inr (last (0 # xs), c)"
      by (rule find_cell_present [OF r(4) [unfolded cs] d(1) [unfolded cs] len])
    obtain e where e: "pure_next st c = Some e" "cells_ok (pure_next st) e ys" "xs = [] \<longrightarrow> ps_last_alloc r = c" "xs \<noteq> [] \<longrightarrow> cells_ok ((pure_next st)(last xs \<mapsto> e)) (ps_last_alloc r) (xs @ ys)" "0 \<notin> set xs"
      by (rule cells_split [OF r(4) [unfolded cs] d(1) [unfolded cs]])
    have c0: "c \<noteq> 0" using True cells_nonzero [OF r(4)] by auto
    have rem: "remove1 c (snd l) = xs @ ys" using cs d(1) by (simp add: remove1_append)
    have c: "c \<notin> set (cells ls)" using Cons.prems(2) True cells_addrs [of ls] by auto
    define st' where "st' = (if xs = [] then st\<lparr>pure_stacks := (pure_stacks st)(s \<mapsto> r\<lparr>ps_last_alloc := e\<rparr>)\<rparr> else st\<lparr>pure_next := (pure_next st)(last xs \<mapsto> e)\<rparr>)"
    have "splice_out s (last (0 # xs)) c st = Inr st'"
    proof -
      have "xs \<noteq> [] \<longrightarrow> last xs \<noteq> 0" using e(5) last_in_set [of xs] by metis
      then show ?thesis using e(1) r(3) by (cases "xs = []") (simp_all add: splice_out_def get_pure_stack_def st'_def)
    qed
    then have run: "find_and_splice k m c s st = Inr (True, st')"
      using r(2,3) k(1) found c0 by (subst find_and_splice.simps) (simp add: get_pure_stack_def)
    have in_l: "xs \<noteq> [] \<Longrightarrow> last xs \<in> set (snd l)" using cs by simp
    have "stacks_ok (pure_next st') (pure_stacks st') s (drop_cell c (l # ls))"
    proof -
      have rest: "stacks_ok (pure_next st') (pure_stacks st') (ps_prev_stack r) ls"
      proof (rule stacks_frame [OF r(5)])
        fix x assume x: "x \<in> set (addrs ls)"
        have "x \<noteq> s" "x \<notin> set (snd l)" using x Cons.prems(2) r(1) by auto
        then show "pure_next st' x = pure_next st x \<and> pure_stacks st' x = pure_stacks st x" using in_l by (cases "xs = []") (auto simp: st'_def)
      qed
      show ?thesis
      proof (cases "xs = []")
        case True
        then show ?thesis using rest r(1,2) e(2) rem c by (simp add: st'_def drop_cell_absent)
      next
        case False
        then show ?thesis using rest r(1,2,3) e(4) rem c by (simp add: st'_def drop_cell_absent)
      qed
    qed
    moreover have "\<forall>x. x \<notin> set (addrs (l # ls)) \<longrightarrow> pure_next st' x = pure_next st x \<and> pure_stacks st' x = pure_stacks st x"
      using in_l r(1) by (cases "xs = []") (auto simp: st'_def)
    moreover have "heap st' = heap st" "pool_pure_stack st' = pool_pure_stack st" by (simp_all add: st'_def)
    ultimately show ?thesis using run True by auto
  next
    case False
    obtain pv where "find_cell m (pure_next st) c 0 (ps_last_alloc r) = Inr (pv, 0)" using find_cell_absent [OF r(4) False d(3)] by blast
    then have run: "find_and_splice k m c s st = find_and_splice k' m c (ps_prev_stack r) st"
      using r(2,3) k(1) by (subst find_and_splice.simps) (simp add: get_pure_stack_def)
    note IH = Cons.IH [OF r(5) d(2) k(2) d(4)]
    show ?thesis
    proof (cases "c \<in> set (cells ls)")
      case True
      then obtain st' where st': "find_and_splice k' m c (ps_prev_stack r) st = Inr (True, st')" "heap st' = heap st" "pool_pure_stack st' = pool_pure_stack st"
        "stacks_ok (pure_next st') (pure_stacks st') (ps_prev_stack r) (drop_cell c ls)"
        "\<forall>x. x \<notin> set (addrs ls) \<longrightarrow> pure_next st' x = pure_next st x \<and> pure_stacks st' x = pure_stacks st x" using IH by auto
      have out: "fst l \<notin> set (addrs ls)" "\<And>x. x \<in> set (snd l) \<Longrightarrow> x \<notin> set (addrs ls)" using Cons.prems(2) by auto
      have "cells_ok (pure_next st') (ps_last_alloc r) (snd l)" using r(4) by (rule cells_frame) (use st'(5) out in simp)
      then have "stacks_ok (pure_next st') (pure_stacks st') s (drop_cell c (l # ls))" using st'(4,5) out(1) r(1,2,3) False by (simp add: remove1_idem)
      then show ?thesis using True run st' by auto
    qed (use IH run False in simp)
  qed
qed

lemma addrs_length: "level_wf s ls \<Longrightarrow> length (addrs ls) \<le> length s"
proof -
  assume wf: "level_wf s ls"
  have "set (addrs ls) \<subseteq> fst ` set s" using level_wfD(2) [OF wf] map_of_SomeD by force
  then have "card (set (addrs ls)) \<le> card (fst ` set s)" by (simp add: card_mono)
  also have "\<dots> \<le> length s" using card_length [of "map fst s"] by simp
  finally show ?thesis using distinct_card [OF level_wfD(1) [OF wf]] by simp
qed

lemma level_wf_drop:
  assumes "level_wf s ls" and "c \<in> set (cells ls)" and "\<And>x. x \<noteq> c \<Longrightarrow> map_of s' x = map_of s x"
  shows "level_wf s' (drop_cell c ls)"
proof -
  note d = addrs_drop [OF level_wfD(1) [OF assms(1)] assms(2)]
  have "\<exists>n. map_of s' x = Some n \<and> 8 \<le> n" if "x \<in> set (cells (drop_cell c ls))" for x
  proof -
    have "x \<noteq> c" using that d cells_addrs [of "drop_cell c ls"] by auto
    then show ?thesis using assms(3) [of x] level_wfD(3) [OF assms(1)] cells_drop [OF level_wfD(1) [OF assms(1)]] that by auto
  qed
  moreover have "map_of s' x \<noteq> None" if "x \<in> set (addrs (drop_cell c ls))" for x using that d assms(3) [of x] level_wfD(2) [OF assms(1), of x] by auto
  ultimately show ?thesis using d unfolding level_wf_def by blast
qed

lemma find_alloc_ok:
  assumes inv: "pure_inv st P" and c: "c \<in> set (cells (P p))"
  obtains st' where "find_alloc p c st = Inr (True, st')" "heap st' = heap st" "pool_pure_stack st' = pool_pure_stack st" "pure_inv st' (P(p := drop_cell c (P p)))"
proof -
  note S = pure_invD(2) [OF inv, of p] and wf = pure_invD(3) [OF inv, of p]
  have "pool_pure_stack st p \<noteq> 0" using S c by (cases "P p") auto
  moreover obtain st' where st': "find_and_splice (length (sys (heap st))) (length (sys (heap st))) c (pool_pure_stack st p) st = Inr (True, st')" "heap st' = heap st"
      "pool_pure_stack st' = pool_pure_stack st" "stacks_ok (pure_next st') (pure_stacks st') (pool_pure_stack st p) (drop_cell c (P p))"
      "\<forall>x. x \<notin> set (addrs (P p)) \<longrightarrow> pure_next st' x = pure_next st x \<and> pure_stacks st' x = pure_stacks st x"
    using find_and_splice_ok [OF S level_wfD(1) [OF wf] addrs_length [OF wf] addrs_length [OF wf], of c] c by auto
  ultimately have run: "find_alloc p c st = Inr (True, st')" by (simp add: find_alloc_def)
  have "pure_inv st' (P(p := drop_cell c (P p)))"
  proof (rule pure_inv_change [OF inv])
    show "level_wf (sys (heap st')) (drop_cell c (P p))" by (rule level_wf_drop [OF wf c]) (simp add: st'(2))
    show "\<And>x q. x \<in> set (addrs (drop_cell c (P p))) \<Longrightarrow> q \<noteq> p \<Longrightarrow> x \<notin> set (addrs (P q))"
      using addrs_drop [OF level_wfD(1) [OF wf] c] pure_invD(4) [OF inv, of p] by auto
    show "\<And>x q. q \<noteq> p \<Longrightarrow> x \<in> set (addrs (P q)) \<Longrightarrow>
        pure_next st' x = pure_next st x \<and> pure_stacks st' x = pure_stacks st x \<and> map_of (sys (heap st')) x = map_of (sys (heap st)) x"
      using st'(2,5) pure_invD(4) [OF inv] by metis
  qed (use st' pure_invD(1) [OF inv] in simp_all)
  then show thesis by (rule that [OF run st'(2,3)])
qed

lemma inv_freed:
  assumes inv: "pure_inv st P" and A: "\<And>q. A \<inter> set (addrs (P q)) = {}"
  shows "pure_inv (freed A st) P"
  unfolding pure_inv_def
proof (intro conjI allI impI)
  show "sys_ok (sys (heap (freed A st)))" using sys_ok_filter [OF pure_invD(1) [OF inv]] by (simp add: freed_sys)
  fix p
  have out: "x \<notin> A" if "x \<in> set (addrs (P p))" for x using A [of p] that by blast
  show "stacks_ok (pure_next (freed A st)) (pure_stacks (freed A st)) (pool_pure_stack (freed A st) p) (P p)"
    using stacks_frame [OF pure_invD(2) [OF inv]] out by simp
  show "level_wf (sys (heap (freed A st))) (P p)"
    using pure_invD(3) [OF inv, of p] out cells_addrs [of "P p"] unfolding level_wf_def by (simp add: subset_eq)
  show "\<And>q. p \<noteq> q \<Longrightarrow> set (addrs (P p)) \<inter> set (addrs (P q)) = {}" using pure_invD(4) [OF inv] by blast
qed

lemma FREE_pure_ok:
  assumes inv: "pure_inv st P" and p: "client_pool p" "pool_magic (mem_pools (heap st) p) = MAGIC_NUM" and c: "c \<in> set (cells (P p))"
  obtains st' where "MEM_POOL_FREE_pure p (c + 8) st = Inr st'" "pure_inv st' (P(p := drop_cell c (P p)))" "pure_kept st st' {c}"
    "sys (heap st') = filter (\<lambda>(b, _). b \<noteq> c) (sys (heap st))" "bytes (heap st') = bytes (heap st)" "mem_pools (heap st') = mem_pools (heap st)"
proof -
  obtain st1 where 1: "find_alloc p c st = Inr (True, st1)" "heap st1 = heap st" "pure_inv st1 (P(p := drop_cell c (P p)))" using find_alloc_ok [OF inv c] by blast
  note wf = pure_invD(3) [OF inv, of p]
  have area: "map_of (sys (heap st)) c \<noteq> None" using level_wfD(3) [OF wf c] by auto
  then have "0 < c" using sys_okD(2) [OF pure_invD(1) [OF inv]] map_of_SomeD by fastforce
  then have run: "MEM_POOL_FREE_pure p (c + 8) st = Inr (freed {c} st1)"
    using p 1(1,2) pure_free_one [of st1 c] area by (simp add: MEM_POOL_FREE_pure_def resolve_pool_def pool_of_def client_pool_def)
  have "c \<notin> set (addrs ((P(p := drop_cell c (P p))) q))" for q
    using addrs_drop [OF level_wfD(1) [OF wf] c] pure_invD(4) [OF inv, of p q c] c cells_addrs [of "P p"] by auto
  then have "pure_inv (freed {c} st1) (P(p := drop_cell c (P p)))" by (intro inv_freed [OF 1(3)]) blast
  moreover have "pure_kept st (freed {c} st1) {c}" using freed_kept [of st1 "{c}"] by (simp add: pure_kept_def 1(2))
  ultimately show thesis by (rule that [OF run]) (simp_all add: freed_sys 1(2))
qed

end
