(* ===== verification/Memory_Purify_Machine.thy ===== *)
theory Memory_Purify_Machine
  imports Memory_Purify_Inv
begin

text \<open>
  Reallocation, initialisation and deletion with the purify option, and a machine for clients that call the operations in any order.
\<close>

section \<open>Reallocation\<close>

context c_library
begin

lemma pure_realloc_ok:
  assumes inv: "pure_inv st P" and c: "\<And>q. c \<notin> set (addrs (P q))" "map_of (sys (heap st)) c = Some m" and n: "0 < n"
  obtains (no_memory) "pure_realloc os c n st = Inr (0, st)" "os_realloc os (filter (\<lambda>(b, _). b \<noteq> c) (sys (heap st))) c n = 0"
  | (moved) b st' where "pure_realloc os c n st = Inr (b, st')" "0 < b" "\<And>q. b \<notin> set (addrs (P q))" "pure_inv st' P" "map_of (sys (heap st')) b = Some n"
      "pure_kept st st' {c}" "\<forall>i. 0 \<le> i \<longrightarrow> i < min m n \<longrightarrow> bytes (heap st') (b + i) = bytes (heap st) (c + i)"
      "mem_pools (heap st') = mem_pools (heap st)" "pool_pure_stack st' = pool_pure_stack st" "sys_ok (sys (heap st'))"
      "\<forall>x. x \<noteq> c \<longrightarrow> map_of (sys (heap st)) x \<noteq> None \<longrightarrow> x \<noteq> b"
      "os_realloc os (filter (\<lambda>(b, _). b \<noteq> c) (sys (heap st))) c n \<noteq> 0"
proof -
  note finish = that
  let ?others = "filter (\<lambda>(b, _). b \<noteq> c) (sys (heap st))"
  define b where "b = os_realloc os ?others c n"
  have "0 < c" using sys_okD(2) [OF pure_invD(1) [OF inv]] map_of_SomeD [OF c(2)] by blast
  then have c0: "c \<noteq> 0" by simp
  have others: "map_of ?others x = map_of (sys (heap st)) x" if "x \<noteq> c" for x using map_of_freed [of x "{c}" "sys (heap st)"] that by simp
  show thesis
  proof (cases "b = 0")
    case True
    then show ?thesis using finish(1) c(2) c0 by (simp add: pure_realloc_def c_realloc_def Let_def b_def)
  next
    case False
    have ok: "sys_ok ((b, n) # ?others)" using realloc_fresh [OF sys_ok_filter [OF pure_invD(1) [OF inv]] n] False by (simp add: b_def)
    define st' where "st' = st\<lparr>heap := (heap st)\<lparr>sys := (b, n) # ?others,
        bytes := (\<lambda>x. if b \<le> x \<and> x < b + min m n then bytes (heap st) (c + (x - b)) else bytes (heap st) x)\<rparr>, pure_next := (pure_next st)(c := None, b := pure_next st c)\<rparr>"
    have run: "pure_realloc os c n st = Inr (b, st')" using c(2) c0 False by (simp add: pure_realloc_def c_realloc_def Let_def b_def [symmetric] st'_def cong: if_cong)
    have wf: "level_wf ?others (P q)" for q
    proof -
      have "map_of ?others x = map_of (sys (heap st)) x" if "x \<in> set (addrs (P q))" for x using others that c(1) by metis
      then show ?thesis using pure_invD(3) [OF inv, of q] cells_addrs [of "P q"] unfolding level_wf_def by (auto simp: subset_eq)
    qed
    have new: "b \<notin> set (addrs (P q))" for q by (rule area_new [OF ok wf])
    have sys: "map_of (sys (heap st')) x = map_of (sys (heap st)) x" if "x \<noteq> c" "x \<noteq> b" for x using others [OF that(1)] that(2) by (simp add: st'_def)
    have "pure_inv st' P"
      unfolding pure_inv_def
    proof (intro conjI allI impI)
      show "sys_ok (sys (heap st'))" using ok by (simp add: st'_def)
      fix p
      have ne: "x \<noteq> c" "x \<noteq> b" if "x \<in> set (addrs (P p))" for x using that c(1) new by metis+
      show "stacks_ok (pure_next st') (pure_stacks st') (pool_pure_stack st' p) (P p)"
      proof -
        have "stacks_ok (pure_next st') (pure_stacks st') (pool_pure_stack st p) (P p)" by (rule stacks_frame [OF pure_invD(2) [OF inv]]) (use ne in \<open>simp add: st'_def\<close>)
        then show ?thesis by (simp add: st'_def)
      qed
      have "map_of (sys (heap st')) x = map_of (sys (heap st)) x" if "x \<in> set (addrs (P p))" for x using sys ne that by blast
      then show "level_wf (sys (heap st')) (P p)" using pure_invD(3) [OF inv, of p] cells_addrs [of "P p"] unfolding level_wf_def by (auto simp: subset_eq)
      show "\<And>q. p \<noteq> q \<Longrightarrow> set (addrs (P p)) \<inter> set (addrs (P q)) = {}" using pure_invD(4) [OF inv] by blast
    qed
    moreover have "pure_kept st st' {c}"
      unfolding pure_kept_def
    proof (intro allI impI conjI)
      fix x k assume x: "map_of (sys (heap st)) x = Some k" "x \<notin> {c}"
      then have xo: "map_of ?others x = Some k" using others by simp
      note ne = map_of_fresh [OF ok xo]
      show "map_of (sys (heap st')) x = Some k" using sys [of x] ne x by simp
      have "apart x k b n" using sys_okD(3) [OF ok, of x k b n] map_of_SomeD [OF xo] ne by simp
      then show "x \<le> y \<Longrightarrow> y < x + k \<Longrightarrow> bytes (heap st') y = bytes (heap st) y" for y by (auto simp: st'_def apart_def)
    qed
    moreover have "\<forall>x. x \<noteq> c \<longrightarrow> map_of (sys (heap st)) x \<noteq> None \<longrightarrow> x \<noteq> b" using map_of_fresh [OF ok] others by (metis not_None_eq)
    ultimately show ?thesis using finish(2) [OF run _ new] sys_ok_fresh [OF ok] ok False by (simp add: st'_def b_def [symmetric])
  qed
qed

lemma Realloc_pure_ok:
  assumes inv: "pure_inv st P" and p: "client_pool p" "pool_magic (mem_pools (heap st) p) = MAGIC_NUM" and P: "P p = (s, cs) # ls"
    and c: "c \<in> set (cells (P p))" "map_of (sys (heap st)) c = Some (uint old_size + 8)" and sz: "size_ok new_size" "0 < new_size"
  obtains (no_memory) "MEM_POOL_Realloc_pure os p (c + 8) old_size new_size st = Inl FmtAssert_Failed"
      "os_realloc os (filter (\<lambda>(b, _). b \<noteq> c) (sys (heap st))) c (uint new_size + 8) = 0"
  | (moved) b st' where "MEM_POOL_Realloc_pure os p (c + 8) old_size new_size st = Inr (b + 8, st')" "pure_inv st' (P(p := (s, b # remove1 c cs) # drop_cell c ls))"
      "map_of (sys (heap st')) b = Some (uint new_size + 8)" "0 < b" "pure_kept st st' {c}" "\<forall>q. b \<notin> set (addrs ((P(p := drop_cell c (P p))) q))"
      "\<forall>i. 0 \<le> i \<longrightarrow> i < uint new_size \<longrightarrow> bytes (heap st') (b + 8 + i) = (if i < uint old_size then bytes (heap st) (c + 8 + i) else 0)"
      "\<exists>k. mem_pools (heap st') = (mem_pools (heap st))(p := (mem_pools (heap st) p)\<lparr>pool_blocks := k\<rparr>)"
      "os_realloc os (filter (\<lambda>(b, _). b \<noteq> c) (sys (heap st))) c (uint new_size + 8) \<noteq> 0"
proof -
  note finish = that
  define n where "n = uint new_size + 8"
  have ge: "0 \<le> uint new_size" "0 \<le> uint old_size" by simp_all
  have n: "0 < n" "8 \<le> n" "u64 n = n" using sz(1) ge unfolding n_def u64_def size_ok_def by (linarith, linarith, simp)
  have c0: "0 < c" using sys_okD(2) [OF pure_invD(1) [OF inv]] map_of_SomeD [OF c(2)] by blast
  let ?st0 = "mark_pushed p st" and ?P1 = "P(p := drop_cell c (P p))"
  have inv0: "pure_inv ?st0 P" using inv by (simp add: pure_inv_def)
  obtain k where k: "mem_pools (heap ?st0) = (mem_pools (heap st))(p := (mem_pools (heap st) p)\<lparr>pool_blocks := k\<rparr>)" by (rule mark_pushed_pools)
  from find_alloc_ok [OF inv0 c(1)] obtain st1 where 1: "find_alloc p c ?st0 = Inr (True, st1)" "heap st1 = heap ?st0" "pure_inv st1 ?P1" by blast
  note wf = pure_invD(3) [OF inv, of p]
  have out: "c \<notin> set (addrs (?P1 q))" for q
    using addrs_drop [OF level_wfD(1) [OF wf] c(1)] pure_invD(4) [OF inv, of p q c] c(1) cells_addrs [of "P p"] by auto
  have run: "MEM_POOL_Realloc_pure os p (c + 8) old_size new_size st = bindE (pure_realloc os c n st1) (\<lambda>(ret_val, st).
      bindE (FmtAssert (ret_val \<noteq> 0)) (\<lambda>_. bindE (link_alloc p ret_val st) (\<lambda>st.
      bindE (if old_size < new_size then pure_fill (ret_val + 8 + uint old_size) (uint new_size - uint old_size) 0 st else Inr st) (\<lambda>st. Inr (ret_val + 8, st)))))"
    using p c0 1(1) n(3) sz(2)
    by (simp add: MEM_POOL_Realloc_pure_def pure_Realloc_def resolve_pool_def pool_of_def client_pool_def n_def [symmetric] Let_def)
  have m: "map_of (sys (heap st1)) c = Some (uint old_size + 8)" using c(2) 1(2) by simp
  from 1(3) out m n(1) show thesis
  proof (cases rule: pure_realloc_ok)
    case no_memory
    then show ?thesis using finish(1) run 1(2) by (simp add: n_def)
  next
    case (moved b st2)
    have P1: "?P1 p = (s, remove1 c cs) # drop_cell c ls" using P by simp
    obtain st3 where 3: "link_alloc p b st2 = Inr st3" "pure_inv st3 (?P1(p := (s, b # remove1 c cs) # drop_cell c ls))" "heap st3 = heap st2"
      by (rule link_alloc_ok [OF moved(4) P1 moved(3,2,5) n(2)])
    define mem where "mem = (if uint old_size < uint new_size then (\<lambda>x. if b + 8 + uint old_size \<le> x \<and> x < b + 8 + uint new_size then 0 else bytes (heap st2) x) else bytes (heap st2))"
    define st4 where "st4 = st3\<lparr>heap := (heap st2)\<lparr>bytes := mem\<rparr>\<rparr>"
    have area: "(b, n) \<in> set (sys (heap st2))" using map_of_SomeD [OF moved(5)] .
    have "(if old_size < new_size then pure_fill (b + 8 + uint old_size) (uint new_size - uint old_size) 0 st3 else Inr st3) = Inr st4"
    proof (cases "uint old_size < uint new_size")
      case True
      have "in_sys (heap st2) (b + 8 + uint old_size) (uint new_size - uint old_size)"
        unfolding in_sys_def using area ge by (intro disjI2 bexI [of _ "(b, n)"]) (simp_all add: n_def)
      then show ?thesis using True by (simp add: word_less_def pure_fill_def fill_def 3(3) st4_def mem_def add.assoc)
    next
      case False
      have "st3\<lparr>heap := heap st2\<rparr> = st3" using 3(3) by simp
      then show ?thesis using False by (simp add: word_less_def st4_def mem_def)
    qed
    then have run': "MEM_POOL_Realloc_pure os p (c + 8) old_size new_size st = Inr (b + 8, st4)" using run moved(1,2) 3(1) by simp
    have inv4: "pure_inv st4 (P(p := (s, b # remove1 c cs) # drop_cell c ls))" using 3(2,3) by (simp add: pure_inv_def st4_def)
    have "bytes (heap st2) (b + i) = bytes (heap st) (c + i)" if "0 \<le> i" "i < min (uint old_size + 8) n" for i using moved(7) that 1(2) by simp
    then have contents: "\<forall>i. 0 \<le> i \<longrightarrow> i < uint new_size \<longrightarrow> bytes (heap st4) (b + 8 + i) = (if i < uint old_size then bytes (heap st) (c + 8 + i) else 0)"
      using ge by (auto simp: st4_def mem_def n_def add.assoc)
    have "pure_kept st st4 {c}"
      unfolding pure_kept_def
    proof (intro allI impI conjI)
      fix x k assume x: "map_of (sys (heap st)) x = Some k" "x \<notin> {c}"
      then have x1: "map_of (sys (heap st1)) x = Some k" using 1(2) by simp
      have x2: "map_of (sys (heap st2)) x = Some k" using pure_keptD [OF moved(6) x1 x(2)] .
      then show "map_of (sys (heap st4)) x = Some k" by (simp add: st4_def)
      have "x \<noteq> b" using moved(11) x1 x(2) by auto
      then have ap: "apart x k b n" using sys_okD(3) [OF moved(10) map_of_SomeD [OF x2] area] by simp
      moreover have "bytes (heap st2) y = bytes (heap st) y" if "x \<le> y" "y < x + k" for y using moved(6) x1 x(2) that 1(2) unfolding pure_kept_def by simp
      moreover have "bytes (heap st4) y = bytes (heap st2) y" if "x \<le> y" "y < x + k" for y
      proof -
        have "\<not> (b + 8 + uint old_size \<le> y \<and> y < b + 8 + uint new_size)" using ap that ge unfolding apart_def n_def by linarith
        then show ?thesis by (auto simp: st4_def mem_def)
      qed
      ultimately show "x \<le> y \<Longrightarrow> y < x + k \<Longrightarrow> bytes (heap st4) y = bytes (heap st) y" for y by simp
    qed
    then show ?thesis using finish(2) [OF run' inv4 _ moved(2) _ _ contents] moved(3,5,8,12) k 1(2) by (auto simp: st4_def n_def)
  qed
qed

end

section \<open>Initialisation and deletion\<close>

lemma pure_inv_pool [simp]: "pure_inv (set_pure_pool p pool st) P \<longleftrightarrow> pure_inv st P"
  by (simp add: pure_inv_def set_pure_pool_def set_pool_def)

lemma set_pure_pool_simps [simp]: "sys (heap (set_pure_pool p pool st)) = sys (heap st)" "bytes (heap (set_pure_pool p pool st)) = bytes (heap st)"
    "mem_pools (heap (set_pure_pool p pool st)) = (mem_pools (heap st))(p := pool)" "pool_pure_stack (set_pure_pool p pool st) = pool_pure_stack st"
  by (simp_all add: set_pure_pool_def set_pool_def)

lemma pop_all_pure_ok:
  assumes "pure_inv st P" and "client_pool p" and "pool_magic (mem_pools (heap st) p) = MAGIC_NUM" and "\<not> pool_frozen (mem_pools (heap st) p)"
  shows "\<exists>st'. pop_all_pure p st = Inr st' \<and> pure_inv st' (P(p := [])) \<and> sys (heap st') = filter (\<lambda>(b, _). b \<notin> set (addrs (P p))) (sys (heap st)) \<and>
    bytes (heap st') = bytes (heap st) \<and> mem_pools (heap st') = mem_pools (heap st)"
  using assms
proof (induction "P p" arbitrary: st P)
  case Nil
  have "pool_pure_stack st p = 0" using pure_invD(2) [OF Nil.prems(1), of p] Nil.hyps by simp
  moreover have "P(p := []) = P" using Nil.hyps by auto
  ultimately show ?case using Nil.prems(1) Nil.hyps [symmetric] by (simp add: pop_all_pure.simps)
next
  case (Cons l ls)
  obtain s cs where l: "P p = (s, cs) # ls" using Cons.hyps(2) by (metis surj_pair)
  have nz: "pool_pure_stack st p \<noteq> 0" using pure_invD(2) [OF Cons.prems(1), of p] l by auto
  from Pop_pure_ok [OF Cons.prems l] obtain st1 where 1: "MEM_POOL_Pop_pure p st = Inr st1" "pure_inv st1 (P(p := ls))"
    "sys (heap st1) = filter (\<lambda>(b, _). b \<notin> insert s (set cs)) (sys (heap st))" "bytes (heap st1) = bytes (heap st)" "mem_pools (heap st1) = mem_pools (heap st)" by metis
  have "\<exists>st'. pop_all_pure p st1 = Inr st' \<and> pure_inv st' ((P(p := ls))(p := [])) \<and> sys (heap st') = filter (\<lambda>(b, _). b \<notin> set (addrs ((P(p := ls)) p))) (sys (heap st1)) \<and>
    bytes (heap st') = bytes (heap st1) \<and> mem_pools (heap st') = mem_pools (heap st1)"
    by (rule Cons.hyps(1) [OF _ 1(2)]) (use Cons.prems 1(5) in simp_all)
  then obtain st' where st': "pop_all_pure p st1 = Inr st'" "pure_inv st' (P(p := []))" "sys (heap st') = filter (\<lambda>(b, _). b \<notin> set (addrs ls)) (sys (heap st1))"
    "bytes (heap st') = bytes (heap st1)" "mem_pools (heap st') = mem_pools (heap st1)" by auto
  have "sys (heap st') = filter (\<lambda>(b, _). b \<notin> set (addrs (P p))) (sys (heap st))" unfolding st'(3) 1(3) filter_filter l by (rule filter_cong) auto
  then show ?case using 1 st' nz by (subst pop_all_pure.simps) simp
qed

lemma Delete_pure_ok:
  assumes inv: "pure_inv st P" and p: "client_pool p" "pool_magic (mem_pools (heap st) p) = MAGIC_NUM" "\<not> pool_frozen (mem_pools (heap st) p)"
  obtains st' where "MEM_POOL_Delete_pure p st = Inr st'" "pure_inv st' (P(p := []))" "sys (heap st') = filter (\<lambda>(b, _). b \<notin> set (addrs (P p))) (sys (heap st))"
    "bytes (heap st') = bytes (heap st)" "mem_pools (heap st') = (mem_pools (heap st))(p := (mem_pools (heap st) p)\<lparr>pool_magic := 0\<rparr>)"
proof -
  obtain st1 where 1: "pop_all_pure p st = Inr st1" "pure_inv st1 (P(p := []))" "sys (heap st1) = filter (\<lambda>(b, _). b \<notin> set (addrs (P p))) (sys (heap st))"
    "bytes (heap st1) = bytes (heap st)" "mem_pools (heap st1) = mem_pools (heap st)" using pop_all_pure_ok [OF inv p] by blast
  have "(if pool_pure_stack st p = 0 then Inr st else bindE (MEM_POOL_Pop_pure p st) (pop_all_pure p)) = Inr st1"
    using 1(1) by (subst (asm) pop_all_pure.simps) simp
  then have "MEM_POOL_Delete_pure p st = Inr (set_pure_pool p ((mem_pools (heap st1) p)\<lparr>pool_magic := 0\<rparr>) st1)"
    using p by (simp add: MEM_POOL_Delete_pure_def resolve_pool_def pool_of_def client_pool_def)
  then show thesis by (rule that) (use 1 in simp_all)
qed

context c_library
begin

lemma Initialize_pure_ok:
  assumes inv: "pure_inv st P" and p: "client_pool p" "pool_magic (mem_pools (heap st) p) \<noteq> MAGIC_NUM" "P p = []"
  obtains (no_memory) "MEM_POOL_Initialize_pure os p bz st = Inl Is_True_Failed" "os_malloc os (sys (heap st)) 16 = 0"
  | (initialized) st' s where "MEM_POOL_Initialize_pure os p bz st = Inr st'" "pure_inv st' (P(p := [(s, [])]))" "pure_kept st st' {}"
      "mem_pools (heap st') = (mem_pools (heap st))(p := \<lparr>pool_blocks = 0, pool_bz = bz, pool_frozen = False, pool_magic = MAGIC_NUM\<rparr>)" "os_malloc os (sys (heap st)) 16 \<noteq> 0"
proof -
  note finish = that
  define st0 where "st0 = set_pure_pool p \<lparr>pool_blocks = MEM_POOL_INIT_IN_PROGRESS, pool_bz = bz, pool_frozen = False, pool_magic = MAGIC_NUM\<rparr> (st\<lparr>pool_pure_stack := (pool_pure_stack st)(p := 0)\<rparr>)"
  have "pool_pure_stack st p = 0" using pure_invD(2) [OF inv, of p] p(3) by simp
  then have "st\<lparr>pool_pure_stack := (pool_pure_stack st)(p := 0)\<rparr> = st" using fun_upd_triv [of "pool_pure_stack st" p] by simp
  then have inv0: "pure_inv st0 P" using inv by (simp add: st0_def)
  have sys: "sys (heap st0) = sys (heap st)" "bytes (heap st0) = bytes (heap st)" by (simp_all add: st0_def)
  have run: "MEM_POOL_Initialize_pure os p bz st = bindE (MEM_POOL_Push_pure os p st0) (\<lambda>st. Inr (set_pure_pool p ((mem_pools (heap st) p)\<lparr>pool_blocks := 0\<rparr>) st))"
    using p by (simp add: MEM_POOL_Initialize_pure_def resolve_pool_def pool_of_def client_pool_def st0_def)
  have pool: "pool_magic (mem_pools (heap st0) p) = MAGIC_NUM" "\<not> pool_frozen (mem_pools (heap st0) p)" by (simp_all add: st0_def)
  from inv0 p(1) pool show thesis
  proof (cases rule: Push_pure_ok)
    case no_memory
    then show ?thesis using finish(1) run sys by simp
  next
    case (pushed st' s)
    let ?st' = "set_pure_pool p ((mem_pools (heap st') p)\<lparr>pool_blocks := 0\<rparr>) st'"
    have "MEM_POOL_Initialize_pure os p bz st = Inr ?st'" using run pushed(1) by simp
    moreover have "pure_inv ?st' (P(p := [(s, [])]))" using pushed(2) p(3) by simp
    moreover have "pure_kept st ?st' {}" using pushed(3) sys by (simp add: pure_kept_def)
    moreover have "mem_pools (heap ?st') = (mem_pools (heap st))(p := \<lparr>pool_blocks = 0, pool_bz = bz, pool_frozen = False, pool_magic = MAGIC_NUM\<rparr>)"
      using pushed(4) by (simp add: st0_def)
    ultimately show ?thesis using finish(2) pushed(5) sys by metis
  qed
qed

end

section \<open>The levels of a state\<close>

fun walk_cells :: "nat \<Rightarrow> (int \<rightharpoonup> int) \<Rightarrow> int \<Rightarrow> int list" where
  "walk_cells 0 nx c = []"
| "walk_cells (Suc k) nx c = (if c = 0 then [] else case nx c of None \<Rightarrow> [] | Some d \<Rightarrow> c # walk_cells k nx d)"

fun walk_stacks :: "nat \<Rightarrow> nat \<Rightarrow> (int \<rightharpoonup> int) \<Rightarrow> (int \<rightharpoonup> mem_pure_stack) \<Rightarrow> int \<Rightarrow> pure_level list" where
  "walk_stacks 0 m nx ps s = []"
| "walk_stacks (Suc k) m nx ps s =
     (if s = 0 then []
      else case ps s of None \<Rightarrow> [] | Some r \<Rightarrow> (s, walk_cells m nx (ps_last_alloc r)) # walk_stacks k m nx ps (ps_prev_stack r))"

definition pure_levels :: "pure_state \<Rightarrow> int \<Rightarrow> pure_level list" where
  "pure_levels st p = (let k = length (sys (heap st)) in walk_stacks k k (pure_next st) (pure_stacks st) (pool_pure_stack st p))"

lemma walk_cells_ok: "cells_ok nx c cs \<Longrightarrow> length cs \<le> k \<Longrightarrow> walk_cells k nx c = cs"
proof (induction cs arbitrary: k c)
  case Nil
  then show ?case by (cases k) auto
next
  case (Cons x xs)
  then show ?case by (cases k) auto
qed

lemma walk_stacks_ok: "stacks_ok nx ps s ls \<Longrightarrow> length (addrs ls) \<le> k \<Longrightarrow> length (addrs ls) \<le> m \<Longrightarrow> walk_stacks k m nx ps s = ls"
proof (induction ls arbitrary: k s)
  case Nil
  then show ?case by (cases k) auto
next
  case (Cons l ls)
  then show ?case by (cases k) (auto simp: walk_cells_ok)
qed

lemma pure_levels_eq: "pure_inv st P \<Longrightarrow> pure_levels st = P"
proof
  fix p assume inv: "pure_inv st P"
  note wf = pure_invD(3) [OF inv, of p]
  show "pure_levels st p = P p"
    unfolding pure_levels_def Let_def by (rule walk_stacks_ok [OF pure_invD(2) [OF inv] addrs_length [OF wf] addrs_length [OF wf]])
qed

definition pure_ok :: "pure_state \<Rightarrow> bool" where
  "pure_ok st \<longleftrightarrow> pure_inv st (pure_levels st) \<and> (\<forall>p. pure_levels st p \<noteq> [] \<longrightarrow> in_use (heap st) p)"

definition pure_pool_stack :: "pure_state \<Rightarrow> int \<Rightarrow> int set list" where
  "pure_pool_stack st p = pure_live st (pure_levels st p)"

lemma pure_okI: "pure_inv st P \<Longrightarrow> (\<And>p. P p \<noteq> [] \<Longrightarrow> in_use (heap st) p) \<Longrightarrow> pure_ok st \<and> pure_levels st = P"
  using pure_levels_eq [of st P] by (simp add: pure_ok_def)

lemma pure_okD: "pure_ok st \<Longrightarrow> pure_inv st (pure_levels st)" "pure_ok st \<Longrightarrow> pure_levels st p \<noteq> [] \<Longrightarrow> in_use (heap st) p"
  by (simp_all add: pure_ok_def)

section \<open>The client's operations\<close>

fun pure_exec :: "os_heap \<Rightarrow> pool_op \<Rightarrow> pure_state \<Rightarrow> pure_state res" where
  "pure_exec os (Op_Initialize p bz) st = MEM_POOL_Initialize_pure os p bz st"
| "pure_exec os (Op_Alloc p n) st = bindE (MEM_POOL_Alloc_pure os p n st) (\<lambda>(_, st). Inr st)"
| "pure_exec os (Op_Free p a) st = MEM_POOL_FREE_pure p a st"
| "pure_exec os (Op_Realloc p a m n) st = bindE (MEM_POOL_Realloc_pure os p a m n st) (\<lambda>(_, st). Inr st)"
| "pure_exec os (Op_Push p) st = MEM_POOL_Push_pure os p st"
| "pure_exec os (Op_Pop p) st = MEM_POOL_Pop_pure p st"
| "pure_exec os (Op_Push_Freeze p) st = MEM_POOL_Push_Freeze_pure os p st"
| "pure_exec os (Op_Pop_Unfreeze p) st = MEM_POOL_Pop_Unfreeze_pure p st"
| "pure_exec os (Op_Delete p) st = MEM_POOL_Delete_pure p st"
| "pure_exec os (Op_Write p x v) st = Inr (st\<lparr>heap := (heap st)\<lparr>bytes := (bytes (heap st))(x := v)\<rparr>\<rparr>)"

fun pure_allowed :: "pure_state \<Rightarrow> pool_op \<Rightarrow> bool" where
  "pure_allowed st (Op_Initialize p bz) \<longleftrightarrow> client_pool p \<and> pool_magic (mem_pools (heap st) p) \<noteq> MAGIC_NUM"
| "pure_allowed st (Op_Alloc p n) \<longleftrightarrow> pure_levels st p \<noteq> [] \<and> size_ok n"
| "pure_allowed st (Op_Free p a) \<longleftrightarrow> a - 8 \<in> set (cells (pure_levels st p))"
| "pure_allowed st (Op_Realloc p a m n) \<longleftrightarrow> a - 8 \<in> set (cells (pure_levels st p)) \<and> map_of (sys (heap st)) (a - 8) = Some (uint m + 8) \<and> size_ok n \<and> 0 < n"
| "pure_allowed st (Op_Push p) \<longleftrightarrow> in_use (heap st) p \<and> \<not> pool_frozen (mem_pools (heap st) p)"
| "pure_allowed st (Op_Pop p) \<longleftrightarrow> pure_levels st p \<noteq> [] \<and> \<not> pool_frozen (mem_pools (heap st) p)"
| "pure_allowed st (Op_Push_Freeze p) \<longleftrightarrow> in_use (heap st) p \<and> \<not> pool_frozen (mem_pools (heap st) p)"
| "pure_allowed st (Op_Pop_Unfreeze p) \<longleftrightarrow> pure_levels st p \<noteq> [] \<and> pool_frozen (mem_pools (heap st) p)"
| "pure_allowed st (Op_Delete p) \<longleftrightarrow> in_use (heap st) p \<and> \<not> pool_frozen (mem_pools (heap st) p)"
| "pure_allowed st (Op_Write p x v) \<longleftrightarrow> (\<exists>X \<in> set (pure_pool_stack st p). x \<in> X)"

text \<open>The calls in which the C library has no memory.\<close>

fun pure_fails :: "os_heap \<Rightarrow> pure_state \<Rightarrow> pool_op \<Rightarrow> bool" where
  "pure_fails os st (Op_Initialize p bz) \<longleftrightarrow> os_malloc os (sys (heap st)) 16 = 0"
| "pure_fails os st (Op_Alloc p n) \<longleftrightarrow> os_malloc os (sys (heap st)) (uint n + 8) = 0"
| "pure_fails os st (Op_Realloc p a m n) \<longleftrightarrow> os_realloc os (filter (\<lambda>(b, _). b \<noteq> a - 8) (sys (heap st))) (a - 8) (uint n + 8) = 0"
| "pure_fails os st (Op_Push p) \<longleftrightarrow> os_malloc os (sys (heap st)) 16 = 0"
| "pure_fails os st (Op_Push_Freeze p) \<longleftrightarrow> os_malloc os (sys (heap st)) 16 = 0"
| "pure_fails os st op \<longleftrightarrow> False"

inductive pure_step :: "os_heap \<Rightarrow> pure_state \<Rightarrow> pure_state \<Rightarrow> bool" for os where
  call: "pure_allowed st op \<Longrightarrow> pure_exec os op st = Inr st' \<Longrightarrow> pure_step os st st'"

lemma in_use_magic: "pool_magic (mem_pools h' p) = pool_magic (mem_pools h p) \<Longrightarrow> in_use h' p = in_use h p"
  by (simp add: in_use_def)

text \<open>The use of the pools after an operation that gives the pool \<open>p\<close> the levels \<open>ls\<close>.\<close>

lemma pure_ok_update:
  assumes ok: "pure_ok st" and inv: "pure_inv st' ((pure_levels st)(p := ls))" and p: "ls \<noteq> [] \<Longrightarrow> in_use (heap st') p"
    and others: "\<And>q. q \<noteq> p \<Longrightarrow> pool_magic (mem_pools (heap st') q) = pool_magic (mem_pools (heap st) q)"
  shows "pure_ok st'" and "pure_levels st' = (pure_levels st)(p := ls)"
proof -
  have "in_use (heap st') q" if "((pure_levels st)(p := ls)) q \<noteq> []" for q
  proof (cases "q = p")
    case True
    then show ?thesis using that p by simp
  next
    case False
    then show ?thesis using that pure_okD(2) [OF ok, of q] in_use_magic [OF others [OF False]] by simp
  qed
  then have "pure_ok st' \<and> pure_levels st' = (pure_levels st)(p := ls)" by (rule pure_okI [OF inv])
  then show "pure_ok st'" "pure_levels st' = (pure_levels st)(p := ls)" by simp_all
qed

lemma in_use_magicD: "in_use h p \<Longrightarrow> client_pool p" "in_use h p \<Longrightarrow> pool_magic (mem_pools h p) = MAGIC_NUM"
  by (simp_all add: in_use_def)

lemma pure_write_ok: "pure_ok st \<Longrightarrow> pure_ok (st\<lparr>heap := (heap st)\<lparr>bytes := b\<rparr>\<rparr>) \<and> pure_levels (st\<lparr>heap := (heap st)\<lparr>bytes := b\<rparr>\<rparr>) = pure_levels st"
  by (rule pure_okI) (auto simp: pure_ok_def pure_inv_def in_use_def)

lemma pure_frozen_ok:
  assumes "pure_ok st"
  shows "pure_ok (set_pure_pool p ((mem_pools (heap st) p)\<lparr>pool_frozen := b\<rparr>) st)" and "pure_levels (set_pure_pool p ((mem_pools (heap st) p)\<lparr>pool_frozen := b\<rparr>) st) = pure_levels st"
proof -
  have "pure_ok (set_pure_pool p ((mem_pools (heap st) p)\<lparr>pool_frozen := b\<rparr>) st) \<and> pure_levels (set_pure_pool p ((mem_pools (heap st) p)\<lparr>pool_frozen := b\<rparr>) st) = pure_levels st"
    by (rule pure_okI) (use assms in \<open>auto simp: pure_ok_def in_use_def\<close>)
  then show "pure_ok (set_pure_pool p ((mem_pools (heap st) p)\<lparr>pool_frozen := b\<rparr>) st)" "pure_levels (set_pure_pool p ((mem_pools (heap st) p)\<lparr>pool_frozen := b\<rparr>) st) = pure_levels st" by simp_all
qed

text \<open>What the operations do to the state that clients see.\<close>

lemma pop_pure:
  assumes ok: "pure_ok st" and p: "pure_levels st p = (s, cs) # ls" "\<not> pool_frozen (mem_pools (heap st) p)"
  obtains st' where "MEM_POOL_Pop_pure p st = Inr st'" "pure_ok st'" "pure_levels st' = (pure_levels st)(p := ls)" "pure_kept st st' (insert s (set cs))"
    "sys (heap st') = filter (\<lambda>(b, _). b \<notin> insert s (set cs)) (sys (heap st))" "bytes (heap st') = bytes (heap st)" "mem_pools (heap st') = mem_pools (heap st)"
proof -
  have use: "in_use (heap st) p" using pure_okD(2) [OF ok] p(1) by simp
  obtain st' where st': "MEM_POOL_Pop_pure p st = Inr st'" "pure_inv st' ((pure_levels st)(p := ls))" "pure_kept st st' (insert s (set cs))"
      "sys (heap st') = filter (\<lambda>(b, _). b \<notin> insert s (set cs)) (sys (heap st))" "bytes (heap st') = bytes (heap st)" "mem_pools (heap st') = mem_pools (heap st)"
    by (rule Pop_pure_ok [OF pure_okD(1) [OF ok] in_use_magicD [OF use] p(2,1)])
  have "in_use (heap st') p" using use st'(6) by (simp add: in_use_def)
  note u = pure_ok_update [OF ok st'(2) this]
  show thesis by (rule that [OF st'(1) u(1) u(2) st'(3-6)]) (simp_all add: st'(6))
qed

text \<open>A call that keeps the invariant, or finds no memory.\<close>

abbreviation pure_step_safe :: "os_heap \<Rightarrow> pure_state \<Rightarrow> pool_op \<Rightarrow> bool" where
  "pure_step_safe os st op \<equiv> (if pure_fails os st op then \<exists>e. pure_exec os op st = Inl e else \<exists>st'. pure_exec os op st = Inr st' \<and> pure_ok st')"

context c_library
begin

lemma push_pure:
  assumes ok: "pure_ok st" and use: "in_use (heap st) p" "\<not> pool_frozen (mem_pools (heap st) p)" and mem: "os_malloc os (sys (heap st)) 16 \<noteq> 0"
  obtains st' s where "MEM_POOL_Push_pure os p st = Inr st'" "pure_ok st'" "pure_levels st' = (pure_levels st)(p := (s, []) # pure_levels st p)" "pure_kept st st' {}"
    "mem_pools (heap st') = (mem_pools (heap st))(p := (mem_pools (heap st) p)\<lparr>pool_blocks := 1\<rparr>)"
proof -
  note finish = that
  from pure_okD(1) [OF ok] in_use_magicD [OF use(1)] use(2) show thesis
  proof (cases rule: Push_pure_ok)
    case (pushed st' s)
    have "in_use (heap st') p" using use(1) pushed(4) by (simp add: in_use_def)
    note u = pure_ok_update [OF ok pushed(2) this]
    show ?thesis by (rule finish [OF pushed(1) u(1) u(2) pushed(3,4)]) (simp_all add: pushed(4))
  qed (use mem in simp)
qed

lemma alloc_pure:
  assumes ok: "pure_ok st" and p: "pure_levels st p = (s, cs) # ls" and sz: "size_ok sz" and mem: "os_malloc os (sys (heap st)) (uint sz + 8) \<noteq> 0"
  obtains a st' where "MEM_POOL_Alloc_pure os p sz st = Inr (a + 8, st')" "pure_ok st'" "pure_levels st' = (pure_levels st)(p := (s, a # cs) # ls)" "pure_kept st st' {}"
    "map_of (sys (heap st')) a = Some (uint sz + 8)" "map_of (sys (heap st)) a = None" "0 < a" "a mod 8 = 0"
    "\<forall>x. a \<le> x \<longrightarrow> x < a + uint sz + 8 \<longrightarrow> bytes (heap st') x = 0" "\<exists>b. mem_pools (heap st') = (mem_pools (heap st))(p := (mem_pools (heap st) p)\<lparr>pool_blocks := b\<rparr>)"
proof -
  note finish = that
  have use: "in_use (heap st) p" using pure_okD(2) [OF ok] p by simp
  from pure_okD(1) [OF ok] in_use_magicD [OF use] p sz show thesis
  proof (cases rule: Alloc_pure_ok)
    case (allocated a st')
    obtain b where b: "mem_pools (heap st') = (mem_pools (heap st))(p := (mem_pools (heap st) p)\<lparr>pool_blocks := b\<rparr>)" using allocated(9) by blast
    have "in_use (heap st') p" using use b by (simp add: in_use_def)
    note u = pure_ok_update [OF ok allocated(2) this]
    show ?thesis by (rule finish [OF allocated(1) u(1) u(2) allocated(3-9)]) (simp_all add: b)
  qed (use mem in simp)
qed

lemma pure_step_init:
  assumes ok: "pure_ok st" and al: "pure_allowed st (Op_Initialize p bz)"
  shows "pure_step_safe os st (Op_Initialize p bz)"
proof -
  have p: "client_pool p" "pool_magic (mem_pools (heap st) p) \<noteq> MAGIC_NUM" using al by simp_all
  then have "pure_levels st p = []" using pure_okD(2) [OF ok, of p] by (auto simp: in_use_def)
  from pure_okD(1) [OF ok] p this show ?thesis
  proof (cases rule: Initialize_pure_ok [where bz = bz])
    case (initialized st' s)
    have "in_use (heap st') p" using initialized(4) p(1) by (simp add: in_use_def)
    from pure_ok_update(1) [OF ok initialized(2) this] show ?thesis using initialized(1,4,5) by simp
  qed simp
qed

lemma pure_step_alloc:
  assumes ok: "pure_ok st" and al: "pure_allowed st (Op_Alloc p n)"
  shows "pure_step_safe os st (Op_Alloc p n)"
proof -
  obtain s cs ls where P: "pure_levels st p = (s, cs) # ls" using al by (metis neq_Nil_conv pure_allowed.simps(2) surj_pair)
  have use: "in_use (heap st) p" using pure_okD(2) [OF ok] P by simp
  show ?thesis
  proof (cases "os_malloc os (sys (heap st)) (uint n + 8) = 0")
    case True
    have sz: "size_ok n" using al by simp
    from pure_okD(1) [OF ok] in_use_magicD [OF use] P sz show ?thesis by (cases rule: Alloc_pure_ok) (use True in simp_all)
  next
    case False
    have sz: "size_ok n" using al by simp
    from ok P sz False show ?thesis by (rule alloc_pure) (use False in simp)
  qed
qed

lemma pure_step_free:
  assumes ok: "pure_ok st" and al: "pure_allowed st (Op_Free p a)"
  shows "pure_step_safe os st (Op_Free p a)"
proof -
  have c: "a - 8 \<in> set (cells (pure_levels st p))" using al by simp
  then have use: "in_use (heap st) p" using pure_okD(2) [OF ok, of p] by (cases "pure_levels st p") auto
  obtain st' where st': "MEM_POOL_FREE_pure p (a - 8 + 8) st = Inr st'" "pure_inv st' ((pure_levels st)(p := drop_cell (a - 8) (pure_levels st p)))" "mem_pools (heap st') = mem_pools (heap st)"
    using FREE_pure_ok [OF pure_okD(1) [OF ok] in_use_magicD [OF use] c] by blast
  have "in_use (heap st') p" using use st'(3) by (simp add: in_use_def)
  from pure_ok_update(1) [OF ok st'(2) this] st'(1,3) show ?thesis by simp
qed

lemma pure_step_realloc:
  assumes ok: "pure_ok st" and al: "pure_allowed st (Op_Realloc p a m n)"
  shows "pure_step_safe os st (Op_Realloc p a m n)"
proof -
  have c: "a - 8 \<in> set (cells (pure_levels st p))" "map_of (sys (heap st)) (a - 8) = Some (uint m + 8)" "size_ok n" "0 < n" using al by simp_all
  have "pure_levels st p \<noteq> []" using c(1) by auto
  then obtain s cs ls where P: "pure_levels st p = (s, cs) # ls" by (metis neq_Nil_conv surj_pair)
  have use: "in_use (heap st) p" using pure_okD(2) [OF ok] P by simp
  from pure_okD(1) [OF ok] in_use_magicD [OF use] P c show ?thesis
  proof (cases rule: Realloc_pure_ok)
    case (moved b st')
    obtain k where k: "mem_pools (heap st') = (mem_pools (heap st))(p := (mem_pools (heap st) p)\<lparr>pool_blocks := k\<rparr>)" using moved(8) by blast
    have "in_use (heap st') p" using use k by (simp add: in_use_def)
    from pure_ok_update(1) [OF ok moved(2) this] show ?thesis using moved(1,9) k by simp
  qed simp
qed

lemma pure_step_push:
  assumes ok: "pure_ok st" and al: "pure_allowed st (Op_Push p)"
  shows "pure_step_safe os st (Op_Push p)"
proof -
  have use: "in_use (heap st) p" "\<not> pool_frozen (mem_pools (heap st) p)" using al by simp_all
  show ?thesis
  proof (cases "os_malloc os (sys (heap st)) 16 = 0")
    case True
    from pure_okD(1) [OF ok] in_use_magicD [OF use(1)] use(2) show ?thesis by (cases rule: Push_pure_ok) (use True in simp_all)
  next
    case False
    from ok use False show ?thesis by (rule push_pure) (use False in simp)
  qed
qed

lemma pure_step_pop:
  assumes ok: "pure_ok st" and al: "pure_allowed st (Op_Pop p)"
  shows "pure_step_safe os st (Op_Pop p)"
proof -
  obtain s cs ls where P: "pure_levels st p = (s, cs) # ls" using al by (metis neq_Nil_conv pure_allowed.simps(6) surj_pair)
  have "\<not> pool_frozen (mem_pools (heap st) p)" using al by simp
  from ok P this show ?thesis by (rule pop_pure) simp
qed

lemma pure_step_push_freeze:
  assumes ok: "pure_ok st" and al: "pure_allowed st (Op_Push_Freeze p)"
  shows "pure_step_safe os st (Op_Push_Freeze p)"
proof -
  have use: "in_use (heap st) p" "\<not> pool_frozen (mem_pools (heap st) p)" using al by simp_all
  have run: "MEM_POOL_Push_Freeze_pure os p st = bindE (MEM_POOL_Push_pure os p st) (\<lambda>st. Inr (set_pure_pool p ((mem_pools (heap st) p)\<lparr>pool_frozen := True\<rparr>) st))"
    using use by (simp add: MEM_POOL_Push_Freeze_pure_def pool_of_def in_use_def client_pool_def)
  show ?thesis
  proof (cases "os_malloc os (sys (heap st)) 16 = 0")
    case True
    from pure_okD(1) [OF ok] in_use_magicD [OF use(1)] use(2) show ?thesis by (cases rule: Push_pure_ok) (use True run in simp_all)
  next
    case False
    obtain st' where st': "MEM_POOL_Push_pure os p st = Inr st'" "pure_ok st'" using push_pure [OF ok use False] by blast
    from pure_frozen_ok(1) [OF st'(2)] show ?thesis using False run st'(1) by simp
  qed
qed

lemma pure_step_pop_unfreeze:
  assumes ok: "pure_ok st" and al: "pure_allowed st (Op_Pop_Unfreeze p)"
  shows "pure_step_safe os st (Op_Pop_Unfreeze p)"
proof -
  define st1 where "st1 = set_pure_pool p ((mem_pools (heap st) p)\<lparr>pool_frozen := False\<rparr>) st"
  obtain s cs ls where P: "pure_levels st p = (s, cs) # ls" using al by (metis neq_Nil_conv pure_allowed.simps(8) surj_pair)
  have use: "in_use (heap st) p" using pure_okD(2) [OF ok] P by simp
  have run: "MEM_POOL_Pop_Unfreeze_pure p st = MEM_POOL_Pop_pure p st1"
    using use al by (simp add: MEM_POOL_Pop_Unfreeze_pure_def pool_of_def in_use_def client_pool_def st1_def)
  have 1: "pure_ok st1" "pure_levels st1 p = (s, cs) # ls" "\<not> pool_frozen (mem_pools (heap st1) p)" using pure_frozen_ok [OF ok] P by (simp_all add: st1_def)
  then show ?thesis by (rule pop_pure) (use run in simp)
qed

lemma pure_step_delete:
  assumes ok: "pure_ok st" and al: "pure_allowed st (Op_Delete p)"
  shows "pure_step_safe os st (Op_Delete p)"
proof -
  have use: "in_use (heap st) p" "\<not> pool_frozen (mem_pools (heap st) p)" using al by simp_all
  obtain st' where st': "MEM_POOL_Delete_pure p st = Inr st'" "pure_inv st' ((pure_levels st)(p := []))" "mem_pools (heap st') = (mem_pools (heap st))(p := (mem_pools (heap st) p)\<lparr>pool_magic := 0\<rparr>)"
    using Delete_pure_ok [OF pure_okD(1) [OF ok] in_use_magicD [OF use(1)] use(2)] by blast
  from pure_ok_update(1) [OF ok st'(2)] st' show ?thesis by simp
qed

lemma pure_step_write:
  assumes ok: "pure_ok st" and al: "pure_allowed st (Op_Write p x v)"
  shows "pure_step_safe os st (Op_Write p x v)"
proof -
  show ?thesis using pure_write_ok [OF ok] by simp
qed

lemma pure_step_ok:
  assumes "pure_ok st" and "pure_allowed st op"
  shows "pure_step_safe os st op"
proof (cases op)
  case Op_Initialize
  show ?thesis unfolding Op_Initialize by (rule pure_step_init [OF assms(1) assms(2) [unfolded Op_Initialize]])
next
  case Op_Alloc
  show ?thesis unfolding Op_Alloc by (rule pure_step_alloc [OF assms(1) assms(2) [unfolded Op_Alloc]])
next
  case Op_Free
  show ?thesis unfolding Op_Free by (rule pure_step_free [OF assms(1) assms(2) [unfolded Op_Free]])
next
  case Op_Realloc
  show ?thesis unfolding Op_Realloc by (rule pure_step_realloc [OF assms(1) assms(2) [unfolded Op_Realloc]])
next
  case Op_Push
  show ?thesis unfolding Op_Push by (rule pure_step_push [OF assms(1) assms(2) [unfolded Op_Push]])
next
  case Op_Pop
  show ?thesis unfolding Op_Pop by (rule pure_step_pop [OF assms(1) assms(2) [unfolded Op_Pop]])
next
  case Op_Push_Freeze
  show ?thesis unfolding Op_Push_Freeze by (rule pure_step_push_freeze [OF assms(1) assms(2) [unfolded Op_Push_Freeze]])
next
  case Op_Pop_Unfreeze
  show ?thesis unfolding Op_Pop_Unfreeze by (rule pure_step_pop_unfreeze [OF assms(1) assms(2) [unfolded Op_Pop_Unfreeze]])
next
  case Op_Delete
  show ?thesis unfolding Op_Delete by (rule pure_step_delete [OF assms(1) assms(2) [unfolded Op_Delete]])
next
  case Op_Write
  show ?thesis unfolding Op_Write by (rule pure_step_write [OF assms(1) assms(2) [unfolded Op_Write]])
qed

end

lemma purify_start_ok: "pure_ok purify_start"
proof -
  have "sys_ok (sys MEM_start)" by code_simp
  then have "pure_inv purify_start (\<lambda>_. [])" by (simp add: pure_inv_def purify_start_def level_wf_def)
  then show ?thesis using pure_okI by blast
qed

sublocale c_library \<subseteq> purify: step_invariant "pure_step os" "\<lambda>st. st = purify_start" pure_ok
proof
  show "pure_ok st" if "st = purify_start" for st using that purify_start_ok by simp
  show "pure_ok st'" if ok: "pure_ok st" and step: "pure_step os st st'" for st st'
  proof -
    obtain op where op: "pure_allowed st op" "pure_exec os op st = Inr st'" using step by (auto elim: pure_step.cases)
    from pure_step_ok [OF ok op(1)] op(2) show ?thesis by (auto split: if_splits)
  qed
qed

context c_library
begin

lemma purify_reachable: "(pure_step os)\<^sup>*\<^sup>* purify_start st \<Longrightarrow> pure_ok st"
  by (rule purify.inv_reachable) simp

end

end
