(* ===== verification/Memory_Pool_Properties.thy ===== *)
theory Memory_Pool_Properties
  imports Memory_Pool_Machine
begin

text \<open>
  The properties of the memory pools. Those about allocation hold for every C library with the contract \<open>c_library\<close>; the witnesses
  run the model on the library \<open>simple_heap\<close>.
\<close>

section \<open>Example states\<close>

text \<open>A pool that has been initialised, the same with an object of 5000 bytes, and with a second level.\<close>

definition success :: "mem_state \<Rightarrow> mem_state res \<Rightarrow> mem_state" where
  "success st r = (case r of Inl _ \<Rightarrow> st | Inr st \<Rightarrow> st)"

definition sample :: "bool \<Rightarrow> mem_state" where
  "sample bz = success MEM_start (MEM_POOL_Initialize_P simple_heap 100 bz MEM_start)"

definition sample_large :: "bool \<Rightarrow> mem_state" where
  "sample_large bz = success MEM_start (bindE (MEM_POOL_Alloc_P simple_heap 100 5000 (sample bz)) (\<lambda>(_, st). Inr st))"

lemma sample_runs:
  "MEM_POOL_Initialize_P simple_heap 100 bz MEM_start = Inr (sample bz)" "MEM_POOL_Alloc_P simple_heap 100 5000 (sample bz) = Inr (8320, sample_large bz)"
proof -
  have "(case MEM_POOL_Initialize_P simple_heap 100 bz MEM_start of Inl _ \<Rightarrow> False | Inr _ \<Rightarrow> True)"
    by (cases bz; simp only:) code_simp+
  then show "MEM_POOL_Initialize_P simple_heap 100 bz MEM_start = Inr (sample bz)" by (simp add: sample_def success_def split: sum.splits)
  have "(case MEM_POOL_Alloc_P simple_heap 100 5000 (sample bz) of Inl _ \<Rightarrow> False | Inr (a, _) \<Rightarrow> a = 8320)"
    by (cases bz; simp only:) code_simp+
  then show "MEM_POOL_Alloc_P simple_heap 100 5000 (sample bz) = Inr (8320, sample_large bz)" by (auto simp: sample_large_def success_def split: sum.splits)
qed

lemma sample_pools: "in_use (sample bz) 100" "in_use (sample_large bz) 100" "pool_bz (mem_pools (sample_large bz) 100) = bz"
    "pool_frozen (mem_pools (sample bz) 100) = False" "pool_frozen (mem_pools (sample_large bz) 100) = False"
    "all_large (levels_of (sample_large bz) 100) = [8288]" "map_of (sys (sample_large bz)) 8288 = Some 5032" "lv_large (hd (levels_of (sample_large bz) 100)) = [8288]"
  by (cases bz; simp only:; code_simp)+

lemma pad_sample: "uint (PAD_TO_ALIGN 5000) = 5000" "uint (PAD_TO_ALIGN 20) = 24" "uint (PAD_TO_ALIGN 4000) = 4000" "uint (PAD_TO_ALIGN 6000) = 6000"
  by code_simp+


lemma sample_reached: "(pool_step simple_heap)\<^sup>*\<^sup>* MEM_start (sample bz)" "(pool_step simple_heap)\<^sup>*\<^sup>* MEM_start (sample_large bz)"
proof -
  have "allowed MEM_start (Op_Initialize 100 bz)" by code_simp
  then have "pool_step simple_heap MEM_start (sample bz)" using sample_runs(1) [of bz] by (intro pool_step.call [of _ "Op_Initialize 100 bz"]) simp_all
  then show 1: "(pool_step simple_heap)\<^sup>*\<^sup>* MEM_start (sample bz)" by blast
  have "allowed (sample bz) (Op_Alloc 100 5000)" using sample_pools(1) by (simp add: size_ok_def)
  then have "pool_step simple_heap (sample bz) (sample_large bz)" using sample_runs(2) [of bz] by (intro pool_step.call [of _ "Op_Alloc 100 5000"]) simp_all
  with 1 show "(pool_step simple_heap)\<^sup>*\<^sup>* MEM_start (sample_large bz)" by (rule rtranclp.rtrancl_into_rtrancl)
qed

lemmas sample_ok = sample_reached [THEN simple_heap.pools_reachable]

section \<open>Runs\<close>



text \<open>
  C9: what the pools have given out never overlaps. In every state that clients can reach, the bytes given out since a level of a pool was
  pushed are apart from those of all other levels of the pool and of all other pools, and all of them lie in areas of the C library that
  have not been freed.
\<close>

theorem objects_apart:
  assumes "c_library os" and "(pool_step os)\<^sup>*\<^sup>* MEM_start st" and "p \<noteq> q"
  shows "sorted_wrt disjnt (pool_stack st p) \<and> (\<forall>X \<in> set (pool_stack st p). \<forall>Y \<in> set (pool_stack st q). disjnt X Y) \<and>
    (\<forall>X \<in> set (pool_stack st p). \<forall>x \<in> X. \<exists>(a, n) \<in> set (sys st). a \<le> x \<and> x < a + n)"
proof (intro conjI)
  obtain F where "good st (levels_of st) F" using c_library.pools_reachable [OF assms(1,2)] by (rule pools_okE)
  note inv = goodD(1) [OF this]
  show "sorted_wrt disjnt (pool_stack st p)" "\<forall>X \<in> set (pool_stack st p). \<forall>Y \<in> set (pool_stack st q). disjnt X Y"
    using live_levels_disjoint [OF inv] assms(3) by (simp_all add: pool_stack_def)
  show "\<forall>X \<in> set (pool_stack st p). \<forall>x \<in> X. \<exists>(a, n) \<in> set (sys st). a \<le> x \<and> x < a + n"
    using live_in_sys [OF inv] unfolding pool_stack_def by blast
qed

text \<open>The pool of the example and the pool of the level headers.\<close>

theorem objects_apart_witness:
  "\<exists>X Y. pool_stack (sample_large True) 100 = [X] \<and> pool_stack (sample_large True) 2 = [Y] \<and> disjnt X Y"
proof -
  have "length (levels_of (sample_large True) 100) = 1 \<and> length (levels_of (sample_large True) 2) = 1" by code_simp
  then have "length (pool_stack (sample_large True) 100) = 1" "length (pool_stack (sample_large True) 2) = 1" by (simp_all add: pool_stack_def length_live)
  then obtain X Y where "pool_stack (sample_large True) 100 = [X]" "pool_stack (sample_large True) 2 = [Y]" by (auto simp: length_Suc_conv)
  then show ?thesis using objects_apart [OF simple_heap.c_library_axioms sample_reached(2), of 100 2 True] by simp
qed

section \<open>Objects\<close>

text \<open>
  C7: \<^verbatim>\<open>MEM_POOL_Alloc\<close> returns an aligned object of at least the size asked for: if the C library has memory, its bytes are added to the top
  level of the pool and to no other, none of them was in use by any pool, the contents of all objects are as before, and
  a zeroing pool returns zeros, whether the object comes from the current block, a new one or is a large block of its own.
\<close>

theorem allocation:
  assumes "c_library os" and "pools_ok st" and "in_use st p" and "size_ok n"
  shows "MEM_POOL_Alloc_P os p n st = Inl No_Memory \<or>
    (\<exists>a st' k. MEM_POOL_Alloc_P os p n st = Inr (a, st') \<and> uint n \<le> k \<and> 0 < a \<and> a mod 8 = 0 \<and> pools_ok st' \<and>
      pool_stack st' p = (hd (pool_stack st p) \<union> {a ..< a + k}) # tl (pool_stack st p) \<and> (\<forall>q. q \<noteq> p \<longrightarrow> pool_stack st' q = pool_stack st q) \<and>
      (\<forall>q. \<forall>X \<in> set (pool_stack st q). disjnt {a ..< a + k} X \<and> (\<forall>x \<in> X. bytes st' x = bytes st x)) \<and>
      (pool_bz (mem_pools st p) \<longrightarrow> (\<forall>x \<in> {a ..< a + k}. bytes st' x = 0)))"
proof -
  obtain F where g: "good st (levels_of st) F" using assms(2) by (rule pools_okE)
  note inv = goodD(1) [OF g] and use = in_useD(1) [OF g assms(3)]
  have n: "uint n < 2147483608" using assms(4) by (simp add: size_ok_def)
  show ?thesis
  proof (cases rule: c_library.Alloc_P_ok [OF assms(1) inv use n])
    case (2 a st' L')
    note A = 2(2) [unfolded alloc_ok_def]
    have g': "pools_ok st'" "levels_of st' = L'" using pools_okI [OF alloc_good [OF g 2(2) use]] by simp_all
    have "uint n \<le> uint (PAD_TO_ALIGN n)" using pad_small(2) n by simp
    moreover have "kept st st'" using A by blast
    then have "bytes st' x = bytes st x" if "X \<in> set (pool_stack st q)" "x \<in> X" for q X x using kept_live [OF inv] that by (simp add: pool_stack_def)
    moreover have "disjnt {a ..< a + uint (PAD_TO_ALIGN n)} X" if "X \<in> set (pool_stack st q)" for q X using A that unfolding pool_stack_def disjnt_iff by blast
    moreover have "0 < a" "a mod 8 = 0" "pool_bz (mem_pools st p) \<longrightarrow> (\<forall>x \<in> {a ..< a + uint (PAD_TO_ALIGN n)}. bytes st' x = 0)" using A by blast+
    moreover have "pool_stack st' p = (hd (pool_stack st p) \<union> {a ..< a + uint (PAD_TO_ALIGN n)}) # tl (pool_stack st p)"
      "\<forall>q. q \<noteq> p \<longrightarrow> pool_stack st' q = pool_stack st q" using A g'(2) by (simp_all add: pool_stack_def)
    ultimately show ?thesis using 2(1) g'(1) by (intro disjI2 exI [of _ a] exI [of _ st'] exI [of _ "uint (PAD_TO_ALIGN n)"]) simp
  qed simp
qed

theorem allocation_witness:
  "\<exists>a st'. MEM_POOL_Alloc_P simple_heap 100 20 (sample True) = Inr (a, st') \<and> a mod 8 = 0 \<and> (\<forall>x \<in> {a ..< a + 20}. bytes st' x = 0)"
proof -
  have "(case MEM_POOL_Alloc_P simple_heap 100 20 (sample True) of Inl _ \<Rightarrow> False | Inr _ \<Rightarrow> True)" by code_simp
  then have "MEM_POOL_Alloc_P simple_heap 100 20 (sample True) \<noteq> Inl No_Memory" by auto
  moreover have "pool_bz (mem_pools (sample True) 100)" by code_simp
  moreover have "size_ok 20" by (simp add: size_ok_def)
  ultimately show ?thesis using allocation [OF simple_heap.c_library_axioms sample_ok(1) sample_pools(1), of 20 True] by fastforce
qed



text \<open>
  C38: making a large object of a zeroing pool smaller, but not small, writes zeros over memory that is not the pool's: the
  number of bytes to clear, the new size minus the old size, is computed as an unsigned
  64-bit number and wraps to almost the whole address space.
\<close>

theorem shrink_runs_wild:
  assumes "c_library os" and "pools_ok st" and "in_use st p" and "size_ok old_size" and "size_ok new_size"
    and "m = uint (PAD_TO_ALIGN old_size)" and "n = uint (PAD_TO_ALIGN new_size)" and "a \<in> set (lv_large (hd (levels_of st p)))" and "map_of (sys st) a = Some (m + MEM_LARGE_BLOCK_OVERHEAD)"
    and "pool_bz (mem_pools st p)" and "MIN_LARGE_BLOCK_SIZE < n" and "n < m"
  shows "MEM_POOL_Realloc_P os p (a + MEM_LARGE_BLOCK_OVERHEAD) old_size new_size st \<in> {Inl No_Memory, Inl Out_Of_Bounds}"
proof -
  obtain F where g: "good st (levels_of st) F" using assms(2) by (rule pools_okE)
  note L = in_useD(1) [OF g assms(3)]
  have sizes: "uint old_size < 2147483608" "uint new_size < 2147483608" using assms(4,5) by (simp_all add: size_ok_def)
  have "a \<in> set (all_large (levels_of st p))" using assms(8) L by (cases "levels_of st p") simp_all
  then have obj: "object st (levels_of st p) (a + MEM_LARGE_BLOCK_OVERHEAD) m" using assms(9,11,12) by (simp add: object_def)
  from c_library.Realloc_P_ok [OF assms(1) goodD(1) [OF g] L sizes assms(6,7) obj] show ?thesis by cases (use assms(8,10-12) in simp_all)
qed

theorem shrink_runs_wild_witness: "MEM_POOL_Realloc_P simple_heap 100 8320 5000 4000 (sample_large True) = Inl Out_Of_Bounds"
proof -
  have "(case MEM_POOL_Realloc_P simple_heap 100 8320 5000 4000 (sample_large True) of Inl e \<Rightarrow> e \<noteq> No_Memory | Inr _ \<Rightarrow> True)" by code_simp
  then have "MEM_POOL_Realloc_P simple_heap 100 8320 5000 4000 (sample_large True) \<noteq> Inl No_Memory" by auto
  moreover have "size_ok 5000" "size_ok 4000" by (simp_all add: size_ok_def)
  ultimately show ?thesis
    using shrink_runs_wild [OF simple_heap.c_library_axioms sample_ok(2) sample_pools(2) _ _ pad_sample(1,3) [symmetric], of 8288 True] sample_pools [of True]
    by (simp add: MEM_LARGE_BLOCK_OVERHEAD_def MIN_LARGE_BLOCK_SIZE_def)
qed



section \<open>Levels\<close>

text \<open>
  C6: a pool is a stack of sets of objects: \<^verbatim>\<open>MEM_POOL_Push\<close> adds an empty level on top and leaves the objects of all pools
  and their contents as they are; \<^verbatim>\<open>MEM_POOL_Pop\<close> removes exactly the objects of the top level, gives exactly the areas that were
  taken for this level back to the C library and keeps the contents of all other objects. Popping the last level leaves it empty.
\<close>

theorem levels_are_a_stack:
  assumes "c_library os" and "pools_ok st" and "in_use st p" and "\<not> pool_frozen (mem_pools st p)"
  shows "(MEM_POOL_Push_P os p st = Inl No_Memory \<or>
      (\<exists>st'. MEM_POOL_Push_P os p st = Inr st' \<and> pools_ok st' \<and> pool_stack st' p = {} # pool_stack st p \<and>
        (\<forall>q. q \<noteq> p \<longrightarrow> q \<noteq> mem_overhead_pool \<longrightarrow> pool_stack st' q = pool_stack st q) \<and>
        (\<forall>q. \<forall>X \<in> set (pool_stack st q). \<forall>x \<in> X. bytes st' x = bytes st x))) \<and>
    (\<exists>st'. MEM_POOL_Pop_P p st = Inr st' \<and> pools_ok st' \<and> pool_stack st' p = (if tl (pool_stack st p) = [] then [{}] else tl (pool_stack st p)) \<and>
        (\<forall>q. q \<noteq> p \<longrightarrow> pool_stack st' q = pool_stack st q) \<and> (\<forall>q. \<forall>X \<in> set (pool_stack st' q). \<forall>x \<in> X. bytes st' x = bytes st x) \<and>
        sys st' = filter (\<lambda>(b, _). b \<notin> set (areas [hd (levels_of st p)])) (sys st))"
    (is "?push \<and> ?pop")
proof
  obtain F where g: "good st (levels_of st) F" using assms(2) by (rule pools_okE)
  note inv = goodD(1) [OF g] and U = in_useD [OF g assms(3)]
  from c_library.push_good [OF assms(1) g assms(3,4)] show ?push
  proof cases
    case (2 st' L' F')
    note g' = pools_okI [OF 2(2)]
    have "\<forall>q. q \<noteq> p \<longrightarrow> q \<noteq> mem_overhead_pool \<longrightarrow> live st' (L' q) = live st (levels_of st q)" using 2(4) by blast
    moreover have "bytes st' x = bytes st x" if "X \<in> set (live st (levels_of st q))" "x \<in> X" for q X x using kept_live [OF inv 2(5) that] .
    ultimately show ?thesis using 2(1,3) g' unfolding pool_stack_def by (intro disjI2 exI [of _ st'] conjI) simp_all
  qed simp
  obtain l ls where L: "levels_of st p = l # ls" using U(1) by (cases "levels_of st p") auto
  from Pop_P_ok [OF inv L U(4) assms(4)] obtain st' L' F' where pop: "MEM_POOL_Pop_P p st = Inr st'" "pop_ok st (levels_of st) p st' L' F'" by blast
  note K = pop(2) [unfolded pop_ok_def] and g' = pools_okI [OF pop_good [OF g pop(2) U(1)]]
  have "\<forall>q. q \<noteq> p \<longrightarrow> live st' (L' q) = live st (levels_of st q)" using K by blast
  moreover have "tl (live st (levels_of st p)) = [] \<longleftrightarrow> ls = []" using length_live [of st "levels_of st p"] L by (metis length_0_conv length_tl list.sel(3))
  moreover have "live st' (L' p) = (if tl (levels_of st p) = [] then [{}] else tl (live st (levels_of st p)))" using K by blast
  ultimately have "pool_stack st' p = (if tl (pool_stack st p) = [] then [{}] else tl (pool_stack st p))" "\<forall>q. q \<noteq> p \<longrightarrow> pool_stack st' q = pool_stack st q"
    using g' L unfolding pool_stack_def by simp_all
  then show ?pop using pop(1) K g' L by (intro exI [of _ st'] conjI) (simp_all add: pool_stack_def)
qed

theorem levels_are_a_stack_witness:
  "(\<exists>st'. MEM_POOL_Push_P simple_heap 100 (sample_large True) = Inr st' \<and> pool_stack st' 100 = {} # pool_stack (sample_large True) 100) \<and>
   (\<exists>st'. MEM_POOL_Pop_P 100 (sample_large True) = Inr st' \<and> pool_stack st' 100 = [{}])"
proof -
  have "(case MEM_POOL_Push_P simple_heap 100 (sample_large True) of Inl _ \<Rightarrow> False | Inr _ \<Rightarrow> True)" by code_simp
  then have "MEM_POOL_Push_P simple_heap 100 (sample_large True) \<noteq> Inl No_Memory" by auto
  moreover have "length (levels_of (sample_large True) 100) = 1" by code_simp
  then have "tl (pool_stack (sample_large True) 100) = []" using length_live [of "sample_large True" "levels_of (sample_large True) 100"]
    by (metis One_nat_def diff_self_eq_0 length_0_conv length_tl pool_stack_def)
  moreover have "\<not> pool_frozen (mem_pools (sample_large True) 100)" using sample_pools(5) by simp
  ultimately show ?thesis using levels_are_a_stack [OF simple_heap.c_library_axioms sample_ok(2) sample_pools(2), of True] by auto
qed

text \<open>
  C12: \<^verbatim>\<open>MEM_POOL_Delete\<close> ends, however many levels the pool has: it pops them all, gives every area of the pool back to the C library and no other, and
  leaves the pool ready to be initialised again; the objects of the other pools and their contents stay.
\<close>

theorem deletion:
  assumes "pools_ok st" and "in_use st p" and "\<not> pool_frozen (mem_pools st p)"
  shows "\<exists>st'. MEM_POOL_Delete p st = Some (Inr st') \<and> pools_ok st' \<and> pool_stack st' p = [] \<and> allowed st' (Op_Initialize p bz) \<and>
    sys st' = filter (\<lambda>(b, _). b \<notin> set (areas (levels_of st p))) (sys st) \<and>
    (\<forall>q. q \<noteq> p \<longrightarrow> pool_stack st' q = pool_stack st q \<and> (\<forall>X \<in> set (pool_stack st q). \<forall>x \<in> X. bytes st' x = bytes st x))"
proof -
  obtain F where g: "good st (levels_of st) F" using assms(1) by (rule pools_okE)
  note U = in_useD [OF g assms(2)]
  obtain st' F' where d: "MEM_POOL_Delete p st = Some (Inr st')" "pools_inv st' ((levels_of st)(p := [])) F'" "\<forall>q. q \<noteq> p \<longrightarrow> live st' (levels_of st q) = live st (levels_of st q)"
      "sys st' = filter (\<lambda>(b, _). b \<notin> set (areas (levels_of st p))) (sys st)" "bytes_kept st st' ((levels_of st)(p := []))"
      "mem_pools st' = (mem_pools st)(p := \<lparr>pool_blocks = 0, pool_bz = False, pool_frozen = False, pool_magic = 0\<rparr>)"
    using Delete_ok [OF goodD(1) [OF g] U(1,4) assms(3)] by blast
  have "good st' ((levels_of st)(p := [])) F'" using d(2,6) goodD(2) [OF g] by (simp add: good_def MAGIC_NUM_def)
  then have g': "pools_ok st'" "levels_of st' = (levels_of st)(p := [])" using pools_okI by blast+
  have same: "pool_stack st' q = pool_stack st q" if "q \<noteq> p" for q using that d(3) g'(2) by (simp add: pool_stack_def)
  moreover have "bytes st' x = bytes st x" if "q \<noteq> p" "X \<in> set (pool_stack st q)" "x \<in> X" for q X x
    using d(5) that same [OF that(1)] g'(2) unfolding bytes_kept_def pool_stack_def by metis
  moreover have "pool_stack st' p = []" using length_live [of st' "[]"] g'(2) by (simp add: pool_stack_def)
  moreover have "allowed st' (Op_Initialize p bz)" using assms(2) d(6) by (simp add: in_use_def MAGIC_NUM_def)
  ultimately show ?thesis using d(1,4) g'(1) by (intro exI [of _ st'] conjI) simp_all
qed

theorem deletion_witness: "\<exists>st'. MEM_POOL_Delete 100 (sample_large True) = Some (Inr st') \<and> pool_stack st' 100 = []"
  using deletion [OF sample_ok(2) sample_pools(2), of True] sample_pools(5) [of True] by auto

text \<open>
  C39: a frozen pool cannot be pushed, popped or frozen again, and only a frozen pool can be unfrozen: these calls fail. \<^verbatim>\<open>MEM_POOL_Push_Freeze\<close> freezes the pool
  with a new level, and \<^verbatim>\<open>MEM_POOL_Pop_Unfreeze\<close> afterwards brings the objects of the pool back to what they were.
\<close>

theorem freezing:
  assumes "c_library os" and "pools_ok st" and "in_use st p"
  shows "if pool_frozen (mem_pools st p)
    then MEM_POOL_Push_P os p st = Inl FmtAssert_Failed \<and> MEM_POOL_Pop_P p st = Inl FmtAssert_Failed \<and> MEM_POOL_Push_Freeze_P os p st = Inl FmtAssert_Failed
    else MEM_POOL_Pop_Unfreeze_P p st = Inl FmtAssert_Failed \<and> (MEM_POOL_Push_Freeze_P os p st = Inl No_Memory \<or>
      (\<exists>st' st''. MEM_POOL_Push_Freeze_P os p st = Inr st' \<and> pool_frozen (mem_pools st' p) \<and> pool_stack st' p = {} # pool_stack st p \<and>
         MEM_POOL_Pop_Unfreeze_P p st' = Inr st'' \<and> \<not> pool_frozen (mem_pools st'' p) \<and> pool_stack st'' p = pool_stack st p))"
proof -
  obtain F where g: "good st (levels_of st) F" using assms(2) by (rule pools_okE)
  note U = in_useD [OF g assms(3)]
  have pool: "pool_of st' p = Inr (mem_pools st' p)" for st' using U(2,3) by (simp add: pool_of_def)
  show ?thesis
  proof (cases "pool_frozen (mem_pools st p)")
    case True
    then show ?thesis using U(5) by (simp add: MEM_POOL_Push_P_def MEM_POOL_Pop_P_def MEM_POOL_Push_Freeze_P_def pool)
  next
    case False
    have freeze: "MEM_POOL_Push_Freeze_P os p st = bindE (MEM_POOL_Push_P os p st) (\<lambda>st. Inr (set_pool p ((mem_pools st p)\<lparr>pool_frozen := True\<rparr>) st))"
      using U(5) False by (simp add: MEM_POOL_Push_Freeze_P_def pool)
    from c_library.push_good [OF assms(1) g assms(3) False] have "MEM_POOL_Push_Freeze_P os p st = Inl No_Memory \<or>
      (\<exists>st' st''. MEM_POOL_Push_Freeze_P os p st = Inr st' \<and> pool_frozen (mem_pools st' p) \<and> pool_stack st' p = {} # pool_stack st p \<and>
         MEM_POOL_Pop_Unfreeze_P p st' = Inr st'' \<and> \<not> pool_frozen (mem_pools st'' p) \<and> pool_stack st'' p = pool_stack st p)"
    proof cases
      case (2 st1 L1 F1)
      define st' where "st' = set_pool p ((mem_pools st1 p)\<lparr>pool_frozen := True\<rparr>) st1"
      define st2 where "st2 = set_pool p ((mem_pools st' p)\<lparr>pool_frozen := False\<rparr>) st'"
      have g': "good st' L1 F1" unfolding st'_def by (rule frozen_good [OF 2(2)])
      have g2: "good st2 L1 F1" unfolding st2_def by (rule frozen_good [OF g'])
      have live: "live st' ls = live st1 ls" "live st2 ls = live st1 ls" for ls by (simp_all add: live_def st'_def st2_def set_pool_def)
      have len: "length (L1 p) = Suc (length (levels_of st p))" using length_live [of st1 "L1 p"] length_live [of st "levels_of st p"] 2(3) by simp
      then obtain l ls where L1: "L1 p = l # ls" by (cases "L1 p") auto
      have ls: "ls \<noteq> []" using len L1 U(1) by auto
      have un: "MEM_POOL_Pop_Unfreeze_P p st' = MEM_POOL_Pop_P p st2" "\<not> pool_frozen (mem_pools st2 p)" "pool_frozen (mem_pools st' p)"
        using 2(7) U(5) by (auto simp: MEM_POOL_Pop_Unfreeze_P_def pool st2_def st'_def set_pool_def)
      from Pop_P_ok [OF goodD(1) [OF g2] L1 U(4) un(2)] obtain st'' L2 F2 where pop: "MEM_POOL_Pop_P p st2 = Inr st''" "pop_ok st2 L1 p st'' L2 F2" by blast
      note K = pop(2) [unfolded pop_ok_def]
      have g'': "levels_of st'' = L2" using pools_okI [OF pop_good [OF g2 pop(2)]] L1 by simp
      have "live st'' (L2 p) = (if tl (L1 p) = [] then [{}] else tl (live st2 (L1 p)))" using K by blast
      then have "pool_stack st'' p = pool_stack st p" using L1 ls 2(3) live(2) g'' by (simp add: pool_stack_def)
      moreover have "pool_stack st' p = {} # pool_stack st p" using 2(3) live levels_of_good [OF g'] by (simp add: pool_stack_def)
      moreover have "MEM_POOL_Push_Freeze_P os p st = Inr st'" using freeze 2(1) by (simp add: st'_def)
      ultimately show ?thesis using pop(1) un K by (intro disjI2 exI [of _ st'] exI [of _ st''] conjI) simp_all
    qed (use freeze in simp)
    then show ?thesis using U(5) False by (simp add: MEM_POOL_Pop_Unfreeze_P_def pool)
  qed
qed

theorem freezing_witness: "MEM_POOL_Pop_Unfreeze_P 100 (sample True) = Inl FmtAssert_Failed"
  using freezing [OF simple_heap.c_library_axioms sample_ok(1) sample_pools(1), of True] sample_pools(4) [of True] by simp

text \<open>
  C37: \<^verbatim>\<open>MEM_Initialize\<close> starts the package: unless there is no memory it leaves the eight pools of the compiler in use with two empty levels each, four of them zeroing, and clients can go on from
  there as in \<open>pools_run_safe\<close>.
\<close>

theorem start_up:
  assumes "c_library os"
  shows "MEM_Initialize os MEM_start = Inl No_Memory \<or>
    (\<exists>st. MEM_Initialize os MEM_start = Inr st \<and> (pool_step os)\<^sup>*\<^sup>* MEM_start st \<and>
      (\<forall>p \<in> set (zeroed_pools @ nz_pools). in_use st p \<and> pool_stack st p = [{}, {}] \<and> (pool_bz (mem_pools st p) \<longleftrightarrow> p \<in> set zeroed_pools)))"
proof -
  have new: "allowed MEM_start (Op_Initialize p bz)" if "p \<in> set (zeroed_pools @ nz_pools)" for p bz
    using that by (auto simp: MEM_start_def zeroed_pools_def nz_pools_def client_pool_def Default_Mem_Pool_def Malloc_Mem_Pool_def mem_overhead_pool_def MAGIC_NUM_def)
  have d: "distinct zeroed_pools" "distinct nz_pools" "set zeroed_pools \<inter> set nz_pools = {}" by (simp_all add: zeroed_pools_def nz_pools_def)
  let ?ready = "\<lambda>ps bz st. bindE (each (\<lambda>p. MEM_POOL_Initialize_P os p bz) ps st) (each (MEM_POOL_Push_P os) ps)"
  have run: "MEM_Initialize os MEM_start = bindE (?ready zeroed_pools True MEM_start) (?ready nz_pools False)"
    by (simp add: MEM_Initialize_def bindE_assoc)
  have "\<forall>p \<in> set zeroed_pools. allowed MEM_start (Op_Initialize p True)" using new by simp
  from c_library.initialize_push_each [OF assms MEM_start_good d(1) this] show ?thesis
  proof cases
    case (2 st1)
    have "\<forall>p \<in> set nz_pools. allowed st1 (Op_Initialize p False)" using new d(3) 2(5) by fastforce
    from c_library.initialize_push_each [OF assms 2(3) d(2) this] show ?thesis
    proof cases
      case n: (2 st)
      have "in_use st p \<and> pool_stack st p = [{}, {}] \<and> (pool_bz (mem_pools st p) \<longleftrightarrow> p \<in> set zeroed_pools)" if p: "p \<in> set (zeroed_pools @ nz_pools)" for p
      proof (cases "p \<in> set zeroed_pools")
        case True
        then have "mem_pools st p = mem_pools st1 p" "pool_stack st p = pool_stack st1 p" using n(5) d(3) new [OF p] by (auto simp: client_pool_def)
        then show ?thesis using 2(4) True by (simp add: in_use_def)
      next
        case False
        then show ?thesis using n(4) p by simp
      qed
      then show ?thesis using run 2(1) n(1) rtranclp_trans [OF 2(2) n(2)] by (intro disjI2 exI [of _ st]) simp
    qed (simp add: run 2(1))
  qed (simp add: run)
qed

theorem start_up_witness:
  "MEM_Initialize simple_heap MEM_start = Inl No_Memory \<or>
   (\<exists>st. MEM_Initialize simple_heap MEM_start = Inr st \<and> pool_stack st 16 = [{}, {}] \<and> pool_stack st 23 = [{}, {}])"
  using start_up [OF simple_heap.c_library_axioms] by (auto simp: zeroed_pools_def nz_pools_def)

text \<open>
  \<^verbatim>\<open>Re_Calloc\<close> and \<^verbatim>\<open>Realloc_Clear\<close> grow an area of the C library: the old contents are kept, the new bytes are zero and all other areas stay as they are;
  a number of bytes that does not fit in 32 bits is an overflow.
\<close>

theorem clearing_growth:
  assumes "c_library os" and "sys_ok (sys st)" and "map_of (sys st) a = Some (old_nelem * elsize)" and "0 \<le> old_nelem" and "old_nelem < new_nelem" and "0 < elsize"
  shows "if 2147483648 \<le> new_nelem * elsize then Re_Calloc os a new_nelem elsize old_nelem st = Inl Signed_Overflow
    else Re_Calloc os a new_nelem elsize old_nelem st = Realloc_Clear os a (new_nelem * elsize) (old_nelem * elsize) st \<and>
      (Re_Calloc os a new_nelem elsize old_nelem st = Inl No_Memory \<or>
       (\<exists>b st'. Re_Calloc os a new_nelem elsize old_nelem st = Inr (b, st') \<and> sys_ok (sys st') \<and> map_of (sys st') b = Some (new_nelem * elsize) \<and>
         (\<forall>i. 0 \<le> i \<longrightarrow> i < new_nelem * elsize \<longrightarrow> bytes st' (b + i) = (if i < old_nelem * elsize then bytes st (a + i) else 0)) \<and>
         (\<forall>(c, n) \<in> set (sys st). c \<noteq> a \<longrightarrow> (c, n) \<in> set (sys st') \<and> (\<forall>x. c \<le> x \<longrightarrow> x < c + n \<longrightarrow> bytes st' x = bytes st x))))"
proof -
  define m n where mn: "m = old_nelem * elsize" "n = new_nelem * elsize"
  have sizes: "0 \<le> m" "m < n" using assms(4-6) by (simp_all add: mn)
  show ?thesis
  proof (cases "2147483648 \<le> n")
    case True
    then show ?thesis by (simp add: Re_Calloc_def int32_def mn)
  next
    case False
    have a: "a \<noteq> 0" using assms(2,3) sys_okD(2) map_of_SomeD by fastforce
    have run: "Re_Calloc os a new_nelem elsize old_nelem st = Realloc_Clear os a n m st" using False sizes by (simp add: Re_Calloc_def int32_def mn [symmetric])
    let ?others = "filter (\<lambda>(b, _). b \<noteq> a) (sys st)"
    define b where "b = os_realloc os ?others a n"
    have u: "u64 n = n" "u64 (n - m) = n - m" "int32 (n - m) = Inr (n - m)" using False sizes by (simp_all add: u64_def int32_def)
    show ?thesis
    proof (cases "b = 0")
      case True
      then have "Realloc_Clear os a n m st = Inl No_Memory" using assms(3) a u(1) by (simp add: Realloc_Clear_def c_realloc_def b_def Let_def mn)
      then show ?thesis using False run by (simp add: mn)
    next
      case nz: False
      have ok: "sys_ok ((b, n) # ?others)" using c_library.realloc_fresh [OF assms(1) sys_ok_filter [OF assms(2)]] nz sizes by (simp add: b_def)
      define st' where "st' = st\<lparr>sys := (b, n) # ?others, bytes := (\<lambda>x. if b + m \<le> x \<and> x < b + n then 0 else if b \<le> x \<and> x < b + m then bytes st (a + (x - b)) else bytes st x)\<rparr>"
      have grown: "Realloc_Clear os a n m st = Inr (b, st')"
        using assms(3) a u nz sizes by (auto simp: Realloc_Clear_def c_realloc_def b_def [symmetric] Let_def mn(1) [symmetric] fill_def in_sys_def st'_def min_def cong: if_cong)
      have "(c, k) \<in> set (sys st') \<and> (\<forall>x. c \<le> x \<longrightarrow> x < c + k \<longrightarrow> bytes st' x = bytes st x)" if "(c, k) \<in> set (sys st)" "c \<noteq> a" for c k
      proof -
        have "apart c k b n" using sys_okD(3) [OF ok, of c k b n] sys_ok_fresh [OF ok] that by force
        then show ?thesis using sizes that by (auto simp: st'_def apart_def)
      qed
      then have "\<forall>(c, k) \<in> set (sys st). c \<noteq> a \<longrightarrow> (c, k) \<in> set (sys st') \<and> (\<forall>x. c \<le> x \<longrightarrow> x < c + k \<longrightarrow> bytes st' x = bytes st x)" by auto
      moreover have "\<forall>i. 0 \<le> i \<longrightarrow> i < n \<longrightarrow> bytes st' (b + i) = (if i < m then bytes st (a + i) else 0)" by (simp add: st'_def)
      moreover have "sys_ok (sys st')" "map_of (sys st') b = Some n" using ok by (simp_all add: st'_def)
      ultimately have "\<exists>b st'. Realloc_Clear os a n m st = Inr (b, st') \<and> sys_ok (sys st') \<and> map_of (sys st') b = Some n \<and>
         (\<forall>i. 0 \<le> i \<longrightarrow> i < n \<longrightarrow> bytes st' (b + i) = (if i < m then bytes st (a + i) else 0)) \<and>
         (\<forall>(c, n) \<in> set (sys st). c \<noteq> a \<longrightarrow> (c, n) \<in> set (sys st') \<and> (\<forall>x. c \<le> x \<longrightarrow> x < c + n \<longrightarrow> bytes st' x = bytes st x))"
        using grown by (intro exI [of _ b] exI [of _ st'] conjI)
      then show ?thesis using False run unfolding mn [symmetric] by simp
    qed
  qed
qed

theorem clearing_growth_witness:
  "\<exists>b st'. Re_Calloc simple_heap 64 10 8 5 (MEM_start\<lparr>sys := [(64, 40), (8, 48)]\<rparr>) = Inr (b, st') \<and> (\<forall>i. 40 \<le> i \<longrightarrow> i < 80 \<longrightarrow> bytes st' (b + i) = 0)"
proof -
  let ?st = "MEM_start\<lparr>sys := [(64, 40), (8, 48)]\<rparr>"
  have "(case Re_Calloc simple_heap 64 10 8 5 ?st of Inl _ \<Rightarrow> False | Inr _ \<Rightarrow> True)" by code_simp
  then have "Re_Calloc simple_heap 64 10 8 5 ?st \<noteq> Inl No_Memory" by auto
  moreover have "sys_ok (sys ?st)" by code_simp
  moreover have "map_of (sys ?st) 64 = Some (5 * 8)" by simp
  ultimately obtain b st' where "Re_Calloc simple_heap 64 10 8 5 ?st = Inr (b, st')" "\<forall>i. 0 \<le> i \<longrightarrow> i < 80 \<longrightarrow> bytes st' (b + i) = (if i < 40 then bytes ?st (64 + i) else 0)"
    using clearing_growth [OF simple_heap.c_library_axioms, of ?st 64 5 8 10] by (simp del: map_of.simps) metis
  then show ?thesis by (intro exI [of _ b] exI [of _ st']) simp
qed

section \<open>Limits\<close>

text \<open>
  C40: \<^verbatim>\<open>PAD_TO_ALIGN\<close> rounds a size up to the next multiple of eight, but modulo two to the power of 32, because the mask of the
  macro is an \<^verbatim>\<open>unsigned int\<close>. The result is too small exactly from four gigabytes less seven bytes on, and a pool gives the same object, of the same
  size, for a request that is four gigabytes larger.
\<close>

theorem padding:
  assumes "resolve_pool st p \<noteq> Malloc_Mem_Pool"
  shows "(uint n \<le> uint (PAD_TO_ALIGN n) \<longleftrightarrow> uint n < 4294967289) \<and>
    (uint n < 4294967289 \<longrightarrow> uint (PAD_TO_ALIGN n) mod 8 = 0 \<and> uint (PAD_TO_ALIGN n) < uint n + 8) \<and>
    MEM_POOL_Alloc_P os p (n + 4294967296) st = MEM_POOL_Alloc_P os p n st"
proof (intro conjI)
  have "PAD_TO_ALIGN n < 4294967296" unfolding word_less_def using pad_value [of n] pos_mod_bound [of 4294967296 "uint n + 7"] by simp
  then have "uint (PAD_TO_ALIGN n) < 4294967296" by (simp add: word_less_def)
  moreover have "uint (PAD_TO_ALIGN n) = 0" if "4294967289 \<le> uint n" "uint n < 4294967296"
  proof -
    have "(uint n + 7) mod 4294967296 = uint n + 7 - 4294967296" using that minus_mod_self2 [of "uint n + 7" 4294967296] by simp
    then have "(uint n + 7) mod 4294967296 div 8 = 0" using that by simp
    then show ?thesis by (simp add: pad_value)
  qed
  ultimately show "uint n \<le> uint (PAD_TO_ALIGN n) \<longleftrightarrow> uint n < 4294967289" using pad_small(2) [of n] by linarith
  show "uint n < 4294967289 \<longrightarrow> uint (PAD_TO_ALIGN n) mod 8 = 0 \<and> uint (PAD_TO_ALIGN n) < uint n + 8" using pad_small(3,4) [of n] by blast
  have "(uint (n + 4294967296) + 7) mod 4294967296 = (uint n + 7) mod 4294967296"
    by (rule mod_add_cong) (simp_all add: uint_word_ariths mod_mod_cancel)
  then have "uint (PAD_TO_ALIGN (n + 4294967296)) = uint (PAD_TO_ALIGN n)" by (simp add: pad_value)
  then show "MEM_POOL_Alloc_P os p (n + 4294967296) st = MEM_POOL_Alloc_P os p n st" using assms by (simp add: MEM_POOL_Alloc_P_def Let_def)
qed

text \<open>A request for four gigabytes and sixteen bytes.\<close>

theorem padding_witness: "MEM_POOL_Alloc_P simple_heap 100 4294967312 (sample True) = MEM_POOL_Alloc_P simple_heap 100 16 (sample True)"
proof -
  have "resolve_pool (sample True) 100 \<noteq> Malloc_Mem_Pool" by (simp add: resolve_pool_def Default_Mem_Pool_def Malloc_Mem_Pool_def)
  from padding [OF this, of 16 simple_heap] show ?thesis by simp
qed

text \<open>
  under Valgrind every small object has red zones of eight bytes before and behind it, which the test whether the block has room does not count. When the
  room is enough for the object but not for its red zones, the pool goes on with a block whose pointer is behind its end and whose number of available
  bytes has wrapped around, so that it never asks for a new block again; when it is not enough for the object and the first red zone, the object itself ends behind the block.
\<close>

theorem red_zones_overrun:
  assumes "pool_levels st (pool_blocks (mem_pools st p)) = Some r" and "pb_block r = b" and "b \<noteq> 0" and "mem_blocks st b = Some blk"
    and "0 \<le> sz" and "sz \<le> MIN_LARGE_BLOCK_SIZE" and "sz \<le> mb_avail blk" and "mb_avail blk < sz + 2 * redzone_size st" and "redzone_size st = 8"
  shows "\<exists>st' blk'. Raw_Allocate os p sz st = Inr (mb_ptr blk + 8, st') \<and> mem_blocks st' b = Some blk' \<and>
    mb_ptr blk + mb_avail blk < mb_ptr blk' \<and> 18446744073709551600 \<le> mb_avail blk' \<and> (mb_avail blk < sz + 8 \<longrightarrow> mb_ptr blk + mb_avail blk < mb_ptr blk + 8 + sz)"
proof -
  have sz: "u64 sz = sz" using assms(5,6) by (simp add: u64_def MIN_LARGE_BLOCK_SIZE_def)
  let ?avail = "mb_avail blk - (sz + 16)"
  have "?avail mod 18446744073709551616 = ?avail + 18446744073709551616" using assms(7-9) mod_add_self2 [of ?avail 18446744073709551616] by simp
  then have "18446744073709551600 \<le> u64 ?avail" using assms(7) by (simp add: u64_def)
  then show ?thesis using assms sz by (simp add: Raw_Allocate_def block_for_def get_level_def get_block_def Let_def set_block_def)
qed

text \<open>The pool of the level headers with a block that has room for 2048 bytes, and a request for all of them.\<close>

definition sample_red :: mem_state where
  "sample_red = MEM_start\<lparr>sys := [(4096, 8216), (overhead_blocks, 48)], mem_blocks := [4096 \<mapsto> \<lparr>mb_avail = 2048, mb_ptr = 10264, mb_rest = 0\<rparr>],
     pool_levels := [overhead_blocks \<mapsto> \<lparr>pb_block = 4096, pb_large = 0, pb_base_block = 0, pb_base_ptr = 0, pb_base_avail = 0, pb_rest = 0\<rparr>], redzone_size := 8\<rparr>"

theorem red_zones_overrun_witness:
  "\<exists>st' blk'. Raw_Allocate simple_heap 2 2048 sample_red = Inr (10272, st') \<and> mem_blocks st' 4096 = Some blk' \<and> 12312 < mb_ptr blk' \<and> 18446744073709551600 \<le> mb_avail blk'"
proof -
  let ?blk = "\<lparr>mb_avail = 2048, mb_ptr = 10264, mb_rest = 0\<rparr>"
  have "mem_blocks sample_red 4096 = Some ?blk" "redzone_size sample_red = 8"
    "pool_levels sample_red (pool_blocks (mem_pools sample_red 2)) = Some \<lparr>pb_block = 4096, pb_large = 0, pb_base_block = 0, pb_base_ptr = 0, pb_base_avail = 0, pb_rest = 0\<rparr>"
    by (simp_all add: sample_red_def MEM_start_def mem_overhead_pool_def)
  then show ?thesis using red_zones_overrun [of sample_red 2 _ 4096 ?blk 2048 simple_heap] by (auto simp: MIN_LARGE_BLOCK_SIZE_def)
qed

end
