(* ===== verification/Pool_Contract.thy ===== *)
theory Pool_Contract
  imports Memory_Pool_Machine
begin

text \<open>
  What clients rely on of a memory pool, whichever way it is built: a stack of sets of bytes. Clients use pools for scopes: they push, allocate, and
  pop when the objects are no longer needed.
\<close>

section \<open>Scopes\<close>

datatype scopes = Done | Allocate "64 word" scopes | Scope scopes scopes

primrec run_scopes :: "(int \<Rightarrow> 64 word \<Rightarrow> 's \<Rightarrow> (int \<times> 's) res) \<Rightarrow> (int \<Rightarrow> 's \<Rightarrow> 's res) \<Rightarrow> (int \<Rightarrow> 's \<Rightarrow> 's res) \<Rightarrow> int \<Rightarrow> scopes \<Rightarrow> 's \<Rightarrow> 's res" where
  "run_scopes alloc push pop p Done s = Inr s"
| "run_scopes alloc push pop p (Allocate n c) s = bindE (alloc p n s) (\<lambda>(_, s). run_scopes alloc push pop p c s)"
| "run_scopes alloc push pop p (Scope b c) s =
     bindE (push p s) (\<lambda>s. bindE (run_scopes alloc push pop p b s) (\<lambda>s. bindE (pop p s) (run_scopes alloc push pop p c)))"

primrec sizes_ok :: "scopes \<Rightarrow> bool" where
  "sizes_ok Done \<longleftrightarrow> True"
| "sizes_ok (Allocate n c) \<longleftrightarrow> size_ok n \<and> sizes_ok c"
| "sizes_ok (Scope b c) \<longleftrightarrow> sizes_ok b \<and> sizes_ok c"

definition bytes_same :: "(int \<Rightarrow> 8 word) \<Rightarrow> (int \<Rightarrow> 8 word) \<Rightarrow> int set list \<Rightarrow> bool" where
  "bytes_same m m' Xs \<longleftrightarrow> (\<forall>X \<in> set Xs. \<forall>x \<in> X. m' x = m x)"

section \<open>The contract\<close>

locale pool_contract =
  fixes good_state :: "'s \<Rightarrow> bool" and usable :: "'s \<Rightarrow> int \<Rightarrow> bool" and stack :: "'s \<Rightarrow> int \<Rightarrow> int set list" and contents :: "'s \<Rightarrow> int \<Rightarrow> 8 word"
    and alloc :: "int \<Rightarrow> 64 word \<Rightarrow> 's \<Rightarrow> (int \<times> 's) res" and push :: "int \<Rightarrow> 's \<Rightarrow> 's res" and pop :: "int \<Rightarrow> 's \<Rightarrow> 's res" and no_memory :: c_error
  assumes stack_nonempty: "good_state s \<Longrightarrow> usable s p \<Longrightarrow> stack s p \<noteq> []"
    and alloc_law: "good_state s \<Longrightarrow> usable s p \<Longrightarrow> size_ok n \<Longrightarrow> alloc p n s = Inl no_memory \<or>
      (\<exists>a s' k. alloc p n s = Inr (a, s') \<and> good_state s' \<and> usable s' p \<and> uint n \<le> k \<and> stack s' p = (hd (stack s p) \<union> {a ..< a + k}) # tl (stack s p) \<and>
        bytes_same (contents s) (contents s') (stack s p))"
    and push_law: "good_state s \<Longrightarrow> usable s p \<Longrightarrow> push p s = Inl no_memory \<or>
      (\<exists>s'. push p s = Inr s' \<and> good_state s' \<and> usable s' p \<and> stack s' p = {} # stack s p \<and> bytes_same (contents s) (contents s') (stack s p))"
    and pop_law: "good_state s \<Longrightarrow> usable s p \<Longrightarrow> stack s p = X # Y # Xs \<Longrightarrow>
      \<exists>s'. pop p s = Inr s' \<and> good_state s' \<and> usable s' p \<and> stack s' p = Y # Xs \<and> bytes_same (contents s) (contents s') (Y # Xs)"
begin

text \<open>Scopes leave the lower levels and all contents as they were, and only run out of memory.\<close>

lemma run_scopes_ok:
  "good_state s \<Longrightarrow> usable s p \<Longrightarrow> sizes_ok c \<Longrightarrow> run_scopes alloc push pop p c s = Inl no_memory \<or>
    (\<exists>s'. run_scopes alloc push pop p c s = Inr s' \<and> good_state s' \<and> usable s' p \<and> tl (stack s' p) = tl (stack s p) \<and> hd (stack s p) \<subseteq> hd (stack s' p) \<and>
      bytes_same (contents s) (contents s') (stack s p))"
proof (induction c arbitrary: s)
  case Done
  then show ?case by (simp add: bytes_same_def)
next
  case (Allocate n c)
  have sz: "size_ok n" "sizes_ok c" using Allocate.prems(3) by simp_all
  from alloc_law [OF Allocate.prems(1,2) sz(1)] show ?case
  proof (elim disjE exE conjE)
    fix a s1 k
    assume 1: "alloc p n s = Inr (a, s1)" "good_state s1" "usable s1 p" "stack s1 p = (hd (stack s p) \<union> {a ..< a + k}) # tl (stack s p)" "bytes_same (contents s) (contents s1) (stack s p)"
    from Allocate.IH [OF 1(2,3) sz(2)] show ?thesis
    proof (elim disjE exE conjE)
      fix s2 assume 2: "run_scopes alloc push pop p c s1 = Inr s2" "good_state s2" "usable s2 p" "tl (stack s2 p) = tl (stack s1 p)" "hd (stack s1 p) \<subseteq> hd (stack s2 p)"
        "bytes_same (contents s1) (contents s2) (stack s1 p)"
      have "stack s p = hd (stack s p) # tl (stack s p)" using stack_nonempty [OF Allocate.prems(1,2)] by simp
      then have "bytes_same (contents s) (contents s2) (stack s p)" using 1(4,5) 2(6) unfolding bytes_same_def by (metis UnI1 list.set_intros set_ConsD)
      then show ?thesis using 1 2 by auto
    qed (use 1(1) in simp_all)
  qed simp_all
next
  case (Scope b c)
  have sz: "sizes_ok b" "sizes_ok c" using Scope.prems(3) by simp_all
  from push_law [OF Scope.prems(1,2)] show ?case
  proof (elim disjE exE conjE)
    fix s1 assume 1: "push p s = Inr s1" "good_state s1" "usable s1 p" "stack s1 p = {} # stack s p" "bytes_same (contents s) (contents s1) (stack s p)"
    from Scope.IH(1) [OF 1(2,3) sz(1)] show ?thesis
    proof (elim disjE exE conjE)
      fix s2 assume 2: "run_scopes alloc push pop p b s1 = Inr s2" "good_state s2" "usable s2 p" "tl (stack s2 p) = tl (stack s1 p)" "bytes_same (contents s1) (contents s2) (stack s1 p)"
      obtain Y Xs where st: "stack s p = Y # Xs" using stack_nonempty [OF Scope.prems(1,2)] by (cases "stack s p") auto
      then have "stack s2 p = hd (stack s2 p) # Y # Xs" using 1(4) 2(4) stack_nonempty [OF 2(2,3)] by (cases "stack s2 p") auto
      from pop_law [OF 2(2,3) this] obtain s3 where 3: "pop p s2 = Inr s3" "good_state s3" "usable s3 p" "stack s3 p = Y # Xs" "bytes_same (contents s2) (contents s3) (Y # Xs)" by blast
      have same: "bytes_same (contents s) (contents s3) (stack s p)" using 1(4,5) 2(5) 3(5) st unfolding bytes_same_def by simp
      from Scope.IH(2) [OF 3(2,3) sz(2)] show ?thesis
      proof (elim disjE exE conjE)
        fix s4 assume 4: "run_scopes alloc push pop p c s3 = Inr s4" "good_state s4" "usable s4 p" "tl (stack s4 p) = tl (stack s3 p)" "hd (stack s3 p) \<subseteq> hd (stack s4 p)"
          "bytes_same (contents s3) (contents s4) (stack s3 p)"
        have "bytes_same (contents s) (contents s4) (stack s p)" using same 4(6) 3(4) st unfolding bytes_same_def by simp
        then show ?thesis using 1(1) 2(1) 3(1,4) 4 st by simp
      qed (use 1(1) 2(1) 3(1) in simp_all)
    qed (use 1(1) in simp_all)
  qed simp_all
qed

lemma scope_restores:
  assumes "good_state s" and "usable s p" and "sizes_ok c"
  shows "run_scopes alloc push pop p (Scope c Done) s = Inl no_memory \<or>
    (\<exists>s'. run_scopes alloc push pop p (Scope c Done) s = Inr s' \<and> good_state s' \<and> usable s' p \<and> stack s' p = stack s p \<and> bytes_same (contents s) (contents s') (stack s p))"
  using push_law [OF assms(1,2)]
proof (elim disjE exE conjE)
  fix s1 assume 1: "push p s = Inr s1" "good_state s1" "usable s1 p" "stack s1 p = {} # stack s p" "bytes_same (contents s) (contents s1) (stack s p)"
  from run_scopes_ok [OF 1(2,3) assms(3)] show ?thesis
  proof (elim disjE exE conjE)
    fix s2 assume 2: "run_scopes alloc push pop p c s1 = Inr s2" "good_state s2" "usable s2 p" "tl (stack s2 p) = tl (stack s1 p)" "bytes_same (contents s1) (contents s2) (stack s1 p)"
    obtain Y Xs where st: "stack s p = Y # Xs" using stack_nonempty [OF assms(1,2)] by (cases "stack s p") auto
    then have "stack s2 p = hd (stack s2 p) # Y # Xs" using 1(4) 2(4) stack_nonempty [OF 2(2,3)] by (cases "stack s2 p") auto
    from pop_law [OF 2(2,3) this] obtain s3 where 3: "pop p s2 = Inr s3" "good_state s3" "usable s3 p" "stack s3 p = Y # Xs" "bytes_same (contents s2) (contents s3) (Y # Xs)" by blast
    have "bytes_same (contents s) (contents s3) (stack s p)" using 1(4,5) 2(5) 3(5) st unfolding bytes_same_def by simp
    then show ?thesis using 1(1) 2(1) 3 st by simp
  qed (use 1(1) in simp)
qed simp

end

end
