(* ===== verification/Memory_Purify_Properties.thy ===== *)
theory Memory_Purify_Properties
  imports Memory_Purify_Machine Memory_Pool_Properties Pool_Contract
begin

text \<open>
  The properties of the purify option, and that both forms of the memory pools keep the contract of \<^verbatim>\<open>Pool_Contract\<close>.
\<close>

section \<open>Both forms keep the contract\<close>

sublocale c_library \<subseteq> regular: pool_contract pools_ok "\<lambda>st p. in_use st p \<and> \<not> pool_frozen (mem_pools st p)" pool_stack bytes
    "MEM_POOL_Alloc_P os" "MEM_POOL_Push_P os" MEM_POOL_Pop_P No_Memory
proof
  fix st p assume ok: "pools_ok st" and use: "in_use st p \<and> \<not> pool_frozen (mem_pools st p)"
  obtain F where g: "good st (levels_of st) F" using ok by (rule pools_okE)
  note inv = goodD(1) [OF g] and U = in_useD [OF g conjunct1 [OF use]]
  obtain l ls where L: "levels_of st p = l # ls" using U(1) by (cases "levels_of st p") auto
  have len: "length (pool_stack st p) = length (levels_of st p)" by (simp add: pool_stack_def length_live)
  then show "pool_stack st p \<noteq> []" using L by auto
  show "MEM_POOL_Push_P os p st = Inl No_Memory \<or>
      (\<exists>s'. MEM_POOL_Push_P os p st = Inr s' \<and> pools_ok s' \<and> (in_use s' p \<and> \<not> pool_frozen (mem_pools s' p)) \<and> pool_stack s' p = {} # pool_stack st p \<and>
        bytes_same (bytes st) (bytes s') (pool_stack st p))"
    using push_good [OF g conjunct1 [OF use] conjunct2 [OF use]]
  proof cases
    case (2 st' L' F')
    note g' = pools_okI [OF 2(2)]
    have "bytes_same (bytes st) (bytes st') (pool_stack st p)" using kept_live [OF inv 2(5)] by (simp add: bytes_same_def pool_stack_def)
    moreover have "in_use st' p \<and> \<not> pool_frozen (mem_pools st' p)" using 2(7) use by (auto simp: in_use_def)
    ultimately show ?thesis using 2(1,3) g' by (simp add: pool_stack_def)
  qed simp
  show "MEM_POOL_Alloc_P os p n st = Inl No_Memory \<or>
      (\<exists>a s' k. MEM_POOL_Alloc_P os p n st = Inr (a, s') \<and> pools_ok s' \<and> (in_use s' p \<and> \<not> pool_frozen (mem_pools s' p)) \<and> uint n \<le> k \<and>
        pool_stack s' p = (hd (pool_stack st p) \<union> {a ..< a + k}) # tl (pool_stack st p) \<and> bytes_same (bytes st) (bytes s') (pool_stack st p))" if sz: "size_ok n" for n
  proof -
    have n: "uint n < 2147483608" using sz by (simp add: size_ok_def)
    show ?thesis
    proof (cases rule: Alloc_P_ok [OF inv U(1) n])
      case (2 a st' L')
      note A = 2(2) [unfolded alloc_ok_def]
      have g': "pools_ok st'" "levels_of st' = L'" using pools_okI [OF alloc_good [OF g 2(2) U(1)]] by simp_all
      have k: "kept st st'" and pools: "mem_pools st' = mem_pools st" using A by blast+
      have "bytes_same (bytes st) (bytes st') (pool_stack st p)" using kept_live [OF inv k] by (simp add: bytes_same_def pool_stack_def)
      moreover have "in_use st' p \<and> \<not> pool_frozen (mem_pools st' p)" using pools use by (simp add: in_use_def)
      moreover have "pool_stack st' p = (hd (pool_stack st p) \<union> {a ..< a + uint (PAD_TO_ALIGN n)}) # tl (pool_stack st p)" using A g'(2) by (simp add: pool_stack_def)
      moreover have "uint n \<le> uint (PAD_TO_ALIGN n)" using pad_small(2) n by simp
      ultimately show ?thesis using 2(1) g'(1) by blast
    qed simp
  qed
  show "\<exists>s'. MEM_POOL_Pop_P p st = Inr s' \<and> pools_ok s' \<and> (in_use s' p \<and> \<not> pool_frozen (mem_pools s' p)) \<and> pool_stack s' p = Y # Xs \<and>
      bytes_same (bytes st) (bytes s') (Y # Xs)" if stack: "pool_stack st p = X # Y # Xs" for X Y Xs
  proof -
    obtain st' L' F' where pop: "MEM_POOL_Pop_P p st = Inr st'" "pop_ok st (levels_of st) p st' L' F'" using Pop_P_ok [OF inv L U(4) conjunct2 [OF use]] by blast
    note K = pop(2) [unfolded pop_ok_def] and g' = pools_okI [OF pop_good [OF g pop(2) U(1)]]
    have "tl (levels_of st p) \<noteq> []" using len stack L by auto
    moreover have "live st' (L' p) = (if tl (levels_of st p) = [] then [{}] else tl (live st (levels_of st p)))" using K by blast
    ultimately have ps: "pool_stack st' p = Y # Xs" using stack g' by (simp add: pool_stack_def)
    have "bytes st' x = bytes st x" if "Z \<in> set (live st' (L' p))" "x \<in> Z" for Z x using K that by blast
    then have "bytes_same (bytes st) (bytes st') (Y # Xs)" using ps g' unfolding bytes_same_def pool_stack_def by simp
    moreover have "in_use st' p \<and> \<not> pool_frozen (mem_pools st' p)" using K U(5) use by (simp add: in_use_def)
    ultimately show ?thesis using pop(1) g' ps by blast
  qed
qed

lemma pure_same:
  assumes "pure_ok st" and "pure_kept st st' A" and "\<And>c. c \<in> set (cells ls) \<Longrightarrow> c \<notin> A" and "level_wf (sys (heap st)) ls"
  shows "pure_live st' ls = pure_live st ls" and "bytes_same (bytes (heap st)) (bytes (heap st')) (pure_live st ls)"
proof -
  show "pure_live st' ls = pure_live st ls"
    by (rule pure_live_same) (use level_wfD(3) [OF assms(4)] pure_keptD [OF assms(2)] assms(3) in fastforce)
  show "bytes_same (bytes (heap st)) (bytes (heap st')) (pure_live st ls)"
    unfolding bytes_same_def
  proof (intro ballI)
    fix X x assume X: "X \<in> set (pure_live st ls)" "x \<in> X"
    obtain c n where c: "c \<in> set (cells ls)" "(c, n) \<in> set (sys (heap st))" "c + 8 \<le> x" "x < c + n" by (rule live_in_area [OF assms(4) X])
    have "map_of (sys (heap st)) c = Some n" using sys_okD(1) [OF pure_invD(1) [OF pure_okD(1) [OF assms(1)]]] c(2) by simp
    then show "bytes (heap st') x = bytes (heap st) x" using assms(2,3) c unfolding pure_kept_def by simp
  qed
qed

sublocale c_library \<subseteq> purified: pool_contract pure_ok "\<lambda>st p. pure_levels st p \<noteq> [] \<and> \<not> pool_frozen (mem_pools (heap st) p)" pure_pool_stack "\<lambda>st. bytes (heap st)"
    "MEM_POOL_Alloc_pure os" "MEM_POOL_Push_pure os" MEM_POOL_Pop_pure Is_True_Failed
proof
  fix st p assume ok: "pure_ok st" and use: "pure_levels st p \<noteq> [] \<and> \<not> pool_frozen (mem_pools (heap st) p)"
  obtain s cs ls where P: "pure_levels st p = (s, cs) # ls" using use by (metis neq_Nil_conv surj_pair)
  note wf = pure_invD(3) [OF pure_okD(1) [OF ok], of p]
  have iu: "in_use (heap st) p" using pure_okD(2) [OF ok] P by simp
  show "pure_pool_stack st p \<noteq> []" using P by (simp add: pure_pool_stack_def pure_live_def)
  show "MEM_POOL_Push_pure os p st = Inl Is_True_Failed \<or>
      (\<exists>s'. MEM_POOL_Push_pure os p st = Inr s' \<and> pure_ok s' \<and> (pure_levels s' p \<noteq> [] \<and> \<not> pool_frozen (mem_pools (heap s') p)) \<and>
        pure_pool_stack s' p = {} # pure_pool_stack st p \<and> bytes_same (bytes (heap st)) (bytes (heap s')) (pure_pool_stack st p))"
  proof (cases "os_malloc os (sys (heap st)) 16 = 0")
    case True
    from pure_okD(1) [OF ok] in_use_magicD [OF iu] conjunct2 [OF use] show ?thesis by (cases rule: Push_pure_ok) (use True in simp_all)
  next
    case False
    obtain st' t where st': "MEM_POOL_Push_pure os p st = Inr st'" "pure_ok st'" "pure_levels st' = (pure_levels st)(p := (t, []) # pure_levels st p)" "pure_kept st st' {}"
        "mem_pools (heap st') = (mem_pools (heap st))(p := (mem_pools (heap st) p)\<lparr>pool_blocks := 1\<rparr>)"
      by (rule push_pure [OF ok iu conjunct2 [OF use] False])
    have "pure_live st' (pure_levels st p) = pure_live st (pure_levels st p)" "bytes_same (bytes (heap st)) (bytes (heap st')) (pure_live st (pure_levels st p))"
      by (rule pure_same [OF ok st'(4) _ wf]; simp)+
    then show ?thesis using st' use by (simp add: pure_pool_stack_def pure_live_def)
  qed
  show "MEM_POOL_Alloc_pure os p n st = Inl Is_True_Failed \<or>
      (\<exists>a s' k. MEM_POOL_Alloc_pure os p n st = Inr (a, s') \<and> pure_ok s' \<and> (pure_levels s' p \<noteq> [] \<and> \<not> pool_frozen (mem_pools (heap s') p)) \<and> uint n \<le> k \<and>
        pure_pool_stack s' p = (hd (pure_pool_stack st p) \<union> {a ..< a + k}) # tl (pure_pool_stack st p) \<and> bytes_same (bytes (heap st)) (bytes (heap s')) (pure_pool_stack st p))"
    if sz: "size_ok n" for n
  proof (cases "os_malloc os (sys (heap st)) (uint n + 8) = 0")
    case True
    from pure_okD(1) [OF ok] in_use_magicD [OF iu] P sz show ?thesis by (cases rule: Alloc_pure_ok) (use True in simp_all)
  next
    case False
    obtain a st' where st': "MEM_POOL_Alloc_pure os p n st = Inr (a + 8, st')" "pure_ok st'" "pure_levels st' = (pure_levels st)(p := (s, a # cs) # ls)" "pure_kept st st' {}"
        "map_of (sys (heap st')) a = Some (uint n + 8)" "\<exists>b. mem_pools (heap st') = (mem_pools (heap st))(p := (mem_pools (heap st) p)\<lparr>pool_blocks := b\<rparr>)"
      using alloc_pure [OF ok P sz False] by metis
    have same: "pure_live st' (pure_levels st p) = pure_live st (pure_levels st p)" "bytes_same (bytes (heap st)) (bytes (heap st')) (pure_live st (pure_levels st p))"
      by (rule pure_same [OF ok st'(4) _ wf]; simp)+
    then have "pure_pool_stack st' p = (hd (pure_pool_stack st p) \<union> {a + 8 ..< a + 8 + uint n}) # tl (pure_pool_stack st p)"
      using P st'(3,5) by (auto simp: pure_pool_stack_def pure_live_def pure_bytes_def ac_simps)
    moreover have "\<not> pool_frozen (mem_pools (heap st') p)" using st'(6) use by auto
    ultimately show ?thesis using st'(1,2,3) same(2) by (intro disjI2 exI [of _ "a + 8"] exI [of _ st'] exI [of _ "uint n"] conjI) (simp_all add: pure_pool_stack_def)
  qed
  show "\<exists>s'. MEM_POOL_Pop_pure p st = Inr s' \<and> pure_ok s' \<and> (pure_levels s' p \<noteq> [] \<and> \<not> pool_frozen (mem_pools (heap s') p)) \<and> pure_pool_stack s' p = Y # Xs \<and>
      bytes_same (bytes (heap st)) (bytes (heap s')) (Y # Xs)" if stack: "pure_pool_stack st p = X # Y # Xs" for X Y Xs
  proof -
    obtain st' where st': "MEM_POOL_Pop_pure p st = Inr st'" "pure_ok st'" "pure_levels st' = (pure_levels st)(p := ls)" "pure_kept st st' (insert s (set cs))" "mem_pools (heap st') = mem_pools (heap st)"
      using pop_pure [OF ok P conjunct2 [OF use]] by metis
    have d: "distinct (s # cs @ addrs ls)" using level_wfD(1) [OF wf] P by simp
    have wf': "level_wf (sys (heap st)) ls" using wf P unfolding level_wf_def by auto
    have out: "c \<notin> insert s (set cs)" if "c \<in> set (cells ls)" for c using that d cells_addrs [of ls] by auto
    have live: "pure_live st ls = Y # Xs" using stack P by (simp add: pure_pool_stack_def pure_live_def)
    have "pure_live st' ls = Y # Xs" "bytes_same (bytes (heap st)) (bytes (heap st')) (Y # Xs)"
      using pure_same [OF ok st'(4) out wf'] live by simp_all
    moreover have "ls \<noteq> []" using live by (auto simp: pure_live_def)
    ultimately show ?thesis using st' use by (simp add: pure_pool_stack_def)
  qed
qed

section \<open>Scopes\<close>

context c_library
begin

lemmas regular_scopes = regular.scope_restores

lemmas purified_scopes = purified.scope_restores

end

definition sample_pure :: pure_state where
  "sample_pure = (case MEM_POOL_Initialize_pure simple_heap 100 True purify_start of Inl _ \<Rightarrow> purify_start | Inr st \<Rightarrow> st)"

lemma sample_pure_runs: "MEM_POOL_Initialize_pure simple_heap 100 True purify_start = Inr sample_pure" "pure_levels sample_pure 100 \<noteq> []" "\<not> pool_frozen (mem_pools (heap sample_pure) 100)"
proof -
  have "(case MEM_POOL_Initialize_pure simple_heap 100 True purify_start of Inl _ \<Rightarrow> False | Inr _ \<Rightarrow> True)" by code_simp
  then show "MEM_POOL_Initialize_pure simple_heap 100 True purify_start = Inr sample_pure" by (simp add: sample_pure_def split: sum.splits)
  show "pure_levels sample_pure 100 \<noteq> []" "\<not> pool_frozen (mem_pools (heap sample_pure) 100)" by code_simp+
qed

lemma sample_pure_reached: "(pure_step simple_heap)\<^sup>*\<^sup>* purify_start sample_pure"
proof -
  have "pure_allowed purify_start (Op_Initialize 100 True)" by code_simp
  then have "pure_step simple_heap purify_start sample_pure" using sample_pure_runs(1) by (intro pure_step.call [of _ "Op_Initialize 100 True"]) simp_all
  then show ?thesis by blast
qed

text \<open>
  C10: both forms of the memory pools give their clients scopes: pushing a pool, running any program of allocations and further scopes on it and popping it leaves the
  objects of the pool exactly as they were, with their contents, in the regular form and with the purify option. Nothing but the lack of memory can
  stop such a program.
\<close>

theorem scopes_restore:
  assumes "c_library os" and "sizes_ok c"
  shows "(pools_ok st \<longrightarrow> in_use st p \<longrightarrow> \<not> pool_frozen (mem_pools st p) \<longrightarrow>
      run_scopes (MEM_POOL_Alloc_P os) (MEM_POOL_Push_P os) MEM_POOL_Pop_P p (Scope c Done) st = Inl No_Memory \<or>
      (\<exists>st'. run_scopes (MEM_POOL_Alloc_P os) (MEM_POOL_Push_P os) MEM_POOL_Pop_P p (Scope c Done) st = Inr st' \<and>
        pools_ok st' \<and> pool_stack st' p = pool_stack st p \<and> bytes_same (bytes st) (bytes st') (pool_stack st p))) \<and>
    (pure_ok ps \<longrightarrow> pure_levels ps p \<noteq> [] \<longrightarrow> \<not> pool_frozen (mem_pools (heap ps) p) \<longrightarrow>
      run_scopes (MEM_POOL_Alloc_pure os) (MEM_POOL_Push_pure os) MEM_POOL_Pop_pure p (Scope c Done) ps = Inl Is_True_Failed \<or>
      (\<exists>ps'. run_scopes (MEM_POOL_Alloc_pure os) (MEM_POOL_Push_pure os) MEM_POOL_Pop_pure p (Scope c Done) ps = Inr ps' \<and>
        pure_ok ps' \<and> pure_pool_stack ps' p = pure_pool_stack ps p \<and> bytes_same (bytes (heap ps)) (bytes (heap ps')) (pure_pool_stack ps p)))"
  using c_library.regular_scopes [OF assms(1) _ _ assms(2)] c_library.purified_scopes [OF assms(1) _ _ assms(2)] by blast

theorem scopes_restore_witness:
  "(\<exists>ps'. run_scopes (MEM_POOL_Alloc_pure simple_heap) (MEM_POOL_Push_pure simple_heap) MEM_POOL_Pop_pure 100 (Scope (Allocate 20 Done) Done) sample_pure = Inr ps' \<and>
     pure_pool_stack ps' 100 = pure_pool_stack sample_pure 100) \<and>
   (run_scopes (MEM_POOL_Alloc_P simple_heap) (MEM_POOL_Push_P simple_heap) MEM_POOL_Pop_P 100 (Scope (Allocate 20 Done) Done) (sample True) = Inl No_Memory \<or>
     (\<exists>st'. run_scopes (MEM_POOL_Alloc_P simple_heap) (MEM_POOL_Push_P simple_heap) MEM_POOL_Pop_P 100 (Scope (Allocate 20 Done) Done) (sample True) = Inr st' \<and>
       pool_stack st' 100 = pool_stack (sample True) 100))"
proof -
  let ?c = "Allocate 20 Done"
  have "(case run_scopes (MEM_POOL_Alloc_pure simple_heap) (MEM_POOL_Push_pure simple_heap) MEM_POOL_Pop_pure 100 (Scope ?c Done) sample_pure of Inl _ \<Rightarrow> False | Inr _ \<Rightarrow> True)" by code_simp
  then have "run_scopes (MEM_POOL_Alloc_pure simple_heap) (MEM_POOL_Push_pure simple_heap) MEM_POOL_Pop_pure 100 (Scope ?c Done) sample_pure \<noteq> Inl Is_True_Failed" by auto
  moreover have "sizes_ok ?c" by (simp add: size_ok_def)
  ultimately show ?thesis
    using scopes_restore [OF simple_heap.c_library_axioms, of ?c "sample True" 100 sample_pure] sample_ok(1) [of True] sample_pools(1,4) [of True]
      simple_heap.purify_reachable [OF sample_pure_reached] sample_pure_runs(2,3) by blast
qed

section \<open>Runs\<close>

text \<open>
  C11: with the purify option, too, a client that keeps its side of the contract never makes the package fail, in whatever order it initialises, pushes, pops, freezes and deletes pools and
  allocates, frees and reallocates objects of any level: the searches in the lists of the levels end and find the object, and a call fails exactly when the C library
  has no memory for it.
\<close>

theorem purify_run_safe:
  assumes "c_library os" and "(pure_step os)\<^sup>*\<^sup>* purify_start st" and "pure_allowed st op"
  shows "if pure_fails os st op then \<exists>e. pure_exec os op st = Inl e
    else \<exists>st'. pure_exec os op st = Inr st' \<and> (pure_step os)\<^sup>*\<^sup>* purify_start st'"
  using c_library.pure_step_ok [OF assms(1) c_library.purify_reachable [OF assms(1,2)] assms(3)] assms(2,3)
  by (auto split: if_splits intro: rtranclp.rtrancl_into_rtrancl pure_step.call)

theorem purify_run_safe_witness:
  "\<exists>st'. pure_exec simple_heap (Op_Alloc 100 20) sample_pure = Inr st' \<and> (pure_step simple_heap)\<^sup>*\<^sup>* purify_start st'"
proof -
  have "\<not> pure_fails simple_heap sample_pure (Op_Alloc 100 20)" by code_simp
  moreover have "pure_allowed sample_pure (Op_Alloc 100 20)" using sample_pure_runs(2) by (simp add: size_ok_def)
  ultimately show ?thesis using purify_run_safe [OF simple_heap.c_library_axioms sample_pure_reached, of "Op_Alloc 100 20"] by simp
qed

text \<open>
  With the purify option a pool that has been popped once more than pushed has no level left, and the next allocation fails; in the regular form the last level stays.
\<close>

theorem purify_last_pop:
  assumes "pure_ok st" and "in_use (heap st) p" and "pure_levels st p = []" and "size_ok n" and "os_malloc os (sys (heap st)) (uint n + 8) \<noteq> 0"
  shows "MEM_POOL_Alloc_pure os p n st = Inl Is_True_Failed"
proof -
  have "pool_pure_stack st p = 0" using pure_invD(2) [OF pure_okD(1) [OF assms(1)], of p] assms(3) by simp
  moreover have "0 \<le> uint n" by simp
  then have "u64 (uint n + 8) = uint n + 8" using assms(4) by (simp add: u64_def size_ok_def)
  ultimately show ?thesis using assms(2,5)
    by (simp add: MEM_POOL_Alloc_pure_def pure_Alloc_def pure_malloc_def c_malloc_def Let_def resolve_pool_def pool_of_def in_use_def client_pool_def pure_fill_def fill_def in_sys_def)
qed

theorem purify_last_pop_witness:
  "\<exists>st. MEM_POOL_Pop_pure 100 sample_pure = Inr st \<and> MEM_POOL_Alloc_pure simple_heap 100 20 st = Inl Is_True_Failed"
proof -
  obtain s cs ls where P: "pure_levels sample_pure 100 = (s, cs) # ls" using sample_pure_runs(2) by (metis neq_Nil_conv surj_pair)
  have "length (pure_levels sample_pure 100) = 1" by code_simp
  then have ls: "ls = []" using P by simp
  note ok = simple_heap.purify_reachable [OF sample_pure_reached]
  obtain st where st: "MEM_POOL_Pop_pure 100 sample_pure = Inr st" "pure_ok st" "pure_levels st = (pure_levels sample_pure)(100 := ls)" "mem_pools (heap st) = mem_pools (heap sample_pure)"
    using pop_pure [OF ok P sample_pure_runs(3)] by metis
  have "in_use (heap st) 100" using pure_okD(2) [OF ok, of 100] P st(4) by (simp add: in_use_def)
  moreover have "(case MEM_POOL_Pop_pure 100 sample_pure of Inl _ \<Rightarrow> False | Inr st \<Rightarrow> os_malloc simple_heap (sys (heap st)) 28 \<noteq> 0)" by code_simp
  moreover have "size_ok 20" by (simp add: size_ok_def)
  ultimately show ?thesis using purify_last_pop [OF st(2), of 100 20 simple_heap] st(1,3) ls by simp
qed

end
